(* ===== verification/Prelude.thy ===== *)
theory Prelude
  imports Main "HOL-Library.List_Lexorder" "HOL-Library.Char_ord" "HOL-Library.Product_Lexorder"
    "HOL-Library.AList" "HOL-Library.Monad_Syntax"
begin

text \<open>
  Shared vocabulary of the development: named collections of unfolding facts, SQL-like
  updates of a list of rows, Python containers (ordered dicts as association lists, stable
  sorting in both directions), and two generic interfaces: a transition system with an
  invariant, and a queue from which workers claim jobs.
\<close>

named_theorems step_defs \<open>definitions of the operations of a component\<close>
named_theorems inv_defs \<open>definitions of the invariants of a component\<close>

section \<open>Python values\<close>

text \<open>\<open>str(x or "")\<close> and \<open>int(x or 0)\<close> for a value that may be missing.\<close>

definition str_or_empty :: "string option \<Rightarrow> string" where
  "str_or_empty x = (case x of None \<Rightarrow> '''' | Some s \<Rightarrow> s)"

definition int_or_zero :: "int option \<Rightarrow> int" where
  "int_or_zero x = (case x of None \<Rightarrow> 0 | Some n \<Rightarrow> n)"

lemma str_or_empty_simps [simp]: "str_or_empty None = ''''" "str_or_empty (Some s) = s"
  by (simp_all add: str_or_empty_def)

lemma int_or_zero_simps [simp]: "int_or_zero None = 0" "int_or_zero (Some n) = n"
  by (simp_all add: int_or_zero_def)

lemma Some_in_Some_image [simp]: "Some x \<in> Some ` A \<longleftrightarrow> x \<in> A" "None \<notin> Some ` A"
  by auto

text \<open>\<open>sorted(xs, key=f, reverse=True)\<close>: descending, equal keys keep their order.\<close>

definition sort_desc_key :: "('a \<Rightarrow> 'k :: linorder) \<Rightarrow> 'a list \<Rightarrow> 'a list" where
  "sort_desc_key f xs = rev (sort_key f (rev xs))"

lemma set_sort_desc_key [simp]: "set (sort_desc_key f xs) = set xs"
  by (simp add: sort_desc_key_def)

lemma length_sort_desc_key [simp]: "length (sort_desc_key f xs) = length xs"
  by (simp add: sort_desc_key_def)

lemma sorted_sort_desc_key: "sorted_wrt (\<ge>) (map f (sort_desc_key f xs))"
proof -
  have "sorted (map f (sort_key f (rev xs)))" by simp
  then show ?thesis
    by (simp add: sort_desc_key_def rev_map [symmetric] sorted_wrt_rev)
qed

text \<open>ASCII case folding: \<open>str.lower\<close> and \<open>lower()\<close> on the status words of the program.\<close>

definition ascii_lower :: "char \<Rightarrow> char" where
  "ascii_lower c = (if 65 \<le> (of_char c :: nat) \<and> (of_char c :: nat) \<le> 90 then char_of ((of_char c :: nat) + 32) else c)"

definition lower_text :: "string \<Rightarrow> string" where
  "lower_text s = map ascii_lower s"

lemma distinct_map_comp: "distinct (map (\<lambda>x. g (f x)) xs) \<Longrightarrow> distinct (map f xs)"
  by (induction xs) auto

text \<open>The bounded \<open>IN\<close> lists of the SQL statements: \<open>xs[offset:offset + n]\<close> for \<open>range(0, len(xs), n)\<close>.\<close>

function chunks :: "nat \<Rightarrow> 'a list \<Rightarrow> 'a list list" where
  "chunks n xs = (if xs = [] \<or> n = 0 then [] else take n xs # chunks n (drop n xs))"
  by pat_completeness auto
termination
  by (relation "measure (\<lambda>(n, xs). length xs)") auto

declare chunks.simps [simp del]

lemma concat_chunks: "0 < n \<Longrightarrow> concat (chunks n xs) = xs"
proof (induction n xs rule: chunks.induct)
  case (1 n xs)
  then show ?case
    by (cases "xs = []") (simp_all add: chunks.simps [of n xs] chunks.simps [of n "[]"])
qed


section \<open>Tables\<close>

text \<open>\<open>UPDATE ... SET f WHERE P\<close> on a table kept as a list of rows, and its \<open>rowcount\<close>.\<close>

definition update_where :: "('r \<Rightarrow> bool) \<Rightarrow> ('r \<Rightarrow> 'r) \<Rightarrow> 'r list \<Rightarrow> 'r list" where
  "update_where P f rows = map (\<lambda>r. if P r then f r else r) rows"

definition count_where :: "('r \<Rightarrow> bool) \<Rightarrow> 'r list \<Rightarrow> int" where
  "count_where P rows = int (length (filter P rows))"

definition find_row :: "('r \<Rightarrow> 'k) \<Rightarrow> 'k \<Rightarrow> 'r list \<Rightarrow> 'r option" where
  "find_row key k rows = List.find (\<lambda>r. key r = k) rows"

lemma update_where_simps [simp]:
  "update_where P f [] = []"
  "update_where P f (r # rs) = (if P r then f r else r) # update_where P f rs"
  "update_where P f (rs @ ss) = update_where P f rs @ update_where P f ss"
  by (simp_all add: update_where_def)

lemma length_update_where [simp]: "length (update_where P f rows) = length rows"
  by (simp add: update_where_def)

lemma in_set_update_where:
  "r \<in> set (update_where P f rows) \<longleftrightarrow> (\<exists>s \<in> set rows. r = (if P s then f s else s))"
  by (auto simp: update_where_def)

lemma update_where_keys:
  "(\<And>r. P r \<Longrightarrow> key (f r) = key r) \<Longrightarrow> map key (update_where P f rows) = map key rows"
  by (induction rows) auto

lemma update_where_id: "(\<And>r. r \<in> set rows \<Longrightarrow> \<not> P r) \<Longrightarrow> update_where P f rows = rows"
  by (induction rows) auto

lemma update_where_update_where:
  "update_where Q g (update_where P f rows)
     = map (\<lambda>r. let s = (if P r then f r else r) in if Q s then g s else s) rows"
  by (simp add: update_where_def Let_def)

lemma count_where_simps [simp]:
  "count_where P [] = 0"
  "count_where P (r # rs) = (if P r then 1 else 0) + count_where P rs"
  "count_where P (rs @ ss) = count_where P rs + count_where P ss"
  by (simp_all add: count_where_def)

lemma count_where_nonneg [simp]: "0 \<le> count_where P rows"
  by (simp add: count_where_def)

lemma count_where_zero_iff: "count_where P rows = 0 \<longleftrightarrow> (\<forall>r \<in> set rows. \<not> P r)"
  by (simp add: count_where_def filter_empty_conv)

lemma count_where_pos_iff: "0 < count_where P rows \<longleftrightarrow> (\<exists>r \<in> set rows. P r)"
  by (metis count_where_nonneg count_where_zero_iff less_le)

lemma count_where_cong:
  "(\<And>r. r \<in> set rows \<Longrightarrow> P r = Q r) \<Longrightarrow> count_where P rows = count_where Q rows"
  by (induction rows) auto

lemma find_row_simps [simp]:
  "find_row key k [] = None"
  "find_row key k (r # rs) = (if key r = k then Some r else find_row key k rs)"
  by (simp_all add: find_row_def)

lemma find_row_None: "find_row key k rows = None \<longleftrightarrow> k \<notin> key ` set rows"
  by (induction rows) auto

lemma find_row_SomeD: "find_row key k rows = Some r \<Longrightarrow> r \<in> set rows \<and> key r = k"
  by (induction rows) (auto split: if_splits)

lemma find_row_iff:
  "distinct (map key rows) \<Longrightarrow> find_row key k rows = Some r \<longleftrightarrow> r \<in> set rows \<and> key r = k"
  by (induction rows) (auto simp: image_iff)

lemma find_row_in [simp]:
  "distinct (map key rows) \<Longrightarrow> r \<in> set rows \<Longrightarrow> find_row key (key r) rows = Some r"
  by (simp add: find_row_iff)

lemma find_row_append:
  "find_row key k (rs @ ss) = (case find_row key k rs of None \<Rightarrow> find_row key k ss | Some r \<Rightarrow> Some r)"
  by (induction rs) auto

lemma find_row_update_where:
  "(\<And>r. P r \<Longrightarrow> key (f r) = key r) \<Longrightarrow>
   find_row key k (update_where P f rows)
     = map_option (\<lambda>r. if P r then f r else r) (find_row key k rows)"
  by (induction rows) auto

lemma distinct_key_unique:
  "distinct (map key rows) \<Longrightarrow> r \<in> set rows \<Longrightarrow> s \<in> set rows \<Longrightarrow> key r = key s \<Longrightarrow> r = s"
  by (metis find_row_in option.inject)

text \<open>A loop of statements each of which changes the row of one key, over distinct keys.\<close>

lemma foldl_keyed_update:
  assumes step: "\<And>t k l j. find_row key j (g t (k, l)) = map_option (\<lambda>r. if j = k then h l r else r) (find_row key j t)"
    and "distinct (map fst kls)"
  shows "find_row key j (foldl g t kls)
    = map_option (\<lambda>r. case map_of kls j of None \<Rightarrow> r | Some l \<Rightarrow> h l r) (find_row key j t)"
  using assms(2)
proof (induction kls arbitrary: t)
  case Nil
  then show ?case by (simp add: option.map_ident)
next
  case (Cons kl kls)
  obtain k l where kl: "kl = (k, l)" by (rule prod.exhaust)
  have "map_of kls k = None" using Cons.prems kl by (simp add: map_of_eq_None_iff)
  then show ?case
    using Cons by (cases "find_row key j t") (simp_all add: kl step)
qed

lemma map_of_map_filter:
  assumes "distinct (map kf items)" "x \<in> set items" "\<And>x k v. f x = Some (k, v) \<Longrightarrow> k = kf x"
  shows "map_of (List.map_filter f items) (kf x) = map_option snd (f x)"
  using assms(1,2)
proof (induction items)
  case (Cons y ys)
  have other: "map_of (List.map_filter f zs) k = None" if "k \<notin> kf ` set zs" for zs k
    using that
  proof (induction zs)
    case (Cons z zs)
    then show ?case using assms(3) [of z] by (cases "f z") (auto simp: List.map_filter_def)
  qed (simp add: List.map_filter_def)
  show ?case
  proof (cases "x = y")
    case True
    with Cons.prems have "kf x \<notin> kf ` set ys" by auto
    with True other [of "kf x" ys] show ?thesis
      using assms(3) [of y] by (cases "f y") (auto simp: List.map_filter_def)
  next
    case False
    with Cons.prems have x: "x \<in> set ys" "kf y \<noteq> kf x" by auto
    with Cons show ?thesis
      using assms(3) [of y] by (cases "f y") (auto simp: List.map_filter_def)
  qed
qed simp

lemma map_of_map_filter_None:
  assumes "k \<notin> kf ` set items" "\<And>x k v. f x = Some (k, v) \<Longrightarrow> k = kf x"
  shows "map_of (List.map_filter f items) k = None"
  using assms(1)
proof (induction items)
  case (Cons z zs)
  then show ?case using assms(2) [of z] by (cases "f z") (auto simp: List.map_filter_def)
qed (simp add: List.map_filter_def)

lemma map_filter_Nil_iff: "List.map_filter f xs = [] \<longleftrightarrow> (\<forall>x \<in> set xs. f x = None)"
  by (induction xs) (auto simp: List.map_filter_def)

lemma distinct_map_filter_keys:
  assumes "distinct (map kf items)" "\<And>x k v. f x = Some (k, v) \<Longrightarrow> k = kf x"
  shows "distinct (map fst (List.map_filter f items))"
  using assms(1)
proof (induction items)
  case (Cons y ys)
  have "k \<in> kf ` set ys" if "x \<in> set ys" "f x = Some (k, v)" for x k v
    using assms(2) [OF that(2)] that(1) by simp
  then have sub: "fst ` set (List.map_filter f ys) \<subseteq> kf ` set ys"
    by (auto simp: List.map_filter_def)
  show ?case
  proof (cases "f y")
    case None
    with Cons show ?thesis by (simp add: List.map_filter_def)
  next
    case (Some kv)
    obtain k v where kv: "kv = (k, v)" by (rule prod.exhaust)
    then have "k = kf y" using assms(2) Some by blast
    with sub Cons.prems have "k \<notin> fst ` set (List.map_filter f ys)" by auto
    moreover have "List.map_filter f (y # ys) = (k, v) # List.map_filter f ys"
      using Some kv by (simp add: List.map_filter_def)
    ultimately show ?thesis using Cons by simp
  qed
qed (simp add: List.map_filter_def)

lemma foldl_inv: "P s \<Longrightarrow> (\<And>s x. x \<in> set xs \<Longrightarrow> P s \<Longrightarrow> P (f s x)) \<Longrightarrow> P (foldl f s xs)"
  by (induction xs arbitrary: s) auto

lemma set_alist_update: "set (AList.update k v xs) \<subseteq> insert (k, v) (set xs)"
  by (induction xs) auto

section \<open>Transition systems with an invariant\<close>

text \<open>
  Every stateful component states one step lemma per operation; a component whose operations
  are collected in a step relation gets its reachable-state theorem from this interface.
\<close>

locale transition_system =
  fixes step :: "'s \<Rightarrow> 's \<Rightarrow> bool"
    and inv :: "'s \<Rightarrow> bool"
  assumes step_inv: "step s t \<Longrightarrow> inv s \<Longrightarrow> inv t"
begin

lemma reachable_inv: "step\<^sup>*\<^sup>* s t \<Longrightarrow> inv s \<Longrightarrow> inv t"
  by (induction rule: rtranclp_induct) (auto intro: step_inv)

lemma reachable_frame:
  assumes "\<And>s t. inv s \<Longrightarrow> step s t \<Longrightarrow> P s \<Longrightarrow> P t" "step\<^sup>*\<^sup>* s t" "inv s" "P s"
  shows "P t"
  using assms(2) assms(3,4)
proof (induction rule: rtranclp_induct)
  case base
  then show ?case by simp
next
  case (step u v)
  then have "inv u" "P u" by (auto intro: reachable_inv)
  with step show ?case by (blast intro: assms(1))
qed

end

section \<open>Claiming jobs\<close>

text \<open>
  A queue from which several workers claim jobs. What the workers rely on: a claimed job was
  not claimed before and is claimed afterwards, and a claim touches no other job.
\<close>

locale claim_queue =
  fixes claim :: "'s \<Rightarrow> ('k \<times> 's) option"
    and claimed :: "'s \<Rightarrow> 'k set"
    and wf :: "'s \<Rightarrow> bool"
  assumes claim_fresh: "wf s \<Longrightarrow> claim s = Some (k, t) \<Longrightarrow> k \<notin> claimed s"
    and claim_marks: "wf s \<Longrightarrow> claim s = Some (k, t) \<Longrightarrow> claimed t = insert k (claimed s)"
    and claim_wf: "wf s \<Longrightarrow> claim s = Some (k, t) \<Longrightarrow> wf t"
begin

primrec claims :: "nat \<Rightarrow> 's \<Rightarrow> 'k list \<times> 's" where
  "claims 0 s = ([], s)"
| "claims (Suc n) s = (case claim s of None \<Rightarrow> ([], s)
     | Some (k, t) \<Rightarrow> (case claims n t of (ks, u) \<Rightarrow> (k # ks, u)))"

lemma claims_distinct:
  "wf s \<Longrightarrow> claims n s = (ks, t)
     \<Longrightarrow> distinct ks \<and> set ks \<inter> claimed s = {} \<and> claimed t = claimed s \<union> set ks \<and> wf t"
proof (induction n arbitrary: s ks)
  case 0
  then show ?case by simp
next
  case (Suc n)
  show ?case
  proof (cases "claim s")
    case None
    with Suc.prems show ?thesis by simp
  next
    case (Some kt)
    obtain k u where kt: "kt = (k, u)" by fastforce
    obtain ks' v where rest: "claims n u = (ks', v)" by fastforce
    with Suc.prems Some kt have ks: "ks = k # ks'" "t = v" by auto
    have "wf u" using claim_wf Suc.prems Some kt by blast
    from Suc.IH [OF this, of ks'] rest ks
    have "distinct ks' \<and> set ks' \<inter> claimed u = {} \<and> claimed t = claimed u \<union> set ks' \<and> wf t"
      by auto
    moreover have "claimed u = insert k (claimed s)" "k \<notin> claimed s"
      using claim_marks claim_fresh Suc.prems Some kt by blast+
    ultimately show ?thesis using ks by auto
  qed
qed

end

end
