(* ===== verification/Checksum.thy ===== *)
theory Checksum
  imports Prelude "HOL-Library.Word"
begin

text \<open>
  \<open>app/checksum.py\<close>: the CRC64-ECMA/XZ checksum every downloaded binlog is compared with.
  The code keeps a Python integer that never exceeds 64 bits, so the state is a
  \<open>64 word\<close> and a byte an \<open>8 word\<close>. The lemmas relate the table-driven update to the
  bit-serial division it implements and show that it detects every changed byte.
\<close>

unbundle bit_operations_syntax

type_synonym byte = "8 word"
type_synonym crc = "64 word"

section \<open>The code\<close>

definition MASK :: crc where
  "MASK = 0xFFFFFFFFFFFFFFFF"

definition POLY_REVERSED :: crc where
  "POLY_REVERSED = 0xC96C5795D7870F42"

text \<open>One iteration of the inner loop of \<open>_build_table\<close>.\<close>

definition crc_bit :: "crc \<Rightarrow> crc" where
  "crc_bit crc = drop_bit 1 crc XOR (if crc AND 1 \<noteq> 0 then POLY_REVERSED else 0)"

definition build_table :: "crc list" where
  "build_table = map (\<lambda>value. (crc_bit ^^ 8) (word_of_nat value) AND MASK) [0..<256]"

definition crc_step :: "crc \<Rightarrow> byte \<Rightarrow> crc" where
  "crc_step state byte =
     build_table ! unat ((state XOR ucast byte) AND 0xFF) XOR drop_bit 8 state"

definition crc64_xz_update :: "byte list \<Rightarrow> crc \<Rightarrow> crc" where
  "crc64_xz_update data crc = foldl crc_step (crc XOR MASK) data XOR MASK"

text \<open>
  \<open>crc64_file\<close>: \<open>handle.read(chunk_size)\<close> returns the next \<open>chunk_size\<close> bytes, fewer at
  the end of the file, and the loop stops at the first empty chunk.
\<close>

function crc64_file_loop :: "nat \<Rightarrow> byte list \<Rightarrow> crc \<Rightarrow> crc" where
  "crc64_file_loop chunk_size rest crc =
     (let chunk = take chunk_size rest
      in if chunk = [] then crc
         else crc64_file_loop chunk_size (drop chunk_size rest) (crc64_xz_update chunk crc))"
  by pat_completeness auto
termination
  by (relation "measure (\<lambda>(_, rest, _). length rest)") auto

declare crc64_file_loop.simps [simp del]

definition crc64_file :: "byte list \<Rightarrow> nat \<Rightarrow> crc" where
  "crc64_file content chunk_size = crc64_file_loop chunk_size content 0"

section \<open>Bit-serial reference\<close>

definition crc_step_bits :: "crc \<Rightarrow> byte \<Rightarrow> crc" where
  "crc_step_bits state byte = (crc_bit ^^ 8) (state XOR ucast byte)"

lemma MASK_minus_1: "MASK = - 1"
  by (simp add: MASK_def)

lemma MASK_and [simp]: "x AND MASK = x" "MASK AND x = x"
  by (simp_all only: MASK_minus_1 and.right_neutral and.left_neutral)

lemma crc_bit_zero [simp]: "crc_bit 0 = 0"
  by (simp add: crc_bit_def)

lemma crc_and_1: "(x :: crc) AND 1 = (if bit x 0 then 1 else 0)"
  by (simp add: and_one_eq mod_2_eq_odd bit_0)

lemma crc_bit_alt: "crc_bit x = drop_bit 1 x XOR (if bit x 0 then POLY_REVERSED else 0)"
  by (simp add: crc_bit_def crc_and_1)

lemma crc_bit_xor: "crc_bit (x XOR y) = crc_bit x XOR crc_bit y"
  by (auto simp add: crc_bit_alt bit_simps ac_simps intro!: bit_word_eqI)

lemma crc_bits_xor: "(crc_bit ^^ n) (x XOR y) = (crc_bit ^^ n) x XOR (crc_bit ^^ n) y"
  by (induction n) (simp_all add: crc_bit_xor)

lemma crc_bits_low_zero:
  "(\<And>i. i < n \<Longrightarrow> \<not> bit x i) \<Longrightarrow> (crc_bit ^^ n) x = drop_bit n x"
proof (induction n)
  case 0
  then show ?case by simp
next
  case (Suc n)
  then have "(crc_bit ^^ n) x = drop_bit n x" by simp
  moreover have "\<not> bit (drop_bit n x) 0"
    using Suc.prems [of n] by (simp add: bit_simps)
  moreover have "(crc_bit ^^ Suc n) x = crc_bit ((crc_bit ^^ n) x)" by simp
  ultimately show ?case
    by (simp only: crc_bit_alt [of "drop_bit n x"]) (simp add: ac_simps)
qed

lemma crc_table_nth: "i < 256 \<Longrightarrow> build_table ! i = (crc_bit ^^ 8) (word_of_nat i)"
  by (simp add: build_table_def)

lemma crc_low_byte_bound: "unat ((x :: crc) AND 0xFF) < 256"
proof -
  have "(x AND 0xFF) \<le> 0xFF" by (rule word_and_le1)
  then have "unat (x AND 0xFF) \<le> unat (0xFF :: crc)" by (rule word_le_nat_alt [THEN iffD1])
  then show ?thesis by simp
qed

lemma bit_FF: "bit (0xFF :: crc) i \<longleftrightarrow> i < 8"
proof -
  have "(0xFF :: crc) = mask 8" by (simp add: mask_eq_exp_minus_1)
  then have "bit (0xFF :: crc) i = bit (mask 8 :: crc) i" by (rule arg_cong)
  also have "\<dots> \<longleftrightarrow> i < 8" by (auto simp only: bit_mask_iff) simp
  finally show ?thesis .
qed

lemma crc_step_eq_bits: "crc_step state byte = crc_step_bits state byte"
proof -
  let ?z = "state XOR ucast byte :: crc"
  have split: "?z = (?z AND 0xFF) XOR (?z AND NOT 0xFF)"
    by (rule bit_word_eqI) (auto simp: bit_simps)
  have "(crc_bit ^^ 8) (?z AND NOT 0xFF) = drop_bit 8 (?z AND NOT 0xFF)"
    by (rule crc_bits_low_zero) (simp only: bit_and_iff bit_not_iff bit_FF, simp)
  also have "\<dots> = drop_bit 8 state"
    by (rule bit_word_eqI, simp only: bit_drop_bit_eq comp_def bit_and_iff bit_not_iff bit_xor_iff
        bit_FF bit_unsigned_iff) (auto dest: bit_imp_le_length)
  finally have high: "(crc_bit ^^ 8) (?z AND NOT 0xFF) = drop_bit 8 state" .
  have low: "build_table ! unat (?z AND 0xFF) = (crc_bit ^^ 8) (?z AND 0xFF)"
    by (simp add: crc_table_nth crc_low_byte_bound)
  have "crc_step_bits state byte = (crc_bit ^^ 8) ((?z AND 0xFF) XOR (?z AND NOT 0xFF))"
    using split by (simp add: crc_step_bits_def)
  also have "\<dots> = crc_step state byte"
    by (simp only: crc_bits_xor high crc_step_def low)
  finally show ?thesis by simp
qed

section \<open>Injectivity of a step\<close>

lemma xor_right_cancel: "(a XOR c = b XOR c) = (a = (b :: crc))"
proof
  assume "a XOR c = b XOR c"
  then have "(a XOR c) XOR c = (b XOR c) XOR c" by simp
  then show "a = b" by (simp add: xor.assoc)
qed simp

lemma crc_bit_inj: "crc_bit x = crc_bit y \<Longrightarrow> x = y"
proof -
  assume eq: "crc_bit x = crc_bit y"
  have top: "bit (crc_bit z) 63 = bit z 0" for z
    by (simp add: crc_bit_alt bit_simps POLY_REVERSED_def bit_numeral_rec bit_1_iff)
       (auto dest: bit_imp_le_length)
  have lsb: "bit x 0 = bit y 0"
    using eq top [of x] top [of y] by simp
  then have "drop_bit 1 x = drop_bit 1 y"
    using eq by (cases "bit y 0") (simp_all add: crc_bit_alt xor_right_cancel)
  then have "bit x (Suc i) = bit y (Suc i)" for i
    by (metis bit_drop_bit_eq comp_apply plus_1_eq_Suc)
  with lsb show "x = y"
    by (metis bit_word_eqI not0_implies_Suc)
qed

lemma crc_bits_inj: "(crc_bit ^^ n) x = (crc_bit ^^ n) y \<Longrightarrow> x = y"
  by (induction n) (auto dest: crc_bit_inj)

lemma crc_step_inj_state: "crc_step s b = crc_step t b \<Longrightarrow> s = t"
proof -
  assume "crc_step s b = crc_step t b"
  then have "s XOR ucast b = t XOR ucast b"
    by (auto simp: crc_step_eq_bits crc_step_bits_def dest: crc_bits_inj)
  then have "(s XOR ucast b) XOR ucast b = (t XOR ucast b) XOR ucast b" by simp
  then show "s = t" by (simp add: xor.assoc)
qed

lemma crc_step_inj_byte: "crc_step s b = crc_step s c \<Longrightarrow> b = c"
proof -
  assume "crc_step s b = crc_step s c"
  then have "s XOR ucast b = s XOR (ucast c :: crc)"
    by (auto simp: crc_step_eq_bits crc_step_bits_def dest: crc_bits_inj)
  then have "s XOR (s XOR ucast b) = s XOR (s XOR (ucast c :: crc))" by simp
  then have "(ucast b :: crc) = ucast c" by (simp add: xor.assoc [symmetric])
  then have "(ucast (ucast b :: crc) :: byte) = ucast (ucast c :: crc)" by simp
  then show "b = c" by (simp add: ucast_up_ucast_id is_up)
qed

lemma crc_foldl_inj: "foldl crc_step s data = foldl crc_step t data \<Longrightarrow> s = t"
  by (induction data arbitrary: s t) (auto dest: crc_step_inj_state)

section \<open>Properties\<close>

lemma crc64_xz_update_append:
  "crc64_xz_update (a @ b) crc = crc64_xz_update b (crc64_xz_update a crc)"
  by (simp add: crc64_xz_update_def xor.assoc)

lemma crc64_file_loop_eq:
  "0 < n \<Longrightarrow> crc64_file_loop n rest crc = crc64_xz_update rest crc"
proof (induction n rest crc rule: crc64_file_loop.induct)
  case (1 n rest crc)
  show ?case
  proof (cases "rest = []")
    case True
    then show ?thesis
      by (simp add: crc64_file_loop.simps crc64_xz_update_def xor.assoc)
  next
    case False
    then have "crc64_file_loop n rest crc
        = crc64_xz_update (drop n rest) (crc64_xz_update (take n rest) crc)"
      using "1.prems" "1.IH" [OF refl]
      by (subst crc64_file_loop.simps) (simp add: Let_def)
    then show ?thesis
      by (simp flip: crc64_xz_update_append)
  qed
qed

text \<open>
  Property C23. The checksum of a file does not depend on the chunk size it is read with: it is
  the checksum of the whole content, for any positive \<open>chunk_size\<close>.
\<close>

theorem crc64_file_chunk_independent:
  "0 < chunk_size \<Longrightarrow> crc64_file content chunk_size = crc64_xz_update content 0"
  by (simp add: crc64_file_def crc64_file_loop_eq)

theorem crc64_file_chunk_independent_witness:
  "crc64_file [1, 2, 3, 4, 5] 2 = crc64_xz_update [1, 2, 3, 4, 5] 0"
  by (rule crc64_file_chunk_independent) simp

text \<open>
  The table-driven update equals the bit-serial CRC division of the data, byte by
  byte, from any running checksum.
\<close>

theorem crc64_table_eq_bitwise:
  "crc64_xz_update data crc = foldl crc_step_bits (crc XOR MASK) data XOR MASK"
proof -
  have "foldl crc_step s data = foldl crc_step_bits s data" for s
    by (induction data arbitrary: s) (simp_all add: crc_step_eq_bits)
  then show ?thesis by (simp add: crc64_xz_update_def)
qed

text \<open>
  Any change of a single byte of the data changes the checksum, whatever the data
  around it and whatever the new value of the byte.
\<close>

theorem crc64_detects_changed_byte:
  assumes "i < length data" "b \<noteq> data ! i"
  shows "crc64_xz_update (data[i := b]) crc \<noteq> crc64_xz_update data crc"
proof
  assume eq: "crc64_xz_update (data[i := b]) crc = crc64_xz_update data crc"
  have upd: "data[i := b] = take i data @ b # drop (Suc i) data"
    using assms(1) by (rule upd_conv_take_nth_drop)
  have orig: "data = take i data @ data ! i # drop (Suc i) data"
    using assms(1) by (rule id_take_nth_drop)
  let ?s = "foldl crc_step (crc XOR MASK) (take i data)"
  have "foldl crc_step (crc XOR MASK) (data[i := b]) = foldl crc_step (crc XOR MASK) data"
    using eq by (simp add: crc64_xz_update_def xor_right_cancel)
  then have "foldl crc_step (crc_step ?s b) (drop (Suc i) data)
      = foldl crc_step (crc_step ?s (data ! i)) (drop (Suc i) data)"
    using upd orig by (metis foldl_Cons foldl_append)
  then have "crc_step ?s b = crc_step ?s (data ! i)" by (rule crc_foldl_inj)
  then have "b = data ! i" by (rule crc_step_inj_byte)
  with assms(2) show False by simp
qed

theorem crc64_detects_changed_byte_witness:
  "crc64_xz_update ([7, 8, 9][1 := 0]) 0 \<noteq> crc64_xz_update [7, 8, 9] 0"
  by (rule crc64_detects_changed_byte) simp_all

text \<open>The check vector of \<open>app/oss_crc.py\<close>.\<close>

lemma crc_bits_8: "(crc_bit ^^ 8) x
    = crc_bit (crc_bit (crc_bit (crc_bit (crc_bit (crc_bit (crc_bit (crc_bit x)))))))"
  by (simp add: eval_nat_numeral)

lemma crc64_check_vector:
  "crc64_xz_update [0x31, 0x32, 0x33, 0x34, 0x35, 0x36, 0x37, 0x38, 0x39] 0
     = 0x995DC9BBDF1939FA"
  unfolding crc64_table_eq_bitwise
  by (simp add: crc_step_bits_def crc_bits_8 crc_bit_def POLY_REVERSED_def MASK_def)

end
