(* ===== verification/Manifest.thy ===== *)
theory Manifest
  imports Prelude
begin

text \<open>
  \<open>app/clickhouse_manifest.py\<close>: the durable state of every archived part that is loaded into
  ClickHouse. The table \<open>clickhouse_parts\<close> is a list of rows (a row's place carries no
  meaning; the primary key is \<open>part_key\<close>), the singleton row of
  \<open>clickhouse_reconcile_state\<close> an option. Each method is a function of the current time, its
  arguments and the manifest; a transaction that raises leaves the manifest unchanged, so only
  committed states appear.
\<close>

section \<open>Schema\<close>

datatype part_state = Pending | Loading | Ready | LoadFailed
  | DeletePending | Deleting | DeleteFailed | Retired

record clickhouse_part =
  part_path :: string
  logical_part_id :: string
  sha256 :: string
  content_revision :: int
  min_event_epoch_us :: int
  max_event_epoch_us :: int
  row_count :: int
  size_bytes :: int
  status :: part_state
  attempts :: int
  next_retry_us :: int
  inserted_rows :: int
  last_error :: string
  first_seen_us :: int
  updated_at_us :: int
  ready_at_us :: int
  seen_generation :: int

record reconcile_state =
  generation :: int
  start_epoch_us :: int
  end_epoch_us :: int
  source_parts :: int
  eligible_parts :: int
  completed_at_us :: int
  reconcile_error :: string

record manifest =
  clickhouse_parts :: "clickhouse_part list"
  state :: "reconcile_state option"
  schema_version :: "int option"

definition SCHEMA_VERSION :: int where
  "SCHEMA_VERSION = 1"

type_synonym row_key = "string \<times> string"

definition part_key :: "clickhouse_part \<Rightarrow> row_key" where
  "part_key r = (part_path r, logical_part_id r)"

definition ACTIVE_LOAD_STATES :: "part_state list" where
  "ACTIVE_LOAD_STATES = [Pending, Loading, Ready, LoadFailed]"

definition ACTIVE_DELETE_STATES :: "part_state list" where
  "ACTIVE_DELETE_STATES = [DeletePending, Deleting, DeleteFailed]"

text \<open>\<open>reset_states\<close> of \<open>reconcile\<close> and the \<open>CASE\<close> lists of both upserts.\<close>

definition RESET_STATES :: "part_state list" where
  "RESET_STATES = [DeletePending, Deleting, DeleteFailed, Retired]"

lemma status_sets [simp]:
  "set ACTIVE_LOAD_STATES = {Pending, Loading, Ready, LoadFailed}"
  "set ACTIVE_DELETE_STATES = {DeletePending, Deleting, DeleteFailed}"
  "set RESET_STATES = {DeletePending, Deleting, DeleteFailed, Retired}"
  by (auto simp: ACTIVE_LOAD_STATES_def ACTIVE_DELETE_STATES_def RESET_STATES_def)

text \<open>A part as the metadata store describes it; absent keys and NULLs are \<open>None\<close>.\<close>

record source_part =
  sp_path :: string
  sp_logical_part_id :: "string option"
  sp_sha256 :: "string option"
  sp_content_revision :: "int option"
  sp_min_event_epoch_us :: "int option"
  sp_max_event_epoch_us :: "int option"
  sp_row_count :: "int option"
  sp_size_bytes :: "int option"

definition part_identity :: "source_part \<Rightarrow> string" where
  "part_identity p = (let l = str_or_empty (sp_logical_part_id p)
     in if l \<noteq> '''' then l else str_or_empty (sp_sha256 p))"

definition source_key :: "source_part \<Rightarrow> row_key" where
  "source_key p = (sp_path p, part_identity p)"

type_synonym part_values = "string \<times> int \<times> int \<times> int \<times> int \<times> int"

definition source_values :: "source_part \<Rightarrow> part_values" where
  "source_values p = (str_or_empty (sp_sha256 p), int_or_zero (sp_content_revision p),
     int_or_zero (sp_min_event_epoch_us p), int_or_zero (sp_max_event_epoch_us p),
     int_or_zero (sp_row_count p), int_or_zero (sp_size_bytes p))"

definition row_values :: "clickhouse_part \<Rightarrow> part_values" where
  "row_values r = (sha256 r, content_revision r, min_event_epoch_us r, max_event_epoch_us r,
     row_count r, size_bytes r)"

section \<open>Opening, recovery, status\<close>

datatype open_error = NotMigrated | UnsupportedSchema

text \<open>\<open>None\<close> for the manifest stands for a database file that does not exist.\<close>

definition verify_schema :: "manifest option \<Rightarrow> open_error + unit" where
  "verify_schema db = (case db of None \<Rightarrow> Inl NotMigrated
     | Some m \<Rightarrow> (case schema_version m of None \<Rightarrow> Inl UnsupportedSchema
         | Some v \<Rightarrow> if v \<noteq> SCHEMA_VERSION then Inl UnsupportedSchema else Inr ()))"

text \<open>The error texts \<open>worker restarted during ingestion/deletion\<close>.\<close>

definition RESTARTED_LOAD :: string where
  "RESTARTED_LOAD = ''worker restarted during ingestion''"

definition RESTARTED_DELETE :: string where
  "RESTARTED_DELETE = ''worker restarted during deletion''"

definition recover_loading :: "int \<Rightarrow> manifest \<Rightarrow> int \<times> manifest" where
  "recover_loading now_us m =
     (let t = clickhouse_parts m;
          load = count_where (\<lambda>r. status r = Loading) t;
          t1 = update_where (\<lambda>r. status r = Loading)
            (\<lambda>r. r\<lparr>status := Pending, next_retry_us := 0, last_error := RESTARTED_LOAD,
                   updated_at_us := now_us\<rparr>) t;
          del = count_where (\<lambda>r. status r = Deleting) t1;
          t2 = update_where (\<lambda>r. status r = Deleting)
            (\<lambda>r. r\<lparr>status := DeletePending, next_retry_us := 0, last_error := RESTARTED_DELETE,
                   updated_at_us := now_us\<rparr>) t1
      in (load + del, m\<lparr>clickhouse_parts := t2\<rparr>))"

definition part_status :: "manifest \<Rightarrow> string \<Rightarrow> string \<Rightarrow> part_state option" where
  "part_status m path lid =
     map_option status (find_row part_key (path, lid) (clickhouse_parts m))"

section \<open>Reconciling with the source\<close>

text \<open>The columns an \<open>INSERT\<close> of a source part writes.\<close>

definition new_row :: "int \<Rightarrow> int \<Rightarrow> row_key \<Rightarrow> part_values \<Rightarrow> clickhouse_part" where
  "new_row now_us gen k v = (case (k, v) of ((path, lid), (sha, crev, mn, mx, rc, sz)) \<Rightarrow>
     \<lparr>part_path = path, logical_part_id = lid, sha256 = sha, content_revision = crev,
      min_event_epoch_us = mn, max_event_epoch_us = mx, row_count = rc, size_bytes = sz,
      status = Pending, attempts = 0, next_retry_us = 0, inserted_rows = 0, last_error = '''',
      first_seen_us = now_us, updated_at_us = now_us, ready_at_us = 0, seen_generation = gen\<rparr>)"

text \<open>The \<open>DO UPDATE SET\<close> list shared by both upserts.\<close>

definition upsert_row :: "int \<Rightarrow> int \<Rightarrow> part_values \<Rightarrow> clickhouse_part \<Rightarrow> clickhouse_part" where
  "upsert_row now_us gen v r = (case v of (sha, crev, mn, mx, rc, sz) \<Rightarrow>
     (let reset = status r \<in> set RESET_STATES in
      r\<lparr>sha256 := sha, content_revision := crev, min_event_epoch_us := mn,
        max_event_epoch_us := mx, row_count := rc, size_bytes := sz,
        status := (if reset then Pending else status r),
        attempts := (if reset then 0 else attempts r),
        next_retry_us := (if reset then 0 else next_retry_us r),
        inserted_rows := (if reset then 0 else inserted_rows r),
        last_error := (if reset then '''' else last_error r),
        ready_at_us := (if reset then 0 else ready_at_us r),
        updated_at_us := now_us, seen_generation := gen\<rparr>))"

text \<open>
  The replacement and path-removal \<open>UPDATE\<close>: a row being deleted keeps its claim.
\<close>

definition demote_row :: "int \<Rightarrow> clickhouse_part \<Rightarrow> clickhouse_part" where
  "demote_row now_us r = (let del = (status r = Deleting) in
     r\<lparr>status := (if del then status r else DeletePending),
       next_retry_us := (if del then next_retry_us r else 0),
       last_error := (if del then last_error r else ''''),
       updated_at_us := now_us\<rparr>)"

text \<open>The sweep of unseen rows inside and before the window (it keeps \<open>last_error\<close>).\<close>

definition sweep_row :: "int \<Rightarrow> clickhouse_part \<Rightarrow> clickhouse_part" where
  "sweep_row now_us r = (let del = (status r = Deleting) in
     r\<lparr>status := (if del then status r else DeletePending),
       next_retry_us := (if del then next_retry_us r else 0),
       updated_at_us := now_us\<rparr>)"

definition age_out_row :: "int \<Rightarrow> clickhouse_part \<Rightarrow> clickhouse_part" where
  "age_out_row now_us r =
     r\<lparr>status := Retired, next_retry_us := 0, last_error := '''', updated_at_us := now_us\<rparr>"

record reconcile_result =
  res_generation :: int
  res_eligible_parts :: int
  queued_parts :: int
  replacement_deletes :: int
  missing_deletes :: int
  aged_out_parts :: int

text \<open>\<open>int(state["generation"] if state else 0) + 1\<close>.\<close>

definition next_generation :: "manifest \<Rightarrow> int" where
  "next_generation m = (case state m of None \<Rightarrow> 0 | Some s \<Rightarrow> generation s) + 1"

text \<open>The final \<open>UPDATE clickhouse_reconcile_state\<close>, a no-op when the row is missing.\<close>

definition write_state :: "bool \<Rightarrow> int \<Rightarrow> int \<Rightarrow> int \<Rightarrow> int \<Rightarrow> int \<Rightarrow> int
    \<Rightarrow> reconcile_state option \<Rightarrow> reconcile_state option" where
  "write_state preserve gen start_us end_us src eligible now_us st =
     map_option (\<lambda>s. if preserve then s\<lparr>generation := gen, reconcile_error := ''''\<rparr>
       else s\<lparr>generation := gen, start_epoch_us := start_us, end_epoch_us := end_us,
              source_parts := src, eligible_parts := eligible, completed_at_us := now_us,
              reconcile_error := ''''\<rparr>) st"

subsection \<open>Staged, set-based reconcile\<close>

type_synonym staged = "(string \<times> (string \<times> part_values)) list"

text \<open>\<open>flush\<close>: \<open>INSERT OR REPLACE INTO reconcile_parts\<close> of the batch, keyed by path.\<close>

definition stage_flush :: "staged \<Rightarrow> staged \<Rightarrow> staged" where
  "stage_flush batch staged = foldl (\<lambda>s (path, row). AList.update path row s) staged batch"

record staging =
  source_count :: int
  eligible_count :: int
  batch :: staged
  reconcile_parts :: staged

definition in_window :: "bool \<Rightarrow> int \<Rightarrow> int \<Rightarrow> source_part \<Rightarrow> bool" where
  "in_window filter_parts start_us end_us p \<longleftrightarrow>
     \<not> (filter_parts \<and> (int_or_zero (sp_max_event_epoch_us p) < start_us
                       \<or> end_us < int_or_zero (sp_min_event_epoch_us p)))"

definition stage_part :: "bool \<Rightarrow> int \<Rightarrow> int \<Rightarrow> int \<Rightarrow> staging \<Rightarrow> source_part \<Rightarrow> staging" where
  "stage_part filter_parts start_us end_us stage_batch s p =
     (let s = s\<lparr>source_count := source_count s + 1\<rparr> in
      if \<not> in_window filter_parts start_us end_us p then s
      else let s = s\<lparr>eligible_count := eligible_count s + 1\<rparr>; identity = part_identity p in
        if identity = '''' then s
        else let b = batch s @ [(sp_path p, identity, source_values p)] in
          if max stage_batch 1 \<le> int (length b)
          then s\<lparr>batch := [], reconcile_parts := stage_flush b (reconcile_parts s)\<rparr>
          else s\<lparr>batch := b\<rparr>)"

definition stage_parts :: "bool \<Rightarrow> int \<Rightarrow> int \<Rightarrow> int \<Rightarrow> source_part list \<Rightarrow> staging" where
  "stage_parts filter_parts start_us end_us stage_batch parts =
     (let s = foldl (stage_part filter_parts start_us end_us stage_batch)
        \<lparr>source_count = 0, eligible_count = 0, batch = [], reconcile_parts = []\<rparr> parts
      in s\<lparr>batch := [], reconcile_parts := stage_flush (batch s) (reconcile_parts s)\<rparr>)"

definition staged_keys :: "staged \<Rightarrow> row_key list" where
  "staged_keys staged = map (\<lambda>(path, identity, _). (path, identity)) staged"

text \<open>One row of the staged \<open>INSERT ... ON CONFLICT ... DO UPDATE ... WHERE\<close>.\<close>

definition upsert_staged :: "int \<Rightarrow> int \<Rightarrow> clickhouse_part list \<Rightarrow> row_key \<times> part_values
    \<Rightarrow> clickhouse_part list" where
  "upsert_staged now_us gen t kv = (case kv of (k, v) \<Rightarrow>
     if k \<in> part_key ` set t
     then update_where (\<lambda>r. part_key r = k \<and> (status r \<in> set RESET_STATES \<or> row_values r \<noteq> v))
            (upsert_row now_us gen v) t
     else t @ [new_row now_us gen k v])"

definition replaced :: "staged \<Rightarrow> clickhouse_part \<Rightarrow> bool" where
  "replaced staged r \<longleftrightarrow> status r \<noteq> Retired \<and>
     list_ex (\<lambda>(path, identity, _). path = part_path r \<and> identity \<noteq> logical_part_id r) staged"

definition unseen :: "staged \<Rightarrow> clickhouse_part \<Rightarrow> bool" where
  "unseen staged r \<longleftrightarrow> status r \<noteq> Retired \<and> part_key r \<notin> set (staged_keys staged)"

definition reconcile_streaming :: "int \<Rightarrow> source_part list \<Rightarrow> int \<Rightarrow> int \<Rightarrow> int option \<Rightarrow> bool
    \<Rightarrow> bool \<Rightarrow> bool \<Rightarrow> int \<Rightarrow> manifest \<Rightarrow> reconcile_result \<times> manifest" where
  "reconcile_streaming now_us parts start_us end_us source_parts_arg filter_parts sweep preserve
       stage_batch m =
     (let st = stage_parts filter_parts start_us end_us stage_batch parts;
          staged = reconcile_parts st;
          gen = next_generation m;
          t0 = clickhouse_parts m;
          queued = count_where (\<lambda>k. case find_row part_key k t0 of None \<Rightarrow> True
                     | Some r \<Rightarrow> status r \<notin> set ACTIVE_LOAD_STATES) (staged_keys staged);
          t1 = foldl (upsert_staged now_us gen) t0
                 (map (\<lambda>(path, identity, v). ((path, identity), v)) staged);
          replacements = count_where (replaced staged) t1;
          t2 = update_where (replaced staged) (demote_row now_us) t1;
          gone = (\<lambda>r. unseen staged r \<and> start_us \<le> max_event_epoch_us r);
          deleted = (if sweep then count_where gone t2 else 0);
          t3 = (if sweep then update_where gone (sweep_row now_us) t2 else t2);
          aged = (\<lambda>r. unseen staged r \<and> max_event_epoch_us r < start_us);
          aged_out = (if sweep then count_where aged t3 else 0);
          t4 = (if sweep then update_where aged (age_out_row now_us) t3 else t3);
          src = (case source_parts_arg of None \<Rightarrow> source_count st | Some n \<Rightarrow> n)
      in (\<lparr>res_generation = gen, res_eligible_parts = eligible_count st, queued_parts = queued,
           replacement_deletes = replacements, missing_deletes = deleted,
           aged_out_parts = aged_out\<rparr>,
          m\<lparr>clickhouse_parts := t4,
            state := write_state preserve gen start_us end_us src (eligible_count st) now_us
                       (state m)\<rparr>))"

subsection \<open>Mirrored, per-part reconcile\<close>

text \<open>
  \<open>reconcile\<close> reads the table once into the dict \<open>rows\<close> and the dict of sets \<open>ids_by_path\<close>
  (a set is a list here; only membership and emptiness of a comprehension over it are used),
  and keeps both in step with the statements it issues.
\<close>

record mirror_entry =
  m_status :: part_state
  m_values :: part_values

record reconcile_loop =
  table :: "clickhouse_part list"
  rows :: "(row_key \<times> mirror_entry) list"
  ids_by_path :: "(string \<times> string list) list"
  seen :: "row_key list"
  queued :: int
  replacements :: int

definition mirror_of :: "clickhouse_part \<Rightarrow> mirror_entry" where
  "mirror_of r = \<lparr>m_status = status r, m_values = row_values r\<rparr>"

text \<open>\<open>d.setdefault(path, set()).add(identity)\<close>.\<close>

definition ids_of :: "(string \<times> string list) list \<Rightarrow> string \<Rightarrow> string list" where
  "ids_of d path = (case map_of d path of None \<Rightarrow> [] | Some ids \<Rightarrow> ids)"

definition add_id :: "string \<Rightarrow> string \<Rightarrow> (string \<times> string list) list
    \<Rightarrow> (string \<times> string list) list" where
  "add_id path identity d = AList.update path (List.insert identity (ids_of d path)) d"

definition load_row :: "reconcile_loop \<Rightarrow> clickhouse_part \<Rightarrow> reconcile_loop" where
  "load_row s r = s\<lparr>rows := AList.update (part_key r) (mirror_of r) (rows s),
     ids_by_path := add_id (part_path r) (logical_part_id r) (ids_by_path s)\<rparr>"

definition load_mirror :: "clickhouse_part list \<Rightarrow> reconcile_loop" where
  "load_mirror t = foldl load_row
     \<lparr>table = t, rows = [], ids_by_path = [], seen = [], queued = 0, replacements = 0\<rparr> t"

text \<open>The unconditional \<open>INSERT ... ON CONFLICT ... DO UPDATE\<close> of one part.\<close>

definition upsert_one :: "int \<Rightarrow> int \<Rightarrow> row_key \<Rightarrow> part_values \<Rightarrow> clickhouse_part list
    \<Rightarrow> clickhouse_part list" where
  "upsert_one now_us gen k v t =
     (if k \<in> part_key ` set t then update_where (\<lambda>r. part_key r = k) (upsert_row now_us gen v) t
      else t @ [new_row now_us gen k v])"

definition demote_entry :: "string \<Rightarrow> (row_key \<times> mirror_entry) list \<Rightarrow> string
    \<Rightarrow> (row_key \<times> mirror_entry) list" where
  "demote_entry path d other = (case map_of d (path, other) of None \<Rightarrow> d
     | Some e \<Rightarrow> if m_status e \<noteq> Deleting
         then AList.update (path, other) (e\<lparr>m_status := DeletePending\<rparr>) d else d)"

definition other_active :: "string \<Rightarrow> string \<Rightarrow> clickhouse_part \<Rightarrow> bool" where
  "other_active path identity r \<longleftrightarrow>
     part_path r = path \<and> logical_part_id r \<noteq> identity \<and> status r \<noteq> Retired"

definition entry_active :: "(row_key \<times> mirror_entry) list \<Rightarrow> row_key \<Rightarrow> bool" where
  "entry_active d k = (case map_of d k of None \<Rightarrow> False | Some e \<Rightarrow> m_status e \<noteq> Retired)"

definition upsert_part :: "int \<Rightarrow> int \<Rightarrow> row_key \<Rightarrow> part_values \<Rightarrow> reconcile_loop \<Rightarrow> reconcile_loop" where
  "upsert_part now_us gen key values s =
     (let current = map_of (rows s) key; status_now = map_option m_status current;
          s = (if status_now \<notin> Some ` set ACTIVE_LOAD_STATES then s\<lparr>queued := queued s + 1\<rparr> else s)
      in if current = None \<or> status_now \<in> Some ` set RESET_STATES
            \<or> map_option m_values current \<noteq> Some values
         then s\<lparr>table := upsert_one now_us gen key values (table s),
                rows := AList.update key
                  \<lparr>m_status = (case status_now of None \<Rightarrow> Pending
                      | Some x \<Rightarrow> if x \<in> set RESET_STATES then Pending else x),
                   m_values = values\<rparr> (rows s),
                ids_by_path := add_id (fst key) (snd key) (ids_by_path s)\<rparr>
         else s)"

definition demote_others :: "int \<Rightarrow> string \<Rightarrow> string \<Rightarrow> reconcile_loop \<Rightarrow> reconcile_loop" where
  "demote_others now_us path identity s =
     (let others = filter (\<lambda>other. other \<noteq> identity \<and> entry_active (rows s) (path, other))
            (ids_of (ids_by_path s) path)
      in if others = [] then s
         else s\<lparr>replacements := replacements s
                  + count_where (other_active path identity) (table s),
                table := update_where (other_active path identity) (demote_row now_us) (table s),
                rows := foldl (demote_entry path) (rows s) others\<rparr>)"

definition reconcile_part :: "int \<Rightarrow> int \<Rightarrow> reconcile_loop \<Rightarrow> source_part \<Rightarrow> reconcile_loop" where
  "reconcile_part now_us gen s p =
     (let identity = part_identity p; path = sp_path p; key = (path, identity) in
      if identity = '''' then s
      else demote_others now_us path identity
             (upsert_part now_us gen key (source_values p) (s\<lparr>seen := key # seen s\<rparr>)))"

text \<open>\<open>executemany\<close> of an \<open>UPDATE ... WHERE key AND status != 'retired'\<close>, with its rowcount.\<close>

definition execute_many :: "(clickhouse_part \<Rightarrow> clickhouse_part) \<Rightarrow> row_key list
    \<Rightarrow> clickhouse_part list \<Rightarrow> int \<times> clickhouse_part list" where
  "execute_many f keys t = foldl (\<lambda>(n, t) k.
      (n + count_where (\<lambda>r. part_key r = k \<and> status r \<noteq> Retired) t,
       update_where (\<lambda>r. part_key r = k \<and> status r \<noteq> Retired) f t)) (0, t) keys"

definition entry_max_event :: "mirror_entry \<Rightarrow> int" where
  "entry_max_event e = (case m_values e of (_, _, _, mx, _, _) \<Rightarrow> mx)"

definition reconcile :: "int \<Rightarrow> source_part list \<Rightarrow> int \<Rightarrow> int \<Rightarrow> int option \<Rightarrow> bool \<Rightarrow> bool
    \<Rightarrow> manifest \<Rightarrow> reconcile_result \<times> manifest" where
  "reconcile now_us parts start_us end_us source_parts_arg sweep preserve m =
     (let gen = next_generation m;
          s = foldl (reconcile_part now_us gen) (load_mirror (clickhouse_parts m)) parts;
          unseen_items = filter (\<lambda>(key, e). key \<notin> set (seen s) \<and> m_status e \<noteq> Retired) (rows s);
          delete_keys = map fst (filter (\<lambda>(_, e). start_us \<le> entry_max_event e) unseen_items);
          retire_keys = map fst (filter (\<lambda>(_, e). entry_max_event e < start_us) unseen_items);
          (deleted, t1) = (if sweep then execute_many (sweep_row now_us) delete_keys (table s)
                           else (0, table s));
          (aged_out, t2) = (if sweep then execute_many (age_out_row now_us) retire_keys t1
                            else (0, t1));
          n = int (length parts);
          src = (case source_parts_arg of None \<Rightarrow> n | Some k \<Rightarrow> k)
      in (\<lparr>res_generation = gen, res_eligible_parts = n, queued_parts = queued s,
           replacement_deletes = replacements s, missing_deletes = deleted,
           aged_out_parts = aged_out\<rparr>,
          m\<lparr>clickhouse_parts := t2,
            state := write_state preserve gen start_us end_us src n now_us (state m)\<rparr>))"

section \<open>Jobs\<close>

definition record_reconcile_error :: "string \<Rightarrow> manifest \<Rightarrow> manifest" where
  "record_reconcile_error err m =
     m\<lparr>state := map_option (\<lambda>s. s\<lparr>reconcile_error := take 2000 err\<rparr>) (state m)\<rparr>"

definition claimable :: "int \<Rightarrow> clickhouse_part \<Rightarrow> bool" where
  "claimable now_us r \<longleftrightarrow> status r \<in> {Pending, LoadFailed, DeletePending, DeleteFailed}
     \<and> next_retry_us r \<le> now_us"

text \<open>The \<open>ORDER BY\<close> of \<open>claim_next\<close>: deletes, then retries, due time, event time, path.\<close>

definition claim_rank :: "bool \<Rightarrow> clickhouse_part \<Rightarrow> int \<times> int \<times> int \<times> int \<times> string" where
  "claim_rank prefer_newest r =
     (if status r \<in> {DeletePending, DeleteFailed} then 0 else 1,
      if status r \<in> {LoadFailed, DeleteFailed} then 0 else 1,
      next_retry_us r,
      if prefer_newest then - max_event_epoch_us r else max_event_epoch_us r,
      part_path r)"

datatype job_kind = LoadJob | DeleteJob

text \<open>The job carries the row as selected, before the claim changed its status.\<close>

record job =
  job_row :: clickhouse_part
  job_kind :: job_kind

definition claim_next :: "int \<Rightarrow> bool \<Rightarrow> manifest \<Rightarrow> (job \<times> manifest) option" where
  "claim_next now_us prefer_newest m =
     (case sort_key (claim_rank prefer_newest) (filter (claimable now_us) (clickhouse_parts m)) of
        [] \<Rightarrow> None
      | row # _ \<Rightarrow>
         (let deleting = status row \<in> {DeletePending, DeleteFailed};
              new_status = (if deleting then Deleting else Loading);
              hit = (\<lambda>r. part_key r = part_key row \<and> status r = status row)
          in if count_where hit (clickhouse_parts m) = 0 then None
             else Some (\<lparr>job_row = row, job_kind = (if deleting then DeleteJob else LoadJob)\<rparr>,
               m\<lparr>clickhouse_parts := update_where hit
                   (\<lambda>r. r\<lparr>status := new_status, updated_at_us := now_us\<rparr>) (clickhouse_parts m)\<rparr>)))"

definition mark_ready :: "int \<Rightarrow> string \<Rightarrow> string \<Rightarrow> int \<Rightarrow> manifest \<Rightarrow> bool \<times> manifest" where
  "mark_ready now_us path lid n m =
     (let hit = (\<lambda>r. part_key r = (path, lid) \<and> status r \<in> {Loading, Pending, LoadFailed})
      in (count_where hit (clickhouse_parts m) \<noteq> 0,
          m\<lparr>clickhouse_parts := update_where hit
              (\<lambda>r. r\<lparr>status := Ready, inserted_rows := max n 0, last_error := '''',
                     next_retry_us := 0, ready_at_us := now_us, updated_at_us := now_us\<rparr>)
              (clickhouse_parts m)\<rparr>))"

definition release_pending :: "int \<Rightarrow> string \<Rightarrow> string \<Rightarrow> string \<Rightarrow> int \<Rightarrow> manifest
    \<Rightarrow> bool \<times> manifest" where
  "release_pending now_us path lid reason delay_seconds m =
     (case find_row part_key (path, lid) (clickhouse_parts m) of None \<Rightarrow> (False, m)
      | Some row \<Rightarrow>
         (let pending = (if status row \<in> set ACTIVE_DELETE_STATES then DeletePending else Pending);
              hit = (\<lambda>r. part_key r = (path, lid))
          in (count_where hit (clickhouse_parts m) \<noteq> 0,
              m\<lparr>clickhouse_parts := update_where hit
                  (\<lambda>r. r\<lparr>status := pending,
                         next_retry_us := now_us + max delay_seconds 0 * 1000000,
                         last_error := take 2000 reason, updated_at_us := now_us\<rparr>)
                  (clickhouse_parts m)\<rparr>)))"

text \<open>\<open>min(5 * (2 ** min(attempts - 1, 8)), 900)\<close>; attempts is at least 1 here.\<close>

definition retry_delay_seconds :: "int \<Rightarrow> int" where
  "retry_delay_seconds n = min (5 * 2 ^ nat (min (n - 1) 8)) 900"

definition mark_failed :: "int \<Rightarrow> string \<Rightarrow> string \<Rightarrow> string \<Rightarrow> manifest \<Rightarrow> bool \<times> manifest" where
  "mark_failed now_us path lid err m =
     (case find_row part_key (path, lid) (clickhouse_parts m) of None \<Rightarrow> (False, m)
      | Some row \<Rightarrow>
         (let n = attempts row + 1;
              failed = (if status row \<in> set ACTIVE_DELETE_STATES then DeleteFailed else LoadFailed);
              hit = (\<lambda>r. part_key r = (path, lid))
          in (count_where hit (clickhouse_parts m) \<noteq> 0,
              m\<lparr>clickhouse_parts := update_where hit
                  (\<lambda>r. r\<lparr>status := failed, attempts := n,
                         next_retry_us := now_us + retry_delay_seconds n * 1000000,
                         last_error := take 2000 err, updated_at_us := now_us\<rparr>)
                  (clickhouse_parts m)\<rparr>)))"

definition mark_retired :: "int \<Rightarrow> string \<Rightarrow> string \<Rightarrow> manifest \<Rightarrow> bool \<times> manifest" where
  "mark_retired now_us path lid m =
     (let hit = (\<lambda>r. part_key r = (path, lid))
      in (count_where hit (clickhouse_parts m) \<noteq> 0,
          m\<lparr>clickhouse_parts := update_where hit
              (\<lambda>r. r\<lparr>status := Retired, next_retry_us := 0, inserted_rows := 0,
                     last_error := '''', updated_at_us := now_us\<rparr>) (clickhouse_parts m)\<rparr>))"

definition path_active :: "string list \<Rightarrow> clickhouse_part \<Rightarrow> bool" where
  "path_active paths r \<longleftrightarrow> part_path r \<in> set paths \<and> status r \<noteq> Retired"

definition queue_missing_paths :: "int \<Rightarrow> string list \<Rightarrow> manifest \<Rightarrow> int \<times> manifest" where
  "queue_missing_paths now_us paths m =
     (let values = sort (remdups (filter (\<lambda>p. p \<noteq> '''') paths))
      in if values = [] then (0, m)
         else let (changed, t) = foldl (\<lambda>(n, t) chunk.
                (n + count_where (path_active chunk) t,
                 update_where (path_active chunk) (demote_row now_us) t))
              (0, clickhouse_parts m) (chunks 400 values)
         in (changed, m\<lparr>clickhouse_parts := t\<rparr>))"

section \<open>Coverage gates and statistics\<close>

definition UNREADY :: "part_state list" where
  "UNREADY = [Pending, Loading, LoadFailed, DeletePending, Deleting, DeleteFailed]"

lemma set_UNREADY [simp]:
  "set UNREADY = {Pending, Loading, LoadFailed, DeletePending, Deleting, DeleteFailed}"
  by (auto simp: UNREADY_def)

text \<open>
  The dict returned by \<open>global_coverage\<close> and \<open>window_coverage\<close>; the latter's extra key
  \<open>manifest_pending_in_window\<close> always equals \<open>manifest_pending\<close>, and the window key
  \<open>source_pending_in_window\<close> is \<open>None\<close> in the global dict.
\<close>

record serving_gate =
  complete :: bool
  total_parts :: int
  covered_parts :: int
  covered_rows :: int
  missing_parts :: "string list"
  gate_source_complete :: bool
  gate_source_pending :: bool
  gate_source_pending_in_window :: "bool option"
  manifest_pending :: bool
  reconcile_start_epoch_us :: int
  reconcile_end_epoch_us :: int
  reconcile_completed_at_us :: int

definition state_field :: "(reconcile_state \<Rightarrow> int) \<Rightarrow> manifest \<Rightarrow> int" where
  "state_field f m = (case state m of None \<Rightarrow> 0 | Some s \<Rightarrow> f s)"

definition reconciled :: "manifest \<Rightarrow> bool" where
  "reconciled m \<longleftrightarrow> (case state m of None \<Rightarrow> False | Some s \<Rightarrow> completed_at_us s \<noteq> 0)"

definition manifest_error :: "manifest \<Rightarrow> string" where
  "manifest_error m = (case state m of None \<Rightarrow> '''' | Some s \<Rightarrow> reconcile_error s)"

definition make_gate :: "bool \<Rightarrow> bool \<Rightarrow> bool \<Rightarrow> bool option \<Rightarrow> bool \<Rightarrow> manifest \<Rightarrow> serving_gate" where
  "make_gate ok src_complete src_pending in_win unready m =
     \<lparr>complete = ok, total_parts = state_field eligible_parts m,
      covered_parts = (if ok then state_field eligible_parts m else 0), covered_rows = 0,
      missing_parts = [], gate_source_complete = src_complete, gate_source_pending = src_pending,
      gate_source_pending_in_window = in_win, manifest_pending = unready,
      reconcile_start_epoch_us = state_field start_epoch_us m,
      reconcile_end_epoch_us = state_field end_epoch_us m,
      reconcile_completed_at_us = state_field completed_at_us m\<rparr>"

definition global_coverage :: "bool \<Rightarrow> bool \<Rightarrow> manifest \<Rightarrow> serving_gate" where
  "global_coverage source_complete source_pending m =
     (let unready = list_ex (\<lambda>r. status r \<in> set UNREADY) (clickhouse_parts m);
          ok = (source_complete \<and> \<not> source_pending \<and> reconciled m
                \<and> manifest_error m = '''' \<and> \<not> unready)
      in make_gate ok source_complete source_pending None unready m)"

definition window_coverage :: "bool \<Rightarrow> bool \<Rightarrow> bool \<Rightarrow> int \<Rightarrow> int \<Rightarrow> manifest \<Rightarrow> serving_gate" where
  "window_coverage source_complete source_pending source_pending_in_window start_us end_us m =
     (let unready = list_ex (\<lambda>r. status r \<in> set UNREADY \<and> min_event_epoch_us r \<le> end_us
                               \<and> start_us \<le> max_event_epoch_us r) (clickhouse_parts m);
          ok = (source_complete \<and> \<not> source_pending_in_window \<and> reconciled m
                \<and> manifest_error m = '''' \<and> \<not> unready)
      in make_gate ok source_complete source_pending (Some source_pending_in_window) unready m)"

definition expected_parts :: "source_part list \<Rightarrow> (string \<times> string) list" where
  "expected_parts parts = foldl (\<lambda>d p. if part_identity p \<noteq> ''''
     then AList.update (sp_path p) (part_identity p) d else d) [] parts"

definition fetch_rows :: "string list \<Rightarrow> clickhouse_part list \<Rightarrow> clickhouse_part list" where
  "fetch_rows paths t =
     concat (map (\<lambda>chunk. filter (\<lambda>r. part_path r \<in> set chunk) t) (chunks 400 paths))"

text \<open>The inner loop of \<open>coverage\<close>: the row of the expected identity and a stale active one.\<close>

definition scan_path :: "string \<Rightarrow> clickhouse_part list \<Rightarrow> clickhouse_part option \<times> bool" where
  "scan_path identity path_rows = foldl (\<lambda>(current, stale) r.
     if logical_part_id r = identity then (Some r, stale)
     else if status r \<noteq> Retired then (current, True) else (current, stale)) (None, False) path_rows"

definition path_covered :: "clickhouse_part option \<times> bool \<Rightarrow> bool" where
  "path_covered scan = (case scan of (None, _) \<Rightarrow> False
     | (Some r, stale) \<Rightarrow> status r = Ready \<and> \<not> stale)"

record part_coverage =
  pc_complete :: bool
  pc_total_parts :: int
  pc_covered_parts :: int
  pc_covered_rows :: int
  pc_missing_parts :: "string list"
  pc_start_epoch_us :: int
  pc_end_epoch_us :: int
  pc_completed_at_us :: int

definition coverage :: "source_part list \<Rightarrow> manifest \<Rightarrow> part_coverage" where
  "coverage parts m =
     (let expected = expected_parts parts;
          fetched = fetch_rows (map fst expected) (clickhouse_parts m);
          scan = (\<lambda>(path, identity). scan_path identity (filter (\<lambda>r. part_path r = path) fetched));
          (missing, n) = foldl (\<lambda>(missing, n) (path, identity).
             if path_covered (scan (path, identity))
             then (missing, n + (case fst (scan (path, identity)) of None \<Rightarrow> 0 | Some r \<Rightarrow> inserted_rows r))
             else (missing @ [path], n)) ([], 0) expected
      in \<lparr>pc_complete = (reconciled m \<and> missing = []), pc_total_parts = int (length expected),
          pc_covered_parts = int (length expected) - int (length missing), pc_covered_rows = n,
          pc_missing_parts = missing, pc_start_epoch_us = state_field start_epoch_us m,
          pc_end_epoch_us = state_field end_epoch_us m,
          pc_completed_at_us = state_field completed_at_us m\<rparr>)"

record manifest_stats =
  tracked_parts :: int
  ready_parts :: int
  pending_parts :: int
  failed_parts :: int
  delete_parts :: int
  ready_rows :: int
  ready_source_bytes :: int
  oldest_pending_age_seconds :: int
  ready_watermark_us :: int
  st_generation :: int
  st_start_epoch_us :: int
  st_end_epoch_us :: int
  st_completed_at_us :: int
  st_last_error :: string

text \<open>\<open>COALESCE(MIN/MAX(...), 0)\<close> of the values of the selected rows.\<close>

definition coalesce_agg :: "(int \<Rightarrow> int \<Rightarrow> int) \<Rightarrow> int list \<Rightarrow> int" where
  "coalesce_agg f xs = (case xs of [] \<Rightarrow> 0 | y # ys \<Rightarrow> foldl f y ys)"

definition stats :: "int \<Rightarrow> manifest \<Rightarrow> manifest_stats" where
  "stats now_us m =
     (let t = clickhouse_parts m;
          ready = filter (\<lambda>r. status r = Ready) t;
          oldest = coalesce_agg min (map first_seen_us (filter (\<lambda>r. status r \<in> set UNREADY) t))
      in \<lparr>tracked_parts = int (length t), ready_parts = count_where (\<lambda>r. status r = Ready) t,
          pending_parts = count_where (\<lambda>r. status r \<in> {Pending, Loading, DeletePending, Deleting}) t,
          failed_parts = count_where (\<lambda>r. status r \<in> {LoadFailed, DeleteFailed}) t,
          delete_parts = count_where (\<lambda>r. status r \<in> {DeletePending, Deleting, DeleteFailed}) t,
          ready_rows = sum_list (map inserted_rows ready),
          ready_source_bytes = sum_list (map size_bytes ready),
          oldest_pending_age_seconds =
            (if oldest \<noteq> 0 then max ((now_us - oldest) div 1000000) 0 else 0),
          ready_watermark_us = coalesce_agg max (map max_event_epoch_us ready),
          st_generation = state_field generation m,
          st_start_epoch_us = state_field start_epoch_us m,
          st_end_epoch_us = state_field end_epoch_us m,
          st_completed_at_us = state_field completed_at_us m, st_last_error = manifest_error m\<rparr>)"

section \<open>Rows and keys\<close>

lemma part_key_simps [simp]:
  "part_key (new_row now gen k v) = k"
  "part_key (upsert_row now gen v r) = part_key r"
  "part_key (demote_row now r) = part_key r"
  "part_key (sweep_row now r) = part_key r"
  "part_key (age_out_row now r) = part_key r"
  "part_key (r\<lparr>status := s\<rparr>) = part_key r"
  "part_key (r\<lparr>attempts := n\<rparr>) = part_key r"
  "part_key (r\<lparr>next_retry_us := i\<rparr>) = part_key r"
  "part_key (r\<lparr>inserted_rows := n\<rparr>) = part_key r"
  "part_key (r\<lparr>last_error := e\<rparr>) = part_key r"
  "part_key (r\<lparr>updated_at_us := i\<rparr>) = part_key r"
  "part_key (r\<lparr>ready_at_us := i\<rparr>) = part_key r"
  by (simp_all add: part_key_def new_row_def upsert_row_def demote_row_def sweep_row_def
      age_out_row_def Let_def split: prod.splits)

lemma row_status_simps [simp]:
  "status (new_row now gen k v) = Pending"
  "status (upsert_row now gen v r) = (if status r \<in> set RESET_STATES then Pending else status r)"
  "status (demote_row now r) = (if status r = Deleting then Deleting else DeletePending)"
  "status (sweep_row now r) = (if status r = Deleting then Deleting else DeletePending)"
  "status (age_out_row now r) = Retired"
  by (simp_all add: new_row_def upsert_row_def demote_row_def sweep_row_def
      age_out_row_def Let_def split: prod.splits)

lemma row_values_simps [simp]:
  "row_values (new_row now gen k v) = v"
  "row_values (upsert_row now gen v r) = v"
  "row_values (demote_row now r) = row_values r"
  "row_values (sweep_row now r) = row_values r"
  "row_values (age_out_row now r) = row_values r"
  by (simp_all add: row_values_def new_row_def upsert_row_def demote_row_def sweep_row_def
      age_out_row_def Let_def split: prod.splits)

lemma max_event_simps [simp]:
  "max_event_epoch_us (demote_row now r) = max_event_epoch_us r"
  "max_event_epoch_us (sweep_row now r) = max_event_epoch_us r"
  "max_event_epoch_us (age_out_row now r) = max_event_epoch_us r"
  by (simp_all add: demote_row_def sweep_row_def age_out_row_def Let_def)

section \<open>Well-formed manifests\<close>

definition row_ok :: "clickhouse_part \<Rightarrow> bool" where
  "row_ok r \<longleftrightarrow> 0 \<le> attempts r \<and> 0 \<le> inserted_rows r
     \<and> (status r \<in> {LoadFailed, DeleteFailed} \<longrightarrow> 0 < attempts r)
     \<and> (status r = Ready \<longrightarrow> next_retry_us r = 0 \<and> last_error r = '''')"

definition table_ok :: "clickhouse_part list \<Rightarrow> bool" where
  "table_ok t \<longleftrightarrow> distinct (map part_key t) \<and> (\<forall>r \<in> set t. row_ok r)"

definition manifest_ok :: "manifest \<Rightarrow> bool" where
  "manifest_ok m \<longleftrightarrow> table_ok (clickhouse_parts m)"

lemma table_ok_update_where:
  assumes "table_ok t" "\<And>r. P r \<Longrightarrow> part_key (f r) = part_key r"
    "\<And>r. P r \<Longrightarrow> r \<in> set t \<Longrightarrow> row_ok r \<Longrightarrow> row_ok (f r)"
  shows "table_ok (update_where P f t)"
  using assms by (auto simp: table_ok_def in_set_update_where update_where_keys)

lemma row_ok_simps:
  "row_ok (new_row now gen k v)"
  "row_ok r \<Longrightarrow> row_ok (upsert_row now gen v r)"
  "row_ok r \<Longrightarrow> row_ok (demote_row now r)"
  "row_ok r \<Longrightarrow> row_ok (sweep_row now r)"
  "row_ok r \<Longrightarrow> row_ok (age_out_row now r)"
  by (auto simp add: row_ok_def new_row_def upsert_row_def demote_row_def sweep_row_def
      age_out_row_def Let_def split: prod.splits)

lemma table_ok_upsert_one: "table_ok t \<Longrightarrow> table_ok (upsert_one now gen k v t)"
  by (auto simp: upsert_one_def table_ok_def in_set_update_where update_where_keys row_ok_simps)

lemma table_ok_upsert_staged: "table_ok t \<Longrightarrow> table_ok (upsert_staged now gen t kv)"
  by (auto simp: upsert_staged_def table_ok_def in_set_update_where update_where_keys row_ok_simps
      split: prod.splits)

lemma table_ok_upserts_staged: "table_ok t \<Longrightarrow> table_ok (foldl (upsert_staged now gen) t kvs)"
  by (induction kvs arbitrary: t) (auto intro: table_ok_upsert_staged)

lemma table_ok_reconcile_part:
  "table_ok (table s) \<Longrightarrow> table_ok (table (reconcile_part now gen s p))"
  by (auto simp: reconcile_part_def upsert_part_def demote_others_def Let_def
      intro!: table_ok_update_where table_ok_upsert_one row_ok_simps)

lemma table_ok_reconcile_parts:
  "table_ok (table s) \<Longrightarrow> table_ok (table (foldl (reconcile_part now gen) s ps))"
  by (induction ps arbitrary: s) (auto intro: table_ok_reconcile_part)

lemma table_load_mirror [simp]: "table (load_mirror t) = t"
proof -
  have "table (foldl load_row s rs) = table s" for s rs
    by (induction rs arbitrary: s) (auto simp: load_row_def)
  then show ?thesis by (simp add: load_mirror_def)
qed

lemma execute_many_ok:
  assumes "table_ok t" "\<And>r. part_key (f r) = part_key r" "\<And>r. row_ok r \<Longrightarrow> row_ok (f r)"
  shows "table_ok (snd (execute_many f ks t))"
proof -
  have "table_ok t \<Longrightarrow> table_ok (snd (foldl (\<lambda>(n, t) k.
      (n + count_where (\<lambda>r. part_key r = k \<and> status r \<noteq> Retired) t,
       update_where (\<lambda>r. part_key r = k \<and> status r \<noteq> Retired) f t)) (n, t) ks))" for n
    by (induction ks arbitrary: n t) (auto intro!: table_ok_update_where assms(2,3))
  with assms(1) show ?thesis by (simp add: execute_many_def)
qed

lemma reconcile_ok: "manifest_ok m \<Longrightarrow>
    manifest_ok (snd (reconcile now parts start_us end_us src sweep preserve m))"
  unfolding manifest_ok_def reconcile_def Let_def
  by (simp add: case_prod_beta execute_many_ok table_ok_reconcile_parts row_ok_simps)

lemma reconcile_streaming_ok: "manifest_ok m \<Longrightarrow>
    manifest_ok (snd (reconcile_streaming now parts start_us end_us src filt sweep preserve bs m))"
  unfolding manifest_ok_def reconcile_streaming_def Let_def
  by (auto simp: row_ok_simps intro!: table_ok_update_where table_ok_upserts_staged)

lemma recover_loading_ok: "manifest_ok m \<Longrightarrow> manifest_ok (snd (recover_loading now m))"
  unfolding manifest_ok_def recover_loading_def Let_def
  by (auto intro!: table_ok_update_where) (auto simp: row_ok_def)

lemma record_reconcile_error_ok: "manifest_ok m \<Longrightarrow> manifest_ok (record_reconcile_error e m)"
  by (simp add: manifest_ok_def record_reconcile_error_def)

lemma claim_next_row:
  assumes "claim_next now newest m = Some (j, m')"
  shows "job_row j \<in> set (clickhouse_parts m)" "claimable now (job_row j)"
    "m' = m\<lparr>clickhouse_parts := update_where
        (\<lambda>r. part_key r = part_key (job_row j) \<and> status r = status (job_row j))
        (\<lambda>r. r\<lparr>status := (if job_kind j = DeleteJob then Deleting else Loading),
               updated_at_us := now\<rparr>) (clickhouse_parts m)\<rparr>"
    "job_kind j = (if status (job_row j) \<in> {DeletePending, DeleteFailed} then DeleteJob else LoadJob)"
proof -
  let ?s = "sort_key (claim_rank newest) (filter (claimable now) (clickhouse_parts m))"
  from assms obtain row rest where s: "?s = row # rest"
    by (auto simp: claim_next_def split: list.splits)
  then have "row \<in> set ?s" by simp
  then have row: "row \<in> set (clickhouse_parts m)" "claimable now row" by simp_all
  from assms s have j: "job_row j = row"
    by (auto simp: claim_next_def Let_def split: if_splits)
  show "job_row j \<in> set (clickhouse_parts m)" "claimable now (job_row j)" using row j by auto
  show "m' = m\<lparr>clickhouse_parts := update_where
        (\<lambda>r. part_key r = part_key (job_row j) \<and> status r = status (job_row j))
        (\<lambda>r. r\<lparr>status := (if job_kind j = DeleteJob then Deleting else Loading),
               updated_at_us := now\<rparr>) (clickhouse_parts m)\<rparr>"
    "job_kind j = (if status (job_row j) \<in> {DeletePending, DeleteFailed} then DeleteJob else LoadJob)"
    using assms s by (auto simp: claim_next_def Let_def split: if_splits)
qed

lemma claim_next_None: "claim_next now newest m = None
    \<longleftrightarrow> (\<forall>r \<in> set (clickhouse_parts m). \<not> claimable now r)"
proof -
  let ?s = "sort_key (claim_rank newest) (filter (claimable now) (clickhouse_parts m))"
  have empty: "?s = [] \<longleftrightarrow> (\<forall>r \<in> set (clickhouse_parts m). \<not> claimable now r)"
    using set_sort [of "claim_rank newest" "filter (claimable now) (clickhouse_parts m)"]
    by (metis (no_types, lifting) empty_set filter_empty_conv set_empty)
  show ?thesis
  proof (cases ?s)
    case Nil
    with empty show ?thesis by (simp add: claim_next_def)
  next
    case (Cons row rest)
    then have "row \<in> set ?s" by simp
    then have row: "row \<in> set (clickhouse_parts m)" by simp
    then have "count_where (\<lambda>r. part_key r = part_key row \<and> status r = status row)
        (clickhouse_parts m) \<noteq> 0"
      by (subst count_where_zero_iff) auto
    with Cons empty show ?thesis by (auto simp: claim_next_def Let_def)
  qed
qed

lemma claim_next_minimal:
  assumes "claim_next now newest m = Some (j, m')"
    "r \<in> set (clickhouse_parts m)" "claimable now r"
  shows "claim_rank newest (job_row j) \<le> claim_rank newest r"
proof -
  let ?s = "sort_key (claim_rank newest) (filter (claimable now) (clickhouse_parts m))"
  from assms(1) obtain row rest where s: "?s = row # rest"
    by (auto simp: claim_next_def split: list.splits)
  with assms(1) have j: "job_row j = row"
    by (auto simp: claim_next_def Let_def split: if_splits)
  have "sorted (map (claim_rank newest) ?s)" by simp
  then have "\<forall>x \<in> set rest. claim_rank newest row \<le> claim_rank newest x" using s by simp
  moreover have "r \<in> set ?s" using assms(2,3) by simp
  ultimately show ?thesis using j s by auto
qed

lemma claim_next_ok: "manifest_ok m \<Longrightarrow> claim_next now newest m = Some (j, m') \<Longrightarrow> manifest_ok m'"
  by (drule claim_next_row(3)) (auto simp: manifest_ok_def row_ok_def intro!: table_ok_update_where)

lemma mark_ready_ok: "manifest_ok m \<Longrightarrow> manifest_ok (snd (mark_ready now p i n m))"
  unfolding manifest_ok_def mark_ready_def Let_def
  by (auto intro!: table_ok_update_where) (auto simp: row_ok_def)

lemma release_pending_ok: "manifest_ok m \<Longrightarrow> manifest_ok (snd (release_pending now p i why d m))"
  unfolding manifest_ok_def release_pending_def Let_def
  by (auto split: option.splits intro!: table_ok_update_where) (auto simp: row_ok_def)

lemma mark_failed_ok: "manifest_ok m \<Longrightarrow> manifest_ok (snd (mark_failed now p i e m))"
  unfolding manifest_ok_def mark_failed_def Let_def
  by (auto split: option.splits intro!: table_ok_update_where)
    (auto simp: row_ok_def table_ok_def dest!: find_row_SomeD)

lemma mark_retired_ok: "manifest_ok m \<Longrightarrow> manifest_ok (snd (mark_retired now p i m))"
  unfolding manifest_ok_def mark_retired_def Let_def
  by (auto intro!: table_ok_update_where) (auto simp: row_ok_def)

subsection \<open>Chunked statements\<close>

text \<open>Chunked updates of disjoint path sets are one update of all the paths.\<close>

lemma demote_chunks:
  assumes "distinct (concat cs)"
  shows "foldl (\<lambda>(n, t) chunk. (n + count_where (path_active chunk) t,
             update_where (path_active chunk) (demote_row now) t)) (n, t) cs
    = (n + count_where (path_active (concat cs)) t,
       update_where (path_active (concat cs)) (demote_row now) t)"
  using assms
proof (induction cs arbitrary: n t)
  case Nil
  then show ?case by (simp add: path_active_def update_where_id count_where_zero_iff)
next
  case (Cons c cs)
  let ?t = "update_where (path_active c) (demote_row now) t"
  have path: "part_path (demote_row now r) = part_path r" for r
    by (simp add: demote_row_def Let_def)
  have count: "count_where (path_active (c @ concat cs)) t
      = count_where (path_active c) t + count_where (path_active (concat cs)) ?t"
    using Cons.prems by (induction t) (auto simp: path_active_def path)
  have upd: "update_where (path_active (concat cs)) (demote_row now) ?t
      = update_where (path_active (c @ concat cs)) (demote_row now) t"
    using Cons.prems by (induction t) (auto simp: path_active_def path)
  from Cons show ?case by (simp add: count upd)
qed

lemma queue_missing_paths_eq:
  "queue_missing_paths now paths m =
     (let P = (\<lambda>r. part_path r \<in> set paths \<and> part_path r \<noteq> '''' \<and> status r \<noteq> Retired)
      in (count_where P (clickhouse_parts m),
          m\<lparr>clickhouse_parts := update_where P (demote_row now) (clickhouse_parts m)\<rparr>))"
proof -
  let ?v = "sort (remdups (filter (\<lambda>p. p \<noteq> '''') paths))"
  let ?P = "\<lambda>r. part_path r \<in> set paths \<and> part_path r \<noteq> '''' \<and> status r \<noteq> Retired"
  have concat: "concat (chunks 400 ?v) = ?v" by (simp add: concat_chunks)
  have "path_active ?v = ?P" by (auto simp: path_active_def fun_eq_iff)
  show ?thesis
  proof (cases "?v = []")
    case True
    then have "set ?v = {}" by simp
    then have none: "\<not> ?P r" for r by auto
    with True show ?thesis
      by (simp add: queue_missing_paths_def Let_def none update_where_id count_where_zero_iff)
  next
    case False
    have "foldl (\<lambda>(n, t) chunk. (n + count_where (path_active chunk) t,
             update_where (path_active chunk) (demote_row now) t)) (0, clickhouse_parts m) (chunks 400 ?v)
        = (count_where ?P (clickhouse_parts m),
           update_where ?P (demote_row now) (clickhouse_parts m))"
      using demote_chunks [of "chunks 400 ?v" now 0 "clickhouse_parts m"]
      by (simp add: concat \<open>path_active ?v = ?P\<close>)
    with False show ?thesis by (simp add: queue_missing_paths_def Let_def)
  qed
qed

lemma queue_missing_paths_ok: "manifest_ok m \<Longrightarrow> manifest_ok (snd (queue_missing_paths now ps m))"
  unfolding manifest_ok_def queue_missing_paths_eq Let_def
  by (auto intro!: table_ok_update_where row_ok_simps)

section \<open>The job state machine\<close>

text \<open>Any committed operation of the manifest, at any time and with any arguments.\<close>

inductive manifest_step :: "manifest \<Rightarrow> manifest \<Rightarrow> bool" where
  recover: "manifest_step m (snd (recover_loading now m))"
| reconciling: "manifest_step m (snd (reconcile now parts a b src sweep preserve m))"
| streaming: "manifest_step m (snd (reconcile_streaming now parts a b src filt sweep preserve bs m))"
| reconcile_failed: "manifest_step m (record_reconcile_error e m)"
| claim: "claim_next now newest m = Some (j, m') \<Longrightarrow> manifest_step m m'"
| ready: "manifest_step m (snd (mark_ready now p i n m))"
| release: "manifest_step m (snd (release_pending now p i why d m))"
| failed: "manifest_step m (snd (mark_failed now p i e m))"
| retired: "manifest_step m (snd (mark_retired now p i m))"
| missing: "manifest_step m (snd (queue_missing_paths now ps m))"

lemma manifest_step_ok: "manifest_step m m' \<Longrightarrow> manifest_ok m \<Longrightarrow> manifest_ok m'"
  by (induction rule: manifest_step.induct)
    (simp_all add: recover_loading_ok reconcile_ok reconcile_streaming_ok
      record_reconcile_error_ok claim_next_ok mark_ready_ok release_pending_ok mark_failed_ok
      mark_retired_ok queue_missing_paths_ok)

interpretation manifest_system: transition_system manifest_step manifest_ok
  by unfold_locales (rule manifest_step_ok)

subsection \<open>Only a load becomes ready\<close>

definition ready_keys :: "clickhouse_part list \<Rightarrow> row_key set" where
  "ready_keys t = part_key ` {r \<in> set t. status r = Ready}"

lemma ready_keys_update_where:
  assumes "\<And>r. P r \<Longrightarrow> part_key (f r) = part_key r"
    "\<And>r. P r \<Longrightarrow> status (f r) = Ready \<Longrightarrow> status r = Ready"
  shows "ready_keys (update_where P f t) \<subseteq> ready_keys t"
  using assms by (fastforce simp: ready_keys_def in_set_update_where image_iff split: if_splits)

lemma ready_keys_append: "ready_keys (t @ u) = ready_keys t \<union> ready_keys u"
  by (auto simp: ready_keys_def)

lemma ready_keys_upsert_one: "ready_keys (upsert_one now gen k v t) \<subseteq> ready_keys t"
proof -
  have "ready_keys (update_where (\<lambda>r. part_key r = k) (upsert_row now gen v) t) \<subseteq> ready_keys t"
    by (rule ready_keys_update_where) (auto split: if_splits)
  then show ?thesis
    by (auto simp: upsert_one_def ready_keys_append) (auto simp: ready_keys_def)
qed

lemma ready_keys_upsert_staged: "ready_keys (upsert_staged now gen t kv) \<subseteq> ready_keys t"
proof -
  obtain k v where kv: "kv = (k, v)" by (rule prod.exhaust)
  have "ready_keys (update_where (\<lambda>r. part_key r = k \<and> (status r \<in> set RESET_STATES
      \<or> row_values r \<noteq> v)) (upsert_row now gen v) t) \<subseteq> ready_keys t"
    by (rule ready_keys_update_where) (auto split: if_splits)
  then show ?thesis
    by (auto simp: kv upsert_staged_def ready_keys_append) (auto simp: ready_keys_def)
qed

lemma ready_keys_upserts_staged: "ready_keys (foldl (upsert_staged now gen) t kvs) \<subseteq> ready_keys t"
proof (induction kvs arbitrary: t)
  case (Cons kv kvs)
  have "ready_keys (foldl (upsert_staged now gen) (upsert_staged now gen t kv) kvs)
      \<subseteq> ready_keys (upsert_staged now gen t kv)" by (rule Cons.IH)
  also have "\<dots> \<subseteq> ready_keys t" by (rule ready_keys_upsert_staged)
  finally show ?case by simp
qed simp

lemma ready_keys_demote_where: "ready_keys (update_where P (demote_row now) t) \<subseteq> ready_keys t"
  by (rule ready_keys_update_where) (auto split: if_splits)

lemma ready_keys_sweep_where: "ready_keys (update_where P (sweep_row now) t) \<subseteq> ready_keys t"
  by (rule ready_keys_update_where) (auto split: if_splits)

lemma ready_keys_age_where: "ready_keys (update_where P (age_out_row now) t) \<subseteq> ready_keys t"
  by (rule ready_keys_update_where) (auto split: if_splits)

lemma ready_keys_reconcile_part:
  "ready_keys (table (reconcile_part now gen s p)) \<subseteq> ready_keys (table s)"
proof -
  have up: "ready_keys (table (upsert_part now gen k v u)) \<subseteq> ready_keys (table u)" for k v u
    using ready_keys_upsert_one [of now gen k v "table u"]
    by (auto simp: upsert_part_def Let_def split: if_splits)
  have dem: "ready_keys (table (demote_others now p' i u)) \<subseteq> ready_keys (table u)" for p' i u
    using ready_keys_demote_where [of "other_active p' i" now "table u"]
    by (auto simp: demote_others_def Let_def split: if_splits)
  let ?k = "(sp_path p, part_identity p)"
  let ?u = "upsert_part now gen ?k (source_values p) (s\<lparr>seen := ?k # seen s\<rparr>)"
  have "ready_keys (table (demote_others now (sp_path p) (part_identity p) ?u)) \<subseteq> ready_keys (table ?u)"
    by (rule dem)
  also have "\<dots> \<subseteq> ready_keys (table (s\<lparr>seen := ?k # seen s\<rparr>))" by (rule up)
  finally show ?thesis by (simp add: reconcile_part_def Let_def)
qed

lemma ready_keys_reconcile_parts:
  "ready_keys (table (foldl (reconcile_part now gen) s ps)) \<subseteq> ready_keys (table s)"
proof (induction ps arbitrary: s)
  case (Cons p ps)
  then show ?case using ready_keys_reconcile_part [of now gen s p] by fastforce
qed simp

lemma ready_keys_execute_many:
  assumes "\<And>r. part_key (f r) = part_key r" "\<And>r. status (f r) = Ready \<Longrightarrow> status r = Ready"
  shows "ready_keys (snd (execute_many f ks t)) \<subseteq> ready_keys t"
proof -
  have "ready_keys (snd (foldl (\<lambda>(n, t) k.
      (n + count_where (\<lambda>r. part_key r = k \<and> status r \<noteq> Retired) t,
       update_where (\<lambda>r. part_key r = k \<and> status r \<noteq> Retired) f t)) (n, t) ks)) \<subseteq> ready_keys t" for n
  proof (induction ks arbitrary: n t)
    case (Cons k ks)
    have "ready_keys (update_where (\<lambda>r. part_key r = k \<and> status r \<noteq> Retired) f t) \<subseteq> ready_keys t"
      by (rule ready_keys_update_where) (auto simp: assms)
    with Cons.IH show ?case by (simp, blast)
  qed simp
  then show ?thesis by (simp add: execute_many_def)
qed

lemma ready_keys_reconcile:
  "ready_keys (clickhouse_parts (snd (reconcile now parts a b src sweep preserve m)))
     \<subseteq> ready_keys (clickhouse_parts m)"
proof -
  have sweep_part: "ready_keys (snd (execute_many (sweep_row now) ks t)) \<subseteq> ready_keys t" for ks t
    by (rule ready_keys_execute_many) (auto split: if_splits)
  have age_part: "ready_keys (snd (execute_many (age_out_row now) ks t)) \<subseteq> ready_keys t" for ks t
    by (rule ready_keys_execute_many) (auto split: if_splits)
  have loop: "ready_keys (table (foldl (reconcile_part now gen) (load_mirror (clickhouse_parts m)) parts))
      \<subseteq> ready_keys (clickhouse_parts m)" for gen
    using ready_keys_reconcile_parts [of now gen "load_mirror (clickhouse_parts m)" parts] by simp
  show ?thesis
    using sweep_part age_part loop
    by (simp add: reconcile_def Let_def case_prod_beta) (blast dest: subsetD)
qed

lemma ready_keys_reconcile_streaming:
  "ready_keys (clickhouse_parts (snd (reconcile_streaming now parts a b src filt sweep preserve bs m)))
     \<subseteq> ready_keys (clickhouse_parts m)"
  unfolding reconcile_streaming_def Let_def
  using ready_keys_upserts_staged ready_keys_demote_where ready_keys_sweep_where ready_keys_age_where
  by (simp, blast dest: subsetD)

lemma mark_ready_keys:
  assumes "k \<in> ready_keys (clickhouse_parts (snd (mark_ready now p i n m)))" "k \<notin> ready_keys (clickhouse_parts m)"
  shows "k = (p, i) \<and> (\<exists>r \<in> set (clickhouse_parts m). part_key r = (p, i) \<and> status r \<in> {Loading, Pending, LoadFailed})"
proof -
  let ?P = "\<lambda>r. part_key r = (p, i) \<and> status r \<in> {Loading, Pending, LoadFailed}"
  let ?f = "\<lambda>r. r\<lparr>status := Ready, inserted_rows := max n 0, last_error := '''', next_retry_us := 0,
    ready_at_us := now, updated_at_us := now\<rparr>"
  have "clickhouse_parts (snd (mark_ready now p i n m)) = update_where ?P ?f (clickhouse_parts m)"
    by (simp add: mark_ready_def Let_def)
  with assms(1) obtain x where x: "x \<in> set (update_where ?P ?f (clickhouse_parts m))" "status x = Ready" "part_key x = k"
    by (auto simp: ready_keys_def)
  from x(1) obtain q where q: "q \<in> set (clickhouse_parts m)" "x = (if ?P q then ?f q else q)"
    unfolding in_set_update_where by blast
  show ?thesis
  proof (cases "?P q")
    case True
    have "part_key x = part_key q" unfolding q(2) if_P [OF True] by (simp add: part_key_def)
    with True x(3) q(1) show ?thesis by metis
  next
    case False
    then have "x = q" using q(2) by (simp only: if_False)
    then have "k \<in> ready_keys (clickhouse_parts m)" using q(1) x(2,3) unfolding ready_keys_def by blast
    then show ?thesis using assms(2) by simp
  qed
qed

lemma manifest_step_ready:
  assumes "manifest_step m m'"
  shows "ready_keys (clickhouse_parts m') \<subseteq> ready_keys (clickhouse_parts m)
    \<or> (\<exists>now p i n. m' = snd (mark_ready now p i n m))"
  using assms
proof (induction rule: manifest_step.induct)
  case (recover m now)
  then show ?case
    by (auto simp: recover_loading_def Let_def ready_keys_def in_set_update_where split: if_splits)
next
  case (reconciling m now parts a b src sweep preserve)
  then show ?case using ready_keys_reconcile by blast
next
  case (streaming m now parts a b src filt sweep preserve bs)
  then show ?case using ready_keys_reconcile_streaming by blast
next
  case (reconcile_failed m e)
  then show ?case by (simp add: record_reconcile_error_def)
next
  case (claim now newest m j m')
  then have "m' = m\<lparr>clickhouse_parts := update_where
        (\<lambda>r. part_key r = part_key (job_row j) \<and> status r = status (job_row j))
        (\<lambda>r. r\<lparr>status := (if job_kind j = DeleteJob then Deleting else Loading),
               updated_at_us := now\<rparr>) (clickhouse_parts m)\<rparr>"
    using claim_next_row(3) by blast
  then show ?case
    by (auto simp: ready_keys_def in_set_update_where split: if_splits)
next
  case (ready m now p i n)
  then show ?case by blast
next
  case (release m now p i why d)
  then show ?case
    by (auto simp: release_pending_def Let_def ready_keys_def in_set_update_where
        split: if_splits option.splits)
next
  case (failed m now p i e)
  then show ?case
    by (auto simp: mark_failed_def Let_def ready_keys_def in_set_update_where
        split: if_splits option.splits)
next
  case (retired m now p i)
  then show ?case
    by (auto simp: mark_retired_def Let_def ready_keys_def in_set_update_where split: if_splits)
next
  case (missing m now ps)
  then show ?case
    using ready_keys_demote_where by (auto simp: queue_missing_paths_eq Let_def)
qed

text \<open>
  Property C18. A part becomes servable (\<open>ready\<close>) only through \<open>mark_ready\<close> on a row in a load state: when a step
  of the manifest leaves a key ready that was not ready before, the step is \<open>mark_ready\<close> of that key, and the row
  of the key was \<open>loading\<close>, \<open>pending\<close> or \<open>load_failed\<close>. No recovery, reconcile, claim, release, failure, retirement
  or path removal makes a part servable, and a row on its way to deletion, or retired, never becomes ready at once.
\<close>

theorem ready_only_from_load:
  assumes "manifest_step m m'" "k \<in> ready_keys (clickhouse_parts m')" "k \<notin> ready_keys (clickhouse_parts m)"
  shows "\<exists>now p i n. k = (p, i) \<and> m' = snd (mark_ready now p i n m) \<and>
    (\<exists>r \<in> set (clickhouse_parts m). part_key r = (p, i) \<and> status r \<in> {Loading, Pending, LoadFailed})"
  using manifest_step_ready [OF assms(1)] mark_ready_keys [of k _ _ _ _ m] assms(2,3) by blast

text \<open>A small manifest used by the witnesses: one row per (path, identity, status).\<close>

definition sample_row :: "string \<times> string \<times> part_state \<Rightarrow> clickhouse_part" where
  "sample_row x = (case x of (path, lid, st) \<Rightarrow>
     (new_row 1 1 (path, lid) (''sha'', 1, 100, 200, 10, 1000))\<lparr>status := st, attempts := 1\<rparr>)"

definition sample_manifest :: "(string \<times> string \<times> part_state) list \<Rightarrow> manifest" where
  "sample_manifest xs = \<lparr>clickhouse_parts = map sample_row xs,
     state = Some \<lparr>generation = 1, start_epoch_us = 0, end_epoch_us = 500, source_parts = 1,
       eligible_parts = 1, completed_at_us = 5, reconcile_error = ''''\<rparr>,
     schema_version = Some 1\<rparr>"

lemma sample_row_simps [simp]:
  "part_key (sample_row (p, i, st)) = (p, i)" "part_path (sample_row (p, i, st)) = p"
  "logical_part_id (sample_row (p, i, st)) = i" "status (sample_row (p, i, st)) = st"
  "next_retry_us (sample_row (p, i, st)) = 0" "max_event_epoch_us (sample_row (p, i, st)) = 200"
  "min_event_epoch_us (sample_row (p, i, st)) = 100" "inserted_rows (sample_row (p, i, st)) = 0"
  "attempts (sample_row (p, i, st)) = 1" "row_ok (sample_row (p, i, st))"
  by (simp_all add: sample_row_def new_row_def part_key_def row_ok_def)

lemma sample_manifest_simps [simp]:
  "clickhouse_parts (sample_manifest xs) = map sample_row xs"
  by (simp add: sample_manifest_def)

lemma sample_manifest_ok: "distinct (map (\<lambda>(p, i, st). (p, i)) xs) \<Longrightarrow> manifest_ok (sample_manifest xs)"
  by (induction xs) (auto simp: manifest_ok_def table_ok_def, force)

theorem ready_only_from_load_witness:
  "\<exists>now p i n. (''p'', ''i'') = (p, i) \<and>
     snd (mark_ready 9 ''p'' ''i'' 3 (sample_manifest [(''p'', ''i'', Loading)]))
       = snd (mark_ready now p i n (sample_manifest [(''p'', ''i'', Loading)])) \<and>
     (\<exists>r \<in> set (clickhouse_parts (sample_manifest [(''p'', ''i'', Loading)])).
        part_key r = (p, i) \<and> status r \<in> {Loading, Pending, LoadFailed})"
proof (rule ready_only_from_load)
  show "manifest_step (sample_manifest [(''p'', ''i'', Loading)])
      (snd (mark_ready 9 ''p'' ''i'' 3 (sample_manifest [(''p'', ''i'', Loading)])))"
    by (rule manifest_step.ready)
  show "(''p'', ''i'') \<in> ready_keys (clickhouse_parts
      (snd (mark_ready 9 ''p'' ''i'' 3 (sample_manifest [(''p'', ''i'', Loading)]))))"
    by (simp add: mark_ready_def Let_def ready_keys_def image_iff)
  show "(''p'', ''i'') \<notin> ready_keys (clickhouse_parts (sample_manifest [(''p'', ''i'', Loading)]))"
    by (auto simp: ready_keys_def)
qed

subsection \<open>Claims\<close>

definition running_keys :: "manifest \<Rightarrow> row_key set" where
  "running_keys m = part_key ` {r \<in> set (clickhouse_parts m). status r \<in> {Loading, Deleting}}"

text \<open>
  Workers call \<open>claim_next\<close> one after another, each at its own time and in its own order of
  preference: the queue is the manifest with the calls still to come.
\<close>

fun claim_call :: "manifest \<times> (int \<times> bool) list \<Rightarrow> (row_key \<times> manifest \<times> (int \<times> bool) list) option" where
  "claim_call (m, []) = None"
| "claim_call (m, (now, newest) # calls) = (case claim_next now newest m of None \<Rightarrow> None
     | Some (j, m') \<Rightarrow> Some (part_key (job_row j), m', calls))"

lemma claim_next_running:
  assumes "manifest_ok m" "claim_next now newest m = Some (j, m')"
  shows "part_key (job_row j) \<notin> running_keys m"
    "running_keys m' = insert (part_key (job_row j)) (running_keys m)"
proof -
  note row = claim_next_row [OF assms(2)]
  have uniq: "r = job_row j" if "r \<in> set (clickhouse_parts m)" "part_key r = part_key (job_row j)" for r
    using assms(1) row(1) that by (auto simp: manifest_ok_def table_ok_def dest: distinct_key_unique)
  show "part_key (job_row j) \<notin> running_keys m"
    using row(2) by (auto simp: running_keys_def claimable_def dest: uniq)
  show "running_keys m' = insert (part_key (job_row j)) (running_keys m)"
  proof (intro equalityI subsetI)
    fix k assume "k \<in> running_keys m'"
    then show "k \<in> insert (part_key (job_row j)) (running_keys m)"
      by (auto simp: row(3) running_keys_def in_set_update_where split: if_splits)
  next
    fix k assume k: "k \<in> insert (part_key (job_row j)) (running_keys m)"
    let ?f = "\<lambda>r. if part_key r = part_key (job_row j) \<and> status r = status (job_row j)
        then r\<lparr>status := (if job_kind j = DeleteJob then Deleting else Loading), updated_at_us := now\<rparr> else r"
    show "k \<in> running_keys m'"
    proof (cases "k = part_key (job_row j)")
      case True
      have "?f (job_row j) \<in> set (clickhouse_parts m')"
        using row(1) by (auto simp: row(3) update_where_def)
      moreover have "part_key (?f (job_row j)) = k" "status (?f (job_row j)) \<in> {Loading, Deleting}"
        using True by auto
      ultimately have "?f (job_row j) \<in> {r \<in> set (clickhouse_parts m'). status r \<in> {Loading, Deleting}}"
        by blast
      then have "part_key (?f (job_row j)) \<in> running_keys m'"
        unfolding running_keys_def by (rule imageI)
      then show ?thesis using \<open>part_key (?f (job_row j)) = k\<close> by simp
    next
      case False
      with k obtain r where r: "r \<in> set (clickhouse_parts m)" "part_key r = k" "status r \<in> {Loading, Deleting}"
        by (auto simp: running_keys_def)
      with False have "?f r = r" by auto
      with r(1) have "r \<in> set (clickhouse_parts m')" by (force simp: row(3) update_where_def)
      with r show ?thesis by (auto simp: running_keys_def)
    qed
  qed
qed

interpretation manifest_queue: claim_queue claim_call "\<lambda>s. running_keys (fst s)" "\<lambda>s. manifest_ok (fst s)"
proof
  fix s k t
  assume ok: "manifest_ok (fst s)" and call: "claim_call s = Some (k, t)"
  from call obtain m now newest calls j m' where eqs: "s = (m, (now, newest) # calls)"
      "claim_next now newest m = Some (j, m')" "k = part_key (job_row j)" "t = (m', calls)"
    by (cases s rule: claim_call.cases) (auto split: option.splits)
  show "k \<notin> running_keys (fst s)" "running_keys (fst t) = insert k (running_keys (fst s))"
    "manifest_ok (fst t)"
    using ok eqs claim_next_running [of m now newest j m'] claim_next_ok by auto
qed

text \<open>
  Property C17. However the workers interleave, and whatever clock and preference each claim uses, no
  part is handed out twice: a run of claims without intervening completions returns pairwise
  distinct parts, none of which was running before.
\<close>

theorem claims_are_exclusive:
  assumes "manifest_ok m" "claim_queue.claims claim_call n (m, calls) = (ks, m', calls')"
  shows "distinct ks \<and> set ks \<inter> running_keys m = {} \<and> running_keys m' = running_keys m \<union> set ks"
  using manifest_queue.claims_distinct [of "(m, calls)" n ks "(m', calls')"] assms by simp

theorem claims_are_exclusive_witness:
  "distinct [(''a'', ''2''), (''a'', ''1'')] \<and>
   set [(''a'', ''2''), (''a'', ''1'')] \<inter> running_keys
     (sample_manifest [(''a'', ''1'', Pending), (''a'', ''2'', DeletePending)]) = {}"
proof -
  let ?m = "sample_manifest [(''a'', ''1'', Pending), (''a'', ''2'', DeletePending)]"
  have "manifest_ok ?m" by (rule sample_manifest_ok) simp
  moreover obtain m' calls' where
    "claim_queue.claims claim_call 2 (?m, [(5, False), (6, True)]) = ([(''a'', ''2''), (''a'', ''1'')], m', calls')"
    by (simp add: numeral_2_eq_2 claim_next_def claimable_def claim_rank_def Let_def)
  ultimately show ?thesis using claims_are_exclusive by blast
qed

text \<open>
  \<open>claim_next\<close> returns a job exactly when some row is due, and the job it returns is
  the least due row in the order: deletes, then retries, then due time, event time and path.
\<close>

theorem claim_next_takes_minimum:
  "(claim_next now newest m = None \<longleftrightarrow> (\<forall>r \<in> set (clickhouse_parts m). \<not> claimable now r)) \<and>
   (\<forall>j m'. claim_next now newest m = Some (j, m') \<longrightarrow>
      job_row j \<in> set (clickhouse_parts m) \<and> claimable now (job_row j) \<and>
      (\<forall>r \<in> set (clickhouse_parts m). claimable now r \<longrightarrow>
         claim_rank newest (job_row j) \<le> claim_rank newest r))"
  using claim_next_None claim_next_row(1,2) claim_next_minimal by blast

theorem claim_next_takes_minimum_witness:
  "claim_rank False (sample_row (''b'', ''1'', DeleteFailed)) \<le> claim_rank False (sample_row (''a'', ''1'', Pending))"
proof -
  let ?m = "sample_manifest [(''a'', ''1'', Pending), (''b'', ''1'', DeleteFailed)]"
  obtain j m' where j: "claim_next 5 False ?m = Some (j, m')"
      "job_row j = sample_row (''b'', ''1'', DeleteFailed)"
    by (simp add: claim_next_def claimable_def claim_rank_def Let_def)
  moreover have "claimable 5 (sample_row (''a'', ''1'', Pending))" by (simp add: claimable_def)
  ultimately show ?thesis
    using claim_next_takes_minimum [of 5 False ?m] by auto
qed

subsection \<open>Retries\<close>

lemma retry_delay_bounds: "1 \<le> n \<Longrightarrow> 5 \<le> retry_delay_seconds n \<and> retry_delay_seconds n \<le> 900"
proof -
  assume "1 \<le> n"
  have "(1::int) \<le> 2 ^ k" for k :: nat by simp
  from this [of "nat (min (n - 1) 8)"] show ?thesis
    unfolding retry_delay_seconds_def by linarith
qed

lemma retry_delay_mono: "1 \<le> a \<Longrightarrow> a \<le> b \<Longrightarrow> retry_delay_seconds a \<le> retry_delay_seconds b"
proof -
  assume "1 \<le> a" "a \<le> b"
  then have "nat (min (a - 1) 8) \<le> nat (min (b - 1) 8)" by linarith
  then have "(2::int) ^ nat (min (a - 1) 8) \<le> 2 ^ nat (min (b - 1) 8)"
    by (rule power_increasing) simp
  then show ?thesis unfolding retry_delay_seconds_def by linarith
qed

text \<open>
  A failed job keeps its direction (a delete job fails as \<open>delete_failed\<close>, any other as
  \<open>load_failed\<close>), counts one more attempt, and becomes due again no earlier than 5 seconds and no
  later than 900 seconds after the failure; every other row is unchanged.
\<close>

theorem mark_failed_backoff:
  assumes "manifest_ok m" "find_row part_key (p, i) (clickhouse_parts m) = Some r"
  shows "\<exists>r'. find_row part_key (p, i) (clickhouse_parts (snd (mark_failed now p i e m))) = Some r'
    \<and> status r' = (if status r \<in> {DeletePending, Deleting, DeleteFailed} then DeleteFailed else LoadFailed)
    \<and> attempts r' = attempts r + 1
    \<and> now + 5000000 \<le> next_retry_us r' \<and> next_retry_us r' \<le> now + 900000000
    \<and> (\<forall>k. k \<noteq> (p, i) \<longrightarrow> find_row part_key k (clickhouse_parts (snd (mark_failed now p i e m)))
                          = find_row part_key k (clickhouse_parts m))"
proof -
  have "1 \<le> attempts r + 1"
    using assms by (auto simp: manifest_ok_def table_ok_def row_ok_def dest!: find_row_SomeD)
  then show ?thesis
    using assms(2) retry_delay_bounds [of "attempts r + 1"]
    by (auto simp: mark_failed_def Let_def find_row_update_where option.map_comp
        dest!: find_row_SomeD intro!: map_option_cong [THEN trans, OF refl _ option.map_ident])
qed

theorem mark_failed_backoff_witness:
  "\<exists>r'. find_row part_key (''p'', ''i'') (clickhouse_parts (snd (mark_failed 7 ''p'' ''i'' ''boom''
        (sample_manifest [(''p'', ''i'', Deleting)])))) = Some r' \<and> status r' = DeleteFailed"
proof -
  let ?m = "sample_manifest [(''p'', ''i'', Deleting)]"
  have "manifest_ok ?m" by (rule sample_manifest_ok) simp
  moreover have "find_row part_key (''p'', ''i'') (clickhouse_parts ?m) = Some (sample_row (''p'', ''i'', Deleting))"
    by simp
  ultimately show ?thesis
    using mark_failed_backoff [of ?m "''p''" "''i''" _ 7 "''boom''"] by fastforce
qed

subsection \<open>What the gates promise\<close>

text \<open>
  The global serving gate is open exactly when the source is complete and idle, a full
  reconcile finished without error, and every row of the manifest is ready or retired.
\<close>

theorem global_gate_iff:
  "complete (global_coverage src pending m) \<longleftrightarrow>
     src \<and> \<not> pending \<and> reconciled m \<and> manifest_error m = ''''
     \<and> (\<forall>r \<in> set (clickhouse_parts m). status r \<in> {Ready, Retired})"
proof -
  have "status r \<in> set UNREADY \<longleftrightarrow> status r \<notin> {Ready, Retired}" for r
    by (cases "status r") auto
  then show ?thesis
    by (auto simp: global_coverage_def make_gate_def Let_def list_ex_iff)
qed

theorem global_gate_iff_witness:
  "complete (global_coverage True False (sample_manifest [(''p'', ''i'', Ready), (''q'', ''j'', Retired)]))"
  unfolding global_gate_iff
  by (simp add: reconciled_def manifest_error_def sample_manifest_def sample_row_def)

text \<open>
  The window gate is sound and monotone: when it is open for a window, every row whose
  event span meets the window is ready or retired, and the gate is also open for every smaller window.
\<close>

theorem window_gate_sound:
  assumes "complete (window_coverage src pending win_pending a b m)"
  shows "(\<forall>r \<in> set (clickhouse_parts m). min_event_epoch_us r \<le> b \<and> a \<le> max_event_epoch_us r
            \<longrightarrow> status r \<in> {Ready, Retired}) \<and>
         (\<forall>a' b'. a \<le> a' \<and> b' \<le> b \<longrightarrow> complete (window_coverage src pending win_pending a' b' m))"
proof -
  have "status r \<in> set UNREADY \<longleftrightarrow> status r \<notin> {Ready, Retired}" for r
    by (cases "status r") auto
  then show ?thesis
    using assms by (auto simp: window_coverage_def make_gate_def Let_def list_ex_iff)
qed

theorem window_gate_sound_witness:
  "complete (window_coverage True True False 350 390
     (sample_manifest [(''p'', ''i'', Pending), (''q'', ''j'', Ready)]))"
proof -
  have "complete (window_coverage True True False 300 400
     (sample_manifest [(''p'', ''i'', Pending), (''q'', ''j'', Ready)]))"
    by (simp add: window_coverage_def make_gate_def Let_def reconciled_def manifest_error_def
        sample_manifest_def)
  from window_gate_sound [OF this] show ?thesis by simp
qed

lemma expected_parts_distinct: "distinct (map fst (expected_parts parts))"
proof -
  have "distinct (map fst d) \<Longrightarrow> distinct (map fst (foldl (\<lambda>d p. if part_identity p \<noteq> ''''
     then AList.update (sp_path p) (part_identity p) d else d) d parts))" for d
    by (induction parts arbitrary: d) (auto simp: distinct_update)
  then show ?thesis by (simp add: expected_parts_def)
qed

lemma fetch_rows_at:
  assumes "distinct paths" "p \<in> set paths"
  shows "filter (\<lambda>r. part_path r = p) (fetch_rows paths t) = filter (\<lambda>r. part_path r = p) t"
proof -
  have "distinct (concat cs) \<Longrightarrow> p \<in> set (concat cs) \<Longrightarrow>
      filter (\<lambda>r. part_path r = p)
        (concat (map (\<lambda>chunk. filter (\<lambda>r. part_path r \<in> set chunk) t) cs))
      = filter (\<lambda>r. part_path r = p) t" for cs
  proof (induction cs)
    case (Cons c cs)
    have none: "filter (\<lambda>r. part_path r = p)
        (concat (map (\<lambda>chunk. filter (\<lambda>r. part_path r \<in> set chunk) t) ds)) = []"
      if "p \<notin> set (concat ds)" for ds
      using that by (auto simp: filter_empty_conv)
    have here: "filter (\<lambda>r. part_path r \<in> set c \<and> part_path r = p) t
        = (if p \<in> set c then filter (\<lambda>r. part_path r = p) t else [])"
      by (induction t) auto
    show ?case
    proof (cases "p \<in> set c")
      case True
      with Cons.prems have "p \<notin> set (concat cs)" by auto
      with True show ?thesis by (simp add: here none)
    next
      case False
      with Cons show ?thesis by (simp add: here)
    qed
  qed simp
  from this [of "chunks 400 paths"] assms show ?thesis
    by (simp add: fetch_rows_def concat_chunks)
qed

lemma scan_path_state:
  "foldl (\<lambda>(current, stale) r. if logical_part_id r = i then (Some r, stale)
       else if status r \<noteq> Retired then (current, True) else (current, stale)) (c, s) rs
   = ((case filter (\<lambda>r. logical_part_id r = i) rs of [] \<Rightarrow> c | xs \<Rightarrow> Some (last xs)),
      s \<or> (\<exists>r \<in> set rs. logical_part_id r \<noteq> i \<and> status r \<noteq> Retired))"
  by (induction rs arbitrary: c s) (auto split: list.splits)

lemma scan_path_eq:
  assumes "table_ok t"
  shows "scan_path i (filter (\<lambda>r. part_path r = p) t)
    = (find_row part_key (p, i) t,
       \<exists>r \<in> set t. part_path r = p \<and> logical_part_id r \<noteq> i \<and> status r \<noteq> Retired)"
proof -
  have "filter (\<lambda>r. logical_part_id r = i) (filter (\<lambda>r. part_path r = p) t)
      = (case find_row part_key (p, i) t of None \<Rightarrow> [] | Some r \<Rightarrow> [r])"
    using assms
  proof (induction t)
    case (Cons r t)
    then have "table_ok t" by (simp add: table_ok_def)
    have none: "find_row part_key (p, i) t = None" if "part_key r = (p, i)"
      using Cons.prems that by (auto simp: table_ok_def find_row_None)
    have key: "part_key r = (p, i) \<longleftrightarrow> part_path r = p \<and> logical_part_id r = i"
      by (simp add: part_key_def)
    show ?case
      using Cons.IH [OF \<open>table_ok t\<close>] none by (auto simp: key split: option.splits)
  qed simp
  then show ?thesis
    unfolding scan_path_def scan_path_state by (auto split: option.splits)
qed

definition part_servable :: "clickhouse_part list \<Rightarrow> string \<times> string \<Rightarrow> bool" where
  "part_servable t = (\<lambda>(path, identity).
     (\<exists>r \<in> set t. part_key r = (path, identity) \<and> status r = Ready) \<and>
     (\<forall>r \<in> set t. part_path r = path \<and> logical_part_id r \<noteq> identity \<longrightarrow> status r = Retired))"

lemma path_covered_iff:
  assumes "table_ok t"
  shows "path_covered (scan_path i (filter (\<lambda>r. part_path r = p) t)) \<longleftrightarrow> part_servable t (p, i)"
proof -
  have "find_row part_key (p, i) t = Some r \<longleftrightarrow> r \<in> set t \<and> part_key r = (p, i)" for r
    using assms by (simp add: table_ok_def find_row_iff)
  moreover have "r = s" if "r \<in> set t" "s \<in> set t" "part_key r = part_key s" for r s
    using assms that by (auto simp: table_ok_def dest: distinct_key_unique)
  ultimately show ?thesis
    unfolding scan_path_eq [OF assms] path_covered_def part_servable_def
    by (auto split: option.splits simp: find_row_None image_iff) metis
qed

lemma coverage_loop:
  "foldl (\<lambda>(missing, n) (path, identity). if P (path, identity)
       then (missing, n + f (path, identity)) else (missing @ [path], n)) (ms, n) xs
   = (ms @ map fst (filter (\<lambda>x. \<not> P x) xs), n + sum_list (map (f :: _ \<Rightarrow> int) (filter P xs)))"
  by (induction xs arbitrary: ms n) auto

lemma coverage_facts:
  assumes "manifest_ok m"
  shows "pc_missing_parts (coverage parts m)
      = map fst (filter (\<lambda>x. \<not> part_servable (clickhouse_parts m) x) (expected_parts parts))"
    and "pc_covered_rows (coverage parts m)
      = (\<Sum>x \<leftarrow> filter (part_servable (clickhouse_parts m)) (expected_parts parts).
           case find_row part_key x (clickhouse_parts m) of None \<Rightarrow> 0 | Some r \<Rightarrow> inserted_rows r)"
    and "pc_complete (coverage parts m) \<longleftrightarrow> reconciled m \<and>
      (\<forall>x \<in> set (expected_parts parts). part_servable (clickhouse_parts m) x)"
proof -
  let ?t = "clickhouse_parts m" and ?e = "expected_parts parts"
  let ?fetched = "fetch_rows (map fst ?e) ?t"
  let ?scan = "\<lambda>(path, identity). scan_path identity (filter (\<lambda>r. part_path r = path) ?fetched)"
  let ?rows = "\<lambda>x. case fst (?scan x) of None \<Rightarrow> 0 | Some r \<Rightarrow> inserted_rows r"
  have t: "table_ok ?t" using assms by (simp add: manifest_ok_def)
  have fetched: "filter (\<lambda>r. part_path r = fst x) ?fetched = filter (\<lambda>r. part_path r = fst x) ?t"
    if "x \<in> set ?e" for x
    using fetch_rows_at [of "map fst ?e" "fst x" ?t] expected_parts_distinct that by simp
  have covered: "path_covered (?scan x) = part_servable ?t x" if "x \<in> set ?e" for x
    using fetched [OF that] path_covered_iff [OF t] by (cases x) simp
  have rows: "?rows x = (case find_row part_key x ?t of None \<Rightarrow> 0 | Some r \<Rightarrow> inserted_rows r)"
    if "x \<in> set ?e" for x
    using fetched [OF that] scan_path_eq [OF t] by (cases x) simp
  have loop: "foldl (\<lambda>(missing, n) (path, identity). if path_covered (?scan (path, identity))
       then (missing, n + ?rows (path, identity)) else (missing @ [path], n)) ([], 0) ?e
     = (map fst (filter (\<lambda>x. \<not> path_covered (?scan x)) ?e),
        sum_list (map ?rows (filter (\<lambda>x. path_covered (?scan x)) ?e)))"
    using coverage_loop [of "\<lambda>x. path_covered (?scan x)" ?rows "[]" 0 ?e] by simp
  have missing: "filter (\<lambda>x. \<not> path_covered (?scan x)) ?e = filter (\<lambda>x. \<not> part_servable ?t x) ?e"
    and kept: "filter (\<lambda>x. path_covered (?scan x)) ?e = filter (part_servable ?t) ?e"
    using covered by (auto intro!: filter_cong)
  have summed: "map ?rows (filter (part_servable ?t) ?e)
      = map (\<lambda>x. case find_row part_key x ?t of None \<Rightarrow> 0 | Some r \<Rightarrow> inserted_rows r)
          (filter (part_servable ?t) ?e)"
    using rows by (auto intro!: map_cong)
  show 1: "pc_missing_parts (coverage parts m) = map fst (filter (\<lambda>x. \<not> part_servable ?t x) ?e)"
    unfolding coverage_def Let_def loop missing by simp
  show "pc_covered_rows (coverage parts m)
      = (\<Sum>x \<leftarrow> filter (part_servable ?t) ?e.
           case find_row part_key x ?t of None \<Rightarrow> 0 | Some r \<Rightarrow> inserted_rows r)"
    unfolding coverage_def Let_def loop kept summed by simp
  have "pc_complete (coverage parts m) \<longleftrightarrow> reconciled m \<and> pc_missing_parts (coverage parts m) = []"
    unfolding coverage_def Let_def loop by simp
  then show "pc_complete (coverage parts m) \<longleftrightarrow> reconciled m \<and> (\<forall>x \<in> set ?e. part_servable ?t x)"
    unfolding 1 by (simp add: filter_empty_conv)
qed

text \<open>
  \<open>coverage\<close> of a list of parts is exact: it lists as missing exactly the expected paths
  whose part is not ready or whose path still has another active part, counts the inserted rows of
  the others, and is complete iff a reconcile finished and nothing is missing. Reading the rows in
  statements of 400 paths changes nothing.
\<close>

theorem coverage_exact:
  assumes "manifest_ok m"
  shows "pc_missing_parts (coverage parts m)
      = map fst (filter (\<lambda>x. \<not> part_servable (clickhouse_parts m) x) (expected_parts parts)) \<and>
    pc_covered_rows (coverage parts m)
      = (\<Sum>x \<leftarrow> filter (part_servable (clickhouse_parts m)) (expected_parts parts).
           case find_row part_key x (clickhouse_parts m) of None \<Rightarrow> 0 | Some r \<Rightarrow> inserted_rows r) \<and>
    (pc_complete (coverage parts m) \<longleftrightarrow> reconciled m \<and>
      (\<forall>x \<in> set (expected_parts parts). part_servable (clickhouse_parts m) x))"
  using coverage_facts [OF assms] by blast

definition sample_source :: "string \<Rightarrow> string \<Rightarrow> source_part" where
  "sample_source path lid = \<lparr>sp_path = path, sp_logical_part_id = Some lid, sp_sha256 = Some ''sha'',
     sp_content_revision = Some 1, sp_min_event_epoch_us = Some 100, sp_max_event_epoch_us = Some 200,
     sp_row_count = Some 10, sp_size_bytes = Some 1000\<rparr>"

theorem coverage_exact_witness:
  "pc_missing_parts (coverage [sample_source ''p'' ''i'', sample_source ''q'' ''j'']
     (sample_manifest [(''p'', ''i'', Ready), (''q'', ''j'', Loading)])) = [''q'']"
proof -
  let ?m = "sample_manifest [(''p'', ''i'', Ready), (''q'', ''j'', Loading)]"
  have "manifest_ok ?m" by (rule sample_manifest_ok) simp
  from coverage_exact [OF this, of "[sample_source ''p'' ''i'', sample_source ''q'' ''j'']"]
  show ?thesis
    by (simp add: expected_parts_def sample_source_def part_identity_def part_servable_def)
qed

text \<open>
  Property C24. The table invariant (distinct keys, non-negative counters, a failed row has been
  attempted, a ready row waits for nothing and carries no error) survives every sequence of operations, in any order and at any times.
\<close>

theorem manifest_reachable_ok:
  assumes "manifest_step\<^sup>*\<^sup>* m m'" "manifest_ok m"
  shows "manifest_ok m'"
  using assms by (rule manifest_system.reachable_inv)

theorem manifest_reachable_ok_witness:
  "manifest_ok (snd (mark_ready 9 ''p'' ''i'' 3 (sample_manifest [(''p'', ''i'', Loading)])))"
proof (rule manifest_reachable_ok)
  show "manifest_step\<^sup>*\<^sup>* (sample_manifest [(''p'', ''i'', Loading)])
      (snd (mark_ready 9 ''p'' ''i'' 3 (sample_manifest [(''p'', ''i'', Loading)])))"
    by (rule r_into_rtranclp) (rule manifest_step.ready)
  show "manifest_ok (sample_manifest [(''p'', ''i'', Loading)])" by (rule sample_manifest_ok) simp
qed

end
