(* ===== verification/ManifestReconcile.thy ===== *)
theory ManifestReconcile
  imports Manifest
begin

text \<open>
  The two reconcile routines of \<open>app/clickhouse_manifest.py\<close> compared: the mirrored, per-part
  \<open>reconcile\<close> and the staged, set-based \<open>reconcile_streaming\<close>. The mirror dict is shown to agree with
  the table at every iteration, the batch size of the staging is shown not to matter, and both
  routines are shown to compute the same table, counters and reconcile state.
\<close>

section \<open>Staging\<close>

definition staged_of :: "source_part list \<Rightarrow> staged" where
  "staged_of parts = map (\<lambda>p. (sp_path p, part_identity p, source_values p))
     (filter (\<lambda>p. part_identity p \<noteq> '''') parts)"

lemma stage_flush_append: "stage_flush (a @ b) s = stage_flush b (stage_flush a s)"
  by (simp add: stage_flush_def)

lemma stage_flush_empty [simp]: "stage_flush [] s = s"
  by (simp add: stage_flush_def)

lemma stage_part_invariant:
  assumes "s' = foldl (stage_part filt a b n) s parts"
  shows "stage_flush (batch s') (reconcile_parts s')
      = stage_flush (staged_of (filter (in_window filt a b) parts)) (stage_flush (batch s) (reconcile_parts s))
    \<and> source_count s' = source_count s + int (length parts)
    \<and> eligible_count s' = eligible_count s + int (length (filter (in_window filt a b) parts))"
  using assms
proof (induction parts arbitrary: s)
  case Nil
  then show ?case by (simp add: staged_of_def)
next
  case (Cons p parts)
  have step: "stage_flush (batch (stage_part filt a b n s p)) (reconcile_parts (stage_part filt a b n s p))
      = stage_flush (staged_of (filter (in_window filt a b) [p])) (stage_flush (batch s) (reconcile_parts s))"
    by (simp add: stage_part_def Let_def staged_of_def stage_flush_append)
  have counts: "source_count (stage_part filt a b n s p) = source_count s + 1"
      "eligible_count (stage_part filt a b n s p)
        = eligible_count s + int (length (filter (in_window filt a b) [p]))"
    by (simp_all add: stage_part_def Let_def)
  have split: "staged_of (filter (in_window filt a b) (p # parts))
      = staged_of (filter (in_window filt a b) [p]) @ staged_of (filter (in_window filt a b) parts)"
    by (simp add: staged_of_def)
  show ?case
    using Cons.IH [of "stage_part filt a b n s p"] Cons.prems
    by (simp add: step counts split stage_flush_append del: filter.simps) simp
qed

lemma stage_parts_eq:
  "stage_parts filt a b n parts = \<lparr>source_count = int (length parts),
     eligible_count = int (length (filter (in_window filt a b) parts)), batch = [],
     reconcile_parts = stage_flush (staged_of (filter (in_window filt a b) parts)) []\<rparr>"
  using stage_part_invariant [OF refl, of filt a b n
      "\<lparr>source_count = 0, eligible_count = 0, batch = [], reconcile_parts = []\<rparr>" parts]
  by (simp add: stage_parts_def Let_def)

lemma stage_flush_distinct:
  "distinct (map fst (s @ xs)) \<Longrightarrow> stage_flush xs s = s @ xs"
proof (induction xs arbitrary: s)
  case (Cons x xs)
  obtain p v where x: "x = (p, v)" by (rule prod.exhaust)
  have "AList.update p v s = s @ [(p, v)]"
    using Cons.prems x by (induction s) auto
  with Cons x show ?case
    using Cons.IH [of "s @ [x]"] by (simp add: stage_flush_def)
qed simp

text \<open>Paths of a staged list, and the distinctness assumption of the comparison.\<close>

lemma staged_distinct:
  "distinct (map sp_path parts) \<Longrightarrow> distinct (map fst (staged_of parts))"
  by (simp add: staged_of_def comp_def distinct_map_filter)

section \<open>The mirror follows the table\<close>

definition mirror_ok :: "reconcile_loop \<Rightarrow> bool" where
  "mirror_ok s \<longleftrightarrow> distinct (map part_key (table s)) \<and> distinct (map fst (rows s))
     \<and> (\<forall>k. map_of (rows s) k = map_option mirror_of (find_row part_key k (table s)))
     \<and> (\<forall>p i. i \<in> set (ids_of (ids_by_path s) p) \<longleftrightarrow> (p, i) \<in> part_key ` set (table s))"

lemma mirror_okD:
  assumes "mirror_ok s"
  shows "distinct (map part_key (table s))" "distinct (map fst (rows s))"
    "map_of (rows s) k = map_option mirror_of (find_row part_key k (table s))"
    "i \<in> set (ids_of (ids_by_path s) p) \<longleftrightarrow> (p, i) \<in> part_key ` set (table s)"
  using assms unfolding mirror_ok_def by blast+

lemma mirror_ok_seen [simp]: "mirror_ok (s\<lparr>seen := xs\<rparr>) = mirror_ok s"
  by (simp add: mirror_ok_def)

lemma ids_of_add_id: "set (ids_of (add_id p i d) q) = (if q = p then insert i (set (ids_of d p)) else set (ids_of d q))"
  by (auto simp: ids_of_def add_id_def update_conv split: option.splits)

lemma mirror_of_simps [simp]: "m_status (mirror_of r) = status r" "m_values (mirror_of r) = row_values r"
  by (simp_all add: mirror_of_def)

lemma load_mirror_ok:
  assumes "distinct (map part_key t)"
  shows "mirror_ok (load_mirror t)"
proof -
  have gen: "mirror_ok \<lparr>table = t, rows = rows s, ids_by_path = ids_by_path s, seen = [], queued = 0, replacements = 0\<rparr>"
    if "s = foldl load_row s0 rs" "pre @ rs = t" "distinct (map fst (rows s0))"
      "\<forall>k. map_of (rows s0) k = map_option mirror_of (find_row part_key k pre)"
      "\<forall>p i. i \<in> set (ids_of (ids_by_path s0) p) \<longleftrightarrow> (p, i) \<in> part_key ` set pre"
    for s s0 rs pre
    using that
  proof (induction rs arbitrary: s0 pre)
    case Nil
    then show ?case using assms by (simp add: mirror_ok_def)
  next
    case (Cons r rs)
    have fresh: "find_row part_key (part_key r) pre = None"
      using assms Cons.prems(2) by (auto simp: find_row_None)
    show ?case
    proof (rule Cons.IH [where ?s0.0 = "load_row s0 r" and pre = "pre @ [r]"])
      show "s = foldl load_row (load_row s0 r) rs" using Cons.prems(1) by simp
      show "(pre @ [r]) @ rs = t" using Cons.prems(2) by simp
      show "distinct (map fst (rows (load_row s0 r)))"
        using Cons.prems(3) by (simp add: load_row_def distinct_update)
      show "\<forall>k. map_of (rows (load_row s0 r)) k = map_option mirror_of (find_row part_key k (pre @ [r]))"
        using Cons.prems(4) fresh
        by (auto simp: load_row_def update_conv find_row_append split: option.splits)
      show "\<forall>p i. i \<in> set (ids_of (ids_by_path (load_row s0 r)) p)
          \<longleftrightarrow> (p, i) \<in> part_key ` set (pre @ [r])"
        using Cons.prems(5) by (auto simp: load_row_def ids_of_add_id part_key_def)
    qed
  qed
  let ?s0 = "\<lparr>table = t, rows = [], ids_by_path = [], seen = [], queued = 0, replacements = 0\<rparr>"
  have tab: "table (foldl load_row s rs) = table s \<and> seen (foldl load_row s rs) = seen s
      \<and> queued (foldl load_row s rs) = queued s \<and> replacements (foldl load_row s rs) = replacements s" for s rs
    by (induction rs arbitrary: s) (auto simp: load_row_def)
  have "mirror_ok \<lparr>table = t, rows = rows (load_mirror t), ids_by_path = ids_by_path (load_mirror t),
      seen = [], queued = 0, replacements = 0\<rparr>"
    using gen [of "load_mirror t" ?s0 t "[]"] by (simp add: load_mirror_def ids_of_def)
  then show ?thesis using tab [of ?s0 t] by (simp add: mirror_ok_def load_mirror_def)
qed

lemma load_mirror_counters [simp]:
  "seen (load_mirror t) = []" "queued (load_mirror t) = 0" "replacements (load_mirror t) = 0"
proof -
  have "seen (foldl load_row s rs) = seen s \<and> queued (foldl load_row s rs) = queued s
      \<and> replacements (foldl load_row s rs) = replacements s" for s rs
    by (induction rs arbitrary: s) (auto simp: load_row_def)
  then show "seen (load_mirror t) = []" "queued (load_mirror t) = 0" "replacements (load_mirror t) = 0"
    by (simp_all add: load_mirror_def)
qed

text \<open>Whether a part counts as queued: its row is missing or not in a load state.\<close>

definition queues :: "clickhouse_part list \<Rightarrow> row_key \<Rightarrow> bool" where
  "queues t k \<longleftrightarrow> (case find_row part_key k t of None \<Rightarrow> True | Some r \<Rightarrow> status r \<notin> set ACTIVE_LOAD_STATES)"

lemma upsert_part_table:
  assumes "mirror_ok s"
  shows "table (upsert_part now gen k v s) = upsert_staged now gen (table s) (k, v)"
    and "queued (upsert_part now gen k v s) = queued s + (if queues (table s) k then 1 else 0)"
    and "replacements (upsert_part now gen k v s) = replacements s"
    and "seen (upsert_part now gen k v s) = seen s"
proof -
  note m = mirror_okD [OF assms]
  show "table (upsert_part now gen k v s) = upsert_staged now gen (table s) (k, v)"
  proof (cases "find_row part_key k (table s)")
    case None
    then have "k \<notin> part_key ` set (table s)" by (simp add: find_row_None)
    with None show ?thesis by (simp add: upsert_part_def Let_def m(3) upsert_one_def upsert_staged_def)
  next
    case (Some r)
    then have r: "r \<in> set (table s)" "part_key r = k" by (auto dest: find_row_SomeD)
    have only: "x = r" if "x \<in> set (table s)" "part_key x = k" for x
      using distinct_key_unique [OF m(1)] that r by blast
    have mem: "k \<in> part_key ` set (table s)" using r by blast
    show ?thesis
    proof (cases "status r \<in> set RESET_STATES \<or> row_values r \<noteq> v")
      case True
      have "update_where (\<lambda>x. part_key x = k) f (table s)
        = update_where (\<lambda>x. part_key x = k \<and> (status x \<in> set RESET_STATES \<or> row_values x \<noteq> v)) f (table s)" for f
        unfolding update_where_def using only True by (intro map_cong) (simp, metis)
      with True mem Some show ?thesis
        by (simp add: upsert_part_def Let_def m(3) upsert_one_def upsert_staged_def del: status_sets)
    next
      case False
      have "update_where (\<lambda>x. part_key x = k \<and> (status x \<in> set RESET_STATES \<or> row_values x \<noteq> v)) f (table s) = table s" for f
        using only False by (intro update_where_id) metis
      with False mem Some show ?thesis
        by (simp add: upsert_part_def Let_def m(3) upsert_staged_def image_iff del: status_sets)
    qed
  qed
  show "queued (upsert_part now gen k v s) = queued s + (if queues (table s) k then 1 else 0)"
    by (auto simp: upsert_part_def Let_def m(3) queues_def split: option.splits)
  show "replacements (upsert_part now gen k v s) = replacements s" "seen (upsert_part now gen k v s) = seen s"
    by (simp_all add: upsert_part_def Let_def)
qed

lemma upsert_part_mirror_ok:
  assumes "mirror_ok s"
  shows "mirror_ok (upsert_part now gen k v s)"
proof (cases "map_of (rows s) k = None \<or> map_option m_status (map_of (rows s) k) \<in> Some ` set RESET_STATES
    \<or> map_option m_values (map_of (rows s) k) \<noteq> Some v")
  case False
  have "table (upsert_part now gen k v s) = table s" "rows (upsert_part now gen k v s) = rows s"
      "ids_by_path (upsert_part now gen k v s) = ids_by_path s"
    unfolding upsert_part_def Let_def if_not_P [OF False] by simp_all
  with assms show ?thesis by (simp add: mirror_ok_def)
next
  case True
  note m = mirror_okD [OF assms]
  let ?e = "map_of (rows s) k"
  let ?st = "case map_option m_status ?e of None \<Rightarrow> Pending | Some x \<Rightarrow> if x \<in> set RESET_STATES then Pending else x"
  have upd: "table (upsert_part now gen k v s) = upsert_one now gen k v (table s)"
      "rows (upsert_part now gen k v s) = AList.update k \<lparr>m_status = ?st, m_values = v\<rparr> (rows s)"
      "ids_by_path (upsert_part now gen k v s) = add_id (fst k) (snd k) (ids_by_path s)"
    unfolding upsert_part_def Let_def if_P [OF True] by simp_all
  have keylist: "map part_key (upsert_one now gen k v (table s))
      = (if k \<in> part_key ` set (table s) then map part_key (table s) else map part_key (table s) @ [k])"
    by (simp add: upsert_one_def update_where_keys)
  have keys: "part_key ` set (upsert_one now gen k v (table s)) = insert k (part_key ` set (table s))"
    using arg_cong [OF keylist, of set] by (auto split: if_splits)
  have dist: "distinct (map part_key (upsert_one now gen k v (table s)))"
    using m(1) by (simp add: keylist)
  have look: "find_row part_key j (upsert_one now gen k v (table s))
      = (if j = k then Some (case find_row part_key k (table s) of None \<Rightarrow> new_row now gen k v
                             | Some r \<Rightarrow> upsert_row now gen v r)
         else find_row part_key j (table s))" for j
  proof (cases "k \<in> part_key ` set (table s)")
    case True
    have "part_key r = j" if "find_row part_key j (table s) = Some r" for r
      using that by (auto dest: find_row_SomeD)
    moreover have "find_row part_key k (table s) \<noteq> None" using True by (simp add: find_row_None)
    ultimately show ?thesis
      using True by (auto simp: upsert_one_def find_row_update_where map_option_case split: option.splits)
  next
    case False
    then have "find_row part_key k (table s) = None" by (simp add: find_row_None)
    with False show ?thesis by (auto simp: upsert_one_def find_row_append split: option.splits)
  qed
  have ids: "i \<in> set (ids_of (add_id (fst k) (snd k) (ids_by_path s)) p) \<longleftrightarrow> (p, i) \<in> insert k (part_key ` set (table s))" for i p
    by (cases k) (auto simp: ids_of_add_id m(4))
  show ?thesis
    unfolding mirror_ok_def upd ids keys
    using dist m(2)
    by (auto simp: distinct_update update_conv look m(3) mirror_of_def split: option.splits)
qed

text \<open>
  Under the mirror, the guarded replacement \<open>UPDATE\<close> of one part is the unguarded one: when the
  guard finds no other live identity, the statement would match no row.
\<close>

lemma demote_entries_fields:
  "distinct (map fst d) \<Longrightarrow> distinct (map fst (foldl (demote_entry p) d os))"
  by (induction os arbitrary: d)
    (auto simp: demote_entry_def distinct_update split: option.splits)

lemma demote_entry_lookup:
  "map_of (demote_entry p d x) k
     = (if k = (p, x)
        then map_option (\<lambda>e. if m_status e \<noteq> Deleting then e\<lparr>m_status := DeletePending\<rparr> else e) (map_of d k)
        else map_of d k)"
  by (auto simp: demote_entry_def update_conv split: option.splits)

lemma demote_entries_lookup:
  "map_of (foldl (demote_entry p) d xs) k
     = (if fst k = p \<and> snd k \<in> set xs
        then map_option (\<lambda>e. if m_status e \<noteq> Deleting then e\<lparr>m_status := DeletePending\<rparr> else e) (map_of d k)
        else map_of d k)"
proof (induction xs arbitrary: d)
  case Nil
  then show ?case by simp
next
  case (Cons x xs)
  show ?case
    unfolding foldl.simps Cons.IH demote_entry_lookup
    by (cases k; cases "map_of d k") auto
qed

lemma demote_others_eq:
  assumes "mirror_ok s"
  shows "table (demote_others now p i s) = update_where (other_active p i) (demote_row now) (table s)"
    and "replacements (demote_others now p i s) = replacements s + count_where (other_active p i) (table s)"
    and "queued (demote_others now p i s) = queued s"
    and "seen (demote_others now p i s) = seen s"
    and "mirror_ok (demote_others now p i s)"
proof -
  note m = mirror_okD [OF assms]
  let ?os = "filter (\<lambda>other. other \<noteq> i \<and> entry_active (rows s) (p, other)) (ids_of (ids_by_path s) p)"
  have active: "entry_active (rows s) k \<longleftrightarrow> (\<exists>r \<in> set (table s). part_key r = k \<and> status r \<noteq> Retired)" for k
    using m(1) by (auto simp: entry_active_def m(3) find_row_None dest: find_row_SomeD split: option.splits)
  have others: "set ?os = {x. x \<noteq> i \<and> (\<exists>r \<in> set (table s). part_key r = (p, x) \<and> status r \<noteq> Retired)}"
    by (force simp: active m(4))
  have hit: "r \<in> set (table s) \<Longrightarrow> other_active p i r \<longleftrightarrow> fst (part_key r) = p \<and> snd (part_key r) \<in> set ?os" for r
    using distinct_key_unique [OF m(1)] unfolding others by (fastforce simp: other_active_def part_key_def)
  show "queued (demote_others now p i s) = queued s" "seen (demote_others now p i s) = seen s"
    by (simp_all add: demote_others_def Let_def)
  show tab: "table (demote_others now p i s) = update_where (other_active p i) (demote_row now) (table s)"
    using hit by (cases "?os = []") (auto simp: demote_others_def Let_def intro!: update_where_id [symmetric])
  show "replacements (demote_others now p i s) = replacements s + count_where (other_active p i) (table s)"
    using hit by (cases "?os = []") (auto simp: demote_others_def Let_def count_where_zero_iff)
  have keys: "map part_key (update_where (other_active p i) (demote_row now) (table s)) = map part_key (table s)"
    by (simp add: update_where_keys)
  show "mirror_ok (demote_others now p i s)"
  proof (cases "?os = []")
    case True
    then show ?thesis using assms by (simp add: demote_others_def Let_def)
  next
    case False
    have r: "rows (demote_others now p i s) = foldl (demote_entry p) (rows s) ?os"
        "ids_by_path (demote_others now p i s) = ids_by_path s"
      using False by (simp_all add: demote_others_def Let_def)
    have "map_of (rows (demote_others now p i s)) k
        = map_option mirror_of (find_row part_key k (table (demote_others now p i s)))" for k
    proof (cases "find_row part_key k (table s)")
      case None
      then show ?thesis
        by (simp add: r tab demote_entries_lookup m(3) find_row_update_where)
    next
      case (Some r0)
      then have "r0 \<in> set (table s)" "part_key r0 = k" by (auto dest: find_row_SomeD)
      then have "other_active p i r0 \<longleftrightarrow> fst k = p \<and> snd k \<in> set ?os" using hit by blast
      then show ?thesis using Some
        by (simp add: r tab demote_entries_lookup m(3) find_row_update_where mirror_of_def del: set_filter)
    qed
    moreover have "part_key ` set (table (demote_others now p i s)) = part_key ` set (table s)"
      using arg_cong [OF keys, of set] by (simp add: tab)
    ultimately show ?thesis
      using m(1,2,4) unfolding mirror_ok_def
      by (simp add: r tab keys demote_entries_fields)
  qed
qed

lemma reconcile_part_ok:
  assumes "mirror_ok s"
  shows "mirror_ok (reconcile_part now gen s p)"
proof -
  have "mirror_ok (s\<lparr>seen := xs\<rparr>)" for xs using assms by (simp add: mirror_ok_def)
  with assms show ?thesis
    by (simp add: reconcile_part_def Let_def demote_others_eq(5) upsert_part_mirror_ok)
qed

section \<open>Both routines compute the same manifest\<close>

definition keyed :: "staged \<Rightarrow> (row_key \<times> part_values) list" where
  "keyed xs = map (\<lambda>(path, identity, v). ((path, identity), v)) xs"

lemma keyed_simps [simp]:
  "keyed [] = []" "keyed ((p, i, v) # xs) = ((p, i), v) # keyed xs" "keyed (xs @ ys) = keyed xs @ keyed ys"
  by (simp_all add: keyed_def)

lemma staged_keys_simps [simp]:
  "staged_keys [] = []" "staged_keys ((p, i, v) # xs) = (p, i) # staged_keys xs"
  "staged_keys (xs @ ys) = staged_keys xs @ staged_keys ys"
  by (simp_all add: staged_keys_def)

lemma replaced_path: "replaced xs r \<Longrightarrow> part_path r \<in> fst ` set xs"
  by (force simp: replaced_def list_ex_iff)

lemma replaced_snoc: "replaced (xs @ [(p, i, v)]) r \<longleftrightarrow> replaced xs r \<or> other_active p i r"
  by (auto simp: replaced_def other_active_def)

lemma upsert_staged_find_other:
  "k \<noteq> fst kv \<Longrightarrow> find_row part_key k (upsert_staged now gen t kv) = find_row part_key k t"
  by (cases "find_row part_key k t")
    (auto simp: upsert_staged_def find_row_update_where find_row_append split: prod.splits
      dest: find_row_SomeD)

lemma foldl_upsert_find_other:
  "k \<notin> fst ` set kvs \<Longrightarrow> find_row part_key k (foldl (upsert_staged now gen) t kvs) = find_row part_key k t"
  by (induction kvs arbitrary: t) (auto simp: upsert_staged_find_other)

text \<open>A demotion that does not touch the upserted key commutes with the upsert.\<close>

lemma upsert_staged_demote:
  assumes "\<And>r. P r \<Longrightarrow> part_key r \<noteq> k"
  shows "upsert_staged now gen (update_where P (demote_row now) t) (k, v)
    = update_where P (demote_row now) (upsert_staged now gen t (k, v))"
proof -
  have "map part_key (update_where P (demote_row now) t) = map part_key t"
    by (simp add: update_where_keys)
  from arg_cong [OF this, of set]
  have keys: "part_key ` set (update_where P (demote_row now) t) = part_key ` set t" by simp
  have new: "\<not> P (new_row now gen k v)" using assms by fastforce
  have upd: "\<not> P (upsert_row now gen v r)" if "part_key r = k" for r
    using assms that by fastforce
  have swap: "update_where (\<lambda>r. part_key r = k \<and> Q r) (upsert_row now gen v) (update_where P (demote_row now) t)
      = update_where P (demote_row now) (update_where (\<lambda>r. part_key r = k \<and> Q r) (upsert_row now gen v) t)" for Q
    using assms upd by (induction t) auto
  show ?thesis
    unfolding upsert_staged_def split_conv keys swap using new by simp
qed

lemma upsert_staged_other_path:
  assumes "\<And>r. P r \<Longrightarrow> part_key r \<noteq> k"
  shows "count_where P (upsert_staged now gen t (k, v)) = count_where P t"
proof -
  have new: "\<not> P (new_row now gen k v)" using assms by fastforce
  have upd: "\<not> P (upsert_row now gen v r)" if "part_key r = k" for r using assms that by fastforce
  have "count_where P (update_where (\<lambda>r. part_key r = k \<and> Q r) (upsert_row now gen v) t) = count_where P t" for Q
    using assms upd by (induction t) auto
  then show ?thesis using new by (simp add: upsert_staged_def del: status_sets)
qed

definition loop_agrees :: "int \<Rightarrow> int \<Rightarrow> clickhouse_part list \<Rightarrow> staged \<Rightarrow> reconcile_loop \<Rightarrow> bool" where
  "loop_agrees now gen t xs s \<longleftrightarrow> mirror_ok s
     \<and> table s = update_where (replaced xs) (demote_row now) (foldl (upsert_staged now gen) t (keyed xs))
     \<and> replacements s = count_where (replaced xs) (foldl (upsert_staged now gen) t (keyed xs))
     \<and> queued s = count_where (queues t) (staged_keys xs)
     \<and> set (seen s) = set (staged_keys xs)"

lemma reconcile_part_agrees:
  assumes L: "loop_agrees now gen t xs s" and fresh: "sp_path p \<notin> fst ` set xs"
  shows "loop_agrees now gen t (xs @ staged_of [p]) (reconcile_part now gen s p)"
proof (cases "part_identity p = ''''")
  case True
  with L show ?thesis by (simp add: staged_of_def reconcile_part_def Let_def)
next
  case False
  define k where "k = (sp_path p, part_identity p)"
  have kk: "(sp_path p, part_identity p) = k" by (simp add: k_def)
  define v where "v = source_values p"
  define T where "T = foldl (upsert_staged now gen) t (keyed xs)"
  let ?s1 = "s\<lparr>seen := k # seen s\<rparr>"
  let ?s2 = "upsert_part now gen k v ?s1"
  have ok: "mirror_ok ?s1" using L by (simp add: loop_agrees_def)
  have ok2: "mirror_ok ?s2" by (rule upsert_part_mirror_ok [OF ok])
  have step: "reconcile_part now gen s p = demote_others now (sp_path p) (part_identity p) ?s2"
    using False by (simp add: reconcile_part_def Let_def k_def v_def)
  have xs: "staged_of [p] = [(sp_path p, part_identity p, v)]" using False by (simp add: staged_of_def v_def)
  have tab: "table s = update_where (replaced xs) (demote_row now) T" using L by (simp add: loop_agrees_def T_def)
  have off: "part_key r \<noteq> k" if "replaced xs r" for r
    using replaced_path [OF that] fresh unfolding k_def part_key_def by (metis Pair_inject)
  have other: "\<not> replaced xs r" if "other_active (sp_path p) i r" for r i
    using replaced_path fresh that unfolding other_active_def by metis
  have path: "part_path (demote_row now r) = part_path r" for r
    by (metis fst_conv part_key_def part_key_simps(3))
  have t2: "table ?s2 = update_where (replaced xs) (demote_row now) (upsert_staged now gen T (k, v))"
    using upsert_part_table(1) [OF ok, of now gen k v] by (simp add: tab upsert_staged_demote [OF off])
  have T': "foldl (upsert_staged now gen) t (keyed (xs @ [(sp_path p, part_identity p, v)])) = upsert_staged now gen T (k, v)"
    by (simp add: T_def k_def)
  have still: "other_active (sp_path p) i (demote_row now r) \<longleftrightarrow> False" if "replaced xs r" for r i
    using replaced_path [OF that] fresh unfolding other_active_def path by metis
  have demoted: "update_where (other_active (sp_path p) i) (demote_row now) (update_where (replaced xs) (demote_row now) u)
      = update_where (replaced (xs @ [(sp_path p, i, v)])) (demote_row now) u" for u i
    using other still by (induction u) (auto simp: replaced_snoc)
  have counted: "count_where (replaced xs) u + count_where (other_active (sp_path p) i)
        (update_where (replaced xs) (demote_row now) u) = count_where (replaced (xs @ [(sp_path p, i, v)])) u" for u i
    using other still by (induction u) (auto simp: replaced_snoc)
  have knew: "k \<notin> fst ` set (keyed xs)" using fresh by (force simp: keyed_def k_def)
  have look: "map_option status (find_row part_key k (table s)) = map_option status (find_row part_key k t)"
    using off foldl_upsert_find_other [OF knew, of now gen t]
    by (auto simp: tab T_def find_row_update_where map_option_case dest: find_row_SomeD split: option.splits)
  have q: "queued ?s2 = queued s + (if queues t k then 1 else 0)"
    using upsert_part_table(2) [OF ok, of now gen k v] look
    by (auto simp: queues_def split: option.splits)
  note d = demote_others_eq [OF ok2, of now "sp_path p" "part_identity p"]
  have rep: "replacements ?s2 = count_where (replaced xs) (upsert_staged now gen T (k, v))"
    using upsert_part_table(3) [OF ok, of now gen k v] L
    by (simp add: loop_agrees_def T_def upsert_staged_other_path [OF off])
  have sn: "seen ?s2 = k # seen s" using upsert_part_table(4) [OF ok] by simp
  show ?thesis
    unfolding loop_agrees_def step d(1-4) t2 xs T'
    using d(5) L by (simp add: demoted rep counted q sn loop_agrees_def kk)
qed

lemma reconcile_loop_agrees:
  assumes "distinct (map part_key t)" "distinct (map sp_path parts)"
  shows "loop_agrees now gen t (staged_of parts) (foldl (reconcile_part now gen) (load_mirror t) parts)"
  using assms(2)
proof (induction parts rule: rev_induct)
  case Nil
  have "table (foldl load_row s rs) = table s" for s rs
    by (induction rs arbitrary: s) (auto simp: load_row_def)
  then have "table (load_mirror t) = t" by (simp add: load_mirror_def)
  with load_mirror_ok [OF assms(1)] show ?case
    by (simp add: loop_agrees_def staged_of_def replaced_def update_where_def count_where_def)
next
  case (snoc p parts)
  have "sp_path p \<notin> fst ` set (staged_of parts)"
    using snoc.prems by (force simp: staged_of_def)
  moreover have "staged_of (parts @ [p]) = staged_of parts @ staged_of [p]" by (simp add: staged_of_def)
  ultimately show ?case using reconcile_part_agrees snoc by simp
qed

text \<open>The sweep statements over distinct keys are one \<open>UPDATE\<close>.\<close>

lemma execute_many_eq:
  assumes "\<And>r. part_key (f r) = part_key r" "distinct keys"
  shows "execute_many f keys t = (count_where (\<lambda>r. part_key r \<in> set keys \<and> status r \<noteq> Retired) t,
    update_where (\<lambda>r. part_key r \<in> set keys \<and> status r \<noteq> Retired) f t)"
  using assms(2)
proof (induction keys rule: rev_induct)
  case Nil
  then show ?case by (simp add: execute_many_def update_where_def count_where_def)
next
  case (snoc k keys)
  let ?P = "\<lambda>r. part_key r \<in> set keys \<and> status r \<noteq> Retired"
  let ?Q = "\<lambda>r. part_key r = k \<and> status r \<noteq> Retired"
  let ?R = "\<lambda>r. part_key r \<in> set (keys @ [k]) \<and> status r \<noteq> Retired"
  have run: "execute_many f (keys @ [k]) t
      = (fst (execute_many f keys t) + count_where ?Q (snd (execute_many f keys t)),
         update_where ?Q f (snd (execute_many f keys t)))"
    by (simp add: execute_many_def split: prod.splits)
  have new: "k \<notin> set keys" using snoc.prems by simp
  have counts: "count_where ?P u + count_where ?Q (update_where ?P f u) = count_where ?R u" for u
    using new assms(1) by (induction u) auto
  have upd: "update_where ?Q f (update_where ?P f u) = update_where ?R f u" for u
    using new assms(1) by (induction u) auto
  from snoc show ?case by (simp add: run counts upd)
qed

definition gone_keys :: "row_key list \<Rightarrow> (int \<Rightarrow> bool) \<Rightarrow> (row_key \<times> mirror_entry) list \<Rightarrow> row_key list" where
  "gone_keys sn P d = map fst (filter (\<lambda>(_, e). P (entry_max_event e))
     (filter (\<lambda>(k, e). k \<notin> set sn \<and> m_status e \<noteq> Retired) d))"

lemma gone_keys_distinct: "distinct (map fst d) \<Longrightarrow> distinct (gone_keys sn P d)"
  by (simp add: gone_keys_def distinct_map_filter)

lemma gone_keys_iff:
  assumes "mirror_ok s" "r \<in> set (table s)"
  shows "part_key r \<in> set (gone_keys sn P (rows s))
    \<longleftrightarrow> part_key r \<notin> set sn \<and> status r \<noteq> Retired \<and> P (max_event_epoch_us r)"
proof -
  note m = mirror_okD [OF assms(1)]
  have "map_of (rows s) (part_key r) = Some (mirror_of r)" using assms(2) m(1) by (simp add: m(3))
  then have "(part_key r, e) \<in> set (rows s) \<longleftrightarrow> e = mirror_of r" for e
    using map_of_eq_Some_iff [OF m(2), of "part_key r" e] by auto
  moreover have "entry_max_event (mirror_of r) = max_event_epoch_us r"
    by (simp add: entry_max_event_def mirror_of_def row_values_def)
  ultimately show ?thesis by (force simp: gone_keys_def)
qed

lemma sweep_agrees:
  fixes xs :: staged and a now :: int
  assumes ok: "mirror_ok s" and sn: "set sn = set (staged_keys xs)"
  defines "gone \<equiv> \<lambda>r. unseen xs r \<and> a \<le> max_event_epoch_us r"
    and "aged \<equiv> \<lambda>r. unseen xs r \<and> max_event_epoch_us r < a"
  defines "t3 \<equiv> update_where gone (sweep_row now) (table s)"
  shows "execute_many (sweep_row now) (gone_keys sn (\<lambda>m. a \<le> m) (rows s)) (table s)
      = (count_where gone (table s), t3)"
    and "execute_many (age_out_row now) (gone_keys sn (\<lambda>m. m < a) (rows s)) t3
      = (count_where aged t3, update_where aged (age_out_row now) t3)"
proof -
  let ?D = "gone_keys sn (\<lambda>m. a \<le> m) (rows s)" and ?A = "gone_keys sn (\<lambda>m. m < a) (rows s)"
  note dist = gone_keys_distinct [OF mirror_okD(2) [OF ok]]
  have g: "(part_key r \<in> set ?D \<and> status r \<noteq> Retired) = gone r" if "r \<in> set (table s)" for r
    using gone_keys_iff [OF ok that] sn by (auto simp: gone_def unseen_def)
  have cg: "count_where (\<lambda>r. part_key r \<in> set ?D \<and> status r \<noteq> Retired) (table s) = count_where gone (table s)"
    by (rule count_where_cong) (rule g)
  have ug: "update_where (\<lambda>r. part_key r \<in> set ?D \<and> status r \<noteq> Retired) f (table s) = update_where gone f (table s)" for f
    unfolding update_where_def by (rule map_cong) (simp_all only: g)
  show "execute_many (sweep_row now) ?D (table s) = (count_where gone (table s), t3)"
    by (simp add: execute_many_eq dist t3_def cg ug)
  have h: "(part_key r \<in> set ?A \<and> status r \<noteq> Retired) = aged r" if hr: "r \<in> set t3" for r
  proof -
    obtain q where q: "q \<in> set (table s)" "r = (if gone q then sweep_row now q else q)"
      using hr unfolding t3_def in_set_update_where by blast
    show ?thesis
      using q(2) gone_keys_iff [OF ok q(1)] sn
      by (auto simp: aged_def gone_def unseen_def split: if_splits)
  qed
  have ch: "count_where (\<lambda>r. part_key r \<in> set ?A \<and> status r \<noteq> Retired) t3 = count_where aged t3"
    by (rule count_where_cong) (rule h)
  have uh: "update_where (\<lambda>r. part_key r \<in> set ?A \<and> status r \<noteq> Retired) f t3 = update_where aged f t3" for f
    unfolding update_where_def by (rule map_cong) (simp_all only: h)
  show "execute_many (age_out_row now) ?A t3 = (count_where aged t3, update_where aged (age_out_row now) t3)"
    by (simp add: execute_many_eq dist ch uh)
qed

lemma reconcile_unfiltered:
  assumes "distinct (map part_key (clickhouse_parts m))" "distinct (map sp_path parts)"
  shows "reconcile_streaming now parts a b src False sweep preserve bs m
    = reconcile now parts a b src sweep preserve m"
proof -
  define t where "t = clickhouse_parts m"
  define xs where "xs = staged_of parts"
  define s where "s = foldl (reconcile_part now (next_generation m)) (load_mirror t) parts"
  have L: "loop_agrees now (next_generation m) t xs s"
    unfolding s_def xs_def by (rule reconcile_loop_agrees) (use assms t_def in simp_all)
  then have ok: "mirror_ok s" and sn: "set (seen s) = set (staged_keys xs)"
    and tab: "table s = update_where (replaced xs) (demote_row now) (foldl (upsert_staged now (next_generation m)) t (keyed xs))"
    and cnt: "replacements s = count_where (replaced xs) (foldl (upsert_staged now (next_generation m)) t (keyed xs))"
    and q: "queued s = count_where (queues t) (staged_keys xs)"
    by (simp_all add: loop_agrees_def)
  have "filter (in_window False a b) parts = parts" by (simp add: in_window_def)
  moreover have "stage_flush xs [] = xs"
    using stage_flush_distinct [of "[]" xs] staged_distinct [OF assms(2)] by (simp add: xs_def)
  ultimately have st: "stage_parts False a b bs parts = \<lparr>source_count = int (length parts),
      eligible_count = int (length parts), batch = [], reconcile_parts = xs\<rparr>"
    by (simp add: stage_parts_eq xs_def)
  note sw = sweep_agrees [OF ok sn, of now a]
  note gk = gone_keys_def [symmetric, where sn = "seen s" and d = "rows s"]
  show ?thesis
    unfolding reconcile_streaming_def reconcile_def Let_def st staging.simps
      t_def [symmetric] s_def [symmetric] keyed_def [symmetric] queues_def [symmetric] tab [symmetric]
      cnt [symmetric] q [symmetric] gk [where P = "\<lambda>m. a \<le> m"] gk [where P = "\<lambda>m. m < a"]
    by (cases sweep) (simp_all add: sw split_def)
qed

text \<open>A part whose events lie after the window.\<close>

definition sample_late :: "string \<Rightarrow> string \<Rightarrow> source_part" where
  "sample_late p i = (sample_source p i)\<lparr>sp_min_event_epoch_us := Some 900, sp_max_event_epoch_us := Some 950\<rparr>"

text \<open>Filtering while staging is filtering before; only the count of source parts is of all of them.\<close>

lemma streaming_filters_first:
  "reconcile_streaming now parts a b src filt sweep preserve bs m
    = reconcile_streaming now (filter (in_window filt a b) parts) a b
        (Some (case src of None \<Rightarrow> int (length parts) | Some n \<Rightarrow> n)) False sweep preserve bs m"
proof -
  have "filter (in_window False a b) (filter (in_window filt a b) parts) = filter (in_window filt a b) parts"
    by (rule filter_True) (simp add: in_window_def)
  then show ?thesis
    unfolding reconcile_streaming_def Let_def stage_parts_eq by (cases src) simp_all
qed

text \<open>
  Property C8. The staged, set-based reconcile is the per-part reconcile: on a manifest with distinct part
  keys, when no two of the source parts kept share a path (the path is the primary key of the source table),
  with or without the window filter and for every staging batch size, it returns the counters and leaves the
  table and the reconcile state of the per-part reconcile of the parts the filter keeps, its count of source
  parts being the number of all parts read.
\<close>

theorem reconcile_streaming_equiv:
  assumes "distinct (map part_key (clickhouse_parts m))" "distinct (map sp_path (filter (in_window filt a b) parts))"
  shows "reconcile_streaming now parts a b src filt sweep preserve bs m
    = reconcile now (filter (in_window filt a b) parts) a b
        (Some (case src of None \<Rightarrow> int (length parts) | Some n \<Rightarrow> n)) sweep preserve m"
  unfolding streaming_filters_first [of now parts a b src filt] by (rule reconcile_unfiltered [OF assms])

theorem reconcile_streaming_equiv_witness:
  "reconcile_streaming 9 [sample_source ''p'' ''x'', sample_source ''q'' ''y'', sample_late ''r'' ''w''] 0 500 None True True False 1
     (sample_manifest [(''p'', ''w'', Ready), (''r'', ''z'', Loading)])
   = reconcile 9 [sample_source ''p'' ''x'', sample_source ''q'' ''y''] 0 500 (Some 3) True False
     (sample_manifest [(''p'', ''w'', Ready), (''r'', ''z'', Loading)])"
proof -
  let ?ps = "[sample_source ''p'' ''x'', sample_source ''q'' ''y'', sample_late ''r'' ''w'']"
  have kept: "filter (in_window True 0 500) ?ps = [sample_source ''p'' ''x'', sample_source ''q'' ''y'']"
    by (simp add: in_window_def sample_source_def sample_late_def)
  have "manifest_ok (sample_manifest [(''p'', ''w'', Ready), (''r'', ''z'', Loading)])"
    by (rule sample_manifest_ok) simp
  then have d: "distinct (map part_key (clickhouse_parts (sample_manifest [(''p'', ''w'', Ready), (''r'', ''z'', Loading)])))"
    by (simp only: manifest_ok_def table_ok_def)
  have "distinct (map sp_path (filter (in_window True 0 500) ?ps))"
    unfolding kept by (simp add: sample_source_def)
  from reconcile_streaming_equiv [OF d this, of 9 None True False 1] show ?thesis unfolding kept by simp
qed

end
