(* ===== verification/SourceQueue.thy ===== *)
theory SourceQueue
  imports Manifest
begin

text \<open>
  The source side of the hand-over to ClickHouse in \<open>app/metadata.py\<close>: the tables \<open>binlog_files\<close>
  and \<open>parquet_parts\<close> (the columns the hand-over reads), the triggers of
  \<open>CLICKHOUSE_CHANGE_QUEUE_SCHEMA\<close> that turn every visible mutation into a versioned pending row,
  the joined page of pending changes, the versioned acknowledgement, and the gates computed from the
  queue. A mutation is one SQL statement on one row; a statement that violates a key constraint
  raises and leaves the store unchanged (\<open>None\<close>).
\<close>

section \<open>Tables\<close>

record src_file =
  file_id :: string
  log_file_name :: string
  query_visible :: bool

record part_row =
  pr_path :: string
  binlog_id :: string
  pr_logical_part_id :: string
  pr_sha256 :: string
  pr_content_revision :: int
  pr_min_event_epoch_us :: int
  pr_max_event_epoch_us :: int
  pr_row_count :: int
  pr_size_bytes :: int
  oss_key :: string
  oss_etag :: string
  oss_offset :: int
  oss_length :: int
  oss_object_sha256 :: string

record pending_row =
  q_path :: string
  change_version :: int

record source_store =
  binlog_files :: "src_file list"
  parquet_parts :: "part_row list"
  clickhouse_pending :: "pending_row list"
  tracking_complete :: bool
  next_change_version :: int

definition TABULARIS_AUDIT_FILE_PREFIX :: string where
  "TABULARIS_AUDIT_FILE_PREFIX = ''tabularis-audit-''"

text \<open>\<open>name LIKE 'tabularis-audit-%'\<close>: SQLite compares ASCII letters without case.\<close>

definition like_audit :: "string \<Rightarrow> bool" where
  "like_audit name \<longleftrightarrow> map ascii_lower (take (length TABULARIS_AUDIT_FILE_PREFIX) name) = TABULARIS_AUDIT_FILE_PREFIX"

text \<open>Python's \<open>name.startswith(TABULARIS_AUDIT_FILE_PREFIX)\<close>, with case.\<close>

definition starts_audit :: "string \<Rightarrow> bool" where
  "starts_audit name \<longleftrightarrow> take (length TABULARIS_AUDIT_FILE_PREFIX) name = TABULARIS_AUDIT_FILE_PREFIX"

definition part_of :: "source_store \<Rightarrow> string \<Rightarrow> part_row option" where
  "part_of S path = find_row pr_path path (parquet_parts S)"

definition file_of :: "source_store \<Rightarrow> string \<Rightarrow> src_file option" where
  "file_of S bid = find_row file_id bid (binlog_files S)"

section \<open>Triggers\<close>

text \<open>The condition all four triggers share: the file is visible and no audit file.\<close>

definition tracked_file :: "src_file \<Rightarrow> bool" where
  "tracked_file f \<longleftrightarrow> query_visible f \<and> \<not> like_audit (log_file_name f)"

definition tracked_id :: "source_store \<Rightarrow> string \<Rightarrow> bool" where
  "tracked_id S bid \<longleftrightarrow> list_ex (\<lambda>f. file_id f = bid \<and> tracked_file f) (binlog_files S)"

definition bump_version :: "source_store \<Rightarrow> source_store" where
  "bump_version S = S\<lparr>next_change_version := next_change_version S + 1\<rparr>"

definition put_pending :: "int \<Rightarrow> string \<Rightarrow> pending_row list \<Rightarrow> pending_row list" where
  "put_pending v path q = (if path \<in> q_path ` set q
     then update_where (\<lambda>r. q_path r = path) (\<lambda>r. r\<lparr>change_version := v\<rparr>) q
     else q @ [\<lparr>q_path = path, change_version = v\<rparr>])"

definition enqueue_path :: "string \<Rightarrow> source_store \<Rightarrow> source_store" where
  "enqueue_path path S = (let S = bump_version S in
     S\<lparr>clickhouse_pending := put_pending (next_change_version S) path (clickhouse_pending S)\<rparr>)"

definition insert_part :: "part_row \<Rightarrow> source_store \<Rightarrow> source_store option" where
  "insert_part r S =
     (if part_of S (pr_path r) \<noteq> None \<or> file_of S (binlog_id r) = None then None
      else let S = S\<lparr>parquet_parts := parquet_parts S @ [r]\<rparr> in
        Some (if tracked_id S (binlog_id r) then enqueue_path (pr_path r) S else S))"

text \<open>The \<open>WHEN\<close> condition of the update trigger: a watched column changed.\<close>

definition watched_change :: "part_row \<Rightarrow> part_row \<Rightarrow> bool" where
  "watched_change r s \<longleftrightarrow> binlog_id r \<noteq> binlog_id s \<or> pr_logical_part_id r \<noteq> pr_logical_part_id s
     \<or> pr_sha256 r \<noteq> pr_sha256 s \<or> pr_content_revision r \<noteq> pr_content_revision s
     \<or> pr_min_event_epoch_us r \<noteq> pr_min_event_epoch_us s
     \<or> pr_max_event_epoch_us r \<noteq> pr_max_event_epoch_us s
     \<or> pr_row_count r \<noteq> pr_row_count s \<or> pr_size_bytes r \<noteq> pr_size_bytes s
     \<or> oss_key r \<noteq> oss_key s \<or> oss_etag r \<noteq> oss_etag s \<or> oss_offset r \<noteq> oss_offset s
     \<or> oss_length r \<noteq> oss_length s \<or> oss_object_sha256 r \<noteq> oss_object_sha256 s"

text \<open>An \<open>UPDATE\<close> of the row of one path; the statements of the program never change a path.\<close>

definition update_part :: "part_row \<Rightarrow> source_store \<Rightarrow> source_store option" where
  "update_part s S = (case part_of S (pr_path s) of None \<Rightarrow> Some S
     | Some r \<Rightarrow> if file_of S (binlog_id s) = None then None
        else let S' = S\<lparr>parquet_parts := update_where (\<lambda>x. pr_path x = pr_path s) (\<lambda>_. s) (parquet_parts S)\<rparr>
          in Some (if watched_change r s \<and> (tracked_id S' (binlog_id r) \<or> tracked_id S' (binlog_id s))
                   then enqueue_path (pr_path s) S' else S'))"

definition delete_part :: "string \<Rightarrow> source_store \<Rightarrow> source_store" where
  "delete_part path S = (case part_of S path of None \<Rightarrow> S
     | Some _ \<Rightarrow> enqueue_path path (S\<lparr>parquet_parts := filter (\<lambda>r. pr_path r \<noteq> path) (parquet_parts S)\<rparr>))"

definition insert_file :: "src_file \<Rightarrow> source_store \<Rightarrow> source_store option" where
  "insert_file f S = (if file_of S (file_id f) \<noteq> None then None
     else Some (S\<lparr>binlog_files := binlog_files S @ [f]\<rparr>))"

text \<open>\<open>UPDATE binlog_files SET query_visible, log_file_name\<close> of one file, with its trigger.\<close>

definition update_file :: "src_file \<Rightarrow> source_store \<Rightarrow> source_store" where
  "update_file g S = (case file_of S (file_id g) of None \<Rightarrow> S
     | Some f \<Rightarrow>
        let S' = S\<lparr>binlog_files := update_where (\<lambda>x. file_id x = file_id g) (\<lambda>_. g) (binlog_files S)\<rparr> in
        if query_visible f = query_visible g \<and> log_file_name f = log_file_name g then S'
        else let S'' = bump_version S' in
          if tracked_file f \<or> tracked_file g
          then S''\<lparr>clickhouse_pending := foldl (\<lambda>q r. put_pending (next_change_version S'') (pr_path r) q)
                 (clickhouse_pending S'') (filter (\<lambda>r. binlog_id r = file_id g) (parquet_parts S''))\<rparr>
          else S'')"

text \<open>Deleting a file removes its row and cascades into its parts, firing the delete trigger.\<close>

definition delete_file :: "string \<Rightarrow> source_store \<Rightarrow> source_store" where
  "delete_file bid S = (let doomed = map pr_path (filter (\<lambda>r. binlog_id r = bid) (parquet_parts S));
     S' = foldl (\<lambda>S path. delete_part path S) S doomed
   in S'\<lparr>binlog_files := filter (\<lambda>f. file_id f \<noteq> bid) (binlog_files S')\<rparr>)"

section \<open>Reading and acknowledging the queue\<close>

record change =
  ch_path :: string
  ch_version :: int
  ch_part :: "part_row option"
  ch_visible :: bool
  ch_log_file_name :: "string option"

text \<open>One row of the \<open>LEFT JOIN\<close>; \<open>exists\<close> is \<open>ch_part \<noteq> None\<close>.\<close>

definition join_change :: "source_store \<Rightarrow> pending_row \<Rightarrow> change" where
  "join_change S q = (let p = part_of S (q_path q);
       f = (case p of None \<Rightarrow> None | Some r \<Rightarrow> file_of S (binlog_id r))
     in \<lparr>ch_path = q_path q, ch_version = change_version q, ch_part = p,
         ch_visible = (case f of None \<Rightarrow> False | Some f \<Rightarrow> query_visible f),
         ch_log_file_name = map_option log_file_name f\<rparr>)"

definition pending_clickhouse_changes :: "int \<Rightarrow> source_store \<Rightarrow> change list" where
  "pending_clickhouse_changes limit S =
     map (join_change S) (take (nat (max limit 0))
       (sort_key (\<lambda>q. (change_version q, q_path q)) (clickhouse_pending S)))"

definition ack_clickhouse_changes :: "(string \<times> int) list \<Rightarrow> source_store \<Rightarrow> int \<times> source_store" where
  "ack_clickhouse_changes acks S = (if acks = [] then (0, S)
     else foldl (\<lambda>(n, S) (path, v).
       (n + count_where (\<lambda>q. q_path q = path \<and> change_version q = v) (clickhouse_pending S),
        S\<lparr>clickhouse_pending := filter (\<lambda>q. \<not> (q_path q = path \<and> change_version q = v)) (clickhouse_pending S)\<rparr>))
       (0, S) acks)"

definition mark_clickhouse_change_tracking_complete :: "source_store \<Rightarrow> source_store" where
  "mark_clickhouse_change_tracking_complete S = S\<lparr>tracking_complete := True\<rparr>"

definition clickhouse_change_tracking_state :: "source_store \<Rightarrow> bool \<times> bool" where
  "clickhouse_change_tracking_state S = (tracking_complete S, clickhouse_pending S \<noteq> [])"

definition clickhouse_pending_changes_overlap :: "int \<Rightarrow> int \<Rightarrow> source_store \<Rightarrow> bool" where
  "clickhouse_pending_changes_overlap start_us end_us S =
     (if end_us < start_us then False
      else list_ex (\<lambda>q. case part_of S (q_path q) of None \<Rightarrow> True
             | Some r \<Rightarrow> pr_min_event_epoch_us r \<le> end_us \<and> start_us \<le> pr_max_event_epoch_us r)
           (clickhouse_pending S))"

section \<open>Paged and aggregated reads of the visible parts\<close>

definition database_part :: "source_store \<Rightarrow> part_row \<Rightarrow> bool" where
  "database_part S r \<longleftrightarrow> tracked_id S (binlog_id r)"

definition clickhouse_source_parts_page :: "string \<Rightarrow> int \<Rightarrow> source_store \<Rightarrow> part_row list" where
  "clickhouse_source_parts_page after limit S = take (nat (max limit 0))
     (sort_key pr_path (filter (\<lambda>r. database_part S r \<and> after < pr_path r) (parquet_parts S)))"

definition clickhouse_ranged_source_parts_page :: "string \<Rightarrow> int \<Rightarrow> source_store \<Rightarrow> part_row list" where
  "clickhouse_ranged_source_parts_page after limit S = take (nat (max limit 0))
     (sort_key pr_path (filter (\<lambda>r. database_part S r \<and> 0 < oss_length r \<and> after < pr_path r) (parquet_parts S)))"

text \<open>\<open>parts_in_range\<close> with \<open>source = database\<close>: the parts a periodic reconcile compares.\<close>

definition PARTS_IN_RANGE_LIMIT :: nat where
  "PARTS_IN_RANGE_LIMIT = 1000000"

definition database_parts_in_range :: "int \<Rightarrow> int \<Rightarrow> nat \<Rightarrow> source_store \<Rightarrow> part_row list" where
  "database_parts_in_range start_us end_us limit S = take limit
     (sort_key (\<lambda>r. (pr_min_event_epoch_us r, pr_max_event_epoch_us r, pr_path r))
       (filter (\<lambda>r. start_us \<le> pr_max_event_epoch_us r \<and> pr_min_event_epoch_us r \<le> end_us \<and> database_part S r)
         (parquet_parts S)))"

record source_stats =
  ss_source_parts :: int
  ss_archived_parts :: int
  ss_ranged_parts :: int
  ss_source_rows :: int
  ss_source_bytes :: int
  ss_min_event_epoch_us :: int
  ss_max_event_epoch_us :: int

definition clickhouse_source_stats :: "source_store \<Rightarrow> source_stats" where
  "clickhouse_source_stats S = (let ps = filter (database_part S) (parquet_parts S) in
     \<lparr>ss_source_parts = int (length ps), ss_archived_parts = count_where (\<lambda>r. oss_key r \<noteq> '''') ps,
      ss_ranged_parts = count_where (\<lambda>r. 0 < oss_length r) ps,
      ss_source_rows = sum_list (map pr_row_count ps), ss_source_bytes = sum_list (map pr_size_bytes ps),
      ss_min_event_epoch_us = coalesce_agg min (map pr_min_event_epoch_us ps),
      ss_max_event_epoch_us = coalesce_agg max (map pr_max_event_epoch_us ps)\<rparr>)"

section \<open>Well-formed stores\<close>

text \<open>
  Keys are unique, every part belongs to a file, no pending version lies in the future, and file
  names spell the audit prefix in lower case (the program writes it; the trigger and the Python
  test of the prefix agree exactly on such names).
\<close>

definition name_ok :: "string \<Rightarrow> bool" where
  "name_ok n \<longleftrightarrow> like_audit n = starts_audit n"

definition store_ok :: "source_store \<Rightarrow> bool" where
  "store_ok S \<longleftrightarrow> distinct (map file_id (binlog_files S)) \<and> distinct (map pr_path (parquet_parts S))
     \<and> distinct (map q_path (clickhouse_pending S))
     \<and> (\<forall>r \<in> set (parquet_parts S). pr_path r \<noteq> '''' \<and> binlog_id r \<in> file_id ` set (binlog_files S))
     \<and> (\<forall>f \<in> set (binlog_files S). name_ok (log_file_name f))
     \<and> (\<forall>q \<in> set (clickhouse_pending S). q_path q \<noteq> '''' \<and> change_version q \<le> next_change_version S)"

lemma store_okD:
  assumes "store_ok S"
  shows "distinct (map file_id (binlog_files S))" "distinct (map pr_path (parquet_parts S))"
    "distinct (map q_path (clickhouse_pending S))"
    "r \<in> set (parquet_parts S) \<Longrightarrow> pr_path r \<noteq> ''''"
    "r \<in> set (parquet_parts S) \<Longrightarrow> binlog_id r \<in> file_id ` set (binlog_files S)"
    "f \<in> set (binlog_files S) \<Longrightarrow> name_ok (log_file_name f)"
    "q \<in> set (clickhouse_pending S) \<Longrightarrow> change_version q \<le> next_change_version S"
    "q \<in> set (clickhouse_pending S) \<Longrightarrow> q_path q \<noteq> ''''"
  using assms unfolding store_ok_def by blast+

definition pending_version :: "source_store \<Rightarrow> string \<Rightarrow> int option" where
  "pending_version S p = map_option change_version (find_row q_path p (clickhouse_pending S))"

text \<open>What the source shows of a path: the part when its file is visible and no audit file.\<close>

definition view :: "source_store \<Rightarrow> string \<Rightarrow> part_row option" where
  "view S p = (case part_of S p of None \<Rightarrow> None
     | Some r \<Rightarrow> (case file_of S (binlog_id r) of None \<Rightarrow> None
         | Some f \<Rightarrow> if query_visible f \<and> \<not> starts_audit (log_file_name f) then Some r else None))"

text \<open>
  The trigger contract: versions only grow, and a path either keeps its view and its pending
  version or has a version that was never issued before.
\<close>

definition tracks :: "source_store \<Rightarrow> source_store \<Rightarrow> bool" where
  "tracks S S' \<longleftrightarrow> next_change_version S \<le> next_change_version S'
     \<and> (\<forall>p. (view S' p = view S p \<and> pending_version S' p = pending_version S p)
          \<or> (\<exists>v. pending_version S' p = Some v \<and> next_change_version S < v))"

lemma tracks_refl [simp]: "tracks S S"
  by (simp add: tracks_def)

lemma tracks_trans: "tracks S T \<Longrightarrow> tracks T U \<Longrightarrow> tracks S U"
  unfolding tracks_def by (smt (verit) dual_order.trans order_le_less_trans)

lemma put_pending_find:
  "find_row q_path p (put_pending v path q)
     = (if p = path then Some \<lparr>q_path = path, change_version = v\<rparr> else find_row q_path p q)"
proof (cases "path \<in> q_path ` set q")
  case True
  then obtain r where r: "find_row q_path path q = Some r"
    by (metis find_row_None not_None_eq)
  then have "q_path r = path" by (auto dest: find_row_SomeD)
  then have eq: "r\<lparr>change_version := v\<rparr> = \<lparr>q_path = path, change_version = v\<rparr>" by simp
  show ?thesis
  proof (cases "p = path")
    case True
    then show ?thesis using r eq \<open>path \<in> q_path ` set q\<close>
      by (simp add: put_pending_def find_row_update_where \<open>q_path r = path\<close>)
  next
    case False
    have "map_option (\<lambda>r. if q_path r = path then r\<lparr>change_version := v\<rparr> else r) (find_row q_path p q) = find_row q_path p q"
      using False by (cases "find_row q_path p q") (auto dest: find_row_SomeD)
    then show ?thesis using False True by (simp add: put_pending_def find_row_update_where)
  qed
next
  case False
  then have "find_row q_path path q = None" by (simp add: find_row_None)
  then show ?thesis using False by (auto simp: put_pending_def find_row_append split: option.splits)
qed

lemma put_pending_distinct:
  "distinct (map q_path q) \<Longrightarrow> distinct (map q_path (put_pending v path q))"
  by (auto simp: put_pending_def update_where_keys)

lemma put_pending_elem:
  "r \<in> set (put_pending v path q) \<Longrightarrow> r \<in> set q \<or> (q_path r = path \<and> change_version r = v)"
  by (auto simp: put_pending_def in_set_update_where split: if_splits)

lemma enqueue_path_simps [simp]:
  "next_change_version (enqueue_path p S) = next_change_version S + 1"
  "binlog_files (enqueue_path p S) = binlog_files S"
  "parquet_parts (enqueue_path p S) = parquet_parts S"
  "pending_version (enqueue_path p S) p' = (if p' = p then Some (next_change_version S + 1) else pending_version S p')"
  by (simp_all add: enqueue_path_def bump_version_def Let_def pending_version_def put_pending_find)

lemma lookup_simps [simp]:
  "part_of (enqueue_path p S) = part_of S" "file_of (enqueue_path p S) = file_of S"
  "view (enqueue_path p S) = view S"
proof -
  show p: "part_of (enqueue_path p S) = part_of S" and f: "file_of (enqueue_path p S) = file_of S"
    by (simp_all add: part_of_def file_of_def fun_eq_iff)
  show "view (enqueue_path p S) = view S" by (simp only: view_def p f fun_eq_iff) simp
qed

lemma enqueue_path_ok:
  assumes "store_ok S" "p \<noteq> ''''"
  shows "store_ok (enqueue_path p S)"
proof -
  note s = store_okD [OF assms(1)]
  have "q_path q \<noteq> '''' \<and> change_version q \<le> next_change_version S + 1"
    if "q \<in> set (put_pending (next_change_version S + 1) p (clickhouse_pending S))" for q
    using put_pending_elem [OF that] s(7,8) [of q] assms(2) by auto
  with assms show ?thesis
    unfolding store_ok_def
    by (auto simp: put_pending_distinct enqueue_path_def bump_version_def Let_def)
qed

lemma tracks_enqueue:
  assumes "next_change_version T = next_change_version S" "pending_version T = pending_version S"
    "\<And>p'. p' \<noteq> p \<Longrightarrow> view T p' = view S p'"
  shows "tracks S (enqueue_path p T)"
  using assms by (auto simp: tracks_def)

lemma file_of_tracked:
  assumes "store_ok S" "file_of S bid = Some f"
  shows "tracked_id S bid \<longleftrightarrow> query_visible f \<and> \<not> starts_audit (log_file_name f)"
proof -
  note s = store_okD [OF assms(1)]
  have f: "f \<in> set (binlog_files S)" "file_id f = bid"
    using assms(2) by (auto simp: file_of_def dest: find_row_SomeD)
  have "g = f" if "g \<in> set (binlog_files S)" "file_id g = bid" for g
    using distinct_key_unique [OF s(1) that(1) f(1)] that f by simp
  then show ?thesis
    using f s(6) [of f] unfolding tracked_id_def tracked_file_def list_ex_iff name_ok_def by metis
qed

lemma view_eq: "store_ok S \<Longrightarrow> view S p = (case part_of S p of None \<Rightarrow> None
    | Some r \<Rightarrow> if tracked_id S (binlog_id r) then Some r else None)"
proof -
  assume ok: "store_ok S"
  have "\<not> tracked_id S bid" if "file_of S bid = None" for bid
    using that by (auto simp: file_of_def find_row_None tracked_id_def list_ex_iff image_iff)
  then show ?thesis
    by (auto simp: view_def file_of_tracked [OF ok] split: option.splits)
qed

lemma view_in_range:
  assumes "store_ok S"
  shows "r \<in> set (database_parts_in_range a b n S) \<Longrightarrow> view S (pr_path r) = Some r"
    and "view S p = Some r \<Longrightarrow> a \<le> pr_max_event_epoch_us r \<Longrightarrow> pr_min_event_epoch_us r \<le> b \<Longrightarrow>
      length (filter (database_part S) (parquet_parts S)) \<le> n \<Longrightarrow> r \<in> set (database_parts_in_range a b n S)"
    and "distinct (map pr_path (database_parts_in_range a b n S))"
proof -
  note d = store_okD(2) [OF assms]
  show "view S (pr_path r) = Some r" if "r \<in> set (database_parts_in_range a b n S)"
  proof -
    have "r \<in> set (parquet_parts S)" "tracked_id S (binlog_id r)"
      using set_take_subset that by (fastforce simp: database_parts_in_range_def database_part_def)+
    then show ?thesis using find_row_in [OF d] by (simp add: view_eq [OF assms] part_of_def)
  qed
  show "r \<in> set (database_parts_in_range a b n S)"
    if r: "view S p = Some r" "a \<le> pr_max_event_epoch_us r" "pr_min_event_epoch_us r \<le> b"
      "length (filter (database_part S) (parquet_parts S)) \<le> n"
  proof -
    have "r \<in> set (parquet_parts S)" "tracked_id S (binlog_id r)"
      using r(1) by (auto simp: view_eq [OF assms] part_of_def split: option.splits if_splits dest: find_row_SomeD)
    moreover have "length (filter (\<lambda>r. a \<le> pr_max_event_epoch_us r \<and> pr_min_event_epoch_us r \<le> b \<and> database_part S r)
        (parquet_parts S)) \<le> n"
    proof (rule order_trans [OF _ r(4)])
      show "length (filter (\<lambda>r. a \<le> pr_max_event_epoch_us r \<and> pr_min_event_epoch_us r \<le> b \<and> database_part S r) xs)
          \<le> length (filter (database_part S) xs)" for xs
        by (induction xs) auto
    qed
    ultimately show ?thesis using r(2,3) by (simp add: database_parts_in_range_def database_part_def)
  qed
  have "distinct (map pr_path (sort_key f (filter P (parquet_parts S))))" for P and f :: "part_row \<Rightarrow> int \<times> int \<times> string"
  proof -
    have "distinct (parquet_parts S)" "inj_on pr_path (set (parquet_parts S))" using d by (simp_all add: distinct_map)
    then show ?thesis by (auto simp: distinct_map inj_on_def)
  qed
  then show "distinct (map pr_path (database_parts_in_range a b n S))"
    unfolding database_parts_in_range_def take_map [symmetric] by (rule distinct_take)
qed

section \<open>Every mutation is tracked\<close>

lemma insert_part_ok:
  assumes "store_ok S" "pr_path r \<noteq> ''''" "insert_part r S = Some S'"
  shows "store_ok S' \<and> tracks S S'"
proof -
  define T where "T = S\<lparr>parquet_parts := parquet_parts S @ [r]\<rparr>"
  have new: "part_of S (pr_path r) = None" "file_of S (binlog_id r) \<noteq> None"
    and S': "S' = (if tracked_id S (binlog_id r) then enqueue_path (pr_path r) T else T)"
    using assms(3) by (auto simp: insert_part_def Let_def T_def tracked_id_def split: if_splits)
  have okT: "store_ok T"
    using assms(1,2) new
    by (auto simp: store_ok_def T_def part_of_def file_of_def find_row_None)
  have fT: "file_of T = file_of S" "tracked_id T = tracked_id S"
    by (simp_all add: T_def file_of_def tracked_id_def fun_eq_iff)
  have pT: "part_of T p = (if p = pr_path r then Some r else part_of S p)" for p
    using new by (auto simp: T_def part_of_def find_row_append split: option.splits)
  have vT: "view T p = (if p = pr_path r then (if tracked_id S (binlog_id r) then Some r else None) else view S p)" for p
    by (simp add: view_eq [OF okT] view_eq [OF assms(1)] pT fT cong: option.case_cong)
  have "view S (pr_path r) = None" using new by (simp add: view_def)
  moreover have "pending_version T = pending_version S" "next_change_version T = next_change_version S"
    by (simp_all add: T_def pending_version_def fun_eq_iff)
  ultimately show ?thesis
    using okT assms(2) vT
    by (auto simp: S' intro!: enqueue_path_ok tracks_enqueue) (auto simp: tracks_def)
qed

lemma watched_change_iff: "pr_path r = pr_path s \<Longrightarrow> watched_change r s \<longleftrightarrow> r \<noteq> s"
  by (cases r; cases s) (auto simp: watched_change_def)

lemma update_part_ok:
  assumes "store_ok S" "update_part s S = Some S'"
  shows "store_ok S' \<and> tracks S S'"
proof (cases "part_of S (pr_path s)")
  case None
  with assms show ?thesis by (simp add: update_part_def)
next
  case (Some r)
  define T where "T = S\<lparr>parquet_parts := update_where (\<lambda>x. pr_path x = pr_path s) (\<lambda>_. s) (parquet_parts S)\<rparr>"
  have rp: "pr_path r = pr_path s" "r \<in> set (parquet_parts S)"
    using Some by (auto simp: part_of_def dest: find_row_SomeD)
  have has: "file_of S (binlog_id s) \<noteq> None"
    and S': "S' = (if r \<noteq> s \<and> (tracked_id S (binlog_id r) \<or> tracked_id S (binlog_id s))
        then enqueue_path (pr_path s) T else T)"
    using assms(2) Some by (auto simp: update_part_def Let_def T_def tracked_id_def watched_change_iff [OF rp(1)] split: if_splits)
  have ne: "pr_path s \<noteq> ''''" using store_okD(4) [OF assms(1) rp(2)] rp(1) by simp
  have okT: "store_ok T"
    using assms(1) has ne
    by (auto simp: store_ok_def T_def file_of_def find_row_None update_where_keys in_set_update_where split: if_splits)
  have fT: "file_of T = file_of S" "tracked_id T = tracked_id S"
    by (simp_all add: T_def file_of_def tracked_id_def fun_eq_iff)
  have pT: "part_of T p = (if p = pr_path s then Some s else part_of S p)" for p
  proof -
    have "part_of T p = map_option (\<lambda>x. if pr_path x = pr_path s then s else x) (part_of S p)"
      by (simp add: T_def part_of_def find_row_update_where)
    moreover have "pr_path x = p" if "part_of S p = Some x" for x
      using that by (auto simp: part_of_def dest: find_row_SomeD)
    ultimately show ?thesis using Some by (cases "part_of S p") auto
  qed
  have vT: "view T p = (if p = pr_path s then (if tracked_id S (binlog_id s) then Some s else None) else view S p)" for p
    by (simp add: view_eq [OF okT] view_eq [OF assms(1)] pT fT cong: option.case_cong)
  have vS: "view S (pr_path s) = (if tracked_id S (binlog_id r) then Some r else None)"
    using Some by (simp add: view_eq [OF assms(1)])
  have "pending_version T = pending_version S" "next_change_version T = next_change_version S"
    by (simp_all add: T_def pending_version_def fun_eq_iff)
  then show ?thesis
    using okT ne vT vS
    by (auto simp: S' intro!: enqueue_path_ok tracks_enqueue) (auto simp: tracks_def)
qed

lemma delete_part_ok:
  assumes "store_ok S"
  shows "store_ok (delete_part p S) \<and> tracks S (delete_part p S)
    \<and> binlog_files (delete_part p S) = binlog_files S
    \<and> parquet_parts (delete_part p S) = filter (\<lambda>r. pr_path r \<noteq> p) (parquet_parts S)"
proof (cases "part_of S p")
  case None
  then have "p \<notin> pr_path ` set (parquet_parts S)" by (simp add: part_of_def find_row_None)
  then have "filter (\<lambda>r. pr_path r \<noteq> p) (parquet_parts S) = parquet_parts S"
    by (intro filter_True) blast
  with None assms show ?thesis by (simp add: delete_part_def)
next
  case (Some r)
  define T where "T = S\<lparr>parquet_parts := filter (\<lambda>r. pr_path r \<noteq> p) (parquet_parts S)\<rparr>"
  have r: "r \<in> set (parquet_parts S)" "pr_path r = p" using Some by (auto simp: part_of_def dest: find_row_SomeD)
  have ne: "p \<noteq> ''''" using store_okD(4) [OF assms r(1)] r(2) by simp
  have okT: "store_ok T" using assms by (auto simp: store_ok_def T_def distinct_map_filter)
  have fT: "tracked_id T = tracked_id S" by (simp add: T_def tracked_id_def fun_eq_iff)
  have find: "find_row pr_path p' (filter (\<lambda>r. pr_path r \<noteq> p) xs) = (if p' = p then None else find_row pr_path p' xs)" for p' xs
    by (induction xs) auto
  have vT: "view T p' = view S p'" if "p' \<noteq> p" for p'
    using that by (simp add: view_eq [OF okT] view_eq [OF assms] fT cong: option.case_cong) (simp add: T_def part_of_def find)
  have "pending_version T = pending_version S" "next_change_version T = next_change_version S"
    by (simp_all add: T_def pending_version_def fun_eq_iff)
  then have "tracks S (enqueue_path p T)" using vT by (intro tracks_enqueue) auto
  with okT ne Some show ?thesis
    by (simp add: delete_part_def T_def [symmetric] enqueue_path_ok) (simp add: T_def)
qed

lemma delete_parts_ok:
  assumes "store_ok S"
  shows "store_ok (foldl (\<lambda>S p. delete_part p S) S ps) \<and> tracks S (foldl (\<lambda>S p. delete_part p S) S ps)
    \<and> binlog_files (foldl (\<lambda>S p. delete_part p S) S ps) = binlog_files S
    \<and> parquet_parts (foldl (\<lambda>S p. delete_part p S) S ps) = filter (\<lambda>r. pr_path r \<notin> set ps) (parquet_parts S)"
  using assms
proof (induction ps arbitrary: S)
  case Nil
  then show ?case by simp
next
  case (Cons p ps)
  note d = delete_part_ok [OF Cons.prems, of p]
  note ih = Cons.IH [of "delete_part p S"]
  have "tracks S (foldl (\<lambda>S p. delete_part p S) (delete_part p S) ps)"
    using d ih tracks_trans by blast
  moreover have "filter (\<lambda>r. pr_path r \<notin> set ps) (filter (\<lambda>r. pr_path r \<noteq> p) xs)
      = filter (\<lambda>r. pr_path r \<notin> set (p # ps)) xs" for xs :: "part_row list"
    by (simp add: conj_commute)
  ultimately show ?case using d ih by simp
qed

lemma tracked_id_update:
  "tracked_id (S\<lparr>binlog_files := update_where (\<lambda>x. file_id x = file_id g) (\<lambda>_. g) (binlog_files S)\<rparr>) bid
     = (if bid = file_id g then file_of S bid \<noteq> None \<and> tracked_file g else tracked_id S bid)"
proof -
  have "list_ex (\<lambda>f. file_id f = bid \<and> tracked_file f) (update_where (\<lambda>x. file_id x = file_id g) (\<lambda>_. g) fs)
    \<longleftrightarrow> (if bid = file_id g then bid \<in> file_id ` set fs \<and> tracked_file g
        else list_ex (\<lambda>f. file_id f = bid \<and> tracked_file f) fs)" for fs
    by (induction fs) auto
  then show ?thesis by (simp add: tracked_id_def file_of_def find_row_None)
qed

lemma foldl_put_pending_find:
  "find_row q_path p (foldl (\<lambda>q r. put_pending v (pr_path r) q) q rs)
     = (if p \<in> pr_path ` set rs then Some \<lparr>q_path = p, change_version = v\<rparr> else find_row q_path p q)"
  by (induction rs arbitrary: q) (auto simp: put_pending_find)

lemma foldl_put_pending_distinct:
  "distinct (map q_path q) \<Longrightarrow> distinct (map q_path (foldl (\<lambda>q r. put_pending v (pr_path r) q) q rs))"
  by (induction rs arbitrary: q) (auto simp: put_pending_distinct)

lemma foldl_put_pending_elem:
  "x \<in> set (foldl (\<lambda>q r. put_pending v (pr_path r) q) q rs)
     \<Longrightarrow> x \<in> set q \<or> (q_path x \<in> pr_path ` set rs \<and> change_version x = v)"
proof (induction rs arbitrary: q)
  case (Cons r rs)
  from Cons.IH [of "put_pending v (pr_path r) q"] Cons.prems show ?case
    by (auto dest: put_pending_elem)
qed simp

lemma update_file_ok:
  assumes "store_ok S" "name_ok (log_file_name g)"
  shows "store_ok (update_file g S) \<and> tracks S (update_file g S)"
proof (cases "file_of S (file_id g)")
  case None
  with assms show ?thesis by (simp add: update_file_def)
next
  case (Some f)
  note s = store_okD [OF assms(1)]
  define T where "T = S\<lparr>binlog_files := update_where (\<lambda>x. file_id x = file_id g) (\<lambda>_. g) (binlog_files S)\<rparr>"
  have f: "f \<in> set (binlog_files S)" "file_id f = file_id g"
    using Some by (auto simp: file_of_def dest: find_row_SomeD)
  have tf: "tracked_id S (file_id g) = tracked_file f"
    using s(6) [OF f(1)] by (simp add: file_of_tracked [OF assms(1) Some] tracked_file_def name_ok_def)
  have keys: "map file_id (update_where (\<lambda>x. file_id x = file_id g) (\<lambda>_. g) (binlog_files S)) = map file_id (binlog_files S)"
    by (simp add: update_where_keys)
  have okT: "store_ok T"
  proof -
    have ids: "file_id ` set (update_where (\<lambda>x. file_id x = file_id g) (\<lambda>_. g) (binlog_files S)) = file_id ` set (binlog_files S)"
      using arg_cong [OF keys, of set] by (simp only: list.set_map)
    have "name_ok (log_file_name f)" if "f \<in> set (update_where (\<lambda>x. file_id x = file_id g) (\<lambda>_. g) (binlog_files S))" for f
      using that s(6) assms(2) by (auto simp: in_set_update_where)
    with assms(1) show ?thesis unfolding store_ok_def T_def by (simp add: keys ids)
  qed
  have tT: "tracked_id T bid = (if bid = file_id g then tracked_file g else tracked_id S bid)" for bid
    using Some by (auto simp: T_def tracked_id_update)
  have pT: "part_of T = part_of S" "pending_version T = pending_version S" "next_change_version T = next_change_version S"
    by (simp_all add: T_def part_of_def pending_version_def fun_eq_iff)
  have same: "view T p = view S p" if "\<forall>r. part_of S p = Some r \<longrightarrow> binlog_id r \<noteq> file_id g \<or> tracked_file f = tracked_file g" for p
    using that by (auto simp: view_eq [OF okT] view_eq [OF assms(1)] pT tT tf split: option.splits)
  consider (quiet) "query_visible f = query_visible g \<and> log_file_name f = log_file_name g"
    | (bump) "\<not> (query_visible f = query_visible g \<and> log_file_name f = log_file_name g)" "\<not> (tracked_file f \<or> tracked_file g)"
    | (queue) "\<not> (query_visible f = query_visible g \<and> log_file_name f = log_file_name g)" "tracked_file f \<or> tracked_file g"
    by blast
  then show ?thesis
  proof cases
    case quiet
    then have "update_file g S = T" "tracked_file f = tracked_file g"
      using Some by (simp_all add: update_file_def T_def Let_def tracked_file_def)
    with okT pT same show ?thesis by (simp add: tracks_def)
  next
    case bump
    then have U: "update_file g S = bump_version T" and eq: "tracked_file f = tracked_file g"
      using Some by (auto simp add: update_file_def T_def Let_def)
    have "store_ok (bump_version T)" using okT by (force simp: store_ok_def bump_version_def)
    moreover have "view (bump_version T) = view T" "pending_version (bump_version T) = pending_version T"
      "next_change_version (bump_version T) = next_change_version T + 1"
      by (simp_all add: bump_version_def view_def part_of_def file_of_def pending_version_def fun_eq_iff
          cong: option.case_cong)
    ultimately show ?thesis using U same eq pT by (simp add: tracks_def)
  next
    case queue
    let ?v = "next_change_version S + 1"
    let ?rs = "filter (\<lambda>r. binlog_id r = file_id g) (parquet_parts S)"
    let ?q = "foldl (\<lambda>q r. put_pending ?v (pr_path r) q) (clickhouse_pending S) ?rs"
    have U: "update_file g S = T\<lparr>next_change_version := ?v, clickhouse_pending := ?q\<rparr>"
      using Some queue by (auto simp add: update_file_def T_def Let_def bump_version_def)
    have q: "q_path x \<noteq> '''' \<and> change_version x \<le> ?v" if "x \<in> set ?q" for x
      using foldl_put_pending_elem [OF that] s(4,7,8) by fastforce
    have "store_ok (update_file g S)"
      using okT q foldl_put_pending_distinct [OF s(3), of ?v ?rs] unfolding store_ok_def U by simp
    moreover have "view (update_file g S) = view T"
      by (simp add: U view_def part_of_def file_of_def fun_eq_iff cong: option.case_cong)
    moreover have "pending_version (update_file g S) p = (if p \<in> pr_path ` set ?rs then Some ?v else pending_version S p)" for p
      by (simp add: U pending_version_def foldl_put_pending_find del: set_filter)
    moreover have "view T p = view S p" if "p \<notin> pr_path ` set ?rs" for p
      using that by (intro same) (auto simp: part_of_def dest!: find_row_SomeD)
    moreover have "next_change_version (update_file g S) = ?v" by (simp add: U)
    ultimately show ?thesis by (auto simp: tracks_def simp del: set_filter)
  qed
qed

lemma delete_file_ok:
  assumes "store_ok S"
  shows "store_ok (delete_file bid S) \<and> tracks S (delete_file bid S)"
proof -
  let ?ps = "map pr_path (filter (\<lambda>r. binlog_id r = bid) (parquet_parts S))"
  define T where "T = foldl (\<lambda>S p. delete_part p S) S ?ps"
  note d = delete_parts_ok [OF assms, of ?ps, folded T_def]
  have none: "binlog_id r \<noteq> bid" if "r \<in> set (parquet_parts T)" for r
    using that d by auto
  define U where "U = T\<lparr>binlog_files := filter (\<lambda>f. file_id f \<noteq> bid) (binlog_files T)\<rparr>"
  have U: "delete_file bid S = U" by (simp add: delete_file_def Let_def T_def U_def)
  have okU: "store_ok U"
  proof -
    have okT: "store_ok T" using d by simp
    note t = store_okD [OF okT]
    have "binlog_id r \<in> file_id ` set (filter (\<lambda>f. file_id f \<noteq> bid) (binlog_files T))" if "r \<in> set (parquet_parts T)" for r
      using t(5) [OF that] none [OF that] by auto
    with okT show ?thesis unfolding store_ok_def U_def by (simp add: distinct_map_filter)
  qed
  have pU: "part_of U = part_of T" "pending_version U = pending_version T" "next_change_version U = next_change_version T"
    by (simp_all add: U_def part_of_def pending_version_def fun_eq_iff)
  have "tracked_id U b = tracked_id T b" if "b \<noteq> bid" for b
    using that by (auto simp: U_def tracked_id_def list_ex_iff)
  moreover have "binlog_id r \<noteq> bid" if "part_of T p = Some r" for r p
    using that none by (auto simp: part_of_def dest: find_row_SomeD)
  ultimately have "view U p = view T p" for p
    using d by (auto simp: view_eq [OF okU] view_eq pU split: option.splits)
  then have "tracks T U" using pU by (simp add: tracks_def)
  with d okU U show ?thesis using tracks_trans by blast
qed

lemma insert_file_ok:
  assumes "store_ok S" "name_ok (log_file_name f)" "insert_file f S = Some S'"
  shows "store_ok S' \<and> tracks S S'"
proof -
  have new: "file_of S (file_id f) = None" and S': "S' = S\<lparr>binlog_files := binlog_files S @ [f]\<rparr>"
    using assms(3) by (auto simp: insert_file_def split: if_splits)
  have ok: "store_ok S'"
    using assms(1,2) new unfolding store_ok_def S' by (auto simp: file_of_def find_row_None)
  have "part_of S' = part_of S" "pending_version S' = pending_version S" "next_change_version S' = next_change_version S"
    by (simp_all add: S' part_of_def pending_version_def fun_eq_iff)
  moreover have "file_of S' b = file_of S b" if "b \<in> file_id ` set (binlog_files S)" for b
    using that new by (auto simp: S' file_of_def find_row_append find_row_None split: option.splits)
  moreover have "binlog_id r \<in> file_id ` set (binlog_files S)" if "part_of S p = Some r" for p r
    using that store_okD(5) [OF assms(1)] by (auto simp: part_of_def dest: find_row_SomeD)
  ultimately have "view S' p = view S p" for p by (auto simp: view_def split: option.splits)
  with ok \<open>pending_version S' = pending_version S\<close> \<open>next_change_version S' = next_change_version S\<close>
  show ?thesis by (simp add: tracks_def)
qed

text \<open>The mutations the rest of the program may perform on the source, one statement at a time.\<close>

inductive source_step :: "source_store \<Rightarrow> source_store \<Rightarrow> bool" where
  insert_part: "insert_part r S = Some S' \<Longrightarrow> pr_path r \<noteq> '''' \<Longrightarrow> source_step S S'"
| update_part: "update_part r S = Some S' \<Longrightarrow> source_step S S'"
| delete_part: "source_step S (delete_part p S)"
| insert_file: "insert_file f S = Some S' \<Longrightarrow> name_ok (log_file_name f) \<Longrightarrow> source_step S S'"
| update_file: "name_ok (log_file_name f) \<Longrightarrow> source_step S (update_file f S)"
| delete_file: "source_step S (delete_file b S)"
| complete: "source_step S (mark_clickhouse_change_tracking_complete S)"

lemma source_step_tracked:
  assumes "source_step S S'" "store_ok S"
  shows "store_ok S' \<and> tracks S S'"
  using assms
proof (induction rule: source_step.cases)
  case (complete S)
  have "view (mark_clickhouse_change_tracking_complete S) = view S"
    "pending_version (mark_clickhouse_change_tracking_complete S) = pending_version S"
    by (simp_all add: mark_clickhouse_change_tracking_complete_def view_def part_of_def file_of_def
        pending_version_def fun_eq_iff cong: option.case_cong)
  with complete show ?case
    by (auto simp: tracks_def store_ok_def mark_clickhouse_change_tracking_complete_def)
qed (use insert_part_ok update_part_ok delete_part_ok insert_file_ok update_file_ok delete_file_ok in blast)+

section \<open>Pages and acknowledgements\<close>

lemma filter_find:
  "find_row key k (filter P xs) = find_row key k xs"
  if "distinct (map key xs)" "\<forall>r. find_row key k xs = Some r \<longrightarrow> P r"
  using that
proof (induction xs)
  case (Cons x xs)
  show ?case
  proof (cases "key x = k")
    case True
    with Cons.prems show ?thesis by simp
  next
    case False
    with Cons show ?thesis by simp
  qed
qed simp

lemma ack_changes_step:
  fixes S path v
  defines "T \<equiv> S\<lparr>clickhouse_pending := filter (\<lambda>q. \<not> (q_path q = path \<and> change_version q = v)) (clickhouse_pending S)\<rparr>"
  assumes "store_ok S"
  shows "store_ok T \<and> view T = view S \<and> next_change_version T = next_change_version S
    \<and> pending_version T p = (if p = path \<and> pending_version S p = Some v then None else pending_version S p)"
proof -
  note s = store_okD [OF assms(2)]
  have "store_ok T" using assms(2) by (simp add: store_ok_def T_def distinct_map_filter)
  moreover have "view T = view S"
    by (simp add: T_def view_def part_of_def file_of_def fun_eq_iff cong: option.case_cong)
  moreover have "pending_version T p = (if p = path \<and> pending_version S p = Some v then None else pending_version S p)"
  proof (cases "p = path \<and> pending_version S p = Some v")
    case True
    then obtain r where "find_row q_path p (clickhouse_pending S) = Some r" "change_version r = v"
      by (auto simp: pending_version_def)
    then have r: "r \<in> set (clickhouse_pending S)" "q_path r = p" "change_version r = v"
      by (auto dest: find_row_SomeD)
    have only: "change_version x = v" if "x \<in> set (clickhouse_pending S)" "q_path x = p" for x
      using distinct_key_unique [OF s(3) that(1) r(1)] that r by simp
    have "p \<notin> q_path ` set (clickhouse_pending T)"
    proof
      assume "p \<in> q_path ` set (clickhouse_pending T)"
      then obtain x where "x \<in> set (clickhouse_pending S)" "q_path x = p" "\<not> (q_path x = path \<and> change_version x = v)"
        by (auto simp: T_def)
      with only [of x] True show False by simp
    qed
    then have "find_row q_path p (clickhouse_pending T) = None" by (simp only: find_row_None) simp
    then have "pending_version T p = None" by (simp add: pending_version_def)
    then show ?thesis unfolding if_P [OF True] .
  next
    case False
    have ct: "clickhouse_pending T = filter (\<lambda>q. \<not> (q_path q = path \<and> change_version q = v)) (clickhouse_pending S)"
      by (simp add: T_def)
    have "find_row q_path p (clickhouse_pending T) = find_row q_path p (clickhouse_pending S)"
      unfolding ct by (rule filter_find [OF s(3)]) (use False in \<open>auto simp: pending_version_def dest: find_row_SomeD\<close>)
    then have "pending_version T p = pending_version S p" by (simp add: pending_version_def)
    then show ?thesis unfolding if_not_P [OF False] .
  qed
  ultimately show ?thesis by (simp add: T_def)
qed

lemma ack_clickhouse_changes_ok:
  assumes "store_ok S"
  shows "store_ok (snd (ack_clickhouse_changes acks S)) \<and> view (snd (ack_clickhouse_changes acks S)) = view S
    \<and> next_change_version (snd (ack_clickhouse_changes acks S)) = next_change_version S
    \<and> pending_version (snd (ack_clickhouse_changes acks S)) p
        = (case pending_version S p of None \<Rightarrow> None | Some v \<Rightarrow> if (p, v) \<in> set acks then None else Some v)"
proof -
  define step :: "int \<times> source_store \<Rightarrow> string \<times> int \<Rightarrow> int \<times> source_store"
    where "step = (\<lambda>(n, S) (path, v).
       (n + count_where (\<lambda>q. q_path q = path \<and> change_version q = v) (clickhouse_pending S),
        S\<lparr>clickhouse_pending := filter (\<lambda>q. \<not> (q_path q = path \<and> change_version q = v)) (clickhouse_pending S)\<rparr>))"
  have gen: "store_ok (snd (foldl step (n, S) acks)) \<and> view (snd (foldl step (n, S) acks)) = view S
    \<and> next_change_version (snd (foldl step (n, S) acks)) = next_change_version S
    \<and> pending_version (snd (foldl step (n, S) acks)) p
        = (case pending_version S p of None \<Rightarrow> None | Some v \<Rightarrow> if (p, v) \<in> set acks then None else Some v)"
    if "store_ok S" for n :: int and S
    using that
  proof (induction acks arbitrary: n S)
    case Nil
    then show ?case by (simp split: option.split)
  next
    case (Cons a acks)
    obtain path v where a: "a = (path, v)" by (rule prod.exhaust)
    define T where "T = S\<lparr>clickhouse_pending := filter (\<lambda>q. \<not> (q_path q = path \<and> change_version q = v)) (clickhouse_pending S)\<rparr>"
    obtain k where k: "step (n, S) a = (k, T)" by (simp add: step_def a T_def)
    note t = ack_changes_step [OF Cons.prems, of path v p, folded T_def]
    have fold: "foldl step (n, S) (a # acks) = foldl step (k, T) acks" by (simp add: k)
    from Cons.IH [of T k] t show ?case
      unfolding fold unfolding a by (cases "pending_version S p") auto
  qed
  show ?thesis
  proof (cases "acks = []")
    case True
    with assms show ?thesis by (simp add: ack_clickhouse_changes_def split: option.split)
  next
    case False
    then have "ack_clickhouse_changes acks S = foldl step (0, S) acks"
      by (simp add: ack_clickhouse_changes_def step_def)
    with gen [OF assms] show ?thesis by simp
  qed
qed

lemma join_change_simps [simp]:
  "ch_path (join_change S q) = q_path q" "ch_version (join_change S q) = change_version q"
  "ch_part (join_change S q) = part_of S (q_path q)"
  by (simp_all add: join_change_def Let_def)

lemma pending_page:
  assumes "store_ok S"
  shows "distinct (map ch_path (pending_clickhouse_changes limit S))"
    and "c \<in> set (pending_clickhouse_changes limit S)
      \<Longrightarrow> \<exists>q \<in> set (clickhouse_pending S). c = join_change S q"
proof -
  have "distinct (map q_path (sort_key (\<lambda>q. (change_version q, q_path q)) (clickhouse_pending S)))"
    using store_okD(3) [OF assms] by (simp add: distinct_map)
  then show "distinct (map ch_path (pending_clickhouse_changes limit S))"
    by (simp add: pending_clickhouse_changes_def comp_def take_map [symmetric])
  show "\<exists>q \<in> set (clickhouse_pending S). c = join_change S q" if "c \<in> set (pending_clickhouse_changes limit S)"
    using that by (auto simp: pending_clickhouse_changes_def dest!: in_set_takeD)
qed

lemma pending_version_iff:
  assumes "store_ok S"
  shows "pending_version S p = Some v \<longleftrightarrow> (\<exists>q \<in> set (clickhouse_pending S). q_path q = p \<and> change_version q = v)"
  using find_row_iff [OF store_okD(3) [OF assms], of p] by (auto simp: pending_version_def)

text \<open>
  Property C14. The trigger contract: every statement on the source tables keeps the store well
  formed, versions only grow, and every path whose visible part changed gets a pending version that
  was never issued before, so that acknowledging an older read can not remove it.
\<close>

theorem source_step_tracks:
  assumes "source_step S S'" "store_ok S"
  shows "store_ok S' \<and> next_change_version S \<le> next_change_version S'
    \<and> (\<forall>p. (view S' p = view S p \<and> pending_version S' p = pending_version S p)
         \<or> (\<exists>v. pending_version S' p = Some v \<and> next_change_version S < v))"
  using source_step_tracked [OF assms] by (simp add: tracks_def)

text \<open>A small store used by the witnesses.\<close>

definition sample_part :: "string \<Rightarrow> string \<Rightarrow> part_row" where
  "sample_part p i = \<lparr>pr_path = p, binlog_id = ''f1'', pr_logical_part_id = i, pr_sha256 = ''sha'',
     pr_content_revision = 1, pr_min_event_epoch_us = 100, pr_max_event_epoch_us = 200,
     pr_row_count = 10, pr_size_bytes = 1000, oss_key = ''k'', oss_etag = ''e'', oss_offset = 0,
     oss_length = 0, oss_object_sha256 = ''sha''\<rparr>"

definition sample_store :: "(string \<times> string) list \<Rightarrow> (string \<times> int) list \<Rightarrow> source_store" where
  "sample_store ps qs = \<lparr>binlog_files = [\<lparr>file_id = ''f1'', log_file_name = ''mysql-bin.000001'', query_visible = True\<rparr>],
     parquet_parts = map (\<lambda>(p, i). sample_part p i) ps,
     clickhouse_pending = map (\<lambda>(p, v). \<lparr>q_path = p, change_version = v\<rparr>) qs,
     tracking_complete = True, next_change_version = 9\<rparr>"

lemma sample_part_simps [simp]:
  "pr_path (sample_part p i) = p" "binlog_id (sample_part p i) = ''f1''" "oss_key (sample_part p i) = ''k''"
  "pr_min_event_epoch_us (sample_part p i) = 100" "pr_max_event_epoch_us (sample_part p i) = 200"
  by (simp_all add: sample_part_def)

lemma sample_name: "\<not> starts_audit ''mysql-bin.000001''" "name_ok ''mysql-bin.000001''"
  by (simp_all add: starts_audit_def name_ok_def like_audit_def TABULARIS_AUDIT_FILE_PREFIX_def ascii_lower_def)

lemma sample_store_ok:
  assumes "distinct (map fst ps)" "distinct (map fst qs)" "'''' \<notin> fst ` set ps" "'''' \<notin> fst ` set qs"
    "\<forall>q \<in> set qs. snd q \<le> 9"
  shows "store_ok (sample_store ps qs)"
proof -
  have "map pr_path (parquet_parts (sample_store ps qs)) = map fst ps"
    "map q_path (clickhouse_pending (sample_store ps qs)) = map fst qs"
    by (simp_all add: sample_store_def split_def comp_def)
  then have "distinct (map pr_path (parquet_parts (sample_store ps qs)))"
    "distinct (map q_path (clickhouse_pending (sample_store ps qs)))"
    using assms(1,2) by simp_all
  moreover have "pr_path r \<noteq> [] \<and> binlog_id r = ''f1''" if "r \<in> set (parquet_parts (sample_store ps qs))" for r
    using that assms(3) by (force simp: sample_store_def)
  moreover have "q_path q \<noteq> [] \<and> change_version q \<le> 9" if "q \<in> set (clickhouse_pending (sample_store ps qs))" for q
    using that assms(4,5) by (force simp: sample_store_def)
  moreover have "binlog_files (sample_store ps qs) = [\<lparr>file_id = ''f1'', log_file_name = ''mysql-bin.000001'', query_visible = True\<rparr>]"
    "next_change_version (sample_store ps qs) = 9"
    by (simp_all add: sample_store_def)
  ultimately show ?thesis unfolding store_ok_def by (simp add: sample_name)
qed

lemma sample_store_view: "view (sample_store ps qs) p = map_option (sample_part p) (map_of ps p)"
proof -
  have "find_row pr_path p (map (\<lambda>(p, i). sample_part p i) ps) = map_option (sample_part p) (map_of ps p)"
    by (induction ps) auto
  then show ?thesis
    by (cases "map_of ps p") (simp_all add: view_def part_of_def file_of_def sample_store_def sample_name)
qed

lemma sample_store_pending: "pending_version (sample_store ps qs) p = map_of qs p"
proof -
  have "map_option change_version (find_row q_path p (map (\<lambda>(p, v). \<lparr>q_path = p, change_version = v\<rparr>) qs)) = map_of qs p"
    by (induction qs) auto
  then show ?thesis by (simp add: pending_version_def sample_store_def)
qed

theorem source_step_tracks_witness:
  "store_ok (delete_part ''p'' (sample_store [(''p'', ''i'')] []))"
proof -
  have "store_ok (sample_store [(''p'', ''i'')] [])" by (rule sample_store_ok) simp_all
  from source_step_tracks [OF source_step.delete_part this] show ?thesis by blast
qed

end
