(* ===== verification/ChangeQueue.thy ===== *)
theory ChangeQueue
  imports SourceQueue ManifestReconcile
begin

text \<open>
  \<open>app/clickhouse_change_queue.py\<close>: source mutations are handed to the manifest before they are
  acknowledged. The routine is modelled as the program runs it and as the sequence of committed
  steps it consists of, with source mutations, worker jobs, the full and incremental reconciles of
  \<open>reconcile_once\<close> (\<open>app/clickhouse_ingest.py\<close>) and crashes between any two of them. The invariant of
  that system is what the module's documentation promises: once the queue is empty, the manifest holds
  the load and delete state the source asks for, for the parts that reach into the history it keeps.
\<close>

section \<open>The routine\<close>

text \<open>A joined part read as the dict the manifest expects.\<close>

definition as_source :: "part_row \<Rightarrow> source_part" where
  "as_source r = \<lparr>sp_path = pr_path r, sp_logical_part_id = Some (pr_logical_part_id r),
     sp_sha256 = Some (pr_sha256 r), sp_content_revision = Some (pr_content_revision r),
     sp_min_event_epoch_us = Some (pr_min_event_epoch_us r),
     sp_max_event_epoch_us = Some (pr_max_event_epoch_us r),
     sp_row_count = Some (pr_row_count r), sp_size_bytes = Some (pr_size_bytes r)\<rparr>"

definition current_database_part :: "change \<Rightarrow> bool" where
  "current_database_part c \<longleftrightarrow> ch_part c \<noteq> None \<and> ch_visible c
     \<and> \<not> starts_audit (str_or_empty (ch_log_file_name c))"

definition archived :: "part_row \<Rightarrow> bool" where
  "archived r \<longleftrightarrow> oss_key r \<noteq> '''' \<and> part_identity (as_source r) \<noteq> ''''"

record hand_over =
  eligible :: "part_row list"
  removed :: "string list"
  acknowledgements :: "(string \<times> int) list"
  deferred :: int

definition classify_change :: "hand_over \<Rightarrow> change \<Rightarrow> hand_over" where
  "classify_change h c =
     (case (if current_database_part c then ch_part c else None) of
        Some r \<Rightarrow> if archived r
          then h\<lparr>eligible := eligible h @ [r], acknowledgements := acknowledgements h @ [(ch_path c, ch_version c)]\<rparr>
          else h\<lparr>deferred := deferred h + 1\<rparr>
      | None \<Rightarrow> h\<lparr>removed := removed h @ [ch_path c], acknowledgements := acknowledgements h @ [(ch_path c, ch_version c)]\<rparr>)"

definition classify_changes :: "change list \<Rightarrow> hand_over" where
  "classify_changes cs = foldl classify_change
     \<lparr>eligible = [], removed = [], acknowledgements = [], deferred = 0\<rparr> cs"

text \<open>The incremental reconcile of the eligible parts, when there are any.\<close>

definition load_eligible :: "int \<Rightarrow> part_row list \<Rightarrow> manifest \<Rightarrow> int \<times> manifest" where
  "load_eligible now_us rs m = (if rs = [] then (0, m)
     else let (result, m') = reconcile now_us (map as_source rs)
            (coalesce_agg min (map pr_min_event_epoch_us rs))
            (coalesce_agg max (map pr_max_event_epoch_us rs)) None False True m
       in (queued_parts result, m'))"

record change_result =
  cr_scanned :: int
  cr_queued :: int
  cr_removed :: int
  cr_removed_states :: int
  cr_deferred :: int
  cr_acknowledged :: int

definition reconcile_pending_source_changes :: "int \<Rightarrow> int \<Rightarrow> source_store \<times> manifest
    \<Rightarrow> change_result \<times> source_store \<times> manifest" where
  "reconcile_pending_source_changes now_us limit sm = (case sm of (S, m) \<Rightarrow>
     let changes = pending_clickhouse_changes (max limit 0) S;
         h = classify_changes changes;
         (queued, m) = load_eligible now_us (eligible h) m;
         (removed_states, m) = queue_missing_paths now_us (removed h) m;
         (acknowledged, S) = ack_clickhouse_changes (acknowledgements h) S
     in (\<lparr>cr_scanned = int (length changes), cr_queued = queued, cr_removed = int (length (removed h)),
          cr_removed_states = removed_states, cr_deferred = deferred h,
          cr_acknowledged = acknowledged\<rparr>, S, m))"

section \<open>Classification\<close>

definition change_view :: "change \<Rightarrow> part_row option" where
  "change_view c = (if current_database_part c then ch_part c else None)"

definition settles :: "change \<Rightarrow> bool" where
  "settles c \<longleftrightarrow> (case change_view c of None \<Rightarrow> True | Some r \<Rightarrow> archived r)"

lemma classify_changes_eq:
  "classify_changes cs =
     \<lparr>eligible = filter archived (List.map_filter change_view cs),
      removed = map ch_path (filter (\<lambda>c. change_view c = None) cs),
      acknowledgements = map (\<lambda>c. (ch_path c, ch_version c)) (filter settles cs),
      deferred = int (length (filter (\<lambda>c. \<not> settles c) cs))\<rparr>"
proof (induction cs rule: rev_induct)
  case Nil
  then show ?case by (simp add: classify_changes_def List.map_filter_def)
next
  case (snoc c cs)
  have "classify_changes (cs @ [c]) = classify_change (classify_changes cs) c"
    by (simp add: classify_changes_def)
  moreover have "settles c \<longleftrightarrow> (case change_view c of None \<Rightarrow> True | Some r \<Rightarrow> archived r)"
    by (simp add: settles_def)
  ultimately show ?case
    unfolding snoc.IH
    by (cases "change_view c") (simp_all add: classify_change_def change_view_def [symmetric] List.map_filter_def)
qed

section \<open>What a row says about its load\<close>

text \<open>Rows that hold no load: being deleted, or retired.\<close>

definition dead :: "clickhouse_part \<Rightarrow> bool" where
  "dead r \<longleftrightarrow> status r \<in> set RESET_STATES"

lemma dead_iff: "dead r \<longleftrightarrow> status r \<notin> set ACTIVE_LOAD_STATES"
  by (cases "status r") (auto simp: dead_def)

definition row_at :: "manifest \<Rightarrow> row_key \<Rightarrow> clickhouse_part option" where
  "row_at m k = find_row part_key k (clickhouse_parts m)"

definition gone :: "manifest \<Rightarrow> string \<Rightarrow> bool" where
  "gone m p \<longleftrightarrow> (\<forall>i r. row_at m (p, i) = Some r \<longrightarrow> dead r)"

definition live :: "manifest \<Rightarrow> string \<Rightarrow> string \<Rightarrow> part_values \<Rightarrow> bool" where
  "live m p i v \<longleftrightarrow> (\<exists>r. row_at m (p, i) = Some r \<and> \<not> dead r \<and> row_values r = v)
     \<and> (\<forall>j r. j \<noteq> i \<longrightarrow> row_at m (p, j) = Some r \<longrightarrow> dead r)"

text \<open>The manifest agrees with the source about one path.\<close>

definition settled :: "part_row option \<Rightarrow> manifest \<Rightarrow> string \<Rightarrow> bool" where
  "settled w m p = (case w of None \<Rightarrow> gone m p
     | Some r \<Rightarrow> archived r \<and> live m p (part_identity (as_source r)) (source_values (as_source r)))"

definition load_view :: "manifest \<Rightarrow> row_key \<Rightarrow> (bool \<times> part_values) option" where
  "load_view m k = map_option (\<lambda>r. (dead r, row_values r)) (row_at m k)"

lemma gone_load_view: "gone m p \<longleftrightarrow> (\<forall>i d v. load_view m (p, i) = Some (d, v) \<longrightarrow> d)"
  unfolding gone_def load_view_def map_option_eq_Some prod.inject by blast

lemma live_load_view: "live m p i v \<longleftrightarrow> load_view m (p, i) = Some (False, v)
    \<and> (\<forall>j d u. j \<noteq> i \<longrightarrow> load_view m (p, j) = Some (d, u) \<longrightarrow> d)"
  unfolding live_def load_view_def map_option_eq_Some prod.inject by blast

lemma settled_cong:
  "(\<And>i. load_view m' (p, i) = load_view m (p, i)) \<Longrightarrow> settled w m' p = settled w m p"
  by (simp add: settled_def gone_load_view live_load_view split: option.splits)

section \<open>The incremental reconcile settles its parts\<close>

lemma upsert_staged_find_same:
  "find_row part_key k (upsert_staged now gen t (k, v)) = Some (case find_row part_key k t of
     None \<Rightarrow> new_row now gen k v
   | Some r \<Rightarrow> if status r \<in> set RESET_STATES \<or> row_values r \<noteq> v then upsert_row now gen v r else r)"
proof (cases "find_row part_key k t")
  case None
  then have "k \<notin> part_key ` set t" by (simp add: find_row_None)
  with None show ?thesis by (simp add: upsert_staged_def find_row_append)
next
  case (Some r)
  then have "part_key r = k" "k \<in> part_key ` set t" by (auto dest: find_row_SomeD)
  with Some show ?thesis
    by (simp add: upsert_staged_def find_row_update_where del: status_sets)
qed

lemma upsert_staged_at:
  "\<exists>r. find_row part_key k (upsert_staged now gen t (k, v)) = Some r \<and> \<not> dead r \<and> row_values r = v"
  by (auto simp: upsert_staged_find_same dead_def split: option.splits)

lemma upserts_lookup:
  "distinct (map fst kvs) \<Longrightarrow>
     find_row part_key k (foldl (upsert_staged now gen) t kvs)
       = (case map_of kvs k of None \<Rightarrow> find_row part_key k t
          | Some v \<Rightarrow> find_row part_key k (upsert_staged now gen t (k, v)))"
proof (induction kvs rule: rev_induct)
  case Nil
  then show ?case by simp
next
  case (snoc kv kvs)
  obtain j v where kv: "kv = (j, v)" by (rule prod.exhaust)
  have fresh: "j \<notin> fst ` set kvs" using snoc.prems kv by auto
  then have none: "map_of kvs j = None" by (simp add: map_of_eq_None_iff)
  show ?case
  proof (cases "k = j")
    case True
    with none kv show ?thesis
      by (simp add: map_add_def upsert_staged_find_same foldl_upsert_find_other [OF fresh])
  next
    case False
    then have "find_row part_key k (foldl (upsert_staged now gen) t (kvs @ [kv]))
        = find_row part_key k (foldl (upsert_staged now gen) t kvs)"
      by (simp add: kv upsert_staged_find_other)
    with False snoc kv show ?thesis by (simp add: map_add_def split: option.split)
  qed
qed

lemma reconcile_incremental:
  assumes "manifest_ok m" "distinct (map sp_path parts)"
  shows "clickhouse_parts (snd (reconcile now parts a b src False preserve m))
    = update_where (replaced (staged_of parts)) (demote_row now)
        (foldl (upsert_staged now (next_generation m)) (clickhouse_parts m) (keyed (staged_of parts)))"
proof -
  have "distinct (map part_key (clickhouse_parts m))" using assms(1) by (simp add: manifest_ok_def table_ok_def)
  from reconcile_loop_agrees [OF this assms(2), of now "next_generation m"] show ?thesis
    by (simp add: reconcile_def Let_def loop_agrees_def)
qed

lemma part_identity_as_source: "sp_path (as_source r) = pr_path r"
  by (simp add: as_source_def)

text \<open>The staged rows of archived parts.\<close>

definition stage_row :: "part_row \<Rightarrow> string \<times> string \<times> part_values" where
  "stage_row r = (pr_path r, part_identity (as_source r), source_values (as_source r))"

lemma staged_of_archived: "\<forall>r \<in> set rs. archived r \<Longrightarrow> staged_of (map as_source rs) = map stage_row rs"
  by (induction rs) (auto simp: staged_of_def stage_row_def archived_def part_identity_as_source)

lemma keyed_stage: "keyed (map stage_row rs) = map (\<lambda>r. ((pr_path r, part_identity (as_source r)), source_values (as_source r))) rs"
  by (simp add: keyed_def stage_row_def)

lemma keyed_stage_lookup:
  assumes "distinct (map pr_path rs)" "r \<in> set rs"
  shows "map_of (keyed (map stage_row rs)) (pr_path r, i)
    = (if i = part_identity (as_source r) then Some (source_values (as_source r)) else None)"
proof -
  have "map_of (map (\<lambda>r. ((pr_path r, part_identity (as_source r)), source_values (as_source r))) rs) (pr_path r, i)
      = (if i = part_identity (as_source r) then Some (source_values (as_source r)) else None)"
    using assms
  proof (induction rs)
    case (Cons s rs)
    show ?case
    proof (cases "s = r")
      case True
      with Cons.prems(1) have "pr_path r \<notin> pr_path ` set rs" by auto
      then have "map_of (map (\<lambda>r. ((pr_path r, part_identity (as_source r)), source_values (as_source r))) rs) (pr_path r, i) = None"
        by (force simp: map_of_eq_None_iff)
      with True show ?thesis by simp
    next
      case False
      with Cons.prems have "r \<in> set rs" "pr_path s \<noteq> pr_path r" by auto
      with Cons show ?thesis by simp
    qed
  qed simp
  then show ?thesis by (simp only: keyed_stage)
qed

lemma replaced_stage:
  assumes "distinct (map pr_path rs)" "r \<in> set rs" "part_path x = pr_path r"
  shows "replaced (map stage_row rs) x \<longleftrightarrow> status x \<noteq> Retired \<and> logical_part_id x \<noteq> part_identity (as_source r)"
proof -
  have "s = r" if "s \<in> set rs" "pr_path s = pr_path r" for s
    using distinct_key_unique [OF assms(1)] that assms(2) by blast
  then have "list_ex (\<lambda>(path, identity, _). path = part_path x \<and> identity \<noteq> logical_part_id x) (map stage_row rs)
      \<longleftrightarrow> part_identity (as_source r) \<noteq> logical_part_id x"
    using assms(2,3) unfolding list_ex_iff set_map bex_simps stage_row_def prod.case by metis
  then show ?thesis unfolding replaced_def by metis
qed

lemma load_eligible_manifest:
  assumes "manifest_ok m" "distinct (map pr_path rs)" "\<forall>r \<in> set rs. archived r"
  shows "manifest_ok (snd (load_eligible now rs m))"
    and "clickhouse_parts (snd (load_eligible now rs m)) = update_where (replaced (map stage_row rs)) (demote_row now)
        (foldl (upsert_staged now (next_generation m)) (clickhouse_parts m) (keyed (map stage_row rs)))"
proof -
  have d: "distinct (map sp_path (map as_source rs))"
    using assms(2) by (simp add: part_identity_as_source comp_def)
  show "manifest_ok (snd (load_eligible now rs m))"
    using assms(1) by (simp add: load_eligible_def Let_def reconcile_ok split_def)
  show "clickhouse_parts (snd (load_eligible now rs m)) = update_where (replaced (map stage_row rs)) (demote_row now)
        (foldl (upsert_staged now (next_generation m)) (clickhouse_parts m) (keyed (map stage_row rs)))"
  proof (cases "rs = []")
    case True
    then show ?thesis by (simp add: load_eligible_def replaced_def update_where_def)
  next
    case False
    then show ?thesis
      using reconcile_incremental [OF assms(1) d, of now] staged_of_archived [OF assms(3)]
      by (simp add: load_eligible_def Let_def split_def)
  qed
qed

lemma load_eligible_state:
  "state (snd (load_eligible now rs m)) \<noteq> None \<longleftrightarrow> state m \<noteq> None"
  "state_field start_epoch_us (snd (load_eligible now rs m)) = state_field start_epoch_us m"
  by (cases "state m"; simp add: load_eligible_def reconcile_def Let_def case_prod_beta write_state_def state_field_def)+

lemma load_eligible_settles:
  assumes "manifest_ok m" "distinct (map pr_path rs)" "\<forall>r \<in> set rs. archived r"
  shows "r \<in> set rs \<Longrightarrow> live (snd (load_eligible now rs m)) (pr_path r)
      (part_identity (as_source r)) (source_values (as_source r))"
    and "p \<notin> pr_path ` set rs \<Longrightarrow> row_at (snd (load_eligible now rs m)) (p, i) = row_at m (p, i)"
proof -
  let ?m = "snd (load_eligible now rs m)"
  let ?xs = "map stage_row rs"
  let ?t = "foldl (upsert_staged now (next_generation m)) (clickhouse_parts m) (keyed ?xs)"
  have dk: "distinct (map fst (keyed ?xs))"
  proof -
    have "distinct (map (\<lambda>r. fst (pr_path r, part_identity (as_source r))) rs)" using assms(2) by simp
    then have "distinct (map (\<lambda>r. (pr_path r, part_identity (as_source r))) rs)" by (rule distinct_map_comp)
    then show ?thesis by (simp add: keyed_stage comp_def)
  qed
  have at: "row_at ?m k = map_option (\<lambda>x. if replaced ?xs x then demote_row now x else x) (find_row part_key k ?t)" for k
    by (simp add: row_at_def load_eligible_manifest(2) [OF assms] find_row_update_where)
  note look = upserts_lookup [OF dk, of _ now "next_generation m" "clickhouse_parts m"]
  show "live ?m (pr_path r) (part_identity (as_source r)) (source_values (as_source r))" if r: "r \<in> set rs"
  proof -
    let ?i = "part_identity (as_source r)" and ?v = "source_values (as_source r)"
    have rep: "replaced ?xs x \<longleftrightarrow> status x \<noteq> Retired \<and> j \<noteq> ?i" if "part_key x = (pr_path r, j)" for x j
      using replaced_stage [OF assms(2) r, of x] that by (auto simp: part_key_def)
    obtain x where x: "find_row part_key (pr_path r, ?i) ?t = Some x" "\<not> dead x" "row_values x = ?v"
      using upsert_staged_at [of "(pr_path r, ?i)" now "next_generation m" "clickhouse_parts m" ?v]
      by (auto simp: look keyed_stage_lookup [OF assms(2) r])
    then have "row_at ?m (pr_path r, ?i) = Some x"
      using rep [of x ?i] by (auto simp: at dest: find_row_SomeD)
    moreover have "dead y" if ne: "j \<noteq> ?i" and y: "row_at ?m (pr_path r, j) = Some y" for j y
    proof -
      from y obtain z where z: "find_row part_key (pr_path r, j) ?t = Some z"
          "y = (if replaced ?xs z then demote_row now z else z)"
        by (auto simp: at)
      then have "part_key z = (pr_path r, j)" by (auto dest: find_row_SomeD)
      with rep [of z j] ne z(2) show ?thesis by (auto simp: dead_def)
    qed
    ultimately show ?thesis using x by (auto simp: live_def)
  qed
  show "row_at ?m (p, i) = row_at m (p, i)" if "p \<notin> pr_path ` set rs"
  proof -
    have "part_key x = (p, i)" if "row_at m (p, i) = Some x" for x
      using that by (auto simp: row_at_def dest: find_row_SomeD)
    have "map_of (keyed ?xs) (p, i) = None" using \<open>p \<notin> pr_path ` set rs\<close> by (force simp: keyed_stage map_of_eq_None_iff)
    then have "find_row part_key (p, i) ?t = row_at m (p, i)" by (simp add: look row_at_def)
    moreover have "\<not> replaced ?xs x" if "part_key x = (p, i)" for x
      using replaced_path [of ?xs x] \<open>p \<notin> pr_path ` set rs\<close> that
      by (auto simp: part_key_def stage_row_def image_iff)
    ultimately show ?thesis
      using \<open>\<And>x. row_at m (p, i) = Some x \<Longrightarrow> part_key x = (p, i)\<close>
      by (cases "row_at m (p, i)") (simp_all add: at)
  qed
qed

section \<open>A full reconcile settles its window\<close>

lemma row_at_key: "row_at m k = Some r \<Longrightarrow> part_key r = k"
  by (auto simp: row_at_def dest: find_row_SomeD)

lemma staged_keys_stage: "staged_keys (map stage_row rs) = map (\<lambda>r. (pr_path r, part_identity (as_source r))) rs"
  by (simp add: staged_keys_def stage_row_def)

lemma reconcile_rows:
  assumes "manifest_ok m" "distinct (map pr_path rs)" "\<forall>r \<in> set rs. archived r"
  shows "row_at (snd (reconcile now (map as_source rs) a b src False preserve m)) k = row_at (snd (load_eligible now rs m)) k"
    and "row_at (snd (reconcile now (map as_source rs) a b src True preserve m)) k
      = map_option (\<lambda>r. if unseen (map stage_row rs) r
            then if a \<le> max_event_epoch_us r then sweep_row now r else age_out_row now r else r)
          (row_at (snd (load_eligible now rs m)) k)"
proof -
  have d: "distinct (map sp_path (map as_source rs))"
    using assms(2) by (simp add: part_identity_as_source comp_def)
  have keys: "distinct (map part_key (clickhouse_parts m))" using assms(1) by (simp add: manifest_ok_def table_ok_def)
  have stage: "stage_parts False a b 1 (map as_source rs) = \<lparr>source_count = int (length rs),
      eligible_count = int (length rs), batch = [], reconcile_parts = map stage_row rs\<rparr>"
  proof -
    have "filter (in_window False a b) (map as_source rs) = map as_source rs"
      by (rule filter_True) (simp add: in_window_def)
    moreover have "stage_flush (staged_of (map as_source rs)) [] = staged_of (map as_source rs)"
      using stage_flush_distinct [of "[]" "staged_of (map as_source rs)"] staged_distinct [OF d] by simp
    ultimately show ?thesis unfolding stage_parts_eq by (simp add: staged_of_archived [OF assms(3)])
  qed
  let ?t = "clickhouse_parts (snd (load_eligible now rs m))"
  have t: "update_where (replaced (map stage_row rs)) (demote_row now)
      (foldl (upsert_staged now (next_generation m)) (clickhouse_parts m) (map (\<lambda>(path, identity, v). ((path, identity), v)) (map stage_row rs))) = ?t"
    using load_eligible_manifest(2) [OF assms, of now] by (simp add: keyed_def)
  have e: "clickhouse_parts (snd (reconcile now (map as_source rs) a b src sweep preserve m)) = (if sweep
      then update_where (\<lambda>r. unseen (map stage_row rs) r \<and> max_event_epoch_us r < a) (age_out_row now)
        (update_where (\<lambda>r. unseen (map stage_row rs) r \<and> a \<le> max_event_epoch_us r) (sweep_row now) ?t) else ?t)" for sweep
    unfolding reconcile_unfiltered [OF keys d, of now a b src sweep preserve 1, symmetric] reconcile_streaming_def Let_def
      stage staging.simps t by simp
  show "row_at (snd (reconcile now (map as_source rs) a b src False preserve m)) k = row_at (snd (load_eligible now rs m)) k"
    by (simp add: row_at_def e)
  have "part_key (sweep_row now r) = part_key r" "part_key (age_out_row now r) = part_key r"
    "max_event_epoch_us (sweep_row now r) = max_event_epoch_us r" for r
    by (simp_all add: part_key_def sweep_row_def age_out_row_def unseen_def Let_def)
  then show "row_at (snd (reconcile now (map as_source rs) a b src True preserve m)) k
      = map_option (\<lambda>r. if unseen (map stage_row rs) r
            then if a \<le> max_event_epoch_us r then sweep_row now r else age_out_row now r else r)
          (row_at (snd (load_eligible now rs m)) k)"
    by (cases "find_row part_key k ?t") (auto simp: row_at_def e find_row_update_where)
qed

lemma reconcile_settles:
  assumes "manifest_ok m" "distinct (map pr_path rs)" "\<forall>r \<in> set rs. archived r"
  shows "r \<in> set rs \<Longrightarrow> live (snd (reconcile now (map as_source rs) a b src sweep preserve m)) (pr_path r)
      (part_identity (as_source r)) (source_values (as_source r))"
    and "p \<notin> pr_path ` set rs \<Longrightarrow> gone (snd (reconcile now (map as_source rs) a b src True preserve m)) p"
    and "p \<notin> pr_path ` set rs \<Longrightarrow>
      row_at (snd (reconcile now (map as_source rs) a b src False preserve m)) (p, i) = row_at m (p, i)"
proof -
  note rr = reconcile_rows [OF assms]
  have dead: "dead r \<Longrightarrow> dead (sweep_row now r)" "dead (age_out_row now r)" "status r = Retired \<Longrightarrow> dead r"
    "dead (sweep_row now r)" for r
    by (auto simp: dead_def sweep_row_def age_out_row_def Let_def)
  show "live (snd (reconcile now (map as_source rs) a b src sweep preserve m)) (pr_path r)
      (part_identity (as_source r)) (source_values (as_source r))" if r: "r \<in> set rs"
  proof -
    let ?i = "part_identity (as_source r)" and ?v = "source_values (as_source r)" and ?m = "snd (load_eligible now rs m)"
    have l: "live ?m (pr_path r) ?i ?v" by (rule load_eligible_settles(1) [OF assms r])
    have seen: "\<not> unseen (map stage_row rs) x" if "row_at ?m (pr_path r, ?i) = Some x" for x
      using row_at_key [OF that] r by (auto simp: unseen_def staged_keys_stage)
    show ?thesis
    proof (cases sweep)
      case True
      from l obtain x where x: "row_at ?m (pr_path r, ?i) = Some x" "\<not> dead x" "row_values x = ?v" by (auto simp: live_def)
      from l have others: "dead y" if "j \<noteq> ?i" "row_at ?m (pr_path r, j) = Some y" for j y using that by (auto simp: live_def)
      show ?thesis using x seen [OF x(1)] others dead True by (auto simp: live_def rr(2))
    qed (use l rr(1) in \<open>simp add: live_def\<close>)
  qed
  show "row_at (snd (reconcile now (map as_source rs) a b src False preserve m)) (p, i) = row_at m (p, i)"
    if "p \<notin> pr_path ` set rs"
    using load_eligible_settles(2) [OF assms that] rr(1) by simp
  show "gone (snd (reconcile now (map as_source rs) a b src True preserve m)) p" if p: "p \<notin> pr_path ` set rs"
  proof -
    have "unseen (map stage_row rs) x \<or> dead x" if "row_at (snd (load_eligible now rs m)) (p, i) = Some x" for i x
      using row_at_key [OF that] p dead(3) by (fastforce simp: unseen_def staged_keys_stage)
    then have "dead (if unseen (map stage_row rs) x then if a \<le> max_event_epoch_us x then sweep_row now x else age_out_row now x else x)"
      if "row_at (snd (load_eligible now rs m)) (p, i) = Some x" for i x
      using that dead(2,4) by auto
    then show ?thesis unfolding gone_def rr(2) map_option_eq_Some by blast
  qed
qed

lemma queue_missing_gone:
  assumes "p \<noteq> ''''"
  shows "gone (snd (queue_missing_paths now ps m)) p \<longleftrightarrow> p \<in> set ps \<or> gone m p"
    and "p \<notin> set ps \<Longrightarrow> row_at (snd (queue_missing_paths now ps m)) (p, i) = row_at m (p, i)"
proof -
  have at: "row_at (snd (queue_missing_paths now ps m)) (p, i)
      = map_option (\<lambda>r. if p \<in> set ps \<and> status r \<noteq> Retired then demote_row now r else r) (row_at m (p, i))" for i
  proof -
    have "part_path r = p" if "row_at m (p, i) = Some r" for r
      using that by (auto simp: row_at_def part_key_def dest!: find_row_SomeD)
    moreover have "row_at (snd (queue_missing_paths now ps m)) (p, i)
      = map_option (\<lambda>r. if part_path r \<in> set ps \<and> part_path r \<noteq> '''' \<and> status r \<noteq> Retired then demote_row now r else r) (row_at m (p, i))"
      by (simp add: row_at_def queue_missing_paths_eq Let_def find_row_update_where)
    ultimately show ?thesis using assms by (cases "row_at m (p, i)") auto
  qed
  show "gone (snd (queue_missing_paths now ps m)) p \<longleftrightarrow> p \<in> set ps \<or> gone m p"
  proof (cases "p \<in> set ps")
    case True
    have "dead (demote_row now r)" "status r = Retired \<Longrightarrow> dead r" for r by (simp_all add: dead_def)
    with True show ?thesis unfolding gone_def at by auto
  next
    case False
    then show ?thesis unfolding gone_def at by (auto simp: option.map_ident)
  qed
  show "row_at (snd (queue_missing_paths now ps m)) (p, i) = row_at m (p, i)" if "p \<notin> set ps"
    using that by (cases "row_at m (p, i)") (auto simp: at)
qed

section \<open>Worker operations keep the load view\<close>

lemma row_at_update:
  assumes "\<And>r. P r \<Longrightarrow> part_key (f r) = part_key r"
  shows "row_at (m\<lparr>clickhouse_parts := update_where P f (clickhouse_parts m)\<rparr>) k
    = map_option (\<lambda>r. if P r then f r else r) (row_at m k)"
  by (simp add: row_at_def find_row_update_where assms)

lemma load_view_update:
  assumes "\<And>r. P r \<Longrightarrow> part_key (f r) = part_key r"
    and "\<And>r. row_at m k = Some r \<Longrightarrow> P r \<Longrightarrow> dead (f r) = dead r \<and> row_values (f r) = row_values r"
  shows "load_view (m\<lparr>clickhouse_parts := update_where P f (clickhouse_parts m)\<rparr>) k = load_view m k"
  using assms(2) by (cases "row_at m k") (auto simp: load_view_def row_at_update [OF assms(1)])

lemma recover_loading_load_view: "load_view (snd (recover_loading now m)) k = load_view m k"
proof -
  let ?f = "\<lambda>st e r. r\<lparr>status := st, next_retry_us := 0, last_error := e, updated_at_us := now\<rparr>"
  define m1 where "m1 = m\<lparr>clickhouse_parts := update_where (\<lambda>r. status r = Loading)
      (?f Pending RESTARTED_LOAD) (clickhouse_parts m)\<rparr>"
  have "load_view m1 k = load_view m k"
    unfolding m1_def by (rule load_view_update) (auto simp: dead_def row_values_def)
  moreover have "snd (recover_loading now m) = m1\<lparr>clickhouse_parts := update_where (\<lambda>r. status r = Deleting)
      (?f DeletePending RESTARTED_DELETE) (clickhouse_parts m1)\<rparr>"
    by (simp add: recover_loading_def Let_def m1_def)
  moreover have "load_view (m1\<lparr>clickhouse_parts := update_where (\<lambda>r. status r = Deleting)
      (?f DeletePending RESTARTED_DELETE) (clickhouse_parts m1)\<rparr>) k = load_view m1 k"
    by (rule load_view_update) (auto simp: dead_def row_values_def)
  ultimately show ?thesis by simp
qed

lemma claim_next_load_view:
  assumes "manifest_ok m" "claim_next now newest m = Some (j, m')"
  shows "load_view m' k = load_view m k"
    and "row_at m' (part_key (job_row j)) = Some ((job_row j)\<lparr>status :=
           (if job_kind j = DeleteJob then Deleting else Loading), updated_at_us := now\<rparr>)"
proof -
  note c = claim_next_row [OF assms(2)]
  have "distinct (map part_key (clickhouse_parts m))" using assms(1) by (simp add: manifest_ok_def table_ok_def)
  then have row: "row_at m (part_key (job_row j)) = Some (job_row j)" using c(1) by (simp add: row_at_def)
  let ?st = "if job_kind j = DeleteJob then Deleting else Loading"
  let ?P = "\<lambda>r. part_key r = part_key (job_row j) \<and> status r = status (job_row j)"
  let ?f = "\<lambda>r. r\<lparr>status := ?st, updated_at_us := now\<rparr>"
  have m': "m' = m\<lparr>clickhouse_parts := update_where ?P ?f (clickhouse_parts m)\<rparr>"
    and kind: "job_kind j = (if status (job_row j) \<in> {DeletePending, DeleteFailed} then DeleteJob else LoadJob)"
    by (fact c(3), fact c(4))
  have cl: "claimable now (job_row j)" by (rule c(2))
  show "load_view m' k = load_view m k"
    unfolding m'
  proof (rule load_view_update)
    fix r assume "row_at m k = Some r" "?P r"
    then show "dead (?f r) = dead r \<and> row_values (?f r) = row_values r"
      using kind cl by (auto simp: dead_def row_values_def claimable_def)
  qed simp
  show "row_at m' (part_key (job_row j)) = Some ((job_row j)\<lparr>status := ?st, updated_at_us := now\<rparr>)"
    unfolding m' by (subst row_at_update) (simp_all add: row)
qed

lemma mark_load_view:
  assumes "row_at m (p, i) = Some r" "status r = (if job_kind j = DeleteJob then Deleting else Loading)"
  shows "load_view (snd (release_pending now p i why d m)) k = load_view m k"
    and "load_view (snd (mark_failed now p i e m)) k = load_view m k"
    and "load_view (snd (mark_ready now p i n m)) k = load_view m k"
    and "job_kind j = DeleteJob \<Longrightarrow> load_view (snd (mark_retired now p i m)) k = load_view m k"
proof -
  have at: "find_row part_key (p, i) (clickhouse_parts m) = Some r" using assms(1) by (simp add: row_at_def)
  have same: "x = r" if "row_at m k = Some x" "part_key x = (p, i)" for x
    using row_at_key [OF that(1)] that assms(1) by simp
  show "load_view (snd (release_pending now p i why d m)) k = load_view m k"
    unfolding release_pending_def at option.case Let_def snd_conv
    by (rule load_view_update) (use same assms(2) in \<open>auto simp: dead_def row_values_def split: if_splits\<close>)
  show "load_view (snd (mark_failed now p i e m)) k = load_view m k"
    unfolding mark_failed_def at option.case Let_def snd_conv
    by (rule load_view_update) (use same assms(2) in \<open>auto simp: dead_def row_values_def split: if_splits\<close>)
  show "load_view (snd (mark_ready now p i n m)) k = load_view m k"
    unfolding mark_ready_def Let_def snd_conv
    by (rule load_view_update) (auto simp: dead_def row_values_def)
  show "load_view (snd (mark_retired now p i m)) k = load_view m k" if "job_kind j = DeleteJob"
    unfolding mark_retired_def Let_def snd_conv
    by (rule load_view_update) (use same assms(2) that in \<open>auto simp: dead_def row_values_def\<close>)
qed

lemma mark_retired_load_view:
  "k \<noteq> (p, i) \<Longrightarrow> load_view (snd (mark_retired now p i m)) k = load_view m k"
  "load_view (snd (mark_retired now p i m)) (p, i) = map_option (\<lambda>x. (True, snd x)) (load_view m (p, i))"
proof -
  let ?f = "\<lambda>r. r\<lparr>status := Retired, next_retry_us := 0, inserted_rows := 0, last_error := '''', updated_at_us := now\<rparr>"
  have at: "row_at (snd (mark_retired now p i m)) k = map_option (\<lambda>r. if part_key r = (p, i) then ?f r else r) (row_at m k)" for k
    unfolding mark_retired_def Let_def snd_conv by (rule row_at_update) simp
  show "load_view (snd (mark_retired now p i m)) k = load_view m k" if "k \<noteq> (p, i)"
    using that row_at_key [of m k] by (cases "row_at m k") (simp_all add: load_view_def at)
  show "load_view (snd (mark_retired now p i m)) (p, i) = map_option (\<lambda>x. (True, snd x)) (load_view m (p, i))"
    using row_at_key [of m "(p, i)"]
    by (cases "row_at m (p, i)") (simp_all add: load_view_def at dead_def row_values_def)
qed

section \<open>The hand-over system\<close>

text \<open>
  What the ingester process is doing. It runs one activity at a time (it holds the worker lock):
  the hand-over routine between two of its commits, the periodic reconcile of \<open>reconcile_once\<close> between
  reading the parts of its window (\<open>Scanned\<close>), the commit of the manifest and the mark of a complete
  pass (\<open>Swept\<close>), or a claimed job. \<open>Stale\<close> is a load job whose part was found deleted or changed at the
  source and is about to be retired.
\<close>

datatype activity = Idle | HandOver "change list" | Loaded "change list" | Queued "change list"
  | Scanned bool int int "part_row list" | Swept | Working job | Stale job

type_synonym hand_over_state = "source_store \<times> manifest \<times> activity"

abbreviation job_path :: "job \<Rightarrow> string" where "job_path j \<equiv> part_path (job_row j)"
abbreviation job_id :: "job \<Rightarrow> string" where "job_id j \<equiv> logical_part_id (job_row j)"

text \<open>The check of \<open>ingest_one\<close>: the source no longer has this identity at the path.\<close>

definition source_changed :: "source_store \<Rightarrow> job \<Rightarrow> bool" where
  "source_changed S j \<longleftrightarrow> (case part_of S (job_path j) of None \<Rightarrow> True
     | Some r \<Rightarrow> part_identity (as_source r) \<noteq> job_id j)"

text \<open>
  What a full reconcile relies on: the start of the history window does not move back, the visible parts fit
  the page of \<open>parts_in_range\<close>, and no visible part that is not pending begins after the end of the window,
  the clock reading taken before the parts are read.
\<close>

definition sweep_fits :: "source_store \<Rightarrow> manifest \<Rightarrow> int \<Rightarrow> int \<Rightarrow> bool" where
  "sweep_fits S m start_us end_us \<longleftrightarrow> state_field start_epoch_us m \<le> start_us
     \<and> length (filter (database_part S) (parquet_parts S)) \<le> PARTS_IN_RANGE_LIMIT
     \<and> (\<forall>r \<in> set (filter (database_part S) (parquet_parts S)).
          pending_version S (pr_path r) = None \<longrightarrow> pr_min_event_epoch_us r \<le> end_us)"

text \<open>
  The steps. A full reconcile sweeps the rows it did not see and writes its window into the reconcile state;
  an incremental one does neither. When every part of the window of a full pass is archived the pass marks
  the change tracking complete, in a commit of its own.
\<close>

inductive system_step :: "hand_over_state \<Rightarrow> hand_over_state \<Rightarrow> bool" where
  mutate: "source_step S S' \<Longrightarrow> tracking_complete S' = tracking_complete S \<Longrightarrow> system_step (S, m, a) (S', m, a)"
| scan: "full \<longrightarrow> sweep_fits S m start_us end_us \<Longrightarrow> system_step (S, m, Idle)
    (S, m, Scanned full start_us end_us (database_parts_in_range start_us end_us PARTS_IN_RANGE_LIMIT S))"
| reconcile: "system_step (S, m, Scanned full start_us end_us ps)
    (S, snd (reconcile now (map as_source (filter archived ps)) start_us end_us (Some (int (length ps))) full (\<not> full) m),
     if full \<and> length (filter archived ps) = length ps then Swept else Idle)"
| complete: "system_step (S, m, Swept) (mark_clickhouse_change_tracking_complete S, m, Idle)"
| reconcile_failed: "system_step (S, m, a) (S, record_reconcile_error e m, Idle)"
| read: "system_step (S, m, Idle) (S, m, HandOver (pending_clickhouse_changes limit S))"
| load: "system_step (S, m, HandOver cs)
    (S, snd (load_eligible now (eligible (classify_changes cs)) m), Loaded cs)"
| queue: "system_step (S, m, Loaded cs)
    (S, snd (queue_missing_paths now (removed (classify_changes cs)) m), Queued cs)"
| ack: "system_step (S, m, Queued cs)
    (snd (ack_clickhouse_changes (acknowledgements (classify_changes cs)) S), m, Idle)"
| crash: "system_step (S, m, a) (S, m, Idle)"
| recover: "system_step (S, m, Idle) (S, snd (recover_loading now m), Idle)"
| claim: "claim_next now newest m = Some (j, m') \<Longrightarrow> system_step (S, m, Idle) (S, m', Working j)"
| ready: "job_kind j = LoadJob \<Longrightarrow>
    system_step (S, m, Working j) (S, snd (mark_ready now (job_path j) (job_id j) n m), Idle)"
| deleted: "job_kind j = DeleteJob \<Longrightarrow>
    system_step (S, m, Working j) (S, snd (mark_retired now (job_path j) (job_id j) m), Idle)"
| release: "system_step (S, m, Working j)
    (S, snd (release_pending now (job_path j) (job_id j) why d m), Idle)"
| fail: "system_step (S, m, Working j) (S, snd (mark_failed now (job_path j) (job_id j) e m), Idle)"
| stale: "job_kind j = LoadJob \<Longrightarrow> source_changed S j \<Longrightarrow>
    system_step (S, m, Working j) (S, m, Stale j)"
| retire: "system_step (S, m, Stale j) (S, snd (mark_retired now (job_path j) (job_id j) m), Idle)"

section \<open>The invariant of the hand-over\<close>

text \<open>
  A page read earlier is still good for acknowledging: each of its paths is still pending, and as
  long as it is pending under the version read, the source shows what was read.
\<close>

definition snapshot :: "source_store \<Rightarrow> change list \<Rightarrow> bool" where
  "snapshot S cs \<longleftrightarrow> distinct (map ch_path cs) \<and> (\<forall>c \<in> set cs. ch_path c \<noteq> ''''
     \<and> ch_version c \<le> next_change_version S \<and> pending_version S (ch_path c) \<noteq> None
     \<and> (pending_version S (ch_path c) = Some (ch_version c) \<longrightarrow> view S (ch_path c) = change_view c)
     \<and> (\<forall>r. change_view c = Some r \<longrightarrow> pr_path r = ch_path c))"

definition claimed_row :: "manifest \<Rightarrow> job \<Rightarrow> bool" where
  "claimed_row m j \<longleftrightarrow> (\<exists>r. row_at m (job_path j, job_id j) = Some r
     \<and> status r = (if job_kind j = DeleteJob then Deleting else Loading))"

definition not_current :: "source_store \<Rightarrow> job \<Rightarrow> bool" where
  "not_current S j \<longleftrightarrow> pending_version S (job_path j) \<noteq> None
     \<or> (\<forall>r. view S (job_path j) = Some r \<longrightarrow> part_identity (as_source r) \<noteq> job_id j)"

definition loaded_live :: "manifest \<Rightarrow> change list \<Rightarrow> bool" where
  "loaded_live m cs \<longleftrightarrow> (\<forall>c \<in> set cs. \<forall>r. change_view c = Some r \<longrightarrow> archived r \<longrightarrow>
     live m (ch_path c) (part_identity (as_source r)) (source_values (as_source r)))"

definition all_settled :: "manifest \<Rightarrow> change list \<Rightarrow> bool" where
  "all_settled m cs \<longleftrightarrow> (\<forall>c \<in> set cs. settles c \<longrightarrow> settled (change_view c) m (ch_path c))"

text \<open>A path without pending work is settled, or its part ended before the history window and was aged out.\<close>

definition quiet_at :: "source_store \<Rightarrow> manifest \<Rightarrow> string \<Rightarrow> bool" where
  "quiet_at S m p \<longleftrightarrow> settled (view S p) m p
     \<or> (\<exists>r. view S p = Some r \<and> pr_max_event_epoch_us r < state_field start_epoch_us m \<and> gone m p)"

definition quiet_settled :: "source_store \<Rightarrow> manifest \<Rightarrow> bool" where
  "quiet_settled S m \<longleftrightarrow> (\<forall>p. p \<noteq> '''' \<longrightarrow> pending_version S p = None \<longrightarrow> quiet_at S m p)"

text \<open>The parts read by a reconcile: what the source shows of every path that has no pending change.\<close>

definition scanned :: "source_store \<Rightarrow> bool \<Rightarrow> int \<Rightarrow> part_row list \<Rightarrow> bool" where
  "scanned S full start_us ps \<longleftrightarrow> distinct (map pr_path ps)
     \<and> (\<forall>p. pending_version S p = None \<longrightarrow> (\<forall>r \<in> set ps. pr_path r = p \<longrightarrow> view S p = Some r)
          \<and> (full \<longrightarrow> (\<forall>r. view S p = Some r \<longrightarrow> start_us \<le> pr_max_event_epoch_us r \<longrightarrow> r \<in> set ps)))"

primrec activity_inv :: "source_store \<Rightarrow> manifest \<Rightarrow> activity \<Rightarrow> bool" where
  "activity_inv S m Idle = True"
| "activity_inv S m (HandOver cs) = snapshot S cs"
| "activity_inv S m (Loaded cs) = (snapshot S cs \<and> loaded_live m cs)"
| "activity_inv S m (Queued cs) = (snapshot S cs \<and> all_settled m cs)"
| "activity_inv S m (Scanned full start_us end_us ps) =
     (scanned S full start_us ps \<and> (full \<longrightarrow> state_field start_epoch_us m \<le> start_us))"
| "activity_inv S m Swept = quiet_settled S m"
| "activity_inv S m (Working j) = claimed_row m j"
| "activity_inv S m (Stale j) = (claimed_row m j \<and> not_current S j)"

text \<open>The invariant promises settled paths once a full pass has marked the tracking complete.\<close>

definition system_inv :: "hand_over_state \<Rightarrow> bool" where
  "system_inv s = (case s of (S, m, a) \<Rightarrow> store_ok S \<and> manifest_ok m \<and> state m \<noteq> None
     \<and> (tracking_complete S \<longrightarrow> quiet_settled S m) \<and> activity_inv S m a)"

lemma tracks_quiet: "tracks S S' \<Longrightarrow> pending_version S' p = None \<Longrightarrow> view S' p = view S p \<and> pending_version S p = None"
  unfolding tracks_def by (metis option.distinct(1))

lemma tracks_snapshot: "tracks S S' \<Longrightarrow> snapshot S cs \<Longrightarrow> snapshot S' cs"
  unfolding snapshot_def tracks_def by (smt (verit) option.sel option.distinct(1))

lemma tracks_not_current: "tracks S S' \<Longrightarrow> not_current S j \<Longrightarrow> not_current S' j"
  unfolding not_current_def by (metis tracks_quiet)

lemma tracks_scanned: "tracks S S' \<Longrightarrow> scanned S full start_us ps \<Longrightarrow> scanned S' full start_us ps"
  using tracks_quiet [of S S'] by (auto simp: scanned_def)

lemma tracks_quiet_settled: "tracks S S' \<Longrightarrow> quiet_settled S m \<Longrightarrow> quiet_settled S' m"
  using tracks_quiet [of S S'] by (auto simp: quiet_settled_def quiet_at_def)

lemma tracks_activity: "tracks S S' \<Longrightarrow> activity_inv S m a \<Longrightarrow> activity_inv S' m a"
  by (cases a) (auto intro: tracks_snapshot tracks_not_current tracks_scanned tracks_quiet_settled)

lemma view_path: "view S p = Some r \<Longrightarrow> pr_path r = p \<and> part_of S p = Some r"
  by (auto simp: view_def part_of_def split: option.splits if_splits dest: find_row_SomeD)

lemma change_view_join: "change_view (join_change S q) = view S (q_path q)"
  by (auto simp: change_view_def current_database_part_def join_change_def Let_def view_def split: option.splits)

lemma snapshot_read:
  assumes "store_ok S"
  shows "snapshot S (pending_clickhouse_changes limit S)"
proof -
  have "ch_path c \<noteq> '''' \<and> ch_version c \<le> next_change_version S \<and> pending_version S (ch_path c) = Some (ch_version c)
      \<and> view S (ch_path c) = change_view c" if c: "c \<in> set (pending_clickhouse_changes limit S)" for c
  proof -
    obtain q where q: "q \<in> set (clickhouse_pending S)" "c = join_change S q"
      using pending_page(2) [OF assms c] by blast
    then show ?thesis
      using store_okD(7,8) [OF assms q(1)] pending_version_iff [OF assms, of "q_path q" "change_version q"]
      by (auto simp: change_view_join)
  qed
  moreover have "pr_path r = ch_path c" if "c \<in> set (pending_clickhouse_changes limit S)" "change_view c = Some r" for c r
    using calculation [OF that(1)] that(2) view_path by metis
  ultimately show ?thesis using pending_page(1) [OF assms] unfolding snapshot_def by simp
qed

lemma quiet_at_cong:
  assumes "\<And>i. load_view m' (p, i) = load_view m (p, i)" "state_field start_epoch_us m' = state_field start_epoch_us m"
  shows "quiet_at S m' p = quiet_at S m p"
  using settled_cong [of m' p m] assms by (simp add: quiet_at_def gone_load_view)

lemma quiet_settled_cong:
  assumes "\<And>p i. pending_version S p = None \<Longrightarrow> p \<noteq> '''' \<Longrightarrow> load_view m' (p, i) = load_view m (p, i)"
    "state_field start_epoch_us m' = state_field start_epoch_us m"
  shows "quiet_settled S m \<Longrightarrow> quiet_settled S m'"
  using assms quiet_at_cong unfolding quiet_settled_def by blast

lemma snapshot_pending: "snapshot S cs \<Longrightarrow> c \<in> set cs \<Longrightarrow> pending_version S (ch_path c) \<noteq> None"
  by (auto simp: snapshot_def)

lemma in_map_filter: "x \<in> set (List.map_filter f xs) \<longleftrightarrow> (\<exists>y \<in> set xs. f y = Some x)"
  by (force simp: List.map_filter_def)

lemma snapshot_paths:
  assumes "snapshot S cs"
  shows "distinct (map pr_path (eligible (classify_changes cs)))"
    and "r \<in> set (eligible (classify_changes cs)) \<longleftrightarrow> (\<exists>c \<in> set cs. change_view c = Some r \<and> archived r)"
    and "r \<in> set (eligible (classify_changes cs)) \<Longrightarrow> \<exists>c \<in> set cs. ch_path c = pr_path r"
proof -
  have "map pr_path (List.map_filter change_view ds) = map ch_path (filter (\<lambda>c. change_view c \<noteq> None) ds)"
    if "\<forall>c \<in> set ds. \<forall>r. change_view c = Some r \<longrightarrow> pr_path r = ch_path c" for ds
    using that by (induction ds) (auto simp: List.map_filter_def)
  then have "distinct (map pr_path (List.map_filter change_view cs))"
    using assms by (auto simp: snapshot_def distinct_map_filter)
  then show "distinct (map pr_path (eligible (classify_changes cs)))"
    by (simp add: classify_changes_eq distinct_map_filter)
  show *: "r \<in> set (eligible (classify_changes cs)) \<longleftrightarrow> (\<exists>c \<in> set cs. change_view c = Some r \<and> archived r)"
    by (auto simp: classify_changes_eq in_map_filter)
  show "\<exists>c \<in> set cs. ch_path c = pr_path r" if "r \<in> set (eligible (classify_changes cs))"
    using that assms unfolding * by (auto simp: snapshot_def)
qed

lemma load_step:
  assumes "system_inv (S, m, HandOver cs)"
  shows "system_inv (S, snd (load_eligible now (eligible (classify_changes cs)) m), Loaded cs)"
proof -
  let ?rs = "eligible (classify_changes cs)"
  from assms have ok: "manifest_ok m" and sn: "snapshot S cs"
    by (simp_all add: system_inv_def)
  have arch: "\<forall>r \<in> set ?rs. archived r" using snapshot_paths(2) [OF sn] by blast
  note le = load_eligible_settles [OF ok snapshot_paths(1) [OF sn] arch]
  have "quiet_settled S m \<Longrightarrow> quiet_settled S (snd (load_eligible now ?rs m))"
  proof (erule quiet_settled_cong [rotated 2])
    fix p i assume "pending_version S p = None"
    then have "p \<notin> pr_path ` set ?rs"
      using snapshot_paths(3) [OF sn] snapshot_pending [OF sn] by force
    then show "load_view (snd (load_eligible now ?rs m)) (p, i) = load_view m (p, i)"
      by (simp add: load_view_def le(2))
  qed (rule load_eligible_state(2))
  moreover have "loaded_live (snd (load_eligible now ?rs m)) cs"
  proof -
    have "live (snd (load_eligible now ?rs m)) (ch_path c) (part_identity (as_source r)) (source_values (as_source r))"
      if c: "c \<in> set cs" "change_view c = Some r" "archived r" for c r
    proof -
      have "r \<in> set ?rs" using snapshot_paths(2) [OF sn] c by blast
      moreover have "pr_path r = ch_path c" using sn c by (auto simp: snapshot_def)
      ultimately show ?thesis using le(1) by metis
    qed
    then show ?thesis by (simp add: loaded_live_def)
  qed
  ultimately show ?thesis
    using assms load_eligible_manifest(1) [OF ok snapshot_paths(1) [OF sn] arch]
    by (simp add: system_inv_def load_eligible_state(1) del: not_None_eq)
qed

lemma removed_iff:
  assumes "snapshot S cs" "c \<in> set cs"
  shows "ch_path c \<in> set (removed (classify_changes cs)) \<longleftrightarrow> change_view c = None"
proof -
  have "c' = c" if "c' \<in> set cs" "ch_path c' = ch_path c" for c'
    using distinct_key_unique [of ch_path cs] assms that by (simp add: snapshot_def)
  then show ?thesis using assms(2) by (auto simp: classify_changes_eq)
qed

lemma queue_step:
  assumes "system_inv (S, m, Loaded cs)"
  shows "system_inv (S, snd (queue_missing_paths now (removed (classify_changes cs)) m), Queued cs)"
proof -
  let ?ps = "removed (classify_changes cs)"
  let ?m = "snd (queue_missing_paths now ?ps m)"
  from assms have ok: "manifest_ok m" and sn: "snapshot S cs" and lv: "loaded_live m cs"
    by (simp_all add: system_inv_def)
  have "quiet_settled S m \<Longrightarrow> quiet_settled S ?m"
  proof (erule quiet_settled_cong [rotated 2])
    fix p i assume p: "pending_version S p = None" "p \<noteq> ''''"
    then have "p \<notin> set ?ps"
      using snapshot_pending [OF sn] by (fastforce simp: classify_changes_eq)
    with p(2) show "load_view ?m (p, i) = load_view m (p, i)"
      by (simp add: load_view_def queue_missing_gone(2))
  qed (simp add: queue_missing_paths_eq state_field_def Let_def)
  moreover have "state ?m = state m" by (simp add: queue_missing_paths_eq Let_def)
  moreover have "all_settled ?m cs"
  proof -
    have "settled (change_view c) ?m (ch_path c)" if c: "c \<in> set cs" "settles c" for c
    proof (cases "change_view c")
      case None
      then have "ch_path c \<in> set ?ps" using removed_iff [OF sn c(1)] by simp
      moreover have "ch_path c \<noteq> ''''" using sn c(1) by (simp add: snapshot_def)
      ultimately show ?thesis using None by (simp add: settled_def queue_missing_gone(1))
    next
      case (Some r)
      then have "ch_path c \<notin> set ?ps" using removed_iff [OF sn c(1)] by simp
      moreover have "ch_path c \<noteq> ''''" using sn c(1) by (simp add: snapshot_def)
      ultimately have "settled (change_view c) ?m (ch_path c) = settled (change_view c) m (ch_path c)"
        by (intro settled_cong) (simp add: load_view_def queue_missing_gone(2))
      moreover have "archived r" using c(2) Some by (simp add: settles_def)
      ultimately show ?thesis using lv c(1) Some by (simp add: settled_def loaded_live_def)
    qed
    then show ?thesis by (simp add: all_settled_def)
  qed
  ultimately show ?thesis using assms queue_missing_paths_ok [OF ok] by (simp add: system_inv_def)
qed

lemma ack_tracking [simp]: "tracking_complete (snd (ack_clickhouse_changes acks S)) = tracking_complete S"
proof -
  have "tracking_complete (snd (foldl (\<lambda>(n, S) (path, v).
       (n + count_where (\<lambda>q. q_path q = path \<and> change_version q = v) (clickhouse_pending S),
        S\<lparr>clickhouse_pending := filter (\<lambda>q. \<not> (q_path q = path \<and> change_version q = v)) (clickhouse_pending S)\<rparr>))
       (n, S) acks)) = tracking_complete S" for n
    by (induction acks arbitrary: n S) auto
  then show ?thesis by (simp add: ack_clickhouse_changes_def)
qed

text \<open>An acknowledged path is settled: the page showed what the source still shows.\<close>

lemma acked_settled:
  assumes "store_ok S" "snapshot S cs" "all_settled m cs" "pending_version S p = Some v"
    "pending_version (snd (ack_clickhouse_changes (acknowledgements (classify_changes cs)) S)) p = None"
  shows "settled (view (snd (ack_clickhouse_changes (acknowledgements (classify_changes cs)) S)) p) m p"
proof -
  let ?acks = "acknowledgements (classify_changes cs)"
  note a = ack_clickhouse_changes_ok [OF assms(1), of ?acks]
  with assms(4,5) have "(p, v) \<in> set ?acks" by (auto split: if_splits)
  then obtain c where c: "c \<in> set cs" "settles c" "p = ch_path c" "v = ch_version c"
    by (auto simp: classify_changes_eq)
  then have "view S p = change_view c" using assms(2,4) by (simp add: snapshot_def)
  then show ?thesis using assms(3) c a by (simp add: all_settled_def)
qed

lemma ack_step:
  assumes "system_inv (S, m, Queued cs)"
  shows "system_inv (snd (ack_clickhouse_changes (acknowledgements (classify_changes cs)) S), m, Idle)"
proof -
  let ?acks = "acknowledgements (classify_changes cs)"
  let ?S = "snd (ack_clickhouse_changes ?acks S)"
  from assms have ok: "store_ok S" and sn: "snapshot S cs" and all: "all_settled m cs"
    by (simp_all add: system_inv_def)
  note a = ack_clickhouse_changes_ok [OF ok, of ?acks]
  have "quiet_at ?S m p" if p: "p \<noteq> ''''" "pending_version ?S p = None" "quiet_settled S m" for p
  proof (cases "pending_version S p")
    case None
    then show ?thesis using p a by (simp add: quiet_settled_def quiet_at_def)
  next
    case (Some v)
    then show ?thesis using acked_settled [OF ok sn all Some p(2)] by (simp add: quiet_at_def)
  qed
  then show ?thesis using assms a ack_tracking by (simp add: system_inv_def quiet_settled_def)
qed

lemma worker_step:
  assumes "system_inv (S, m, a)" "manifest_ok m'" "\<And>k. load_view m' k = load_view m k" "state m' = state m"
  shows "system_inv (S, m', Idle)"
  using assms quiet_settled_cong [of S m' m] by (simp add: system_inv_def state_field_def)

lemma job_state:
  "state (snd (recover_loading now m)) = state m" "state (snd (mark_ready now p i n m)) = state m"
  "state (snd (mark_retired now p i m)) = state m" "state (snd (release_pending now p i why d m)) = state m"
  "state (snd (mark_failed now p i e m)) = state m"
  "claim_next now newest m = Some (j, m') \<Longrightarrow> state m' = state m"
proof -
  show "state m' = state m" if "claim_next now newest m = Some (j, m')"
    using arg_cong [OF claim_next_row(3) [OF that], of state] by simp
qed (auto simp: recover_loading_def mark_ready_def mark_retired_def release_pending_def mark_failed_def Let_def
      split: option.splits)

text \<open>The steps of a reconcile.\<close>

lemma scan_step:
  assumes "system_inv (S, m, Idle)" "full \<longrightarrow> sweep_fits S m start_us end_us"
  shows "system_inv (S, m, Scanned full start_us end_us (database_parts_in_range start_us end_us PARTS_IN_RANGE_LIMIT S))"
proof -
  have ok: "store_ok S" using assms(1) by (simp add: system_inv_def)
  note range = view_in_range [OF ok, where a = start_us and b = end_us and n = PARTS_IN_RANGE_LIMIT]
  have "pr_min_event_epoch_us r \<le> end_us" if "full" "view S p = Some r" "pending_version S p = None" for p r
  proof -
    have "r \<in> set (filter (database_part S) (parquet_parts S))"
      using that(2) by (auto simp: view_eq [OF ok] part_of_def database_part_def split: option.splits if_splits dest: find_row_SomeD)
    moreover have "sweep_fits S m start_us end_us" using assms(2) that(1) by blast
    ultimately show ?thesis using view_path [OF that(2)] that(3) unfolding sweep_fits_def by blast
  qed
  moreover have "full \<Longrightarrow> length (filter (database_part S) (parquet_parts S)) \<le> PARTS_IN_RANGE_LIMIT"
    "full \<Longrightarrow> state_field start_epoch_us m \<le> start_us" using assms(2) unfolding sweep_fits_def by blast+
  ultimately have "scanned S full start_us (database_parts_in_range start_us end_us PARTS_IN_RANGE_LIMIT S)"
    unfolding scanned_def using range by blast
  with assms show ?thesis by (simp add: system_inv_def sweep_fits_def)
qed

lemma reconcile_quiet:
  fixes now start_us end_us :: int and src :: "int option"
  assumes "manifest_ok m" "state m \<noteq> None" "scanned S full start_us ps" "p \<noteq> ''''" "pending_version S p = None"
  defines "m' \<equiv> snd (reconcile now (map as_source (filter archived ps)) start_us end_us src full (\<not> full) m)"
  shows "full \<Longrightarrow> \<forall>r \<in> set ps. archived r \<Longrightarrow> quiet_at S m' p"
    and "\<not> full \<Longrightarrow> quiet_at S m p \<Longrightarrow> quiet_at S m' p"
    and "full \<Longrightarrow> state_field start_epoch_us m \<le> start_us \<Longrightarrow> quiet_at S m p \<Longrightarrow> quiet_at S m' p"
proof -
  let ?rs = "filter archived ps"
  have rs: "distinct (map pr_path ?rs)" "\<forall>r \<in> set ?rs. archived r"
    using assms(3) by (simp_all add: scanned_def distinct_map_filter)
  have seen: "view S p = Some r" if "r \<in> set ps" "pr_path r = p" for r
    using assms(3,5) that unfolding scanned_def by blast
  have found: "r \<in> set ps" if "full" "view S p = Some r" "start_us \<le> pr_max_event_epoch_us r" for r
    using assms(3,5) that unfolding scanned_def by blast
  have start: "state_field start_epoch_us m' = (if full then start_us else state_field start_epoch_us m)"
  proof -
    obtain s where "state m = Some s" using assms(2) by blast
    then show ?thesis by (simp add: m'_def reconcile_def Let_def case_prod_beta write_state_def state_field_def)
  qed
  have in_live: "quiet_at S m' p" if "r \<in> set ?rs" "pr_path r = p" for r
  proof -
    have "live m' p (part_identity (as_source r)) (source_values (as_source r))"
      using reconcile_settles(1) [OF assms(1) rs that(1)] that(2) unfolding m'_def by blast
    moreover have "view S p = Some r" "archived r" using that seen by simp_all
    ultimately show ?thesis by (simp add: quiet_at_def settled_def)
  qed
  have swept: "gone m' p" if "full" "p \<notin> pr_path ` set ?rs"
    using reconcile_settles(2) [OF assms(1) rs that(2)] that(1) unfolding m'_def by simp
  have kept: "load_view m' (p, i) = load_view m (p, i)" if "\<not> full" "p \<notin> pr_path ` set ?rs" for i
    using reconcile_settles(3) [OF assms(1) rs that(2)] that(1) unfolding m'_def by (simp add: load_view_def)
  have full_case: "quiet_at S m' p" if f: "full" and arch: "\<And>r. view S p = Some r \<Longrightarrow> r \<in> set ps \<Longrightarrow> archived r"
  proof (cases "p \<in> pr_path ` set ?rs")
    case True
    then show ?thesis using in_live by blast
  next
    case False
    have "pr_max_event_epoch_us r < start_us" if "view S p = Some r" for r
      using found [OF f that] arch [OF that] False view_path [OF that] by fastforce
    then show ?thesis using swept [OF f False] start f by (cases "view S p") (simp_all add: quiet_at_def settled_def)
  qed
  show "quiet_at S m' p" if "full" "\<forall>r \<in> set ps. archived r" using full_case that by blast
  show "quiet_at S m' p" if f: "full" and s: "state_field start_epoch_us m \<le> start_us" and q: "quiet_at S m p"
  proof (cases "view S p")
    case None
    then show ?thesis using full_case [OF f] by simp
  next
    case (Some r)
    show ?thesis
    proof (cases "archived r")
      case True
      then show ?thesis using full_case [OF f] Some by simp
    next
      case False
      with q Some have "pr_max_event_epoch_us r < start_us" using s by (simp add: quiet_at_def settled_def)
      moreover have "p \<notin> pr_path ` set ?rs" using False seen Some by force
      ultimately show ?thesis using Some swept [OF f] start f by (simp add: quiet_at_def)
    qed
  qed
  show "quiet_at S m' p" if f: "\<not> full" and q: "quiet_at S m p"
  proof (cases "p \<in> pr_path ` set ?rs")
    case True
    then show ?thesis using in_live by blast
  next
    case False
    then show ?thesis using quiet_at_cong [of m' p m S] kept [OF f] start f q by simp
  qed
qed

lemma reconcile_step:
  assumes "system_inv (S, m, Scanned full start_us end_us ps)"
  shows "system_inv (S, snd (reconcile now (map as_source (filter archived ps)) start_us end_us src full (\<not> full) m),
     if full \<and> length (filter archived ps) = length ps then Swept else Idle)"
proof -
  let ?m = "snd (reconcile now (map as_source (filter archived ps)) start_us end_us src full (\<not> full) m)"
  from assms have inv: "store_ok S" "manifest_ok m" "state m \<noteq> None" "scanned S full start_us ps"
      "full \<Longrightarrow> state_field start_epoch_us m \<le> start_us" "tracking_complete S \<Longrightarrow> quiet_settled S m"
    by (simp_all add: system_inv_def)
  have "manifest_ok ?m" by (rule reconcile_ok [OF inv(2)])
  moreover have "state ?m \<noteq> None" using inv(3) by (simp add: reconcile_def Let_def case_prod_beta write_state_def)
  moreover have "quiet_settled S ?m" if "tracking_complete S"
    using inv(6) [OF that] reconcile_quiet(2,3) [OF inv(2-4)] inv(5) unfolding quiet_settled_def by (cases full) simp_all
  moreover have "quiet_settled S ?m" if "full" "length (filter archived ps) = length ps"
  proof -
    have "\<forall>r \<in> set ps. archived r" using that(2) length_filter_conv_card by (metis filter_id_conv length_filter_less nat_neq_iff)
    then show ?thesis using reconcile_quiet(1) [OF inv(2-4)] that(1) unfolding quiet_settled_def by simp
  qed
  ultimately show ?thesis using inv(1) by (simp add: system_inv_def)
qed

lemma retire_step:
  assumes "system_inv (S, m, Stale j)"
  shows "system_inv (S, snd (mark_retired now (job_path j) (job_id j) m), Idle)"
proof -
  let ?m = "snd (mark_retired now (job_path j) (job_id j) m)"
  from assms have nc: "not_current S j" by (simp add: system_inv_def)
  have start: "state_field start_epoch_us ?m = state_field start_epoch_us m" by (simp add: state_field_def job_state)
  have "quiet_at S ?m p" if p: "p \<noteq> ''''" "pending_version S p = None" and q: "quiet_at S m p" for p
  proof (cases "p = job_path j")
    case False
    then have "quiet_at S ?m p = quiet_at S m p"
      by (intro quiet_at_cong mark_retired_load_view(1)) (simp_all add: start)
    then show ?thesis using q by simp
  next
    case True
    have lv: "load_view ?m (p, i) = (if i = job_id j then map_option (\<lambda>x. (True, snd x)) (load_view m (p, i)) else load_view m (p, i))" for i
      using True mark_retired_load_view(1) [of "(p, i)" "job_path j" "job_id j" now m]
        mark_retired_load_view(2) [of now "job_path j" "job_id j" m] by simp
    then have imp: "d \<or> load_view m (p, i) = Some (d, v)" if "load_view ?m (p, i) = Some (d, v)" for i d v
      using that by (auto split: if_splits)
    have still: "gone ?m p" if "gone m p" using that unfolding gone_load_view using imp by blast
    show ?thesis
    proof (cases "settled (view S p) m p")
      case False
      then show ?thesis using q still start by (auto simp: quiet_at_def)
    next
      case s: True
      show ?thesis
      proof (cases "view S p")
        case None
        then show ?thesis using s still by (simp add: quiet_at_def settled_def)
      next
      case (Some r)
      with nc p True have ne: "part_identity (as_source r) \<noteq> job_id j" by (simp add: not_current_def)
      from s Some have "archived r" "live m p (part_identity (as_source r)) (source_values (as_source r))"
        by (simp_all add: settled_def)
      moreover have eq: "load_view ?m (p, part_identity (as_source r)) = load_view m (p, part_identity (as_source r))"
        using lv ne by simp
      ultimately have "live ?m p (part_identity (as_source r)) (source_values (as_source r))"
        unfolding live_load_view eq using imp by blast
      with Some \<open>archived r\<close> show ?thesis by (simp add: quiet_at_def settled_def)
      qed
    qed
  qed
  then show ?thesis using assms mark_retired_ok by (simp add: system_inv_def quiet_settled_def job_state)
qed

lemma system_step_inv: "system_step s t \<Longrightarrow> system_inv s \<Longrightarrow> system_inv t"
proof (induction rule: system_step.induct)
  case (mutate S S' m a)
  then have ok: "store_ok S" and ai: "activity_inv S m a" by (simp_all add: system_inv_def)
  have t: "store_ok S'" "tracks S S'" using source_step_tracked [OF mutate(1) ok] by auto
  show ?case using mutate(2,3) t tracks_activity [OF t(2) ai] tracks_quiet_settled [OF t(2)] by (simp add: system_inv_def)
next
  case (scan full S m start_us end_us)
  then show ?case by (intro scan_step)
next
  case (reconcile S m full start_us end_us ps now)
  then show ?case by (rule reconcile_step)
next
  case (complete S m)
  let ?S = "mark_clickhouse_change_tracking_complete S"
  from complete have ok: "store_ok S" and q: "quiet_settled S m" by (simp_all add: system_inv_def)
  have "store_ok ?S" "tracks S ?S" using source_step_tracked [OF source_step.complete ok] by auto
  then show ?case using complete tracks_quiet_settled [OF _ q] by (simp add: system_inv_def)
next
  case (reconcile_failed S m a e)
  have "load_view (record_reconcile_error e m) k = load_view m k" for k
    by (simp add: load_view_def row_at_def record_reconcile_error_def)
  moreover have "state_field start_epoch_us (record_reconcile_error e m) = state_field start_epoch_us m"
    "state (record_reconcile_error e m) \<noteq> None \<longleftrightarrow> state m \<noteq> None"
    by (auto simp: record_reconcile_error_def state_field_def split: option.split)
  ultimately show ?case
    using reconcile_failed quiet_settled_cong [of S "record_reconcile_error e m" m] record_reconcile_error_ok
    by (simp add: system_inv_def)
next
  case (read S m limit)
  then show ?case using snapshot_read by (simp add: system_inv_def)
next
  case (load S m cs now)
  then show ?case by (rule load_step)
next
  case (queue S m cs now)
  then show ?case by (rule queue_step)
next
  case (ack S m cs)
  then show ?case by (rule ack_step)
next
  case (crash S m a)
  then show ?case by (simp add: system_inv_def)
next
  case (recover S m now)
  then have "manifest_ok (snd (recover_loading now m))" by (auto simp: system_inv_def intro: recover_loading_ok)
  then show ?case using recover by (auto intro!: worker_step [OF _ _ recover_loading_load_view] simp: job_state)
next
  case (claim now newest m j m' S)
  then have ok: "manifest_ok m" "manifest_ok m'" using claim_next_ok by (auto simp: system_inv_def)
  have "system_inv (S, m', Idle)"
    by (rule worker_step [OF claim(2) ok(2)])
      (rule claim_next_load_view(1) [OF ok(1) claim(1)], rule job_state(6) [OF claim(1)])
  moreover have "claimed_row m' j"
    using claim_next_load_view(2) [OF ok(1) claim(1)] by (auto simp: claimed_row_def part_key_def)
  ultimately show ?case by (simp add: system_inv_def)
next
  case (ready j S m now n)
  then obtain r where r: "row_at m (job_path j, job_id j) = Some r" "status r = (if job_kind j = DeleteJob then Deleting else Loading)"
    by (auto simp: system_inv_def claimed_row_def)
  show ?case
    by (rule worker_step [OF ready(2)]) (use ready(2) mark_ready_ok mark_load_view(3) [OF r] in \<open>auto simp: system_inv_def job_state\<close>)
next
  case (deleted j S m now)
  then obtain r where r: "row_at m (job_path j, job_id j) = Some r" "status r = (if job_kind j = DeleteJob then Deleting else Loading)"
    by (auto simp: system_inv_def claimed_row_def)
  show ?case
    by (rule worker_step [OF deleted(2)]) (use deleted mark_retired_ok mark_load_view(4) [OF r] in \<open>auto simp: system_inv_def job_state\<close>)
next
  case (release S m j now why d)
  then obtain r where r: "row_at m (job_path j, job_id j) = Some r" "status r = (if job_kind j = DeleteJob then Deleting else Loading)"
    by (auto simp: system_inv_def claimed_row_def)
  show ?case
    by (rule worker_step [OF release]) (use release release_pending_ok mark_load_view(1) [OF r] in \<open>auto simp: system_inv_def job_state\<close>)
next
  case (fail S m j now e)
  then obtain r where r: "row_at m (job_path j, job_id j) = Some r" "status r = (if job_kind j = DeleteJob then Deleting else Loading)"
    by (auto simp: system_inv_def claimed_row_def)
  show ?case
    by (rule worker_step [OF fail]) (use fail mark_failed_ok mark_load_view(2) [OF r] in \<open>auto simp: system_inv_def job_state\<close>)
next
  case (stale j S m)
  have "not_current S j"
    using stale(2) view_path by (fastforce simp: not_current_def source_changed_def)
  then show ?case using stale(3) by (simp add: system_inv_def)
next
  case (retire S m j now)
  then show ?case by (rule retire_step)
qed

interpretation hand_over: transition_system system_step system_inv
  by unfold_locales (rule system_step_inv)

section \<open>What the gates promise end to end\<close>

lemma live_unique: "live m p i v \<Longrightarrow> row_at m (p, j) = Some r \<Longrightarrow> \<not> dead r \<Longrightarrow> j = i"
  unfolding live_def by blast

lemma gone_dead: "gone m p \<Longrightarrow> row_at m (p, j) = Some r \<Longrightarrow> dead r"
  unfolding gone_def by blast

lemma settled_ready:
  assumes "view S p = Some r" "settled (view S p) m p"
  shows "archived r \<and> (\<exists>x. row_at m (p, part_identity (as_source r)) = Some x \<and> \<not> dead x
    \<and> row_values x = source_values (as_source r))"
  using assms by (auto simp: settled_def live_def)

text \<open>A store and a manifest of any contents, before a full pass has marked the change tracking complete.\<close>

lemma untracked_inv:
  "store_ok S \<Longrightarrow> manifest_ok m \<Longrightarrow> state m \<noteq> None \<Longrightarrow> \<not> tracking_complete S \<Longrightarrow> system_inv (S, m, Idle)"
  by (simp add: system_inv_def)

lemma aged_only:
  assumes "quiet_settled S m" "p \<noteq> ''''" "pending_version S p = None" "view S p = Some r"
    "state_field start_epoch_us m \<le> pr_max_event_epoch_us r"
  shows "settled (view S p) m p"
  using assms by (auto simp: quiet_settled_def quiet_at_def)

text \<open>
  Property C2. The end-to-end serving gate, from the first start of the change tracking: take any well-formed
  store whose tracking is not complete, with any well-formed manifest, and any interleaving of source mutations,
  hand-over commits, full and incremental reconciles, worker jobs, errors and crashes. If in the state reached the
  tracking is complete, the source queue empty and the global gate open, then every visible part that does
  not end before the history start the gate reports is archived and ready in the manifest under its current
  identity and contents, and every ready row is the current part of its path. A full reconcile is taken to run
  with a history start that does not move back, at most a million visible parts, and no acknowledged visible part that
  begins after the end of its window (\<open>sweep_fits\<close>).
\<close>

theorem serving_gate_sound:
  assumes "store_ok S0" "manifest_ok m0" "state m0 \<noteq> None" "\<not> tracking_complete S0"
    and "system_step\<^sup>*\<^sup>* (S0, m0, Idle) (S, m, a)"
    and "clickhouse_change_tracking_state S = (True, False)" "complete (global_coverage True False m)"
  shows "(\<forall>p r. view S p = Some r \<and> reconcile_start_epoch_us (global_coverage True False m) \<le> pr_max_event_epoch_us r
           \<longrightarrow> oss_key r \<noteq> '''' \<and> (\<exists>x. row_at m (p, part_identity (as_source r)) = Some x
            \<and> status x = Ready \<and> row_values x = source_values (as_source r)))
    \<and> (\<forall>x \<in> set (clickhouse_parts m). status x = Ready \<and> part_path x \<noteq> '''' \<longrightarrow>
         (\<exists>r. view S (part_path x) = Some r \<and> part_identity (as_source r) = logical_part_id x))"
proof -
  have inv: "store_ok S" "manifest_ok m" "quiet_settled S m"
    using hand_over.reachable_inv [OF assms(5) untracked_inv [OF assms(1-4)]] assms(6)
    by (simp_all add: system_inv_def clickhouse_change_tracking_state_def)
  have empty: "pending_version S p = None" for p
    using assms(6) by (simp add: clickhouse_change_tracking_state_def pending_version_def)
  have start: "reconcile_start_epoch_us (global_coverage True False m) = state_field start_epoch_us m"
    by (simp add: global_coverage_def make_gate_def Let_def)
  have quiet: "quiet_at S m p" if "p \<noteq> ''''" for p
    using inv(3) empty that by (simp add: quiet_settled_def)
  have status: "status x = Ready \<or> status x = Retired" if "x \<in> set (clickhouse_parts m)" for x
  proof -
    have "status x \<notin> set UNREADY"
      using assms(7) that by (auto simp: global_coverage_def make_gate_def Let_def list_ex_iff)
    then show ?thesis by (cases "status x") auto
  qed
  have named: "p \<noteq> ''''" if "view S p = Some r" for p r
    using that store_okD(4) [OF inv(1)] by (auto simp: view_def part_of_def split: option.splits if_splits dest!: find_row_SomeD)
  have first: "oss_key r \<noteq> '''' \<and> (\<exists>x. row_at m (p, part_identity (as_source r)) = Some x
      \<and> status x = Ready \<and> row_values x = source_values (as_source r))"
    if v: "view S p = Some r" and l: "state_field start_epoch_us m \<le> pr_max_event_epoch_us r" for p r
  proof -
    obtain x where x: "archived r" "row_at m (p, part_identity (as_source r)) = Some x" "\<not> dead x"
        "row_values x = source_values (as_source r)"
      using settled_ready [OF v aged_only [OF inv(3) named [OF v] empty v l]] by blast
    then have "x \<in> set (clickhouse_parts m)" by (auto simp: row_at_def dest: find_row_SomeD)
    with status x show ?thesis by (auto simp: dead_def archived_def)
  qed
  have second: "\<exists>r. view S (part_path x) = Some r \<and> part_identity (as_source r) = logical_part_id x"
    if x: "x \<in> set (clickhouse_parts m)" "status x = Ready" "part_path x \<noteq> ''''" for x
  proof -
    have "distinct (map part_key (clickhouse_parts m))" using inv(2) by (simp add: manifest_ok_def table_ok_def)
    then have at: "row_at m (part_path x, logical_part_id x) = Some x"
      using x(1) find_row_in [of part_key _ x] by (simp add: row_at_def part_key_def)
    have "\<not> dead x" using x(2) by (simp add: dead_def)
    show ?thesis
    proof (cases "view S (part_path x)")
      case None
      with quiet [OF x(3)] have "gone m (part_path x)" by (simp add: quiet_at_def settled_def)
      from gone_dead [OF this at] \<open>\<not> dead x\<close> show ?thesis by simp
    next
      case (Some r)
      have "\<not> gone m (part_path x)" using gone_dead [OF _ at] \<open>\<not> dead x\<close> by blast
      with quiet [OF x(3)] Some have "live m (part_path x) (part_identity (as_source r)) (source_values (as_source r))"
        by (simp add: quiet_at_def settled_def)
      from live_unique [OF this at \<open>\<not> dead x\<close>] Some show ?thesis by simp
    qed
  qed
  show ?thesis
  proof (rule conjI)
    show "\<forall>p r. view S p = Some r \<and> reconcile_start_epoch_us (global_coverage True False m) \<le> pr_max_event_epoch_us r
           \<longrightarrow> oss_key r \<noteq> '''' \<and> (\<exists>x. row_at m (p, part_identity (as_source r)) = Some x
            \<and> status x = Ready \<and> row_values x = source_values (as_source r))"
      unfolding start by (intro allI impI, elim conjE) (rule first)
    show "\<forall>x \<in> set (clickhouse_parts m). status x = Ready \<and> part_path x \<noteq> '''' \<longrightarrow>
         (\<exists>r. view S (part_path x) = Some r \<and> part_identity (as_source r) = logical_part_id x)"
      by (intro ballI impI) (elim conjE, rule second)
  qed
qed

lemma sample_system_inv:
  "system_inv (sample_store [(''p'', ''i'')] [], sample_manifest [(''p'', ''i'', Ready)], Idle)"
proof -
  have s: "store_ok (sample_store [(''p'', ''i'')] [])" by (rule sample_store_ok) simp_all
  have m: "manifest_ok (sample_manifest [(''p'', ''i'', Ready)])" by (rule sample_manifest_ok) simp
  have at: "row_at (sample_manifest [(''p'', ''i'', Ready)]) k = (if k = (''p'', ''i'') then Some (sample_row (''p'', ''i'', Ready)) else None)" for k
    by (auto simp: row_at_def)
  have v: "row_values (sample_row (''p'', ''i'', Ready)) = (''sha'', 1, 100, 200, 10, 1000)"
    by (simp add: row_values_def sample_row_def new_row_def)
  have i: "part_identity (as_source (sample_part ''p'' ''i'')) = ''i''"
    "source_values (as_source (sample_part ''p'' ''i'')) = (''sha'', 1, 100, 200, 10, 1000)"
    by (simp_all add: part_identity_def as_source_def sample_part_def source_values_def)
  have "settled (view (sample_store [(''p'', ''i'')] []) p) (sample_manifest [(''p'', ''i'', Ready)]) p" for p
    by (cases "p = ''p''")
      (auto simp: sample_store_view settled_def gone_def live_def at archived_def i v dead_def)
  then show ?thesis using s m
    by (simp add: system_inv_def quiet_settled_def quiet_at_def) (simp add: sample_manifest_def)
qed

text \<open>
  The window gate is sound although other windows still have work: when no pending
  change overlaps the window and its gate is open, every visible part overlapping the window, and not ended
  before the history start, is ready under its current identity and contents.
\<close>

theorem window_serving_sound:
  assumes "system_step\<^sup>*\<^sup>* s (S, m, act)" "system_inv s" "tracking_complete S" "a \<le> b"
    and "\<not> clickhouse_pending_changes_overlap a b S" "complete (window_coverage c pending False a b m)"
    and "view S p = Some r" "pr_min_event_epoch_us r \<le> b" "a \<le> pr_max_event_epoch_us r"
      "state_field start_epoch_us m \<le> pr_max_event_epoch_us r"
  shows "\<exists>x. row_at m (p, part_identity (as_source r)) = Some x \<and> status x = Ready
    \<and> row_values x = source_values (as_source r)"
proof -
  have inv: "store_ok S" "quiet_settled S m"
    using hand_over.reachable_inv [OF assms(1,2)] assms(3) by (simp_all add: system_inv_def)
  have po: "part_of S p = Some r" using view_path [OF assms(7)] by simp
  then have named: "p \<noteq> ''''"
    using store_okD(4) [OF inv(1)] by (auto simp: part_of_def dest!: find_row_SomeD)
  have "pending_version S p = None"
  proof (rule ccontr)
    assume "pending_version S p \<noteq> None"
    then obtain q where "q \<in> set (clickhouse_pending S)" "q_path q = p"
      by (auto simp: pending_version_def dest: find_row_SomeD)
    with assms(4,5,8,9) po show False
      by (auto simp: clickhouse_pending_changes_overlap_def list_ex_iff)
  qed
  then have "settled (view S p) m p" by (rule aged_only [OF inv(2) named _ assms(7,10)])
  then obtain x where x: "row_at m (p, part_identity (as_source r)) = Some x" "\<not> dead x"
      "row_values x = source_values (as_source r)"
    using settled_ready assms(7) by blast
  then have mem: "x \<in> set (clickhouse_parts m)" by (auto simp: row_at_def dest: find_row_SomeD)
  have "min_event_epoch_us x \<le> b" "a \<le> max_event_epoch_us x"
    using x(3) assms(8,9) by (simp_all add: row_values_def source_values_def as_source_def)
  with mem assms(6) have "status x \<notin> set UNREADY"
    by (auto simp: window_coverage_def make_gate_def Let_def list_ex_iff)
  then have "status x = Ready" using x(2) by (cases "status x") (auto simp: dead_def)
  with x show ?thesis by blast
qed

theorem window_serving_sound_witness:
  "\<exists>x. row_at (sample_manifest [(''p'', ''i'', Ready)]) (''p'', part_identity (as_source (sample_part ''p'' ''i''))) = Some x
     \<and> status x = Ready"
proof -
  have "\<not> clickhouse_pending_changes_overlap 150 300 (sample_store [(''p'', ''i'')] [])"
    by (simp add: clickhouse_pending_changes_overlap_def sample_store_def)
  moreover have "complete (window_coverage True True False 150 300 (sample_manifest [(''p'', ''i'', Ready)]))"
    by (simp add: window_coverage_def make_gate_def Let_def reconciled_def manifest_error_def
        sample_manifest_def sample_row_def)
  moreover have "view (sample_store [(''p'', ''i'')] []) ''p'' = Some (sample_part ''p'' ''i'')"
    by (simp add: sample_store_view)
  moreover have "tracking_complete (sample_store [(''p'', ''i'')] [])" by (simp add: sample_store_def)
  moreover have "state_field start_epoch_us (sample_manifest [(''p'', ''i'', Ready)]) \<le> 200"
    by (simp add: state_field_def sample_manifest_def)
  ultimately have "\<exists>x. row_at (sample_manifest [(''p'', ''i'', Ready)]) (''p'', part_identity (as_source (sample_part ''p'' ''i''))) = Some x
     \<and> status x = Ready \<and> row_values x = source_values (as_source (sample_part ''p'' ''i''))"
    by (intro window_serving_sound [OF rtranclp.rtrancl_refl sample_system_inv, of 150 300 True True]) simp_all
  then show ?thesis by blast
qed

lemma hand_over_result:
  "snd (reconcile_pending_source_changes now limit (S, m)) =
     (snd (ack_clickhouse_changes (acknowledgements (classify_changes (pending_clickhouse_changes (max limit 0) S))) S),
      snd (queue_missing_paths now (removed (classify_changes (pending_clickhouse_changes (max limit 0) S)))
        (snd (load_eligible now (eligible (classify_changes (pending_clickhouse_changes (max limit 0) S))) m))))"
  unfolding reconcile_pending_source_changes_def prod.case Let_def case_prod_beta snd_conv fst_conv by (rule refl)

lemma hand_over_run_steps:
  assumes "reconcile_pending_source_changes now limit (S, m) = (res, S', m')"
  shows "system_step\<^sup>*\<^sup>* (S, m, Idle) (S, m', Queued (pending_clickhouse_changes (max limit 0) S))"
    and "system_step\<^sup>*\<^sup>* (S, m, Idle) (S', m', Idle)"
proof -
  define cs where "cs = pending_clickhouse_changes (max limit 0) S"
  define m1 where "m1 = snd (load_eligible now (eligible (classify_changes cs)) m)"
  define m2 where "m2 = snd (queue_missing_paths now (removed (classify_changes cs)) m1)"
  have "S' = snd (ack_clickhouse_changes (acknowledgements (classify_changes cs)) S)" "m' = m2"
    using hand_over_result [of now limit S m] unfolding assms snd_conv prod.inject cs_def m1_def m2_def by blast+
  note out = this
  have "system_step (S, m', Queued cs) (S', m', Idle)" using system_step.ack [of S m' cs] out(1) by simp
  moreover have "system_step (S, m, Idle) (S, m, HandOver cs)" unfolding cs_def by (rule system_step.read)
  moreover have "system_step (S, m, HandOver cs) (S, m1, Loaded cs)" unfolding m1_def by (rule system_step.load)
  moreover have "system_step (S, m1, Loaded cs) (S, m', Queued cs)"
    unfolding out(2) m2_def by (rule system_step.queue)
  ultimately show "system_step\<^sup>*\<^sup>* (S, m, Idle) (S, m', Queued (pending_clickhouse_changes (max limit 0) S))" "system_step\<^sup>*\<^sup>* (S, m, Idle) (S', m', Idle)"
    unfolding cs_def [symmetric] by (meson converse_rtranclp_into_rtranclp r_into_rtranclp)+
qed

text \<open>
  Property C25. One uninterrupted run of the hand-over with a page that holds the whole queue (\<open>limit\<close>, 2,048 by
  default, is at least its length) refines the step system, keeps the invariant, leaves pending
  exactly the visible parts that are not archived yet, and settles every other path of the queue: its part
  is loaded or queued under its identity and values, or all rows of the path are queued for deletion.
\<close>

theorem hand_over_run:
  assumes "system_inv (S, m, Idle)" "int (length (clickhouse_pending S)) \<le> limit"
    and "reconcile_pending_source_changes now limit (S, m) = (res, S', m')"
  shows "system_step\<^sup>*\<^sup>* (S, m, Idle) (S', m', Idle) \<and> system_inv (S', m', Idle)
    \<and> (\<forall>p. pending_version S' p \<noteq> None \<longleftrightarrow>
         pending_version S p \<noteq> None \<and> (\<exists>r. view S p = Some r \<and> \<not> archived r))
    \<and> (\<forall>p. pending_version S p \<noteq> None \<and> pending_version S' p = None \<longrightarrow> settled (view S p) m' p)"
proof -
  have ok: "store_ok S" using assms(1) by (simp add: system_inv_def)
  define cs where "cs = pending_clickhouse_changes (max limit 0) S"
  have S': "S' = snd (ack_clickhouse_changes (acknowledgements (classify_changes cs)) S)"
    using hand_over_result [of now limit S m] unfolding assms(3) snd_conv prod.inject cs_def by blast
  have steps: "system_step\<^sup>*\<^sup>* (S, m, Idle) (S, m', Queued cs)" "system_step\<^sup>*\<^sup>* (S, m, Idle) (S', m', Idle)"
    using hand_over_run_steps [OF assms(3)] unfolding cs_def by blast+
  have "activity_inv S m' (Queued cs)"
    using hand_over.reachable_inv [OF steps(1) assms(1)] by (simp add: system_inv_def)
  then have sn: "snapshot S cs" "all_settled m' cs" by simp_all
  have mem: "c \<in> set cs \<longleftrightarrow> (\<exists>q \<in> set (clickhouse_pending S). c = join_change S q)" for c
  proof -
    have "length (clickhouse_pending S) \<le> nat (max (max limit 0) 0)" using assms(2) by simp
    then show ?thesis by (auto simp: cs_def pending_clickhouse_changes_def)
  qed
  have "pending_version S' p \<noteq> None \<longleftrightarrow> pending_version S p \<noteq> None \<and> (\<exists>r. view S p = Some r \<and> \<not> archived r)" for p
  proof (cases "pending_version S p")
    case None
    then show ?thesis using ack_clickhouse_changes_ok [OF ok] by (simp add: S')
  next
    case (Some v)
    then obtain q where q: "q \<in> set (clickhouse_pending S)" "q_path q = p" "change_version q = v"
      using pending_version_iff [OF ok] by auto
    have only: "q' = q" if "q' \<in> set (clickhouse_pending S)" "q_path q' = p" for q'
      using distinct_key_unique [OF store_okD(3) [OF ok]] that q by blast
    have "(p, v) \<in> set (acknowledgements (classify_changes cs)) \<longleftrightarrow> settles (join_change S q)"
    proof
      assume "(p, v) \<in> set (acknowledgements (classify_changes cs))"
      then obtain c where "c \<in> set cs" "settles c" "ch_path c = p" by (auto simp: classify_changes_eq)
      moreover from this(1) obtain q' where "q' \<in> set (clickhouse_pending S)" "c = join_change S q'"
        unfolding mem by (elim bexE)
      ultimately have "settles (join_change S q')" "q' = q" by (simp_all add: only)
      then show "settles (join_change S q)" by simp
    next
      assume "settles (join_change S q)"
      moreover have "join_change S q \<in> set cs" using mem q(1) by blast
      ultimately have "(ch_path (join_change S q), ch_version (join_change S q)) \<in> set (acknowledgements (classify_changes cs))"
        unfolding classify_changes_eq hand_over.simps set_map by (intro imageI) simp
      then show "(p, v) \<in> set (acknowledgements (classify_changes cs))" using q by simp
    qed
    moreover have "settles (join_change S q) \<longleftrightarrow> \<not> (\<exists>r. view S p = Some r \<and> \<not> archived r)"
      using q(2) by (auto simp: settles_def change_view_join split: option.split)
    ultimately show ?thesis using Some ack_clickhouse_changes_ok [OF ok] by (simp add: S')
  qed
  moreover have "settled (view S p) m' p" if "pending_version S p = Some v" "pending_version S' p = None" for p v
    using acked_settled [OF ok sn that(1)] that(2) ack_clickhouse_changes_ok [OF ok] by (simp add: S')
  ultimately show ?thesis using steps(2) hand_over.reachable_inv [OF steps(2) assms(1)] by blast
qed

section \<open>A run\<close>

text \<open>
  A store whose part \<open>p\<close> was there before the tracking began, and a manifest without rows. A full reconcile
  queues \<open>p\<close> and completes the tracking; then a part \<open>q\<close> is committed, handed over, and both are loaded.
\<close>

definition demo_source :: source_store where
  "demo_source = (sample_store [(''p'', ''i'')] [])\<lparr>tracking_complete := False\<rparr>"

definition demo_manifest :: manifest where
  "demo_manifest = \<lparr>clickhouse_parts = [], state = Some \<lparr>generation = 0, start_epoch_us = 0, end_epoch_us = 0,
     source_parts = 0, eligible_parts = 0, completed_at_us = 0, reconcile_error = ''''\<rparr>, schema_version = Some 1\<rparr>"

definition demo_swept :: manifest where
  "demo_swept = snd (reconcile 7 (map as_source (filter archived [sample_part ''p'' ''i''])) 50 500 (Some 1) True False demo_manifest)"

definition demo_committed :: source_store where
  "demo_committed = the (insert_part (sample_part ''q'' ''j'') (mark_clickhouse_change_tracking_complete demo_source))"

definition demo_handed :: "source_store \<times> manifest" where
  "demo_handed = snd (reconcile_pending_source_changes 8 5 (demo_committed, demo_swept))"

definition load_one :: "int \<Rightarrow> manifest \<Rightarrow> manifest" where
  "load_one now m = (case claim_next now False m of None \<Rightarrow> m
     | Some (j, m') \<Rightarrow> if job_kind j = LoadJob then snd (mark_ready now (job_path j) (job_id j) 10 m') else m)"

lemma load_one_steps: "system_step\<^sup>*\<^sup>* (S, m, Idle) (S, load_one now m, Idle)"
proof (cases "claim_next now False m")
  case (Some x)
  obtain j m' where x: "x = (j, m')" by (rule prod.exhaust)
  show ?thesis
    using system_step.claim [of now False m j m' S] system_step.ready [of j S m' now 10] Some
    by (auto simp: load_one_def x intro: converse_rtranclp_into_rtranclp)
qed (simp add: load_one_def)

lemma demo_sweeps: "system_step\<^sup>*\<^sup>* (demo_source, demo_manifest, Idle)
    (demo_committed, demo_swept, Idle)"
proof -
  let ?ps = "[sample_part ''p'' ''i'']" and ?S = "mark_clickhouse_change_tracking_complete demo_source"
  have ps: "database_parts_in_range 50 500 PARTS_IN_RANGE_LIMIT demo_source = ?ps"
    using sample_name by (simp add: database_parts_in_range_def database_part_def tracked_id_def tracked_file_def demo_source_def
        sample_store_def name_ok_def PARTS_IN_RANGE_LIMIT_def)
  have "sweep_fits demo_source demo_manifest 50 500"
    by (simp add: sweep_fits_def demo_source_def sample_store_def demo_manifest_def state_field_def PARTS_IN_RANGE_LIMIT_def)
  then have "system_step\<^sup>*\<^sup>* (demo_source, demo_manifest, Idle) (demo_source, demo_manifest, Scanned True 50 500 ?ps)"
    using system_step.scan [of True demo_source demo_manifest 50 500] by (auto simp: ps)
  also have "system_step \<dots> (demo_source, demo_swept, Swept)"
    using system_step.reconcile [of demo_source demo_manifest True 50 500 ?ps 7]
    by (simp add: demo_swept_def archived_def as_source_def part_identity_def sample_part_def)
  also have "system_step \<dots> (?S, demo_swept, Idle)" by (rule system_step.complete)
  also have "system_step \<dots> (demo_committed, demo_swept, Idle)"
  proof (rule system_step.mutate)
    have "insert_part (sample_part ''q'' ''j'') ?S \<noteq> None"
      by (simp add: insert_part_def part_of_def file_of_def mark_clickhouse_change_tracking_complete_def demo_source_def sample_store_def Let_def)
    then have ins: "insert_part (sample_part ''q'' ''j'') ?S = Some demo_committed" by (auto simp: demo_committed_def)
    then show "source_step ?S demo_committed" by (rule source_step.insert_part) simp
    show "tracking_complete demo_committed = tracking_complete ?S"
      by code_simp
  qed
  finally show ?thesis .
qed

lemma demo_start: "store_ok demo_source" "manifest_ok demo_manifest" "state demo_manifest \<noteq> None" "\<not> tracking_complete demo_source"
proof -
  have "store_ok (sample_store [(''p'', ''i'')] [])" by (rule sample_store_ok) simp_all
  then show "store_ok demo_source" by (simp add: store_ok_def demo_source_def)
qed (simp_all add: demo_source_def demo_manifest_def manifest_ok_def table_ok_def)

lemma demo_committed_inv: "system_inv (demo_committed, demo_swept, Idle)"
  by (rule hand_over.reachable_inv [OF demo_sweeps untracked_inv [OF demo_start]])

lemma demo_run: "system_step\<^sup>*\<^sup>* (demo_source, demo_manifest, Idle)
    (fst demo_handed, load_one 10 (load_one 9 (snd demo_handed)), Idle)"
proof -
  have "system_step\<^sup>*\<^sup>* (demo_source, demo_manifest, Idle) (demo_committed, demo_swept, Idle)" by (rule demo_sweeps)
  also have "system_step\<^sup>*\<^sup>* \<dots> (fst demo_handed, snd demo_handed, Idle)"
    by (rule hand_over_run_steps(2) [of 8 5 _ _ "fst (reconcile_pending_source_changes 8 5 (demo_committed, demo_swept))"])
      (simp add: demo_handed_def)
  also have "system_step\<^sup>*\<^sup>* \<dots> (fst demo_handed, load_one 9 (snd demo_handed), Idle)" by (rule load_one_steps)
  also have "system_step\<^sup>*\<^sup>* \<dots> (fst demo_handed, load_one 10 (load_one 9 (snd demo_handed)), Idle)" by (rule load_one_steps)
  finally show ?thesis .
qed

lemma demo_gate:
  "clickhouse_change_tracking_state (fst demo_handed) = (True, False)"
  "complete (global_coverage True False (load_one 10 (load_one 9 (snd demo_handed))))"
  "reconcile_start_epoch_us (global_coverage True False (load_one 10 (load_one 9 (snd demo_handed)))) = 50"
  "view (fst demo_handed) ''q'' = Some (sample_part ''q'' ''j'')"
  by code_simp+

theorem serving_gate_sound_witness:
  "\<exists>x. row_at (load_one 10 (load_one 9 (snd demo_handed))) (''q'', part_identity (as_source (sample_part ''q'' ''j''))) = Some x
     \<and> status x = Ready"
  using conjunct1 [OF serving_gate_sound [OF demo_start demo_run demo_gate(1,2)], rule_format, of "''q''" "sample_part ''q'' ''j''"]
    demo_gate(3,4) by auto

theorem hand_over_run_witness:
  "pending_version demo_committed ''q'' = Some 10 \<and> pending_version (fst demo_handed) ''q'' = None
     \<and> settled (view demo_committed ''q'') (snd demo_handed) ''q''"
proof -
  obtain res S' m' where r: "reconcile_pending_source_changes 8 5 (demo_committed, demo_swept) = (res, S', m')"
    by (metis prod.exhaust)
  have sm: "S' = fst demo_handed" "m' = snd demo_handed" by (simp_all add: demo_handed_def r)
  have d: "int (length (clickhouse_pending demo_committed)) \<le> 5" "pending_version demo_committed ''q'' = Some 10"
    "view demo_committed ''q'' = Some (sample_part ''q'' ''j'')" "archived (sample_part ''q'' ''j'')" by code_simp+
  have run: "pending_version S' p \<noteq> None \<longleftrightarrow> pending_version demo_committed p \<noteq> None \<and> (\<exists>r. view demo_committed p = Some r \<and> \<not> archived r)"
    "pending_version demo_committed p \<noteq> None \<and> pending_version S' p = None \<longrightarrow> settled (view demo_committed p) m' p" for p
    using hand_over_run [OF demo_committed_inv d(1) r] by blast+
  have "pending_version S' ''q'' = None" using run(1) [of "''q''"] d(3,4) by simp
  then show ?thesis using run(2) [of "''q''"] d(2) unfolding sm by simp
qed

section \<open>The periodic reconcile\<close>

definition OSS_FULL_RECONCILE_SECONDS :: int where
  "OSS_FULL_RECONCILE_SECONDS = 24 * 3600"

definition OSS_INCREMENTAL_RECONCILE_HOURS :: int where
  "OSS_INCREMENTAL_RECONCILE_HOURS = 6"

text \<open>Times are whole microseconds since the epoch.\<close>

definition history_start_epoch_us :: "int \<Rightarrow> int \<Rightarrow> int" where
  "history_start_epoch_us now_us history_days = (if history_days \<le> 0 then 0 else now_us - history_days * 86400 * 1000000)"

definition full_scan :: "bool \<Rightarrow> bool \<Rightarrow> int \<Rightarrow> int \<Rightarrow> bool" where
  "full_scan object_mode tracked completed_us current_us \<longleftrightarrow> \<not> object_mode \<or> \<not> tracked \<or> completed_us = 0
     \<or> OSS_FULL_RECONCILE_SECONDS * 1000000 \<le> current_us - completed_us"

text \<open>
  \<open>reconcile_once\<close> in object mode (\<open>object_mode\<close>) and outside it: the tracking state is read first, then the
  pending changes are handed over; \<open>current_us\<close> is the clock reading taken before both, \<open>now_us\<close> the clock of the
  manifest. The page limit of the hand-over is its default.
\<close>

definition reconcile_once :: "bool \<Rightarrow> int \<Rightarrow> int \<Rightarrow> int \<Rightarrow> int \<Rightarrow> source_store \<times> manifest
    \<Rightarrow> reconcile_result \<times> bool \<times> source_store \<times> manifest" where
  "reconcile_once object_mode history_days hot_hours current_us now_us sm =
     (let tracked = (if object_mode then fst (clickhouse_change_tracking_state (fst sm)) else True);
          (S, m) = (if object_mode then snd (reconcile_pending_source_changes now_us 2048 sm) else sm);
          full = full_scan object_mode tracked (state_field completed_at_us m) current_us;
          start_us = (if object_mode \<and> full then history_start_epoch_us current_us history_days
            else current_us - (if object_mode then OSS_INCREMENTAL_RECONCILE_HOURS else hot_hours) * 3600 * 1000000);
          parts = database_parts_in_range start_us current_us PARTS_IN_RANGE_LIMIT S;
          eligible_parts = filter archived parts;
          (result, m) = reconcile now_us (map as_source eligible_parts) start_us current_us (Some (int (length parts))) full
            (object_mode \<and> \<not> full) m;
          S = (if object_mode \<and> full \<and> length parts = length eligible_parts
            then mark_clickhouse_change_tracking_complete S else S)
      in (result, full, S, m))"

text \<open>An uninterrupted run in object mode is a run of the step system, when a full one fits.\<close>

theorem reconcile_once_steps:
  assumes "reconcile_once True history_days hot_hours current_us now_us (S, m) = (res, full, S', m')"
    and "\<And>S1 m1. (S1, m1) = snd (reconcile_pending_source_changes now_us 2048 (S, m)) \<Longrightarrow>
      full \<longrightarrow> sweep_fits S1 m1 (history_start_epoch_us current_us history_days) current_us"
  shows "system_step\<^sup>*\<^sup>* (S, m, Idle) (S', m', Idle)"
proof -
  obtain r S1 m1 where h: "reconcile_pending_source_changes now_us 2048 (S, m) = (r, S1, m1)" by (metis prod.exhaust)
  define start_us where "start_us = (if full then history_start_epoch_us current_us history_days
      else current_us - OSS_INCREMENTAL_RECONCILE_HOURS * 3600 * 1000000)"
  define parts where "parts = database_parts_in_range start_us current_us PARTS_IN_RANGE_LIMIT S1"
  have full: "full = full_scan True (fst (clickhouse_change_tracking_state S)) (state_field completed_at_us m1) current_us"
    and m': "m' = snd (reconcile now_us (map as_source (filter archived parts)) start_us current_us
      (Some (int (length parts))) full (\<not> full) m1)"
    and S': "S' = (if full \<and> length parts = length (filter archived parts)
      then mark_clickhouse_change_tracking_complete S1 else S1)"
    using assms(1) by (auto simp: reconcile_once_def Let_def h parts_def start_us_def split: prod.splits if_splits)
  have "full \<longrightarrow> sweep_fits S1 m1 start_us current_us" using assms(2) [of S1 m1] by (simp add: h start_us_def)
  then have scan: "system_step (S1, m1, Idle) (S1, m1, Scanned full start_us current_us parts)"
    unfolding parts_def by (rule system_step.scan)
  let ?a = "if full \<and> length (filter archived parts) = length parts then Swept else Idle"
  have "system_step (S1, m1, Scanned full start_us current_us parts) (S1, m', ?a)"
    unfolding m' by (rule system_step.reconcile)
  then have scanned: "system_step\<^sup>*\<^sup>* (S, m, Idle) (S1, m', ?a)"
    by (rule rtranclp.rtrancl_into_rtrancl [OF rtranclp.rtrancl_into_rtrancl [OF hand_over_run_steps(2) [OF h] scan]])
  show ?thesis
  proof (cases "full \<and> length (filter archived parts) = length parts")
    case True
    then have e: "S' = mark_clickhouse_change_tracking_complete S1" unfolding S' by simp
    have "system_step\<^sup>*\<^sup>* (S, m, Idle) (S1, m', Swept)" using scanned unfolding if_P [OF True] .
    then show ?thesis unfolding e by (rule rtranclp.rtrancl_into_rtrancl) (rule system_step.complete)
  next
    case False
    then have e: "S' = S1" unfolding S' by auto
    show ?thesis using scanned unfolding if_not_P [OF False] e .
  qed
qed

text \<open>
  Why \<open>sweep_fits\<close> is needed: the window of a full reconcile ends at a clock reading taken before the changes are
  handed over, and the rows of a part that begins after it are swept although the part is visible.
\<close>

theorem part_after_window_swept:
  assumes "store_ok S" "manifest_ok m" "view S p = Some r" "end_us < pr_min_event_epoch_us r"
  shows "gone (snd (reconcile now (map as_source (filter archived (database_parts_in_range start_us end_us n S)))
    start_us end_us src True preserve m)) p"
proof (rule reconcile_settles(2) [OF assms(2)])
  let ?ps = "database_parts_in_range start_us end_us n S"
  show "distinct (map pr_path (filter archived ?ps))"
    using view_in_range(3) [OF assms(1)] by (simp add: distinct_map_filter)
  have "pr_min_event_epoch_us x \<le> end_us" if "x \<in> set ?ps" for x
    using that set_take_subset by (fastforce simp: database_parts_in_range_def)
  then show "p \<notin> pr_path ` set (filter archived ?ps)"
    using view_in_range(1) [OF assms(1)] assms(3,4) by fastforce
qed simp

theorem part_after_window_swept_witness:
  "gone (snd (reconcile 7 (map as_source (filter archived (database_parts_in_range 50 90 5 demo_source))) 50 90 None True False
     (sample_manifest [(''p'', ''i'', Ready)]))) ''p''"
  by (rule part_after_window_swept [of _ _ _ "sample_part ''p'' ''i''"])
    (simp_all add: demo_start sample_manifest_ok, code_simp)

end
