(* ===== verification/Spans.thy ===== *)
theory Spans
  imports Prelude
begin

text \<open>
  Time spans \<open>[lo, hi)\<close>: the merge that \<open>app/binlog_rows.py\<close> (\<open>_union\<close>, microseconds) and
  \<open>app/sync_discovery.py\<close> (\<open>_merge\<close>, seconds) share, with a tolerance under which two spans count
  as one run, and \<open>_subtract\<close>. Both are specified by the points they cover.
\<close>

type_synonym span = "int \<times> int"

definition covers :: "span list \<Rightarrow> int \<Rightarrow> bool" where
  "covers ss x \<longleftrightarrow> (\<exists>(lo, hi) \<in> set ss. lo \<le> x \<and> x < hi)"

definition proper :: "span list \<Rightarrow> bool" where
  "proper ss \<longleftrightarrow> (\<forall>(lo, hi) \<in> set ss. lo \<le> hi)"

text \<open>Sorted runs more than \<open>tol\<close> apart.\<close>

definition runs :: "int \<Rightarrow> span list \<Rightarrow> bool" where
  "runs tol ss \<longleftrightarrow> sorted_wrt (\<lambda>a b. snd a + tol < fst b) ss \<and> proper ss"

lemma covers_simps [simp]:
  "covers [] x = False"
  "covers (s # ss) x = ((fst s \<le> x \<and> x < snd s) \<or> covers ss x)"
  "covers (ss @ ts) x = (covers ss x \<or> covers ts x)"
  by (auto simp: covers_def)

lemma proper_simps [simp]:
  "proper []" "proper (s # ss) \<longleftrightarrow> fst s \<le> snd s \<and> proper ss" "proper (ss @ ts) \<longleftrightarrow> proper ss \<and> proper ts"
  by (auto simp: proper_def split: prod.splits)

lemma coversI: "(lo, hi) \<in> set ss \<Longrightarrow> lo \<le> x \<Longrightarrow> x < hi \<Longrightarrow> covers ss x"
  unfolding covers_def by blast

lemma coversE:
  assumes "covers ss x"
  obtains lo hi where "(lo, hi) \<in> set ss" "lo \<le> x" "x < hi"
  using assms unfolding covers_def by blast

lemma covers_set: "set ss = set ts \<Longrightarrow> covers ss = covers ts"
  by (simp add: covers_def fun_eq_iff)

lemma covers_concat: "covers (concat sss) x \<longleftrightarrow> (\<exists>ss \<in> set sss. covers ss x)"
  by (induction sss) auto

section \<open>Merging\<close>

definition merge_step :: "int \<Rightarrow> span list \<Rightarrow> span \<Rightarrow> span list" where
  "merge_step tol merged s = (case s of (lo, hi) \<Rightarrow>
     if merged \<noteq> [] \<and> lo \<le> snd (last merged) + tol
     then butlast merged @ [(fst (last merged), max (snd (last merged)) hi)]
     else merged @ [(lo, hi)])"

definition merge_spans :: "int \<Rightarrow> span list \<Rightarrow> span list" where
  "merge_spans tol spans = foldl (merge_step tol) [] (sort spans)"

text \<open>The points of a merge: those of the spans, and those between two spans at most \<open>tol\<close> apart.\<close>

definition bridged :: "int \<Rightarrow> span list \<Rightarrow> int \<Rightarrow> bool" where
  "bridged tol ss x \<longleftrightarrow> (\<exists>(lo, hi) \<in> set ss. lo \<le> x \<and> (x < hi \<or> (\<exists>(lo', hi') \<in> set ss. x < lo' \<and> lo' \<le> hi + tol)))"

lemma bridgedE:
  assumes "bridged tol ss x"
  obtains l h where "(l, h) \<in> set ss" "l \<le> x" "x < h"
    | l h l' h' where "(l, h) \<in> set ss" "(l', h') \<in> set ss" "l \<le> x" "x < l'" "l' \<le> h + tol"
  using assms unfolding bridged_def by blast

lemma bridgedI:
  "(l, h) \<in> set ss \<Longrightarrow> l \<le> x \<Longrightarrow> x < h \<Longrightarrow> bridged tol ss x"
  "(l, h) \<in> set ss \<Longrightarrow> (l', h') \<in> set ss \<Longrightarrow> l \<le> x \<Longrightarrow> x < l' \<Longrightarrow> l' \<le> h + tol \<Longrightarrow> bridged tol ss x"
  unfolding bridged_def by blast+

lemma bridged_mono:
  assumes "bridged tol ss x" "set ss \<subseteq> set ts"
  shows "bridged tol ts x"
  using assms(1) by (cases rule: bridgedE) (use assms(2) in \<open>blast intro: bridgedI\<close>)+

lemma covers_bridged: "covers ss x \<Longrightarrow> bridged tol ss x"
  by (auto simp: covers_def bridged_def)

lemma bridged_zero: "bridged 0 ss x \<longleftrightarrow> covers ss x"
proof
  assume "bridged 0 ss x"
  then show "covers ss x"
  proof (cases rule: bridgedE)
    case (1 l h)
    then show ?thesis by (auto simp: covers_def)
  next
    case (2 l h l' h')
    then have "x < h" by simp
    with 2(1,3) show ?thesis by (blast intro: coversI)
  qed
qed (rule covers_bridged)

lemma bridged_set: "set ss = set ts \<Longrightarrow> bridged tol ss x = bridged tol ts x"
  by (simp add: bridged_def)

text \<open>One more span that starts no earlier than the others, whose latest end is \<open>b\<close>.\<close>

lemma bridged_snoc:
  assumes ord: "\<forall>(l, h) \<in> set ss. l \<le> lo" and pr: "proper ss"
    and top: "\<forall>(l, h) \<in> set ss. h \<le> b" and l0: "(l0, b) \<in> set ss"
  shows "bridged tol (ss @ [(lo, hi)]) x
    \<longleftrightarrow> bridged tol ss x \<or> (lo \<le> x \<and> x < hi) \<or> (b \<le> x \<and> x < lo \<and> lo \<le> b + tol)"
    (is "?L \<longleftrightarrow> ?R")
proof
  assume ?L
  then obtain l h where lh: "(l, h) \<in> set (ss @ [(lo, hi)])" "l \<le> x"
    "x < h \<or> (\<exists>(l', h') \<in> set (ss @ [(lo, hi)]). x < l' \<and> l' \<le> h + tol)"
    unfolding bridged_def by blast
  show ?R
  proof (cases "x < h")
    case True
    with lh show ?thesis by (auto simp: bridged_def)
  next
    case far: False
    with lh(3) obtain l' h' where l': "(l', h') \<in> set (ss @ [(lo, hi)])" "x < l'" "l' \<le> h + tol" by auto
    have "l' \<le> lo" using l'(1) ord by auto
    then have old: "(l, h) \<in> set ss" using lh(1,2) l'(2) by auto
    then have hb: "h \<le> b" using top by auto
    show ?thesis
    proof (cases "(l', h') \<in> set ss")
      case True
      with l' old lh(2) show ?thesis unfolding bridged_def by blast
    next
      case False
      then have lo: "l' = lo" using l'(1) by auto
      show ?thesis
      proof (cases "b \<le> x")
        case True
        with lo l' hb show ?thesis by simp
      next
        case below: False
        have "l0 \<le> h + tol" using ord l0 lo l'(3) by auto
        with below l0 old lh(2) have "bridged tol ss x" unfolding bridged_def
          by (cases "l0 \<le> x") force+
        then show ?thesis by simp
      qed
    qed
  qed
next
  assume ?R
  then consider "bridged tol ss x" | "lo \<le> x" "x < hi" | "b \<le> x" "x < lo" "lo \<le> b + tol" by blast
  then show ?L
  proof cases
    case 1
    then show ?thesis by (rule bridged_mono) auto
  next
    case 2
    then show ?thesis by (auto simp: bridged_def)
  next
    case 3
    have "l0 \<le> b" using pr l0 by (auto simp: proper_def)
    with 3 l0 show ?thesis by (intro bridgedI(2) [of l0 b _ lo hi]) auto
  qed
qed

definition merge_inv :: "int \<Rightarrow> span list \<Rightarrow> span list \<Rightarrow> bool" where
  "merge_inv tol ss merged \<longleftrightarrow> runs tol merged \<and> (\<forall>x. covers merged x \<longleftrightarrow> bridged tol ss x)
     \<and> (ss = [] \<longleftrightarrow> merged = [])
     \<and> (merged \<noteq> [] \<longrightarrow> (\<forall>(l, h) \<in> set ss. h \<le> snd (last merged)) \<and> (\<exists>l. (l, snd (last merged)) \<in> set ss))
     \<and> fst ` set merged \<subseteq> fst ` set ss"

lemma merge_inv_snocI:
  assumes "runs tol (ms @ [(a, b)])" "\<And>x. covers (ms @ [(a, b)]) x \<longleftrightarrow> bridged tol ss x"
    "\<And>l h. (l, h) \<in> set ss \<Longrightarrow> h \<le> b" "(w, b) \<in> set ss" "fst ` set ms \<subseteq> fst ` set ss" "a \<in> fst ` set ss"
  shows "merge_inv tol ss (ms @ [(a, b)])"
proof -
  have "ss \<noteq> []" using assms(4) by auto
  with assms(1,5,6) show ?thesis
    unfolding merge_inv_def using assms(2-4) by auto
qed

lemma merge_step_inv:
  assumes inv: "merge_inv tol ss merged" and tol: "0 \<le> tol" and pr: "proper ss"
    and ord: "\<forall>(l, h) \<in> set ss. l \<le> lo" and le: "lo \<le> hi"
  shows "merge_inv tol (ss @ [(lo, hi)]) (merge_step tol merged (lo, hi))"
proof (cases "merged = []")
  case True
  with inv have "ss = []" by (simp add: merge_inv_def)
  with True le show ?thesis
    by (auto simp: merge_inv_def merge_step_def runs_def bridged_def)
next
  case False
  then obtain ms a b where m: "merged = ms @ [(a, b)]" by (metis append_butlast_last_id surj_pair)
  have r: "runs tol merged" and c: "\<And>x. covers merged x \<longleftrightarrow> bridged tol ss x" and ne: "ss \<noteq> []"
    and top: "\<forall>(l, h) \<in> set ss. h \<le> b" and wit: "\<exists>l. (l, b) \<in> set ss"
    and starts: "fst ` set merged \<subseteq> fst ` set ss"
    using inv False m by (auto simp: merge_inv_def)
  obtain l0 where l0: "(l0, b) \<in> set ss" using wit by auto
  have ab: "a \<le> b" and ms: "\<forall>s \<in> set ms. snd s + tol < a" and rms: "runs tol ms"
    using r m by (auto simp: runs_def sorted_wrt_append)
  note new = bridged_snoc [OF ord pr top l0, of tol hi]
  have a: "a \<le> lo" using starts m ord by (auto simp: image_iff)
  show ?thesis
  proof (cases "lo \<le> b + tol")
    case True
    then have step: "merge_step tol merged (lo, hi) = ms @ [(a, max b hi)]"
      by (simp add: merge_step_def m)
    have "covers (ms @ [(a, max b hi)]) x \<longleftrightarrow> covers merged x \<or> (lo \<le> x \<and> x < hi) \<or> (b \<le> x \<and> x < lo \<and> lo \<le> b + tol)" for x
      using True a le ab unfolding m by auto
    then have "covers (ms @ [(a, max b hi)]) x \<longleftrightarrow> bridged tol (ss @ [(lo, hi)]) x" for x
      using c new by simp
    moreover have "runs tol (ms @ [(a, max b hi)])"
      using rms ms ab by (auto simp: runs_def sorted_wrt_append)
    moreover have "h \<le> max b hi" if "(l, h) \<in> set (ss @ [(lo, hi)])" for l h
      using that top by auto
    moreover have "(if b \<le> hi then lo else l0, max b hi) \<in> set (ss @ [(lo, hi)])"
      using l0 by (auto simp: max_def)
    moreover have "fst ` set ms \<subseteq> fst ` set (ss @ [(lo, hi)])" "a \<in> fst ` set (ss @ [(lo, hi)])"
      using starts m by auto
    ultimately show ?thesis unfolding step by (intro merge_inv_snocI [where w = "if b \<le> hi then lo else l0"]) simp_all
  next
    case apart: False
    then have step: "merge_step tol merged (lo, hi) = merged @ [(lo, hi)]"
      by (simp add: merge_step_def m)
    have "covers (merged @ [(lo, hi)]) x \<longleftrightarrow> bridged tol (ss @ [(lo, hi)]) x" for x
      using c new apart by simp
    moreover have "runs tol (merged @ [(lo, hi)])"
    proof -
      have "snd s + tol < lo" if "s \<in> set ms" for s
        using ms that ab apart tol by force
      with r apart le show ?thesis unfolding m by (auto simp: runs_def sorted_wrt_append)
    qed
    moreover have "h \<le> hi" if "(l, h) \<in> set (ss @ [(lo, hi)])" for l h
      using that top apart le tol by auto
    moreover have "fst ` set merged \<subseteq> fst ` set (ss @ [(lo, hi)])" using starts by auto
    ultimately show ?thesis unfolding step by (intro merge_inv_snocI [where w = lo]) auto
  qed
qed

lemma merge_fold_inv:
  assumes "0 \<le> tol" "sorted ts" "proper ts"
  shows "merge_inv tol ts (foldl (merge_step tol) [] ts)"
  using assms(2,3)
proof (induction ts rule: rev_induct)
  case Nil
  then show ?case by (simp add: merge_inv_def runs_def bridged_def)
next
  case (snoc s ts)
  obtain lo hi where s: "s = (lo, hi)" by (rule prod.exhaust)
  with snoc show ?case
    by (auto simp: sorted_wrt_append less_eq_prod_def intro!: merge_step_inv assms(1))
qed

lemma merge_spans_inv: "0 \<le> tol \<Longrightarrow> proper ss \<Longrightarrow> merge_inv tol (sort ss) (merge_spans tol ss)"
  unfolding merge_spans_def by (rule merge_fold_inv) (simp_all add: proper_def)

lemma merge_spans_covers: "0 \<le> tol \<Longrightarrow> proper ss \<Longrightarrow> covers (merge_spans tol ss) x \<longleftrightarrow> bridged tol ss x"
  using merge_spans_inv [of tol ss] by (simp add: merge_inv_def bridged_def)

lemma merge_spans_runs: "0 \<le> tol \<Longrightarrow> proper ss \<Longrightarrow> runs tol (merge_spans tol ss)"
  using merge_spans_inv [of tol ss] by (simp add: merge_inv_def)

text \<open>Every span lies inside one run of the merge, also spans that end before they start.\<close>

lemma merge_step_within:
  assumes "\<exists>(a, b) \<in> set merged. a \<le> l \<and> h \<le> b"
  shows "\<exists>(a, b) \<in> set (merge_step tol merged s). a \<le> l \<and> h \<le> b"
proof -
  obtain lo hi where s: "s = (lo, hi)" by (rule prod.exhaust)
  obtain a b where ab: "(a, b) \<in> set merged" "a \<le> l" "h \<le> b" using assms by blast
  show ?thesis
  proof (cases "lo \<le> snd (last merged) + tol")
    case False
    with ab show ?thesis by (auto simp: merge_step_def s)
  next
    case True
    have "merged \<noteq> []" using ab by auto
    then have m: "merged = butlast merged @ [last merged]" by simp
    have step: "merge_step tol merged s = butlast merged @ [(fst (last merged), max (snd (last merged)) hi)]"
      using True ab by (auto simp: merge_step_def s)
    show ?thesis
    proof (cases "(a, b) \<in> set (butlast merged)")
      case True
      with ab step show ?thesis by auto
    next
      case False
      moreover have "set merged = set (butlast merged) \<union> {last merged}" by (subst m) simp
      ultimately have "(a, b) = last merged" using ab by auto
      with ab step show ?thesis by (intro bexI [of _ "(a, max b hi)"]) (auto simp: prod_eq_iff)
    qed
  qed
qed

lemma merge_step_last:
  assumes "merged \<noteq> [] \<longrightarrow> fst (last merged) \<le> lo"
  shows "\<exists>(a, b) \<in> set (merge_step tol merged (lo, hi)). a \<le> lo \<and> hi \<le> b" 
    and "merge_step tol merged (lo, hi) \<noteq> [] \<and> fst (last (merge_step tol merged (lo, hi))) \<le> lo"
  using assms by (auto simp: merge_step_def)

lemma merge_fold_within:
  assumes "sorted ts"
  shows "(\<forall>(l, h) \<in> set ts. \<exists>(a, b) \<in> set (foldl (merge_step tol) [] ts). a \<le> l \<and> h \<le> b)
    \<and> (ts \<noteq> [] \<longrightarrow> foldl (merge_step tol) [] ts \<noteq> [] \<and> fst (last (foldl (merge_step tol) [] ts)) \<le> fst (last ts))
    \<and> (ts = [] \<longrightarrow> foldl (merge_step tol) [] ts = [])"
  using assms
proof (induction ts rule: rev_induct)
  case (snoc s ts)
  obtain lo hi where s: "s = (lo, hi)" by (rule prod.exhaust)
  let ?m = "foldl (merge_step tol) [] ts"
  have IH: "\<forall>(l, h) \<in> set ts. \<exists>(a, b) \<in> set ?m. a \<le> l \<and> h \<le> b"
    "ts \<noteq> [] \<longrightarrow> ?m \<noteq> [] \<and> fst (last ?m) \<le> fst (last ts)" "ts = [] \<longrightarrow> ?m = []"
    using snoc by (simp_all add: sorted_wrt_append)
  have "?m \<noteq> [] \<longrightarrow> fst (last ?m) \<le> lo"
  proof
    assume "?m \<noteq> []"
    then have ts: "ts \<noteq> []" using IH(3) by blast
    then have "last ts \<le> s" using snoc.prems by (auto simp: sorted_wrt_append)
    then have "fst (last ts) \<le> lo" by (cases "last ts") (auto simp: s less_eq_prod_def)
    with IH(2) ts show "fst (last ?m) \<le> lo" by simp
  qed
  note new = merge_step_last [OF this, of tol hi]
  have "\<exists>(a, b) \<in> set (merge_step tol ?m s). a \<le> l \<and> h \<le> b" if "(l, h) \<in> set (ts @ [s])" for l h
  proof (cases "(l, h) \<in> set ts")
    case True
    then have "\<exists>(a, b) \<in> set ?m. a \<le> l \<and> h \<le> b" using IH(1) by blast
    then show ?thesis by (rule merge_step_within)
  next
    case False
    then have "l = lo" "h = hi" using that by (auto simp: s)
    with new(1) show ?thesis by (simp add: s)
  qed
  with new(2) show ?case by (auto simp: s)
qed simp

lemma merge_spans_within: "(l, h) \<in> set ss \<Longrightarrow> \<exists>(a, b) \<in> set (merge_spans tol ss). a \<le> l \<and> h \<le> b"
  using merge_fold_within [of "sort ss" tol] by (auto simp: merge_spans_def)

section \<open>Subtraction\<close>

text \<open>\<open>bisect.bisect_right\<close> on sorted ends.\<close>

definition bisect_right :: "int list \<Rightarrow> int \<Rightarrow> nat" where
  "bisect_right ends x = length (takeWhile (\<lambda>e. e \<le> x) ends)"

text \<open>The inner loop over the cuts that overlap \<open>[lo, hi)\<close>: the pieces and the cursor.\<close>

fun cut_loop :: "span list \<Rightarrow> int \<Rightarrow> int \<Rightarrow> span list \<times> int" where
  "cut_loop [] hi cursor = ([], cursor)"
| "cut_loop ((c, d) # cuts) hi cursor =
    (if c < hi
     then let out = (if cursor < c then [(cursor, c)] else []); cursor' = max cursor d in
       if hi \<le> cursor' then (out, cursor')
       else (case cut_loop cuts hi cursor' of (rest, last_cursor) \<Rightarrow> (out @ rest, last_cursor))
     else ([], cursor))"

definition cut_span :: "span list \<Rightarrow> span \<Rightarrow> span list" where
  "cut_span cuts s = (case s of (lo, hi) \<Rightarrow>
     (case cut_loop (drop (bisect_right (map snd cuts) lo) cuts) hi lo of (out, cursor) \<Rightarrow>
       out @ (if cursor < hi then [(cursor, hi)] else [])))"

definition subtract_spans :: "span list \<Rightarrow> span list \<Rightarrow> span list" where
  "subtract_spans intervals cuts = concat (map (cut_span cuts) intervals)"

text \<open>Pieces of one interval: disjoint, in order, inside the interval, and none is empty.\<close>

definition pieces :: "int \<Rightarrow> int \<Rightarrow> span list \<Rightarrow> bool" where
  "pieces lo hi ss \<longleftrightarrow> sorted_wrt (\<lambda>a b. snd a \<le> fst b) ss \<and> (\<forall>(l, h) \<in> set ss. lo \<le> l \<and> l < h \<and> h \<le> hi)"

abbreviation closed_by :: "int \<Rightarrow> int \<Rightarrow> span list" where
  "closed_by cur hi \<equiv> (if cur < hi then [(cur, hi)] else [])"

lemma pieces_Cons:
  "pieces lo hi ((l, h) # ss) \<longleftrightarrow> lo \<le> l \<and> l < h \<and> h \<le> hi \<and> pieces h hi ss"
  unfolding pieces_def by (auto simp: case_prod_beta dest: order_trans less_imp_le)

lemma pieces_weaken: "pieces lo hi ss \<Longrightarrow> lo' \<le> lo \<Longrightarrow> pieces lo' hi ss"
  by (fastforce simp: pieces_def)

lemma cut_loop_points:
  assumes "sorted_wrt (\<lambda>a b. snd a < fst b) cuts" "proper cuts" "cut_loop cuts hi cursor = (out, cur)"
  shows "(covers (out @ closed_by cur hi) x \<longleftrightarrow> cursor \<le> x \<and> x < hi \<and> \<not> covers cuts x)
    \<and> pieces cursor hi (out @ closed_by cur hi)"
  using assms
proof (induction cuts hi cursor arbitrary: out cur rule: cut_loop.induct)
  case (1 hi cursor)
  then show ?case by (auto simp: pieces_def)
next
  case (2 c d cuts hi cursor)
  have cd: "c \<le> d" and srt: "sorted_wrt (\<lambda>a b. snd a < fst b) cuts" "proper cuts" using 2(2,3) by auto
  have later: "d < y" if "covers cuts y" for y
    using that 2(2) by (fastforce elim!: coversE)
  show ?case
  proof (cases "c < hi")
    case False
    with 2(4) later cd show ?thesis by (auto simp: pieces_def dest: later)
  next
    case c: True
    define start where "start = (if cursor < c then [(cursor, c)] else [] :: span list)"
    have start: "covers start y \<longleftrightarrow> cursor \<le> y \<and> y < c" for y by (auto simp: start_def)
    show ?thesis
    proof (cases "hi \<le> max cursor d")
      case True
      with 2(4) c have oc: "out = start" "cur = max cursor d" by (simp_all add: start_def)
      have "covers start x \<longleftrightarrow> cursor \<le> x \<and> x < hi \<and> \<not> covers ((c, d) # cuts) x"
        using start [of x] later [of x] True c cd by auto
      moreover have "pieces cursor hi start" using c by (simp add: start_def pieces_def)
      moreover have "closed_by cur hi = []" using oc True by auto
      ultimately show ?thesis using oc by simp
    next
      case False
      obtain rest where rest: "cut_loop cuts hi (max cursor d) = (rest, cur)" and out: "out = start @ rest"
        using 2(4) c False by (auto simp: Let_def start_def split: prod.splits)
      have IH: "(covers (rest @ closed_by cur hi) x \<longleftrightarrow> max cursor d \<le> x \<and> x < hi \<and> \<not> covers cuts x)
          \<and> pieces (max cursor d) hi (rest @ closed_by cur hi)"
        using 2(1) [OF c refl refl False srt rest] by simp
      have "covers (start @ rest @ closed_by cur hi) x \<longleftrightarrow> cursor \<le> x \<and> x < hi \<and> \<not> covers ((c, d) # cuts) x"
        using IH start [of x] later [of x] c cd by (auto simp del: append_assoc)
      moreover have "pieces cursor hi (start @ rest @ closed_by cur hi)"
      proof -
        have p: "pieces (max cursor d) hi (rest @ closed_by cur hi)" using IH by simp
        show ?thesis
        proof (cases "cursor < c")
          case True
          then show ?thesis using p c cd pieces_weaken [OF p, of c] by (simp add: start_def pieces_Cons)
        next
          case no: False
          then show ?thesis using pieces_weaken [OF p, of cursor] by (simp add: start_def)
        qed
      qed
      ultimately show ?thesis by (simp add: out)
    qed
  qed
qed

lemma bisect_right_drop:
  assumes "sorted_wrt (\<lambda>a b. snd a < fst b) cuts" "proper cuts"
  shows "lo \<le> x \<Longrightarrow> covers (drop (bisect_right (map snd cuts) lo) cuts) x = covers cuts x"
  using assms by (induction cuts) (auto simp: bisect_right_def)

lemma cut_span_points:
  assumes "runs tol cuts" "0 \<le> tol"
  shows "covers (cut_span cuts (lo, hi)) x \<longleftrightarrow> lo \<le> x \<and> x < hi \<and> \<not> covers cuts x"
    and "pieces lo hi (cut_span cuts (lo, hi))"
proof -
  have s: "sorted_wrt (\<lambda>a b. snd a < fst b) cuts" and p: "proper cuts"
    using assms by (auto simp: runs_def elim!: sorted_wrt_mono_rel [rotated])
  let ?n = "bisect_right (map snd cuts) lo"
  obtain out cur where oc: "cut_loop (drop ?n cuts) hi lo = (out, cur)" by fastforce
  have d: "sorted_wrt (\<lambda>a b. snd a < fst b) (drop ?n cuts)" "proper (drop ?n cuts)"
    using s p by (auto simp: sorted_wrt_drop proper_def dest: in_set_dropD)
  note pts = cut_loop_points [OF d oc, of x]
  show "covers (cut_span cuts (lo, hi)) x \<longleftrightarrow> lo \<le> x \<and> x < hi \<and> \<not> covers cuts x"
    using pts bisect_right_drop [OF s p, of lo x] by (auto simp: cut_span_def oc)
  show "pieces lo hi (cut_span cuts (lo, hi))" using pts by (simp add: cut_span_def oc)
qed

lemma subtract_covers:
  assumes "runs tol cuts" "0 \<le> tol"
  shows "covers (subtract_spans ivs cuts) x \<longleftrightarrow> covers ivs x \<and> \<not> covers cuts x"
  by (induction ivs) (auto simp: subtract_spans_def cut_span_points [OF assms])

lemma subtract_pieces:
  assumes "runs tol cuts" "0 \<le> tol" "sorted_wrt (\<lambda>a b. snd a \<le> fst b) ivs" "proper ivs"
  shows "sorted_wrt (\<lambda>a b. snd a \<le> fst b) (subtract_spans ivs cuts) \<and> (\<forall>s \<in> set (subtract_spans ivs cuts). fst s < snd s)
    \<and> (\<forall>s \<in> set (subtract_spans ivs cuts). \<exists>i \<in> set ivs. fst i \<le> fst s \<and> snd s \<le> snd i)"
  using assms(3,4)
proof (induction ivs)
  case (Cons i ivs)
  obtain lo hi where i: "i = (lo, hi)" by (rule prod.exhaust)
  have p: "pieces lo hi (cut_span cuts (lo, hi))" by (rule cut_span_points [OF assms(1,2)])
  have sub: "subtract_spans (i # ivs) cuts = cut_span cuts (lo, hi) @ subtract_spans ivs cuts"
    by (simp add: subtract_spans_def i)
  have "snd s \<le> fst t" if st: "s \<in> set (cut_span cuts (lo, hi))" "t \<in> set (subtract_spans ivs cuts)" for s t
  proof -
    have "snd s \<le> hi" using st(1) p by (auto simp: pieces_def)
    moreover obtain j where "j \<in> set ivs" "fst j \<le> fst t" using st(2) Cons by force
    moreover have "hi \<le> fst j" if "j \<in> set ivs" for j using that Cons.prems i by auto
    ultimately show ?thesis by (meson order_trans)
  qed
  with Cons p show ?case unfolding sub
    by (auto simp: sorted_wrt_append pieces_def i)
qed (simp add: subtract_spans_def)

text \<open>
  Subtracting merged cuts from intervals leaves exactly the points of the intervals outside
  every cut; the pieces of disjoint intervals stay disjoint and in order and none is empty.
\<close>

theorem subtract_exact:
  assumes "0 \<le> tol" "proper cuts" "sorted_wrt (\<lambda>a b. snd a \<le> fst b) ivs" "proper ivs"
  shows "(\<forall>x. covers (subtract_spans ivs (merge_spans tol cuts)) x \<longleftrightarrow> covers ivs x \<and> \<not> bridged tol cuts x)
    \<and> sorted_wrt (\<lambda>a b. snd a \<le> fst b) (subtract_spans ivs (merge_spans tol cuts))
    \<and> (\<forall>s \<in> set (subtract_spans ivs (merge_spans tol cuts)). fst s < snd s)"
  using subtract_covers [OF merge_spans_runs [OF assms(1,2)] assms(1)] merge_spans_covers [OF assms(1,2)]
    subtract_pieces [OF merge_spans_runs [OF assms(1,2)] assms(1,3,4)] by simp

theorem subtract_exact_witness:
  "subtract_spans [(0, 10), (20, 30)] (merge_spans 2 [(8, 9), (3, 5), (10, 21)]) = [(0, 3), (5, 8), (21, 30)]
   \<and> covers (subtract_spans [(0, 10), (20, 30)] (merge_spans 2 [(8, 9), (3, 5), (10, 21)])) 6"
proof
  show "subtract_spans [(0, 10), (20, 30)] (merge_spans 2 [(8, 9), (3, 5), (10, 21)]) = [(0, 3), (5, 8), (21, 30)]"
    by code_simp
  show "covers (subtract_spans [(0, 10), (20, 30)] (merge_spans 2 [(8, 9), (3, 5), (10, 21)])) 6"
    using subtract_exact [of 2 "[(8, 9), (3, 5), (10, 21)]" "[(0, 10), (20, 30)]"] by (simp add: bridged_def)
qed

end
