(* ===== verification/FileCatalog.thy ===== *)
theory FileCatalog
  imports Prelude
begin

text \<open>
  The catalog of source files in \<open>app/metadata.py\<close> (table \<open>binlog_files\<close>): registration and refresh
  of files the RDS API lists, the state machine of a file, and the queries the collector runs on it.
  \<open>fid\<close> stands for \<open>MetadataStore.file_id\<close>, a SHA-256 of the instance and the identity columns of the
  listed file. \<open>processing_seconds\<close> (a float kept for display) is left out. A transaction that raises
  leaves the table unchanged.
\<close>

section \<open>Rows\<close>

datatype file_state = Discovered | Downloading | Downloaded | Parsing | Stored | Done | Failed
  | Unavailable | Skipped | Superseded

record remote =
  r_log_file_name :: string
  r_log_begin_utc :: string
  r_log_end_utc :: string
  r_file_size :: int
  r_checksum_crc64 :: string
  r_download_link :: string
  r_intranet_download_link :: string
  r_link_expired_utc :: string
  r_remote_status :: string
  r_host_instance_id :: string

record file_row =
  f_id :: string
  f_instance_id :: string
  f_log_file_name :: string
  f_log_begin_utc :: string
  f_log_end_utc :: string
  f_file_size :: int
  f_checksum_crc64 :: string
  f_download_link :: string
  f_intranet_download_link :: string
  f_link_expired_utc :: string
  f_remote_status :: string
  f_host_instance_id :: string
  f_state :: file_state
  f_query_visible :: bool
  f_attempts :: int
  f_downloaded_bytes :: int
  f_local_sha256 :: string
  f_event_count :: int
  f_error_code :: string
  f_error_message :: string
  f_discovered_at :: string
  f_updated_at :: string
  f_completed_at :: string
  f_processing_started_at :: string
  f_raw_deleted_at :: string

definition NON_BINLOG_HOST_IDS :: "string list" where
  "NON_BINLOG_HOST_IDS = [''slow-log'', ''tabularis'', ''general-log'']"

text \<open>\<open>BINLOG_ROW_SQL\<close>.\<close>

definition binlog_row :: "file_row \<Rightarrow> bool" where
  "binlog_row r \<longleftrightarrow> CHR ''/'' \<notin> set (f_log_file_name r) \<and> f_host_instance_id r \<notin> set NON_BINLOG_HOST_IDS"

definition SETTLED_STATES :: "file_state list" where
  "SETTLED_STATES = [Done, Unavailable, Skipped, Superseded]"

section \<open>Registering listed files\<close>

type_synonym locators = "string \<times> string \<times> string \<times> string"

text \<open>\<open>desired\<close> and \<open>current\<close>: a finished file keeps no download capability.\<close>

definition desired_locators :: "file_state \<Rightarrow> remote \<Rightarrow> locators" where
  "desired_locators st item =
     (if st = Done then '''' else r_download_link item,
      if st = Done then '''' else r_intranet_download_link item,
      if st = Done then '''' else r_link_expired_utc item, r_remote_status item)"

definition current_locators :: "file_row \<Rightarrow> locators" where
  "current_locators r = (f_download_link r, f_intranet_download_link r, f_link_expired_utc r, f_remote_status r)"

definition set_locators :: "locators \<Rightarrow> string \<Rightarrow> file_row \<Rightarrow> file_row" where
  "set_locators l now r = (case l of (d, i, x, s) \<Rightarrow>
     r\<lparr>f_download_link := d, f_intranet_download_link := i, f_link_expired_utc := x,
       f_remote_status := s, f_updated_at := now\<rparr>)"

text \<open>The columns an \<open>INSERT\<close> leaves out take their defaults.\<close>

definition new_file :: "string \<Rightarrow> string \<Rightarrow> string \<Rightarrow> remote \<Rightarrow> file_row" where
  "new_file fid inst now item =
     \<lparr>f_id = fid, f_instance_id = inst, f_log_file_name = r_log_file_name item,
      f_log_begin_utc = r_log_begin_utc item, f_log_end_utc = r_log_end_utc item,
      f_file_size = r_file_size item, f_checksum_crc64 = r_checksum_crc64 item,
      f_download_link = r_download_link item, f_intranet_download_link = r_intranet_download_link item,
      f_link_expired_utc = r_link_expired_utc item, f_remote_status = r_remote_status item,
      f_host_instance_id = r_host_instance_id item, f_state = Discovered, f_query_visible = True,
      f_attempts = 0, f_downloaded_bytes = 0, f_local_sha256 = '''', f_event_count = 0,
      f_error_code = '''', f_error_message = '''', f_discovered_at = now, f_updated_at = now,
      f_completed_at = '''', f_processing_started_at = '''', f_raw_deleted_at = ''''\<rparr>"

definition upsert_remote :: "(string \<Rightarrow> remote \<Rightarrow> string) \<Rightarrow> string \<Rightarrow> string \<Rightarrow> remote \<Rightarrow> file_row list
    \<Rightarrow> (string \<times> file_state) \<times> file_row list" where
  "upsert_remote fid inst now item t = (let k = fid inst item in
     case find_row f_id k t of
       Some r \<Rightarrow> ((k, f_state r),
         if current_locators r \<noteq> desired_locators (f_state r) item
         then update_where (\<lambda>r. f_id r = k) (set_locators (desired_locators (f_state r) item) now) t else t)
     | None \<Rightarrow> ((k, Discovered), t @ [new_file k inst now item]))"

subsection \<open>One page at a time\<close>

text \<open>The three statements of \<open>upsert_remotes\<close> as dicts keyed by file id, and its result list.\<close>

record remote_plan =
  updates :: "(string \<times> locators) list"
  inserts :: "(string \<times> file_row) list"
  revivals :: "(string \<times> locators) list"
  results :: "(string \<times> file_state) list"

definition existing_row :: "string \<Rightarrow> file_row list \<Rightarrow> string \<Rightarrow> file_row option" where
  "existing_row inst t k = find_row f_id k (filter (\<lambda>r. f_instance_id r = inst) t)"

definition listed_complete :: "remote \<Rightarrow> bool" where
  "listed_complete item \<longleftrightarrow> lower_text (r_remote_status item) = ''completed''"

definition plan_remote :: "(string \<Rightarrow> remote \<Rightarrow> string) \<Rightarrow> string \<Rightarrow> string \<Rightarrow> file_row list
    \<Rightarrow> remote_plan \<Rightarrow> remote \<Rightarrow> remote_plan" where
  "plan_remote fid inst now t p item = (let k = fid inst item in
     case existing_row inst t k of
       None \<Rightarrow> p\<lparr>inserts := AList.update k (new_file k inst now item) (inserts p),
                 results := results p @ [(k, Discovered)]\<rparr>
     | Some r \<Rightarrow>
        if f_state r = Unavailable \<and> listed_complete item
        then p\<lparr>revivals := AList.update k (desired_locators Discovered item) (revivals p),
               results := results p @ [(k, Discovered)]\<rparr>
        else let p = p\<lparr>results := results p @ [(k, f_state r)]\<rparr> in
          if current_locators r \<noteq> desired_locators (f_state r) item
          then p\<lparr>updates := AList.update k (desired_locators (f_state r) item) (updates p)\<rparr>
          else p)"

definition plan_remotes :: "(string \<Rightarrow> remote \<Rightarrow> string) \<Rightarrow> string \<Rightarrow> string \<Rightarrow> remote list
    \<Rightarrow> file_row list \<Rightarrow> remote_plan" where
  "plan_remotes fid inst now items t = foldl (plan_remote fid inst now t)
     \<lparr>updates = [], inserts = [], revivals = [], results = []\<rparr> items"

definition revive :: "string \<Rightarrow> file_row list \<Rightarrow> string \<times> locators \<Rightarrow> file_row list" where
  "revive now t kl = (case kl of (k, l) \<Rightarrow>
     update_where (\<lambda>r. f_id r = k \<and> f_state r = Unavailable)
       (\<lambda>r. (set_locators l now r)\<lparr>f_state := Discovered, f_error_code := '''', f_error_message := ''''\<rparr>) t)"

definition refresh :: "string \<Rightarrow> file_row list \<Rightarrow> string \<times> locators \<Rightarrow> file_row list" where
  "refresh now t kl = (case kl of (k, (d, i, x, s)) \<Rightarrow>
     update_where (\<lambda>r. f_id r = k)
       (\<lambda>r. set_locators (if f_state r = Done then '''' else d, if f_state r = Done then '''' else i,
                          if f_state r = Done then '''' else x, s) now r) t)"

definition insert_or_ignore :: "file_row list \<Rightarrow> string \<times> file_row \<Rightarrow> file_row list" where
  "insert_or_ignore t kr = (case kr of (k, r) \<Rightarrow> if k \<in> f_id ` set t then t else t @ [r])"

definition commit_remotes :: "string \<Rightarrow> remote_plan \<Rightarrow> file_row list \<Rightarrow> file_row list" where
  "commit_remotes now p t =
     (if updates p = [] \<and> inserts p = [] \<and> revivals p = [] then t
      else foldl insert_or_ignore (foldl (refresh now) (foldl (revive now) t (revivals p)) (updates p)) (inserts p))"

text \<open>The read and the write transaction of \<open>upsert_remotes\<close>; other writers may commit between them.\<close>

definition upsert_remotes :: "(string \<Rightarrow> remote \<Rightarrow> string) \<Rightarrow> string \<Rightarrow> string \<Rightarrow> remote list
    \<Rightarrow> file_row list \<Rightarrow> (string \<times> file_state) list \<times> file_row list" where
  "upsert_remotes fid inst now items t = (if items = [] then ([], t)
     else let p = plan_remotes fid inst now items t in (results p, commit_remotes now p t))"

section \<open>State changes\<close>

record state_change =
  sc_downloaded_bytes :: "int option"
  sc_local_sha256 :: "string option"
  sc_event_count :: "int option"
  sc_error_code :: string
  sc_error_message :: string
  sc_increment_attempt :: bool
  sc_raw_deleted :: bool
  sc_query_visible :: "bool option"

definition set_opt :: "'a option \<Rightarrow> 'a \<Rightarrow> 'a" where
  "set_opt x old = (case x of None \<Rightarrow> old | Some y \<Rightarrow> y)"

definition change_state :: "string \<Rightarrow> file_state \<Rightarrow> state_change \<Rightarrow> file_row \<Rightarrow> file_row" where
  "change_state now st c r =
     r\<lparr>f_state := st, f_updated_at := now, f_error_code := sc_error_code c,
       f_error_message := sc_error_message c,
       f_downloaded_bytes := set_opt (sc_downloaded_bytes c) (f_downloaded_bytes r),
       f_local_sha256 := set_opt (sc_local_sha256 c) (f_local_sha256 r),
       f_event_count := set_opt (sc_event_count c) (f_event_count r),
       f_attempts := f_attempts r + (if sc_increment_attempt c then 1 else 0),
       f_processing_started_at := (if st = Downloading then now else f_processing_started_at r),
       f_query_visible := (if st = Done then True else set_opt (sc_query_visible c) (f_query_visible r)),
       f_completed_at := (if st = Done then now else f_completed_at r),
       f_download_link := (if st = Done then '''' else f_download_link r),
       f_intranet_download_link := (if st = Done then '''' else f_intranet_download_link r),
       f_link_expired_utc := (if st = Done then '''' else f_link_expired_utc r),
       f_raw_deleted_at := (if sc_raw_deleted c then now else f_raw_deleted_at r)\<rparr>"

definition set_file_state :: "string \<Rightarrow> string \<Rightarrow> file_state \<Rightarrow> state_change \<Rightarrow> file_row list \<Rightarrow> file_row list" where
  "set_file_state now k st c t = update_where (\<lambda>r. f_id r = k) (change_state now st c) t"

text \<open>The file part of \<open>record_file_chunk_progress\<close>; the job part only writes messages.\<close>

definition record_file_chunk_progress :: "string \<Rightarrow> string \<Rightarrow> int \<Rightarrow> file_row list \<Rightarrow> file_row list" where
  "record_file_chunk_progress now k n t = update_where (\<lambda>r. f_id r = k)
     (\<lambda>r. r\<lparr>f_state := Parsing, f_updated_at := now, f_error_code := '''', f_error_message := '''',
            f_event_count := n\<rparr>) t"

text \<open>\<open>None\<close> is the \<open>RuntimeError\<close> of a missing row; the update itself is committed by then.\<close>

definition set_file_visibility :: "string \<Rightarrow> string \<Rightarrow> bool \<Rightarrow> file_row list \<Rightarrow> unit option \<times> file_row list" where
  "set_file_visibility now k v t =
     (if count_where (\<lambda>r. f_id r = k) t = 1 then Some () else None,
      update_where (\<lambda>r. f_id r = k) (\<lambda>r. r\<lparr>f_query_visible := v, f_updated_at := now\<rparr>) t)"

definition update_download_progress :: "string \<Rightarrow> string \<Rightarrow> int \<Rightarrow> file_row list \<Rightarrow> file_row list" where
  "update_download_progress now k n t =
     update_where (\<lambda>r. f_id r = k) (\<lambda>r. r\<lparr>f_downloaded_bytes := n, f_updated_at := now\<rparr>) t"

definition mark_files_state :: "string \<Rightarrow> string list \<Rightarrow> file_state \<Rightarrow> string \<Rightarrow> string \<Rightarrow> file_state list
    \<Rightarrow> file_row list \<Rightarrow> int \<times> file_row list" where
  "mark_files_state now ids st code msg only t =
     (if st \<notin> set SETTLED_STATES \<or> ids = [] then (0, t)
      else foldl (\<lambda>(n, t) batch.
        (n + count_where (\<lambda>r. f_id r \<in> set batch \<and> f_state r \<in> set only) t,
         update_where (\<lambda>r. f_id r \<in> set batch \<and> f_state r \<in> set only)
           (\<lambda>r. r\<lparr>f_state := st, f_error_code := code, f_error_message := msg, f_updated_at := now\<rparr>) t))
        (0, t) (chunks 400 ids))"

section \<open>Queries\<close>

definition file_record :: "string \<Rightarrow> file_row list \<Rightarrow> file_row option" where
  "file_record k t = find_row f_id k t"

text \<open>\<open>ORDER BY log_begin_utc, log_end_utc, log_file_name, host_instance_id\<close>.\<close>

definition file_order :: "file_row \<Rightarrow> string \<times> string \<times> string \<times> string" where
  "file_order r = (f_log_begin_utc r, f_log_end_utc r, f_log_file_name r, f_host_instance_id r)"

definition recoverable_files :: "string \<Rightarrow> bool \<Rightarrow> file_row list \<Rightarrow> file_row list" where
  "recoverable_files inst include_discovered t =
     (let states = [Failed, Downloading, Downloaded, Parsing, Stored] @ (if include_discovered then [Discovered] else [])
      in sort_key file_order (filter (\<lambda>r. f_instance_id r = inst \<and> f_state r \<in> set states) t))"

definition pending_sync_file_count :: "string \<Rightarrow> file_row list \<Rightarrow> int" where
  "pending_sync_file_count inst t =
     (if inst \<noteq> '''' then count_where (\<lambda>r. f_instance_id r = inst \<and> f_state r \<notin> {Done, Unavailable}) t
      else count_where (\<lambda>r. f_state r \<notin> {Done, Unavailable}) t)"

definition max_text :: "string list \<Rightarrow> string" where
  "max_text xs = foldl max '''' xs"

definition latest_log_end :: "string \<Rightarrow> file_row list \<Rightarrow> string" where
  "latest_log_end inst t =
     max_text (map f_log_end_utc (filter (\<lambda>r. f_instance_id r = inst \<and> f_state r = Done) t))"

definition existing_file_states :: "string \<Rightarrow> string list \<Rightarrow> file_row list \<Rightarrow> (string \<times> file_state) list" where
  "existing_file_states inst ids t = concat (map (\<lambda>batch.
     map (\<lambda>r. (f_id r, f_state r)) (filter (\<lambda>r. f_instance_id r = inst \<and> f_id r \<in> set batch) t))
     (chunks 400 (remdups ids)))"

definition binlog_host_rows :: "string \<Rightarrow> string \<Rightarrow> file_row list \<Rightarrow> file_row list" where
  "binlog_host_rows inst since t = filter (\<lambda>r. f_instance_id r = inst \<and> since \<le> f_log_begin_utc r
     \<and> binlog_row r \<and> f_state r \<notin> {Skipped, Superseded}) t"

text \<open>Each candidate with \<open>has_raw\<close>; \<open>archives\<close> are the file ids of \<open>raw_binlog_archives\<close>.\<close>

definition expired_source_candidates :: "string list \<Rightarrow> string \<Rightarrow> string \<Rightarrow> file_row list \<Rightarrow> (file_row \<times> bool) list" where
  "expired_source_candidates archives inst cutoff t =
     map (\<lambda>r. (r, f_id r \<in> set archives))
       (filter (\<lambda>r. f_instance_id r = inst \<and> f_state r \<in> {Discovered, Failed, Downloading, Downloaded}
          \<and> f_log_end_utc r < cutoff \<and> binlog_row r) t)"

definition latest_done_host :: "string \<Rightarrow> file_row list \<Rightarrow> string" where
  "latest_done_host inst t =
     (case sort_desc_key f_completed_at
        (filter (\<lambda>r. f_instance_id r = inst \<and> f_state r = Done \<and> binlog_row r) t) of
        [] \<Rightarrow> '''' | r # _ \<Rightarrow> f_host_instance_id r)"

record binlog_health =
  pending_files :: int
  oldest_pending_end :: string
  failed_files :: int
  stuck_files :: int
  newest_done_end :: string
  unavailable_last_day :: int

definition min_text :: "string list \<Rightarrow> string" where
  "min_text xs = (case xs of [] \<Rightarrow> '''' | y # ys \<Rightarrow> foldl min y ys)"

definition unfinished_listed :: "string \<Rightarrow> file_row \<Rightarrow> bool" where
  "unfinished_listed inst r \<longleftrightarrow> f_instance_id r = inst
     \<and> f_state r \<in> {Discovered, Failed, Downloading, Downloaded, Parsing, Stored}
     \<and> lower_text (f_remote_status r) = ''completed'' \<and> binlog_row r"

definition binlog_health_summary :: "string \<Rightarrow> string \<Rightarrow> string \<Rightarrow> file_row list \<Rightarrow> binlog_health" where
  "binlog_health_summary inst day_ago lost_since t =
     (let u = filter (unfinished_listed inst) t;
          newest = take 200 (sort_desc_key f_completed_at
            (filter (\<lambda>r. f_instance_id r = inst \<and> f_state r = Done \<and> binlog_row r) t))
      in \<lparr>pending_files = int (length u), oldest_pending_end = min_text (map f_log_end_utc u),
          failed_files = count_where (\<lambda>r. f_state r = Failed) u,
          stuck_files = count_where (\<lambda>r. 5 \<le> f_attempts r \<and> f_state r \<noteq> Done) u,
          newest_done_end = max_text (map f_log_end_utc newest),
          unavailable_last_day = count_where (\<lambda>r. f_instance_id r = inst \<and> f_state r = Unavailable
             \<and> day_ago \<le> f_updated_at r \<and> lost_since \<le> f_log_end_utc r \<and> binlog_row r) t\<rparr>)"

section \<open>The catalog invariant\<close>

text \<open>A finished file keeps no signed link, and ids are unique.\<close>

definition links_clean :: "file_row \<Rightarrow> bool" where
  "links_clean r \<longleftrightarrow> (f_state r = Done \<longrightarrow>
     f_download_link r = '''' \<and> f_intranet_download_link r = '''' \<and> f_link_expired_utc r = '''')"

definition catalog_ok :: "file_row list \<Rightarrow> bool" where
  "catalog_ok t \<longleftrightarrow> distinct (map f_id t) \<and> (\<forall>r \<in> set t. links_clean r)"

definition same_source :: "file_row \<Rightarrow> file_row \<Rightarrow> bool" where
  "same_source r s \<longleftrightarrow> f_id r = f_id s \<and> f_instance_id r = f_instance_id s
     \<and> f_log_file_name r = f_log_file_name s \<and> f_log_begin_utc r = f_log_begin_utc s
     \<and> f_log_end_utc r = f_log_end_utc s \<and> f_file_size r = f_file_size s
     \<and> f_host_instance_id r = f_host_instance_id s"

lemma catalog_update_where:
  assumes "catalog_ok t" "\<And>r. P r \<Longrightarrow> f_id (f r) = f_id r" "\<And>r. P r \<Longrightarrow> links_clean r \<Longrightarrow> links_clean (f r)"
  shows "catalog_ok (update_where P f t)"
  using assms by (auto simp: catalog_ok_def update_where_keys in_set_update_where)

lemma set_locators_simps [simp]:
  "f_id (set_locators l now r) = f_id r" "f_state (set_locators l now r) = f_state r"
  "f_instance_id (set_locators l now r) = f_instance_id r"
  "current_locators (set_locators l now r) = l"
  by (simp_all add: set_locators_def current_locators_def split: prod.splits)

lemma set_locators_source: "same_source (set_locators l now r) r"
  by (simp add: same_source_def set_locators_def split: prod.splits)

lemma new_file_simps [simp]:
  "f_id (new_file k inst now item) = k" "f_state (new_file k inst now item) = Discovered"
  "f_instance_id (new_file k inst now item) = inst"
  "current_locators (new_file k inst now item) = desired_locators Discovered item"
  by (simp_all add: new_file_def current_locators_def desired_locators_def)

lemma change_state_simps [simp]:
  "f_id (change_state now st c r) = f_id r" "f_state (change_state now st c r) = st"
  "links_clean (change_state now st c r) \<longleftrightarrow> st \<noteq> Done \<or> True"
  by (simp_all add: change_state_def links_clean_def)

text \<open>
  The operations of the catalog. A page may be committed on a table other than the one it was planned on.
  \<open>mark_files_state\<close> accepts the state done too, and would then keep the links of the files; no caller passes it, and the
  step leaves it out.
\<close>

inductive catalog_step :: "file_row list \<Rightarrow> file_row list \<Rightarrow> bool" where
  page: "catalog_step t (commit_remotes now (plan_remotes fid inst now items t0) t)"
| listed: "catalog_step t (snd (upsert_remote fid inst now item t))"
| state: "catalog_step t (set_file_state now k st c t)"
| progress: "catalog_step t (record_file_chunk_progress now k n t)"
| visibility: "catalog_step t (snd (set_file_visibility now k v t))"
| download: "catalog_step t (update_download_progress now k n t)"
| settle: "st \<noteq> Done \<Longrightarrow> catalog_step t (snd (mark_files_state now ids st code msg only t))"

lemma revive_ok: "catalog_ok t \<Longrightarrow> catalog_ok (revive now t kl)"
  by (auto simp: revive_def links_clean_def intro!: catalog_update_where split: prod.splits)

lemma refresh_ok: "catalog_ok t \<Longrightarrow> catalog_ok (refresh now t kl)"
  by (auto simp: refresh_def links_clean_def set_locators_def intro!: catalog_update_where split: prod.splits)

definition plan_ok :: "remote_plan \<Rightarrow> bool" where
  "plan_ok p \<longleftrightarrow> (\<forall>(k, r) \<in> set (inserts p). f_id r = k \<and> f_state r = Discovered)"

lemma plan_remote_ok: "plan_ok p \<Longrightarrow> plan_ok (plan_remote fid inst now t p item)"
proof -
  assume p: "plan_ok p"
  let ?k = "fid inst item"
  show ?thesis
  proof (cases "existing_row inst t ?k")
    case None
    have "f_id r = k \<and> f_state r = Discovered" if "(k, r) \<in> set (AList.update ?k (new_file ?k inst now item) (inserts p))" for k r
      using that set_alist_update [of ?k "new_file ?k inst now item" "inserts p"] p by (auto simp: plan_ok_def)
    then show ?thesis by (auto simp: plan_ok_def plan_remote_def Let_def None)
  next
    case (Some r)
    with p show ?thesis by (auto simp: plan_ok_def plan_remote_def Let_def)
  qed
qed

lemma plan_remotes_ok: "plan_ok (plan_remotes fid inst now items t)"
  unfolding plan_remotes_def by (rule foldl_inv) (simp_all add: plan_ok_def [of "\<lparr>updates = [], inserts = [], revivals = [], results = []\<rparr>"] plan_remote_ok)

lemma commit_remotes_ok:
  assumes "catalog_ok t" "plan_ok p"
  shows "catalog_ok (commit_remotes now p t)"
proof -
  have "catalog_ok (foldl (revive now) t (revivals p))"
    using assms(1) by (rule foldl_inv) (rule revive_ok)
  then have "catalog_ok (foldl (refresh now) (foldl (revive now) t (revivals p)) (updates p))"
    by (rule foldl_inv) (rule refresh_ok)
  then have "catalog_ok (foldl insert_or_ignore (foldl (refresh now) (foldl (revive now) t (revivals p)) (updates p)) (inserts p))"
  proof (rule foldl_inv)
    fix t x assume "x \<in> set (inserts p)" "catalog_ok t"
    with assms(2) show "catalog_ok (insert_or_ignore t x)"
      by (cases x) (auto simp: insert_or_ignore_def catalog_ok_def plan_ok_def links_clean_def)
  qed
  with assms(1) show ?thesis by (simp add: commit_remotes_def)
qed

lemma upsert_remote_ok: "catalog_ok t \<Longrightarrow> catalog_ok (snd (upsert_remote fid inst now item t))"
proof -
  assume ok: "catalog_ok t"
  let ?k = "fid inst item"
  show ?thesis
  proof (cases "find_row f_id ?k t")
    case None
    then have "?k \<notin> f_id ` set t" by (simp add: find_row_None)
    with None ok show ?thesis
      by (auto simp: upsert_remote_def Let_def catalog_ok_def links_clean_def)
  next
    case (Some r)
    have only: "s = r" if "s \<in> set t" "f_id s = ?k" for s
      using distinct_key_unique [of f_id t s r] ok that Some by (auto simp: catalog_ok_def dest: find_row_SomeD)
    have "links_clean s" if "s \<in> set (update_where (\<lambda>r. f_id r = ?k) (set_locators (desired_locators (f_state r) item) now) t)" for s
      using that only ok by (auto simp: in_set_update_where catalog_ok_def links_clean_def set_locators_def desired_locators_def split: if_splits)
    with ok Some show ?thesis
      by (simp add: upsert_remote_def Let_def catalog_ok_def update_where_keys)
  qed
qed

lemma mark_files_state_ok: "catalog_ok t \<Longrightarrow> st \<noteq> Done \<Longrightarrow> catalog_ok (snd (mark_files_state now ids st code msg only t))"
proof -
  assume a: "catalog_ok t" "st \<noteq> Done"
  let ?f = "\<lambda>(n, t) batch. (n + count_where (\<lambda>r. f_id r \<in> set batch \<and> f_state r \<in> set only) t,
         update_where (\<lambda>r. f_id r \<in> set batch \<and> f_state r \<in> set only)
           (\<lambda>r. r\<lparr>f_state := st, f_error_code := code, f_error_message := msg, f_updated_at := now\<rparr>) t)"
  have "catalog_ok (snd (foldl ?f (0, t) xs))" for xs
    by (rule foldl_inv) (use a in \<open>auto simp: links_clean_def intro!: catalog_update_where split: prod.splits\<close>)
  with a show ?thesis by (simp add: mark_files_state_def)
qed

lemma catalog_step_ok: "catalog_step t t' \<Longrightarrow> catalog_ok t \<Longrightarrow> catalog_ok t'"
proof (induction rule: catalog_step.cases)
  case (page t now fid inst items t0)
  then show ?case using commit_remotes_ok plan_remotes_ok by blast
next
  case (state t now k st c)
  then show ?case unfolding set_file_state_def by (auto intro: catalog_update_where)
qed (auto simp: record_file_chunk_progress_def set_file_visibility_def update_download_progress_def links_clean_def
    intro!: catalog_update_where upsert_remote_ok mark_files_state_ok)

interpretation catalog: transition_system catalog_step catalog_ok
  by unfold_locales (rule catalog_step_ok)

text \<open>
  Property C22. After any sequence of registrations, refreshes and state changes, with pages planned on
  older reads, file ids stay unique and no finished file keeps a signed download link.
\<close>

theorem catalog_reachable_clean:
  assumes "catalog_step\<^sup>*\<^sup>* t t'" "distinct (map f_id t)" "list_all links_clean t"
  shows "distinct (map f_id t') \<and> list_all links_clean t'"
  using catalog.reachable_inv [OF assms(1)] assms(2,3) by (auto simp: catalog_ok_def list_all_iff)

definition sample_remote :: "string \<Rightarrow> string \<Rightarrow> remote" where
  "sample_remote name status = \<lparr>r_log_file_name = name, r_log_begin_utc = ''2026-10-28T21:00:00Z'',
     r_log_end_utc = ''2026-10-28T22:00:00Z'', r_file_size = 5, r_checksum_crc64 = '''', r_download_link = ''d'',
     r_intranet_download_link = ''i'', r_link_expired_utc = ''x'', r_remote_status = status,
     r_host_instance_id = ''h1''\<rparr>"

definition no_change :: state_change where
  "no_change = \<lparr>sc_downloaded_bytes = None, sc_local_sha256 = None, sc_event_count = None, sc_error_code = '''',
     sc_error_message = '''', sc_increment_attempt = False, sc_raw_deleted = False, sc_query_visible = None\<rparr>"

theorem catalog_reachable_clean_witness:
  "list_all links_clean (set_file_state ''t1'' ''k'' Done no_change [new_file ''k'' ''i'' ''t0'' (sample_remote ''b.1'' ''Completed'')])"
proof -
  let ?t = "[new_file ''k'' ''i'' ''t0'' (sample_remote ''b.1'' ''Completed'')]"
  have "catalog_step\<^sup>*\<^sup>* ?t (set_file_state ''t1'' ''k'' Done no_change ?t)"
    by (rule r_into_rtranclp) (rule catalog_step.state)
  from catalog_reachable_clean [OF this] show ?thesis by (simp add: links_clean_def)
qed

section \<open>Pages\<close>

text \<open>The row a listed file has after its page: new, brought back, refreshed, or as it was.\<close>

definition revived :: "string \<Rightarrow> locators \<Rightarrow> file_row \<Rightarrow> file_row" where
  "revived now l r = (if f_state r = Unavailable
     then (set_locators l now r)\<lparr>f_state := Discovered, f_error_code := '''', f_error_message := ''''\<rparr> else r)"

definition refreshed :: "string \<Rightarrow> locators \<Rightarrow> file_row \<Rightarrow> file_row" where
  "refreshed now l r = (case l of (d, i, x, s) \<Rightarrow>
     set_locators (if f_state r = Done then '''' else d, if f_state r = Done then '''' else i,
                   if f_state r = Done then '''' else x, s) now r)"

lemma revive_alt: "revive now t (k, l) = update_where (\<lambda>r. f_id r = k) (revived now l) t"
  by (induction t) (auto simp: revive_def revived_def)

lemma refresh_alt: "refresh now t (k, l) = update_where (\<lambda>r. f_id r = k) (refreshed now l) t"
  by (cases l) (simp add: refresh_def refreshed_def [abs_def])

lemma revived_simps [simp]:
  "f_id (revived now l r) = f_id r" "f_instance_id (revived now l r) = f_instance_id r"
  by (simp_all add: revived_def)

lemma refreshed_simps [simp]:
  "f_id (refreshed now l r) = f_id r" "f_instance_id (refreshed now l r) = f_instance_id r"
  "f_state (refreshed now l r) = f_state r"
  by (simp_all add: refreshed_def split: prod.splits)

subsection \<open>Late commits\<close>

definition kept :: "file_row \<Rightarrow> file_row \<Rightarrow> bool" where
  "kept r s \<longleftrightarrow> same_source s r \<and> (f_state s = f_state r \<or> f_state r = Unavailable \<and> f_state s = Discovered)
     \<and> f_event_count s = f_event_count r \<and> f_attempts s = f_attempts r \<and> f_query_visible s = f_query_visible r"

definition all_kept :: "file_row list \<Rightarrow> file_row list \<Rightarrow> bool" where
  "all_kept t t' \<longleftrightarrow> (\<forall>r \<in> set t. \<exists>s \<in> set t'. kept r s)"

lemma kept_refl: "kept r r" by (simp add: kept_def same_source_def)

lemma kept_trans: "kept r s \<Longrightarrow> kept s u \<Longrightarrow> kept r u"
  by (auto simp: kept_def same_source_def)

lemma all_kept_refl: "all_kept t t" by (auto simp: all_kept_def intro: kept_refl)

lemma all_kept_trans: "all_kept t u \<Longrightarrow> all_kept u v \<Longrightarrow> all_kept t v"
  unfolding all_kept_def by (meson kept_trans)

lemma all_kept_update_where:
  assumes "\<And>r. kept r (f r)"
  shows "all_kept t (update_where P f t)"
  unfolding all_kept_def
proof
  fix r assume "r \<in> set t"
  then have "(if P r then f r else r) \<in> set (update_where P f t)" by (simp add: update_where_def)
  moreover have "kept r (if P r then f r else r)" by (simp add: assms kept_refl)
  ultimately show "\<exists>s \<in> set (update_where P f t). kept r s" by (rule bexI [rotated])
qed

lemma all_kept_foldl: "(\<And>t x. all_kept t (f t x)) \<Longrightarrow> all_kept t (foldl f t xs)"
  by (induction xs arbitrary: t) (auto intro: all_kept_refl all_kept_trans)

lemma kept_revived: "kept r (revived now l r)"
  by (auto simp: kept_def same_source_def revived_def set_locators_def split: prod.splits)

lemma kept_refreshed: "kept r (refreshed now l r)"
  by (auto simp: kept_def same_source_def refreshed_def set_locators_def split: prod.splits)

lemma all_kept_statements:
  "all_kept t (revive now t kl)" "all_kept t (refresh now t kl)" "all_kept t (insert_or_ignore t kr)"
proof -
  show "all_kept t (revive now t kl)"
    by (cases kl) (simp add: revive_alt all_kept_update_where kept_revived)
  show "all_kept t (refresh now t kl)"
    by (cases kl) (simp only: refresh_alt, rule all_kept_update_where, rule kept_refreshed)
  show "all_kept t (insert_or_ignore t kr)"
    by (cases kr) (auto simp: insert_or_ignore_def all_kept_def intro: kept_refl)
qed

lemma all_kept_commit: "all_kept t (commit_remotes now p t)"
  unfolding commit_remotes_def
  by (auto intro!: all_kept_refl all_kept_trans [OF _ all_kept_foldl] all_kept_foldl all_kept_statements)

text \<open>
  A page planned on one read of the catalog and committed on a later one keeps every row:
  no identity column, event count, attempt or visibility changes, and the only state change is that of an
  unavailable file becoming discovered.
\<close>

theorem page_commit_keeps:
  "\<forall>r \<in> set t. \<exists>s \<in> set (commit_remotes now (plan_remotes fid inst before items t0) t).
     same_source s r \<and> (f_state s = f_state r \<or> f_state r = Unavailable \<and> f_state s = Discovered)
     \<and> f_event_count s = f_event_count r \<and> f_attempts s = f_attempts r \<and> f_query_visible s = f_query_visible r"
  using all_kept_commit [of t now "plan_remotes fid inst before items t0"] by (simp add: all_kept_def kept_def)

theorem page_commit_keeps_witness:
  "\<exists>s \<in> set (commit_remotes ''t2'' (plan_remotes (\<lambda>_ _. ''k'') ''i'' ''t1'' [sample_remote ''b.1'' ''Completed''] [])
       [(new_file ''k'' ''i'' ''t0'' (sample_remote ''b.1'' ''Completed''))\<lparr>f_state := Done\<rparr>]). f_state s = Done"
  using page_commit_keeps [of "[(new_file ''k'' ''i'' ''t0'' (sample_remote ''b.1'' ''Completed''))\<lparr>f_state := Done\<rparr>]"
      "''t2''" "\<lambda>_ _. ''k''" "''i''" "''t1''" "[sample_remote ''b.1'' ''Completed'']" "[]"]
  by auto

subsection \<open>What a page writes\<close>

definition plan_insert :: "(string \<Rightarrow> remote \<Rightarrow> string) \<Rightarrow> string \<Rightarrow> string \<Rightarrow> file_row list
    \<Rightarrow> remote \<Rightarrow> (string \<times> file_row) option" where
  "plan_insert fid inst now t item = (let k = fid inst item in
     if existing_row inst t k = None then Some (k, new_file k inst now item) else None)"

definition plan_revival :: "(string \<Rightarrow> remote \<Rightarrow> string) \<Rightarrow> string \<Rightarrow> file_row list
    \<Rightarrow> remote \<Rightarrow> (string \<times> locators) option" where
  "plan_revival fid inst t item = (let k = fid inst item in case existing_row inst t k of None \<Rightarrow> None
     | Some r \<Rightarrow> if f_state r = Unavailable \<and> listed_complete item then Some (k, desired_locators Discovered item) else None)"

definition plan_update :: "(string \<Rightarrow> remote \<Rightarrow> string) \<Rightarrow> string \<Rightarrow> file_row list
    \<Rightarrow> remote \<Rightarrow> (string \<times> locators) option" where
  "plan_update fid inst t item = (let k = fid inst item in case existing_row inst t k of None \<Rightarrow> None
     | Some r \<Rightarrow> if f_state r = Unavailable \<and> listed_complete item then None
        else if current_locators r \<noteq> desired_locators (f_state r) item then Some (k, desired_locators (f_state r) item) else None)"

definition plan_result :: "(string \<Rightarrow> remote \<Rightarrow> string) \<Rightarrow> string \<Rightarrow> file_row list \<Rightarrow> remote \<Rightarrow> string \<times> file_state" where
  "plan_result fid inst t item = (let k = fid inst item in (k, case existing_row inst t k of None \<Rightarrow> Discovered
     | Some r \<Rightarrow> if f_state r = Unavailable \<and> listed_complete item then Discovered else f_state r))"

lemma alist_update_fresh: "k \<notin> fst ` set xs \<Longrightarrow> AList.update k v xs = xs @ [(k, v)]"
  by (induction xs) auto

lemma map_filter_snoc:
  "List.map_filter f (xs @ [x]) = List.map_filter f xs @ (case f x of None \<Rightarrow> [] | Some y \<Rightarrow> [y])"
  by (simp add: List.map_filter_def split: option.split)

lemma map_filter_key_notin:
  assumes "k \<notin> kf ` set items" "\<And>x k v. f x = Some (k, v) \<Longrightarrow> k = kf x"
  shows "k \<notin> fst ` set (List.map_filter f items)"
  using map_of_map_filter_None [of k kf items f] assms by (simp add: map_of_eq_None_iff)

lemma plan_key:
  "plan_insert fid inst now t x = Some (k, r) \<Longrightarrow> k = fid inst x"
  "plan_revival fid inst t x = Some (k, l) \<Longrightarrow> k = fid inst x"
  "plan_update fid inst t x = Some (k, l) \<Longrightarrow> k = fid inst x"
  by (auto simp: plan_insert_def plan_revival_def plan_update_def Let_def split: option.splits if_splits)

lemma plan_remotes_eq:
  assumes "distinct (map (fid inst) items)"
  shows "plan_remotes fid inst now items t =
    \<lparr>updates = List.map_filter (plan_update fid inst t) items, inserts = List.map_filter (plan_insert fid inst now t) items,
     revivals = List.map_filter (plan_revival fid inst t) items, results = map (plan_result fid inst t) items\<rparr>"
  using assms
proof (induction items rule: rev_induct)
  case Nil
  then show ?case by (simp add: plan_remotes_def List.map_filter_def)
next
  case (snoc x xs)
  then have k: "fid inst x \<notin> fid inst ` set xs" and IH: "plan_remotes fid inst now xs t =
    \<lparr>updates = List.map_filter (plan_update fid inst t) xs, inserts = List.map_filter (plan_insert fid inst now t) xs,
     revivals = List.map_filter (plan_revival fid inst t) xs, results = map (plan_result fid inst t) xs\<rparr>"
    by auto
  have upd:
    "AList.update (fid inst x) v (List.map_filter (plan_update fid inst t) xs) = List.map_filter (plan_update fid inst t) xs @ [(fid inst x, v)]"
    "AList.update (fid inst x) r (List.map_filter (plan_insert fid inst now t) xs) = List.map_filter (plan_insert fid inst now t) xs @ [(fid inst x, r)]"
    "AList.update (fid inst x) v (List.map_filter (plan_revival fid inst t) xs) = List.map_filter (plan_revival fid inst t) xs @ [(fid inst x, v)]" for v r
    by (rule alist_update_fresh, rule map_filter_key_notin [OF k], erule plan_key)+
  have "plan_remotes fid inst now (xs @ [x]) t = plan_remote fid inst now t (plan_remotes fid inst now xs t) x"
    by (simp add: plan_remotes_def)
  then show ?case
    unfolding IH map_filter_snoc
    by (cases "existing_row inst t (fid inst x)")
      (simp_all add: plan_remote_def Let_def upd plan_update_def [of _ _ _ x] plan_insert_def [of _ _ _ _ x]
        plan_revival_def [of _ _ _ x] plan_result_def [of _ _ _ x])
qed

lemma find_row_filter:
  assumes "\<And>r. r \<in> set t \<Longrightarrow> key r = k \<Longrightarrow> P r"
  shows "find_row key k (filter P t) = find_row key k t"
  using assms by (induction t) auto

lemma find_row_inserts:
  assumes "distinct (map fst krs)" "\<And>k r. (k, r) \<in> set krs \<Longrightarrow> f_id r = k"
  shows "find_row f_id j (foldl insert_or_ignore t krs)
    = (case find_row f_id j t of None \<Rightarrow> map_of krs j | Some r \<Rightarrow> Some r)"
  using assms
proof (induction krs arbitrary: t)
  case Nil
  then show ?case by (simp split: option.split)
next
  case (Cons kr krs)
  obtain k r where kr: "kr = (k, r)" by (rule prod.exhaust)
  then have r: "f_id r = k" using Cons.prems(2) by auto
  have "map_of krs k = None" using Cons.prems kr by (simp add: map_of_eq_None_iff)
  moreover have IH: "find_row f_id j (foldl insert_or_ignore u krs)
      = (case find_row f_id j u of None \<Rightarrow> map_of krs j | Some r \<Rightarrow> Some r)" for u
    using Cons.prems by (intro Cons.IH) auto
  moreover have "insert_or_ignore t kr = (if find_row f_id k t = None then t @ [r] else t)"
    by (simp add: kr insert_or_ignore_def find_row_None)
  ultimately show ?case
    by (cases "find_row f_id j t") (auto simp: kr r find_row_append)
qed

text \<open>The row of a listed file after its page, and the rows of all others.\<close>

definition page_row :: "string \<Rightarrow> string \<Rightarrow> string \<Rightarrow> remote \<Rightarrow> file_row option \<Rightarrow> file_row" where
  "page_row now inst k item old = (case old of None \<Rightarrow> new_file k inst now item
     | Some r \<Rightarrow> if f_state r = Unavailable \<and> listed_complete item then revived now (desired_locators Discovered item) r
        else if current_locators r \<noteq> desired_locators (f_state r) item
        then refreshed now (desired_locators (f_state r) item) r else r)"

lemma commit_remotes_find:
  assumes "distinct (map fst (revivals p))" "distinct (map fst (updates p))" "distinct (map fst (inserts p))"
    and "plan_ok p"
  shows "find_row f_id j (commit_remotes now p t) = (case find_row f_id j t of None \<Rightarrow> map_of (inserts p) j
    | Some r \<Rightarrow> Some (let s = (case map_of (revivals p) j of None \<Rightarrow> r | Some l \<Rightarrow> revived now l r)
        in case map_of (updates p) j of None \<Rightarrow> s | Some l \<Rightarrow> refreshed now l s))"
proof -
  have upd: "find_row f_id j (update_where (\<lambda>r. f_id r = k) f t)
      = map_option (\<lambda>r. if j = k then f r else r) (find_row f_id j t)" if "\<And>r. f_id (f r) = f_id r" for j k f t
    using that by (induction t) auto
  have 1: "find_row f_id j (foldl (revive now) t (revivals p))
      = map_option (\<lambda>r. case map_of (revivals p) j of None \<Rightarrow> r | Some l \<Rightarrow> revived now l r) (find_row f_id j t)" for t
    by (rule foldl_keyed_update) (simp_all add: revive_alt upd assms)
  have 2: "find_row f_id j (foldl (refresh now) t (updates p))
      = map_option (\<lambda>r. case map_of (updates p) j of None \<Rightarrow> r | Some l \<Rightarrow> refreshed now l r) (find_row f_id j t)" for t
    by (rule foldl_keyed_update) (simp_all add: refresh_alt upd assms)
  have 3: "find_row f_id j (foldl insert_or_ignore t (inserts p))
      = (case find_row f_id j t of None \<Rightarrow> map_of (inserts p) j | Some r \<Rightarrow> Some r)" for t
    using assms by (intro find_row_inserts) (auto simp: plan_ok_def)
  show ?thesis
    by (cases "find_row f_id j t") (simp_all add: commit_remotes_def 1 2 3 Let_def)
qed

lemma existing_row_eq:
  assumes "\<forall>r \<in> set t. f_id r = k \<longrightarrow> f_instance_id r = inst"
  shows "existing_row inst t k = find_row f_id k t"
  unfolding existing_row_def by (rule find_row_filter) (use assms in auto)

lemma page_row_simps [simp]:
  "f_id (page_row now inst k item None) = k" "f_instance_id (page_row now inst k item None) = inst"
  "f_id (page_row now inst k item (Some r)) = f_id r"
  "f_instance_id (page_row now inst k item (Some r)) = f_instance_id r"
  by (simp_all add: page_row_def)

text \<open>A listed row needs nothing more: a second page finds its locators as desired.\<close>

lemma refreshed_current:
  "current_locators (refreshed now (desired_locators (f_state r) item) r) = desired_locators (f_state r) item"
  by (simp add: refreshed_def desired_locators_def)

lemma page_row_settled:
  "\<not> (f_state (page_row now inst k item old) = Unavailable \<and> listed_complete item)
   \<and> current_locators (page_row now inst k item old) = desired_locators (f_state (page_row now inst k item old)) item"
proof (cases old)
  case None
  then show ?thesis by (simp add: page_row_def)
next
  case (Some r)
  have "current_locators ((set_locators l now r)\<lparr>f_state := Discovered, f_error_code := '''', f_error_message := ''''\<rparr>) = l" for l
    by (simp add: current_locators_def set_locators_def split: prod.splits)
  then show ?thesis using Some refreshed_current [of now r item]
    by (auto simp: page_row_def revived_def)
qed

lemma map_filter_plan_distinct:
  assumes "distinct (map (fid inst) items)"
  shows "distinct (map fst (List.map_filter (plan_revival fid inst t) items))"
    "distinct (map fst (List.map_filter (plan_update fid inst t) items))"
    "distinct (map fst (List.map_filter (plan_insert fid inst now t) items))"
  by (rule distinct_map_filter_keys [where kf = "fid inst", OF assms], erule plan_key)+

lemma page_find:
  assumes d: "distinct (map (fid inst) items)"
    and own: "\<forall>r \<in> set t. f_id r \<in> fid inst ` set items \<longrightarrow> f_instance_id r = inst"
  shows page_find_listed: "x \<in> set items \<Longrightarrow>
      find_row f_id (fid inst x) (commit_remotes now (plan_remotes fid inst now items t) t)
        = Some (page_row now inst (fid inst x) x (find_row f_id (fid inst x) t))"
    and page_find_other: "k \<notin> fid inst ` set items \<Longrightarrow>
      find_row f_id k (commit_remotes now (plan_remotes fid inst now items t) t) = find_row f_id k t"
proof -
  let ?p = "plan_remotes fid inst now items t"
  note p = plan_remotes_eq [where fid = fid and inst = inst and items = items and now = now and t = t, OF d]
  note ds = map_filter_plan_distinct [where fid = fid and inst = inst and items = items and t = t, OF d]
  have find: "find_row f_id j (commit_remotes now ?p t)
    = (case find_row f_id j t of None \<Rightarrow> map_of (List.map_filter (plan_insert fid inst now t) items) j
      | Some r \<Rightarrow> Some (let s = (case map_of (List.map_filter (plan_revival fid inst t) items) j of None \<Rightarrow> r
             | Some l \<Rightarrow> revived now l r)
        in case map_of (List.map_filter (plan_update fid inst t) items) j of None \<Rightarrow> s | Some l \<Rightarrow> refreshed now l s))" for j
    using commit_remotes_find [of ?p j now t] plan_remotes_ok [of fid inst now items t] ds
    unfolding p remote_plan.simps by blast
  {
    assume x: "x \<in> set items"
    let ?k = "fid inst x"
    have ex: "existing_row inst t ?k = find_row f_id ?k t"
      by (rule existing_row_eq) (use own x in auto)
    have m: "map_of (List.map_filter (plan_revival fid inst t) items) ?k = map_option snd (plan_revival fid inst t x)"
      "map_of (List.map_filter (plan_update fid inst t) items) ?k = map_option snd (plan_update fid inst t x)"
      "map_of (List.map_filter (plan_insert fid inst now t) items) ?k = map_option snd (plan_insert fid inst now t x)"
      by (rule map_of_map_filter [where kf = "fid inst", OF d x], erule plan_key)+
    show "find_row f_id ?k (commit_remotes now ?p t) = Some (page_row now inst ?k x (find_row f_id ?k t))"
      unfolding find m
      by (cases "find_row f_id ?k t")
        (simp_all add: plan_insert_def plan_revival_def plan_update_def Let_def ex page_row_def)
  }
  {
    assume k: "k \<notin> fid inst ` set items"
    have m: "map_of (List.map_filter (plan_revival fid inst t) items) k = None"
      "map_of (List.map_filter (plan_update fid inst t) items) k = None"
      "map_of (List.map_filter (plan_insert fid inst now t) items) k = None"
      by (rule map_of_map_filter_None [where kf = "fid inst", OF k], erule plan_key)+
    show "find_row f_id k (commit_remotes now ?p t) = find_row f_id k t"
      unfolding find m by (simp split: option.split)
  }
qed

lemma commit_distinct: "catalog_ok t \<Longrightarrow> distinct (map f_id (commit_remotes now (plan_remotes fid inst now items t) t))"
  using commit_remotes_ok [OF _ plan_remotes_ok] by (auto simp: catalog_ok_def)

lemma page_result:
  assumes "find_row f_id (fid inst x) u = Some (page_row now inst (fid inst x) x (find_row f_id (fid inst x) t))"
    and "existing_row inst t (fid inst x) = find_row f_id (fid inst x) t"
  shows "plan_result fid inst t x = (fid inst x, f_state (page_row now inst (fid inst x) x (find_row f_id (fid inst x) t)))"
  by (cases "find_row f_id (fid inst x) t")
    (simp_all add: plan_result_def Let_def assms page_row_def revived_def)

lemma upsert_page:
  assumes ok: "catalog_ok t" and d: "distinct (map (fid inst) items)"
    and own: "\<forall>r \<in> set t. f_id r \<in> fid inst ` set items \<longrightarrow> f_instance_id r = inst"
    and run: "upsert_remotes fid inst now items t = (res, t')"
  shows "map fst res = map (fid inst) items"
    "(k, st) \<in> set res \<Longrightarrow> map_option f_state (file_record k t') = Some st"
    "upsert_remotes fid inst later items t' = (res, t')"
    "k \<notin> fid inst ` set items \<Longrightarrow> file_record k t' = file_record k t"
proof -
  have t': "t' = commit_remotes now (plan_remotes fid inst now items t) t"
    using run by (cases items) (auto simp: upsert_remotes_def Let_def plan_remotes_def commit_remotes_def)
  have res: "res = map (plan_result fid inst t) items"
    using run plan_remotes_eq [where fid = fid and inst = inst and items = items and now = now and t = t, OF d]
    by (cases items) (auto simp: upsert_remotes_def Let_def)
  have row: "find_row f_id (fid inst x) t' = Some (page_row now inst (fid inst x) x (find_row f_id (fid inst x) t))"
    if "x \<in> set items" for x
    unfolding t' using page_find_listed [where fid = fid and inst = inst, OF d own that] .
  have ex: "existing_row inst t (fid inst x) = find_row f_id (fid inst x) t" if "x \<in> set items" for x
    by (rule existing_row_eq) (use own that in auto)
  have result: "plan_result fid inst t x = (fid inst x, f_state (page_row now inst (fid inst x) x (find_row f_id (fid inst x) t)))"
    if "x \<in> set items" for x
    using page_result [where fid = fid and inst = inst, OF row [OF that] ex [OF that]] .
  show "map fst res = map (fid inst) items" by (simp add: res result)
  show "map_option f_state (file_record k t') = Some st" if "(k, st) \<in> set res"
    using that by (auto simp: res result row file_record_def)
  show "file_record k t' = file_record k t" if "k \<notin> fid inst ` set items"
    unfolding file_record_def t' using page_find_other [where fid = fid and inst = inst, OF d own that] .
  have inst: "f_instance_id (page_row now inst (fid inst x) x (find_row f_id (fid inst x) t)) = inst" if "x \<in> set items" for x
  proof (cases "find_row f_id (fid inst x) t")
    case (Some r)
    then have "r \<in> set t" "f_id r = fid inst x" by (auto dest: find_row_SomeD)
    with own that Some show ?thesis by auto
  qed simp
  have ex': "existing_row inst t' (fid inst x) = Some (page_row now inst (fid inst x) x (find_row f_id (fid inst x) t))"
    if x: "x \<in> set items" for x
  proof -
    have "f_instance_id r = inst" if "r \<in> set t'" "f_id r = fid inst x" for r
    proof -
      have "find_row f_id (fid inst x) t' = Some r"
        using that commit_distinct [OF ok, where fid = fid and inst = inst and items = items and now = now] unfolding t' by (metis find_row_in)
      then show ?thesis using row [OF x] inst [OF x] by simp
    qed
    then have "existing_row inst t' (fid inst x) = find_row f_id (fid inst x) t'" by (intro existing_row_eq) auto
    then show ?thesis by (simp add: row [OF x])
  qed
  have none: "plan_insert fid inst later t' x = None" "plan_revival fid inst t' x = None" "plan_update fid inst t' x = None"
    "plan_result fid inst t' x = plan_result fid inst t x" if "x \<in> set items" for x
    using page_row_settled [of now inst "fid inst x" x "find_row f_id (fid inst x) t"]
    by (auto simp: plan_insert_def plan_revival_def plan_update_def result [OF that] plan_result_def [of fid inst t' x] Let_def ex' [OF that])
  have "List.map_filter (plan_insert fid inst later t') items = []" "List.map_filter (plan_revival fid inst t') items = []"
    "List.map_filter (plan_update fid inst t') items = []" "map (plan_result fid inst t') items = map (plan_result fid inst t) items"
    using none by (simp_all add: map_filter_Nil_iff)
  then show "upsert_remotes fid inst later items t' = (res, t')"
    using plan_remotes_eq [where fid = fid and inst = inst and items = items and now = later and t = t', OF d]
    by (simp add: upsert_remotes_def Let_def res commit_remotes_def)
qed

text \<open>
  A listed page of distinct files returns one state per listed file, each the state the table
  holds afterwards; files that are not listed are untouched, and repeating the page at any later time returns
  the same states and writes nothing.
\<close>

theorem upsert_page_exact:
  assumes "catalog_ok t" "distinct (map (fid inst) items)"
    "\<forall>r \<in> set t. f_id r \<in> fid inst ` set items \<longrightarrow> f_instance_id r = inst"
    "upsert_remotes fid inst now items t = (res, t')"
  shows "map fst res = map (fid inst) items
    \<and> (\<forall>(k, st) \<in> set res. map_option f_state (file_record k t') = Some st)
    \<and> upsert_remotes fid inst later items t' = (res, t')
    \<and> (\<forall>k. k \<notin> fid inst ` set items \<longrightarrow> file_record k t' = file_record k t)"
  using upsert_page [where fid = fid and inst = inst, OF assms] by auto

theorem upsert_page_exact_witness:
  "fst (upsert_remotes (\<lambda>_ _. ''k'') ''i'' ''t2'' [sample_remote ''b.1'' ''Completed'']
     (snd (upsert_remotes (\<lambda>_ _. ''k'') ''i'' ''t1'' [sample_remote ''b.1'' ''Completed''] []))) = [(''k'', Discovered)]"
proof -
  let ?u = "upsert_remotes (\<lambda>_ _. ''k'') ''i'' ''t1'' [sample_remote ''b.1'' ''Completed''] []"
  have "fst ?u = [(''k'', Discovered)]"
    by (simp add: upsert_remotes_def plan_remotes_def plan_remote_def Let_def existing_row_def)
  moreover have "upsert_remotes (\<lambda>_ _. ''k'') ''i'' ''t2'' [sample_remote ''b.1'' ''Completed''] (snd ?u) = (fst ?u, snd ?u)"
    using upsert_page_exact [of "[]" "\<lambda>_ _. ''k''" "''i''" "[sample_remote ''b.1'' ''Completed'']" "''t1''" "fst ?u" "snd ?u" "''t2''"]
    by (simp add: catalog_ok_def)
  ultimately show ?thesis by simp
qed

end
