(* ===== verification/RowCoverage.thy ===== *)
theory RowCoverage
  imports Spans FileCatalog
begin

text \<open>
  What the row store (\<open>app/binlog_rows.py\<close>) can answer for: the coverage of a window by ingested files
  with the reasons of its gaps, the day slices of a query and the newest-first loop over them, and the
  purge of one file's rows. Times are microseconds since 1970.
\<close>

section \<open>Coverage\<close>

datatype gap_reason = SourceMissing | SourceUnlisted | Collecting | Pending | NotCollectedYet | NoData

record cover_file =
  cf_id :: string
  cf_lo :: int
  cf_hi :: int
  cf_state :: file_state
  cf_host :: string

record gap =
  g_start :: int
  g_end :: int
  g_reason :: gap_reason
  g_files :: int

record run_coverage =
  intervals :: "span list"
  gaps :: "gap list"

definition COVER_TOLERANCE_US :: int where "COVER_TOLERANCE_US = 2000000"
definition POINT_SPAN_US :: int where "POINT_SPAN_US = 1000000"

definition UNFINISHED_STATES :: "file_state list" where
  "UNFINISHED_STATES = [Discovered, Failed, Downloading, Downloaded, Parsing, Stored]"

text \<open>\<open>SETTLED_STATES\<close> of this module: copies that never count.\<close>

definition COPY_STATES :: "file_state list" where
  "COPY_STATES = [Skipped, Superseded]"

definition file_span :: "cover_file \<Rightarrow> span" where
  "file_span f = (if cf_lo f < cf_hi f then (cf_lo f, cf_hi f) else (cf_lo f, cf_lo f + POINT_SPAN_US))"

definition gap_span :: "gap \<Rightarrow> span" where
  "gap_span g = (g_start g, g_end g)"

definition ordered_files :: "cover_file list \<Rightarrow> cover_file list" where
  "ordered_files files = filter (\<lambda>f. cf_state f \<notin> set COPY_STATES) (sort_key (\<lambda>f. (cf_lo f, cf_hi f, cf_id f)) files)"

text \<open>The spans of ingested files of other hosts, merged.\<close>

definition others_of :: "string list \<Rightarrow> cover_file list \<Rightarrow> string \<Rightarrow> span list" where
  "others_of ing ordered host = merge_spans COVER_TOLERANCE_US
     (map file_span (filter (\<lambda>f. cf_id f \<in> set ing \<and> cf_host f \<noteq> host) ordered))"

definition file_reason :: "file_state \<Rightarrow> gap_reason" where
  "file_reason st = (if st = Unavailable then SourceMissing
     else if st \<in> set UNFINISHED_STATES then Collecting else Pending)"

definition file_gaps :: "string list \<Rightarrow> cover_file list \<Rightarrow> cover_file \<Rightarrow> gap list" where
  "file_gaps ing ordered f = (if cf_id f \<in> set ing then []
     else map (\<lambda>(lo, hi). \<lparr>g_start = lo, g_end = hi, g_reason = file_reason (cf_state f), g_files = 1\<rparr>)
       (subtract_spans [file_span f] (others_of ing ordered (cf_host f))))"

definition registered :: "cover_file list \<Rightarrow> span list" where
  "registered ordered = merge_spans COVER_TOLERANCE_US (map file_span ordered)"

definition hole_gap :: "int option \<Rightarrow> span \<times> span \<Rightarrow> gap" where
  "hole_gap expired_before lr = (case lr of ((_, left_hi), (right_lo, _)) \<Rightarrow>
     \<lparr>g_start = left_hi, g_end = right_lo,
      g_reason = (case expired_before of Some e \<Rightarrow> if right_lo \<le> e then SourceMissing else SourceUnlisted
        | None \<Rightarrow> SourceUnlisted),
      g_files = 0\<rparr>)"

definition hole_gaps :: "int option \<Rightarrow> cover_file list \<Rightarrow> gap list" where
  "hole_gaps expired_before ordered = (let runs = registered ordered
     in map (hole_gap expired_before) (zip runs (tl runs)))"

definition join_gap :: "gap list \<Rightarrow> gap \<Rightarrow> gap list" where
  "join_gap gs g =
     (if gs \<noteq> [] \<and> g_reason (last gs) = g_reason g \<and> g_start g \<le> g_end (last gs)
      then butlast gs @ [(last gs)\<lparr>g_end := max (g_end (last gs)) (g_end g), g_files := g_files (last gs) + g_files g\<rparr>]
      else gs @ [g])"

definition join_gaps :: "gap list \<Rightarrow> gap list" where
  "join_gaps raw = foldl join_gap [] (sort_key (\<lambda>g. (g_start g, g_end g)) raw)"

definition raw_gaps :: "string list \<Rightarrow> int option \<Rightarrow> cover_file list \<Rightarrow> gap list" where
  "raw_gaps ing expired_before ordered = concat (map (file_gaps ing ordered) ordered) @ hole_gaps expired_before ordered"

definition all_gaps :: "string list \<Rightarrow> int option \<Rightarrow> cover_file list \<Rightarrow> gap list" where
  "all_gaps ing expired_before ordered = join_gaps (raw_gaps ing expired_before ordered)"

definition covered_runs :: "string list \<Rightarrow> cover_file list \<Rightarrow> gap list \<Rightarrow> span list" where
  "covered_runs ing ordered gs = subtract_spans
     (merge_spans COVER_TOLERANCE_US (map file_span (filter (\<lambda>f. cf_id f \<in> set ing) ordered)))
     (merge_spans 0 (map gap_span gs))"

definition clip_spans :: "int \<Rightarrow> int \<Rightarrow> span list \<Rightarrow> span list" where
  "clip_spans start stop ss = map (\<lambda>(lo, hi). (max lo start, min hi stop))
     (filter (\<lambda>(lo, hi). max lo start < min hi stop) ss)"

definition clip_gaps :: "int \<Rightarrow> int \<Rightarrow> gap list \<Rightarrow> gap list" where
  "clip_gaps start stop gs = map (\<lambda>g. g\<lparr>g_start := max (g_start g) start, g_end := min (g_end g) stop\<rparr>)
     (filter (\<lambda>g. max (g_start g) start < min (g_end g) stop) gs)"

definition edge_gap :: "int \<Rightarrow> int \<Rightarrow> gap_reason \<Rightarrow> gap" where
  "edge_gap lo hi reason = \<lparr>g_start = lo, g_end = hi, g_reason = reason, g_files = 0\<rparr>"

definition edge_gaps :: "int \<Rightarrow> int \<Rightarrow> cover_file list \<Rightarrow> gap list \<Rightarrow> gap list" where
  "edge_gaps start stop ordered gs =
     (if ordered = [] then gs @ [edge_gap start stop NoData]
      else let latest = Max (set (map cf_hi ordered)); earliest = Min (set (map cf_lo ordered));
               gs = (if start < earliest then edge_gap start (min earliest stop) NoData # gs else gs)
        in if latest < stop \<and> max latest start < stop then gs @ [edge_gap (max latest start) stop NotCollectedYet] else gs)"

text \<open>\<open>coverage_runs\<close> without a window, and with one.\<close>

definition coverage_runs_all :: "cover_file list \<Rightarrow> string list \<Rightarrow> int option \<Rightarrow> run_coverage" where
  "coverage_runs_all files ing expired_before = (let ordered = ordered_files files;
     gs = all_gaps ing expired_before ordered in \<lparr>intervals = covered_runs ing ordered gs, gaps = gs\<rparr>)"

definition coverage_runs :: "cover_file list \<Rightarrow> string list \<Rightarrow> int \<Rightarrow> int \<Rightarrow> int option \<Rightarrow> run_coverage" where
  "coverage_runs files ing start stop expired_before = (let ordered = ordered_files files;
     gs = all_gaps ing expired_before ordered in
     \<lparr>intervals = clip_spans start stop (covered_runs ing ordered gs),
      gaps = edge_gaps start stop ordered (clip_gaps start stop gs)\<rparr>)"

definition covered_us :: "run_coverage \<Rightarrow> int" where
  "covered_us c = sum_list (map (\<lambda>(lo, hi). hi - lo) (intervals c))"

definition requested_us :: "int \<Rightarrow> int \<Rightarrow> int" where
  "requested_us start stop = max (stop - start) 0"

section \<open>Points of a coverage\<close>

definition gap_covers :: "gap list \<Rightarrow> int \<Rightarrow> bool" where
  "gap_covers gs x \<longleftrightarrow> covers (map gap_span gs) x"

definition gaps_proper :: "gap list \<Rightarrow> bool" where
  "gaps_proper gs \<longleftrightarrow> (\<forall>g \<in> set gs. g_start g \<le> g_end g)"

lemma gap_covers_simps [simp]:
  "gap_covers [] x = False"
  "gap_covers (g # gs) x \<longleftrightarrow> (g_start g \<le> x \<and> x < g_end g) \<or> gap_covers gs x"
  "gap_covers (gs @ hs) x \<longleftrightarrow> gap_covers gs x \<or> gap_covers hs x"
  by (simp_all add: gap_covers_def gap_span_def)

lemma gap_covers_iff: "gap_covers gs x \<longleftrightarrow> (\<exists>g \<in> set gs. g_start g \<le> x \<and> x < g_end g)"
  by (induction gs) auto

lemma gaps_proper_simps [simp]:
  "gaps_proper []" "gaps_proper (g # gs) \<longleftrightarrow> g_start g \<le> g_end g \<and> gaps_proper gs"
  "gaps_proper (gs @ hs) \<longleftrightarrow> gaps_proper gs \<and> gaps_proper hs"
  by (auto simp: gaps_proper_def)

lemma proper_gap_spans: "proper (map gap_span gs) = gaps_proper gs"
  by (induction gs) (simp_all add: gap_span_def)

lemma file_span_less: "fst (file_span f) < snd (file_span f)"
  by (simp add: file_span_def POINT_SPAN_US_def)

lemma proper_file_spans [simp]: "proper (map file_span fs)"
  by (induction fs) (simp_all add: less_imp_le [OF file_span_less])

lemma tolerance_pos [simp]: "0 \<le> COVER_TOLERANCE_US"
  by (simp add: COVER_TOLERANCE_US_def)

lemma set_ordered_files: "set (ordered_files files) = {f \<in> set files. cf_state f \<notin> set COPY_STATES}"
  by (auto simp: ordered_files_def)

lemma others_runs: "runs COVER_TOLERANCE_US (others_of ing ordered host)"
  by (simp add: others_of_def merge_spans_runs)

definition others_cover :: "string list \<Rightarrow> cover_file list \<Rightarrow> string \<Rightarrow> int \<Rightarrow> bool" where
  "others_cover ing ordered host x \<longleftrightarrow>
     bridged COVER_TOLERANCE_US (map file_span (filter (\<lambda>f. cf_id f \<in> set ing \<and> cf_host f \<noteq> host) ordered)) x"

lemma file_gaps_points:
  "gap_covers (file_gaps ing ordered f) x \<longleftrightarrow> cf_id f \<notin> set ing \<and> fst (file_span f) \<le> x \<and> x < snd (file_span f)
     \<and> \<not> others_cover ing ordered (cf_host f) x"
proof -
  have m: "map gap_span (map (\<lambda>(lo, hi). \<lparr>g_start = lo, g_end = hi, g_reason = reason, g_files = 1\<rparr>) ss) = ss" for ss reason
    by (induction ss) (auto simp: gap_span_def)
  show ?thesis
    unfolding gap_covers_def file_gaps_def
    by (simp add: m subtract_covers [OF others_runs] del: map_map)
      (simp add: others_of_def merge_spans_covers others_cover_def)
qed

lemma file_gaps_proper: "gaps_proper (file_gaps ing ordered f)"
proof -
  have "fst s < snd s" if "s \<in> set (subtract_spans [file_span f] (others_of ing ordered (cf_host f)))" for s
    using subtract_pieces [OF others_runs, of "[file_span f]" ing ordered "cf_host f"] that
      less_imp_le [OF file_span_less] by auto
  then show ?thesis unfolding gaps_proper_def file_gaps_def
    by (auto simp: less_imp_le)
qed

lemma registered_runs: "runs COVER_TOLERANCE_US (registered ordered)"
  by (simp add: registered_def merge_spans_runs)

lemma registered_covers: "covers (registered ordered) x \<longleftrightarrow> bridged COVER_TOLERANCE_US (map file_span ordered) x"
  by (simp add: registered_def merge_spans_covers)

lemma hole_gaps_points:
  assumes "runs tol rs" "0 \<le> tol"
  shows "gap_covers (map (hole_gap e) (zip rs (tl rs))) x
    \<longleftrightarrow> \<not> covers rs x \<and> (\<exists>s \<in> set rs. snd s \<le> x) \<and> (\<exists>s \<in> set rs. x < fst s)"
    and "gaps_proper (map (hole_gap e) (zip rs (tl rs)))"
proof -
  have "(gap_covers (map (hole_gap e) (zip rs (tl rs))) x
    \<longleftrightarrow> \<not> covers rs x \<and> (\<exists>s \<in> set rs. snd s \<le> x) \<and> (\<exists>s \<in> set rs. x < fst s))
    \<and> gaps_proper (map (hole_gap e) (zip rs (tl rs)))"
    using assms(1)
  proof (induction rs)
    case (Cons r rs)
    have r: "runs tol rs" using Cons.prems by (simp add: runs_def)
    show ?case
    proof (cases rs)
      case Nil
      with Cons.prems show ?thesis by (auto simp: runs_def)
    next
      case (Cons q qs)
      have rq: "snd r + tol < fst q" "fst r \<le> snd r" "fst q \<le> snd q" using Cons.prems Cons by (auto simp: runs_def)
      have later: "fst q \<le> fst s \<and> fst s \<le> snd s" if "s \<in> set rs" for s
        using that r Cons assms(2) rq(3) by (fastforce simp: runs_def proper_def)
      have q: "q \<in> set rs" using Cons by simp
      have none: "\<not> covers rs x" if "x < fst q"
      proof
        assume "covers rs x"
        then obtain l h where "(l, h) \<in> set rs" "l \<le> x" by (rule coversE)
        with later [of "(l, h)"] that show False by simp
      qed
      have beyond: "fst q \<le> x" if "s \<in> set rs" "snd s \<le> x" for s
        using later [OF that(1)] that(2) by simp
      have next_run: "snd q \<le> x" if "\<not> covers rs x" "fst q \<le> x"
        using that Cons by auto
      have step: "gap_covers (map (hole_gap e) (zip (r # rs) (tl (r # rs)))) x
          \<longleftrightarrow> (snd r \<le> x \<and> x < fst q) \<or> gap_covers (map (hole_gap e) (zip rs (tl rs))) x"
        by (simp add: Cons hole_gap_def split: prod.splits)
      have "gap_covers (map (hole_gap e) (zip (r # rs) (tl (r # rs)))) x
          \<longleftrightarrow> \<not> covers (r # rs) x \<and> (\<exists>s \<in> set (r # rs). snd s \<le> x) \<and> (\<exists>s \<in> set (r # rs). x < fst s)" (is "?L \<longleftrightarrow> ?R")
      proof
        assume ?L
        then consider "snd r \<le> x" "x < fst q" | "\<not> covers rs x" "\<exists>s \<in> set rs. snd s \<le> x" "\<exists>s \<in> set rs. x < fst s"
          using step Cons.IH [OF r] by blast
        then show ?R
        proof cases
          case 1
          with none q show ?thesis by auto
        next
          case 2
          then have "fst q \<le> x" using beyond by blast
          with 2 rq assms(2) show ?thesis by auto
        qed
      next
        assume R: ?R
        then have nc: "\<not> covers rs x" by simp
        have "snd r \<le> x" using R rq assms(2) beyond by force
        moreover have "gap_covers (map (hole_gap e) (zip rs (tl rs))) x" if "fst q \<le> x"
        proof -
          have "\<exists>s \<in> set rs. x < fst s" using R rq assms(2) that by auto
          with nc next_run [OF nc that] q Cons.IH [OF r] show ?thesis by blast
        qed
        ultimately show ?L using step by force
      qed
      moreover have "gaps_proper (map (hole_gap e) (zip (r # rs) (tl (r # rs))))"
      proof -
        have "map (hole_gap e) (zip (r # rs) (tl (r # rs))) = hole_gap e (r, q) # map (hole_gap e) (zip rs (tl rs))"
          by (simp add: Cons)
        moreover have "g_start (hole_gap e (r, q)) \<le> g_end (hole_gap e (r, q))"
          using rq assms(2) by (auto simp: hole_gap_def split: prod.splits)
        ultimately show ?thesis using conjunct2 [OF Cons.IH [OF r]] by simp
      qed
      ultimately show ?thesis by blast
    qed
  qed simp
  then show "gap_covers (map (hole_gap e) (zip rs (tl rs))) x
    \<longleftrightarrow> \<not> covers rs x \<and> (\<exists>s \<in> set rs. snd s \<le> x) \<and> (\<exists>s \<in> set rs. x < fst s)"
    "gaps_proper (map (hole_gap e) (zip rs (tl rs)))" by blast+
qed

lemma join_gap_fold:
  assumes "sorted (map (\<lambda>g. (g_start g, g_end g)) raw)" "gaps_proper raw"
  shows "(gap_covers (foldl join_gap [] raw) x \<longleftrightarrow> gap_covers raw x) \<and> gaps_proper (foldl join_gap [] raw)
    \<and> g_start ` set (foldl join_gap [] raw) \<subseteq> g_start ` set raw"
  using assms
proof (induction raw rule: rev_induct)
  case (snoc g raw)
  let ?acc = "foldl join_gap [] raw"
  have IH: "gap_covers ?acc x \<longleftrightarrow> gap_covers raw x" "gaps_proper ?acc" "g_start ` set ?acc \<subseteq> g_start ` set raw"
    using snoc by (auto simp: sorted_wrt_append)
  have starts: "g_start a \<le> g_start g" if "a \<in> set ?acc" for a
  proof -
    have "g_start a \<in> g_start ` set raw" using that IH(3) by blast
    then obtain b where "b \<in> set raw" "g_start a = g_start b" by auto
    with snoc.prems(1) show ?thesis by (auto simp: sorted_wrt_append less_eq_prod_def)
  qed
  show ?case
  proof (cases "?acc \<noteq> [] \<and> g_reason (last ?acc) = g_reason g \<and> g_start g \<le> g_end (last ?acc)")
    case False
    then have "join_gap ?acc g = ?acc @ [g]" unfolding join_gap_def by argo
    with IH snoc.prems show ?thesis by (auto simp: image_iff)
  next
    case True
    define m where "m = (last ?acc)\<lparr>g_end := max (g_end (last ?acc)) (g_end g), g_files := g_files (last ?acc) + g_files g\<rparr>"
    have j: "join_gap ?acc g = butlast ?acc @ [m]" using True unfolding join_gap_def m_def by argo
    have acc: "?acc = butlast ?acc @ [last ?acc]" using True by simp
    have le: "g_start (last ?acc) \<le> g_start g" using starts True by simp
    have "gap_covers ?acc x \<longleftrightarrow> gap_covers (butlast ?acc) x \<or> (g_start (last ?acc) \<le> x \<and> x < g_end (last ?acc))"
      by (subst acc) simp
    then have "gap_covers (butlast ?acc @ [m]) x \<longleftrightarrow> gap_covers (raw @ [g]) x"
      using IH(1) le True by (auto simp: m_def)
    moreover have "gaps_proper (butlast ?acc @ [m])"
      using IH(2) acc snoc.prems by (auto simp: gaps_proper_def m_def dest: in_set_butlastD)
        (metis True last_in_set max.coboundedI1)
    moreover have "g_start ` set (butlast ?acc @ [m]) \<subseteq> g_start ` set (raw @ [g])"
    proof -
      have "g_start m = g_start (last ?acc)" "last ?acc \<in> set ?acc" using True by (simp_all add: m_def)
      then have "g_start m \<in> g_start ` set raw" using IH(3) by auto
      moreover have "g_start ` set (butlast ?acc) \<subseteq> g_start ` set raw" using IH(3) by (auto dest: in_set_butlastD)
      ultimately show ?thesis by auto
    qed
    ultimately show ?thesis by (simp add: j)
  qed
qed simp

lemma join_gaps_points:
  assumes "gaps_proper raw"
  shows "gap_covers (join_gaps raw) x \<longleftrightarrow> gap_covers raw x" "gaps_proper (join_gaps raw)"
proof -
  let ?s = "sort_key (\<lambda>g. (g_start g, g_end g)) raw"
  have "gaps_proper ?s" "gap_covers ?s x \<longleftrightarrow> gap_covers raw x" using assms by (simp_all add: gaps_proper_def gap_covers_iff)
  with join_gap_fold [of ?s x] show "gap_covers (join_gaps raw) x \<longleftrightarrow> gap_covers raw x" "gaps_proper (join_gaps raw)"
    by (simp_all add: join_gaps_def)
qed

lemma gap_covers_concat: "gap_covers (concat gss) x \<longleftrightarrow> (\<exists>gs \<in> set gss. gap_covers gs x)"
  by (induction gss) auto

lemma raw_gaps_points:
  "gap_covers (raw_gaps ing e ordered) x \<longleftrightarrow>
     (\<exists>f \<in> set ordered. cf_id f \<notin> set ing \<and> fst (file_span f) \<le> x \<and> x < snd (file_span f) \<and> \<not> others_cover ing ordered (cf_host f) x)
     \<or> (\<not> covers (registered ordered) x \<and> (\<exists>s \<in> set (registered ordered). snd s \<le> x) \<and> (\<exists>s \<in> set (registered ordered). x < fst s))"
  by (simp add: raw_gaps_def gap_covers_concat file_gaps_points hole_gaps_def Let_def
      hole_gaps_points(1) [OF registered_runs tolerance_pos])

lemma raw_gaps_proper: "gaps_proper (raw_gaps ing e ordered)"
proof -
  have "gaps_proper (concat (map (file_gaps ing ordered) fs))" for fs
    by (induction fs) (simp_all add: file_gaps_proper)
  then show ?thesis
    by (simp add: raw_gaps_def hole_gaps_def Let_def hole_gaps_points(2) [OF registered_runs tolerance_pos])
qed

lemma all_gaps_points:
  "gap_covers (all_gaps ing e ordered) x \<longleftrightarrow> gap_covers (raw_gaps ing e ordered) x"
  "gaps_proper (all_gaps ing e ordered)"
  by (simp_all add: all_gaps_def join_gaps_points raw_gaps_proper)

definition ingested_covers :: "string list \<Rightarrow> cover_file list \<Rightarrow> int \<Rightarrow> bool" where
  "ingested_covers ing ordered x \<longleftrightarrow>
     bridged COVER_TOLERANCE_US (map file_span (filter (\<lambda>f. cf_id f \<in> set ing) ordered)) x"

lemma covered_runs_points:
  assumes "gaps_proper gs"
  shows "covers (covered_runs ing ordered gs) x \<longleftrightarrow> ingested_covers ing ordered x \<and> \<not> gap_covers gs x"
proof -
  have p: "proper (map gap_span gs)" using assms by (simp add: proper_gap_spans)
  show ?thesis
    unfolding covered_runs_def subtract_covers [OF merge_spans_runs [OF order.refl p] order.refl]
    by (simp add: merge_spans_covers merge_spans_covers [OF order.refl p] bridged_zero gap_covers_def ingested_covers_def)
qed

lemma covered_runs_pieces:
  assumes "gaps_proper gs"
  shows "sorted_wrt (\<lambda>a b. snd a \<le> fst b) (covered_runs ing ordered gs) \<and> (\<forall>s \<in> set (covered_runs ing ordered gs). fst s < snd s)"
proof -
  have p: "proper (map gap_span gs)" using assms by (simp add: proper_gap_spans)
  let ?m = "merge_spans COVER_TOLERANCE_US (map file_span (filter (\<lambda>f. cf_id f \<in> set ing) ordered))"
  have m: "runs COVER_TOLERANCE_US ?m" by (rule merge_spans_runs) simp_all
  then have "sorted_wrt (\<lambda>a b. snd a \<le> fst b) ?m" "proper ?m"
    by (auto simp: runs_def COVER_TOLERANCE_US_def elim!: sorted_wrt_mono_rel [rotated])
  then show ?thesis
    unfolding covered_runs_def using subtract_pieces [OF merge_spans_runs [OF order.refl p] order.refl] by blast
qed

lemma clip_spans_points: "covers (clip_spans start stop ss) x \<longleftrightarrow> start \<le> x \<and> x < stop \<and> covers ss x"
  by (induction ss) (auto simp: clip_spans_def split: if_splits)

lemma clip_gaps_points: "gap_covers (clip_gaps start stop gs) x \<longleftrightarrow> start \<le> x \<and> x < stop \<and> gap_covers gs x"
  by (induction gs) (auto simp: clip_gaps_def split: if_splits)

section \<open>What a coverage promises\<close>

definition span_holds :: "cover_file \<Rightarrow> int \<Rightarrow> bool" where
  "span_holds f x \<longleftrightarrow> fst (file_span f) \<le> x \<and> x < snd (file_span f)"

text \<open>Another host's ingested files hold the changes of \<open>x\<close> (or bridge it within the tolerance).\<close>

definition held_by_other :: "cover_file list \<Rightarrow> string list \<Rightarrow> string \<Rightarrow> int \<Rightarrow> bool" where
  "held_by_other files ing host x \<longleftrightarrow> bridged COVER_TOLERANCE_US
     (map file_span (filter (\<lambda>f. cf_state f \<notin> set COPY_STATES \<and> cf_id f \<in> set ing \<and> cf_host f \<noteq> host) files)) x"

lemma held_by_other_iff: "held_by_other files ing host x \<longleftrightarrow> others_cover ing (ordered_files files) host x"
  unfolding held_by_other_def others_cover_def by (rule bridged_set) (auto simp: set_ordered_files)

lemma coverage_runs_interval:
  "covers (intervals (coverage_runs files ing start stop e)) x \<longleftrightarrow> start \<le> x \<and> x < stop
     \<and> ingested_covers ing (ordered_files files) x \<and> \<not> gap_covers (raw_gaps ing e (ordered_files files)) x"
  by (simp add: coverage_runs_def Let_def clip_spans_points covered_runs_points all_gaps_points)

lemma coverage_runs_gap:
  assumes "ordered_files files \<noteq> []"
  shows "gap_covers (gaps (coverage_runs files ing start stop e)) x \<longleftrightarrow>
     (start \<le> x \<and> x < stop \<and> gap_covers (raw_gaps ing e (ordered_files files)) x)
     \<or> (start \<le> x \<and> x < stop \<and> (\<forall>f \<in> set (ordered_files files). x < cf_lo f))
     \<or> (start \<le> x \<and> x < stop \<and> (\<forall>f \<in> set (ordered_files files). cf_hi f \<le> x))"
proof -
  let ?o = "ordered_files files"
  have lo: "x < Min (set (map cf_lo ?o)) \<longleftrightarrow> (\<forall>f \<in> set ?o. x < cf_lo f)" using assms by simp
  have hi: "Max (set (map cf_hi ?o)) \<le> x \<longleftrightarrow> (\<forall>f \<in> set ?o. cf_hi f \<le> x)" using assms by simp
  have "gap_covers (edge_gaps start stop ?o gs) x \<longleftrightarrow> gap_covers gs x
      \<or> (start \<le> x \<and> x < stop \<and> x < Min (set (map cf_lo ?o))) \<or> (start \<le> x \<and> x < stop \<and> Max (set (map cf_hi ?o)) \<le> x)" for gs
    using assms by (auto simp: edge_gaps_def edge_gap_def Let_def)
  then show ?thesis
    unfolding lo hi by (simp add: coverage_runs_def Let_def clip_gaps_points all_gaps_points del: set_map)
qed

text \<open>
  Property C7. A covered interval is never a silent zero: at each of its points every registered file whose
  span holds the point is ingested, or ingested files of another host hold it, and an ingested file reaches
  the point; no gap of the answer overlaps it, except that \<open>not_collected_yet\<close> may start inside the one
  second a newest file with an empty span counts for.
\<close>

theorem coverage_runs_sound:
  assumes "covers (intervals (coverage_runs files ing start stop e)) x"
  shows "start \<le> x \<and> x < stop
    \<and> (\<forall>f \<in> set files. cf_state f \<notin> set COPY_STATES \<and> span_holds f x \<longrightarrow>
         cf_id f \<in> set ing \<or> held_by_other files ing (cf_host f) x)
    \<and> (\<exists>f \<in> set files. cf_state f \<notin> set COPY_STATES \<and> cf_id f \<in> set ing \<and> cf_lo f \<le> x)
    \<and> (gap_covers (gaps (coverage_runs files ing start stop e)) x \<longrightarrow>
         (\<forall>f \<in> set files. cf_state f \<notin> set COPY_STATES \<longrightarrow> cf_hi f \<le> x))"
proof -
  let ?o = "ordered_files files"
  have x: "start \<le> x" "x < stop" and ic: "ingested_covers ing ?o x" and ng: "\<not> gap_covers (raw_gaps ing e ?o) x"
    using assms by (auto simp: coverage_runs_interval)
  obtain f where f: "f \<in> set ?o" "cf_id f \<in> set ing" "cf_lo f \<le> x"
    using ic unfolding ingested_covers_def
    by (elim bridgedE) (auto simp: file_span_def split: if_splits)
  have "cf_id g \<in> set ing \<or> held_by_other files ing (cf_host g) x"
    if "g \<in> set files" "cf_state g \<notin> set COPY_STATES" "span_holds g x" for g
    using ng that unfolding raw_gaps_points held_by_other_iff by (auto simp: set_ordered_files span_holds_def)
  moreover have "\<forall>f \<in> set ?o. cf_hi f \<le> x" if "gap_covers (gaps (coverage_runs files ing start stop e)) x"
  proof -
    have "?o \<noteq> []" using f by auto
    from that f ng show ?thesis unfolding coverage_runs_gap [OF \<open>?o \<noteq> []\<close>] by force
  qed
  ultimately show ?thesis using x f by (auto simp: set_ordered_files)
qed

definition sample_files :: "cover_file list" where
  "sample_files = [\<lparr>cf_id = ''a'', cf_lo = 0, cf_hi = 10, cf_state = Done, cf_host = ''h1''\<rparr>,
     \<lparr>cf_id = ''b'', cf_lo = 10, cf_hi = 20, cf_state = Done, cf_host = ''h1''\<rparr>,
     \<lparr>cf_id = ''c'', cf_lo = 5, cf_hi = 15, cf_state = Failed, cf_host = ''h2''\<rparr>,
     \<lparr>cf_id = ''d'', cf_lo = 20, cf_hi = 30, cf_state = Downloading, cf_host = ''h1''\<rparr>]"

theorem coverage_runs_sound_witness:
  "intervals (coverage_runs sample_files [''a'', ''b''] 2 40 None) = [(2, 20)]
   \<and> held_by_other sample_files [''a'', ''b''] ''h2'' 7"
proof -
  have i: "intervals (coverage_runs sample_files [''a'', ''b''] 2 40 None) = [(2, 20)]" by code_simp
  then have "covers (intervals (coverage_runs sample_files [''a'', ''b''] 2 40 None)) 7" by simp
  from coverage_runs_sound [OF this] have "held_by_other sample_files [''a'', ''b''] ''h2'' 7"
    by (simp add: sample_files_def COPY_STATES_def span_holds_def file_span_def)
  with i show ?thesis by simp
qed

text \<open>
  Property C27. Nothing of a requested window is left out: each point of it lies in a covered interval or in
  a reported gap, unless two registered files at most two seconds apart leave it between them.
\<close>

theorem coverage_runs_complete:
  assumes "start \<le> x" "x < stop"
  shows "covers (intervals (coverage_runs files ing start stop e)) x
    \<or> gap_covers (gaps (coverage_runs files ing start stop e)) x
    \<or> (\<exists>f \<in> set files. \<exists>g \<in> set files. snd (file_span f) \<le> x \<and> x < fst (file_span g)
         \<and> fst (file_span g) \<le> snd (file_span f) + COVER_TOLERANCE_US)"
proof (cases "ordered_files files = []")
  case True
  then have "gap_covers (gaps (coverage_runs files ing start stop e)) x"
    using assms by (auto simp: coverage_runs_def Let_def edge_gaps_def edge_gap_def)
  then show ?thesis by simp
next
  case False
  let ?o = "ordered_files files"
  show ?thesis
  proof (cases "covers (intervals (coverage_runs files ing start stop e)) x \<or> gap_covers (gaps (coverage_runs files ing start stop e)) x")
    case True
    then show ?thesis by blast
  next
    case neither: False
    then have ng: "\<not> gap_covers (raw_gaps ing e ?o) x"
      and early: "\<exists>f \<in> set ?o. cf_lo f \<le> x" and late: "\<exists>f \<in> set ?o. x < cf_hi f"
      using assms by (auto simp: coverage_runs_gap [OF False] not_less not_le)
    then have ni: "\<not> ingested_covers ing ?o x" using neither assms by (auto simp: coverage_runs_interval)
    have unheld: "\<not> span_holds f x" if f: "f \<in> set ?o" for f
    proof
      assume s: "span_holds f x"
      have "cf_id f \<notin> set ing"
      proof
        assume "cf_id f \<in> set ing"
        with f s have "covers (map file_span (filter (\<lambda>f. cf_id f \<in> set ing) ?o)) x"
          by (auto simp: covers_def span_holds_def case_prod_beta)
        then show False using ni covers_bridged unfolding ingested_covers_def by blast
      qed
      then have "others_cover ing ?o (cf_host f) x"
        using ng f s unfolding raw_gaps_points span_holds_def by blast
      then have "ingested_covers ing ?o x"
        unfolding others_cover_def ingested_covers_def by (rule bridged_mono) auto
      with ni show False by simp
    qed
    have "covers (registered ?o) x"
    proof (rule ccontr)
      assume nr: "\<not> covers (registered ?o) x"
      obtain f where f: "f \<in> set ?o" "cf_lo f \<le> x" using early by blast
      obtain g where g: "g \<in> set ?o" "x < cf_hi g" using late by blast
      have fl: "fst (file_span f) \<le> x" using f by (simp add: file_span_def)
      have gh: "x < snd (file_span g)" using g by (auto simp: file_span_def POINT_SPAN_US_def)
      have in_reg: "\<exists>s \<in> set (registered ?o). fst s \<le> y \<and> y < snd s" if "h \<in> set ?o" "fst (file_span h) \<le> y" "y < snd (file_span h)" for h y
      proof -
        have "covers (map file_span ?o) y" using that by (auto simp: covers_def case_prod_beta)
        then have "covers (registered ?o) y" by (simp add: registered_covers covers_bridged)
        then show ?thesis unfolding covers_def case_prod_beta .
      qed
      have less: "fst (file_span h) < snd (file_span h)" for h by (rule file_span_less)
      obtain s where s: "s \<in> set (registered ?o)" "fst s \<le> fst (file_span f)" "fst (file_span f) < snd s"
        using in_reg [OF f(1) order.refl less] by auto
      have "snd s \<le> x" using s(1,2) fl nr by (force simp: covers_def)
      obtain t where t: "t \<in> set (registered ?o)" "fst t \<le> snd (file_span g) - 1" "snd (file_span g) - 1 < snd t"
        using in_reg [OF g(1), of "snd (file_span g) - 1"] less [of g] by auto
      have "x < fst t" using t gh nr by (force simp: covers_def)
      with s t \<open>snd s \<le> x\<close> nr ng show False unfolding raw_gaps_points by blast
    qed
    then have "bridged COVER_TOLERANCE_US (map file_span ?o) x" by (simp add: registered_covers)
    then show ?thesis
    proof (cases rule: bridgedE)
      case (1 l h)
      then show ?thesis using unheld by (auto simp: span_holds_def) (metis fst_conv snd_conv)
    next
      case (2 l h l' h')
      then obtain f g where fg: "f \<in> set ?o" "file_span f = (l, h)" "g \<in> set ?o" "file_span g = (l', h')" by auto
      have "h \<le> x" using unheld [OF fg(1)] 2(3) fg(2) by (auto simp: span_holds_def)
      then have "snd (file_span f) \<le> x" "x < fst (file_span g)" "fst (file_span g) \<le> snd (file_span f) + COVER_TOLERANCE_US"
        using 2 fg by simp_all
      moreover have "f \<in> set files" "g \<in> set files" using fg by (simp_all add: set_ordered_files)
      ultimately show ?thesis by blast
    qed
  qed
qed

theorem coverage_runs_complete_witness:
  "gap_covers (gaps (coverage_runs sample_files [''a'', ''b''] 2 40 None)) 35"
proof -
  have "intervals (coverage_runs sample_files [''a'', ''b''] 2 40 None) = [(2, 20)]" by code_simp
  then show ?thesis
    using coverage_runs_complete [of 2 35 40 sample_files "[''a'', ''b'']" None]
    by (simp add: sample_files_def file_span_def)
qed

lemma spans_total_le:
  assumes "sorted_wrt (\<lambda>a b. snd a \<le> fst b) ss" "\<forall>s \<in> set ss. lo \<le> fst s \<and> fst s \<le> snd s \<and> snd s \<le> hi" "lo \<le> hi"
  shows "0 \<le> sum_list (map (\<lambda>(l, h). h - l) ss) \<and> sum_list (map (\<lambda>(l, h). h - l) ss) \<le> hi - (lo :: int)"
  using assms
proof (induction ss arbitrary: lo)
  case (Cons s ss)
  have "\<forall>t \<in> set ss. snd s \<le> fst t \<and> fst t \<le> snd t \<and> snd t \<le> hi" using Cons.prems by auto
  then have "0 \<le> sum_list (map (\<lambda>(l, h). h - l) ss) \<and> sum_list (map (\<lambda>(l, h). h - l) ss) \<le> hi - snd s"
    using Cons by (intro Cons.IH) auto
  moreover have "sum_list (map (\<lambda>(l, h). h - l) (s # ss)) = snd s - fst s + sum_list (map (\<lambda>(l, h). h - l) ss)"
    by (simp add: case_prod_beta)
  ultimately show ?case using Cons.prems by auto
qed simp

text \<open>
  The covered length of a window is between zero and the requested length, and the covered
  intervals are disjoint and in order.
\<close>

theorem covered_us_bounds:
  "0 \<le> covered_us (coverage_runs files ing start stop e)
   \<and> covered_us (coverage_runs files ing start stop e) \<le> requested_us start stop
   \<and> sorted_wrt (\<lambda>a b. snd a \<le> fst b) (intervals (coverage_runs files ing start stop e))"
proof -
  let ?gs = "all_gaps ing e (ordered_files files)"
  let ?r = "covered_runs ing (ordered_files files) ?gs"
  have p: "sorted_wrt (\<lambda>a b. snd a \<le> fst b) ?r \<and> (\<forall>s \<in> set ?r. fst s < snd s)"
    by (rule covered_runs_pieces) (rule all_gaps_points)
  have srt: "sorted_wrt (\<lambda>a b. snd a \<le> fst b) (clip_spans start stop ss)"
    if "sorted_wrt (\<lambda>a b. snd a \<le> fst b) ss" for ss
    using that by (induction ss) (force simp: clip_spans_def)+
  have within: "start \<le> fst s \<and> fst s \<le> snd s \<and> snd s \<le> stop" if "s \<in> set (clip_spans start stop ss)" for s ss
    using that by (auto simp: clip_spans_def)
  have ne: "start \<le> stop" if "clip_spans start stop ss \<noteq> []" for ss
    using within that by (metis list.set_sel(1) order_trans)
  have "0 \<le> sum_list (map (\<lambda>(l, h). h - l) (clip_spans start stop ?r))
      \<and> sum_list (map (\<lambda>(l, h). h - l) (clip_spans start stop ?r)) \<le> requested_us start stop"
  proof (cases "clip_spans start stop ?r = []")
    case True
    then show ?thesis by (simp add: requested_us_def)
  next
    case False
    from spans_total_le [OF srt _ ne [OF False], of ?r] within p ne [OF False]
    show ?thesis by (auto simp: requested_us_def)
  qed
  with srt p show ?thesis by (simp add: covered_us_def coverage_runs_def Let_def)
qed

end
