(* ===== verification/RowQuery.thy ===== *)
theory RowQuery
  imports RowCoverage
begin

text \<open>
  The newest-first query over the row store: day slices, the loop that halves a slice ClickHouse refuses for
  memory, the deadline and the page that is cut out. ClickHouse is the parameter \<open>fetch\<close>: the answer of
  the \<open>k\<close>-th statement for the rows of a slice under a \<open>LIMIT\<close>. Clock readings are in microseconds.
\<close>

section \<open>Day slices\<close>

definition DAY_US :: int where "DAY_US = 86400000000"

function day_slices_from :: "int \<Rightarrow> int \<Rightarrow> span list" where
  "day_slices_from start hi = (if start \<le> hi
     then let lo = max start ((hi div DAY_US) * DAY_US) in (lo, hi) # day_slices_from start (lo - 1)
     else [])"
  by pat_completeness auto
termination
proof (relation "measure (\<lambda>(start, hi). nat (hi - start + 1))")
  fix start hi lo :: int
  assume "start \<le> hi" "lo = max start ((hi div DAY_US) * DAY_US)"
  moreover have "(hi div DAY_US) * DAY_US \<le> hi" by (simp add: DAY_US_def)
  ultimately show "((start, lo - 1), (start, hi)) \<in> measure (\<lambda>(start, hi). nat (hi - start + 1))" by auto
qed simp

declare day_slices_from.simps [simp del]

definition day_slices :: "int \<Rightarrow> int \<Rightarrow> span list" where
  "day_slices start stop = day_slices_from start stop"

text \<open>Closed slices \<open>[lo, hi]\<close> from \<open>hi\<close> down to \<open>start\<close> without a hole.\<close>

fun tiles :: "int \<Rightarrow> int \<Rightarrow> span list \<Rightarrow> bool" where
  "tiles start hi [] \<longleftrightarrow> hi < start"
| "tiles start hi ((l, h) # ss) \<longleftrightarrow> h = hi \<and> l \<le> h \<and> start \<le> l \<and> tiles start (l - 1) ss"

lemma day_slices_tiles: "tiles start hi (day_slices_from start hi)"
proof (induction start hi rule: day_slices_from.induct)
  case (1 start hi)
  have "(hi div DAY_US) * DAY_US \<le> hi" by (simp add: DAY_US_def)
  with 1 show ?case by (subst day_slices_from.simps) (auto simp: Let_def)
qed

lemma day_slices_day: "(l, h) \<in> set (day_slices_from start hi) \<Longrightarrow> l div DAY_US = h div DAY_US"
proof (induction start hi rule: day_slices_from.induct)
  case (1 start hi)
  have "x div DAY_US = hi div DAY_US" if "(hi div DAY_US) * DAY_US \<le> x" "x \<le> hi" for x
  proof -
    have "hi div DAY_US \<le> x div DAY_US" using zdiv_mono1 [OF that(1), of DAY_US] by (simp add: DAY_US_def)
    moreover have "x div DAY_US \<le> hi div DAY_US" using zdiv_mono1 [OF that(2), of DAY_US] by (simp add: DAY_US_def)
    ultimately show ?thesis by simp
  qed
  moreover have "(hi div DAY_US) * DAY_US \<le> hi" by (simp add: DAY_US_def)
  moreover have le: "start \<le> hi" using "1.prems" by (subst (asm) day_slices_from.simps) (simp split: if_splits)
  define lo where "lo = max start ((hi div DAY_US) * DAY_US)"
  have step: "day_slices_from start hi = (lo, hi) # day_slices_from start (lo - 1)"
    by (subst day_slices_from.simps) (simp add: le lo_def Let_def)
  from "1.prems" consider "l = lo" "h = hi" | "(l, h) \<in> set (day_slices_from start (lo - 1))"
    unfolding step by auto
  then show ?case
  proof cases
    case 1
    have "lo \<le> hi" "(hi div DAY_US) * DAY_US \<le> lo"
      using le \<open>(hi div DAY_US) * DAY_US \<le> hi\<close> by (simp_all add: lo_def)
    with 1 \<open>\<And>x. (hi div DAY_US) * DAY_US \<le> x \<Longrightarrow> x \<le> hi \<Longrightarrow> x div DAY_US = hi div DAY_US\<close> show ?thesis by blast
  next
    case 2
    with "1.IH" [OF le lo_def] show ?thesis by blast
  qed
qed

section \<open>The query loop\<close>

text \<open>What stops a query: the error text of ClickHouse or of the deadline check, or a cancelled task.\<close>

datatype query_error = Raw string | QueryDeadline | Cancelled

fun has_text :: "string \<Rightarrow> string \<Rightarrow> bool" where
  "has_text sub [] = (sub = [])"
| "has_text sub (c # cs) = (take (length sub) (c # cs) = sub \<or> has_text sub cs)"

definition memory_limited :: "string \<Rightarrow> bool" where
  "memory_limited s \<longleftrightarrow> has_text ''Code: 241'' s \<or> has_text ''MEMORY_LIMIT_EXCEEDED'' s"

definition QUERY_DEADLINE_SECONDS :: int where "QUERY_DEADLINE_SECONDS = 100"
definition QUERY_SPLIT_MIN_US :: int where "QUERY_SPLIT_MIN_US = 600000000"
definition PAGE_DEPTH_LIMIT :: int where "PAGE_DEPTH_LIMIT = 2000"

record 'r world =
  fetch :: "nat \<Rightarrow> int \<Rightarrow> int \<Rightarrow> nat \<Rightarrow> string + 'r list"
  clock :: "nat \<Rightarrow> int"
  cancelled :: "nat \<Rightarrow> bool"

fun slice_weight :: "span \<Rightarrow> nat" where
  "slice_weight (lo, hi) = nat (max 1 (2 * (hi - lo) + 1))"

function query_loop :: "'r world \<Rightarrow> int \<Rightarrow> nat \<Rightarrow> nat \<Rightarrow> span list \<Rightarrow> 'r list \<Rightarrow> query_error + 'r list" where
  "query_loop w deadline wanted k [] rows = Inr rows"
| "query_loop w deadline wanted k ((lo, hi) # pending) rows =
    (if deadline - clock w k \<le> 1000000 then Inl (Raw ''TIMEOUT_EXCEEDED across day slices'')
     else if cancelled w k then Inl Cancelled
     else case fetch w k lo hi (wanted - length rows) of
       Inl e \<Rightarrow>
        (if \<not> memory_limited e \<or> hi - lo < 2 * QUERY_SPLIT_MIN_US then Inl (Raw e)
         else let mid = lo + (hi - lo) div 2 in
           query_loop w deadline wanted (Suc k) ((mid + 1, hi) # (lo, mid) # pending) rows)
     | Inr rs \<Rightarrow> let rows = rows @ rs in
         if wanted \<le> length rows then Inr rows else query_loop w deadline wanted (Suc k) pending rows)"
  by pat_completeness auto
termination
  by (relation "measure (\<lambda>(w, deadline, wanted, k, pending, rows). sum_list (map slice_weight pending))")
    (auto simp: QUERY_SPLIT_MIN_US_def)

text \<open>The conversion of timeouts into the deadline answer.\<close>

definition query_failure :: "query_error \<Rightarrow> query_error" where
  "query_failure e = (case e of Raw s \<Rightarrow>
     if has_text ''TIMEOUT_EXCEEDED'' s \<or> has_text ''Timeout exceeded'' s then QueryDeadline else Raw s
   | QueryDeadline \<Rightarrow> QueryDeadline | Cancelled \<Rightarrow> Cancelled)"

text \<open>The page bounds of \<open>build_query\<close>; \<open>None\<close> is \<open>RAW_QUERY_PAGE_LIMIT\<close>.\<close>

definition page_bounds :: "int option \<Rightarrow> int option \<Rightarrow> (int \<times> int) option" where
  "page_bounds limit offset = (let l = min (max (case limit of None \<Rightarrow> 100 | Some n \<Rightarrow> if n = 0 then 100 else n) 1) 1000;
       off = int_or_zero offset in
     if off < 0 \<or> PAGE_DEPTH_LIMIT < off + l + 1 then None else Some (l, off))"

record 'r page =
  rows :: "'r list"
  has_more :: bool

definition row_query :: "'r world \<Rightarrow> int \<Rightarrow> int \<Rightarrow> int \<Rightarrow> int \<Rightarrow> int \<Rightarrow> query_error + 'r page" where
  "row_query w started limit offset start stop =
     (case query_loop w (started + QUERY_DEADLINE_SECONDS * 1000000) (nat (offset + limit + 1)) 0 (day_slices start stop) [] of
        Inl e \<Rightarrow> Inl (query_failure e)
      | Inr rs \<Rightarrow> let rs = drop (nat offset) rs in
          Inr \<lparr>rows = take (nat limit) rs, has_more = nat limit < length rs\<rparr>)"

section \<open>The page of the whole window\<close>

text \<open>
  The rows that match, newest first; \<open>fetch\<close> answers a slice with the first rows of it, or fails.
\<close>

definition slice_rows :: "('r \<Rightarrow> int) \<Rightarrow> 'r list \<Rightarrow> int \<Rightarrow> int \<Rightarrow> 'r list" where
  "slice_rows epoch matching lo hi = filter (\<lambda>r. lo \<le> epoch r \<and> epoch r \<le> hi) matching"

definition fetches :: "'r world \<Rightarrow> ('r \<Rightarrow> int) \<Rightarrow> 'r list \<Rightarrow> bool" where
  "fetches w epoch matching \<longleftrightarrow>
     (\<forall>k lo hi n rs. fetch w k lo hi n = Inr rs \<longrightarrow> rs = take n (slice_rows epoch matching lo hi))"

lemma slice_rows_split:
  assumes "sorted_wrt (\<ge>) (map epoch matching)" "lo \<le> mid" "mid \<le> hi"
  shows "slice_rows epoch matching lo hi = slice_rows epoch matching (mid + 1) hi @ slice_rows epoch matching lo mid"
  using assms(1)
proof (induction matching)
  case (Cons r rs)
  show ?case
  proof (cases "epoch r \<le> mid")
    case True
    then have "slice_rows epoch (r # rs) (mid + 1) hi = []"
      using Cons.prems by (auto simp: slice_rows_def filter_empty_conv)
    moreover have "slice_rows epoch rs (mid + 1) hi = []"
      using Cons.prems True by (auto simp: slice_rows_def filter_empty_conv)
    ultimately show ?thesis using Cons True assms(3) by (auto simp: slice_rows_def)
  next
    case False
    with Cons assms(2) show ?thesis by (auto simp: slice_rows_def)
  qed
qed (simp add: slice_rows_def)

lemma slice_rows_empty: "hi < lo \<Longrightarrow> slice_rows epoch matching lo hi = []"
  by (auto simp: slice_rows_def filter_empty_conv)

lemma take_more: "n \<le> length xs \<Longrightarrow> take n (xs @ ys) = take n xs" by simp

lemma query_loop_exact:
  assumes f: "fetches w epoch matching" and s: "sorted_wrt (\<ge>) (map epoch matching)"
    and "tiles start hi pending" "length rs < wanted" "query_loop w deadline wanted k pending rs = Inr out"
  shows "out = take wanted (rs @ slice_rows epoch matching start hi)"
  using assms(3-5) f
proof (induction w deadline wanted k pending rs arbitrary: hi rule: query_loop.induct)
  case (1 w deadline wanted k rs)
  then show ?case by (simp add: slice_rows_empty)
next
  case (2 w deadline wanted k l h pending rs)
  note loop = "2.prems"(3)
  have t: "h = hi" "l \<le> h" "start \<le> l" "tiles start (l - 1) pending" using "2.prems"(1) by auto
  have time: "\<not> deadline - clock w k \<le> 1000000" "\<not> cancelled w k" using loop by (auto split: if_splits)
  have whole: "slice_rows epoch matching start hi = slice_rows epoch matching l hi @ slice_rows epoch matching start (l - 1)"
  proof (cases "start \<le> l - 1")
    case True
    with slice_rows_split [OF s True, of hi] t show ?thesis by simp
  next
    case False
    with t have "start = l" by simp
    then show ?thesis by (simp add: slice_rows_empty)
  qed
  show ?case
  proof (cases "fetch w k l h (wanted - length rs)")
    case (Inl e)
    then have ok: "\<not> (\<not> memory_limited e \<or> h - l < 2 * QUERY_SPLIT_MIN_US)" using loop time by (auto split: if_splits)
    define mid where "mid = l + (h - l) div 2"
    have m: "l \<le> mid" "mid + 1 \<le> h" using ok t by (auto simp: mid_def QUERY_SPLIT_MIN_US_def)
    have "tiles start hi ((mid + 1, h) # (l, mid) # pending)" using t m by simp
    moreover have "query_loop w deadline wanted (Suc k) ((mid + 1, h) # (l, mid) # pending) rs = Inr out"
      using loop time Inl ok by (simp add: mid_def Let_def)
    ultimately show ?thesis using "2.IH"(1) [OF time Inl ok mid_def _ "2.prems"(2) _ "2.prems"(4)] by blast
  next
    case (Inr xs)
    have xs: "xs = take (wanted - length rs) (slice_rows epoch matching l hi)"
      unfolding t(1) [symmetric] by (rule "2.prems"(4) [unfolded fetches_def, rule_format, OF Inr])
    show ?thesis
    proof (cases "wanted \<le> length (rs @ xs)")
      case True
      then have "out = rs @ xs" using loop time Inr by simp
      moreover have "wanted - length rs \<le> length (slice_rows epoch matching l hi)"
        using True xs "2.prems"(2) by simp
      ultimately show ?thesis using xs "2.prems"(2) whole by simp
    next
      case False
      have "query_loop w deadline wanted (Suc k) pending (rs @ xs) = Inr out" using loop time Inr False by simp
      with "2.IH"(2) [OF time Inr refl False t(4) _ _ "2.prems"(4)] False
      have "out = take wanted ((rs @ xs) @ slice_rows epoch matching start (l - 1))" by simp
      moreover have "xs = slice_rows epoch matching l hi" using False xs by simp
      ultimately show ?thesis using whole by simp
    qed
  qed
qed

text \<open>
  Property C5. A page is exact: when the loop returns, however many slices were halved, its rows are the
  rows \<open>offset\<close> to \<open>offset + limit\<close> of the whole window, newest first, and \<open>has_more\<close> says whether one
  more exists.
\<close>

theorem row_query_exact:
  assumes "fetches w epoch matching" "sorted_wrt (\<ge>) (map epoch matching)"
    and "0 \<le> offset" "0 \<le> limit" "row_query w started limit offset start stop = Inr p"
  shows "rows p = take (nat limit) (drop (nat offset) (slice_rows epoch matching start stop))
    \<and> (has_more p \<longleftrightarrow> nat (offset + limit) < length (slice_rows epoch matching start stop))"
proof -
  let ?all = "slice_rows epoch matching start stop" and ?n = "nat (offset + limit + 1)"
  obtain out where out: "query_loop w (started + QUERY_DEADLINE_SECONDS * 1000000) ?n 0 (day_slices start stop) [] = Inr out"
    using assms(5) by (auto simp: row_query_def split: sum.splits)
  have "out = take ?n ([] @ ?all)"
    using out assms(3,4) by (intro query_loop_exact [OF assms(1,2) day_slices_tiles [folded day_slices_def]]) auto
  then have p: "rows p = take (nat limit) (drop (nat offset) (take ?n ?all))"
    "has_more p \<longleftrightarrow> nat limit < length (drop (nat offset) (take ?n ?all))"
    using assms(5) out by (auto simp: row_query_def Let_def)
  have "take (nat limit) (drop (nat offset) (take ?n ?all)) = take (nat limit) (drop (nat offset) ?all)"
    using assms(3,4) by (simp add: drop_take min_def nat_add_distrib)
  moreover have "nat limit < length (drop (nat offset) (take ?n ?all)) \<longleftrightarrow> nat (offset + limit) < length ?all"
    using assms(3,4) by (simp add: nat_add_distrib min_def) linarith
  ultimately show ?thesis using p by simp
qed

text \<open>A store that answers two rows, and refuses the first statement on a full day for memory.\<close>

definition sample_world :: "int world" where
  "sample_world = \<lparr>fetch = (\<lambda>k lo hi n. if k = 0 then Inl ''Code: 241'' else Inr (take n (slice_rows id [90000000000, 50000000000] lo hi))),
     clock = (\<lambda>k. 0), cancelled = (\<lambda>k. False)\<rparr>"

lemma sample_world_fetches: "fetches sample_world id [90000000000, 50000000000]"
  by (auto simp: fetches_def sample_world_def split: if_splits)

lemma sample_query: "row_query sample_world 0 1 0 40000000000 100000000000 = Inr \<lparr>rows = [90000000000], has_more = True\<rparr>"
  by code_simp

theorem row_query_exact_witness: "rows \<lparr>rows = [90000000000], has_more = True\<rparr> = take (nat 1) (drop (nat 0) (slice_rows id [90000000000, 50000000000 :: int] 40000000000 100000000000))"
  using row_query_exact [OF sample_world_fetches _ _ _ sample_query] by simp

text \<open>What a loop that fails stopped at, for slices of a window.\<close>

definition loop_stop :: "'r world \<Rightarrow> int \<Rightarrow> int \<Rightarrow> int \<Rightarrow> query_error \<Rightarrow> bool" where
  "loop_stop w deadline start stop e \<longleftrightarrow> (e = Raw ''TIMEOUT_EXCEEDED across day slices'' \<and> (\<exists>k. deadline - clock w k \<le> 1000000))
     \<or> (e = Cancelled \<and> (\<exists>k. cancelled w k))
     \<or> (\<exists>k lo hi n s. start \<le> lo \<and> hi \<le> stop \<and> fetch w k lo hi n = Inl s \<and> e = Raw s \<and> (memory_limited s \<longrightarrow> hi - lo < 2 * QUERY_SPLIT_MIN_US))"

lemma query_loop_stops:
  assumes "\<forall>(lo, hi) \<in> set pending. start \<le> lo \<and> hi \<le> stop" "query_loop w deadline wanted k pending rs = Inl e"
  shows "loop_stop w deadline start stop e"
  using assms
proof (induction w deadline wanted k pending rs rule: query_loop.induct)
  case (2 w deadline wanted k l h pending rs)
  show ?case
  proof (cases "deadline - clock w k \<le> 1000000 \<or> cancelled w k")
    case True
    then show ?thesis using "2.prems"(2) by (auto simp: loop_stop_def split: if_splits)
  next
    case False
    then have time: "\<not> deadline - clock w k \<le> 1000000" "\<not> cancelled w k" by simp_all
    show ?thesis
    proof (cases "fetch w k l h (wanted - length rs)")
      case (Inl s)
      show ?thesis
      proof (cases "\<not> memory_limited s \<or> h - l < 2 * QUERY_SPLIT_MIN_US")
        case True
        then have "e = Raw s" using "2.prems"(2) time Inl by simp
        moreover have "memory_limited s \<longrightarrow> h - l < 2 * QUERY_SPLIT_MIN_US" using True by blast
        moreover have "start \<le> l" "h \<le> stop" using "2.prems"(1) by simp_all
        ultimately show ?thesis unfolding loop_stop_def using Inl by blast
      next
        case ok: False
        have "2 * QUERY_SPLIT_MIN_US \<le> h - l" using ok by simp
        then have "\<forall>(lo, hi) \<in> set ((l + (h - l) div 2 + 1, h) # (l, l + (h - l) div 2) # pending). start \<le> lo \<and> hi \<le> stop"
          using "2.prems"(1) by (auto simp: QUERY_SPLIT_MIN_US_def)
        then show ?thesis using "2.IH"(1) [OF time Inl ok refl] "2.prems"(2) time Inl ok by (simp add: Let_def)
      qed
    next
      case (Inr xs)
      then have "\<not> wanted \<le> length (rs @ xs)" "query_loop w deadline wanted (Suc k) pending (rs @ xs) = Inl e"
        using "2.prems"(2) time by (auto simp: Let_def split: if_splits)
      then show ?thesis using "2.IH"(2) [OF time Inr refl] "2.prems"(1) by simp
    qed
  qed
qed simp

lemma day_slices_inside: "(lo, hi) \<in> set (day_slices start stop) \<Longrightarrow> start \<le> lo \<and> hi \<le> stop"
proof -
  have "(lo, h) \<in> set ss \<Longrightarrow> tiles start hi ss \<Longrightarrow> start \<le> lo \<and> h \<le> hi" for lo h hi ss
    by (induction start hi ss rule: tiles.induct) auto
  then show "(lo, hi) \<in> set (day_slices start stop) \<Longrightarrow> start \<le> lo \<and> hi \<le> stop"
    using day_slices_tiles [of start stop] unfolding day_slices_def by blast
qed

text \<open>
  Property C28. A query ends, with a page or with one of three errors: the deadline, reached within a second; a cancelled
  task; or the error of a statement over a slice of the window, which is a memory error only if the slice is shorter than
  twenty minutes. So memory pressure fails a query only when ClickHouse cannot even answer such a slice.
\<close>

theorem row_query_returns:
  "case row_query w started limit offset start stop of Inr p \<Rightarrow> True
   | Inl e \<Rightarrow> (e = QueryDeadline \<and> (\<exists>k. started + 99 * 1000000 \<le> clock w k)) \<or> (e = Cancelled \<and> (\<exists>k. cancelled w k))
       \<or> (\<exists>k lo hi n s. start \<le> lo \<and> hi \<le> stop \<and> fetch w k lo hi n = Inl s \<and> e = query_failure (Raw s)
            \<and> (memory_limited s \<longrightarrow> hi - lo < 2 * QUERY_SPLIT_MIN_US))"
proof (cases "query_loop w (started + QUERY_DEADLINE_SECONDS * 1000000) (nat (offset + limit + 1)) 0 (day_slices start stop) []")
  case (Inl e)
  have "loop_stop w (started + QUERY_DEADLINE_SECONDS * 1000000) start stop e"
    by (rule query_loop_stops [OF _ Inl]) (use day_slices_inside in fast)
  moreover have "started + 99 * 1000000 \<le> clock w k" if "started + QUERY_DEADLINE_SECONDS * 1000000 - clock w k \<le> 1000000" for k
    using that by (simp add: QUERY_DEADLINE_SECONDS_def)
  moreover have "query_failure (Raw ''TIMEOUT_EXCEEDED across day slices'') = QueryDeadline" "query_failure Cancelled = Cancelled" by code_simp+
  moreover have "row_query w started limit offset start stop = Inl (query_failure e)" by (simp add: row_query_def Inl)
  ultimately show ?thesis unfolding loop_stop_def by (elim disjE conjE exE) (simp_all, blast+)
qed (simp add: row_query_def Let_def)

text \<open>A store that refuses every slice of twenty minutes for memory answers a day by its halves; one that refuses all of them fails.\<close>

definition busy_world :: "int world" where
  "busy_world = \<lparr>fetch = (\<lambda>k lo hi n. if 2 * QUERY_SPLIT_MIN_US \<le> hi - lo then Inl ''MEMORY_LIMIT_EXCEEDED'' else Inr []),
     clock = (\<lambda>k. 0), cancelled = (\<lambda>k. False)\<rparr>"

theorem row_query_returns_witness: "\<exists>p. row_query busy_world 0 100 0 0 86399999999 = Inr p"
  using row_query_returns [where w = busy_world and started = 0 and limit = 100 and offset = 0 and start = 0 and stop = 86399999999]
  by (cases "row_query busy_world 0 100 0 0 86399999999") (auto simp: busy_world_def memory_limited_def split: if_splits)

text \<open>
  The day slices of a window cover it exactly from its end to its start: consecutive, closed,
  non-empty, each within one UTC day.
\<close>

theorem day_slices_exact:
  "tiles start stop (day_slices start stop)
   \<and> (\<forall>(lo, hi) \<in> set (day_slices start stop). lo \<le> hi \<and> lo div DAY_US = hi div DAY_US)
   \<and> (\<forall>x. (\<exists>(lo, hi) \<in> set (day_slices start stop). lo \<le> x \<and> x \<le> hi) \<longleftrightarrow> start \<le> x \<and> x \<le> stop)"
proof -
  have t: "tiles start stop (day_slices start stop)" by (simp add: day_slices_def day_slices_tiles)
  have pts: "(\<exists>(lo, hi) \<in> set ss. lo \<le> x \<and> x \<le> hi) \<longleftrightarrow> start \<le> x \<and> x \<le> hi" if "tiles start hi ss" for ss x hi
    using that by (induction start hi ss rule: tiles.induct) auto
  have le: "lo \<le> h" if "tiles start hi ss" "(lo, h) \<in> set ss" for lo h hi ss
    using that by (induction start hi ss rule: tiles.induct) auto
  show ?thesis using t pts [OF t] le [OF t] day_slices_day [of _ _ start stop] by (auto simp: day_slices_def)
qed

theorem day_slices_exact_witness: "\<exists>(lo, hi) \<in> set (day_slices 5 90000000000). lo \<le> 7 \<and> 7 \<le> hi"
  using day_slices_exact [of 5 90000000000] by simp

end
