(* ===== verification/IsoTime.thy ===== *)
theory IsoTime
  imports Prelude
begin

text \<open>
  Time texts. The collectors keep times as \<open>YYYY-MM-DDTHH:MM:SSZ\<close> and compare the texts with
  \<open><\<close>; \<open>_fmt\<close> writes them (\<open>strftime\<close>) and \<open>_epoch\<close> reads them back (\<open>datetime.fromisoformat\<close>
  after replacing \<open>Z\<close>), with 0 for a text it can not read. Times are whole seconds since 1970. The
  calendar is the proleptic Gregorian one, computed the way \<open>datetime\<close> documents it (ordinals of
  days, cycles of 400, 100, 4 and 1 years). \<open>iso_epoch\<close> reads the form the program and the RDS API
  write; other forms \<open>fromisoformat\<close> would accept count as unreadable here.
\<close>

section \<open>The calendar\<close>

definition leap :: "int \<Rightarrow> bool" where
  "leap y \<longleftrightarrow> y mod 4 = 0 \<and> (y mod 100 \<noteq> 0 \<or> y mod 400 = 0)"

definition days_before_year :: "int \<Rightarrow> int" where
  "days_before_year y = (let z = y - 1 in z * 365 + z div 4 - z div 100 + z div 400)"

definition DAYS_BEFORE_MONTH :: "int list" where
  "DAYS_BEFORE_MONTH = [0, 0, 31, 59, 90, 120, 151, 181, 212, 243, 273, 304, 334, 365]"

definition days_before_month :: "bool \<Rightarrow> int \<Rightarrow> int" where
  "days_before_month lp m = DAYS_BEFORE_MONTH ! nat m + (if 2 < m \<and> lp then 1 else 0)"

definition ymd2ord :: "int \<Rightarrow> int \<Rightarrow> int \<Rightarrow> int" where
  "ymd2ord y m d = days_before_year y + days_before_month (leap y) m + d"

text \<open>Month and day of the zero-based day \<open>n\<close> of a year.\<close>

definition month_day :: "bool \<Rightarrow> int \<Rightarrow> int \<times> int" where
  "month_day lp n = (let m = (n + 50) div 32; b = days_before_month lp m in
     if n < b then (m - 1, n - days_before_month lp (m - 1) + 1) else (m, n - b + 1))"

definition ord2ymd :: "int \<Rightarrow> int \<times> int \<times> int" where
  "ord2ymd ordinal = (let n = ordinal - 1;
     n400 = n div 146097; n = n mod 146097;
     n100 = n div 36524; n = n mod 36524;
     n4 = n div 1461; n = n mod 1461;
     n1 = n div 365; n = n mod 365;
     y = 400 * n400 + 1 + n100 * 100 + n4 * 4 + n1
   in if n1 = 4 \<or> n100 = 4 then (y - 1, 12, 31)
      else (y, month_day (n1 = 3 \<and> (n4 \<noteq> 24 \<or> n100 = 3)) n))"

definition days_in_month :: "int \<Rightarrow> int \<Rightarrow> int" where
  "days_in_month y m = days_before_month (leap y) (m + 1) - days_before_month (leap y) m"

record fields =
  year :: int
  month :: int
  day :: int
  hour :: int
  minute :: int
  second :: int

definition valid_fields :: "fields \<Rightarrow> bool" where
  "valid_fields f \<longleftrightarrow> 1 \<le> year f \<and> 1 \<le> month f \<and> month f \<le> 12 \<and> 1 \<le> day f
     \<and> day f \<le> days_in_month (year f) (month f)
     \<and> 0 \<le> hour f \<and> hour f < 24 \<and> 0 \<le> minute f \<and> minute f < 60 \<and> 0 \<le> second f \<and> second f < 60"

definition epoch_of :: "fields \<Rightarrow> int" where
  "epoch_of f = (ymd2ord (year f) (month f) (day f) - 719163) * 86400
     + hour f * 3600 + minute f * 60 + second f"

definition fields_of :: "int \<Rightarrow> fields" where
  "fields_of t = (case ord2ymd (t div 86400 + 719163) of (y, m, d) \<Rightarrow> let r = t mod 86400 in
     \<lparr>year = y, month = m, day = d, hour = r div 3600, minute = r mod 3600 div 60, second = r mod 60\<rparr>)"

section \<open>Texts\<close>

definition digit :: "int \<Rightarrow> char" where
  "digit d = char_of (48 + nat d)"

primrec pad :: "nat \<Rightarrow> int \<Rightarrow> string" where
  "pad 0 n = []"
| "pad (Suc k) n = pad k (n div 10) @ [digit (n mod 10)]"

definition iso_text :: "fields \<Rightarrow> string" where
  "iso_text f = pad 4 (year f) @ ''-'' @ pad 2 (month f) @ ''-'' @ pad 2 (day f) @ ''T''
     @ pad 2 (hour f) @ '':'' @ pad 2 (minute f) @ '':'' @ pad 2 (second f) @ ''Z''"

text \<open>\<open>_fmt(value)\<close>.\<close>

definition fmt :: "int \<Rightarrow> string" where
  "fmt t = iso_text (fields_of t)"

definition is_digit :: "char \<Rightarrow> bool" where
  "is_digit c \<longleftrightarrow> (48 :: nat) \<le> of_char c \<and> (of_char c :: nat) \<le> 57"

definition number :: "string \<Rightarrow> int" where
  "number s = foldl (\<lambda>n c. 10 * n + (of_char c - 48)) 0 s"

definition read_fields :: "string \<Rightarrow> fields option" where
  "read_fields s =
     (if length s = 20 \<and> s ! 4 = CHR ''-'' \<and> s ! 7 = CHR ''-'' \<and> s ! 10 = CHR ''T''
         \<and> s ! 13 = CHR '':'' \<and> s ! 16 = CHR '':'' \<and> s ! 19 = CHR ''Z''
         \<and> list_all is_digit (take 4 s @ take 2 (drop 5 s) @ take 2 (drop 8 s)
              @ take 2 (drop 11 s) @ take 2 (drop 14 s) @ take 2 (drop 17 s))
      then let f = \<lparr>year = number (take 4 s), month = number (take 2 (drop 5 s)),
             day = number (take 2 (drop 8 s)), hour = number (take 2 (drop 11 s)),
             minute = number (take 2 (drop 14 s)), second = number (take 2 (drop 17 s))\<rparr>
        in if valid_fields f then Some f else None
      else None)"

text \<open>\<open>_epoch(text)\<close>: 0 for a text that is no time.\<close>

definition iso_epoch :: "string \<Rightarrow> int" where
  "iso_epoch s = (case read_fields s of None \<Rightarrow> 0 | Some f \<Rightarrow> epoch_of f)"

section \<open>Ordinals\<close>

lemma days_before_month_simps [simp]:
  "days_before_month lp 1 = 0" "days_before_month lp 2 = 31"
  "days_before_month lp 3 = (if lp then 60 else 59)" "days_before_month lp 4 = (if lp then 91 else 90)"
  "days_before_month lp 5 = (if lp then 121 else 120)" "days_before_month lp 6 = (if lp then 152 else 151)"
  "days_before_month lp 7 = (if lp then 182 else 181)" "days_before_month lp 8 = (if lp then 213 else 212)"
  "days_before_month lp 9 = (if lp then 244 else 243)" "days_before_month lp 10 = (if lp then 274 else 273)"
  "days_before_month lp 11 = (if lp then 305 else 304)" "days_before_month lp 12 = (if lp then 335 else 334)"
  "days_before_month lp 13 = (if lp then 366 else 365)"
  by (simp_all add: days_before_month_def DAYS_BEFORE_MONTH_def)

lemma month_cases:
  fixes m :: int
  assumes "1 \<le> m" "m \<le> 12"
  obtains "m = 1" | "m = 2" | "m = 3" | "m = 4" | "m = 5" | "m = 6" | "m = 7" | "m = 8" | "m = 9"
    | "m = 10" | "m = 11" | "m = 12"
proof -
  have "m = 1 \<or> m = 2 \<or> m = 3 \<or> m = 4 \<or> m = 5 \<or> m = 6 \<or> m = 7 \<or> m = 8 \<or> m = 9 \<or> m = 10
      \<or> m = 11 \<or> m = 12" using assms by arith
  then show thesis using that by blast
qed

text \<open>The estimate \<open>(n + 50) div 32\<close> is the month of the day or the one after it.\<close>

lemma month_day_ok:
  assumes "0 \<le> n" "n < 365 + (if lp then 1 else 0)" "month_day lp n = (m, d)"
  shows "1 \<le> m \<and> m \<le> 12 \<and> 1 \<le> d \<and> d \<le> days_before_month lp (m + 1) - days_before_month lp m
    \<and> days_before_month lp m + d = n + 1"
proof -
  define e where "e = (n + 50) div 32"
  have n: "32 * e - 50 \<le> n" "n < 32 * e - 18" unfolding e_def by linarith+
  have "1 \<le> e" "e \<le> 12" using assms(1,2) unfolding e_def by (auto split: if_splits)
  then show ?thesis
    by (cases rule: month_cases)
      (use n assms e_def [symmetric] in \<open>auto simp: month_day_def Let_def split: if_splits\<close>)
qed

lemma days_before_year_split:
  assumes "0 \<le> b" "b \<le> 3" "0 \<le> c" "c \<le> 24" "0 \<le> d" "d \<le> 3"
  shows "days_before_year (400 * a + 1 + b * 100 + c * 4 + d) = a * 146097 + b * 36524 + c * 1461 + d * 365"
proof -
  have "(400 * a + b * 100 + c * 4 + d) div 4 = 100 * a + 25 * b + c" using assms by linarith
  moreover have "(400 * a + b * 100 + c * 4 + d) div 100 = 4 * a + b" using assms by linarith
  moreover have "(400 * a + b * 100 + c * 4 + d) div 400 = a" using assms by linarith
  ultimately show ?thesis by (simp add: days_before_year_def Let_def algebra_simps)
qed

lemma leap_split:
  assumes "0 \<le> b" "b \<le> 3" "0 \<le> c" "c \<le> 24" "0 \<le> d" "d \<le> 3"
  shows "leap (400 * a + 1 + b * 100 + c * 4 + d) \<longleftrightarrow> d = 3 \<and> (c \<noteq> 24 \<or> b = 3)"
proof -
  let ?y = "400 * a + 1 + b * 100 + c * 4 + d"
  have "?y = (1 + d) + 4 * (100 * a + 25 * b + c)" "?y = (1 + c * 4 + d) + 100 * (4 * a + b)"
    "?y = (1 + b * 100 + c * 4 + d) + 400 * a" by simp_all
  then have m: "?y mod 4 = (1 + d) mod 4" "?y mod 100 = (1 + c * 4 + d) mod 100"
    "?y mod 400 = (1 + b * 100 + c * 4 + d) mod 400"
    by (metis mod_mult_self2)+
  have top: "x mod n = 0 \<longleftrightarrow> x = n" if "1 \<le> x" "x \<le> n" for x n :: int
  proof (cases "x = n")
    case False
    with that have "x mod n = x" by (intro mod_pos_pos_trivial) simp_all
    with False that show ?thesis by simp
  qed simp
  have "(1 + d) mod 4 = 0 \<longleftrightarrow> d = 3" by (subst top) (use assms in presburger)+
  moreover have "(1 + c * 4 + d) mod 100 = 0 \<longleftrightarrow> c = 24 \<and> d = 3" by (subst top) (use assms in presburger)+
  moreover have "(1 + b * 100 + c * 4 + d) mod 400 = 0 \<longleftrightarrow> b = 3 \<and> c = 24 \<and> d = 3" by (subst top) (use assms in presburger)+
  ultimately show ?thesis unfolding leap_def m by auto
qed

lemma ord2ymd_inverse:
  assumes "ord2ymd n = (y, m, d)"
  shows "ymd2ord y m d = n \<and> 1 \<le> m \<and> m \<le> 12 \<and> 1 \<le> d \<and> d \<le> days_in_month y m"
proof -
  define k where "k = n - 1"
  define a r1 where "a = k div 146097" and "r1 = k mod 146097"
  define b r2 where "b = r1 div 36524" and "r2 = r1 mod 36524"
  define c r3 where "c = r2 div 1461" and "r3 = r2 mod 1461"
  define e r4 where "e = r3 div 365" and "r4 = r3 mod 365"
  have k: "k = a * 146097 + r1" "r1 = b * 36524 + r2" "r2 = c * 1461 + r3" "r3 = e * 365 + r4"
    by (simp_all add: a_def r1_def b_def r2_def c_def r3_def e_def r4_def)
  have r: "0 \<le> r1" "r1 < 146097" "0 \<le> r2" "r2 < 36524" "0 \<le> r3" "r3 < 1461" "0 \<le> r4" "r4 < 365"
    by (simp_all add: r1_def r2_def r3_def r4_def)
  have bnd: "0 \<le> b" "b \<le> 4" "0 \<le> c" "c \<le> 24" "0 \<le> e" "e \<le> 4"
    using k r by linarith+
  have out: "(y, m, d) = (if e = 4 \<or> b = 4 then (400 * a + 1 + b * 100 + c * 4 + e - 1, 12, 31)
      else (400 * a + 1 + b * 100 + c * 4 + e, month_day (e = 3 \<and> (c \<noteq> 24 \<or> b = 3)) r4))"
    using assms unfolding ord2ymd_def Let_def k_def a_def r1_def b_def r2_def c_def r3_def e_def r4_def by (rule sym)
  show ?thesis
  proof (cases "e = 4 \<or> b = 4")
    case False
    then have le: "e \<le> 3" "b \<le> 3" using bnd by linarith+
    let ?lp = "e = 3 \<and> (c \<noteq> 24 \<or> b = 3)"
    from out False have y: "y = 400 * a + 1 + b * 100 + c * 4 + e" and md: "month_day ?lp r4 = (m, d)" by simp_all
    have lp: "leap y = ?lp" unfolding y by (rule leap_split) (use bnd le in simp_all)
    have "r4 < 365 + (if ?lp then 1 else 0)" using r by simp
    from month_day_ok [OF r(7) this md]
    have "1 \<le> m" "m \<le> 12" "1 \<le> d" "d \<le> days_in_month y m" "days_before_month (leap y) m + d = r4 + 1"
      by (simp_all add: days_in_month_def lp)
    moreover have "days_before_year y = a * 146097 + b * 36524 + c * 1461 + e * 365"
      unfolding y by (rule days_before_year_split) (use bnd le in simp_all)
    ultimately show ?thesis using k by (simp add: ymd2ord_def k_def)
  next
    case True
    then have md: "m = 12" "d = 31" and y: "y = 400 * a + b * 100 + c * 4 + e" using out by simp_all
    show ?thesis
    proof (cases "b = 4")
      case True
      then have z: "c = 0" "e = 0" "r4 = 0" using k r bnd by linarith+
      have y': "y = 400 * a + 1 + 3 * 100 + 24 * 4 + 3" using y True z by simp
      have "leap y" unfolding y' by (subst leap_split) simp_all
      moreover have "days_before_year y = a * 146097 + 3 * 36524 + 24 * 1461 + 3 * 365"
        unfolding y' by (rule days_before_year_split) simp_all
      ultimately show ?thesis using k md True z by (simp add: ymd2ord_def days_in_month_def k_def)
    next
      case False
      with True bnd have e: "e = 4" and b: "b \<le> 3" by simp_all
      have z: "r4 = 0" "c \<noteq> 24 \<or> b = 3" using k r e bnd b by linarith+
      have y': "y = 400 * a + 1 + b * 100 + c * 4 + 3" using y e by simp
      have "leap y" unfolding y' by (subst leap_split) (use bnd b z in simp_all)
      moreover have "days_before_year y = a * 146097 + b * 36524 + c * 1461 + 3 * 365"
        unfolding y' by (rule days_before_year_split) (use bnd b in simp_all)
      ultimately show ?thesis using k md e z by (simp add: ymd2ord_def days_in_month_def k_def)
    qed
  qed
qed

lemma epoch_of_fields_of: "epoch_of (fields_of t) = t"
proof -
  obtain y m d where o: "ord2ymd (t div 86400 + 719163) = (y, m, d)" by (metis prod_cases3)
  define r where "r = t mod 86400"
  have "r mod 60 = r mod 3600 mod 60" by (simp add: mod_mod_cancel)
  then have "r div 3600 * 3600 + r mod 3600 div 60 * 60 + r mod 60 = r"
    by (metis add.assoc div_mult_mod_eq)
  moreover have "epoch_of (fields_of t) = (t div 86400) * 86400
      + (r div 3600 * 3600 + r mod 3600 div 60 * 60 + r mod 60)"
    using ord2ymd_inverse [OF o] by (simp add: epoch_of_def fields_of_def o Let_def r_def)
  ultimately show ?thesis by (simp add: r_def)
qed

lemma valid_fields_of: "1 \<le> year (fields_of t) \<Longrightarrow> valid_fields (fields_of t)"
proof -
  obtain y m d where o: "ord2ymd (t div 86400 + 719163) = (y, m, d)" by (metis prod_cases3)
  have "0 \<le> t mod 86400" "t mod 86400 < 86400" by simp_all
  then have "0 \<le> t mod 86400 div 3600" "t mod 86400 div 3600 < 24" by linarith+
  moreover have "0 \<le> t mod 86400 mod 3600" "t mod 86400 mod 3600 < 3600" by simp_all
  then have "0 \<le> t mod 86400 mod 3600 div 60" "t mod 86400 mod 3600 div 60 < 60" by linarith+
  ultimately show "1 \<le> year (fields_of t) \<Longrightarrow> valid_fields (fields_of t)"
    using ord2ymd_inverse [OF o] by (simp add: valid_fields_def fields_of_def o Let_def)
qed

section \<open>Writing and reading\<close>

lemma of_char_digit: "0 \<le> d \<Longrightarrow> d < 10 \<Longrightarrow> (of_char (digit d) :: nat) = 48 + nat d"
  by (simp add: digit_def of_char_of)

lemma of_char_digit_int: "0 \<le> d \<Longrightarrow> d < 10 \<Longrightarrow> (of_char (digit d) :: int) = 48 + d"
  using of_char_digit [of d] by (metis int_nat_eq of_nat_add of_nat_numeral of_nat_of_char)

lemma is_digit_digit: "0 \<le> d \<Longrightarrow> d < 10 \<Longrightarrow> is_digit (digit d)"
  by (simp add: is_digit_def of_char_digit)

lemma length_pad [simp]: "length (pad k n) = k"
  by (induction k arbitrary: n) simp_all

lemma pad2: "pad 2 n = [digit (n div 10 mod 10), digit (n mod 10)]"
  by (simp add: numeral_2_eq_2)

lemma pad4: "pad 4 n = [digit (n div 10 div 10 div 10 mod 10), digit (n div 10 div 10 mod 10),
    digit (n div 10 mod 10), digit (n mod 10)]"
  by (simp add: eval_nat_numeral)

lemma number2: "0 \<le> n \<Longrightarrow> n < 100 \<Longrightarrow> number [digit (n div 10 mod 10), digit (n mod 10)] = n"
proof -
  assume "0 \<le> n" "n < 100"
  then have "n div 10 mod 10 = n div 10" by (intro mod_pos_pos_trivial) linarith+
  then show ?thesis by (simp add: number_def of_char_digit_int)
qed

lemma number4:
  assumes "0 \<le> n" "n < 10000"
  shows "number [digit (n div 10 div 10 div 10 mod 10), digit (n div 10 div 10 mod 10),
    digit (n div 10 mod 10), digit (n mod 10)] = n"
proof -
  have dig: "number [digit a, digit b, digit c, digit d] = 1000 * a + 100 * b + 10 * c + d"
    if "0 \<le> a" "a < 10" "0 \<le> b" "b < 10" "0 \<le> c" "c < 10" "0 \<le> d" "d < 10" for a b c d
    using that by (simp add: number_def of_char_digit_int)
  define q1 q2 q3 where "q1 = n div 10" and "q2 = q1 div 10" and "q3 = q2 div 10"
  have n: "n = 10 * q1 + n mod 10" "q1 = 10 * q2 + q1 mod 10" "q2 = 10 * q3 + q2 mod 10"
    by (simp_all add: q1_def q2_def q3_def)
  have "0 \<le> n mod 10" "n mod 10 < 10" "0 \<le> q1 mod 10" "q1 mod 10 < 10" "0 \<le> q2 mod 10" "q2 mod 10 < 10"
    by simp_all
  with n assms have q3: "0 \<le> q3" "q3 < 10" by linarith+
  then have "q3 mod 10 = q3" by simp
  moreover have "number [digit (q3 mod 10), digit (q2 mod 10), digit (q1 mod 10), digit (n mod 10)]
      = 1000 * (q3 mod 10) + 100 * (q2 mod 10) + 10 * (q1 mod 10) + n mod 10"
    by (rule dig) simp_all
  ultimately have "number [digit (q3 mod 10), digit (q2 mod 10), digit (q1 mod 10), digit (n mod 10)] = n"
    using n by linarith
  then show ?thesis by (simp only: q1_def q2_def q3_def)
qed

lemma days_in_month_le: "1 \<le> m \<Longrightarrow> m \<le> 12 \<Longrightarrow> days_in_month y m \<le> 31"
  by (cases m rule: month_cases) (simp_all add: days_in_month_def)

lemma read_fields_list:
  "read_fields [a, b, c, d, CHR ''-'', e, f, CHR ''-'', g, h, CHR ''T'', i, j, CHR '':'', k, l, CHR '':'', m, n, CHR ''Z'']
     = (if list_all is_digit [a, b, c, d, e, f, g, h, i, j, k, l, m, n]
        then let r = \<lparr>year = number [a, b, c, d], month = number [e, f], day = number [g, h],
               hour = number [i, j], minute = number [k, l], second = number [m, n]\<rparr>
          in if valid_fields r then Some r else None
        else None)"
  by (simp add: read_fields_def Let_def eval_nat_numeral)

lemma read_fields_iso_text:
  assumes "valid_fields f" "year f \<le> 9999"
  shows "read_fields (iso_text f) = Some f"
proof -
  have "day f \<le> 31" using assms days_in_month_le [of "month f" "year f"] by (simp add: valid_fields_def)
  then have b: "0 \<le> year f" "year f < 10000" "0 \<le> month f" "month f < 100" "0 \<le> day f" "day f < 100"
    "0 \<le> hour f" "hour f < 100" "0 \<le> minute f" "minute f < 100" "0 \<le> second f" "second f < 100"
    using assms by (simp_all add: valid_fields_def)
  have tx: "iso_text f = [digit (year f div 10 div 10 div 10 mod 10), digit (year f div 10 div 10 mod 10),
    digit (year f div 10 mod 10), digit (year f mod 10), CHR ''-'', digit (month f div 10 mod 10),
    digit (month f mod 10), CHR ''-'', digit (day f div 10 mod 10), digit (day f mod 10), CHR ''T'',
    digit (hour f div 10 mod 10), digit (hour f mod 10), CHR '':'', digit (minute f div 10 mod 10),
    digit (minute f mod 10), CHR '':'', digit (second f div 10 mod 10), digit (second f mod 10), CHR ''Z'']"
    unfolding iso_text_def pad2 pad4 by simp
  have d: "is_digit (digit (n mod 10))" for n by (rule is_digit_digit) simp_all
  have eta: "\<lparr>year = year f, month = month f, day = day f, hour = hour f, minute = minute f, second = second f\<rparr> = f"
    by simp
  have "read_fields (iso_text f) = (if valid_fields f then Some f else None)"
    unfolding tx read_fields_list number2 [OF b(3,4)] number2 [OF b(5,6)] number2 [OF b(7,8)]
      number2 [OF b(9,10)] number2 [OF b(11,12)] number4 [OF b(1,2)]
    by (simp add: d Let_def eta)
  then show ?thesis using assms by simp
qed

lemma read_fields_fmt:
  assumes "1000 \<le> year (fields_of t)" "year (fields_of t) \<le> 9999"
  shows "read_fields (fmt t) = Some (fields_of t)"
  using read_fields_iso_text [OF valid_fields_of] assms by (simp add: fmt_def)

lemma iso_epoch_fmt:
  assumes "1000 \<le> year (fields_of t)" "year (fields_of t) \<le> 9999"
  shows "iso_epoch (fmt t) = t"
  using read_fields_fmt [OF assms] by (simp add: iso_epoch_def epoch_of_fields_of)

text \<open>
  Property C26. Writing a time and reading it back gives the same time, for every time in the years
  1000 to 9999 (the years \<open>strftime\<close> writes with four digits).
\<close>

theorem fmt_epoch_roundtrip:
  assumes "1000 \<le> year (fields_of t)" "year (fields_of t) \<le> 9999"
  shows "iso_epoch (fmt t) = t"
  by (rule iso_epoch_fmt [OF assms])

theorem fmt_epoch_roundtrip_witness:
  "fmt 1793224800 = ''2026-10-28T22:00:00Z'' \<and> iso_epoch (fmt 1793224800) = 1793224800"
proof
  have f: "fields_of 1793224800 = \<lparr>year = 2026, month = 10, day = 28, hour = 22, minute = 0, second = 0\<rparr>"
    by (simp add: fields_of_def ord2ymd_def month_day_def Let_def)
  show "fmt 1793224800 = ''2026-10-28T22:00:00Z''"
    by code_simp
  show "iso_epoch (fmt 1793224800) = 1793224800"
    by (rule fmt_epoch_roundtrip) (simp_all add: f)
qed

section \<open>Text order is time order\<close>

lemma append_less_eq_length:
  fixes xs ys us vs :: "'a :: linorder list"
  shows "length xs = length ys \<Longrightarrow> xs @ us < ys @ vs \<longleftrightarrow> xs < ys \<or> (xs = ys \<and> us < vs)"
  by (induction xs ys rule: list_induct2) auto

lemma digit_less: "0 \<le> a \<Longrightarrow> a < 10 \<Longrightarrow> 0 \<le> b \<Longrightarrow> b < 10 \<Longrightarrow> digit a < digit b \<longleftrightarrow> a < b"
  by (auto simp: less_char_def of_char_digit)

lemma digit_eq: "0 \<le> a \<Longrightarrow> a < 10 \<Longrightarrow> 0 \<le> b \<Longrightarrow> b < 10 \<Longrightarrow> digit a = digit b \<longleftrightarrow> a = b"
  using digit_less [of a b] digit_less [of b a] by (metis less_irrefl linorder_neqE)

lemma less_div_mod_10: "a < b \<longleftrightarrow> a div 10 < b div 10 \<or> (a div 10 = b div 10 \<and> a mod 10 < b mod 10)" for a b :: int
proof -
  have e: "a = 10 * (a div 10) + a mod 10" "b = 10 * (b div 10) + b mod 10" by simp_all
  have m: "0 \<le> a mod 10" "a mod 10 < 10" "0 \<le> b mod 10" "b mod 10 < 10" by simp_all
  consider "a div 10 < b div 10" | "a div 10 = b div 10" | "b div 10 < a div 10" by linarith
  then show ?thesis
  proof cases
    case 1
    with e m have "a < b" by linarith
    with 1 show ?thesis by simp
  next
    case 2
    with e m have "a < b \<longleftrightarrow> a mod 10 < b mod 10" by linarith
    with 2 show ?thesis by simp
  next
    case 3
    with e m have "b < a" by linarith
    with 3 show ?thesis by simp
  qed
qed

lemma eq_div_mod_10: "a = b \<longleftrightarrow> a div 10 = b div 10 \<and> a mod 10 = b mod 10" for a b :: int
  by (metis div_mult_mod_eq)

lemma pad_less_eq:
  assumes "0 \<le> a" "a < 10 ^ k" "0 \<le> b" "b < 10 ^ k"
  shows "(pad k a < pad k b \<longleftrightarrow> a < b) \<and> (pad k a = pad k b \<longleftrightarrow> a = b)"
  using assms
proof (induction k arbitrary: a b)
  case 0
  then show ?case by simp
next
  case (Suc k)
  have "a div 10 < 10 ^ k" "b div 10 < 10 ^ k" using Suc.prems by simp_all
  then have ih: "(pad k (a div 10) < pad k (b div 10) \<longleftrightarrow> a div 10 < b div 10)"
    "(pad k (a div 10) = pad k (b div 10) \<longleftrightarrow> a div 10 = b div 10)"
    using Suc.IH [of "a div 10" "b div 10"] Suc.prems by (simp_all add: pos_imp_zdiv_nonneg_iff)
  have "pad (Suc k) a < pad (Suc k) b \<longleftrightarrow> a div 10 < b div 10 \<or> (a div 10 = b div 10 \<and> a mod 10 < b mod 10)"
    by (simp add: append_less_eq_length ih digit_less)
  moreover have "pad (Suc k) a = pad (Suc k) b \<longleftrightarrow> a div 10 = b div 10 \<and> a mod 10 = b mod 10"
    by (simp add: ih digit_eq)
  ultimately show ?case using less_div_mod_10 [of a b] eq_div_mod_10 [of a b] by blast
qed

definition field_list :: "fields \<Rightarrow> int list" where
  "field_list f = [year f, month f, day f, hour f, minute f, second f]"

lemma iso_text_less:
  assumes "valid_fields f" "year f \<le> 9999" "valid_fields g" "year g \<le> 9999"
  shows "iso_text f < iso_text g \<longleftrightarrow> field_list f < field_list g"
proof -
  have "day f \<le> 31" using assms days_in_month_le [of "month f" "year f"] by (simp add: valid_fields_def)
  moreover have "day g \<le> 31" using assms days_in_month_le [of "month g" "year g"] by (simp add: valid_fields_def)
  ultimately have b: "0 \<le> year f" "year f < 10 ^ 4" "0 \<le> month f" "month f < 10 ^ 2" "0 \<le> day f" "day f < 10 ^ 2"
    "0 \<le> hour f" "hour f < 10 ^ 2" "0 \<le> minute f" "minute f < 10 ^ 2" "0 \<le> second f" "second f < 10 ^ 2"
    "0 \<le> year g" "year g < 10 ^ 4" "0 \<le> month g" "month g < 10 ^ 2" "0 \<le> day g" "day g < 10 ^ 2"
    "0 \<le> hour g" "hour g < 10 ^ 2" "0 \<le> minute g" "minute g < 10 ^ 2" "0 \<le> second g" "second g < 10 ^ 2"
    using assms by (simp_all add: valid_fields_def)
  show ?thesis
    unfolding iso_text_def field_list_def
    by (simp only: append_less_eq_length length_pad append_Cons append_Nil Cons_less_Cons
        pad_less_eq [OF b(1,2,13,14)] pad_less_eq [OF b(3,4,15,16)] pad_less_eq [OF b(5,6,17,18)]
        pad_less_eq [OF b(7,8,19,20)] pad_less_eq [OF b(9,10,21,22)] pad_less_eq [OF b(11,12,23,24)]
        simp_thms less_irrefl list.size)
qed

lemma days_before_year_mono: "y + 1 \<le> z \<Longrightarrow> days_before_year y + (365 + (if leap y then 1 else 0)) \<le> days_before_year z"
proof -
  assume yz: "y + 1 \<le> z"
  have "days_before_year (y + 1) = days_before_year y + (365 + (if leap y then 1 else 0))"
  proof -
    have s: "y div n = (y - 1) div n + (if y mod n = 0 then 1 else 0)" if "n > 1" for n :: int
    proof (cases "y mod n = 0")
      case True
      then have "y - 1 = n * (y div n - 1) + (n - 1)" by (metis (no_types) add.right_neutral
            add_diff_eq diff_add_cancel mult.commute div_mult_mod_eq int_distrib(4) mult.right_neutral)
      then have "(y - 1) div n = y div n - 1" by (rule int_div_pos_eq) (use that in simp_all)
      with True show ?thesis by simp
    next
      case False
      have "y - 1 = n * (y div n) + (y mod n - 1)" by simp
      moreover have "0 \<le> y mod n" "y mod n < n" using that by simp_all
      ultimately have "(y - 1) div n = y div n"
        using False int_div_pos_eq [of "y - 1" n "y div n" "y mod n - 1"] by linarith
      with False show ?thesis by simp
    qed
    have d: "y mod 400 = 0 \<Longrightarrow> y mod 100 = 0" "y mod 100 = 0 \<Longrightarrow> y mod 4 = 0"
      using mod_mod_cancel [of 100 400 y] mod_mod_cancel [of 4 100 y] by simp_all
    define e :: "int \<Rightarrow> int" where "e n = (if y mod n = 0 then 1 else 0)" for n
    have q: "y div 4 = (y - 1) div 4 + e 4" "y div 100 = (y - 1) div 100 + e 100" "y div 400 = (y - 1) div 400 + e 400"
      unfolding e_def by (rule s; simp)+
    have "days_before_year (y + 1) = days_before_year y + 365 + e 4 - e 100 + e 400"
      unfolding days_before_year_def Let_def add_diff_cancel_right'
      by (simp only: q) (simp add: left_diff_distrib)
    moreover have "e 4 - e 100 + e 400 = (if leap y then 1 else 0)"
      using d unfolding e_def leap_def by (cases "y mod 400 = 0"; cases "y mod 100 = 0"; cases "y mod 4 = 0") simp_all
    ultimately show ?thesis by linarith
  qed
  moreover have "days_before_year (y + 1) \<le> days_before_year z"
  proof -
    have gap: "x - x div 25 \<le> x' - x' div 25" if "x \<le> x'" for x x' :: int
    proof (cases "x = x'")
      case False
      with that show ?thesis by linarith
    qed simp
    have "y div 4 \<le> (z - 1) div 4" using yz by (simp add: zdiv_mono1)
    from gap [OF this] have "y div 4 - y div 100 \<le> (z - 1) div 4 - (z - 1) div 100"
      by (simp add: zdiv_zmult2_eq [symmetric])
    moreover have "y div 400 \<le> (z - 1) div 400" using yz by (simp add: zdiv_mono1)
    ultimately show ?thesis using yz by (simp add: days_before_year_def Let_def)
  qed
  ultimately show ?thesis by simp
qed

lemma days_before_month_mono:
  assumes "m \<le> m'" "1 \<le> m" "m' \<le> 13"
  shows "days_before_month lp m \<le> days_before_month lp m'"
  using assms(1,3)
proof (induction m' rule: int_ge_induct)
  case base
  then show ?case by simp
next
  case (step i)
  have "days_before_month lp i \<le> days_before_month lp (i + 1)"
    by (cases i rule: month_cases) (use step assms(2) in simp_all)
  with step show ?case by simp
qed

lemma ymd2ord_mono:
  assumes "1 \<le> m" "m \<le> 12" "1 \<le> d" "d \<le> days_in_month y m" "1 \<le> m'" "m' \<le> 12" "1 \<le> d'"
    and "y < y' \<or> (y = y' \<and> (m < m' \<or> (m = m' \<and> d < d')))"
  shows "ymd2ord y m d < ymd2ord y' m' d'"
proof -
  have up: "days_before_month (leap y) m + d \<le> days_before_month (leap y) (m + 1)"
    using assms(4) by (simp add: days_in_month_def)
  consider "y < y'" | "y = y'" "m < m'" | "y = y'" "m = m'" "d < d'" using assms(8) by blast
  then show ?thesis
  proof cases
    case 1
    have "days_before_month (leap y) (m + 1) \<le> days_before_month (leap y) 13"
      by (rule days_before_month_mono) (use assms in simp_all)
    moreover have "days_before_month (leap y') 1 \<le> days_before_month (leap y') m'"
      by (rule days_before_month_mono) (use assms in simp_all)
    ultimately show ?thesis
      using days_before_year_mono [of y y'] 1 up assms(7) by (simp add: ymd2ord_def split: if_splits)
  next
    case 2
    have "days_before_month (leap y) (m + 1) \<le> days_before_month (leap y) m'"
      by (rule days_before_month_mono) (use assms 2 in simp_all)
    with up 2 assms(7) show ?thesis by (simp add: ymd2ord_def)
  next
    case 3
    then show ?thesis by (simp add: ymd2ord_def)
  qed
qed

lemma epoch_of_mono:
  assumes "valid_fields f" "valid_fields g" "field_list f < field_list g"
  shows "epoch_of f < epoch_of g"
proof -
  let ?s = "\<lambda>f. hour f * 3600 + minute f * 60 + second f"
  have s: "0 \<le> ?s f" "?s f < 86400" "0 \<le> ?s g" "?s g < 86400"
    using assms(1,2) by (simp_all add: valid_fields_def)
  consider "year f < year g \<or> (year f = year g \<and> (month f < month g \<or> (month f = month g \<and> day f < day g)))"
    | "year f = year g" "month f = month g" "day f = day g"
      "hour f < hour g \<or> (hour f = hour g \<and> (minute f < minute g \<or> (minute f = minute g \<and> second f < second g)))"
    using assms(3) by (auto simp: field_list_def)
  then show ?thesis
  proof cases
    case 1
    have "ymd2ord (year f) (month f) (day f) < ymd2ord (year g) (month g) (day g)"
      by (rule ymd2ord_mono) (use assms(1,2) 1 in \<open>simp_all add: valid_fields_def\<close>)
    with s show ?thesis by (simp add: epoch_of_def)
  next
    case 2
    then have "?s f < ?s g" using assms(1,2) by (auto simp: valid_fields_def)
    with 2 show ?thesis by (simp add: epoch_of_def)
  qed
qed

lemma fmt_less_iff:
  assumes "1000 \<le> year (fields_of a)" "year (fields_of a) \<le> 9999"
    "1000 \<le> year (fields_of b)" "year (fields_of b) \<le> 9999"
  shows "fmt a < fmt b \<longleftrightarrow> a < b"
proof -
  have v: "valid_fields (fields_of a)" "valid_fields (fields_of b)"
    using assms by (simp_all add: valid_fields_of)
  have mono: "a < b" if "field_list (fields_of a) < field_list (fields_of b)"
    using epoch_of_mono [OF v that] by (simp add: epoch_of_fields_of)
  have anti: "b < a" if "field_list (fields_of b) < field_list (fields_of a)"
    using epoch_of_mono [OF v(2,1) that] by (simp add: epoch_of_fields_of)
  have same: "fields_of a = fields_of b" if "field_list (fields_of a) = field_list (fields_of b)"
    using that by (simp add: field_list_def)
  have "field_list (fields_of a) < field_list (fields_of b) \<longleftrightarrow> a < b"
  proof
    assume "a < b"
    then have "field_list (fields_of a) \<noteq> field_list (fields_of b)"
      using same epoch_of_fields_of by (metis less_irrefl)
    with anti \<open>a < b\<close> show "field_list (fields_of a) < field_list (fields_of b)"
      by (meson less_asym linorder_neqE)
  qed (rule mono)
  then show ?thesis
    unfolding fmt_def using iso_text_less [OF v(1) assms(2) v(2) assms(4)] by simp
qed

lemma fmt_le_iff:
  assumes "1000 \<le> year (fields_of a)" "year (fields_of a) \<le> 9999"
    "1000 \<le> year (fields_of b)" "year (fields_of b) \<le> 9999"
  shows "fmt a \<le> fmt b \<longleftrightarrow> a \<le> b"
  using fmt_less_iff [of b a] assms by (simp flip: not_less)

text \<open>
  The collectors may compare the texts: for times in the years 1000 to 9999 the order of
  the texts is the order of the times.
\<close>

theorem fmt_order:
  assumes "1000 \<le> year (fields_of a)" "year (fields_of a) \<le> 9999"
    "1000 \<le> year (fields_of b)" "year (fields_of b) \<le> 9999"
  shows "fmt a < fmt b \<longleftrightarrow> a < b"
  by (rule fmt_less_iff [OF assms])

theorem fmt_order_witness: "fmt 1793224799 < fmt 1793224800"
proof -
  have "fields_of 1793224799 = \<lparr>year = 2026, month = 10, day = 28, hour = 21, minute = 59, second = 59\<rparr>"
    "fields_of 1793224800 = \<lparr>year = 2026, month = 10, day = 28, hour = 22, minute = 0, second = 0\<rparr>"
    by (simp_all add: fields_of_def ord2ymd_def month_day_def Let_def)
  then show ?thesis by (subst fmt_order) simp_all
qed

end
