(* ===== verification/InstanceCoverage.thy ===== *)
theory InstanceCoverage
  imports RowCoverage IsoTime
begin

text \<open>
  \<open>BinlogRows._files\<close>, \<open>ingested\<close> and \<open>coverage\<close>: the catalog rows a window reads, the short cache of
  the ids in ClickHouse and the summary of one instance. The catalog is the table of theory FileCatalog.
\<close>

definition epoch_us :: "string \<Rightarrow> int option" where
  "epoch_us text = map_option (\<lambda>f. epoch_of f * 1000000) (read_fields text)"

definition cover_row :: "(int \<times> int) option \<Rightarrow> file_row \<Rightarrow> cover_file option" where
  "cover_row win r =
     (if f_host_instance_id r \<in> set NON_BINLOG_HOST_IDS \<or> CHR ''/'' \<in> set (f_log_file_name r) then None
      else case (epoch_us (f_log_begin_utc r), epoch_us (f_log_end_utc r)) of
        (Some lo, Some hi) \<Rightarrow>
          (case win of
             Some (start, stop) \<Rightarrow> if hi < start \<or> stop < lo then None
               else Some \<lparr>cf_id = f_id r, cf_lo = lo, cf_hi = hi, cf_state = f_state r, cf_host = f_host_instance_id r\<rparr>
           | None \<Rightarrow> Some \<lparr>cf_id = f_id r, cf_lo = lo, cf_hi = hi, cf_state = f_state r, cf_host = f_host_instance_id r\<rparr>)
      | _ \<Rightarrow> None)"

text \<open>The SQL bounds on \<open>log_begin_utc\<close>: three days before the window to its end.\<close>

definition window_row :: "string \<Rightarrow> (int \<times> int) option \<Rightarrow> file_row \<Rightarrow> bool" where
  "window_row inst win r \<longleftrightarrow> f_instance_id r = inst \<and>
     (case win of None \<Rightarrow> True
      | Some (start, stop) \<Rightarrow> fmt (start div 1000000 - 3 * 86400) \<le> f_log_begin_utc r
          \<and> f_log_begin_utc r \<le> fmt (stop div 1000000))"

definition coverage_files :: "string \<Rightarrow> (int \<times> int) option \<Rightarrow> file_row list \<Rightarrow> cover_file list" where
  "coverage_files inst win t = List.map_filter (cover_row win) (filter (window_row inst win) t)"

text \<open>The cache of ingested ids: entries younger than \<open>max_age\<close> are reused.\<close>

type_synonym id_cache = "(string \<times> int \<times> string list) list"

definition ingested :: "int \<Rightarrow> int \<Rightarrow> string list \<Rightarrow> string \<Rightarrow> id_cache \<Rightarrow> string list \<times> id_cache" where
  "ingested max_age now stored inst cache = (case map_of cache inst of
     Some (at, ids) \<Rightarrow> if now - at < max_age then (ids, cache)
       else (stored, AList.update inst (now, stored) cache)
   | None \<Rightarrow> (stored, AList.update inst (now, stored) cache))"

record summary =
  s_coverage :: run_coverage
  indexed_files :: int
  not_ingested_files :: int
  collecting_files :: int
  missing_files :: int
  s_empty :: bool

definition SOURCE_RETENTION_SECONDS :: "int \<Rightarrow> int" where
  "SOURCE_RETENTION_SECONDS days = max days 1 * 86400 + 86400"

text \<open>\<open>now\<close> in microseconds; \<open>days\<close> is \<open>RDS_BINLOG_SOURCE_RETENTION_DAYS\<close>.\<close>

definition instance_coverage :: "int \<Rightarrow> int \<Rightarrow> string list \<Rightarrow> string \<Rightarrow> (int \<times> int) option \<Rightarrow> file_row list \<Rightarrow> summary" where
  "instance_coverage days now ids inst win t =
     (let files = coverage_files inst win t;
          expired = now - SOURCE_RETENTION_SECONDS days * 1000000;
          c = (case win of Some (start, stop) \<Rightarrow> coverage_runs files ids start stop (Some expired)
               | None \<Rightarrow> coverage_runs_all files ids (Some expired));
          live = filter (\<lambda>f. cf_state f \<notin> set COPY_STATES) files
      in \<lparr>s_coverage = c,
          indexed_files = count_where (\<lambda>f. cf_id f \<in> set ids) live,
          not_ingested_files = count_where (\<lambda>f. cf_id f \<notin> set ids \<and> cf_state f \<noteq> Unavailable) live,
          collecting_files = count_where (\<lambda>f. cf_id f \<notin> set ids \<and> cf_state f \<in> set UNFINISHED_STATES) live,
          missing_files = count_where (\<lambda>f. cf_state f = Unavailable) live,
          s_empty = (intervals c = [])\<rparr>)"

lemma epoch_us_fmt:
  assumes "1000 \<le> year (fields_of b)" "year (fields_of b) \<le> 9999"
  shows "epoch_us (fmt b) = Some (b * 1000000)"
  using read_fields_fmt [OF assms] by (simp add: epoch_us_def epoch_of_fields_of)

definition four_digit_year :: "int \<Rightarrow> bool" where
  "four_digit_year t \<longleftrightarrow> 1000 \<le> year (fields_of t) \<and> year (fields_of t) \<le> 9999"

lemma coverage_files_reads:
  assumes r: "r \<in> set t" "binlog_row r" "f_instance_id r = inst"
    and b: "f_log_begin_utc r = fmt b" "four_digit_year b" and e: "f_log_end_utc r = fmt e" "four_digit_year e"
    and span: "e \<le> b + 3 * 86400"
    and win: "b * 1000000 \<le> stop" "start \<le> e * 1000000"
    and years: "four_digit_year (start div 1000000 - 3 * 86400)" "four_digit_year (stop div 1000000)"
  shows "\<lparr>cf_id = f_id r, cf_lo = b * 1000000, cf_hi = e * 1000000, cf_state = f_state r, cf_host = f_host_instance_id r\<rparr>
    \<in> set (coverage_files inst (Some (start, stop)) t)"
proof -
  have "start div 1000000 \<le> e" using win(2) by linarith
  then have "fmt (start div 1000000 - 3 * 86400) \<le> fmt b"
    using years b(2) span by (simp add: fmt_le_iff four_digit_year_def)
  moreover have "b \<le> stop div 1000000" using win(1) by linarith
  then have "fmt b \<le> fmt (stop div 1000000)" using years b(2) by (simp add: fmt_le_iff four_digit_year_def)
  ultimately have w: "window_row inst (Some (start, stop)) r" using r b by (simp add: window_row_def)
  have "epoch_us (f_log_begin_utc r) = Some (b * 1000000)" "epoch_us (f_log_end_utc r) = Some (e * 1000000)"
    using b e by (simp_all add: epoch_us_fmt four_digit_year_def)
  then have "cover_row (Some (start, stop)) r = Some \<lparr>cf_id = f_id r, cf_lo = b * 1000000, cf_hi = e * 1000000,
      cf_state = f_state r, cf_host = f_host_instance_id r\<rparr>"
    using r(2) win by (auto simp: cover_row_def binlog_row_def)
  then show ?thesis using r(1) w
    unfolding coverage_files_def List.map_filter_def by (force simp: image_iff)
qed

text \<open>
  The bounded catalog read of a window misses no file: a binlog of the instance that overlaps
  the window and spans at most three days is one of the files coverage is computed from, and a point of a
  covered interval inside its span means it is ingested or held by ingested files of another host.
\<close>

theorem instance_coverage_sound:
  assumes "r \<in> set t" "binlog_row r" "f_instance_id r = inst" "f_state r \<notin> set COPY_STATES"
    and "f_log_begin_utc r = fmt b" "four_digit_year b" "f_log_end_utc r = fmt e" "four_digit_year e"
    and "e \<le> b + 3 * 86400" "b * 1000000 \<le> x" "x < e * 1000000"
    and "four_digit_year (start div 1000000 - 3 * 86400)" "four_digit_year (stop div 1000000)"
    and x: "covers (intervals (s_coverage (instance_coverage days now ids inst (Some (start, stop)) t))) x"
  shows "f_id r \<in> set ids \<or> held_by_other (coverage_files inst (Some (start, stop)) t) ids (f_host_instance_id r) x"
proof -
  let ?f = "\<lparr>cf_id = f_id r, cf_lo = b * 1000000, cf_hi = e * 1000000, cf_state = f_state r, cf_host = f_host_instance_id r\<rparr>"
  let ?files = "coverage_files inst (Some (start, stop)) t"
  have c: "covers (intervals (coverage_runs ?files ids start stop (Some (now - SOURCE_RETENTION_SECONDS days * 1000000)))) x"
    using x by (simp add: instance_coverage_def Let_def)
  have win: "start \<le> x" "x < stop" using c by (simp_all add: coverage_runs_interval)
  have "?f \<in> set ?files"
    by (rule coverage_files_reads) (use assms win in auto)
  moreover have "span_holds ?f x" using assms(10,11) by (simp add: span_holds_def file_span_def)
  moreover have "\<not> gap_covers (raw_gaps ids (Some (now - SOURCE_RETENTION_SECONDS days * 1000000)) (ordered_files ?files)) x"
    using c by (simp add: coverage_runs_interval)
  ultimately show ?thesis
    using assms(4) unfolding raw_gaps_points held_by_other_iff span_holds_def by (force simp: set_ordered_files)
qed

definition done_row :: file_row where
  "done_row = (new_file ''k'' ''i'' ''t'' (sample_remote ''b.1'' ''Completed''))\<lparr>f_state := Done\<rparr>"

theorem instance_coverage_sound_witness:
  "intervals (s_coverage (instance_coverage 7 1793300000000000 [''k''] ''i'' (Some (1793221300000000, 1793230000000000)) [done_row]))
     = [(1793221300000000, 1793224800000000)]
   \<and> (f_id done_row \<in> set [''k''] \<or> held_by_other (coverage_files ''i'' (Some (1793221300000000, 1793230000000000)) [done_row]) [''k''] (f_host_instance_id done_row) 1793221300000001)"
proof
  have f: "fields_of 1793221200 = \<lparr>year = 2026, month = 10, day = 28, hour = 21, minute = 0, second = 0\<rparr>"
    "fields_of 1793224800 = \<lparr>year = 2026, month = 10, day = 28, hour = 22, minute = 0, second = 0\<rparr>"
    "fields_of 1792962100 = \<lparr>year = 2026, month = 10, day = 25, hour = 21, minute = 1, second = 40\<rparr>"
    "fields_of 1793230000 = \<lparr>year = 2026, month = 10, day = 28, hour = 23, minute = 26, second = 40\<rparr>"
    by (simp_all add: fields_of_def ord2ymd_def month_day_def Let_def)
  have t: "fmt 1793221200 = ''2026-10-28T21:00:00Z''" "fmt 1793224800 = ''2026-10-28T22:00:00Z''"
    by code_simp+
  show c: "intervals (s_coverage (instance_coverage 7 1793300000000000 [''k''] ''i'' (Some (1793221300000000, 1793230000000000)) [done_row]))
     = [(1793221300000000, 1793224800000000)]"
  proof -
    have d: "f_log_begin_utc done_row = fmt 1793221200" "f_log_end_utc done_row = fmt 1793224800" "f_id done_row = ''k''"
      "f_instance_id done_row = ''i''" "f_host_instance_id done_row = ''h1''" "f_log_file_name done_row = ''b.1''" "f_state done_row = Done"
      unfolding t by (simp_all add: done_row_def new_file_def sample_remote_def)
    have e: "epoch_us (fmt 1793221200) = Some (1793221200 * 1000000)" "epoch_us (fmt 1793224800) = Some (1793224800 * 1000000)"
      by (rule epoch_us_fmt; simp add: f)+
    have w: "window_row ''i'' (Some (1793221300000000, 1793230000000000)) done_row"
      unfolding window_row_def d by (simp add: fmt_le_iff f)
    have "coverage_files ''i'' (Some (1793221300000000, 1793230000000000)) [done_row]
      = [\<lparr>cf_id = ''k'', cf_lo = 1793221200000000, cf_hi = 1793224800000000, cf_state = Done, cf_host = ''h1''\<rparr>]"
      by (simp add: coverage_files_def w List.map_filter_def cover_row_def d e NON_BINLOG_HOST_IDS_def)
    moreover have "intervals (coverage_runs [\<lparr>cf_id = ''k'', cf_lo = 1793221200000000, cf_hi = 1793224800000000, cf_state = Done, cf_host = ''h1''\<rparr>]
        [''k''] 1793221300000000 1793230000000000 (Some 1792608800000000)) = [(1793221300000000, 1793224800000000)]"
      by code_simp
    ultimately show ?thesis by (simp add: instance_coverage_def Let_def SOURCE_RETENTION_SECONDS_def)
  qed
  show "f_id done_row \<in> set [''k''] \<or> held_by_other (coverage_files ''i'' (Some (1793221300000000, 1793230000000000)) [done_row]) [''k''] (f_host_instance_id done_row) 1793221300000001"
    by (rule instance_coverage_sound [of done_row "[done_row]" "''i''" 1793221200 1793224800 1793221300000001 1793221300000000 1793230000000000 7 1793300000000000])
      (simp_all add: c four_digit_year_def f t, simp_all add: done_row_def binlog_row_def new_file_def sample_remote_def NON_BINLOG_HOST_IDS_def COPY_STATES_def)
qed

end
