(* ===== verification/HostPlan.thy ===== *)
theory HostPlan
  imports Spans FileCatalog IsoTime
begin

text \<open>
  \<open>HostPlan\<close> of \<open>app/sync_discovery.py\<close>: which hosts' files make the timeline of an instance. The plan
  keeps the spans of the registered files per host and caches the merged spans and the start of the
  primary's own run; both caches are part of the state here, as in the class, and the answers are shown
  not to depend on them. Times are whole seconds.
\<close>

definition COVER_TOLERANCE_SECONDS :: int where "COVER_TOLERANCE_SECONDS = 2"

text \<open>\<open>float('inf')\<close> is \<open>None\<close> in a floor; the outer option is the unset cache.\<close>

record host_plan =
  hp_primary :: string
  hp_spans :: "(string \<times> span list) list"
  hp_merged :: "(string \<times> span list) list"
  hp_floor :: "int option option"

definition spans_of :: "host_plan \<Rightarrow> string \<Rightarrow> span list" where
  "spans_of p host = (case map_of (hp_spans p) host of None \<Rightarrow> [] | Some ss \<Rightarrow> ss)"

definition known_hosts :: "host_plan \<Rightarrow> string list" where
  "known_hosts p = map fst (hp_spans p)"

definition row_span :: "file_row \<Rightarrow> span" where
  "row_span r = (iso_epoch (f_log_begin_utc r), iso_epoch (f_log_end_utc r))"

definition item_span :: "remote \<Rightarrow> span" where
  "item_span item = (iso_epoch (r_log_begin_utc item), iso_epoch (r_log_end_utc item))"

text \<open>\<open>self.spans[host].append(span)\<close> on the defaultdict.\<close>

definition append_span :: "string \<Rightarrow> span \<Rightarrow> (string \<times> span list) list \<Rightarrow> (string \<times> span list) list" where
  "append_span host s d = AList.update host ((case map_of d host of None \<Rightarrow> [] | Some ss \<Rightarrow> ss) @ [s]) d"

definition init_plan :: "file_row list \<Rightarrow> string \<Rightarrow> host_plan" where
  "init_plan rs primary = \<lparr>hp_primary = primary,
     hp_spans = foldl (\<lambda>d r. append_span (f_host_instance_id r) (row_span r) d) [] rs,
     hp_merged = [], hp_floor = None\<rparr>"

definition load_plan :: "string \<Rightarrow> string \<Rightarrow> string \<Rightarrow> file_row list \<Rightarrow> host_plan" where
  "load_plan inst primary since_utc t = init_plan (binlog_host_rows inst since_utc t) primary"

definition merged :: "string \<Rightarrow> host_plan \<Rightarrow> span list \<times> host_plan" where
  "merged host p = (case map_of (hp_merged p) host of
     Some m \<Rightarrow> (m, p)
   | None \<Rightarrow> let m = merge_spans COVER_TOLERANCE_SECONDS (spans_of p host)
       in (m, p\<lparr>hp_merged := AList.update host m (hp_merged p)\<rparr>))"

definition spans_cover :: "span list \<Rightarrow> int \<Rightarrow> int \<Rightarrow> bool" where
  "spans_cover ss begin_at end_at \<longleftrightarrow> (\<exists>(lo, hi) \<in> set ss. lo \<le> begin_at \<and> end_at \<le> hi)"

text \<open>\<open>any(...)\<close> stops at the first host that covers the span.\<close>

fun covered :: "string list \<Rightarrow> int \<Rightarrow> int \<Rightarrow> host_plan \<Rightarrow> bool \<times> host_plan" where
  "covered [] b e p = (False, p)"
| "covered (host # hosts) b e p = (case merged host p of (m, p) \<Rightarrow>
     if spans_cover m b e then (True, p) else covered hosts b e p)"

fun floor_loop :: "string list \<Rightarrow> span list \<Rightarrow> int option \<Rightarrow> int option \<Rightarrow> host_plan \<Rightarrow> int option \<times> host_plan" where
  "floor_loop others [] floor_at previous_hi p = (floor_at, p)"
| "floor_loop others ((lo, hi) # ss) floor_at previous_hi p = (case covered others lo hi p of (c, p) \<Rightarrow>
     if c then floor_loop others ss floor_at previous_hi p
     else floor_loop others ss
       (case previous_hi of None \<Rightarrow> Some lo | Some ph \<Rightarrow> if ph + COVER_TOLERANCE_SECONDS < lo then Some lo else floor_at)
       (case previous_hi of None \<Rightarrow> Some hi | Some ph \<Rightarrow> Some (max ph hi)) p)"

definition other_hosts :: "string \<Rightarrow> host_plan \<Rightarrow> string list" where
  "other_hosts host p = filter (\<lambda>h. h \<noteq> host) (known_hosts p)"

definition primary_floor :: "host_plan \<Rightarrow> int option \<times> host_plan" where
  "primary_floor p = (case hp_floor p of
     Some f \<Rightarrow> (f, p)
   | None \<Rightarrow> (case floor_loop (other_hosts (hp_primary p) p) (sort (spans_of p (hp_primary p))) None None p of
       (f, p) \<Rightarrow> (f, p\<lparr>hp_floor := Some f\<rparr>)))"

definition below_floor :: "int \<Rightarrow> int option \<Rightarrow> bool" where
  "below_floor b f = (case f of None \<Rightarrow> True | Some x \<Rightarrow> b < x)"

definition accept_new :: "remote \<Rightarrow> host_plan \<Rightarrow> bool \<times> host_plan" where
  "accept_new item p = (let host = r_host_instance_id item in case item_span item of (b, e) \<Rightarrow>
     if hp_primary p = '''' then (host \<in> set (known_hosts p), p)
     else if host = hp_primary p
     then (case covered (other_hosts host p) b e p of (c, p) \<Rightarrow> (\<not> c, p))
     else if host \<in> set (known_hosts p)
     then (case primary_floor p of (f, p) \<Rightarrow>
       if below_floor b f then (case covered [hp_primary p] b e p of (c, p) \<Rightarrow> (\<not> c, p)) else (False, p))
     else (False, p))"

definition covered_by_primary :: "string \<Rightarrow> string \<Rightarrow> string \<Rightarrow> host_plan \<Rightarrow> bool \<times> host_plan" where
  "covered_by_primary host begin_text end_text p =
     (if hp_primary p = '''' \<or> host = hp_primary p then (False, p)
      else covered [hp_primary p] (iso_epoch begin_text) (iso_epoch end_text) p)"

definition add_item :: "remote \<Rightarrow> host_plan \<Rightarrow> host_plan" where
  "add_item item p = (let host = r_host_instance_id item in
     p\<lparr>hp_spans := append_span host (item_span item) (hp_spans p),
       hp_merged := AList.delete host (hp_merged p), hp_floor := None\<rparr>)"

section \<open>The plan without its caches\<close>

type_synonym timeline = "string \<Rightarrow> span list"

definition covered_spec :: "timeline \<Rightarrow> string list \<Rightarrow> int \<Rightarrow> int \<Rightarrow> bool" where
  "covered_spec line_of hosts b e \<longleftrightarrow> (\<exists>h \<in> set hosts. spans_cover (merge_spans COVER_TOLERANCE_SECONDS (line_of h)) b e)"

fun floor_spec :: "(int \<Rightarrow> int \<Rightarrow> bool) \<Rightarrow> span list \<Rightarrow> int option \<Rightarrow> int option \<Rightarrow> int option" where
  "floor_spec cov [] floor_at previous_hi = floor_at"
| "floor_spec cov ((lo, hi) # ss) floor_at previous_hi =
    (if cov lo hi then floor_spec cov ss floor_at previous_hi
     else floor_spec cov ss
       (case previous_hi of None \<Rightarrow> Some lo | Some ph \<Rightarrow> if ph + COVER_TOLERANCE_SECONDS < lo then Some lo else floor_at)
       (case previous_hi of None \<Rightarrow> Some hi | Some ph \<Rightarrow> Some (max ph hi)))"

definition floor_of :: "host_plan \<Rightarrow> int option" where
  "floor_of p = floor_spec (covered_spec (spans_of p) (other_hosts (hp_primary p) p)) (sort (spans_of p (hp_primary p))) None None"

text \<open>The rule of the class documentation.\<close>

definition accepts :: "host_plan \<Rightarrow> remote \<Rightarrow> bool" where
  "accepts p item = (let host = r_host_instance_id item in case item_span item of (b, e) \<Rightarrow>
     if hp_primary p = '''' then host \<in> set (known_hosts p)
     else if host = hp_primary p then \<not> covered_spec (spans_of p) (other_hosts host p) b e
     else host \<in> set (known_hosts p) \<and> below_floor b (floor_of p)
       \<and> \<not> covered_spec (spans_of p) [hp_primary p] b e)"

definition caches_ok :: "host_plan \<Rightarrow> bool" where
  "caches_ok p \<longleftrightarrow> (\<forall>h m. map_of (hp_merged p) h = Some m \<longrightarrow> m = merge_spans COVER_TOLERANCE_SECONDS (spans_of p h))
     \<and> (\<forall>f. hp_floor p = Some f \<longrightarrow> f = floor_of p) \<and> distinct (known_hosts p)"

text \<open>Two plans with the same timeline.\<close>

definition same_plan :: "host_plan \<Rightarrow> host_plan \<Rightarrow> bool" where
  "same_plan p q \<longleftrightarrow> hp_primary p = hp_primary q \<and> hp_spans p = hp_spans q"

lemma same_plan_refl [simp]: "same_plan p p" by (simp add: same_plan_def)

lemma same_plan_trans [trans]: "same_plan p q \<Longrightarrow> same_plan q r \<Longrightarrow> same_plan p r" by (simp add: same_plan_def)

lemma same_plan_eqs:
  assumes "same_plan q p"
  shows "spans_of q = spans_of p" "known_hosts q = known_hosts p" "other_hosts h q = other_hosts h p"
    "floor_of q = floor_of p" "hp_primary q = hp_primary p" "accepts q = accepts p"
proof -
  have e: "spans_of q = spans_of p" "known_hosts q = known_hosts p" "hp_primary q = hp_primary p"
    using assms by (auto simp: same_plan_def spans_of_def known_hosts_def fun_eq_iff)
  have oh: "other_hosts h q = other_hosts h p" for h by (simp add: other_hosts_def e)
  have f: "floor_of q = floor_of p" by (simp add: floor_of_def e oh)
  have "accepts q = accepts p" by (rule ext) (simp add: accepts_def e oh f)
  with e oh f show "spans_of q = spans_of p" "known_hosts q = known_hosts p" "other_hosts h q = other_hosts h p"
    "floor_of q = floor_of p" "hp_primary q = hp_primary p" "accepts q = accepts p" by simp_all
qed

lemma merged_spec:
  assumes "caches_ok p"
  shows "fst (merged h p) = merge_spans COVER_TOLERANCE_SECONDS (spans_of p h)"
    "caches_ok (snd (merged h p))" "same_plan (snd (merged h p)) p"
proof -
  show "fst (merged h p) = merge_spans COVER_TOLERANCE_SECONDS (spans_of p h)"
    using assms by (auto simp: merged_def caches_ok_def Let_def split: option.split)
  show s: "same_plan (snd (merged h p)) p"
    by (auto simp: merged_def same_plan_def Let_def split: option.split)
  have "hp_floor (snd (merged h p)) = hp_floor p" by (auto simp: merged_def Let_def split: option.split)
  moreover have "map_of (hp_merged (snd (merged h p))) k = Some m \<Longrightarrow> m = merge_spans COVER_TOLERANCE_SECONDS (spans_of p k)" for k m
    using assms by (auto simp: merged_def caches_ok_def Let_def update_conv' split: option.splits if_splits)
  ultimately show "caches_ok (snd (merged h p))"
    using assms unfolding caches_ok_def same_plan_eqs [OF s] by auto
qed

lemma covered_refines:
  assumes "caches_ok p" "covered hosts b e p = (c, q)"
  shows "c = covered_spec (spans_of p) hosts b e \<and> caches_ok q \<and> same_plan q p"
  using assms
proof (induction hosts arbitrary: p)
  case Nil
  then show ?case by (simp add: covered_spec_def)
next
  case (Cons h hosts)
  obtain m p' where m: "merged h p = (m, p')" by fastforce
  note ms = merged_spec [OF Cons.prems(1), of h, unfolded m, simplified]
  show ?case
  proof (cases "spans_cover m b e")
    case True
    with Cons.prems m ms show ?thesis by (auto simp: covered_spec_def)
  next
    case False
    with Cons.prems(2) m have "covered hosts b e p' = (c, q)" by simp
    from Cons.IH [OF ms(2) this] False ms same_plan_eqs(1) [OF ms(3)] show ?thesis
      by (auto simp: covered_spec_def intro: same_plan_trans)
  qed
qed

lemma floor_loop_refines:
  assumes "caches_ok p" "floor_loop others ss fl ph p = (f, q)"
  shows "f = floor_spec (covered_spec (spans_of p) others) ss fl ph \<and> caches_ok q \<and> same_plan q p"
  using assms
proof (induction ss arbitrary: fl ph p)
  case Nil
  then show ?case by simp
next
  case (Cons s ss)
  obtain lo hi where s: "s = (lo, hi)" by (rule prod.exhaust)
  obtain c p' where c: "covered others lo hi p = (c, p')" by fastforce
  note cs = covered_refines [OF Cons.prems(1) c]
  then have ok: "caches_ok p'" and sp: "same_plan p' p" and ceq: "c = covered_spec (spans_of p) others lo hi" by auto
  show ?case
  proof (cases c)
    case True
    with Cons.prems(2) c have "floor_loop others ss fl ph p' = (f, q)" by (simp add: s)
    from Cons.IH [OF ok this] True ceq sp same_plan_eqs(1) [OF sp] show ?thesis
      by (auto simp: s intro: same_plan_trans)
  next
    case False
    with Cons.prems(2) c have "floor_loop others ss
       (case ph of None \<Rightarrow> Some lo | Some ph \<Rightarrow> if ph + COVER_TOLERANCE_SECONDS < lo then Some lo else fl)
       (case ph of None \<Rightarrow> Some hi | Some ph \<Rightarrow> Some (max ph hi)) p' = (f, q)" by (simp add: s)
    from Cons.IH [OF ok this] False ceq sp same_plan_eqs(1) [OF sp] show ?thesis
      by (auto simp: s intro: same_plan_trans)
  qed
qed

lemma primary_floor_refines:
  assumes "caches_ok p" "primary_floor p = (f, q)"
  shows "f = floor_of p \<and> caches_ok q \<and> same_plan q p"
proof (cases "hp_floor p")
  case (Some g)
  with assms show ?thesis by (auto simp: primary_floor_def caches_ok_def)
next
  case None
  obtain g r where g: "floor_loop (other_hosts (hp_primary p) p) (sort (spans_of p (hp_primary p))) None None p = (g, r)" by fastforce
  from floor_loop_refines [OF assms(1) g] have r: "g = floor_of p" "caches_ok r" "same_plan r p" by (auto simp: floor_of_def)
  have q: "f = g" "q = r\<lparr>hp_floor := Some g\<rparr>" using assms(2) None g by (auto simp: primary_floor_def)
  have s: "same_plan q p" using r q by (simp add: same_plan_def)
  have "hp_merged q = hp_merged r" using q by simp
  with r s show ?thesis unfolding caches_ok_def same_plan_eqs [OF s] same_plan_eqs [OF r(3)] by (auto simp: q)
qed

lemma accept_new_spec:
  assumes "caches_ok p" "accept_new item p = (a, q)"
  shows "a = accepts p item \<and> caches_ok q \<and> same_plan q p"
proof -
  obtain b e where be: "item_span item = (b, e)" by (rule prod.exhaust)
  let ?host = "r_host_instance_id item"
  show ?thesis
  proof (cases "hp_primary p = ''''")
    case True
    with assms be show ?thesis by (auto simp: accept_new_def accepts_def Let_def)
  next
    case p: False
    show ?thesis
    proof (cases "?host = hp_primary p")
      case True
      obtain c r where c: "covered (other_hosts ?host p) b e p = (c, r)" by fastforce
      from covered_refines [OF assms(1) c] assms(2) p True c be show ?thesis
        by (auto simp: accept_new_def accepts_def Let_def)
    next
      case np: False
      show ?thesis
      proof (cases "?host \<in> set (known_hosts p)")
        case False
        with assms np p be show ?thesis by (auto simp: accept_new_def accepts_def Let_def)
      next
        case True
        obtain f r where f: "primary_floor p = (f, r)" by fastforce
        note fs = primary_floor_refines [OF assms(1) f]
        then have r: "caches_ok r" "same_plan r p" "f = floor_of p" by auto
        obtain c u where c: "covered [hp_primary r] b e r = (c, u)" by fastforce
        note cs = covered_refines [OF r(1) c]
        show ?thesis
          using assms(2) np p True be f c cs r same_plan_eqs [OF r(2)]
          by (auto simp: accept_new_def accepts_def Let_def intro: same_plan_trans split: if_splits)
      qed
    qed
  qed
qed

lemma covered_by_primary_spec:
  assumes "caches_ok p" "covered_by_primary host b e p = (a, q)"
  shows "(a \<longleftrightarrow> hp_primary p \<noteq> '''' \<and> host \<noteq> hp_primary p
      \<and> covered_spec (spans_of p) [hp_primary p] (iso_epoch b) (iso_epoch e)) \<and> caches_ok q \<and> same_plan q p"
proof (cases "hp_primary p = '''' \<or> host = hp_primary p")
  case True
  with assms show ?thesis by (auto simp: covered_by_primary_def)
next
  case False
  with assms(2) have "covered [hp_primary p] (iso_epoch b) (iso_epoch e) p = (a, q)" by (simp add: covered_by_primary_def)
  from covered_refines [OF assms(1) this] False show ?thesis by auto
qed

section \<open>Registering\<close>

lemma append_span_simps:
  "map_of (append_span host s d) h = (if h = host then Some ((case map_of d host of None \<Rightarrow> [] | Some ss \<Rightarrow> ss) @ [s]) else map_of d h)"
  "set (map fst (append_span host s d)) = insert host (set (map fst d))"
  "distinct (map fst d) \<Longrightarrow> distinct (map fst (append_span host s d))"
  by (auto simp: append_span_def update_conv' dom_update distinct_update simp flip: dom_map_of_conv_image_fst)

lemma add_item_spans:
  "spans_of (add_item item p) h = (if h = r_host_instance_id item then spans_of p h @ [item_span item] else spans_of p h)"
  "set (known_hosts (add_item item p)) = insert (r_host_instance_id item) (set (known_hosts p))"
  "hp_primary (add_item item p) = hp_primary p"
  using append_span_simps(2) [of "r_host_instance_id item" "item_span item" "hp_spans p"]
  by (simp_all add: add_item_def spans_of_def known_hosts_def Let_def append_span_simps(1))

lemma add_item_ok: "caches_ok p \<Longrightarrow> caches_ok (add_item item p)"
proof -
  assume ok: "caches_ok p"
  have m: "hp_merged (add_item item p) = AList.delete (r_host_instance_id item) (hp_merged p)"
    and fl: "hp_floor (add_item item p) = None" by (simp_all add: add_item_def Let_def)
  have d: "distinct (known_hosts (add_item item p))"
    using ok append_span_simps(3) by (simp add: add_item_def known_hosts_def Let_def caches_ok_def)
  show ?thesis
    using ok d fl unfolding caches_ok_def m add_item_spans(1) by (auto simp: delete_conv' split: if_splits)
qed

lemma init_plan_ok: "caches_ok (init_plan rs primary)"
proof -
  have "distinct (map fst (foldl (\<lambda>d r. append_span (f_host_instance_id r) (row_span r) d) [] rs))"
    by (rule foldl_inv) (simp_all add: append_span_simps)
  then show ?thesis by (simp add: caches_ok_def init_plan_def known_hosts_def)
qed

inductive plan_step :: "host_plan \<Rightarrow> host_plan \<Rightarrow> bool" where
  asked: "plan_step p (snd (accept_new item p))"
| settled: "plan_step p (snd (covered_by_primary host b e p))"
| registered: "plan_step p (add_item item p)"

inductive_cases plan_stepE: "plan_step p q"

lemma plan_step_ok: "plan_step p q \<Longrightarrow> caches_ok p \<Longrightarrow> caches_ok q"
  by (erule plan_stepE) (metis accept_new_spec covered_by_primary_spec add_item_ok prod.collapse)+

interpretation plan: transition_system plan_step caches_ok
  by unfold_locales (rule plan_step_ok)

text \<open>
  Property C29. The memoised plan refines the documented rule: after any questions and registrations on a
  loaded plan, \<open>accept_new\<close> and \<open>covered_by_primary\<close> answer what the rule says of the registered spans
  alone, whatever the caches hold.
\<close>

theorem plan_memo_transparent:
  assumes "plan_step\<^sup>*\<^sup>* (init_plan rs primary) p"
  shows "fst (accept_new item p) = accepts p item
    \<and> fst (covered_by_primary host b e p) = (hp_primary p \<noteq> '''' \<and> host \<noteq> hp_primary p
        \<and> covered_spec (spans_of p) [hp_primary p] (iso_epoch b) (iso_epoch e))"
proof -
  have ok: "caches_ok p" by (rule plan.reachable_inv [OF assms init_plan_ok])
  show ?thesis
    using accept_new_spec [OF ok, of item] covered_by_primary_spec [OF ok, of host b e] by (metis prod.collapse)
qed

lemma covered_after_add:
  assumes "fst (item_span item) \<le> fst s" "snd s \<le> snd (item_span item)" "r_host_instance_id item \<in> set hosts"
  shows "covered_spec (spans_of (add_item item p)) hosts (fst s) (snd s)"
proof -
  obtain l h where i: "item_span item = (l, h)" by (rule prod.exhaust)
  have "(l, h) \<in> set (spans_of (add_item item p) (r_host_instance_id item))" by (simp add: add_item_spans i)
  from merge_spans_within [OF this, of COVER_TOLERANCE_SECONDS] obtain a b where
    ab: "(a, b) \<in> set (merge_spans COVER_TOLERANCE_SECONDS (spans_of (add_item item p) (r_host_instance_id item)))"
      "a \<le> l" "h \<le> b" by blast
  then have "spans_cover (merge_spans COVER_TOLERANCE_SECONDS (spans_of (add_item item p) (r_host_instance_id item))) (fst s) (snd s)"
    unfolding spans_cover_def by (intro bexI [OF _ ab(1)]) (use ab assms(1,2) i in auto)
  then show ?thesis unfolding covered_spec_def using assms(3) by blast
qed

text \<open>
  Property C16. One copy of each change: once a file is registered, a file of another host whose span lies
  inside it is not taken any more when one of the two hosts is the primary; and a file of a host that is
  neither the primary nor has registered files is never taken.
\<close>

theorem no_second_copy:
  assumes "caches_ok p" "hp_primary p \<noteq> ''''"
    and "r_host_instance_id other \<noteq> r_host_instance_id item"
    and "hp_primary p \<in> {r_host_instance_id other, r_host_instance_id item}"
    and "fst (item_span item) \<le> fst (item_span other)" "snd (item_span other) \<le> snd (item_span item)"
  shows "\<not> fst (accept_new other (add_item item p))
    \<and> (r_host_instance_id x \<noteq> hp_primary p \<and> r_host_instance_id x \<notin> set (known_hosts p) \<longrightarrow> \<not> fst (accept_new x p))"
proof -
  let ?q = "add_item item p"
  obtain b e where be: "item_span other = (b, e)" by (rule prod.exhaust)
  have "\<not> accepts ?q other"
  proof (cases "r_host_instance_id other = hp_primary p")
    case True
    have "r_host_instance_id item \<in> set (other_hosts (r_host_instance_id other) ?q)"
      using assms(3) by (simp add: other_hosts_def add_item_spans)
    from covered_after_add [OF assms(5,6) this, of p] True assms(2) show ?thesis
      by (simp add: accepts_def Let_def be add_item_spans)
  next
    case False
    then have "r_host_instance_id item \<in> set [hp_primary p]" using assms(4) by simp
    from covered_after_add [OF assms(5,6) this, of p] False assms(2) show ?thesis
      by (simp add: accepts_def Let_def be add_item_spans)
  qed
  moreover have "fst (accept_new other ?q) = accepts ?q other"
    using accept_new_spec [OF add_item_ok [OF assms(1)], of other item] by (metis prod.collapse)
  moreover have "\<not> fst (accept_new x p)" if "r_host_instance_id x \<noteq> hp_primary p" "r_host_instance_id x \<notin> set (known_hosts p)"
    using that assms(2) by (simp add: accept_new_def Let_def split: prod.split)
  ultimately show ?thesis by simp
qed

definition host_item :: "string \<Rightarrow> string \<Rightarrow> string \<Rightarrow> remote" where
  "host_item host b e = (sample_remote ''mysql-bin.000007'' ''Completed'')
     \<lparr>r_host_instance_id := host, r_log_begin_utc := b, r_log_end_utc := e\<rparr>"

text \<open>The primary of the sample plan has one registered file, the former primary the hour before it.\<close>

definition sample_plan :: host_plan where
  "sample_plan = add_item (host_item ''old'' ''2026-10-28T20:00:00Z'' ''2026-10-28T21:00:00Z'')
     (init_plan [new_file ''k'' ''i'' ''t'' (host_item ''new'' ''2026-10-28T21:00:00Z'' ''2026-10-28T22:00:00Z'')] ''new'')"

lemma sample_plan_ok: "caches_ok sample_plan" "hp_primary sample_plan = ''new''"
  by (simp_all add: sample_plan_def add_item_ok init_plan_ok add_item_spans) (simp add: init_plan_def)

theorem no_second_copy_witness:
  "\<not> fst (accept_new (host_item ''old'' ''2026-10-28T22:10:00Z'' ''2026-10-28T22:20:00Z'')
       (add_item (host_item ''new'' ''2026-10-28T22:00:00Z'' ''2026-10-28T23:00:00Z'') sample_plan))"
proof -
  have "item_span (host_item ''new'' ''2026-10-28T22:00:00Z'' ''2026-10-28T23:00:00Z'') = (1793224800, 1793228400)"
    "item_span (host_item ''old'' ''2026-10-28T22:10:00Z'' ''2026-10-28T22:20:00Z'') = (1793225400, 1793226000)"
    by code_simp+
  then show ?thesis
    using no_second_copy [OF sample_plan_ok(1)] sample_plan_ok(2) by (simp add: host_item_def)
qed

theorem plan_memo_transparent_witness:
  "fst (accept_new (host_item ''old'' ''2026-10-28T19:00:00Z'' ''2026-10-28T20:00:00Z'') sample_plan)
     = accepts sample_plan (host_item ''old'' ''2026-10-28T19:00:00Z'' ''2026-10-28T20:00:00Z'')
   \<and> accepts sample_plan (host_item ''old'' ''2026-10-28T19:00:00Z'' ''2026-10-28T20:00:00Z'')"
proof
  have "plan_step\<^sup>*\<^sup>* (init_plan [new_file ''k'' ''i'' ''t'' (host_item ''new'' ''2026-10-28T21:00:00Z'' ''2026-10-28T22:00:00Z'')] ''new'') sample_plan"
    unfolding sample_plan_def by (rule r_into_rtranclp) (rule plan_step.registered)
  from plan_memo_transparent [OF this, THEN conjunct1]
  show "fst (accept_new (host_item ''old'' ''2026-10-28T19:00:00Z'' ''2026-10-28T20:00:00Z'') sample_plan)
     = accepts sample_plan (host_item ''old'' ''2026-10-28T19:00:00Z'' ''2026-10-28T20:00:00Z'')" .
  show "accepts sample_plan (host_item ''old'' ''2026-10-28T19:00:00Z'' ''2026-10-28T20:00:00Z'')" by code_simp
qed

section \<open>The start of the primary's own run\<close>

definition floor_step :: "int option \<times> int option \<Rightarrow> span \<Rightarrow> int option \<times> int option" where
  "floor_step st s = (case (st, s) of ((fl, ph), (lo, hi)) \<Rightarrow>
     (case ph of None \<Rightarrow> Some lo | Some h \<Rightarrow> if h + COVER_TOLERANCE_SECONDS < lo then Some lo else fl,
      case ph of None \<Rightarrow> Some hi | Some h \<Rightarrow> Some (max h hi)))"

lemma floor_spec_fold:
  "floor_spec cov ss fl ph = fst (foldl floor_step (fl, ph) (filter (\<lambda>(l, h). \<not> cov l h) ss))"
  by (induction cov ss fl ph rule: floor_spec.induct) (auto simp: floor_step_def)

definition floor_run :: "span list \<Rightarrow> int \<Rightarrow> bool" where
  "floor_run ts x \<longleftrightarrow> x \<in> fst ` set ts \<and> (\<forall>(l, h) \<in> set ts. l < x \<longrightarrow> h + COVER_TOLERANCE_SECONDS < x)"

lemma floor_fold_run:
  assumes "sorted ts" "ts \<noteq> []"
  shows "\<exists>x m. foldl floor_step (None, None) ts = (Some x, Some m) \<and> floor_run ts x \<and> (\<forall>(l, h) \<in> set ts. h \<le> m)"
  using assms
proof (induction ts rule: rev_induct)
  case (snoc s ts)
  obtain lo hi where s: "s = (lo, hi)" by (rule prod.exhaust)
  have ord: "l \<le> lo" if "(l, h) \<in> set ts" for l h
    using snoc.prems that by (auto simp: sorted_wrt_append s less_eq_prod_def)
  show ?case
  proof (cases "ts = []")
    case True
    then show ?thesis by (simp add: floor_step_def floor_run_def s)
  next
    case False
    then obtain x m where IH: "foldl floor_step (None, None) ts = (Some x, Some m)" "floor_run ts x" "\<forall>(l, h) \<in> set ts. h \<le> m"
      using snoc by (auto simp: sorted_wrt_append)
    obtain l where l: "(x, l) \<in> set ts" using IH(2) by (auto simp: floor_run_def)
    have xlo: "x \<le> lo" using ord [OF l] .
    show ?thesis
    proof (cases "m + COVER_TOLERANCE_SECONDS < lo")
      case True
      have "h + COVER_TOLERANCE_SECONDS < lo" if "(a, h) \<in> set ts" for a h using IH(3) that True by force
      then have "floor_run (ts @ [s]) lo" unfolding floor_run_def by (auto simp: s)
      moreover have "floor_step (Some x, Some m) s = (Some lo, Some (max m hi))" using True by (simp add: floor_step_def s)
      moreover have "\<forall>(l, h) \<in> set (ts @ [s]). h \<le> max m hi" using IH(3) by (auto simp: s)
      ultimately show ?thesis using IH(1) by (intro exI [of _ lo] exI [of _ "max m hi"]) simp
    next
      case False
      have "floor_run (ts @ [s]) x" using IH(2) xlo unfolding floor_run_def by (auto simp: s)
      moreover have "floor_step (Some x, Some m) s = (Some x, Some (max m hi))" using False by (simp add: floor_step_def s)
      moreover have "\<forall>(l, h) \<in> set (ts @ [s]). h \<le> max m hi" using IH(3) by (auto simp: s)
      ultimately show ?thesis using IH(1) by (intro exI [of _ x] exI [of _ "max m hi"]) simp
    qed
  qed
qed simp

text \<open>The primary's files that other hosts do not cover.\<close>

definition own_files :: "host_plan \<Rightarrow> span list" where
  "own_files p = filter (\<lambda>(l, h). \<not> covered_spec (spans_of p) (other_hosts (hp_primary p) p) l h) (spans_of p (hp_primary p))"

lemma floor_of_run:
  "(floor_of p = None \<longleftrightarrow> own_files p = []) \<and> (\<forall>x. floor_of p = Some x \<longrightarrow> floor_run (own_files p) x)"
proof -
  let ?ts = "filter (\<lambda>(l, h). \<not> covered_spec (spans_of p) (other_hosts (hp_primary p) p) l h) (sort (spans_of p (hp_primary p)))"
  have f: "floor_of p = fst (foldl floor_step (None, None) ?ts)" by (simp add: floor_of_def floor_spec_fold)
  have e: "set ?ts = set (own_files p)" by (auto simp: own_files_def)
  then have r: "floor_run ?ts x = floor_run (own_files p) x" for x by (simp add: floor_run_def)
  have srt: "sorted ?ts" by (rule sorted_wrt_filter) simp
  have ne: "?ts = [] \<longleftrightarrow> own_files p = []" using e by (metis set_empty)
  show ?thesis
  proof (cases "?ts = []")
    case True
    then show ?thesis using f ne by simp
  next
    case False
    from floor_fold_run [OF srt False] f r ne False show ?thesis by auto
  qed
qed

text \<open>
  A former primary's backlog is not lost at a switch: a file of a host with registered files is
  taken when the primary does not cover it and it starts before the primary's latest own run, where that run
  starts more than the tolerance after the end of every earlier own file; before the primary has own files
  every such file is taken.
\<close>

theorem former_primary_taken:
  assumes "caches_ok p" "hp_primary p \<noteq> ''''" "r_host_instance_id item \<noteq> hp_primary p"
    and "r_host_instance_id item \<in> set (known_hosts p)"
    and "\<not> covered_spec (spans_of p) [hp_primary p] (fst (item_span item)) (snd (item_span item))"
  shows "fst (accept_new item p) \<longleftrightarrow> own_files p = []
    \<or> (\<exists>x. fst (primary_floor p) = Some x \<and> fst (item_span item) < x \<and> x \<in> fst ` set (own_files p)
         \<and> (\<forall>(l, h) \<in> set (own_files p). l < x \<longrightarrow> h + COVER_TOLERANCE_SECONDS < x))"
proof -
  have "fst (accept_new item p) = accepts p item" using accept_new_spec [OF assms(1), of item] by (metis prod.collapse)
  moreover have "fst (primary_floor p) = floor_of p" using primary_floor_refines [OF assms(1)] by (metis prod.collapse)
  moreover have "accepts p item \<longleftrightarrow> below_floor (fst (item_span item)) (floor_of p)"
    using assms(2-5) by (cases "item_span item") (simp add: accepts_def Let_def)
  ultimately show ?thesis
    using floor_of_run [of p] by (cases "floor_of p") (auto simp: below_floor_def floor_run_def)
qed

theorem former_primary_taken_witness:
  "fst (accept_new (host_item ''old'' ''2026-10-28T19:00:00Z'' ''2026-10-28T20:00:00Z'') sample_plan)"
proof -
  have "own_files sample_plan = [(1793221200, 1793224800)]" "known_hosts sample_plan = [''new'', ''old'']"
    "fst (primary_floor sample_plan) = Some 1793221200"
    "item_span (host_item ''old'' ''2026-10-28T19:00:00Z'' ''2026-10-28T20:00:00Z'') = (1793214000, 1793217600)"
    "\<not> covered_spec (spans_of sample_plan) [''new''] 1793214000 1793217600"
    by code_simp+
  then show ?thesis
    using former_primary_taken [OF sample_plan_ok(1), of "host_item ''old'' ''2026-10-28T19:00:00Z'' ''2026-10-28T20:00:00Z''"]
      sample_plan_ok(2) by (simp add: host_item_def)
qed

end
