(* ===== verification/Discovery.thy ===== *)
theory Discovery
  imports HostPlan "HOL-Library.Multiset"
begin

text \<open>
  Discovery of source files (\<open>app/sync_discovery.py\<close>): registering a listed page through the host plan,
  bounded listings, the retained pass in slices, the numbering holes asked again, and the queue of files to
  process next. The RDS client is a parameter: a listing is a list of pages and, when it fails, the code of
  the error raised after them. \<open>stop\<close> is the decision read before each page. Times are whole seconds.
\<close>

definition REFRESH_SECONDS :: int where "REFRESH_SECONDS = 60"
definition LIVE_LOOKBACK :: int where "LIVE_LOOKBACK = 3600"
definition SLICE :: int where "SLICE = 6 * 3600"
definition HOLE_QUERIES_PER_ROUND :: int where "HOLE_QUERIES_PER_ROUND = 5"
definition HOLE_QUERY_LIMIT :: int where "HOLE_QUERY_LIMIT = 3"
definition URGENT_MARGIN :: int where "URGENT_MARGIN = 48 * 3600"
definition LIVE_FAILURE_GRACE_SECONDS :: int where "LIVE_FAILURE_GRACE_SECONDS = 600"

section \<open>The processing order\<close>

type_synonym entry = "string \<times> remote \<times> file_state"

definition source_order :: "entry \<Rightarrow> string \<times> string \<times> string \<times> string" where
  "source_order en = (case en of (_, item, _) \<Rightarrow>
     (r_log_begin_utc item, r_log_end_utc item, r_log_file_name item, r_host_instance_id item))"

definition entry_end :: "entry \<Rightarrow> string" where
  "entry_end en = r_log_end_utc (fst (snd en))"

definition deferred_order :: "string list option \<Rightarrow> entry \<Rightarrow> bool \<times> string \<times> string \<times> string \<times> string" where
  "deferred_order confirmed en =
     ((case confirmed of None \<Rightarrow> False | Some ids \<Rightarrow> fst en \<notin> set ids), source_order en)"

text \<open>\<open>{entry[0]: entry for entry in entries}.values()\<close>: first position, last value.\<close>

definition unique_entries :: "entry list \<Rightarrow> entry list" where
  "unique_entries es = map snd (foldl (\<lambda>d en. AList.update (fst en) en d) [] es)"

fun alternate :: "entry list \<Rightarrow> entry list \<Rightarrow> entry list" where
  "alternate [] live = live"
| "alternate (c # cold) [] = c # cold"
| "alternate (c # cold) (l # live) = c # l # alternate cold live"

definition fair_pending :: "entry list \<Rightarrow> int \<Rightarrow> string list option \<Rightarrow> string option \<Rightarrow> entry list" where
  "fair_pending es now confirmed urgent_before =
     (let boundary = fmt (now - LIVE_LOOKBACK);
          ordered = sort_key (deferred_order confirmed) (unique_entries es);
          is_urgent = (\<lambda>en. case urgent_before of None \<Rightarrow> False | Some u \<Rightarrow> u \<noteq> '''' \<and> entry_end en < u);
          urgent = filter is_urgent ordered;
          rest = filter (\<lambda>en. \<not> is_urgent en) ordered;
          live = filter (\<lambda>en. boundary \<le> entry_end en) rest;
          cold = filter (\<lambda>en. \<not> boundary \<le> entry_end en) rest
      in sort_key source_order urgent @ alternate cold live)"

section \<open>Registering a page\<close>

record discovery =
  d_table :: "file_row list"
  d_plan :: host_plan
  d_confirmed :: "string list"

text \<open>One listed file: known files are refreshed unless settled, a new one must be complete and accepted.\<close>

definition take_item :: "(string \<times> file_state) list \<Rightarrow> host_plan \<times> remote list \<Rightarrow> string \<times> remote \<Rightarrow> host_plan \<times> remote list" where
  "take_item known st fi = (case (st, fi) of ((plan, items), (fid, item)) \<Rightarrow>
     (case map_of (rev known) fid of
        Some s \<Rightarrow> if s \<in> {Skipped, Superseded} then (plan, items) else (plan, items @ [item])
      | None \<Rightarrow>
          if listed_complete item
          then (case accept_new item plan of (ok, plan) \<Rightarrow>
            if ok then (add_item item plan, items @ [item]) else (plan, items))
          else (plan, items)))"

definition ingest_page :: "(string \<Rightarrow> remote \<Rightarrow> string) \<Rightarrow> string \<Rightarrow> string \<Rightarrow> remote list \<Rightarrow> discovery \<Rightarrow> int \<times> discovery" where
  "ingest_page fid inst now batch d =
     (let ids = map (fid inst) batch;
          known = existing_file_states inst ids (d_table d)
      in case foldl (take_item known) (d_plan d, []) (zip ids batch) of (plan, items) \<Rightarrow>
        (case upsert_remotes fid inst now items (d_table d) of (records, t) \<Rightarrow>
          (int (length items),
           \<lparr>d_table = t, d_plan = plan,
            d_confirmed = d_confirmed d @ map (fst \<circ> fst) (filter (listed_complete \<circ> snd) (zip records items))\<rparr>)))"

section \<open>Listings\<close>

text \<open>One listing: its pages, then the code of an \<open>RdsApiError\<close>, if any.\<close>

type_synonym listing = "remote list list \<times> string option"

record client =
  c_list :: "nat \<Rightarrow> string \<Rightarrow> string \<Rightarrow> listing"
  c_stop :: "nat \<Rightarrow> bool"
  c_now :: "nat \<Rightarrow> string"

datatype list_end = Complete | Stopped | ApiError string

fun ingest_pages :: "(string \<Rightarrow> remote \<Rightarrow> string) \<Rightarrow> string \<Rightarrow> client \<Rightarrow> remote list list \<Rightarrow> string option
    \<Rightarrow> nat \<Rightarrow> int \<Rightarrow> discovery \<Rightarrow> list_end \<times> nat \<times> int \<times> discovery" where
  "ingest_pages fid inst c [] err k n d = ((case err of None \<Rightarrow> Complete | Some e \<Rightarrow> ApiError e), k, n, d)"
| "ingest_pages fid inst c (b # bs) err k n d =
    (if c_stop c k then (Stopped, Suc k, n, d)
     else ingest_pages fid inst c bs err (Suc k) (n + int (length b)) (snd (ingest_page fid inst (c_now c k) b d)))"

text \<open>
  \<open>_list_window\<close>: a listing whose page count drifts is repeated, at most three times; other errors are
  raised. \<open>attempts\<close> counts the attempts that are left.
\<close>

fun list_window_loop :: "nat \<Rightarrow> (string \<Rightarrow> remote \<Rightarrow> string) \<Rightarrow> string \<Rightarrow> client \<Rightarrow> int \<Rightarrow> int
    \<Rightarrow> nat \<Rightarrow> discovery \<Rightarrow> list_end \<times> nat \<times> int \<times> discovery" where
  "list_window_loop 0 fid inst c lo hi k d = (Complete, k, 0, d)"
| "list_window_loop (Suc attempts) fid inst c lo hi k d =
    (case c_list c k (fmt lo) (fmt hi) of (pages, err) \<Rightarrow>
      (case ingest_pages fid inst c pages err (Suc k) 0 d of (res, k, n, d) \<Rightarrow>
        (case res of
           ApiError e \<Rightarrow> if e \<noteq> ''INCOMPLETE_PAGINATION'' \<or> attempts = 0 then (ApiError e, k, n, d)
             else list_window_loop attempts fid inst c lo hi k d
         | _ \<Rightarrow> (res, k, n, d))))"

definition list_window :: "(string \<Rightarrow> remote \<Rightarrow> string) \<Rightarrow> string \<Rightarrow> client \<Rightarrow> int \<Rightarrow> int
    \<Rightarrow> nat \<Rightarrow> discovery \<Rightarrow> list_end \<times> nat \<times> int \<times> discovery" where
  "list_window = list_window_loop 3"

text \<open>\<open>_retained_pass\<close>: slices of six hours from the start of the window to its end.\<close>

function pass_loop :: "(string \<Rightarrow> remote \<Rightarrow> string) \<Rightarrow> string \<Rightarrow> client \<Rightarrow> int \<Rightarrow> int
    \<Rightarrow> nat \<Rightarrow> int \<Rightarrow> discovery \<Rightarrow> list_end \<times> nat \<times> int \<times> discovery" where
  "pass_loop fid inst c cursor stop k n d =
    (if cursor < stop
     then if c_stop c k then (Stopped, Suc k, n, d)
       else let upper = min (cursor + SLICE) stop in
         (case list_window fid inst c cursor upper (Suc k) d of (res, k, listed, d) \<Rightarrow>
           (case res of
              Complete \<Rightarrow> pass_loop fid inst c upper stop k (n + listed) d
            | Stopped \<Rightarrow> (Stopped, k, n + listed, d)
            | ApiError e \<Rightarrow> (ApiError e, k, n, d)))
     else (Complete, k, n, d))"
  by pat_completeness auto
termination
  by (relation "measure (\<lambda>(fid, inst, c, cursor, stop, k, n, d). nat (stop - cursor))") (auto simp: SLICE_def)

declare pass_loop.simps [simp del]

section \<open>Numbering holes\<close>

text \<open>\<open>NUMBER.search\<close>: the digits after the last dot, to the end of the name.\<close>

definition file_number :: "string \<Rightarrow> int option" where
  "file_number name = (let ds = takeWhile is_digit (rev name) in
     if ds \<noteq> [] \<and> length ds < length name \<and> rev name ! length ds = CHR ''.'' then Some (number (rev ds)) else None)"

record hole =
  h_host :: string
  h_left :: string
  h_right :: string
  h_begin :: string
  h_end :: string
  h_missing :: int

definition numbered_rows :: "file_row list \<Rightarrow> string \<Rightarrow> (int \<times> file_row) list" where
  "numbered_rows rs host = sort_key fst (List.map_filter
     (\<lambda>r. if f_host_instance_id r = host then map_option (\<lambda>n. (n, r)) (file_number (f_log_file_name r)) else None) rs)"

definition hole_between :: "int \<Rightarrow> string \<Rightarrow> (int \<times> file_row) \<times> (int \<times> file_row) \<Rightarrow> hole option" where
  "hole_between since host lr = (case lr of ((low, l), (high, r)) \<Rightarrow>
     if 1 < high - low \<and> since \<le> iso_epoch (f_log_begin_utc r)
     then Some \<lparr>h_host = host, h_left = f_log_file_name l, h_right = f_log_file_name r,
       h_begin = f_log_end_utc l, h_end = f_log_begin_utc r, h_missing = high - low - 1\<rparr>
     else None)"

definition numbered_hosts :: "file_row list \<Rightarrow> string list" where
  "numbered_hosts rs = rev (remdups (rev (map f_host_instance_id (filter (\<lambda>r. file_number (f_log_file_name r) \<noteq> None) rs))))"

definition sequence_holes :: "file_row list \<Rightarrow> int \<Rightarrow> hole list" where
  "sequence_holes rs since = sort_desc_key h_end (concat (map (\<lambda>host.
     let ns = numbered_rows rs host in List.map_filter (hole_between since host) (zip ns (tl ns))) (numbered_hosts rs)))"

text \<open>The loop of \<open>_repair_holes\<close>: which holes are asked again this round, and the counts kept per hole.\<close>

type_synonym hole_key = "string \<times> string \<times> string"

definition hole_key_of :: "hole \<Rightarrow> hole_key" where
  "hole_key_of h = (h_host h, h_left h, h_right h)"

definition queries_of :: "(hole_key \<times> int) list \<Rightarrow> hole_key \<Rightarrow> int" where
  "queries_of q k = (case map_of q k of None \<Rightarrow> 0 | Some n \<Rightarrow> n)"

fun ask_holes :: "hole list \<Rightarrow> int \<Rightarrow> (hole_key \<times> int) list \<Rightarrow> hole list \<times> (hole_key \<times> int) list" where
  "ask_holes [] asked q = ([], q)"
| "ask_holes (h # hs) asked q =
    (if HOLE_QUERIES_PER_ROUND \<le> asked \<or> HOLE_QUERY_LIMIT \<le> queries_of q (hole_key_of h)
     then ask_holes hs asked q
     else case ask_holes hs (asked + 1) (AList.update (hole_key_of h) (queries_of q (hole_key_of h) + 1) q) of
       (hs, q) \<Rightarrow> (h # hs, q))"

text \<open>The window listed for a hole: its two boundary seconds included.\<close>

definition hole_window :: "hole \<Rightarrow> int \<times> int" where
  "hole_window h = (let lo = iso_epoch (h_begin h) - 1; hi = iso_epoch (h_end h) + 1 in (lo, max hi (lo + 2)))"

section \<open>What to process next\<close>

text \<open>
  One record of \<open>recoverable_files\<close> in \<open>pending\<close>: skipped, settled as covered, or queued. The message
  stored with a settled file is Chinese text in the source; an English one stands for it.
\<close>

datatype decision = Skip | Settle | Queue

record pending_env =
  pe_primary :: string
  pe_finished :: bool
  pe_local :: "string \<Rightarrow> bool"
  pe_scan_floor :: string
  pe_eligible :: "string \<Rightarrow> bool"

definition log_name :: "string \<Rightarrow> bool" where
  "log_name name \<longleftrightarrow> take 12 name = ''general-log/'' \<or> take 9 name = ''slow-log/'' \<or> take 16 name = ''tabularis-audit-''"

definition local_resume :: "pending_env \<Rightarrow> file_row \<Rightarrow> bool" where
  "local_resume env r \<longleftrightarrow> f_state r = Stored \<or> pe_local env (f_id r)"

definition queue_record :: "pending_env \<Rightarrow> file_row \<Rightarrow> decision" where
  "queue_record env r =
     (if \<not> local_resume env r \<and> lower_text (f_remote_status r) \<noteq> ''completed'' then Skip
      else if \<not> local_resume env r \<and> f_log_end_utc r < pe_scan_floor env then Skip
      else if \<not> pe_eligible env (f_id r) then Skip else Queue)"

definition decide :: "pending_env \<Rightarrow> host_plan \<Rightarrow> file_row \<Rightarrow> decision \<times> host_plan" where
  "decide env plan r =
     (if log_name (f_log_file_name r) then (Skip, plan)
      else if pe_primary env \<noteq> '''' \<and> f_host_instance_id r \<noteq> pe_primary env
      then if \<not> pe_finished env \<and> \<not> local_resume env r then (Skip, plan)
        else (case covered_by_primary (f_host_instance_id r) (f_log_begin_utc r) (f_log_end_utc r) plan of (c, plan) \<Rightarrow>
          if c then (if \<not> local_resume env r \<and> f_state r \<in> {Discovered, Failed} then Settle else Skip, plan)
          else (queue_record env r, plan))
      else (queue_record env r, plan))"



definition as_remote :: "file_row \<Rightarrow> remote" where
  "as_remote r = \<lparr>r_log_file_name = f_log_file_name r, r_log_begin_utc = f_log_begin_utc r,
     r_log_end_utc = f_log_end_utc r, r_file_size = f_file_size r, r_checksum_crc64 = f_checksum_crc64 r,
     r_download_link = f_download_link r, r_intranet_download_link = f_intranet_download_link r,
     r_link_expired_utc = f_link_expired_utc r, r_remote_status = f_remote_status r,
     r_host_instance_id = f_host_instance_id r\<rparr>"

fun decisions :: "pending_env \<Rightarrow> host_plan \<Rightarrow> file_row list \<Rightarrow> (file_row \<times> decision) list \<times> host_plan" where
  "decisions env plan [] = ([], plan)"
| "decisions env plan (r # rs) = (case decide env plan r of (x, plan) \<Rightarrow>
     (case decisions env plan rs of (ds, plan) \<Rightarrow> ((r, x) # ds, plan)))"

definition pending_files :: "pending_env \<Rightarrow> int \<Rightarrow> string \<Rightarrow> string \<Rightarrow> int option \<Rightarrow> discovery \<Rightarrow> entry list \<times> discovery" where
  "pending_files env now now_text inst retention_days d =
     (case decisions env (d_plan d) (recoverable_files inst True (d_table d)) of (ds, plan) \<Rightarrow>
       let settle = map (f_id \<circ> fst) (filter (\<lambda>(r, x). x = Settle) ds);
           confirmed = d_confirmed d @ map (f_id \<circ> fst) (filter (\<lambda>(r, x). local_resume env r \<and> x = Queue) ds);
           result = map (\<lambda>(r, x). (f_id r, as_remote r, f_state r)) (filter (\<lambda>(r, x). x = Queue) ds);
           t = (if settle = [] then d_table d else snd (mark_files_state now_text settle Skipped ''COVERED_BY_PRIMARY''
             ''covered by the primary'' [Discovered, Failed] (d_table d)));
           urgent = (case retention_days of None \<Rightarrow> None
             | Some days \<Rightarrow> if days = 0 then None else Some (fmt (now - days * 86400 + URGENT_MARGIN)))
       in (fair_pending result now (Some confirmed) urgent, d\<lparr>d_table := t, d_plan := plan\<rparr>))"

section \<open>The plan and the primary\<close>

definition PLAN_RELOAD_SECONDS :: int where "PLAN_RELOAD_SECONDS = 300"

text \<open>\<open>plan()\<close>: the plan in use and when it was loaded; \<open>scan_start\<close> is the start of the scan window.\<close>

definition current_plan :: "bool \<Rightarrow> int \<Rightarrow> string \<Rightarrow> string \<Rightarrow> int \<Rightarrow> file_row list
    \<Rightarrow> (host_plan \<times> int) option \<Rightarrow> host_plan \<times> int" where
  "current_plan reload tick inst primary scan_start t held = (case held of
     Some (p, at) \<Rightarrow> if reload \<or> PLAN_RELOAD_SECONDS \<le> tick - at
       then (load_plan inst primary (fmt (scan_start - 86400)) t, tick) else (p, at)
   | None \<Rightarrow> (load_plan inst primary (fmt (scan_start - 86400)) t, tick))"

text \<open>\<open>_refresh_primary\<close>: \<open>None\<close> is a resolver that raised; the known primary stays then.\<close>

definition refresh_primary :: "string option \<Rightarrow> int \<Rightarrow> string \<Rightarrow> int \<Rightarrow> file_row list
    \<Rightarrow> string \<times> (host_plan \<times> int) option \<Rightarrow> string \<times> (host_plan \<times> int) option" where
  "refresh_primary resolved tick inst scan_start t st = (case st of (primary, held) \<Rightarrow>
     (case resolved of
        Some new_primary \<Rightarrow> if new_primary \<noteq> '''' \<and> new_primary \<noteq> primary
          then (new_primary, Some (current_plan True tick inst new_primary scan_start t held)) else (primary, held)
      | None \<Rightarrow> (primary, held)))"

text \<open>\<open>_live_refresh\<close>: when it lists, and what an API error does to its two clocks.\<close>

record live_clock =
  last_recent :: "int option"
  failing_since :: "int option"

definition live_due :: "bool \<Rightarrow> int \<Rightarrow> live_clock \<Rightarrow> bool" where
  "live_due force_recent tick lc \<longleftrightarrow> force_recent
     \<or> (case last_recent lc of None \<Rightarrow> True | Some t \<Rightarrow> REFRESH_SECONDS \<le> tick - t)"

definition live_refresh :: "(string \<Rightarrow> remote \<Rightarrow> string) \<Rightarrow> string \<Rightarrow> client \<Rightarrow> bool \<Rightarrow> int \<Rightarrow> int \<Rightarrow> int
    \<Rightarrow> nat \<Rightarrow> live_clock \<Rightarrow> discovery \<Rightarrow> string option \<times> nat \<times> live_clock \<times> discovery" where
  "live_refresh fid inst c force_recent tick tick' now k lc d =
     (if \<not> live_due force_recent tick lc then (None, k, lc, d)
      else case c_list c k (fmt (now - LIVE_LOOKBACK)) (fmt now) of (pages, err) \<Rightarrow>
        (case ingest_pages fid inst c pages err (Suc k) 0 d of (res, k, n, d) \<Rightarrow>
          (case res of
             Stopped \<Rightarrow> (None, k, lc, d)
           | Complete \<Rightarrow> (None, k, \<lparr>last_recent = Some tick', failing_since = None\<rparr>, d)
           | ApiError e \<Rightarrow> let since = (case failing_since lc of None \<Rightarrow> tick' | Some s \<Rightarrow> s) in
               if LIVE_FAILURE_GRACE_SECONDS \<le> tick' - since then (Some e, k, lc\<lparr>failing_since := Some since\<rparr>, d)
               else (None, k, \<lparr>last_recent = Some tick', failing_since = Some since\<rparr>, d))))"

section \<open>The queue drops nothing\<close>

lemma mset_alternate: "mset (alternate xs ys) = mset xs + mset ys"
  by (induction xs ys rule: alternate.induct) auto

lemma alternate_nth:
  "i < length cold \<Longrightarrow> \<exists>j \<le> 2 * i. j < length (alternate cold live) \<and> alternate cold live ! j = cold ! i"
  "i < length live \<Longrightarrow> \<exists>j \<le> 2 * i + 1. j < length (alternate cold live) \<and> alternate cold live ! j = live ! i"
proof (induction cold live arbitrary: i rule: alternate.induct)
  case (1 live)
  { case 1 then show ?case by simp }
  { case 2 then show ?case by (intro exI [of _ i]) simp }
next
  case (2 c cold)
  { case 1 then show ?case by (intro exI [of _ i]) simp }
  { case 2 then show ?case by simp }
next
  case (3 c cold l live)
  {
    case 1
    show ?case
    proof (cases i)
      case 0
      then show ?thesis by (intro exI [of _ 0]) simp
    next
      case (Suc n)
      with 1 have "n < length cold" by simp
      from 3(1) [OF this] obtain j where "j \<le> 2 * n" "j < length (alternate cold live)" "alternate cold live ! j = cold ! n" by blast
      with Suc show ?thesis by (intro exI [of _ "Suc (Suc j)"]) simp
    qed
  next
    case 2
    show ?case
    proof (cases i)
      case 0
      then show ?thesis by (intro exI [of _ 1]) simp
    next
      case (Suc n)
      with 2 have "n < length live" by simp
      from 3(2) [OF this] obtain j where "j \<le> 2 * n + 1" "j < length (alternate cold live)" "alternate cold live ! j = live ! n" by blast
      with Suc show ?thesis by (intro exI [of _ "Suc (Suc j)"]) simp
    qed
  }
qed

lemma unique_fold:
  "distinct (map fst d) \<Longrightarrow> (\<forall>(k, en) \<in> set d. fst en = k) \<Longrightarrow>
   distinct (map fst (foldl (\<lambda>d en. AList.update (fst en) en d) d es))
   \<and> (\<forall>(k, en) \<in> set (foldl (\<lambda>d en. AList.update (fst en) en d) d es). fst en = k)
   \<and> fst ` set (foldl (\<lambda>d en. AList.update (fst en) en d) d es) = fst ` set d \<union> fst ` set es"
proof (induction es arbitrary: d)
  case (Cons en es)
  have "distinct (map fst (AList.update (fst en) en d))" using Cons.prems by (simp add: distinct_update)
  moreover have "\<forall>(k, e) \<in> set (AList.update (fst en) en d). fst e = k"
    using Cons.prems(2) set_alist_update [of "fst en" en d] by fastforce
  ultimately have "distinct (map fst (foldl (\<lambda>d en. AList.update (fst en) en d) (AList.update (fst en) en d) es))
   \<and> (\<forall>(k, e) \<in> set (foldl (\<lambda>d en. AList.update (fst en) en d) (AList.update (fst en) en d) es). fst e = k)
   \<and> fst ` set (foldl (\<lambda>d en. AList.update (fst en) en d) (AList.update (fst en) en d) es) = fst ` set (AList.update (fst en) en d) \<union> fst ` set es"
    by (rule Cons.IH)
  then show ?case by (simp add: dom_update [of "fst en" en d, simplified dom_map_of_conv_image_fst])
qed simp

lemma unique_entries_ids:
  "distinct (map fst (unique_entries es)) \<and> set (map fst (unique_entries es)) = set (map fst es)"
proof -
  let ?d = "foldl (\<lambda>d en. AList.update (fst en) en d) [] es"
  have u: "distinct (map fst ?d)" "\<forall>(k, en) \<in> set ?d. fst en = k" "fst ` set ?d = fst ` set es"
    using unique_fold [of "[]" es] by auto
  then have "map fst (unique_entries es) = map fst ?d" by (auto simp: unique_entries_def)
  with u show ?thesis by simp
qed

definition is_urgent :: "string option \<Rightarrow> entry \<Rightarrow> bool" where
  "is_urgent urgent_before en \<longleftrightarrow> (case urgent_before of None \<Rightarrow> False | Some u \<Rightarrow> u \<noteq> '''' \<and> entry_end en < u)"

lemma fair_pending_parts:
  "fair_pending es now confirmed u = (let ordered = sort_key (deferred_order confirmed) (unique_entries es);
      rest = filter (\<lambda>en. \<not> is_urgent u en) ordered; b = fmt (now - LIVE_LOOKBACK)
    in sort_key source_order (filter (is_urgent u) ordered)
       @ alternate (filter (\<lambda>en. \<not> b \<le> entry_end en) rest) (filter (\<lambda>en. b \<le> entry_end en) rest))"
  by (simp add: fair_pending_def is_urgent_def [abs_def] Let_def)

lemma fair_pending_mset: "mset (fair_pending es now confirmed u) = mset (unique_entries es)"
proof -
  have split: "mset (filter P xs) + mset (filter (\<lambda>x. \<not> P x) xs) = mset xs" for P and xs :: "entry list"
    by (metis mset_filter multiset_partition)
  let ?o = "sort_key (deferred_order confirmed) (unique_entries es)"
  let ?r = "filter (\<lambda>en. \<not> is_urgent u en) ?o" and ?live = "\<lambda>en. fmt (now - LIVE_LOOKBACK) \<le> entry_end en"
  have "mset (fair_pending es now confirmed u)
      = mset (filter (is_urgent u) ?o) + (mset (filter (\<lambda>en. \<not> ?live en) ?r) + mset (filter ?live ?r))"
    unfolding fair_pending_parts Let_def mset_append mset_alternate mset_sort ..
  also have "mset (filter (\<lambda>en. \<not> ?live en) ?r) + mset (filter ?live ?r) = mset ?r"
    using split [of ?live ?r] by (metis add.commute)
  also have "mset (filter (is_urgent u) ?o) + mset ?r = mset ?o" by (rule split)
  finally show ?thesis by simp
qed

text \<open>
  The queue drops and repeats nothing: it holds each candidate file exactly once, with the last
  record given for it, first the files close to the end of the source retention, oldest first, then the
  backlog and the live files in turn, so that the i-th of either kind waits for at most 2i + 1 others.
\<close>

theorem fair_pending_exact:
  fixes es confirmed u now
  defines "ordered \<equiv> sort_key (deferred_order confirmed) (unique_entries es)"
    and "live \<equiv> \<lambda>en. fmt (now - LIVE_LOOKBACK) \<le> entry_end en"
  shows "mset (fair_pending es now confirmed u) = mset (unique_entries es)
    \<and> distinct (map fst (fair_pending es now confirmed u)) \<and> set (map fst (fair_pending es now confirmed u)) = set (map fst es)
    \<and> (let n = length (filter (is_urgent u) ordered) in
        sorted (map source_order (take n (fair_pending es now confirmed u)))
        \<and> set (take n (fair_pending es now confirmed u)) = {en \<in> set ordered. is_urgent u en}
        \<and> (\<forall>i < length (filter (\<lambda>en. \<not> is_urgent u en \<and> \<not> live en) ordered).
             \<exists>j \<le> 2 * i. fair_pending es now confirmed u ! (n + j) = filter (\<lambda>en. \<not> is_urgent u en \<and> \<not> live en) ordered ! i)
        \<and> (\<forall>i < length (filter (\<lambda>en. \<not> is_urgent u en \<and> live en) ordered).
             \<exists>j \<le> 2 * i + 1. fair_pending es now confirmed u ! (n + j) = filter (\<lambda>en. \<not> is_urgent u en \<and> live en) ordered ! i))"
proof -
  let ?fp = "fair_pending es now confirmed u" and ?n = "length (filter (is_urgent u) ordered)"
  let ?a = "sort_key source_order (filter (is_urgent u) ordered)"
  let ?cold = "filter (\<lambda>en. \<not> is_urgent u en \<and> \<not> live en) ordered" and ?hot = "filter (\<lambda>en. \<not> is_urgent u en \<and> live en) ordered"
  have ms: "mset ?fp = mset (unique_entries es)" by (rule fair_pending_mset)
  have dist: "distinct (map fst ?fp)"
    using unique_entries_ids [of es] ms by (metis mset_eq_imp_distinct_iff mset_map)
  have ids: "set (map fst ?fp) = set (map fst es)"
    using unique_entries_ids [of es] ms by (metis mset_eq_setD set_map)
  have parts: "?fp = ?a @ alternate ?cold ?hot"
    unfolding fair_pending_parts ordered_def live_def Let_def filter_filter by (simp add: conj_commute)
  have n: "?n = length ?a" by simp
  have pre: "take ?n ?fp = ?a" unfolding parts n by simp
  have nth: "?fp ! (?n + j) = alternate ?cold ?hot ! j" for j unfolding parts n by (rule nth_append_length_plus)
  have srt: "sorted (map source_order (take ?n ?fp))" unfolding pre by (rule sorted_sort_key)
  have st: "set (take ?n ?fp) = {en \<in> set ordered. is_urgent u en}" unfolding pre by auto
  have cold: "\<forall>i < length ?cold. \<exists>j \<le> 2 * i. ?fp ! (?n + j) = ?cold ! i"
    unfolding nth using alternate_nth(1) by blast
  have hot: "\<forall>i < length ?hot. \<exists>j \<le> 2 * i + 1. ?fp ! (?n + j) = ?hot ! i"
    unfolding nth using alternate_nth(2) by blast
  show ?thesis
    unfolding Let_def by (intro conjI ms dist ids srt st cold hot)
qed

definition sample_entry :: "string \<Rightarrow> string \<Rightarrow> string \<Rightarrow> entry" where
  "sample_entry k b e = (k, host_item ''h'' b e, Discovered)"

theorem fair_pending_exact_witness:
  "map fst (fair_pending [sample_entry ''a'' ''2026-10-28T20:00:00Z'' ''2026-10-28T21:00:00Z'',
       sample_entry ''b'' ''2026-10-28T22:00:00Z'' ''2026-10-28T23:00:00Z'',
       sample_entry ''c'' ''2026-10-21T20:00:00Z'' ''2026-10-21T21:00:00Z''] 1793228400 None (Some ''2026-10-22T00:00:00Z''))
     = [''c'', ''a'', ''b'']
   \<and> distinct (map fst (fair_pending [sample_entry ''a'' ''2026-10-28T20:00:00Z'' ''2026-10-28T21:00:00Z''] 1793228400 None None))"
proof
  show "map fst (fair_pending [sample_entry ''a'' ''2026-10-28T20:00:00Z'' ''2026-10-28T21:00:00Z'',
       sample_entry ''b'' ''2026-10-28T22:00:00Z'' ''2026-10-28T23:00:00Z'',
       sample_entry ''c'' ''2026-10-21T20:00:00Z'' ''2026-10-21T21:00:00Z''] 1793228400 None (Some ''2026-10-22T00:00:00Z''))
     = [''c'', ''a'', ''b'']"
    by code_simp
  show "distinct (map fst (fair_pending [sample_entry ''a'' ''2026-10-28T20:00:00Z'' ''2026-10-28T21:00:00Z''] 1793228400 None None))"
    using fair_pending_exact by blast
qed

section \<open>The plan never lags behind the catalog\<close>

text \<open>The rows a plan is loaded from have their span in it.\<close>

definition plan_tracks :: "string \<Rightarrow> string \<Rightarrow> discovery \<Rightarrow> bool" where
  "plan_tracks inst since d \<longleftrightarrow> (\<forall>r \<in> set (binlog_host_rows inst since (d_table d)).
     row_span r \<in> set (spans_of (d_plan d) (f_host_instance_id r)))"

definition discovery_ok :: "string \<Rightarrow> string \<Rightarrow> discovery \<Rightarrow> bool" where
  "discovery_ok inst since d \<longleftrightarrow> catalog_ok (d_table d) \<and> caches_ok (d_plan d) \<and> plan_tracks inst since d"

lemma commit_rows:
  assumes "s \<in> set (commit_remotes now p t)"
  shows "(\<exists>r \<in> set t. kept r s) \<or> s \<in> snd ` set (inserts p)"
proof -
  have upd: "\<exists>r \<in> set t. kept r s" if "s \<in> set (update_where P f t)" "\<And>r. kept r (f r)" for s P f and t :: "file_row list"
    using that by (auto simp: in_set_update_where intro: kept_refl split: if_splits)
  have fold: "\<exists>r \<in> set t. kept r s" if "s \<in> set (foldl g t xs)" "\<And>t x s. s \<in> set (g t x) \<Longrightarrow> \<exists>r \<in> set t. kept r s"
    for g s and t :: "file_row list" and xs :: "(string \<times> locators) list"
    using that by (induction xs arbitrary: t) (auto intro: kept_refl, meson kept_trans)
  have rv: "\<exists>r \<in> set t. kept r s" if "s \<in> set (revive now t x)" for s t x
    using that upd [OF _ kept_revived] by (cases x) (simp add: revive_alt)
  have rf: "\<exists>r \<in> set t. kept r s" if "s \<in> set (refresh now t x)" for s t x
    using that upd [OF _ kept_refreshed] by (cases x) (simp only: refresh_alt)
  have ins: "s \<in> set t \<or> s \<in> snd ` set xs" if "s \<in> set (foldl insert_or_ignore t xs)" for s t xs
    using that by (induction xs arbitrary: t) (fastforce simp: insert_or_ignore_def split: if_splits prod.splits)+
  show ?thesis
  proof (cases "updates p = [] \<and> inserts p = [] \<and> revivals p = []")
    case True
    with assms show ?thesis by (auto simp: commit_remotes_def intro: kept_refl)
  next
    case False
    then have "s \<in> set (foldl insert_or_ignore (foldl (refresh now) (foldl (revive now) t (revivals p)) (updates p)) (inserts p))"
      using assms by (auto simp: commit_remotes_def)
    from ins [OF this] show ?thesis
    proof
      assume "s \<in> set (foldl (refresh now) (foldl (revive now) t (revivals p)) (updates p))"
      then have "\<exists>r \<in> set (foldl (revive now) t (revivals p)). kept r s" by (rule fold) (rule rf)
      then obtain r where r: "r \<in> set (foldl (revive now) t (revivals p))" "kept r s" by blast
      from r(1) have "\<exists>q \<in> set t. kept q r" by (rule fold) (rule rv)
      with r(2) show ?thesis by (meson kept_trans)
    qed simp
  qed
qed

lemma plan_inserts:
  assumes "(k, s) \<in> set (inserts (plan_remotes fid inst now items t))"
  shows "\<exists>item \<in> set items. k = fid inst item \<and> s = new_file k inst now item \<and> existing_row inst t k = None"
  using assms
proof (induction items rule: rev_induct)
  case Nil
  then show ?case by (simp add: plan_remotes_def)
next
  case (snoc x xs)
  have step: "plan_remotes fid inst now (xs @ [x]) t = plan_remote fid inst now t (plan_remotes fid inst now xs t) x"
    by (simp add: plan_remotes_def)
  show ?case
  proof (cases "existing_row inst t (fid inst x)")
    case None
    then have "(k, s) \<in> insert (fid inst x, new_file (fid inst x) inst now x) (set (inserts (plan_remotes fid inst now xs t)))"
      using snoc.prems set_alist_update unfolding step by (fastforce simp: plan_remote_def Let_def)
    with None snoc.IH show ?thesis by auto
  next
    case (Some r)
    then have "inserts (plan_remotes fid inst now (xs @ [x]) t) = inserts (plan_remotes fid inst now xs t)"
      unfolding step by (simp add: plan_remote_def Let_def)
    with snoc show ?thesis by auto
  qed
qed

lemma existing_states_known:
  assumes "k \<in> set ids" "existing_row inst t k = None"
  shows "map_of (rev (existing_file_states inst ids t)) k = None"
proof -
  have "k \<notin> fst ` set (existing_file_states inst ids t)"
    using assms(2) by (auto simp: existing_file_states_def existing_row_def find_row_None)
  then show ?thesis by (simp add: map_of_eq_None_iff)
qed

text \<open>The loop over a page: spans are only added, and a file taken without being known has its span added.\<close>

lemma take_items:
  assumes "caches_ok plan" "foldl (take_item known) (plan, items0) fis = (plan', items)"
  shows "caches_ok plan' \<and> hp_primary plan' = hp_primary plan
    \<and> (\<forall>h. set (spans_of plan h) \<subseteq> set (spans_of plan' h))
    \<and> (\<forall>item \<in> set items. item \<in> set items0 \<or> (\<exists>fid. (fid, item) \<in> set fis \<and>
        ((\<exists>s. map_of (rev known) fid = Some s \<and> s \<notin> {Skipped, Superseded})
         \<or> map_of (rev known) fid = None \<and> listed_complete item \<and> item_span item \<in> set (spans_of plan' (r_host_instance_id item)))))"
  using assms
proof (induction fis arbitrary: plan items0)
  case Nil
  then show ?case by simp
next
  case (Cons fi fis)
  obtain fid item where fi: "fi = (fid, item)" by (rule prod.exhaust)
  obtain plan1 items1 where one: "take_item known (plan, items0) fi = (plan1, items1)" by fastforce
  have rest: "foldl (take_item known) (plan1, items1) fis = (plan', items)" using Cons.prems(2) one by simp
  obtain ok q where acc: "accept_new item plan = (ok, q)" by fastforce
  note as = accept_new_spec [OF Cons.prems(1) acc]
  have q: "caches_ok q" "spans_of q = spans_of plan" "hp_primary q = hp_primary plan"
    using as same_plan_eqs by blast+
  have step: "caches_ok plan1 \<and> hp_primary plan1 = hp_primary plan \<and> (\<forall>h. set (spans_of plan h) \<subseteq> set (spans_of plan1 h))
    \<and> (\<forall>x \<in> set items1. x \<in> set items0 \<or> (x = item \<and>
        ((\<exists>s. map_of (rev known) fid = Some s \<and> s \<notin> {Skipped, Superseded})
         \<or> map_of (rev known) fid = None \<and> listed_complete item \<and> item_span item \<in> set (spans_of plan1 (r_host_instance_id item)))))"
    using one Cons.prems(1) q add_item_ok [OF q(1), of item]
    by (auto simp: take_item_def fi acc add_item_spans split: option.splits if_splits)
  then have "caches_ok plan1" by blast
  from Cons.IH [OF this rest] step show ?case unfolding fi by (fastforce dest: subsetD)
qed

lemma upsert_remotes_commit:
  "upsert_remotes fid inst now items t = (results (plan_remotes fid inst now items t), commit_remotes now (plan_remotes fid inst now items t) t)"
  by (cases items) (simp_all add: upsert_remotes_def Let_def plan_remotes_def commit_remotes_def)

lemma kept_host_row:
  assumes "kept r s" "s \<in> set (binlog_host_rows inst since u)" "r \<in> set t"
  shows "r \<in> set (binlog_host_rows inst since t)" "row_span r = row_span s" "f_host_instance_id r = f_host_instance_id s"
  using assms by (auto simp: kept_def same_source_def binlog_host_rows_def row_span_def binlog_row_def)

lemma ingest_page_ok:
  assumes ok: "discovery_ok inst since d"
  shows "discovery_ok inst since (snd (ingest_page fid inst now batch d))"
proof -
  let ?ids = "map (fid inst) batch" and ?t = "d_table d"
  let ?known = "existing_file_states inst ?ids ?t"
  obtain plan items where loop: "foldl (take_item ?known) (d_plan d, []) (zip ?ids batch) = (plan, items)" by fastforce
  let ?p = "plan_remotes fid inst now items ?t"
  have d': "d_table (snd (ingest_page fid inst now batch d)) = commit_remotes now ?p ?t"
    "d_plan (snd (ingest_page fid inst now batch d)) = plan"
    by (simp_all add: ingest_page_def Let_def loop upsert_remotes_commit)
  have cok: "caches_ok (d_plan d)" "catalog_ok ?t" "plan_tracks inst since d" using ok by (simp_all add: discovery_ok_def)
  note tk = take_items [OF cok(1) loop]
  have "row_span s \<in> set (spans_of plan (f_host_instance_id s))"
    if s: "s \<in> set (binlog_host_rows inst since (commit_remotes now ?p ?t))" for s
  proof -
    have "s \<in> set (commit_remotes now ?p ?t)" using s by (simp add: binlog_host_rows_def)
    from commit_rows [OF this] show ?thesis
    proof
      assume "\<exists>r \<in> set ?t. kept r s"
      then obtain r where r: "r \<in> set ?t" "kept r s" by blast
      from kept_host_row [OF r(2) s r(1)] cok(3) have "row_span s \<in> set (spans_of (d_plan d) (f_host_instance_id s))"
        unfolding plan_tracks_def by fastforce
      then show ?thesis using tk by blast
    next
      assume "s \<in> snd ` set (inserts ?p)"
      then obtain k where "(k, s) \<in> set (inserts ?p)" by auto
      from plan_inserts [OF this] obtain item where item: "item \<in> set items" "s = new_file (fid inst item) inst now item"
        "existing_row inst ?t (fid inst item) = None" by blast
      from item(1) tk obtain f where f: "(f, item) \<in> set (zip ?ids batch)"
        "(\<exists>st. map_of (rev ?known) f = Some st \<and> st \<notin> {Skipped, Superseded})
         \<or> map_of (rev ?known) f = None \<and> listed_complete item \<and> item_span item \<in> set (spans_of plan (r_host_instance_id item))"
        by auto
      have fi: "f = fid inst item" "f \<in> set ?ids" using f(1) by (auto simp: zip_map1 set_zip)
      then have "map_of (rev ?known) f = None" using existing_states_known [OF fi(2)] item(3) by simp
      with f(2) have "item_span item \<in> set (spans_of plan (r_host_instance_id item))" by auto
      moreover have "row_span s = item_span item" "f_host_instance_id s = r_host_instance_id item"
        by (simp_all add: item(2) new_file_def row_span_def item_span_def)
      ultimately show ?thesis by simp
    qed
  qed
  then show ?thesis
    using tk commit_remotes_ok [OF cok(2) plan_remotes_ok] by (simp add: discovery_ok_def plan_tracks_def d')
qed

lemma ingest_pages_ok:
  "discovery_ok inst since d \<Longrightarrow> ingest_pages fid inst c bs err k n d = (res, k', n', d') \<Longrightarrow> discovery_ok inst since d'"
  by (induction fid inst c bs err k n d rule: ingest_pages.induct) (auto simp: ingest_page_ok split: if_splits)

lemma list_window_loop_ok:
  "discovery_ok inst since d \<Longrightarrow> list_window_loop m fid inst c lo hi k d = (res, k', n', d') \<Longrightarrow> discovery_ok inst since d'"
proof (induction m arbitrary: k d)
  case (Suc m)
  obtain pages err where l: "c_list c k (fmt lo) (fmt hi) = (pages, err)" by fastforce
  obtain res1 k1 n1 d1 where i: "ingest_pages fid inst c pages err (Suc k) 0 d = (res1, k1, n1, d1)" by (metis prod_cases4)
  from ingest_pages_ok [OF Suc.prems(1) i] Suc.IH [of d1 k1] Suc.prems(2) show ?case
    by (auto simp: l i split: list_end.splits if_splits)
qed simp

lemma pass_loop_ok:
  "discovery_ok inst since d \<Longrightarrow> pass_loop fid inst c cursor stop k n d = (res, k', n', d') \<Longrightarrow> discovery_ok inst since d'"
proof (induction fid inst c cursor stop k n d rule: pass_loop.induct)
  case (1 fid inst c cursor stop k n d)
  obtain res1 k1 n1 d1 where w: "list_window fid inst c cursor (min (cursor + SLICE) stop) (Suc k) d = (res1, k1, n1, d1)"
    by (metis prod_cases4)
  have d1: "discovery_ok inst since d1"
    using list_window_loop_ok [OF "1.prems"(1)] w unfolding list_window_def by blast
  show ?case
  proof (cases "cursor < stop \<and> \<not> c_stop c k \<and> res1 = Complete")
    case True
    then have "pass_loop fid inst c (min (cursor + SLICE) stop) stop k1 (n + n1) d1 = (res, k', n', d')"
      using "1.prems"(2) by (subst (asm) pass_loop.simps) (simp add: w Let_def)
    from "1.IH" [OF _ _ refl w [symmetric] refl refl _ d1 this] True show ?thesis by blast
  next
    case False
    then show ?thesis using "1.prems" d1 by (subst (asm) pass_loop.simps) (auto simp: w Let_def split: if_splits list_end.splits)
  qed
qed

text \<open>
  Discovery never loses sight of what is registered: whatever the RDS client lists or fails
  with, after a retained pass every registered binlog row of the window still has its span in the host plan,
  the plan's caches agree with its spans, ids stay unique and finished files keep no link.
\<close>

theorem retained_pass_tracks:
  assumes "discovery_ok inst since d" "pass_loop fid inst c cursor stop k n d = (res, k', n', d')"
  shows "(\<forall>r \<in> set (binlog_host_rows inst since (d_table d')). row_span r \<in> set (spans_of (d_plan d') (f_host_instance_id r)))
    \<and> caches_ok (d_plan d') \<and> catalog_ok (d_table d')"
  using pass_loop_ok [OF assms] by (simp add: discovery_ok_def plan_tracks_def)

text \<open>A client that lists one complete file of the primary and never fails.\<close>

definition sample_client :: client where
  "sample_client = \<lparr>c_list = (\<lambda>k lo hi. ([[host_item ''new'' ''2026-10-28T22:00:00Z'' ''2026-10-28T23:00:00Z'']], None)),
     c_stop = (\<lambda>k. False), c_now = (\<lambda>k. ''now'')\<rparr>"

definition empty_discovery :: discovery where
  "empty_discovery = \<lparr>d_table = [], d_plan = init_plan [] ''new'', d_confirmed = []\<rparr>"

lemma empty_discovery_ok: "discovery_ok ''i'' '''' empty_discovery"
  by (simp add: discovery_ok_def empty_discovery_def catalog_ok_def init_plan_ok plan_tracks_def binlog_host_rows_def)

theorem retained_pass_tracks_witness:
  "caches_ok (d_plan (snd (snd (snd (pass_loop (\<lambda>_ _. ''k'') ''i'' sample_client 0 100 0 0 empty_discovery)))))"
proof -
  obtain res k' n' d' where r: "pass_loop (\<lambda>_ _. ''k'') ''i'' sample_client 0 100 0 0 empty_discovery = (res, k', n', d')"
    by (metis prod.collapse)
  from retained_pass_tracks [OF empty_discovery_ok r] show ?thesis by (simp add: r)
qed

section \<open>A completed pass has listed everything\<close>

lemma ingest_pages_complete: "ingest_pages fid inst c bs err k n d = (Complete, r) \<Longrightarrow> err = None"
  by (induction fid inst c bs err k n d rule: ingest_pages.induct) (auto split: option.splits if_splits)

lemma list_window_loop_complete:
  "list_window_loop m fid inst c lo hi k d = (Complete, r) \<Longrightarrow> 0 < m \<Longrightarrow> \<exists>j. snd (c_list c j (fmt lo) (fmt hi)) = None"
proof (induction m arbitrary: k d)
  case (Suc m)
  obtain pages err where l: "c_list c k (fmt lo) (fmt hi) = (pages, err)" by fastforce
  obtain res1 k1 n1 d1 where i: "ingest_pages fid inst c pages err (Suc k) 0 d = (res1, k1, n1, d1)" by (metis prod_cases4)
  show ?case
  proof (cases res1)
    case Complete
    with ingest_pages_complete i have "err = None" by blast
    with l show ?thesis by (intro exI [of _ k]) simp
  next
    case Stopped
    with Suc.prems show ?thesis by (simp add: l i)
  next
    case (ApiError e)
    then have "m \<noteq> 0" "list_window_loop m fid inst c lo hi k1 d1 = (Complete, r)"
      using Suc.prems by (auto simp: l i split: if_splits)
    with Suc.IH show ?thesis by blast
  qed
qed simp

lemma pass_loop_complete:
  assumes "pass_loop fid inst c cursor stop k n d = (Complete, r)" "cursor \<le> x" "x < stop"
  shows "\<exists>lo hi j. lo \<le> x \<and> x < hi \<and> hi \<le> lo + SLICE \<and> snd (c_list c j (fmt lo) (fmt hi)) = None"
  using assms
proof (induction fid inst c cursor stop k n d rule: pass_loop.induct)
  case (1 fid inst c cursor stop k n d)
  let ?up = "min (cursor + SLICE) stop"
  obtain res1 k1 n1 d1 where w: "list_window fid inst c cursor ?up (Suc k) d = (res1, k1, n1, d1)" by (metis prod_cases4)
  have run: "cursor < stop" "\<not> c_stop c k" "res1 = Complete" "pass_loop fid inst c ?up stop k1 (n + n1) d1 = (Complete, r)"
    using "1.prems" by (subst (asm) pass_loop.simps; auto simp: w Let_def split: if_splits list_end.splits)+
  show ?case
  proof (cases "x < ?up")
    case True
    have "\<exists>j. snd (c_list c j (fmt cursor) (fmt ?up)) = None"
      by (rule list_window_loop_complete [where m = 3]) (use w run(3) in \<open>simp_all add: list_window_def\<close>)
    with True "1.prems"(2) show ?thesis by (intro exI [of _ cursor] exI [of _ ?up]) auto
  next
    case False
    with "1.IH" [OF run(1,2) refl w [symmetric] refl refl run(3,4) _ "1.prems"(3)] show ?thesis by simp
  qed
qed

text \<open>
  Property C13. A retained pass reports success only when it has listed every moment of the window: each lies
  in a slice of at most six hours that the client listed to the end without an error.
\<close>

theorem retained_pass_complete:
  assumes "pass_loop fid inst c start stop k n d = (Complete, r)" "start \<le> x" "x < stop"
  shows "\<exists>lo hi j. lo \<le> x \<and> x < hi \<and> hi \<le> lo + SLICE \<and> snd (c_list c j (fmt lo) (fmt hi)) = None"
  by (rule pass_loop_complete [OF assms])

theorem retained_pass_complete_witness: "\<exists>r. pass_loop (\<lambda>_ _. ''k'') ''i'' (sample_client\<lparr>c_list := (\<lambda>j lo hi. ([], None))\<rparr>) 0 100 0 0 empty_discovery = (Complete, r)
    \<and> (\<exists>lo hi j. lo \<le> 7 \<and> 7 < hi \<and> hi \<le> lo + SLICE \<and> snd (c_list (sample_client\<lparr>c_list := (\<lambda>j lo hi. ([], None))\<rparr>) j (fmt lo) (fmt hi)) = None)"
proof -
  let ?c = "sample_client\<lparr>c_list := (\<lambda>j lo hi. ([], None))\<rparr>"
  have "\<exists>r. pass_loop (\<lambda>_ _. ''k'') ''i'' ?c 0 100 0 0 empty_discovery = (Complete, r)"
    by (subst pass_loop.simps, subst pass_loop.simps)
      (simp add: Let_def list_window_def numeral_3_eq_3 sample_client_def SLICE_def)
  then obtain r where r: "pass_loop (\<lambda>_ _. ''k'') ''i'' ?c 0 100 0 0 empty_discovery = (Complete, r)" by blast
  have "\<exists>lo hi j. lo \<le> 7 \<and> 7 < hi \<and> hi \<le> lo + SLICE \<and> snd (c_list ?c j (fmt lo) (fmt hi)) = None"
    by (rule retained_pass_complete [OF r]) simp_all
  with r show ?thesis by blast
qed

section \<open>Holes\<close>

lemma adjacent_gap:
  assumes "sorted ks" "\<exists>x \<in> set ks. x < n" "y \<in> set ks" "n < y" "n \<notin> set (ks :: int list)"
  shows "\<exists>i. Suc i < length ks \<and> ks ! i < n \<and> n < ks ! Suc i"
  using assms
proof (induction ks)
  case (Cons k ks)
  have k: "k < n" using Cons.prems by (auto dest: order.strict_trans1)
  then have y: "y \<in> set ks" using Cons.prems by auto
  then obtain z zs where ks: "ks = z # zs" by (cases ks) auto
  show ?case
  proof (cases "n < z")
    case True
    with k ks show ?thesis by (intro exI [of _ 0]) simp
  next
    case False
    then have "\<exists>x \<in> set ks. x < n" using Cons.prems(5) ks by auto
    moreover have "sorted ks" "n \<notin> set ks" using Cons.prems by auto
    ultimately obtain i where "Suc i < length ks \<and> ks ! i < n \<and> n < ks ! Suc i"
      using Cons.IH [OF _ _ y Cons.prems(4)] by blast
    then show ?thesis by (intro exI [of _ "Suc i"]) simp
  qed
qed simp

definition registered_number :: "file_row list \<Rightarrow> string \<Rightarrow> int \<Rightarrow> file_row \<Rightarrow> bool" where
  "registered_number rs host n r \<longleftrightarrow> r \<in> set rs \<and> f_host_instance_id r = host \<and> file_number (f_log_file_name r) = Some n"

lemma numbered_rows_set: "(n, r) \<in> set (numbered_rows rs host) \<longleftrightarrow> registered_number rs host n r"
  by (force simp: numbered_rows_def registered_number_def List.map_filter_def)

lemma sequence_holes_iff:
  "h \<in> set (sequence_holes rs since) \<longleftrightarrow> (\<exists>host \<in> set (numbered_hosts rs). \<exists>i. Suc i < length (numbered_rows rs host)
     \<and> hole_between since host (numbered_rows rs host ! i, numbered_rows rs host ! Suc i) = Some h)"
proof -
  have z: "p \<in> set (zip ns (tl ns)) \<longleftrightarrow> (\<exists>i. Suc i < length ns \<and> p = (ns ! i, ns ! Suc i))" for p and ns :: "'x list"
    by (cases ns) (auto simp: set_zip nth_tl)
  have mf: "y \<in> set (List.map_filter f xs) \<longleftrightarrow> (\<exists>x \<in> set xs. f x = Some y)" for f xs and y :: hole
    by (force simp: List.map_filter_def)
  show ?thesis unfolding sequence_holes_def Let_def by (simp add: mf) (metis z)
qed

lemma hole_between_Some:
  "hole_between since host ((low, l), (high, r)) = Some h \<longleftrightarrow> 1 < high - low \<and> since \<le> iso_epoch (f_log_begin_utc r)
     \<and> h = \<lparr>h_host = host, h_left = f_log_file_name l, h_right = f_log_file_name r,
       h_begin = f_log_end_utc l, h_end = f_log_begin_utc r, h_missing = high - low - 1\<rparr>"
  by (auto simp: hole_between_def)

lemma sorted_numbered: "sorted (map fst (numbered_rows rs host))"
  by (simp add: numbered_rows_def)

lemma hole_reported:
  assumes "registered_number rs host low l" "registered_number rs host high r" "low < n" "n < high"
    and missing: "\<And>q. \<not> registered_number rs host n q"
    and kept: "\<And>m q. n < m \<Longrightarrow> registered_number rs host m q \<Longrightarrow> since \<le> iso_epoch (f_log_begin_utc q)"
  shows "\<exists>h \<in> set (sequence_holes rs since). h_host h = host
    \<and> (\<exists>a b. file_number (h_left h) = Some a \<and> file_number (h_right h) = Some b \<and> a < n \<and> n < b \<and> h_missing h = b - a - 1)"
proof -
  let ?ns = "numbered_rows rs host"
  have "\<exists>x \<in> set (map fst ?ns). x < n" "high \<in> set (map fst ?ns)" "n \<notin> set (map fst ?ns)"
    using assms(1-3) missing by (force simp: numbered_rows_set [symmetric])+
  from adjacent_gap [OF sorted_numbered this(1,2) assms(4) this(3)] obtain i where
    i: "Suc i < length ?ns" "fst (?ns ! i) < n" "n < fst (?ns ! Suc i)" by auto
  obtain a x b y where ab: "?ns ! i = (a, x)" "?ns ! Suc i = (b, y)" by (metis prod.exhaust)
  have reg: "registered_number rs host a x" "registered_number rs host b y"
    using nth_mem [of i ?ns] nth_mem [OF i(1)] i(1) by (simp_all add: ab numbered_rows_set)
  let ?h = "\<lparr>h_host = host, h_left = f_log_file_name x, h_right = f_log_file_name y,
       h_begin = f_log_end_utc x, h_end = f_log_begin_utc y, h_missing = b - a - 1\<rparr>"
  have "hole_between since host (?ns ! i, ?ns ! Suc i) = Some ?h"
    using i kept [OF _ reg(2)] by (simp add: ab hole_between_Some)
  moreover have "host \<in> set (numbered_hosts rs)"
    using reg(1) by (auto simp: numbered_hosts_def registered_number_def)
  ultimately have "?h \<in> set (sequence_holes rs since)" unfolding sequence_holes_iff using i(1) by blast
  then show ?thesis using reg i by (intro bexI [of _ ?h]) (auto simp: ab registered_number_def)
qed

lemma hole_missing:
  assumes "h \<in> set (sequence_holes rs since)" "file_number (h_left h) = Some a" "file_number (h_right h) = Some b" "a < m" "m < b"
  shows "\<not> registered_number rs (h_host h) m q"
proof
  assume q: "registered_number rs (h_host h) m q"
  from assms(1) obtain host i where i: "Suc i < length (numbered_rows rs host)"
    "hole_between since host (numbered_rows rs host ! i, numbered_rows rs host ! Suc i) = Some h"
    unfolding sequence_holes_iff by blast
  let ?ns = "numbered_rows rs host"
  obtain c x d y where cd: "?ns ! i = (c, x)" "?ns ! Suc i = (d, y)" by (metis prod.exhaust)
  have reg: "registered_number rs host c x" "registered_number rs host d y"
    using nth_mem [of i ?ns] nth_mem [OF i(1)] i(1) by (simp_all add: cd numbered_rows_set)
  have h: "h_host h = host" "c = a" "d = b"
    using i(2) assms(2,3) reg by (auto simp: cd hole_between_Some registered_number_def)
  then have "(m, q) \<in> set ?ns" using q by (simp add: numbered_rows_set)
  then obtain j where j: "j < length ?ns" "fst (?ns ! j) = m" by (metis fst_conv in_set_conv_nth)
  have mono: "fst (?ns ! p) \<le> fst (?ns ! p')" if "p \<le> p'" "p' < length ?ns" for p p'
    using sorted_nth_mono [OF sorted_numbered [of rs host] that(1)] that by simp
  show False
  proof (cases "j \<le> i")
    case True
    with mono [OF True] i(1) j cd h assms(4) show ?thesis by simp
  next
    case False
    then have "Suc i \<le> j" by simp
    from mono [OF this j(1)] j cd h assms(5) show ?thesis by simp
  qed
qed

text \<open>
  The holes are exact: a number missing between two registered files of a host is inside a
  reported hole, when the files after it are still within the source retention; and every number inside a
  reported hole is missing.
\<close>

theorem sequence_holes_exact:
  "(registered_number rs host low l \<and> registered_number rs host high r \<and> low < n \<and> n < high
      \<and> (\<forall>q. \<not> registered_number rs host n q)
      \<and> (\<forall>m q. n < m \<and> registered_number rs host m q \<longrightarrow> since \<le> iso_epoch (f_log_begin_utc q))
      \<longrightarrow> (\<exists>h \<in> set (sequence_holes rs since). h_host h = host
            \<and> (\<exists>a b. file_number (h_left h) = Some a \<and> file_number (h_right h) = Some b \<and> a < n \<and> n < b \<and> h_missing h = b - a - 1)))
    \<and> (\<forall>h \<in> set (sequence_holes rs since). \<forall>a b m q. file_number (h_left h) = Some a \<and> file_number (h_right h) = Some b
        \<and> a < m \<and> m < b \<longrightarrow> \<not> registered_number rs (h_host h) m q)"
  using hole_reported [of rs host low l high r n since] hole_missing [of _ rs since] by blast

definition numbered_sample :: "string \<Rightarrow> file_row" where
  "numbered_sample name = new_file name ''i'' ''t'' (sample_remote name ''Completed'')"

theorem sequence_holes_exact_witness:
  "map h_missing (sequence_holes [numbered_sample ''b.10'', numbered_sample ''b.7''] 0) = [2]
   \<and> (\<exists>h \<in> set (sequence_holes [numbered_sample ''b.10'', numbered_sample ''b.7''] 0). h_host h = ''h1'')"
proof
  show "map h_missing (sequence_holes [numbered_sample ''b.10'', numbered_sample ''b.7''] 0) = [2]" by code_simp
  have e: "iso_epoch ''2026-10-28T21:00:00Z'' = 1793221200" "file_number ''b.10'' = Some 10" "file_number ''b.7'' = Some 7" by code_simp+
  have reg: "registered_number [numbered_sample ''b.10'', numbered_sample ''b.7''] ''h1'' m q \<longleftrightarrow>
      (m = 10 \<and> q = numbered_sample ''b.10'') \<or> (m = 7 \<and> q = numbered_sample ''b.7'')" for m q
    by (auto simp: registered_number_def numbered_sample_def new_file_def sample_remote_def e)
  have b: "f_log_begin_utc (numbered_sample x) = ''2026-10-28T21:00:00Z''" for x
    by (simp add: numbered_sample_def new_file_def sample_remote_def)
  show "\<exists>h \<in> set (sequence_holes [numbered_sample ''b.10'', numbered_sample ''b.7''] 0). h_host h = ''h1''"
    using sequence_holes_exact [THEN conjunct1, of "[numbered_sample ''b.10'', numbered_sample ''b.7'']" "''h1''" 7 "numbered_sample ''b.7''" 10 "numbered_sample ''b.10''" 8 0]
    unfolding reg by (auto simp: b e(1))
qed

text \<open>Rounds of \<open>_repair_holes\<close> over whatever holes each one finds.\<close>

fun ask_rounds :: "hole list list \<Rightarrow> (hole_key \<times> int) list \<Rightarrow> hole list list" where
  "ask_rounds [] q = []"
| "ask_rounds (hs # rounds) q = (case ask_holes hs 0 q of (asked, q) \<Rightarrow> asked # ask_rounds rounds q)"

definition limited :: "(hole_key \<times> int) list \<Rightarrow> bool" where
  "limited q \<longleftrightarrow> (\<forall>k. queries_of q k \<le> HOLE_QUERY_LIMIT)"

definition times_asked :: "hole list \<Rightarrow> hole_key \<Rightarrow> int" where
  "times_asked hs k = int (length (filter (\<lambda>h. hole_key_of h = k) hs))"

lemma times_asked_simps [simp]:
  "times_asked [] k = 0" "times_asked (h # hs) k = (if k = hole_key_of h then 1 else 0) + times_asked hs k"
  "times_asked (hs @ hs') k = times_asked hs k + times_asked hs' k"
  by (auto simp: times_asked_def)

lemma ask_holes_counts:
  assumes "ask_holes hs n q = (asked, q')" "n \<le> HOLE_QUERIES_PER_ROUND" "limited q"
  shows "n + int (length asked) \<le> HOLE_QUERIES_PER_ROUND \<and> limited q' \<and> queries_of q' k = queries_of q k + times_asked asked k"
  using assms
proof (induction hs arbitrary: n q asked)
  case (Cons h hs)
  show ?case
  proof (cases "HOLE_QUERIES_PER_ROUND \<le> n \<or> HOLE_QUERY_LIMIT \<le> queries_of q (hole_key_of h)")
    case True
    then have "ask_holes hs n q = (asked, q')" using Cons.prems(1) by simp
    from Cons.IH [OF this Cons.prems(2,3)] show ?thesis .
  next
    case False
    let ?q = "AList.update (hole_key_of h) (queries_of q (hole_key_of h) + 1) q"
    obtain rest where rest: "ask_holes hs (n + 1) ?q = (rest, q')" "asked = h # rest"
      using Cons.prems(1) False by (auto split: prod.splits)
    have uq: "queries_of ?q k = queries_of q k + (if k = hole_key_of h then 1 else 0)" for k
      by (simp add: queries_of_def update_conv')
    have "n + 1 \<le> HOLE_QUERIES_PER_ROUND" using False by simp
    moreover have "limited ?q"
      unfolding limited_def
    proof
      fix k show "queries_of ?q k \<le> HOLE_QUERY_LIMIT"
        using False Cons.prems(3) [unfolded limited_def, THEN spec, of k] unfolding uq by auto
    qed
    ultimately show ?thesis using Cons.IH [OF rest(1)] by (simp add: rest(2) uq del: split_paired_All)
  qed
qed simp

text \<open>
  Repairing holes is bounded: a round lists at most five holes again, and over any number of
  rounds each hole at most three times.
\<close>

theorem ask_rounds_bounded:
  "(\<forall>asked \<in> set (ask_rounds rounds []). int (length asked) \<le> HOLE_QUERIES_PER_ROUND)
   \<and> int (length (filter (\<lambda>h. hole_key_of h = k) (concat (ask_rounds rounds [])))) \<le> HOLE_QUERY_LIMIT"
proof -
  have "(\<forall>asked \<in> set (ask_rounds rounds q). int (length asked) \<le> HOLE_QUERIES_PER_ROUND)
   \<and> queries_of q k + times_asked (concat (ask_rounds rounds q)) k \<le> HOLE_QUERY_LIMIT"
    if "limited q" for q
    using that
  proof (induction rounds arbitrary: q)
    case (Cons hs rounds)
    obtain asked q' where a: "ask_holes hs 0 q = (asked, q')" by fastforce
    from ask_holes_counts [OF a _ Cons.prems, of k] have "int (length asked) \<le> HOLE_QUERIES_PER_ROUND"
      "queries_of q' k = queries_of q k + times_asked asked k" "limited q'" by (simp_all add: HOLE_QUERIES_PER_ROUND_def)
    with Cons.IH [OF this(3)] show ?case by (simp add: a)
  qed (simp add: limited_def del: split_paired_All)
  moreover have "limited []" by (simp add: limited_def queries_of_def HOLE_QUERY_LIMIT_def)
  ultimately show ?thesis by (fastforce simp: queries_of_def times_asked_def)
qed

theorem ask_rounds_bounded_witness:
  "map length (ask_rounds (replicate 5 (sequence_holes [numbered_sample ''b.10'', numbered_sample ''b.7''] 0)) []) = [1, 1, 1, 0, 0]
   \<and> int (length (ask_rounds (replicate 5 (sequence_holes [numbered_sample ''b.10'', numbered_sample ''b.7''] 0)) [] ! 0)) \<le> HOLE_QUERIES_PER_ROUND"
proof
  let ?a = "ask_rounds (replicate 5 (sequence_holes [numbered_sample ''b.10'', numbered_sample ''b.7''] 0)) []"
  show l: "map length ?a = [1, 1, 1, 0, 0]" by code_simp
  then have "length (map length ?a) = 5" by simp
  then have "?a ! 0 \<in> set ?a" by simp
  then show "int (length (?a ! 0)) \<le> HOLE_QUERIES_PER_ROUND" using ask_rounds_bounded by blast
qed

end
