(* ===== verification/RowsCommit.thy ===== *)
theory RowsCommit
  imports FileCatalog IsoTime "HOL-Library.Multiset"
begin

text \<open>
  How a binlog file gets into the row store exactly once: \<open>commit\<close> and \<open>commit_batch\<close>,
  \<open>purge_marker\<close> and the recovery of \<open>app/binlog_rows_worker.py\<close> with \<open>move\<close>, \<open>purge_file_rows\<close>,
  \<open>aggregate\<close> and \<open>record\<close> of \<open>app/binlog_rows.py\<close>. A handler is a program that performs one durable
  action after the other and continues with its reply; lanes interleave their actions, and a crash drops
  every program and keeps what is durable. The rows of a file are the rows with its part keys; the store is
  kept per file. \<open>content f\<close> is what the parser yields for file \<open>f\<close> and the row filter keeps.
\<close>

section \<open>Durable state\<close>

record stored_row =
  sr_day :: string
  sr_bucket :: int
  sr_data :: string

record marker =
  m_lo :: "int option"
  m_hi :: "int option"
  m_partitions :: "(string \<times> int) list option"

text \<open>
  One file: its rows in the store, rows of a refused \<open>INSERT\<close> that is still running on the server, whether
  the manifest has it, its inflight marker and the deduplication tokens of its aggregates.
\<close>

record file_view =
  v_rows :: "stored_row list"
  v_running :: "stored_row list"
  v_recorded :: bool
  v_marker :: "marker option"
  v_tokens :: "string list"

type_synonym store = "string \<Rightarrow> file_view"

definition AGG_KINDS :: "string list" where
  "AGG_KINDS = [''agg'', ''aggtxn'', ''aggtxnall'']"

section \<open>Bounds of a purge\<close>

datatype bounds = Unbounded | Days string string | Partitions "(string \<times> int) list"

definition BUCKETS :: int where "BUCKETS = 8"

text \<open>\<open>DATE_TEXT\<close> and the bucket range; \<open>partition_filter\<close> raises on anything else.\<close>

definition partition_ok :: "string \<times> int \<Rightarrow> bool" where
  "partition_ok p = (case p of (d, b) \<Rightarrow> length d = 10 \<and> d ! 4 = CHR ''-'' \<and> d ! 7 = CHR ''-''
     \<and> list_all is_digit (take 4 d @ take 2 (drop 5 d) @ take 2 (drop 8 d)) \<and> 0 \<le> b \<and> b < BUCKETS)"

definition in_bounds :: "bounds \<Rightarrow> stored_row \<Rightarrow> bool" where
  "in_bounds b r = (case b of Unbounded \<Rightarrow> True
     | Days d0 d1 \<Rightarrow> d0 \<le> sr_day r \<and> sr_day r \<le> d1
     | Partitions ps \<Rightarrow> sr_day r \<in> fst ` set ps \<and> sr_bucket r \<in> snd ` set ps)"

definition day_text :: "int \<Rightarrow> string" where
  "day_text t = take 10 (fmt t)"

text \<open>The choice \<open>purge_file_rows\<close> makes; \<open>0\<close> counts as unknown.\<close>

definition purge_bounds :: "(string \<times> int) list option \<Rightarrow> int option \<Rightarrow> int option \<Rightarrow> bounds" where
  "purge_bounds ps lo hi = (case ps of Some ps \<Rightarrow> Partitions ps
     | None \<Rightarrow> (case (lo, hi) of
         (Some l, Some h) \<Rightarrow> if l \<noteq> 0 \<and> h \<noteq> 0
           then Days (day_text (l div 1000000 - 86400)) (day_text (h div 1000000 + 86400)) else Unbounded
       | _ \<Rightarrow> Unbounded))"

text \<open>The span of a marker, or the catalog's for a marker without one.\<close>

definition marker_span :: "(int option \<times> int option) \<Rightarrow> marker \<Rightarrow> int option \<times> int option" where
  "marker_span catalog m = (if m_lo m \<in> {None, Some 0} \<or> m_hi m \<in> {None, Some 0} then catalog else (m_lo m, m_hi m))"

definition marker_bounds :: "(int option \<times> int option) \<Rightarrow> marker \<Rightarrow> bounds" where
  "marker_bounds catalog m = (case marker_span catalog m of (lo, hi) \<Rightarrow> purge_bounds (m_partitions m) lo hi)"

definition bad_bounds :: "bounds \<Rightarrow> bool" where
  "bad_bounds b = (case b of Partitions ps \<Rightarrow> \<not> list_all partition_ok ps | _ \<Rightarrow> False)"

section \<open>Programs\<close>

datatype action =
    GetMarker string
  | QueryRecorded string
  | PendingPurges "string list"
  | WaitMutations
  | CountRows "string list" bounds
  | DeleteRows "string list" bounds
  | Unlink string
  | ReadPartitions
  | TakeMoveSlot
  | WriteMarker string marker
  | InsertBucket "string list" int
  | KillQuery "string list"
  | Aggregate string string
  | RecordFile string

datatype reply = Acked | Refused | Flag bool | Found "marker option"

datatype outcome = Committed | Raised

datatype prog = Finish outcome | Act action "reply \<Rightarrow> prog"

text \<open>\<open>purge_file_rows\<close>: continue with \<open>next\<close>, or raise.\<close>

definition delete_rows :: "string list \<Rightarrow> bounds \<Rightarrow> prog \<Rightarrow> prog" where
  "delete_rows fs b next_prog = Act (DeleteRows fs b) (\<lambda>r. if r = Acked then next_prog else Finish Raised)"

definition count_then_delete :: "string list \<Rightarrow> bounds \<Rightarrow> prog \<Rightarrow> prog" where
  "count_then_delete fs b next_prog = Act (CountRows fs b)
     (\<lambda>r. if r = Flag True then next_prog else delete_rows fs b next_prog)"

definition purge_file_rows :: "string list \<Rightarrow> bounds \<Rightarrow> bool \<Rightarrow> prog \<Rightarrow> prog" where
  "purge_file_rows fs b check_remaining next_prog =
     (if b = Partitions [] then next_prog
      else if bad_bounds b then Finish Raised
      else if b = Unbounded then delete_rows fs b next_prog
      else Act (PendingPurges fs) (\<lambda>r.
        if r = Flag True
        then Act WaitMutations (\<lambda>r. if r = Acked then count_then_delete fs b next_prog else Finish Raised)
        else if check_remaining then count_then_delete fs b next_prog
        else delete_rows fs b next_prog))"

definition unlink_all :: "string list \<Rightarrow> prog \<Rightarrow> prog" where
  "unlink_all fs next_prog = foldr (\<lambda>f p. Act (Unlink f) (\<lambda>_. p)) fs next_prog"

text \<open>\<open>purge_marker\<close>; the callers go on whether the file was already committed or not.\<close>

definition purge_marker :: "(string \<Rightarrow> int option \<times> int option) \<Rightarrow> string \<Rightarrow> marker \<Rightarrow> prog \<Rightarrow> prog" where
  "purge_marker spans f m next_prog = Act (QueryRecorded f) (\<lambda>r.
     if r = Flag True then Act (Unlink f) (\<lambda>_. next_prog)
     else if r = Flag False then purge_file_rows [f] (marker_bounds (spans f) m) True (Act (Unlink f) (\<lambda>_. next_prog))
     else Finish Raised)"

fun purge_markers :: "(string \<Rightarrow> int option \<times> int option) \<Rightarrow> string list \<Rightarrow> prog \<Rightarrow> prog" where
  "purge_markers spans [] next_prog = next_prog"
| "purge_markers spans (f # fs) next_prog = Act (GetMarker f) (\<lambda>r. case r of
       Found (Some m) \<Rightarrow> purge_marker spans f m (purge_markers spans fs next_prog)
     | _ \<Rightarrow> purge_markers spans fs next_prog)"

fun write_markers :: "string list \<Rightarrow> (string \<Rightarrow> marker) \<Rightarrow> prog \<Rightarrow> prog" where
  "write_markers [] mk next_prog = next_prog"
| "write_markers (f # fs) mk next_prog = Act (WriteMarker f (mk f))
     (\<lambda>r. if r = Acked then write_markers fs mk next_prog else Finish Raised)"

text \<open>\<open>move\<close>: one \<open>INSERT\<close> per bucket; after a failure only the attempted partitions are purged.\<close>

fun move :: "string list \<Rightarrow> (string \<times> int) list \<Rightarrow> int list \<Rightarrow> prog \<Rightarrow> prog" where
  "move fs ps [] next_prog = next_prog"
| "move fs ps (b # bs) next_prog = Act (InsertBucket fs b) (\<lambda>r.
     if r = Acked then move fs ps bs next_prog
     else Act (KillQuery fs) (\<lambda>_.
       purge_file_rows fs (Partitions (filter (\<lambda>p. snd p \<le> b) ps)) False (unlink_all fs (Finish Raised))))"

fun aggregate :: "string \<Rightarrow> string list \<Rightarrow> prog \<Rightarrow> prog" where
  "aggregate f [] next_prog = next_prog"
| "aggregate f (k # ks) next_prog = Act (Aggregate f k) (\<lambda>r. if r = Acked then aggregate f ks next_prog else Finish Raised)"

fun record_files :: "string list \<Rightarrow> prog" where
  "record_files [] = Finish Committed"
| "record_files (f # fs) = aggregate f AGG_KINDS (Act (RecordFile f) (\<lambda>r.
     if r = Acked then Act (Unlink f) (\<lambda>_. record_files fs) else Finish Raised))"

text \<open>The partitions of a buffer that holds the files \<open>fs\<close>, and the buckets \<open>move\<close> visits.\<close>

definition buffer_partitions :: "(string \<Rightarrow> stored_row list) \<Rightarrow> string list \<Rightarrow> (string \<times> int) list" where
  "buffer_partitions content fs = sort (remdups (map (\<lambda>r. (sr_day r, sr_bucket r)) (concat (map content fs))))"

definition present_buckets :: "(string \<times> int) list \<Rightarrow> int list" where
  "present_buckets ps = sort (remdups (map snd ps))"

record worker_env =
  content :: "string \<Rightarrow> stored_row list"
  file_spans :: "string \<Rightarrow> int option \<times> int option"
  lo_of :: "string \<Rightarrow> int option"
  hi_of :: "string \<Rightarrow> int option"

definition new_marker :: "worker_env \<Rightarrow> (string \<times> int) list \<Rightarrow> string \<Rightarrow> marker" where
  "new_marker env ps f = \<lparr>m_lo = lo_of env f, m_hi = hi_of env f, m_partitions = Some ps\<rparr>"

definition commit_batch :: "worker_env \<Rightarrow> string list \<Rightarrow> prog" where
  "commit_batch env fs = purge_markers (file_spans env) fs (Act ReadPartitions (\<lambda>r.
     if r \<noteq> Acked then Finish Raised
     else Act TakeMoveSlot (\<lambda>r. if r \<noteq> Acked then Finish Raised
       else let ps = buffer_partitions (content env) fs in
         write_markers fs (new_marker env ps) (move fs ps (present_buckets ps) (record_files fs)))))"

text \<open>\<open>commit\<close> performs the same actions for one file.\<close>

definition commit_file :: "worker_env \<Rightarrow> string \<Rightarrow> prog" where
  "commit_file env f = commit_batch env [f]"

text \<open>\<open>recover_inflight\<close> on one marker found at start.\<close>

definition recover_marker :: "worker_env \<Rightarrow> string \<Rightarrow> prog" where
  "recover_marker env f = Act (GetMarker f) (\<lambda>r. case r of
       Found (Some m) \<Rightarrow> purge_marker (file_spans env) f m (Finish Raised)
     | _ \<Rightarrow> Finish Raised)"

section \<open>What an action does\<close>

text \<open>
  The faults the hypotheses of the theorems name: a \<open>KILL QUERY\<close> that fails, a manifest insert that is
  applied although its client sees an error, an insert that outlives a crash of the worker, and a cached
  list of ingested files that lacks a file recorded since.
\<close>

record faults =
  kill_fails :: bool
  record_applied :: bool
  insert_outlives :: bool
  stale_cache :: bool

definition no_faults :: faults where
  "no_faults = \<lparr>kill_fails = False, record_applied = False, insert_outlives = False, stale_cache = False\<rparr>"

definition bucket_rows :: "(string \<Rightarrow> stored_row list) \<Rightarrow> int \<Rightarrow> string \<Rightarrow> stored_row list" where
  "bucket_rows cont b f = filter (\<lambda>r. sr_bucket r = b) (cont f)"

definition on_files :: "string list \<Rightarrow> (string \<Rightarrow> file_view \<Rightarrow> file_view) \<Rightarrow> store \<Rightarrow> store" where
  "on_files fs g s = (\<lambda>f. if f \<in> set fs then g f (s f) else s f)"

inductive perform :: "faults \<Rightarrow> (string \<Rightarrow> stored_row list) \<Rightarrow> action \<Rightarrow> store \<Rightarrow> reply \<Rightarrow> store \<Rightarrow> bool"
  for fl cont where
  get: "perform fl cont (GetMarker f) s (Found (v_marker (s f))) s"
| recorded: "perform fl cont (QueryRecorded f) s (Flag (v_recorded (s f))) s"
| recorded_fails: "perform fl cont (QueryRecorded f) s Refused s"
| pending: "perform fl cont (PendingPurges fs) s (Flag b) s"
| waited: "r \<in> {Acked, Refused} \<Longrightarrow> perform fl cont WaitMutations s r s"
| counted: "perform fl cont (CountRows fs b) s (Flag (\<forall>f \<in> set fs. \<forall>r \<in> set (v_rows (s f)). \<not> in_bounds b r)) s"
| count_fails: "perform fl cont (CountRows fs b) s Refused s"
| deleted: "perform fl cont (DeleteRows fs b) s Acked
    (on_files fs (\<lambda>_ v. v\<lparr>v_rows := filter (\<lambda>r. \<not> in_bounds b r) (v_rows v)\<rparr>) s)"
| delete_fails: "(\<And>f r. r \<in> set (v_rows (s f)) \<Longrightarrow> keep f r \<or> in_bounds b r) \<Longrightarrow>
    perform fl cont (DeleteRows fs b) s Refused (on_files fs (\<lambda>f v. v\<lparr>v_rows := filter (keep f) (v_rows v)\<rparr>) s)"
| unlinked: "perform fl cont (Unlink f) s Acked (on_files [f] (\<lambda>_ v. v\<lparr>v_marker := None\<rparr>) s)"
| partitions: "r \<in> {Acked, Refused} \<Longrightarrow> perform fl cont ReadPartitions s r s"
| slot: "r \<in> {Acked, Refused} \<Longrightarrow> perform fl cont TakeMoveSlot s r s"
| written: "perform fl cont (WriteMarker f m) s Acked (on_files [f] (\<lambda>_ v. v\<lparr>v_marker := Some m\<rparr>) s)"
| write_fails: "perform fl cont (WriteMarker f m) s Refused s"
| inserted: "perform fl cont (InsertBucket fs b) s Acked
    (on_files fs (\<lambda>f v. v\<lparr>v_rows := v_rows v @ bucket_rows cont b f\<rparr>) s)"
| insert_fails: "(\<And>f. f \<in> set fs \<Longrightarrow> mset (part f @ late f) \<subseteq># mset (bucket_rows cont b f)) \<Longrightarrow>
    perform fl cont (InsertBucket fs b) s Refused
      (on_files fs (\<lambda>f v. v\<lparr>v_rows := v_rows v @ part f, v_running := v_running v @ late f\<rparr>) s)"
| killed: "(\<And>f. f \<in> set fs \<Longrightarrow> mset (landed f) \<subseteq># mset (v_running (s f))) \<Longrightarrow> perform fl cont (KillQuery fs) s Acked
    (on_files fs (\<lambda>f v. v\<lparr>v_rows := v_rows v @ landed f, v_running := []\<rparr>) s)"
| kill_refused: "kill_fails fl \<Longrightarrow> perform fl cont (KillQuery fs) s Refused s"
| aggregated: "perform fl cont (Aggregate f k) s Acked
    (on_files [f] (\<lambda>_ v. v\<lparr>v_tokens := List.insert k (v_tokens v)\<rparr>) s)"
| aggregate_fails: "t \<in> {[], [k]} \<Longrightarrow> perform fl cont (Aggregate f k) s Refused
    (on_files [f] (\<lambda>_ v. v\<lparr>v_tokens := List.union t (v_tokens v)\<rparr>) s)"
| recorded_ok: "perform fl cont (RecordFile f) s Acked (on_files [f] (\<lambda>_ v. v\<lparr>v_recorded := True\<rparr>) s)"
| record_fails: "perform fl cont (RecordFile f) s Refused s"
| record_late: "record_applied fl \<Longrightarrow> perform fl cont (RecordFile f) s Refused (on_files [f] (\<lambda>_ v. v\<lparr>v_recorded := True\<rparr>) s)"

inductive_cases getE [consumes 1, case_names got]: "perform fl cont (GetMarker f) s r t"
inductive_cases recordedE [consumes 1, case_names answered fails]: "perform fl cont (QueryRecorded f) s r t"
inductive_cases pendingE [consumes 1, case_names pending]: "perform fl cont (PendingPurges fs) s r t"
inductive_cases waitE [consumes 1, case_names waited]: "perform fl cont WaitMutations s r t"
inductive_cases countE [consumes 1, case_names counted fails]: "perform fl cont (CountRows fs b) s r t"
inductive_cases deleteE [consumes 1, case_names deleted fails]: "perform fl cont (DeleteRows fs b) s r t"
inductive_cases unlinkE [consumes 1, case_names unlinked]: "perform fl cont (Unlink f) s r t"
inductive_cases partitionsE [consumes 1, case_names partitions]: "perform fl cont ReadPartitions s r t"
inductive_cases slotE [consumes 1, case_names slot]: "perform fl cont TakeMoveSlot s r t"
inductive_cases writeE [consumes 1, case_names written fails]: "perform fl cont (WriteMarker f m) s r t"
inductive_cases insertE [consumes 1, case_names inserted fails]: "perform fl cont (InsertBucket fs b) s r t"
inductive_cases killE [consumes 1, case_names killed refused]: "perform fl cont (KillQuery fs) s r t"
inductive_cases aggregateE [consumes 1, case_names aggregated fails]: "perform fl cont (Aggregate f k) s r t"
inductive_cases recordE [consumes 1, case_names recorded fails late]: "perform fl cont (RecordFile f) s r t"

text \<open>The files an action reads or writes.\<close>

primrec act_files :: "action \<Rightarrow> string set" where
  "act_files (GetMarker f) = {f}"
| "act_files (QueryRecorded f) = {f}"
| "act_files (PendingPurges fs) = set fs"
| "act_files WaitMutations = {}"
| "act_files (CountRows fs b) = set fs"
| "act_files (DeleteRows fs b) = set fs"
| "act_files (Unlink f) = {f}"
| "act_files ReadPartitions = {}"
| "act_files TakeMoveSlot = {}"
| "act_files (WriteMarker f m) = {f}"
| "act_files (InsertBucket fs b) = set fs"
| "act_files (KillQuery fs) = set fs"
| "act_files (Aggregate f k) = {f}"
| "act_files (RecordFile f) = {f}"

text \<open>The answer of an undisturbed server.\<close>

primrec answer :: "(string \<Rightarrow> stored_row list) \<Rightarrow> action \<Rightarrow> store \<Rightarrow> reply \<times> store" where
  "answer cont (GetMarker f) s = (Found (v_marker (s f)), s)"
| "answer cont (QueryRecorded f) s = (Flag (v_recorded (s f)), s)"
| "answer cont (PendingPurges fs) s = (Flag False, s)"
| "answer cont WaitMutations s = (Acked, s)"
| "answer cont (CountRows fs b) s = (Flag (\<forall>f \<in> set fs. \<forall>r \<in> set (v_rows (s f)). \<not> in_bounds b r), s)"
| "answer cont (DeleteRows fs b) s =
     (Acked, on_files fs (\<lambda>_ v. v\<lparr>v_rows := filter (\<lambda>r. \<not> in_bounds b r) (v_rows v)\<rparr>) s)"
| "answer cont (Unlink f) s = (Acked, on_files [f] (\<lambda>_ v. v\<lparr>v_marker := None\<rparr>) s)"
| "answer cont ReadPartitions s = (Acked, s)"
| "answer cont TakeMoveSlot s = (Acked, s)"
| "answer cont (WriteMarker f m) s = (Acked, on_files [f] (\<lambda>_ v. v\<lparr>v_marker := Some m\<rparr>) s)"
| "answer cont (InsertBucket fs b) s = (Acked, on_files fs (\<lambda>f v. v\<lparr>v_rows := v_rows v @ bucket_rows cont b f\<rparr>) s)"
| "answer cont (KillQuery fs) s = (Acked, on_files fs (\<lambda>_ v. v\<lparr>v_running := []\<rparr>) s)"
| "answer cont (Aggregate f k) s = (Acked, on_files [f] (\<lambda>_ v. v\<lparr>v_tokens := List.insert k (v_tokens v)\<rparr>) s)"
| "answer cont (RecordFile f) s = (Acked, on_files [f] (\<lambda>_ v. v\<lparr>v_recorded := True\<rparr>) s)"

text \<open>A run in which the actions \<open>bad\<close> are refused without any effect and every other one succeeds.\<close>

primrec run_prog :: "(string \<Rightarrow> stored_row list) \<Rightarrow> (action \<Rightarrow> bool) \<Rightarrow> prog \<Rightarrow> store \<Rightarrow> outcome \<times> store" where
  "run_prog cont bad (Finish res) s = (res, s)"
| "run_prog cont bad (Act a k) s = (if bad a then run_prog cont bad (k Refused) s
     else case answer cont a s of (r, t) \<Rightarrow> run_prog cont bad (k r) t)"

primrec refusable :: "action \<Rightarrow> bool" where
  "refusable (GetMarker f) = False"
| "refusable (QueryRecorded f) = True"
| "refusable (PendingPurges fs) = False"
| "refusable WaitMutations = True"
| "refusable (CountRows fs b) = True"
| "refusable (DeleteRows fs b) = True"
| "refusable (Unlink f) = False"
| "refusable ReadPartitions = True"
| "refusable TakeMoveSlot = True"
| "refusable (WriteMarker f m) = True"
| "refusable (InsertBucket fs b) = True"
| "refusable (KillQuery fs) = False"
| "refusable (Aggregate f k) = True"
| "refusable (RecordFile f) = True"

section \<open>Claims, lanes and restarts\<close>

text \<open>\<open>Claims\<close>: the files being worked on and the files committed in this process.\<close>

record claim_state =
  claim_ids :: "string set"
  claim_done :: "string set"

definition take_claim :: "string \<Rightarrow> claim_state \<Rightarrow> bool \<times> claim_state" where
  "take_claim f c = (if f \<in> claim_ids c \<or> f \<in> claim_done c then (False, c)
     else (True, c\<lparr>claim_ids := insert f (claim_ids c)\<rparr>))"

definition release_claim :: "string \<Rightarrow> claim_state \<Rightarrow> claim_state" where
  "release_claim f c = c\<lparr>claim_ids := claim_ids c - {f}\<rparr>"

definition finish_claim :: "string \<Rightarrow> claim_state \<Rightarrow> claim_state" where
  "finish_claim f c = c\<lparr>claim_ids := claim_ids c - {f}, claim_done := insert f (claim_done c)\<rparr>"

text \<open>
  \<open>run_batch\<close> picks its files: \<open>first\<close> is claimed, then the pending raw files of the same instance in
  order, at most \<open>BATCH_FILES\<close>; a file that turns out to be ingested is finished instead.
\<close>

record candidate =
  c_file :: string
  c_instance :: string
  c_raw :: bool

fun fill_batch :: "nat \<Rightarrow> (string \<Rightarrow> bool) \<Rightarrow> (string \<Rightarrow> bool) \<Rightarrow> string \<Rightarrow> candidate list \<Rightarrow> string list \<Rightarrow> claim_state
    \<Rightarrow> string list \<times> claim_state" where
  "fill_batch limit due known inst [] batch c = (batch, c)"
| "fill_batch limit due known inst (e # es) batch c =
     (if limit \<le> length batch then (batch, c)
      else if \<not> c_raw e \<or> \<not> due (c_file e) then fill_batch limit due known inst es batch c
      else if c_instance e \<noteq> inst \<or> \<not> fst (take_claim (c_file e) c) then fill_batch limit due known inst es batch c
      else let c' = snd (take_claim (c_file e) c) in
        if known (c_file e) then fill_batch limit due known inst es batch (finish_claim (c_file e) c')
        else fill_batch limit due known inst es (batch @ [c_file e]) c')"

definition end_batch :: "outcome \<Rightarrow> string list \<Rightarrow> claim_state \<Rightarrow> claim_state" where
  "end_batch res fs c = foldl (\<lambda>c f. (if res = Committed then finish_claim else release_claim) f c) c fs"

text \<open>
  The process and what survives it. \<open>w_known\<close> is the cached set of ingested files: it is read from the
  manifest and \<open>mark_ingested\<close> adds what a lane commits. \<open>w_loose\<close> is no variable of the code: it notes the
  files that a failed batch had already recorded, until the cache is read again; \<open>run_batch\<close> releases
  their claims without \<open>mark_ingested\<close>.
\<close>

record worker =
  w_store :: store
  w_lanes :: "(string list \<times> prog) list"
  w_claims :: claim_state
  w_known :: "string set"
  w_loose :: "string set"

definition restarted :: "worker_env \<Rightarrow> string list \<Rightarrow> (string list \<times> prog) list \<times> claim_state" where
  "restarted env ms = (map (\<lambda>f. ([f], recover_marker env f)) ms,
     foldl (\<lambda>c f. snd (take_claim f c)) \<lparr>claim_ids = {}, claim_done = {}\<rparr> ms)"

definition recorded_files :: "store \<Rightarrow> string set" where
  "recorded_files s = {f. v_recorded (s f)}"

text \<open>A running \<open>INSERT\<close> stores some of its rows.\<close>

definition lands :: "store \<Rightarrow> store \<Rightarrow> bool" where
  "lands s t \<longleftrightarrow> (\<forall>f. \<exists>l w. mset (l @ w) \<subseteq># mset (v_running (s f)) \<and>
     t f = (s f)\<lparr>v_rows := v_rows (s f) @ l, v_running := w\<rparr>)"

text \<open>
  One step of the system: a lane takes a batch, performs an action, ends; the cache is read again; a
  running \<open>INSERT\<close> stores rows; the process dies and its successor claims the marked files and purges
  them. The fault \<open>stale_cache\<close> is one of timing: without it a lane takes no file that a failed batch had
  recorded before the cache was read again.
\<close>

inductive worker_step :: "faults \<Rightarrow> worker_env \<Rightarrow> worker \<Rightarrow> worker \<Rightarrow> bool" for fl env where
  start: "fill_batch (Suc n) due (\<lambda>f. f \<in> w_known w) inst es [] (w_claims w) = (fs, c) \<Longrightarrow> fs \<noteq> [] \<Longrightarrow>
    stale_cache fl \<or> set fs \<inter> w_loose w = {} \<Longrightarrow>
    worker_step fl env w (w\<lparr>w_lanes := (fs, commit_batch env fs) # w_lanes w, w_claims := c\<rparr>)"
| act: "w_lanes w = ls @ (fs, Act a k) # ls' \<Longrightarrow> perform fl (content env) a (w_store w) r s \<Longrightarrow>
    worker_step fl env w (w\<lparr>w_store := s, w_lanes := ls @ (fs, k r) # ls'\<rparr>)"
| end_lane: "w_lanes w = ls @ (fs, Finish res) # ls' \<Longrightarrow>
    worker_step fl env w (w\<lparr>w_lanes := ls @ ls', w_claims := end_batch res fs (w_claims w),
      w_known := w_known w \<union> (if res = Committed then set fs else {}),
      w_loose := w_loose w \<union> (if res = Committed then {} else recorded_files (w_store w) \<inter> set fs)\<rparr>)"
| read_cache: "worker_step fl env w (w\<lparr>w_known := recorded_files (w_store w), w_loose := {}\<rparr>)"
| late: "lands (w_store w) s \<Longrightarrow> worker_step fl env w (w\<lparr>w_store := s\<rparr>)"
| restart: "lands (w_store w) s \<Longrightarrow> insert_outlives fl \<or> (\<forall>f. v_running (s f) = []) \<Longrightarrow>
    distinct ms \<Longrightarrow> set ms = {f. v_marker (s f) \<noteq> None} \<Longrightarrow>
    worker_step fl env w \<lparr>w_store = s, w_lanes = fst (restarted env ms), w_claims = snd (restarted env ms),
      w_known = recorded_files s, w_loose = {}\<rparr>"

end
