(* ===== verification/RowsSafety.thy ===== *)
theory RowsSafety
  imports RowsCommit Prelude
begin

text \<open>
  The row store holds every recorded file exactly once: a crash-safety invariant of one file, the programs of
  \<open>RowsCommit\<close> keep it after every action (\<open>runs_safely\<close>), and the whole worker keeps it under any
  interleaving of lanes and restarts. The last section shows what each fault does.
\<close>

section \<open>One file\<close>

definition crash_safe :: "worker_env \<Rightarrow> string \<Rightarrow> file_view \<Rightarrow> bool" where
  "crash_safe env f v \<longleftrightarrow>
     (if v_recorded v
      then mset (v_rows v) = mset (content env f) \<and> v_running v = [] \<and> set AGG_KINDS \<subseteq> set (v_tokens v)
      else case v_marker v of None \<Rightarrow> v_rows v = [] \<and> v_running v = []
        | Some m \<Rightarrow> \<forall>r \<in> set (v_rows v @ v_running v). in_bounds (marker_bounds (file_spans env f) m) r)"

definition settled :: "worker_env \<Rightarrow> string set \<Rightarrow> store \<Rightarrow> bool" where
  "settled env F s \<longleftrightarrow> (\<forall>f \<in> F. crash_safe env f (s f) \<and> v_running (s f) = [])"

primrec runs_safely :: "worker_env \<Rightarrow> string set \<Rightarrow> prog \<Rightarrow> store \<Rightarrow> bool" where
  "runs_safely env F (Finish res) s \<longleftrightarrow> settled env F s \<and> (res = Committed \<longrightarrow> (\<forall>f \<in> F. v_recorded (s f)))"
| "runs_safely env F (Act a k) s \<longleftrightarrow> act_files a \<subseteq> F \<and>
     (\<forall>f \<in> F. v_running (s f) \<noteq> [] \<longrightarrow> (\<exists>fs. a = KillQuery fs \<and> f \<in> set fs)) \<and>
     (\<forall>r t. perform no_faults (content env) a s r t \<longrightarrow>
        (\<forall>f \<in> F. crash_safe env f (t f)) \<and> runs_safely env F (k r) t)"

lemma on_files_apply: "on_files fs g s f = (if f \<in> set fs then g f (s f) else s f)"
  by (simp add: on_files_def)

lemma on_files_Nil [simp]: "on_files [] g s = s"
  by (simp add: on_files_def)

lemma no_faults_simps [simp]:
  "kill_fails no_faults = False" "record_applied no_faults = False"
  "insert_outlives no_faults = False" "stale_cache no_faults = False"
  by (simp_all add: no_faults_def)

lemma settledD: "settled env F s \<Longrightarrow> f \<in> F \<Longrightarrow> crash_safe env f (s f)" "settled env F s \<Longrightarrow> f \<in> F \<Longrightarrow> v_running (s f) = []"
  by (simp_all add: settled_def)

lemma settledI: "(\<And>f. f \<in> F \<Longrightarrow> crash_safe env f (s f)) \<Longrightarrow> (\<And>f. f \<in> F \<Longrightarrow> v_running (s f) = []) \<Longrightarrow> settled env F s"
  by (simp add: settled_def)

text \<open>What an action does to a file depends on that file alone.\<close>

lemma perform_outside: "perform fl cont a s r t \<Longrightarrow> f \<notin> act_files a \<Longrightarrow> t f = s f"
  by (induction rule: perform.induct) (simp_all add: on_files_apply)

lemma runs_safely_act:
  assumes "act_files a \<subseteq> F" "settled env F s"
    "\<And>r t. perform no_faults (content env) a s r t \<Longrightarrow> (\<forall>f \<in> F. crash_safe env f (t f)) \<and> runs_safely env F (k r) t"
  shows "runs_safely env F (Act a k) s"
  using assms by (auto simp: settled_def)

lemma runs_safely_settled: "settled env F s \<Longrightarrow> runs_safely env F (Finish Raised) s"
  by simp

section \<open>The purge\<close>

lemma crash_safe_fewer:
  assumes "crash_safe env f v" "\<not> v_recorded v" "set rs \<subseteq> set (v_rows v)"
  shows "crash_safe env f (v\<lparr>v_rows := rs\<rparr>)"
  using assms by (auto simp: crash_safe_def split: option.splits)

lemma settled_on_files:
  assumes "settled env F s"
    "\<And>f. f \<in> F \<Longrightarrow> f \<in> set fs \<Longrightarrow> crash_safe env f (g f (s f)) \<and> v_running (g f (s f)) = []"
  shows "settled env F (on_files fs g s)"
  using assms by (auto simp: settled_def on_files_apply)

lemma settled_fewer:
  assumes "settled env F s" "\<forall>f \<in> set fs. \<not> v_recorded (s f)" "\<And>f. set (h f (s f)) \<subseteq> set (v_rows (s f))"
  shows "settled env F (on_files fs (\<lambda>f v. v\<lparr>v_rows := h f v\<rparr>) s)"
  using assms by (intro settled_on_files conjI crash_safe_fewer) (auto simp: settled_def)

abbreviation cleared :: "string list \<Rightarrow> store \<Rightarrow> store" where
  "cleared fs s \<equiv> on_files fs (\<lambda>_ v. v\<lparr>v_rows := []\<rparr>) s"

lemma cleared_same: "\<forall>f \<in> set fs. v_rows (s f) = [] \<Longrightarrow> cleared fs s = s"
  by (auto simp: fun_eq_iff on_files_apply)

text \<open>What the purge of rows within bounds leaves, whichever path it takes.\<close>

definition purgeable :: "worker_env \<Rightarrow> string set \<Rightarrow> string list \<Rightarrow> bounds \<Rightarrow> store \<Rightarrow> bool" where
  "purgeable env F fs b s \<longleftrightarrow> set fs \<subseteq> F \<and> settled env F s \<and>
     (\<forall>f \<in> set fs. \<not> v_recorded (s f) \<and> (\<forall>r \<in> set (v_rows (s f)). in_bounds b r))"

lemma safe_delete:
  assumes p: "purgeable env F fs b s" and n: "runs_safely env F next_prog (cleared fs s)"
  shows "runs_safely env F (delete_rows fs b next_prog) s"
  unfolding delete_rows_def
proof (rule runs_safely_act)
  show "act_files (DeleteRows fs b) \<subseteq> F" "settled env F s" using p by (simp_all add: purgeable_def)
  fix r t assume "perform no_faults (content env) (DeleteRows fs b) s r t"
  then show "(\<forall>f\<in>F. crash_safe env f (t f)) \<and>
      runs_safely env F (if r = Acked then next_prog else Finish Raised) t"
  proof (cases rule: deleteE)
    case deleted
    have "t = cleared fs s"
      using p by (auto simp: deleted purgeable_def on_files_def fun_eq_iff filter_empty_conv)
    moreover have "settled env F (cleared fs s)"
      using p by (intro settled_fewer [where h = "\<lambda>_ _. []"]) (auto simp: purgeable_def)
    ultimately show ?thesis using n deleted by (simp add: settled_def)
  next
    case (fails keep)
    have "settled env F t"
      unfolding fails using p by (intro settled_fewer) (auto simp: purgeable_def)
    with fails show ?thesis by (simp add: settled_def)
  qed
qed

lemma safe_count:
  assumes p: "purgeable env F fs b s" and n: "runs_safely env F next_prog (cleared fs s)"
  shows "runs_safely env F (count_then_delete fs b next_prog) s"
  unfolding count_then_delete_def
proof (rule runs_safely_act)
  show "act_files (CountRows fs b) \<subseteq> F" and st: "settled env F s" using p by (simp_all add: purgeable_def)
  fix r t assume "perform no_faults (content env) (CountRows fs b) s r t"
  then show "(\<forall>f\<in>F. crash_safe env f (t f)) \<and>
      runs_safely env F (if r = Flag True then next_prog else delete_rows fs b next_prog) t"
  proof (cases rule: countE)
    case counted
    show ?thesis
    proof (cases "r = Flag True")
      case True
      have "v_rows (s f) = []" if "f \<in> set fs" for f
      proof (rule ccontr)
        assume "v_rows (s f) \<noteq> []"
        then obtain x where "x \<in> set (v_rows (s f))" by fastforce
        moreover have "\<forall>f \<in> set fs. \<forall>r \<in> set (v_rows (s f)). \<not> in_bounds b r" using True counted by simp
        ultimately show False using p that unfolding purgeable_def by blast
      qed
      then have "cleared fs s = s" by (intro cleared_same) simp
      then show ?thesis using True n st counted by (simp add: settled_def)
    next
      case False
      then show ?thesis using st safe_delete [OF p n] unfolding counted(2) by (simp add: settled_def)
    qed
  next
    case fails
    then show ?thesis using st safe_delete [OF p n] by (simp add: settled_def)
  qed
qed

lemma safe_purge:
  assumes p: "purgeable env F fs b s" and n: "runs_safely env F next_prog (cleared fs s)"
  shows "runs_safely env F (purge_file_rows fs b chk next_prog) s"
proof -
  have st: "settled env F s" and sub: "set fs \<subseteq> F" using p by (simp_all add: purgeable_def)
  have "cleared fs s = s" if "b = Partitions []"
    using p that by (intro cleared_same) (auto simp: purgeable_def in_bounds_def)
  moreover have "runs_safely env F (Act (PendingPurges fs) (\<lambda>r.
        if r = Flag True
        then Act WaitMutations (\<lambda>r. if r = Acked then count_then_delete fs b next_prog else Finish Raised)
        else if chk then count_then_delete fs b next_prog
        else delete_rows fs b next_prog)) s"
  proof (rule runs_safely_act)
    fix r t assume "perform no_faults (content env) (PendingPurges fs) s r t"
    then have t: "t = s" by (cases rule: pendingE)
    have w: "runs_safely env F (Act WaitMutations (\<lambda>r. if r = Acked then count_then_delete fs b next_prog else Finish Raised)) s"
    proof (rule runs_safely_act)
      fix r t assume "perform no_faults (content env) WaitMutations s r t"
      then have "t = s" by (cases rule: waitE) simp
      then show "(\<forall>f\<in>F. crash_safe env f (t f)) \<and>
          runs_safely env F (if r = Acked then count_then_delete fs b next_prog else Finish Raised) t"
        using st safe_count [OF p n] by (simp add: settled_def)
    qed (use st in simp_all)
    show "(\<forall>f\<in>F. crash_safe env f (t f)) \<and> runs_safely env F (if r = Flag True
        then Act WaitMutations (\<lambda>r. if r = Acked then count_then_delete fs b next_prog else Finish Raised)
        else if chk then count_then_delete fs b next_prog else delete_rows fs b next_prog) t"
      using w st safe_count [OF p n] safe_delete [OF p n] unfolding t by (simp add: settled_def del: runs_safely.simps)
  qed (use st sub in simp_all)
  ultimately show ?thesis
    using n st safe_delete [OF p n] unfolding purge_file_rows_def by auto
qed

section \<open>Markers left behind\<close>

lemma crash_safe_unmarked:
  "crash_safe env f v \<Longrightarrow> v_recorded v \<or> v_rows v = [] \<and> v_running v = [] \<Longrightarrow> crash_safe env f (v\<lparr>v_marker := None\<rparr>)"
  by (auto simp: crash_safe_def)

abbreviation unmarked :: "string \<Rightarrow> store \<Rightarrow> store" where
  "unmarked f s \<equiv> on_files [f] (\<lambda>_ v. v\<lparr>v_marker := None\<rparr>) s"

lemma unmarked_settled:
  "settled env F s \<Longrightarrow> v_recorded (s f) \<or> v_rows (s f) = [] \<Longrightarrow> settled env F (unmarked f s)"
  by (intro settled_on_files conjI crash_safe_unmarked) (auto simp: settled_def)

lemma safe_unlink:
  assumes "f \<in> F" "settled env F s" "v_recorded (s f) \<or> v_rows (s f) = []" "runs_safely env F next_prog (unmarked f s)"
  shows "runs_safely env F (Act (Unlink f) (\<lambda>_. next_prog)) s"
proof (rule runs_safely_act)
  fix r t assume "perform no_faults (content env) (Unlink f) s r t"
  then have "t = unmarked f s" by (cases rule: unlinkE) simp
  moreover have "settled env F (unmarked f s)"
    using assms(2,3) by (rule unmarked_settled)
  ultimately show "(\<forall>f\<in>F. crash_safe env f (t f)) \<and> runs_safely env F next_prog t"
    using assms(4) by (simp add: settled_def)
qed (use assms in simp_all)

text \<open>After \<open>purge_marker\<close> a file that was not recorded is as if it had never been tried.\<close>

definition reset_file :: "string \<Rightarrow> store \<Rightarrow> store" where
  "reset_file f s = s(f := (s f)\<lparr>v_rows := if v_recorded (s f) then v_rows (s f) else [], v_marker := None\<rparr>)"

lemma safe_purge_marker:
  assumes "f \<in> F" "settled env F s" "v_marker (s f) = Some m" "runs_safely env F next_prog (reset_file f s)"
  shows "runs_safely env F (purge_marker (file_spans env) f m next_prog) s"
  unfolding purge_marker_def
proof (rule runs_safely_act)
  fix r t assume "perform no_faults (content env) (QueryRecorded f) s r t"
  then show "(\<forall>f\<in>F. crash_safe env f (t f)) \<and> runs_safely env F (if r = Flag True then Act (Unlink f) (\<lambda>_. next_prog)
     else if r = Flag False then purge_file_rows [f] (marker_bounds (file_spans env f) m) True (Act (Unlink f) (\<lambda>_. next_prog))
     else Finish Raised) t"
  proof (cases rule: recordedE)
    case answered
    have safe: "\<forall>f\<in>F. crash_safe env f (s f)" using assms by (simp add: settled_def)
    show ?thesis
    proof (cases "v_recorded (s f)")
      case True
      then have "unmarked f s = reset_file f s"
        by (auto simp: reset_file_def on_files_def fun_eq_iff)
      with True answered safe assms show ?thesis by (simp add: safe_unlink del: runs_safely.simps)
    next
      case False
      have "crash_safe env f (s f)" "v_running (s f) = []" using assms by (auto simp: settled_def)
      then have p: "purgeable env F [f] (marker_bounds (file_spans env f) m) s"
        using False assms by (auto simp: purgeable_def crash_safe_def)
      have "settled env F (cleared [f] s)"
        using False assms by (intro settled_fewer [where h = "\<lambda>_ _. []"]) auto
      moreover have "unmarked f (cleared [f] s) = reset_file f s"
        using False by (auto simp: reset_file_def on_files_def fun_eq_iff)
      ultimately have "runs_safely env F (Act (Unlink f) (\<lambda>_. next_prog)) (cleared [f] s)"
        using assms by (intro safe_unlink) (auto simp: on_files_apply)
      from safe_purge [OF p this] False answered safe show ?thesis by (simp del: runs_safely.simps)
    qed
  next
    case fails
    then show ?thesis using assms by (simp add: settled_def)
  qed
qed (use assms in simp_all)

lemma reset_settled: "settled env F s \<Longrightarrow> settled env F (reset_file f s)"
  by (auto simp: settled_def reset_file_def crash_safe_def)

lemma reset_id: "crash_safe env f (s f) \<Longrightarrow> v_marker (s f) = None \<Longrightarrow> reset_file f s = s"
  by (auto simp: reset_file_def crash_safe_def fun_eq_iff)

lemma safe_purge_markers:
  assumes "set fs \<subseteq> F" "settled env F s" "runs_safely env F next_prog (foldl (\<lambda>s f. reset_file f s) s fs)"
  shows "runs_safely env F (purge_markers (file_spans env) fs next_prog) s"
  using assms
proof (induction fs arbitrary: s)
  case (Cons f fs)
  let ?next = "purge_markers (file_spans env) fs next_prog"
  have next_safe: "runs_safely env F ?next (reset_file f s)"
    using Cons.prems by (intro Cons.IH reset_settled) auto
  have "runs_safely env F (Act (GetMarker f) (\<lambda>r. case r of
       Found (Some m) \<Rightarrow> purge_marker (file_spans env) f m ?next | _ \<Rightarrow> ?next)) s"
  proof (rule runs_safely_act)
    fix r t assume "perform no_faults (content env) (GetMarker f) s r t"
    then have rt: "r = Found (v_marker (s f))" "t = s" by (cases rule: getE, simp)+
    have safe: "\<forall>f\<in>F. crash_safe env f (s f)" using Cons.prems by (simp add: settled_def)
    show "(\<forall>f\<in>F. crash_safe env f (t f)) \<and> runs_safely env F (case r of
       Found (Some m) \<Rightarrow> purge_marker (file_spans env) f m ?next | _ \<Rightarrow> ?next) t"
    proof (cases "v_marker (s f)")
      case None
      with safe Cons.prems have "reset_file f s = s" by (intro reset_id) auto
      then show ?thesis using next_safe safe None by (simp add: rt)
    next
      case (Some m)
      then show ?thesis using safe_purge_marker [OF _ _ Some next_safe] Cons.prems safe by (simp add: rt)
    qed
  qed (use Cons.prems in simp_all)
  then show ?case by (simp del: runs_safely.simps)
qed simp

section \<open>Markers, moves and records\<close>

lemma on_files_Cons:
  "(\<And>v. g f (g f v) = g f v) \<Longrightarrow> on_files fs g (on_files [f] g s) = on_files (f # fs) g s"
  by (auto simp: on_files_def fun_eq_iff)

lemma on_files_on_files: "on_files fs h (on_files fs g s) = on_files fs (\<lambda>f v. h f (g f v)) s"
  by (auto simp: on_files_def fun_eq_iff)

abbreviation mark_files :: "(string \<Rightarrow> marker) \<Rightarrow> string list \<Rightarrow> store \<Rightarrow> store" where
  "mark_files mk fs s \<equiv> on_files fs (\<lambda>f v. v\<lparr>v_marker := Some (mk f)\<rparr>) s"

lemma safe_write_markers:
  assumes "set fs \<subseteq> F" "settled env F s" "\<forall>f \<in> set fs. \<not> v_recorded (s f) \<and> v_rows (s f) = []"
    "runs_safely env F next_prog (mark_files mk fs s)"
  shows "runs_safely env F (write_markers fs mk next_prog) s"
  using assms
proof (induction fs arbitrary: s)
  case (Cons f fs)
  have st: "settled env F (mark_files mk [f] s)"
    using Cons.prems by (intro settled_on_files) (auto simp: settled_def crash_safe_def)
  have "runs_safely env F (Act (WriteMarker f (mk f)) (\<lambda>r. if r = Acked then write_markers fs mk next_prog else Finish Raised)) s"
  proof (rule runs_safely_act)
    fix r t assume "perform no_faults (content env) (WriteMarker f (mk f)) s r t"
    then show "(\<forall>f\<in>F. crash_safe env f (t f)) \<and>
        runs_safely env F (if r = Acked then write_markers fs mk next_prog else Finish Raised) t"
    proof (cases rule: writeE)
      case written
      then have t: "t = mark_files mk [f] s" by (auto simp: on_files_def fun_eq_iff)
      have "runs_safely env F (write_markers fs mk next_prog) t"
        unfolding t
      proof (rule Cons.IH)
        show "\<forall>g \<in> set fs. \<not> v_recorded (mark_files mk [f] s g) \<and> v_rows (mark_files mk [f] s g) = []"
          using Cons.prems(3) by (simp add: on_files_apply)
        show "runs_safely env F next_prog (mark_files mk fs (mark_files mk [f] s))"
          using Cons.prems(4) by (simp add: on_files_Cons)
      qed (use Cons.prems st in auto)
      then show ?thesis using st written by (simp add: t settled_def)
    next
      case fails
      then show ?thesis using Cons.prems by (simp add: settled_def)
    qed
  qed (use Cons.prems in simp_all)
  then show ?case by (simp del: runs_safely.simps)
qed simp

lemma safe_unlink_all:
  "set fs \<subseteq> F \<Longrightarrow> settled env F s \<Longrightarrow> \<forall>f \<in> set fs. v_rows (s f) = [] \<Longrightarrow>
     runs_safely env F (unlink_all fs (Finish Raised)) s"
proof (induction fs arbitrary: s)
  case (Cons f fs)
  have "settled env F (unmarked f s)"
    using Cons.prems by (intro unmarked_settled) auto
  moreover have "\<forall>g \<in> set fs. v_rows (unmarked f s g) = []"
    using Cons.prems(3) by (simp add: on_files_apply)
  ultimately have "runs_safely env F (unlink_all fs (Finish Raised)) (unmarked f s)"
    using Cons.prems(1) by (intro Cons.IH) simp_all
  with Cons.prems show ?case by (simp add: unlink_all_def safe_unlink del: runs_safely.simps)
qed (simp add: unlink_all_def)

text \<open>While a move runs: every row of its files lies in the partitions the markers name.\<close>

definition moving :: "worker_env \<Rightarrow> string set \<Rightarrow> string list \<Rightarrow> (string \<times> int) list \<Rightarrow> store \<Rightarrow> bool" where
  "moving env F fs ps s \<longleftrightarrow> set fs \<subseteq> F \<and>
     (\<forall>f \<in> F - set fs. crash_safe env f (s f) \<and> v_running (s f) = []) \<and>
     (\<forall>f \<in> set fs. \<not> v_recorded (s f) \<and> (\<exists>m. v_marker (s f) = Some m \<and> m_partitions m = Some ps) \<and>
        (\<forall>r \<in> set (v_rows (s f) @ v_running (s f)). (sr_day r, sr_bucket r) \<in> set ps))"

lemma in_partitions: "(sr_day r, sr_bucket r) \<in> set ps \<Longrightarrow> in_bounds (Partitions ps) r"
  by (force simp: in_bounds_def)

lemma moving_safe:
  assumes "moving env F fs ps s" "f \<in> F"
  shows "crash_safe env f (s f)"
proof (cases "f \<in> set fs")
  case True
  then obtain m where m: "v_marker (s f) = Some m" "m_partitions m = Some ps"
    using assms by (auto simp: moving_def)
  then have "marker_bounds (file_spans env f) m = Partitions ps"
    by (auto simp: marker_bounds_def purge_bounds_def split: prod.splits)
  moreover have "\<not> v_recorded (s f)" "\<forall>r \<in> set (v_rows (s f) @ v_running (s f)). (sr_day r, sr_bucket r) \<in> set ps"
    using assms True by (auto simp: moving_def)
  ultimately show ?thesis using m by (auto simp: crash_safe_def intro: in_partitions)
qed (use assms in \<open>simp add: moving_def\<close>)

lemma moving_settled: "moving env F fs ps s \<Longrightarrow> (\<forall>f \<in> set fs. v_running (s f) = []) \<Longrightarrow> settled env F s"
  using moving_safe by (fastforce simp: settled_def moving_def)

lemma moving_on_files:
  assumes "moving env F fs ps s"
    "\<And>f v. v_recorded (g f v) = v_recorded v \<and> v_marker (g f v) = v_marker v"
    "\<And>f r. f \<in> set fs \<Longrightarrow> r \<in> set (v_rows (g f (s f)) @ v_running (g f (s f))) \<Longrightarrow> (sr_day r, sr_bucket r) \<in> set ps"
  shows "moving env F fs ps (on_files fs g s)"
  using assms unfolding moving_def on_files_apply by auto

lemma set_part: "mset a + mset b \<subseteq># mset c \<Longrightarrow> r \<in> set a \<or> r \<in> set b \<Longrightarrow> r \<in> set c"
  by (metis Un_iff mset_append mset_subset_eqD set_append set_mset_mset)

lemma bucket_rows_iff: "r \<in> set (bucket_rows cont b f) \<longleftrightarrow> r \<in> set (cont f) \<and> sr_bucket r = b"
  by (auto simp: bucket_rows_def)

text \<open>A failed \<open>INSERT\<close>: the query is stopped, the attempted partitions are purged, the markers go.\<close>

lemma safe_failed_insert:
  assumes mv: "moving env F fs ps s"
    and low: "\<forall>f \<in> set fs. \<forall>r \<in> set (v_rows (s f) @ v_running (s f)). sr_bucket r \<le> b"
  shows "runs_safely env F (Act (KillQuery fs) (\<lambda>_.
       purge_file_rows fs (Partitions (filter (\<lambda>p. snd p \<le> b) ps)) False (unlink_all fs (Finish Raised)))) s"
proof -
  let ?purge = "purge_file_rows fs (Partitions (filter (\<lambda>p. snd p \<le> b) ps)) False (unlink_all fs (Finish Raised))"
  have sub: "set fs \<subseteq> F" using mv by (simp add: moving_def)
  have "(\<forall>f\<in>F. crash_safe env f (t f)) \<and> runs_safely env F ?purge t"
    if "perform no_faults (content env) (KillQuery fs) s r t" for r t
    using that
  proof (cases rule: killE)
    case (killed landed)
    have land: "x \<in> set (landed f) \<Longrightarrow> f \<in> set fs \<Longrightarrow> x \<in> set (v_running (s f))" for f x
      using mset_subset_eqD killed(3) by fastforce
    have t: "moving env F fs ps t"
      unfolding killed(2)
    proof (rule moving_on_files [OF mv])
      fix f x assume "f \<in> set fs"
        "x \<in> set (v_rows ((s f)\<lparr>v_rows := v_rows (s f) @ landed f, v_running := []\<rparr>) @
            v_running ((s f)\<lparr>v_rows := v_rows (s f) @ landed f, v_running := []\<rparr>))"
      then show "(sr_day x, sr_bucket x) \<in> set ps" using mv land by (auto simp: moving_def)
    qed simp
    have run: "\<forall>f \<in> set fs. v_running (t f) = []"
      by (simp add: killed(2) on_files_apply)
    have st: "settled env F t" using moving_settled [OF t run] .
    have rows: "sr_bucket x \<le> b \<and> (sr_day x, sr_bucket x) \<in> set ps" if "f \<in> set fs" "x \<in> set (v_rows (t f))" for f x
    proof
      have "x \<in> set (v_rows (s f) @ v_running (s f))"
        using that land by (auto simp: killed(2) on_files_apply)
      then show "sr_bucket x \<le> b" using low that by auto
      show "(sr_day x, sr_bucket x) \<in> set ps" using t that by (auto simp: moving_def)
    qed
    have p: "purgeable env F fs (Partitions (filter (\<lambda>p. snd p \<le> b) ps)) t"
      unfolding purgeable_def
    proof (intro conjI ballI)
      fix f x assume "f \<in> set fs" "x \<in> set (v_rows (t f))"
      from rows [OF this] show "in_bounds (Partitions (filter (\<lambda>p. snd p \<le> b) ps)) x"
        by (intro in_partitions) simp
    qed (use st sub t in \<open>auto simp: moving_def\<close>)
    have "settled env F (cleared fs t)"
      using st t by (intro settled_fewer [where h = "\<lambda>_ _. []"]) (auto simp: moving_def)
    then have "runs_safely env F ?purge t"
      using sub by (intro safe_purge [OF p] safe_unlink_all) (simp_all add: on_files_apply)
    then show ?thesis using moving_safe [OF t] by blast
  next
    case refused
    then show ?thesis by simp
  qed
  moreover have "f \<in> set fs" if "f \<in> F" "v_running (s f) \<noteq> []" for f
    using mv that by (auto simp: moving_def)
  ultimately show ?thesis using sub by auto
qed

abbreviation moved :: "worker_env \<Rightarrow> string list \<Rightarrow> int list \<Rightarrow> store \<Rightarrow> store" where
  "moved env fs bs s \<equiv>
     on_files fs (\<lambda>f v. v\<lparr>v_rows := v_rows v @ concat (map (\<lambda>b. bucket_rows (content env) b f) bs)\<rparr>) s"

lemma moved_Cons: "moved env fs bs (moved env fs [b] s) = moved env fs (b # bs) s"
  by (simp add: on_files_on_files)

lemma safe_move:
  assumes "moving env F fs ps s" "\<forall>f \<in> set fs. v_running (s f) = []"
    "\<forall>f \<in> set fs. \<forall>r \<in> set (v_rows (s f)). \<forall>b \<in> set bs. sr_bucket r \<le> b"
    "\<forall>f \<in> set fs. \<forall>r \<in> set (content env f). (sr_day r, sr_bucket r) \<in> set ps" "sorted bs"
    "runs_safely env F next_prog (moved env fs bs s)"
  shows "runs_safely env F (move fs ps bs next_prog) s"
  using assms
proof (induction bs arbitrary: s)
  case Nil
  then show ?case by (simp add: on_files_def)
next
  case (Cons b bs)
  note mv = Cons.prems(1) and quiet = Cons.prems(2) and low = Cons.prems(3) and parts = Cons.prems(4)
  have "runs_safely env F (Act (InsertBucket fs b) (\<lambda>r. if r = Acked then move fs ps bs next_prog
     else Act (KillQuery fs) (\<lambda>_. purge_file_rows fs (Partitions (filter (\<lambda>p. snd p \<le> b) ps)) False
       (unlink_all fs (Finish Raised))))) s"
  proof (rule runs_safely_act)
    fix r t assume "perform no_faults (content env) (InsertBucket fs b) s r t"
    then show "(\<forall>f\<in>F. crash_safe env f (t f)) \<and> runs_safely env F (if r = Acked then move fs ps bs next_prog
     else Act (KillQuery fs) (\<lambda>_. purge_file_rows fs (Partitions (filter (\<lambda>p. snd p \<le> b) ps)) False
       (unlink_all fs (Finish Raised)))) t"
    proof (cases rule: insertE)
      case inserted
      then have t: "t = moved env fs [b] s" by simp
      have mvt: "moving env F fs ps t"
        unfolding t using mv parts quiet
        by (intro moving_on_files) (auto simp: moving_def bucket_rows_iff)
      have runs: "runs_safely env F (move fs ps bs next_prog) t"
      proof (rule Cons.IH [OF mvt])
        show "\<forall>f \<in> set fs. v_running (t f) = []" using quiet by (simp add: t on_files_apply)
        show "\<forall>f \<in> set fs. \<forall>r \<in> set (v_rows (t f)). \<forall>b \<in> set bs. sr_bucket r \<le> b"
          using low Cons.prems(5) by (auto simp: t on_files_apply bucket_rows_iff)
        show "runs_safely env F next_prog (moved env fs bs t)"
          using Cons.prems(6) by (simp only: t moved_Cons)
      qed (use Cons.prems(5) parts in auto)
      then show ?thesis using moving_safe [OF mvt] inserted by simp
    next
      case (fails part late)
      have part: "x \<in> set (bucket_rows (content env) b f)" if "x \<in> set (part f) \<or> x \<in> set (late f)" "f \<in> set fs" for f x
        using set_part [OF fails(3)] that by blast
      have mvt: "moving env F fs ps t"
        unfolding fails(2)
      proof (rule moving_on_files [OF mv])
        fix f x assume "f \<in> set fs" "x \<in> set (v_rows ((s f)\<lparr>v_rows := v_rows (s f) @ part f, v_running := v_running (s f) @ late f\<rparr>)
            @ v_running ((s f)\<lparr>v_rows := v_rows (s f) @ part f, v_running := v_running (s f) @ late f\<rparr>))"
        then show "(sr_day x, sr_bucket x) \<in> set ps"
          using mv part parts by (auto simp: moving_def bucket_rows_iff)
      qed simp
      have "sr_bucket x \<le> b" if "f \<in> set fs" "x \<in> set (v_rows (t f) @ v_running (t f))" for f x
      proof -
        have "x \<in> set (v_rows (s f)) \<or> x \<in> set (part f) \<or> x \<in> set (late f)"
          using that quiet by (auto simp: fails(2) on_files_apply)
        then show ?thesis using low part that by (auto simp: bucket_rows_iff)
      qed
      then have "runs_safely env F (Act (KillQuery fs) (\<lambda>_. purge_file_rows fs
          (Partitions (filter (\<lambda>p. snd p \<le> b) ps)) False (unlink_all fs (Finish Raised)))) t"
        by (intro safe_failed_insert [OF mvt]) blast
      then show ?thesis using moving_safe [OF mvt] fails(1) by (simp del: runs_safely.simps)
    qed
  qed (use mv quiet moving_settled in \<open>auto simp: moving_def\<close>)
  then show ?case by (simp del: runs_safely.simps)
qed

lemma crash_safe_tokens:
  "crash_safe env f v \<Longrightarrow> set (v_tokens v) \<subseteq> set ts \<Longrightarrow> crash_safe env f (v\<lparr>v_tokens := ts\<rparr>)"
  by (cases "v_recorded v"; cases "v_marker v") (simp_all add: crash_safe_def subset_trans [of _ "set (v_tokens v)" "set ts"])

abbreviation with_tokens :: "string \<Rightarrow> string list \<Rightarrow> store \<Rightarrow> store" where
  "with_tokens f ks s \<equiv> on_files [f] (\<lambda>_ v. v\<lparr>v_tokens := fold List.insert ks (v_tokens v)\<rparr>) s"

lemma with_tokens_Cons: "with_tokens f ks (with_tokens f [k] s) = with_tokens f (k # ks) s"
  by (simp add: on_files_on_files)

lemma safe_aggregate:
  assumes "f \<in> F" "settled env F s" "runs_safely env F next_prog (with_tokens f ks s)"
  shows "runs_safely env F (aggregate f ks next_prog) s"
  using assms
proof (induction ks arbitrary: s)
  case Nil
  then show ?case by (simp add: on_files_def)
next
  case (Cons k ks)
  have grow: "settled env F (on_files [f] (\<lambda>_ v. v\<lparr>v_tokens := h v\<rparr>) s)" if "set (v_tokens (s f)) \<subseteq> set (h (s f))" for h
    using that Cons.prems(1,2) by (intro settled_on_files conjI crash_safe_tokens) (auto simp: settled_def)
  have "runs_safely env F (Act (Aggregate f k) (\<lambda>r. if r = Acked then aggregate f ks next_prog else Finish Raised)) s"
  proof (rule runs_safely_act)
    fix r t assume "perform no_faults (content env) (Aggregate f k) s r t"
    then show "(\<forall>f\<in>F. crash_safe env f (t f)) \<and>
        runs_safely env F (if r = Acked then aggregate f ks next_prog else Finish Raised) t"
    proof (cases rule: aggregateE)
      case aggregated
      then have t: "t = with_tokens f [k] s" by simp
      have st: "settled env F t" unfolding t by (rule grow) auto
      have "runs_safely env F (aggregate f ks next_prog) t"
        using Cons.prems(1,3) st unfolding t by (intro Cons.IH) (simp_all only: with_tokens_Cons)
      then show ?thesis using st aggregated(1) by (simp add: settled_def)
    next
      case (fails x)
      have "settled env F t" unfolding fails(2) by (rule grow) auto
      then show ?thesis using fails(1) by (simp add: settled_def)
    qed
  qed (use Cons.prems in simp_all)
  then show ?case by (simp del: runs_safely.simps)
qed

abbreviation entered :: "string \<Rightarrow> store \<Rightarrow> store" where
  "entered f s \<equiv> on_files [f] (\<lambda>_ v. v\<lparr>v_recorded := True\<rparr>) s"

definition loaded :: "worker_env \<Rightarrow> string \<Rightarrow> file_view \<Rightarrow> bool" where
  "loaded env f v \<longleftrightarrow> \<not> v_recorded v \<and> mset (v_rows v) = mset (content env f)"

lemma entered_settled:
  assumes "settled env F s" "f \<in> F" "loaded env f (s f)" "set AGG_KINDS \<subseteq> set (v_tokens (s f))"
  shows "settled env F (entered f s)"
proof (rule settled_on_files [OF assms(1)])
  fix g assume "g \<in> F" "g \<in> set [f]"
  then have "g = f" by simp
  then show "crash_safe env g ((s g)\<lparr>v_recorded := True\<rparr>) \<and> v_running ((s g)\<lparr>v_recorded := True\<rparr>) = []"
    using assms by (simp add: settled_def crash_safe_def loaded_def)
qed

lemma safe_record:
  assumes "f \<in> F" "settled env F s" "loaded env f (s f)" "set AGG_KINDS \<subseteq> set (v_tokens (s f))"
    "runs_safely env F next_prog (unmarked f (entered f s))"
  shows "runs_safely env F (Act (RecordFile f) (\<lambda>r. if r = Acked then Act (Unlink f) (\<lambda>_. next_prog) else Finish Raised)) s"
proof (rule runs_safely_act)
  fix r t assume "perform no_faults (content env) (RecordFile f) s r t"
  then show "(\<forall>f\<in>F. crash_safe env f (t f)) \<and>
      runs_safely env F (if r = Acked then Act (Unlink f) (\<lambda>_. next_prog) else Finish Raised) t"
  proof (cases rule: recordE)
    case recorded
    then have t: "t = entered f s" by simp
    have st: "settled env F t"
      unfolding t using assms by (intro entered_settled)
    have "runs_safely env F (Act (Unlink f) (\<lambda>_. next_prog)) t"
      using assms st by (intro safe_unlink) (simp_all add: t on_files_apply)
    then show ?thesis using st recorded(1) by (simp add: settled_def del: runs_safely.simps)
  next
    case fails
    then show ?thesis using assms by (simp add: settled_def)
  next
    case late
    then show ?thesis by simp
  qed
qed (use assms in simp_all)

lemma safe_record_files:
  assumes "set fs \<subseteq> F" "distinct fs" "settled env F s" "\<forall>f \<in> set fs. loaded env f (s f)" "\<forall>f \<in> F - set fs. v_recorded (s f)"
  shows "runs_safely env F (record_files fs) s"
  using assms
proof (induction fs arbitrary: s)
  case (Cons f fs)
  let ?s1 = "with_tokens f AGG_KINDS s"
  let ?s2 = "unmarked f (entered f ?s1)"
  have st1: "settled env F ?s1"
    using Cons.prems(1,3) by (intro settled_on_files conjI crash_safe_tokens) (auto simp: settled_def AGG_KINDS_def)
  have tok: "set AGG_KINDS \<subseteq> set (v_tokens (?s1 f))" by (auto simp: on_files_apply AGG_KINDS_def)
  have l1: "loaded env f (?s1 f)" using Cons.prems(4) by (simp add: on_files_apply loaded_def)
  have "settled env F (entered f ?s1)"
    using st1 tok l1 Cons.prems(1) by (intro entered_settled) auto
  then have st2: "settled env F ?s2"
    by (intro unmarked_settled) (simp_all add: on_files_apply)
  have other: "?s2 g = s g" if "g \<noteq> f" for g using that by (simp add: on_files_apply)
  have "runs_safely env F (record_files fs) ?s2"
  proof (rule Cons.IH)
    show "\<forall>g \<in> set fs. loaded env g (?s2 g)"
    proof
      fix g assume "g \<in> set fs"
      with Cons.prems(2,4) have "g \<noteq> f" "loaded env g (s g)" by auto
      then show "loaded env g (?s2 g)" using other by simp
    qed
    show "\<forall>g \<in> F - set fs. v_recorded (?s2 g)"
    proof
      fix g assume g: "g \<in> F - set fs"
      show "v_recorded (?s2 g)"
      proof (cases "g = f")
        case True
        then show ?thesis by (simp add: on_files_apply)
      next
        case False
        with g Cons.prems(5) have "v_recorded (s g)" by auto
        then show ?thesis using other [OF False] by simp
      qed
    qed
  qed (use Cons.prems st2 in auto)
  from safe_record [OF _ st1 l1 tok this]
  have "runs_safely env F (Act (RecordFile f) (\<lambda>r. if r = Acked then Act (Unlink f) (\<lambda>_. record_files fs) else Finish Raised)) ?s1"
    using Cons.prems(1) by simp
  from safe_aggregate [OF _ Cons.prems(3) this] show ?case using Cons.prems(1) by simp
qed simp

section \<open>The whole commit\<close>

lemma buffer_partitions_iff:
  "(d, b) \<in> set (buffer_partitions cont fs) \<longleftrightarrow> (\<exists>f \<in> set fs. \<exists>r \<in> set (cont f). sr_day r = d \<and> sr_bucket r = b)"
  by (auto simp: buffer_partitions_def)

lemma mset_by_bucket:
  assumes "distinct bs" "\<forall>r \<in> set rs. sr_bucket r \<in> set bs"
  shows "mset (concat (map (\<lambda>b. filter (\<lambda>r. sr_bucket r = b) rs) bs)) = mset rs"
  using assms
proof (induction bs arbitrary: rs)
  case (Cons b bs)
  let ?rest = "filter (\<lambda>r. sr_bucket r \<noteq> b) rs"
  have "filter (\<lambda>r. sr_bucket r = c) rs = filter (\<lambda>r. sr_bucket r = c) ?rest" if "c \<in> set bs" for c
  proof -
    have "c \<noteq> b" using that Cons.prems(1) by auto
    then show ?thesis unfolding filter_filter by (intro filter_cong) auto
  qed
  then have "map (\<lambda>c. filter (\<lambda>r. sr_bucket r = c) rs) bs = map (\<lambda>c. filter (\<lambda>r. sr_bucket r = c) ?rest) bs"
    by (intro map_cong) auto
  moreover have "mset (concat (map (\<lambda>c. filter (\<lambda>r. sr_bucket r = c) ?rest) bs)) = mset ?rest"
    using Cons.prems by (intro Cons.IH) auto
  ultimately have "mset (concat (map (\<lambda>c. filter (\<lambda>r. sr_bucket r = c) rs) (b # bs)))
      = mset (filter (\<lambda>r. sr_bucket r = b) rs) + mset ?rest" by (simp only: list.map concat.simps mset_append)
  also have "\<dots> = mset rs" using multiset_partition [of "mset rs" "\<lambda>r. sr_bucket r = b"] by (simp add: mset_filter)
  finally show ?case .
qed simp

lemma reset_file_same: "reset_file f s f = (s f)\<lparr>v_rows := if v_recorded (s f) then v_rows (s f) else [], v_marker := None\<rparr>"
  by (simp add: reset_file_def)

lemma reset_files: "distinct fs \<Longrightarrow> foldl (\<lambda>s f. reset_file f s) s fs f = (if f \<in> set fs then reset_file f s f else s f)"
proof (induction fs arbitrary: s)
  case (Cons g fs)
  then show ?case by (auto simp: reset_file_def)
qed simp

lemma reset_files_settled: "settled env F s \<Longrightarrow> settled env F (foldl (\<lambda>s f. reset_file f s) s fs)"
  by (induction fs arbitrary: s) (simp_all add: reset_settled)

theorem commit_batch_safe:
  assumes "distinct fs" "settled env (set fs) s" "\<forall>f \<in> set fs. \<not> v_recorded (s f)"
  shows "runs_safely env (set fs) (commit_batch env fs) s"
proof -
  let ?F = "set fs"
  let ?ps = "buffer_partitions (content env) fs"
  let ?bs = "present_buckets ?ps"
  let ?s1 = "foldl (\<lambda>s f. reset_file f s) s fs"
  let ?s2 = "mark_files (new_marker env ?ps) fs ?s1"
  let ?s3 = "moved env fs ?bs ?s2"
  have st1: "settled env ?F ?s1" by (rule reset_files_settled [OF assms(2)])
  have clean: "\<not> v_recorded (?s1 f) \<and> v_rows (?s1 f) = []" if "f \<in> ?F" for f
    using assms(3) that by (simp add: reset_files [OF assms(1)] reset_file_same)
  have quiet: "v_running (?s1 f) = []" if "f \<in> ?F" for f using st1 that by (simp add: settled_def)
  have mv: "moving env ?F fs ?ps ?s2"
    using clean quiet by (auto simp: moving_def on_files_apply new_marker_def)
  have parts: "\<forall>f \<in> ?F. \<forall>r \<in> set (content env f). (sr_day r, sr_bucket r) \<in> set ?ps"
    by (auto simp: buffer_partitions_iff)
  have rows3: "v_rows (?s3 f) = concat (map (\<lambda>b. bucket_rows (content env) b f) ?bs)" if "f \<in> ?F" for f
    using that clean by (simp add: on_files_apply)
  have mv3: "moving env ?F fs ?ps ?s3"
  proof (rule moving_on_files [OF mv])
    fix f r assume "f \<in> ?F"
    then show "r \<in> set (v_rows ((?s2 f)\<lparr>v_rows := v_rows (?s2 f) @ concat (map (\<lambda>b. bucket_rows (content env) b f) ?bs)\<rparr>) @
       v_running ((?s2 f)\<lparr>v_rows := v_rows (?s2 f) @ concat (map (\<lambda>b. bucket_rows (content env) b f) ?bs)\<rparr>)) \<Longrightarrow>
      (sr_day r, sr_bucket r) \<in> set ?ps"
      using clean quiet parts by (auto simp: on_files_apply bucket_rows_iff)
  qed simp
  have "loaded env f (?s3 f)" if "f \<in> ?F" for f
  proof -
    have "mset (v_rows (?s3 f)) = mset (content env f)"
      unfolding rows3 [OF that]
    proof (simp only: bucket_rows_def, rule mset_by_bucket)
      show "distinct ?bs" by (simp add: present_buckets_def)
      show "\<forall>r \<in> set (content env f). sr_bucket r \<in> set ?bs"
        using parts that by (force simp: present_buckets_def)
    qed
    then show ?thesis using mv3 that by (simp add: loaded_def moving_def)
  qed
  then have rec: "runs_safely env ?F (record_files fs) ?s3"
    using assms(1) quiet by (intro safe_record_files moving_settled [OF mv3]) (auto simp: on_files_apply)
  have mov: "runs_safely env ?F (move fs ?ps ?bs (record_files fs)) ?s2"
  proof (rule safe_move [OF mv _ _ parts _ rec])
    show "\<forall>f \<in> ?F. v_running (?s2 f) = []" using quiet by (simp add: on_files_apply)
    show "\<forall>f \<in> ?F. \<forall>r \<in> set (v_rows (?s2 f)). \<forall>b \<in> set ?bs. sr_bucket r \<le> b" using clean by (simp add: on_files_apply)
    show "sorted ?bs" by (simp add: present_buckets_def)
  qed
  have wr: "runs_safely env ?F (write_markers fs (new_marker env ?ps) (move fs ?ps ?bs (record_files fs))) ?s1"
    using clean by (intro safe_write_markers [OF _ st1 _ mov]) auto
  have slot: "runs_safely env ?F (Act TakeMoveSlot (\<lambda>r. if r \<noteq> Acked then Finish Raised
       else write_markers fs (new_marker env ?ps) (move fs ?ps ?bs (record_files fs)))) ?s1"
  proof (rule runs_safely_act)
    fix r t assume "perform no_faults (content env) TakeMoveSlot ?s1 r t"
    then have "t = ?s1" by (cases rule: slotE)
    then show "(\<forall>f\<in>?F. crash_safe env f (t f)) \<and> runs_safely env ?F (if r \<noteq> Acked then Finish Raised
       else write_markers fs (new_marker env ?ps) (move fs ?ps ?bs (record_files fs))) t"
      using wr st1 by (simp add: settled_def)
  qed (use st1 in simp_all)
  have "runs_safely env ?F (Act ReadPartitions (\<lambda>r. if r \<noteq> Acked then Finish Raised
      else Act TakeMoveSlot (\<lambda>r. if r \<noteq> Acked then Finish Raised
       else write_markers fs (new_marker env ?ps) (move fs ?ps ?bs (record_files fs))))) ?s1"
  proof (rule runs_safely_act)
    fix r t assume "perform no_faults (content env) ReadPartitions ?s1 r t"
    then have "t = ?s1" by (cases rule: partitionsE)
    then show "(\<forall>f\<in>?F. crash_safe env f (t f)) \<and> runs_safely env ?F (if r \<noteq> Acked then Finish Raised
      else Act TakeMoveSlot (\<lambda>r. if r \<noteq> Acked then Finish Raised
       else write_markers fs (new_marker env ?ps) (move fs ?ps ?bs (record_files fs)))) t"
      using slot st1 by (simp add: settled_def del: runs_safely.simps(2))
  qed (use st1 in simp_all)
  then show ?thesis
    unfolding commit_batch_def Let_def by (intro safe_purge_markers) (use assms in auto)
qed

section \<open>Lanes do not disturb each other\<close>

lemma perform_agree:
  assumes "perform fl cont a t r t'" "act_files a \<subseteq> F" "\<forall>f \<in> F. t f = s f"
  shows "\<exists>s'. perform fl cont a s r s' \<and> (\<forall>f \<in> F. t' f = s' f)"
  using assms
proof (induction rule: perform.induct)
  case (get f s)
  then show ?case by (auto intro: perform.get)
next
  case (recorded f s)
  then show ?case by (auto intro: perform.recorded)
next
  case (counted fs b t)
  then have "(\<forall>f\<in>set fs. \<forall>r\<in>set (v_rows (t f)). \<not> in_bounds b r) = (\<forall>f\<in>set fs. \<forall>r\<in>set (v_rows (s f)). \<not> in_bounds b r)"
    by (metis act_files.simps(5) subsetD)
  then show ?case using counted perform.counted [of fl cont fs b s] by auto
next
  case (delete_fails t keep b fs)
  let ?keep = "\<lambda>f r. if f \<in> set fs then keep f r else True"
  have "perform fl cont (DeleteRows fs b) s Refused (on_files fs (\<lambda>f v. v\<lparr>v_rows := filter (?keep f) (v_rows v)\<rparr>) s)"
    using delete_fails by (intro perform.delete_fails) (metis act_files.simps(6) subsetD)
  then show ?case by (intro exI conjI, assumption) (use delete_fails in \<open>auto simp: on_files_apply\<close>)
next
  case (killed fs landed t)
  then have "perform fl cont (KillQuery fs) s Acked (on_files fs (\<lambda>f v. v\<lparr>v_rows := v_rows v @ landed f, v_running := []\<rparr>) s)"
    by (intro perform.killed) (simp, metis subsetD)
  then show ?case by (intro exI conjI, assumption) (use killed in \<open>auto simp: on_files_apply\<close>)
next
  case (insert_fails fs part late b t)
  from insert_fails(1) have "perform fl cont (InsertBucket fs b) s Refused
      (on_files fs (\<lambda>f v. v\<lparr>v_rows := v_rows v @ part f, v_running := v_running v @ late f\<rparr>) s)"
    by (rule perform.insert_fails)
  then show ?case by (intro exI conjI, assumption) (use insert_fails in \<open>auto simp: on_files_apply\<close>)
next
  case (deleted fs b t)
  show ?case by (intro exI conjI, rule perform.deleted) (use deleted in \<open>simp add: on_files_apply\<close>)
next
  case (inserted fs b t)
  show ?case by (intro exI conjI, rule perform.inserted) (use inserted in \<open>simp add: on_files_apply\<close>)
next
  case (unlinked f t)
  show ?case by (intro exI conjI, rule perform.unlinked) (use unlinked in \<open>simp add: on_files_apply\<close>)
next
  case (written f m t)
  show ?case by (intro exI conjI, rule perform.written) (use written in \<open>simp add: on_files_apply\<close>)
next
  case (aggregated f k t)
  show ?case by (intro exI conjI, rule perform.aggregated) (use aggregated in \<open>simp add: on_files_apply\<close>)
next
  case (aggregate_fails ts k f t)
  show ?case by (intro exI conjI, rule perform.aggregate_fails, rule aggregate_fails) (use aggregate_fails in \<open>simp add: on_files_apply\<close>)
next
  case (recorded_ok f t)
  show ?case by (intro exI conjI, rule perform.recorded_ok) (use recorded_ok in \<open>simp add: on_files_apply\<close>)
next
  case (record_late f t)
  show ?case by (intro exI conjI, rule perform.record_late, rule record_late) (use record_late in \<open>simp add: on_files_apply\<close>)
qed (auto intro: perform.intros)

lemma runs_safely_agree:
  "runs_safely env F p s \<Longrightarrow> \<forall>f \<in> F. t f = s f \<Longrightarrow> runs_safely env F p t"
proof (induction p arbitrary: s t)
  case (Finish res)
  then show ?case by (simp add: settled_def)
next
  case (Act a k)
  have "(\<forall>f \<in> F. crash_safe env f (t' f)) \<and> runs_safely env F (k r) t'"
    if p: "perform no_faults (content env) a t r t'" for r t'
  proof -
    have "act_files a \<subseteq> F" using Act.prems(1) by simp
    from perform_agree [OF p this Act.prems(2)] obtain s'
      where s': "perform no_faults (content env) a s r s'" "\<forall>f \<in> F. t' f = s' f" by blast
    then have "\<forall>f \<in> F. crash_safe env f (s' f)" "runs_safely env F (k r) s'" using Act.prems(1) by auto
    then show ?thesis using Act.IH [OF rangeI, of r s' t'] s'(2) by simp
  qed
  then show ?case using Act.prems by simp
qed

lemma lands_still: "lands s t \<Longrightarrow> v_running (s f) = [] \<Longrightarrow> t f = s f"
  by (auto simp: lands_def dest!: spec [of _ f])

lemma lands_crash_safe:
  assumes "lands s t" "crash_safe env f (s f)"
  shows "crash_safe env f (t f)"
proof -
  obtain l w where lw: "mset (l @ w) \<subseteq># mset (v_running (s f))" "t f = (s f)\<lparr>v_rows := v_rows (s f) @ l, v_running := w\<rparr>"
    using assms(1) unfolding lands_def by blast
  have "set (l @ w) \<subseteq> set (v_running (s f))" using mset_subset_eqD [OF lw(1)] by auto
  then show ?thesis using assms(2) lw(2) by (auto simp: crash_safe_def split: option.splits if_splits)
qed

lemma runs_safely_lands:
  assumes l: "lands s t" and safe: "runs_safely env F p s"
  shows "runs_safely env F p t"
proof (cases "\<forall>f \<in> F. v_running (s f) = []")
  case True
  then show ?thesis using runs_safely_agree [OF safe] lands_still [OF l] by blast
next
  case False
  then obtain g where g: "g \<in> F" "v_running (s g) \<noteq> []" by blast
  obtain fs k where p: "p = Act (KillQuery fs) k"
  proof (cases p)
    case (Finish res)
    then show thesis using safe g by (simp add: settled_def)
  next
    case (Act a k)
    then show thesis using safe g that by auto
  qed
  have sub: "set fs \<subseteq> F" and only: "\<And>f. f \<in> F \<Longrightarrow> v_running (s f) \<noteq> [] \<Longrightarrow> f \<in> set fs" using safe p by auto
  obtain l w where lw: "\<And>f. mset (l f @ w f) \<subseteq># mset (v_running (s f))"
      "\<And>f. t f = (s f)\<lparr>v_rows := v_rows (s f) @ l f, v_running := w f\<rparr>"
    using l unfolding lands_def by metis
  have "(\<forall>f \<in> F. crash_safe env f (t' f)) \<and> runs_safely env F (k r) t'"
    if "perform no_faults (content env) (KillQuery fs) t r t'" for r t'
    using that
  proof (cases rule: killE)
    case (killed landed)
    let ?s' = "on_files fs (\<lambda>f v. v\<lparr>v_rows := v_rows v @ (l f @ landed f), v_running := []\<rparr>) s"
    have "mset (l f @ landed f) \<subseteq># mset (v_running (s f))" if "f \<in> set fs" for f
    proof -
      have "mset (landed f) \<subseteq># mset (w f)" using killed(3) [OF that] by (simp add: lw(2))
      then have "mset (l f @ landed f) \<subseteq># mset (l f @ w f)" by simp
      also note lw(1)
      finally show ?thesis .
    qed
    then have "perform no_faults (content env) (KillQuery fs) s r ?s'"
      unfolding killed(1) by (rule perform.killed)
    then have "\<forall>f \<in> F. crash_safe env f (?s' f)" "runs_safely env F (k r) ?s'" using safe p by auto
    moreover have "\<forall>f \<in> F. t' f = ?s' f"
    proof
      fix f assume "f \<in> F"
      then show "t' f = ?s' f"
        using only lands_still [OF \<open>lands s t\<close>] by (cases "f \<in> set fs") (auto simp: killed(2) on_files_apply lw(2))
    qed
    ultimately show ?thesis using runs_safely_agree [of env F "k r" ?s' t'] by simp
  next
    case refused
    then show ?thesis by simp
  qed
  moreover have "f \<in> set fs" if "v_running (t f) \<noteq> []" "f \<in> F" for f
  proof (rule ccontr)
    assume "f \<notin> set fs"
    with only that have "v_running (s f) = []" by blast
    then show False using lands_still [OF \<open>lands s t\<close>, of f] that by simp
  qed
  ultimately show ?thesis using sub by (auto simp: p)
qed

section \<open>The whole worker\<close>

definition lane_files :: "worker \<Rightarrow> string set" where
  "lane_files w = set (concat (map fst (w_lanes w)))"

definition worker_ok :: "worker_env \<Rightarrow> worker \<Rightarrow> bool" where
  "worker_ok env w \<longleftrightarrow>
     (\<forall>f. crash_safe env f (w_store w f)) \<and>
     distinct (concat (map fst (w_lanes w))) \<and> lane_files w \<subseteq> claim_ids (w_claims w) \<and>
     (\<forall>(fs, p) \<in> set (w_lanes w). runs_safely env (set fs) p (w_store w)) \<and>
     (\<forall>f. v_running (w_store w f) \<noteq> [] \<longrightarrow> f \<in> lane_files w) \<and>
     recorded_files (w_store w) \<subseteq> w_known w \<union> w_loose w \<union> claim_done (w_claims w) \<union> lane_files w"

lemma fill_batch_new:
  assumes "fill_batch limit due known inst es batch c = (fs, c')"
  shows "\<exists>new. fs = batch @ new \<and> distinct new \<and> set new \<inter> (claim_ids c \<union> claim_done c) = {} \<and>
    (\<forall>f \<in> set new. \<not> known f) \<and> claim_ids c' = claim_ids c \<union> set new \<and> claim_done c \<subseteq> claim_done c'"
  using assms
proof (induction limit due known inst es batch c rule: fill_batch.induct)
  case (2 limit due known inst e es batch c)
  let ?f = "c_file e"
  consider (stop) "limit \<le> length batch"
    | (skip) "\<not> limit \<le> length batch" "\<not> c_raw e \<or> \<not> due ?f \<or> c_instance e \<noteq> inst \<or> \<not> fst (take_claim ?f c)"
    | (go) "\<not> limit \<le> length batch" "c_raw e" "due ?f" "c_instance e = inst" "fst (take_claim ?f c)" by blast
  then show ?case
  proof cases
    case stop
    then show ?thesis using "2.prems" by simp
  next
    case skip
    then show ?thesis using "2.prems" "2.IH"(1,2) by (auto split: if_splits)
  next
    case go
    then have free: "?f \<notin> claim_ids c" "?f \<notin> claim_done c" by (auto simp: take_claim_def split: if_splits)
    then have taken: "snd (take_claim ?f c) = c\<lparr>claim_ids := insert ?f (claim_ids c)\<rparr>" by (simp add: take_claim_def)
    show ?thesis
    proof (cases "known ?f")
      case True
      then have "fill_batch limit due known inst es batch (finish_claim ?f (snd (take_claim ?f c))) = (fs, c')"
        using "2.prems" go by (simp add: Let_def)
      then obtain new where new: "fs = batch @ new" "distinct new"
          "set new \<inter> (claim_ids c \<union> insert ?f (claim_done c)) = {}" "\<forall>f \<in> set new. \<not> known f"
          "claim_ids c' = claim_ids c \<union> set new" "insert ?f (claim_done c) \<subseteq> claim_done c'"
        using "2.IH"(3) [of "snd (take_claim ?f c)"] go True free
        by (auto simp: taken finish_claim_def)
      then show ?thesis by blast
    next
      case False
      then have "fill_batch limit due known inst es (batch @ [?f]) (snd (take_claim ?f c)) = (fs, c')"
        using "2.prems" go by (simp add: Let_def)
      then obtain new where new: "fs = (batch @ [?f]) @ new" "distinct new"
          "set new \<inter> (insert ?f (claim_ids c) \<union> claim_done c) = {}" "\<forall>f \<in> set new. \<not> known f"
          "claim_ids c' = insert ?f (claim_ids c) \<union> set new" "claim_done c \<subseteq> claim_done c'"
        using "2.IH"(4) [of "snd (take_claim ?f c)"] go False by (auto simp: taken)
      then show ?thesis using free False by (intro exI [of _ "?f # new"]) auto
    qed
  qed
qed simp

lemma recover_safe:
  assumes "settled env {f} s"
  shows "runs_safely env {f} (recover_marker env f) s"
  unfolding recover_marker_def
proof (rule runs_safely_act)
  fix r t assume "perform no_faults (content env) (GetMarker f) s r t"
  then have rt: "r = Found (v_marker (s f))" "t = s" by (cases rule: getE, simp)+
  have "runs_safely env {f} (purge_marker (file_spans env) f m (Finish Raised)) s" if "v_marker (s f) = Some m" for m
    using assms that reset_settled [OF assms] by (intro safe_purge_marker) simp_all
  then show "(\<forall>g\<in>{f}. crash_safe env g (t g)) \<and> runs_safely env {f} (case r of
       Found (Some m) \<Rightarrow> purge_marker (file_spans env) f m (Finish Raised) | _ \<Rightarrow> Finish Raised) t"
    using assms by (auto simp: rt settled_def split: option.splits)
qed (use assms in simp_all)

lemma end_batch_ids: "claim_ids (end_batch res fs c) = claim_ids c - set fs"
  unfolding end_batch_def by (induction fs arbitrary: c) (auto simp: finish_claim_def release_claim_def)

lemma end_batch_done: "claim_done (end_batch res fs c) = claim_done c \<union> (if res = Committed then set fs else {})"
  unfolding end_batch_def by (induction fs arbitrary: c) (auto simp: finish_claim_def release_claim_def)

lemma restarted_claims:
  "claim_done c = {} \<Longrightarrow> claim_ids (foldl (\<lambda>c f. snd (take_claim f c)) c ms) = claim_ids c \<union> set ms"
proof (induction ms arbitrary: c)
  case (Cons m ms)
  then show ?case by (cases "m \<in> claim_ids c") (auto simp: take_claim_def)
qed simp

lemma lands_recorded: "lands s t \<Longrightarrow> v_recorded (t f) = v_recorded (s f)"
  by (auto simp: lands_def dest!: spec [of _ f])

lemma lane_filesI: "(fs, p) \<in> set (w_lanes w) \<Longrightarrow> f \<in> set fs \<Longrightarrow> f \<in> lane_files w"
  by (force simp: lane_files_def)

lemma worker_step_ok:
  assumes "worker_step no_faults env w w'" "worker_ok env w"
  shows "worker_ok env w'"
  using assms
proof (induction rule: worker_step.induct)
  case (start n due w inst es fs c)
  note ok = start.prems [unfolded worker_ok_def]
  from fill_batch_new [OF start.hyps(1)] have new: "distinct fs"
      "set fs \<inter> (claim_ids (w_claims w) \<union> claim_done (w_claims w)) = {}" "\<forall>f \<in> set fs. f \<notin> w_known w"
      "claim_ids c = claim_ids (w_claims w) \<union> set fs" "claim_done (w_claims w) \<subseteq> claim_done c" by auto
  then have free: "set fs \<inter> lane_files w = {}" using ok by blast
  have "set fs \<inter> w_loose w = {}" using start.hyps(3) by simp
  then have rec: "\<forall>f \<in> set fs. \<not> v_recorded (w_store w f)"
    using ok new free unfolding recorded_files_def by blast
  have "settled env (set fs) (w_store w)" using ok free unfolding settled_def by blast
  then have safe: "runs_safely env (set fs) (commit_batch env fs) (w_store w)"
    using new(1) rec by (intro commit_batch_safe)
  have lanes: "lane_files (w\<lparr>w_lanes := (fs, commit_batch env fs) # w_lanes w, w_claims := c\<rparr>) = set fs \<union> lane_files w"
    by (simp add: lane_files_def)
  have "distinct (fs @ concat (map fst (w_lanes w)))"
    using ok new(1) free by (auto simp: lane_files_def)
  moreover have "set fs \<union> lane_files w \<subseteq> claim_ids c" using ok new(4) by blast
  ultimately show ?case
    unfolding worker_ok_def lanes using ok safe new(5) by (auto simp del: runs_safely.simps)
next
  case (act w ls fs a k ls' r s)
  note ok = act.prems [unfolded worker_ok_def]
  have lanes: "lane_files (w\<lparr>w_store := s, w_lanes := ls @ (fs, k r) # ls'\<rparr>) = lane_files w"
    by (simp add: lane_files_def act.hyps(1))
  have mine: "runs_safely env (set fs) (Act a k) (w_store w)" using ok act.hyps(1) by auto
  then have sub: "act_files a \<subseteq> set fs" and post: "\<forall>f \<in> set fs. crash_safe env f (s f)" "runs_safely env (set fs) (k r) s"
    using act.hyps(2) by auto
  have same: "s f = w_store w f" if "f \<notin> set fs" for f
    using perform_outside [OF act.hyps(2)] sub that by blast
  have fsl: "f \<in> lane_files w" if "f \<in> set fs" for f using act.hyps(1) that by (simp add: lane_files_def)
  have dist: "distinct (concat (map fst (ls @ (fs, Act a k) # ls')))" using ok act.hyps(1) by simp
  have others: "runs_safely env (set gs) p s" if "(gs, p) \<in> set ls \<union> set ls'" for gs p
  proof -
    have "set gs \<inter> set fs = {}" using dist that by fastforce
    then have "\<forall>f \<in> set gs. s f = w_store w f" using same by blast
    moreover have "(gs, p) \<in> set (w_lanes w)" using act.hyps(1) that by auto
    then have "runs_safely env (set gs) p (w_store w)" using ok by blast
    ultimately show ?thesis by (intro runs_safely_agree [of env "set gs" p "w_store w" s])
  qed
  have "crash_safe env f (s f)" for f using post(1) same ok by (cases "f \<in> set fs") auto
  moreover have "f \<in> lane_files w" if "v_running (s f) \<noteq> []" for f
    using that fsl same ok by (cases "f \<in> set fs") auto
  moreover have "recorded_files s \<subseteq> w_known w \<union> w_loose w \<union> claim_done (w_claims w) \<union> lane_files w"
  proof
    fix f assume "f \<in> recorded_files s"
    then show "f \<in> w_known w \<union> w_loose w \<union> claim_done (w_claims w) \<union> lane_files w"
      using fsl same ok unfolding recorded_files_def by (cases "f \<in> set fs") auto
  qed
  ultimately show ?case
    unfolding worker_ok_def lanes using ok dist others post(2) by auto
next
  case (end_lane w ls fs res ls')
  note ok = end_lane.prems [unfolded worker_ok_def]
  have fin: "runs_safely env (set fs) (Finish res) (w_store w)" using ok end_lane.hyps(1) by auto
  let ?w = "w\<lparr>w_lanes := ls @ ls', w_claims := end_batch res fs (w_claims w),
      w_known := w_known w \<union> (if res = Committed then set fs else {}),
      w_loose := w_loose w \<union> (if res = Committed then {} else recorded_files (w_store w) \<inter> set fs)\<rparr>"
  have dist: "distinct (concat (map fst (ls @ (fs, Finish res) # ls')))" using ok end_lane.hyps(1) by simp
  have lanes: "lane_files w = lane_files ?w \<union> set fs" "lane_files ?w \<inter> set fs = {}"
    using dist by (auto simp: lane_files_def end_lane.hyps(1))
  have "lane_files ?w \<subseteq> claim_ids (w_claims ?w)" using ok lanes by (auto simp: end_batch_ids)
  moreover have "f \<in> lane_files ?w" if "v_running (w_store ?w f) \<noteq> []" for f
    using that fin ok lanes(1) by (auto simp: settled_def)
  moreover have "recorded_files (w_store ?w) \<subseteq> w_known ?w \<union> w_loose ?w \<union> claim_done (w_claims ?w) \<union> lane_files ?w"
    using ok lanes(1) by (auto simp: end_batch_done)
  moreover have "\<forall>(gs, p) \<in> set (w_lanes ?w). runs_safely env (set gs) p (w_store ?w)" using ok end_lane.hyps(1) by auto
  moreover have "distinct (concat (map fst (w_lanes ?w)))" using dist by auto
  moreover have "\<forall>f. crash_safe env f (w_store ?w f)" using ok by simp
  ultimately show ?case unfolding worker_ok_def by blast
next
  case (read_cache w)
  then show ?case by (auto simp: worker_ok_def lane_files_def)
next
  case (late w s)
  note ok = late.prems [unfolded worker_ok_def]
  have lanes: "lane_files (w\<lparr>w_store := s\<rparr>) = lane_files w" by (simp add: lane_files_def)
  have rec: "recorded_files s = recorded_files (w_store w)"
    using lands_recorded [OF late.hyps] by (simp add: recorded_files_def)
  have "f \<in> lane_files w" if "v_running (s f) \<noteq> []" for f
    using that ok lands_still [OF late.hyps, of f] by metis
  then show ?case
    unfolding worker_ok_def lanes using ok rec lands_crash_safe [OF late.hyps] runs_safely_lands [OF late.hyps]
    by (auto simp del: runs_safely.simps)
next
  case (restart w s ms)
  note ok = restart.prems [unfolded worker_ok_def]
  have quiet: "v_running (s f) = []" for f using restart.hyps(2) by simp
  have safe: "crash_safe env f (s f)" for f using ok lands_crash_safe [OF restart.hyps(1)] by blast
  have lanes: "concat (map (fst \<circ> (\<lambda>f. ([f], recover_marker env f))) ms) = ms" by (induction ms) simp_all
  have "runs_safely env {f} (recover_marker env f) s" for f
    using safe quiet by (intro recover_safe) (simp add: settled_def)
  then show ?case
    using restart.hyps(3) safe quiet
    by (auto simp: worker_ok_def lane_files_def lanes restarted_def restarted_claims simp del: runs_safely.simps)
qed

interpretation rows_worker: transition_system "worker_step no_faults env" "worker_ok env" for env
  by unfold_locales (rule worker_step_ok)

text \<open>A process on an empty store.\<close>

definition blank :: file_view where
  "blank = \<lparr>v_rows = [], v_running = [], v_recorded = False, v_marker = None, v_tokens = []\<rparr>"

definition fresh_worker :: worker where
  "fresh_worker = \<lparr>w_store = (\<lambda>_. blank), w_lanes = [], w_claims = \<lparr>claim_ids = {}, claim_done = {}\<rparr>,
     w_known = {}, w_loose = {}\<rparr>"

lemma fresh_worker_ok: "worker_ok env fresh_worker"
  by (simp add: worker_ok_def fresh_worker_def blank_def crash_safe_def lane_files_def recorded_files_def)

section \<open>Runs\<close>

lemma answer_perform: "perform fl cont a s (fst (answer cont a s)) (snd (answer cont a s))"
proof (cases a)
  case (KillQuery fs)
  then show ?thesis using perform.killed [where landed = "\<lambda>_. []" and fs = fs and s = s] by simp
qed (auto intro: perform.intros)

lemma on_files_id: "(\<And>f v. g f v = v) \<Longrightarrow> on_files fs g s = s"
  by (simp add: on_files_def fun_eq_iff)

lemma refused_perform: "refusable a \<Longrightarrow> perform fl cont a s Refused s"
proof (cases a)
  case (DeleteRows fs b)
  then show ?thesis using perform.delete_fails [of s "\<lambda>_ _. True" b fl cont fs] by (simp add: on_files_id)
next
  case (InsertBucket fs b)
  then show ?thesis using perform.insert_fails [of fs "\<lambda>_. []" "\<lambda>_. []" cont b fl s] by (simp add: on_files_id)
next
  case (Aggregate f k)
  then show ?thesis using perform.aggregate_fails [of "[]" k fl cont f s] by (simp add: on_files_id List.union_def)
qed (auto intro: perform.intros)

lemma lane_runs:
  assumes "\<And>a. bad a \<Longrightarrow> refusable a"
  shows "(worker_step fl env)\<^sup>*\<^sup>* (w\<lparr>w_store := s, w_lanes := (fs, p) # ls\<rparr>)
    (w\<lparr>w_store := snd (run_prog (content env) bad p s), w_lanes := (fs, Finish (fst (run_prog (content env) bad p s))) # ls\<rparr>)"
proof (induction p arbitrary: s)
  case (Act a k)
  let ?r = "if bad a then Refused else fst (answer (content env) a s)"
  let ?t = "if bad a then s else snd (answer (content env) a s)"
  have "perform fl (content env) a s ?r ?t"
    using assms refused_perform answer_perform by auto
  then have "worker_step fl env (w\<lparr>w_store := s, w_lanes := (fs, Act a k) # ls\<rparr>) (w\<lparr>w_store := ?t, w_lanes := (fs, k ?r) # ls\<rparr>)"
    using worker_step.act [of "w\<lparr>w_store := s, w_lanes := (fs, Act a k) # ls\<rparr>" "[]" fs a k ls fl env ?r ?t] by simp
  also have "(worker_step fl env)\<^sup>*\<^sup>* (w\<lparr>w_store := ?t, w_lanes := (fs, k ?r) # ls\<rparr>)
      (w\<lparr>w_store := snd (run_prog (content env) bad (k ?r) ?t),
         w_lanes := (fs, Finish (fst (run_prog (content env) bad (k ?r) ?t))) # ls\<rparr>)"
    by (rule Act.IH) simp
  finally show ?case by (cases "bad a") (simp_all add: case_prod_beta)
qed simp

text \<open>One lane takes a batch and runs it to its end, beside the others.\<close>

lemma batch_reaches_end:
  assumes "\<And>a. bad a \<Longrightarrow> refusable a" "stale_cache fl \<or> set fs \<inter> w_loose w = {}" "fs \<noteq> []"
    "fill_batch (Suc n) due (\<lambda>f. f \<in> w_known w) inst es [] (w_claims w) = (fs, c)"
    "run_prog (content env) bad (commit_batch env fs) (w_store w) = (res, s)"
  shows "(worker_step fl env)\<^sup>*\<^sup>* w (w\<lparr>w_store := s, w_claims := c, w_lanes := (fs, Finish res) # w_lanes w\<rparr>)"
proof -
  let ?w1 = "w\<lparr>w_claims := c, w_lanes := (fs, commit_batch env fs) # w_lanes w\<rparr>"
  have "worker_step fl env w ?w1" using worker_step.start [OF assms(4,3,2), of env] by (cases w) simp
  also have "(worker_step fl env)\<^sup>*\<^sup>* ?w1 (?w1\<lparr>w_store := s, w_lanes := (fs, Finish res) # w_lanes w\<rparr>)"
    using lane_runs [where bad = bad and w = ?w1 and s = "w_store w" and fs = fs and p = "commit_batch env fs"
      and ls = "w_lanes w" and fl = fl and env = env, OF assms(1)]
    by (simp add: assms(5))
  finally show ?thesis by (cases w) simp
qed

section \<open>Exactly once\<close>

lemma recorded_exact:
  assumes "(worker_step no_faults env)\<^sup>*\<^sup>* fresh_worker w" "v_recorded (w_store w f)"
  shows "mset (v_rows (w_store w f)) = mset (content env f)" "set AGG_KINDS \<subseteq> set (v_tokens (w_store w f))"
proof -
  have "crash_safe env f (w_store w f)"
    using rows_worker.reachable_inv [OF assms(1) fresh_worker_ok] by (simp add: worker_ok_def)
  with assms(2) show "mset (v_rows (w_store w f)) = mset (content env f)"
    "set AGG_KINDS \<subseteq> set (v_tokens (w_store w f))" by (auto simp: crash_safe_def)
qed

text \<open>
  Property C1. Whatever lanes run side by side, whichever of their reads, counts, deletes, inserts and marker
  writes fail or stop half way and whenever the process dies, a file the manifest lists has each of its rows
  in the row store exactly once and all of its aggregates, and an unlisted file has rows only under an inflight
  marker, inside the bounds a purge of that marker deletes. Four faults are excluded (\<open>no_faults\<close>): a
  \<open>KILL QUERY\<close> that fails, a manifest insert that is applied although its client sees an error, an \<open>INSERT\<close>
  that still runs when the successor of a dead process starts, and a lane that takes a file which a failed
  batch had recorded before the cached list of ingested files is read again. The code does not rule out the
  last one, which stores the rows of such a file twice (C30).
\<close>

theorem rows_stored_exactly_once:
  assumes "(worker_step no_faults env)\<^sup>*\<^sup>* fresh_worker w"
  shows "(v_recorded (w_store w f) \<longrightarrow> mset (v_rows (w_store w f)) = mset (content env f)
            \<and> set AGG_KINDS \<subseteq> set (v_tokens (w_store w f))) \<and>
    (\<not> v_recorded (w_store w f) \<longrightarrow> (case v_marker (w_store w f) of None \<Rightarrow> v_rows (w_store w f) = []
        | Some m \<Rightarrow> \<forall>r \<in> set (v_rows (w_store w f)). in_bounds (marker_bounds (file_spans env f) m) r))"
proof -
  have "crash_safe env f (w_store w f)"
    using rows_worker.reachable_inv [OF assms fresh_worker_ok] by (simp add: worker_ok_def)
  then show ?thesis by (auto simp: crash_safe_def split: option.splits)
qed

text \<open>Two files of two rows each; the second row of \<open>a\<close> lands in another bucket.\<close>

definition demo_env :: worker_env where
  "demo_env = \<lparr>content = (\<lambda>f. if f = ''a'' then [\<lparr>sr_day = ''2025-10-21'', sr_bucket = 1, sr_data = ''x''\<rparr>,
        \<lparr>sr_day = ''2025-10-22'', sr_bucket = 3, sr_data = ''y''\<rparr>]
      else if f = ''b'' then [\<lparr>sr_day = ''2025-10-22'', sr_bucket = 1, sr_data = ''z''\<rparr>] else []),
    file_spans = (\<lambda>_. (None, None)), lo_of = (\<lambda>_. None), hi_of = (\<lambda>_. None)\<rparr>"

definition demo_list :: "candidate list" where
  "demo_list = [\<lparr>c_file = ''a'', c_instance = ''i'', c_raw = True\<rparr>, \<lparr>c_file = ''b'', c_instance = ''i'', c_raw = True\<rparr>]"



text \<open>What the programs do when nothing but a manifest insert may be refused.\<close>

definition only_records :: "(action \<Rightarrow> bool) \<Rightarrow> bool" where
  "only_records bad \<longleftrightarrow> (\<forall>a. bad a \<longrightarrow> (\<exists>f. a = RecordFile f))"

lemma only_records_simps:
  assumes "only_records bad"
  shows "\<not> bad (GetMarker f)" "\<not> bad (QueryRecorded f)" "\<not> bad (PendingPurges fs)" "\<not> bad (CountRows fs b)"
    "\<not> bad (DeleteRows fs b)" "\<not> bad (Unlink f)" "\<not> bad ReadPartitions" "\<not> bad TakeMoveSlot" "\<not> bad (WriteMarker f m)"
    "\<not> bad (InsertBucket fs i)" "\<not> bad (Aggregate f k)"
  using assms unfolding only_records_def by blast+

lemma run_write_markers:
  "only_records bad \<Longrightarrow> run_prog cont bad (write_markers fs mk n) s = run_prog cont bad n (mark_files mk fs s)"
proof (induction fs arbitrary: s)
  case (Cons f fs)
  have "on_files [f] (\<lambda>_ v. v\<lparr>v_marker := Some (mk f)\<rparr>) s = mark_files mk [f] s" by (auto simp: on_files_def fun_eq_iff)
  with Cons show ?case by (simp add: only_records_simps on_files_Cons)
qed simp

lemma run_move:
  "only_records bad \<Longrightarrow> run_prog (content env) bad (move fs ps bs n) s = run_prog (content env) bad n (moved env fs bs s)"
proof (induction bs arbitrary: s)
  case Nil
  then show ?case by (simp add: on_files_id)
next
  case (Cons b bs)
  then have "run_prog (content env) bad (move fs ps (b # bs) n) s = run_prog (content env) bad n (moved env fs bs (moved env fs [b] s))"
    by (simp add: only_records_simps)
  then show ?case by (simp only: moved_Cons)
qed

lemma run_aggregate:
  "only_records bad \<Longrightarrow> run_prog cont bad (aggregate f ks n) s = run_prog cont bad n (with_tokens f ks s)"
proof (induction ks arbitrary: s)
  case Nil
  then show ?case by (simp add: on_files_id)
next
  case (Cons k ks)
  then have "run_prog cont bad (aggregate f (k # ks) n) s = run_prog cont bad n (with_tokens f ks (with_tokens f [k] s))"
    by (simp add: only_records_simps)
  then show ?case by (simp only: with_tokens_Cons)
qed

lemma run_record_Cons:
  "only_records bad \<Longrightarrow> run_prog cont bad (record_files (f # fs)) s =
     (if bad (RecordFile f) then (Raised, with_tokens f AGG_KINDS s)
      else run_prog cont bad (record_files fs) (unmarked f (entered f (with_tokens f AGG_KINDS s))))"
  by (simp add: run_aggregate only_records_simps)

lemma run_purge:
  "only_records bad \<Longrightarrow> \<not> bad_bounds b \<Longrightarrow>
     \<exists>t. run_prog cont bad (purge_file_rows fs b chk n) s = run_prog cont bad n t \<and> (\<forall>f. v_marker (t f) = v_marker (s f))"
  by (auto simp: purge_file_rows_def delete_rows_def count_then_delete_def only_records_simps on_files_apply
      intro: exI [of _ s] exI [of _ "on_files fs (\<lambda>_ v. v\<lparr>v_rows := filter (\<lambda>r. \<not> in_bounds b r) (v_rows v)\<rparr>) s"])

lemma run_purge_markers:
  assumes "only_records bad" "\<forall>f \<in> set fs. \<forall>m. v_marker (s f) = Some m \<longrightarrow> \<not> bad_bounds (marker_bounds (spans f) m)"
  shows "\<exists>t. run_prog cont bad (purge_markers spans fs n) s = run_prog cont bad n t"
  using assms(2)
proof (induction fs arbitrary: s)
  case (Cons f fs)
  let ?n = "purge_markers spans fs n"
  have keep: "\<exists>t. run_prog cont bad ?n u = run_prog cont bad n t" if "\<forall>g. v_marker (u g) \<in> {None, v_marker (s g)}" for u
    using that Cons.prems by (intro Cons.IH) (metis empty_iff insert_iff list.set_intros(2) option.simps(3))
  show ?case
  proof (cases "v_marker (s f)")
    case None
    then show ?thesis using keep [of s] by (simp add: only_records_simps [OF assms(1)])
  next
    case (Some m)
    then have "\<not> bad_bounds (marker_bounds (spans f) m)" using Cons.prems by simp
    from run_purge [OF assms(1) this] obtain t where
      t: "run_prog cont bad (purge_file_rows [f] (marker_bounds (spans f) m) True (Act (Unlink f) (\<lambda>_. ?n))) s
          = run_prog cont bad (Act (Unlink f) (\<lambda>_. ?n)) t" "\<forall>g. v_marker (t g) = v_marker (s g)" by meson
    have "\<exists>u. run_prog cont bad (Act (Unlink f) (\<lambda>_. ?n)) v = run_prog cont bad n u" if "\<forall>g. v_marker (v g) = v_marker (s g)" for v
      using keep [of "unmarked f v"] that by (simp add: only_records_simps [OF assms(1)] on_files_apply)
    then show ?thesis using Some t
      by (cases "v_recorded (s f)") (simp_all add: only_records_simps [OF assms(1)] purge_marker_def)
  qed
qed auto

lemma run_record_files: "\<exists>t. run_prog cont (\<lambda>_. False) (record_files fs) s = (Committed, t)"
proof (induction fs arbitrary: s)
  case (Cons f fs)
  have none: "only_records (\<lambda>_. False)" by (simp add: only_records_def)
  show ?case unfolding run_record_Cons [OF none] if_False by (rule Cons.IH)
qed simp

lemma run_safe:
  "runs_safely env F p s \<Longrightarrow> (\<And>a. bad a \<Longrightarrow> refusable a) \<Longrightarrow>
     settled env F (snd (run_prog (content env) bad p s)) \<and>
     (fst (run_prog (content env) bad p s) = Committed \<longrightarrow> (\<forall>f \<in> F. v_recorded (snd (run_prog (content env) bad p s) f)))"
proof (induction p arbitrary: s)
  case (Act a k)
  have "runs_safely env F (k r) t" if "perform no_faults (content env) a s r t" for r t
    using Act.prems(1) that by simp
  then have "runs_safely env F (k (fst (answer (content env) a s))) (snd (answer (content env) a s))"
    "refusable a \<Longrightarrow> runs_safely env F (k Refused) s" using answer_perform refused_perform by blast+
  then show ?case using Act.IH [OF rangeI] Act.prems(2) by (auto simp: case_prod_beta)
qed simp

text \<open>
  Property C15. A batch of files that are not in the manifest, whatever an earlier attempt left of them under
  its markers, is committed when no statement fails: afterwards every file is recorded and stored exactly once.
\<close>

theorem commit_completes:
  assumes "distinct fs" "settled env (set fs) s" "\<forall>f \<in> set fs. \<not> v_recorded (s f)"
    "\<forall>f \<in> set fs. \<forall>m. v_marker (s f) = Some m \<longrightarrow> \<not> bad_bounds (marker_bounds (file_spans env f) m)"
  shows "\<exists>t. run_prog (content env) (\<lambda>_. False) (commit_batch env fs) s = (Committed, t) \<and>
    (\<forall>f \<in> set fs. v_recorded (t f) \<and> mset (v_rows (t f)) = mset (content env f))"
proof -
  have none: "only_records (\<lambda>_. False)" by (simp add: only_records_def)
  obtain u where "run_prog (content env) (\<lambda>_. False) (commit_batch env fs) s =
      run_prog (content env) (\<lambda>_. False) (Act ReadPartitions (\<lambda>r. if r \<noteq> Acked then Finish Raised
        else Act TakeMoveSlot (\<lambda>r. if r \<noteq> Acked then Finish Raised
       else let ps = buffer_partitions (content env) fs in
         write_markers fs (new_marker env ps) (move fs ps (present_buckets ps) (record_files fs))))) u"
    unfolding commit_batch_def using run_purge_markers [OF none assms(4)] by blast
  also have "\<dots> = run_prog (content env) (\<lambda>_. False) (record_files fs)
      (moved env fs (present_buckets (buffer_partitions (content env) fs))
        (mark_files (new_marker env (buffer_partitions (content env) fs)) fs u))"
    by (simp add: Let_def run_write_markers [OF none] run_move [OF none])
  finally obtain t where t: "run_prog (content env) (\<lambda>_. False) (commit_batch env fs) s = (Committed, t)"
    using run_record_files [of "content env" fs] by auto
  have "settled env (set fs) t" "\<forall>f \<in> set fs. v_recorded (t f)"
    using run_safe [OF commit_batch_safe [OF assms(1-3)], of "\<lambda>_. False"] by (simp_all add: t)
  then have "\<forall>f \<in> set fs. v_recorded (t f) \<and> mset (v_rows (t f)) = mset (content env f)"
    by (simp add: settled_def crash_safe_def)
  then show ?thesis using t by blast
qed

definition left_store :: store where
  "left_store = (\<lambda>f. if f = ''a'' then blank\<lparr>v_rows := [\<lparr>sr_day = ''2025-10-21'', sr_bucket = 1, sr_data = ''x''\<rparr>],
     v_marker := Some \<lparr>m_lo = None, m_hi = None, m_partitions = Some [(''2025-10-21'', 1)]\<rparr>\<rparr> else blank)"

lemma left_store_settled: "settled demo_env {''a'', ''b''} left_store"
  by (simp add: settled_def crash_safe_def left_store_def blank_def marker_bounds_def marker_span_def purge_bounds_def
      in_bounds_def demo_env_def)

theorem commit_completes_witness:
  "\<exists>t. run_prog (content demo_env) (\<lambda>_. False) (commit_batch demo_env [''a'', ''b'']) left_store = (Committed, t) \<and>
     mset (v_rows (t ''a'')) = mset (content demo_env ''a'')"
proof -
  have "\<forall>f \<in> set [''a'', ''b'']. \<forall>m. v_marker (left_store f) = Some m \<longrightarrow>
      \<not> bad_bounds (marker_bounds (file_spans demo_env f) m)"
    by (simp add: left_store_def blank_def marker_bounds_def marker_span_def purge_bounds_def demo_env_def bad_bounds_def
        partition_ok_def BUCKETS_def is_digit_def)
  moreover have "\<forall>f \<in> set [''a'', ''b'']. \<not> v_recorded (left_store f)" by (simp add: left_store_def blank_def)
  ultimately show ?thesis
    using commit_completes [of "[''a'', ''b'']" demo_env left_store] left_store_settled by auto
qed

section \<open>A run with a failure, and the faults\<close>

lemma run_purge_markers_recorded:
  assumes "only_records bad" "\<forall>f \<in> set fs. v_marker (s f) = None \<or> v_recorded (s f)"
  shows "\<exists>t. run_prog cont bad (purge_markers spans fs n) s = run_prog cont bad n t \<and>
    (\<forall>f. t f = s f \<or> t f = (s f)\<lparr>v_marker := None\<rparr>)"
  using assms(2)
proof (induction fs arbitrary: s)
  case (Cons f fs)
  show ?case
  proof (cases "v_marker (s f)")
    case None
    then show ?thesis using Cons by (simp add: only_records_simps [OF assms(1)])
  next
    case (Some m)
    have "\<forall>g \<in> set fs. v_marker (unmarked f s g) = None \<or> v_recorded (unmarked f s g)"
      using Cons.prems by (simp add: on_files_apply)
    from Cons.IH [OF this] obtain t where t: "run_prog cont bad (purge_markers spans fs n) (unmarked f s) = run_prog cont bad n t"
        "\<forall>g. t g = unmarked f s g \<or> t g = (unmarked f s g)\<lparr>v_marker := None\<rparr>" by blast
    have "t g = s g \<or> t g = (s g)\<lparr>v_marker := None\<rparr>" for g
      using t(2) [rule_format, of g] by (cases "g = f") (auto simp: on_files_apply)
    moreover have "v_recorded (s f)" using Some Cons.prems by simp
    ultimately show ?thesis using t(1) Some
      by (intro exI [of _ t]) (simp add: only_records_simps [OF assms(1)] purge_marker_def)
  qed
qed auto

lemma run_commit_clean:
  assumes "only_records bad" "\<forall>f \<in> set fs. v_marker (s f) = None \<or> v_recorded (s f)"
  shows "\<exists>t. run_prog (content env) bad (commit_batch env fs) s = run_prog (content env) bad (record_files fs) t \<and>
    (\<forall>f \<in> set fs. v_recorded (t f) = v_recorded (s f) \<and> v_rows (t f) =
       v_rows (s f) @ concat (map (\<lambda>b. bucket_rows (content env) b f) (present_buckets (buffer_partitions (content env) fs))))"
proof -
  let ?ps = "buffer_partitions (content env) fs"
  let ?n = "Act ReadPartitions (\<lambda>r. if r \<noteq> Acked then Finish Raised
        else Act TakeMoveSlot (\<lambda>r. if r \<noteq> Acked then Finish Raised
       else let ps = ?ps in
         write_markers fs (new_marker env ps) (move fs ps (present_buckets ps) (record_files fs))))"
  obtain u where u: "run_prog (content env) bad (purge_markers (file_spans env) fs ?n) s = run_prog (content env) bad ?n u"
      "\<forall>f. u f = s f \<or> u f = (s f)\<lparr>v_marker := None\<rparr>"
    using run_purge_markers_recorded [OF assms] by blast
  let ?t = "moved env fs (present_buckets ?ps) (mark_files (new_marker env ?ps) fs u)"
  have "run_prog (content env) bad (commit_batch env fs) s = run_prog (content env) bad (record_files fs) ?t"
    unfolding commit_batch_def u(1)
    by (simp add: only_records_simps [OF assms(1)] Let_def run_write_markers [OF assms(1)] run_move [OF assms(1)])
  moreover have "v_recorded (?t f) = v_recorded (s f) \<and> v_rows (?t f) =
       v_rows (s f) @ concat (map (\<lambda>b. bucket_rows (content env) b f) (present_buckets ?ps))" if "f \<in> set fs" for f
    using u(2) [rule_format, of f] that by (auto simp: on_files_apply)
  ultimately show ?thesis by blast
qed

lemma bucketed_content:
  assumes "f \<in> set fs"
  shows "mset (concat (map (\<lambda>b. bucket_rows (content env) b f) (present_buckets (buffer_partitions (content env) fs)))) = mset (content env f)"
  unfolding bucket_rows_def
proof (rule mset_by_bucket)
  show "distinct (present_buckets (buffer_partitions (content env) fs))" by (simp add: present_buckets_def)
  have "(sr_day r, sr_bucket r) \<in> set (buffer_partitions (content env) fs)" if "r \<in> set (content env f)" for r
    using assms that by (auto simp: buffer_partitions_iff)
  then show "\<forall>r \<in> set (content env f). sr_bucket r \<in> set (present_buckets (buffer_partitions (content env) fs))"
    by (force simp: present_buckets_def)
qed

lemma recorded_file_twice:
  assumes "v_recorded (s f)"
  shows "\<exists>t. run_prog (content env) (\<lambda>_. False) (commit_file env f) s = (Committed, t) \<and> v_recorded (t f) \<and>
    mset (v_rows (t f)) = mset (v_rows (s f)) + mset (content env f)"
proof -
  have none: "only_records (\<lambda>_. False)" by (simp add: only_records_def)
  obtain t where t: "run_prog (content env) (\<lambda>_. False) (commit_file env f) s = run_prog (content env) (\<lambda>_. False) (record_files [f]) t"
      "v_rows (t f) = v_rows (s f) @ concat (map (\<lambda>b. bucket_rows (content env) b f) (present_buckets (buffer_partitions (content env) [f])))"
    using run_commit_clean [OF none, of "[f]" s env] assms by (auto simp: commit_file_def)
  have "run_prog (content env) (\<lambda>_. False) (record_files [f]) t = (Committed, unmarked f (entered f (with_tokens f AGG_KINDS t)))"
    unfolding run_record_Cons [OF none] by simp
  moreover have "v_rows (unmarked f (entered f (with_tokens f AGG_KINDS t)) f) = v_rows (t f)"
    "v_recorded (unmarked f (entered f (with_tokens f AGG_KINDS t)) f)" by (simp_all add: on_files_apply)
  ultimately show ?thesis using t bucketed_content [of f "[f]" env] by simp
qed

text \<open>
  A file that the manifest already lists is moved a second time when a lane takes it: its marker
  is only dropped, the answer of \<open>purge_marker\<close> is not used.
\<close>

theorem recorded_file_moved_again:
  assumes "v_recorded (s f)"
  shows "\<exists>t. run_prog (content env) (\<lambda>_. False) (commit_file env f) s = (Committed, t) \<and>
    mset (v_rows (t f)) = mset (v_rows (s f)) + mset (content env f)"
  using recorded_file_twice [of s f env, OF assms] by blast

theorem recorded_file_moved_again_witness:
  "\<exists>t. run_prog (content demo_env) (\<lambda>_. False) (commit_file demo_env ''b'') (entered ''b'' left_store) = (Committed, t) \<and>
     mset (v_rows (t ''b'')) = mset (content demo_env ''b'')"
proof -
  have "v_recorded (entered ''b'' left_store ''b'')" "v_rows (entered ''b'' left_store ''b'') = []"
    by (simp_all add: on_files_apply left_store_def blank_def)
  then show ?thesis using recorded_file_moved_again [of "entered ''b'' left_store" "''b''" demo_env] by auto
qed

text \<open>A round in which the manifest insert of the second file is refused.\<close>

definition second_refused :: "action \<Rightarrow> bool" where
  "second_refused a \<longleftrightarrow> a = RecordFile ''b''"

lemma demo_fill:
  "fill_batch (Suc 3) (\<lambda>_. True) (\<lambda>f. f \<in> w_known fresh_worker) ''i'' demo_list [] (w_claims fresh_worker)
     = ([''a'', ''b''], \<lparr>claim_ids = {''b'', ''a''}, claim_done = {}\<rparr>)"
  by (simp add: demo_list_def fresh_worker_def take_claim_def)

lemma demo_round:
  obtains t where "v_recorded (t ''a'')" "mset (v_rows (t ''a'')) = mset (content demo_env ''a'')"
    "(worker_step fl demo_env)\<^sup>*\<^sup>* fresh_worker (fresh_worker\<lparr>w_store := t,
       w_claims := \<lparr>claim_ids = {''b'', ''a''}, claim_done = {}\<rparr>, w_lanes := [([''a'', ''b''], Finish Raised)]\<rparr>)"
proof -
  let ?fs = "[''a'', ''b'']"
  have only: "only_records second_refused" by (simp add: only_records_def second_refused_def)
  obtain u where u: "run_prog (content demo_env) second_refused (commit_batch demo_env ?fs) (\<lambda>_. blank)
      = run_prog (content demo_env) second_refused (record_files ?fs) u"
      "mset (v_rows (u ''a'')) = mset (content demo_env ''a'')"
    using run_commit_clean [OF only, of ?fs "\<lambda>_. blank" demo_env] bucketed_content [of "''a''" ?fs demo_env]
    by (auto simp: blank_def)
  let ?v = "unmarked ''a'' (entered ''a'' (with_tokens ''a'' AGG_KINDS u))"
  let ?t = "with_tokens ''b'' AGG_KINDS ?v"
  have store: "w_store fresh_worker = (\<lambda>_. blank)" "w_loose fresh_worker = {}" "w_lanes fresh_worker = []"
    by (simp_all add: fresh_worker_def)
  have run: "run_prog (content demo_env) second_refused (commit_batch demo_env ?fs) (w_store fresh_worker) = (Raised, ?t)"
    unfolding store u(1) run_record_Cons [OF only] by (simp add: second_refused_def del: record_files.simps)
  have "v_recorded (?t ''a'')" "mset (v_rows (?t ''a'')) = mset (content demo_env ''a'')"
    using u(2) by (simp_all add: on_files_apply)
  moreover have "(worker_step fl demo_env)\<^sup>*\<^sup>* fresh_worker (fresh_worker\<lparr>w_store := ?t,
       w_claims := \<lparr>claim_ids = {''b'', ''a''}, claim_done = {}\<rparr>, w_lanes := [(?fs, Finish Raised)]\<rparr>)"
    using batch_reaches_end [OF _ _ _ demo_fill run, of fl] by (simp add: store second_refused_def)
  ultimately show thesis by (rule that)
qed

theorem rows_stored_exactly_once_witness:
  "\<exists>w. (worker_step no_faults demo_env)\<^sup>*\<^sup>* fresh_worker w \<and> v_recorded (w_store w ''a'') \<and>
     mset (v_rows (w_store w ''a'')) = mset (content demo_env ''a'') \<and> content demo_env ''a'' \<noteq> []"
proof -
  obtain t where t: "v_recorded (t ''a'')" "(worker_step no_faults demo_env)\<^sup>*\<^sup>* fresh_worker (fresh_worker\<lparr>w_store := t,
       w_claims := \<lparr>claim_ids = {''b'', ''a''}, claim_done = {}\<rparr>, w_lanes := [([''a'', ''b''], Finish Raised)]\<rparr>)"
    by (rule demo_round [of no_faults])
  let ?w = "fresh_worker\<lparr>w_store := t,
       w_claims := \<lparr>claim_ids = {''b'', ''a''}, claim_done = {}\<rparr>, w_lanes := [([''a'', ''b''], Finish Raised)]\<rparr>"
  have "content demo_env ''a'' \<noteq> []" by (simp add: demo_env_def)
  then show ?thesis
    using rows_stored_exactly_once [OF t(2), of "''a''"] t by (intro exI [of _ ?w]) simp
qed

text \<open>
  Property C30. Whenever a batch fails after one of its files was recorded, and the cached list of ingested
  files lacks that file, the code can take the file again before it reads the list again; when no statement
  of that retry fails, all rows of the file are stored once more beside those already there.
\<close>

theorem stale_cache_stores_twice:
  assumes "stale_cache fl" "w_lanes w = ls @ (fs, Finish Raised) # ls'" "f \<in> set fs" "v_recorded (w_store w f)"
    "f \<notin> w_known w" "f \<notin> claim_done (w_claims w)"
  shows "\<exists>w'. (worker_step fl env)\<^sup>*\<^sup>* w w' \<and> v_recorded (w_store w' f) \<and>
     mset (v_rows (w_store w' f)) = mset (v_rows (w_store w f)) + mset (content env f)"
proof -
  let ?c = "end_batch Raised fs (w_claims w)"
  let ?w = "w\<lparr>w_lanes := ls @ ls', w_claims := ?c, w_known := w_known w \<union> {},
    w_loose := w_loose w \<union> recorded_files (w_store w) \<inter> set fs\<rparr>"
  let ?e = "\<lparr>c_file = f, c_instance = ''i'', c_raw = True\<rparr>"
  have stop: "worker_step fl env w ?w" using worker_step.end_lane [OF assms(2), of fl env] by simp
  have fill: "fill_batch (Suc 0) (\<lambda>_. True) (\<lambda>f. f \<in> w_known ?w) ''i'' [?e] [] (w_claims ?w)
      = ([f], ?c\<lparr>claim_ids := insert f (claim_ids ?c)\<rparr>)"
    using assms(3,5,6) by (simp add: take_claim_def end_batch_ids end_batch_done)
  obtain u where u: "run_prog (content env) (\<lambda>_. False) (commit_batch env [f]) (w_store ?w) = (Committed, u)"
      "v_recorded (u f)" "mset (v_rows (u f)) = mset (v_rows (w_store w f)) + mset (content env f)"
    using recorded_file_twice [of "w_store w" f env, OF assms(4)] unfolding commit_file_def by auto
  let ?w' = "?w\<lparr>w_store := u, w_claims := ?c\<lparr>claim_ids := insert f (claim_ids ?c)\<rparr>,
      w_lanes := ([f], Finish Committed) # w_lanes ?w\<rparr>"
  have "(worker_step fl env)\<^sup>*\<^sup>* ?w ?w'"
    using assms(1) by (intro batch_reaches_end [OF _ _ _ fill u(1)]) simp_all
  with stop have "(worker_step fl env)\<^sup>*\<^sup>* w ?w'" by (rule converse_rtranclp_into_rtranclp)
  with u(2,3) show ?thesis by (intro exI [of _ ?w']) simp
qed

theorem stale_cache_stores_twice_witness:
  "\<exists>w. (worker_step (no_faults\<lparr>stale_cache := True\<rparr>) demo_env)\<^sup>*\<^sup>* fresh_worker w \<and> v_recorded (w_store w ''a'') \<and>
     mset (v_rows (w_store w ''a'')) = mset (content demo_env ''a'') + mset (content demo_env ''a'')"
proof -
  let ?fl = "no_faults\<lparr>stale_cache := True\<rparr>"
  obtain t where t: "v_recorded (t ''a'')" "mset (v_rows (t ''a'')) = mset (content demo_env ''a'')"
      "(worker_step ?fl demo_env)\<^sup>*\<^sup>* fresh_worker (fresh_worker\<lparr>w_store := t,
       w_claims := \<lparr>claim_ids = {''b'', ''a''}, claim_done = {}\<rparr>, w_lanes := [([''a'', ''b''], Finish Raised)]\<rparr>)"
    by (rule demo_round [of ?fl])
  let ?w = "fresh_worker\<lparr>w_store := t,
       w_claims := \<lparr>claim_ids = {''b'', ''a''}, claim_done = {}\<rparr>, w_lanes := [([''a'', ''b''], Finish Raised)]\<rparr>"
  have "\<exists>w'. (worker_step ?fl demo_env)\<^sup>*\<^sup>* ?w w' \<and> v_recorded (w_store w' ''a'') \<and>
     mset (v_rows (w_store w' ''a'')) = mset (v_rows (w_store ?w ''a'')) + mset (content demo_env ''a'')"
    by (rule stale_cache_stores_twice [where ls = "[]" and fs = "[''a'', ''b'']" and ls' = "[]"])
      (simp_all add: t fresh_worker_def)
  then obtain w' where "(worker_step ?fl demo_env)\<^sup>*\<^sup>* ?w w'" "v_recorded (w_store w' ''a'')"
      "mset (v_rows (w_store w' ''a'')) = mset (v_rows (t ''a'')) + mset (content demo_env ''a'')" by auto
  then show ?thesis using t(2,3) rtranclp_trans [OF t(3)] by (intro exI [of _ w']) simp
qed

end
