(* ===== verification/RowsIngest.thy ===== *)
theory RowsIngest
  imports Prelude "HOL-Library.Word"
begin

text \<open>
  How \<open>app/binlog_rows_worker.py\<close> brings one archived binlog into the buffer table: ranged reads of the
  object (\<open>download_ranges\<close>, \<open>stream_ranges\<close>), the thread that feeds the parser, the record counter, the
  checks of \<open>load_raw_stream\<close> and the loop of \<open>ingest_batch\<close>. The object store is the parameter \<open>get\<close> (the
  pieces a ranged read returns, or \<open>None\<close> for an exception), the hash is the parameter \<open>sha\<close>.
\<close>

type_synonym bytes = "8 word list"

definition NEWLINE :: "8 word" where "NEWLINE = 10"
definition STREAM_CHUNK :: nat where "STREAM_CHUNK = 8 * 1024 ^ 2"

datatype ingest_error =
    STOPPED | VERIFY_FAILED | PARSER_FAILED | DOWNLOAD_FAILED | ROWS_VERIFY_FAILED | LOAD_FAILED | MISSING_FUTURE

section \<open>Ranged reads\<close>

text \<open>\<open>(start, min(start + step, len))\<close> for \<open>start in range(0, len, step)\<close>; the callers pass a positive step.\<close>

function range_bounds :: "nat \<Rightarrow> nat \<Rightarrow> nat \<Rightarrow> (nat \<times> nat) list" where
  "range_bounds start step len =
     (if step = 0 \<or> len \<le> start then [] else (start, min (start + step) len) # range_bounds (start + step) step len)"
  by pat_completeness auto
termination by (relation "measure (\<lambda>(start, step, len). len - start)") auto

declare range_bounds.simps [simp del]

text \<open>The body of a response, read piece by piece until an empty piece.\<close>

fun read_pieces :: "nat \<Rightarrow> bytes list \<Rightarrow> bytes \<Rightarrow> ingest_error + bytes" where
  "read_pieces asked [] got = Inr got"
| "read_pieces asked (p # ps) got =
     (if p = [] then Inr got
      else if asked < length got + length p then Inl VERIFY_FAILED
      else read_pieces asked ps (got @ p))"

definition fetch :: "(nat \<times> nat \<Rightarrow> bytes list option) \<Rightarrow> bool \<Rightarrow> nat \<times> nat \<Rightarrow> ingest_error + bytes" where
  "fetch get stopped span =
     (if stopped then Inl STOPPED
      else case get span of None \<Rightarrow> Inl DOWNLOAD_FAILED
        | Some ps \<Rightarrow> (case read_pieces (snd span - fst span) ps [] of Inl e \<Rightarrow> Inl e
            | Inr data \<Rightarrow> if length data \<noteq> snd span - fst span then Inl VERIFY_FAILED else Inr data))"

text \<open>
  The generator of \<open>stream_ranges\<close>: \<open>pending\<close> holds the submitted reads, at most \<open>ahead\<close> of them. It yields
  blocks and then stops with an error or at the end.
\<close>

function stream_loop :: "(nat \<Rightarrow> ingest_error + bytes) \<Rightarrow> nat \<Rightarrow> nat \<Rightarrow> nat \<Rightarrow> (nat \<times> (ingest_error + bytes)) list
    \<Rightarrow> bytes list \<times> ingest_error option" where
  "stream_loop read n ahead i pending =
     (if n \<le> i then ([], None)
      else case map_of pending i of None \<Rightarrow> ([], Some MISSING_FUTURE)
        | Some (Inl e) \<Rightarrow> ([], Some e)
        | Some (Inr data) \<Rightarrow>
            (let rest = filter (\<lambda>p. fst p \<noteq> i) pending;
                 (blocks, err) = stream_loop read n ahead (Suc i)
                   (if i + ahead < n then rest @ [(i + ahead, read (i + ahead))] else rest)
             in (data # blocks, err)))"
  by pat_completeness auto
termination by (relation "measure (\<lambda>(read, n, ahead, i, pending). n - i)") auto

declare stream_loop.simps [simp del]

definition stream_ranges :: "(nat \<times> nat \<Rightarrow> bytes list option) \<Rightarrow> (nat \<Rightarrow> bool) \<Rightarrow> nat \<Rightarrow> nat \<Rightarrow> nat
    \<Rightarrow> bytes list \<times> ingest_error option" where
  "stream_ranges get stopped len streams chunk =
     (let bounds = range_bounds 0 chunk len;
          read = (\<lambda>i. fetch get (stopped i) (bounds ! i));
          ahead = 2 * max 1 streams
      in stream_loop read (length bounds) ahead 0 (map (\<lambda>i. (i, read i)) [0..<min ahead (length bounds)]))"

text \<open>\<open>download_ranges\<close> writes each range at its offset of a preallocated file; the first error in order is raised.\<close>

definition write_at :: "bytes \<Rightarrow> nat \<Rightarrow> bytes \<Rightarrow> bytes" where
  "write_at file pos data = take pos file @ data @ drop (pos + length data) file"

fun write_ranges :: "(nat \<times> nat \<Rightarrow> ingest_error + bytes) \<Rightarrow> (nat \<times> nat) list \<Rightarrow> bytes \<Rightarrow> ingest_error + bytes" where
  "write_ranges read [] file = Inr file"
| "write_ranges read (span # spans) file = (case read span of Inl e \<Rightarrow> Inl e
     | Inr data \<Rightarrow> write_ranges read spans (write_at file (fst span) data))"

definition download_ranges :: "(nat \<times> nat \<Rightarrow> bytes list option) \<Rightarrow> bool \<Rightarrow> nat \<Rightarrow> nat \<Rightarrow> ingest_error + bytes" where
  "download_ranges get stopped len streams =
     (if len = 0 then Inr []
      else let step = (len + streams - 1) div streams
        in write_ranges (fetch get stopped) (range_bounds 0 step len) (replicate len 0))"

section \<open>Feeding the parser, counting records\<close>

text \<open>\<open>ParserFeed.run\<close>: the hashed bytes, their number and the error; \<open>broken k\<close> says that write \<open>k\<close> meets a closed pipe.\<close>

record feed =
  fd_hashed :: bytes
  fd_written :: bytes
  fd_error :: "ingest_error option"

fun feed_run :: "(nat \<Rightarrow> bool) \<Rightarrow> nat \<Rightarrow> bytes list \<Rightarrow> ingest_error option \<Rightarrow> feed \<Rightarrow> feed" where
  "feed_run broken k [] err fd = fd\<lparr>fd_error := err\<rparr>"
| "feed_run broken k (data # blocks) err fd =
     (let fd = fd\<lparr>fd_hashed := fd_hashed fd @ data\<rparr>
      in if broken k then fd\<lparr>fd_error := Some PARSER_FAILED\<rparr>
         else feed_run broken (Suc k) blocks err (fd\<lparr>fd_written := fd_written fd @ data\<rparr>))"

definition parser_feed :: "(nat \<Rightarrow> bool) \<Rightarrow> bytes list \<times> ingest_error option \<Rightarrow> feed" where
  "parser_feed broken stream = feed_run broken 0 (fst stream) (snd stream) \<lparr>fd_hashed = [], fd_written = [], fd_error = None\<rparr>"

text \<open>\<open>LineCountingStream\<close>: the count and the last byte; an empty read closes an unterminated record.\<close>

record line_counter =
  lc_lines :: nat
  lc_last :: "8 word"

definition new_counter :: line_counter where "new_counter = \<lparr>lc_lines = 0, lc_last = NEWLINE\<rparr>"

definition count_read :: "line_counter \<Rightarrow> bytes \<Rightarrow> line_counter" where
  "count_read c data =
     (if data \<noteq> [] then \<lparr>lc_lines = lc_lines c + count_list data NEWLINE, lc_last = last data\<rparr>
      else if lc_last c \<noteq> NEWLINE then \<lparr>lc_lines = lc_lines c + 1, lc_last = NEWLINE\<rparr>
      else c)"

text \<open>The records of an NDJSON text.\<close>

fun records :: "bytes \<Rightarrow> bytes \<Rightarrow> bytes list" where
  "records [] cur = (if cur = [] then [] else [cur])"
| "records (b # bs) cur = (if b = NEWLINE then cur # records bs [] else records bs (cur @ [b]))"

section \<open>Loading one file\<close>

record raw_object =
  ro_size :: nat
  ro_sha :: string

record parser_end =
  pe_returncode :: int
  pe_log :: string
  pe_counts :: "nat list"

text \<open>
  What \<open>load_raw_stream\<close> makes of the feed, the load into ClickHouse (\<open>loaded\<close> is its error), the parser's
  exit and the rows the buffer now holds of this file.
\<close>

definition contains_text :: "string \<Rightarrow> string \<Rightarrow> bool" where
  "contains_text sub text = (sub \<in> set (map (\<lambda>i. take (length sub) (drop i text)) [0..<length text]))"

definition white :: "char \<Rightarrow> bool" where
  "white c = (c \<in> set [CHR '' '', CHR 0x09, CHR 0x0A, CHR 0x0B, CHR 0x0C, CHR 0x0D])"

text \<open>\<open>[-400:]\<close> and \<open>strip\<close> of what the parser wrote to its standard error.\<close>

definition error_tail :: "string \<Rightarrow> string" where
  "error_tail log = rev (dropWhile white (rev (dropWhile white (drop (length log - 400) log))))"

definition load_failure :: "feed \<Rightarrow> string \<Rightarrow> ingest_error \<Rightarrow> ingest_error" where
  "load_failure fd tail err =
     (case fd_error fd of Some e \<Rightarrow> e
      | None \<Rightarrow> if tail \<noteq> [] \<and> \<not> contains_text ''parsed '' tail then PARSER_FAILED else err)"

definition load_raw_stream :: "(bytes \<Rightarrow> string) \<Rightarrow> raw_object \<Rightarrow> bool \<Rightarrow> feed \<Rightarrow> ingest_error option \<Rightarrow> parser_end
    \<Rightarrow> nat \<Rightarrow> nat \<Rightarrow> ingest_error + nat" where
  "load_raw_stream sha raw binary fd loaded pe lines buffered =
     (case loaded of Some err \<Rightarrow> Inl (load_failure fd (error_tail (pe_log pe)) err)
      | None \<Rightarrow> (case fd_error fd of Some e \<Rightarrow> Inl e
        | None \<Rightarrow>
            if length (fd_hashed fd) \<noteq> ro_size raw \<or> sha (fd_hashed fd) \<noteq> ro_sha raw then Inl VERIFY_FAILED
            else if pe_returncode pe \<noteq> 0 then Inl PARSER_FAILED
            else if binary \<and> pe_counts pe = [] then Inl PARSER_FAILED
            else let total = (if binary then last (pe_counts pe) else lines)
              in if buffered \<noteq> total then Inl ROWS_VERIFY_FAILED else Inr total))"

section \<open>Loading a batch\<close>

text \<open>
  The buffer table of a lane holds rows of several files. \<open>load\<close> is the load of one file (it appends to the
  buffer even when it then fails); \<open>commit\<close> is the commit of the buffer, which does not change it.
\<close>

datatype batch_result = Batch_done "(string \<times> nat) list" | Batch_load_error string ingest_error | Batch_commit_error

fun load_batch :: "('r list \<Rightarrow> string \<Rightarrow> (ingest_error + nat) \<times> 'r list) \<Rightarrow> string list \<Rightarrow> 'r list \<Rightarrow> (string \<times> nat) list
    \<Rightarrow> (string \<times> ingest_error + (string \<times> nat) list) \<times> 'r list" where
  "load_batch load [] buf rows = (Inr rows, buf)"
| "load_batch load (f # fs) buf rows = (case load buf f of
       (Inl e, buf') \<Rightarrow> (Inl (f, e), [])
     | (Inr n, buf') \<Rightarrow> load_batch load fs buf' (rows @ [(f, n)]))"

definition ingest_batch :: "('r list \<Rightarrow> string \<Rightarrow> (ingest_error + nat) \<times> 'r list) \<Rightarrow> ('r list \<Rightarrow> string list \<Rightarrow> bool) \<Rightarrow> string list
    \<Rightarrow> 'r list \<Rightarrow> batch_result \<times> 'r list" where
  "ingest_batch load commit fs buf = (case load_batch load fs [] [] of
       (Inl (f, e), buf') \<Rightarrow> (Batch_load_error f e, buf')
     | (Inr rows, buf') \<Rightarrow> (if commit buf' fs then Batch_done rows else Batch_commit_error, []))"

section \<open>Every chunk in order\<close>

definition byte_slice :: "'a list \<Rightarrow> nat \<times> nat \<Rightarrow> 'a list" where
  "byte_slice xs span = take (snd span - fst span) (drop (fst span) xs)"

text \<open>The ranges read one after another.\<close>

fun in_order :: "('b \<Rightarrow> ingest_error + 'a) \<Rightarrow> 'b list \<Rightarrow> 'a list \<times> ingest_error option" where
  "in_order read [] = ([], None)"
| "in_order read (x # xs) = (case read x of Inl e \<Rightarrow> ([], Some e)
     | Inr a \<Rightarrow> (case in_order read xs of (as, err) \<Rightarrow> (a # as, err)))"

lemma range_bounds_step: "0 < step \<Longrightarrow> start < len \<Longrightarrow>
    range_bounds start step len = (start, min (start + step) len) # range_bounds (start + step) step len"
  and range_bounds_done: "len \<le> start \<Longrightarrow> range_bounds start step len = []"
  by (subst range_bounds.simps, simp)+

lemma range_bounds_spans:
  "0 < step \<Longrightarrow> span \<in> set (range_bounds start step len) \<Longrightarrow> start \<le> fst span \<and> fst span < snd span \<and> snd span \<le> len"
proof (induction start step len rule: range_bounds.induct)
  case (1 start step len)
  show ?case
  proof (cases "start < len")
    case True
    then show ?thesis using 1 range_bounds_step [of step start len] by (auto dest: 1(1) [rotated 2])
  next
    case False
    then show ?thesis using "1.prems" by (simp add: range_bounds_done)
  qed
qed

lemma range_bounds_cover:
  "0 < step \<Longrightarrow> length xs = len \<Longrightarrow> concat (map (byte_slice xs) (range_bounds start step len)) = drop start xs"
proof (induction start step len rule: range_bounds.induct)
  case (1 start step len)
  show ?case
  proof (cases "start < len")
    case True
    have "concat (map (byte_slice xs) (range_bounds (start + step) step len)) = drop (start + step) xs"
      using 1 True by simp
    moreover have "byte_slice xs (start, min (start + step) len) @ drop (start + step) xs = drop start xs"
    proof (cases "start + step \<le> len")
      case True
      have "take step (drop start xs) @ drop (start + step) xs = drop start xs"
        using append_take_drop_id [of step "drop start xs"] by (simp add: add.commute)
      with True show ?thesis by (simp add: byte_slice_def min_def)
    next
      case False
      then show ?thesis using "1.prems" by (simp add: byte_slice_def min_def)
    qed
    ultimately show ?thesis using "1.prems" True by (simp add: range_bounds_step)
  next
    case False
    then show ?thesis using "1.prems" by (simp add: range_bounds_done)
  qed
qed

lemma stream_loop_in_order:
  assumes "0 < ahead"
  shows "stream_loop read n ahead i (map (\<lambda>j. (j, read j)) [i..<min (i + ahead) n]) = in_order read [i..<n]"
proof (induction "n - i" arbitrary: i)
  case 0
  then show ?case by (simp add: stream_loop.simps)
next
  case (Suc d)
  let ?pend = "\<lambda>i. map (\<lambda>j. (j, read j)) [i..<min (i + ahead) n]"
  have i: "i < n" using Suc by simp
  then have first: "[i..<min (i + ahead) n] = i # [Suc i..<min (i + ahead) n]" using assms by (simp add: upt_rec)
  have rest: "filter (\<lambda>p. fst p \<noteq> i) (?pend i) = map (\<lambda>j. (j, read j)) [Suc i..<min (i + ahead) n]"
    unfolding first by (auto simp: filter_map o_def intro: filter_True)
  have pend: "(if i + ahead < n then filter (\<lambda>p. fst p \<noteq> i) (?pend i) @ [(i + ahead, read (i + ahead))]
      else filter (\<lambda>p. fst p \<noteq> i) (?pend i)) = ?pend (Suc i)"
    unfolding rest using assms by (auto simp: min_def)
  have hit: "map_of (?pend i) i = Some (read i)" unfolding first by simp
  have "stream_loop read n ahead (Suc i) (?pend (Suc i)) = in_order read [Suc i..<n]"
    using Suc by (intro Suc.hyps(1)) simp
  then show ?case
    using i by (subst stream_loop.simps) (simp add: hit pend upt_conv_Cons Let_def split: sum.split)
qed

lemma in_order_map: "in_order (\<lambda>i. read (f i)) xs = in_order read (map f xs)"
  by (induction xs) (auto split: sum.split)

lemma stream_ranges_in_order:
  "stream_ranges get stopped len streams chunk =
     in_order (\<lambda>i. fetch get (stopped i) (range_bounds 0 chunk len ! i)) [0..<length (range_bounds 0 chunk len)]"
  using stream_loop_in_order [of "2 * max 1 streams" _ _ 0] by (simp add: stream_ranges_def Let_def)

lemma fetch_length: "fetch get st span = Inr data \<Longrightarrow> length data = snd span - fst span"
  by (auto simp: fetch_def split: if_splits option.splits sum.splits)

lemma in_order_lengths:
  "in_order (\<lambda>i. fetch get (st i) (xs ! i)) [k..<k + n] = (blocks, None) \<Longrightarrow>
     map length blocks = map (\<lambda>i. snd (xs ! i) - fst (xs ! i)) [k..<k + n]"
proof (induction n arbitrary: k blocks)
  case (Suc n)
  have split: "[k..<k + Suc n] = k # [Suc k..<Suc k + n]" by (simp add: upt_conv_Cons)
  show ?case using Suc.prems Suc.IH [of "Suc k"] unfolding split
    by (auto split: sum.splits prod.splits dest: fetch_length)
qed simp

lemma read_pieces_all:
  "\<forall>p \<in> set ps. p \<noteq> [] \<Longrightarrow> length got + length (concat ps) \<le> asked \<Longrightarrow> read_pieces asked ps got = Inr (got @ concat ps)"
  by (induction ps arbitrary: got) auto

text \<open>An object store that answers every range of the object \<open>xs\<close> with its bytes.\<close>

definition serves :: "bytes \<Rightarrow> (nat \<times> nat \<Rightarrow> bytes list option) \<Rightarrow> bool" where
  "serves xs get \<longleftrightarrow> (\<forall>s e. s < e \<and> e \<le> length xs \<longrightarrow>
     (\<exists>ps. get (s, e) = Some ps \<and> (\<forall>p \<in> set ps. p \<noteq> []) \<and> concat ps = byte_slice xs (s, e)))"

lemma fetch_served:
  assumes "serves xs get" "s < e" "e \<le> length xs"
  shows "fetch get False (s, e) = Inr (byte_slice xs (s, e))"
proof -
  obtain ps where ps: "get (s, e) = Some ps" "\<forall>p \<in> set ps. p \<noteq> []" "concat ps = byte_slice xs (s, e)"
    using assms unfolding serves_def by blast
  have len: "length (byte_slice xs (s, e)) = e - s" using assms by (simp add: byte_slice_def)
  then have "read_pieces (e - s) ps [] = Inr (byte_slice xs (s, e))"
    using read_pieces_all [of ps "[]" "e - s"] ps by simp
  then show ?thesis using ps(1) len by (simp add: fetch_def)
qed

lemma in_order_ok: "\<forall>x \<in> set xs. read x = Inr (g x) \<Longrightarrow> in_order read xs = (map g xs, None)"
  by (induction xs) auto

lemma fetch_all_served:
  assumes "serves xs get" "0 < step" "span \<in> set (range_bounds 0 step (length xs))"
  shows "fetch get False span = Inr (byte_slice xs span)"
  using fetch_served [OF assms(1), of "fst span" "snd span"] range_bounds_spans [OF assms(2,3)] by simp

lemma write_ranges_prefix:
  assumes "\<forall>span \<in> set (range_bounds start step (length xs)). read span = Inr (byte_slice xs span)"
    "0 < step" "start \<le> length xs" "length buf = length xs" "take start buf = take start xs"
  shows "write_ranges read (range_bounds start step (length xs)) buf = Inr xs"
  using assms
proof (induction start step "length xs" arbitrary: buf rule: range_bounds.induct)
  case (1 start step)
  show ?case
  proof (cases "start < length xs")
    case True
    let ?e = "min (start + step) (length xs)"
    let ?buf = "write_at buf start (byte_slice xs (start, ?e))"
    have split: "range_bounds start step (length xs) = (start, ?e) # range_bounds (start + step) step (length xs)"
      using True "1.prems" by (simp add: range_bounds_step)
    have len: "length (byte_slice xs (start, ?e)) = ?e - start" using True by (simp add: byte_slice_def)
    have len2: "length ?buf = length xs" using len True "1.prems" by (simp add: write_at_def)
    have "take ?e xs = take start xs @ byte_slice xs (start, ?e)"
      using True by (simp add: byte_slice_def flip: take_add)
    then have pre: "take ?e ?buf = take ?e xs"
      using len True "1.prems" by (simp add: write_at_def)
    have "write_ranges read (range_bounds (start + step) step (length xs)) ?buf = Inr xs"
    proof (cases "start + step \<le> length xs")
      case True
      then show ?thesis using "1.hyps" "1.prems" len2 pre split by simp
    next
      case False
      then have "?buf = xs" using pre len2 by simp
      then show ?thesis using False by (simp add: range_bounds_done)
    qed
    then show ?thesis using "1.prems"(1) unfolding split by simp
  next
    case False
    then show ?thesis using "1.prems" by (simp add: range_bounds_done)
  qed
qed

text \<open>
  Property C31. Whatever the object store answers, a stream that ends without an error yields one chunk per
  range, in order and exactly as long as asked. With a store that serves the object, the stream and the
  parallel download both deliver exactly its bytes.
\<close>

theorem object_delivered:
  assumes "0 < chunk" "0 < streams"
  shows "(\<forall>get stopped len blocks. stream_ranges get stopped len streams chunk = (blocks, None) \<longrightarrow>
            map length blocks = map (\<lambda>span. snd span - fst span) (range_bounds 0 chunk len)) \<and>
         (\<forall>get xs. serves xs get \<longrightarrow>
            (\<exists>blocks. stream_ranges get (\<lambda>_. False) (length xs) streams chunk = (blocks, None) \<and> concat blocks = xs) \<and>
            download_ranges get False (length xs) streams = Inr xs)"
proof (intro conjI allI impI)
  fix get stopped len blocks assume "stream_ranges get stopped len streams chunk = (blocks, None)"
  then show "map length blocks = map (\<lambda>span. snd span - fst span) (range_bounds 0 chunk len)"
    unfolding stream_ranges_in_order using in_order_lengths [of get stopped "range_bounds 0 chunk len" 0]
    by (auto intro: nth_equalityI)
next
  fix get and xs :: bytes assume serves: "serves xs get"
  let ?bounds = "range_bounds 0 chunk (length xs)"
  have "stream_ranges get (\<lambda>_. False) (length xs) streams chunk = in_order (fetch get False) ?bounds"
    unfolding stream_ranges_in_order by (simp add: in_order_map map_nth)
  also have "\<dots> = (map (byte_slice xs) ?bounds, None)"
    using fetch_all_served [OF serves assms(1)] by (intro in_order_ok) blast
  finally show "\<exists>blocks. stream_ranges get (\<lambda>_. False) (length xs) streams chunk = (blocks, None) \<and> concat blocks = xs"
    using range_bounds_cover [OF assms(1), of xs "length xs" 0] by auto
  show "download_ranges get False (length xs) streams = Inr xs"
  proof (cases "xs = []")
    case False
    then have "streams \<le> length xs + streams - 1" using assms(2) by (cases xs) auto
    then have step: "0 < (length xs + streams - 1) div streams" using assms(2) by (simp add: div_greater_zero_iff)
    have "write_ranges (fetch get False) (range_bounds 0 ((length xs + streams - 1) div streams) (length xs))
        (replicate (length xs) 0) = Inr xs"
      by (rule write_ranges_prefix) (use fetch_all_served [OF serves step] step in auto)
    with False show ?thesis by (simp add: download_ranges_def)
  qed (simp add: download_ranges_def)
qed

theorem object_delivered_witness:
  "download_ranges (\<lambda>(s, e). Some [byte_slice [1, 2, 3, 4, 5] (s, e)]) False 5 2 = Inr [1, 2, 3, 4, 5]"
proof -
  let ?get = "\<lambda>(s, e). Some [byte_slice [1, 2, 3, 4, 5 :: 8 word] (s, e)]"
  have served: "serves [1, 2, 3, 4, 5] ?get" by (auto simp: serves_def byte_slice_def)
  have "0 < (3 :: nat)" "0 < (2 :: nat)" by simp_all
  from conjunct2 [OF object_delivered [OF this], rule_format, OF served] show ?thesis by (simp add: eval_nat_numeral)
qed

section \<open>Counting records\<close>

lemma records_snoc_nonempty: "cur \<noteq> [] \<Longrightarrow> records bs cur \<noteq> []"
  by (induction bs arbitrary: cur) auto

lemma records_length:
  "length (records bs cur) =
     count_list bs NEWLINE + (if bs = [] then (if cur = [] then 0 else 1) else if last bs = NEWLINE then 0 else 1)"
  by (induction bs cur rule: records.induct) auto

lemma count_reads:
  "\<forall>b \<in> set blocks. b \<noteq> [] \<Longrightarrow> foldl count_read c blocks =
     \<lparr>lc_lines = lc_lines c + count_list (concat blocks) NEWLINE,
      lc_last = (if blocks = [] then lc_last c else last (concat blocks))\<rparr>"
proof (induction blocks arbitrary: c)
  case (Cons b bs)
  have "last (concat (b # bs)) = (if bs = [] then last b else last (concat bs))"
  proof (cases bs)
    case (Cons d ds)
    then have "concat bs \<noteq> []" using Cons.prems by auto
    with Cons show ?thesis by simp
  qed simp
  then show ?case using Cons by (simp add: count_read_def count_list_append)
qed simp

text \<open>
  Whatever pieces ClickHouse reads the parser's output in, the counter ends at the number of
  records in it, an unterminated last record included, and further empty reads change nothing.
\<close>

theorem counter_counts_records:
  assumes "\<forall>b \<in> set blocks. b \<noteq> []"
  shows "lc_lines (foldl count_read new_counter (blocks @ replicate (Suc n) [])) = length (records (concat blocks) [])"
proof -
  let ?c = "foldl count_read new_counter blocks"
  have c: "?c = \<lparr>lc_lines = count_list (concat blocks) NEWLINE, lc_last = (if blocks = [] then NEWLINE else last (concat blocks))\<rparr>"
    using count_reads [OF assms, of new_counter] by (simp add: new_counter_def)
  have idem: "foldl count_read d (replicate k []) = d" if "lc_last d = NEWLINE" for d k
    using that by (induction k) (simp_all add: count_read_def)
  have ne: "concat blocks = [] \<longleftrightarrow> blocks = []" using assms by (cases blocks) auto
  have "lc_last (count_read ?c []) = NEWLINE" by (simp add: count_read_def)
  then have "foldl count_read new_counter (blocks @ replicate (Suc n) []) = count_read ?c []"
    using idem by simp
  then show ?thesis using ne by (simp add: records_length c count_read_def)
qed

theorem counter_counts_records_witness:
  "lc_lines (foldl count_read new_counter ([[65, 10], [66]] @ replicate (Suc 1) [])) = 2"
  using counter_counts_records [of "[[65, 10], [66]]" 1] by (simp add: NEWLINE_def)

section \<open>Nothing unverified is committed\<close>

lemma feed_run_ok:
  "fd_error (feed_run broken k blocks err fd) = None \<Longrightarrow>
     err = None \<and> fd_hashed (feed_run broken k blocks err fd) = fd_hashed fd @ concat blocks \<and>
     fd_written (feed_run broken k blocks err fd) = fd_written fd @ concat blocks"
  by (induction broken k blocks err fd rule: feed_run.induct) (auto simp: Let_def split: if_splits)

text \<open>
  Property C32. A file counts as loaded only if the whole stream arrived without an error, went to the parser
  as it was hashed, has the recorded length and hash, the parser exited cleanly and the buffered rows are as
  many as it reported.
\<close>

theorem load_accepts_only_verified:
  assumes "load_raw_stream sha raw binary (parser_feed broken stream) loaded pe lines buffered = Inr n"
  shows "loaded = None \<and> snd stream = None \<and> fd_written (parser_feed broken stream) = concat (fst stream) \<and>
    length (concat (fst stream)) = ro_size raw \<and> sha (concat (fst stream)) = ro_sha raw \<and> pe_returncode pe = 0 \<and>
    buffered = n \<and> (if binary then pe_counts pe \<noteq> [] \<and> n = last (pe_counts pe) else n = lines)"
proof -
  let ?fd = "parser_feed broken stream"
  have ok: "loaded = None" "fd_error ?fd = None"
    using assms by (auto simp: load_raw_stream_def split: option.splits)
  then have fd: "snd stream = None" "fd_hashed ?fd = concat (fst stream)" "fd_written ?fd = concat (fst stream)"
    using feed_run_ok [of broken 0 "fst stream" "snd stream"] by (auto simp: parser_feed_def)
  then show ?thesis
    using assms ok by (auto simp: load_raw_stream_def Let_def split: if_splits)
qed

theorem load_accepts_only_verified_witness:
  "fd_written (parser_feed (\<lambda>_. False) ([[1, 2], [3]], None)) = [1, 2, 3]"
proof -
  have "load_raw_stream (\<lambda>bs. if bs = [1, 2, 3] then ''h'' else []) \<lparr>ro_size = 3, ro_sha = ''h''\<rparr> True
      (parser_feed (\<lambda>_. False) ([[1, 2], [3]], None)) None \<lparr>pe_returncode = 0, pe_log = [], pe_counts = [7]\<rparr> 0 7 = Inr 7"
    by (simp add: load_raw_stream_def parser_feed_def Let_def)
  from load_accepts_only_verified [OF this] show ?thesis by simp
qed

text \<open>A batch is committed with every file loaded, or nothing is; the buffer is empty afterwards.\<close>

lemma load_batch_files: "fst (load_batch load fs buf rows) = Inr out \<Longrightarrow> map fst out = map fst rows @ fs"
  by (induction load fs buf rows rule: load_batch.induct) (auto split: prod.splits sum.splits)

lemma ingest_batch_all_or_nothing:
  "snd (ingest_batch load commit fs buf) = [] \<and>
   (\<forall>rows. fst (ingest_batch load commit fs buf) = Batch_done rows \<longrightarrow> map fst rows = fs)"
proof -
  have "snd (load_batch load fs buf rows) = []" if "fst (load_batch load fs buf rows) = Inl e" for buf rows and e :: "string \<times> ingest_error"
    using that by (induction load fs buf rows rule: load_batch.induct) (auto split: prod.splits sum.splits)
  from this [of "[]" "[]"] show ?thesis
    using load_batch_files [of load fs "[]" "[]"] by (auto simp: ingest_batch_def split: prod.splits sum.splits)
qed

end
