(* ===== verification/RowsSchedule.thy ===== *)
theory RowsSchedule
  imports Prelude
begin

text \<open>
  Which file a lane of \<open>app/binlog_rows_worker.py\<close> loads and when: the retry state (\<open>due\<close>, \<open>failed\<close>,
  \<open>succeeded\<close>, \<open>stuck_files\<close>), the candidate list (\<open>candidates\<close>, \<open>_gap_rows\<close>, \<open>_entries\<close>) and the two
  waits for capacity (\<open>wait_for_capacity\<close>, \<open>move_slot\<close>). Times are whole seconds; what a wait reads on each
  turn is a list of samples.
\<close>

section \<open>Retries\<close>

definition RETRY_BASE_SECONDS :: int where "RETRY_BASE_SECONDS = 30"
definition RETRY_MAX_SECONDS :: int where "RETRY_MAX_SECONDS = 1800"
definition STUCK_FAILURES :: nat where "STUCK_FAILURES = 5"

record retry =
  r_count :: nat
  r_due :: int
  r_name :: string

type_synonym retries = "string \<Rightarrow> retry option"

definition due :: "retries \<Rightarrow> int \<Rightarrow> string \<Rightarrow> bool" where
  "due rs now f = (case rs f of None \<Rightarrow> True | Some r \<Rightarrow> r_due r \<le> now)"

text \<open>\<open>RETRY_BASE_SECONDS * 2 ** (count - 1)\<close> is a float product: Python raises once the integer power is too large for one.\<close>

definition retry_delay :: "nat \<Rightarrow> int option" where
  "retry_delay count =
     (if 1024 \<le> count - 1 then None else Some (min (RETRY_BASE_SECONDS * 2 ^ (count - 1)) RETRY_MAX_SECONDS))"

text \<open>The delay and the new state, or \<open>None\<close> when the delay cannot be computed (nothing is stored then).\<close>

definition failed :: "int \<Rightarrow> string \<Rightarrow> string \<Rightarrow> retries \<Rightarrow> (int \<times> retries) option" where
  "failed now f name rs =
     (let count = (case rs f of None \<Rightarrow> 0 | Some r \<Rightarrow> r_count r) + 1
      in case retry_delay count of None \<Rightarrow> None
        | Some delay \<Rightarrow> Some (delay, rs(f \<mapsto> \<lparr>r_count = count, r_due = now + delay, r_name = name\<rparr>)))"

definition succeeded :: "string \<Rightarrow> retries \<Rightarrow> retries" where
  "succeeded f rs = rs(f := None)"

definition stuck_files :: "string list \<Rightarrow> retries \<Rightarrow> (string \<times> string \<times> nat) list" where
  "stuck_files fs rs = List.map_filter (\<lambda>f. case rs f of None \<Rightarrow> None
     | Some r \<Rightarrow> if STUCK_FAILURES \<le> r_count r then Some (f, r_name r, r_count r) else None) fs"

fun fail_times :: "(int \<times> string) list \<Rightarrow> string \<Rightarrow> retries \<Rightarrow> retries option" where
  "fail_times [] f rs = Some rs"
| "fail_times ((now, name) # ts) f rs = (case failed now f name rs of None \<Rightarrow> None | Some (_, rs') \<Rightarrow> fail_times ts f rs')"

section \<open>Candidates\<close>

record file_entry =
  fe_id :: string
  fe_instance :: string
  fe_host :: string
  fe_name :: string
  fe_begin :: string
  fe_end :: string
  fe_has_raw :: bool

record parquet_part =
  pp_key :: string
  pp_rows :: int
  pp_length :: int

datatype load_kind = Raw string | Parquet "(string \<times> int) list"

definition CANDIDATE_SCAN_ROWS :: nat where "CANDIDATE_SCAN_ROWS = 5000"
definition GAP_SWEEP_SECONDS :: int where "GAP_SWEEP_SECONDS = 600"

record catalog =
  ct_files :: "file_entry list"
  ct_parts :: "string \<Rightarrow> parquet_part list"
  ct_descriptor :: "string \<Rightarrow> string option"
  ct_ingested :: "string \<Rightarrow> string \<Rightarrow> bool"
  ct_external :: "(string \<times> string \<times> string) list"

text \<open>One row of \<open>_entries\<close>: its way of loading before the descriptors are read, or \<open>None\<close> when it is passed over.\<close>

definition row_kind :: "catalog \<Rightarrow> file_entry \<Rightarrow> load_kind option" where
  "row_kind ct e =
     (if fe_has_raw e then Some (Raw [])
      else if \<exists>(i, s, t) \<in> set (ct_external ct). i = fe_instance e \<and> s \<le> fe_begin e \<and> fe_begin e < t then None
      else let parts = ct_parts ct (fe_id e)
        in if parts = [] \<or> (\<exists>p \<in> set parts. pp_length p \<noteq> 0 \<or> pp_key p = []) then None
           else Some (Parquet (map (\<lambda>p. (pp_key p, pp_rows p)) parts)))"

definition passed_over :: "catalog \<Rightarrow> (string \<Rightarrow> bool) \<Rightarrow> file_entry \<Rightarrow> bool" where
  "passed_over ct skip e = (skip (fe_id e) \<or> ct_ingested ct (fe_instance e) (fe_id e))"

fun collect_entries :: "catalog \<Rightarrow> (string \<Rightarrow> bool) \<Rightarrow> nat \<Rightarrow> file_entry list \<Rightarrow> (file_entry \<times> load_kind) list
    \<Rightarrow> (file_entry \<times> load_kind) list" where
  "collect_entries ct skip limit [] out = out"
| "collect_entries ct skip limit (e # es) out =
     (if limit \<le> length out then out
      else if passed_over ct skip e then collect_entries ct skip limit es out
      else case row_kind ct e of None \<Rightarrow> collect_entries ct skip limit es out
        | Some k \<Rightarrow> collect_entries ct skip limit es (out @ [(e, k)]))"

text \<open>The descriptors of the raw files handed out; a raw file without one is dropped.\<close>

definition with_descriptor :: "catalog \<Rightarrow> file_entry \<times> load_kind \<Rightarrow> (file_entry \<times> load_kind) option" where
  "with_descriptor ct p = (case snd p of Parquet ps \<Rightarrow> Some p
     | Raw _ \<Rightarrow> map_option (\<lambda>d. (fst p, Raw d)) (ct_descriptor ct (fe_id (fst p))))"

definition entries_of :: "catalog \<Rightarrow> file_entry list \<Rightarrow> nat \<Rightarrow> (string \<Rightarrow> bool) \<Rightarrow> (file_entry \<times> load_kind) list" where
  "entries_of ct rows limit skip = List.map_filter (with_descriptor ct) (collect_entries ct skip limit rows [])"

record lane_spec =
  ls_window :: "(string \<times> string \<times> string) option"

text \<open>The SQL of \<open>candidates\<close> on done files in order of their begin, newest first.\<close>

definition candidate_row :: "string \<Rightarrow> (string \<times> string \<times> string) option \<Rightarrow> string list \<Rightarrow> (string \<Rightarrow> bool) \<Rightarrow> file_entry \<Rightarrow> bool" where
  "candidate_row floor window other_hosts is_done e =
     (is_done (fe_id e) \<and> fe_host e \<notin> set other_hosts \<and> CHR ''/'' \<notin> set (fe_name e) \<and> floor \<le> fe_end e \<and>
      (case window of None \<Rightarrow> True | Some (i, s, t) \<Rightarrow> fe_instance e = i \<and> s \<le> fe_end e \<and> fe_begin e < t))"

definition newest_first :: "file_entry list \<Rightarrow> file_entry list" where
  "newest_first es = rev (sort_key fe_begin (rev es))"

definition candidate_rows :: "string \<Rightarrow> (string \<times> string \<times> string) option \<Rightarrow> string list \<Rightarrow> (string \<Rightarrow> bool) \<Rightarrow> file_entry list
    \<Rightarrow> file_entry list" where
  "candidate_rows floor window other_hosts is_done es = newest_first (filter (candidate_row floor window other_hosts is_done) es)"

text \<open>\<open>_gap_rows\<close>: older raw files missing in the row store, swept again after \<open>GAP_SWEEP_SECONDS\<close>.\<close>

definition gap_rows :: "catalog \<Rightarrow> int \<Rightarrow> file_entry list \<Rightarrow> string \<Rightarrow> (int \<times> file_entry list) option
    \<Rightarrow> file_entry list \<times> (int \<times> file_entry list) option" where
  "gap_rows ct now rows before cache =
     (case cache of
        Some (at, missing) \<Rightarrow> if now - at < GAP_SWEEP_SECONDS then (missing, cache) else
          (let missing = filter (\<lambda>e. fe_has_raw e \<and> fe_begin e \<le> before \<and> \<not> ct_ingested ct (fe_instance e) (fe_id e)) rows
           in (missing, Some (now, missing)))
      | None \<Rightarrow>
          (let missing = filter (\<lambda>e. fe_has_raw e \<and> fe_begin e \<le> before \<and> \<not> ct_ingested ct (fe_instance e) (fe_id e)) rows
           in (missing, Some (now, missing))))"

definition candidates :: "catalog \<Rightarrow> string \<Rightarrow> string list \<Rightarrow> (string \<Rightarrow> bool) \<Rightarrow> lane_spec \<Rightarrow> int \<Rightarrow> nat \<Rightarrow> (int \<times> file_entry list) option
    \<Rightarrow> (file_entry \<times> load_kind) list \<times> (int \<times> file_entry list) option" where
  "candidates ct floor other_hosts is_done lane now limit cache =
     (let all_rows = candidate_rows floor (ls_window lane) other_hosts is_done (ct_files ct);
          rows = take CANDIDATE_SCAN_ROWS all_rows;
          out = entries_of ct rows limit (\<lambda>_. False)
      in if ls_window lane = None \<and> length out < limit \<and> CANDIDATE_SCAN_ROWS \<le> length rows
         then (case gap_rows ct now all_rows (fe_begin (last rows)) cache of
                 (gaps, cache') \<Rightarrow> (out @ entries_of ct gaps (limit - length out) (\<lambda>f. f \<in> (fe_id \<circ> fst) ` set out), cache'))
         else (out, cache))"

section \<open>Waiting for capacity\<close>

datatype pause = Slice_unreadable | Slice_memory | Clickhouse_memory | Clickhouse_unavailable | Collector_lag

text \<open>One turn of \<open>wait_for_capacity\<close>: what it reads; \<open>None\<close> where the read fails.\<close>

record capacity =
  cp_stop :: bool
  cp_slice :: "int option"
  cp_clickhouse :: "int option"
  cp_lag :: int

record limits =
  lm_clickhouse :: int
  lm_slice :: int
  lm_slice_guard :: bool
  lm_live :: bool
  lm_headroom :: int

definition pause_reason :: "limits \<Rightarrow> capacity \<Rightarrow> pause option" where
  "pause_reason lm c =
     (let room = (if lm_live lm then lm_headroom lm else 0)
      in if lm_slice_guard lm \<and> cp_slice c = None then Some Slice_unreadable
         else if lm_slice_guard lm \<and> (\<exists>used. cp_slice c = Some used \<and> lm_slice lm + room < used) then Some Slice_memory
         else case cp_clickhouse c of None \<Rightarrow> Some Clickhouse_unavailable
           | Some used \<Rightarrow> if lm_clickhouse lm + room < used then Some Clickhouse_memory
               else if \<not> lm_live lm \<and> 1200 < cp_lag c then Some Collector_lag else None)"

text \<open>The loop over the samples; \<open>None\<close> while it still waits.\<close>

fun wait_for_capacity :: "limits \<Rightarrow> capacity list \<Rightarrow> bool option" where
  "wait_for_capacity lm [] = None"
| "wait_for_capacity lm (c # cs) =
     (if cp_stop c then Some False
      else if pause_reason lm c = None then Some True else wait_for_capacity lm cs)"

text \<open>\<open>move_slot\<close> once a slot is acquired: the memory read of each turn (\<open>None\<close>: the server does not answer).\<close>

datatype slot_turn = Slot_turn "int option" bool int

fun await_room :: "int \<Rightarrow> int \<Rightarrow> slot_turn list \<Rightarrow> bool option" where
  "await_room limit deadline [] = (if 0 < limit then None else Some True)"
| "await_room limit deadline (Slot_turn used stop now # ts) =
     (if limit \<le> 0 then Some True
      else case used of None \<Rightarrow> Some True
        | Some u \<Rightarrow> if u \<le> limit then Some True
            else if stop then Some False
            else if deadline \<le> now then Some True
            else await_room limit deadline ts)"

text \<open>The slots: acquired by waiting in turns of five seconds, released whatever the body does.\<close>

fun acquire_slot :: "(bool \<times> bool) list \<Rightarrow> bool option" where
  "acquire_slot [] = None"
| "acquire_slot ((free, stop) # ts) = (if free then Some True else if stop then Some False else acquire_slot ts)"

section \<open>Backoff\<close>

lemma backoff_bounds:
  "1 \<le> n \<Longrightarrow> n \<le> 1024 \<Longrightarrow> \<exists>d. retry_delay n = Some d \<and> 30 \<le> d \<and> d \<le> 1800"
proof -
  assume "1 \<le> n" "n \<le> 1024"
  have "(1::int) \<le> 2 ^ (n - 1)" by simp
  then show ?thesis using \<open>n \<le> 1024\<close>
    by (auto simp: retry_delay_def RETRY_BASE_SECONDS_def RETRY_MAX_SECONDS_def)
qed

lemma backoff_mono:
  assumes "1 \<le> a" "a \<le> b" "retry_delay a = Some d" "retry_delay b = Some e"
  shows "d \<le> e"
proof -
  have "(2::int) ^ (a - 1) \<le> 2 ^ (b - 1)" using assms(1,2) by (intro power_increasing) auto
  moreover have "d = min (30 * 2 ^ (a - 1)) 1800" "e = min (30 * 2 ^ (b - 1)) 1800"
    using assms(3,4) by (auto simp: retry_delay_def RETRY_BASE_SECONDS_def RETRY_MAX_SECONDS_def split: if_splits)
  ultimately show ?thesis by linarith
qed

lemma fail_times_state:
  assumes "length ts \<le> 1024" "rs f = None"
  shows "\<exists>rs'. fail_times ts f rs = Some rs' \<and> (\<forall>g. g \<noteq> f \<longrightarrow> rs' g = rs g) \<and>
    (ts \<noteq> [] \<longrightarrow> (\<exists>d. retry_delay (length ts) = Some d \<and>
       rs' f = Some \<lparr>r_count = length ts, r_due = fst (last ts) + d, r_name = snd (last ts)\<rparr>)) \<and> (ts = [] \<longrightarrow> rs' = rs)"
  using assms(1)
proof (induction ts rule: rev_induct)
  case (snoc t ts)
  then obtain u where u: "fail_times ts f rs = Some u" "\<forall>g. g \<noteq> f \<longrightarrow> u g = rs g"
      "(case u f of None \<Rightarrow> 0 | Some r \<Rightarrow> r_count r) = length ts"
    using assms(2) by (cases "ts = []") auto
  have step: "fail_times (ts @ [t]) f rs = (case failed (fst t) f (snd t) u of None \<Rightarrow> None | Some (_, rs') \<Rightarrow> Some rs')"
  proof -
    have "fail_times (xs @ [t]) f r = (case fail_times xs f r of None \<Rightarrow> None
        | Some w \<Rightarrow> (case failed (fst t) f (snd t) w of None \<Rightarrow> None | Some (_, rs') \<Rightarrow> Some rs'))" for xs r
      by (cases t, induction xs f r rule: fail_times.induct) (auto split: option.splits prod.splits)
    then show ?thesis using u(1) by simp
  qed
  obtain d where d: "retry_delay (Suc (length ts)) = Some d"
    using backoff_bounds [of "Suc (length ts)"] snoc.prems by auto
  then show ?case using u step by (auto simp: failed_def Let_def)
qed simp

text \<open>
  Property C33. The first 1024 failures of a file set its retry 30 to 1800 seconds ahead, later failures no
  earlier than former ones, and touch no other file; it is due again exactly from then on and listed as
  stuck from the fifth failure. The next failure cannot be stored: the power no longer fits a float.
\<close>

theorem retry_backoff:
  assumes "ts \<noteq> []" "length ts \<le> 1024" "rs f = None"
  shows "\<exists>rs' d. fail_times ts f rs = Some rs' \<and> 30 \<le> d \<and> d \<le> 1800 \<and>
    (\<forall>now. due rs' now f = (fst (last ts) + d \<le> now)) \<and> (\<forall>g. g \<noteq> f \<longrightarrow> rs' g = rs g) \<and>
    (stuck_files [f] rs' \<noteq> [] \<longleftrightarrow> 5 \<le> length ts) \<and>
    (length ts = 1024 \<longrightarrow> (\<forall>now name. failed now f name rs' = None))"
proof -
  obtain rs' d where r: "fail_times ts f rs = Some rs'" "\<forall>g. g \<noteq> f \<longrightarrow> rs' g = rs g" "retry_delay (length ts) = Some d"
      "rs' f = Some \<lparr>r_count = length ts, r_due = fst (last ts) + d, r_name = snd (last ts)\<rparr>"
    using fail_times_state [of ts rs f, OF assms(2,3)] assms(1) by auto
  have "1 \<le> length ts" using assms(1) by (cases ts) auto
  then have "30 \<le> d" "d \<le> 1800" using backoff_bounds [of "length ts"] assms(2) r(3) by auto
  moreover have "retry_delay 1025 = None" by (simp add: retry_delay_def)
  ultimately show ?thesis using r
    by (intro exI [of _ rs'] exI [of _ d])
       (auto simp: due_def stuck_files_def List.map_filter_def STUCK_FAILURES_def failed_def)
qed

theorem retry_backoff_witness:
  "\<exists>rs' d. fail_times [(0, ''n''), (40, ''n'')] ''f'' Map.empty = Some rs' \<and> 30 \<le> d \<and> d \<le> (1800 :: int) \<and>
     due rs' (40 + d) ''f''"
  using retry_backoff [of "[(0, ''n''), (40, ''n'')]" Map.empty "''f''"] by auto

section \<open>The candidate list\<close>

definition loadable :: "catalog \<Rightarrow> (string \<Rightarrow> bool) \<Rightarrow> file_entry \<Rightarrow> (file_entry \<times> load_kind) option" where
  "loadable ct skip e = (if passed_over ct skip e then None else map_option (Pair e) (row_kind ct e))"

lemma collect_entries_take:
  "collect_entries ct skip limit es out = (if limit \<le> length out then out
     else out @ take (limit - length out) (List.map_filter (loadable ct skip) es))"
proof (induction ct skip limit es out rule: collect_entries.induct)
  case (2 ct skip limit e es out)
  show ?case
  proof (cases "limit \<le> length out")
    case False
    show ?thesis
    proof (cases "loadable ct skip e")
      case None
      then show ?thesis using 2 False
        by (auto simp: loadable_def List.map_filter_simps split: if_splits option.splits)
    next
      case (Some p)
      then obtain k where k: "\<not> passed_over ct skip e" "row_kind ct e = Some k" "p = (e, k)"
        by (auto simp: loadable_def split: if_splits)
      have "limit - length out = Suc (limit - Suc (length out))" using False by simp
      then show ?thesis using 2(3) [OF False k(1,2)] False Some k
        by (auto simp: List.map_filter_simps)
    qed
  qed simp
qed (simp add: List.map_filter_simps)

lemma map_filter_set: "x \<in> set (List.map_filter h xs) \<longleftrightarrow> (\<exists>y \<in> set xs. h y = Some x)"
  by (induction xs) (auto simp: List.map_filter_simps split: option.splits)

lemma entries_of_member:
  assumes "p \<in> set (entries_of ct rows limit skip)"
  shows "fst p \<in> set rows" "\<not> skip (fe_id (fst p))" "\<not> ct_ingested ct (fe_instance (fst p)) (fe_id (fst p))"
    "snd p = Raw d \<Longrightarrow> ct_descriptor ct (fe_id (fst p)) = Some d"
    "snd p = Parquet ps \<Longrightarrow> row_kind ct (fst p) = Some (Parquet ps)"
proof -
  obtain q where q: "q \<in> set (collect_entries ct skip limit rows [])" "with_descriptor ct q = Some p"
    using assms by (auto simp: entries_of_def map_filter_set)
  then have "q \<in> set (List.map_filter (loadable ct skip) rows)"
    by (auto simp: collect_entries_take split: if_splits dest: in_set_takeD)
  then obtain e k where e: "e \<in> set rows" "\<not> passed_over ct skip e" "row_kind ct e = Some k" "q = (e, k)"
    by (auto simp: map_filter_set loadable_def split: if_splits)
  have fst: "fst p = e" using q(2) e(4) by (auto simp: with_descriptor_def split: load_kind.splits)
  show "fst p \<in> set rows" "\<not> skip (fe_id (fst p))" "\<not> ct_ingested ct (fe_instance (fst p)) (fe_id (fst p))"
    using e(1,2) fst by (auto simp: passed_over_def)
  show "snd p = Raw d \<Longrightarrow> ct_descriptor ct (fe_id (fst p)) = Some d"
    "snd p = Parquet ps \<Longrightarrow> row_kind ct (fst p) = Some (Parquet ps)"
    using q(2) e(3,4) fst by (cases p; auto simp: with_descriptor_def split: load_kind.splits)+
qed

lemma map_filter_fst_distinct:
  assumes "distinct (map g xs)" "\<And>x y. h x = Some y \<Longrightarrow> g' y = g x"
  shows "distinct (map g' (List.map_filter h xs))"
  using assms(1)
proof (induction xs)
  case (Cons x xs)
  have sub: "g' ` set (List.map_filter h xs) \<subseteq> g ` set xs" using assms(2) by (auto simp: map_filter_set)
  then show ?case using Cons assms(2) [of x] by (auto simp: List.map_filter_simps split: option.splits)
qed (simp add: List.map_filter_simps)

lemma entries_of_distinct:
  assumes "distinct (map fe_id rows)"
  shows "distinct (map (fe_id \<circ> fst) (entries_of ct rows limit skip))"
proof -
  have "distinct (map (fe_id \<circ> fst) (List.map_filter (loadable ct skip) rows))"
    by (rule map_filter_fst_distinct [OF assms]) (auto simp: loadable_def split: if_splits)
  then have "distinct (map (fe_id \<circ> fst) (collect_entries ct skip limit rows []))"
    by (auto simp: collect_entries_take simp flip: take_map)
  then show ?thesis unfolding entries_of_def
    by (rule map_filter_fst_distinct) (auto simp: with_descriptor_def split: load_kind.splits)
qed

lemma entries_of_length: "length (entries_of ct rows limit skip) \<le> limit"
proof -
  have "length (List.map_filter h xs) \<le> length xs" for h :: "file_entry \<times> load_kind \<Rightarrow> (file_entry \<times> load_kind) option" and xs
    by (induction xs) (auto simp: List.map_filter_simps split: option.splits)
  then show ?thesis unfolding entries_of_def by (rule order_trans) (simp add: collect_entries_take)
qed

lemma disjoint_images: "(\<And>p. p \<in> B \<Longrightarrow> f p \<notin> f ` A) \<Longrightarrow> f ` A \<inter> f ` B = {}"
  by auto (metis imageI)

lemma candidate_rows_member:
  "set (candidate_rows floor window hosts is_done es) = {e \<in> set es. candidate_row floor window hosts is_done e}"
  by (auto simp: candidate_rows_def newest_first_def)

lemma candidate_rows_distinct:
  "distinct (map fe_id es) \<Longrightarrow> distinct (map fe_id (candidate_rows floor window hosts is_done es))"
proof -
  assume "distinct (map fe_id es)"
  then have "distinct (map fe_id (filter (candidate_row floor window hosts is_done) es))" by (rule distinct_map_filter)
  then have "distinct es'" "inj_on fe_id (set es')" if "es' = filter (candidate_row floor window hosts is_done) es" for es'
    using that by (auto simp: distinct_map)
  then show ?thesis by (simp add: candidate_rows_def newest_first_def distinct_map)
qed

lemma gap_rows_fresh:
  assumes "case cache of None \<Rightarrow> True | Some (at, missing) \<Rightarrow> distinct (map fe_id missing) \<and> set missing \<subseteq> set rows"
    "distinct (map fe_id rows)" "gap_rows ct now rows before cache = (gaps, cache')"
  shows "distinct (map fe_id gaps)" "set gaps \<subseteq> set rows"
  using assms by (auto simp: gap_rows_def Let_def distinct_map_filter split: option.splits prod.splits if_splits)

text \<open>
  The candidate list has at most \<open>limit\<close> files, each once; each is a finished binlog of the
  retention (and of the lane's window) that is not in the row store, and comes with its archive descriptor or
  with complete Parquet parts that no other backfill owns.
\<close>

theorem candidates_ready:
  assumes "candidates ct floor hosts is_done lane now limit cache = (out, cache')" "distinct (map fe_id (ct_files ct))"
    "case cache of None \<Rightarrow> True | Some (at, missing) \<Rightarrow> distinct (map fe_id missing) \<and>
       set missing \<subseteq> set (candidate_rows floor (ls_window lane) hosts is_done (ct_files ct))"
  shows "length out \<le> limit \<and> distinct (map (fe_id \<circ> fst) out) \<and>
    (\<forall>(e, k) \<in> set out. e \<in> set (ct_files ct) \<and> candidate_row floor (ls_window lane) hosts is_done e \<and>
       \<not> ct_ingested ct (fe_instance e) (fe_id e) \<and>
       (case k of Raw d \<Rightarrow> ct_descriptor ct (fe_id e) = Some d | Parquet ps \<Rightarrow> row_kind ct e = Some (Parquet ps)))"
proof -
  let ?all = "candidate_rows floor (ls_window lane) hosts is_done (ct_files ct)"
  let ?rows = "take CANDIDATE_SCAN_ROWS ?all"
  let ?first = "entries_of ct ?rows limit (\<lambda>_. False)"
  have dist: "distinct (map fe_id ?all)" "distinct (map fe_id ?rows)"
    using candidate_rows_distinct [OF assms(2)] by (auto simp flip: take_map)
  have member: "e \<in> set (ct_files ct) \<and> candidate_row floor (ls_window lane) hosts is_done e \<and>
       \<not> ct_ingested ct (fe_instance e) (fe_id e) \<and>
       (case k of Raw d \<Rightarrow> ct_descriptor ct (fe_id e) = Some d | Parquet ps \<Rightarrow> row_kind ct e = Some (Parquet ps))"
    if "(e, k) \<in> set (entries_of ct rows n skip)" "set rows \<subseteq> set ?all" for e k rows n skip
    using entries_of_member [OF that(1)] that(2) by (auto simp: candidate_rows_member split: load_kind.splits)
  have head: "length ?first \<le> limit" "distinct (map (fe_id \<circ> fst) ?first)"
    using entries_of_length entries_of_distinct [OF dist(2)] by auto
  show ?thesis
  proof (cases "ls_window lane = None \<and> length ?first < limit \<and> CANDIDATE_SCAN_ROWS \<le> length ?rows")
    case False
    then have "out = ?first" using assms(1) by (auto simp: candidates_def Let_def)
    then show ?thesis using head member [of _ _ ?rows] set_take_subset by fast
  next
    case True
    then obtain gaps where gaps: "gap_rows ct now ?all (fe_begin (last ?rows)) cache = (gaps, cache')"
        "out = ?first @ entries_of ct gaps (limit - length ?first) (\<lambda>f. f \<in> (fe_id \<circ> fst) ` set ?first)"
      using assms(1) by (auto simp: candidates_def Let_def split: prod.splits)
    let ?more = "entries_of ct gaps (limit - length ?first) (\<lambda>f. f \<in> (fe_id \<circ> fst) ` set ?first)"
    note fresh = gap_rows_fresh [OF assms(3) dist(1) gaps(1)]
    have "length ?more \<le> limit - length ?first" by (rule entries_of_length)
    moreover have "distinct (map (fe_id \<circ> fst) ?more)" using fresh(1) by (rule entries_of_distinct)
    moreover have "(fe_id \<circ> fst) p \<notin> (fe_id \<circ> fst) ` set ?first" if "p \<in> set ?more" for p
      using entries_of_member(2) [OF that] by simp
    then have "(fe_id \<circ> fst) ` set ?first \<inter> (fe_id \<circ> fst) ` set ?more = {}"
      by (rule disjoint_images)
    ultimately have "length out \<le> limit" "distinct (map (fe_id \<circ> fst) out)"
      using head True by (auto simp: gaps(2))
    moreover have "set ?rows \<subseteq> set ?all" by (rule set_take_subset)
    then have "\<forall>(e, k) \<in> set out. e \<in> set (ct_files ct) \<and> candidate_row floor (ls_window lane) hosts is_done e \<and>
       \<not> ct_ingested ct (fe_instance e) (fe_id e) \<and>
       (case k of Raw d \<Rightarrow> ct_descriptor ct (fe_id e) = Some d | Parquet ps \<Rightarrow> row_kind ct e = Some (Parquet ps))"
      using member [where rows = ?rows] member [where rows = gaps, OF _ fresh(2)] unfolding gaps(2) set_append by blast
    ultimately show ?thesis by blast
  qed
qed

definition demo_catalog :: catalog where
  "demo_catalog = \<lparr>ct_files = [\<lparr>fe_id = ''a'', fe_instance = ''i'', fe_host = ''h'', fe_name = ''mysql-bin.1'',
      fe_begin = ''2025-10-20'', fe_end = ''2025-10-21'', fe_has_raw = True\<rparr>],
    ct_parts = (\<lambda>_. []), ct_descriptor = (\<lambda>f. if f = ''a'' then Some ''d'' else None), ct_ingested = (\<lambda>_ _. False), ct_external = []\<rparr>"

theorem candidates_ready_witness:
  "\<exists>e. fst (candidates demo_catalog ''2025-09-01'' [] (\<lambda>_. True) \<lparr>ls_window = None\<rparr> 0 200 None) = [(e, Raw ''d'')] \<and>
     ct_descriptor demo_catalog (fe_id e) = Some ''d''"
proof -
  let ?r = "candidates demo_catalog ''2025-09-01'' [] (\<lambda>_. True) \<lparr>ls_window = None\<rparr> 0 200 None"
  have floor: "''2025-09-01'' \<le> ''2025-10-21''" by code_simp
  have r: "\<exists>e. ?r = ([(e, Raw ''d'')], None)"
    by (simp add: candidates_def demo_catalog_def candidate_rows_def newest_first_def candidate_row_def entries_of_def
        passed_over_def row_kind_def with_descriptor_def Let_def CANDIDATE_SCAN_ROWS_def List.map_filter_simps floor)
  then obtain e where e: "?r = ([(e, Raw ''d'')], None)" by blast
  have "distinct (map fe_id (ct_files demo_catalog))" by (simp add: demo_catalog_def)
  from candidates_ready [OF e this] e show ?thesis by simp
qed

section \<open>Going ahead\<close>

lemma wait_for_capacity_True:
  "wait_for_capacity lm cs = Some True \<Longrightarrow> \<exists>c \<in> set cs. \<not> cp_stop c \<and> pause_reason lm c = None"
  by (induction lm cs rule: wait_for_capacity.induct) (auto split: if_splits)

lemma await_room_False: "await_room limit deadline ts = Some False \<Longrightarrow>
    \<exists>u now. Slot_turn (Some u) True now \<in> set ts \<and> 0 < limit \<and> limit < u"
  by (induction limit deadline ts rule: await_room.induct) (auto split: if_splits option.splits)

end
