(* ===== verification/PartTables.thy ===== *)
theory PartTables
  imports Prelude "HOL-Library.Multiset"
begin

text \<open>
  The Parquet part tables of \<open>app/metadata.py\<close> and what SQLite does on each statement: the cascades of the
  foreign keys, the catalog queue triggers (\<open>CATALOG_QUEUE_TRIGGERS\<close>) and the file statistics triggers
  (\<open>STORAGE_FILE_STATS_SCHEMA\<close>). A table is the list of its rows in rowid order. The ClickHouse queue
  triggers on the same tables are in \<open>SourceQueue\<close>.
\<close>

section \<open>Rows\<close>

record part =
  pt_path :: string
  pt_file :: string
  pt_lid :: string
  pt_date :: string
  pt_rows :: int
  pt_min :: int
  pt_max :: int
  pt_size :: int
  pt_sha :: string
  pt_osha :: string
  pt_level :: int
  pt_compressed_at :: string
  pt_comp_error :: string
  pt_comp_retry :: string
  pt_key :: string
  pt_etag :: string
  pt_offset :: int
  pt_length :: int
  pt_obj_sha :: string
  pt_uploaded :: string
  pt_verified :: string
  pt_access :: string
  pt_rev :: int
  pt_created :: string
  pt_updated :: string

record catalog_row =
  cg_path :: string
  cg_sha :: string
  cg_databases :: "string list"
  cg_tables :: "string list"
  cg_operations :: "string list"
  cg_indexed :: string

record pending_part =
  pp_path :: string
  pp_rev :: int
  pp_max :: int
  pp_min :: int
  pp_enqueued :: string

record negative_probe =
  np_path :: string
  np_sha :: string
  np_fingerprint :: string
  np_at :: string

record positive_probe =
  po_path :: string
  po_sha :: string
  po_fingerprint :: string
  po_rows :: string
  po_at :: string

record file_stats =
  fs_events :: int
  fs_bytes :: int
  fs_archived_bytes :: int
  fs_min :: int
  fs_max :: int
  fs_parts :: int
  fs_archived :: int
  fs_zstd1 :: int
  fs_zstd9 :: int

text \<open>A source file: its state and \<open>query_visible\<close>.\<close>

record file_info =
  fi_state :: string
  fi_visible :: bool

record part_tables =
  tb_files :: "(string \<times> file_info) list"
  tb_parts :: "part list"
  tb_catalog :: "catalog_row list"
  tb_pending :: "pending_part list"
  tb_negative :: "negative_probe list"
  tb_positive :: "positive_probe list"
  tb_stats :: "(string \<times> file_stats) list"
  tb_stats_complete :: bool
  tb_revision :: int
  tb_audit_after :: string
  tb_audit_complete :: bool

definition part_at :: "part_tables \<Rightarrow> string \<Rightarrow> part option" where
  "part_at S path = find_row pt_path path (tb_parts S)"

definition visible_file :: "part_tables \<Rightarrow> string \<Rightarrow> bool" where
  "visible_file S f = (case map_of (tb_files S) f of None \<Rightarrow> False | Some i \<Rightarrow> fi_visible i)"

section \<open>The catalog queue triggers\<close>

text \<open>\<open>INSERT ... ON CONFLICT DO UPDATE\<close> that sets every column.\<close>

definition put_row :: "('r \<Rightarrow> 'k) \<Rightarrow> 'r \<Rightarrow> 'r list \<Rightarrow> 'r list" where
  "put_row key row rows = (if \<exists>r \<in> set rows. key r = key row then update_where (\<lambda>r. key r = key row) (\<lambda>_. row) rows
     else rows @ [row])"

definition queue_entry :: "string \<Rightarrow> part \<Rightarrow> pending_part" where
  "queue_entry now p = \<lparr>pp_path = pt_path p, pp_rev = pt_rev p, pp_max = pt_max p, pp_min = pt_min p, pp_enqueued = now\<rparr>"

definition enqueue :: "string \<Rightarrow> part \<Rightarrow> pending_part list \<Rightarrow> pending_part list" where
  "enqueue now p q = put_row pp_path (queue_entry now p) q"

text \<open>After an insert or update of the catalog row of \<open>path\<close> with hash \<open>sha\<close>.\<close>

definition catalog_written :: "string \<Rightarrow> string \<Rightarrow> string \<Rightarrow> part_tables \<Rightarrow> part_tables" where
  "catalog_written now path sha S = (case part_at S path of None \<Rightarrow> S
     | Some p \<Rightarrow> if pt_sha p = sha then S\<lparr>tb_pending := filter (\<lambda>r. pp_path r \<noteq> path) (tb_pending S)\<rparr>
                else S\<lparr>tb_pending := enqueue now p (tb_pending S)\<rparr>)"

section \<open>The file statistics triggers\<close>

definition has_object :: "part \<Rightarrow> bool" where "has_object p = (pt_key p \<noteq> [])"

definition part_stats :: "part \<Rightarrow> file_stats" where
  "part_stats p = \<lparr>fs_events = pt_rows p, fs_bytes = pt_size p, fs_archived_bytes = (if has_object p then pt_size p else 0),
     fs_min = pt_min p, fs_max = pt_max p, fs_parts = 1, fs_archived = (if has_object p then 1 else 0),
     fs_zstd1 = (if pt_level p < 9 then 1 else 0), fs_zstd9 = (if 9 \<le> pt_level p then 1 else 0)\<rparr>"

text \<open>The counters of \<open>s\<close> with those of one part added or taken away; the extrema are given.\<close>

definition add_stats :: "file_stats \<Rightarrow> file_stats \<Rightarrow> int \<Rightarrow> int \<Rightarrow> file_stats" where
  "add_stats s d lo hi = \<lparr>fs_events = fs_events s + fs_events d, fs_bytes = fs_bytes s + fs_bytes d,
     fs_archived_bytes = fs_archived_bytes s + fs_archived_bytes d, fs_min = lo, fs_max = hi,
     fs_parts = fs_parts s + 1, fs_archived = fs_archived s + fs_archived d,
     fs_zstd1 = fs_zstd1 s + fs_zstd1 d, fs_zstd9 = fs_zstd9 s + fs_zstd9 d\<rparr>"

definition sub_stats :: "file_stats \<Rightarrow> file_stats \<Rightarrow> int \<Rightarrow> int \<Rightarrow> file_stats" where
  "sub_stats s d lo hi = \<lparr>fs_events = fs_events s - fs_events d, fs_bytes = fs_bytes s - fs_bytes d,
     fs_archived_bytes = fs_archived_bytes s - fs_archived_bytes d, fs_min = lo, fs_max = hi,
     fs_parts = fs_parts s - 1, fs_archived = fs_archived s - fs_archived d,
     fs_zstd1 = fs_zstd1 s - fs_zstd1 d, fs_zstd9 = fs_zstd9 s - fs_zstd9 d\<rparr>"

definition parts_of :: "string \<Rightarrow> part list \<Rightarrow> part list" where
  "parts_of f ps = filter (\<lambda>p. pt_file p = f) ps"

definition min_of :: "part list \<Rightarrow> int" where
  "min_of ps = (if ps = [] then 0 else Min (pt_min ` set ps))"

definition max_of :: "part list \<Rightarrow> int" where
  "max_of ps = (if ps = [] then 0 else Max (pt_max ` set ps))"

text \<open>\<open>trg_storage_file_stats_part_insert\<close>; the extrema of an update treat 0 as unset.\<close>

definition stats_insert :: "bool \<Rightarrow> part \<Rightarrow> (string \<times> file_stats) list \<Rightarrow> (string \<times> file_stats) list" where
  "stats_insert zero_unset p st = (case map_of st (pt_file p) of
       None \<Rightarrow> AList.update (pt_file p) (part_stats p) st
     | Some s \<Rightarrow> AList.update (pt_file p) (add_stats s (part_stats p)
         (if zero_unset \<and> fs_min s = 0 then pt_min p else min (fs_min s) (pt_min p)) (max (fs_max s) (pt_max p))) st)"

text \<open>\<open>trg_storage_file_stats_part_delete\<close>, also the first half of the update trigger; \<open>ps\<close> are the parts after the statement.\<close>

definition stats_delete :: "part list \<Rightarrow> part \<Rightarrow> (string \<times> file_stats) list \<Rightarrow> (string \<times> file_stats) list" where
  "stats_delete ps old st = (case map_of st (pt_file old) of None \<Rightarrow> st
     | Some s \<Rightarrow> let t = sub_stats s (part_stats old) (min_of (parts_of (pt_file old) ps)) (max_of (parts_of (pt_file old) ps))
         in if fs_parts t \<le> 0 then AList.delete (pt_file old) st else AList.update (pt_file old) t st)"

definition stats_update :: "part list \<Rightarrow> part \<Rightarrow> part \<Rightarrow> (string \<times> file_stats) list \<Rightarrow> (string \<times> file_stats) list" where
  "stats_update ps old p st = stats_insert True p (stats_delete ps old st)"

section \<open>Statements\<close>

definition insert_row :: "string \<Rightarrow> part \<Rightarrow> part_tables \<Rightarrow> part_tables" where
  "insert_row now p S = S\<lparr>tb_parts := tb_parts S @ [p], tb_pending := enqueue now p (tb_pending S),
     tb_stats := stats_insert False p (tb_stats S)\<rparr>"

text \<open>
  \<open>UPDATE parquet_parts SET ... WHERE path = ?\<close> of an existing row to \<open>p\<close>: \<open>timed\<close> says that the statement
  sets the event timed, \<open>counted\<close> that it sets a column the statistics count.
\<close>

definition update_row :: "bool \<Rightarrow> bool \<Rightarrow> string \<Rightarrow> part \<Rightarrow> part_tables \<Rightarrow> part_tables" where
  "update_row timed counted now p S = (case part_at S (pt_path p) of None \<Rightarrow> S
     | Some old \<Rightarrow>
         (let ps = update_where (\<lambda>r. pt_path r = pt_path p) (\<lambda>_. p) (tb_parts S);
              q = (if pt_sha p \<noteq> pt_sha old \<or> pt_rev p \<noteq> pt_rev old then enqueue now p (tb_pending S) else tb_pending S);
              q = (if timed then update_where (\<lambda>r. pp_path r = pt_path p) (\<lambda>r. r\<lparr>pp_max := pt_max p, pp_min := pt_min p\<rparr>) q else q)
          in S\<lparr>tb_parts := ps, tb_pending := q, tb_stats := (if counted then stats_update ps old p (tb_stats S) else tb_stats S)\<rparr>))"

text \<open>Deleting a part cascades to its catalog row, queue entry and probes.\<close>

definition delete_row :: "string \<Rightarrow> part_tables \<Rightarrow> part_tables" where
  "delete_row path S = (case part_at S path of None \<Rightarrow> S
     | Some old \<Rightarrow>
         (let ps = filter (\<lambda>r. pt_path r \<noteq> path) (tb_parts S)
          in S\<lparr>tb_parts := ps, tb_catalog := filter (\<lambda>r. cg_path r \<noteq> path) (tb_catalog S),
               tb_pending := filter (\<lambda>r. pp_path r \<noteq> path) (tb_pending S),
               tb_negative := filter (\<lambda>r. np_path r \<noteq> path) (tb_negative S),
               tb_positive := filter (\<lambda>r. po_path r \<noteq> path) (tb_positive S),
               tb_stats := stats_delete ps old (tb_stats S)\<rparr>))"

definition put_catalog :: "string \<Rightarrow> catalog_row \<Rightarrow> part_tables \<Rightarrow> part_tables" where
  "put_catalog now c S = catalog_written now (cg_path c) (cg_sha c)
     (S\<lparr>tb_catalog := put_row cg_path c (tb_catalog S)\<rparr>)"

definition set_catalog_sha :: "string \<Rightarrow> string \<Rightarrow> string \<Rightarrow> part_tables \<Rightarrow> part_tables" where
  "set_catalog_sha now path sha S = (if \<exists>r \<in> set (tb_catalog S). cg_path r = path
     then catalog_written now path sha (S\<lparr>tb_catalog := update_where (\<lambda>r. cg_path r = path) (\<lambda>r. r\<lparr>cg_sha := sha\<rparr>) (tb_catalog S)\<rparr>)
     else S)"

definition delete_catalog :: "string \<Rightarrow> string \<Rightarrow> part_tables \<Rightarrow> part_tables" where
  "delete_catalog now path S = (if \<exists>r \<in> set (tb_catalog S). cg_path r = path
     then (let S = S\<lparr>tb_catalog := filter (\<lambda>r. cg_path r \<noteq> path) (tb_catalog S)\<rparr>
           in case part_at S path of None \<Rightarrow> S | Some p \<Rightarrow> S\<lparr>tb_pending := enqueue now p (tb_pending S)\<rparr>)
     else S)"

definition delete_probes :: "string \<Rightarrow> part_tables \<Rightarrow> part_tables" where
  "delete_probes path S = S\<lparr>tb_negative := filter (\<lambda>r. np_path r \<noteq> path) (tb_negative S),
     tb_positive := filter (\<lambda>r. po_path r \<noteq> path) (tb_positive S)\<rparr>"

definition set_probe_sha :: "string \<Rightarrow> string \<Rightarrow> part_tables \<Rightarrow> part_tables" where
  "set_probe_sha path sha S =
     S\<lparr>tb_negative := update_where (\<lambda>r. np_path r = path) (\<lambda>r. r\<lparr>np_sha := sha\<rparr>) (tb_negative S),
       tb_positive := update_where (\<lambda>r. po_path r = path) (\<lambda>r. r\<lparr>po_sha := sha\<rparr>) (tb_positive S)\<rparr>"

section \<open>The rollup, rebuilt and served\<close>

definition file_totals :: "part list \<Rightarrow> file_stats" where
  "file_totals ps = \<lparr>fs_events = sum_list (map pt_rows ps), fs_bytes = sum_list (map pt_size ps),
     fs_archived_bytes = sum_list (map (\<lambda>p. if has_object p then pt_size p else 0) ps), fs_min = min_of ps, fs_max = max_of ps,
     fs_parts = int (length ps), fs_archived = sum_list (map (\<lambda>p. if has_object p then 1 else 0) ps),
     fs_zstd1 = sum_list (map (\<lambda>p. if pt_level p < 9 then 1 else 0) ps),
     fs_zstd9 = sum_list (map (\<lambda>p. if 9 \<le> pt_level p then 1 else 0) ps)\<rparr>"

definition rebuild_storage_file_stats :: "part_tables \<Rightarrow> int \<times> part_tables" where
  "rebuild_storage_file_stats S =
     (let st = map (\<lambda>f. (f, file_totals (parts_of f (tb_parts S)))) (remdups (map pt_file (tb_parts S)))
      in (int (length st), S\<lparr>tb_stats := st, tb_stats_complete := True\<rparr>))"

record storage_totals =
  st_events :: int
  st_bytes :: int
  st_archived_bytes :: int
  st_oldest :: "int option"
  st_latest :: "int option"
  st_parts :: int
  st_archived :: int
  st_zstd1 :: int
  st_zstd9 :: int

definition rollup_totals :: "file_stats list \<Rightarrow> storage_totals" where
  "rollup_totals ss = \<lparr>st_events = sum_list (map fs_events ss), st_bytes = sum_list (map fs_bytes ss),
     st_archived_bytes = sum_list (map fs_archived_bytes ss),
     st_oldest = (if ss = [] then None else Some (Min (fs_min ` set ss))),
     st_latest = (if ss = [] then None else Some (Max (fs_max ` set ss))),
     st_parts = sum_list (map fs_parts ss), st_archived = sum_list (map fs_archived ss),
     st_zstd1 = sum_list (map fs_zstd1 ss), st_zstd9 = sum_list (map fs_zstd9 ss)\<rparr>"

text \<open>The fallback query over the parts is the same sum over the statistics of single parts.\<close>

definition storage_metadata_stats :: "part_tables \<Rightarrow> storage_totals" where
  "storage_metadata_stats S =
     (if tb_stats_complete S then rollup_totals (map snd (filter (\<lambda>(f, _). visible_file S f) (tb_stats S)))
      else rollup_totals (map part_stats (filter (\<lambda>p. visible_file S (pt_file p)) (tb_parts S))))"

definition storage_file_counts :: "part_tables \<Rightarrow> int \<times> int \<times> int" where
  "storage_file_counts S = (int (length (tb_files S)), count_where (\<lambda>(_, i). fi_state i = ''done'') (tb_files S),
     count_where (\<lambda>(_, i). fi_state i = ''failed'') (tb_files S))"

section \<open>The triggers keep the statistics exact\<close>

definition totals_of :: "part list \<Rightarrow> string \<Rightarrow> file_stats option" where
  "totals_of ps f = (if parts_of f ps = [] then None else Some (file_totals (parts_of f ps)))"

definition stats_match :: "part list \<Rightarrow> (string \<times> file_stats) list \<Rightarrow> bool" where
  "stats_match ps st \<longleftrightarrow> distinct (map fst st) \<and> (\<forall>f. map_of st f = totals_of ps f)"

lemma sum_list_add_mset: "mset xs = add_mset p (mset ys) \<Longrightarrow> sum_list (map g xs) = g p + (sum_list (map g ys) :: int)"
proof -
  assume "mset xs = add_mset p (mset ys)"
  then have "sum_mset (image_mset g (mset xs)) = sum_mset (image_mset g (mset (p # ys)))" by simp
  then show ?thesis by (simp flip: mset_map add: sum_mset_sum_list)
qed

lemma set_add_mset: "mset xs = add_mset p (mset ys) \<Longrightarrow> set xs = insert p (set ys)"
  by (metis set_mset_add_mset_insert set_mset_mset)

lemma totals_add:
  assumes "mset xs = add_mset p (mset ys)"
  shows "file_totals xs = add_stats (file_totals ys) (part_stats p) (min_of xs) (max_of xs)"
proof -
  have "int (length xs) = int (length ys) + 1" using arg_cong [OF assms, of size] by simp
  then show ?thesis
    by (simp add: file_totals_def add_stats_def part_stats_def sum_list_add_mset [OF assms])
qed

lemma totals_sub:
  assumes "mset xs = add_mset p (mset ys)"
  shows "sub_stats (file_totals xs) (part_stats p) lo hi = (file_totals ys)\<lparr>fs_min := lo, fs_max := hi\<rparr>"
proof -
  have "int (length xs) = int (length ys) + 1" using arg_cong [OF assms, of size] by simp
  then show ?thesis
    by (simp add: file_totals_def sub_stats_def part_stats_def sum_list_add_mset [OF assms])
qed

lemma totals_one: "file_totals [p] = part_stats p"
  by (simp add: file_totals_def part_stats_def min_of_def max_of_def)

lemma extrema_add:
  assumes "mset xs = add_mset p (mset ys)" "ys \<noteq> []"
  shows "min_of xs = min (min_of ys) (pt_min p)" "max_of xs = max (max_of ys) (pt_max p)"
  using assms set_add_mset [OF assms(1)] by (auto simp: min_of_def max_of_def min.commute max.commute)

lemma extrema_member:
  assumes "p \<in> set xs"
  shows "min (min_of xs) (pt_min p) = min_of xs" "max (max_of xs) (pt_max p) = max_of xs"
  using assms by (auto simp: min_of_def max_of_def intro!: min_absorb1 max_absorb1)

lemma totals_cong: "mset xs = mset ys \<Longrightarrow> file_totals xs = file_totals ys"
proof -
  assume eq: "mset xs = mset ys"
  have "sum_list (map g xs) = sum_list (map g ys)" for g :: "part \<Rightarrow> int"
    using eq by (metis mset_map sum_mset_sum_list)
  moreover have "set xs = set ys" "length xs = length ys" using eq by (metis set_mset_mset) (metis eq size_mset)
  ultimately show ?thesis by (cases "xs = []") (auto simp: file_totals_def min_of_def max_of_def)
qed

lemma parts_of_mset: "mset (parts_of f ps) = filter_mset (\<lambda>p. pt_file p = f) (mset ps)"
  by (simp add: parts_of_def)

lemma parts_of_add:
  assumes "mset ps' = add_mset p (mset ps)"
  shows "mset (parts_of f ps') = (if pt_file p = f then add_mset p (mset (parts_of f ps)) else mset (parts_of f ps))"
  by (simp add: parts_of_mset assms)

lemma totals_of_other: "mset ps' = add_mset p (mset ps) \<Longrightarrow> f \<noteq> pt_file p \<Longrightarrow> totals_of ps' f = totals_of ps f"
  using parts_of_add [of ps' p ps f] totals_cong [of "parts_of f ps'" "parts_of f ps"]
  by (auto simp: totals_of_def)

lemma map_of_AList_update: "map_of (AList.update k v st) f = (if f = k then Some v else map_of st f)"
  by (simp add: update_conv')

lemma map_of_AList_delete: "map_of (AList.delete k st) f = (if f = k then None else map_of st f)"
  by (simp add: delete_conv')

text \<open>The insert trigger, on statistics that match \<open>ps\<close> up to the extrema of the file.\<close>

lemma stats_insert_match:
  assumes m: "distinct (map fst st)" "\<And>f. f \<noteq> pt_file p \<Longrightarrow> map_of st f = totals_of ps' f"
    and mine: "map_of st (pt_file p) = (if ys = [] then None else Some ((file_totals ys)\<lparr>fs_min := lo, fs_max := hi\<rparr>))"
    and add: "mset (parts_of (pt_file p) ps') = add_mset p (mset ys)"
    and ext: "ys \<noteq> [] \<Longrightarrow> min lo (pt_min p) = min_of (parts_of (pt_file p) ps') \<and> max hi (pt_max p) = max_of (parts_of (pt_file p) ps')"
    and zero: "z \<Longrightarrow> ys \<noteq> [] \<Longrightarrow> lo \<noteq> 0"
  shows "stats_match ps' (stats_insert z p st)"
proof -
  have "parts_of (pt_file p) ps' \<noteq> []" using add by auto
  then have new: "totals_of ps' (pt_file p) = Some (file_totals (parts_of (pt_file p) ps'))" by (simp add: totals_of_def)
  have "map_of (stats_insert z p st) f = totals_of ps' f" for f
  proof (cases "f = pt_file p")
    case False
    then show ?thesis using m(2) [OF False] by (auto simp: stats_insert_def map_of_AList_update split: option.split)
  next
    case True
    show ?thesis
    proof (cases "ys = []")
      case True
      then have "mset (parts_of (pt_file p) ps') = mset [p]" using add by simp
      then have "file_totals (parts_of (pt_file p) ps') = part_stats p" using totals_cong totals_one by metis
      then show ?thesis using \<open>f = pt_file p\<close> mine True new by (simp add: stats_insert_def map_of_AList_update)
    next
      case False
      have "add_stats ((file_totals ys)\<lparr>fs_min := lo, fs_max := hi\<rparr>) d x y = add_stats (file_totals ys) d x y" for d x y
        by (simp add: add_stats_def)
      then show ?thesis
        using \<open>f = pt_file p\<close> mine False new ext [OF False] zero [OF _ False] totals_add [OF add]
        by (auto simp: stats_insert_def map_of_AList_update)
    qed
  qed
  moreover have "distinct (map fst (stats_insert z p st))"
    using m(1) by (simp add: stats_insert_def distinct_update split: option.split)
  ultimately show ?thesis by (simp add: stats_match_def)
qed

lemma stats_insert_exact:
  assumes "stats_match ps st"
  shows "stats_match (ps @ [p]) (stats_insert False p st)"
proof (rule stats_insert_match)
  let ?ys = "parts_of (pt_file p) ps"
  have ms: "mset (ps @ [p]) = add_mset p (mset ps)" by simp
  show "mset (parts_of (pt_file p) (ps @ [p])) = add_mset p (mset ?ys)" by (simp add: parts_of_mset)
  then show "?ys \<noteq> [] \<Longrightarrow> min (min_of ?ys) (pt_min p) = min_of (parts_of (pt_file p) (ps @ [p])) \<and>
      max (max_of ?ys) (pt_max p) = max_of (parts_of (pt_file p) (ps @ [p]))"
    using extrema_add [of _ p ?ys] by simp
  show "map_of st (pt_file p) = (if ?ys = [] then None else Some ((file_totals ?ys)\<lparr>fs_min := min_of ?ys, fs_max := max_of ?ys\<rparr>))"
    using assms by (simp add: stats_match_def totals_of_def file_totals_def)
  show "map_of st f = totals_of (ps @ [p]) f" if "f \<noteq> pt_file p" for f
    using assms totals_of_other [OF ms that] by (simp add: stats_match_def)
qed (use assms in \<open>simp_all add: stats_match_def\<close>)

lemma stats_delete_part:
  assumes m: "stats_match ps st" and split: "mset ps = add_mset old (mset rest)"
  shows "distinct (map fst (stats_delete ps' old st))"
    "f \<noteq> pt_file old \<Longrightarrow> map_of (stats_delete ps' old st) f = totals_of rest f"
    "map_of (stats_delete ps' old st) (pt_file old) = (if parts_of (pt_file old) rest = [] then None
       else Some ((file_totals (parts_of (pt_file old) rest))\<lparr>fs_min := min_of (parts_of (pt_file old) ps'),
         fs_max := max_of (parts_of (pt_file old) ps')\<rparr>))"
proof -
  let ?f = "pt_file old"
  have add: "mset (parts_of ?f ps) = add_mset old (mset (parts_of ?f rest))" using parts_of_add [OF split] by simp
  then have "parts_of ?f ps \<noteq> []" by auto
  then have at: "map_of st ?f = Some (file_totals (parts_of ?f ps))" using m by (simp add: stats_match_def totals_of_def)
  have sub: "sub_stats (file_totals (parts_of ?f ps)) (part_stats old) lo hi
      = (file_totals (parts_of ?f rest))\<lparr>fs_min := lo, fs_max := hi\<rparr>" for lo hi
    by (rule totals_sub [OF add])
  have empty: "fs_parts (file_totals (parts_of ?f rest)) \<le> 0 \<longleftrightarrow> parts_of ?f rest = []"
    by (simp add: file_totals_def)
  show "distinct (map fst (stats_delete ps' old st))"
    using m by (auto simp: stats_match_def stats_delete_def Let_def distinct_update distinct_delete split: option.split)
  show "map_of (stats_delete ps' old st) f = totals_of rest f" if "f \<noteq> ?f"
  proof -
    have "map_of st f = totals_of rest f" using m totals_of_other [OF split that] by (simp add: stats_match_def)
    then show ?thesis using that by (simp add: stats_delete_def at Let_def map_of_AList_update map_of_AList_delete)
  qed
  show "map_of (stats_delete ps' old st) ?f = (if parts_of ?f rest = [] then None
       else Some ((file_totals (parts_of ?f rest))\<lparr>fs_min := min_of (parts_of ?f ps'), fs_max := max_of (parts_of ?f ps')\<rparr>))"
    using empty by (auto simp: stats_delete_def at Let_def sub map_of_AList_update map_of_AList_delete)
qed

lemma stats_delete_exact:
  assumes "stats_match ps st" "mset ps = add_mset old (mset ps')"
  shows "stats_match ps' (stats_delete ps' old st)"
proof -
  have "map_of (stats_delete ps' old st) f = totals_of ps' f" for f
  proof (cases "f = pt_file old")
    case True
    then show ?thesis using stats_delete_part(3) [OF assms, of ps'] by (simp add: totals_of_def file_totals_def)
  qed (rule stats_delete_part(2) [OF assms])
  then show ?thesis using stats_delete_part(1) [OF assms] by (simp add: stats_match_def)
qed

lemma stats_update_exact:
  assumes m: "stats_match ps st" "mset ps = add_mset old (mset rest)" "mset ps' = add_mset p (mset rest)"
    and nonzero: "\<forall>q \<in> set ps'. pt_min q \<noteq> 0"
  shows "stats_match ps' (stats_update ps' old p st)"
proof -
  let ?f = "pt_file p"
  let ?ys = "parts_of ?f rest"
  let ?lo = "if pt_file old = ?f then min_of (parts_of ?f ps') else min_of ?ys"
  let ?hi = "if pt_file old = ?f then max_of (parts_of ?f ps') else max_of ?ys"
  have add: "mset (parts_of ?f ps') = add_mset p (mset ?ys)" using parts_of_add [OF m(3)] by simp
  have member: "p \<in> set (parts_of ?f ps')" using set_add_mset [OF add] by simp
  have sub: "set (parts_of ?f ps') \<subseteq> set ps'" by (auto simp: parts_of_def)
  have ysub: "set ?ys \<subseteq> set ps'" using set_add_mset [OF m(3)] by (auto simp: parts_of_def)
  have min_nonzero: "min_of xs \<noteq> 0" if "xs \<noteq> []" "set xs \<subseteq> set ps'" for xs
  proof -
    have "Min (pt_min ` set xs) \<in> pt_min ` set xs" using that(1) by (intro Min_in) auto
    then obtain q where "q \<in> set xs" "Min (pt_min ` set xs) = pt_min q" by blast
    then have "q \<in> set xs" "min_of xs = pt_min q" using that(1) by (simp_all add: min_of_def)
    then show ?thesis using that(2) nonzero by auto
  qed
  show ?thesis
    unfolding stats_update_def
  proof (rule stats_insert_match [OF stats_delete_part(1) [OF m(1,2)], where lo = ?lo and hi = ?hi and ys = ?ys])
    show "map_of (stats_delete ps' old st) ?f = (if ?ys = [] then None else Some ((file_totals ?ys)\<lparr>fs_min := ?lo, fs_max := ?hi\<rparr>))"
    proof (cases "pt_file old = ?f")
      case True
      then show ?thesis using stats_delete_part(3) [OF m(1,2), of ps'] by simp
    next
      case False
      then show ?thesis
        using stats_delete_part(2) [OF m(1,2), of ?f ps'] by (simp add: totals_of_def file_totals_def)
    qed
    show "map_of (stats_delete ps' old st) f = totals_of ps' f" if "f \<noteq> ?f" for f
    proof (cases "f = pt_file old")
      case True
      have same: "mset (parts_of f ps') = mset (parts_of f rest)" using parts_of_add [OF m(3), of f] that by simp
      then have "parts_of f ps' = [] \<longleftrightarrow> parts_of f rest = []" by (metis mset_zero_iff)
      moreover have "file_totals (parts_of f ps') = file_totals (parts_of f rest)" using totals_cong [OF same] .
      moreover have "min_of (parts_of f ps') = fs_min (file_totals (parts_of f ps'))"
        "max_of (parts_of f ps') = fs_max (file_totals (parts_of f ps'))" by (simp_all add: file_totals_def)
      ultimately show ?thesis
        using stats_delete_part(3) [OF m(1,2), of ps'] True by (simp add: totals_of_def)
    next
      case False
      then show ?thesis using stats_delete_part(2) [OF m(1,2) False] totals_of_other [OF m(3) that] by simp
    qed
    show "mset (parts_of ?f ps') = add_mset p (mset ?ys)" by (rule add)
    show "min ?lo (pt_min p) = min_of (parts_of ?f ps') \<and> max ?hi (pt_max p) = max_of (parts_of ?f ps')" if "?ys \<noteq> []"
      using extrema_member [OF member] extrema_add [OF add that] by simp
    show "?lo \<noteq> 0" if "?ys \<noteq> []"
    proof -
      have "parts_of ?f ps' \<noteq> []" using member by auto
      then show ?thesis using min_nonzero [OF _ sub] min_nonzero [OF that ysub] by simp
    qed
  qed
qed

section \<open>The served totals\<close>

lemma sum_over_files:
  "distinct ks \<Longrightarrow> sum_list (map g (filter (\<lambda>p. pt_file p \<in> set ks) ps)) = (\<Sum>f\<leftarrow>ks. sum_list (map g (parts_of f ps)) :: int)"
proof (induction ks)
  case (Cons k ks)
  have "sum_list (map g (filter (\<lambda>p. pt_file p \<in> set (k # ks)) ps)) =
      sum_list (map g (parts_of k ps)) + sum_list (map g (filter (\<lambda>p. pt_file p \<in> set ks) ps))"
    using Cons.prems by (induction ps) (auto simp: parts_of_def)
  then show ?case using Cons by simp
qed simp

lemma Min_over_files:
  assumes "finite K" "K \<noteq> {}" "\<And>f. f \<in> K \<Longrightarrow> finite (A f) \<and> A f \<noteq> {}"
  shows "Min ((\<lambda>f. Min (A f)) ` K) = Min (\<Union>f\<in>K. A f :: int set)" "Max ((\<lambda>f. Max (A f)) ` K) = Max (\<Union>f\<in>K. A f :: int set)"
proof -
  have fin: "finite (\<Union>f\<in>K. A f)" using assms by auto
  have "Min ((\<lambda>f. Min (A f)) ` K) \<le> y" if "f \<in> K" "y \<in> A f" for f y
  proof -
    have "Min ((\<lambda>f. Min (A f)) ` K) \<le> Min (A f)" using assms(1) that(1) by (intro Min_le) auto
    also have "\<dots> \<le> y" using assms(3) [OF that(1)] that(2) by simp
    finally show ?thesis .
  qed
  moreover have "Min ((\<lambda>f. Min (A f)) ` K) \<in> (\<lambda>f. Min (A f)) ` K" using assms(1,2) by (intro Min_in) auto
  then have "Min ((\<lambda>f. Min (A f)) ` K) \<in> (\<Union>f\<in>K. A f)" using assms(3) Min_in by fastforce
  ultimately show "Min ((\<lambda>f. Min (A f)) ` K) = Min (\<Union>f\<in>K. A f)" using fin by (intro Min_eqI [symmetric]) auto
  have "y \<le> Max ((\<lambda>f. Max (A f)) ` K)" if "f \<in> K" "y \<in> A f" for f y
  proof -
    have "y \<le> Max (A f)" using assms(3) [OF that(1)] that(2) by simp
    also have "\<dots> \<le> Max ((\<lambda>f. Max (A f)) ` K)" using assms(1) that(1) by (intro Max_ge) auto
    finally show ?thesis .
  qed
  moreover have "Max ((\<lambda>f. Max (A f)) ` K) \<in> (\<lambda>f. Max (A f)) ` K" using assms(1,2) by (intro Max_in) auto
  then have "Max ((\<lambda>f. Max (A f)) ` K) \<in> (\<Union>f\<in>K. A f)" using assms(3) Max_in by fastforce
  ultimately show "Max ((\<lambda>f. Max (A f)) ` K) = Max (\<Union>f\<in>K. A f)" using fin by (intro Max_eqI [symmetric]) auto
qed

lemma stats_match_entry:
  assumes "stats_match ps st" "(f, s) \<in> set st"
  shows "s = file_totals (parts_of f ps)" "parts_of f ps \<noteq> []"
proof -
  have "map_of st f = Some s" using assms by (intro map_of_is_SomeI) (simp_all add: stats_match_def)
  then show "s = file_totals (parts_of f ps)" "parts_of f ps \<noteq> []"
    using assms(1) by (auto simp: stats_match_def totals_of_def split: if_splits)
qed

lemma stats_match_keys: "stats_match ps st \<Longrightarrow> fst ` set st = pt_file ` set ps"
proof -
  assume m: "stats_match ps st"
  have "f \<in> fst ` set st \<longleftrightarrow> map_of st f \<noteq> None" for f by (simp add: map_of_eq_None_iff)
  also have "map_of st f \<noteq> None \<longleftrightarrow> f \<in> pt_file ` set ps" for f
    using m by (auto simp: stats_match_def totals_of_def parts_of_def filter_empty_conv)
  finally show ?thesis by blast
qed

lemma rollup_match:
  assumes m: "stats_match ps st"
  shows "rollup_totals (map snd (filter (\<lambda>(f, _). vis f) st)) = rollup_totals (map part_stats (filter (\<lambda>p. vis (pt_file p)) ps))"
proof -
  let ?ks = "filter vis (map fst st)"
  let ?vis = "filter (\<lambda>p. vis (pt_file p)) ps"
  have st: "map snd (filter (\<lambda>(f, _). vis f) st) = map (\<lambda>f. file_totals (parts_of f ps)) ?ks"
  proof -
    have "map snd xs = map (\<lambda>f. file_totals (parts_of f ps)) (map fst xs)" if "set xs \<subseteq> set st" for xs
      using that stats_match_entry(1) [OF m] by (induction xs) auto
    moreover have "?ks = map fst (filter (\<lambda>(f, _). vis f) st)" by (induction st) auto
    ultimately show ?thesis using filter_is_subset by metis
  qed
  have dist: "distinct ?ks" using m by (simp add: stats_match_def)
  have keys: "set ?ks = {f \<in> pt_file ` set ps. vis f}" using stats_match_keys [OF m] by auto
  have vis: "filter (\<lambda>p. pt_file p \<in> set ?ks) ps = ?vis" unfolding keys by (rule filter_cong) auto
  have sums: "(\<Sum>f\<leftarrow>?ks. sum_list (map g (parts_of f ps))) = sum_list (map g ?vis)" for g :: "part \<Rightarrow> int"
    using sum_over_files [OF dist, of g ps] unfolding vis by simp
  have lens: "(\<Sum>f\<leftarrow>?ks. int (length (parts_of f ps))) = int (length ?vis)"
    using sums [of "\<lambda>_. 1"] by (simp add: sum_list_triv)
  have "?ks = [] \<longleftrightarrow> {f \<in> pt_file ` set ps. vis f} = {}" using keys by (metis set_empty)
  also have "\<dots> \<longleftrightarrow> ?vis = []" by (auto simp: filter_empty_conv)
  finally have empty: "?ks = [] \<longleftrightarrow> ?vis = []" .
  have nonempty: "parts_of f ps \<noteq> []" if "f \<in> set ?ks" for f
    using that stats_match_entry(2) [OF m] by auto
  have un: "(\<Union>f\<in>set ?ks. g ` set (parts_of f ps)) = g ` set ?vis" for g :: "part \<Rightarrow> int"
    using keys by (fastforce simp: parts_of_def)
  have ext: "Min ((\<lambda>f. min_of (parts_of f ps)) ` set ?ks) = Min (pt_min ` set ?vis)"
    "Max ((\<lambda>f. max_of (parts_of f ps)) ` set ?ks) = Max (pt_max ` set ?vis)" if "?ks \<noteq> []"
  proof -
    have ne: "set ?ks \<noteq> {}" using that by (metis set_empty)
    have "(\<lambda>f. min_of (parts_of f ps)) ` set ?ks = (\<lambda>f. Min (pt_min ` set (parts_of f ps))) ` set ?ks"
      using nonempty by (intro image_cong) (simp_all add: min_of_def)
    moreover have "Min \<dots> = Min (\<Union>f\<in>set ?ks. pt_min ` set (parts_of f ps))"
      using nonempty by (intro Min_over_files(1) [OF finite_set ne]) simp
    ultimately show "Min ((\<lambda>f. min_of (parts_of f ps)) ` set ?ks) = Min (pt_min ` set ?vis)" unfolding un by simp
    have "(\<lambda>f. max_of (parts_of f ps)) ` set ?ks = (\<lambda>f. Max (pt_max ` set (parts_of f ps))) ` set ?ks"
      using nonempty by (intro image_cong) (simp_all add: max_of_def)
    moreover have "Max \<dots> = Max (\<Union>f\<in>set ?ks. pt_max ` set (parts_of f ps))"
      using nonempty by (intro Min_over_files(2) [OF finite_set ne]) simp
    ultimately show "Max ((\<lambda>f. max_of (parts_of f ps)) ` set ?ks) = Max (pt_max ` set ?vis)" unfolding un by simp
  qed
  show ?thesis
    unfolding st using empty ext
    by (auto simp: rollup_totals_def file_totals_def part_stats_def o_def sums lens image_image sum_list_triv simp del: set_filter filter_map)
qed

section \<open>Statements as changes of single keys\<close>

definition pend_at :: "part_tables \<Rightarrow> string \<Rightarrow> pending_part option" where
  "pend_at S path = find_row pp_path path (tb_pending S)"

definition cat_at :: "part_tables \<Rightarrow> string \<Rightarrow> catalog_row option" where
  "cat_at S path = find_row cg_path path (tb_catalog S)"

lemma queue_entry_path [simp]: "pp_path (queue_entry now p) = pt_path p"
  by (simp add: queue_entry_def)

lemma find_row_drop: "find_row key k (filter (\<lambda>r. key r \<noteq> path) rows) = (if k = path then None else find_row key k rows)"
  by (induction rows) auto

lemma find_row_set:
  "key row = path \<Longrightarrow> find_row key k (update_where (\<lambda>r. key r = path) (\<lambda>_. row) rows)
     = (if k = path \<and> find_row key k rows \<noteq> None then Some row else find_row key k rows)"
  by (induction rows) auto

lemma find_row_put: "find_row key k (put_row key row rows) = (if k = key row then Some row else find_row key k rows)"
proof (cases "\<exists>r \<in> set rows. key r = key row")
  case True
  then have "key row \<in> key ` set rows" by (metis imageI)
  then have "find_row key (key row) rows \<noteq> None" by (simp add: find_row_None)
  with True show ?thesis by (simp add: put_row_def find_row_set [OF refl])
next
  case False
  then have "key row \<notin> key ` set rows" by (metis imageE)
  then have "find_row key (key row) rows = None" by (simp add: find_row_None)
  with False show ?thesis by (auto simp: put_row_def find_row_append split: option.split)
qed

lemma distinct_put: "distinct (map key rows) \<Longrightarrow> distinct (map key (put_row key row rows))"
proof -
  assume "distinct (map key rows)"
  moreover have "map key (update_where (\<lambda>r. key r = key row) (\<lambda>_. row) rows) = map key rows"
    by (rule update_where_keys) simp
  ultimately show ?thesis by (auto simp: put_row_def)
qed

lemma set_put: "set (put_row key row rows) = insert row {r \<in> set rows. key r \<noteq> key row}"
  by (auto simp: put_row_def in_set_update_where split: if_splits)

lemma find_row_where:
  assumes "\<And>r. key (f r) = key r"
  shows "find_row key k (update_where (\<lambda>r. key r = path) f rows) = (if k = path then map_option f (find_row key k rows) else find_row key k rows)"
  by (induction rows) (auto simp: assms)

lemma enqueue_find: "find_row pp_path k (enqueue now p q) = (if k = pt_path p then Some (queue_entry now p) else find_row pp_path k q)"
  by (simp add: enqueue_def find_row_put)

lemma enqueue_distinct: "distinct (map pp_path q) \<Longrightarrow> distinct (map pp_path (enqueue now p q))"
  by (simp add: enqueue_def distinct_put)

lemma part_at_path: "part_at S path = Some p \<Longrightarrow> p \<in> set (tb_parts S) \<and> pt_path p = path"
  by (auto simp: part_at_def dest: find_row_SomeD)

section \<open>What every statement keeps\<close>

text \<open>
  The entries of one path: a queue entry is of the current row, and a part of an audited path (\<open>a\<close>) without
  one has a current catalog row. The set \<open>A\<close> of the tables' invariant holds the audited paths.
\<close>

definition entry_ok :: "bool \<Rightarrow> part option \<Rightarrow> pending_part option \<Rightarrow> catalog_row option \<Rightarrow> bool" where
  "entry_ok a po qo co \<longleftrightarrow> (case po of None \<Rightarrow> qo = None \<and> co = None
     | Some p \<Rightarrow> (case qo of None \<Rightarrow> a \<longrightarrow> (\<exists>c. co = Some c \<and> cg_sha c = pt_sha p)
         | Some q \<Rightarrow> pp_rev q = pt_rev p \<and> pp_max q = pt_max p \<and> pp_min q = pt_min p))"

definition tables_ok :: "string set \<Rightarrow> part_tables \<Rightarrow> bool" where
  "tables_ok A S \<longleftrightarrow> distinct (map pt_path (tb_parts S)) \<and>
     (\<forall>p \<in> set (tb_parts S). pt_file p \<in> fst ` set (tb_files S) \<and> pt_rev p \<le> tb_revision S \<and> pt_min p \<noteq> 0) \<and>
     (tb_stats_complete S \<longrightarrow> stats_match (tb_parts S) (tb_stats S)) \<and> distinct (map pp_path (tb_pending S)) \<and> distinct (map cg_path (tb_catalog S)) \<and>
     (\<forall>k. entry_ok (k \<in> A) (part_at S k) (pend_at S k) (cat_at S k))"

lemma tables_okD:
  assumes "tables_ok A S"
  shows "distinct (map pt_path (tb_parts S))" "tb_stats_complete S \<Longrightarrow> stats_match (tb_parts S) (tb_stats S)" "distinct (map pp_path (tb_pending S))"
    "distinct (map cg_path (tb_catalog S))" "entry_ok (k \<in> A) (part_at S k) (pend_at S k) (cat_at S k)"
    "p \<in> set (tb_parts S) \<Longrightarrow> pt_file p \<in> fst ` set (tb_files S)" "p \<in> set (tb_parts S) \<Longrightarrow> pt_rev p \<le> tb_revision S"
    "p \<in> set (tb_parts S) \<Longrightarrow> pt_min p \<noteq> 0"
  using assms by (auto simp: tables_ok_def)

lemma part_at_member: "tables_ok A S \<Longrightarrow> p \<in> set (tb_parts S) \<Longrightarrow> part_at S (pt_path p) = Some p"
  by (simp add: part_at_def tables_okD)

lemma queue_entry_ok: "entry_ok a (Some p) (Some (queue_entry now p)) co"
  by (simp add: entry_ok_def queue_entry_def)

lemma insert_row_ok:
  assumes ok: "tables_ok A S" and new: "part_at S (pt_path p) = None" "pt_file p \<in> fst ` set (tb_files S)"
    "pt_rev p \<le> tb_revision S" "pt_min p \<noteq> 0"
  shows "tables_ok A (insert_row now p S)"
proof -
  let ?S = "insert_row now p S"
  have at: "part_at ?S k = (if k = pt_path p then Some p else part_at S k)" for k
    using new(1) by (auto simp: part_at_def insert_row_def find_row_append split: option.split)
  have pend: "pend_at ?S k = (if k = pt_path p then Some (queue_entry now p) else pend_at S k)" for k
    by (simp add: pend_at_def insert_row_def enqueue_find)
  have cat: "cat_at ?S k = cat_at S k" for k by (simp add: cat_at_def insert_row_def)
  have "entry_ok (k \<in> A) (part_at ?S k) (pend_at ?S k) (cat_at ?S k)" for k
    using tables_okD(5) [OF ok, of k] queue_entry_ok by (simp add: at pend cat)
  moreover have "pt_path p \<notin> pt_path ` set (tb_parts S)" using new(1) by (simp add: part_at_def find_row_None)
  ultimately show ?thesis
    using ok new stats_insert_exact [OF tables_okD(2) [OF ok]] enqueue_distinct [OF tables_okD(3) [OF ok]]
    by (auto simp: tables_ok_def insert_row_def)
qed

lemma mset_update_path:
  assumes "distinct (map pt_path ps)" "old \<in> set ps" "pt_path p = pt_path old"
  shows "\<exists>rest. mset ps = add_mset old (mset rest) \<and> mset (update_where (\<lambda>r. pt_path r = pt_path p) (\<lambda>_. p) ps) = add_mset p (mset rest)
    \<and> mset (filter (\<lambda>r. pt_path r \<noteq> pt_path p) ps) = mset rest"
  using assms
proof (induction ps)
  case (Cons q ps)
  show ?case
  proof (cases "q = old")
    case True
    then have "pt_path p \<notin> pt_path ` set ps" using Cons.prems by simp
    then have "\<forall>r \<in> set ps. pt_path r \<noteq> pt_path p" by (metis imageI)
    then have "update_where (\<lambda>r. pt_path r = pt_path p) (\<lambda>_. p) ps = ps" "filter (\<lambda>r. pt_path r \<noteq> pt_path p) ps = ps"
      by (auto intro: update_where_id)
    then show ?thesis using True Cons.prems by (intro exI [of _ ps]) simp
  next
    case False
    then have q: "pt_path q \<noteq> pt_path p" "old \<in> set ps" using Cons.prems by (auto dest: distinct_key_unique [of pt_path "q # ps"])
    then obtain rest where "mset ps = add_mset old (mset rest)"
        "mset (update_where (\<lambda>r. pt_path r = pt_path p) (\<lambda>_. p) ps) = add_mset p (mset rest)"
        "mset (filter (\<lambda>r. pt_path r \<noteq> pt_path p) ps) = mset rest"
      using Cons by auto
    then show ?thesis using q by (intro exI [of _ "q # rest"]) simp
  qed
qed simp

text \<open>An update that leaves the counted columns alone leaves the totals alone.\<close>

lemma totals_same:
  assumes "part_stats p = part_stats old" "pt_file p = pt_file old"
    "mset ps = add_mset old (mset rest)" "mset ps' = add_mset p (mset rest)"
  shows "totals_of ps' f = totals_of ps f"
proof (cases "f = pt_file p")
  case True
  let ?r = "parts_of f rest"
  have a: "mset (parts_of f ps) = add_mset old (mset ?r)" "mset (parts_of f ps') = add_mset p (mset ?r)"
    using parts_of_add [OF assms(3), of f] parts_of_add [OF assms(4), of f] True assms(2) by simp_all
  have ext: "pt_min p = pt_min old" "pt_max p = pt_max old" using assms(1) by (simp_all add: part_stats_def)
  have "min_of (parts_of f ps') = min_of (parts_of f ps)" "max_of (parts_of f ps') = max_of (parts_of f ps)"
    using set_add_mset [OF a(1)] set_add_mset [OF a(2)] a ext by (auto simp: min_of_def max_of_def)
  moreover have "parts_of f ps \<noteq> []" "parts_of f ps' \<noteq> []" using a by auto
  ultimately show ?thesis using totals_add [OF a(1)] totals_add [OF a(2)] assms(1) by (simp add: totals_of_def)
next
  case False
  then show ?thesis using totals_of_other [OF assms(3)] totals_of_other [OF assms(4)] assms(2) by simp
qed

lemma update_row_at:
  assumes "part_at S (pt_path p) = Some old"
  shows "part_at (update_row timed counted now p S) k = (if k = pt_path p then Some p else part_at S k)"
    "cat_at (update_row timed counted now p S) k = cat_at S k"
    "k \<noteq> pt_path p \<Longrightarrow> pend_at (update_row timed counted now p S) k = pend_at S k"
    "tb_revision (update_row timed counted now p S) = tb_revision S" "tb_files (update_row timed counted now p S) = tb_files S"
    "tb_negative (update_row timed counted now p S) = tb_negative S" "tb_positive (update_row timed counted now p S) = tb_positive S"
    "tb_parts (update_row timed counted now p S) = update_where (\<lambda>r. pt_path r = pt_path p) (\<lambda>_. p) (tb_parts S)"
  using assms
  by (auto simp: update_row_def part_at_def find_row_set cat_at_def pend_at_def Let_def enqueue_find find_row_where
      split: option.split if_splits)

lemma update_row_pend:
  assumes at: "part_at S (pt_path p) = Some old" and ok: "entry_ok a (Some old) (pend_at S (pt_path p)) co"
    and timed: "\<not> timed \<longrightarrow> pt_max p = pt_max old \<and> pt_min p = pt_min old"
  shows "entry_ok a (Some p) (pend_at (update_row timed counted now p S) (pt_path p)) co"
proof -
  let ?q1 = "if pt_sha p \<noteq> pt_sha old \<or> pt_rev p \<noteq> pt_rev old then enqueue now p (tb_pending S) else tb_pending S"
  have q1: "find_row pp_path (pt_path p) ?q1 = (if pt_sha p \<noteq> pt_sha old \<or> pt_rev p \<noteq> pt_rev old then Some (queue_entry now p)
      else pend_at S (pt_path p))"
    by (simp add: enqueue_find pend_at_def)
  have "pend_at (update_row timed counted now p S) (pt_path p) =
      (if timed then map_option (\<lambda>r. r\<lparr>pp_max := pt_max p, pp_min := pt_min p\<rparr>) (find_row pp_path (pt_path p) ?q1)
       else find_row pp_path (pt_path p) ?q1)"
    using at by (simp add: update_row_def pend_at_def Let_def find_row_where)
  then show ?thesis
    unfolding q1 using ok timed by (auto simp: entry_ok_def queue_entry_def split: option.splits if_splits)
qed

lemma update_row_ok:
  assumes ok: "tables_ok A S" and at: "part_at S (pt_path p) = Some old"
    and new: "pt_file p \<in> fst ` set (tb_files S)" "pt_rev p \<le> tb_revision S" "pt_min p \<noteq> 0"
    and timed: "\<not> timed \<longrightarrow> pt_max p = pt_max old \<and> pt_min p = pt_min old"
    and counted: "\<not> counted \<longrightarrow> part_stats p = part_stats old \<and> pt_file p = pt_file old"
  shows "tables_ok A (update_row timed counted now p S)"
proof -
  let ?S = "update_row timed counted now p S"
  let ?ps = "update_where (\<lambda>r. pt_path r = pt_path p) (\<lambda>_. p) (tb_parts S)"
  note D = tables_okD [OF ok]
  note at' = update_row_at [OF at, where timed = timed and counted = counted and now = now]
  have old: "old \<in> set (tb_parts S)" "pt_path old = pt_path p" using part_at_path [OF at] by auto
  obtain rest where rest: "mset (tb_parts S) = add_mset old (mset rest)" "mset ?ps = add_mset p (mset rest)"
    using mset_update_path [OF D(1) old(1), of p] old(2) by auto
  have parts: "\<forall>q \<in> set ?ps. pt_file q \<in> fst ` set (tb_files S) \<and> pt_rev q \<le> tb_revision S \<and> pt_min q \<noteq> 0"
  proof
    fix q assume "q \<in> set ?ps"
    then have "q = p \<or> q \<in> set (tb_parts S)" by (auto simp: in_set_update_where split: if_splits)
    then show "pt_file q \<in> fst ` set (tb_files S) \<and> pt_rev q \<le> tb_revision S \<and> pt_min q \<noteq> 0" using new D(6-8) by blast
  qed
  have stats: "tb_stats ?S = (if counted then stats_update ?ps old p (tb_stats S) else tb_stats S)"
    using at by (simp add: update_row_def Let_def)
  have "stats_match ?ps (tb_stats ?S)" if complete: "tb_stats_complete S"
  proof (cases counted)
    case True
    then show ?thesis using stats_update_exact [OF D(2) [OF complete] rest] parts unfolding stats by simp
  next
    case False
    then show ?thesis using D(2) [OF complete] totals_same [OF _ _ rest] counted unfolding stats by (simp add: stats_match_def)
  qed
  moreover have "distinct (map pt_path ?ps)" using D(1) by (subst update_where_keys) auto
  moreover have "distinct (map pp_path (tb_pending ?S))"
  proof -
    have keys: "map pp_path (update_where P (\<lambda>r. r\<lparr>pp_max := a, pp_min := b\<rparr>) q) = map pp_path (q :: pending_part list)" for P a b q
      by (rule update_where_keys) simp
    show ?thesis using D(3) enqueue_distinct [OF D(3)] at by (cases timed) (simp_all add: update_row_def Let_def keys)
  qed
  moreover have "tb_catalog ?S = tb_catalog S" "tb_stats_complete ?S = tb_stats_complete S" using at by (simp_all add: update_row_def Let_def)
  moreover have "entry_ok (k \<in> A) (part_at ?S k) (pend_at ?S k) (cat_at ?S k)" for k
  proof (cases "k = pt_path p")
    case True
    have "entry_ok (pt_path p \<in> A) (Some old) (pend_at S (pt_path p)) (cat_at S (pt_path p))" using D(5) [of "pt_path p"] at by simp
    from update_row_pend [OF at this timed] show ?thesis using True by (simp add: at'(1,2))
  next
    case False
    then show ?thesis using D(5) [of k] by (simp add: at'(1-3))
  qed
  ultimately show ?thesis using D(4) parts by (simp add: tables_ok_def at'(4,5,8))
qed

lemma tables_okI:
  assumes ok: "tables_ok A S" and same: "tb_files S' = tb_files S" "tb_parts S' = tb_parts S" "tb_stats S' = tb_stats S"
    "tb_revision S \<le> tb_revision S'" "tb_stats_complete S' = tb_stats_complete S" and pend: "distinct (map pp_path (tb_pending S'))" and cat: "distinct (map cg_path (tb_catalog S'))"
    and at: "\<And>k. pend_at S' k = (if k = path then q else pend_at S k)" "\<And>k. cat_at S' k = (if k = path then c else cat_at S k)"
      "entry_ok (path \<in> A) (part_at S path) q c"
  shows "tables_ok A S'"
proof -
  have "part_at S' k = part_at S k" for k by (simp add: part_at_def same)
  then have "entry_ok (k \<in> A) (part_at S' k) (pend_at S' k) (cat_at S' k)" for k using tables_okD(5) [OF ok, of k] at by simp
  then show ?thesis using tables_okD [OF ok] same pend cat by (fastforce simp: tables_ok_def)
qed

lemma catalog_written_ok:
  assumes ok: "tables_ok A S" and cat: "distinct (map cg_path rows)" "\<And>k. find_row cg_path k rows = (if k = path then Some c else cat_at S k)"
    "cg_sha c = sha" and part: "part_at S path \<noteq> None"
  shows "tables_ok A (catalog_written now path sha (S\<lparr>tb_catalog := rows\<rparr>))"
proof -
  let ?S = "S\<lparr>tb_catalog := rows\<rparr>"
  obtain p where p: "part_at S path = Some p" using part by auto
  then have p': "part_at ?S path = Some p" "pt_path p = path" using part_at_path [OF p] by (simp_all add: part_at_def)
  have cat': "cat_at (?S\<lparr>tb_pending := q\<rparr>) k = (if k = path then Some c else cat_at S k)" for q k by (simp add: cat_at_def cat)
  show ?thesis
  proof (cases "pt_sha p = sha")
    case True
    have "tables_ok A (?S\<lparr>tb_pending := filter (\<lambda>r. pp_path r \<noteq> path) (tb_pending S)\<rparr>)"
      using tables_okD(3) [OF ok] cat(1,3) True p
      by (intro tables_okI [OF ok, where path = path and q = None and c = "Some c"])
        (auto simp: cat' pend_at_def find_row_drop distinct_map_filter entry_ok_def)
    then show ?thesis using True p' by (simp add: catalog_written_def)
  next
    case False
    have "tables_ok A (?S\<lparr>tb_pending := enqueue now p (tb_pending S)\<rparr>)"
      using enqueue_distinct [OF tables_okD(3) [OF ok]] cat(1) p p'(2) queue_entry_ok
      by (intro tables_okI [OF ok, where path = path and q = "Some (queue_entry now p)" and c = "Some c"])
        (auto simp: cat' pend_at_def enqueue_find)
    then show ?thesis using False p' by (simp add: catalog_written_def)
  qed
qed

lemma put_catalog_ok:
  assumes "tables_ok A S" "part_at S (cg_path c) \<noteq> None"
  shows "tables_ok A (put_catalog now c S)"
  unfolding put_catalog_def
  by (rule catalog_written_ok [OF assms(1) distinct_put [OF tables_okD(4) [OF assms(1)]] _ refl assms(2)])
    (simp add: find_row_put cat_at_def)

lemma catalog_has_part: "tables_ok A S \<Longrightarrow> cat_at S path \<noteq> None \<Longrightarrow> part_at S path \<noteq> None"
  using tables_okD(5) [of A S path] by (auto simp: entry_ok_def split: option.splits)

lemma cat_at_None: "cat_at S path = None \<longleftrightarrow> \<not> (\<exists>r \<in> set (tb_catalog S). cg_path r = path)"
  by (auto simp: cat_at_def find_row_None)

lemma set_catalog_sha_ok:
  assumes ok: "tables_ok A S"
  shows "tables_ok A (set_catalog_sha now path sha S)"
proof (cases "cat_at S path")
  case None
  then show ?thesis using ok by (simp add: set_catalog_sha_def cat_at_None)
next
  case (Some c)
  then have some: "\<exists>r \<in> set (tb_catalog S). cg_path r = path" using cat_at_None [of S path] by simp
  have "tables_ok A (catalog_written now path sha
      (S\<lparr>tb_catalog := update_where (\<lambda>r. cg_path r = path) (\<lambda>r. r\<lparr>cg_sha := sha\<rparr>) (tb_catalog S)\<rparr>))"
  proof (rule catalog_written_ok [OF ok, where c = "c\<lparr>cg_sha := sha\<rparr>"])
    show "distinct (map cg_path (update_where (\<lambda>r. cg_path r = path) (\<lambda>r. r\<lparr>cg_sha := sha\<rparr>) (tb_catalog S)))"
      using tables_okD(4) [OF ok] by (subst update_where_keys) auto
    show "find_row cg_path k (update_where (\<lambda>r. cg_path r = path) (\<lambda>r. r\<lparr>cg_sha := sha\<rparr>) (tb_catalog S))
        = (if k = path then Some (c\<lparr>cg_sha := sha\<rparr>) else cat_at S k)" for k
      using Some by (simp add: find_row_where cat_at_def)
    show "part_at S path \<noteq> None" using catalog_has_part [OF ok] Some by simp
  qed simp
  then show ?thesis using some by (simp add: set_catalog_sha_def)
qed

lemma delete_catalog_ok:
  assumes ok: "tables_ok A S"
  shows "tables_ok A (delete_catalog now path S)"
proof (cases "cat_at S path")
  case None
  then show ?thesis using ok by (simp add: delete_catalog_def cat_at_None)
next
  case (Some c)
  then have some: "\<exists>r \<in> set (tb_catalog S). cg_path r = path" using cat_at_None [of S path] by simp
  obtain p where p: "part_at S path = Some p" using catalog_has_part [OF ok, of path] Some by auto
  then have p': "pt_path p = path" using part_at_path by blast
  let ?rows = "filter (\<lambda>r. cg_path r \<noteq> path) (tb_catalog S)"
  have "part_at (S\<lparr>tb_catalog := ?rows\<rparr>) path = Some p" using p by (simp add: part_at_def)
  moreover have "tables_ok A (S\<lparr>tb_catalog := ?rows, tb_pending := enqueue now p (tb_pending S)\<rparr>)"
    using enqueue_distinct [OF tables_okD(3) [OF ok]] tables_okD(4) [OF ok] p p' queue_entry_ok
    by (intro tables_okI [OF ok, where path = path and q = "Some (queue_entry now p)" and c = None])
      (auto simp: cat_at_def pend_at_def find_row_drop enqueue_find distinct_map_filter)
  ultimately show ?thesis using some by (simp add: delete_catalog_def)
qed

lemma probes_ok: "tables_ok A (delete_probes path S) = tables_ok A S" "tables_ok A (set_probe_sha path sha S) = tables_ok A S"
  by (simp_all add: tables_ok_def part_at_def pend_at_def cat_at_def delete_probes_def set_probe_sha_def)

lemma delete_row_ok:
  assumes ok: "tables_ok A S"
  shows "tables_ok A (delete_row path S)"
proof (cases "part_at S path")
  case None
  then show ?thesis using ok by (simp add: delete_row_def)
next
  case (Some old)
  let ?S = "delete_row path S" and ?ps = "filter (\<lambda>r. pt_path r \<noteq> path) (tb_parts S)"
  note D = tables_okD [OF ok]
  have old: "old \<in> set (tb_parts S)" "pt_path old = path" using part_at_path [OF Some] by auto
  have "mset (tb_parts S) = add_mset old (mset ?ps)"
    using mset_update_path [OF D(1) old(1) refl] old(2) by auto
  then have "tb_stats_complete S \<Longrightarrow> stats_match ?ps (stats_delete ?ps old (tb_stats S))" using stats_delete_exact [OF D(2)] by simp
  moreover have "part_at ?S k = (if k = path then None else part_at S k)" "pend_at ?S k = (if k = path then None else pend_at S k)"
    "cat_at ?S k = (if k = path then None else cat_at S k)" for k
    using Some by (simp_all add: part_at_def pend_at_def cat_at_def delete_row_def Let_def find_row_drop)
  then have "entry_ok (k \<in> A) (part_at ?S k) (pend_at ?S k) (cat_at ?S k)" for k
    using D(5) [of k] by (simp add: entry_ok_def)
  ultimately show ?thesis
    using Some D(1,3,4,6-8) by (simp add: tables_ok_def delete_row_def Let_def distinct_map_filter)
qed

end
