(* ===== verification/PartStore.thy ===== *)
theory PartStore
  imports PartTables IsoTime
begin

text \<open>
  The operations of \<open>app/metadata.py\<close> on Parquet parts: replacing, upserting, updating and deleting parts,
  archiving and re-encoding them, the retired objects, the part catalog and its audit, and the probe caches.
  An operation that raises rolls its transaction back and is \<open>None\<close>. \<open>logical_id\<close> is the hash of
  \<open>logical_part_id\<close>; times are seconds, written as texts.
\<close>

section \<open>Replacing and upserting parts\<close>

record part_in =
  pi_path :: string
  pi_lid :: string
  pi_date :: string
  pi_rows :: int
  pi_min :: int
  pi_max :: int
  pi_size :: int
  pi_sha :: string
  pi_osha :: string
  pi_level :: int
  pi_compressed_at :: string
  pi_catalog :: "(string list \<times> string list \<times> string list) option"

definition object_sha :: "part_in \<Rightarrow> string" where
  "object_sha p = (if pi_osha p \<noteq> [] then pi_osha p else pi_sha p)"

definition new_part :: "(string \<Rightarrow> string \<Rightarrow> string) \<Rightarrow> int \<Rightarrow> string \<Rightarrow> int \<Rightarrow> part_in \<Rightarrow> part" where
  "new_part logical_id now f rv p =
     \<lparr>pt_path = pi_path p, pt_file = f,
      pt_lid = (if pi_lid p \<noteq> [] then pi_lid p else logical_id (pi_path p) (object_sha p)),
      pt_date = pi_date p, pt_rows = pi_rows p, pt_min = pi_min p, pt_max = pi_max p, pt_size = pi_size p,
      pt_sha = pi_sha p, pt_osha = object_sha p, pt_level = (if pi_level p = 0 then 1 else pi_level p),
      pt_compressed_at = pi_compressed_at p, pt_comp_error = [], pt_comp_retry = [], pt_key = [], pt_etag = [],
      pt_offset = 0, pt_length = 0, pt_obj_sha = [], pt_uploaded = [], pt_verified = [], pt_access = fmt now,
      pt_rev = rv, pt_created = fmt now, pt_updated = fmt now\<rparr>"

text \<open>\<open>ON CONFLICT(path) DO UPDATE\<close>: the archive and compression columns survive only an unchanged hash.\<close>

definition merge_part :: "part \<Rightarrow> part \<Rightarrow> part" where
  "merge_part old e = (let same = (pt_sha old = pt_sha e) in
     old\<lparr>pt_file := pt_file e, pt_lid := pt_lid e, pt_date := pt_date e, pt_rows := pt_rows e, pt_min := pt_min e,
       pt_max := pt_max e, pt_size := pt_size e,
       pt_key := (if same then pt_key old else []), pt_etag := (if same then pt_etag old else []),
       pt_offset := (if same then pt_offset old else 0), pt_length := (if same then pt_length old else 0),
       pt_obj_sha := (if same then pt_obj_sha old else []), pt_uploaded := (if same then pt_uploaded old else []),
       pt_verified := (if same then pt_verified old else []),
       pt_sha := pt_sha e, pt_osha := pt_osha e,
       pt_level := (if same then pt_level old else pt_level e),
       pt_compressed_at := (if same then pt_compressed_at old else pt_compressed_at e),
       pt_comp_error := (if same then pt_comp_error old else []), pt_comp_retry := (if same then pt_comp_retry old else []),
       pt_access := pt_access e, pt_rev := pt_rev e, pt_updated := pt_updated e\<rparr>)"

text \<open>The columns that count as content.\<close>

definition content_differs :: "part \<Rightarrow> int \<Rightarrow> int \<Rightarrow> int \<Rightarrow> int \<Rightarrow> string \<Rightarrow> bool" where
  "content_differs p rows lo hi bytes sha \<longleftrightarrow>
     pt_rows p \<noteq> rows \<or> pt_min p \<noteq> lo \<or> pt_max p \<noteq> hi \<or> pt_size p \<noteq> bytes \<or> pt_sha p \<noteq> sha"

definition changed :: "part_tables \<Rightarrow> part_in \<Rightarrow> bool" where
  "changed S p = (case part_at S (pi_path p) of None \<Rightarrow> True
     | Some old \<Rightarrow> content_differs old (pi_rows p) (pi_min p) (pi_max p) (pi_size p) (pi_sha p))"

text \<open>A part whose hash changes loses its catalog row and its probes.\<close>

definition drop_derived :: "string \<Rightarrow> string \<Rightarrow> string \<Rightarrow> part_tables \<Rightarrow> part_tables" where
  "drop_derived now path sha S = (case part_at S path of None \<Rightarrow> S
     | Some old \<Rightarrow> if pt_sha old \<noteq> sha then delete_probes path (delete_catalog now path S) else S)"

definition upsert_part_row :: "string \<Rightarrow> part \<Rightarrow> part_tables \<Rightarrow> part_tables" where
  "upsert_part_row now e S = (case part_at S (pt_path e) of None \<Rightarrow> insert_row now e S
     | Some old \<Rightarrow> update_row True True now (merge_part old e) S)"

definition put_catalogs :: "string \<Rightarrow> part_in list \<Rightarrow> part_tables \<Rightarrow> part_tables" where
  "put_catalogs now ps S = foldl (\<lambda>S p. case pi_catalog p of None \<Rightarrow> S
     | Some (dbs, tbls, ops) \<Rightarrow> put_catalog now \<lparr>cg_path = pi_path p, cg_sha = pi_sha p, cg_databases = sort (remdups dbs),
         cg_tables = sort (remdups tbls), cg_operations = sort (remdups ops), cg_indexed = now\<rparr> S) S ps"

definition committed_part_rows :: "part_in list \<Rightarrow> part_tables \<Rightarrow> (string \<times> part) list" where
  "committed_part_rows ps S = List.map_filter (\<lambda>path. map_option (Pair path) (part_at S path)) (remdups (map pi_path ps))"

definition upsert_parts :: "(string \<Rightarrow> string \<Rightarrow> string) \<Rightarrow> int \<Rightarrow> string \<Rightarrow> part_in list \<Rightarrow> part_tables
    \<Rightarrow> ((string \<times> part) list \<times> part_tables) option" where
  "upsert_parts logical_id now f ps S =
     (if ps = [] then Some ([], S)
      else if f \<notin> fst ` set (tb_files S) then None
      else
       (let S1 = foldl (\<lambda>T p. drop_derived (fmt now) (pi_path p) (pi_sha p) T) S ps;
            paths = map pi_path (filter (changed S) ps);
            S2 = (if paths = [] then S1 else S1\<lparr>tb_revision := tb_revision S1 + 1\<rparr>);
            rv = (\<lambda>p. if pi_path p \<in> set paths then tb_revision S2
                       else case part_at S (pi_path p) of None \<Rightarrow> 0 | Some old \<Rightarrow> pt_rev old);
            S3 = foldl (\<lambda>T p. upsert_part_row (fmt now) (new_part logical_id now f (rv p) p) T) S2 ps;
            S4 = put_catalogs (fmt now) ps S3
        in Some (committed_part_rows ps S4, S4)))"

text \<open>\<open>replace_parts\<close>: the inserts fail when another file holds one of the paths.\<close>

definition delete_file_parts :: "string \<Rightarrow> part_tables \<Rightarrow> part_tables" where
  "delete_file_parts f S = foldl (\<lambda>T p. delete_row (pt_path p) T) S (parts_of f (tb_parts S))"

fun insert_new :: "string \<Rightarrow> part list \<Rightarrow> part_tables \<Rightarrow> part_tables option" where
  "insert_new now [] S = Some S"
| "insert_new now (p # ps) S = (if part_at S (pt_path p) \<noteq> None then None else insert_new now ps (insert_row now p S))"

definition replace_parts :: "(string \<Rightarrow> string \<Rightarrow> string) \<Rightarrow> int \<Rightarrow> string \<Rightarrow> part_in list \<Rightarrow> part_tables
    \<Rightarrow> ((string \<times> part) list \<times> part_tables) option" where
  "replace_parts logical_id now f ps S =
     (let S1 = delete_file_parts f S;
          S2 = (if ps = [] then S1 else S1\<lparr>tb_revision := tb_revision S1 + 1\<rparr>)
      in if ps \<noteq> [] \<and> f \<notin> fst ` set (tb_files S) then None
         else case insert_new (fmt now) (map (new_part logical_id now f (if ps = [] then 0 else tb_revision S2)) ps) S2 of
           None \<Rightarrow> None
         | Some S3 \<Rightarrow> (let S4 = put_catalogs (fmt now) ps S3 in Some (committed_part_rows ps S4, S4)))"

section \<open>Updating and deleting one part\<close>

record new_values =
  pv_rows :: int
  pv_min :: int
  pv_max :: int
  pv_size :: int
  pv_sha :: string

definition rewritten_part :: "int \<Rightarrow> new_values \<Rightarrow> int \<Rightarrow> part \<Rightarrow> part" where
  "rewritten_part now v rv old = (let same = (pt_sha old = pv_sha v) in
     old\<lparr>pt_rows := pv_rows v, pt_min := pv_min v, pt_max := pv_max v, pt_size := pv_size v,
       pt_key := (if same then pt_key old else []), pt_etag := (if same then pt_etag old else []),
       pt_offset := (if same then pt_offset old else 0), pt_length := (if same then pt_length old else 0),
       pt_obj_sha := (if same then pt_obj_sha old else []), pt_uploaded := (if same then pt_uploaded old else []),
       pt_verified := (if same then pt_verified old else []),
       pt_sha := pv_sha v, pt_rev := rv, pt_access := fmt now, pt_updated := fmt now\<rparr>)"

definition update_part :: "int \<Rightarrow> string \<Rightarrow> new_values \<Rightarrow> part_tables \<Rightarrow> part_tables" where
  "update_part now path v S = (case part_at S path of None \<Rightarrow> S
     | Some old \<Rightarrow>
        (let diff = content_differs old (pv_rows v) (pv_min v) (pv_max v) (pv_size v) (pv_sha v);
             S1 = (if diff then S\<lparr>tb_revision := tb_revision S + 1\<rparr> else S);
             rv = (if diff then tb_revision S1 else pt_rev old);
             S2 = drop_derived (fmt now) path (pv_sha v) S1
         in update_row True True (fmt now) (rewritten_part now v rv old) S2))"

record retired_object =
  ro_key :: string
  ro_sha :: string
  ro_etag :: string
  ro_retired :: string
  ro_after :: string
  ro_error :: string
  ro_retry :: string

record part_store =
  ps_tables :: part_tables
  ps_retired :: "retired_object list"
  ps_aliases :: "(string \<times> string) list"

definition retire_oss_object :: "int \<Rightarrow> int \<Rightarrow> part \<Rightarrow> retired_object list \<Rightarrow> retired_object list" where
  "retire_oss_object now grace p rs =
     (if pt_key p = [] then rs
      else let sha = (if pt_obj_sha p \<noteq> [] then pt_obj_sha p else pt_osha p);
               after = fmt (now + max grace 0)
        in if \<exists>r \<in> set rs. ro_key r = pt_key p
           then update_where (\<lambda>r. ro_key r = pt_key p) (\<lambda>r. r\<lparr>ro_sha := (if ro_sha r = [] then sha else ro_sha r),
                  ro_etag := (if ro_etag r = [] then pt_etag p else ro_etag r), ro_after := max (ro_after r) after\<rparr>) rs
           else rs @ [\<lparr>ro_key = pt_key p, ro_sha = sha, ro_etag = pt_etag p, ro_retired = fmt now, ro_after = after,
                       ro_error = [], ro_retry = []\<rparr>])"

definition delete_part :: "int \<Rightarrow> string \<Rightarrow> part_store \<Rightarrow> part_store" where
  "delete_part now path P = (case part_at (ps_tables P) path of None \<Rightarrow> P
     | Some old \<Rightarrow> P\<lparr>ps_tables := delete_row path (ps_tables P), ps_retired := retire_oss_object now 3600 old (ps_retired P),
         ps_aliases := filter (\<lambda>(_, l). l \<noteq> pt_lid old) (ps_aliases P)\<rparr>)"

section \<open>Archiving and re-encoding\<close>

record archived_part =
  ar_path :: string
  ar_key :: string
  ar_etag :: string
  ar_offset :: int
  ar_length :: int
  ar_obj_sha :: string

fun archive_rows :: "int \<Rightarrow> archived_part list \<Rightarrow> part_tables \<Rightarrow> part_tables option" where
  "archive_rows now [] S = Some S"
| "archive_rows now (a # as) S = (case part_at S (ar_path a) of None \<Rightarrow> None
     | Some p \<Rightarrow> archive_rows now as (update_row False True (fmt now)
         (p\<lparr>pt_key := ar_key a, pt_etag := ar_etag a, pt_offset := max (ar_offset a) 0, pt_length := max (ar_length a) 0,
            pt_obj_sha := ar_obj_sha a, pt_uploaded := fmt now, pt_verified := fmt now, pt_updated := fmt now\<rparr>) S))"

definition mark_parts_archived :: "int \<Rightarrow> archived_part list \<Rightarrow> part_tables \<Rightarrow> part_tables option" where
  "mark_parts_archived now as S = archive_rows now as S"

definition mark_part_compression_level :: "int \<Rightarrow> string \<Rightarrow> string \<Rightarrow> int \<Rightarrow> part_tables \<Rightarrow> part_tables option" where
  "mark_part_compression_level now path expected level S = (case part_at S path of None \<Rightarrow> None
     | Some p \<Rightarrow> if pt_osha p \<noteq> expected then None
         else Some (update_row False True (fmt now) (p\<lparr>pt_level := level, pt_compressed_at := fmt now, pt_comp_error := [],
           pt_comp_retry := [], pt_updated := fmt now\<rparr>) S))"

definition record_part_compression_failure :: "int \<Rightarrow> string \<Rightarrow> string \<Rightarrow> string \<Rightarrow> int \<Rightarrow> part_tables \<Rightarrow> part_tables" where
  "record_part_compression_failure now path expected error retry S = (case part_at S path of None \<Rightarrow> S
     | Some p \<Rightarrow> if pt_osha p \<noteq> expected then S
         else update_row False False (fmt now) (p\<lparr>pt_comp_error := take 1000 error,
           pt_comp_retry := fmt (now + max retry 1), pt_updated := fmt now\<rparr>) S)"

record encoding =
  en_path :: string
  en_expected :: string
  en_sha :: string
  en_size :: int
  en_level :: int
  en_key :: string
  en_etag :: string
  en_offset :: int
  en_length :: int
  en_obj_sha :: string
  en_grace :: int

definition add_alias :: "string \<times> string \<Rightarrow> (string \<times> string) list \<Rightarrow> (string \<times> string) list" where
  "add_alias a as = (if a \<in> set as then as else as @ [a])"

definition commit_part_encoding :: "int \<Rightarrow> encoding \<Rightarrow> part_store \<Rightarrow> part_store option" where
  "commit_part_encoding now e P = (case part_at (ps_tables P) (en_path e) of None \<Rightarrow> None
     | Some old \<Rightarrow> if pt_osha old \<noteq> en_expected e then None
       else
        (let retired = (if pt_key old \<noteq> [] \<and> pt_key old \<noteq> en_key e
                then retire_oss_object now (en_grace e) old (ps_retired P) else ps_retired P);
             aliases = add_alias (en_sha e, pt_lid old) (add_alias (en_expected e, pt_lid old) (ps_aliases P));
             p = old\<lparr>pt_size := en_size e, pt_sha := en_sha e, pt_osha := en_sha e, pt_level := en_level e,
                   pt_compressed_at := fmt now, pt_comp_error := [], pt_comp_retry := [], pt_key := en_key e,
                   pt_etag := en_etag e, pt_offset := max (en_offset e) 0, pt_length := max (en_length e) 0,
                   pt_obj_sha := (if en_obj_sha e \<noteq> [] then en_obj_sha e else en_sha e), pt_uploaded := fmt now,
                   pt_verified := fmt now, pt_access := fmt now, pt_updated := fmt now\<rparr>;
             S = update_row False True (fmt now) p (ps_tables P);
             S = set_probe_sha (en_path e) (en_sha e) (set_catalog_sha (fmt now) (en_path e) (en_sha e) S)
         in Some (P\<lparr>ps_tables := S, ps_retired := retired, ps_aliases := aliases\<rparr>)))"

definition retired_oss_objects_ready :: "int \<Rightarrow> int \<Rightarrow> part_store \<Rightarrow> retired_object list" where
  "retired_oss_objects_ready now limit P = take (nat limit) (sort_key (\<lambda>r. (ro_after r, ro_key r))
     (filter (\<lambda>r. ro_after r \<le> fmt now \<and> (ro_retry r = [] \<or> ro_retry r \<le> fmt now) \<and>
        (\<forall>p \<in> set (tb_parts (ps_tables P)). pt_key p \<noteq> ro_key r)) (ps_retired P)))"

definition forget_retired_oss_object :: "string \<Rightarrow> part_store \<Rightarrow> part_store" where
  "forget_retired_oss_object key P = P\<lparr>ps_retired := filter (\<lambda>r. ro_key r \<noteq> key) (ps_retired P)\<rparr>"

definition record_retired_oss_failure :: "int \<Rightarrow> string \<Rightarrow> string \<Rightarrow> int \<Rightarrow> part_store \<Rightarrow> part_store" where
  "record_retired_oss_failure now key error retry P = P\<lparr>ps_retired := update_where (\<lambda>r. ro_key r = key)
     (\<lambda>r. r\<lparr>ro_error := take 1000 error, ro_retry := fmt (now + max retry 1)\<rparr>) (ps_retired P)\<rparr>"

definition touch_local_parts :: "int \<Rightarrow> string list \<Rightarrow> part_tables \<Rightarrow> part_tables" where
  "touch_local_parts now paths S = foldl (\<lambda>S path. case part_at S path of None \<Rightarrow> S
     | Some p \<Rightarrow> update_row False False (fmt now) (p\<lparr>pt_access := fmt now\<rparr>) S) S paths"

section \<open>Reading parts\<close>

definition file_archive_complete :: "string \<Rightarrow> part_tables \<Rightarrow> bool" where
  "file_archive_complete f S = (count_where (\<lambda>p. pt_file p = f) (tb_parts S)
     = count_where (\<lambda>p. pt_file p = f \<and> has_object p) (tb_parts S))"

definition file_state_of :: "part_tables \<Rightarrow> string \<Rightarrow> string" where
  "file_state_of S f = (case map_of (tb_files S) f of None \<Rightarrow> [] | Some i \<Rightarrow> fi_state i)"

definition pending_archive_parts :: "int \<Rightarrow> part_tables \<Rightarrow> part list" where
  "pending_archive_parts limit S = take (nat limit) (sort_key (\<lambda>p. (pt_min p, pt_max p, pt_path p))
     (filter (\<lambda>p. \<not> has_object p \<and> file_state_of S (pt_file p) \<in> {''stored'', ''done''}) (tb_parts S)))"

definition cold_compression_candidates :: "int \<Rightarrow> int \<Rightarrow> int \<Rightarrow> part_tables \<Rightarrow> part list" where
  "cold_compression_candidates now cutoff limit S = take (nat limit) (sort_key (\<lambda>p. (pt_max p, pt_min p, pt_path p))
     (filter (\<lambda>p. has_object p \<and> pt_level p < 9 \<and> pt_max p \<le> cutoff \<and> (pt_comp_retry p = [] \<or> pt_comp_retry p \<le> fmt now) \<and>
        visible_file S (pt_file p) \<and> file_state_of S (pt_file p) = ''done'') (tb_parts S)))"

definition part_by_sha256 :: "string \<Rightarrow> part_tables \<Rightarrow> part option" where
  "part_by_sha256 sha S = List.find (\<lambda>p. pt_sha p = sha \<and> visible_file S (pt_file p)) (tb_parts S)"

definition part_by_logical_id :: "string \<Rightarrow> part_store \<Rightarrow> part option" where
  "part_by_logical_id v P = List.find (\<lambda>p. (pt_lid p = v \<or> (v, pt_lid p) \<in> set (ps_aliases P)) \<and>
     visible_file (ps_tables P) (pt_file p)) (tb_parts (ps_tables P))"

section \<open>The catalog and its audit\<close>

definition upsert_part_catalog :: "int \<Rightarrow> string \<Rightarrow> string \<Rightarrow> string list \<times> string list \<times> string list \<Rightarrow> part_tables
    \<Rightarrow> bool \<times> part_tables" where
  "upsert_part_catalog now path sha cat S = (case part_at S path of None \<Rightarrow> (False, S)
     | Some p \<Rightarrow> if pt_sha p \<noteq> sha then (False, S)
         else (case cat of (dbs, tbls, ops) \<Rightarrow> (True, put_catalog (fmt now) \<lparr>cg_path = path, cg_sha = sha,
           cg_databases = sort (remdups dbs), cg_tables = sort (remdups tbls), cg_operations = sort (remdups ops),
           cg_indexed = fmt now\<rparr> S)))"

definition part_catalog_pending :: "string \<Rightarrow> part_tables \<Rightarrow> bool" where
  "part_catalog_pending path S = (\<exists>r \<in> set (tb_pending S). pp_path r = path)"

text \<open>The parts to catalog, latest first.\<close>

definition missing_part_catalogs :: "int \<Rightarrow> part_tables \<Rightarrow> part list" where
  "missing_part_catalogs limit S = take (nat limit)
     (List.map_filter (\<lambda>q. case part_at S (pp_path q) of None \<Rightarrow> None
        | Some p \<Rightarrow> if pp_rev q = pt_rev p \<and> pt_file p \<in> fst ` set (tb_files S) then Some p else None)
       (rev (sort_key (\<lambda>q. (pp_max q, pp_min q, pp_path q)) (tb_pending S))))"

definition needs_catalog :: "part_tables \<Rightarrow> part \<Rightarrow> bool" where
  "needs_catalog S p = (\<forall>c \<in> set (tb_catalog S). cg_path c = pt_path p \<longrightarrow> cg_sha c \<noteq> pt_sha p)"

record audit_page =
  au_after :: string
  au_rows :: "part list"
  au_candidates :: "string list"
  au_next :: string
  au_complete :: bool

text \<open>
  \<open>reconcile_part_catalog_pending\<close>: the page of parts after the cursor \<open>after\<close> is read first, the writes
  commit in a later transaction if the cursor still stands there. The answer is the parts scanned, the parts
  queued and whether the audit is complete.
\<close>

definition audit_read :: "nat \<Rightarrow> string \<Rightarrow> part_tables \<Rightarrow> audit_page" where
  "audit_read target after S =
     (let rows = take target (sort_key pt_path (filter (\<lambda>p. after < pt_path p) (tb_parts S)))
      in \<lparr>au_after = after, au_rows = rows, au_candidates = map pt_path (filter (needs_catalog S) rows),
          au_next = (if rows = [] then after else pt_path (last rows)), au_complete = (length rows < target)\<rparr>)"

definition queue_candidate :: "string \<Rightarrow> part_tables \<Rightarrow> string \<Rightarrow> part_tables" where
  "queue_candidate now S path = (case part_at S path of None \<Rightarrow> S
     | Some p \<Rightarrow> if needs_catalog S p then S\<lparr>tb_pending := enqueue now p (tb_pending S)\<rparr> else S)"

definition audit_commit :: "int \<Rightarrow> audit_page \<Rightarrow> part_tables \<Rightarrow> (nat \<times> nat \<times> bool) \<times> part_tables" where
  "audit_commit now pg S =
     (if tb_audit_complete S then ((0, 0, True), S)
      else if tb_audit_after S \<noteq> au_after pg then ((0, 0, False), S)
      else ((length (au_rows pg), length (au_candidates pg), au_complete pg),
        (foldl (queue_candidate (fmt now)) S (au_candidates pg))\<lparr>tb_audit_after := au_next pg, tb_audit_complete := au_complete pg\<rparr>))"

definition reconcile_part_catalog_pending :: "int \<Rightarrow> int \<Rightarrow> part_tables \<Rightarrow> (nat \<times> nat \<times> bool) \<times> part_tables" where
  "reconcile_part_catalog_pending now limit S =
     (if limit \<le> 0 then ((0, 0, False), S)
      else if tb_audit_complete S then ((0, 0, True), S)
      else audit_commit now (audit_read (nat limit) (tb_audit_after S) S) S)"

section \<open>Probe caches\<close>

text \<open>A dictionary built from a list: the last value of a key counts, at the place of its first.\<close>

definition dict_of :: "('k \<times> 'v) list \<Rightarrow> ('k \<times> 'v) list" where
  "dict_of kvs = foldl (\<lambda>d (k, v). AList.update k v d) [] kvs"

definition record_negative_probes :: "int \<Rightarrow> (string \<times> string \<times> string) list \<Rightarrow> part_tables \<Rightarrow> nat \<times> part_tables" where
  "record_negative_probes now entries S =
     (let desired = dict_of (List.map_filter (\<lambda>(path, sha, fp). if path \<noteq> [] \<and> fp \<noteq> [] then Some ((path, fp), sha) else None) entries);
          valid = filter (\<lambda>((path, fp), sha). map_option pt_sha (part_at S path) = Some sha) desired
      in (length valid, foldl (\<lambda>S ((path, fp), sha).
            S\<lparr>tb_positive := filter (\<lambda>r. \<not> (po_path r = path \<and> po_fingerprint r = fp)) (tb_positive S),
              tb_negative := put_row (\<lambda>r. (np_path r, np_fingerprint r))
                \<lparr>np_path = path, np_sha = sha, np_fingerprint = fp, np_at = fmt now\<rparr> (tb_negative S)\<rparr>) S valid))"

text \<open>The \<open>n\<close> rows of the latest \<open>at\<close>, later rowids first, in rowid order.\<close>

definition keep_newest :: "nat \<Rightarrow> ('r \<Rightarrow> string) \<Rightarrow> 'r list \<Rightarrow> 'r list" where
  "keep_newest n at rows =
     (let ranked = sort_key (\<lambda>(i, r). at r) (enumerate 0 rows);
          kept = set (map fst (drop (length rows - n) ranked))
      in map snd (filter (\<lambda>(i, r). i \<in> kept) (enumerate 0 rows)))"

record probe_entry =
  pe_path :: string
  pe_sha :: string
  pe_fingerprint :: string
  pe_rows :: string
  pe_bytes :: int
  pe_empty :: bool

definition record_positive_probes :: "int \<Rightarrow> int \<Rightarrow> int \<Rightarrow> probe_entry list \<Rightarrow> part_tables \<Rightarrow> nat \<times> part_tables" where
  "record_positive_probes now max_entry_bytes max_entries entries S =
     (let desired = dict_of (List.map_filter (\<lambda>e. if pe_path e = [] \<or> pe_fingerprint e = [] \<or> pe_empty e \<or>
              max max_entry_bytes 0 < pe_bytes e then None
            else Some ((pe_path e, pe_fingerprint e), (pe_sha e, pe_rows e))) entries);
          valid = filter (\<lambda>((path, fp), (sha, json)). map_option pt_sha (part_at S path) = Some sha) desired
      in if desired = [] then (0, S)
         else (length valid,
          (let S = foldl (\<lambda>S ((path, fp), (sha, json)).
            S\<lparr>tb_negative := filter (\<lambda>r. \<not> (np_path r = path \<and> np_fingerprint r = fp)) (tb_negative S),
              tb_positive := put_row (\<lambda>r. (po_path r, po_fingerprint r))
                \<lparr>po_path = path, po_sha = sha, po_fingerprint = fp, po_rows = json, po_at = fmt now\<rparr> (tb_positive S)\<rparr>) S valid
           in S\<lparr>tb_positive := keep_newest (nat max_entries) po_at (tb_positive S)\<rparr>)))"

definition negative_probe_matches :: "(string \<times> string \<times> string) list \<Rightarrow> part_tables \<Rightarrow> string list" where
  "negative_probe_matches entries S =
     map np_path (filter (\<lambda>r. (np_path r, np_sha r, np_fingerprint r) \<in> set entries) (tb_negative S))"

definition positive_probe_matches :: "(string \<Rightarrow> 'v option) \<Rightarrow> (string \<times> string \<times> string) list \<Rightarrow> part_tables \<Rightarrow> (string \<times> 'v) list" where
  "positive_probe_matches parse entries S = dict_of (List.map_filter (\<lambda>r. map_option (Pair (po_path r)) (parse (po_rows r)))
     (filter (\<lambda>r. (po_path r, po_sha r, po_fingerprint r) \<in> set entries) (tb_positive S)))"

end
