(* ===== verification/PartSafety.thy ===== *)
theory PartSafety
  imports PartStore
begin

text \<open>
  What every operation of \<open>PartStore\<close> keeps: the invariant of the part tables for any set of audited paths,
  and the probe caches, whose answers hold of the current contents of their part. The operations and the
  two transactions of the catalog audit form a step system.
\<close>

section \<open>Frames\<close>

definition env_of :: "part_tables \<Rightarrow> (string \<times> file_info) list \<times> string \<times> bool \<times> bool" where
  "env_of S = (tb_files S, tb_audit_after S, tb_audit_complete S, tb_stats_complete S)"

lemma catalog_written_frame [simp]:
  "env_of (catalog_written now path sha S) = env_of S" "tb_revision (catalog_written now path sha S) = tb_revision S"
  "tb_parts (catalog_written now path sha S) = tb_parts S"
  "tb_negative (catalog_written now path sha S) = tb_negative S" "tb_positive (catalog_written now path sha S) = tb_positive S"
  by (simp_all add: catalog_written_def env_of_def split: option.split)

lemma statement_env [simp]:
  "env_of (insert_row now p S) = env_of S" "env_of (update_row timed counted now p S) = env_of S"
  "env_of (delete_row path S) = env_of S" "env_of (put_catalog now c S) = env_of S"
  "env_of (set_catalog_sha now path sha S) = env_of S" "env_of (delete_catalog now path S) = env_of S"
  "env_of (delete_probes path S) = env_of S" "env_of (set_probe_sha path sha S) = env_of S"
  by (simp_all add: insert_row_def update_row_def delete_row_def put_catalog_def set_catalog_sha_def delete_catalog_def
      delete_probes_def set_probe_sha_def Let_def split: option.split) (simp_all add: env_of_def)

lemma statement_revision [simp]:
  "tb_revision (insert_row now p S) = tb_revision S" "tb_revision (update_row timed counted now p S) = tb_revision S"
  "tb_revision (delete_row path S) = tb_revision S" "tb_revision (put_catalog now c S) = tb_revision S"
  "tb_revision (set_catalog_sha now path sha S) = tb_revision S" "tb_revision (delete_catalog now path S) = tb_revision S"
  "tb_revision (delete_probes path S) = tb_revision S" "tb_revision (set_probe_sha path sha S) = tb_revision S"
  by (simp_all add: insert_row_def update_row_def delete_row_def put_catalog_def set_catalog_sha_def delete_catalog_def
      delete_probes_def set_probe_sha_def Let_def split: option.split)

lemma derived_parts [simp]:
  "tb_parts (put_catalog now c S) = tb_parts S"
  "tb_parts (set_catalog_sha now path sha S) = tb_parts S" "tb_parts (delete_catalog now path S) = tb_parts S"
  "tb_parts (delete_probes path S) = tb_parts S" "tb_parts (set_probe_sha path sha S) = tb_parts S"
  by (simp_all add: put_catalog_def set_catalog_sha_def delete_catalog_def delete_probes_def set_probe_sha_def Let_def
      split: option.split)

lemma derived_part_at [simp]:
  "part_at (put_catalog now c S) k = part_at S k"
  "part_at (set_catalog_sha now path sha S) k = part_at S k" "part_at (delete_catalog now path S) k = part_at S k"
  "part_at (delete_probes path S) k = part_at S k" "part_at (set_probe_sha path sha S) k = part_at S k"
  by (simp_all add: part_at_def)

lemma insert_row_at: "part_at S (pt_path p) = None \<Longrightarrow> part_at (insert_row now p S) k = (if k = pt_path p then Some p else part_at S k)"
  by (auto simp: part_at_def insert_row_def find_row_append split: option.split)

lemma delete_row_at: "part_at (delete_row path S) k = (if k = path then None else part_at S k)"
  by (auto simp: delete_row_def part_at_def Let_def find_row_drop split: option.split)

text \<open>The entries of both probe caches: path, hash, fingerprint and the rows found, if any.\<close>

definition probe_rows :: "part_tables \<Rightarrow> (string \<times> string \<times> string \<times> string option) set" where
  "probe_rows S = (\<lambda>r. (np_path r, np_sha r, np_fingerprint r, None)) ` set (tb_negative S) \<union>
     (\<lambda>r. (po_path r, po_sha r, po_fingerprint r, Some (po_rows r))) ` set (tb_positive S)"

lemma statement_probes [simp]:
  "probe_rows (insert_row now p S) = probe_rows S" "probe_rows (update_row timed counted now p S) = probe_rows S"
  "probe_rows (put_catalog now c S) = probe_rows S" "probe_rows (set_catalog_sha now path sha S) = probe_rows S"
  "probe_rows (delete_catalog now path S) = probe_rows S"
  "probe_rows (delete_probes path S) = {x \<in> probe_rows S. fst x \<noteq> path}"
  by (auto simp: probe_rows_def insert_row_def update_row_def put_catalog_def set_catalog_sha_def delete_catalog_def
      delete_probes_def Let_def split: option.split)

lemma delete_row_probes: "probe_rows (delete_row path S) \<subseteq> probe_rows S"
  "part_at S path \<noteq> None \<Longrightarrow> x \<in> probe_rows (delete_row path S) \<Longrightarrow> fst x \<noteq> path"
  by (auto simp: probe_rows_def delete_row_def Let_def split: option.splits)

lemma set_probe_sha_probes:
  "x \<in> probe_rows (set_probe_sha path sha S) \<Longrightarrow>
     \<exists>old. (fst x, old, snd (snd x)) \<in> probe_rows S \<and> fst (snd x) = (if fst x = path then sha else old)"
  by (fastforce simp: probe_rows_def set_probe_sha_def in_set_update_where)

definition probes_true :: "(string \<Rightarrow> string \<Rightarrow> string option \<Rightarrow> bool) \<Rightarrow> part_tables \<Rightarrow> bool" where
  "probes_true answer S \<longleftrightarrow> (\<forall>(path, sha, fp, v) \<in> probe_rows S. (\<exists>p. part_at S path = Some p \<and> pt_sha p = sha) \<and> answer sha fp v)"

lemma probes_trueI:
  assumes "probes_true answer S" "probe_rows T \<subseteq> probe_rows S"
    "\<And>path p x. x \<in> probe_rows T \<Longrightarrow> fst x = path \<Longrightarrow> part_at S path = Some p \<Longrightarrow> \<exists>q. part_at T path = Some q \<and> pt_sha q = pt_sha p"
  shows "probes_true answer T"
  unfolding probes_true_def
proof (clarify)
  fix path sha fp v assume x: "(path, sha, fp, v) \<in> probe_rows T"
  then have "(path, sha, fp, v) \<in> probe_rows S" using assms(2) by blast
  then obtain p where "part_at S path = Some p" "pt_sha p = sha" "answer sha fp v"
    using assms(1) unfolding probes_true_def by fastforce
  with assms(3) [OF x, of path p] show "(\<exists>p. part_at T path = Some p \<and> pt_sha p = sha) \<and> answer sha fp v" by auto
qed

lemma probes_true_at: "probes_true answer S \<Longrightarrow> x \<in> probe_rows S \<Longrightarrow>
    \<exists>p. part_at S (fst x) = Some p \<and> pt_sha p = fst (snd x)"
  unfolding probes_true_def by fastforce

section \<open>Upserts\<close>

lemma revision_ok: "tables_ok A S \<Longrightarrow> tables_ok A (S\<lparr>tb_revision := tb_revision S + 1\<rparr>)"
  by (fastforce simp: tables_ok_def part_at_def pend_at_def cat_at_def)

lemma revision_frame [simp]:
  "env_of (S\<lparr>tb_revision := n\<rparr>) = env_of S" "part_at (S\<lparr>tb_revision := n\<rparr>) k = part_at S k"
  "probe_rows (S\<lparr>tb_revision := n\<rparr>) = probe_rows S"
  by (simp_all add: env_of_def part_at_def probe_rows_def)

lemma drop_derived_frame [simp]:
  "env_of (drop_derived now path sha S) = env_of S" "tb_revision (drop_derived now path sha S) = tb_revision S"
  "tb_parts (drop_derived now path sha S) = tb_parts S" "part_at (drop_derived now path sha S) k = part_at S k"
  by (simp_all add: drop_derived_def split: option.split)

lemma drop_derived_ok: "tables_ok A S \<Longrightarrow> tables_ok A (drop_derived now path sha S)"
  by (simp add: drop_derived_def delete_catalog_ok probes_ok split: option.split)

lemma drop_derived_probes: "probe_rows (drop_derived now path sha S) =
    {x \<in> probe_rows S. \<forall>old. part_at S path = Some old \<and> fst x = path \<longrightarrow> pt_sha old = sha}"
  by (auto simp: drop_derived_def split: option.split)

lemma drop_all:
  fixes S :: part_tables and ps :: "part_in list" and now :: string
  defines "T \<equiv> foldl (\<lambda>T p. drop_derived now (pi_path p) (pi_sha p) T) S ps"
  shows "env_of T = env_of S" "tb_revision T = tb_revision S" "tb_parts T = tb_parts S" "part_at T k = part_at S k"
    "tables_ok A S \<Longrightarrow> tables_ok A T"
    "probe_rows T = {x \<in> probe_rows S. \<forall>p \<in> set ps. \<forall>old. part_at S (pi_path p) = Some old \<and> fst x = pi_path p \<longrightarrow> pt_sha old = pi_sha p}"
  unfolding T_def
  by (induction ps arbitrary: S) (auto simp: drop_derived_ok drop_derived_probes)

lemma new_part_simps [simp]:
  "pt_path (new_part lid now f rv p) = pi_path p" "pt_file (new_part lid now f rv p) = f"
  "pt_rev (new_part lid now f rv p) = rv" "pt_min (new_part lid now f rv p) = pi_min p" "pt_sha (new_part lid now f rv p) = pi_sha p"
  by (simp_all add: new_part_def)

lemma merge_part_simps [simp]:
  "pt_path (merge_part old e) = pt_path old" "pt_file (merge_part old e) = pt_file e" "pt_rev (merge_part old e) = pt_rev e"
  "pt_min (merge_part old e) = pt_min e" "pt_sha (merge_part old e) = pt_sha e"
  by (simp_all add: merge_part_def Let_def)

lemma upsert_part_row_frame [simp]:
  "env_of (upsert_part_row now e S) = env_of S" "tb_revision (upsert_part_row now e S) = tb_revision S"
  "probe_rows (upsert_part_row now e S) = probe_rows S"
  by (simp_all add: upsert_part_row_def split: option.split)

lemma upsert_part_row_at:
  "part_at (upsert_part_row now e S) k = (if k = pt_path e then Some (case part_at S k of None \<Rightarrow> e | Some old \<Rightarrow> merge_part old e)
     else part_at S k)"
proof (cases "part_at S (pt_path e)")
  case None
  then show ?thesis by (simp add: upsert_part_row_def insert_row_at)
next
  case (Some old)
  then have path: "pt_path old = pt_path e" using part_at_path by blast
  then have "part_at S (pt_path (merge_part old e)) = Some old" using Some by simp
  from update_row_at(1) [OF this, where k = k] show ?thesis using Some path by (auto simp: upsert_part_row_def)
qed

lemma upsert_part_row_ok:
  assumes ok: "tables_ok A S" and new: "pt_file e \<in> fst ` set (tb_files S)" "pt_rev e \<le> tb_revision S" "pt_min e \<noteq> 0"
  shows "tables_ok A (upsert_part_row now e S)"
proof (cases "part_at S (pt_path e)")
  case None
  then show ?thesis using insert_row_ok [OF ok None new] by (simp add: upsert_part_row_def)
next
  case (Some old)
  then have "pt_path old = pt_path e" using part_at_path by blast
  then have "part_at S (pt_path (merge_part old e)) = Some old" using Some by simp
  from update_row_ok [OF ok this, where timed = True and counted = True and now = now] show ?thesis
    using Some new by (simp add: upsert_part_row_def)
qed

lemma upsert_rows:
  fixes S :: part_tables and es :: "part list" and now :: string
  defines "T \<equiv> foldl (\<lambda>T e. upsert_part_row now e T) S es"
  shows "env_of T = env_of S" "tb_revision T = tb_revision S" "probe_rows T = probe_rows S"
    "part_at T k = None \<longleftrightarrow> part_at S k = None \<and> k \<notin> pt_path ` set es"
    "tables_ok A S \<Longrightarrow> \<forall>e \<in> set es. pt_file e \<in> fst ` set (tb_files S) \<and> pt_rev e \<le> tb_revision S \<and> pt_min e \<noteq> 0 \<Longrightarrow> tables_ok A T"
    "part_at S k = Some old \<Longrightarrow> \<forall>e \<in> set es. pt_path e = k \<longrightarrow> pt_sha e = pt_sha old \<Longrightarrow> \<exists>q. part_at T k = Some q \<and> pt_sha q = pt_sha old"
proof -
  show "env_of T = env_of S" "tb_revision T = tb_revision S" "probe_rows T = probe_rows S"
    "part_at T k = None \<longleftrightarrow> part_at S k = None \<and> k \<notin> pt_path ` set es"
    unfolding T_def by (induction es arbitrary: S) (auto simp: upsert_part_row_at)
  show "tables_ok A T" if "tables_ok A S"
      "\<forall>e \<in> set es. pt_file e \<in> fst ` set (tb_files S) \<and> pt_rev e \<le> tb_revision S \<and> pt_min e \<noteq> 0"
    unfolding T_def using that
  proof (induction es arbitrary: S)
    case (Cons e es)
    have "tb_files (upsert_part_row now e S) = tb_files S" using upsert_part_row_frame(1) [of now e S] by (simp add: env_of_def)
    then show ?case using Cons.prems by (simp add: Cons.IH upsert_part_row_ok)
  qed simp
  show "\<exists>q. part_at T k = Some q \<and> pt_sha q = pt_sha old"
    if "part_at S k = Some old" "\<forall>e \<in> set es. pt_path e = k \<longrightarrow> pt_sha e = pt_sha old"
    unfolding T_def using that
  proof (induction es arbitrary: S old)
    case (Cons e es)
    have "\<exists>q. part_at (upsert_part_row now e S) k = Some q \<and> pt_sha q = pt_sha old"
      using Cons.prems by (cases "k = pt_path e") (simp_all add: upsert_part_row_at)
    then obtain q where q: "part_at (upsert_part_row now e S) k = Some q" "pt_sha q = pt_sha old" by blast
    show ?case using Cons.IH [OF q(1)] Cons.prems(2) q(2) by simp
  qed simp
qed

lemma put_catalogs_frame [simp]:
  "env_of (put_catalogs now ps S) = env_of S" "tb_revision (put_catalogs now ps S) = tb_revision S"
  "tb_parts (put_catalogs now ps S) = tb_parts S"
  "part_at (put_catalogs now ps S) k = part_at S k" "probe_rows (put_catalogs now ps S) = probe_rows S"
  unfolding put_catalogs_def
  by (induction ps arbitrary: S) (auto split: option.split prod.split)

lemma put_catalogs_ok:
  assumes "tables_ok A S" "\<forall>p \<in> set ps. part_at S (pi_path p) \<noteq> None"
  shows "tables_ok A (put_catalogs now ps S)"
  using assms unfolding put_catalogs_def
proof (induction ps arbitrary: S)
  case (Cons p ps)
  show ?case
  proof (cases "pi_catalog p")
    case (Some c)
    obtain dbs tbls ops where c: "c = (dbs, tbls, ops)" by (cases c)
    let ?S = "put_catalog now \<lparr>cg_path = pi_path p, cg_sha = pi_sha p, cg_databases = sort (remdups dbs),
         cg_tables = sort (remdups tbls), cg_operations = sort (remdups ops), cg_indexed = now\<rparr> S"
    have "tables_ok A ?S" by (rule put_catalog_ok) (use Cons.prems in simp_all)
    from Cons.IH [OF this] show ?thesis using Cons.prems Some c by simp
  qed (use Cons in simp)
qed simp

lemma env_of_files: "env_of T = env_of S \<Longrightarrow> tb_files T = tb_files S"
  by (simp add: env_of_def)

text \<open>What a statement or a whole transaction keeps.\<close>

definition keeps :: "string set \<Rightarrow> (string \<Rightarrow> string \<Rightarrow> string option \<Rightarrow> bool) \<Rightarrow> part_tables \<Rightarrow> part_tables \<Rightarrow> bool" where
  "keeps A answer S T \<longleftrightarrow> env_of T = env_of S \<and> (tables_ok A S \<longrightarrow> tables_ok A T) \<and>
     (tables_ok A S \<and> probes_true answer S \<longrightarrow> probes_true answer T)"

lemma keeps_refl [simp]: "keeps A answer S S"
  by (simp add: keeps_def)

lemma keeps_trans [trans]: "keeps A answer S T \<Longrightarrow> keeps A answer T U \<Longrightarrow> keeps A answer S U"
  by (auto simp: keeps_def)

lemma keeps_foldl: "(\<And>T x. x \<in> set xs \<Longrightarrow> keeps A answer T (f T x)) \<Longrightarrow> keeps A answer S (foldl f S xs)"
proof (induction xs arbitrary: S)
  case (Cons x xs)
  then have "keeps A answer S (f S x)" "keeps A answer (f S x) (foldl f (f S x) xs)" by auto
  then show ?case by (simp add: keeps_trans)
qed simp

lemma keepsI:
  assumes "env_of T = env_of S" "tables_ok A S \<Longrightarrow> tables_ok A T" "probe_rows T \<subseteq> probe_rows S"
    "\<And>k p. tables_ok A S \<Longrightarrow> k \<in> fst ` probe_rows T \<Longrightarrow> part_at S k = Some p \<Longrightarrow> \<exists>q. part_at T k = Some q \<and> pt_sha q = pt_sha p"
  shows "keeps A answer S T"
  unfolding keeps_def
proof (intro conjI impI assms(1))
  show "tables_ok A T" if "tables_ok A S" using assms(2) that .
  show "probes_true answer T" if "tables_ok A S \<and> probes_true answer S"
    using that assms(4) by (intro probes_trueI [OF _ assms(3)]) auto
qed

lemma upsert_parts_keeps:
  assumes "upsert_parts lid now f ps S = Some (r, T)" "\<forall>p \<in> set ps. pi_min p \<noteq> 0"
  shows "keeps A answer S T"
proof (cases "ps = []")
  case True
  then show ?thesis using assms by (simp add: upsert_parts_def)
next
  case False
  obtain S1 where S1: "S1 = foldl (\<lambda>T p. drop_derived (fmt now) (pi_path p) (pi_sha p) T) S ps" by simp
  obtain paths where paths: "paths = map pi_path (filter (changed S) ps)" by simp
  obtain S2 where S2: "S2 = (if paths = [] then S1 else S1\<lparr>tb_revision := tb_revision S1 + 1\<rparr>)" by simp
  obtain rv where rv: "rv = (\<lambda>p :: part_in. if pi_path p \<in> set paths then tb_revision S2
    else case part_at S (pi_path p) of None \<Rightarrow> 0 | Some old \<Rightarrow> pt_rev old)" by simp
  obtain es where es: "es = map (\<lambda>p. new_part lid now f (rv p) p) ps" by simp
  obtain S3 where S3: "S3 = foldl (\<lambda>T e. upsert_part_row (fmt now) e T) S2 es" by simp
  have T: "T = put_catalogs (fmt now) ps S3" and f: "f \<in> fst ` set (tb_files S)"
    using assms(1) False
    by (simp_all only: upsert_parts_def Let_def if_False S1 [symmetric] paths [symmetric] S2 [symmetric] rv [symmetric]
        split: if_splits) (auto simp: S3 es rv foldl_map)
  note S1' = drop_all [where S = S and ps = ps and now = "fmt now", folded S1]
  note S3' = upsert_rows [where S = S2 and es = es and now = "fmt now", folded S3]
  have env2: "env_of S2 = env_of S" and at2: "part_at S2 k = part_at S k" and
    probes2: "probe_rows S2 = probe_rows S1" for k
    by (simp_all add: S2 S1'(1-4))
  have ok2: "tables_ok A S2" if "tables_ok A S" using S1'(5) [OF that] revision_ok by (simp add: S2)
  have "rv p \<le> tb_revision S2" if ok: "tables_ok A S" and "p \<in> set ps" for p
  proof (cases "pi_path p \<in> set paths")
    case False
    then have "\<not> changed S p" using that by (auto simp: paths)
    then obtain old where old: "part_at S (pi_path p) = Some old" by (auto simp: changed_def split: option.splits)
    then have "pt_rev old \<le> tb_revision S" using tables_okD(7) [OF ok] part_at_path [OF old] by blast
    then show ?thesis using False old by (simp add: rv S2 S1'(2))
  qed (simp add: rv)
  then have es_ok: "\<forall>e \<in> set es. pt_file e \<in> fst ` set (tb_files S2) \<and> pt_rev e \<le> tb_revision S2 \<and> pt_min e \<noteq> 0" if "tables_ok A S"
    using that f assms(2) env_of_files [OF env2] by (simp add: es)
  have present: "\<forall>p \<in> set ps. part_at S3 (pi_path p) \<noteq> None"
  proof
    fix p assume "p \<in> set ps"
    then have "pi_path p \<in> pt_path ` set es" by (force simp: es)
    then show "part_at S3 (pi_path p) \<noteq> None" by (simp add: S3'(4))
  qed
  show ?thesis
  proof (rule keepsI)
    show "env_of T = env_of S" by (simp add: T S3'(1) env2)
    show "tables_ok A T" if "tables_ok A S" unfolding T by (rule put_catalogs_ok [OF S3'(5) [OF ok2 es_ok] present]) (rule that)+
    have probes: "probe_rows T = probe_rows S1" by (simp add: T S3'(3) probes2)
    then show "probe_rows T \<subseteq> probe_rows S" by (auto simp: S1'(6))
    fix k old assume k: "k \<in> fst ` probe_rows T" and old: "part_at S k = Some old"
    have "\<forall>e \<in> set es. pt_path e = k \<longrightarrow> pt_sha e = pt_sha old"
      using k old unfolding probes S1'(6) by (fastforce simp: es)
    then show "\<exists>q. part_at T k = Some q \<and> pt_sha q = pt_sha old" using S3'(6) [of k old] at2 old by (simp add: T)
  qed
qed

section \<open>Replacing, updating and deleting\<close>

lemma delete_row_keeps: "keeps A answer S (delete_row path S)"
proof (cases "part_at S path")
  case None
  then show ?thesis by (simp add: delete_row_def)
next
  case (Some old)
  then have "k \<noteq> path" if "k \<in> fst ` probe_rows (delete_row path S)" for k
    using that delete_row_probes(2) [of S path] by auto
  then show ?thesis
    by (intro keepsI) (simp_all add: delete_row_ok delete_row_probes(1) delete_row_at)
qed

lemma delete_file_parts_keeps: "keeps A answer S (delete_file_parts f S)"
  unfolding delete_file_parts_def by (rule keeps_foldl) (rule delete_row_keeps)

lemma delete_file_parts_revision: "tb_revision (delete_file_parts f S) = tb_revision S"
  unfolding delete_file_parts_def by (rule foldl_inv) simp_all

lemma revision_keeps: "keeps A answer S (S\<lparr>tb_revision := tb_revision S + 1\<rparr>)"
  by (rule keepsI) (auto simp: revision_ok)

lemma insert_new_keeps:
  assumes "insert_new now es S = Some T" "\<forall>e \<in> set es. pt_file e \<in> fst ` set (tb_files S) \<and> pt_rev e \<le> tb_revision S \<and> pt_min e \<noteq> 0"
  shows "keeps A answer S T \<and> (\<forall>k. part_at T k = None \<longleftrightarrow> part_at S k = None \<and> k \<notin> pt_path ` set es)"
  using assms
proof (induction es arbitrary: S)
  case (Cons e es)
  let ?S = "insert_row now e S"
  have new: "part_at S (pt_path e) = None" and rest: "insert_new now es ?S = Some T"
    using Cons.prems(1) by (auto split: if_splits)
  have "keeps A answer S ?S"
    by (rule keepsI) (use insert_row_ok [OF _ new] Cons.prems(2) new in \<open>auto simp: insert_row_at\<close>)
  moreover have "tb_files ?S = tb_files S" using statement_env(1) [of now e S] by (simp add: env_of_def)
  then have "keeps A answer ?S T \<and> (\<forall>k. part_at T k = None \<longleftrightarrow> part_at ?S k = None \<and> k \<notin> pt_path ` set es)"
    using Cons.IH [OF rest] Cons.prems(2) by simp
  ultimately show ?case using new by (auto simp: insert_row_at intro: keeps_trans)
qed simp

lemma put_catalogs_keeps: "\<forall>p \<in> set ps. part_at S (pi_path p) \<noteq> None \<Longrightarrow> keeps A answer S (put_catalogs now ps S)"
  by (rule keepsI) (auto simp: put_catalogs_ok)

lemma replace_parts_keeps:
  assumes "replace_parts lid now f ps S = Some (r, T)" "\<forall>p \<in> set ps. pi_min p \<noteq> 0"
  shows "keeps A answer S T"
proof -
  obtain S1 where S1: "S1 = delete_file_parts f S" by simp
  obtain S2 where S2: "S2 = (if ps = [] then S1 else S1\<lparr>tb_revision := tb_revision S1 + 1\<rparr>)" by simp
  obtain es where es: "es = map (new_part lid now f (if ps = [] then 0 else tb_revision S2)) ps" by simp
  obtain S3 where S3: "insert_new (fmt now) es S2 = Some S3" and T: "T = put_catalogs (fmt now) ps S3"
    and f: "ps \<noteq> [] \<Longrightarrow> f \<in> fst ` set (tb_files S)"
    using assms(1)
    by (auto simp only: replace_parts_def Let_def S1 [symmetric] S2 [symmetric] es [symmetric] split: if_splits option.splits)
  have S2': "keeps A answer S S2"
    using delete_file_parts_keeps keeps_trans [OF _ revision_keeps] by (simp add: S1 S2)
  then have "env_of S2 = env_of S" by (simp add: keeps_def)
  from env_of_files [OF this]
  have "\<forall>e \<in> set es. pt_file e \<in> fst ` set (tb_files S2) \<and> pt_rev e \<le> tb_revision S2 \<and> pt_min e \<noteq> 0"
    using f assms(2) by (cases ps) (simp_all add: es)
  from insert_new_keeps [OF S3 this, of A answer] have k3: "keeps A answer S2 S3"
    and at3: "part_at S3 k = None \<longleftrightarrow> part_at S2 k = None \<and> k \<notin> pt_path ` set es" for k by blast+
  have "\<forall>p \<in> set ps. part_at S3 (pi_path p) \<noteq> None"
  proof
    fix p assume "p \<in> set ps"
    then have "pi_path p \<in> pt_path ` set es" by (force simp: es)
    then show "part_at S3 (pi_path p) \<noteq> None" unfolding at3 by blast
  qed
  from put_catalogs_keeps [OF this] show ?thesis unfolding T by (rule keeps_trans [OF keeps_trans [OF S2' k3]])
qed

text \<open>A statement on one existing row that leaves its hash alone.\<close>

lemma update_row_keeps:
  assumes at: "part_at S (pt_path p) = Some old" and same: "pt_sha p = pt_sha old" "pt_file p = pt_file old" "pt_rev p = pt_rev old"
    "pt_min p = pt_min old" "pt_max p = pt_max old" and counted: "\<not> counted \<longrightarrow> part_stats p = part_stats old"
  shows "keeps A answer S (update_row timed counted now p S)"
proof (rule keepsI)
  have old: "old \<in> set (tb_parts S)" using part_at_path [OF at] by simp
  show "tables_ok A (update_row timed counted now p S)" if ok: "tables_ok A S"
    by (rule update_row_ok [OF ok at]) (use same counted tables_okD(6-8) [OF ok old] in auto)
qed (use same at in \<open>auto simp: update_row_at(1) [OF at]\<close>)

lemma update_part_keeps:
  assumes "pv_min v \<noteq> 0"
  shows "keeps A answer S (update_part now path v S)"
proof (cases "part_at S path")
  case None
  then show ?thesis by (simp add: update_part_def)
next
  case (Some old)
  obtain S1 where S1: "S1 = (if content_differs old (pv_rows v) (pv_min v) (pv_max v) (pv_size v) (pv_sha v)
    then S\<lparr>tb_revision := tb_revision S + 1\<rparr> else S)" by simp
  obtain S2 where S2: "S2 = drop_derived (fmt now) path (pv_sha v) S1" by simp
  obtain rv where rv: "rv = (if content_differs old (pv_rows v) (pv_min v) (pv_max v) (pv_size v) (pv_sha v)
    then tb_revision S1 else pt_rev old)" by simp
  obtain p where p': "p = rewritten_part now v rv old" by simp
  have T: "update_part now path v S = update_row True True (fmt now) p S2"
    by (simp only: update_part_def Some option.case Let_def S1 [symmetric] rv [symmetric] S2 [symmetric] p')
  have p: "pt_path p = pt_path old" "pt_file p = pt_file old" "pt_min p = pv_min v" "pt_sha p = pv_sha v"
    "pt_rev p = tb_revision S1 \<or> pt_rev p = pt_rev old"
    by (simp_all add: p' rewritten_part_def Let_def rv)
  have old: "old \<in> set (tb_parts S)" "pt_path old = path" using part_at_path [OF Some] by auto
  have at: "part_at S2 (pt_path p) = Some old" using Some p old by (simp add: S2 S1)
  have env: "env_of S2 = env_of S" by (simp add: S2 S1)
  show ?thesis unfolding T
  proof (rule keepsI)
    show "env_of (update_row True True (fmt now) p S2) = env_of S" by (simp add: env)
    show "tables_ok A (update_row True True (fmt now) p S2)" if ok: "tables_ok A S"
    proof (rule update_row_ok [OF _ at])
      show "tables_ok A S2" using ok revision_ok by (simp add: S2 S1 drop_derived_ok)
      show "pt_rev p \<le> tb_revision S2" using p(5) tables_okD(7) [OF ok old(1)] by (auto simp: S2 S1)
    qed (use tables_okD(6) [OF ok old(1)] p env_of_files [OF env] assms in auto)
    have probes: "probe_rows S2 = {x \<in> probe_rows S. fst x = path \<longrightarrow> pt_sha old = pv_sha v}"
      using Some by (auto simp: S2 S1 drop_derived_probes)
    then show "probe_rows (update_row True True (fmt now) p S2) \<subseteq> probe_rows S" by auto
    fix k q assume "k \<in> fst ` probe_rows (update_row True True (fmt now) p S2)" "part_at S k = Some q"
    moreover have "part_at S2 k = part_at S k" by (simp add: S2 S1)
    ultimately show "\<exists>q'. part_at (update_row True True (fmt now) p S2) k = Some q' \<and> pt_sha q' = pt_sha q"
      using Some p old unfolding update_row_at(1) [OF at] by (auto simp: probes)
  qed
qed

section \<open>Archiving, re-encoding and touching\<close>

lemma archive_rows_keeps: "archive_rows now as S = Some T \<Longrightarrow> keeps A answer S T"
proof (induction as arbitrary: S)
  case (Cons a as)
  then obtain p where at: "part_at S (ar_path a) = Some p" by (auto split: option.splits)
  let ?p = "p\<lparr>pt_key := ar_key a, pt_etag := ar_etag a, pt_offset := max (ar_offset a) 0, pt_length := max (ar_length a) 0,
            pt_obj_sha := ar_obj_sha a, pt_uploaded := fmt now, pt_verified := fmt now, pt_updated := fmt now\<rparr>"
  have "part_at S (pt_path ?p) = Some p" using at part_at_path [OF at] by simp
  then have "keeps A answer S (update_row False True (fmt now) ?p S)" by (rule update_row_keeps) simp_all
  moreover have "keeps A answer (update_row False True (fmt now) ?p S) T" using Cons at by simp
  ultimately show ?case by (rule keeps_trans)
qed simp

lemma mark_part_compression_level_keeps:
  assumes "mark_part_compression_level now path expected level S = Some T"
  shows "keeps A answer S T"
proof -
  obtain p where at: "part_at S path = Some p" using assms by (auto simp: mark_part_compression_level_def split: option.splits)
  then have "part_at S (pt_path p) = Some p" using part_at_path [OF at] by simp
  then show ?thesis using assms at
    by (auto simp: mark_part_compression_level_def split: if_splits intro!: update_row_keeps)
qed

lemma record_part_compression_failure_keeps: "keeps A answer S (record_part_compression_failure now path expected error retry S)"
proof (cases "part_at S path")
  case (Some p)
  then have "part_at S (pt_path p) = Some p" using part_at_path [OF Some] by simp
  then show ?thesis using Some
    by (auto simp: record_part_compression_failure_def part_stats_def has_object_def intro!: update_row_keeps)
qed (simp add: record_part_compression_failure_def)

lemma touch_local_parts_keeps: "keeps A answer S (touch_local_parts now paths S)"
  unfolding touch_local_parts_def
proof (rule keeps_foldl)
  fix T path
  show "keeps A answer T (case part_at T path of None \<Rightarrow> T
      | Some p \<Rightarrow> update_row False False (fmt now) (p\<lparr>pt_access := fmt now\<rparr>) T)"
  proof (cases "part_at T path")
    case (Some p)
    then have "part_at T (pt_path p) = Some p" using part_at_path [OF Some] by simp
    then show ?thesis using Some by (auto simp: part_stats_def has_object_def intro!: update_row_keeps)
  qed simp
qed

lemma upsert_part_catalog_keeps: "keeps A answer S (snd (upsert_part_catalog now path sha cat S))"
  by (auto simp: upsert_part_catalog_def put_catalog_ok split: option.split prod.split intro!: keepsI)

text \<open>The part after a re-encoding.\<close>

lemma commit_part_encoding_keeps:
  assumes commit: "commit_part_encoding now e P = Some Q"
    and same: "\<And>old fp v. part_at (ps_tables P) (en_path e) = Some old \<Longrightarrow> answer (pt_sha old) fp v = answer (en_sha e) fp v"
  shows "keeps A answer (ps_tables P) (ps_tables Q)"
proof -
  let ?S = "ps_tables P"
  obtain old where at: "part_at ?S (en_path e) = Some old" and guard: "pt_osha old = en_expected e"
    using commit by (auto simp: commit_part_encoding_def split: option.splits if_splits)
  obtain p where T: "ps_tables Q = set_probe_sha (en_path e) (en_sha e)
      (set_catalog_sha (fmt now) (en_path e) (en_sha e) (update_row False True (fmt now) p ?S))"
    and p: "pt_path p = pt_path old" "pt_file p = pt_file old" "pt_rev p = pt_rev old" "pt_min p = pt_min old" "pt_max p = pt_max old" "pt_sha p = en_sha e"
    using commit at guard by (fastforce simp: commit_part_encoding_def Let_def)
  have old: "old \<in> set (tb_parts ?S)" "pt_path old = en_path e" using part_at_path [OF at] by auto
  have at': "part_at ?S (pt_path p) = Some old" using at p old by simp
  have sha: "part_at (ps_tables Q) k = (if k = en_path e then Some p else part_at ?S k)" for k
    using p old by (simp add: T update_row_at(1) [OF at'])
  show ?thesis unfolding keeps_def
  proof (intro conjI impI)
    show "env_of (ps_tables Q) = env_of ?S" by (simp add: T)
    show "tables_ok A (ps_tables Q)" if ok: "tables_ok A ?S"
    proof -
      have "tables_ok A (update_row False True (fmt now) p ?S)"
        by (rule update_row_ok [OF ok at']) (use p tables_okD(6-8) [OF ok old(1)] in auto)
      then show ?thesis by (simp add: T probes_ok set_catalog_sha_ok)
    qed
    assume true: "tables_ok A ?S \<and> probes_true answer ?S"
    show "probes_true answer (ps_tables Q)"
      unfolding probes_true_def
    proof (clarify)
      fix path sha' fp v assume "(path, sha', fp, v) \<in> probe_rows (ps_tables Q)"
      then obtain s where s: "(path, s, fp, v) \<in> probe_rows ?S" "sha' = (if path = en_path e then en_sha e else s)"
        unfolding T using set_probe_sha_probes by fastforce
      then obtain q where "part_at ?S path = Some q" "pt_sha q = s" "answer s fp v"
        using true unfolding probes_true_def by fastforce
      then show "(\<exists>q. part_at (ps_tables Q) path = Some q \<and> pt_sha q = sha') \<and> answer sha' fp v"
        using s(2) sha p(6) same [OF at, of fp v] at by auto
    qed
  qed
qed

section \<open>Recording probes\<close>

lemma dict_of_in: "kv \<in> set (dict_of kvs) \<Longrightarrow> kv \<in> set kvs"
proof -
  have "set (foldl (\<lambda>d (k, v). AList.update k v d) d kvs) \<subseteq> set d \<union> set kvs" for d
  proof (induction kvs arbitrary: d)
    case (Cons kv kvs)
    then show ?case using set_alist_update [of "fst kv" "snd kv" d] by (fastforce split: prod.split)
  qed simp
  from this [of "[]"] show "kv \<in> set (dict_of kvs) \<Longrightarrow> kv \<in> set kvs" by (auto simp: dict_of_def)
qed

lemma probe_tables_ok [simp]:
  "tables_ok A (S\<lparr>tb_positive := ps, tb_negative := ns\<rparr>) = tables_ok A S"
  "tables_ok A (S\<lparr>tb_positive := ps\<rparr>) = tables_ok A S" "tables_ok A (S\<lparr>tb_negative := ns, tb_positive := ps\<rparr>) = tables_ok A S"
  by (simp_all add: tables_ok_def part_at_def pend_at_def cat_at_def)

text \<open>Recording keeps the old entries or writes entries whose hash the part had at that time.\<close>

lemma probe_write_keeps:
  assumes "tb_parts T = tb_parts S" "env_of T = env_of S" "tables_ok A T = tables_ok A S"
    "probe_rows T \<subseteq> probe_rows S \<union> {x. \<exists>p. part_at S (fst x) = Some p \<and> pt_sha p = fst (snd x) \<and> answer (fst (snd x)) (fst (snd (snd x))) (snd (snd (snd x)))}"
  shows "keeps A answer S T"
proof -
  have "part_at T k = part_at S k" for k by (simp add: part_at_def assms(1))
  then show ?thesis using assms(2-) unfolding keeps_def probes_true_def by fastforce
qed

lemma probe_fold_keeps:
  assumes step: "\<And>T x. tb_parts T = tb_parts S \<Longrightarrow> x \<in> set xs \<Longrightarrow>
      tb_parts (f T x) = tb_parts T \<and> env_of (f T x) = env_of T \<and> tables_ok A (f T x) = tables_ok A T \<and>
      (\<exists>path p fp v. probe_rows (f T x) \<subseteq> insert (path, pt_sha p, fp, v) (probe_rows T) \<and> part_at S path = Some p \<and> answer (pt_sha p) fp v)"
  shows "keeps A answer S (foldl f S xs) \<and> tb_parts (foldl f S xs) = tb_parts S"
proof (rule foldl_inv)
  fix T x assume x: "x \<in> set xs" and T: "keeps A answer S T \<and> tb_parts T = tb_parts S"
  note f = step [OF conjunct2 [OF T] x]
  have at: "part_at T k = part_at S k" for k using T by (simp add: part_at_def)
  obtain path p fp v where "probe_rows (f T x) \<subseteq> insert (path, pt_sha p, fp, v) (probe_rows T)" "part_at S path = Some p" "answer (pt_sha p) fp v"
    using f by blast
  then have "keeps A answer T (f T x)"
    using f by (intro probe_write_keeps) (auto simp: at)
  then show "keeps A answer S (f T x) \<and> tb_parts (f T x) = tb_parts S"
    using T f keeps_trans by fastforce
qed simp

lemma write_negative:
  fixes T :: part_tables and n :: negative_probe and key :: "negative_probe \<Rightarrow> 'k" and P :: "positive_probe \<Rightarrow> bool"
  defines "U \<equiv> T\<lparr>tb_positive := filter P (tb_positive T), tb_negative := put_row key n (tb_negative T)\<rparr>"
  shows "tb_parts U = tb_parts T" "env_of U = env_of T" "tables_ok A U = tables_ok A T"
    "probe_rows U \<subseteq> insert (np_path n, np_sha n, np_fingerprint n, None) (probe_rows T)"
  unfolding U_def by (auto simp: env_of_def probe_rows_def set_put tables_ok_def part_at_def pend_at_def cat_at_def)

lemma write_positive:
  fixes T :: part_tables and n :: positive_probe and key :: "positive_probe \<Rightarrow> 'k" and P :: "negative_probe \<Rightarrow> bool"
  defines "U \<equiv> T\<lparr>tb_negative := filter P (tb_negative T), tb_positive := put_row key n (tb_positive T)\<rparr>"
  shows "tb_parts U = tb_parts T" "env_of U = env_of T" "tables_ok A U = tables_ok A T"
    "probe_rows U \<subseteq> insert (po_path n, po_sha n, po_fingerprint n, Some (po_rows n)) (probe_rows T)"
  unfolding U_def by (auto simp: env_of_def probe_rows_def set_put tables_ok_def part_at_def pend_at_def cat_at_def)

lemma record_negative_probes_keeps:
  assumes "\<forall>(path, sha, fp) \<in> set entries. answer sha fp None"
  shows "keeps A answer S (snd (record_negative_probes now entries S))"
proof -
  let ?desired = "dict_of (List.map_filter (\<lambda>(path, sha, fp). if path \<noteq> [] \<and> fp \<noteq> [] then Some ((path, fp), sha) else None) entries)"
  have true: "answer sha fp None" if "((path, fp), sha) \<in> set ?desired" for path fp sha
    using dict_of_in [OF that] assms by (force simp: List.map_filter_def split: if_splits)
  show ?thesis unfolding record_negative_probes_def Let_def snd_conv
  proof (rule conjunct1 [OF probe_fold_keeps], goal_cases)
    case (1 T x)
    obtain path fp sha where x: "x = ((path, fp), sha)" by (metis surj_pair)
    with 1(2) obtain p where p: "part_at S path = Some p" "pt_sha p = sha" "answer sha fp None" using true by auto
    show ?case unfolding x split
    proof (intro conjI write_negative(1-3) exI)
      show "part_at S path = Some p" "answer (pt_sha p) fp None" using p by simp_all
    qed (use write_negative(4) p(2) in fastforce)
  qed
qed

lemma keep_newest_subset: "set (keep_newest n at rows) \<subseteq> set rows"
proof
  fix r assume "r \<in> set (keep_newest n at rows)"
  then obtain i where "(i, r) \<in> set (enumerate 0 rows)" by (auto simp: keep_newest_def Let_def)
  then show "r \<in> set rows" by (auto simp: in_set_enumerate_eq)
qed

lemma record_positive_probes_keeps:
  assumes "\<forall>e \<in> set entries. answer (pe_sha e) (pe_fingerprint e) (Some (pe_rows e))"
  shows "keeps A answer S (snd (record_positive_probes now bytes n entries S))"
proof -
  let ?desired = "dict_of (List.map_filter (\<lambda>e. if pe_path e = [] \<or> pe_fingerprint e = [] \<or> pe_empty e \<or>
              max bytes 0 < pe_bytes e then None
            else Some ((pe_path e, pe_fingerprint e), (pe_sha e, pe_rows e))) entries)"
  have true: "answer sha fp (Some rows)" if "((path, fp), (sha, rows)) \<in> set ?desired" for path fp sha rows
    using dict_of_in [OF that] assms by (force simp: List.map_filter_def split: if_splits)
  let ?f = "\<lambda>S ((path, fp), (sha, json)). S\<lparr>tb_negative := filter (\<lambda>r. \<not> (np_path r = path \<and> np_fingerprint r = fp)) (tb_negative S),
              tb_positive := put_row (\<lambda>r. (po_path r, po_fingerprint r))
                \<lparr>po_path = path, po_sha = sha, po_fingerprint = fp, po_rows = json, po_at = fmt now\<rparr> (tb_positive S)\<rparr>"
  let ?T = "foldl ?f S (filter (\<lambda>((path, fp), (sha, json)). map_option pt_sha (part_at S path) = Some sha) ?desired)"
  have "keeps A answer S ?T"
  proof (rule conjunct1 [OF probe_fold_keeps], goal_cases)
    case (1 T x)
    obtain path fp sha json where x: "x = ((path, fp), (sha, json))" by (metis surj_pair)
    with 1(2) obtain p where p: "part_at S path = Some p" "pt_sha p = sha" "answer sha fp (Some json)" using true by auto
    show ?case unfolding x split
    proof (intro conjI write_positive(1-3) exI)
      show "part_at S path = Some p" "answer (pt_sha p) fp (Some json)" using p by simp_all
    qed (use write_positive(4) p(2) in fastforce)
  qed
  moreover have "keeps A answer ?T (?T\<lparr>tb_positive := keep_newest (nat n) po_at (tb_positive ?T)\<rparr>)"
    using keep_newest_subset [of "nat n" po_at "tb_positive ?T"]
    by (intro probe_write_keeps) (auto simp: probe_rows_def env_of_def)
  ultimately have "keeps A answer S (?T\<lparr>tb_positive := keep_newest (nat n) po_at (tb_positive ?T)\<rparr>)" by (rule keeps_trans)
  then show ?thesis by (simp add: record_positive_probes_def Let_def)
qed

section \<open>The catalog audit\<close>

text \<open>The paths the audit has passed, and the paths of a page that need nothing more.\<close>

definition audited :: "part_tables \<Rightarrow> string set" where
  "audited S = {k. k \<noteq> [] \<and> (tb_audit_complete S \<or> k \<le> tb_audit_after S)}"

definition page_range :: "audit_page \<Rightarrow> string set" where
  "page_range pg = {k. au_after pg < k \<and> (au_complete pg \<or> k \<le> au_next pg)}"

definition page_settled :: "audit_page \<Rightarrow> string set" where
  "page_settled pg = page_range pg - set (au_candidates pg)"

lemma tables_ok_Un: "tables_ok (A \<union> B) S \<longleftrightarrow> tables_ok A S \<and> tables_ok B S"
  by (auto simp: tables_ok_def entry_ok_def split: option.splits)

lemma tables_ok_UN:
  assumes base: "tables_ok A S" and each: "\<And>x. x \<in> X \<Longrightarrow> tables_ok (f x) S"
  shows "tables_ok (A \<union> \<Union>(f ` X)) S"
proof -
  have "entry_ok (k \<in> A \<union> \<Union>(f ` X)) (part_at S k) (pend_at S k) (cat_at S k)" for k
  proof (cases "\<exists>x \<in> X. k \<in> f x")
    case True
    then obtain x where "x \<in> X" "k \<in> f x" by blast
    then have "entry_ok True (part_at S k) (pend_at S k) (cat_at S k)" using tables_okD(5) [OF each, of x k] by simp
    moreover have "(k \<in> A \<union> \<Union>(f ` X)) = True" using True by blast
    ultimately show ?thesis by simp
  next
    case False
    then have "(k \<in> A \<union> \<Union>(f ` X)) = (k \<in> A)" by blast
    then show ?thesis using tables_okD(5) [OF base, of k] by simp
  qed
  then show ?thesis using base by (simp add: tables_ok_def)
qed

lemma tables_ok_mono: "tables_ok B S \<Longrightarrow> A \<subseteq> B \<Longrightarrow> tables_ok A S"
  by (metis tables_ok_Un le_iff_sup)

lemma needs_catalog_at: "tables_ok A S \<Longrightarrow> needs_catalog S p \<longleftrightarrow>
    (case cat_at S (pt_path p) of None \<Rightarrow> True | Some c \<Rightarrow> cg_sha c \<noteq> pt_sha p)"
proof (cases "cat_at S (pt_path p)")
  case None
  then show ?thesis using cat_at_None [of S "pt_path p"] by (simp add: needs_catalog_def)
next
  case (Some c)
  assume ok: "tables_ok A S"
  have "d \<in> set (tb_catalog S) \<and> cg_path d = pt_path p \<longleftrightarrow> d = c" for d
    using Some find_row_iff [OF tables_okD(4) [OF ok], of "pt_path p" d] by (auto simp: cat_at_def)
  then have "needs_catalog S p \<longleftrightarrow> cg_sha c \<noteq> pt_sha p" unfolding needs_catalog_def by metis
  then show ?thesis using Some by simp
qed

lemma sorted_take_range:
  assumes "x \<in> set xs" "x \<notin> set (take n (sort_key key xs))" "y \<in> set (take n (sort_key key xs))"
  shows "key y \<le> (key x :: 'k :: linorder)"
proof -
  let ?ys = "sort_key key xs"
  have "x \<in> set (take n ?ys) \<union> set (drop n ?ys)" using assms(1) by (metis append_take_drop_id set_append set_sort)
  then have "x \<in> set (drop n ?ys)" using assms(2) by simp
  moreover have "sorted_wrt (\<lambda>a b. key a \<le> key b) (take n ?ys @ drop n ?ys)"
    using sorted_sort_key [of key xs] by (simp add: sorted_map)
  ultimately show ?thesis using assms(3) unfolding sorted_wrt_append by blast
qed

lemma audit_read_page_settled:
  assumes ok: "tables_ok A S"
  shows "tables_ok (page_settled (audit_read n after S)) S"
proof -
  let ?pg = "audit_read n after S"
  let ?rows = "take n (sort_key pt_path (filter (\<lambda>p. after < pt_path p) (tb_parts S)))"
  have rows: "p \<in> set ?rows" if p: "p \<in> set (tb_parts S)" and range: "pt_path p \<in> page_range ?pg" for p
  proof (rule ccontr)
    assume not: "p \<notin> set ?rows"
    have after: "after < pt_path p" and le: "length ?rows < n \<or> ?rows \<noteq> [] \<and> pt_path p \<le> pt_path (last ?rows)"
      using range by (auto simp: page_range_def audit_read_def Let_def split: if_splits)
    then have member: "p \<in> set (filter (\<lambda>p. after < pt_path p) (tb_parts S))" using p by simp
    show False
    proof (cases "length ?rows < n")
      case True
      then have "?rows = sort_key pt_path (filter (\<lambda>p. after < pt_path p) (tb_parts S))" by simp
      then show ?thesis using member not by (metis set_sort)
    next
      case False
      then have last: "last ?rows \<in> set ?rows" "pt_path p \<le> pt_path (last ?rows)" using le by auto
      then have "pt_path (last ?rows) \<le> pt_path p" using sorted_take_range [OF member not] by blast
      then have "pt_path (last ?rows) = pt_path p" using last(2) by simp
      moreover have "last ?rows \<in> set (tb_parts S)" using last(1) by (auto dest: in_set_takeD)
      ultimately show ?thesis using distinct_key_unique [OF tables_okD(1) [OF ok]] p last(1) not by metis
    qed
  qed
  have "entry_ok (k \<in> page_settled ?pg) (part_at S k) (pend_at S k) (cat_at S k)" for k
  proof (cases "k \<in> page_settled ?pg \<and> part_at S k \<noteq> None")
    case True
    then obtain p where at: "part_at S k = Some p" by blast
    have p: "p \<in> set (tb_parts S)" "pt_path p = k" using part_at_path [OF at] by auto
    have "p \<in> set ?rows" by (rule rows) (use True p in \<open>auto simp: page_settled_def\<close>)
    then have "\<not> needs_catalog S p" using True p(2) by (auto simp: page_settled_def audit_read_def Let_def)
    then show ?thesis using needs_catalog_at [OF ok, of p] tables_okD(5) [OF ok, of k] at p(2)
      by (auto simp: entry_ok_def split: option.splits)
  next
    case False
    then show ?thesis using tables_okD(5) [OF ok, of k] by (auto simp: entry_ok_def split: option.splits)
  qed
  then show ?thesis using ok by (simp add: tables_ok_def)
qed

lemma queue_candidate_ok:
  assumes "tables_ok A S"
  shows "tables_ok (insert path A) (queue_candidate now S path)"
proof (cases "part_at S path")
  case None
  have "entry_ok (k \<in> insert path A) (part_at S k) (pend_at S k) (cat_at S k)" for k
    using tables_okD(5) [OF assms, of k] None by (auto simp: entry_ok_def split: option.splits)
  then show ?thesis using None assms by (simp add: tables_ok_def queue_candidate_def)
next
  case (Some p)
  have path: "pt_path p = path" using part_at_path [OF Some] by simp
  let ?S = "S\<lparr>tb_pending := enqueue now p (tb_pending S)\<rparr>"
  have "tables_ok (insert path A) ?S" if "needs_catalog S p"
  proof -
    have "part_at ?S k = part_at S k" "cat_at ?S k = cat_at S k" "pend_at ?S k = (if k = path then Some (queue_entry now p) else pend_at S k)" for k
      by (simp_all add: part_at_def cat_at_def pend_at_def enqueue_find path)
    then have "entry_ok (k \<in> insert path A) (part_at ?S k) (pend_at ?S k) (cat_at ?S k)" for k
      using tables_okD(5) [OF assms, of k] Some queue_entry_ok by simp
    then show ?thesis using assms enqueue_distinct [OF tables_okD(3) [OF assms]] by (simp add: tables_ok_def)
  qed
  moreover have "tables_ok (insert path A) S" if "\<not> needs_catalog S p"
  proof -
    have "entry_ok (k \<in> insert path A) (part_at S k) (pend_at S k) (cat_at S k)" for k
      using tables_okD(5) [OF assms, of k] Some that path needs_catalog_at [OF assms, of p]
      by (auto simp: entry_ok_def split: option.splits)
    then show ?thesis using assms by (simp add: tables_ok_def)
  qed
  ultimately show ?thesis using Some by (simp add: queue_candidate_def)
qed

lemma queue_candidates_ok: "tables_ok A S \<Longrightarrow> tables_ok (A \<union> set paths) (foldl (queue_candidate now) S paths)"
proof (induction paths arbitrary: A S)
  case (Cons path paths)
  from Cons.IH [OF queue_candidate_ok [OF Cons.prems, of path now]] show ?case by simp
qed simp

lemma queue_candidates_frame:
  "tb_parts (foldl (queue_candidate now) S paths) = tb_parts S" "env_of (foldl (queue_candidate now) S paths) = env_of S"
  "probe_rows (foldl (queue_candidate now) S paths) = probe_rows S"
  by (induction paths arbitrary: S) (auto simp: queue_candidate_def env_of_def probe_rows_def split: option.split)

lemma set_audit_ok: "tables_ok A (S\<lparr>tb_audit_after := k, tb_audit_complete := c\<rparr>) = tables_ok A S"
  by (simp add: tables_ok_def part_at_def pend_at_def cat_at_def)

text \<open>A commit moves the cursor over its page and loses no audited path.\<close>

lemma audit_commit_ok:
  assumes ok: "tables_ok (audited S \<union> B) S" and page: "page_settled pg \<subseteq> B"
  shows "tables_ok (audited (snd (audit_commit now pg S)) \<union> B) (snd (audit_commit now pg S))"
proof (cases "tb_audit_complete S \<or> tb_audit_after S \<noteq> au_after pg")
  case True
  then show ?thesis using ok by (auto simp: audit_commit_def split: if_splits)
next
  case False
  let ?T = "foldl (queue_candidate (fmt now)) S (au_candidates pg)"
  let ?U = "?T\<lparr>tb_audit_after := au_next pg, tb_audit_complete := au_complete pg\<rparr>"
  have "tables_ok (audited S \<union> B \<union> set (au_candidates pg)) ?T" by (rule queue_candidates_ok [OF ok])
  moreover have "audited ?U \<union> B \<subseteq> audited S \<union> B \<union> set (au_candidates pg)"
  proof
    fix k assume "k \<in> audited ?U \<union> B"
    then have "k \<in> B \<or> k \<noteq> [] \<and> (au_complete pg \<or> k \<le> au_next pg)" by (auto simp: audited_def)
    then show "k \<in> audited S \<union> B \<union> set (au_candidates pg)"
      using False page by (cases "k \<le> au_after pg") (auto simp: audited_def page_settled_def page_range_def)
  qed
  ultimately have "tables_ok (audited ?U \<union> B) ?T" by (rule tables_ok_mono)
  then show ?thesis using False by (simp add: audit_commit_def set_audit_ok)
qed

section \<open>The part store as a step system\<close>

text \<open>
  The store with the audit pages that were read and are not committed. Writers register files with parts,
  rewrite, archive, re-encode and delete them; any number of auditors read and commit pages. The two
  assumptions on callers are premises of the rules: event times are not the epoch, and recorded probes and
  re-encoded bodies are true of the contents (\<open>answer sha fp v\<close>: the body with hash \<open>sha\<close> answers the query
  \<open>fp\<close> with no row, or with the rows \<open>v\<close>).
\<close>

record part_system =
  sy_store :: part_store
  sy_pages :: "audit_page set"

abbreviation sy_tables :: "part_system \<Rightarrow> part_tables" where "sy_tables Y \<equiv> ps_tables (sy_store Y)"

abbreviation with_tables :: "part_system \<Rightarrow> part_tables \<Rightarrow> part_system" where
  "with_tables Y T \<equiv> Y\<lparr>sy_store := (sy_store Y)\<lparr>ps_tables := T\<rparr>\<rparr>"

inductive part_step :: "(string \<Rightarrow> string \<Rightarrow> string) \<Rightarrow> (string \<Rightarrow> string \<Rightarrow> string option \<Rightarrow> bool) \<Rightarrow> part_system \<Rightarrow> part_system \<Rightarrow> bool"
  for lid answer where
  files: "fst ` set (tb_files (sy_tables Y)) \<subseteq> fst ` set fs \<Longrightarrow> part_step lid answer Y (with_tables Y ((sy_tables Y)\<lparr>tb_files := fs\<rparr>))"
| upsert: "upsert_parts lid now f ps (sy_tables Y) = Some (r, T) \<Longrightarrow> \<forall>p \<in> set ps. pi_min p \<noteq> 0 \<Longrightarrow> part_step lid answer Y (with_tables Y T)"
| replace: "replace_parts lid now f ps (sy_tables Y) = Some (r, T) \<Longrightarrow> \<forall>p \<in> set ps. pi_min p \<noteq> 0 \<Longrightarrow> part_step lid answer Y (with_tables Y T)"
| update: "pv_min v \<noteq> 0 \<Longrightarrow> part_step lid answer Y (with_tables Y (update_part now path v (sy_tables Y)))"
| delete: "part_step lid answer Y (Y\<lparr>sy_store := delete_part now path (sy_store Y)\<rparr>)"
| archive: "mark_parts_archived now as (sy_tables Y) = Some T \<Longrightarrow> part_step lid answer Y (with_tables Y T)"
| level: "mark_part_compression_level now path expected l (sy_tables Y) = Some T \<Longrightarrow> part_step lid answer Y (with_tables Y T)"
| failure: "part_step lid answer Y (with_tables Y (record_part_compression_failure now path expected error retry (sy_tables Y)))"
| encode: "commit_part_encoding now e (sy_store Y) = Some Q \<Longrightarrow>
    (\<And>old fp v. part_at (sy_tables Y) (en_path e) = Some old \<Longrightarrow> answer (pt_sha old) fp v = answer (en_sha e) fp v) \<Longrightarrow>
    part_step lid answer Y (Y\<lparr>sy_store := Q\<rparr>)"
| forget: "part_step lid answer Y (Y\<lparr>sy_store := forget_retired_oss_object key (sy_store Y)\<rparr>)"
| retry_delete: "part_step lid answer Y (Y\<lparr>sy_store := record_retired_oss_failure now key error retry (sy_store Y)\<rparr>)"
| touch: "part_step lid answer Y (with_tables Y (touch_local_parts now paths (sy_tables Y)))"
| catalog: "part_step lid answer Y (with_tables Y (snd (upsert_part_catalog now path sha c (sy_tables Y))))"
| negative: "\<forall>(path, sha, fp) \<in> set es. answer sha fp None \<Longrightarrow>
    part_step lid answer Y (with_tables Y (snd (record_negative_probes now es (sy_tables Y))))"
| positive: "\<forall>e \<in> set pes. answer (pe_sha e) (pe_fingerprint e) (Some (pe_rows e)) \<Longrightarrow>
    part_step lid answer Y (with_tables Y (snd (record_positive_probes now bytes n pes (sy_tables Y))))"
| rebuild: "part_step lid answer Y (with_tables Y (snd (rebuild_storage_file_stats (sy_tables Y))))"
| audit_page: "part_step lid answer Y (Y\<lparr>sy_pages := insert (audit_read n after (sy_tables Y)) (sy_pages Y)\<rparr>)"
| audit_write: "pg \<in> sy_pages Y \<Longrightarrow> part_step lid answer Y (with_tables Y (snd (audit_commit now pg (sy_tables Y))))"

definition system_ok :: "(string \<Rightarrow> string \<Rightarrow> string option \<Rightarrow> bool) \<Rightarrow> part_system \<Rightarrow> bool" where
  "system_ok answer Y \<longleftrightarrow> tables_ok (audited (sy_tables Y) \<union> \<Union>(page_settled ` sy_pages Y)) (sy_tables Y) \<and> probes_true answer (sy_tables Y)"

lemma keeps_system_ok:
  assumes "system_ok answer Y" "\<And>A. keeps A answer (sy_tables Y) (sy_tables Z)" "sy_pages Z = sy_pages Y"
  shows "system_ok answer Z"
proof -
  have "audited (sy_tables Z) = audited (sy_tables Y)" using assms(2) by (auto simp: keeps_def env_of_def audited_def)
  then show ?thesis using assms(1,3) assms(2) [of "audited (sy_tables Y) \<union> \<Union>(page_settled ` sy_pages Y)"]
    by (simp add: system_ok_def keeps_def)
qed

lemma files_ok:
  assumes ok: "tables_ok A S" and sub: "fst ` set (tb_files S) \<subseteq> fst ` set fs"
  shows "tables_ok A (S\<lparr>tb_files := fs\<rparr>)"
proof -
  have "pt_file p \<in> fst ` set fs" if "p \<in> set (tb_parts S)" for p using tables_okD(6) [OF ok that] sub by blast
  then show ?thesis using ok unfolding tables_ok_def by (simp add: part_at_def pend_at_def cat_at_def)
qed

lemma rebuild_exact: "stats_match ps (map (\<lambda>f. (f, file_totals (parts_of f ps))) (remdups (map pt_file ps)))"
  unfolding stats_match_def
proof (intro conjI allI)
  show "distinct (map fst (map (\<lambda>f. (f, file_totals (parts_of f ps))) (remdups (map pt_file ps))))"
    by (simp add: o_def)
  fix f
  have "parts_of f ps = [] \<longleftrightarrow> f \<notin> set (remdups (map pt_file ps))" by (auto simp: parts_of_def filter_empty_conv)
  then show "map_of (map (\<lambda>f. (f, file_totals (parts_of f ps))) (remdups (map pt_file ps))) f = totals_of ps f"
    by (simp add: totals_of_def map_of_map_restrict restrict_map_def)
qed

lemma rebuild_ok: "tables_ok A S \<Longrightarrow> tables_ok A (snd (rebuild_storage_file_stats S))"
  using rebuild_exact [of "tb_parts S"]
  by (simp add: tables_ok_def rebuild_storage_file_stats_def Let_def part_at_def pend_at_def cat_at_def)

lemma part_step_ok:
  assumes "part_step lid answer Y Z" "system_ok answer Y"
  shows "system_ok answer Z"
  using assms
proof cases
  case (files fs)
  show ?thesis using assms(2) files_ok [OF _ files(2)] unfolding files(1)
    by (simp add: system_ok_def probes_true_def probe_rows_def part_at_def audited_def)
next
  case (delete now path)
  show ?thesis unfolding delete
    by (rule keeps_system_ok [OF assms(2)]) (auto simp: delete_part_def delete_row_keeps split: option.split)
next
  case (rebuild)
  have "audited (snd (rebuild_storage_file_stats (sy_tables Y))) = audited (sy_tables Y)"
    "probes_true answer (snd (rebuild_storage_file_stats (sy_tables Y))) = probes_true answer (sy_tables Y)"
    by (simp_all add: rebuild_storage_file_stats_def Let_def audited_def probes_true_def probe_rows_def part_at_def)
  then show ?thesis using assms(2) rebuild_ok unfolding rebuild by (simp add: system_ok_def)
next
  case (audit_page n after)
  have "tables_ok (audited (sy_tables Y) \<union> \<Union>(page_settled ` sy_pages Y) \<union> page_settled (audit_read n after (sy_tables Y))) (sy_tables Y)"
    using assms(2) audit_read_page_settled unfolding tables_ok_Un system_ok_def by blast
  then show ?thesis using assms(2) unfolding audit_page by (simp add: system_ok_def Un_ac)
next
  case (audit_write pg now)
  have "tb_parts (snd (audit_commit now pg S)) = tb_parts S" "probe_rows (snd (audit_commit now pg S)) = probe_rows S" for S
    using queue_candidates_frame(1,3) [of "fmt now" S "au_candidates pg"] by (auto simp: audit_commit_def probe_rows_def)
  then have "probes_true answer (snd (audit_commit now pg (sy_tables Y))) = probes_true answer (sy_tables Y)"
    by (simp add: probes_true_def part_at_def)
  then show ?thesis
    using assms(2) audit_commit_ok [of "sy_tables Y" "\<Union>(page_settled ` sy_pages Y)" pg now] audit_write(2)
    unfolding audit_write(1) by (auto simp: system_ok_def)
qed (use keeps_system_ok [OF assms(2), of Z] in
    \<open>simp_all add: upsert_parts_keeps replace_parts_keeps update_part_keeps archive_rows_keeps mark_parts_archived_def
      mark_part_compression_level_keeps record_part_compression_failure_keeps touch_local_parts_keeps commit_part_encoding_keeps
      upsert_part_catalog_keeps record_negative_probes_keeps record_positive_probes_keeps forget_retired_oss_object_def record_retired_oss_failure_def\<close>)

interpretation part_store: transition_system "part_step lid answer" "system_ok answer" for lid answer
  by unfold_locales (rule part_step_ok)

section \<open>What the store promises\<close>

text \<open>The tables of an installation from before the audit and the rollup, at the start of a program version that has them.\<close>

definition legacy_tables :: "part_tables \<Rightarrow> bool" where
  "legacy_tables S \<longleftrightarrow> distinct (map pt_path (tb_parts S)) \<and> distinct (map cg_path (tb_catalog S)) \<and>
     (\<forall>p \<in> set (tb_parts S). pt_file p \<in> fst ` set (tb_files S) \<and> pt_rev p \<le> tb_revision S \<and> pt_min p \<noteq> 0) \<and>
     cg_path ` set (tb_catalog S) \<subseteq> pt_path ` set (tb_parts S) \<and> tb_pending S = [] \<and>
     tb_negative S = [] \<and> tb_positive S = [] \<and> \<not> tb_stats_complete S \<and> tb_audit_after S = [] \<and> \<not> tb_audit_complete S"

lemma legacy_system_ok:
  assumes "legacy_tables (sy_tables Y)" "sy_pages Y = {}"
  shows "system_ok answer Y"
proof -
  let ?S = "sy_tables Y"
  have "entry_ok False (part_at ?S k) (pend_at ?S k) (cat_at ?S k)" for k
  proof (cases "part_at ?S k")
    case None
    then have "k \<notin> cg_path ` set (tb_catalog ?S)" using assms(1) by (auto simp: part_at_def find_row_None legacy_tables_def)
    then show ?thesis using None assms(1) by (simp add: entry_ok_def pend_at_def cat_at_def find_row_None legacy_tables_def)
  qed (use assms(1) in \<open>simp add: entry_ok_def pend_at_def legacy_tables_def\<close>)
  moreover have "audited ?S = {}" using assms(1) by (auto simp: audited_def legacy_tables_def)
  ultimately show ?thesis
    using assms by (simp add: system_ok_def tables_ok_def legacy_tables_def probes_true_def probe_rows_def)
qed

text \<open>
  Property C19. As long as no part has 0 as its minimum event time, in the tables found at the start and in every
  commit and rewrite: whatever parts are committed, rewritten, archived, re-encoded and deleted, and whether the rollup
  was rebuilt or not, the capacity totals are those of the query over the visible parts themselves. With a part
  that begins at time 0 they can differ: a trigger takes a stored minimum of 0 for no minimum.
\<close>

theorem storage_totals_exact:
  assumes "(part_step lid answer)\<^sup>*\<^sup>* Y Z" "legacy_tables (sy_tables Y)" "sy_pages Y = {}"
  shows "storage_metadata_stats (sy_tables Z) =
    rollup_totals (map part_stats (filter (\<lambda>p. visible_file (sy_tables Z) (pt_file p)) (tb_parts (sy_tables Z))))"
proof (cases "tb_stats_complete (sy_tables Z)")
  case True
  have "system_ok answer Z" using part_store.reachable_inv [OF assms(1) legacy_system_ok [OF assms(2,3)]] .
  then have "stats_match (tb_parts (sy_tables Z)) (tb_stats (sy_tables Z))"
    using True tables_okD(2) by (auto simp: system_ok_def)
  from rollup_match [OF this] show ?thesis using True by (simp add: storage_metadata_stats_def)
next
  case False
  then show ?thesis by (simp add: storage_metadata_stats_def)
qed

text \<open>
  Property C21. Once the audit of an older installation is complete, however its pages interleaved with writers
  and other auditors, every part without a current catalog row is in the indexer's work list, with its current
  contents.
\<close>

theorem catalog_work_complete:
  assumes "(part_step lid answer)\<^sup>*\<^sup>* Y Z" "legacy_tables (sy_tables Y)" "sy_pages Y = {}"
    and "tb_audit_complete (sy_tables Z)" "p \<in> set (tb_parts (sy_tables Z))" "pt_path p \<noteq> []"
    and "needs_catalog (sy_tables Z) p" "int (length (tb_pending (sy_tables Z))) \<le> limit"
  shows "p \<in> set (missing_part_catalogs limit (sy_tables Z))"
proof -
  let ?S = "sy_tables Z"
  have "system_ok answer Z" using part_store.reachable_inv [OF assms(1) legacy_system_ok [OF assms(2,3)]] .
  then have ok: "tables_ok (audited ?S) ?S" by (auto simp: system_ok_def tables_ok_Un)
  have at: "part_at ?S (pt_path p) = Some p" by (rule part_at_member [OF ok assms(5)])
  have "pt_path p \<in> audited ?S" using assms(4,6) by (simp add: audited_def)
  then obtain q where q: "pend_at ?S (pt_path p) = Some q" "pp_rev q = pt_rev p"
    using tables_okD(5) [OF ok, of "pt_path p"] at assms(7) needs_catalog_at [OF ok, of p]
    by (auto simp: entry_ok_def split: option.splits)
  then have mem: "q \<in> set (tb_pending ?S)" "pp_path q = pt_path p" by (auto simp: pend_at_def dest: find_row_SomeD)
  let ?f = "\<lambda>q. case part_at ?S (pp_path q) of None \<Rightarrow> None
        | Some p \<Rightarrow> if pp_rev q = pt_rev p \<and> pt_file p \<in> fst ` set (tb_files ?S) then Some p else None"
  have "?f q = Some p" using at q(2) mem(2) tables_okD(6) [OF ok assms(5)] by simp
  then have "p \<in> set (List.map_filter ?f (rev (sort_key (\<lambda>q. (pp_max q, pp_min q, pp_path q)) (tb_pending ?S))))"
    using mem(1) by (force simp: List.map_filter_def)
  moreover have "length (List.map_filter ?f xs) \<le> length xs" for xs by (induction xs) (simp_all add: List.map_filter_simps split: option.split)
  from this [of "rev (sort_key (\<lambda>q. (pp_max q, pp_min q, pp_path q)) (tb_pending ?S))"]
  have "length (List.map_filter ?f (rev (sort_key (\<lambda>q. (pp_max q, pp_min q, pp_path q)) (tb_pending ?S)))) \<le> nat limit"
    using assms(8) by simp
  ultimately show ?thesis by (simp add: missing_part_catalogs_def)
qed

text \<open>
  Property C9. A remembered probe that the caches report for a part and its hash is true of the part's
  current contents, across rewrites, replacements and re-encodings of the part, provided that every re-encoding
  committed was made of the contents the part has at the commit: the \<open>encode\<close> step asks that the new body answers
  every query as the current one. \<open>commit_part_encoding\<close> does not ensure it, since it compares only the object hash, and
  C34 shows a re-encoding of older contents that passes; parts whose minimum event time is 0 are left out as in C19.
\<close>

theorem probe_answers_true:
  assumes "(part_step lid answer)\<^sup>*\<^sup>* Y Z" "legacy_tables (sy_tables Y)" "sy_pages Y = {}"
  shows "(path \<in> set (negative_probe_matches entries (sy_tables Z)) \<longrightarrow>
      (\<exists>p sha fp. part_at (sy_tables Z) path = Some p \<and> pt_sha p = sha \<and> (path, sha, fp) \<in> set entries \<and> answer sha fp None)) \<and>
    ((path, v) \<in> set (positive_probe_matches Some entries (sy_tables Z)) \<longrightarrow>
      (\<exists>p sha fp. part_at (sy_tables Z) path = Some p \<and> pt_sha p = sha \<and> (path, sha, fp) \<in> set entries \<and> answer sha fp (Some v)))"
proof (intro conjI impI)
  let ?S = "sy_tables Z"
  have "system_ok answer Z" using part_store.reachable_inv [OF assms(1) legacy_system_ok [OF assms(2,3)]] .
  then have true: "(path, sha, fp, v) \<in> probe_rows ?S \<Longrightarrow> (\<exists>p. part_at ?S path = Some p \<and> pt_sha p = sha) \<and> answer sha fp v" for path sha fp v
    unfolding system_ok_def probes_true_def by fastforce
  show "\<exists>p sha fp. part_at ?S path = Some p \<and> pt_sha p = sha \<and> (path, sha, fp) \<in> set entries \<and> answer sha fp None"
    if matches: "path \<in> set (negative_probe_matches entries ?S)"
  proof -
    from matches obtain r where r: "r \<in> set (tb_negative ?S)" "np_path r = path" "(np_path r, np_sha r, np_fingerprint r) \<in> set entries"
      by (auto simp: negative_probe_matches_def)
    have "(path, np_sha r, np_fingerprint r, None) \<in> probe_rows ?S" using r(1,2) by (force simp: probe_rows_def)
    from true [OF this] show ?thesis using r(2,3) by auto
  qed
  show "\<exists>p sha fp. part_at ?S path = Some p \<and> pt_sha p = sha \<and> (path, sha, fp) \<in> set entries \<and> answer sha fp (Some v)"
    if matches: "(path, v) \<in> set (positive_probe_matches Some entries ?S)"
  proof -
    from dict_of_in [of "(path, v)"] matches
    obtain r where r: "r \<in> set (tb_positive ?S)" "po_path r = path" "po_rows r = v" "(po_path r, po_sha r, po_fingerprint r) \<in> set entries"
      by (force simp: positive_probe_matches_def List.map_filter_def)
    have "(path, po_sha r, po_fingerprint r, Some v) \<in> probe_rows ?S" using r(1-3) by (force simp: probe_rows_def)
    from true [OF this] show ?thesis using r(2,4) by auto
  qed
qed

section \<open>A concrete run\<close>

definition old_part :: part where
  "old_part = \<lparr>pt_path = ''p'', pt_file = ''f'', pt_lid = ''l'', pt_date = ''d'', pt_rows = 3, pt_min = 5, pt_max = 9, pt_size = 70,
     pt_sha = ''s'', pt_osha = ''s'', pt_level = 1, pt_compressed_at = [], pt_comp_error = [], pt_comp_retry = [], pt_key = ''k'',
     pt_etag = [], pt_offset = 0, pt_length = 0, pt_obj_sha = [], pt_uploaded = [], pt_verified = [], pt_access = [], pt_rev = 0,
     pt_created = [], pt_updated = []\<rparr>"

definition sample_tables :: part_tables where
  "sample_tables = \<lparr>tb_files = [(''f'', \<lparr>fi_state = ''done'', fi_visible = True\<rparr>)], tb_parts = [old_part], tb_catalog = [],
     tb_pending = [], tb_negative = [], tb_positive = [], tb_stats = [], tb_stats_complete = False, tb_revision = 0,
     tb_audit_after = [], tb_audit_complete = False\<rparr>"

definition sample_system :: part_system where
  "sample_system = \<lparr>sy_store = \<lparr>ps_tables = sample_tables, ps_retired = [], ps_aliases = []\<rparr>, sy_pages = {}\<rparr>"

lemma sample_legacy: "legacy_tables (sy_tables sample_system)" "sy_pages sample_system = {}"
  by (simp_all add: legacy_tables_def sample_system_def sample_tables_def old_part_def)

theorem storage_totals_exact_witness:
  "\<exists>Z. tb_stats_complete (sy_tables Z) \<and> storage_metadata_stats (sy_tables Z) =
    \<lparr>st_events = 3, st_bytes = 70, st_archived_bytes = 70, st_oldest = Some 5, st_latest = Some 9, st_parts = 1, st_archived = 1,
      st_zstd1 = 1, st_zstd9 = 0\<rparr>"
proof -
  obtain Z where Z: "Z = with_tables sample_system (snd (rebuild_storage_file_stats (sy_tables sample_system)))" by simp
  have step: "(part_step (\<lambda>_ _. []) (\<lambda>_ _ _. True))\<^sup>*\<^sup>* sample_system Z"
    unfolding Z by (rule r_into_rtranclp) (rule part_step.rebuild)
  have "tb_files (sy_tables Z) = tb_files sample_tables" "tb_parts (sy_tables Z) = [old_part]" "tb_stats_complete (sy_tables Z)"
    by (simp_all add: Z rebuild_storage_file_stats_def Let_def sample_system_def sample_tables_def)
  with storage_totals_exact [OF step sample_legacy] show ?thesis
    by (intro exI [of _ Z])
      (simp add: visible_file_def sample_tables_def old_part_def rollup_totals_def part_stats_def has_object_def)
qed

theorem catalog_work_complete_witness:
  "\<exists>Z. tb_audit_complete (sy_tables Z) \<and> needs_catalog (sy_tables Z) old_part
    \<and> old_part \<in> set (missing_part_catalogs 32 (sy_tables Z))"
proof -
  obtain pg where pg: "pg = audit_read 10 [] sample_tables" by simp
  obtain Y where Y: "Y = sample_system\<lparr>sy_pages := {pg}\<rparr>" by simp
  obtain Z where Z: "Z = with_tables Y (snd (audit_commit 0 pg (sy_tables Y)))" by simp
  have "part_step (\<lambda>_ _. []) (\<lambda>_ _ _. True) sample_system Y"
    using part_step.audit_page [of "\<lambda>_ _. []" "\<lambda>_ _ _. True" sample_system 10 "[]"]
    by (simp add: Y pg sample_system_def)
  moreover have "part_step (\<lambda>_ _. []) (\<lambda>_ _ _. True) Y Z"
    unfolding Z by (rule part_step.audit_write) (simp add: Y)
  ultimately have step: "(part_step (\<lambda>_ _. []) (\<lambda>_ _ _. True))\<^sup>*\<^sup>* sample_system Z" by (meson rtranclp.intros)
  have "sy_tables Y = sample_tables" by (simp add: Y sample_system_def)
  moreover have "pg = \<lparr>au_after = [], au_rows = [old_part], au_candidates = [''p''], au_next = ''p'', au_complete = True\<rparr>"
    by (simp add: pg audit_read_def sample_tables_def old_part_def needs_catalog_def)
  ultimately have Z': "sy_tables Z = sample_tables\<lparr>tb_pending := [queue_entry (fmt 0) old_part], tb_audit_after := ''p'', tb_audit_complete := True\<rparr>"
    by (simp add: Z audit_commit_def queue_candidate_def part_at_def needs_catalog_def sample_tables_def enqueue_def put_row_def)
      (simp add: old_part_def)
  have "needs_catalog (sy_tables Z) old_part" by (simp add: Z' needs_catalog_def sample_tables_def)
  moreover from this have "old_part \<in> set (missing_part_catalogs 32 (sy_tables Z))"
    by (intro catalog_work_complete [OF step sample_legacy]) (simp_all add: Z', simp_all add: sample_tables_def old_part_def)
  ultimately show ?thesis by (intro exI [of _ Z]) (simp add: Z')
qed

theorem probe_answers_true_witness:
  "\<exists>Z. ''p'' \<in> set (negative_probe_matches [(''p'', ''s'', ''q'')] (sy_tables Z)) \<and>
     (\<exists>p. part_at (sy_tables Z) ''p'' = Some p \<and> pt_sha p = ''s'')"
proof -
  let ?answer = "\<lambda>(sha :: string) (fp :: string) v. v = (None :: string option)"
  let ?es = "[(''p'', ''s'', ''q'')]"
  obtain Z where Z: "Z = with_tables sample_system (snd (record_negative_probes 0 ?es (sy_tables sample_system)))" by simp
  have step: "(part_step (\<lambda>_ _. []) ?answer)\<^sup>*\<^sup>* sample_system Z"
    unfolding Z by (rule r_into_rtranclp) (rule part_step.negative, simp)
  have hit: "''p'' \<in> set (negative_probe_matches ?es (sy_tables Z))"
    by (simp add: Z record_negative_probes_def Let_def dict_of_def List.map_filter_def part_at_def sample_system_def sample_tables_def
        old_part_def negative_probe_matches_def put_row_def)
  with probe_answers_true [OF step sample_legacy, of "''p''" ?es] show ?thesis
    by (intro exI [of _ Z]) auto
qed

section \<open>A rewritten part and a stale re-encoding\<close>

text \<open>
  Property C34. Rewriting a part leaves \<open>object_sha256\<close> at the body it had before, so a re-encoding of the old
  body that was prepared earlier still passes the guard of \<open>commit_part_encoding\<close> and replaces the rewritten
  body: the part then has the hash and size of the old contents with the row count of the new ones.
\<close>

theorem stale_encoding_overwrites:
  assumes "part_at (ps_tables P) path = Some old" "en_path e = path" "en_expected e = pt_osha old"
  shows "\<exists>Q p. commit_part_encoding now e (P\<lparr>ps_tables := update_part now path v (ps_tables P)\<rparr>) = Some Q \<and>
    part_at (ps_tables Q) path = Some p \<and> pt_rows p = pv_rows v \<and> pt_sha p = en_sha e \<and> pt_size p = en_size e"
proof -
  let ?T = "update_part now path v (ps_tables P)"
  obtain S1 rv where T: "?T = update_row True True (fmt now) (rewritten_part now v rv old) (drop_derived (fmt now) path (pv_sha v) S1)"
    and S1: "part_at S1 k = part_at (ps_tables P) k" for k
    using assms(1) by (simp add: update_part_def Let_def)
  obtain q where q: "q = rewritten_part now v rv old" by simp
  have q': "pt_path q = path" "pt_osha q = pt_osha old" "pt_rows q = pv_rows v"
    using part_at_path [OF assms(1)] by (simp_all add: q rewritten_part_def Let_def)
  have "part_at (drop_derived (fmt now) path (pv_sha v) S1) (pt_path q) = Some old" using assms(1) q' by (simp add: S1)
  from update_row_at(1) [OF this] have at: "part_at ?T path = Some q" unfolding T q [symmetric] by (simp add: q')
  obtain p where p: "p = q\<lparr>pt_size := en_size e, pt_sha := en_sha e, pt_osha := en_sha e, pt_level := en_level e,
                   pt_compressed_at := fmt now, pt_comp_error := [], pt_comp_retry := [], pt_key := en_key e,
                   pt_etag := en_etag e, pt_offset := max (en_offset e) 0, pt_length := max (en_length e) 0,
                   pt_obj_sha := (if en_obj_sha e \<noteq> [] then en_obj_sha e else en_sha e), pt_uploaded := fmt now,
                   pt_verified := fmt now, pt_access := fmt now, pt_updated := fmt now\<rparr>" by simp
  have p': "pt_path p = path" "pt_rows p = pv_rows v" "pt_sha p = en_sha e" "pt_size p = en_size e" by (simp_all add: p q')
  have "part_at ?T (pt_path p) = Some q" using at p' by simp
  from update_row_at(1) [OF this, where timed = False and counted = True and now = "fmt now" and k = path]
  have "part_at (update_row False True (fmt now) p ?T) path = Some p" using p' by simp
  then have "\<exists>Q. commit_part_encoding now e (P\<lparr>ps_tables := ?T\<rparr>) = Some Q \<and> part_at (ps_tables Q) path = Some p"
    using at assms(2,3) q' by (simp add: commit_part_encoding_def Let_def p)
  then show ?thesis using p' by blast
qed

theorem stale_encoding_overwrites_witness:
  "\<exists>Q p. commit_part_encoding 0 \<lparr>en_path = ''p'', en_expected = ''s'', en_sha = ''z'', en_size = 40, en_level = 9, en_key = ''k2'',
      en_etag = [], en_offset = 0, en_length = 0, en_obj_sha = [], en_grace = 3600\<rparr>
      (sy_store sample_system\<lparr>ps_tables := update_part 0 ''p'' \<lparr>pv_rows = 1, pv_min = 8, pv_max = 9, pv_size = 30, pv_sha = ''t''\<rparr> sample_tables\<rparr>)
      = Some Q \<and> part_at (ps_tables Q) ''p'' = Some p \<and> pt_rows p = 1 \<and> pt_sha p = ''z'' \<and> pt_size p = 40"
proof -
  have tables: "ps_tables (sy_store sample_system) = sample_tables" by (simp add: sample_system_def)
  have "part_at (ps_tables (sy_store sample_system)) ''p'' = Some old_part"
    by (simp add: tables part_at_def sample_tables_def old_part_def)
  from stale_encoding_overwrites [OF this, of "\<lparr>en_path = ''p'', en_expected = ''s'', en_sha = ''z'', en_size = 40, en_level = 9, en_key = ''k2'',
      en_etag = [], en_offset = 0, en_length = 0, en_obj_sha = [], en_grace = 3600\<rparr>" 0 "\<lparr>pv_rows = 1, pv_min = 8, pv_max = 9, pv_size = 30, pv_sha = ''t''\<rparr>"]
  show ?thesis by (simp add: old_part_def tables)
qed

end
