(* ===== verification/WindowAlign.thy ===== *)
theory WindowAlign
  imports InstanceCoverage
begin

text \<open>
  \<open>app/window_align.py\<close>: where a requested analysis window lands when the covered intervals do not hold it.
  Times are microseconds. A step of 0 would raise in the code; every caller uses five minutes.
\<close>

section \<open>The two repairs\<close>

definition MINUTE_US :: int where "MINUTE_US = 60000000"
definition HOUR_US :: int where "HOUR_US = 60 * MINUTE_US"
definition SEARCH_REACH_US :: int where "SEARCH_REACH_US = 6 * HOUR_US"
definition WINDOW_DAY_US :: int where "WINDOW_DAY_US = 24 * HOUR_US"

definition floor_to :: "int \<Rightarrow> int \<Rightarrow> int" where
  "floor_to v s = v div s * s"

text \<open>What the answer reports of a moved window: how much was cut off, or how far it moved.\<close>

datatype adjusted =
    Cut (requested_start_us: int) (requested_end_us: int) (truncated_us: int)
  | Moved (requested_start_us: int) (requested_end_us: int) (shift_us: int)

datatype alignment =
    Truncated int int
  | Shifted int int
  | NoWindow

definition adjusted_payload :: "alignment \<Rightarrow> int \<Rightarrow> int \<Rightarrow> adjusted option" where
  "adjusted_payload al rs re = (case al of
       Truncated s e \<Rightarrow> Some (Cut rs re (re - e))
     | Shifted s e \<Rightarrow> Some (Moved rs re (s - rs))
     | NoWindow \<Rightarrow> None)"

definition inside :: "(int \<times> int) list \<Rightarrow> int \<Rightarrow> int \<Rightarrow> bool" where
  "inside ivs low high = (\<exists>(a, b) \<in> set ivs. a \<le> low \<and> high \<le> b)"

definition ready_edge :: "(int \<times> int) list \<Rightarrow> int \<Rightarrow> int option" where
  "ready_edge ivs now = (let edges = filter (\<lambda>b. b \<le> now) (map snd ivs) in if edges = [] then None else Some (Max (set edges)))"

text \<open>The first covered interval that holds the start decides whether cutting the end back is enough.\<close>

definition truncated :: "int \<Rightarrow> int \<Rightarrow> (int \<times> int) list \<Rightarrow> int \<Rightarrow> int \<Rightarrow> int \<Rightarrow> int option" where
  "truncated start stop covered now step minimum = (case List.find (\<lambda>(a, b). a \<le> start \<and> start \<le> b) covered of
       None \<Rightarrow> None
     | Some (a, b) \<Rightarrow> (let edge = floor_to (min (min stop b) now) step in if minimum \<le> edge - start then Some edge else None))"

text \<open>The candidates of the second repair in order: one step earlier, one step later, two steps earlier, and so on.\<close>

definition shift_candidates :: "int \<Rightarrow> int \<Rightarrow> int \<Rightarrow> int list" where
  "shift_candidates base step reach = concat (map (\<lambda>k. [base - k * step, base + k * step]) [1..reach div step])"

definition align_to_intervals :: "int \<Rightarrow> int \<Rightarrow> (int \<times> int) list \<Rightarrow> int \<Rightarrow> int \<Rightarrow> int option \<Rightarrow> int \<Rightarrow> int \<Rightarrow> alignment option" where
  "align_to_intervals start stop ivs now step min_span reach floor =
     (let covered = sort (filter (\<lambda>(a, b). a \<le> b) ivs)
      in if inside covered start stop then None
         else case truncated start stop covered now step (case min_span of None \<Rightarrow> step | Some m \<Rightarrow> m) of
           Some edge \<Rightarrow> Some (Truncated start edge)
         | None \<Rightarrow> (case List.find (\<lambda>low. floor \<le> low \<and> low + (stop - start) \<le> now \<and> inside covered low (low + (stop - start)))
               (shift_candidates (floor_to start step) step reach) of
             Some low \<Rightarrow> Some (Shifted low (low + (stop - start)))
           | None \<Rightarrow> Some NoWindow))"

section \<open>Repairing a query\<close>

record window_query =
  wq_instance :: string
  wq_start :: "int option"
  wq_end :: "int option"

definition or_else :: "int option \<Rightarrow> int \<Rightarrow> int" where
  "or_else v d = (case v of None \<Rightarrow> d | Some n \<Rightarrow> if n = 0 then d else n)"

definition align_binlog_query ::
  "(string \<Rightarrow> int \<Rightarrow> int \<Rightarrow> 'e + (int \<times> int) list) option \<Rightarrow> window_query \<Rightarrow> int \<Rightarrow> int \<Rightarrow> (adjusted option \<times> int option) \<times> window_query" where
  "align_binlog_query rows q retention now = (case rows of None \<Rightarrow> ((None, None), q)
     | Some coverage \<Rightarrow>
         if wq_instance q = '''' then ((None, None), q)
         else
           (let floor = now - max retention 1 * WINDOW_DAY_US;
                start = max (or_else (wq_start q) floor) floor;
                stop = min (or_else (wq_end q) now) now
            in if stop \<le> start then ((None, None), q)
               else case coverage (wq_instance q) (max (start - SEARCH_REACH_US) floor) (min (stop + SEARCH_REACH_US) now) of
                 Inl _ \<Rightarrow> ((None, None), q)
               | Inr ivs \<Rightarrow>
                   (let edge = ready_edge ivs now
                    in case align_to_intervals start stop ivs now (5 * MINUTE_US) None SEARCH_REACH_US floor of
                      None \<Rightarrow> ((None, edge), q)
                    | Some (Truncated s e) \<Rightarrow> ((adjusted_payload (Truncated s e) start stop, edge), q\<lparr>wq_start := Some s, wq_end := Some e\<rparr>)
                    | Some (Shifted s e) \<Rightarrow> ((adjusted_payload (Shifted s e) start stop, edge), q\<lparr>wq_start := Some s, wq_end := Some e\<rparr>)
                    | Some NoWindow \<Rightarrow> ((None, edge), q))))"

section \<open>What a repaired window is\<close>

lemma inside_covered: "inside (sort (filter (\<lambda>(a, b). a \<le> b) ivs)) low high \<Longrightarrow> inside ivs low high"
  by (auto simp: inside_def)

lemma floor_to_le: "0 < s \<Longrightarrow> floor_to v s \<le> v" "0 < s \<Longrightarrow> v < floor_to v s + s" "floor_to v s mod s = 0"
  by (simp_all add: floor_to_def) (smt (verit) div_mult_mod_eq pos_mod_bound pos_mod_sign)+

lemma find_first: "List.find P xs = Some x \<Longrightarrow> \<exists>ys zs. xs = ys @ x # zs \<and> P x \<and> (\<forall>y \<in> set ys. \<not> P y)"
proof (induction xs)
  case (Cons y ys)
  show ?case
  proof (cases "P y")
    case False
    with Cons obtain us vs where "ys = us @ x # vs" "P x" "\<forall>u \<in> set us. \<not> P u" by auto
    then show ?thesis using False by (intro exI [of _ "y # us"] exI [of _ vs]) auto
  qed (use Cons.prems in \<open>auto intro: exI [of _ "[]"]\<close>)
qed simp

lemma shift_candidates_append:
  assumes "shift_candidates base step reach = ys @ low # zs" "0 < step"
  shows "\<exists>k. 1 \<le> k \<and> k \<le> reach div step \<and> (low = base - k * step \<or> low = base + k * step) \<and>
    (\<forall>j. 1 \<le> j \<and> j < k \<longrightarrow> base - j * step \<in> set ys \<and> base + j * step \<in> set ys) \<and>
    (low = base + k * step \<longrightarrow> base - k * step \<in> set ys)"
proof -
  have split: "\<exists>j. m \<le> j \<and> j \<le> n \<and> (low = base - j * step \<or> low = base + j * step) \<and>
      (\<forall>i. m \<le> i \<and> i < j \<longrightarrow> base - i * step \<in> set ys \<and> base + i * step \<in> set ys) \<and>
      (low = base + j * step \<longrightarrow> base - j * step \<in> set ys)"
    if "concat (map (\<lambda>k. [base - k * step, base + k * step]) [m..n]) = ys @ low # zs" "1 \<le> m" for m n ys
    using that
  proof (induction m n arbitrary: ys rule: upto.induct)
    case (1 m n)
    then have mn: "m \<le> n" by (cases "m \<le> n") auto
    have less: "base - m * step < base + m * step" using \<open>1 \<le> m\<close> assms(2) by (simp add: add_strict_increasing)
    have eq: "(base - m * step) # (base + m * step) # concat (map (\<lambda>k. [base - k * step, base + k * step]) [m + 1..n]) = ys @ low # zs"
      using 1(2) mn by (simp add: upto_rec1)
    show ?case
    proof (cases ys)
      case Nil
      then show ?thesis using eq mn less by (intro exI [of _ m]) auto
    next
      case (Cons y1 ys')
      show ?thesis
      proof (cases ys')
        case Nil
        then show ?thesis using eq mn Cons by (intro exI [of _ m]) auto
      next
        case (Cons y2 us)
        with eq \<open>ys = y1 # ys'\<close> have ys: "ys = (base - m * step) # (base + m * step) # us"
          and rest: "concat (map (\<lambda>k. [base - k * step, base + k * step]) [m + 1..n]) = us @ low # zs" by auto
        from 1(1) [OF mn rest] 1(3) obtain j where j: "m + 1 \<le> j" "j \<le> n" "low = base - j * step \<or> low = base + j * step"
          "\<forall>i. m + 1 \<le> i \<and> i < j \<longrightarrow> base - i * step \<in> set us \<and> base + i * step \<in> set us"
          "low = base + j * step \<longrightarrow> base - j * step \<in> set us" by auto
        have "base - i * step \<in> set ys \<and> base + i * step \<in> set ys" if "m \<le> i" "i < j" for i
          using that j(4) ys by (cases "i = m") auto
        then show ?thesis using j ys by (intro exI [of _ j]) auto
      qed
    qed
  qed
  from split [of 1 "reach div step" ys] assms(1) show ?thesis by (simp add: shift_candidates_def)
qed

lemma in_shift_candidates: "low \<in> set (shift_candidates base step reach) \<longleftrightarrow>
    (\<exists>k. 1 \<le> k \<and> k \<le> reach div step \<and> (low = base - k * step \<or> low = base + k * step))"
  by (auto simp: shift_candidates_def)

definition window_fits :: "(int \<times> int) list \<Rightarrow> int \<Rightarrow> int \<Rightarrow> int \<Rightarrow> int \<Rightarrow> bool" where
  "window_fits ivs now floor low high \<longleftrightarrow> floor \<le> low \<and> high \<le> now \<and> inside ivs low high"

lemma inside_proper: "low \<le> high \<Longrightarrow> inside (sort (filter (\<lambda>(a, b). a \<le> b) ivs)) low high \<longleftrightarrow> inside ivs low high"
  by (fastforce simp: inside_def)

lemma truncated_window:
  assumes "truncated start stop covered now step minimum = Some e" "0 < step"
  shows "inside covered start e \<and> start + minimum \<le> e \<and> e \<le> stop \<and> e \<le> now \<and> e mod step = 0"
proof -
  obtain a b where ab: "List.find (\<lambda>(a, b). a \<le> start \<and> start \<le> b) covered = Some (a, b)"
    and e: "e = floor_to (min (min stop b) now) step" "minimum \<le> e - start"
    using assms(1) by (auto simp: truncated_def Let_def split: option.splits if_splits)
  have mem: "(a, b) \<in> set covered" "a \<le> start" using find_first [OF ab] by auto
  have "e \<le> min (min stop b) now" using floor_to_le(1) [OF assms(2), of "min (min stop b) now"] unfolding e(1) .
  then show ?thesis using mem e floor_to_le(3) by (auto simp: inside_def)
qed

text \<open>
  The repaired window is a covered one: a truncated window keeps its start and at least one step,
  a shifted window keeps its length, lies within the limits and no covered window of that length is nearer on
  the step grid, the earlier one first; no repair means that the window is covered, and no window means that
  no covered window of that length lies within reach.
\<close>

theorem align_exact:
  assumes "start \<le> stop" "0 < step"
  shows "case align_to_intervals start stop ivs now step None reach floor of
      None \<Rightarrow> inside ivs start stop
    | Some (Truncated s e) \<Rightarrow> \<not> inside ivs start stop \<and> s = start \<and> start + step \<le> e \<and> e \<le> stop \<and> e \<le> now \<and> e mod step = 0 \<and> inside ivs s e
    | Some (Shifted s e) \<Rightarrow> \<not> inside ivs start stop \<and> e - s = stop - start \<and> window_fits ivs now floor s e \<and>
        (\<exists>k. 1 \<le> k \<and> k \<le> reach div step \<and> (s = floor_to start step - k * step \<or> s = floor_to start step + k * step) \<and>
          (\<forall>j low. 1 \<le> j \<and> (j < k \<or> j = k \<and> low < s) \<and> (low = floor_to start step - j * step \<or> low = floor_to start step + j * step)
            \<longrightarrow> \<not> window_fits ivs now floor low (low + (stop - start))))
    | Some NoWindow \<Rightarrow> \<not> inside ivs start stop \<and>
        (\<forall>j low. 1 \<le> j \<and> j \<le> reach div step \<and> (low = floor_to start step - j * step \<or> low = floor_to start step + j * step)
          \<longrightarrow> \<not> window_fits ivs now floor low (low + (stop - start)))"
proof -
  let ?c = "sort (filter (\<lambda>(a, b). a \<le> b) ivs)" and ?base = "floor_to start step"
  let ?P = "\<lambda>low. window_fits ivs now floor low (low + (stop - start))"
  have P: "(\<lambda>low. floor \<le> low \<and> low + (stop - start) \<le> now \<and> inside ?c low (low + (stop - start))) = ?P"
    using assms(1) by (simp add: window_fits_def inside_proper)
  have c: "inside ?c start stop = inside ivs start stop" by (rule inside_proper [OF assms(1)])
  note run = align_to_intervals_def [of start stop ivs now step None reach floor, unfolded Let_def P c option.case]
  consider "inside ivs start stop" | (cut) e where "\<not> inside ivs start stop" "truncated start stop ?c now step step = Some e"
    | (find) "\<not> inside ivs start stop" "truncated start stop ?c now step step = None" by blast
  then show ?thesis
  proof cases
    case 1
    then show ?thesis by (simp add: run)
  next
    case (cut e)
    then show ?thesis using truncated_window [OF cut(2) assms(2)] inside_covered by (simp add: run)
  next
    case find
    show ?thesis
    proof (cases "List.find ?P (shift_candidates ?base step reach)")
      case (Some low)
      then obtain ys zs where split: "shift_candidates ?base step reach = ys @ low # zs" and low: "?P low" and ys: "\<forall>y \<in> set ys. \<not> ?P y"
        using find_first [OF Some] by blast
      from shift_candidates_append [OF split assms(2)] obtain k where k: "1 \<le> k" "k \<le> reach div step"
        "low = ?base - k * step \<or> low = ?base + k * step"
        "\<forall>j. 1 \<le> j \<and> j < k \<longrightarrow> ?base - j * step \<in> set ys \<and> ?base + j * step \<in> set ys"
        "low = ?base + k * step \<longrightarrow> ?base - k * step \<in> set ys" by blast
      have nearer: "\<not> ?P l" if "1 \<le> j" "j < k \<or> j = k \<and> l < low" "l = ?base - j * step \<or> l = ?base + j * step" for j l
      proof -
        have "0 < k * step" using k(1) assms(2) by simp
        then have "l \<in> set ys" using that k(3-5) by (cases "j = k") auto
        then show ?thesis using ys by blast
      qed
      have res: "align_to_intervals start stop ivs now step None reach floor = Some (Shifted low (low + (stop - start)))"
        using find Some by (simp add: run)
      have "\<exists>k. 1 \<le> k \<and> k \<le> reach div step \<and> (low = ?base - k * step \<or> low = ?base + k * step) \<and>
          (\<forall>j l. 1 \<le> j \<and> (j < k \<or> j = k \<and> l < low) \<and> (l = ?base - j * step \<or> l = ?base + j * step) \<longrightarrow> \<not> ?P l)"
        by (rule exI [of _ k], intro conjI allI impI) (use k(1-3) nearer in auto)
      then show ?thesis using find(1) low by (simp add: res)
    next
      case None
      then have "\<forall>l \<in> set (shift_candidates ?base step reach). \<not> ?P l" by (auto simp: find_None_iff)
      moreover have res: "align_to_intervals start stop ivs now step None reach floor = Some NoWindow"
        using find None by (simp add: run)
      ultimately have "\<not> ?P l" if "1 \<le> j" "j \<le> reach div step" "l = ?base - j * step \<or> l = ?base + j * step" for j l
        using that in_shift_candidates by blast
      then have "\<forall>j l. 1 \<le> j \<and> j \<le> reach div step \<and> (l = ?base - j * step \<or> l = ?base + j * step) \<longrightarrow> \<not> ?P l" by blast
      then show ?thesis using find(1) by (simp add: res)
    qed
  qed
qed

theorem align_exact_witness:
  "align_to_intervals 120 200 [(0, 50), (300, 500)] 1000 60 None 600 0 = Some (Shifted 300 380)
    \<and> inside [(0, 50), (300, 500)] 300 380 \<and> \<not> inside [(0, 50), (300, 500)] 120 200"
proof -
  have "align_to_intervals 120 200 [(0, 50), (300, 500)] 1000 60 None 600 0 = Some (Shifted 300 380)" by code_simp
  with align_exact [where start = 120 and stop = 200 and step = 60 and ivs = "[(0, 50), (300, 500)]" and now = 1000 and reach = 600 and floor = 0] show ?thesis by (simp add: window_fits_def)
qed

section \<open>Aligned on the coverage of an instance\<close>

lemma year_pos:
  assumes "0 \<le> t"
  shows "1 \<le> year (fields_of t)"
proof -
  obtain n where n: "n = t div 86400 + 719163 - 1" by blast
  obtain a where a: "a = n div 146097" by blast
  obtain b where b: "b = n mod 146097 div 36524" by blast
  obtain c where c: "c = n mod 146097 mod 36524 div 1461" by blast
  obtain d where d: "d = n mod 146097 mod 36524 mod 1461 div 365" by blast
  have "0 \<le> t div 86400" using assms by (simp add: pos_imp_zdiv_nonneg_iff)
  then have "0 \<le> n" by (simp add: n)
  then have pos: "0 \<le> a" "0 \<le> b" "0 \<le> c" "0 \<le> d" by (simp_all add: a b c d pos_imp_zdiv_nonneg_iff)
  have "fst (ord2ymd (t div 86400 + 719163)) = 400 * a + 1 + b * 100 + c * 4 + d - (if d = 4 \<or> b = 4 then 1 else 0)"
    by (simp only: ord2ymd_def Let_def n [symmetric] a [symmetric] b [symmetric] c [symmetric] d [symmetric]) simp
  moreover have "year (fields_of t) = fst (ord2ymd (t div 86400 + 719163))"
    by (simp add: fields_of_def Let_def split: prod.split)
  ultimately show ?thesis using pos by auto
qed

lemma year_mono:
  assumes "0 \<le> s" "s \<le> t"
  shows "year (fields_of s) \<le> year (fields_of t)"
proof (rule ccontr)
  assume "\<not> ?thesis"
  then have "field_list (fields_of t) < field_list (fields_of s)" by (simp add: field_list_def)
  moreover have "0 \<le> t" using assms by simp
  ultimately have "epoch_of (fields_of t) < epoch_of (fields_of s)"
    using epoch_of_mono valid_fields_of year_pos assms by blast
  then show False using assms(2) by (simp add: epoch_of_fields_of)
qed

lemma modern_year: "0 \<le> t \<Longrightarrow> t \<le> 253402300799 \<Longrightarrow> four_digit_year t"
proof -
  assume t: "0 \<le> t" "t \<le> 253402300799"
  have "year (fields_of 0) = 1970" "year (fields_of 253402300799) = 9999"
    by (simp_all add: fields_of_def ord2ymd_def month_day_def Let_def)
  then show ?thesis using year_mono [OF _ t(1)] year_mono [OF t] by (simp add: four_digit_year_def)
qed

text \<open>The coverage of \<open>BinlogRows\<close> as the aligner reads it: the ids and the catalog of the time of the call.\<close>

definition rows_coverage :: "int \<Rightarrow> int \<Rightarrow> (string \<Rightarrow> string list) \<Rightarrow> file_row list \<Rightarrow> string \<Rightarrow> int \<Rightarrow> int \<Rightarrow> unit + (int \<times> int) list" where
  "rows_coverage days now ids t inst lo hi = Inr (intervals (s_coverage (instance_coverage days now (ids inst) inst (Some (lo, hi)) t)))"

lemma align_binlog_query_result:
  assumes "align_binlog_query (Some coverage) q retention now = ((Some adj, edge), q')"
  obtains start stop ivs lo hi s e where
    "coverage (wq_instance q) lo hi = Inr ivs" "start < stop" "lo = max (start - SEARCH_REACH_US) (now - max retention 1 * WINDOW_DAY_US)"
    "hi = min (stop + SEARCH_REACH_US) now" "stop \<le> now" "now - max retention 1 * WINDOW_DAY_US \<le> start"
    "wq_start q' = Some s" "wq_end q' = Some e"
    "align_to_intervals start stop ivs now (5 * MINUTE_US) None SEARCH_REACH_US (now - max retention 1 * WINDOW_DAY_US) \<in> {Some (Truncated s e), Some (Shifted s e)}"
proof -
  obtain floor where floor: "floor = now - max retention 1 * WINDOW_DAY_US" by simp
  obtain start where start: "start = max (or_else (wq_start q) floor) floor" by simp
  obtain stop where stop: "stop = min (or_else (wq_end q) now) now" by simp
  note run = assms [unfolded align_binlog_query_def Let_def option.case floor [symmetric] start [symmetric] stop [symmetric]]
  have nonempty: "start < stop" using run by (auto split: if_splits)
  obtain ivs where ivs: "coverage (wq_instance q) (max (start - SEARCH_REACH_US) floor) (min (stop + SEARCH_REACH_US) now) = Inr ivs"
    using run by (auto split: if_splits sum.splits)
  have "\<exists>s e. wq_start q' = Some s \<and> wq_end q' = Some e \<and>
      align_to_intervals start stop ivs now (5 * MINUTE_US) None SEARCH_REACH_US floor \<in> {Some (Truncated s e), Some (Shifted s e)}"
    using run ivs nonempty by (auto split: if_splits option.splits alignment.splits)
  then obtain s e where "wq_start q' = Some s" "wq_end q' = Some e"
      "align_to_intervals start stop ivs now (5 * MINUTE_US) None SEARCH_REACH_US floor \<in> {Some (Truncated s e), Some (Shifted s e)}" by blast
  with ivs nonempty show thesis by (intro that) (auto simp: floor start stop)
qed

text \<open>
  Property C35. A window that was moved for a Binlog analysis holds no uncollected rows: within the moved window,
  every binlog file of the instance that holds a moment of it is ingested or held by ingested files of another
  host, although the aligner saw only the coverage of a bounded stretch around the request.
\<close>

theorem aligned_window_ingested:
  assumes "align_binlog_query (Some (rows_coverage days now ids t)) q retention now = ((Some adj, edge), q')"
    and "wq_start q' = Some s" "wq_end q' = Some e" "s \<le> x" "x < e"
    and "r \<in> set t" "binlog_row r" "f_instance_id r = wq_instance q" "f_state r \<notin> set COPY_STATES"
    and "f_log_begin_utc r = fmt b" "four_digit_year b" "f_log_end_utc r = fmt l" "four_digit_year l"
    and "l \<le> b + 3 * 86400" "b * 1000000 \<le> x" "x < l * 1000000"
    and years: "3 * 86400 * 1000000 \<le> now - max retention 1 * WINDOW_DAY_US" "now < 253402300800 * 1000000"
  shows "f_id r \<in> set (ids (wq_instance q)) \<or>
    (\<exists>lo hi. held_by_other (coverage_files (wq_instance q) (Some (lo, hi)) t) (ids (wq_instance q)) (f_host_instance_id r) x)"
proof -
  let ?floor = "now - max retention 1 * WINDOW_DAY_US"
  obtain start stop ivs lo hi s' e' where cov: "rows_coverage days now ids t (wq_instance q) lo hi = Inr ivs" and ss: "start < stop"
    and lo: "lo = max (start - SEARCH_REACH_US) ?floor" and hi: "hi = min (stop + SEARCH_REACH_US) now" and lim: "stop \<le> now" "?floor \<le> start"
    and se: "wq_start q' = Some s'" "wq_end q' = Some e'"
    and al: "align_to_intervals start stop ivs now (5 * MINUTE_US) None SEARCH_REACH_US ?floor \<in> {Some (Truncated s' e'), Some (Shifted s' e')}"
    using align_binlog_query_result [OF assms(1)] by metis
  have "0 < 5 * MINUTE_US" "0 \<le> SEARCH_REACH_US" by (simp_all add: MINUTE_US_def SEARCH_REACH_US_def HOUR_US_def)
  with align_exact [where start = start and stop = stop and step = "5 * MINUTE_US" and ivs = ivs and now = now
      and reach = SEARCH_REACH_US and floor = ?floor] ss al
  have "inside ivs s' e'" by (auto simp: window_fits_def)
  then have "inside ivs s e" using se assms(2,3) by simp
  then obtain c d where "(c, d) \<in> set ivs" "c \<le> s" "e \<le> d" by (auto simp: inside_def)
  then have "covers ivs x" using assms(4,5) unfolding covers_def by (intro bexI [of _ "(c, d)"]) simp_all
  then have "covers (intervals (s_coverage (instance_coverage days now (ids (wq_instance q)) (wq_instance q) (Some (lo, hi)) t))) x"
    using cov by (simp add: rows_coverage_def)
  moreover have "?floor \<le> lo" "lo \<le> now" "?floor \<le> hi" "hi \<le> now"
    using lo hi lim ss \<open>0 \<le> SEARCH_REACH_US\<close> by auto
  then have "3 * 86400 \<le> lo div 1000000" "lo div 1000000 < 253402300800" "3 * 86400 \<le> hi div 1000000" "hi div 1000000 < 253402300800"
    using years by linarith+
  then have "four_digit_year (lo div 1000000 - 3 * 86400)" "four_digit_year (hi div 1000000)" by (auto intro!: modern_year)
  ultimately show ?thesis
    using instance_coverage_sound [OF assms(6-16), where ids = "ids (wq_instance q)" and days = days and now = now and start = lo and stop = hi] by blast
qed



theorem aligned_window_ingested_witness:
  "\<exists>q'. align_binlog_query (Some (rows_coverage 7 1793300000000000 (\<lambda>_. [''k'']) [done_row]))
       \<lparr>wq_instance = ''i'', wq_start = Some 1793221300000000, wq_end = Some 1793230000000000\<rparr> 30 1793300000000000
     = ((Some (Cut 1793221300000000 1793230000000000 5200000000), Some 1793224800000000), q')
   \<and> wq_start q' = Some 1793221300000000 \<and> wq_end q' = Some 1793224800000000
   \<and> (f_id done_row \<in> set [''k''] \<or>
      (\<exists>lo hi. held_by_other (coverage_files ''i'' (Some (lo, hi)) [done_row]) [''k''] (f_host_instance_id done_row) 1793221300000001))"
proof -
  let ?q = "\<lparr>wq_instance = ''i'', wq_start = Some 1793221300000000, wq_end = Some 1793230000000000\<rparr>"
  let ?q' = "\<lparr>wq_instance = ''i'', wq_start = Some 1793221300000000, wq_end = Some 1793224800000000\<rparr>"
  have f: "fields_of 1793221200 = \<lparr>year = 2026, month = 10, day = 28, hour = 21, minute = 0, second = 0\<rparr>"
    "fields_of 1793224800 = \<lparr>year = 2026, month = 10, day = 28, hour = 22, minute = 0, second = 0\<rparr>"
    by (simp_all add: fields_of_def ord2ymd_def month_day_def Let_def)
  have t: "fmt 1793221200 = ''2026-10-28T21:00:00Z''" "fmt 1793224800 = ''2026-10-28T22:00:00Z''"
    by code_simp+
  have d: "f_log_begin_utc done_row = fmt 1793221200" "f_log_end_utc done_row = fmt 1793224800" "f_id done_row = ''k''"
    "f_instance_id done_row = ''i''" "f_host_instance_id done_row = ''h1''" "f_log_file_name done_row = ''b.1''" "f_state done_row = Done"
    unfolding t by (simp_all add: done_row_def new_file_def sample_remote_def)
  have e: "epoch_us (fmt 1793221200) = Some (1793221200 * 1000000)" "epoch_us (fmt 1793224800) = Some (1793224800 * 1000000)"
    by (rule epoch_us_fmt; simp add: f)+
  have w: "window_row ''i'' (Some (1793199700000000, 1793251600000000)) done_row"
    using modern_year [of 1792940500] modern_year [of 1793251600]
    unfolding window_row_def d by (simp add: fmt_le_iff f four_digit_year_def)
  have files: "coverage_files ''i'' (Some (1793199700000000, 1793251600000000)) [done_row]
      = [\<lparr>cf_id = ''k'', cf_lo = 1793221200000000, cf_hi = 1793224800000000, cf_state = Done, cf_host = ''h1''\<rparr>]"
    by (simp add: coverage_files_def w List.map_filter_def cover_row_def d e NON_BINLOG_HOST_IDS_def)
  have runs: "intervals (coverage_runs [\<lparr>cf_id = ''k'', cf_lo = 1793221200000000, cf_hi = 1793224800000000, cf_state = Done, cf_host = ''h1''\<rparr>]
        [''k''] 1793199700000000 1793251600000000 (Some 1792608800000000)) = [(1793221200000000, 1793224800000000)]"
    by code_simp
  have cov: "rows_coverage 7 1793300000000000 (\<lambda>_. [''k'']) [done_row] ''i'' 1793199700000000 1793251600000000
      = Inr [(1793221200000000, 1793224800000000)]"
    by (simp add: rows_coverage_def instance_coverage_def Let_def SOURCE_RETENTION_SECONDS_def files runs)
  have al: "align_to_intervals 1793221300000000 1793230000000000 [(1793221200000000, 1793224800000000)] 1793300000000000
      (5 * MINUTE_US) None SEARCH_REACH_US (1793300000000000 - 30 * WINDOW_DAY_US) = Some (Truncated 1793221300000000 1793224800000000)"
    by code_simp
  have run: "align_binlog_query (Some (rows_coverage 7 1793300000000000 (\<lambda>_. [''k'']) [done_row])) ?q 30 1793300000000000
     = ((Some (Cut 1793221300000000 1793230000000000 5200000000), Some 1793224800000000), ?q')"
    using cov al
    by (simp add: align_binlog_query_def or_else_def adjusted_payload_def ready_edge_def WINDOW_DAY_US_def HOUR_US_def MINUTE_US_def SEARCH_REACH_US_def)
  have "f_id done_row \<in> set ((\<lambda>_. [''k'']) (wq_instance ?q)) \<or>
      (\<exists>lo hi. held_by_other (coverage_files (wq_instance ?q) (Some (lo, hi)) [done_row]) ((\<lambda>_. [''k'']) (wq_instance ?q)) (f_host_instance_id done_row) 1793221300000001)"
    by (rule aligned_window_ingested [OF run, where b = 1793221200 and l = 1793224800 and s = 1793221300000000 and e = 1793224800000000])
      (simp_all add: four_digit_year_def f WINDOW_DAY_US_def HOUR_US_def MINUTE_US_def t,
        simp_all add: done_row_def binlog_row_def new_file_def sample_remote_def NON_BINLOG_HOST_IDS_def COPY_STATES_def)
  then show ?thesis using run by auto
qed

end
