(* ===== verification/SlowLogTail.thy ===== *)
theory SlowLogTail
  imports Texts
begin

text \<open>
  The live tail of the slow log, \<open>app/slowlog_tail.py\<close>: per node the newest statements in memory, what the buffer
  vouches for, and the answers across the nodes of an instance. Times are microseconds, windows whole seconds.
  The DAS service is a parameter (\<open>client low_ms high_ms page\<close>), and so is the conversion of one record into an
  event with its SHA-256 id (\<open>event_of\<close>, nothing for a record without text or time or of an excluded account).
  The reuse of the DAS client and the texts of statements are left out.
\<close>

section \<open>Events and records\<close>

definition PAGE_SIZE :: nat where "PAGE_SIZE = 100"
definition MAX_PAGES :: nat where "MAX_PAGES = 120"
definition MIN_WINDOW_SECONDS :: int where "MIN_WINDOW_SECONDS = 150"
definition MAX_WINDOW_SECONDS :: int where "MAX_WINDOW_SECONDS = 600"
definition WINDOW_RECORD_BUDGET :: int where "WINDOW_RECORD_BUDGET = 800"
definition BACKFILL_SECONDS :: int where "BACKFILL_SECONDS = 900"
definition RETAIN_SECONDS :: int where "RETAIN_SECONDS = 1800"
definition PUBLISH_GUARD_SECONDS :: int where "PUBLISH_GUARD_SECONDS = 90"
definition CATCH_UP_SLACK_SECONDS :: int where "CATCH_UP_SLACK_SECONDS = 30"
definition STALE_SECONDS :: int where "STALE_SECONDS = 90"
definition MAX_EVENTS :: int where "MAX_EVENTS = 30000"

lemmas tail_limits = PAGE_SIZE_def MAX_PAGES_def MIN_WINDOW_SECONDS_def MAX_WINDOW_SECONDS_def WINDOW_RECORD_BUDGET_def
  BACKFILL_SECONDS_def RETAIN_SECONDS_def PUBLISH_GUARD_SECONDS_def CATCH_UP_SLACK_SECONDS_def STALE_SECONDS_def MAX_EVENTS_def

abbreviation seconds :: "int \<Rightarrow> int" where "seconds n \<equiv> n * 1000000"

record tail_event =
  te_id :: string
  te_start :: int
  te_node :: string
  te_database :: string
  te_table :: string
  te_operation :: string
  te_fingerprint :: string
  te_sql_id :: string
  te_duration :: int
  te_rows_examined :: int
  te_lock_time :: int
  te_account :: string

record tail_row =
  ar_id :: string
  ar_start :: int
  ar_node :: string
  ar_database :: string
  ar_fingerprint :: string
  ar_sql_id :: string
  ar_duration :: int
  ar_examined :: "int option"
  ar_lock :: "int option"
  ar_account :: string

text \<open>A zero cost is not reported.\<close>

definition reported :: "int \<Rightarrow> int option" where
  "reported n = (if n = 0 then None else Some n)"

definition analysis_row :: "tail_event \<Rightarrow> tail_row" where
  "analysis_row e = \<lparr>ar_id = te_id e, ar_start = te_start e, ar_node = te_node e, ar_database = te_database e,
     ar_fingerprint = te_fingerprint e, ar_sql_id = te_sql_id e, ar_duration = te_duration e,
     ar_examined = reported (te_rows_examined e), ar_lock = reported (te_lock_time e), ar_account = te_account e\<rparr>"

text \<open>The filters of a query, compared without case; a table may be one of the names of a join.\<close>

record scope =
  sc_node :: string
  sc_database :: string
  sc_table :: string
  sc_operation :: string

definition scope_matches :: "tail_event \<Rightarrow> scope \<Rightarrow> bool" where
  "scope_matches e q =
     (let node = strip (sc_node q); database = strip (sc_database q); table = strip (sc_table q); op = map upper_char (strip (sc_operation q))
      in if node \<noteq> [] \<and> te_node e \<noteq> node then False
         else if database \<noteq> [] \<and> lower_text (te_database e) \<noteq> lower_text database then False
         else if table \<noteq> [] \<and> (if CHR '','' \<notin> set table
                then lower_text table \<notin> set (map (\<lambda>p. lower_text (strip p)) (split_comma (te_table e)))
                else lower_text (te_table e) \<noteq> lower_text table) then False
         else op = [] \<or> te_operation e = op)"

record das_record =
  dr_stamp :: int
  dr_node :: string
  dr_body :: string

record das_page =
  dp_items :: "das_record list"
  dp_total :: nat
  dp_node :: string

section \<open>Reading a window\<close>

definition fill_node :: "string \<Rightarrow> das_record \<Rightarrow> das_record" where
  "fill_node response r = (let node = (if dr_node r \<noteq> [] then dr_node r else response)
     in if strip node \<noteq> [] then r\<lparr>dr_node := strip node\<rparr> else r)"

text \<open>Pages until one is short, the announced total is reached or the page cap cuts the answer.\<close>

function read_pages :: "string \<Rightarrow> (nat \<Rightarrow> 'e + das_page) \<Rightarrow> nat \<Rightarrow> das_record list \<Rightarrow> 'e + das_record list \<times> nat \<times> bool" where
  "read_pages node call page acc =
     (if MAX_PAGES < page then Inr (acc, page - 1, True)
      else case call page of Inl err \<Rightarrow> Inl err
        | Inr response \<Rightarrow>
            (let acc = acc @ map (fill_node (strip (if dp_node response \<noteq> [] then dp_node response else node))) (dp_items response)
             in if length (dp_items response) < PAGE_SIZE \<or> dp_total response \<le> length acc then Inr (acc, page, False)
                else read_pages node call (page + 1) acc))"
  by pat_completeness auto
termination
  by (relation "measure (\<lambda>(node, call, page, acc). MAX_PAGES + 1 - page)") auto

declare read_pages.simps [simp del]

text \<open>\<open>build_slow_events\<close>: the events of records whose id is neither held nor met before in the answer.\<close>

fun build_slow_events :: "(das_record \<Rightarrow> tail_event option) \<Rightarrow> string list \<Rightarrow> string list \<Rightarrow> das_record list \<Rightarrow> tail_event list" where
  "build_slow_events event_of seen observed [] = []"
| "build_slow_events event_of seen observed (r # rs) = (case event_of r of
       None \<Rightarrow> build_slow_events event_of seen observed rs
     | Some e \<Rightarrow> if te_id e \<in> set seen \<or> te_id e \<in> set observed then build_slow_events event_of seen (te_id e # observed) rs
         else e # build_slow_events event_of seen (te_id e # observed) rs)"

section \<open>The buffer of one node\<close>

record tail_profile =
  tp_sql_id :: string
  tp_first_seen :: int
  tp_last_seen :: int

record node_tail =
  nt_events :: "(string \<times> tail_event) list"
  nt_profiles :: "(string \<times> tail_profile) list"
  nt_references :: "(string \<times> int) list"
  nt_newest :: int
  nt_covered :: int
  nt_last_start :: int
  nt_last_end :: int
  nt_window :: int
  nt_scans :: nat
  nt_failures :: nat
  nt_streak :: nat
  nt_last_new :: nat
  nt_last_records :: nat
  nt_last_pages :: nat

definition empty_tail :: node_tail where
  "empty_tail = \<lparr>nt_events = [], nt_profiles = [], nt_references = [], nt_newest = 0, nt_covered = 0, nt_last_start = 0, nt_last_end = 0,
     nt_window = MIN_WINDOW_SECONDS, nt_scans = 0, nt_failures = 0, nt_streak = 0, nt_last_new = 0, nt_last_records = 0, nt_last_pages = 0\<rparr>"

definition references :: "node_tail \<Rightarrow> string \<Rightarrow> int" where
  "references N fp = (case map_of (nt_references N) fp of None \<Rightarrow> 0 | Some n \<Rightarrow> n)"

definition add_event :: "node_tail \<Rightarrow> tail_event \<Rightarrow> node_tail" where
  "add_event N e = (if te_fingerprint e = [] then N
     else N\<lparr>nt_events := AList.update (te_id e) e (nt_events N),
            nt_references := AList.update (te_fingerprint e) (references N (te_fingerprint e) + 1) (nt_references N),
            nt_newest := max (nt_newest N) (te_start e),
            nt_profiles := (case map_of (nt_profiles N) (te_fingerprint e) of
                None \<Rightarrow> AList.update (te_fingerprint e) \<lparr>tp_sql_id = te_sql_id e, tp_first_seen = te_start e, tp_last_seen = te_start e\<rparr> (nt_profiles N)
              | Some p \<Rightarrow> AList.update (te_fingerprint e) (p\<lparr>tp_last_seen := max (tp_last_seen p) (te_start e)\<rparr>) (nt_profiles N))\<rparr>)"

definition remove_event :: "node_tail \<Rightarrow> string \<Rightarrow> node_tail" where
  "remove_event N k = (case map_of (nt_events N) k of None \<Rightarrow> N
     | Some e \<Rightarrow>
         (let fp = te_fingerprint e; n = references N fp - 1; N = N\<lparr>nt_events := AList.delete k (nt_events N)\<rparr>
          in if n \<le> 0 then N\<lparr>nt_references := AList.delete fp (nt_references N), nt_profiles := AList.delete fp (nt_profiles N)\<rparr>
             else N\<lparr>nt_references := AList.update fp n (nt_references N)\<rparr>))"

text \<open>Events of before the cutoff and, past the limit, the oldest of the rest; the cutoff then moves past the dropped ones.\<close>

definition overflow_events :: "int \<Rightarrow> node_tail \<Rightarrow> tail_event list" where
  "overflow_events cutoff N =
     (let expired = filter (\<lambda>(k, e). te_start e < cutoff) (nt_events N)
      in take (nat (int (length (nt_events N)) - int (length expired) - MAX_EVENTS))
           (sort_key te_start (map snd (filter (\<lambda>(k, e). cutoff \<le> te_start e) (nt_events N)))))"

definition prune :: "int \<Rightarrow> node_tail \<Rightarrow> int \<times> node_tail" where
  "prune cutoff N =
     (let expired = map fst (filter (\<lambda>(k, e). te_start e < cutoff) (nt_events N)); dropped = overflow_events cutoff N;
          gone = expired @ map te_id dropped; M = foldl remove_event N gone
      in ((if dropped = [] then cutoff else max cutoff (te_start (last dropped) + 1)),
          (if gone = [] then M else M\<lparr>nt_newest := (if nt_events M = [] then 0 else Max (te_start ` snd ` set (nt_events M)))\<rparr>)))"

definition scan_window :: "int \<Rightarrow> node_tail \<Rightarrow> int" where
  "scan_window started N = (if nt_covered N = 0 then BACKFILL_SECONDS
     else min BACKFILL_SECONDS (max (nt_window N)
       (((if nt_last_start N = 0 then 0 else started - nt_last_start N) + seconds (PUBLISH_GUARD_SECONDS + CATCH_UP_SLACK_SECONDS)) div 1000000)))"

definition next_window :: "int \<Rightarrow> nat \<Rightarrow> int" where
  "next_window window records = min MAX_WINDOW_SECONDS (max MIN_WINDOW_SECONDS
     (if records = 0 then MAX_WINDOW_SECONDS else WINDOW_RECORD_BUDGET * max window 1 div int records))"

text \<open>How far back an answer reaches: to the start of the window, or to its oldest record when the page cap cut it.\<close>

definition reached :: "int \<Rightarrow> bool \<Rightarrow> das_record list \<Rightarrow> int" where
  "reached window_start capped records =
     (let stamps = map (\<lambda>r. dr_stamp r * 1000) (filter (\<lambda>r. 0 < dr_stamp r) records)
      in if capped then max window_start (if stamps = [] then window_start else Min (set stamps)) else window_start)"

definition continuous :: "int \<Rightarrow> int \<Rightarrow> int \<Rightarrow> bool \<Rightarrow> int \<Rightarrow> bool" where
  "continuous started previous window capped reached_us \<longleftrightarrow> previous \<noteq> 0 \<and> started - previous \<le> seconds (window - PUBLISH_GUARD_SECONDS)
     \<and> (\<not> capped \<or> reached_us \<le> previous - seconds PUBLISH_GUARD_SECONDS)"

definition scan :: "(das_record \<Rightarrow> tail_event option) \<Rightarrow> string \<Rightarrow> (int \<Rightarrow> int \<Rightarrow> nat \<Rightarrow> 'e + das_page) \<Rightarrow> int \<Rightarrow> int \<Rightarrow> node_tail
    \<Rightarrow> 'e + nat \<times> node_tail" where
  "scan event_of node client started ended N =
     (let window = scan_window started N; low = (started - seconds window) div 1000; high = started div 1000
      in case read_pages node (client low high) 1 [] of Inl err \<Rightarrow> Inl err
        | Inr (records, pages, capped) \<Rightarrow>
           (let events = build_slow_events event_of (map fst (nt_events N)) [] records;
                reached_us = reached (low * 1000) capped records;
                (cutoff, M) = prune (started - seconds RETAIN_SECONDS) (foldl add_event N events);
                covered = (if nt_covered N = 0 \<or> \<not> continuous started (nt_last_start N) window capped reached_us then reached_us else nt_covered N);
                added = length (filter (\<lambda>e. te_fingerprint e \<noteq> []) events)
            in Inr (added, M\<lparr>nt_covered := max covered cutoff, nt_last_start := started, nt_last_end := ended, nt_scans := nt_scans N + 1,
                 nt_streak := 0, nt_last_new := added, nt_last_records := length records, nt_last_pages := pages,
                 nt_window := next_window window (length records)\<rparr>)))"

definition note_failure :: "node_tail \<Rightarrow> node_tail" where
  "note_failure N = N\<lparr>nt_failures := nt_failures N + 1, nt_streak := nt_streak N + 1\<rparr>"

section \<open>What the analysis asks\<close>

record tail_view =
  tv_covered_from :: int
  tv_complete_through :: int
  tv_newest :: int
  tv_nodes :: nat
  tv_events :: nat

definition node_view :: "int \<Rightarrow> node_tail \<Rightarrow> tail_view option" where
  "node_view now N = (if nt_last_start N = 0 \<or> nt_covered N = 0 \<or> seconds STALE_SECONDS < now - nt_last_start N then None
     else Some \<lparr>tv_covered_from = nt_covered N, tv_complete_through = nt_last_start N - seconds PUBLISH_GUARD_SECONDS,
            tv_newest = nt_newest N, tv_nodes = 1, tv_events = length (nt_events N)\<rparr>)"

definition node_rows :: "int \<Rightarrow> int \<Rightarrow> scope \<Rightarrow> node_tail \<Rightarrow> tail_row list" where
  "node_rows lo hi q N = map analysis_row (filter (\<lambda>e. lo \<le> te_start e \<and> te_start e \<le> hi \<and> scope_matches e q) (map snd (nt_events N)))"

text \<open>The tails of one instance vouch for what all of them cover.\<close>

definition tails_view :: "int \<Rightarrow> node_tail list \<Rightarrow> tail_view option" where
  "tails_view now tails = (let views = map (node_view now) tails
     in if tails = [] \<or> None \<in> set views then None
        else (let vs = map the views in Some \<lparr>tv_covered_from = Max (set (map tv_covered_from vs)), tv_complete_through = Min (set (map tv_complete_through vs)),
               tv_newest = Max (set (map tv_newest vs)), tv_nodes = length vs, tv_events = sum_list (map tv_events vs)\<rparr>))"

definition tails_rows :: "int \<Rightarrow> int \<Rightarrow> scope \<Rightarrow> node_tail list \<Rightarrow> tail_row list" where
  "tails_rows lo hi q tails = concat (map (node_rows lo hi q) tails)"

definition tails_profile :: "string \<Rightarrow> node_tail list \<Rightarrow> tail_profile option" where
  "tails_profile fp tails = (case List.find (\<lambda>N. map_of (nt_profiles N) fp \<noteq> None) tails of None \<Rightarrow> None
     | Some N \<Rightarrow> map_of (nt_profiles N) fp)"

definition tails_event :: "string \<Rightarrow> node_tail list \<Rightarrow> tail_event option" where
  "tails_event k tails = (case List.find (\<lambda>N. map_of (nt_events N) k \<noteq> None) tails of None \<Rightarrow> None
     | Some N \<Rightarrow> map_of (nt_events N) k)"

section \<open>An answer of the service\<close>

text \<open>
  What DAS promises, as the module documents it: \<open>W\<close> holds every record with the time it was published, and the
  pages of one scan are the pages of one answer, newest first, with the records of the window published by then.
\<close>

definition das_answers :: "(das_record \<times> int) set \<Rightarrow> int \<Rightarrow> int \<Rightarrow> int \<Rightarrow> (nat \<Rightarrow> 'e + das_page) \<Rightarrow> bool" where
  "das_answers W now low high call \<longleftrightarrow> (\<exists>ans. sorted_wrt (\<lambda>r s. dr_stamp s \<le> dr_stamp r) ans \<and>
     set ans = {r. \<exists>p. (r, p) \<in> W \<and> low \<le> dr_stamp r \<and> dr_stamp r \<le> high \<and> p \<le> now} \<and>
     (\<forall>page. 1 \<le> page \<longrightarrow> (\<exists>nd. call page = Inr \<lparr>dp_items = take PAGE_SIZE (drop ((page - 1) * PAGE_SIZE) ans), dp_total = length ans, dp_node = nd\<rparr>)))"

text \<open>Every record names its node, events carry the time of their record and their id identifies them.\<close>

definition world_ok :: "(das_record \<Rightarrow> tail_event option) \<Rightarrow> (das_record \<times> int) set \<Rightarrow> bool" where
  "world_ok event_of W \<longleftrightarrow> (\<forall>r \<in> fst ` W. strip (dr_node r) = dr_node r \<and> dr_node r \<noteq> [] \<and>
     (\<forall>a. event_of r = Some a \<longrightarrow> 0 < dr_stamp r \<and> te_start a = dr_stamp r * 1000 \<and>
        (\<forall>s \<in> fst ` W. \<forall>b. event_of s = Some b \<and> te_id b = te_id a \<longrightarrow> b = a)))"

lemma fill_node_id: "strip (dr_node r) = dr_node r \<Longrightarrow> dr_node r \<noteq> [] \<Longrightarrow> fill_node nd r = r"
  by (simp add: fill_node_def Let_def)

lemma read_pages_snapshot:
  assumes fill: "\<And>r nd. r \<in> set ans \<Longrightarrow> fill_node nd r = r"
    and call: "\<forall>page. 1 \<le> page \<longrightarrow> (\<exists>nd. call page = Inr \<lparr>dp_items = take PAGE_SIZE (drop ((page - 1) * PAGE_SIZE) ans), dp_total = length ans, dp_node = nd\<rparr>)"
  shows "1 \<le> page \<Longrightarrow> page \<le> MAX_PAGES + 1 \<Longrightarrow> \<exists>pages. read_pages node call page (take ((page - 1) * PAGE_SIZE) ans)
    \<in> {Inr (ans, pages, False), Inr (take (MAX_PAGES * PAGE_SIZE) ans, pages, True)}"
proof (induction "MAX_PAGES + 1 - page" arbitrary: page)
  case 0
  then have "page = MAX_PAGES + 1" by simp
  then show ?case by (simp add: read_pages.simps [of node call "Suc MAX_PAGES"])
next
  case (Suc n)
  then have le: "page \<le> MAX_PAGES" by simp
  obtain nd where c: "call page = Inr \<lparr>dp_items = take PAGE_SIZE (drop ((page - 1) * PAGE_SIZE) ans), dp_total = length ans, dp_node = nd\<rparr>"
    using call Suc(3) by blast
  let ?items = "take PAGE_SIZE (drop ((page - 1) * PAGE_SIZE) ans)"
  have id: "map (fill_node m) ?items = ?items" for m
    by (rule map_idI) (metis fill in_set_takeD in_set_dropD)
  have next_page: "page * PAGE_SIZE = (page - 1) * PAGE_SIZE + PAGE_SIZE" using Suc(3) by (simp add: diff_mult_distrib PAGE_SIZE_def)
  have acc: "take ((page - 1) * PAGE_SIZE) ans @ ?items = take (page * PAGE_SIZE) ans" unfolding next_page by (simp add: take_add)
  have step: "read_pages node call page (take ((page - 1) * PAGE_SIZE) ans) =
      (if length ?items < PAGE_SIZE \<or> length ans \<le> length (take (page * PAGE_SIZE) ans) then Inr (take (page * PAGE_SIZE) ans, page, False)
       else read_pages node call (page + 1) (take (page * PAGE_SIZE) ans))"
    using le by (subst read_pages.simps) (simp only: c sum.case das_page.simps Let_def id acc, simp)
  show ?case
  proof (cases "length ?items < PAGE_SIZE \<or> length ans \<le> length (take (page * PAGE_SIZE) ans)")
    case True
    then have "length ans \<le> page * PAGE_SIZE" using next_page by auto
    then show ?thesis using True step by simp
  next
    case False
    have "\<exists>pages. read_pages node call (page + 1) (take ((page + 1 - 1) * PAGE_SIZE) ans)
        \<in> {Inr (ans, pages, False), Inr (take (MAX_PAGES * PAGE_SIZE) ans, pages, True)}"
      by (rule Suc(1)) (use Suc(2) le in linarith)+
    then show ?thesis using False step by simp
  qed
qed

lemma capped_reaches:
  assumes sorted: "sorted_wrt (\<lambda>r s. dr_stamp s \<le> dr_stamp r) ans" and r: "r \<in> set ans" "0 < dr_stamp r"
    and after: "reached lo True (take n ans) < dr_stamp r * 1000" "0 < n"
  shows "r \<in> set (take n ans)"
proof (rule ccontr)
  assume out: "r \<notin> set (take n ans)"
  then have "r \<in> set (drop n ans)" using r(1) by (metis UnE append_take_drop_id set_append)
  moreover have "sorted_wrt (\<lambda>r s. dr_stamp s \<le> dr_stamp r) (take n ans @ drop n ans)" using sorted by simp
  ultimately have le: "\<forall>s \<in> set (take n ans). dr_stamp r \<le> dr_stamp s" unfolding sorted_wrt_append by blast
  let ?stamps = "map (\<lambda>r. dr_stamp r * 1000) (filter (\<lambda>r. 0 < dr_stamp r) (take n ans))"
  have "take n ans \<noteq> []" using r(1) after(2) by auto
  then obtain s where "s \<in> set (take n ans)" by (metis hd_in_set)
  with le r(2) have "s \<in> set (filter (\<lambda>r. 0 < dr_stamp r) (take n ans))" by force
  then have ne: "?stamps \<noteq> []" by (auto simp: filter_empty_conv)
  then have "Min (set ?stamps) \<in> set ?stamps" by (metis List.finite_set Min_in set_empty)
  then have "dr_stamp r * 1000 \<le> Min (set ?stamps)" using le by auto
  then show False using after(1) ne by (simp add: reached_def Let_def)
qed

section \<open>The buffer after a scan\<close>

lemma build_sound:
  "e \<in> set (build_slow_events event_of seen obs rs) \<Longrightarrow> (\<exists>r \<in> set rs. event_of r = Some e) \<and> te_id e \<notin> set seen \<and> te_id e \<notin> set obs"
proof (induction rs arbitrary: obs)
  case (Cons r rs)
  then show ?case by (auto split: option.splits if_splits dest!: Cons.IH)
qed simp

lemma build_complete:
  "r \<in> set rs \<Longrightarrow> event_of r = Some a \<Longrightarrow> te_id a \<in> set seen \<union> set obs \<union> te_id ` set (build_slow_events event_of seen obs rs)"
proof (induction rs arbitrary: obs)
  case (Cons s rs)
  have "te_id a \<in> set seen \<union> set os \<union> te_id ` set (build_slow_events event_of seen os rs)" if "r \<in> set rs" for os
    using Cons.IH [OF that Cons.prems(2)] .
  from this [of obs] this [of "te_id (the (event_of s)) # obs"] show ?case
    using Cons.prems by (cases "s = r") (auto split: option.splits)
qed simp

lemma build_distinct: "distinct (map te_id (build_slow_events event_of seen obs rs))"
proof (induction rs arbitrary: obs)
  case (Cons r rs)
  then show ?case by (auto split: option.splits dest: build_sound)
qed simp

lemma add_event_at: "map_of (nt_events (add_event N e)) k = (if te_fingerprint e \<noteq> [] \<and> k = te_id e then Some e else map_of (nt_events N) k)"
  by (auto simp: add_event_def update_conv')

lemma add_events_at:
  assumes "map_of (nt_events N) k = Some a \<or> (a \<in> set es \<and> te_fingerprint a \<noteq> [] \<and> te_id a = k)" "\<forall>e \<in> set es. te_id e = k \<longrightarrow> e = a"
  shows "map_of (nt_events (foldl add_event N es)) k = Some a"
  using assms
proof (induction es arbitrary: N)
  case (Cons e es)
  show ?case unfolding foldl_Cons
    by (rule Cons.IH) (use Cons.prems in \<open>auto simp: add_event_at\<close>)
qed simp

lemma add_events_from: "map_of (nt_events (foldl add_event N es)) k = Some e \<Longrightarrow>
    map_of (nt_events N) k = Some e \<or> (e \<in> set es \<and> te_fingerprint e \<noteq> [] \<and> k = te_id e)"
proof (induction es arbitrary: N)
  case (Cons f es)
  then show ?case using Cons.IH [of "add_event N f"] by (auto simp: add_event_at split: if_splits)
qed simp

lemma add_event_distinct: "distinct (map fst (nt_events N)) \<Longrightarrow> distinct (map fst (nt_events (add_event N e)))"
  by (simp add: add_event_def distinct_update)

lemma remove_event_at:
  assumes "distinct (map fst (nt_events N))"
  shows "map_of (nt_events (remove_event N k)) = (map_of (nt_events N))(k := None)" "distinct (map fst (nt_events (remove_event N k)))"
  using assms by (auto simp: remove_event_def Let_def delete_conv' distinct_delete split: option.split)

lemma remove_events_at:
  assumes "distinct (map fst (nt_events N))"
  shows "map_of (nt_events (foldl remove_event N ks)) k = (if k \<in> set ks then None else map_of (nt_events N) k)
    \<and> distinct (map fst (nt_events (foldl remove_event N ks)))"
  using assms
proof (induction ks arbitrary: N)
  case (Cons j ks)
  then show ?case using remove_event_at [OF Cons.prems] Cons.IH [of "remove_event N j"] by simp
qed simp

lemma prune_keeps:
  assumes dist: "distinct (map fst (nt_events N))" and ids: "\<And>k e. map_of (nt_events N) k = Some e \<Longrightarrow> te_id e = k"
    and prune: "prune cutoff N = (c, M)"
  shows "cutoff \<le> c" "map_of (nt_events N) k = Some e \<Longrightarrow> c \<le> te_start e \<Longrightarrow> map_of (nt_events M) k = Some e"
    "map_of (nt_events M) k = Some e \<Longrightarrow> map_of (nt_events N) k = Some e" "distinct (map fst (nt_events M))"
proof -
  let ?expired = "map fst (filter (\<lambda>(k, e). te_start e < cutoff) (nt_events N))"
  let ?dropped = "overflow_events cutoff N"
  have c: "c = (if ?dropped = [] then cutoff else max cutoff (te_start (last ?dropped) + 1))"
    and M: "nt_events M = nt_events (foldl remove_event N (?expired @ map te_id ?dropped))"
    using prune by (auto simp: prune_def Let_def split: if_splits)
  show le: "cutoff \<le> c" by (simp add: c)
  have at: "map_of (nt_events M) k = (if k \<in> set (?expired @ map te_id ?dropped) then None else map_of (nt_events N) k)"
    and "distinct (map fst (nt_events M))" for k
    using remove_events_at [OF dist] unfolding M by blast+
  then show "distinct (map fst (nt_events M))" "map_of (nt_events M) k = Some e \<Longrightarrow> map_of (nt_events N) k = Some e"
    by (auto split: if_splits)
  assume e: "map_of (nt_events N) k = Some e" "c \<le> te_start e"
  have "k \<notin> set ?expired"
  proof
    assume "k \<in> set ?expired"
    then obtain e' where "(k, e') \<in> set (nt_events N)" "te_start e' < cutoff" by auto
    then show False using e le dist by auto
  qed
  moreover have "k \<notin> set (map te_id ?dropped)"
  proof
    assume "k \<in> set (map te_id ?dropped)"
    then obtain d where d: "d \<in> set ?dropped" "te_id d = k" by auto
    then obtain k' where k': "(k', d) \<in> set (nt_events N)" by (auto simp: overflow_events_def Let_def dest!: in_set_takeD)
    then have "k' = k" using ids dist d(2) by fastforce
    then have "d = e" using e(1) k' eq_key_imp_eq_value [OF dist] map_of_SomeD by fast
    moreover have "te_start d \<le> te_start (last ?dropped)"
    proof -
      have "sorted (map te_start ?dropped)" unfolding overflow_events_def Let_def by (simp add: take_map [symmetric] sorted_wrt_take)
      moreover have "?dropped \<noteq> []" using d(1) by auto
      then have "?dropped = butlast ?dropped @ [last ?dropped]" by simp
      ultimately have "\<forall>x \<in> set (butlast ?dropped). te_start x \<le> te_start (last ?dropped)"
        by (metis (no_types, lifting) list.simps(9) map_append image_eqI list.set_map list.set_intros(1) sorted_append)
      then show ?thesis using d(1) \<open>?dropped \<noteq> []\<close>
        by (metis Un_iff append_butlast_last_id empty_iff empty_set order_refl set_ConsD set_append)
    qed
    moreover have "te_start (last ?dropped) < c" using d(1) by (auto simp: c)
    ultimately show False using e(2) by simp
  qed
  ultimately show "map_of (nt_events M) k = Some e" using at e(1) by simp
qed

section \<open>The tail of a node as a step system\<close>

inductive tail_step :: "(das_record \<Rightarrow> tail_event option) \<Rightarrow> string \<Rightarrow> (das_record \<times> int) set \<Rightarrow> node_tail \<Rightarrow> node_tail \<Rightarrow> bool"
  for event_of node W where
  scanned: "nt_last_start N < started \<Longrightarrow> seconds RETAIN_SECONDS < started \<Longrightarrow>
    (\<And>low high. das_answers W started low high (client low high)) \<Longrightarrow> scan event_of node client started ended N = (Inr (n, M) :: string + nat \<times> node_tail) \<Longrightarrow>
    tail_step event_of node W N M"
| failed: "tail_step event_of node W N (note_failure N)"

definition prompt :: "tail_event \<Rightarrow> int \<Rightarrow> bool" where
  "prompt a p \<longleftrightarrow> te_start a \<le> p \<and> p \<le> te_start a + seconds PUBLISH_GUARD_SECONDS"

definition tail_ok :: "(das_record \<Rightarrow> tail_event option) \<Rightarrow> (das_record \<times> int) set \<Rightarrow> node_tail \<Rightarrow> bool" where
  "tail_ok event_of W N \<longleftrightarrow> distinct (map fst (nt_events N)) \<and>
     (\<forall>k e. map_of (nt_events N) k = Some e \<longrightarrow> te_id e = k \<and> te_fingerprint e \<noteq> [] \<and> (\<exists>r \<in> fst ` W. event_of r = Some e)) \<and>
     (nt_last_start N \<noteq> 0 \<longrightarrow> 0 < nt_covered N \<and> (\<forall>r p a. (r, p) \<in> W \<and> event_of r = Some a \<and> te_fingerprint a \<noteq> [] \<and> prompt a p \<and>
        p \<le> nt_last_start N \<and> nt_covered N < te_start a \<longrightarrow> map_of (nt_events N) (te_id a) = Some a))"

lemma das_answersD:
  assumes answers: "das_answers W now low high call" and world: "world_ok event_of W"
  obtains records pages capped where "read_pages node call 1 [] = Inr (records, pages, capped)"
    "set records \<subseteq> fst ` W"
    "\<And>r p a. (r, p) \<in> W \<Longrightarrow> event_of r = Some a \<Longrightarrow> p \<le> now \<Longrightarrow> low \<le> dr_stamp r \<Longrightarrow> dr_stamp r \<le> high \<Longrightarrow>
      reached (low * 1000) capped records < te_start a \<or> \<not> capped \<Longrightarrow> r \<in> set records"
proof -
  obtain ans where sorted: "sorted_wrt (\<lambda>r s. dr_stamp s \<le> dr_stamp r) ans"
    and ans: "set ans = {r. \<exists>p. (r, p) \<in> W \<and> low \<le> dr_stamp r \<and> dr_stamp r \<le> high \<and> p \<le> now}"
    and call: "\<forall>page. 1 \<le> page \<longrightarrow> (\<exists>nd. call page = Inr \<lparr>dp_items = take PAGE_SIZE (drop ((page - 1) * PAGE_SIZE) ans), dp_total = length ans, dp_node = nd\<rparr>)"
    using answers unfolding das_answers_def by blast
  have sub: "set ans \<subseteq> fst ` W" using ans by force
  have fill: "fill_node nd r = r" if "r \<in> set ans" for r nd
    using sub that world by (intro fill_node_id) (auto simp: world_ok_def)
  have whole: "r \<in> set ans" "0 < dr_stamp r" "te_start a = dr_stamp r * 1000"
    if "(r, p) \<in> W" "event_of r = Some a" "p \<le> now" "low \<le> dr_stamp r" "dr_stamp r \<le> high" for r p a
    using that ans world by (fastforce simp: world_ok_def)+
  obtain pages where "read_pages node call 1 [] = Inr (ans, pages, False) \<or> read_pages node call 1 [] = Inr (take (MAX_PAGES * PAGE_SIZE) ans, pages, True)"
    using read_pages_snapshot [OF fill call, where page = 1 and node = node] by auto
  then show thesis
  proof
    assume full: "read_pages node call 1 [] = Inr (ans, pages, False)"
    show thesis by (rule that [OF full sub]) (rule whole(1))
  next
    assume cut: "read_pages node call 1 [] = Inr (take (MAX_PAGES * PAGE_SIZE) ans, pages, True)"
    show thesis
    proof (rule that [OF cut])
      show "set (take (MAX_PAGES * PAGE_SIZE) ans) \<subseteq> fst ` W" using sub set_take_subset by fastforce
      fix r p a
      assume r: "(r, p) \<in> W" "event_of r = Some a" "p \<le> now" "low \<le> dr_stamp r" "dr_stamp r \<le> high"
        and after: "reached (low * 1000) True (take (MAX_PAGES * PAGE_SIZE) ans) < te_start a \<or> \<not> True"
      show "r \<in> set (take (MAX_PAGES * PAGE_SIZE) ans)"
        by (rule capped_reaches [OF sorted, where lo = "low * 1000"]) (use whole [OF r] after in \<open>simp_all add: tail_limits\<close>)
    qed
  qed
qed

lemma scan_ok:
  assumes ok: "tail_ok event_of W N" and world: "world_ok event_of W"
    and time: "nt_last_start N < started" "seconds RETAIN_SECONDS < started"
    and client: "\<And>low high. das_answers W started low high (client low high)"
    and scan: "scan event_of node client started ended N = Inr (n, M)"
  shows "tail_ok event_of W M"
proof -
  obtain window where window: "window = scan_window started N" by simp
  obtain low where low: "low = (started - seconds window) div 1000" by simp
  obtain high where high: "high = started div 1000" by simp
  obtain records pages capped where read: "read_pages node (client low high) 1 [] = Inr (records, pages, capped)"
    and sub: "set records \<subseteq> fst ` W"
    and complete: "\<And>r p a. (r, p) \<in> W \<Longrightarrow> event_of r = Some a \<Longrightarrow> p \<le> started \<Longrightarrow> low \<le> dr_stamp r \<Longrightarrow> dr_stamp r \<le> high \<Longrightarrow>
      reached (low * 1000) capped records < te_start a \<or> \<not> capped \<Longrightarrow> r \<in> set records"
    using das_answersD [OF client world] by metis
  obtain es where es: "es = build_slow_events event_of (map fst (nt_events N)) [] records" by simp
  obtain r_us where r_us: "r_us = reached (low * 1000) capped records" by simp
  obtain c P where prune: "prune (started - seconds RETAIN_SECONDS) (foldl add_event N es) = (c, P)" by fastforce
  obtain cov where cov: "cov = (if nt_covered N = 0 \<or> \<not> continuous started (nt_last_start N) window capped r_us then r_us else nt_covered N)" by simp
  have M: "nt_events M = nt_events P" "nt_covered M = max cov c" "nt_last_start M = started"
    using scan unfolding scan_def Let_def window [symmetric] low [symmetric] high [symmetric] read sum.case prod.case
      es [symmetric] r_us [symmetric] prune cov [symmetric] by auto
  let ?A = "foldl add_event N es"
  have old: "map_of (nt_events N) k = Some e \<Longrightarrow> te_id e = k \<and> te_fingerprint e \<noteq> [] \<and> (\<exists>r \<in> fst ` W. event_of r = Some e)" for k e
    using ok unfolding tail_ok_def by blast
  have new: "\<exists>r \<in> fst ` W. event_of r = Some e" if "e \<in> set es" for e
    using build_sound that sub unfolding es by fastforce
  have same: "b = a" if "\<exists>r \<in> fst ` W. event_of r = Some a" "\<exists>r \<in> fst ` W. event_of r = Some b" "te_id b = te_id a" for a b
    using world that unfolding world_ok_def by metis
  have "distinct (map fst (nt_events ?A))"
    using ok by (intro foldl_inv [where P = "\<lambda>N. distinct (map fst (nt_events N))"]) (auto simp: tail_ok_def add_event_distinct)
  moreover have addA: "te_id e = k \<and> te_fingerprint e \<noteq> [] \<and> (\<exists>r \<in> fst ` W. event_of r = Some e)" if "map_of (nt_events ?A) k = Some e" for k e
    using add_events_from [OF that] old new by blast
  ultimately have keeps: "started - seconds RETAIN_SECONDS \<le> c"
    "map_of (nt_events ?A) k = Some e \<Longrightarrow> c \<le> te_start e \<Longrightarrow> map_of (nt_events M) k = Some e"
    "map_of (nt_events M) k = Some e \<Longrightarrow> map_of (nt_events ?A) k = Some e" "distinct (map fst (nt_events M))" for k e
    using prune_keeps [OF _ _ prune] unfolding M by blast+
  have present: "map_of (nt_events ?A) (te_id a) = Some a"
    if a: "(r, p) \<in> W" "event_of r = Some a" "te_fingerprint a \<noteq> []" and or: "r \<in> set records \<or> map_of (nt_events N) (te_id a) = Some a" for r p a
  proof (rule add_events_at)
    have world_a: "\<exists>r \<in> fst ` W. event_of r = Some a" using a by force
    show "\<forall>e \<in> set es. te_id e = te_id a \<longrightarrow> e = a" using same [OF world_a] new by blast
    show "map_of (nt_events N) (te_id a) = Some a \<or> a \<in> set es \<and> te_fingerprint a \<noteq> [] \<and> te_id a = te_id a"
    proof (cases "te_id a \<in> set (map fst (nt_events N))")
      case True
      then obtain e where e: "map_of (nt_events N) (te_id a) = Some e" by (metis list.set_map map_of_eq_None_iff not_None_eq)
      then have "e = a" using old [OF e] same [OF world_a] by blast
      then show ?thesis using e by simp
    next
      case False
      then have "map_of (nt_events N) (te_id a) = None" by (simp add: map_of_eq_None_iff)
      then have "r \<in> set records" using or by simp
      from build_complete [where event_of = event_of, OF this a(2), where seen = "map fst (nt_events N)" and obs = "[]"] False
      obtain e where e: "e \<in> set es" "te_id e = te_id a" unfolding es by auto
      then have "e = a" using same [OF world_a new] by blast
      then show ?thesis using e a(3) by simp
    qed
  qed
  have inwindow: "low \<le> dr_stamp r \<and> dr_stamp r \<le> high" if "te_start a = dr_stamp r * 1000" "started - seconds window \<le> te_start a" "te_start a \<le> started" for r a
    using that unfolding low high by linarith
  have stamp: "te_start a = dr_stamp r * 1000" if "(r, p) \<in> W" "event_of r = Some a" for r p a
    using world that unfolding world_ok_def by force
  have vouched: "map_of (nt_events M) (te_id a) = Some a"
    if a: "(r, p) \<in> W" "event_of r = Some a" "te_fingerprint a \<noteq> []" "prompt a p" "p \<le> started" "max cov c < te_start a" for r p a
  proof -
    have le: "te_start a \<le> started" "p \<le> te_start a + seconds PUBLISH_GUARD_SECONDS" using a(4,5) by (auto simp: prompt_def)
    have "r \<in> set records \<or> map_of (nt_events N) (te_id a) = Some a"
    proof (cases "nt_covered N = 0 \<or> \<not> continuous started (nt_last_start N) window capped r_us")
      case True
      then have r_a: "r_us < te_start a" using a(6) by (simp add: cov)
      moreover have "low * 1000 \<le> r_us" by (simp add: r_us reached_def Let_def)
      ultimately have "low \<le> dr_stamp r" "dr_stamp r \<le> high"
        using stamp [OF a(1,2)] le(1) unfolding high by linarith+
      then show ?thesis using complete [OF a(1,2,5)] r_a by (simp add: r_us)
    next
      case False
      then have prev: "nt_last_start N \<noteq> 0" "started - nt_last_start N \<le> seconds (window - PUBLISH_GUARD_SECONDS)"
        "\<not> capped \<or> r_us \<le> nt_last_start N - seconds PUBLISH_GUARD_SECONDS" by (auto simp: continuous_def)
      show ?thesis
      proof (cases "p \<le> nt_last_start N")
        case True
        then show ?thesis using ok a(1-4,6) prev(1) False unfolding tail_ok_def cov by auto
      next
        case late: False
        then have "nt_last_start N - seconds PUBLISH_GUARD_SECONDS < te_start a" using le(2) by linarith
        moreover from this have "reached (low * 1000) capped records < te_start a \<or> \<not> capped"
          using prev(3) by (cases capped) (simp_all add: r_us)
        moreover from calculation have "started - seconds window \<le> te_start a" using prev(2) by (simp add: left_diff_distrib)
        ultimately show ?thesis
          using complete [OF a(1,2,5)] inwindow [OF stamp [OF a(1,2)] _ le(1)] by blast
      qed
    qed
    from present [OF a(1-3) this] show ?thesis using keeps(2) a(6) by simp
  qed
  show ?thesis unfolding tail_ok_def
  proof (intro conjI allI impI)
    show "0 < nt_covered M" using keeps(1) time(2) by (simp add: M(2))
  next
    fix r p a
    assume "(r, p) \<in> W \<and> event_of r = Some a \<and> te_fingerprint a \<noteq> [] \<and> prompt a p \<and> p \<le> nt_last_start M \<and> nt_covered M < te_start a"
    then show "map_of (nt_events M) (te_id a) = Some a" using vouched unfolding M(2,3) by blast
  qed (use addA keeps(3,4) in blast)+
qed

lemma tail_step_ok:
  assumes "tail_step event_of node W N M" "world_ok event_of W \<and> tail_ok event_of W N"
  shows "world_ok event_of W \<and> tail_ok event_of W M"
  using assms
proof cases
  case (scanned started client ended n)
  then show ?thesis using scan_ok assms(2) by blast
next
  case failed
  have "nt_events M = nt_events N" "nt_last_start M = nt_last_start N" "nt_covered M = nt_covered N"
    by (simp_all add: failed note_failure_def)
  then have "tail_ok event_of W M = tail_ok event_of W N" unfolding tail_ok_def by (simp only:)
  then show ?thesis using assms(2) by simp
qed

interpretation tail: transition_system "tail_step event_of node W" "\<lambda>N. world_ok event_of W \<and> tail_ok event_of W N" for event_of node W
  by unfold_locales (rule tail_step_ok)

lemma vouched_event:
  assumes "(tail_step event_of node W)\<^sup>*\<^sup>* empty_tail N" "world_ok event_of W" "node_view now N = Some v"
    and "(r, p) \<in> W" "event_of r = Some a" "te_fingerprint a \<noteq> []" "te_start a \<le> p" "p \<le> te_start a + seconds PUBLISH_GUARD_SECONDS"
    and "tv_covered_from v < te_start a" "te_start a \<le> tv_complete_through v"
  shows "map_of (nt_events N) (te_id a) = Some a"
proof -
  have "tail_ok event_of W empty_tail" by (simp add: tail_ok_def empty_tail_def)
  then have ok: "tail_ok event_of W N" using tail.reachable_inv [OF assms(1)] assms(2) by blast
  have v: "nt_last_start N \<noteq> 0" "tv_covered_from v = nt_covered N" "tv_complete_through v = nt_last_start N - seconds PUBLISH_GUARD_SECONDS"
    using assms(3) by (auto simp: node_view_def split: if_splits)
  then have "p \<le> nt_last_start N" using assms(8,10) by linarith
  then show ?thesis using ok assms(4-9) v(1,2) unfolding tail_ok_def prompt_def by auto
qed

lemma event_row:
  assumes "map_of (nt_events N) k = Some a" "lo \<le> te_start a" "te_start a \<le> hi" "scope_matches a q"
  shows "analysis_row a \<in> set (node_rows lo hi q N)"
proof -
  have "a \<in> snd ` set (nt_events N)" using assms(1) by (force dest: map_of_SomeD)
  then show ?thesis using assms(2-4) by (auto simp: node_rows_def)
qed

text \<open>
  Property C20. What the live tail vouches for it holds: after any scans and failures, a statement that was
  published within the guard of its start, started after the buffer's coverage begins and before it is complete, is
  one of the rows the analysis reads, whatever pauses, page caps and evictions happened.
\<close>

theorem tail_vouches:
  assumes "(tail_step event_of node W)\<^sup>*\<^sup>* empty_tail N" "world_ok event_of W" "node_view now N = Some v"
    and "(r, p) \<in> W" "event_of r = Some a" "te_fingerprint a \<noteq> []" "te_start a \<le> p" "p \<le> te_start a + seconds PUBLISH_GUARD_SECONDS"
    and "tv_covered_from v < te_start a" "te_start a \<le> tv_complete_through v" "scope_matches a q"
  shows "analysis_row a \<in> set (node_rows (tv_covered_from v) (tv_complete_through v) q N)"
  using event_row [OF vouched_event [OF assms(1-10)]] assms(9-11) by simp

text \<open>One statement, published fifty seconds after its start and read by one scan fifty seconds later.\<close>

definition sample_event :: tail_event where
  "sample_event = \<lparr>te_id = ''slow-1'', te_start = 2000000000000, te_node = ''n'', te_database = ''shop'', te_table = ''orders'', te_operation = ''SELECT'',
     te_fingerprint = ''fp'', te_sql_id = ''s'', te_duration = 1200, te_rows_examined = 5, te_lock_time = 0, te_account = ''app''\<rparr>"

definition sample_record :: das_record where
  "sample_record = \<lparr>dr_stamp = 2000000000, dr_node = ''n'', dr_body = ''select''\<rparr>"

definition sample_client :: "int \<Rightarrow> int \<Rightarrow> nat \<Rightarrow> string + das_page" where
  "sample_client low high page = (let ans = filter (\<lambda>r. low \<le> dr_stamp r \<and> dr_stamp r \<le> high) [sample_record]
     in Inr \<lparr>dp_items = take PAGE_SIZE (drop ((page - 1) * PAGE_SIZE) ans), dp_total = length ans, dp_node = ''n''\<rparr>)"

definition sample_scan :: node_tail where
  "sample_scan = (case scan (\<lambda>r. Some sample_event) ''n'' sample_client 2000150000000 2000151000000 empty_tail of Inr (n, M) \<Rightarrow> M)"

lemma sample_world: "world_ok (\<lambda>r. Some sample_event) {(sample_record, 2000050000000)}"
  by (simp add: world_ok_def sample_record_def sample_event_def strip_def blank_def)

lemma sample_reached: "tail_step (\<lambda>r. Some sample_event) ''n'' {(sample_record, 2000050000000)} empty_tail sample_scan"
proof (rule scanned)
  show "nt_last_start empty_tail < 2000150000000" "seconds RETAIN_SECONDS < 2000150000000"
    by (simp_all add: empty_tail_def tail_limits)
  show "das_answers {(sample_record, 2000050000000)} 2000150000000 low high (sample_client low high)" for low high
    unfolding das_answers_def
    by (rule exI [of _ "filter (\<lambda>r. low \<le> dr_stamp r \<and> dr_stamp r \<le> high) [sample_record]"]) (auto simp: sample_client_def Let_def)
  show "scan (\<lambda>r. Some sample_event) ''n'' sample_client 2000150000000 2000151000000 empty_tail = Inr (1, sample_scan)"
    by code_simp
qed

theorem tail_vouches_witness:
  "analysis_row sample_event \<in> set (node_rows 1999250000000 2000060000000 \<lparr>sc_node = [], sc_database = ''SHOP'', sc_table = ''orders'', sc_operation = ''select''\<rparr> sample_scan)"
proof -
  have steps: "(tail_step (\<lambda>r. Some sample_event) ''n'' {(sample_record, 2000050000000)})\<^sup>*\<^sup>* empty_tail sample_scan"
    using sample_reached by (rule r_into_rtranclp)
  have view: "node_view 2000160000000 sample_scan =
      Some \<lparr>tv_covered_from = 1999250000000, tv_complete_through = 2000060000000, tv_newest = 2000000000000, tv_nodes = 1, tv_events = 1\<rparr>"
    by code_simp
  have matches: "scope_matches sample_event \<lparr>sc_node = [], sc_database = ''SHOP'', sc_table = ''orders'', sc_operation = ''select''\<rparr>"
    by code_simp
  show ?thesis
    using tail_vouches [OF steps sample_world view _ _ _ _ _ _ _ matches]
    by (simp add: sample_event_def tail_limits)
qed

text \<open>The view of an instance is the intersection of the views of its nodes.\<close>

lemma tails_view_narrows:
  assumes "tails_view now tails = Some v" "N \<in> set tails"
  shows "\<exists>w. node_view now N = Some w \<and> tv_covered_from w \<le> tv_covered_from v \<and> tv_complete_through v \<le> tv_complete_through w"
proof -
  have some: "None \<notin> node_view now ` set tails" using assms(1) by (auto simp: tails_view_def Let_def split: if_splits)
  then obtain w where w: "node_view now N = Some w" using assms(2) by (metis image_eqI not_None_eq)
  then have "w \<in> set (map the (map (node_view now) tails))" using assms(2) by force
  then show ?thesis using w assms(1)
    by (auto simp: tails_view_def Let_def split: if_splits intro!: Max_ge Min_le)
qed

section \<open>Profiles of the held statements\<close>

definition held :: "string \<Rightarrow> node_tail \<Rightarrow> int" where
  "held fp N = count_where (\<lambda>(k, e). te_fingerprint e = fp) (nt_events N)"

definition profiles_ok :: "node_tail \<Rightarrow> bool" where
  "profiles_ok N \<longleftrightarrow> distinct (map fst (nt_events N)) \<and> (\<forall>fp. references N fp = held fp N \<and> (map_of (nt_profiles N) fp = None \<longleftrightarrow> held fp N = 0)) \<and>
     (\<forall>(k, e) \<in> set (nt_events N). te_fingerprint e \<noteq> []) \<and> distinct (map fst (nt_references N)) \<and> distinct (map fst (nt_profiles N))"

lemma update_fresh: "k \<notin> fst ` set xs \<Longrightarrow> AList.update k v xs = xs @ [(k, v)]"
  by (induction xs) auto

lemma add_event_profiles:
  assumes ok: "profiles_ok N" and fresh: "te_id e \<notin> fst ` set (nt_events N)"
  shows "profiles_ok (add_event N e)"
proof (cases "te_fingerprint e = []")
  case True
  then show ?thesis using ok by (simp add: add_event_def)
next
  case False
  let ?N = "add_event N e"
  have events: "nt_events ?N = nt_events N @ [(te_id e, e)]" using False fresh by (simp add: add_event_def update_fresh)
  have refs: "references ?N fp = references N fp + (if fp = te_fingerprint e then 1 else 0)" for fp
    using False by (simp add: add_event_def references_def update_conv')
  have held: "held fp ?N = held fp N + (if fp = te_fingerprint e then 1 else 0)" for fp by (auto simp: held_def events)
  have nonneg: "0 \<le> held fp N" for fp by (simp add: held_def)
  have prof: "map_of (nt_profiles ?N) = (map_of (nt_profiles N))(te_fingerprint e \<mapsto>
      the (map_of (nt_profiles ?N) (te_fingerprint e)))"
    using False by (auto simp: add_event_def update_conv' split: option.split)
  have old: "map_of (nt_profiles N) fp = None \<longleftrightarrow> held fp N = 0" for fp using ok unfolding profiles_ok_def by blast
  have "map_of (nt_profiles ?N) fp = None \<longleftrightarrow> held fp ?N = 0" for fp
  proof (cases "fp = te_fingerprint e")
    case True
    have "map_of (nt_profiles ?N) fp \<noteq> None" unfolding True by (subst prof) simp
    moreover have "held fp ?N \<noteq> 0" using held [of fp] nonneg [of fp] True by simp
    ultimately show ?thesis by blast
  next
    case other: False
    have "map_of (nt_profiles ?N) fp = map_of (nt_profiles N) fp" by (subst prof) (simp add: other)
    then show ?thesis using old held [of fp] other by simp
  qed
  moreover have "distinct (map fst (nt_references ?N))" "distinct (map fst (nt_profiles ?N))"
    using ok False by (auto simp: profiles_ok_def add_event_def distinct_update split: option.split)
  ultimately show ?thesis using ok fresh refs held False by (auto simp: profiles_ok_def events)
qed

lemma count_delete:
  "distinct (map fst xs) \<Longrightarrow> map_of xs k = Some e \<Longrightarrow>
   count_where (\<lambda>(k, e). P e) (AList.delete k xs) = count_where (\<lambda>(k, e). P e) xs - (if P e then 1 else 0)"
proof (induction xs)
  case (Cons x xs)
  obtain j f where x: "x = (j, f)" by (cases x)
  show ?case
  proof (cases "j = k")
    case True
    then have "AList.delete k xs = xs" using Cons.prems(1) x by (intro delete_id) simp
    then show ?thesis using True Cons.prems(2) x by simp
  next
    case False
    then show ?thesis using Cons x by simp
  qed
qed simp

lemma remove_event_profiles:
  assumes ok: "profiles_ok N"
  shows "profiles_ok (remove_event N k)"
proof (cases "map_of (nt_events N) k")
  case None
  then show ?thesis using ok by (simp add: remove_event_def)
next
  case (Some e)
  let ?N = "remove_event N k" and ?fp = "te_fingerprint e"
  have events: "nt_events ?N = AList.delete k (nt_events N)" using Some by (simp add: remove_event_def Let_def)
  have held: "held fp ?N = held fp N - (if ?fp = fp then 1 else 0)" for fp
    using count_delete [OF _ Some] ok by (simp add: held_def events profiles_ok_def)
  have pos: "0 \<le> held fp ?N" for fp by (simp add: held_def)
  have refs: "references N fp = held fp N" for fp using ok by (simp add: profiles_ok_def)
  have old: "map_of (nt_profiles N) fp = None \<longleftrightarrow> held fp N = 0" for fp using ok unfolding profiles_ok_def by blast
  obtain n where n: "n = references N ?fp - 1" by simp
  have n': "n = held ?fp ?N" using refs [of ?fp] held [of ?fp] by (simp add: n)
  have rN: "nt_references ?N = (if n \<le> 0 then AList.delete ?fp (nt_references N) else AList.update ?fp n (nt_references N))"
    "nt_profiles ?N = (if n \<le> 0 then AList.delete ?fp (nt_profiles N) else nt_profiles N)"
    using Some by (simp_all add: remove_event_def Let_def n references_def)
  have "references ?N fp = (if fp = ?fp then (if n \<le> 0 then 0 else n) else references N fp)" for fp
    unfolding references_def rN by (simp add: delete_conv' update_conv')
  then have r: "references ?N fp = held fp ?N" for fp using pos [of ?fp] n' held [of fp] refs [of fp] by auto
  have "map_of (nt_profiles ?N) fp = (if fp = ?fp \<and> n \<le> 0 then None else map_of (nt_profiles N) fp)" for fp
    unfolding rN by (simp add: delete_conv')
  then have p: "map_of (nt_profiles ?N) fp = None \<longleftrightarrow> held fp ?N = 0" for fp
    using pos [of ?fp] n' held [of fp] held [of ?fp] old [of fp] old [of ?fp] by auto
  have "distinct (map fst (nt_references ?N))" "distinct (map fst (nt_profiles ?N))"
    using ok Some by (auto simp: profiles_ok_def remove_event_def Let_def distinct_delete distinct_update)
  moreover have "set (AList.delete k (nt_events N)) \<subseteq> set (nt_events N)" by (auto simp: AList.delete_eq)
  ultimately show ?thesis using ok r p by (auto simp: profiles_ok_def events distinct_delete)
qed

lemma fold_profiles:
  assumes "profiles_ok N" "distinct (map te_id es)" "\<forall>e \<in> set es. te_id e \<notin> fst ` set (nt_events N)"
  shows "profiles_ok (foldl add_event N es)"
  using assms
proof (induction es arbitrary: N)
  case (Cons e es)
  have sub: "fst ` set (nt_events (add_event N e)) \<subseteq> insert (te_id e) (fst ` set (nt_events N))"
    by (auto simp add: add_event_def dom_update)
  have ok: "profiles_ok (add_event N e)" by (rule add_event_profiles [OF Cons.prems(1)]) (use Cons.prems(3) in simp)
  have "te_id e \<notin> te_id ` set es" "distinct (map te_id es)" using Cons.prems(2) by simp_all
  moreover have "te_id f \<notin> fst ` set (nt_events (add_event N e))" if "f \<in> set es" "te_id e \<notin> te_id ` set es" for f
  proof -
    have "te_id f \<noteq> te_id e" using that by (metis imageI)
    moreover have "te_id f \<notin> fst ` set (nt_events N)" using Cons.prems(3) that(1) by (meson list.set_intros(2))
    ultimately show ?thesis using sub by blast
  qed
  ultimately have "profiles_ok (foldl add_event (add_event N e) es)" using Cons.IH [OF ok] by blast
  then show ?case by simp
qed simp

lemma prune_removes:
  assumes "prune cutoff N = (c, P)"
  obtains ks n where "P = (foldl remove_event N ks)\<lparr>nt_newest := n\<rparr>"
proof -
  obtain gone where gone: "gone = map fst (filter (\<lambda>(k, e). te_start e < cutoff) (nt_events N)) @ map te_id (overflow_events cutoff N)"
    by simp
  have "P = (if gone = [] then foldl remove_event N gone
      else (foldl remove_event N gone)\<lparr>nt_newest := (if nt_events (foldl remove_event N gone) = [] then 0
        else Max (te_start ` snd ` set (nt_events (foldl remove_event N gone))))\<rparr>)"
    using assms unfolding prune_def Let_def gone [symmetric] by simp
  moreover have "foldl remove_event N gone = (foldl remove_event N gone)\<lparr>nt_newest := nt_newest (foldl remove_event N gone)\<rparr>" by simp
  ultimately show thesis using that by metis
qed

lemma scan_profiles:
  assumes ok: "profiles_ok N" and scan: "scan event_of node client started ended N = Inr (n, M)"
  shows "profiles_ok M"
proof -
  obtain rs pages capped where read: "read_pages node (client ((started - seconds (scan_window started N)) div 1000) (started div 1000)) 1 []
      = Inr (rs, pages, capped)"
    using scan unfolding scan_def Let_def by (auto split: sum.splits)
  obtain es where es: "es = build_slow_events event_of (map fst (nt_events N)) [] rs" by simp
  obtain c' P where prune: "prune (started - seconds RETAIN_SECONDS) (foldl add_event N es) = (c', P)" by fastforce
  have M: "nt_events M = nt_events P" "nt_profiles M = nt_profiles P" "nt_references M = nt_references P"
    using scan unfolding scan_def Let_def read sum.case prod.case es [symmetric] prune by auto
  have "\<forall>e \<in> set es. te_id e \<notin> set (map fst (nt_events N))" unfolding es using build_sound by blast
  then have "\<forall>e \<in> set es. te_id e \<notin> fst ` set (nt_events N)" "distinct (map te_id es)"
    by (simp_all add: es build_distinct)
  then have "profiles_ok (foldl add_event N es)" using fold_profiles [OF ok] by blast
  then have "profiles_ok (foldl remove_event (foldl add_event N es) ks)" for ks
    by (rule foldl_inv) (rule remove_event_profiles)
  moreover obtain ks n' where "P = (foldl remove_event (foldl add_event N es) ks)\<lparr>nt_newest := n'\<rparr>"
    using prune_removes [OF prune] by blast
  ultimately show ?thesis by (simp add: profiles_ok_def M references_def held_def)
qed

text \<open>
  The tail keeps a profile exactly for the fingerprints of the statements it holds, whatever was evicted.
\<close>

theorem profiles_follow_events:
  assumes "(tail_step event_of node W)\<^sup>*\<^sup>* empty_tail N"
  shows "map_of (nt_profiles N) fp \<noteq> None \<longleftrightarrow> (\<exists>e \<in> snd ` set (nt_events N). te_fingerprint e = fp)"
proof -
  have "profiles_ok empty_tail" by (simp add: profiles_ok_def empty_tail_def references_def held_def)
  with assms have "profiles_ok N"
  proof (induction rule: rtranclp_induct)
    case (step M M')
    from step(2) show ?case
    proof cases
      case failed
      then show ?thesis using step(3,4) by (simp add: profiles_ok_def note_failure_def references_def held_def)
    qed (use scan_profiles step(3,4) in blast)
  qed simp
  then have "map_of (nt_profiles N) fp = None \<longleftrightarrow> held fp N = 0" unfolding profiles_ok_def by blast
  moreover have "held fp N = 0 \<longleftrightarrow> \<not> (\<exists>e \<in> snd ` set (nt_events N). te_fingerprint e = fp)"
    unfolding held_def count_where_zero_iff by fastforce
  ultimately show ?thesis by argo
qed

end
