(* ===== verification/SlowLogWindow.thy ===== *)
theory SlowLogWindow
  imports Manifest Spans WindowAlign SlowLogTail
begin

text \<open>
  The window a resource analysis of the slow log reads: \<open>app/slowlog_impact_service.py\<close> with the part listing of
  \<open>app/metadata.py\<close> (\<open>parts_in_range\<close>) and the cached manifest coverage of \<open>app/clickhouse_slowlog.py\<close>. The window
  asked for is completed by the live tail, cut back to the indexed edge or moved to the nearest indexed one. Times are
  microseconds, spans are closed. One analysis reads the clock once in the model. The metrics, the ranking and the
  SQL that reads ClickHouse are left out; the rows ClickHouse returns are a parameter.
\<close>

section \<open>Listing the parts of a window\<close>

text \<open>A row of \<open>parquet_parts\<close> joined with its source file.\<close>

record listed_part =
  lp_part :: source_part
  lp_batch :: string
  lp_name :: string
  lp_host :: string
  lp_instance :: string
  lp_visible :: bool

abbreviation lp_min :: "listed_part \<Rightarrow> int" where "lp_min p \<equiv> int_or_zero (sp_min_event_epoch_us (lp_part p))"
abbreviation lp_max :: "listed_part \<Rightarrow> int" where "lp_max p \<equiv> int_or_zero (sp_max_event_epoch_us (lp_part p))"
abbreviation lp_path :: "listed_part \<Rightarrow> string" where "lp_path p \<equiv> sp_path (lp_part p)"
abbreviation lp_identity :: "listed_part \<Rightarrow> string" where "lp_identity p \<equiv> part_identity (lp_part p)"

definition SLOW_LOG_HOST_INSTANCE_ID :: string where "SLOW_LOG_HOST_INSTANCE_ID = ''slow-log''"
definition SLOW_LOG_FILE_PREFIX :: string where "SLOW_LOG_FILE_PREFIX = ''slow-log/''"
definition AUDIT_FILE_PREFIX :: string where "AUDIT_FILE_PREFIX = ''tabularis-audit-''"
definition PARTS_LIMIT :: nat where "PARTS_LIMIT = 1000000"

text \<open>\<open>name LIKE 'prefix%'\<close> for a prefix without wildcards.\<close>

definition like_prefix :: "string \<Rightarrow> string \<Rightarrow> bool" where
  "like_prefix prefix name \<longleftrightarrow> map ascii_lower (take (length prefix) name) = map ascii_lower prefix"

definition source_clause :: "string \<Rightarrow> listed_part \<Rightarrow> bool" where
  "source_clause source p =
     (let s = lower_text (strip source)
      in if s = ''audit'' then like_prefix AUDIT_FILE_PREFIX (lp_name p)
         else if s = ''slowlog'' then lp_host p = SLOW_LOG_HOST_INSTANCE_ID \<and> like_prefix SLOW_LOG_FILE_PREFIX (lp_name p)
         else if s = ''binlog'' then \<not> like_prefix AUDIT_FILE_PREFIX (lp_name p) \<and> \<not> like_prefix SLOW_LOG_FILE_PREFIX (lp_name p)
         else if s = ''database'' then \<not> like_prefix AUDIT_FILE_PREFIX (lp_name p)
         else True)"

definition instance_clause :: "string \<Rightarrow> listed_part \<Rightarrow> bool" where
  "instance_clause inst p \<longleftrightarrow> strip inst = [] \<or> lp_instance p = strip inst"

definition batch_clause :: "string list option \<Rightarrow> listed_part \<Rightarrow> bool" where
  "batch_clause ids p = (case ids of None \<Rightarrow> True
     | Some [] \<Rightarrow> \<not> like_prefix ''mysql-bin.'' (lp_name p)
     | Some ids \<Rightarrow> lp_batch p \<in> set ids)"

definition parts_in_range :: "listed_part list \<Rightarrow> int \<Rightarrow> int \<Rightarrow> nat \<Rightarrow> string \<Rightarrow> string \<Rightarrow> string list option \<Rightarrow> listed_part list" where
  "parts_in_range T lo hi limit source inst ids =
     take limit (sort_key (\<lambda>p. (lp_min p, lp_max p, lp_path p))
       (filter (\<lambda>p. lo \<le> lp_max p \<and> lp_min p \<le> hi \<and> lp_visible p \<and> source_clause source p \<and> instance_clause inst p \<and> batch_clause ids p) T))"

section \<open>The coverage of a listing\<close>

text \<open>The answer of the manifest is kept for two seconds for the same paths and identities.\<close>

definition COVERAGE_CACHE_US :: int where "COVERAGE_CACHE_US = 2000000"

record coverage_cache =
  cc_key :: "(string \<times> string) list"
  cc_value :: "part_coverage option"
  cc_expires :: int

definition coverage_key :: "source_part list \<Rightarrow> (string \<times> string) list" where
  "coverage_key parts = map (\<lambda>p. (sp_path p, part_identity p)) (filter (\<lambda>p. part_identity p \<noteq> []) parts)"

definition manifest_coverage :: "int \<Rightarrow> int \<Rightarrow> source_part list \<Rightarrow> manifest \<Rightarrow> coverage_cache \<Rightarrow> part_coverage \<times> coverage_cache" where
  "manifest_coverage now later parts m cache =
     (let key = coverage_key parts
      in case (if key = cc_key cache \<and> now < cc_expires cache then cc_value cache else None) of
        Some v \<Rightarrow> (v, cache)
      | None \<Rightarrow> (coverage parts m, \<lparr>cc_key = key, cc_value = Some (coverage parts m), cc_expires = later + COVERAGE_CACHE_US\<rparr>))"

section \<open>Indexed time\<close>

definition PERIOD_US :: int where "PERIOD_US = 60000000"
definition IMPACT_DAY_US :: int where "IMPACT_DAY_US = 86400 * 1000000"
definition REACH_US :: int where "REACH_US = 6 * 3600 * 1000000"
definition MIN_TRUNCATED_US :: int where "MIN_TRUNCATED_US = 6 * PERIOD_US"
definition FRESHNESS_WINDOW_US :: int where "FRESHNESS_WINDOW_US = 30 * PERIOD_US"

definition touches :: "(int \<times> int) list \<Rightarrow> int \<Rightarrow> int \<Rightarrow> bool" where
  "touches merged low high = (let n = bisect_right (map fst merged) high in 0 < n \<and> low \<le> snd (merged ! (n - 1)))"

record index_spans =
  ix_ready :: "(int \<times> int) list"
  ix_blocked :: "(int \<times> int) list"
  ix_first :: "int option"
  ix_last :: "int option"

type_synonym coverage_of = "source_part list \<Rightarrow> part_coverage"

definition slow_parts :: "listed_part list \<Rightarrow> string \<Rightarrow> int \<Rightarrow> int \<Rightarrow> listed_part list" where
  "slow_parts T inst low high = parts_in_range T low high PARTS_LIMIT ''slowlog'' inst None"

definition index_map :: "coverage_of \<Rightarrow> listed_part list \<Rightarrow> string \<Rightarrow> int \<Rightarrow> int \<Rightarrow> index_spans option" where
  "index_map cov T inst low high =
     (let parts = slow_parts T inst low high; found = cov (map lp_part parts)
      in if pc_completed_at_us found = 0 then None
         else (let known = filter (\<lambda>p. lp_identity p \<noteq> []) parts;
                   span = (\<lambda>p. (lp_min p, lp_max p));
                   blocked = map span (filter (\<lambda>p. lp_path p \<in> set (pc_missing_parts found)) known);
                   ready = map span (filter (\<lambda>p. lp_path p \<notin> set (pc_missing_parts found)) known)
               in Some \<lparr>ix_ready = merge_spans 0 ready, ix_blocked = merge_spans 0 blocked,
                    ix_first = (if ready = [] then None else Some (Min (fst ` set ready))),
                    ix_last = (if ready = [] then None else Some (Max (snd ` set ready)))\<rparr>))"

definition indexed :: "index_spans \<Rightarrow> int \<Rightarrow> int \<Rightarrow> bool" where
  "indexed ix low high = (case (ix_first ix, ix_last ix) of (Some first, Some latest) \<Rightarrow>
       first \<le> low \<and> high \<le> latest \<and> touches (ix_ready ix) low high \<and> \<not> touches (ix_blocked ix) low high
     | _ \<Rightarrow> False)"

definition nearest_indexed_window :: "coverage_of \<Rightarrow> listed_part list \<Rightarrow> string \<Rightarrow> int \<Rightarrow> int \<Rightarrow> int \<Rightarrow> int \<Rightarrow> (int \<times> int) option" where
  "nearest_indexed_window cov T inst now retention start stop =
     (let len = stop - start;
          lowest = max (start - REACH_US) (now - (max retention 1 - 1) * IMPACT_DAY_US);
          highest = min (start + REACH_US) (now - len)
      in if highest < lowest then None
         else case (index_map cov T inst lowest (highest + len), index_map cov T inst (lowest - IMPACT_DAY_US) (highest + len - IMPACT_DAY_US)) of
           (Some current, Some baseline) \<Rightarrow>
             map_option (\<lambda>low. (low, low + len))
               (List.find (\<lambda>low. lowest \<le> low \<and> low \<le> highest \<and> indexed current low (low + len)
                    \<and> indexed baseline (low - IMPACT_DAY_US) (low + len - IMPACT_DAY_US))
                 (shift_candidates start PERIOD_US REACH_US))
         | _ \<Rightarrow> None)"

text \<open>The loop over the waiting spans: the first one the prefix would touch ends it, or nothing is left.\<close>

fun blocked_limit :: "int \<Rightarrow> int \<Rightarrow> (int \<times> int) list \<Rightarrow> int option" where
  "blocked_limit start limit [] = Some limit"
| "blocked_limit start limit ((low, high) # spans) =
     (if high < start then blocked_limit start limit spans
      else if limit < low then Some limit
      else if low \<le> start then None
      else Some (low - 1))"

definition truncate_to_ready :: "coverage_of \<Rightarrow> listed_part list \<Rightarrow> string \<Rightarrow> int \<Rightarrow> int \<Rightarrow> int \<Rightarrow> int option" where
  "truncate_to_ready cov T inst start stop min_span = (case index_map cov T inst start stop of
       None \<Rightarrow> None
     | Some ix \<Rightarrow> (case (ix_first ix, ix_last ix) of
           (Some first, Some latest) \<Rightarrow>
             if start < first then None
             else (case blocked_limit start (min stop latest) (ix_blocked ix) of
                 None \<Rightarrow> None
               | Some limit \<Rightarrow> (let cut = limit div PERIOD_US * PERIOD_US in if min_span \<le> cut - start then Some cut else None))
         | _ \<Rightarrow> None))"

definition ready_through :: "coverage_of \<Rightarrow> listed_part list \<Rightarrow> string \<Rightarrow> int \<Rightarrow> int \<Rightarrow> int option" where
  "ready_through cov T inst stop now = (if stop < now - FRESHNESS_WINDOW_US then None
     else case index_map cov T inst (stop - FRESHNESS_WINDOW_US) now of None \<Rightarrow> None | Some ix \<Rightarrow> ix_last ix)"

section \<open>The window of an analysis\<close>

definition query_window :: "int \<Rightarrow> int \<Rightarrow> int option \<Rightarrow> int option \<Rightarrow> (int \<times> int) option" where
  "query_window now retention start stop =
     (let cutoff = now - max retention 1 * IMPACT_DAY_US; lo = max (or_else start cutoff) cutoff; hi = min (or_else stop now) now
      in if hi < lo then None else Some (lo, hi))"

definition usable :: "part_coverage option \<Rightarrow> bool" where
  "usable found = (case found of None \<Rightarrow> False | Some c \<Rightarrow> pc_complete c \<and> pc_total_parts c \<noteq> 0)"

text \<open>The coverage of a window and of its day-before baseline, nothing where that lies outside retention.\<close>

definition index_state :: "coverage_of \<Rightarrow> listed_part list \<Rightarrow> string \<Rightarrow> int \<Rightarrow> int \<Rightarrow> int \<Rightarrow> int \<Rightarrow> part_coverage \<times> part_coverage option" where
  "index_state cov T inst now retention low high =
     (let found = cov (map lp_part (slow_parts T inst low high)); before = (low - IMPACT_DAY_US, high - IMPACT_DAY_US)
      in if query_window now retention (Some (fst before)) (Some (snd before)) \<noteq> Some before then (found, None)
         else (found, Some (cov (map lp_part (slow_parts T inst (fst before) (snd before))))))"

record tail_use =
  tp_end :: int
  tp_covered_from :: int
  tp_newest :: int
  tp_pending :: nat
  tp_coverage :: part_coverage
  tp_baseline :: "part_coverage option"

definition tail_plan :: "coverage_of \<Rightarrow> listed_part list \<Rightarrow> string \<Rightarrow> int \<Rightarrow> int \<Rightarrow> int \<Rightarrow> int \<Rightarrow> tail_view option \<Rightarrow> tail_use option" where
  "tail_plan cov T inst now retention start stop view = (case view of None \<Rightarrow> None | Some v \<Rightarrow>
     if stop < now - FRESHNESS_WINDOW_US then None
     else (let cut = min stop (tv_complete_through v) div PERIOD_US * PERIOD_US
       in if cut - start < MIN_TRUNCATED_US then None
          else (case index_map cov T inst start cut of None \<Rightarrow> None | Some ix \<Rightarrow>
            if start < tv_covered_from v \<and> (case ix_first ix of None \<Rightarrow> True | Some first \<Rightarrow> start < first) then None
            else if list_ex (\<lambda>(low, high). start \<le> high \<and> max low start < tv_covered_from v) (ix_blocked ix) then None
            else (case index_state cov T inst now retention start cut of (found, base) \<Rightarrow>
              if pc_total_parts found = 0 \<or> (base \<noteq> None \<and> \<not> usable base) then None
              else Some \<lparr>tp_end = cut, tp_covered_from = tv_covered_from v, tp_newest = tv_newest v, tp_pending = length (pc_missing_parts found),
                     tp_coverage = found\<lparr>pc_complete := True\<rparr>, tp_baseline = base\<rparr>))))"

datatype window_error = InvalidWindow | OverlappingBaseline | IncompleteIndex | IncompleteBaseline

record chosen_window =
  cw_start :: int
  cw_end :: int
  cw_tail :: "tail_use option"
  cw_adjusted :: "adjusted option"

definition choose_window :: "coverage_of \<Rightarrow> listed_part list \<Rightarrow> string \<Rightarrow> int \<Rightarrow> int \<Rightarrow> int option \<Rightarrow> int option \<Rightarrow> tail_view option
    \<Rightarrow> window_error + chosen_window" where
  "choose_window cov T inst now retention qs qe view = (case query_window now retention qs qe of None \<Rightarrow> Inl InvalidWindow
     | Some (start, requested) \<Rightarrow>
        if IMPACT_DAY_US \<le> requested - start then Inl OverlappingBaseline
        else (let plan = (if now - FRESHNESS_WINDOW_US \<le> requested then tail_plan cov T inst now retention start requested view else None);
                  (found, base) = (case plan of None \<Rightarrow> index_state cov T inst now retention start requested | Some t \<Rightarrow> (tp_coverage t, tp_baseline t));
                  stop = (case plan of None \<Rightarrow> requested | Some t \<Rightarrow> tp_end t);
                  adjusted = (if stop < requested then adjusted_payload (Truncated start stop) start requested else None)
              in if usable (Some found) \<and> (base = None \<or> usable base)
                 then Inr \<lparr>cw_start = start, cw_end = stop, cw_tail = plan, cw_adjusted = adjusted\<rparr>
                 else (let reason = (if usable (Some found) then IncompleteBaseline else IncompleteIndex);
                           cut = (if usable (Some found) then None else truncate_to_ready cov T inst start stop MIN_TRUNCATED_US);
                           confirmed = (case cut of None \<Rightarrow> None | Some c \<Rightarrow>
                             (case index_state cov T inst now retention start c of (f, b) \<Rightarrow>
                                if usable (Some f) \<and> (b = None \<or> usable b) then Some c else None));
                           adjusted = (case confirmed of None \<Rightarrow> adjusted | Some c \<Rightarrow> adjusted_payload (Truncated start c) start stop);
                           stop' = (case confirmed of None \<Rightarrow> stop | Some c \<Rightarrow> c)
                       in if adjusted \<noteq> None then Inr \<lparr>cw_start = start, cw_end = stop', cw_tail = plan, cw_adjusted = adjusted\<rparr>
                          else (case nearest_indexed_window cov T inst now retention start stop' of None \<Rightarrow> Inl reason
                            | Some (s, e) \<Rightarrow> (case index_state cov T inst now retention s e of (f, b) \<Rightarrow>
                                if \<not> usable (Some f) \<or> \<not> usable b then Inl reason
                                else Inr \<lparr>cw_start = s, cw_end = e, cw_tail = plan, cw_adjusted = adjusted_payload (Shifted s e) start stop\<rparr>)))))"

text \<open>The rows of the answer: those of ClickHouse, and those of the tail it does not have.\<close>

definition analysis_rows :: "tail_row list \<Rightarrow> node_tail list \<Rightarrow> chosen_window \<Rightarrow> scope \<Rightarrow> tail_row list" where
  "analysis_rows found tails w q = (case cw_tail w of None \<Rightarrow> found
     | Some t \<Rightarrow> found @ filter (\<lambda>r. ar_id r \<notin> ar_id ` set found) (tails_rows (max (cw_start w) (tp_covered_from t)) (cw_end w) q tails))"

section \<open>Spans that meet a window\<close>

definition meets :: "(int \<times> int) list \<Rightarrow> int \<Rightarrow> int \<Rightarrow> bool" where
  "meets ss low high \<longleftrightarrow> (\<exists>(l, h) \<in> set ss. l \<le> high \<and> low \<le> h)"

lemma meets_point: "proper ss \<Longrightarrow> low \<le> high \<Longrightarrow> meets ss low high \<longleftrightarrow> (\<exists>x. low \<le> x \<and> x \<le> high \<and> meets ss x x)"
proof
  assume p: "proper ss" "low \<le> high" "meets ss low high"
  then obtain l h where lh: "(l, h) \<in> set ss" "l \<le> high" "low \<le> h" "l \<le> h" by (force simp: meets_def proper_def)
  then have "low \<le> max l low" "max l low \<le> high" "meets ss (max l low) (max l low)" using p(2)
    by (auto simp: meets_def intro!: bexI [of _ "(l, h)"])
  then show "\<exists>x. low \<le> x \<and> x \<le> high \<and> meets ss x x" by blast
qed (auto simp: meets_def intro: order_trans)

lemma merge_step_meets:
  assumes "merged \<noteq> [] \<Longrightarrow> fst (last merged) \<le> lo \<and> fst (last merged) \<le> snd (last merged)" "lo \<le> hi"
  shows "meets (merge_step 0 merged (lo, hi)) x x \<longleftrightarrow> meets merged x x \<or> (lo \<le> x \<and> x \<le> hi)"
proof (cases "merged \<noteq> [] \<and> lo \<le> snd (last merged)")
  case True
  then obtain ms a b where m: "merged = ms @ [(a, b)]" by (metis append_butlast_last_id surj_pair)
  have "a \<le> lo" "lo \<le> b" using assms(1) True m by auto
  then have "(a \<le> x \<and> x \<le> max b hi) \<longleftrightarrow> (a \<le> x \<and> x \<le> b) \<or> (lo \<le> x \<and> x \<le> hi)" by auto
  then show ?thesis using True by (auto simp: merge_step_def meets_def m)
next
  case False
  then have "merge_step 0 merged (lo, hi) = merged @ [(lo, hi)]" by (auto simp: merge_step_def)
  then show ?thesis by (auto simp: meets_def)
qed

lemma merge_fold_meets:
  assumes "sorted ts" "proper ts"
  shows "meets (foldl (merge_step 0) [] ts) x x \<longleftrightarrow> meets ts x x"
  using assms
proof (induction ts rule: rev_induct)
  case (snoc t ts)
  obtain lo hi where t: "t = (lo, hi)" by (cases t)
  have s: "sorted ts" "\<forall>s \<in> set ts. s \<le> (lo, hi)" "proper ts" "lo \<le> hi" using snoc.prems by (auto simp: sorted_append t)
  let ?m = "foldl (merge_step 0) [] ts"
  have inv: "merge_inv 0 ts ?m" by (rule merge_fold_inv) (use s in simp_all)
  have "fst (last ?m) \<le> lo \<and> fst (last ?m) \<le> snd (last ?m)" if "?m \<noteq> []"
  proof -
    have "fst (last ?m) \<in> fst ` set ts" using inv that by (force simp: merge_inv_def)
    then have "fst (last ?m) \<le> lo" using s(2) by (auto simp: less_eq_prod_def)
    moreover have "fst (last ?m) \<le> snd (last ?m)"
      using inv last_in_set [OF that] by (auto simp: merge_inv_def runs_def proper_def)
    ultimately show ?thesis by simp
  qed
  from merge_step_meets [OF this s(4)] snoc.IH [OF s(1,3)] show ?case by (auto simp: t meets_def)
qed (simp add: meets_def)

lemma merge_meets:
  assumes "proper ss" "low \<le> high"
  shows "meets (merge_spans 0 ss) low high \<longleftrightarrow> meets ss low high"
proof -
  have p: "proper (merge_spans 0 ss)" using merge_spans_runs [of 0 ss] assms(1) by (simp add: runs_def)
  have "meets (merge_spans 0 ss) x x \<longleftrightarrow> meets ss x x" for x
    using merge_fold_meets [of "sort ss" x] assms(1) by (simp add: merge_spans_def meets_def proper_def)
  then show ?thesis using meets_point [OF p assms(2)] meets_point [OF assms] by simp
qed

lemma bisect_right_split:
  assumes "sorted (xs :: int list)"
  shows "i < length xs \<Longrightarrow> xs ! i \<le> x \<longleftrightarrow> i < bisect_right xs x"
  using assms
proof (induction xs arbitrary: i)
  case (Cons y ys)
  show ?case
  proof (cases "y \<le> x")
    case True
    then show ?thesis using Cons by (cases i) (auto simp: bisect_right_def)
  next
    case False
    have "y \<le> (y # ys) ! i" using Cons.prems by (cases i) auto
    then show ?thesis using False by (simp add: bisect_right_def)
  qed
qed simp

lemma touches_meets:
  assumes "runs 0 m"
  shows "touches m low high \<longleftrightarrow> meets m low high"
proof -
  have apart: "i < j \<Longrightarrow> j < length m \<Longrightarrow> snd (m ! i) < fst (m ! j)" for i j
    using assms by (auto simp: runs_def sorted_wrt_iff_nth_less)
  have ord: "i < length m \<Longrightarrow> fst (m ! i) \<le> snd (m ! i)" for i
    using assms nth_mem [of i m] by (auto simp: runs_def proper_def simp del: nth_mem)
  have sorted: "sorted (map fst m)"
    unfolding sorted_iff_nth_mono_less using apart ord by (auto) (metis le_less_trans less_imp_le less_trans)
  let ?n = "bisect_right (map fst m) high"
  have at: "fst (m ! i) \<le> high \<longleftrightarrow> i < ?n" if "i < length m" for i
    using bisect_right_split [OF sorted, of i high] that by simp
  have n: "?n \<le> length m" by (simp add: bisect_right_def) (metis length_map length_takeWhile_le)
  show ?thesis
  proof
    assume "touches m low high"
    then have "0 < ?n" "low \<le> snd (m ! (?n - 1))" by (simp_all add: touches_def Let_def)
    moreover from this have "m ! (?n - 1) \<in> set m" "fst (m ! (?n - 1)) \<le> high" using n at by simp_all
    ultimately show "meets m low high" unfolding meets_def by (metis (mono_tags, lifting) case_prod_beta)
  next
    assume "meets m low high"
    then obtain i where i: "i < length m" "fst (m ! i) \<le> high" "low \<le> snd (m ! i)"
      unfolding meets_def by (metis (no_types, lifting) case_prodE fst_conv in_set_conv_nth snd_conv)
    then have "i < ?n" using at by simp
    have "snd (m ! i) \<le> snd (m ! (?n - 1))"
    proof (cases "i = ?n - 1")
      case False
      then have "snd (m ! i) < fst (m ! (?n - 1))" using \<open>i < ?n\<close> n by (intro apart) simp_all
      also have "\<dots> \<le> snd (m ! (?n - 1))" using \<open>i < ?n\<close> n by (intro ord) simp
      finally show ?thesis by simp
    qed simp
    then show "touches m low high" using \<open>i < ?n\<close> i(3) by (simp add: touches_def Let_def)
  qed
qed

lemma touches_merge: "proper ss \<Longrightarrow> low \<le> high \<Longrightarrow> touches (merge_spans 0 ss) low high \<longleftrightarrow> meets ss low high"
  using touches_meets [OF merge_spans_runs] merge_meets by simp


section \<open>The listing and the manifest\<close>

definition slow_part :: "string \<Rightarrow> listed_part \<Rightarrow> bool" where
  "slow_part inst p \<longleftrightarrow> lp_visible p \<and> source_clause ''slowlog'' p \<and> instance_clause inst p"

definition listing_ok :: "listed_part list \<Rightarrow> manifest \<Rightarrow> bool" where
  "listing_ok T m \<longleftrightarrow> manifest_ok m \<and> distinct (map lp_path T) \<and> length T \<le> PARTS_LIMIT \<and> (\<forall>p \<in> set T. lp_min p \<le> lp_max p)"

definition waiting :: "manifest \<Rightarrow> listed_part \<Rightarrow> bool" where
  "waiting m p \<longleftrightarrow> lp_identity p \<noteq> [] \<and> \<not> part_servable (clickhouse_parts m) (lp_path p, lp_identity p)"

lemma slow_parts_set:
  assumes "listing_ok T m"
  shows "set (slow_parts T inst low high) = {p \<in> set T. low \<le> lp_max p \<and> lp_min p \<le> high \<and> slow_part inst p}"
    and "distinct (map lp_path (slow_parts T inst low high))"
proof -
  let ?F = "filter (\<lambda>p. low \<le> lp_max p \<and> lp_min p \<le> high \<and> lp_visible p \<and> source_clause ''slowlog'' p \<and> instance_clause inst p
    \<and> batch_clause None p) T"
  let ?S = "sort_key (\<lambda>p. (lp_min p, lp_max p, lp_path p)) ?F"
  have "length ?S \<le> PARTS_LIMIT" using assms length_filter_le le_trans unfolding listing_ok_def length_sort by blast
  then have eq: "slow_parts T inst low high = ?S" by (simp add: slow_parts_def parts_in_range_def)
  show "set (slow_parts T inst low high) = {p \<in> set T. low \<le> lp_max p \<and> lp_min p \<le> high \<and> slow_part inst p}"
    unfolding eq by (auto simp: slow_part_def batch_clause_def)
  have "distinct (map lp_path ?F)" using assms by (simp add: listing_ok_def distinct_map_filter)
  then show "distinct (map lp_path (slow_parts T inst low high))" unfolding eq by (simp add: distinct_map)
qed

lemma expected_parts_key: "distinct (map sp_path parts) \<Longrightarrow> expected_parts parts = coverage_key parts"
proof (induction parts rule: rev_induct)
  case (snoc p parts)
  have e: "expected_parts (parts @ [p]) = (if part_identity p \<noteq> [] then AList.update (sp_path p) (part_identity p) (expected_parts parts) else expected_parts parts)"
    by (simp add: expected_parts_def)
  have "expected_parts parts = coverage_key parts" using snoc by simp
  moreover have "sp_path p \<notin> fst ` set (coverage_key parts)" using snoc.prems by (auto simp: coverage_key_def)
  ultimately show ?case unfolding e by (simp add: update_fresh coverage_key_def)
qed (simp add: expected_parts_def coverage_key_def)

lemma missing_iff:
  assumes "manifest_ok m" "distinct (map lp_path ps)" "p \<in> set ps" "lp_identity p \<noteq> []"
  shows "lp_path p \<in> set (pc_missing_parts (coverage (map lp_part ps) m)) \<longleftrightarrow> waiting m p"
proof -
  have key: "expected_parts (map lp_part ps) = coverage_key (map lp_part ps)"
    using assms(2) by (intro expected_parts_key) (simp add: comp_def)
  have same: "q = p" if "q \<in> set ps" "lp_path q = lp_path p" for q
    using distinct_key_unique [of lp_path ps q p] assms(2,3) that by simp
  have keys: "(path, i) \<in> set (coverage_key (map lp_part ps)) \<longleftrightarrow> (\<exists>q \<in> set ps. lp_identity q \<noteq> [] \<and> path = lp_path q \<and> i = lp_identity q)" for path i
    by (auto simp: coverage_key_def)
  have fst: "path \<in> set (map fst (filter P xs)) \<longleftrightarrow> (\<exists>i. (path, i) \<in> set xs \<and> P (path, i))" for path P and xs :: "(string \<times> string) list"
    by force
  have "lp_path p \<in> set (pc_missing_parts (coverage (map lp_part ps) m)) \<longleftrightarrow>
      (\<exists>q \<in> set ps. lp_identity q \<noteq> [] \<and> \<not> part_servable (clickhouse_parts m) (lp_path q, lp_identity q) \<and> lp_path q = lp_path p)"
    unfolding coverage_facts(1) [OF assms(1)] key fst keys by metis
  then show ?thesis using same assms(3,4) unfolding waiting_def by blast
qed

lemma usable_ready:
  assumes "listing_ok T m" "usable (Some (coverage (map lp_part (slow_parts T inst low high)) m))" "p \<in> set (slow_parts T inst low high)"
  shows "\<not> waiting m p"
proof
  assume w: "waiting m p"
  let ?ps = "slow_parts T inst low high"
  have m: "manifest_ok m" using assms(1) by (simp add: listing_ok_def)
  have "lp_path p \<in> set (pc_missing_parts (coverage (map lp_part ?ps) m))"
    using missing_iff [OF m slow_parts_set(2) [OF assms(1)] assms(3)] w by (auto simp: waiting_def)
  moreover have "pc_missing_parts (coverage (map lp_part ?ps) m) = []"
    using assms(2) by (simp add: usable_def coverage_def Let_def split: prod.splits)
  ultimately show False by simp
qed

lemma index_map_blocked:
  assumes ok: "listing_ok T m" and ix: "index_map (\<lambda>ps. coverage ps m) T inst low high = Some ix" and le: "a \<le> b"
  shows "meets (ix_blocked ix) a b \<longleftrightarrow> (\<exists>p \<in> set (slow_parts T inst low high). waiting m p \<and> lp_min p \<le> b \<and> a \<le> lp_max p)"
    and "runs 0 (ix_blocked ix)"
proof -
  let ?ps = "slow_parts T inst low high"
  obtain missing where missing: "missing = set (pc_missing_parts (coverage (map lp_part ?ps) m))" by simp
  obtain waits where waits: "waits = filter (\<lambda>p. lp_path p \<in> missing) (filter (\<lambda>p. lp_identity p \<noteq> []) ?ps)" by simp
  have blocked: "ix_blocked ix = merge_spans 0 (map (\<lambda>p. (lp_min p, lp_max p)) waits)"
    using ix unfolding index_map_def Let_def missing [symmetric] waits [symmetric] by (auto split: if_splits)
  have m: "manifest_ok m" using ok by (simp add: listing_ok_def)
  have "set waits = {p \<in> set ?ps. waiting m p}"
    unfolding waits missing using missing_iff [OF m slow_parts_set(2) [OF ok]] by (auto simp: waiting_def)
  moreover have p: "proper (map (\<lambda>p. (lp_min p, lp_max p)) waits)"
    using ok slow_parts_set(1) [OF ok, of inst low high] by (auto simp: proper_def waits listing_ok_def)
  ultimately show "meets (ix_blocked ix) a b \<longleftrightarrow> (\<exists>p \<in> set ?ps. waiting m p \<and> lp_min p \<le> b \<and> a \<le> lp_max p)"
    unfolding blocked merge_meets [OF p le] by (auto simp: meets_def)
  show "runs 0 (ix_blocked ix)" unfolding blocked by (rule merge_spans_runs [OF _ p]) simp
qed


section \<open>The cached coverage\<close>

text \<open>\<open>H\<close> holds the manifests coverage was computed from, with the time the answer was stored.\<close>

definition cache_ok :: "(int \<times> manifest) set \<Rightarrow> coverage_cache \<Rightarrow> bool" where
  "cache_ok H cache \<longleftrightarrow> (\<forall>v. cc_value cache = Some v \<longrightarrow>
     (\<exists>(t, m) \<in> H. \<exists>ps. cc_key cache = coverage_key ps \<and> v = coverage ps m \<and> cc_expires cache = t + COVERAGE_CACHE_US))"

lemma coverage_by_key:
  assumes "coverage_key ps = coverage_key qs"
  shows "coverage ps m = coverage qs m"
proof -
  have "foldl (\<lambda>d p. if part_identity p \<noteq> [] then AList.update (sp_path p) (part_identity p) d else d) d ps
      = foldl (\<lambda>d (path, i). AList.update path i d) d (coverage_key ps)" for d ps
    by (induction ps arbitrary: d) (auto simp: coverage_key_def)
  then have "expected_parts ps = expected_parts qs" by (simp add: expected_parts_def assms)
  then show ?thesis by (simp add: coverage_def)
qed

text \<open>A cached answer is the coverage of the parts asked for in a manifest of less than two seconds ago.\<close>

lemma manifest_coverage_recent:
  assumes "cache_ok H cache" "manifest_coverage now later parts m cache = (v, cache')" "now \<le> later"
  shows "\<exists>(t, m') \<in> insert (later, m) H. v = coverage parts m' \<and> now < t + COVERAGE_CACHE_US"
    and "cache_ok (insert (later, m) H) cache'"
proof -
  let ?hit = "coverage_key parts = cc_key cache \<and> now < cc_expires cache \<and> cc_value cache \<noteq> None"
  have miss: "v = coverage parts m \<and> cache' = \<lparr>cc_key = coverage_key parts, cc_value = Some (coverage parts m), cc_expires = later + COVERAGE_CACHE_US\<rparr>"
    if "\<not> ?hit" using assms(2) that by (auto simp: manifest_coverage_def Let_def split: if_splits option.splits)
  have hit: "cc_value cache = Some v \<and> cache' = cache" if ?hit
    using assms(2) that by (auto simp: manifest_coverage_def Let_def)
  show "\<exists>(t, m') \<in> insert (later, m) H. v = coverage parts m' \<and> now < t + COVERAGE_CACHE_US"
  proof (cases ?hit)
    case True
    from hit [OF True] assms(1) obtain t m' ps where "(t, m') \<in> H" "cc_key cache = coverage_key ps" "v = coverage ps m'" "cc_expires cache = t + COVERAGE_CACHE_US"
      unfolding cache_ok_def by blast
    moreover from this True have "v = coverage parts m'" using coverage_by_key by metis
    ultimately show ?thesis using True by (intro bexI [of _ "(t, m')"]) auto
  next
    case False
    then show ?thesis using miss assms(3) by (auto simp: COVERAGE_CACHE_US_def)
  qed
  show "cache_ok (insert (later, m) H) cache'"
  proof (cases ?hit)
    case True
    then show ?thesis using hit assms(1) by (fastforce simp: cache_ok_def)
  next
    case False
    then show ?thesis using miss by (auto simp: cache_ok_def)
  qed
qed

section \<open>The window cut back to the indexed edge\<close>

lemma meets_Cons: "meets (s # ss) a b \<longleftrightarrow> (fst s \<le> b \<and> a \<le> snd s) \<or> meets ss a b"
  by (auto simp: meets_def split: prod.splits)

lemma runs_Cons: "runs 0 (s # ss) \<longleftrightarrow> (\<forall>t \<in> set ss. snd s < fst t) \<and> fst s \<le> snd s \<and> runs 0 ss"
  by (auto simp: runs_def)

lemma blocked_limit_exact:
  assumes "blocked_limit start limit ss = Some L" "runs 0 ss" "start \<le> limit"
  shows "start \<le> L \<and> L \<le> limit \<and> \<not> meets ss start L \<and> (\<forall>c. c \<le> limit \<and> \<not> meets ss start c \<longrightarrow> c \<le> L)"
  using assms
proof (induction start limit ss rule: blocked_limit.induct)
  case (1 start limit)
  then show ?case by (simp add: meets_def)
next
  case (2 start limit low high ss)
  have r: "\<forall>t \<in> set ss. high < fst t" "low \<le> high" "runs 0 ss" using "2.prems"(2) by (simp_all add: runs_Cons)
  show ?case
  proof (cases "high < start")
    case True
    then show ?thesis using 2 r by (simp add: meets_Cons)
  next
    case False
    have later: "\<not> meets ss start c" if "c \<le> high" for c using r(1) that by (force simp: meets_def)
    show ?thesis
    proof (cases "limit < low")
      case True
      then show ?thesis using "2.prems" False later [of limit] r(2) by (simp add: meets_Cons)
    next
      case in_reach: False
      then have "start < low" "L = low - 1" using "2.prems"(1) False by (auto split: if_splits)
      then show ?thesis using in_reach False later [of "low - 1"] r(2) by (auto simp: meets_Cons)
    qed
  qed
qed

definition ready_part :: "manifest \<Rightarrow> listed_part \<Rightarrow> bool" where
  "ready_part m p \<longleftrightarrow> lp_identity p \<noteq> [] \<and> part_servable (clickhouse_parts m) (lp_path p, lp_identity p)"

lemma index_map_edges:
  assumes ok: "listing_ok T m" and ix: "index_map (\<lambda>ps. coverage ps m) T inst low high = Some ix"
  shows "ix_first ix = Some f \<Longrightarrow> f \<le> a \<longleftrightarrow> (\<exists>p \<in> set (slow_parts T inst low high). ready_part m p \<and> lp_min p \<le> a)"
    and "ix_last ix = Some l \<Longrightarrow> a \<le> l \<longleftrightarrow> (\<exists>p \<in> set (slow_parts T inst low high). ready_part m p \<and> a \<le> lp_max p)"
proof -
  let ?ps = "slow_parts T inst low high"
  obtain missing where missing: "missing = set (pc_missing_parts (coverage (map lp_part ?ps) m))" by simp
  obtain rs where rs: "rs = filter (\<lambda>p. lp_path p \<notin> missing) (filter (\<lambda>p. lp_identity p \<noteq> []) ?ps)" by simp
  have edges: "ix_first ix = (if rs = [] then None else Some (Min (lp_min ` set rs)))"
    "ix_last ix = (if rs = [] then None else Some (Max (lp_max ` set rs)))"
    using ix unfolding index_map_def Let_def missing [symmetric] rs [symmetric] by (auto split: if_splits simp: image_comp comp_def)
  have m: "manifest_ok m" using ok by (simp add: listing_ok_def)
  have set: "set rs = {p \<in> set ?ps. ready_part m p}"
    unfolding rs missing using missing_iff [OF m slow_parts_set(2) [OF ok]] by (auto simp: waiting_def ready_part_def)
  show "f \<le> a \<longleftrightarrow> (\<exists>p \<in> set ?ps. ready_part m p \<and> lp_min p \<le> a)" if "ix_first ix = Some f"
  proof -
    have "rs \<noteq> []" "f = Min (lp_min ` set rs)" using that unfolding edges by (auto split: if_splits)
    moreover have "f \<le> a \<longleftrightarrow> (\<exists>p \<in> set rs. lp_min p \<le> a)"
      unfolding calculation(2) using calculation(1) by (subst Min_le_iff) auto
    ultimately show ?thesis using set by blast
  qed
  show "a \<le> l \<longleftrightarrow> (\<exists>p \<in> set ?ps. ready_part m p \<and> a \<le> lp_max p)" if "ix_last ix = Some l"
  proof -
    have "rs \<noteq> []" "l = Max (lp_max ` set rs)" using that unfolding edges by (auto split: if_splits)
    moreover have "a \<le> l \<longleftrightarrow> (\<exists>p \<in> set rs. a \<le> lp_max p)"
      unfolding calculation(2) using calculation(1) by (subst Max_ge_iff) auto
    ultimately show ?thesis using set by blast
  qed
qed

text \<open>A whole-minute end up to which no part of the listing waits and up to which a ready one reaches.\<close>

definition clean_prefix :: "manifest \<Rightarrow> listed_part list \<Rightarrow> int \<Rightarrow> int \<Rightarrow> int \<Rightarrow> bool" where
  "clean_prefix m ps start stop c \<longleftrightarrow> c mod PERIOD_US = 0 \<and> c \<le> stop \<and> (\<exists>p \<in> set ps. ready_part m p \<and> c \<le> lp_max p)
     \<and> (\<forall>p \<in> set ps. waiting m p \<longrightarrow> \<not> (lp_min p \<le> c \<and> start \<le> lp_max p))"

text \<open>
  The window cut back to the indexed edge keeps the start, lasts six minutes at least and ends at the latest minute
  up to which the index is clean.
\<close>

theorem truncate_exact:
  assumes "listing_ok T m" "truncate_to_ready (\<lambda>ps. coverage ps m) T inst start stop MIN_TRUNCATED_US = Some c" "start \<le> stop"
  shows "start + MIN_TRUNCATED_US \<le> c \<and> clean_prefix m (slow_parts T inst start stop) start stop c
    \<and> (\<forall>c'. clean_prefix m (slow_parts T inst start stop) start stop c' \<longrightarrow> c' \<le> c)"
proof -
  obtain ix f l limit where ix: "index_map (\<lambda>ps. coverage ps m) T inst start stop = Some ix" "ix_first ix = Some f" "ix_last ix = Some l"
    "f \<le> start" "blocked_limit start (min stop l) (ix_blocked ix) = Some limit"
    and c: "c = limit div PERIOD_US * PERIOD_US" "MIN_TRUNCATED_US \<le> c - start"
    using assms(2) unfolding truncate_to_ready_def Let_def by (auto split: option.splits if_splits)
  note blocked = index_map_blocked [OF assms(1) ix(1)] and edge = index_map_edges(2) [OF assms(1) ix(1,3)]
  have "start \<le> l"
  proof -
    obtain p where "p \<in> set (slow_parts T inst start stop)" "ready_part m p"
      using index_map_edges(1) [OF assms(1) ix(1,2), of start] ix(4) by blast
    then show ?thesis using edge [of start] slow_parts_set(1) [OF assms(1)] by auto
  qed
  then have b: "start \<le> limit" "limit \<le> stop" "limit \<le> l" "\<not> meets (ix_blocked ix) start limit"
    "\<And>c. c \<le> stop \<Longrightarrow> c \<le> l \<Longrightarrow> \<not> meets (ix_blocked ix) start c \<Longrightarrow> c \<le> limit"
    using blocked_limit_exact [OF ix(5) blocked(2)] assms(3) by auto
  have P: "c mod PERIOD_US = 0" "c \<le> limit" "limit < c + PERIOD_US" unfolding c(1) by (simp_all add: PERIOD_US_def)
  have sc: "start \<le> c" using c(2) by (simp add: MIN_TRUNCATED_US_def PERIOD_US_def)
  have "\<not> meets (ix_blocked ix) start c" using b(4) P(2) by (force simp: meets_def)
  then have "clean_prefix m (slow_parts T inst start stop) start stop c"
    unfolding clean_prefix_def using P b(2,3) edge [of c] blocked(1) [OF sc] by auto
  moreover have "c' \<le> c" if "clean_prefix m (slow_parts T inst start stop) start stop c'" for c'
  proof (cases "start \<le> c'")
    case True
    then have "c' \<le> limit" using that b(5) edge [of c'] blocked(1) [OF True] by (auto simp: clean_prefix_def)
    then have "c' div PERIOD_US \<le> limit div PERIOD_US" by (rule zdiv_mono1) (simp add: PERIOD_US_def)
    moreover have "c' = c' div PERIOD_US * PERIOD_US" using that div_mult_mod_eq [of c' PERIOD_US] by (simp add: clean_prefix_def)
    ultimately show ?thesis unfolding c(1) by (metis PERIOD_US_def mult_right_mono zero_le_numeral)
  qed (use sc in simp)
  ultimately show ?thesis using c(2) by simp
qed


section \<open>The chosen window is complete\<close>

lemma waiting_listed:
  assumes "listing_ok T m" "p \<in> set T" "slow_part inst p" "lp_min p \<le> high" "low \<le> lp_max p"
  shows "p \<in> set (slow_parts T inst low high)"
  using assms slow_parts_set(1) by blast

lemma index_state_found: "index_state cov T inst now ret low high = (f, b) \<Longrightarrow> f = cov (map lp_part (slow_parts T inst low high))"
  by (auto simp: index_state_def Let_def split: if_splits)

lemma tail_plan_sound:
  assumes ok: "listing_ok T m" and plan: "tail_plan (\<lambda>ps. coverage ps m) T inst now ret start stop view = Some t"
  obtains v where "view = Some v" "tp_covered_from t = tv_covered_from v" "tp_end t \<le> tv_complete_through v" "tp_end t \<le> stop"
    "start + MIN_TRUNCATED_US \<le> tp_end t" "usable (Some (tp_coverage t))" "tp_baseline t = None \<or> usable (tp_baseline t)"
    "\<And>p. p \<in> set T \<Longrightarrow> slow_part inst p \<Longrightarrow> waiting m p \<Longrightarrow> lp_min p \<le> tp_end t \<Longrightarrow> start \<le> lp_max p \<Longrightarrow> tv_covered_from v \<le> max (lp_min p) start"
proof -
  obtain v where v: "view = Some v" using plan by (auto simp: tail_plan_def split: option.splits)
  obtain cut where cut: "cut = min stop (tv_complete_through v) div PERIOD_US * PERIOD_US" by simp
  obtain ix f b where ix: "index_map (\<lambda>ps. coverage ps m) T inst start cut = Some ix"
    "\<not> list_ex (\<lambda>(low, high). start \<le> high \<and> max low start < tv_covered_from v) (ix_blocked ix)"
    "start + MIN_TRUNCATED_US \<le> cut" "pc_total_parts f \<noteq> 0" "b = None \<or> usable b"
    and t: "t = \<lparr>tp_end = cut, tp_covered_from = tv_covered_from v, tp_newest = tv_newest v, tp_pending = length (pc_missing_parts f),
      tp_coverage = f\<lparr>pc_complete := True\<rparr>, tp_baseline = b\<rparr>"
    using plan unfolding tail_plan_def v Let_def option.case cut [symmetric]
    by (auto simp only: if_split split: option.splits prod.splits) (auto split: if_splits)
  have le: "cut \<le> min stop (tv_complete_through v)" unfolding cut using floor_to_le(1) [of PERIOD_US "min stop (tv_complete_through v)"]
    by (simp add: PERIOD_US_def floor_to_def)
  have "tv_covered_from v \<le> max (lp_min p) start"
    if p: "p \<in> set T" "slow_part inst p" "waiting m p" "lp_min p \<le> cut" "start \<le> lp_max p" for p
  proof (rule ccontr)
    assume less: "\<not> tv_covered_from v \<le> max (lp_min p) start"
    obtain x where x: "x = max (lp_min p) start" by simp
    have "lp_min p \<le> lp_max p" using ok p(1) by (simp add: listing_ok_def)
    then have "meets (ix_blocked ix) x x"
      using index_map_blocked(1) [OF ok ix(1), of x x] waiting_listed [OF ok p(1,2,4,5)] p(3,5) by (auto simp: x)
    then obtain l h where "(l, h) \<in> set (ix_blocked ix)" "l \<le> x" "x \<le> h" by (auto simp: meets_def)
    then show False using ix(2) less by (auto simp: list_ex_iff x)
  qed
  then show thesis using that [OF v] le ix(3-5) by (auto simp: t usable_def)
qed

text \<open>
  The window an analysis reads is complete: every identified slow-log part of the instance that overlaps it is ready in
  ClickHouse under its identity, or the live tail was used and vouches for the part's stretch of the window up to the
  window's end.
\<close>

lemma choose_window_complete:
  assumes "listing_ok T m" "choose_window (\<lambda>ps. coverage ps m) T inst now ret qs qe view = Inr w"
    and "p \<in> set T" "slow_part inst p" "lp_identity p \<noteq> []" "lp_min p \<le> cw_end w" "cw_start w \<le> lp_max p"
  shows "part_servable (clickhouse_parts m) (lp_path p, lp_identity p) \<or>
    (\<exists>v. view = Some v \<and> cw_tail w \<noteq> None \<and> cw_end w \<le> tv_complete_through v \<and> tv_covered_from v \<le> max (lp_min p) (cw_start w))"
proof (cases "waiting m p")
  case True
  let ?cov = "\<lambda>ps. coverage ps m"
  have no: False if "index_state ?cov T inst now ret (cw_start w) (cw_end w) = (f, b)" "usable (Some f)" for f b
    using usable_ready [OF assms(1)] waiting_listed [OF assms(1,3,4,6,7)] that True index_state_found [OF that(1)] by blast
  obtain start requested where q: "query_window now ret qs qe = Some (start, requested)" "\<not> IMPACT_DAY_US \<le> requested - start"
    using assms(2) unfolding choose_window_def by (auto split: option.splits if_splits)
  obtain plan where plan: "plan = (if now - FRESHNESS_WINDOW_US \<le> requested then tail_plan ?cov T inst now ret start requested view else None)" by simp
  show ?thesis
  proof (cases plan)
    case None
    obtain f b where f: "index_state ?cov T inst now ret start requested = (f, b)" by fastforce
    obtain confirmed where confirmed: "confirmed = (case (if usable (Some f) then None else truncate_to_ready ?cov T inst start requested MIN_TRUNCATED_US) of
      None \<Rightarrow> None | Some c \<Rightarrow> (case index_state ?cov T inst now ret start c of (f, b) \<Rightarrow> if usable (Some f) \<and> (b = None \<or> usable b) then Some c else None))" by simp
    note w = assms(2) [unfolded choose_window_def q option.case prod.case Let_def plan [symmetric] None f confirmed [symmetric]]
    have "\<exists>f b. index_state ?cov T inst now ret (cw_start w) (cw_end w) = (f, b) \<and> usable (Some f)"
    proof (cases "usable (Some f) \<and> (b = None \<or> usable b)")
      case True
      then show ?thesis using w q(2) f by auto
    next
      case no: False
      show ?thesis
      proof (cases confirmed)
        case None
        then show ?thesis using w q(2) no by (auto split: if_splits option.splits prod.splits)
      next
        case (Some c)
        then obtain f' b' where "index_state ?cov T inst now ret start c = (f', b')" "usable (Some f')"
          unfolding confirmed by (auto split: option.splits prod.splits if_splits)
        moreover have "cw_start w = start" "cw_end w = c" using w q(2) no Some by (auto simp: adjusted_payload_def)
        ultimately show ?thesis by simp
      qed
    qed
    then show ?thesis using no by blast
  next
    case (Some t)
    then have "tail_plan ?cov T inst now ret start requested view = Some t" using plan by (simp split: if_splits)
    from tail_plan_sound [OF assms(1) this]
    obtain v where v: "view = Some v" "tp_end t \<le> tv_complete_through v" "usable (Some (tp_coverage t))" "tp_baseline t = None \<or> usable (tp_baseline t)"
      "\<And>p. p \<in> set T \<Longrightarrow> slow_part inst p \<Longrightarrow> waiting m p \<Longrightarrow> lp_min p \<le> tp_end t \<Longrightarrow> start \<le> lp_max p \<Longrightarrow> tv_covered_from v \<le> max (lp_min p) start"
      by metis
    have w: "cw_start w = start" "cw_end w = tp_end t" "cw_tail w = Some t"
      using assms(2) q(2) v(3,4) unfolding choose_window_def q option.case prod.case Let_def plan [symmetric] Some by auto
    then show ?thesis using v(1,2) v(5) [OF assms(3,4) True] assms(6,7) by auto
  qed
qed (use assms(5) in \<open>simp add: waiting_def\<close>)


lemma chosen_tail:
  assumes "listing_ok T m" "choose_window (\<lambda>ps. coverage ps m) T inst now ret qs qe view = Inr w" "cw_tail w = Some t"
  obtains v where "view = Some v" "tp_covered_from t = tv_covered_from v" "cw_end w \<le> tv_complete_through v"
proof -
  let ?cov = "\<lambda>ps. coverage ps m"
  obtain start requested where q: "query_window now ret qs qe = Some (start, requested)" "\<not> IMPACT_DAY_US \<le> requested - start"
    using assms(2) unfolding choose_window_def by (auto split: option.splits if_splits)
  obtain plan where plan: "plan = (if now - FRESHNESS_WINDOW_US \<le> requested then tail_plan ?cov T inst now ret start requested view else None)" by simp
  note w = assms(2) [unfolded choose_window_def q option.case prod.case Let_def plan [symmetric]]
  have "plan = Some t" using w q(2) assms(3) by (cases plan) (auto split: if_splits option.splits prod.splits)
  then have "tail_plan ?cov T inst now ret start requested view = Some t" using plan by (simp split: if_splits)
  from tail_plan_sound [OF assms(1) this] obtain v where v: "view = Some v" "tp_covered_from t = tv_covered_from v"
    "tp_end t \<le> tv_complete_through v" "usable (Some (tp_coverage t))" "tp_baseline t = None \<or> usable (tp_baseline t)" by metis
  moreover have "cw_end w = tp_end t" using w q(2) v(4,5) \<open>plan = Some t\<close> by auto
  ultimately show thesis using that by simp
qed

section \<open>Statements published promptly are read\<close>

lemma tails_view_some:
  assumes "tails_view now tails = Some v" "N \<in> set tails"
  obtains w where "node_view now N = Some w" "tv_covered_from w \<le> tv_covered_from v" "tv_complete_through v \<le> tv_complete_through w"
  using tails_view_narrows [OF assms] by blast

text \<open>Every identified slow-log part of the instance that spans a moment is served by ClickHouse.\<close>

definition parts_ready :: "manifest \<Rightarrow> listed_part list \<Rightarrow> string \<Rightarrow> int \<Rightarrow> bool" where
  "parts_ready m T inst x \<longleftrightarrow> (\<forall>p \<in> set T. slow_part inst p \<and> lp_identity p \<noteq> [] \<and> lp_min p \<le> x \<and> x \<le> lp_max p
     \<longrightarrow> part_servable (clickhouse_parts m) (lp_path p, lp_identity p))"

text \<open>
  What an analysis promises for a statement of its window that DAS published within the guard (90 seconds of its start), on a
  node the tail follows and in the scope asked for. If it started before the tail's coverage, or no tail is used, every listed
  part that spans its start is ready in ClickHouse; if it started after it, it is among the rows, from ClickHouse or from the tail. Nothing is
  said of a statement published later, as the module's documentation warns, nor of one that started exactly at the edge of the coverage,
  which the tail can miss. The theorem reads one state of the manifest and one of the tail: the code may take the coverage of
  a part list from its cache, which is up to two seconds old (\<open>manifest_coverage\<close>), and a part demoted in between would
  still count as ready.
\<close>

theorem analysis_reads_statement:
  assumes "listing_ok T m" "choose_window (\<lambda>ps. coverage ps m) T inst now ret qs qe (tails_view now' tails) = Inr w"
    and "cw_start w \<le> te_start a" "te_start a \<le> cw_end w"
    and "N \<in> set tails" "(tail_step event_of node W)\<^sup>*\<^sup>* empty_tail N" "world_ok event_of W"
    and "(r, p) \<in> W" "event_of r = Some a" "te_fingerprint a \<noteq> []" "te_start a \<le> p" "p \<le> te_start a + seconds PUBLISH_GUARD_SECONDS"
    and "scope_matches a q"
  shows "case cw_tail w of None \<Rightarrow> parts_ready m T inst (te_start a)
    | Some t \<Rightarrow> (te_start a < tp_covered_from t \<longrightarrow> parts_ready m T inst (te_start a))
        \<and> (tp_covered_from t < te_start a \<longrightarrow> te_id a \<in> ar_id ` set (analysis_rows found tails w q))"
proof (cases "cw_tail w")
  case None
  then show ?thesis using choose_window_complete [OF assms(1,2)] assms(3,4) by (force simp: parts_ready_def)
next
  case (Some t)
  from chosen_tail [OF assms(1,2) Some] obtain v where v: "tails_view now' tails = Some v" "tp_covered_from t = tv_covered_from v"
    "cw_end w \<le> tv_complete_through v" by blast
  from tails_view_some [OF v(1) assms(5)] obtain u where u: "node_view now' N = Some u"
    "tv_covered_from u \<le> tv_covered_from v" "tv_complete_through v \<le> tv_complete_through u" .
  have "part_servable (clickhouse_parts m) (lp_path x, lp_identity x)"
    if x: "x \<in> set T" "slow_part inst x" "lp_identity x \<noteq> []" "lp_min x \<le> te_start a" "te_start a \<le> lp_max x"
      and early: "te_start a < tp_covered_from t" for x
  proof -
    have "lp_min x \<le> cw_end w" "cw_start w \<le> lp_max x" "max (lp_min x) (cw_start w) < tv_covered_from v"
      using x assms(3,4) early v(2) by simp_all
    then show ?thesis using choose_window_complete [OF assms(1,2) x(1-3)] v(1) by auto
  qed
  moreover have "te_id a \<in> ar_id ` set (analysis_rows found tails w q)" if late: "tp_covered_from t < te_start a"
  proof -
    have "map_of (nt_events N) (te_id a) = Some a"
      by (rule vouched_event [OF assms(6,7) u(1) assms(8-12)]) (use late u v assms(4) in linarith)+
    then have "analysis_row a \<in> set (node_rows (max (cw_start w) (tp_covered_from t)) (cw_end w) q N)"
      by (rule event_row) (use late assms(3,4,13) in simp_all)
    then have "analysis_row a \<in> set (tails_rows (max (cw_start w) (tp_covered_from t)) (cw_end w) q tails)"
      using assms(5) by (auto simp: tails_rows_def)
    moreover have "ar_id (analysis_row a) = te_id a" by (simp add: analysis_row_def)
    ultimately show ?thesis
      unfolding analysis_rows_def Some by (cases "te_id a \<in> ar_id ` set found") force+
  qed
  ultimately show ?thesis unfolding Some parts_ready_def by simp
qed

text \<open>One indexed part and the tail of one node: the analysis of a window that ends after the index reads the statement.\<close>

definition sample_listed :: "int \<Rightarrow> int \<Rightarrow> listed_part" where
  "sample_listed low high = \<lparr>lp_part = (sample_source ''p'' ''i'')\<lparr>sp_min_event_epoch_us := Some low, sp_max_event_epoch_us := Some high\<rparr>,
     lp_batch = ''b'', lp_name = ''slow-log/rm-1'', lp_host = ''slow-log'', lp_instance = ''rm-1'', lp_visible = True\<rparr>"

lemma sample_listing_ok: "low \<le> high \<Longrightarrow> listing_ok [sample_listed low high] (sample_manifest [(''p'', ''i'', Ready)])"
  using sample_manifest_ok [of "[(''p'', ''i'', Ready)]"]
  by (simp add: listing_ok_def sample_listed_def PARTS_LIMIT_def)

lemma sample_slow_parts:
  "slow_parts [sample_listed a b] ''rm-1'' low high = (if low \<le> b \<and> a \<le> high then [sample_listed a b] else [])"
  by (auto simp: slow_parts_def parts_in_range_def PARTS_LIMIT_def sample_listed_def batch_clause_def source_clause_def Let_def
    strip_def blank_def lower_text_def ascii_lower_def like_prefix_def SLOW_LOG_FILE_PREFIX_def SLOW_LOG_HOST_INSTANCE_ID_def instance_clause_def)

lemma sample_coverage:
  "coverage [lp_part (sample_listed a b)] (sample_manifest [(''p'', ''i'', Ready)]) = \<lparr>pc_complete = True, pc_total_parts = 1, pc_covered_parts = 1,
     pc_covered_rows = 0, pc_missing_parts = [], pc_start_epoch_us = 0, pc_end_epoch_us = 500, pc_completed_at_us = 5\<rparr>"
  unfolding sample_listed_def by code_simp

lemma sample_index_map:
  assumes "low \<le> b" "a \<le> high"
  shows "index_map (\<lambda>ps. coverage ps (sample_manifest [(''p'', ''i'', Ready)])) [sample_listed a b] ''rm-1'' low high
    = Some \<lparr>ix_ready = [(a, b)], ix_blocked = [], ix_first = Some a, ix_last = Some b\<rparr>"
  using assms by (simp add: index_map_def sample_slow_parts sample_coverage Let_def merge_spans_def merge_step_def)
    (simp add: sample_listed_def part_identity_def sample_source_def)

theorem truncate_exact_witness:
  "clean_prefix (sample_manifest [(''p'', ''i'', Ready)]) (slow_parts [sample_listed 1000 600000000] ''rm-1'' 5000 900000000) 5000 900000000 600000000"
proof -
  have "truncate_to_ready (\<lambda>ps. coverage ps (sample_manifest [(''p'', ''i'', Ready)])) [sample_listed 1000 600000000] ''rm-1'' 5000 900000000 MIN_TRUNCATED_US
      = Some 600000000" by (simp add: truncate_to_ready_def sample_index_map MIN_TRUNCATED_US_def PERIOD_US_def)
  from truncate_exact [OF sample_listing_ok this] show ?thesis by simp
qed

lemma sample_view: "tails_view 2000160000000 [sample_scan] =
    Some \<lparr>tv_covered_from = 1999250000000, tv_complete_through = 2000060000000, tv_newest = 2000000000000, tv_nodes = 1, tv_events = 1\<rparr>"
  by code_simp

lemma sample_state:
  assumes "low \<le> b" "a \<le> high" "low < now"
  shows "index_state (\<lambda>ps. coverage ps (sample_manifest [(''p'', ''i'', Ready)])) [sample_listed a b] ''rm-1'' now 1 low high
    = (\<lparr>pc_complete = True, pc_total_parts = 1, pc_covered_parts = 1, pc_covered_rows = 0, pc_missing_parts = [],
         pc_start_epoch_us = 0, pc_end_epoch_us = 500, pc_completed_at_us = 5\<rparr>, None)"
proof -
  have "query_window now 1 (Some (low - IMPACT_DAY_US)) (Some (high - IMPACT_DAY_US)) \<noteq> Some (low - IMPACT_DAY_US, high - IMPACT_DAY_US)"
    using assms(3) by (cases "low = IMPACT_DAY_US") (auto simp: query_window_def or_else_def Let_def)
  then show ?thesis using assms(1,2) by (simp add: index_state_def sample_slow_parts sample_coverage Let_def)
qed

lemma sample_choice:
  "\<exists>t. choose_window (\<lambda>ps. coverage ps (sample_manifest [(''p'', ''i'', Ready)])) [sample_listed 1999500000000 1999900000000] ''rm-1''
     2000160000000 1 (Some 1999500000000) None (tails_view 2000160000000 [sample_scan])
   = Inr \<lparr>cw_start = 1999500000000, cw_end = 2000040000000, cw_tail = Some t, cw_adjusted = Some (Cut 1999500000000 2000160000000 120000000)\<rparr>
   \<and> tp_covered_from t = 1999250000000"
  unfolding sample_view
  by (simp add: choose_window_def query_window_def or_else_def IMPACT_DAY_US_def FRESHNESS_WINDOW_US_def PERIOD_US_def tail_plan_def Let_def
    MIN_TRUNCATED_US_def sample_index_map sample_state usable_def adjusted_payload_def)

theorem analysis_reads_statement_witness:
  "\<exists>w. te_id sample_event \<in> ar_id ` set (analysis_rows [] [sample_scan] w \<lparr>sc_node = [], sc_database = [], sc_table = [], sc_operation = []\<rparr>)"
proof -
  let ?m = "sample_manifest [(''p'', ''i'', Ready)]" and ?q = "\<lparr>sc_node = [], sc_database = [], sc_table = [], sc_operation = []\<rparr>"
  obtain w t where choice: "choose_window (\<lambda>ps. coverage ps ?m) [sample_listed 1999500000000 1999900000000] ''rm-1'' 2000160000000 1
      (Some 1999500000000) None (tails_view 2000160000000 [sample_scan]) = Inr w"
    and w: "cw_start w = 1999500000000" "cw_end w = 2000040000000" "cw_tail w = Some t" "tp_covered_from t = 1999250000000"
    using sample_choice by auto
  have steps: "(tail_step (\<lambda>r. Some sample_event) ''n'' {(sample_record, 2000050000000)})\<^sup>*\<^sup>* empty_tail sample_scan"
    using sample_reached by (rule r_into_rtranclp)
  have q: "scope_matches sample_event ?q" by code_simp
  have "case cw_tail w of None \<Rightarrow> parts_ready ?m [sample_listed 1999500000000 1999900000000] ''rm-1'' (te_start sample_event)
    | Some t \<Rightarrow> (te_start sample_event < tp_covered_from t \<longrightarrow> parts_ready ?m [sample_listed 1999500000000 1999900000000] ''rm-1'' (te_start sample_event))
        \<and> (tp_covered_from t < te_start sample_event \<longrightarrow> te_id sample_event \<in> ar_id ` set (analysis_rows [] [sample_scan] w ?q))"
    by (rule analysis_reads_statement [OF sample_listing_ok choice _ _ _ steps sample_world _ _ _ _ _ q])
      (simp_all add: w sample_event_def tail_limits, simp_all)
  then have "te_id sample_event \<in> ar_id ` set (analysis_rows [] [sample_scan] w ?q)"
    by (simp add: w) (simp add: sample_event_def)
  then show ?thesis by blast
qed

end
