(* ===== verification/TopPage.thy ===== *)
theory TopPage
  imports Prelude
begin

text \<open>
  Pages of events across sources. The query paths of \<open>app/storage.py\<close> and \<open>app/raw_binlog_query.py\<close> all merge lists of
  rows by event id, order them newest first by the same key and cut the front off. This theory has the rows, the key
  (\<open>_row_sort_key\<close>), the merge, and the facts about the \<open>n\<close> first rows of a union on which every such page rests.
\<close>

section \<open>Rows\<close>

record qrow =
  qr_id :: string
  qr_epoch :: int
  qr_source_file :: string
  qr_end :: int
  qr_index :: int
  qr_instance :: string
  qr_type :: string
  qr_operation :: string
  qr_database :: string
  qr_table :: string
  qr_transaction :: string
  qr_gtid :: string
  qr_sql :: string
  qr_before :: string
  qr_after :: string
  qr_connection :: string
  qr_connection_name :: string
  qr_account :: string
  qr_status :: string
  qr_error :: string

type_synonym row_key = "int \<times> string \<times> int \<times> int \<times> string"

definition row_sort_key :: "qrow \<Rightarrow> row_key" where
  "row_sort_key r = (qr_epoch r, qr_source_file r, qr_end r, qr_index r, qr_id r)"

text \<open>\<open>sorted(\<dots>, key=_row_sort_key, reverse=True)\<close> and the dict comprehensions by event id.\<close>

definition newest_first :: "qrow list \<Rightarrow> qrow list" where
  "newest_first rs = sort_desc_key row_sort_key rs"

fun keep_first :: "string list \<Rightarrow> qrow list \<Rightarrow> qrow list" where
  "keep_first seen [] = []"
| "keep_first seen (r # rs) = (if qr_id r \<in> set seen then keep_first seen rs else r # keep_first (qr_id r # seen) rs)"

definition unique_rows :: "qrow list \<Rightarrow> qrow list" where
  "unique_rows rs = keep_first [] rs"

definition keep_last :: "qrow list \<Rightarrow> qrow list" where
  "keep_last rs = map snd (foldl (\<lambda>d r. AList.update (qr_id r) r d) [] rs)"

text \<open>One event id stands for one row.\<close>

definition ids_agree :: "qrow set \<Rightarrow> bool" where
  "ids_agree A \<longleftrightarrow> (\<forall>r \<in> A. \<forall>s \<in> A. qr_id r = qr_id s \<longrightarrow> r = s)"

lemma ids_agree_mono: "ids_agree B \<Longrightarrow> A \<subseteq> B \<Longrightarrow> ids_agree A"
  by (auto simp: ids_agree_def)

lemma row_key_inj: "ids_agree A \<Longrightarrow> inj_on row_sort_key A"
  by (auto simp: inj_on_def row_sort_key_def ids_agree_def)

lemma keep_first_set: "ids_agree (set rs) \<Longrightarrow> set (keep_first seen rs) = {r \<in> set rs. qr_id r \<notin> set seen}"
  by (induction rs arbitrary: seen) (auto simp: ids_agree_def)

lemma keep_first_ids: "distinct (map qr_id (keep_first seen rs)) \<and> qr_id ` set (keep_first seen rs) \<inter> set seen = {}"
proof (induction rs arbitrary: seen)
  case (Cons r rs)
  from Cons.IH [of seen] Cons.IH [of "qr_id r # seen"] show ?case by auto
qed simp

lemma unique_rows_set: "ids_agree (set rs) \<Longrightarrow> set (unique_rows rs) = set rs"
  by (simp add: unique_rows_def keep_first_set)

lemma unique_rows_distinct: "distinct (unique_rows rs)"
  using keep_first_ids [of "[]" rs] by (simp add: unique_rows_def distinct_map)

lemma keep_last_dict:
  "ids_agree (set rs) \<Longrightarrow> set (foldl (\<lambda>d r. AList.update (qr_id r) r d) [] rs) = (\<lambda>r. (qr_id r, r)) ` set rs
    \<and> distinct (map fst (foldl (\<lambda>d r. AList.update (qr_id r) r d) [] rs))"
proof (induction rs rule: rev_induct)
  case (snoc r rs)
  obtain d where d: "d = foldl (\<lambda>d r. AList.update (qr_id r) r d) [] rs" by simp
  have ih: "set d = (\<lambda>r. (qr_id r, r)) ` set rs" "distinct (map fst d)"
    using snoc ids_agree_mono [of "set (rs @ [r])" "set rs"] unfolding d by auto
  have dist: "distinct (map fst (AList.update (qr_id r) r d))" using ih(2) by (rule distinct_update)
  have old: "v = r" if "(qr_id r, v) \<in> set d" for v
    using that snoc.prems unfolding ih(1) ids_agree_def by force
  have E: "(k, v) \<in> set (AList.update (qr_id r) r d) \<longleftrightarrow> (k, v) \<in> insert (qr_id r, r) (set d)" for k v
  proof -
    have "(k, v) \<in> set (AList.update (qr_id r) r d) \<longleftrightarrow> map_of (AList.update (qr_id r) r d) k = Some v"
      using dist by (simp add: map_of_eq_Some_iff)
    also have "\<dots> \<longleftrightarrow> (k = qr_id r \<and> v = r) \<or> (k \<noteq> qr_id r \<and> (k, v) \<in> set d)"
      using ih(2) by (auto simp: update_conv')
    also have "\<dots> \<longleftrightarrow> (k, v) \<in> insert (qr_id r, r) (set d)" using old by blast
    finally show ?thesis .
  qed
  have "set (AList.update (qr_id r) r d) = insert (qr_id r, r) (set d)"
    by (rule set_eqI) (case_tac x, simp only: E)
  then show ?case using dist ih(1) by (simp add: d [symmetric])
qed simp

lemma keep_last_set: "ids_agree (set rs) \<Longrightarrow> set (keep_last rs) = set rs"
  using keep_last_dict [of rs] by (auto simp: keep_last_def image_image)

lemma keep_last_distinct:
  assumes "ids_agree (set rs)"
  shows "distinct (keep_last rs)"
proof -
  obtain d where d: "d = foldl (\<lambda>d r. AList.update (qr_id r) r d) [] rs" by simp
  have "set d = (\<lambda>r. (qr_id r, r)) ` set rs" "distinct (map fst d)" using keep_last_dict [OF assms] unfolding d by auto
  moreover from this have "inj_on snd (set d)" using assms by (auto simp: inj_on_def ids_agree_def)
  ultimately show ?thesis by (simp add: keep_last_def d [symmetric] distinct_map)
qed

section \<open>The first rows of a set\<close>

definition rank :: "qrow set \<Rightarrow> qrow \<Rightarrow> nat" where
  "rank A r = card {s \<in> A. row_sort_key r < row_sort_key s}"

definition front :: "nat \<Rightarrow> qrow set \<Rightarrow> qrow set" where
  "front n A = {r \<in> A. rank A r < n}"

lemma newest_sorted:
  assumes "distinct xs" "ids_agree (set xs)"
  shows "sorted_wrt (\<lambda>r s. row_sort_key s < row_sort_key r) (newest_first xs)" "distinct (newest_first xs)" "set (newest_first xs) = set xs"
proof -
  let ?ys = "sort_key row_sort_key (rev xs)"
  have inj: "inj_on row_sort_key (set xs)" by (rule row_key_inj [OF assms(2)])
  have "sorted (map row_sort_key ?ys)" "distinct (map row_sort_key ?ys)" using assms(1) inj by (simp_all add: distinct_map)
  then have "sorted_wrt (<) (map row_sort_key ?ys)" by (simp add: strict_sorted_iff)
  then show "sorted_wrt (\<lambda>r s. row_sort_key s < row_sort_key r) (newest_first xs)"
    by (simp add: newest_first_def sort_desc_key_def sorted_wrt_rev sorted_wrt_map)
  show "distinct (newest_first xs)" "set (newest_first xs) = set xs"
    using assms(1) by (simp_all add: newest_first_def sort_desc_key_def)
qed

lemma newest_rank:
  assumes "distinct xs" "ids_agree (set xs)" "i < length xs"
  shows "rank (set xs) (newest_first xs ! i) = i"
proof -
  obtain ys where ys: "ys = newest_first xs" by simp
  have s: "sorted_wrt (\<lambda>r s. row_sort_key s < row_sort_key r) ys" "distinct ys" "set ys = set xs" "i < length ys"
    using newest_sorted [OF assms(1,2)] assms(3) by (simp_all add: ys newest_first_def)
  have lt: "row_sort_key (ys ! i) < row_sort_key (ys ! j) \<longleftrightarrow> j < i" if "j < length ys" for j
    using sorted_wrt_nth_less [OF s(1), of i j] sorted_wrt_nth_less [OF s(1), of j i] s(4) that
    by (cases i j rule: linorder_cases) auto
  have "{s \<in> set ys. row_sort_key (ys ! i) < row_sort_key s} = (!) ys ` {..<i}"
  proof
    show "{s \<in> set ys. row_sort_key (ys ! i) < row_sort_key s} \<subseteq> (!) ys ` {..<i}"
      using lt by (force simp: in_set_conv_nth)
    show "(!) ys ` {..<i} \<subseteq> {s \<in> set ys. row_sort_key (ys ! i) < row_sort_key s}"
      using lt s(4) by auto
  qed
  then show ?thesis using s(2,4) unfolding rank_def s(3) [symmetric] ys [symmetric]
    by (simp add: card_image inj_on_nth)
qed

lemma newest_take:
  assumes "distinct xs" "ids_agree (set xs)"
  shows "set (take n (newest_first xs)) = front n (set xs)"
proof -
  obtain ys where ys: "ys = newest_first xs" by simp
  have s: "set ys = set xs" "length ys = length xs" using newest_sorted [OF assms] by (simp_all add: ys newest_first_def)
  have r: "rank (set xs) (ys ! i) = i" if "i < length ys" for i using newest_rank [OF assms, of i] that s(2) unfolding ys by simp
  have "x \<in> set (take n ys) \<longleftrightarrow> x \<in> set ys \<and> rank (set xs) x < n" for x
    using r by (auto simp: in_set_conv_nth)
  then show ?thesis by (auto simp: front_def ys [symmetric] s(1))
qed

lemma top_card:
  assumes "finite A" "ids_agree A"
  shows "card (front n A) = min n (card A)"
proof -
  obtain xs where xs: "set xs = A" "distinct xs" using finite_distinct_list [OF assms(1)] by blast
  have "front n A = set (take n (newest_first xs))" using newest_take xs assms(2) by simp
  moreover have "distinct (take n (newest_first xs))" using newest_sorted(2) xs assms(2) by simp
  ultimately have "card (front n A) = length (take n (newest_first xs))" by (simp only: distinct_card)
  also have "\<dots> = min n (card A)" using xs distinct_card [of xs] by (simp add: newest_first_def)
  finally show ?thesis .
qed

lemma top_subset: "front n A \<subseteq> A"
  by (auto simp: front_def)

lemma rank_mono: "finite B \<Longrightarrow> A \<subseteq> B \<Longrightarrow> rank A r \<le> rank B r"
  unfolding rank_def by (intro card_mono) auto

text \<open>Rows that are not among the first ones do not matter for the first ones.\<close>

lemma top_between:
  assumes "finite A" "ids_agree A" "front n A \<subseteq> B" "B \<subseteq> A"
  shows "front n B = front n A"
proof
  show "front n A \<subseteq> front n B"
    using assms rank_mono [OF assms(1,4)] by (force simp: front_def intro: le_less_trans)
  show "front n B \<subseteq> front n A"
  proof
    fix r
    assume r: "r \<in> front n B"
    show "r \<in> front n A"
    proof (rule ccontr)
      assume out: "r \<notin> front n A"
      have rA: "r \<in> A" using r assms(4) by (auto simp: front_def)
      then have big: "n \<le> rank A r" using out by (simp add: front_def)
      have "{s \<in> front n A. row_sort_key r < row_sort_key s} = front n A"
      proof -
        have "row_sort_key r < row_sort_key s" if s: "s \<in> front n A" for s
        proof (rule ccontr)
          assume "\<not> row_sort_key r < row_sort_key s"
          then have "{t \<in> A. row_sort_key r < row_sort_key t} \<subseteq> {t \<in> A. row_sort_key s < row_sort_key t}" by auto
          then have "rank A r \<le> rank A s" unfolding rank_def using assms(1) by (intro card_mono) auto
          then show False using s big by (simp add: front_def)
        qed
        then show ?thesis by blast
      qed
      then have "front n A \<subseteq> {s \<in> B. row_sort_key r < row_sort_key s}" using assms(3) by blast
      then have "card (front n A) \<le> rank B r"
        unfolding rank_def using finite_subset [OF assms(4,1)] by (intro card_mono) auto
      moreover have "rank A r \<le> card A - 1"
      proof -
        have "{s \<in> A. row_sort_key r < row_sort_key s} \<subseteq> A - {r}" by auto
        then have "rank A r \<le> card (A - {r})" unfolding rank_def using assms(1) by (intro card_mono) auto
        then show ?thesis using rA assms(1) by simp
      qed
      ultimately have "n \<le> rank B r" using top_card [OF assms(1,2), of n] big rA assms(1)
        by (metis card_0_eq diff_le_self empty_iff le_trans min_absorb1)
      then show False using r by (simp add: front_def)
    qed
  qed
qed

lemma top_mono_union: "finite B \<Longrightarrow> A \<subseteq> B \<Longrightarrow> front n B \<inter> A \<subseteq> front n A"
  using rank_mono [of B A] by (force simp: front_def intro: le_less_trans)

lemma top_Union:
  assumes "finite (\<Union>(f ` I))" "ids_agree (\<Union>(f ` I))" "\<And>i. i \<in> I \<Longrightarrow> front n (f i) \<subseteq> g i \<and> g i \<subseteq> f i"
  shows "front n (\<Union>(g ` I)) = front n (\<Union>(f ` I))"
proof (rule top_between [OF assms(1,2)])
  show "front n (\<Union>(f ` I)) \<subseteq> \<Union>(g ` I)"
  proof
    fix r
    assume r: "r \<in> front n (\<Union>(f ` I))"
    then obtain i where i: "i \<in> I" "r \<in> f i" by (auto simp: front_def)
    then have "r \<in> front n (f i)" using top_mono_union [OF assms(1), of "f i"] r by blast
    then show "r \<in> \<Union>(g ` I)" using assms(3) i by blast
  qed
qed (use assms(3) in blast)

text \<open>Older rows beyond a full front do not change it.\<close>

lemma top_older:
  assumes "finite (A \<union> C)" "ids_agree (A \<union> C)" "n \<le> card A" "\<And>r c. r \<in> front n A \<Longrightarrow> c \<in> C \<Longrightarrow> row_sort_key c < row_sort_key r"
  shows "front n (A \<union> C) = front n A"
proof -
  have fin: "finite A" "ids_agree A" using assms(1,2) by (auto intro: ids_agree_mono)
  have "front n (A \<union> C) \<subseteq> A"
  proof
    fix r
    assume r: "r \<in> front n (A \<union> C)"
    show "r \<in> A"
    proof (rule ccontr)
      assume "r \<notin> A"
      then have "r \<in> C" using r by (auto simp: front_def)
      then have "front n A \<subseteq> {s \<in> A \<union> C. row_sort_key r < row_sort_key s}" using assms(4) top_subset by blast
      then have "card (front n A) \<le> rank (A \<union> C) r" unfolding rank_def using assms(1) by (intro card_mono) auto
      then show False using r top_card [OF fin, of n] assms(3) by (simp add: front_def)
    qed
  qed
  then show ?thesis using top_between [OF assms(1,2), of n A] by blast
qed

section \<open>Pages\<close>

definition page_of :: "nat \<Rightarrow> nat \<Rightarrow> qrow list \<Rightarrow> qrow list" where
  "page_of offset limit rs = take limit (drop offset rs)"

lemma newest_take_determined:
  assumes "distinct xs" "distinct ys" "ids_agree (set xs \<union> set ys)" "front n (set xs) = front n (set ys)"
  shows "take n (newest_first xs) = take n (newest_first ys)"
proof -
  have ids: "ids_agree (set xs)" "ids_agree (set ys)" using assms(3) by (auto intro: ids_agree_mono)
  have inj: "inj_on row_sort_key (set xs)" by (rule row_key_inj [OF ids(1)])
  let ?a = "take n (newest_first xs)" and ?b = "take n (newest_first ys)"
  have sets: "set ?a = set ?b" using newest_take [OF assms(1) ids(1)] newest_take [OF assms(2) ids(2)] assms(4) by simp
  have sorted: "sorted_wrt (\<lambda>r s. row_sort_key s < row_sort_key r) ?a" "sorted_wrt (\<lambda>r s. row_sort_key s < row_sort_key r) ?b"
    using newest_sorted(1) [OF assms(1) ids(1)] newest_sorted(1) [OF assms(2) ids(2)] by (simp_all add: sorted_wrt_take)
  have "sorted_wrt (<) (map row_sort_key (rev ?a))" "sorted_wrt (<) (map row_sort_key (rev ?b))"
    using sorted by (simp_all add: sorted_wrt_map sorted_wrt_rev)
  then have "map row_sort_key (rev ?a) = map row_sort_key (rev ?b)"
    using sets by (intro sorted_distinct_set_unique) (simp_all add: strict_sorted_iff)
  moreover have "inj_on row_sort_key (set (rev ?a) \<union> set (rev ?b))"
    using inj sets set_take_subset [of n "newest_first xs"] newest_sorted(3) [OF assms(1) ids(1)]
    by (auto intro: inj_on_subset)
  ultimately have "rev ?a = rev ?b" by (rule map_inj_on)
  then show ?thesis by simp
qed

text \<open>The list a page is cut from, determined by its set of rows.\<close>

lemma newest_determined:
  assumes "distinct xs" "distinct ys" "set xs = set ys" "ids_agree (set xs)"
  shows "newest_first xs = newest_first ys"
proof -
  have "length xs = length ys" using assms(1-3) distinct_card by metis
  moreover have "take (length xs) (newest_first xs) = take (length xs) (newest_first ys)"
    by (rule newest_take_determined) (use assms in simp_all)
  ultimately show ?thesis by (simp add: newest_first_def)
qed

end
