(* ===== verification/EventFilter.thy ===== *)
theory EventFilter
  imports TopPage Texts
begin

text \<open>
  Which events a query selects, in \<open>app/storage.py\<close>: the filter every reader applies (\<open>_filters\<close>), the exact primary
  key filter, the catalog and row group tests that skip whole parts or groups, and the keys under which answers about
  a part are remembered (\<open>_query_probe_fingerprint\<close>, \<open>_query_certificate_fingerprint\<close>). Missing values of a row are
  empty texts; the event type of a row is always present. SHA-256 and JSON are the parameter \<open>hash\<close>. A clock is read once per query in the model.
\<close>

section \<open>Queries\<close>

datatype exact_verdict = Hit | Miss | UnknownSchema

record event_query =
  q_source :: string
  q_instance :: string
  q_database :: string
  q_table :: string
  q_connection :: string
  q_account :: string
  q_status :: string
  q_operations :: "string list"
  q_transaction :: string
  q_keyword :: string
  q_keyword_mode :: string
  q_exact :: "string option"
  q_start :: "int option"
  q_end :: "int option"
  q_limit :: int
  q_offset :: int

definition AUDIT_EVENT_TYPE :: string where "AUDIT_EVENT_TYPE = ''TABULARIS_AUDIT''"
definition SLOW_LOG_EVENT_TYPE :: string where "SLOW_LOG_EVENT_TYPE = ''SLOW_LOG''"

definition query_terms :: "event_query \<Rightarrow> string list" where
  "query_terms q = take 20 (map lower_text (words (strip (q_keyword q))))"

definition wants_any :: "event_query \<Rightarrow> bool" where
  "wants_any q \<longleftrightarrow> upper_text (q_keyword_mode q) = ''OR''"

text \<open>\<open>int(value or default)\<close> and the tests \<open>if query.get(\<dots>)\<close>: an absent bound and a bound of 0 do not restrict.\<close>

definition bound_or :: "int option \<Rightarrow> int \<Rightarrow> int" where
  "bound_or b d = (case b of None \<Rightarrow> d | Some n \<Rightarrow> if n = 0 then d else n)"

definition RETENTION_DAY_US :: int where "RETENTION_DAY_US = 86400 * 1000000"

definition storage_window :: "int \<Rightarrow> int \<Rightarrow> event_query \<Rightarrow> int \<times> int" where
  "storage_window now retention q =
     (let cutoff = now - retention * RETENTION_DAY_US
      in (max (bound_or (q_start q) cutoff) cutoff, min (bound_or (q_end q) now) now))"

section \<open>The filter\<close>

definition source_matches :: "event_query \<Rightarrow> qrow \<Rightarrow> bool" where
  "source_matches q r =
     (let s = lower_text (strip (q_source q))
      in if s = ''audit'' then qr_type r = AUDIT_EVENT_TYPE
         else if s = ''database'' then qr_type r \<noteq> AUDIT_EVENT_TYPE
         else if s = ''slowlog'' then qr_type r = SLOW_LOG_EVENT_TYPE
         else if s = ''binlog'' then qr_type r \<notin> {AUDIT_EVENT_TYPE, SLOW_LOG_EVENT_TYPE}
         else True)"

definition field_matches :: "bool \<Rightarrow> string \<Rightarrow> string list \<Rightarrow> bool" where
  "field_matches whole value columns =
     (let v = lower_text (strip value)
      in v = [] \<or> list_ex (\<lambda>c. if whole then lower_text c = v else contains_text v (lower_text c)) columns)"

definition searched_texts :: "qrow \<Rightarrow> string list" where
  "searched_texts r = [qr_sql r, qr_before r, qr_after r, qr_transaction r, qr_source_file r, qr_connection_name r, qr_account r, qr_error r]"

definition term_matches :: "qrow \<Rightarrow> string \<Rightarrow> bool" where
  "term_matches r t = list_ex (\<lambda>c. contains_text t (lower_text c)) (searched_texts r)"

definition keyword_matches :: "event_query \<Rightarrow> qrow \<Rightarrow> bool" where
  "keyword_matches q r = (query_terms q = [] \<or>
     (if wants_any q then list_ex (term_matches r) (query_terms q) else list_all (term_matches r) (query_terms q)))"

definition sql_operations :: "event_query \<Rightarrow> string list" where
  "sql_operations q = map upper_text (filter (\<lambda>v. strip v \<noteq> []) (q_operations q))"

definition row_matches :: "int \<Rightarrow> int \<Rightarrow> event_query \<Rightarrow> qrow \<Rightarrow> bool" where
  "row_matches now retention q r \<longleftrightarrow>
     now - retention * RETENTION_DAY_US \<le> qr_epoch r
     \<and> (q_start q \<in> {None, Some 0} \<or> the (q_start q) \<le> qr_epoch r)
     \<and> (q_end q \<in> {None, Some 0} \<or> qr_epoch r \<le> the (q_end q))
     \<and> source_matches q r
     \<and> (strip (q_transaction q) = [] \<or> strip (q_transaction q) \<in> {qr_transaction r, qr_gtid r})
     \<and> field_matches True (q_instance q) [qr_instance r]
     \<and> field_matches (q_exact q \<noteq> None) (q_connection q) [qr_connection r, qr_connection_name r]
     \<and> field_matches (q_exact q \<noteq> None) (q_account q) [qr_account r]
     \<and> field_matches (q_exact q \<noteq> None) (q_database q) [qr_database r]
     \<and> field_matches (q_exact q \<noteq> None) (q_table q) [qr_table r]
     \<and> field_matches True (q_status q) [qr_status r]
     \<and> (sql_operations q = [] \<or> qr_operation r \<in> set (sql_operations q))
     \<and> keyword_matches q r"

text \<open>
  The exact filter in front of it: the verdict on the primary key of each row of the right place, time and operation;
  \<open>None\<close> when a row's schema is unknown (the code raises). \<open>verdict\<close> is the exact index's judgement of one row.
\<close>

definition stripped_operations :: "string list \<Rightarrow> string list" where
  "stripped_operations ops = filter (\<lambda>v. v \<noteq> []) (map (\<lambda>v. upper_text (strip v)) ops)"

definition exact_candidate :: "int \<Rightarrow> int \<Rightarrow> event_query \<Rightarrow> qrow \<Rightarrow> bool" where
  "exact_candidate now retention q r =
     (let cutoff = now - retention * RETENTION_DAY_US; start = max (bound_or (q_start q) cutoff) cutoff; stop = bound_or (q_end q) now
      in start \<le> qr_epoch r \<and> qr_epoch r \<le> stop \<and> lower_text (qr_database r) = lower_text (strip (q_database q))
       \<and> lower_text (qr_table r) = lower_text (strip (q_table q))
       \<and> (stripped_operations (q_operations q) = [] \<or> upper_text (qr_operation r) \<in> set (stripped_operations (q_operations q))))"

definition filter_exact :: "(string \<Rightarrow> qrow \<Rightarrow> exact_verdict) \<Rightarrow> int \<Rightarrow> int \<Rightarrow> event_query \<Rightarrow> qrow list \<Rightarrow> qrow list option" where
  "filter_exact verdict now retention q rs = (case q_exact q of None \<Rightarrow> Some rs
     | Some value \<Rightarrow>
         (let candidates = filter (exact_candidate now retention q) rs
          in if list_ex (\<lambda>r. verdict value r = UnknownSchema) candidates then None
             else Some (filter (\<lambda>r. verdict value r = Hit) candidates)))"

text \<open>The rows a query selects of a table, and the page \<open>_query_arrow_table\<close> cuts from it.\<close>

record table_page =
  tp_rows :: "qrow list"
  tp_more :: bool

definition selected_rows :: "(string \<Rightarrow> qrow \<Rightarrow> exact_verdict) \<Rightarrow> int \<Rightarrow> int \<Rightarrow> event_query \<Rightarrow> qrow list \<Rightarrow> qrow list option" where
  "selected_rows verdict now retention q rs = map_option (filter (row_matches now retention q)) (filter_exact verdict now retention q rs)"

definition query_arrow_table :: "(string \<Rightarrow> qrow \<Rightarrow> exact_verdict) \<Rightarrow> int \<Rightarrow> int \<Rightarrow> event_query \<Rightarrow> int \<Rightarrow> qrow list \<Rightarrow> table_page option" where
  "query_arrow_table verdict now retention q cap rs =
     (let limit = nat (min (max (if q_limit q = 0 then 100 else q_limit q) 1) cap); offset = nat (min (max (q_offset q) 0) 100000)
      in map_option (\<lambda>sel. let found = drop offset (newest_first sel) in \<lparr>tp_rows = take limit found, tp_more = limit < length found\<rparr>)
           (selected_rows verdict now retention q rs))"

section \<open>Skipping parts and row groups\<close>

record part_catalog =
  pk_databases :: "string list"
  pk_tables :: "string list"
  pk_operations :: "string list"

definition catalog_allows :: "part_catalog \<Rightarrow> event_query \<Rightarrow> bool" where
  "catalog_allows c q =
     (let database = lower_text (strip (q_database q)); table = lower_text (strip (q_table q)); ops = stripped_operations (q_operations q)
      in if database \<noteq> [] \<and> \<not> list_ex (\<lambda>v. contains_text database (lower_text v)) (pk_databases c) then False
         else if table \<noteq> [] \<and> \<not> list_ex (\<lambda>v. contains_text table (lower_text v)) (pk_tables c) then False
         else \<not> (ops \<noteq> [] \<and> set ops \<inter> set (stripped_operations (pk_operations c)) = {}))"

text \<open>The statistics of a row group in the Parquet footer, as far as it has them.\<close>

record group_stats =
  gs_time :: "(int \<times> int) option"
  gs_database :: "(string \<times> string) option"
  gs_table :: "(string \<times> string) option"
  gs_operation :: "(string \<times> string) option"

record row_group =
  rg_stats :: group_stats
  rg_rows :: "qrow list"

definition impossible_value :: "string \<Rightarrow> (string \<times> string) option \<Rightarrow> bool" where
  "impossible_value wanted stats = (wanted \<noteq> [] \<and> (case stats of None \<Rightarrow> False | Some (lo, hi) \<Rightarrow> lo = hi \<and> \<not> contains_text wanted (lower_text lo)))"

definition stats_exclude :: "event_query \<Rightarrow> group_stats \<Rightarrow> bool" where
  "stats_exclude q s =
     (let ops = stripped_operations (q_operations q)
      in (case gs_time s of None \<Rightarrow> False | Some (lo, hi) \<Rightarrow>
            (case q_start q of None \<Rightarrow> False | Some a \<Rightarrow> hi < a) \<or> (case q_end q of None \<Rightarrow> False | Some b \<Rightarrow> b < lo))
         \<or> impossible_value (lower_text (strip (q_table q))) (gs_table s)
         \<or> impossible_value (lower_text (strip (q_database q))) (gs_database s)
         \<or> (ops \<noteq> [] \<and> (case gs_operation s of None \<Rightarrow> False | Some (lo, hi) \<Rightarrow> \<not> list_ex (\<lambda>v. upper_text lo \<le> v \<and> v \<le> upper_text hi) ops)))"

text \<open>The read of the few columns the test needs; a group whose read raises is kept (\<open>broken\<close>).\<close>

definition probe_hit :: "event_query \<Rightarrow> qrow \<Rightarrow> bool" where
  "probe_hit q r =
     (let ops = stripped_operations (q_operations q); database = lower_text (strip (q_database q)); table = lower_text (strip (q_table q))
      in (case q_start q of None \<Rightarrow> True | Some a \<Rightarrow> a \<le> qr_epoch r) \<and> (case q_end q of None \<Rightarrow> True | Some b \<Rightarrow> qr_epoch r \<le> b)
       \<and> (database = [] \<or> contains_text database (lower_text (qr_database r))) \<and> (table = [] \<or> contains_text table (lower_text (qr_table r)))
       \<and> (ops = [] \<or> upper_text (qr_operation r) \<in> set ops))"

definition structural_groups :: "(row_group \<Rightarrow> bool) \<Rightarrow> event_query \<Rightarrow> row_group list \<Rightarrow> row_group list" where
  "structural_groups broken q gs =
     (if strip (q_table q) = [] \<and> strip (q_database q) = [] \<and> stripped_operations (q_operations q) = [] then gs
      else filter (\<lambda>g. \<not> stats_exclude q (rg_stats g) \<and> (broken g \<and> rg_rows g \<noteq> [] \<or> list_ex (probe_hit q) (rg_rows g))) gs)"


section \<open>Keys of remembered answers\<close>

record probe_payload =
  pq_start :: int
  pq_end :: int
  pq_source :: string
  pq_database :: string
  pq_table :: string
  pq_connection :: string
  pq_account :: string
  pq_status :: string
  pq_operations :: "string list"
  pq_terms :: "string list"
  pq_any :: bool
  pq_transaction :: string
  pq_exact :: "string option"

definition folded :: "string \<Rightarrow> string" where
  "folded s = lower_text (strip s)"

definition query_payload :: "event_query \<Rightarrow> int \<Rightarrow> int \<Rightarrow> probe_payload" where
  "query_payload q start stop = \<lparr>pq_start = start, pq_end = stop, pq_source = folded (q_source q), pq_database = folded (q_database q),
     pq_table = folded (q_table q), pq_connection = folded (q_connection q), pq_account = folded (q_account q), pq_status = folded (q_status q),
     pq_operations = sort (remdups (stripped_operations (q_operations q))), pq_terms = query_terms q,
     pq_any = (query_terms q \<noteq> [] \<and> wants_any q), pq_transaction = strip (q_transaction q), pq_exact = q_exact q\<rparr>"

definition query_probe_fingerprint :: "(probe_payload \<Rightarrow> string) \<Rightarrow> event_query \<Rightarrow> int \<Rightarrow> int \<Rightarrow> int \<Rightarrow> int \<Rightarrow> string" where
  "query_probe_fingerprint hash q part_min part_max start stop = hash (query_payload q (max start part_min) (min stop part_max))"

definition query_certificate_fingerprint :: "(string \<times> string \<times> probe_payload \<Rightarrow> string) \<Rightarrow> event_query \<Rightarrow> int \<Rightarrow> int \<Rightarrow> string \<Rightarrow> string" where
  "query_certificate_fingerprint hash q start stop inst = hash (strip inst, strip (q_instance q), query_payload q start stop)"

section \<open>Text lemmas\<close>

lemma contains_self: "contains_text v v"
  unfolding contains_text_def list_ex_iff by (rule bexI [of _ 0]) auto

lemma code_upper: "(of_char (upper_char c) :: nat) = (if 97 \<le> (of_char c :: nat) \<and> (of_char c :: nat) \<le> 122 then of_char c - 32 else of_char c)"
  using nat_of_char_less_256 [of c] by (auto simp: upper_char_def)

lemma upper_char_idem: "upper_char (upper_char c) = upper_char c"
  using code_upper [of c] by (auto simp: upper_char_def [of "upper_char c"])

lemma blank_upper: "blank (upper_char c) = blank c"
  using code_upper [of c] by (auto simp: blank_def)

lemma upper_text_idem [simp]: "upper_text (upper_text s) = upper_text s"
  by (simp add: upper_text_def upper_char_idem)

lemma dropWhile_map_blank: "dropWhile blank (map upper_char s) = map upper_char (dropWhile blank s)"
  by (induction s) (simp_all add: blank_upper)

lemma strip_upper: "strip (upper_text s) = upper_text (strip s)"
  by (simp only: strip_def upper_text_def dropWhile_map_blank rev_map)

lemma upper_Nil [simp]: "upper_text s = [] \<longleftrightarrow> s = []"
  by (simp add: upper_text_def)

text \<open>The server hands over trimmed upper-case operations.\<close>

definition clean_operations :: "event_query \<Rightarrow> bool" where
  "clean_operations q \<longleftrightarrow> (\<forall>v \<in> set (q_operations q). strip v = v)"

lemma clean_sql: "clean_operations q \<Longrightarrow> set (sql_operations q) = set (stripped_operations (q_operations q))"
  by (fastforce simp: clean_operations_def sql_operations_def stripped_operations_def)

lemma wanted_operation:
  assumes "qr_operation r \<in> set (sql_operations q)"
  shows "upper_text (strip (qr_operation r)) \<in> set (stripped_operations (q_operations q))"
proof -
  obtain v where v: "v \<in> set (q_operations q)" "strip v \<noteq> []" "qr_operation r = upper_text v" using assms by (auto simp: sql_operations_def)
  then have "upper_text (strip (qr_operation r)) = upper_text (strip v)" by (simp add: strip_upper)
  then show ?thesis using v by (auto simp: stripped_operations_def)
qed

lemma no_operations: "sql_operations q = [] \<longleftrightarrow> stripped_operations (q_operations q) = []"
  by (auto simp: sql_operations_def stripped_operations_def filter_empty_conv)

lemma field_contains: "field_matches whole value [c] \<Longrightarrow> folded value = [] \<or> contains_text (folded value) (lower_text c)"
  by (auto simp: field_matches_def Let_def folded_def contains_self split: if_splits)

lemma contains_iff: "contains_text v h \<longleftrightarrow> (\<exists>a c. h = a @ v @ c)"
proof
  assume "contains_text v h"
  then obtain i where "take (length v) (drop i h) = v" by (auto simp: contains_text_def list_ex_iff)
  then have "h = take i h @ v @ drop (length v) (drop i h)" by (metis append_take_drop_id)
  then show "\<exists>a c. h = a @ v @ c" by blast
next
  assume "\<exists>a c. h = a @ v @ c"
  then obtain a c where h: "h = a @ v @ c" by blast
  show "contains_text v h" unfolding contains_text_def list_ex_iff by (rule bexI [of _ "length a"]) (simp_all add: h)
qed

lemma ascii_lower_idem: "ascii_lower (ascii_lower c) = ascii_lower c"
  using nat_of_char_less_256 [of c] by (auto simp: ascii_lower_def)

lemma lower_idem [simp]: "lower_text (lower_text s) = lower_text s"
  by (simp add: lower_text_def ascii_lower_idem)

lemma blank_lower: "blank (ascii_lower c) = blank c"
  using nat_of_char_less_256 [of c] by (auto simp: ascii_lower_def blank_def)

lemma strip_Nil: "strip s = [] \<longleftrightarrow> (\<forall>c \<in> set s. blank c)"
proof -
  have "strip s = [] \<longleftrightarrow> (\<forall>c \<in> set (dropWhile blank s). blank c)" by (simp add: strip_def)
  also have "\<dots> \<longleftrightarrow> dropWhile blank s = []" by (metis dropWhile_eq_Nil_conv hd_dropWhile hd_in_set list.set_sel(1) empty_iff empty_set)
  finally show ?thesis by (simp add: dropWhile_eq_Nil_conv)
qed

lemma strip_nonblank: "strip s \<noteq> [] \<Longrightarrow> \<exists>c \<in> set (strip s). \<not> blank c"
proof -
  assume s: "strip s \<noteq> []"
  obtain d where d: "d = dropWhile blank s" by simp
  have "rev (dropWhile blank (rev d)) \<noteq> []" using s by (simp add: strip_def d)
  then have "hd (dropWhile blank (rev d)) \<in> set (rev (dropWhile blank (rev d)))" "\<not> blank (hd (dropWhile blank (rev d)))"
    using hd_dropWhile [of blank "rev d"] by auto
  then show ?thesis unfolding strip_def d by blast
qed

lemma folded_inside:
  assumes "folded s \<noteq> []" "contains_text (folded s) (lower_text t)"
  shows "strip t \<noteq> []"
proof -
  have "strip s \<noteq> []" using assms(1) by (auto simp: folded_def lower_text_def)
  then obtain c where "c \<in> set (strip s)" "\<not> blank c" using strip_nonblank by blast
  then have c: "ascii_lower c \<in> set (folded s)" "\<not> blank (ascii_lower c)" by (simp_all add: folded_def lower_text_def blank_lower)
  then have "ascii_lower c \<in> set (lower_text t)" using assms(2) by (auto simp: contains_iff)
  then obtain d where "d \<in> set t" "ascii_lower d = ascii_lower c" by (auto simp: lower_text_def)
  then show ?thesis using c(2) blank_lower [of d] strip_Nil [of t] by auto
qed

section \<open>Skipping is sound\<close>

text \<open>
  A catalog lists the names of its rows, up to case, and their operations in upper case; names of blanks are left out,
  since no query asks for them. \<open>catalog_from_relation\<close> is the aggregate DuckDB computes over the events of a part when
  it is written, in lower case (its \<open>trim\<close> drops spaces only); \<open>catalog_from_table\<close> is what \<open>ensure_part_catalog\<close> computes
  later from the columns of the body, in the case of the rows. Both are true of the rows they are computed from.
\<close>

definition trimmed_empty :: "string \<Rightarrow> bool" where
  "trimmed_empty v \<longleftrightarrow> (\<forall>c \<in> set v. c = CHR '' '')"

definition catalog_from_relation :: "qrow list \<Rightarrow> part_catalog" where
  "catalog_from_relation rs = \<lparr>
     pk_databases = sort (remdups (map lower_text (filter (\<lambda>v. \<not> trimmed_empty v) (map qr_database rs)))),
     pk_tables = sort (remdups (map lower_text (filter (\<lambda>v. \<not> trimmed_empty v) (map qr_table rs)))),
     pk_operations = sort (remdups (map upper_text (filter (\<lambda>v. \<not> trimmed_empty v) (map qr_operation rs))))\<rparr>"

definition catalog_from_table :: "qrow list \<Rightarrow> part_catalog" where
  "catalog_from_table rs = \<lparr>
     pk_databases = sort (remdups (filter (\<lambda>v. strip v \<noteq> []) (map qr_database rs))),
     pk_tables = sort (remdups (filter (\<lambda>v. strip v \<noteq> []) (map qr_table rs))),
     pk_operations = sort (remdups (map upper_text (filter (\<lambda>v. strip v \<noteq> []) (map qr_operation rs))))\<rparr>"

definition catalog_true :: "part_catalog \<Rightarrow> qrow list \<Rightarrow> bool" where
  "catalog_true c rs \<longleftrightarrow> (\<forall>r \<in> set rs. (strip (qr_database r) \<noteq> [] \<longrightarrow> lower_text (qr_database r) \<in> lower_text ` set (pk_databases c))
     \<and> (strip (qr_table r) \<noteq> [] \<longrightarrow> lower_text (qr_table r) \<in> lower_text ` set (pk_tables c))
     \<and> (strip (qr_operation r) \<noteq> [] \<longrightarrow> upper_text (qr_operation r) \<in> set (pk_operations c)))"

lemma trimmed_strip: "trimmed_empty v \<Longrightarrow> strip v = []"
proof -
  have "blank (CHR '' '')" by (simp add: blank_def)
  then show "trimmed_empty v \<Longrightarrow> strip v = []" unfolding trimmed_empty_def strip_Nil by metis
qed

lemma catalog_from_relation_true: "catalog_true (catalog_from_relation rs) rs"
proof -
  have "\<not> trimmed_empty v" if "strip v \<noteq> []" for v using that trimmed_strip by blast
  moreover have "lower_text x \<in> lower_text ` (lower_text ` V)" if "x \<in> V" for x V using that lower_idem [of x] by (metis image_eqI)
  ultimately show ?thesis unfolding catalog_true_def catalog_from_relation_def part_catalog.simps set_sort set_remdups set_map set_filter by blast
qed

lemma catalog_from_table_true: "catalog_true (catalog_from_table rs) rs"
  unfolding catalog_true_def catalog_from_table_def part_catalog.simps set_sort set_remdups set_map set_filter by blast

lemma catalog_sound:
  assumes "catalog_true c rs" "r \<in> set rs" "row_matches now retention q r"
  shows "catalog_allows c q"
proof -
  have r: "strip (qr_database r) \<noteq> [] \<Longrightarrow> lower_text (qr_database r) \<in> lower_text ` set (pk_databases c)"
    "strip (qr_table r) \<noteq> [] \<Longrightarrow> lower_text (qr_table r) \<in> lower_text ` set (pk_tables c)"
    "strip (qr_operation r) \<noteq> [] \<Longrightarrow> upper_text (qr_operation r) \<in> set (pk_operations c)"
    using assms(1,2) by (auto simp: catalog_true_def)
  have named: "folded asked = [] \<or> list_ex (\<lambda>v. contains_text (folded asked) (lower_text v)) names"
    if "field_matches w asked [x]" "strip x \<noteq> [] \<Longrightarrow> lower_text x \<in> lower_text ` set names" for w asked x names
  proof (cases "folded asked = []")
    case False
    with field_contains [OF that(1)] have inside: "contains_text (folded asked) (lower_text x)" by blast
    then have "lower_text x \<in> lower_text ` set names" using folded_inside [OF False] that(2) by blast
    then show ?thesis using inside unfolding list_ex_iff by auto
  qed simp
  obtain w1 w2 where f: "field_matches w1 (q_database q) [qr_database r]" "field_matches w2 (q_table q) [qr_table r]"
    using assms(3) unfolding row_matches_def by blast
  have "folded (q_database q) = [] \<or> list_ex (\<lambda>v. contains_text (folded (q_database q)) (lower_text v)) (pk_databases c)"
    "folded (q_table q) = [] \<or> list_ex (\<lambda>v. contains_text (folded (q_table q)) (lower_text v)) (pk_tables c)"
    by (rule named [OF f(1) r(1)], assumption, rule named [OF f(2) r(2)])
  moreover have "stripped_operations (q_operations q) = [] \<or> set (stripped_operations (q_operations q)) \<inter> set (stripped_operations (pk_operations c)) \<noteq> {}"
  proof (cases "sql_operations q = []")
    case False
    then have op: "qr_operation r \<in> set (sql_operations q)" using assms(3) by (simp add: row_matches_def)
    from wanted_operation [OF op] have in_q: "upper_text (strip (qr_operation r)) \<in> set (stripped_operations (q_operations q))" .
    moreover from this have "strip (qr_operation r) \<noteq> []" by (auto simp: stripped_operations_def)
    then have "upper_text (qr_operation r) \<in> set (pk_operations c)" "strip (upper_text (qr_operation r)) \<noteq> []"
      using r(3) by (simp_all add: strip_upper)
    then have "upper_text (strip (upper_text (qr_operation r))) \<in> set (stripped_operations (pk_operations c))"
      unfolding stripped_operations_def by auto
    ultimately show ?thesis by (auto simp: strip_upper)

  qed (simp add: no_operations)
  ultimately show ?thesis unfolding catalog_allows_def Let_def folded_def [symmetric] by auto
qed

text \<open>Statistics bound the values of their group and are values of it; operations are stored in upper case.\<close>

definition bounds_values :: "('a :: linorder \<times> 'a) option \<Rightarrow> 'a set \<Rightarrow> bool" where
  "bounds_values s V \<longleftrightarrow> (\<forall>lo hi. s = Some (lo, hi) \<longrightarrow> lo \<in> V \<and> hi \<in> V \<and> (\<forall>v \<in> V. lo \<le> v \<and> v \<le> hi))"

definition group_true :: "row_group \<Rightarrow> bool" where
  "group_true g \<longleftrightarrow> bounds_values (gs_time (rg_stats g)) (qr_epoch ` set (rg_rows g)) \<and> bounds_values (gs_database (rg_stats g)) (qr_database ` set (rg_rows g))
     \<and> bounds_values (gs_table (rg_stats g)) (qr_table ` set (rg_rows g)) \<and> bounds_values (gs_operation (rg_stats g)) (qr_operation ` set (rg_rows g))
     \<and> (\<forall>r \<in> set (rg_rows g). upper_text (qr_operation r) = qr_operation r)"

lemma bounds_single: "bounds_values (Some (v, v)) V \<Longrightarrow> x \<in> V \<Longrightarrow> x = v"
  by (force simp: bounds_values_def)

lemma possible_value:
  assumes "bounds_values s V" "x \<in> V" "wanted = [] \<or> contains_text wanted (lower_text x)"
  shows "\<not> impossible_value wanted s"
  using assms bounds_single by (fastforce simp: impossible_value_def split: option.splits)

lemma structural_sound:
  assumes g: "g \<in> set gs" "group_true g" and r: "r \<in> set (rg_rows g)" "row_matches now retention q r"
    and q: "clean_operations q" "q_start q = Some a" "q_end q = Some b" "a \<noteq> 0" "b \<noteq> 0"
  shows "g \<in> set (structural_groups broken q gs)"
proof -
  have t: "a \<le> qr_epoch r" "qr_epoch r \<le> b" using r(2) q by (auto simp: row_matches_def)
  have fields: "folded (q_database q) = [] \<or> contains_text (folded (q_database q)) (lower_text (qr_database r))"
    "folded (q_table q) = [] \<or> contains_text (folded (q_table q)) (lower_text (qr_table r))"
    using r(2) field_contains by (auto simp: row_matches_def)
  have op: "stripped_operations (q_operations q) = [] \<or> qr_operation r \<in> set (stripped_operations (q_operations q))"
    using r(2) clean_sql [OF q(1)] no_operations [of q] by (auto simp: row_matches_def)
  have up: "upper_text (qr_operation r) = qr_operation r" using g(2) r(1) by (simp add: group_true_def)
  have "\<not> stats_exclude q (rg_stats g)"
  proof -
    have "\<not> (case gs_time (rg_stats g) of None \<Rightarrow> False | Some (lo, hi) \<Rightarrow> hi < a \<or> b < lo)"
      using g(2) r(1) t by (force simp: group_true_def bounds_values_def split: option.splits)
    moreover have "\<not> impossible_value (folded (q_table q)) (gs_table (rg_stats g))" "\<not> impossible_value (folded (q_database q)) (gs_database (rg_stats g))"
      using possible_value [OF _ imageI [OF r(1)]] fields g(2) by (auto simp: group_true_def)
    moreover have "list_ex (\<lambda>v. upper_text lo \<le> v \<and> v \<le> upper_text hi) (stripped_operations (q_operations q))"
      if s: "gs_operation (rg_stats g) = Some (lo, hi)" and ops: "stripped_operations (q_operations q) \<noteq> []" for lo hi
    proof -
      have "lo \<in> qr_operation ` set (rg_rows g)" "hi \<in> qr_operation ` set (rg_rows g)" "lo \<le> qr_operation r" "qr_operation r \<le> hi"
        using g(2) r(1) s by (auto simp: group_true_def bounds_values_def)
      moreover from this have "upper_text lo = lo" "upper_text hi = hi" using g(2) by (auto simp: group_true_def)
      ultimately show ?thesis using op ops by (auto simp: list_ex_iff)
    qed
    ultimately show ?thesis unfolding stats_exclude_def Let_def folded_def [symmetric] q by (auto split: option.splits)
  qed
  moreover have "probe_hit q r" unfolding probe_hit_def Let_def folded_def [symmetric] q using t fields op up by simp
  ultimately show ?thesis using g(1) r(1) by (auto simp: structural_groups_def list_ex_iff)
qed


section \<open>Equal keys select equal rows\<close>

lemma field_by_folded: "folded a = folded b \<Longrightarrow> field_matches w a cs = field_matches w b cs"
  by (simp add: field_matches_def folded_def)

lemma source_by_folded: "folded (q_source a) = folded (q_source b) \<Longrightarrow> source_matches a r = source_matches b r"
  by (simp add: source_matches_def folded_def)

text \<open>A query as a scan runs it: with both ends of its window and the retention behind it.\<close>

definition windowed :: "int \<Rightarrow> int \<Rightarrow> event_query \<Rightarrow> int \<Rightarrow> int \<Rightarrow> bool" where
  "windowed now retention q a b \<longleftrightarrow> q_start q = Some a \<and> q_end q = Some b \<and> a \<noteq> 0 \<and> b \<noteq> 0 \<and> now - retention * RETENTION_DAY_US \<le> a"

lemma windowed_matches:
  assumes "windowed now retention q a b"
  shows "row_matches now retention q r \<longleftrightarrow> a \<le> qr_epoch r \<and> qr_epoch r \<le> b \<and> source_matches q r
     \<and> (strip (q_transaction q) = [] \<or> strip (q_transaction q) \<in> {qr_transaction r, qr_gtid r})
     \<and> field_matches True (q_instance q) [qr_instance r]
     \<and> field_matches (q_exact q \<noteq> None) (q_connection q) [qr_connection r, qr_connection_name r]
     \<and> field_matches (q_exact q \<noteq> None) (q_account q) [qr_account r]
     \<and> field_matches (q_exact q \<noteq> None) (q_database q) [qr_database r]
     \<and> field_matches (q_exact q \<noteq> None) (q_table q) [qr_table r]
     \<and> field_matches True (q_status q) [qr_status r]
     \<and> (sql_operations q = [] \<or> qr_operation r \<in> set (sql_operations q))
     \<and> keyword_matches q r"
  using assms by (auto simp: row_matches_def windowed_def)

lemma windowed_candidate:
  assumes "windowed now retention q a b"
  shows "exact_candidate now retention q r \<longleftrightarrow> a \<le> qr_epoch r \<and> qr_epoch r \<le> b \<and> lower_text (qr_database r) = folded (q_database q)
       \<and> lower_text (qr_table r) = folded (q_table q)
       \<and> (stripped_operations (q_operations q) = [] \<or> upper_text (qr_operation r) \<in> set (stripped_operations (q_operations q)))"
  using assms by (auto simp: exact_candidate_def windowed_def bound_or_def Let_def folded_def)

text \<open>The rows of a part lie within its recorded range and belong to the instance its file is listed under.\<close>

definition part_rows_ok :: "int \<Rightarrow> int \<Rightarrow> string \<Rightarrow> qrow list \<Rightarrow> bool" where
  "part_rows_ok lo hi inst rs \<longleftrightarrow> (\<forall>r \<in> set rs. lo \<le> qr_epoch r \<and> qr_epoch r \<le> hi \<and> qr_instance r = inst)"

lemma query_payloadD:
  assumes "query_payload p a b = query_payload q c d"
  shows "a = c" "b = d" "folded (q_source p) = folded (q_source q)" "folded (q_database p) = folded (q_database q)"
    "folded (q_table p) = folded (q_table q)" "folded (q_connection p) = folded (q_connection q)" "folded (q_account p) = folded (q_account q)"
    "folded (q_status p) = folded (q_status q)" "set (stripped_operations (q_operations p)) = set (stripped_operations (q_operations q))"
    "query_terms p = query_terms q" "query_terms q \<noteq> [] \<Longrightarrow> wants_any p = wants_any q" "strip (q_transaction p) = strip (q_transaction q)"
    "q_exact p = q_exact q"
proof -
  have "sort (remdups (stripped_operations (q_operations p))) = sort (remdups (stripped_operations (q_operations q)))"
    using assms by (simp add: query_payload_def)
  then have "set (sort (remdups (stripped_operations (q_operations p)))) = set (sort (remdups (stripped_operations (q_operations q))))" by simp
  then show "set (stripped_operations (q_operations p)) = set (stripped_operations (q_operations q))" by simp
  show "query_terms q \<noteq> [] \<Longrightarrow> wants_any p = wants_any q" using assms by (auto simp: query_payload_def)
qed (use assms in \<open>simp_all add: query_payload_def\<close>)

text \<open>The rows a query selects, when no schema is unknown.\<close>

definition answer_rows :: "(string \<Rightarrow> qrow \<Rightarrow> exact_verdict) \<Rightarrow> int \<Rightarrow> int \<Rightarrow> event_query \<Rightarrow> qrow list \<Rightarrow> qrow list" where
  "answer_rows verdict now retention q rs = filter (\<lambda>r. row_matches now retention q r \<and>
     (case q_exact q of None \<Rightarrow> True | Some value \<Rightarrow> exact_candidate now retention q r \<and> verdict value r = Hit)) rs"

lemma selected_answer: "selected_rows verdict now retention q rs = Some xs \<Longrightarrow> xs = answer_rows verdict now retention q rs"
  by (auto simp: selected_rows_def filter_exact_def Let_def answer_rows_def split: option.splits if_splits intro!: filter_cong)

text \<open>
  The key under which an answer about a part is remembered says enough: two queries with the same key select the same rows
  of a part that is listed for both.
\<close>

lemma probe_key_determines:
  assumes "query_payload p (max a lo) (min b hi) = query_payload q (max c lo') (min d hi')"
    and "windowed now ret p a b" "windowed now' ret' q c d" "clean_operations p" "clean_operations q"
    and "part_rows_ok lo hi inst rs" "part_rows_ok lo' hi' inst' rs"
    and "field_matches True (q_instance p) [inst]" "field_matches True (q_instance q) [inst']"
  shows "answer_rows verdict now ret p rs = answer_rows verdict now' ret' q rs"
proof -
  note key = query_payloadD [OF assms(1)]
  have within: "(a \<le> qr_epoch r \<and> qr_epoch r \<le> b) = (c \<le> qr_epoch r \<and> qr_epoch r \<le> d)" if "r \<in> set rs" for r
    using key(1,2) assms(6,7) that unfolding part_rows_ok_def by (smt (verit, best))
  have inst: "field_matches True (q_instance p) [qr_instance r] = field_matches True (q_instance q) [qr_instance r]" if "r \<in> set rs" for r
    using assms(6-9) that by (auto simp: part_rows_ok_def)
  have none: "stripped_operations (q_operations p) = [] \<longleftrightarrow> stripped_operations (q_operations q) = []"
    using key(9) by (metis set_empty)
  have ops: "set (sql_operations p) = set (sql_operations q)" "sql_operations p = [] \<longleftrightarrow> sql_operations q = []"
    using clean_sql assms(4,5) key(9) none by (simp_all add: no_operations)
  have kw: "keyword_matches p r = keyword_matches q r" for r
    using key(10,11) by (cases "query_terms q = []") (simp_all add: keyword_matches_def)
  have row: "row_matches now ret p r = row_matches now' ret' q r" if "r \<in> set rs" for r
    unfolding windowed_matches [OF assms(2)] windowed_matches [OF assms(3)] kw ops key(12,13) source_by_folded [OF key(3)] inst [OF that]
      field_by_folded [OF key(4)] field_by_folded [OF key(5)] field_by_folded [OF key(6)] field_by_folded [OF key(7)] field_by_folded [OF key(8)]
    using within [OF that] by blast
  have cand: "exact_candidate now ret p r = exact_candidate now' ret' q r" if "r \<in> set rs" for r
    unfolding windowed_candidate [OF assms(2)] windowed_candidate [OF assms(3)] key(4,5,9) none using within [OF that] by blast
  show ?thesis unfolding answer_rows_def by (rule filter_cong [OF refl]) (simp add: row cand key(13) split: option.split)
qed

text \<open>
  Operations with blanks are the exception: the key trims them, the filter does not, so a query for \<open>' INSERT'\<close>, which selects
  nothing, shares its key with one for \<open>'INSERT'\<close>.
\<close>

definition op_query :: "string \<Rightarrow> event_query" where
  "op_query v = \<lparr>q_source = [], q_instance = [], q_database = [], q_table = [], q_connection = [], q_account = [], q_status = [], q_operations = [v],
     q_transaction = [], q_keyword = [], q_keyword_mode = [], q_exact = None, q_start = Some 5, q_end = Some 9, q_limit = 10, q_offset = 0\<rparr>"

lemma probe_key_confuses:
  "query_payload (op_query '' INSERT'') 5 9 = query_payload (op_query ''INSERT'') 5 9"
  "row_matches 10 1 (op_query ''INSERT'') r \<Longrightarrow> \<not> row_matches 10 1 (op_query '' INSERT'') r"
proof -
  show "query_payload (op_query '' INSERT'') 5 9 = query_payload (op_query ''INSERT'') 5 9" by code_simp
  assume r: "row_matches 10 1 (op_query ''INSERT'') r"
  have "sql_operations (op_query ''INSERT'') = [''INSERT'']" "sql_operations (op_query '' INSERT'') = ['' INSERT'']" by code_simp+
  then show "\<not> row_matches 10 1 (op_query '' INSERT'') r" using r by (simp add: row_matches_def)
qed

end
