(* ===== verification/TieredQuery.thy ===== *)
theory TieredQuery
  imports EventFilter PartSafety
begin

text \<open>
  The query over Parquet parts of \<open>app/storage.py\<close>, \<open>_query_events_tiered_impl\<close>: which parts remain after the search index,
  the catalogs and the remembered probes, the scan of those parts by concurrent readers with its early stop, and the page
  it cuts. The parts and probes are those of \<open>Part store\<close>; the search index plan, the catalogs, the reading of a part
  (\<open>fetch\<close>, a local file or OSS) and the exact index's verdicts are parameters. The order in which readers finish is a
  schedule. Counters, cancellation, the worker and ClickHouse routes are left out; a page row carries no locator.
\<close>

section \<open>The work of a query\<close>

record work_entry =
  we_part :: part
  we_groups :: "nat list option"
  we_max :: int
  we_fp :: string

record index_entry =
  ie_part :: part
  ie_group :: nat
  ie_max :: int

abbreviation ie_path :: "index_entry \<Rightarrow> string" where "ie_path e \<equiv> pt_path (ie_part e)"

record index_plan =
  ip_entries :: "index_entry list"
  ip_unknown :: "string list"

type_synonym part_map = "(string \<times> part) list"

text \<open>Fingerprints of the parts the index knows, and the probes asked for.\<close>

definition index_fingerprints :: "(part \<Rightarrow> string) \<Rightarrow> part_map \<Rightarrow> index_entry list \<Rightarrow> (string \<times> string) list" where
  "index_fingerprints fp parts entries = foldl (\<lambda>d e. case map_of parts (ie_path e) of None \<Rightarrow> d
     | Some p \<Rightarrow> if map_of d (ie_path e) \<noteq> None then d else d @ [(ie_path e, fp p)]) [] entries"

definition probes_for :: "part_map \<Rightarrow> (string \<times> string) list \<Rightarrow> (string \<times> string \<times> string) list" where
  "probes_for parts fps = map (\<lambda>(path, f). (path, pt_sha (the (map_of parts path)), f)) fps"

definition group_entry :: "(string \<times> string) list \<Rightarrow> index_entry \<Rightarrow> (string \<times> work_entry) list \<Rightarrow> (string \<times> work_entry) list" where
  "group_entry fps e d =
     (let w = (case map_of d (ie_path e) of None \<Rightarrow>
                 \<lparr>we_part = ie_part e, we_groups = Some [], we_max = ie_max e, we_fp = (case map_of fps (ie_path e) of None \<Rightarrow> [] | Some f \<Rightarrow> f)\<rparr>
               | Some w \<Rightarrow> w)
      in AList.update (ie_path e) (w\<lparr>we_groups := Some (insort_insert (ie_group e) (case we_groups w of None \<Rightarrow> [] | Some gs \<Rightarrow> gs)),
           we_max := max (we_max w) (ie_max e)\<rparr>) d)"

definition group_entries :: "(string \<times> string) list \<Rightarrow> string list \<Rightarrow> index_entry list \<Rightarrow> (string \<times> work_entry) list" where
  "group_entries fps negative entries = foldl (\<lambda>d e. if ie_path e \<in> set negative then d else group_entry fps e d) [] entries"

text \<open>Parts the index does not know: skipped by their catalog, or with a fingerprint of their own.\<close>

definition catalog_skips :: "(string \<Rightarrow> (string \<times> part_catalog) option) \<Rightarrow> event_query \<Rightarrow> part \<Rightarrow> bool" where
  "catalog_skips catalogs q p = (case catalogs (pt_path p) of None \<Rightarrow> False
     | Some (sha, c) \<Rightarrow> sha = pt_sha p \<and> \<not> catalog_allows c q)"

definition unknown_fingerprints :: "(part \<Rightarrow> string) \<Rightarrow> (string \<Rightarrow> (string \<times> part_catalog) option) \<Rightarrow> event_query \<Rightarrow> part_map \<Rightarrow> string list
    \<Rightarrow> (string \<times> string) list" where
  "unknown_fingerprints fp catalogs q parts unknown =
     foldl (\<lambda>d path. let p = the (map_of parts path) in if catalog_skips catalogs q p then d else AList.update path (fp p) d) [] unknown"

definition add_unknown :: "part_map \<Rightarrow> string list \<Rightarrow> (string \<times> string) list \<Rightarrow> (string \<times> work_entry) list \<Rightarrow> (string \<times> work_entry) list" where
  "add_unknown parts negative fps d = foldl (\<lambda>d (path, f). if path \<in> set negative then d
     else let p = the (map_of parts path) in AList.update path \<lparr>we_part = p, we_groups = None, we_max = pt_max p, we_fp = f\<rparr> d) d fps"

record work_plan =
  wp_work :: "work_entry list"
  wp_positive :: "(string \<times> qrow list) list"
  wp_unavailable :: "part list"

definition body_available :: "(string \<Rightarrow> bool) \<Rightarrow> part \<Rightarrow> bool" where
  "body_available is_file p \<longleftrightarrow> is_file (pt_path p) \<or> pt_key p \<noteq> []"

definition work_order :: "work_entry \<Rightarrow> int \<times> int \<times> string" where
  "work_order w = (we_max w, pt_min (we_part w), pt_path (we_part w))"

definition plan_work :: "(part \<Rightarrow> string) \<Rightarrow> (string \<Rightarrow> (string \<times> part_catalog) option) \<Rightarrow> (string \<Rightarrow> qrow list option) \<Rightarrow> (string \<Rightarrow> bool) \<Rightarrow> event_query
    \<Rightarrow> part list \<Rightarrow> index_plan \<Rightarrow> part_tables \<Rightarrow> work_plan" where
  "plan_work fp catalogs parse is_file q parts plan S =
     (let by_path = map (\<lambda>p. (pt_path p, p)) parts;
          known = index_fingerprints fp by_path (ip_entries plan);
          positive = positive_probe_matches parse (probes_for by_path known) S;
          negative = filter (\<lambda>path. path \<notin> fst ` set positive) (negative_probe_matches (probes_for by_path known) S);
          grouped = group_entries known negative (ip_entries plan);
          unknown = unknown_fingerprints fp catalogs q by_path (ip_unknown plan);
          positive = foldl (\<lambda>d (path, rs). AList.update path rs d) positive (positive_probe_matches parse (probes_for by_path unknown) S);
          negative = filter (\<lambda>path. path \<notin> fst ` set positive) (negative @ negative_probe_matches (probes_for by_path unknown) S);
          work = sort_desc_key work_order (map snd (add_unknown by_path negative unknown grouped))
      in \<lparr>wp_work = filter (\<lambda>w. body_available is_file (we_part w)) work, wp_positive = positive,
           wp_unavailable = filter (\<lambda>p. \<not> body_available is_file p) parts\<rparr>)"

section \<open>Reading one part\<close>

datatype scan_error = ReadFailed string | RowGroupInvalid | ExactSchemaUnknown

definition read_part :: "(part \<Rightarrow> string + row_group list) \<Rightarrow> (row_group \<Rightarrow> bool) \<Rightarrow> event_query \<Rightarrow> part \<Rightarrow> nat list option \<Rightarrow> scan_error + qrow list" where
  "read_part fetch broken q p groups = (case fetch p of Inl code \<Rightarrow> Inl (ReadFailed code)
     | Inr body \<Rightarrow> (case groups of None \<Rightarrow> Inr (concat (map rg_rows (structural_groups broken q body)))
         | Some ids \<Rightarrow> (let inside = filter (\<lambda>i. i < length body) ids
             in if inside = [] then Inl RowGroupInvalid else Inr (concat (map (\<lambda>i. rg_rows (body ! i)) inside)))))"

definition SCAN_CAP :: int where "SCAN_CAP = 100001"

definition scan_entry :: "(part \<Rightarrow> string + row_group list) \<Rightarrow> (row_group \<Rightarrow> bool) \<Rightarrow> (string \<Rightarrow> qrow \<Rightarrow> exact_verdict) \<Rightarrow> int \<Rightarrow> int \<Rightarrow> event_query
    \<Rightarrow> (string \<times> qrow list) list \<Rightarrow> work_entry \<Rightarrow> scan_error + table_page \<times> bool" where
  "scan_entry fetch broken verdict now retention q positive w = (case map_of positive (pt_path (we_part w)) of
       Some rs \<Rightarrow> Inr (\<lparr>tp_rows = rs, tp_more = False\<rparr>, True)
     | None \<Rightarrow> (case read_part fetch broken q (we_part w) (we_groups w) of Inl err \<Rightarrow> Inl err
         | Inr rs \<Rightarrow> (case query_arrow_table verdict now retention q SCAN_CAP rs of None \<Rightarrow> Inl ExactSchemaUnknown
             | Some page \<Rightarrow> Inr (page, False))))"

section \<open>The scan\<close>

record scan_task =
  sk_work :: "work_entry list"
  sk_pages :: "(scan_error + table_page \<times> bool) list"
  sk_target :: nat
  sk_width :: nat

record scan_state =
  ss_rows :: "qrow list"
  ss_next :: nat
  ss_submitted :: nat
  ss_flight :: "nat list"
  ss_done :: "nat list"
  ss_stopped :: bool
  ss_more :: bool
  ss_cut :: bool
  ss_negative :: "work_entry list"
  ss_positive :: "(work_entry \<times> qrow list) list"

abbreviation page_at :: "scan_task \<Rightarrow> nat \<Rightarrow> table_page \<times> bool" where "page_at K i \<equiv> projr (sk_pages K ! i)"

definition scan_start :: "scan_task \<Rightarrow> scan_state" where
  "scan_start K = (let w = min (sk_width K) (length (sk_work K))
     in \<lparr>ss_rows = [], ss_next = 0, ss_submitted = w, ss_flight = [0..<w], ss_done = [], ss_stopped = False, ss_more = False, ss_cut = False,
          ss_negative = [], ss_positive = []\<rparr>)"

definition leading_rows :: "nat \<Rightarrow> qrow list \<Rightarrow> qrow list" where
  "leading_rows target rs = take target (newest_first (keep_last rs))"

text \<open>One result of the contiguous prefix: its rows, what is worth remembering, the bound on memory, and the early stop.\<close>

definition consume :: "scan_task \<Rightarrow> scan_state \<Rightarrow> scan_state" where
  "consume K st =
     (let i = ss_next st; w = sk_work K ! i; (page, cached) = page_at K i; target = sk_target K;
          rows = ss_rows st @ tp_rows page;
          cut = 4 * target < length rows;
          rows = (if cut then leading_rows target rows else rows);
          leading = leading_rows target rows;
          stop = (target \<le> length rows \<and> i + 1 < length (sk_work K) \<and> target \<le> length leading
                  \<and> we_max (sk_work K ! (i + 1)) < qr_epoch (last leading))
      in st\<lparr>ss_rows := (if stop then leading else rows), ss_next := i + 1, ss_done := remove1 i (ss_done st), ss_stopped := stop,
           ss_more := ss_more st \<or> tp_more page, ss_cut := ss_cut st \<or> cut,
           ss_negative := (if tp_rows page = [] \<and> we_fp w \<noteq> [] then ss_negative st @ [w] else ss_negative st),
           ss_positive := (if tp_rows page \<noteq> [] \<and> \<not> tp_more page \<and> \<not> cached \<and> we_fp w \<noteq> [] then ss_positive st @ [(w, tp_rows page)] else ss_positive st)\<rparr>)"

function consume_ready :: "scan_task \<Rightarrow> scan_state \<Rightarrow> scan_state" where
  "consume_ready K st = (if ss_next st \<in> set (ss_done st) \<and> \<not> ss_stopped st then consume_ready K (consume K st) else st)"
  by pat_completeness auto
termination
  by (relation "measure (\<lambda>(K, st). length (ss_done st))")
    (auto simp: consume_def Let_def length_remove1 split: prod.split dest: length_pos_if_in_set)

declare consume_ready.simps [simp del]

definition submit_width :: "scan_task \<Rightarrow> scan_state \<Rightarrow> nat" where
  "submit_width K st =
     (let left = length (sk_work K) - ss_submitted st
      in if left = 0 then 0
         else if sk_width K < sk_target K then min (sk_width K - length (ss_flight st)) left
         else if ss_flight st = [] then min (min (sk_width K) (max (sk_target K - length (ss_rows st)) 1)) left
         else 0)"

definition submit :: "scan_task \<Rightarrow> scan_state \<Rightarrow> scan_state" where
  "submit K st = (let n = submit_width K st
     in st\<lparr>ss_flight := ss_flight st @ [ss_submitted st..<ss_submitted st + n], ss_submitted := ss_submitted st + n\<rparr>)"

definition advance :: "scan_task \<Rightarrow> nat \<Rightarrow> scan_state \<Rightarrow> scan_state" where
  "advance K i st =
     (let st = consume_ready K (st\<lparr>ss_flight := remove1 i (ss_flight st), ss_done := i # ss_done st\<rparr>)
      in if ss_stopped st then st\<lparr>ss_flight := []\<rparr> else submit K st)"


text \<open>Everything but the rows and the flags of a consumed result.\<close>

lemma consume_simps [simp]:
  "ss_next (consume K st) = ss_next st + 1" "ss_done (consume K st) = remove1 (ss_next st) (ss_done st)"
  "ss_flight (consume K st) = ss_flight st" "ss_submitted (consume K st) = ss_submitted st"
  by (simp_all add: consume_def Let_def split: prod.split)

lemma consume_ready_keeps:
  "ss_flight (consume_ready K st) = ss_flight st \<and> ss_submitted (consume_ready K st) = ss_submitted st"
proof (induction K st rule: consume_ready.induct)
  case (1 K st)
  then show ?case by (subst (1 2) consume_ready.simps) simp
qed

definition scan_measure :: "scan_task \<Rightarrow> scan_state \<Rightarrow> nat" where
  "scan_measure K st = 2 * (length (sk_work K) - ss_submitted st) + length (ss_flight st)"

lemma submit_width_le: "submit_width K st \<le> length (sk_work K) - ss_submitted st"
  by (simp add: submit_width_def Let_def)

lemma advance_measure:
  assumes "i \<in> set (ss_flight st)"
  shows "scan_measure K (advance K i st) < scan_measure K st"
proof -
  obtain su where su: "su = consume_ready K (st\<lparr>ss_flight := remove1 i (ss_flight st), ss_done := i # ss_done st\<rparr>)" by simp
  have f: "ss_flight su = remove1 i (ss_flight st)" "ss_submitted su = ss_submitted st"
    using consume_ready_keeps [of K "st\<lparr>ss_flight := remove1 i (ss_flight st), ss_done := i # ss_done st\<rparr>"] by (simp_all add: su)
  have pos: "0 < length (ss_flight st)" by (rule length_pos_if_in_set [OF assms])
  have less: "length (remove1 i (ss_flight st)) < length (ss_flight st)" using assms pos by (simp add: length_remove1)
  show ?thesis
  proof (cases "ss_stopped su")
    case True
    then show ?thesis using pos f by (simp add: advance_def su [symmetric] scan_measure_def)
  next
    case False
    then show ?thesis using less submit_width_le [of K su] f
      by (simp add: advance_def su [symmetric] scan_measure_def submit_def Let_def)
  qed
qed

text \<open>
  The loop over the readers. \<open>schedule k\<close> says which of the readers still running finishes as the \<open>k\<close>-th; a reader
  that raises ends the query.
\<close>

function scan_run :: "scan_task \<Rightarrow> (nat \<Rightarrow> nat) \<Rightarrow> nat \<Rightarrow> scan_state \<Rightarrow> scan_error + scan_state" where
  "scan_run K schedule k st =
     (if ss_flight st = [] then Inr st
      else (let i = ss_flight st ! (schedule k mod length (ss_flight st))
            in case sk_pages K ! i of Inl err \<Rightarrow> Inl err | Inr _ \<Rightarrow> scan_run K schedule (k + 1) (advance K i st)))"
  by pat_completeness auto
termination
  by (relation "measure (\<lambda>(K, schedule, k, st). scan_measure K st)") (auto intro!: advance_measure)

declare scan_run.simps [simp del]

section \<open>The answer\<close>

record query_page =
  qp_rows :: "qrow list"
  qp_more :: bool
  qp_unavailable :: nat
  qp_complete :: "qrow list option"
  qp_negative :: "work_entry list"
  qp_positive :: "(work_entry \<times> qrow list) list"

definition QUERY_SCAN_WORKERS_MAX :: nat where "QUERY_SCAN_WORKERS_MAX = 4"
definition QUERY_UNFILTERED_PREFETCH :: nat where "QUERY_UNFILTERED_PREFETCH = 2"

definition selective_query :: "event_query \<Rightarrow> bool" where
  "selective_query q \<longleftrightarrow> strip (q_keyword q) \<noteq> [] \<or> strip (q_database q) \<noteq> [] \<or> strip (q_table q) \<noteq> [] \<or> strip (q_connection q) \<noteq> []
     \<or> strip (q_account q) \<noteq> [] \<or> strip (q_status q) \<noteq> [] \<or> q_operations q \<noteq> []"

definition scan_width :: "nat \<Rightarrow> event_query \<Rightarrow> nat" where
  "scan_width workers q = (if selective_query q then workers else min workers QUERY_UNFILTERED_PREFETCH)"

definition page_limit :: "int \<Rightarrow> event_query \<Rightarrow> int" where
  "page_limit limit_cap q = min (max (if q_limit q = 0 then 100 else q_limit q) 1) (min (max limit_cap 1) 100000)"

definition page_offset :: "event_query \<Rightarrow> int" where
  "page_offset q = min (max (q_offset q) 0) 100000"

definition page_target :: "int \<Rightarrow> event_query \<Rightarrow> int" where
  "page_target limit_cap q = min (page_limit limit_cap q + page_offset q + 1) SCAN_CAP"

definition internal_query :: "int \<Rightarrow> event_query \<Rightarrow> int \<Rightarrow> int \<Rightarrow> event_query" where
  "internal_query limit_cap q start stop = q\<lparr>q_start := Some start, q_end := Some stop, q_limit := page_target limit_cap q, q_offset := 0\<rparr>"

definition finish_scan :: "nat \<Rightarrow> nat \<Rightarrow> nat \<Rightarrow> part list \<Rightarrow> scan_state \<Rightarrow> query_page" where
  "finish_scan offset limit works unavailable st =
     (let ordered = newest_first (unique_rows (ss_rows st));
          complete = (\<not> ss_stopped st \<and> ss_next st = works \<and> \<not> ss_more st \<and> \<not> ss_cut st \<and> unavailable = [])
      in \<lparr>qp_rows = page_of offset limit ordered, qp_more = offset + limit < length ordered, qp_unavailable = length unavailable,
          qp_complete = (if complete then Some ordered else None), qp_negative = ss_negative st, qp_positive = ss_positive st\<rparr>)"

definition tiered_scan :: "(part \<Rightarrow> string + row_group list) \<Rightarrow> (row_group \<Rightarrow> bool) \<Rightarrow> (string \<Rightarrow> qrow \<Rightarrow> exact_verdict) \<Rightarrow> int \<Rightarrow> int
    \<Rightarrow> (nat \<Rightarrow> nat) \<Rightarrow> nat \<Rightarrow> int \<Rightarrow> event_query \<Rightarrow> int \<Rightarrow> int \<Rightarrow> work_plan \<Rightarrow> scan_error + query_page" where
  "tiered_scan fetch broken verdict now retention schedule workers limit_cap q start stop plan =
     (let internal = internal_query limit_cap q start stop;
          K = \<lparr>sk_work = wp_work plan, sk_pages = map (scan_entry fetch broken verdict now retention internal (wp_positive plan)) (wp_work plan),
               sk_target = nat (page_target limit_cap q), sk_width = scan_width workers q\<rparr>
      in map_sum id (finish_scan (nat (page_offset q)) (nat (page_limit limit_cap q)) (length (wp_work plan)) (wp_unavailable plan))
           (scan_run K schedule 0 (scan_start K)))"


section \<open>What the scan has read\<close>

text \<open>\<open>A i\<close> is the set of rows the query selects of the \<open>i\<close>-th part of the work.\<close>

definition task_ok :: "scan_task \<Rightarrow> (nat \<Rightarrow> qrow set) \<Rightarrow> bool" where
  "task_ok K A \<longleftrightarrow> length (sk_pages K) = length (sk_work K) \<and> 0 < sk_target K \<and> 0 < sk_width K
     \<and> finite (\<Union>i < length (sk_work K). A i) \<and> ids_agree (\<Union>i < length (sk_work K). A i)
     \<and> (\<forall>i j. i \<le> j \<longrightarrow> j < length (sk_work K) \<longrightarrow> we_max (sk_work K ! j) \<le> we_max (sk_work K ! i))
     \<and> (\<forall>i < length (sk_work K). \<forall>r \<in> A i. qr_epoch r \<le> we_max (sk_work K ! i))
     \<and> (\<forall>i < length (sk_work K). \<forall>page c. sk_pages K ! i = Inr (page, c) \<longrightarrow>
          front (sk_target K) (A i) \<subseteq> set (tp_rows page) \<and> set (tp_rows page) \<subseteq> A i \<and> (tp_more page \<or> set (tp_rows page) = A i))"

definition read_rows :: "(nat \<Rightarrow> qrow set) \<Rightarrow> nat \<Rightarrow> qrow set" where
  "read_rows A n = (\<Union>i < n. A i)"

lemma task_okD:
  assumes "task_ok K A"
  shows "length (sk_pages K) = length (sk_work K)" "0 < sk_target K" "0 < sk_width K"
    "n \<le> length (sk_work K) \<Longrightarrow> finite (read_rows A n)" "n \<le> length (sk_work K) \<Longrightarrow> ids_agree (read_rows A n)"
    "i \<le> j \<Longrightarrow> j < length (sk_work K) \<Longrightarrow> r \<in> A j \<Longrightarrow> qr_epoch r \<le> we_max (sk_work K ! i)"
    "i < length (sk_work K) \<Longrightarrow> sk_pages K ! i = Inr (page, c) \<Longrightarrow>
      front (sk_target K) (A i) \<subseteq> set (tp_rows page) \<and> set (tp_rows page) \<subseteq> A i \<and> (tp_more page \<or> set (tp_rows page) = A i)"
proof -
  show "length (sk_pages K) = length (sk_work K)" "0 < sk_target K" "0 < sk_width K" using assms by (simp_all add: task_ok_def)
  have "read_rows A n \<subseteq> (\<Union>i < length (sk_work K). A i)" if "n \<le> length (sk_work K)" using that by (auto simp: read_rows_def) (meson lessThan_iff less_le_trans)
  then show "n \<le> length (sk_work K) \<Longrightarrow> finite (read_rows A n)" "n \<le> length (sk_work K) \<Longrightarrow> ids_agree (read_rows A n)"
    using assms unfolding task_ok_def by (meson finite_subset ids_agree_mono)+
  show "i \<le> j \<Longrightarrow> j < length (sk_work K) \<Longrightarrow> r \<in> A j \<Longrightarrow> qr_epoch r \<le> we_max (sk_work K ! i)"
    using assms unfolding task_ok_def by (meson order_trans)
  show "i < length (sk_work K) \<Longrightarrow> sk_pages K ! i = Inr (page, c) \<Longrightarrow>
      front (sk_target K) (A i) \<subseteq> set (tp_rows page) \<and> set (tp_rows page) \<subseteq> A i \<and> (tp_more page \<or> set (tp_rows page) = A i)"
    using assms unfolding task_ok_def by blast
qed

lemma read_rows_Suc: "read_rows A (Suc n) = read_rows A n \<union> A n"
  by (auto simp: read_rows_def lessThan_Suc)

lemma read_rows_mono: "m \<le> n \<Longrightarrow> read_rows A m \<subseteq> read_rows A n"
  by (auto simp: read_rows_def) (meson lessThan_iff less_le_trans)

lemma leading_set:
  assumes "ids_agree (set rs)"
  shows "set (leading_rows n rs) = front n (set rs)" "distinct (leading_rows n rs)" "length (leading_rows n rs) = min n (card (set rs))"
proof -
  have k: "distinct (keep_last rs)" "set (keep_last rs) = set rs" using keep_last_set keep_last_distinct assms by auto
  show s: "set (leading_rows n rs) = front n (set rs)"
    unfolding leading_rows_def using newest_take [OF k(1)] assms by (simp add: k(2))
  show d: "distinct (leading_rows n rs)" unfolding leading_rows_def using newest_sorted(2) [OF k(1)] assms by (simp add: k(2))
  have "length (leading_rows n rs) = card (front n (set rs))" using distinct_card [OF d] s by simp
  then show "length (leading_rows n rs) = min n (card (set rs))" using top_card [OF _ assms] by simp
qed

lemma leading_last:
  assumes "ids_agree (set rs)" "r \<in> set (leading_rows n rs)"
  shows "qr_epoch (last (leading_rows n rs)) \<le> qr_epoch r"
proof -
  let ?ys = "leading_rows n rs"
  have k: "distinct (keep_last rs)" "set (keep_last rs) = set rs" using keep_last_set keep_last_distinct assms by auto
  have "sorted_wrt (\<lambda>r s. row_sort_key s < row_sort_key r) ?ys"
    unfolding leading_rows_def using newest_sorted(1) [OF k(1)] assms(1) by (simp add: k(2) sorted_wrt_take)
  moreover have "?ys = butlast ?ys @ [last ?ys]" using assms(2) by (metis append_butlast_last_id empty_iff empty_set)
  ultimately have "r = last ?ys \<or> row_sort_key (last ?ys) < row_sort_key r"
    using assms(2) by (metis (no_types, lifting) Un_iff list.set_intros(1) set_append set_ConsD empty_iff empty_set sorted_wrt_append)
  then show ?thesis by (auto simp: row_sort_key_def less_prod_def)
qed

definition rows_ok :: "scan_task \<Rightarrow> (nat \<Rightarrow> qrow set) \<Rightarrow> scan_state \<Rightarrow> bool" where
  "rows_ok K A st \<longleftrightarrow> ss_next st \<le> length (sk_work K) \<and> set (ss_rows st) \<subseteq> read_rows A (ss_next st)
     \<and> front (sk_target K) (set (ss_rows st)) = front (sk_target K) (read_rows A (if ss_stopped st then length (sk_work K) else ss_next st))
     \<and> (ss_stopped st \<or> ss_cut st \<or> ss_more st \<or> set (ss_rows st) = read_rows A (ss_next st))"

lemma consume_rows_ok:
  assumes ok: "task_ok K A" and rows: "rows_ok K A st" and st: "\<not> ss_stopped st" "ss_next st < length (sk_work K)"
    and page: "sk_pages K ! ss_next st = Inr (page, cached)"
  shows "rows_ok K A (consume K st)"
proof -
  let ?n = "ss_next st" and ?t = "sk_target K" and ?N = "length (sk_work K)"
  let ?R = "read_rows A (Suc ?n)"
  note D = task_okD [OF ok]
  have fin: "finite ?R" "ids_agree ?R" using D(4,5) st(2) by (simp_all add: Suc_leI)
  have pg: "front ?t (A ?n) \<subseteq> set (tp_rows page)" "set (tp_rows page) \<subseteq> A ?n" "tp_more page \<or> set (tp_rows page) = A ?n"
    using D(7) [OF st(2) page] by blast+
  have old: "set (ss_rows st) \<subseteq> read_rows A ?n" "front ?t (set (ss_rows st)) = front ?t (read_rows A ?n)"
    "ss_cut st \<or> ss_more st \<or> set (ss_rows st) = read_rows A ?n" using rows st(1) by (auto simp: rows_ok_def)
  obtain rows1 where rows1: "rows1 = ss_rows st @ tp_rows page" by simp
  have sub1: "set rows1 \<subseteq> ?R" using old(1) pg(2) by (auto simp: rows1 read_rows_Suc)
  have front1: "front ?t (set rows1) = front ?t ?R"
  proof (rule top_between [OF fin _ sub1])
    show "front ?t ?R \<subseteq> set rows1"
    proof
      fix r
      assume r: "r \<in> front ?t ?R"
      then consider "r \<in> read_rows A ?n" | "r \<in> A ?n" using top_subset read_rows_Suc by blast
      then show "r \<in> set rows1"
      proof cases
        case 1
        then have "r \<in> front ?t (read_rows A ?n)" using r top_mono_union [OF fin(1), of "read_rows A ?n"] by (auto simp: read_rows_Suc)
        then show ?thesis using old(2) top_subset by (auto simp: rows1)
      next
        case 2
        then have "r \<in> front ?t (A ?n)" using r top_mono_union [OF fin(1), of "A ?n"] by (auto simp: read_rows_Suc)
        then show ?thesis using pg(1) by (auto simp: rows1)
      qed
    qed
  qed
  have ids1: "ids_agree (set rows1)" using fin(2) sub1 by (rule ids_agree_mono)
  obtain cut where cut: "cut = (4 * ?t < length rows1)" by simp
  obtain rows2 where rows2: "rows2 = (if cut then leading_rows ?t rows1 else rows1)" by simp
  have lead1: "set (leading_rows ?t rows1) = front ?t ?R" using leading_set(1) [OF ids1] front1 by simp
  have idem: "front ?t (front ?t ?R) = front ?t ?R" by (rule top_between [OF fin order_refl top_subset])
  have sub2: "set rows2 \<subseteq> ?R" using sub1 lead1 top_subset by (auto simp: rows2)
  have front2: "front ?t (set rows2) = front ?t ?R" using front1 lead1 idem by (simp add: rows2)
  have ids2: "ids_agree (set rows2)" using fin(2) sub2 by (rule ids_agree_mono)
  obtain leading where leading: "leading = leading_rows ?t rows2" by simp
  have lead2: "set leading = front ?t ?R" using leading_set(1) [OF ids2] front2 by (simp add: leading)
  obtain stop where stop: "stop = (?t \<le> length rows2 \<and> ?n + 1 < ?N \<and> ?t \<le> length leading \<and> we_max (sk_work K ! (?n + 1)) < qr_epoch (last leading))" by simp
  have st': "ss_rows (consume K st) = (if stop then leading else rows2)" "ss_stopped (consume K st) = stop"
    "ss_cut (consume K st) = (ss_cut st \<or> cut)" "ss_more (consume K st) = (ss_more st \<or> tp_more page)"
    unfolding consume_def Let_def page sum.sel prod.case rows1 [symmetric] cut [symmetric] rows2 [symmetric] leading [symmetric] stop [symmetric]
    by simp_all
  have "front ?t (set leading) = front ?t (read_rows A ?N)" if stop
  proof -
    let ?C = "\<Union>j \<in> {Suc ?n..<?N}. A j"
    have all: "read_rows A ?N = ?R \<union> ?C" using that stop st(2) by (fastforce simp: read_rows_def)
    have "?t \<le> card ?R" using that stop leading_set(3) [OF ids2, of ?t] card_mono [OF fin(1) sub2] by (simp add: leading)
    moreover have "row_sort_key c < row_sort_key r" if rc: "r \<in> front ?t ?R" "c \<in> ?C" for r c
    proof -
      from rc(2) obtain j where j: "Suc ?n \<le> j" "j < ?N" "c \<in> A j" by auto
      have "qr_epoch c \<le> we_max (sk_work K ! Suc ?n)" by (rule D(6) [OF j])
      also have "\<dots> < qr_epoch (last leading)" using \<open>stop\<close> stop by simp
      also have "\<dots> \<le> qr_epoch r" using leading_last [OF ids2] rc(1) lead2 unfolding leading by simp
      finally show ?thesis by (simp add: row_sort_key_def)
    qed
    ultimately have "front ?t (?R \<union> ?C) = front ?t ?R"
      using top_older [of ?R ?C ?t] D(4,5) [of ?N] by (simp add: all [symmetric])
    then show ?thesis using lead2 idem by (simp add: all)
  qed
  moreover have "set leading \<subseteq> ?R" using lead2 top_subset by blast
  moreover have "cut \<or> ss_cut st \<or> ss_more st \<or> tp_more page \<or> set rows2 = ?R"
    using old(3) pg(3) by (auto simp: rows2 rows1 read_rows_Suc)
  ultimately show ?thesis using sub2 front2 st(2) unfolding rows_ok_def st' consume_simps by (auto simp: Suc_leI)
qed


text \<open>The numbers of the parts: consumed ones below \<open>next\<close>, then read and waiting or being read, then not submitted.\<close>

definition queue_ok :: "scan_task \<Rightarrow> scan_state \<Rightarrow> bool" where
  "queue_ok K st \<longleftrightarrow> ss_submitted st \<le> length (sk_work K) \<and> ss_next st \<le> ss_submitted st \<and> distinct (ss_flight st @ ss_done st)
     \<and> set (ss_flight st) \<union> set (ss_done st) = {ss_next st..<ss_submitted st} \<and> (\<forall>i \<in> set (ss_done st). \<exists>x. sk_pages K ! i = Inr x)"

text \<open>What is to be remembered comes from a page of its part: an empty one, or a whole one.\<close>

definition logs_ok :: "scan_task \<Rightarrow> scan_state \<Rightarrow> bool" where
  "logs_ok K st \<longleftrightarrow>
     (\<forall>w \<in> set (ss_negative st). \<exists>i page c. i < length (sk_work K) \<and> w = sk_work K ! i \<and> sk_pages K ! i = Inr (page, c) \<and> tp_rows page = [])
     \<and> (\<forall>(w, rs) \<in> set (ss_positive st). \<exists>i page. i < length (sk_work K) \<and> w = sk_work K ! i \<and> sk_pages K ! i = Inr (page, False)
          \<and> rs = tp_rows page \<and> rs \<noteq> [] \<and> \<not> tp_more page)"

definition scan_ok :: "scan_task \<Rightarrow> (nat \<Rightarrow> qrow set) \<Rightarrow> scan_state \<Rightarrow> bool" where
  "scan_ok K A st \<longleftrightarrow> rows_ok K A st \<and> logs_ok K st \<and> queue_ok K st"

lemma consume_ok:
  assumes ok: "task_ok K A" and st: "scan_ok K A st" "\<not> ss_stopped st" "ss_next st \<in> set (ss_done st)"
  shows "scan_ok K A (consume K st)"
proof -
  have q: "ss_submitted st \<le> length (sk_work K)" "distinct (ss_flight st @ ss_done st)"
    "set (ss_flight st) \<union> set (ss_done st) = {ss_next st..<ss_submitted st}" "\<forall>i \<in> set (ss_done st). \<exists>x. sk_pages K ! i = Inr x"
    using st(1) by (simp_all add: scan_ok_def queue_ok_def)
  have "ss_next st \<in> {ss_next st..<ss_submitted st}" using q(3) st(3) by blast
  then have n: "ss_next st < ss_submitted st" "ss_next st < length (sk_work K)" using q(1) by simp_all
  obtain page c where page: "sk_pages K ! ss_next st = Inr (page, c)" using q(4) st(3) by fastforce
  have "rows_ok K A (consume K st)"
    using st(1) consume_rows_ok [OF ok _ st(2) n(2) page] by (simp add: scan_ok_def)
  moreover have "logs_ok K (consume K st)"
  proof -
    have logs: "logs_ok K st" using st(1) by (simp add: scan_ok_def)
    have "ss_negative (consume K st) = (if tp_rows page = [] \<and> we_fp (sk_work K ! ss_next st) \<noteq> [] then ss_negative st @ [sk_work K ! ss_next st] else ss_negative st)"
      "ss_positive (consume K st) = (if tp_rows page \<noteq> [] \<and> \<not> tp_more page \<and> \<not> c \<and> we_fp (sk_work K ! ss_next st) \<noteq> []
         then ss_positive st @ [(sk_work K ! ss_next st, tp_rows page)] else ss_positive st)"
      by (simp_all add: consume_def page Let_def)
    then show ?thesis using logs n(2) page unfolding logs_ok_def by (auto split: if_splits)
  qed
  moreover have "queue_ok K (consume K st)"
  proof -
    have d: "set (ss_flight st) \<inter> set (ss_done st) = {}" "distinct (ss_flight st)" "distinct (ss_done st)" using q(2) by simp_all
    have rest: "set (remove1 (ss_next st) (ss_done st)) = set (ss_done st) - {ss_next st}" using d(3) by simp
    have "set (ss_flight st) \<union> (set (ss_done st) - {ss_next st}) = (set (ss_flight st) \<union> set (ss_done st)) - {ss_next st}"
      using st(3) d(1) by blast
    also have "\<dots> = {ss_next st + 1..<ss_submitted st}" unfolding q(3) by auto
    finally have all: "set (ss_flight st) \<union> (set (ss_done st) - {ss_next st}) = {ss_next st + 1..<ss_submitted st}" .
    have dist: "distinct (ss_flight st @ remove1 (ss_next st) (ss_done st))" using d by (auto simp: rest)
    have inr: "\<forall>i \<in> set (ss_done st) - {ss_next st}. \<exists>x. sk_pages K ! i = Inr x" using q(4) by blast
    show ?thesis unfolding queue_ok_def consume_simps rest using q(1) n(1) dist all inr by (intro conjI) (simp_all only: Suc_eq_plus1 [symmetric] Suc_leI)
  qed
  ultimately show ?thesis by (simp add: scan_ok_def)
qed


lemma consume_ready_ok:
  assumes "task_ok K A" "scan_ok K A st"
  shows "scan_ok K A (consume_ready K st) \<and> (ss_stopped (consume_ready K st) \<or> ss_next (consume_ready K st) \<notin> set (ss_done (consume_ready K st)))"
  using assms
proof (induction K st rule: consume_ready.induct)
  case (1 K st)
  show ?case
  proof (cases "ss_next st \<in> set (ss_done st) \<and> \<not> ss_stopped st")
    case True
    then have "consume_ready K st = consume_ready K (consume K st)" by (subst consume_ready.simps) simp
    moreover have "scan_ok K A (consume K st)" using consume_ok [OF 1(2,3)] True by blast
    ultimately show ?thesis using 1(1) [OF True 1(2)] by simp
  next
    case False
    then have "consume_ready K st = st" by (subst consume_ready.simps) (rule if_not_P)
    then show ?thesis using 1(3) False by auto
  qed
qed

text \<open>While nothing stops the scan, some reader runs as long as parts are left.\<close>

definition scan_live :: "scan_task \<Rightarrow> scan_state \<Rightarrow> bool" where
  "scan_live K st \<longleftrightarrow> (if ss_stopped st then ss_flight st = []
     else queue_ok K st \<and> ss_next st \<notin> set (ss_done st) \<and> (ss_flight st = [] \<longrightarrow> ss_submitted st = length (sk_work K)))"

lemma submit_ok:
  assumes "task_ok K A" "scan_ok K A st" "\<not> ss_stopped st" "ss_next st \<notin> set (ss_done st)"
  shows "rows_ok K A (submit K st) \<and> logs_ok K (submit K st) \<and> scan_live K (submit K st)"
proof -
  obtain n where n: "n = submit_width K st" by simp
  have le: "n \<le> length (sk_work K) - ss_submitted st" using submit_width_le by (simp add: n)
  have q: "ss_submitted st \<le> length (sk_work K)" "ss_next st \<le> ss_submitted st" "distinct (ss_flight st @ ss_done st)"
    "set (ss_flight st) \<union> set (ss_done st) = {ss_next st..<ss_submitted st}" "\<forall>i \<in> set (ss_done st). \<exists>x. sk_pages K ! i = Inr x"
    using assms(2) by (simp_all add: scan_ok_def queue_ok_def)
  have sub: "submit K st = st\<lparr>ss_flight := ss_flight st @ [ss_submitted st..<ss_submitted st + n], ss_submitted := ss_submitted st + n\<rparr>"
    by (simp add: submit_def n Let_def)
  have below: "set (ss_flight st) \<subseteq> {..<ss_submitted st}" "set (ss_done st) \<subseteq> {..<ss_submitted st}" using q(4) by auto
  have "set (ss_flight st) \<union> {ss_submitted st..<ss_submitted st + n} \<union> set (ss_done st) = {ss_next st..<ss_submitted st} \<union> {ss_submitted st..<ss_submitted st + n}"
    using q(4) by blast
  also have "\<dots> = {ss_next st..<ss_submitted st + n}" using q(2) by auto
  finally have sets: "set (ss_flight st) \<union> {ss_submitted st..<ss_submitted st + n} \<union> set (ss_done st) = {ss_next st..<ss_submitted st + n}" .
  have dist: "distinct ((ss_flight st @ [ss_submitted st..<ss_submitted st + n]) @ ss_done st)"
    using q(3) below by fastforce
  have queue: "queue_ok K (submit K st)" unfolding queue_ok_def sub using q(1,2,5) le dist sets by (simp add: Un_assoc)
  have "ss_submitted st = length (sk_work K)" if "ss_flight (submit K st) = []"
  proof (rule ccontr)
    assume "ss_submitted st \<noteq> length (sk_work K)"
    then have left: "0 < length (sk_work K) - ss_submitted st" using q(1) by simp
    have "ss_flight st = [] \<and> n = 0" using that by (auto simp: sub)
    then have "n = 0" "ss_flight st = []" by blast+
    then show False using left task_okD(2,3) [OF assms(1)] unfolding n submit_width_def Let_def
      by (auto split: if_splits)
  qed
  then have "scan_live K (submit K st)" using queue assms(3,4) le by (auto simp: scan_live_def sub)
  then show ?thesis using assms(2) by (simp add: scan_ok_def sub rows_ok_def logs_ok_def)
qed

lemma advance_ok:
  assumes ok: "task_ok K A" and st: "rows_ok K A st" "logs_ok K st" "scan_live K st" and i: "i \<in> set (ss_flight st)" "sk_pages K ! i = Inr x"
  shows "rows_ok K A (advance K i st) \<and> logs_ok K (advance K i st) \<and> scan_live K (advance K i st)"
proof -
  have live: "\<not> ss_stopped st" "queue_ok K st" using st(3) i(1) by (auto simp: scan_live_def split: if_splits)
  obtain su where su: "su = st\<lparr>ss_flight := remove1 i (ss_flight st), ss_done := i # ss_done st\<rparr>" by simp
  have "queue_ok K su"
    using live(2) i unfolding queue_ok_def su by (auto simp: set_remove1_eq)
  then have "scan_ok K A su" using st(1,2) by (simp add: scan_ok_def su rows_ok_def logs_ok_def)
  from consume_ready_ok [OF ok this] obtain sv where sv: "sv = consume_ready K su" "scan_ok K A sv" "ss_stopped sv \<or> ss_next sv \<notin> set (ss_done sv)" by blast
  show ?thesis
  proof (cases "ss_stopped sv")
    case True
    then have "advance K i st = sv\<lparr>ss_flight := []\<rparr>" by (simp add: advance_def su [symmetric] sv(1) [symmetric])
    then show ?thesis using True sv(2) by (simp add: scan_ok_def rows_ok_def logs_ok_def scan_live_def)
  next
    case False
    then have "advance K i st = submit K sv" by (simp add: advance_def su [symmetric] sv(1) [symmetric])
    then show ?thesis using submit_ok [OF ok sv(2) False] sv(3) False by simp
  qed
qed

lemma scan_start_ok:
  assumes "task_ok K A"
  shows "rows_ok K A (scan_start K) \<and> logs_ok K (scan_start K) \<and> scan_live K (scan_start K)"
  using task_okD(3) [OF assms]
  by (auto simp: scan_start_def Let_def rows_ok_def read_rows_def logs_ok_def scan_live_def queue_ok_def min_def split: if_splits)

lemma scan_run_ok:
  assumes "task_ok K A" "rows_ok K A st \<and> logs_ok K st \<and> scan_live K st" "scan_run K schedule k st = Inr st'"
  shows "rows_ok K A st' \<and> logs_ok K st' \<and> (ss_stopped st' \<or> ss_next st' = length (sk_work K))"
  using assms
proof (induction K schedule k st rule: scan_run.induct)
  case (1 K schedule k st)
  show ?case
  proof (cases "ss_flight st = []")
    case True
    then have st': "st' = st" using 1(4) by (simp add: scan_run.simps)
    have "ss_next st = length (sk_work K)" if "\<not> ss_stopped st"
    proof -
      have q: "set (ss_done st) = {ss_next st..<length (sk_work K)}" "ss_next st \<notin> set (ss_done st)" "ss_next st \<le> length (sk_work K)"
        using 1(3) that True by (auto simp: scan_live_def queue_ok_def)
      then show ?thesis by (metis atLeastLessThan_iff le_neq_implies_less order_refl)
    qed
    then show ?thesis using 1(3) st' by blast
  next
    case False
    obtain i where i: "i = ss_flight st ! (schedule k mod length (ss_flight st))" by simp
    have "i \<in> set (ss_flight st)" using False by (simp add: i)
    moreover obtain x where x: "sk_pages K ! i = Inr x" "scan_run K schedule (k + 1) (advance K i st) = Inr st'"
      using 1(4) False by (subst (asm) scan_run.simps) (auto simp: i [symmetric] Let_def split: sum.splits)
    ultimately have "rows_ok K A (advance K i st) \<and> logs_ok K (advance K i st) \<and> scan_live K (advance K i st)"
      using advance_ok [OF 1(2)] 1(3) by blast
    from 1(1) [OF False i x(1) 1(2) this x(2)] show ?thesis .
  qed
qed

end
