(* ===== verification/TieredSafety.thy ===== *)
theory TieredSafety
  imports TieredQuery "HOL-Library.Countable"
begin

text \<open>
  The page of a tiered query is exact: whatever the search index, the catalogs and the remembered probes let it skip, in
  whatever order the readers finish and wherever the early stop cuts the scan, the page holds the rows \<open>offset\<close> to
  \<open>offset + limit\<close> of all the rows the query selects, and what the scan remembers is true of the parts.
\<close>

section \<open>The contents of the parts\<close>

definition part_rows :: "(string \<Rightarrow> row_group list) \<Rightarrow> string \<Rightarrow> qrow list" where
  "part_rows body sha = concat (map rg_rows (body sha))"

text \<open>
  \<open>body sha\<close> is the content with hash \<open>sha\<close>: groups with true statistics, no event twice, the times and the instance the
  catalog of parts records.
\<close>

definition bodies_ok :: "(string \<Rightarrow> row_group list) \<Rightarrow> (string \<Rightarrow> string) \<Rightarrow> part list \<Rightarrow> bool" where
  "bodies_ok body owner parts \<longleftrightarrow> distinct (map pt_path parts) \<and> ids_agree (\<Union>p \<in> set parts. set (part_rows body (pt_sha p)))
     \<and> (\<forall>p \<in> set parts. (\<forall>g \<in> set (body (pt_sha p)). group_true g) \<and> distinct (part_rows body (pt_sha p))
          \<and> part_rows_ok (pt_min p) (pt_max p) (owner (pt_file p)) (part_rows body (pt_sha p)))"

text \<open>The answer a query expects of one part.\<close>

definition part_answer :: "(string \<Rightarrow> row_group list) \<Rightarrow> (string \<Rightarrow> qrow \<Rightarrow> exact_verdict) \<Rightarrow> int \<Rightarrow> int \<Rightarrow> event_query \<Rightarrow> part \<Rightarrow> qrow list" where
  "part_answer body verdict now retention q p = answer_rows verdict now retention q (part_rows body (pt_sha p))"

text \<open>What a remembered probe means: no row, or exactly the rows that were stored, for every query with its key.\<close>

definition answer_meaning :: "(probe_payload \<Rightarrow> string) \<Rightarrow> (string \<Rightarrow> qrow list option) \<Rightarrow> (string \<Rightarrow> row_group list)
    \<Rightarrow> (string \<Rightarrow> qrow \<Rightarrow> exact_verdict) \<Rightarrow> string \<Rightarrow> string \<Rightarrow> string option \<Rightarrow> bool" where
  "answer_meaning hash parse body verdict sha fp v \<longleftrightarrow> (\<forall>q a b lo hi inst now retention.
     windowed now retention q a b \<and> clean_operations q \<and> hash (query_payload q (max a lo) (min b hi)) = fp
     \<and> part_rows_ok lo hi inst (part_rows body sha) \<and> field_matches True (q_instance q) [inst] \<longrightarrow>
       (case v of None \<Rightarrow> answer_rows verdict now retention q (part_rows body sha) = []
        | Some json \<Rightarrow> \<forall>rs. parse json = Some rs \<longrightarrow> set rs = set (answer_rows verdict now retention q (part_rows body sha))))"

text \<open>What the search index promises of its plan: every selected row of a part it knows is in a listed row group.\<close>

definition plan_sound :: "(string \<Rightarrow> row_group list) \<Rightarrow> (part \<Rightarrow> qrow list) \<Rightarrow> part list \<Rightarrow> index_plan \<Rightarrow> bool" where
  "plan_sound body answer parts plan \<longleftrightarrow> set (ip_unknown plan) \<subseteq> pt_path ` set parts \<and> (\<forall>e \<in> set (ip_entries plan). ie_part e \<in> set parts)
     \<and> (\<forall>e \<in> set (ip_entries plan). ie_path e \<notin> set (ip_unknown plan))
     \<and> (\<forall>p \<in> set parts. pt_path p \<in> set (ip_unknown plan) \<or> (\<forall>r \<in> set (answer p). \<exists>e \<in> set (ip_entries plan).
          ie_part e = p \<and> ie_group e < length (body (pt_sha p)) \<and> r \<in> set (rg_rows (body (pt_sha p) ! ie_group e)) \<and> qr_epoch r \<le> ie_max e))"

definition catalogs_true :: "(string \<Rightarrow> row_group list) \<Rightarrow> (string \<Rightarrow> (string \<times> part_catalog) option) \<Rightarrow> bool" where
  "catalogs_true body catalogs \<longleftrightarrow> (\<forall>path sha c. catalogs path = Some (sha, c) \<longrightarrow> catalog_true c (part_rows body sha))"

text \<open>A part is read whole and verified, or the read fails.\<close>

definition fetch_ok :: "(string \<Rightarrow> row_group list) \<Rightarrow> (part \<Rightarrow> string + row_group list) \<Rightarrow> bool" where
  "fetch_ok body fetch \<longleftrightarrow> (\<forall>p gs. fetch p = Inr gs \<longrightarrow> gs = body (pt_sha p))"

section \<open>The plan in terms of its dictionaries\<close>

lemma map_of_parts: "distinct (map pt_path parts) \<Longrightarrow> p \<in> set parts \<Longrightarrow> map_of (map (\<lambda>p. (pt_path p, p)) parts) (pt_path p) = Some p"
  by (simp add: map_of_eq_Some_iff comp_def)

lemma map_of_partsD: "map_of (map (\<lambda>p. (pt_path p, p)) parts) path = Some p \<Longrightarrow> p \<in> set parts \<and> pt_path p = path"
  by (auto dest: map_of_SomeD)

lemma index_fingerprints_at:
  "map_of (index_fingerprints fp bp es) path = (if path \<in> ie_path ` set es then map_option fp (map_of bp path) else None)"
proof (induction es rule: rev_induct)
  case (snoc e es)
  have "index_fingerprints fp bp (es @ [e]) = (let d = index_fingerprints fp bp es in case map_of bp (ie_path e) of None \<Rightarrow> d
     | Some p \<Rightarrow> if map_of d (ie_path e) \<noteq> None then d else d @ [(ie_path e, fp p)])" by (simp add: index_fingerprints_def Let_def)
  then show ?case using snoc by (auto simp: Let_def map_add_def split: option.splits if_splits)
qed (simp add: index_fingerprints_def)

lemma unknown_fingerprints_at:
  "map_of (unknown_fingerprints fp catalogs q bp unknown) path =
     (if path \<in> set unknown \<and> \<not> catalog_skips catalogs q (the (map_of bp path)) then Some (fp (the (map_of bp path))) else None)"
  "distinct (map fst (unknown_fingerprints fp catalogs q bp unknown))"
proof (induction unknown rule: rev_induct)
  case (snoc u us)
  have e: "unknown_fingerprints fp catalogs q bp (us @ [u]) = (let d = unknown_fingerprints fp catalogs q bp us; p = the (map_of bp u)
     in if catalog_skips catalogs q p then d else AList.update u (fp p) d)" by (simp add: unknown_fingerprints_def Let_def)
  {
    case 1
    show ?case using snoc.IH(1) unfolding e by (auto simp: Let_def update_conv')
  next
    case 2
    show ?case using snoc.IH(2) unfolding e by (simp add: Let_def distinct_update)
  }
qed (simp_all add: unknown_fingerprints_def)


lemma distinct_insort_insert: "distinct xs \<Longrightarrow> distinct (insort_insert (x :: nat) xs)"
  by (simp add: insort_insert_key_def distinct_insort)

text \<open>One entry per part the index knows, with all the groups the plan lists for it.\<close>

definition entry_of :: "(string \<times> string) list \<Rightarrow> index_entry list \<Rightarrow> string \<Rightarrow> work_entry \<Rightarrow> bool" where
  "entry_of fps es path w \<longleftrightarrow> (\<exists>e \<in> set es. ie_path e = path \<and> we_part w = ie_part e)
     \<and> (\<exists>gs. we_groups w = Some gs \<and> distinct gs \<and> set gs = ie_group ` {e \<in> set es. ie_path e = path})
     \<and> (\<forall>e \<in> set es. ie_path e = path \<longrightarrow> ie_max e \<le> we_max w)
     \<and> we_fp w = (case map_of fps path of None \<Rightarrow> [] | Some f \<Rightarrow> f)"

lemma group_entries_at:
  "distinct (map fst (group_entries fps negative es)) \<and>
   (case map_of (group_entries fps negative es) path of None \<Rightarrow> path \<in> set negative \<or> path \<notin> ie_path ` set es
    | Some w \<Rightarrow> path \<notin> set negative \<and> entry_of fps es path w)"
proof (induction es arbitrary: path rule: rev_induct)
  case (snoc e es)
  obtain d where d: "d = group_entries fps negative es" by simp
  have step: "group_entries fps negative (es @ [e]) = (if ie_path e \<in> set negative then d else group_entry fps e d)"
    by (simp add: group_entries_def d)
  have ih: "distinct (map fst d)" "\<And>path. case map_of d path of None \<Rightarrow> path \<in> set negative \<or> path \<notin> ie_path ` set es
      | Some w \<Rightarrow> path \<notin> set negative \<and> entry_of fps es path w" using snoc by (simp_all add: d)
  have other: "entry_of fps (es @ [e]) path w = entry_of fps es path w" if "path \<noteq> ie_path e" for w path
  proof -
    have "{x \<in> set (es @ [e]). ie_path x = path} = {x \<in> set es. ie_path x = path}" using that by auto
    then show ?thesis using that unfolding entry_of_def by auto
  qed
  show ?case
  proof (cases "ie_path e \<in> set negative")
    case True
    show ?thesis
    proof (cases "path = ie_path e")
      case True
      then show ?thesis using ih(1) ih(2) [of path] \<open>ie_path e \<in> set negative\<close>
        by (cases "map_of d path") (simp_all add: step)
    next
      case False
      then show ?thesis using ih(1) ih(2) [of path] True other [OF False] by (cases "map_of d path") (simp_all add: step)
    qed
  next
    case neg: False
    obtain w0 where w0: "w0 = (case map_of d (ie_path e) of None \<Rightarrow>
        \<lparr>we_part = ie_part e, we_groups = Some [], we_max = ie_max e, we_fp = (case map_of fps (ie_path e) of None \<Rightarrow> [] | Some f \<Rightarrow> f)\<rparr>
      | Some w \<Rightarrow> w)" by simp
    obtain w1 where w1: "w1 = w0\<lparr>we_groups := Some (insort_insert (ie_group e) (case we_groups w0 of None \<Rightarrow> [] | Some gs \<Rightarrow> gs)),
        we_max := max (we_max w0) (ie_max e)\<rparr>" by simp
    have upd: "group_entries fps negative (es @ [e]) = AList.update (ie_path e) w1 d"
      using neg by (simp add: step group_entry_def w0 [symmetric] w1 [symmetric] Let_def)
    have own: "entry_of fps (es @ [e]) (ie_path e) w1"
    proof (cases "map_of d (ie_path e)")
      case None
      then have "ie_path e \<notin> ie_path ` set es" using ih(2) [of "ie_path e"] neg by simp
      then have "{x \<in> set (es @ [e]). ie_path x = ie_path e} = {e}" by (force simp: image_iff)
      then show ?thesis using None \<open>ie_path e \<notin> ie_path ` set es\<close> unfolding entry_of_def w1 w0 by (auto simp: insort_insert_key_def)
    next
      case (Some w)
      then have old: "entry_of fps es (ie_path e) w" "w0 = w" using ih(2) [of "ie_path e"] by (simp_all add: w0)
      then obtain gs where gs: "we_groups w = Some gs" "distinct gs" "set gs = ie_group ` {x \<in> set es. ie_path x = ie_path e}" by (auto simp: entry_of_def)
      have "{x \<in> set (es @ [e]). ie_path x = ie_path e} = insert e {x \<in> set es. ie_path x = ie_path e}" by auto
      then have "distinct (insort_insert (ie_group e) gs)" "set (insort_insert (ie_group e) gs) = ie_group ` {x \<in> set (es @ [e]). ie_path x = ie_path e}"
        using gs by (simp_all add: distinct_insort_insert set_insort_insert)
      then show ?thesis using old gs(1) unfolding entry_of_def w1 by (auto simp: le_max_iff_disj)
    qed
    show ?thesis
    proof (cases "path = ie_path e")
      case True
      then show ?thesis using own neg ih(1) by (simp add: upd update_conv' distinct_update)
    next
      case False
      then show ?thesis using ih(1) ih(2) [of path] other [OF False]
        by (cases "map_of d path") (simp_all add: upd update_conv' distinct_update)
    qed
  qed
qed (simp add: group_entries_def)

lemma add_unknown_at:
  assumes "distinct (map fst fps)"
  shows "map_of (add_unknown bp negative fps d) path = (case map_of fps path of
      Some f \<Rightarrow> if path \<in> set negative then map_of d path
        else Some \<lparr>we_part = the (map_of bp path), we_groups = None, we_max = pt_max (the (map_of bp path)), we_fp = f\<rparr>
    | None \<Rightarrow> map_of d path)"
  using assms
proof (induction fps arbitrary: d)
  case (Cons x fps)
  obtain u f where x: "x = (u, f)" by (cases x)
  have step: "add_unknown bp negative (x # fps) d = add_unknown bp negative fps (if u \<in> set negative then d
     else AList.update u \<lparr>we_part = the (map_of bp u), we_groups = None, we_max = pt_max (the (map_of bp u)), we_fp = f\<rparr> d)"
    by (simp add: add_unknown_def x Let_def)
  have "map_of fps u = None" using Cons.prems x by (force simp: map_of_eq_None_iff)
  then show ?case using Cons.IH Cons.prems unfolding step [unfolded x] x by (auto simp: update_conv' split: option.split)
qed (simp add: add_unknown_def)

lemma add_unknown_distinct: "distinct (map fst d) \<Longrightarrow> distinct (map fst (add_unknown bp negative fps d))"
  by (induction fps arbitrary: d) (auto simp: add_unknown_def Let_def distinct_update)


section \<open>The page of one part\<close>

lemma distinct_concat_filter: "distinct (concat (map f xs)) \<Longrightarrow> distinct (concat (map f (filter P xs)))"
  by (induction xs) auto

lemma distinct_concat_nth:
  assumes "distinct (concat (map f xs))" "distinct is" "\<forall>i \<in> set is. i < length xs"
  shows "distinct (concat (map (\<lambda>i. f (xs ! i)) is))"
proof -
  have part: "distinct (f (xs ! i))" if "i < length xs" for i using assms(1) that by (simp add: distinct_concat_iff)
  have less: "set (f (xs ! i)) \<inter> set (f (xs ! j)) = {}" if "i < j" "j < length xs" for i j
  proof -
    have "xs = take j xs @ xs ! j # drop (Suc j) xs" using that(2) by (rule id_take_nth_drop)
    then have "distinct (concat (map f (take j xs)) @ f (xs ! j) @ concat (map f (drop (Suc j) xs)))"
      using assms(1) by (metis concat.simps(2) concat_append list.map(2) map_append)
    moreover have "xs ! i \<in> set (take j xs)" using that by (force simp: in_set_conv_nth)
    ultimately show ?thesis by auto
  qed
  then have apart: "set (f (xs ! i)) \<inter> set (f (xs ! j)) = {}" if "i \<noteq> j" "i < length xs" "j < length xs" for i j
    using that by (metis Int_commute linorder_neqE_nat)
  show ?thesis using assms(2,3)
  proof (induction "is")
    case (Cons i js)
    then have "set (f (xs ! i)) \<inter> set (f (xs ! j)) = {}" if "j \<in> set js" for j using apart [of i j] that by auto
    then show ?case using Cons part by auto
  qed simp
qed

text \<open>A work entry that leads to every selected row of its part.\<close>

definition entry_covers :: "(string \<Rightarrow> row_group list) \<Rightarrow> (part \<Rightarrow> qrow list) \<Rightarrow> work_entry \<Rightarrow> bool" where
  "entry_covers body answer w \<longleftrightarrow> (\<forall>r \<in> set (answer (we_part w)). qr_epoch r \<le> we_max w)
     \<and> (case we_groups w of None \<Rightarrow> True | Some gs \<Rightarrow> distinct gs
          \<and> (\<forall>r \<in> set (answer (we_part w)). \<exists>i \<in> set gs. i < length (body (pt_sha (we_part w))) \<and> r \<in> set (rg_rows (body (pt_sha (we_part w)) ! i))))"

lemma read_part_rows:
  assumes "fetch_ok body fetch" "\<forall>g \<in> set (body (pt_sha p)). group_true g" "distinct (part_rows body (pt_sha p))"
    and q: "windowed now retention q a b" "clean_operations q"
    and cover: "case groups of None \<Rightarrow> True | Some gs \<Rightarrow> distinct gs \<and> (\<forall>r \<in> set (part_answer body verdict now retention q p).
      \<exists>i \<in> set gs. i < length (body (pt_sha p)) \<and> r \<in> set (rg_rows (body (pt_sha p) ! i)))"
    and read: "read_part fetch broken q p groups = Inr rs"
  shows "distinct rs" "set rs \<subseteq> set (part_rows body (pt_sha p))" "set (part_answer body verdict now retention q p) \<subseteq> set rs"
proof -
  let ?gs = "body (pt_sha p)" and ?A = "part_answer body verdict now retention q p"
  have dist: "distinct (concat (map rg_rows ?gs))" using assms(3) by (simp add: part_rows_def)
  have body: "fetch p = Inr ?gs" using read assms(1) by (auto simp: read_part_def fetch_ok_def split: sum.splits)
  have "distinct rs \<and> set rs \<subseteq> set (part_rows body (pt_sha p)) \<and> set ?A \<subseteq> set rs"
  proof (cases groups)
    case None
    then have rs: "rs = concat (map rg_rows (structural_groups broken q ?gs))" using read by (simp add: read_part_def body)
    have "?gs = filter (\<lambda>_. True) ?gs" by simp
    then obtain P where P: "structural_groups broken q ?gs = filter P ?gs"
      unfolding structural_groups_def by (cases "strip (q_table q) = [] \<and> strip (q_database q) = [] \<and> stripped_operations (q_operations q) = []") metis+
    have "distinct rs" using distinct_concat_filter [OF dist] by (simp add: rs P)
    moreover have "set rs \<subseteq> set (part_rows body (pt_sha p))" by (auto simp: rs P part_rows_def)
    moreover have "r \<in> set rs" if r: "r \<in> set ?A" for r
    proof -
      from r obtain g where g: "g \<in> set ?gs" "r \<in> set (rg_rows g)" "row_matches now retention q r"
        by (auto simp: part_answer_def answer_rows_def part_rows_def)
      have "g \<in> set (structural_groups broken q ?gs)"
        using structural_sound [OF g(1) _ g(2,3) q(2), of a b] assms(2) g(1) q(1) by (auto simp: windowed_def)
      then show ?thesis using g(2) by (auto simp: rs)
    qed
    ultimately show ?thesis by blast
  next
    case (Some ids)
    obtain js where js: "js = filter (\<lambda>i. i < length ?gs) ids" by simp
    have rs: "rs = concat (map (\<lambda>i. rg_rows (?gs ! i)) js)"
      using read Some by (simp add: read_part_def body Let_def js split: if_splits)
    have c: "distinct ids" "\<forall>r \<in> set ?A. \<exists>i \<in> set ids. i < length ?gs \<and> r \<in> set (rg_rows (?gs ! i))"
      using cover unfolding Some option.case by blast+
    have "distinct rs" unfolding rs by (rule distinct_concat_nth [OF dist]) (use c(1) in \<open>simp_all add: js\<close>)
    moreover have "set rs \<subseteq> set (part_rows body (pt_sha p))" by (force simp: rs js part_rows_def)
    moreover have "r \<in> set rs" if r: "r \<in> set ?A" for r
    proof -
      obtain i where "i \<in> set ids" "i < length ?gs" "r \<in> set (rg_rows (?gs ! i))" using c(2) r by blast
      then show ?thesis by (auto simp: rs js)
    qed
    ultimately show ?thesis by blast
  qed
  then show "distinct rs" "set rs \<subseteq> set (part_rows body (pt_sha p))" "set ?A \<subseteq> set rs" by blast+
qed


text \<open>The page a scan gets of one part: its newest selected rows up to the target, all of them unless it says there are more.\<close>

lemma scan_entry_page:
  fixes q :: event_query
  assumes "fetch_ok body fetch" "\<forall>g \<in> set (body (pt_sha (we_part w))). group_true g" "distinct (part_rows body (pt_sha (we_part w)))"
    and "ids_agree (set (part_rows body (pt_sha (we_part w))))"
    and q: "windowed now retention q a b" "clean_operations q" "q_offset q = 0" "1 \<le> q_limit q" "q_limit q \<le> SCAN_CAP"
    and cover: "entry_covers body (part_answer body verdict now retention q) w"
    and positive: "\<And>rs. map_of positive (pt_path (we_part w)) = Some rs \<Longrightarrow> set rs = set (part_answer body verdict now retention q (we_part w))"
    and scan: "scan_entry fetch broken verdict now retention q positive w = Inr (page, c)"
  shows "front (nat (q_limit q)) (set (part_answer body verdict now retention q (we_part w))) \<subseteq> set (tp_rows page)
    \<and> set (tp_rows page) \<subseteq> set (part_answer body verdict now retention q (we_part w))
    \<and> (tp_more page \<or> set (tp_rows page) = set (part_answer body verdict now retention q (we_part w)))"
proof (cases "map_of positive (pt_path (we_part w))")
  case (Some rs)
  then have "page = \<lparr>tp_rows = rs, tp_more = False\<rparr>" using scan by (simp add: scan_entry_def)
  then show ?thesis using positive [OF Some] top_subset by simp
next
  case None
  let ?A = "part_answer body verdict now retention q (we_part w)"
  obtain rs where rs: "read_part fetch broken q (we_part w) (we_groups w) = Inr rs" "query_arrow_table verdict now retention q SCAN_CAP rs = Some page"
    using scan None by (auto simp: scan_entry_def split: sum.splits option.splits)
  have "case we_groups w of None \<Rightarrow> True | Some gs \<Rightarrow> distinct gs \<and> (\<forall>r \<in> set ?A.
      \<exists>i \<in> set gs. i < length (body (pt_sha (we_part w))) \<and> r \<in> set (rg_rows (body (pt_sha (we_part w)) ! i)))"
    using cover by (simp add: entry_covers_def)
  note R = read_part_rows [OF assms(1-3) q(1,2) this rs(1)]
  obtain sel where sel: "selected_rows verdict now retention q rs = Some sel"
    using rs(2) by (auto simp: query_arrow_table_def Let_def)
  have pg: "page = \<lparr>tp_rows = take (nat (q_limit q)) (newest_first sel), tp_more = nat (q_limit q) < length (newest_first sel)\<rparr>"
    using rs(2) q(3-5) by (simp add: query_arrow_table_def sel min_def max_def Let_def)
  have ans: "sel = answer_rows verdict now retention q rs" by (rule selected_answer [OF sel])
  have set_sel: "set sel = set ?A" using R(2,3) unfolding ans by (auto simp: part_answer_def answer_rows_def)
  have d: "distinct sel" using R(1) unfolding ans by (simp add: answer_rows_def)
  have ids: "ids_agree (set sel)" using R(2) unfolding ans by (intro ids_agree_mono [OF assms(4)]) (auto simp: answer_rows_def)
  have rows: "set (tp_rows page) = front (nat (q_limit q)) (set ?A)" using newest_take [OF d ids] by (simp add: pg set_sel)
  have "set (tp_rows page) = set ?A" if "\<not> tp_more page"
    using that newest_sorted(3) [OF d ids] by (simp add: pg set_sel)
  then show ?thesis using rows top_subset by auto
qed


section \<open>The work list\<close>

text \<open>What the probe caches say of the listed parts is true.\<close>

definition probe_sound :: "(string \<Rightarrow> qrow list option) \<Rightarrow> (part \<Rightarrow> string) \<Rightarrow> (part \<Rightarrow> qrow list) \<Rightarrow> part list \<Rightarrow> part_tables \<Rightarrow> bool" where
  "probe_sound parse fp answer parts S \<longleftrightarrow> (\<forall>entries. set entries \<subseteq> (\<lambda>p. (pt_path p, pt_sha p, fp p)) ` set parts \<longrightarrow>
     (\<forall>p \<in> set parts. (pt_path p \<in> set (negative_probe_matches entries S) \<longrightarrow> answer p = [])
        \<and> (\<forall>rs. (pt_path p, rs) \<in> set (positive_probe_matches parse entries S) \<longrightarrow> set rs = set (answer p))))"

lemma set_update_dict: "x \<in> set (AList.update k v d) \<Longrightarrow> x = (k, v) \<or> x \<in> set d"
  by (induction d) (auto split: if_splits)

lemma set_updates_dict: "x \<in> set (foldl (\<lambda>d (k, v). AList.update k v d) d kvs) \<Longrightarrow> x \<in> set kvs \<or> x \<in> set d"
proof (induction kvs arbitrary: d)
  case (Cons kv kvs)
  obtain k v where kv: "kv = (k, v)" by (cases kv)
  then have "x \<in> set kvs \<or> x \<in> set (AList.update k v d)" using Cons by simp
  then show ?case using set_update_dict [of x k v d] by (auto simp: kv)
qed simp

lemma index_fingerprints_set: "x \<in> set (index_fingerprints fp bp es) \<Longrightarrow> \<exists>p. map_of bp (fst x) = Some p \<and> snd x = fp p"
proof (induction es rule: rev_induct)
  case (snoc e es)
  have "index_fingerprints fp bp (es @ [e]) = (let d = index_fingerprints fp bp es in case map_of bp (ie_path e) of None \<Rightarrow> d
     | Some p \<Rightarrow> if map_of d (ie_path e) \<noteq> None then d else d @ [(ie_path e, fp p)])" by (simp add: index_fingerprints_def Let_def)
  then show ?case using snoc by (auto simp: Let_def split: option.splits if_splits)
qed (simp add: index_fingerprints_def)


text \<open>
  The stages of the plan: \<open>known\<close> and \<open>unknown\<close> are the fingerprints asked for, \<open>pos\<close> the probes that answer, \<open>neg\<close>
  the paths found empty.
\<close>

definition plan_inputs :: "(string \<Rightarrow> row_group list) \<Rightarrow> (part \<Rightarrow> qrow list) \<Rightarrow> part list \<Rightarrow> index_plan \<Rightarrow> (part \<Rightarrow> string)
    \<Rightarrow> (string \<Rightarrow> (string \<times> part_catalog) option) \<Rightarrow> event_query \<Rightarrow> (string \<Rightarrow> qrow list option) \<Rightarrow> part_tables \<Rightarrow> bool" where
  "plan_inputs body answer parts plan fp catalogs q parse S \<longleftrightarrow> distinct (map pt_path parts) \<and> plan_sound body answer parts plan
     \<and> (\<forall>p \<in> set parts. (\<forall>r \<in> set (answer p). qr_epoch r \<le> pt_max p) \<and> (catalog_skips catalogs q p \<longrightarrow> answer p = []))
     \<and> probe_sound parse fp answer parts S"

lemma plan_inputsD:
  assumes "plan_inputs body answer parts plan fp catalogs q parse S"
  shows "distinct (map pt_path parts)" "plan_sound body answer parts plan" "p \<in> set parts \<Longrightarrow> r \<in> set (answer p) \<Longrightarrow> qr_epoch r \<le> pt_max p"
    "p \<in> set parts \<Longrightarrow> catalog_skips catalogs q p \<Longrightarrow> answer p = []" "probe_sound parse fp answer parts S"
    "p \<in> set parts \<Longrightarrow> map_of (map (\<lambda>p. (pt_path p, p)) parts) (pt_path p) = Some p"
    "p \<in> set parts \<Longrightarrow> p' \<in> set parts \<Longrightarrow> pt_path p = pt_path p' \<Longrightarrow> p = p'"
  using assms map_of_parts [of parts p] by (auto simp: plan_inputs_def distinct_map inj_on_def)

lemma probes_asked:
  assumes "\<And>x. x \<in> set fps \<Longrightarrow> \<exists>p \<in> set parts. x = (pt_path p, fp p)" "\<And>p. p \<in> set parts \<Longrightarrow> map_of bp (pt_path p) = Some p"
  shows "set (probes_for bp fps) \<subseteq> (\<lambda>p. (pt_path p, pt_sha p, fp p)) ` set parts"
proof
  fix y
  assume "y \<in> set (probes_for bp fps)"
  then obtain path f where x: "(path, f) \<in> set fps" "y = (path, pt_sha (the (map_of bp path)), f)" by (auto simp: probes_for_def)
  from assms(1) [OF x(1)] obtain p where "p \<in> set parts" "path = pt_path p" "f = fp p" by auto
  then show "y \<in> (\<lambda>p. (pt_path p, pt_sha p, fp p)) ` set parts" using x(2) assms(2) by simp
qed

text \<open>The entries of the plan before the unreadable parts are dropped.\<close>

lemma grouped_covers:
  assumes inputs: "plan_inputs body answer parts plan fp catalogs q parse S" and bp: "bp = map (\<lambda>p. (pt_path p, p)) parts"
    and known: "known = index_fingerprints fp bp (ip_entries plan)"
    and w: "map_of (group_entries known negative (ip_entries plan)) path = Some w"
  shows "we_part w \<in> set parts \<and> pt_path (we_part w) = path \<and> entry_covers body answer w \<and> we_fp w = fp (we_part w)"
proof -
  note D = plan_inputsD [OF inputs]
  have e: "path \<notin> set negative" "entry_of known (ip_entries plan) path w"
    using group_entries_at [of known negative "ip_entries plan" path] w by simp_all
  obtain e where own: "e \<in> set (ip_entries plan)" "ie_path e = path" "we_part w = ie_part e" using e(2) by (auto simp: entry_of_def)
  have p: "ie_part e \<in> set parts" "ie_path e \<notin> set (ip_unknown plan)" using D(2) own(1) by (auto simp: plan_sound_def)
  have fps: "map_of known path = Some (fp (ie_part e))"
    using own(1,2) D(6) [OF p(1)] by (auto simp: known index_fingerprints_at bp)
  have "entry_covers body answer w"
  proof -
    obtain gs where gs: "we_groups w = Some gs" "distinct gs" "set gs = ie_group ` {e \<in> set (ip_entries plan). ie_path e = path}"
      using e(2) by (auto simp: entry_of_def)
    have top: "x \<in> set (ip_entries plan) \<Longrightarrow> ie_path x = path \<Longrightarrow> ie_max x \<le> we_max w" for x using e(2) by (auto simp: entry_of_def)
    have row: "\<exists>x. x \<in> set (ip_entries plan) \<and> ie_path x = path \<and> ie_group x < length (body (pt_sha (we_part w)))
        \<and> r \<in> set (rg_rows (body (pt_sha (we_part w)) ! ie_group x)) \<and> qr_epoch r \<le> ie_max x" if "r \<in> set (answer (we_part w))" for r
      using D(2) p that own unfolding plan_sound_def by (metis (no_types, lifting))
    have "qr_epoch r \<le> we_max w" if "r \<in> set (answer (we_part w))" for r using row [OF that] top by force
    moreover have "\<exists>i \<in> set gs. i < length (body (pt_sha (we_part w))) \<and> r \<in> set (rg_rows (body (pt_sha (we_part w)) ! i))"
      if "r \<in> set (answer (we_part w))" for r using row [OF that] by (auto simp: gs(3))
    ultimately show ?thesis using gs by (simp add: entry_covers_def)
  qed
  then show ?thesis using own p e(2) fps by (simp add: entry_of_def)
qed

lemma unknown_covers:
  assumes inputs: "plan_inputs body answer parts plan fp catalogs q parse S" and bp: "bp = map (\<lambda>p. (pt_path p, p)) parts"
    and f: "map_of (unknown_fingerprints fp catalogs q bp (ip_unknown plan)) path = Some f"
  shows "the (map_of bp path) \<in> set parts" "pt_path (the (map_of bp path)) = path" "f = fp (the (map_of bp path))"
    "entry_covers body answer \<lparr>we_part = the (map_of bp path), we_groups = None, we_max = pt_max (the (map_of bp path)), we_fp = f\<rparr>"
proof -
  note D = plan_inputsD [OF inputs]
  have "path \<in> set (ip_unknown plan)" "f = fp (the (map_of bp path))" using f by (auto simp: unknown_fingerprints_at split: if_splits)
  moreover from this obtain p where p: "p \<in> set parts" "path = pt_path p" using D(2) by (auto simp: plan_sound_def)
  moreover have "map_of bp path = Some p" using D(6) p by (simp add: bp)
  ultimately show "the (map_of bp path) \<in> set parts" "pt_path (the (map_of bp path)) = path" "f = fp (the (map_of bp path))"
    "entry_covers body answer \<lparr>we_part = the (map_of bp path), we_groups = None, we_max = pt_max (the (map_of bp path)), we_fp = f\<rparr>"
    using D(3) by (simp_all add: entry_covers_def)
qed


lemma plan_work_ok:
  assumes inputs: "plan_inputs body answer parts plan fp catalogs q parse S" and W: "W = plan_work fp catalogs parse is_file q parts plan S"
  shows "w \<in> set (wp_work W) \<Longrightarrow> we_part w \<in> set parts \<and> body_available is_file (we_part w) \<and> entry_covers body answer w \<and> we_fp w = fp (we_part w)"
    and "p \<in> set parts \<Longrightarrow> body_available is_file p \<Longrightarrow> answer p \<noteq> [] \<Longrightarrow> \<exists>w \<in> set (wp_work W). we_part w = p"
    and "p \<in> set parts \<Longrightarrow> map_of (wp_positive W) (pt_path p) = Some rs \<Longrightarrow> set rs = set (answer p)"
    and "sorted_wrt (\<lambda>v w. we_max w \<le> we_max v) (wp_work W)" "wp_unavailable W = filter (\<lambda>p. \<not> body_available is_file p) parts"
proof -
  note D = plan_inputsD [OF inputs]
  obtain bp where bp: "bp = map (\<lambda>p. (pt_path p, p)) parts" by simp
  have at: "map_of bp (pt_path p) = Some p" if "p \<in> set parts" for p using D(6) [OF that] by (simp add: bp)
  have bpD: "map_of bp path = Some p \<Longrightarrow> p \<in> set parts \<and> pt_path p = path" for path p using map_of_partsD by (auto simp: bp)
  obtain known where known: "known = index_fingerprints fp bp (ip_entries plan)" by simp
  obtain unknown where unknown: "unknown = unknown_fingerprints fp catalogs q bp (ip_unknown plan)" by simp
  have asked1: "set (probes_for bp known) \<subseteq> (\<lambda>p. (pt_path p, pt_sha p, fp p)) ` set parts"
    by (rule probes_asked [OF _ at]) (use index_fingerprints_set [of _ fp bp] bpD in \<open>fastforce simp: known\<close>)
  have asked2: "set (probes_for bp unknown) \<subseteq> (\<lambda>p. (pt_path p, pt_sha p, fp p)) ` set parts"
  proof (rule probes_asked [OF _ at])
    fix x
    assume "x \<in> set unknown"
    then have "map_of unknown (fst x) = Some (snd x)" using unknown_fingerprints_at(2) by (simp add: unknown)
    from unknown_covers(1-3) [OF inputs bp this [unfolded unknown]] show "\<exists>p \<in> set parts. x = (pt_path p, fp p)"
      by (metis prod.collapse)
  qed
  note asked1 = D(5) [unfolded probe_sound_def, rule_format, OF asked1] and asked2 = D(5) [unfolded probe_sound_def, rule_format, OF asked2]
  obtain pos1 where pos1: "pos1 = positive_probe_matches parse (probes_for bp known) S" by simp
  obtain neg1 where neg1: "neg1 = filter (\<lambda>path. path \<notin> fst ` set pos1) (negative_probe_matches (probes_for bp known) S)" by simp
  obtain pos where pos: "pos = foldl (\<lambda>d (path, rs). AList.update path rs d) pos1 (positive_probe_matches parse (probes_for bp unknown) S)" by simp
  obtain neg where neg: "neg = filter (\<lambda>path. path \<notin> fst ` set pos) (neg1 @ negative_probe_matches (probes_for bp unknown) S)" by simp
  obtain grouped where grouped: "grouped = group_entries known neg1 (ip_entries plan)" by simp
  obtain d where d: "d = add_unknown bp neg unknown grouped" by simp
  have Wd: "W = \<lparr>wp_work = filter (\<lambda>w. body_available is_file (we_part w)) (sort_desc_key work_order (map snd d)), wp_positive = pos,
      wp_unavailable = filter (\<lambda>p. \<not> body_available is_file p) parts\<rparr>"
    by (simp add: W plan_work_def Let_def bp known unknown pos1 neg1 pos neg grouped d)
  have d_at: "map_of d path = (case map_of unknown path of
      Some f \<Rightarrow> if path \<in> set neg then map_of grouped path
        else Some \<lparr>we_part = the (map_of bp path), we_groups = None, we_max = pt_max (the (map_of bp path)), we_fp = f\<rparr>
    | None \<Rightarrow> map_of grouped path)" for path
    unfolding d by (rule add_unknown_at) (simp add: unknown unknown_fingerprints_at)
  have d_keys: "distinct (map fst d)" unfolding d grouped using group_entries_at by (blast intro: add_unknown_distinct)
  have d_ok: "we_part w \<in> set parts \<and> pt_path (we_part w) = path \<and> entry_covers body answer w \<and> we_fp w = fp (we_part w)"
    if "map_of d path = Some w" for path w
    using that grouped_covers [OF inputs bp known] unknown_covers [OF inputs bp] unfolding d_at unknown grouped
    by (auto split: option.splits if_splits)
  show "we_part w \<in> set parts \<and> body_available is_file (we_part w) \<and> entry_covers body answer w \<and> we_fp w = fp (we_part w)" if "w \<in> set (wp_work W)"
  proof -
    from that obtain path where "(path, w) \<in> set d" "body_available is_file (we_part w)" by (auto simp: Wd)
    then show ?thesis using d_ok d_keys by (auto simp: map_of_eq_Some_iff)
  qed
  have pos_ok: "set rs = set (answer p)" if "p \<in> set parts" "(pt_path p, rs) \<in> set pos" for p rs
    using set_updates_dict [OF that(2) [unfolded pos]] asked1 asked2 that(1) by (auto simp: pos1)
  then show "set rs = set (answer p)" if "p \<in> set parts" "map_of (wp_positive W) (pt_path p) = Some rs"
    using that map_of_SomeD by (fastforce simp: Wd)
  show "\<exists>w \<in> set (wp_work W). we_part w = p" if p: "p \<in> set parts" "body_available is_file p" "answer p \<noteq> []"
  proof -
    have no1: "pt_path p \<notin> set neg1" using asked1 p by (auto simp: neg1)
    then have no2: "pt_path p \<notin> set neg" using asked2 p by (auto simp: neg)
    have "\<exists>w. map_of d (pt_path p) = Some w \<and> we_part w = p"
    proof (cases "pt_path p \<in> set (ip_unknown plan)")
      case True
      then have "map_of unknown (pt_path p) = Some (fp p)" using D(4) [OF p(1)] p(3) at [OF p(1)] by (auto simp: unknown unknown_fingerprints_at)
      then show ?thesis using no2 at [OF p(1)] by (simp add: d_at)
    next
      case False
      then have "map_of unknown (pt_path p) = None" by (simp add: unknown unknown_fingerprints_at)
      moreover have "pt_path p \<in> ie_path ` set (ip_entries plan)"
        using D(2) p False unfolding plan_sound_def by (metis (no_types, lifting) image_eqI last_in_set)
      then obtain w where w: "map_of grouped (pt_path p) = Some w"
        using group_entries_at [of known neg1 "ip_entries plan" "pt_path p"] no1 by (cases "map_of grouped (pt_path p)") (auto simp: grouped)
      moreover have "we_part w = p" using grouped_covers [OF inputs bp known w [unfolded grouped]] D(7) p(1) by blast
      ultimately show ?thesis by (simp add: d_at)
    qed
    then obtain w where "map_of d (pt_path p) = Some w" "we_part w = p" by blast
    then show ?thesis using p(2) by (force simp: Wd dest: map_of_SomeD)
  qed
  have "sorted_wrt (\<lambda>v w. work_order w \<le> work_order v) (sort_desc_key work_order (map snd d))"
    using sorted_sort_desc_key [of work_order "map snd d"] by (simp add: sorted_wrt_map)
  then have "sorted_wrt (\<lambda>v w. work_order w \<le> work_order v) (wp_work W)" by (simp add: Wd sorted_wrt_filter)
  then show "sorted_wrt (\<lambda>v w. we_max w \<le> we_max v) (wp_work W)"
    by (rule sorted_wrt_mono_rel [rotated]) (auto simp: work_order_def)
  show "wp_unavailable W = filter (\<lambda>p. \<not> body_available is_file p) parts" by (simp add: Wd)
qed


section \<open>The answer\<close>

lemma page_of_take: "offset + limit \<le> n \<Longrightarrow> page_of offset limit (take n xs) = page_of offset limit xs"
  by (simp add: page_of_def drop_take min_def)

lemma finish_exact:
  assumes ok: "task_ok K A" "rows_ok K A st" "ss_stopped st \<or> ss_next st = length (sk_work K)"
    and L: "distinct xs" "set xs = read_rows A (length (sk_work K))" and bound: "offset + limit < sk_target K"
    and page: "page = finish_scan offset limit (length (sk_work K)) unavailable st"
  shows "qp_rows page = page_of offset limit (newest_first xs) \<and> qp_more page = (offset + limit < length xs)
    \<and> (\<forall>ys. qp_complete page = Some ys \<longrightarrow> ys = newest_first xs \<and> unavailable = [])"
proof -
  let ?t = "sk_target K" and ?N = "length (sk_work K)"
  have ids: "ids_agree (set xs)" using task_okD(5) [OF ok(1), of ?N] by (simp add: L(2))
  have sub: "set (ss_rows st) \<subseteq> set xs"
    using ok(2) read_rows_mono [of "ss_next st" ?N A] by (auto simp: rows_ok_def L(2))
  have front: "front ?t (set (ss_rows st)) = front ?t (set xs)"
  proof (cases "ss_stopped st")
    case True
    then show ?thesis using ok(2) unfolding rows_ok_def L(2) by simp
  next
    case False
    then have "ss_next st = ?N" using ok(3) by blast
    then show ?thesis using ok(2) unfolding rows_ok_def L(2) if_cancel by simp
  qed
  obtain ys where ys: "ys = unique_rows (ss_rows st)" by simp
  have y: "distinct ys" "set ys = set (ss_rows st)" using unique_rows_distinct unique_rows_set [OF ids_agree_mono [OF ids sub]] by (auto simp: ys)
  have same: "take ?t (newest_first ys) = take ?t (newest_first xs)"
    by (rule newest_take_determined [OF y(1) L(1)]) (use ids sub front in \<open>simp_all add: y(2) Un_absorb1\<close>)
  have "page_of offset limit (newest_first ys) = page_of offset limit (newest_first xs)"
    using page_of_take [of offset limit ?t "newest_first ys"] page_of_take [of offset limit ?t "newest_first xs"] bound same by simp
  moreover have "length (take ?t (newest_first ys)) = length (take ?t (newest_first xs))" by (simp only: same)
  then have "offset + limit < length ys \<longleftrightarrow> offset + limit < length xs" using bound by (auto simp: newest_first_def min_def split: if_splits)
  moreover have "newest_first ys = newest_first xs" if "\<not> ss_stopped st" "\<not> ss_more st" "\<not> ss_cut st"
  proof (rule newest_determined [OF y(1) L(1)])
    show "set ys = set xs" using that ok(2,3) by (auto simp: y(2) L(2) rows_ok_def)
    then show "ids_agree (set ys)" using ids by simp
  qed
  ultimately show ?thesis unfolding page finish_scan_def Let_def ys [symmetric] by (auto simp: newest_first_def)
qed

text \<open>What the scan remembers of a part is what the query selects of it.\<close>

lemma logs_true:
  assumes "task_ok K A" "logs_ok K st"
  shows "w \<in> set (ss_negative st) \<Longrightarrow> \<exists>i < length (sk_work K). w = sk_work K ! i \<and> A i = {}"
    and "(w, rs) \<in> set (ss_positive st) \<Longrightarrow> \<exists>i < length (sk_work K). w = sk_work K ! i \<and> A i = set rs"
proof -
  note logs = assms(2) [unfolded logs_ok_def, THEN conjunct1] assms(2) [unfolded logs_ok_def, THEN conjunct2]
  show "\<exists>i < length (sk_work K). w = sk_work K ! i \<and> A i = {}" if w: "w \<in> set (ss_negative st)"
  proof -
    obtain i page c where i: "i < length (sk_work K)" "w = sk_work K ! i" "sk_pages K ! i = Inr (page, c)" "tp_rows page = []"
      using bspec [OF logs(1) w] by (elim exE conjE)
    have "A i = {}"
    proof (rule ccontr)
      assume "A i \<noteq> {}"
      have fin: "finite (A i)" "ids_agree (A i)" using assms(1) i(1) unfolding task_ok_def
        by (auto intro: finite_subset [of "A i"] ids_agree_mono [of _ "A i"])
      have "front (sk_target K) (A i) = {}" using task_okD(7) [OF assms(1) i(1,3)] i(4) by simp
      then have "min (sk_target K) (card (A i)) = 0" using top_card [OF fin, of "sk_target K"] by simp
      then show False using \<open>A i \<noteq> {}\<close> fin(1) task_okD(2) [OF assms(1)] by (auto simp: min_def split: if_splits)
    qed
    then show ?thesis using i by blast
  qed
  show "\<exists>i < length (sk_work K). w = sk_work K ! i \<and> A i = set rs" if w: "(w, rs) \<in> set (ss_positive st)"
  proof -
    obtain i page where i: "i < length (sk_work K)" "w = sk_work K ! i" "sk_pages K ! i = Inr (page, False)" "rs = tp_rows page" "\<not> tp_more page"
      using bspec [OF logs(2) w] unfolding prod.case by (elim exE conjE)
    then show ?thesis using task_okD(7) [OF assms(1) i(1,3)] by blast
  qed
qed


section \<open>The page of a query\<close>

text \<open>
  What the query relies on: the contents of the listed parts, the reading of parts, the catalogs and the index plan are
  true, the parts are those of the asked instance, and the query has a time window within the retention.
\<close>

definition tiered_inputs :: "(string \<Rightarrow> row_group list) \<Rightarrow> (string \<Rightarrow> string) \<Rightarrow> (string \<Rightarrow> qrow \<Rightarrow> exact_verdict) \<Rightarrow> (string \<Rightarrow> (string \<times> part_catalog) option)
    \<Rightarrow> (part \<Rightarrow> string + row_group list) \<Rightarrow> int \<Rightarrow> int \<Rightarrow> event_query \<Rightarrow> int \<Rightarrow> int \<Rightarrow> part list \<Rightarrow> index_plan \<Rightarrow> bool" where
  "tiered_inputs body owner verdict catalogs fetch now retention q start stop parts plan \<longleftrightarrow> bodies_ok body owner parts
     \<and> (\<forall>p \<in> set parts. field_matches True (q_instance q) [owner (pt_file p)]) \<and> fetch_ok body fetch \<and> catalogs_true body catalogs
     \<and> plan_sound body (part_answer body verdict now retention q) parts plan \<and> windowed now retention q start stop \<and> clean_operations q"

abbreviation part_fingerprint :: "(probe_payload \<Rightarrow> string) \<Rightarrow> event_query \<Rightarrow> int \<Rightarrow> int \<Rightarrow> part \<Rightarrow> string" where
  "part_fingerprint hash q start stop p \<equiv> query_probe_fingerprint hash q (pt_min p) (pt_max p) start stop"

lemma internal_simps [simp]:
  "q_instance (internal_query cap q start stop) = q_instance q" "query_payload (internal_query cap q start stop) = query_payload q"
  "catalog_allows c (internal_query cap q start stop) = catalog_allows c q" "q_offset (internal_query cap q start stop) = 0"
  "q_limit (internal_query cap q start stop) = page_target cap q"
  by (simp_all add: internal_query_def query_payload_def catalog_allows_def query_terms_def wants_any_def fun_eq_iff)

lemma probe_meaning: "probes_true answer S \<Longrightarrow> (path, sha, fp, v) \<in> probe_rows S \<Longrightarrow> answer sha fp v"
  unfolding probes_true_def by fastforce

lemma probes_sound:
  assumes true: "probes_true (answer_meaning hash parse body verdict) S"
    and inputs: "tiered_inputs body owner verdict catalogs fetch now retention (internal_query cap q start stop) start stop parts plan"
  shows "probe_sound parse (part_fingerprint hash q start stop) (part_answer body verdict now retention (internal_query cap q start stop)) parts S"
  unfolding probe_sound_def
proof (intro allI impI ballI conjI)
  fix entries p
  assume entries: "set entries \<subseteq> (\<lambda>p. (pt_path p, pt_sha p, part_fingerprint hash q start stop p)) ` set parts" and p: "p \<in> set parts"
  let ?q = "internal_query cap q start stop"
  have one: "p' = p" if "p' \<in> set parts" "pt_path p' = pt_path p" for p'
    using inputs p that by (auto simp: tiered_inputs_def bodies_ok_def distinct_map inj_on_def)
  have here: "windowed now retention ?q start stop" "clean_operations ?q" "part_rows_ok (pt_min p) (pt_max p) (owner (pt_file p)) (part_rows body (pt_sha p))"
    "field_matches True (q_instance ?q) [owner (pt_file p)]" "hash (query_payload ?q (max start (pt_min p)) (min stop (pt_max p))) = part_fingerprint hash q start stop p"
    using inputs p by (simp_all add: tiered_inputs_def bodies_ok_def query_probe_fingerprint_def)
  have meaning: "case v of None \<Rightarrow> answer_rows verdict now retention ?q (part_rows body (pt_sha p)) = []
      | Some json \<Rightarrow> \<forall>rs. parse json = Some rs \<longrightarrow> set rs = set (answer_rows verdict now retention ?q (part_rows body (pt_sha p)))"
    if "answer_meaning hash parse body verdict (pt_sha p) (part_fingerprint hash q start stop p) v" for v
    using that here unfolding answer_meaning_def by blast
  have asked: "sha = pt_sha p \<and> fp = part_fingerprint hash q start stop p" if "(pt_path p, sha, fp) \<in> set entries" for sha fp
    using subsetD [OF entries that] one by auto
  show "part_answer body verdict now retention ?q p = []" if n: "pt_path p \<in> set (negative_probe_matches entries S)"
  proof -
    from n obtain r where r: "r \<in> set (tb_negative S)" "np_path r = pt_path p" "(pt_path p, np_sha r, np_fingerprint r) \<in> set entries"
      by (auto simp: negative_probe_matches_def)
    have "(pt_path p, np_sha r, np_fingerprint r, None) \<in> probe_rows S" using r(1,2) by (force simp: probe_rows_def)
    from probe_meaning [OF true this] have "answer_meaning hash parse body verdict (np_sha r) (np_fingerprint r) None" .
    then show ?thesis using meaning [of None] asked [OF r(3)] by (simp add: part_answer_def)
  qed
  show "set rs = set (part_answer body verdict now retention ?q p)" if m: "(pt_path p, rs) \<in> set (positive_probe_matches parse entries S)" for rs
  proof -
    from dict_of_in [of "(pt_path p, rs)"] m
    obtain r where r: "r \<in> set (tb_positive S)" "po_path r = pt_path p" "parse (po_rows r) = Some rs" "(pt_path p, po_sha r, po_fingerprint r) \<in> set entries"
      by (force simp: positive_probe_matches_def List.map_filter_def)
    have "(pt_path p, po_sha r, po_fingerprint r, Some (po_rows r)) \<in> probe_rows S" using r(1,2) by (force simp: probe_rows_def)
    from probe_meaning [OF true this] have "answer_meaning hash parse body verdict (po_sha r) (po_fingerprint r) (Some (po_rows r))" .
    then show ?thesis using meaning [of "Some (po_rows r)"] asked [OF r(4)] r(3) by (simp add: part_answer_def)
  qed
qed

lemma tiered_plan_inputs:
  assumes "probes_true (answer_meaning hash parse body verdict) S"
    and inputs: "tiered_inputs body owner verdict catalogs fetch now retention (internal_query cap q start stop) start stop parts plan"
  shows "plan_inputs body (part_answer body verdict now retention (internal_query cap q start stop)) parts plan
    (part_fingerprint hash q start stop) catalogs q parse S"
proof -
  let ?q = "internal_query cap q start stop"
  have "part_answer body verdict now retention ?q p = []" if p: "p \<in> set parts" "catalog_skips catalogs q p" for p
  proof -
    from p(2) obtain c where "catalogs (pt_path p) = Some (pt_sha p, c)" "\<not> catalog_allows c q"
      by (auto simp: catalog_skips_def split: option.splits)
    then have c: "catalog_true c (part_rows body (pt_sha p))" "\<not> catalog_allows c ?q"
      using inputs by (simp_all add: tiered_inputs_def catalogs_true_def)
    then have "\<not> row_matches now retention ?q r" if "r \<in> set (part_rows body (pt_sha p))" for r using catalog_sound that by blast
    then show ?thesis by (simp add: part_answer_def answer_rows_def filter_empty_conv)
  qed
  moreover have "qr_epoch r \<le> pt_max p" if "p \<in> set parts" "r \<in> set (part_answer body verdict now retention ?q p)" for p r
    using inputs that by (auto simp: tiered_inputs_def bodies_ok_def part_rows_ok_def part_answer_def answer_rows_def)
  ultimately show ?thesis using probes_sound [OF assms] inputs
    by (simp add: plan_inputs_def tiered_inputs_def bodies_ok_def)
qed


lemma target_bounds: "1 \<le> page_target cap q" "page_target cap q \<le> SCAN_CAP"
  by (auto simp: page_target_def page_limit_def page_offset_def SCAN_CAP_def)

lemma page_bounds: "0 \<le> page_offset q" "1 \<le> page_limit cap q"
  by (auto simp: page_limit_def page_offset_def)

lemma tiered_task_ok:
  assumes "probes_true (answer_meaning hash parse body verdict) S" "0 < workers"
    and inputs: "tiered_inputs body owner verdict catalogs fetch now retention (internal_query cap q start stop) start stop parts plan"
    and W: "W = plan_work (part_fingerprint hash q start stop) catalogs parse is_file q parts plan S"
    and answer: "answer = part_answer body verdict now retention (internal_query cap q start stop)"
    and K: "K = \<lparr>sk_work = wp_work W, sk_pages = map (scan_entry fetch broken verdict now retention (internal_query cap q start stop) (wp_positive W)) (wp_work W),
               sk_target = nat (page_target cap q), sk_width = scan_width workers q\<rparr>"
    and A: "A = (\<lambda>i. set (answer (we_part (wp_work W ! i))))"
  shows "task_ok K A" "read_rows A (length (wp_work W)) = set (concat (map answer (filter (body_available is_file) parts)))"
proof -
  let ?q = "internal_query cap q start stop" and ?N = "length (wp_work W)"
  note P = plan_work_ok [OF tiered_plan_inputs [OF assms(1) inputs] W, folded answer]
  have at: "we_part (wp_work W ! i) \<in> set parts \<and> body_available is_file (we_part (wp_work W ! i)) \<and> entry_covers body answer (wp_work W ! i)"
    if "i < ?N" for i using P(1) [of "wp_work W ! i"] that by simp
  have ids: "ids_agree (\<Union>p \<in> set parts. set (part_rows body (pt_sha p)))" using inputs by (simp add: tiered_inputs_def bodies_ok_def)
  have sub: "set (answer p) \<subseteq> set (part_rows body (pt_sha p))" for p by (auto simp: answer part_answer_def answer_rows_def)
  have sub_all: "A i \<subseteq> (\<Union>p \<in> set parts. set (part_rows body (pt_sha p)))" if "i < ?N" for i using at [OF that] sub by (force simp: A)
  have page: "front (nat (page_target cap q)) (A i) \<subseteq> set (tp_rows page) \<and> set (tp_rows page) \<subseteq> A i \<and> (tp_more page \<or> set (tp_rows page) = A i)"
    if i: "i < ?N" and scan: "scan_entry fetch broken verdict now retention ?q (wp_positive W) (wp_work W ! i) = Inr (page, c)" for i page c
  proof -
    let ?w = "wp_work W ! i"
    have b: "fetch_ok body fetch" "\<forall>g \<in> set (body (pt_sha (we_part ?w))). group_true g" "distinct (part_rows body (pt_sha (we_part ?w)))"
      "windowed now retention ?q start stop" "clean_operations ?q"
      using inputs at [OF i] unfolding tiered_inputs_def bodies_ok_def by blast+
    have agree: "ids_agree (set (part_rows body (pt_sha (we_part ?w))))" using at [OF i] by (intro ids_agree_mono [OF ids]) auto
    have cov: "entry_covers body (part_answer body verdict now retention ?q) ?w" using at [OF i] by (simp add: answer)
    have pos: "set rs = set (part_answer body verdict now retention ?q (we_part ?w))" if "map_of (wp_positive W) (pt_path (we_part ?w)) = Some rs" for rs
      using P(3) [OF _ that] at [OF i] by (simp add: answer)
    show ?thesis using scan_entry_page [OF b(1-3) agree b(4,5) _ _ _ cov pos scan] target_bounds [of cap q] by (simp add: A answer)
  qed
  show "task_ok K A"
    unfolding task_ok_def K scan_task.simps length_map
  proof (intro conjI allI impI ballI)
    show "0 < nat (page_target cap q)" using target_bounds(1) [of cap q] by simp
    show "0 < scan_width workers q" using assms(2) by (simp add: scan_width_def QUERY_UNFILTERED_PREFETCH_def)
    show "finite (\<Union>i < ?N. A i)" by (simp add: A)
    show "ids_agree (\<Union>i < ?N. A i)" by (rule ids_agree_mono [OF ids]) (use sub_all in blast)
    show "we_max (wp_work W ! j) \<le> we_max (wp_work W ! i)" if "i \<le> j" "j < ?N" for i j
      using sorted_wrt_nth_less [OF P(4), of i j] that by (cases "i = j") auto
    show "qr_epoch r \<le> we_max (wp_work W ! i)" if "i < ?N" "r \<in> A i" for i r
      using at [OF that(1)] that(2) by (simp add: entry_covers_def A)
    fix i page c
    assume i: "i < ?N" and "map (scan_entry fetch broken verdict now retention ?q (wp_positive W)) (wp_work W) ! i = Inr (page, c)"
    then have "scan_entry fetch broken verdict now retention ?q (wp_positive W) (wp_work W ! i) = Inr (page, c)" by simp
    note here = page [OF i this]
    show "front (nat (page_target cap q)) (A i) \<subseteq> set (tp_rows page)" "set (tp_rows page) \<subseteq> A i" "tp_more page \<or> set (tp_rows page) = A i"
      using here by blast+
  qed simp_all
  show "read_rows A ?N = set (concat (map answer (filter (body_available is_file) parts)))"
  proof
    show "read_rows A ?N \<subseteq> set (concat (map answer (filter (body_available is_file) parts)))"
      using at by (force simp: read_rows_def A)
    show "set (concat (map answer (filter (body_available is_file) parts))) \<subseteq> read_rows A ?N"
    proof
      fix r
      assume "r \<in> set (concat (map answer (filter (body_available is_file) parts)))"
      then obtain p where p: "p \<in> set parts" "body_available is_file p" "r \<in> set (answer p)" by auto
      then obtain w where w: "w \<in> set (wp_work W)" "we_part w = p" using P(2) [of p] by fastforce
      then obtain i where "i < ?N" "wp_work W ! i = w" by (auto simp: in_set_conv_nth)
      then show "r \<in> read_rows A ?N" using w(2) p(3) by (auto simp: read_rows_def A)
    qed
  qed
qed


lemma tiered_scan_ok:
  assumes S: "probes_true (answer_meaning hash parse body verdict) S" and workers: "0 < workers"
    and inputs: "tiered_inputs body owner verdict catalogs fetch now retention (internal_query cap q start stop) start stop parts plan"
    and W: "W = plan_work (part_fingerprint hash q start stop) catalogs parse is_file q parts plan S"
    and page: "tiered_scan fetch broken verdict now retention schedule workers cap q start stop W = Inr page"
  obtains K A st where "task_ok K A" "rows_ok K A st" "logs_ok K st" "ss_stopped st \<or> ss_next st = length (sk_work K)"
    "sk_work K = wp_work W" "sk_target K = nat (page_target cap q)"
    "A = (\<lambda>i. set (part_answer body verdict now retention (internal_query cap q start stop) (we_part (wp_work W ! i))))"
    "read_rows A (length (sk_work K)) = set (concat (map (part_answer body verdict now retention (internal_query cap q start stop)) (filter (body_available is_file) parts)))"
    "page = finish_scan (nat (page_offset q)) (nat (page_limit cap q)) (length (sk_work K)) (filter (\<lambda>p. \<not> body_available is_file p) parts) st"
proof -
  let ?q = "internal_query cap q start stop"
  obtain K where K: "K = \<lparr>sk_work = wp_work W, sk_pages = map (scan_entry fetch broken verdict now retention ?q (wp_positive W)) (wp_work W),
      sk_target = nat (page_target cap q), sk_width = scan_width workers q\<rparr>" by simp
  obtain A where A: "A = (\<lambda>i. set (part_answer body verdict now retention ?q (we_part (wp_work W ! i))))" by simp
  note T = tiered_task_ok [OF S workers inputs W refl K A]
  obtain st where st: "scan_run K schedule 0 (scan_start K) = Inr st"
      "page = finish_scan (nat (page_offset q)) (nat (page_limit cap q)) (length (wp_work W)) (wp_unavailable W) st"
    using page by (auto simp: tiered_scan_def K Let_def map_sum_def split: sum.splits)
  have "wp_unavailable W = filter (\<lambda>p. \<not> body_available is_file p) parts" by (simp add: W plan_work_def Let_def)
  then have page: "page = finish_scan (nat (page_offset q)) (nat (page_limit cap q)) (length (sk_work K)) (filter (\<lambda>p. \<not> body_available is_file p) parts) st"
    using st(2) by (simp add: K)
  have work: "sk_work K = wp_work W" "sk_target K = nat (page_target cap q)" by (simp_all add: K)
  note R = scan_run_ok [OF T(1) scan_start_ok [OF T(1)] st(1)]
  show thesis using that [OF T(1) _ _ _ work A T(2) [folded work(1)] page] R by blast
qed

text \<open>
  A page of a tiered query is exact for every sound plan. Whatever parts are skipped by the plan, the catalogs and the
  remembered probes, in whatever order the readers finish, and wherever the early stop ends the scan, the page holds the
  rows \<open>offset\<close> to \<open>offset + limit\<close> of all the rows the query selects from the readable parts, newest first; \<open>has_more\<close>
  tells whether there are further ones, and a list kept for a certificate is the whole answer.
\<close>

lemma tiered_page_exact:
  assumes "(part_step lid (answer_meaning hash parse body verdict))\<^sup>*\<^sup>* Y Z" "legacy_tables (sy_tables Y)" "sy_pages Y = {}"
    and inputs: "tiered_inputs body owner verdict catalogs fetch now retention (internal_query cap q start stop) start stop parts plan"
    and bounds: "page_offset q + page_limit cap q \<le> 100000" "0 < workers"
    and page: "tiered_scan fetch broken verdict now retention schedule workers cap q start stop
      (plan_work (part_fingerprint hash q start stop) catalogs parse is_file q parts plan (sy_tables Z)) = Inr page"
    and xs: "xs = newest_first (unique_rows (concat (map (part_answer body verdict now retention (internal_query cap q start stop))
      (filter (body_available is_file) parts))))"
  shows "qp_rows page = page_of (nat (page_offset q)) (nat (page_limit cap q)) xs
    \<and> qp_more page = (nat (page_offset q) + nat (page_limit cap q) < length xs)
    \<and> (\<forall>ys. qp_complete page = Some ys \<longrightarrow> ys = xs \<and> (\<forall>p \<in> set parts. body_available is_file p))"
proof -
  have "system_ok (answer_meaning hash parse body verdict) Z" using part_store.reachable_inv [OF assms(1) legacy_system_ok [OF assms(2,3)]] .
  then have S: "probes_true (answer_meaning hash parse body verdict) (sy_tables Z)" by (simp add: system_ok_def)
  obtain K A st where K: "task_ok K A" "rows_ok K A st" "logs_ok K st" "ss_stopped st \<or> ss_next st = length (sk_work K)"
    "sk_work K = wp_work (plan_work (part_fingerprint hash q start stop) catalogs parse is_file q parts plan (sy_tables Z))"
    "sk_target K = nat (page_target cap q)"
    "A = (\<lambda>i. set (part_answer body verdict now retention (internal_query cap q start stop)
      (we_part (wp_work (plan_work (part_fingerprint hash q start stop) catalogs parse is_file q parts plan (sy_tables Z)) ! i))))"
    "read_rows A (length (sk_work K)) = set (concat (map (part_answer body verdict now retention (internal_query cap q start stop)) (filter (body_available is_file) parts)))"
    "page = finish_scan (nat (page_offset q)) (nat (page_limit cap q)) (length (sk_work K)) (filter (\<lambda>p. \<not> body_available is_file p) parts) st"
    by (rule tiered_scan_ok [OF S bounds(2) inputs refl page])
  let ?all = "concat (map (part_answer body verdict now retention (internal_query cap q start stop)) (filter (body_available is_file) parts))"
  have "ids_agree (set ?all)" using task_okD(5) [OF K(1), of "length (sk_work K)"] by (simp add: K(8))
  then have "distinct (unique_rows ?all)" "set (unique_rows ?all) = read_rows A (length (sk_work K))"
    by (simp_all only: unique_rows_distinct unique_rows_set K(8))
  moreover have "nat (page_offset q) + nat (page_limit cap q) < sk_target K"
    using bounds(1) page_bounds(1) [of q] page_bounds(2) [of cap q] by (simp add: K(6) page_target_def SCAN_CAP_def)
  ultimately have R: "qp_rows page = page_of (nat (page_offset q)) (nat (page_limit cap q)) xs
    \<and> qp_more page = (nat (page_offset q) + nat (page_limit cap q) < length (unique_rows ?all))
    \<and> (\<forall>ys. qp_complete page = Some ys \<longrightarrow> ys = xs \<and> filter (\<lambda>p. \<not> body_available is_file p) parts = [])"
    unfolding xs by (intro finish_exact [OF K(1,2,4) _ _ _ K(9)])
  have "length xs = length (unique_rows ?all)" by (simp add: xs newest_first_def)
  then show ?thesis using R unfolding filter_empty_conv not_not by metis
qed


text \<open>
  With a sound plan, what a query remembers about a part is true: a part remembered as empty has no selected row, a remembered
  list is the set of its selected rows, and so for every query that will find the entry under its key.
\<close>

lemma remembered_probes_true:
  assumes "(part_step lid (answer_meaning hash parse body verdict))\<^sup>*\<^sup>* Y Z" "legacy_tables (sy_tables Y)" "sy_pages Y = {}"
    and inputs: "tiered_inputs body owner verdict catalogs fetch now retention (internal_query cap q start stop) start stop parts plan"
    and "0 < workers" "inj hash" "\<And>rs. parse (render rs) = Some rs"
    and page: "tiered_scan fetch broken verdict now retention schedule workers cap q start stop
      (plan_work (part_fingerprint hash q start stop) catalogs parse is_file q parts plan (sy_tables Z)) = Inr page"
  shows "(\<forall>w \<in> set (qp_negative page). answer_meaning hash parse body verdict (pt_sha (we_part w)) (we_fp w) None)
    \<and> (\<forall>(w, rs) \<in> set (qp_positive page). answer_meaning hash parse body verdict (pt_sha (we_part w)) (we_fp w) (Some (render rs)))"
proof -
  let ?q = "internal_query cap q start stop"
  have "system_ok (answer_meaning hash parse body verdict) Z" using part_store.reachable_inv [OF assms(1) legacy_system_ok [OF assms(2,3)]] .
  then have S: "probes_true (answer_meaning hash parse body verdict) (sy_tables Z)" by (simp add: system_ok_def)
  obtain W where W: "W = plan_work (part_fingerprint hash q start stop) catalogs parse is_file q parts plan (sy_tables Z)" by simp
  obtain K A st where K: "task_ok K A" "rows_ok K A st" "logs_ok K st" "ss_stopped st \<or> ss_next st = length (sk_work K)"
    "sk_work K = wp_work W" "sk_target K = nat (page_target cap q)" "A = (\<lambda>i. set (part_answer body verdict now retention ?q (we_part (wp_work W ! i))))"
    "read_rows A (length (sk_work K)) = set (concat (map (part_answer body verdict now retention ?q) (filter (body_available is_file) parts)))"
    "page = finish_scan (nat (page_offset q)) (nat (page_limit cap q)) (length (sk_work K)) (filter (\<lambda>p. \<not> body_available is_file p) parts) st"
    by (rule tiered_scan_ok [OF S assms(5) inputs W page [folded W]])
  have logs: "qp_negative page = ss_negative st" "qp_positive page = ss_positive st" by (simp_all add: K(9) finish_scan_def Let_def)
  note P = plan_work_ok(1) [OF tiered_plan_inputs [OF S inputs] W]
  have meaning: "answer_meaning hash parse body verdict (pt_sha (we_part w)) (we_fp w) v"
    if w: "w \<in> set (wp_work W)" and v: "case v of None \<Rightarrow> part_answer body verdict now retention ?q (we_part w) = []
      | Some json \<Rightarrow> \<forall>rs. parse json = Some rs \<longrightarrow> set rs = set (part_answer body verdict now retention ?q (we_part w))" for w v
  proof -
    let ?p = "we_part w"
    have here: "?p \<in> set parts" "we_fp w = part_fingerprint hash q start stop ?p" using P [OF w] by simp_all
    have own: "windowed now retention ?q start stop" "clean_operations ?q" "part_rows_ok (pt_min ?p) (pt_max ?p) (owner (pt_file ?p)) (part_rows body (pt_sha ?p))"
      "field_matches True (q_instance ?q) [owner (pt_file ?p)]"
      using inputs here(1) unfolding tiered_inputs_def bodies_ok_def by auto
    have same: "answer_rows verdict now' ret' q' (part_rows body (pt_sha ?p)) = part_answer body verdict now retention ?q ?p"
      if other: "windowed now' ret' q' a b" "clean_operations q'" "hash (query_payload q' (max a lo) (min b hi)) = we_fp w"
        "part_rows_ok lo hi inst (part_rows body (pt_sha ?p))" "field_matches True (q_instance q') [inst]" for q' a b lo hi inst now' ret'
    proof -
      have "query_payload q' (max a lo) (min b hi) = query_payload ?q (max start (pt_min ?p)) (min stop (pt_max ?p))"
        using other(3) here(2) injD [OF assms(6)] by (simp add: query_probe_fingerprint_def)
      from probe_key_determines [OF this other(1) own(1) other(2) own(2) other(4) own(3) other(5) own(4)] show ?thesis
        by (simp add: part_answer_def)
    qed
    show ?thesis unfolding answer_meaning_def using v same by (auto split: option.split)
  qed
  have "answer_meaning hash parse body verdict (pt_sha (we_part w)) (we_fp w) None" if "w \<in> set (qp_negative page)" for w
    using logs_true(1) [OF K(1,3) that [unfolded logs]] K(5) meaning [of w None] by (auto simp: K(7))
  moreover have "answer_meaning hash parse body verdict (pt_sha (we_part w)) (we_fp w) (Some (render rs))" if "(w, rs) \<in> set (qp_positive page)" for w rs
    using logs_true(2) [OF K(1,3) that [unfolded logs]] K(5) meaning [of w "Some (render rs)"] assms(7) by (auto simp: K(7))
  ultimately show ?thesis by blast
qed


text \<open>The scan ends: each step takes a reader away, and only a part that cannot be read ends it without a page.\<close>

definition readers_ok :: "scan_task \<Rightarrow> scan_state \<Rightarrow> bool" where
  "readers_ok K st \<longleftrightarrow> ss_submitted st \<le> length (sk_work K) \<and> (\<forall>i \<in> set (ss_flight st). i < length (sk_work K))"

lemma advance_readers:
  assumes "readers_ok K st"
  shows "readers_ok K (advance K i st)"
proof -
  obtain su where su: "su = consume_ready K (st\<lparr>ss_flight := remove1 i (ss_flight st), ss_done := i # ss_done st\<rparr>)" by simp
  have f: "ss_flight su = remove1 i (ss_flight st)" "ss_submitted su = ss_submitted st"
    using consume_ready_keeps [of K "st\<lparr>ss_flight := remove1 i (ss_flight st), ss_done := i # ss_done st\<rparr>"] by (simp_all add: su)
  have ok: "readers_ok K su" using assms set_remove1_subset [of i "ss_flight st"] by (auto simp: readers_ok_def f)
  show ?thesis
  proof (cases "ss_stopped su")
    case True
    then show ?thesis using ok by (simp add: advance_def su [symmetric] readers_ok_def)
  next
    case False
    then show ?thesis using ok submit_width_le [of K su] by (auto simp: advance_def su [symmetric] submit_def Let_def readers_ok_def)
  qed
qed

lemma scan_run_returns:
  assumes "readers_ok K st"
  shows "(\<exists>st'. scan_run K schedule k st = Inr st') \<or> (\<exists>i < length (sk_work K). \<exists>err. sk_pages K ! i = Inl err \<and> scan_run K schedule k st = Inl err)"
  using assms
proof (induction K schedule k st rule: scan_run.induct)
  case (1 K schedule k st)
  show ?case
  proof (cases "ss_flight st = []")
    case True
    then show ?thesis by (simp add: scan_run.simps)
  next
    case False
    obtain i where i: "i = ss_flight st ! (schedule k mod length (ss_flight st))" by simp
    have less: "i < length (sk_work K)" using False 1(2) by (simp add: i readers_ok_def)
    show ?thesis
    proof (cases "sk_pages K ! i")
      case (Inl err)
      then have "scan_run K schedule k st = Inl err" using False by (subst scan_run.simps) (simp add: i [symmetric] Let_def)
      then show ?thesis using less Inl by blast
    next
      case (Inr x)
      then have "scan_run K schedule k st = scan_run K schedule (k + 1) (advance K i st)"
        using False by (subst scan_run.simps) (simp add: i [symmetric] Let_def)
      then show ?thesis using 1(1) [OF False i Inr advance_readers [OF 1(2)]] by simp
    qed
  qed
qed

text \<open>
  Property C36. A tiered query ends, however its readers are scheduled: with a page, or with the error of a part that could
  not be read.
\<close>

theorem tiered_scan_returns:
  "(\<exists>page. tiered_scan fetch broken verdict now retention schedule workers cap q start stop plan = Inr page) \<or>
   (\<exists>w \<in> set (wp_work plan). \<exists>err. tiered_scan fetch broken verdict now retention schedule workers cap q start stop plan = Inl err
      \<and> scan_entry fetch broken verdict now retention (internal_query cap q start stop) (wp_positive plan) w = Inl err)"
proof -
  obtain K where K: "K = \<lparr>sk_work = wp_work plan, sk_pages = map (scan_entry fetch broken verdict now retention (internal_query cap q start stop) (wp_positive plan)) (wp_work plan),
      sk_target = nat (page_target cap q), sk_width = scan_width workers q\<rparr>" by simp
  have start: "readers_ok K (scan_start K)" by (auto simp: readers_ok_def scan_start_def Let_def)
  have run: "tiered_scan fetch broken verdict now retention schedule workers cap q start stop plan =
      map_sum id (finish_scan (nat (page_offset q)) (nat (page_limit cap q)) (length (wp_work plan)) (wp_unavailable plan)) (scan_run K schedule 0 (scan_start K))"
    by (simp add: tiered_scan_def K Let_def)
  from scan_run_returns [OF start, of schedule 0] show ?thesis
  proof
    assume "\<exists>st'. scan_run K schedule 0 (scan_start K) = Inr st'"
    then show ?thesis by (auto simp: run)
  next
    assume "\<exists>i < length (sk_work K). \<exists>err. sk_pages K ! i = Inl err \<and> scan_run K schedule 0 (scan_start K) = Inl err"
    then obtain i err where i: "i < length (wp_work plan)" "sk_pages K ! i = Inl err" "scan_run K schedule 0 (scan_start K) = Inl err" by (auto simp: K)
    then have "scan_entry fetch broken verdict now retention (internal_query cap q start stop) (wp_positive plan) (wp_work plan ! i) = Inl err" by (simp add: K)
    then show ?thesis using i by (auto simp: run intro!: bexI [of _ "wp_work plan ! i"])
  qed
qed

section \<open>Concrete rows and keys\<close>

definition sample_row :: "string \<Rightarrow> int \<Rightarrow> qrow" where
  "sample_row i t = \<lparr>qr_id = i, qr_epoch = t, qr_source_file = ''f'', qr_end = 0, qr_index = 0, qr_instance = ''n'', qr_type = [], qr_operation = ''INSERT'',
     qr_database = ''d'', qr_table = ''t'', qr_transaction = [], qr_gtid = [], qr_sql = [], qr_before = [], qr_after = [], qr_connection = [],
     qr_connection_name = [], qr_account = [], qr_status = [], qr_error = []\<rparr>"

text \<open>Rows and keys are countable, so there are texts for them: a key for each query and a text for each list of rows.\<close>

instance qrow_ext :: (countable) countable
proof (rule countable_classI [of "\<lambda>r :: 'a qrow_ext. to_nat ((qr_id r, qr_epoch r, qr_source_file r, qr_end r, qr_index r, qr_instance r, qr_type r,
    qr_operation r, qr_database r, qr_table r), (qr_transaction r, qr_gtid r, qr_sql r, qr_before r, qr_after r, qr_connection r, qr_connection_name r,
    qr_account r, qr_status r, qr_error r), qrow.more r)"])
  show "r = s" if "to_nat ((qr_id r, qr_epoch r, qr_source_file r, qr_end r, qr_index r, qr_instance r, qr_type r, qr_operation r, qr_database r, qr_table r),
      (qr_transaction r, qr_gtid r, qr_sql r, qr_before r, qr_after r, qr_connection r, qr_connection_name r, qr_account r, qr_status r, qr_error r), qrow.more r) =
    to_nat ((qr_id s, qr_epoch s, qr_source_file s, qr_end s, qr_index s, qr_instance s, qr_type s, qr_operation s, qr_database s, qr_table s),
      (qr_transaction s, qr_gtid s, qr_sql s, qr_before s, qr_after s, qr_connection s, qr_connection_name s, qr_account s, qr_status s, qr_error s), qrow.more s)"
    for r s :: "'a qrow_ext"
    using that by (cases r, cases s) simp
qed

instance probe_payload_ext :: (countable) countable
proof (rule countable_classI [of "\<lambda>r :: 'a probe_payload_ext. to_nat ((pq_start r, pq_end r, pq_source r, pq_database r, pq_table r, pq_connection r,
    pq_account r, pq_status r), (pq_operations r, pq_terms r, pq_any r, pq_transaction r, pq_exact r), probe_payload.more r)"])
  show "r = s" if "to_nat ((pq_start r, pq_end r, pq_source r, pq_database r, pq_table r, pq_connection r, pq_account r, pq_status r),
      (pq_operations r, pq_terms r, pq_any r, pq_transaction r, pq_exact r), probe_payload.more r) =
    to_nat ((pq_start s, pq_end s, pq_source s, pq_database s, pq_table s, pq_connection s, pq_account s, pq_status s),
      (pq_operations s, pq_terms s, pq_any s, pq_transaction s, pq_exact s), probe_payload.more s)"
    for r s :: "'a probe_payload_ext"
    using that by (cases r, cases s) simp
qed

definition sample_hash :: "probe_payload \<Rightarrow> string" where
  "sample_hash p = CHR ''h'' # replicate (to_nat p) CHR ''h''"

definition sample_render :: "qrow list \<Rightarrow> string" where
  "sample_render rs = replicate (to_nat rs) CHR ''r''"

definition sample_parse :: "string \<Rightarrow> qrow list option" where
  "sample_parse s = Some (from_nat (length s))"

lemma sample_codes: "inj sample_hash" "sample_parse (sample_render rs) = Some rs"
  by (auto simp: inj_def sample_hash_def sample_parse_def sample_render_def dest: arg_cong [of _ _ length])

lemma sample_fingerprint:
  "part_fingerprint sample_hash q a b = (\<lambda>p. CHR ''h'' # replicate (to_nat (query_payload q (max a (pt_min p)) (min b (pt_max p)))) CHR ''h'')"
  by (simp add: fun_eq_iff query_probe_fingerprint_def sample_hash_def)

end
