(* ===== verification/SearchIndex.thy ===== *)
theory SearchIndex
  imports TieredQuery
begin

text \<open>
  The search index of \<open>app/search_index.py\<close>: for each row group of a Parquet part the times, databases, tables and operations
  of its rows, and full text tables over them. The tables are SQLite's; a full text table is a list of row ids and texts, and a
  match follows the documentation of FTS5: the trigram tokenizer indexes every three consecutive characters of the text, folded
  to lower case, and a query of several quoted trigrams matches a row that has all of them. Texts are ASCII, but for the
  separator. The hash of a token (\<open>key\<close>) is a parameter; a token text is the list of its tokens.
\<close>

section \<open>Tables\<close>

definition INDEX_SCHEMA_VERSION :: int where "INDEX_SCHEMA_VERSION = 3"
definition STRUCTURAL_SCHEMA_VERSIONS :: "int list" where "STRUCTURAL_SCHEMA_VERSIONS = [2, 3]"

definition KEYWORD_COLUMNS :: "(qrow \<Rightarrow> string) list" where
  "KEYWORD_COLUMNS = [qr_sql, qr_before, qr_after, qr_transaction, qr_source_file, qr_connection_name, qr_account, qr_error]"

definition SEPARATOR :: string where
  "SEPARATOR = [CHR 0x0A, CHR 0xE2, CHR 0x90, CHR 0x9F, CHR 0x0A]"

record indexed_part =
  ix_path :: string
  ix_sha :: string
  ix_lid :: string
  ix_groups :: int
  ix_rows :: int
  ix_version :: int
  ix_at :: string

record block =
  bk_id :: nat
  bk_path :: string
  bk_sha :: string
  bk_lid :: string
  bk_group :: nat
  bk_min :: int
  bk_max :: int
  bk_rows :: int
  bk_databases :: "string list"
  bk_tables :: "string list"
  bk_operations :: "string list"

record index_failure =
  fl_path :: string
  fl_sha :: string
  fl_lid :: string
  fl_error :: string
  fl_retry :: int
  fl_at :: string

record search_index =
  si_parts :: "indexed_part list"
  si_structural :: "indexed_part list"
  si_blocks :: "block list"
  si_next :: nat
  si_failures :: "index_failure list"
  si_keyword :: "(nat \<times> string) list"
  si_token :: "(nat \<times> string list) list"
  si_database :: "(nat \<times> string) list"
  si_table :: "(nat \<times> string) list"

section \<open>Texts and matches\<close>

definition json_values :: "string list \<Rightarrow> string list" where
  "json_values vs = sort (remdups (map lower_text (filter (\<lambda>v. strip v \<noteq> []) vs)))"

definition query_trigrams :: "string \<Rightarrow> string list" where
  "query_trigrams value = (let n = lower_text value in rev (remdups (rev (map (\<lambda>i. take 3 (drop i n)) [0..<length n - 2]))))"

fun joined :: "string list \<Rightarrow> string" where
  "joined [] = []"
| "joined [t] = t"
| "joined (t # u # ts) = t @ SEPARATOR @ joined (u # ts)"

definition fts_match :: "string list \<Rightarrow> string \<Rightarrow> bool" where
  "fts_match grams text = list_all (\<lambda>g. contains_text g (lower_text text)) grams"

definition fts_ids :: "(nat \<times> string) list \<Rightarrow> string \<Rightarrow> nat set option" where
  "fts_ids table value = (let grams = query_trigrams value
     in if grams = [] then None else Some (fst ` set (filter (\<lambda>(i, text). fts_match grams text) table)))"

text \<open>\<open>\w\<close> and the maximal runs of such characters.\<close>

definition word_char :: "char \<Rightarrow> bool" where
  "word_char c = (let n = (of_char c :: nat) in 48 \<le> n \<and> n \<le> 57 \<or> 65 \<le> n \<and> n \<le> 90 \<or> 97 \<le> n \<and> n \<le> 122 \<or> n = 95)"

fun word_runs :: "string \<Rightarrow> string list" where
  "word_runs [] = []"
| "word_runs (c # cs) = (if word_char c then (if cs \<noteq> [] \<and> word_char (hd cs) then (c # hd (word_runs cs)) # tl (word_runs cs) else [c] # word_runs cs)
     else word_runs cs)"

definition token_sized :: "string \<Rightarrow> bool" where
  "token_sized t \<longleftrightarrow> 6 \<le> length t \<and> length t \<le> 128"

definition token_ids :: "(string \<Rightarrow> string) \<Rightarrow> (nat \<times> string list) list \<Rightarrow> string \<Rightarrow> nat set option" where
  "token_ids key table value = (let n = lower_text (strip value)
     in if \<not> token_sized n \<or> \<not> list_all word_char n then None
        else Some (fst ` set (filter (\<lambda>(i, tokens). key n \<in> set tokens) table)))"

section \<open>What is stored of a row group\<close>

record block_in =
  bi_group :: nat
  bi_min :: int
  bi_max :: int
  bi_rows :: int
  bi_databases :: "string list"
  bi_tables :: "string list"
  bi_operations :: "string list"
  bi_keyword :: string
  bi_tokens :: "string list"

definition keyword_values :: "qrow list \<Rightarrow> string list" where
  "keyword_values rs = concat (map (\<lambda>column. filter (\<lambda>v. v \<noteq> []) (map column rs)) KEYWORD_COLUMNS)"

definition keyword_tokens :: "string list \<Rightarrow> string list" where
  "keyword_tokens vs = remdups (filter token_sized (concat (map (\<lambda>v. word_runs (lower_text v)) vs)))"

definition structural_block :: "nat \<Rightarrow> qrow list \<Rightarrow> block_in" where
  "structural_block i rs = \<lparr>bi_group = i, bi_min = Min (set (map qr_epoch rs)), bi_max = Max (set (map qr_epoch rs)), bi_rows = int (length rs),
     bi_databases = json_values (map qr_database rs), bi_tables = json_values (map qr_table rs),
     bi_operations = sort (remdups (map upper_text (filter (\<lambda>v. strip v \<noteq> []) (map qr_operation rs)))), bi_keyword = [], bi_tokens = []\<rparr>"

definition full_block :: "(string \<Rightarrow> string) \<Rightarrow> nat \<Rightarrow> qrow list \<Rightarrow> block_in" where
  "full_block key i rs = (structural_block i rs)\<lparr>bi_keyword := joined (keyword_values rs),
     bi_tokens := sort (map key (keyword_tokens (keyword_values rs)))\<rparr>"

datatype index_error = MissingColumns | EpochMissing | RowCountMismatch

definition structural_blocks :: "bool \<Rightarrow> part \<Rightarrow> row_group list \<Rightarrow> index_error + block_in list" where
  "structural_blocks columns p body =
     (if \<not> columns then Inl MissingColumns
      else if list_ex (\<lambda>g. rg_rows g = []) body then Inl EpochMissing
      else let blocks = map (\<lambda>(i, g). structural_block i (rg_rows g)) (enumerate 0 body)
           in if blocks = [] \<or> sum_list (map bi_rows blocks) \<noteq> pt_rows p then Inl RowCountMismatch else Inr blocks)"

definition full_blocks :: "(string \<Rightarrow> string) \<Rightarrow> bool \<Rightarrow> part \<Rightarrow> row_group list \<Rightarrow> index_error + block_in list" where
  "full_blocks key columns p body =
     (if \<not> columns then Inl MissingColumns
      else let blocks = map (\<lambda>(i, g). full_block key i (rg_rows g)) (filter (\<lambda>(i, g). rg_rows g \<noteq> []) (enumerate 0 body))
           in if blocks = [] \<or> sum_list (map bi_rows blocks) \<noteq> pt_rows p then Inl RowCountMismatch else Inr blocks)"

section \<open>Identity of a part\<close>

definition identity :: "part \<Rightarrow> string" where
  "identity p = (if pt_lid p \<noteq> [] then pt_lid p else pt_sha p)"

definition identity_matches :: "part \<Rightarrow> string \<Rightarrow> string \<Rightarrow> bool" where
  "identity_matches p lid sha = (if lid \<noteq> [] then lid = identity p else sha = pt_sha p)"

definition is_current :: "part \<Rightarrow> search_index \<Rightarrow> bool" where
  "is_current p I = (case find_row ix_path (pt_path p) (si_parts I) of None \<Rightarrow> False
     | Some r \<Rightarrow> identity_matches p (ix_lid r) (ix_sha r) \<and> 0 < ix_groups r \<and> ix_version r = INDEX_SCHEMA_VERSION)"

definition is_structural_current :: "part \<Rightarrow> search_index \<Rightarrow> bool" where
  "is_structural_current p I = (case find_row ix_path (pt_path p) (si_structural I) of None \<Rightarrow> False
     | Some r \<Rightarrow> identity_matches p (ix_lid r) (ix_sha r) \<and> 0 < ix_groups r \<and> ix_version r \<in> set STRUCTURAL_SCHEMA_VERSIONS)"

section \<open>Writing\<close>

definition delete_fts_rows :: "nat set \<Rightarrow> search_index \<Rightarrow> search_index" where
  "delete_fts_rows ids I = I\<lparr>si_keyword := filter (\<lambda>(i, t). i \<notin> ids) (si_keyword I), si_token := filter (\<lambda>(i, t). i \<notin> ids) (si_token I),
     si_database := filter (\<lambda>(i, t). i \<notin> ids) (si_database I), si_table := filter (\<lambda>(i, t). i \<notin> ids) (si_table I)\<rparr>"

definition clear_path :: "string \<Rightarrow> search_index \<Rightarrow> search_index" where
  "clear_path path I = (let J = delete_fts_rows (bk_id ` set (filter (\<lambda>b. bk_path b = path) (si_blocks I))) I
     in J\<lparr>si_blocks := filter (\<lambda>b. bk_path b \<noteq> path) (si_blocks J), si_parts := filter (\<lambda>r. ix_path r \<noteq> path) (si_parts J),
          si_structural := filter (\<lambda>r. ix_path r \<noteq> path) (si_structural J)\<rparr>)"

definition insert_block :: "part \<Rightarrow> block_in \<Rightarrow> search_index \<Rightarrow> search_index" where
  "insert_block p b I = (let i = si_next I
     in I\<lparr>si_blocks := si_blocks I @ [\<lparr>bk_id = i, bk_path = pt_path p, bk_sha = pt_sha p, bk_lid = identity p, bk_group = bi_group b, bk_min = bi_min b,
            bk_max = bi_max b, bk_rows = bi_rows b, bk_databases = json_values (bi_databases b), bk_tables = json_values (bi_tables b),
            bk_operations = sort (bi_operations b)\<rparr>],
          si_next := i + 1, si_keyword := si_keyword I @ [(i, bi_keyword b)], si_token := si_token I @ [(i, bi_tokens b)],
          si_database := si_database I @ [(i, joined (bi_databases b))], si_table := si_table I @ [(i, joined (bi_tables b))]\<rparr>)"

definition part_entry :: "string \<Rightarrow> part \<Rightarrow> block_in list \<Rightarrow> indexed_part" where
  "part_entry now p blocks = \<lparr>ix_path = pt_path p, ix_sha = pt_sha p, ix_lid = identity p, ix_groups = int (length blocks),
     ix_rows = sum_list (map bi_rows blocks), ix_version = INDEX_SCHEMA_VERSION, ix_at = now\<rparr>"

definition clear_failure :: "string \<Rightarrow> search_index \<Rightarrow> search_index" where
  "clear_failure path I = I\<lparr>si_failures := filter (\<lambda>f. fl_path f \<noteq> path) (si_failures I)\<rparr>"

text \<open>The transactions of \<open>upsert_structural_blocks\<close> and \<open>index_parquet\<close>.\<close>

definition store_structural :: "string \<Rightarrow> part \<Rightarrow> block_in list \<Rightarrow> search_index \<Rightarrow> search_index" where
  "store_structural now p blocks I =
     (case find_row ix_path (pt_path p) (si_parts I) of
        Some r \<Rightarrow> if identity_matches p (ix_lid r) (ix_sha r) \<and> ix_version r = INDEX_SCHEMA_VERSION then I
          else (let J = foldl (\<lambda>J b. insert_block p b J) (clear_path (pt_path p) I) blocks
                in clear_failure (pt_path p) (J\<lparr>si_structural := si_structural J @ [part_entry now p blocks]\<rparr>))
      | None \<Rightarrow> (let J = foldl (\<lambda>J b. insert_block p b J) (clear_path (pt_path p) I) blocks
                in clear_failure (pt_path p) (J\<lparr>si_structural := si_structural J @ [part_entry now p blocks]\<rparr>)))"

definition store_full :: "string \<Rightarrow> part \<Rightarrow> block_in list \<Rightarrow> search_index \<Rightarrow> search_index" where
  "store_full now p blocks I = (let J = foldl (\<lambda>J b. insert_block p b J) (clear_path (pt_path p) I) blocks
     in clear_failure (pt_path p) (J\<lparr>si_parts := si_parts J @ [part_entry now p blocks], si_structural := si_structural J @ [part_entry now p blocks]\<rparr>))"

text \<open>The whole routines: the test \<open>is_current\<close> reads its own snapshot \<open>J\<close> before the transaction.\<close>

definition index_structural_parquet :: "string \<Rightarrow> bool \<Rightarrow> part \<Rightarrow> row_group list \<Rightarrow> search_index \<Rightarrow> search_index \<Rightarrow> index_error + search_index" where
  "index_structural_parquet now columns p body J I = (if is_structural_current p J then Inr I
     else map_sum id (\<lambda>blocks. store_structural now p blocks I) (structural_blocks columns p body))"

definition index_parquet :: "(string \<Rightarrow> string) \<Rightarrow> string \<Rightarrow> bool \<Rightarrow> part \<Rightarrow> row_group list \<Rightarrow> search_index \<Rightarrow> search_index \<Rightarrow> index_error + search_index" where
  "index_parquet key now columns p body J I = (if is_current p J then Inr I
     else map_sum id (\<lambda>blocks. store_full now p blocks I) (full_blocks key columns p body))"

definition record_failure :: "string \<Rightarrow> int \<Rightarrow> part \<Rightarrow> string \<Rightarrow> int \<Rightarrow> search_index \<Rightarrow> search_index" where
  "record_failure now clock p error retry I =
     (let f = \<lparr>fl_path = pt_path p, fl_sha = pt_sha p, fl_lid = identity p, fl_error = take 1000 error, fl_retry = clock + max retry 1, fl_at = now\<rparr>
      in I\<lparr>si_failures := (if pt_path p \<in> fl_path ` set (si_failures I) then update_where (\<lambda>g. fl_path g = pt_path p) (\<lambda>_. f) (si_failures I)
             else si_failures I @ [f])\<rparr>)"

definition remove_part :: "string \<Rightarrow> search_index \<Rightarrow> search_index" where
  "remove_part path I = clear_failure path (clear_path path I)"

definition rebind_path :: "string \<Rightarrow> string \<Rightarrow> search_index \<Rightarrow> search_index" where
  "rebind_path lid path I = I\<lparr>
     si_parts := update_where (\<lambda>r. ix_path r = path \<and> ix_lid r \<noteq> lid) (\<lambda>r. r\<lparr>ix_lid := lid\<rparr>) (si_parts I),
     si_structural := update_where (\<lambda>r. ix_path r = path \<and> ix_lid r \<noteq> lid) (\<lambda>r. r\<lparr>ix_lid := lid\<rparr>) (si_structural I),
     si_blocks := update_where (\<lambda>b. bk_path b = path \<and> bk_lid b \<noteq> lid) (\<lambda>b. b\<lparr>bk_lid := lid\<rparr>) (si_blocks I),
     si_failures := update_where (\<lambda>f. fl_path f = path \<and> fl_lid f \<noteq> lid) (\<lambda>f. f\<lparr>fl_lid := lid\<rparr>) (si_failures I)\<rparr>"

definition rebind_logical_parts :: "part list \<Rightarrow> search_index \<Rightarrow> search_index" where
  "rebind_logical_parts parts I = foldl (\<lambda>J p. rebind_path (identity p) (pt_path p) J) I (filter (\<lambda>p. identity p \<noteq> []) parts)"

text \<open>
  Opening the database: a full text table without \<open>contentless_delete\<close> (\<open>legacy\<close>) drops the texts, blocks and full entries;
  every full entry counts as a structural one.
\<close>

definition open_index :: "bool \<Rightarrow> search_index \<Rightarrow> search_index" where
  "open_index legacy I =
     (let J = (if legacy then I\<lparr>si_keyword := [], si_token := [], si_database := [], si_table := [], si_blocks := [], si_parts := []\<rparr> else I)
      in J\<lparr>si_structural := foldl (\<lambda>S r. filter (\<lambda>s. ix_path s \<noteq> ix_path r) S @ [r]) (si_structural J) (si_parts J)\<rparr>)"

section \<open>Reading\<close>

text \<open>Every statement of a read sees the index as it is at that moment: which statement sees what.\<close>

datatype read_at = FullBatch nat | StructuralBatch nat | DatabaseMatch | TableMatch | TokenMatch nat | KeywordMatch nat | BlockBatch nat

definition known_part :: "part list \<Rightarrow> string \<Rightarrow> part option" where
  "known_part parts path = map_of (rev (map (\<lambda>p. (pt_path p, p)) parts)) path"

definition part_paths :: "part list \<Rightarrow> string list" where
  "part_paths parts = rev (remdups (rev (map pt_path parts)))"

definition entry_current :: "int list \<Rightarrow> part list \<Rightarrow> indexed_part \<Rightarrow> bool" where
  "entry_current versions parts r = (case known_part parts (ix_path r) of None \<Rightarrow> False
     | Some p \<Rightarrow> identity_matches p (ix_lid r) (ix_sha r) \<and> ix_version r \<in> set versions)"

definition coverage_table :: "(nat \<Rightarrow> indexed_part list) \<Rightarrow> int list \<Rightarrow> part list \<Rightarrow> string list" where
  "coverage_table table versions parts = concat (map (\<lambda>(j, chunk). map ix_path (filter (\<lambda>r. ix_path r \<in> set chunk \<and> entry_current versions parts r) (table j)))
     (enumerate 0 (chunks 400 (part_paths parts))))"

definition full_coverage :: "(read_at \<Rightarrow> search_index) \<Rightarrow> part list \<Rightarrow> string list" where
  "full_coverage reads parts = coverage_table (\<lambda>j. si_parts (reads (FullBatch j))) [INDEX_SCHEMA_VERSION] parts"

definition structural_coverage :: "(read_at \<Rightarrow> search_index) \<Rightarrow> part list \<Rightarrow> string list" where
  "structural_coverage reads parts = coverage_table (\<lambda>j. si_structural (reads (StructuralBatch j))) STRUCTURAL_SCHEMA_VERSIONS parts"

definition intersect :: "nat set option \<Rightarrow> nat set option \<Rightarrow> nat set option" where
  "intersect acc value = (case value of None \<Rightarrow> acc | Some s \<Rightarrow> (case acc of None \<Rightarrow> Some s | Some a \<Rightarrow> Some (a \<inter> s)))"

definition structural_ids :: "(read_at \<Rightarrow> search_index) \<Rightarrow> event_query \<Rightarrow> nat set option" where
  "structural_ids reads q = (let database = folded (q_database q); table = folded (q_table q)
     in intersect (intersect None (if database = [] then None else fts_ids (si_database (reads DatabaseMatch)) database))
          (if table = [] then None else fts_ids (si_table (reads TableMatch)) table))"

definition index_terms :: "event_query \<Rightarrow> string list" where
  "index_terms q = take 20 (map lower_text (words (q_keyword q)))"

definition term_ids :: "(string \<Rightarrow> string) \<Rightarrow> (read_at \<Rightarrow> search_index) \<Rightarrow> nat \<Rightarrow> string \<Rightarrow> nat set option" where
  "term_ids key reads k t =
     (case token_ids key (si_token (reads (TokenMatch k))) t of None \<Rightarrow> fts_ids (si_keyword (reads (KeywordMatch k))) t
      | Some tokens \<Rightarrow> (case fts_ids (si_keyword (reads (KeywordMatch k))) t of None \<Rightarrow> Some tokens | Some grams \<Rightarrow> Some (tokens \<union> grams)))"

definition full_ids :: "(string \<Rightarrow> string) \<Rightarrow> (read_at \<Rightarrow> search_index) \<Rightarrow> event_query \<Rightarrow> nat set option" where
  "full_ids key reads q =
     (let sets = map (\<lambda>(k, t). term_ids key reads k t) (enumerate 0 (index_terms q))
      in if sets \<noteq> [] \<and> wants_any q
         then (if list_all (\<lambda>s. s \<noteq> None) sets then intersect (structural_ids reads q) (Some (\<Union> (the ` set sets))) else structural_ids reads q)
         else foldl intersect (structural_ids reads q) sets)"

definition block_rows :: "(read_at \<Rightarrow> search_index) \<Rightarrow> string list \<Rightarrow> int \<Rightarrow> int \<Rightarrow> block list" where
  "block_rows reads covered start stop = sort_desc_key (\<lambda>b. (bk_max b, bk_min b, bk_id b))
     (concat (map (\<lambda>(j, chunk). filter (\<lambda>b. bk_path b \<in> set chunk \<and> start \<le> bk_max b \<and> bk_min b \<le> stop) (si_blocks (reads (BlockBatch j))))
       (enumerate 0 (chunks 400 (sort (remdups covered))))))"

definition block_matches :: "event_query \<Rightarrow> block \<Rightarrow> bool" where
  "block_matches q b = (let database = folded (q_database q); table = folded (q_table q); ops = stripped_operations (q_operations q)
     in (database = [] \<or> list_ex (contains_text database) (bk_databases b)) \<and> (table = [] \<or> list_ex (contains_text table) (bk_tables b))
      \<and> (ops = [] \<or> set ops \<inter> set (bk_operations b) \<noteq> {}))"

definition block_entry :: "(string \<Rightarrow> string) \<Rightarrow> (read_at \<Rightarrow> search_index) \<Rightarrow> part list \<Rightarrow> event_query \<Rightarrow> block \<Rightarrow> index_entry option" where
  "block_entry key reads parts q b = (case known_part parts (bk_path b) of None \<Rightarrow> None
     | Some p \<Rightarrow> if \<not> identity_matches p (bk_lid b) (bk_sha b) then None
         else if (case (if bk_path b \<in> set (full_coverage reads parts) then full_ids key reads q else structural_ids reads q) of None \<Rightarrow> False
            | Some ids \<Rightarrow> bk_id b \<notin> ids) then None
         else if \<not> block_matches q b then None
         else Some \<lparr>ie_part = p, ie_group = bk_group b, ie_max = bk_max b\<rparr>)"

definition candidate_blocks :: "(string \<Rightarrow> string) \<Rightarrow> (read_at \<Rightarrow> search_index) \<Rightarrow> part list \<Rightarrow> event_query \<Rightarrow> int \<Rightarrow> int \<Rightarrow> index_plan" where
  "candidate_blocks key reads parts q start stop =
     (let covered = full_coverage reads parts @ structural_coverage reads parts
      in \<lparr>ip_entries = (if covered = [] then [] else List.map_filter (block_entry key reads parts q) (block_rows reads covered start stop)),
          ip_unknown = filter (\<lambda>path. path \<notin> set covered) (part_paths parts)\<rparr>)"

section \<open>What remains to be indexed\<close>

definition blocked_paths :: "int \<Rightarrow> part list \<Rightarrow> search_index \<Rightarrow> string list" where
  "blocked_paths clock parts I = map fl_path (filter (\<lambda>f. clock < fl_retry f \<and> (case known_part parts (fl_path f) of None \<Rightarrow> False
     | Some p \<Rightarrow> identity_matches p (fl_lid f) (fl_sha f))) (si_failures I))"

definition to_index :: "int \<Rightarrow> (string \<Rightarrow> bool) \<Rightarrow> string list \<Rightarrow> part list \<Rightarrow> int \<Rightarrow> search_index \<Rightarrow> part list" where
  "to_index clock is_file covered parts limit I = take (nat limit)
     (sort_key (\<lambda>p. (if is_file (pt_path p) then 0 else 1 :: int, - pt_max p, pt_path p))
       (filter (\<lambda>p. pt_path p \<notin> set covered \<and> pt_path p \<notin> set (blocked_paths clock parts I)) parts))"

definition missing_parts :: "int \<Rightarrow> (string \<Rightarrow> bool) \<Rightarrow> part list \<Rightarrow> int \<Rightarrow> search_index \<Rightarrow> part list" where
  "missing_parts clock is_file parts limit I = to_index clock is_file (full_coverage (\<lambda>_. I) parts) parts limit I"

definition missing_structural_parts :: "int \<Rightarrow> (string \<Rightarrow> bool) \<Rightarrow> part list \<Rightarrow> int \<Rightarrow> search_index \<Rightarrow> part list" where
  "missing_structural_parts clock is_file parts limit I = to_index clock is_file (structural_coverage (\<lambda>_. I) parts) parts limit I"

record index_stats =
  is_parts :: nat
  is_structural :: nat
  is_blocks :: nat
  is_rows :: int
  is_last :: string
  is_last_structural :: string

definition index_stats_of :: "search_index \<Rightarrow> index_stats" where
  "index_stats_of I = \<lparr>is_parts = length (si_parts I), is_structural = length (si_structural I), is_blocks = length (si_blocks I),
     is_rows = sum_list (map ix_rows (si_parts I)), is_last = foldl max [] (map ix_at (si_parts I)),
     is_last_structural = foldl max [] (map ix_at (si_structural I))\<rparr>"

end
