(* ===== verification/SearchSafety.thy ===== *)
theory SearchSafety
  imports SearchIndex TieredSafety
begin

text \<open>
  What the search index promises the tiered query: whatever was indexed, failed, removed or rebound before, every selected row of
  a part it knows lies in a row group it lists (\<open>plan_sound\<close> of \<open>TieredSafety\<close>). The last sections show where the code breaks
  the promise: reads that tear, and a rewritten part that keeps its index.
\<close>

section \<open>Texts\<close>

lemma contains_trans: "contains_text u v \<Longrightarrow> contains_text v w \<Longrightarrow> contains_text u w"
proof -
  assume "contains_text u v" "contains_text v w"
  then obtain a c b d where "v = a @ u @ c" "w = b @ v @ d" by (auto simp: contains_iff)
  then have "w = (b @ a) @ u @ (c @ d)" by simp
  then show ?thesis unfolding contains_iff by blast
qed

lemma lower_append [simp]: "lower_text (a @ b) = lower_text a @ lower_text b"
  by (simp add: lower_text_def)

lemma lower_length [simp]: "length (lower_text s) = length s" "lower_text s = [] \<longleftrightarrow> s = []" "[] = lower_text s \<longleftrightarrow> s = []"
  by (simp_all add: lower_text_def)

lemma contains_joined: "t \<in> set ts \<Longrightarrow> contains_text t (joined ts)"
proof (induction ts rule: joined.induct)
  case (3 u w ts)
  show ?case
  proof (cases "t = u")
    case True
    then have "joined (u # w # ts) = [] @ t @ (SEPARATOR @ joined (w # ts))" by simp
    then show ?thesis unfolding contains_iff by blast
  next
    case False
    then have "contains_text t (joined (w # ts))" using 3 by simp
    then obtain a c where "joined (w # ts) = a @ t @ c" by (auto simp: contains_iff)
    then have "joined (u # w # ts) = (u @ SEPARATOR @ a) @ t @ c" by simp
    then show ?thesis unfolding contains_iff by blast
  qed
qed (simp_all add: contains_self)

lemma contains_lower: "contains_text u w \<Longrightarrow> contains_text (lower_text u) (lower_text w)"
  unfolding contains_iff by (metis lower_append)

lemma trigrams_match:
  assumes "contains_text v (lower_text t)" "t \<in> set ts" "lower_text v = v"
  shows "fts_match (query_trigrams v) (joined ts)"
  unfolding fts_match_def list_all_iff
proof
  fix g
  assume "g \<in> set (query_trigrams v)"
  then obtain i where g: "g = take 3 (drop i v)" by (auto simp: query_trigrams_def assms(3) Let_def)
  have "v = take i v @ g @ drop 3 (drop i v)" unfolding g by (metis append_take_drop_id)
  then have "contains_text g v" unfolding contains_iff by blast
  from contains_trans [OF this assms(1)] have "contains_text g (lower_text t)" .
  from contains_trans [OF this contains_lower [OF contains_joined [OF assms(2)]]] show "contains_text g (lower_text (joined ts))" .
qed

lemma strip_lower_Nil: "strip (lower_text t) = [] \<longleftrightarrow> strip t = []"
  by (simp add: strip_Nil lower_text_def blank_lower)

lemma json_values_in: "t \<in> set ts \<Longrightarrow> strip t \<noteq> [] \<Longrightarrow> lower_text t \<in> set (json_values ts)"
  by (auto simp: json_values_def)

lemma words_cons: "blank c \<Longrightarrow> words (c # s) = words s"
  by (simp add: words_def)

lemma words_dropWhile: "words (dropWhile blank s) = words s"
  by (induction s) (simp_all add: words_cons)

lemma split_blank_nonempty: "split_blank s \<noteq> []"
  by (induction s) (auto split: list.split)

lemma split_blank_snoc: "blank c \<Longrightarrow> split_blank (s @ [c]) = split_blank s @ [[]]"
  using split_blank_nonempty by (induction s) (auto split: list.split)

lemma words_snoc: "blank c \<Longrightarrow> words (s @ [c]) = words s"
  by (simp add: words_def split_blank_snoc)

lemma words_strip: "words (strip s) = words s"
proof -
  have "words (rev (dropWhile blank (rev t))) = words t" for t
    by (induction t rule: rev_induct) (simp_all add: words_snoc)
  then show ?thesis by (simp add: strip_def words_dropWhile)
qed

lemma index_terms_eq: "index_terms q = query_terms q"
  by (simp add: index_terms_def query_terms_def words_strip)

lemma query_terms_lower: "t \<in> set (query_terms q) \<Longrightarrow> lower_text t = t \<and> t \<noteq> []"
  by (auto simp: query_terms_def words_def dest!: in_set_takeD)


section \<open>The index holds what its entries say\<close>

text \<open>An entry stands for the content of its logical part, or of its hash while it has none.\<close>

definition row_key :: "string \<Rightarrow> string \<Rightarrow> string" where
  "row_key lid sha = (if lid \<noteq> [] then lid else sha)"

definition shows_block :: "bool \<Rightarrow> search_index \<Rightarrow> indexed_part \<Rightarrow> block_in \<Rightarrow> block \<Rightarrow> bool" where
  "shows_block full I r bi b \<longleftrightarrow> bk_path b = ix_path r \<and> bk_lid b = ix_lid r \<and> bk_sha b = ix_sha r
     \<and> bk_group b = bi_group bi \<and> bk_min b = bi_min bi \<and> bk_max b = bi_max bi \<and> bk_databases b = json_values (bi_databases bi)
     \<and> bk_tables b = json_values (bi_tables bi) \<and> bk_operations b = sort (bi_operations bi)
     \<and> (bk_id b, joined (bi_databases bi)) \<in> set (si_database I) \<and> (bk_id b, joined (bi_tables bi)) \<in> set (si_table I)
     \<and> (full \<longrightarrow> (bk_id b, bi_keyword bi) \<in> set (si_keyword I))"

definition holds_blocks :: "(string \<Rightarrow> string) \<Rightarrow> bool \<Rightarrow> row_group list \<Rightarrow> search_index \<Rightarrow> indexed_part \<Rightarrow> bool" where
  "holds_blocks key full body I r \<longleftrightarrow> (\<forall>i < length body. rg_rows (body ! i) \<noteq> [] \<longrightarrow>
     (\<exists>b \<in> set (si_blocks I). shows_block full I r (full_block key i (rg_rows (body ! i))) b))"

definition rowids_ok :: "search_index \<Rightarrow> bool" where
  "rowids_ok I \<longleftrightarrow> distinct (map bk_id (si_blocks I)) \<and> (\<forall>i \<in> bk_id ` set (si_blocks I) \<union> fst ` set (si_database I) \<union> fst ` set (si_table I)
     \<union> fst ` set (si_keyword I) \<union> fst ` set (si_token I). i < si_next I)"

definition index_ok :: "(string \<Rightarrow> string) \<Rightarrow> (string \<Rightarrow> row_group list) \<Rightarrow> search_index \<Rightarrow> bool" where
  "index_ok key content I \<longleftrightarrow> rowids_ok I
     \<and> (\<forall>r \<in> set (si_structural I) \<union> set (si_parts I). ix_version r \<in> set STRUCTURAL_SCHEMA_VERSIONS \<longrightarrow>
          holds_blocks key False (content (row_key (ix_lid r) (ix_sha r))) I r)
     \<and> (\<forall>r \<in> set (si_parts I). ix_version r = INDEX_SCHEMA_VERSION \<longrightarrow> holds_blocks key True (content (row_key (ix_lid r) (ix_sha r))) I r)"

lemma index_okD:
  assumes "index_ok key content I"
  shows "rowids_ok I" "r \<in> set (si_structural I) \<Longrightarrow> ix_version r \<in> set STRUCTURAL_SCHEMA_VERSIONS \<Longrightarrow>
      holds_blocks key False (content (row_key (ix_lid r) (ix_sha r))) I r"
    "r \<in> set (si_parts I) \<Longrightarrow> ix_version r \<in> set STRUCTURAL_SCHEMA_VERSIONS \<Longrightarrow> holds_blocks key False (content (row_key (ix_lid r) (ix_sha r))) I r"
    "r \<in> set (si_parts I) \<Longrightarrow> ix_version r = INDEX_SCHEMA_VERSION \<Longrightarrow> holds_blocks key True (content (row_key (ix_lid r) (ix_sha r))) I r"
  using assms unfolding index_ok_def by blast+

lemma holds_mono:
  assumes "holds_blocks key full body I r" "\<And>b. b \<in> set (si_blocks I) \<Longrightarrow> bk_path b = ix_path r \<Longrightarrow> b \<in> set (si_blocks J)"
    "\<And>b t. b \<in> set (si_blocks I) \<Longrightarrow> bk_path b = ix_path r \<Longrightarrow> (bk_id b, t) \<in> set (si_database I) \<Longrightarrow> (bk_id b, t) \<in> set (si_database J)"
    "\<And>b t. b \<in> set (si_blocks I) \<Longrightarrow> bk_path b = ix_path r \<Longrightarrow> (bk_id b, t) \<in> set (si_table I) \<Longrightarrow> (bk_id b, t) \<in> set (si_table J)"
    "\<And>b t. b \<in> set (si_blocks I) \<Longrightarrow> bk_path b = ix_path r \<Longrightarrow> (bk_id b, t) \<in> set (si_keyword I) \<Longrightarrow> (bk_id b, t) \<in> set (si_keyword J)"
  shows "holds_blocks key full body J r"
  unfolding holds_blocks_def
proof (intro allI impI)
  fix i
  assume "i < length body" "rg_rows (body ! i) \<noteq> []"
  then obtain b where b: "b \<in> set (si_blocks I)" "shows_block full I r (full_block key i (rg_rows (body ! i))) b"
    using assms(1) by (auto simp: holds_blocks_def)
  then have path: "bk_path b = ix_path r" by (simp add: shows_block_def)
  show "\<exists>b \<in> set (si_blocks J). shows_block full J r (full_block key i (rg_rows (body ! i))) b"
    using b(2) assms(2-5) [OF b(1) path] unfolding shows_block_def by blast
qed

lemma clear_path_fields:
  "si_blocks (clear_path path I) = filter (\<lambda>b. bk_path b \<noteq> path) (si_blocks I)"
  "si_parts (clear_path path I) = filter (\<lambda>r. ix_path r \<noteq> path) (si_parts I)"
  "si_structural (clear_path path I) = filter (\<lambda>r. ix_path r \<noteq> path) (si_structural I)" "si_next (clear_path path I) = si_next I"
  "si_database (clear_path path I) = filter (\<lambda>(i, t). i \<notin> bk_id ` {b \<in> set (si_blocks I). bk_path b = path}) (si_database I)"
  "si_table (clear_path path I) = filter (\<lambda>(i, t). i \<notin> bk_id ` {b \<in> set (si_blocks I). bk_path b = path}) (si_table I)"
  "si_keyword (clear_path path I) = filter (\<lambda>(i, t). i \<notin> bk_id ` {b \<in> set (si_blocks I). bk_path b = path}) (si_keyword I)"
  "si_token (clear_path path I) = filter (\<lambda>(i, t). i \<notin> bk_id ` {b \<in> set (si_blocks I). bk_path b = path}) (si_token I)"
  by (simp_all add: clear_path_def delete_fts_rows_def Let_def)

lemma clear_path_ok:
  assumes ok: "index_ok key content I"
  shows "index_ok key content (clear_path path I)"
proof -
  have rowids: "rowids_ok I" by (rule index_okD(1) [OF ok])
  then have dist: "inj_on bk_id (set (si_blocks I))" by (simp add: rowids_ok_def distinct_map)
  have keep: "bk_id b \<notin> bk_id ` {c \<in> set (si_blocks I). bk_path c = path}" if "b \<in> set (si_blocks I)" "bk_path b \<noteq> path" for b
    using that dist by (auto simp: inj_on_def)
  have "holds_blocks key full body (clear_path path I) r" if "holds_blocks key full body I r" "ix_path r \<noteq> path" for full body r
    by (rule holds_mono [OF that(1)]) (use that(2) keep in \<open>auto simp: clear_path_fields\<close>)
  moreover have "rowids_ok (clear_path path I)" using rowids by (auto simp: rowids_ok_def clear_path_fields distinct_map_filter)
  ultimately show ?thesis using ok by (auto simp: index_ok_def clear_path_fields)
qed

definition insert_blocks :: "part \<Rightarrow> block_in list \<Rightarrow> search_index \<Rightarrow> search_index" where
  "insert_blocks p blocks I = foldl (\<lambda>J b. insert_block p b J) I blocks"

lemma insert_block_fields:
  "si_parts (insert_block p b I) = si_parts I" "si_structural (insert_block p b I) = si_structural I"
  "set (si_blocks I) \<subseteq> set (si_blocks (insert_block p b I))" "set (si_database I) \<subseteq> set (si_database (insert_block p b I))"
  "set (si_table I) \<subseteq> set (si_table (insert_block p b I))" "set (si_keyword I) \<subseteq> set (si_keyword (insert_block p b I))"
  by (auto simp: insert_block_def Let_def)

lemma insert_block_rowids: "rowids_ok I \<Longrightarrow> rowids_ok (insert_block p b I)"
  by (auto simp: rowids_ok_def insert_block_def Let_def less_Suc_eq)

lemma insert_blocks_fields:
  "si_parts (insert_blocks p bs I) = si_parts I" "si_structural (insert_blocks p bs I) = si_structural I"
  "set (si_blocks I) \<subseteq> set (si_blocks (insert_blocks p bs I))" "set (si_database I) \<subseteq> set (si_database (insert_blocks p bs I))"
  "set (si_table I) \<subseteq> set (si_table (insert_blocks p bs I))" "set (si_keyword I) \<subseteq> set (si_keyword (insert_blocks p bs I))"
proof (induction bs rule: rev_induct)
  case (snoc b bs)
  note ih = snoc.IH [unfolded insert_blocks_def]
  {
    case 1 show ?case using ih by (simp add: insert_blocks_def insert_block_fields)
  next
    case 2 show ?case using ih by (simp add: insert_blocks_def insert_block_fields)
  next
    case 3 show ?case using ih(3) insert_block_fields(3) unfolding insert_blocks_def by fastforce
  next
    case 4 show ?case using ih(4) insert_block_fields(4) unfolding insert_blocks_def by fastforce
  next
    case 5 show ?case using ih(5) insert_block_fields(5) unfolding insert_blocks_def by fastforce
  next
    case 6 show ?case using ih(6) insert_block_fields(6) unfolding insert_blocks_def by fastforce
  }
qed (simp_all add: insert_blocks_def)

lemma insert_blocks_rowids: "rowids_ok I \<Longrightarrow> rowids_ok (insert_blocks p bs I)"
  unfolding insert_blocks_def by (rule foldl_inv) (simp_all add: insert_block_rowids)

lemma insert_blocks_shown:
  assumes "bi \<in> set bs" "ix_path r = pt_path p" "ix_lid r = identity p" "ix_sha r = pt_sha p"
  shows "\<exists>b \<in> set (si_blocks (insert_blocks p bs I)). shows_block True (insert_blocks p bs I) r bi b"
  using assms(1)
proof (induction bs rule: rev_induct)
  case (snoc x xs)
  let ?J = "insert_blocks p xs I"
  have J: "insert_blocks p (xs @ [x]) I = insert_block p x ?J" by (simp add: insert_blocks_def)
  show ?case
  proof (cases "bi \<in> set xs")
    case True
    then obtain b where "b \<in> set (si_blocks ?J)" "shows_block True ?J r bi b" using snoc.IH by blast
    then show ?thesis using insert_block_fields(3-6) [of ?J p x] unfolding J shows_block_def by blast
  next
    case False
    then have "bi = x" using snoc.prems by simp
    then show ?thesis using assms(2-4) by (auto simp: J insert_block_def Let_def shows_block_def)
  qed
qed simp


lemma shows_weaker: "shows_block True I r bi b \<Longrightarrow> shows_block full I r bi b"
  by (auto simp: shows_block_def)

lemma shows_structural: "shows_block False I r (full_block key i rs) b = shows_block False I r (structural_block i rs) b"
  by (simp add: shows_block_def full_block_def structural_block_def)

lemma holds_weaker: "holds_blocks key True body I r \<Longrightarrow> holds_blocks key full body I r"
  unfolding holds_blocks_def using shows_weaker by blast

lemma part_entry_simps [simp]: "ix_path (part_entry now p bs) = pt_path p" "ix_lid (part_entry now p bs) = identity p"
  "ix_sha (part_entry now p bs) = pt_sha p" "ix_version (part_entry now p bs) = INDEX_SCHEMA_VERSION"
  by (simp_all add: part_entry_def)

lemma row_key_identity [simp]: "row_key (identity p) (pt_sha p) = identity p"
  by (simp add: row_key_def identity_def)

lemma version_structural [simp]: "INDEX_SCHEMA_VERSION \<in> set STRUCTURAL_SCHEMA_VERSIONS"
  by (simp add: INDEX_SCHEMA_VERSION_def STRUCTURAL_SCHEMA_VERSIONS_def)

lemma clear_failure_fields [simp]: "si_parts (clear_failure path I) = si_parts I" "si_structural (clear_failure path I) = si_structural I"
  "si_blocks (clear_failure path I) = si_blocks I" "si_next (clear_failure path I) = si_next I" "si_database (clear_failure path I) = si_database I"
  "si_table (clear_failure path I) = si_table I" "si_keyword (clear_failure path I) = si_keyword I" "si_token (clear_failure path I) = si_token I"
  by (simp_all add: clear_failure_def)

lemma index_ok_cong:
  assumes "si_parts J = si_parts I" "si_structural J = si_structural I" "si_blocks J = si_blocks I" "si_next J = si_next I"
    "si_database J = si_database I" "si_table J = si_table I" "si_keyword J = si_keyword I" "si_token J = si_token I"
  shows "index_ok key content J = index_ok key content I"
  using assms by (simp add: index_ok_def rowids_ok_def holds_blocks_def shows_block_def)

text \<open>Storing the blocks of a content under an entry of its part.\<close>

lemma stored_holds:
  assumes "\<And>i. i < length body \<Longrightarrow> rg_rows (body ! i) \<noteq> [] \<Longrightarrow> \<exists>bi \<in> set bs. \<forall>J r b. shows_block True J r bi b \<longrightarrow> shows_block full J r (full_block key i (rg_rows (body ! i))) b"
    and "si_blocks J = si_blocks (insert_blocks p bs K)" "si_database J = si_database (insert_blocks p bs K)"
    "si_table J = si_table (insert_blocks p bs K)" "si_keyword J = si_keyword (insert_blocks p bs K)"
  shows "holds_blocks key full body J (part_entry now p xs)"
  unfolding holds_blocks_def
proof (intro allI impI)
  fix i
  assume i: "i < length body" "rg_rows (body ! i) \<noteq> []"
  obtain bi where bi: "bi \<in> set bs" "\<And>J r b. shows_block True J r bi b \<Longrightarrow> shows_block full J r (full_block key i (rg_rows (body ! i))) b"
    using assms(1) [OF i] by blast
  obtain b where b: "b \<in> set (si_blocks (insert_blocks p bs K))" "shows_block True (insert_blocks p bs K) (part_entry now p xs) bi b"
    using insert_blocks_shown [OF bi(1), of "part_entry now p xs" p K] by auto
  have "shows_block True J (part_entry now p xs) bi b" using b(2) by (simp add: shows_block_def assms(3-5))
  then show "\<exists>b \<in> set (si_blocks J). shows_block full J (part_entry now p xs) (full_block key i (rg_rows (body ! i))) b"
    using bi(2) b(1) by (auto simp: assms(2))
qed

lemma store_ok:
  assumes ok: "index_ok key content I"
    and J: "J = insert_blocks p bs (clear_path (pt_path p) I)"
    and N: "si_blocks N = si_blocks J" "si_next N = si_next J" "si_database N = si_database J" "si_table N = si_table J" "si_keyword N = si_keyword J"
      "si_token N = si_token J"
    and S: "si_structural N = si_structural J @ [part_entry now p bs]" "set (si_parts N) \<subseteq> set (si_parts J) \<union> (if full then {part_entry now p bs} else {})"
    and new: "holds_blocks key full (content (identity p)) N (part_entry now p bs)"
  shows "index_ok key content N"
proof -
  have clear: "index_ok key content (clear_path (pt_path p) I)" by (rule clear_path_ok [OF ok])
  have "rowids_ok J" unfolding J by (rule insert_blocks_rowids [OF index_okD(1) [OF clear]])
  then have rowids: "rowids_ok N" by (simp add: rowids_ok_def N)
  have old: "holds_blocks key f body N r" if "holds_blocks key f body (clear_path (pt_path p) I) r" for f body r
    by (rule holds_mono [OF that]) (use insert_blocks_fields(3-6) [where p = p and bs = bs and I = "clear_path (pt_path p) I"] in \<open>auto simp: N J\<close>)
  have weak: "holds_blocks key False (content (identity p)) N (part_entry now p bs)"
    using new holds_weaker [of key _ N _ False] by (cases full) simp_all
  have parts: "si_parts J = si_parts (clear_path (pt_path p) I)" "si_structural J = si_structural (clear_path (pt_path p) I)"
    by (simp_all add: J insert_blocks_fields)
  have "holds_blocks key False (content (row_key (ix_lid r) (ix_sha r))) N r"
    if "r \<in> set (si_structural N) \<union> set (si_parts N)" "ix_version r \<in> set STRUCTURAL_SCHEMA_VERSIONS" for r
  proof (cases "r = part_entry now p bs")
    case True
    then show ?thesis using weak by simp
  next
    case False
    then have "r \<in> set (si_structural (clear_path (pt_path p) I)) \<union> set (si_parts (clear_path (pt_path p) I))"
      using that(1) S by (auto simp: parts split: if_splits)
    then show ?thesis using old index_okD(2,3) [OF clear] that(2) by blast
  qed
  moreover have "holds_blocks key True (content (row_key (ix_lid r) (ix_sha r))) N r"
    if "r \<in> set (si_parts N)" "ix_version r = INDEX_SCHEMA_VERSION" for r
  proof (cases "full \<and> r = part_entry now p bs")
    case True
    then show ?thesis using new by simp
  next
    case False
    then have "r \<in> set (si_parts (clear_path (pt_path p) I))" using that(1) S by (auto simp: parts split: if_splits)
    then show ?thesis using old index_okD(4) [OF clear] that(2) by blast
  qed
  ultimately show ?thesis unfolding index_ok_def using rowids by blast
qed

lemma in_enumerate: "(i, g) \<in> set (enumerate 0 xs) \<longleftrightarrow> i < length xs \<and> g = xs ! i"
  by (auto simp: in_set_enumerate_eq)

lemma store_full_ok:
  assumes ok: "index_ok key content I" and blocks: "full_blocks key columns p (content (identity p)) = Inr bs"
  shows "index_ok key content (store_full now p bs I)"
proof -
  let ?N = "store_full now p bs I" and ?J = "insert_blocks p bs (clear_path (pt_path p) I)"
  have N: "si_blocks ?N = si_blocks ?J" "si_next ?N = si_next ?J" "si_database ?N = si_database ?J" "si_table ?N = si_table ?J"
    "si_keyword ?N = si_keyword ?J" "si_token ?N = si_token ?J" "si_structural ?N = si_structural ?J @ [part_entry now p bs]"
    "si_parts ?N = si_parts ?J @ [part_entry now p bs]"
    by (simp_all add: store_full_def insert_blocks_def Let_def)
  have bs: "bs = map (\<lambda>(i, g). full_block key i (rg_rows g)) (filter (\<lambda>(i, g). rg_rows g \<noteq> []) (enumerate 0 (content (identity p))))"
    using blocks by (simp add: full_blocks_def Let_def split: if_splits)
  have new: "holds_blocks key True (content (identity p)) ?N (part_entry now p bs)"
  proof (rule stored_holds [OF _ N(1,3,4,5)])
    fix i
    assume "i < length (content (identity p))" "rg_rows (content (identity p) ! i) \<noteq> []"
    then have "full_block key i (rg_rows (content (identity p) ! i)) \<in> set bs"
      unfolding bs by (force simp: in_enumerate)
    then show "\<exists>bi \<in> set bs. \<forall>J r b. shows_block True J r bi b \<longrightarrow> shows_block True J r (full_block key i (rg_rows (content (identity p) ! i))) b" by blast
  qed
  show ?thesis by (rule store_ok [OF ok refl N(1-7) _ new]) (simp add: N(8))
qed

lemma store_structural_ok:
  assumes ok: "index_ok key content I" and blocks: "structural_blocks columns p (content (identity p)) = Inr bs"
  shows "index_ok key content (store_structural now p bs I)"
proof (cases "store_structural now p bs I = I")
  case False
  let ?N = "store_structural now p bs I" and ?J = "insert_blocks p bs (clear_path (pt_path p) I)"
  have "?N = clear_failure (pt_path p) (?J\<lparr>si_structural := si_structural ?J @ [part_entry now p bs]\<rparr>)"
    using False by (auto simp: store_structural_def insert_blocks_def Let_def split: option.splits if_splits)
  then have N: "si_blocks ?N = si_blocks ?J" "si_next ?N = si_next ?J" "si_database ?N = si_database ?J" "si_table ?N = si_table ?J"
    "si_keyword ?N = si_keyword ?J" "si_token ?N = si_token ?J" "si_structural ?N = si_structural ?J @ [part_entry now p bs]"
    "si_parts ?N = si_parts ?J" by simp_all
  have bs: "bs = map (\<lambda>(i, g). structural_block i (rg_rows g)) (enumerate 0 (content (identity p)))"
    using blocks by (simp add: structural_blocks_def Let_def split: if_splits)
  have new: "holds_blocks key False (content (identity p)) ?N (part_entry now p bs)"
  proof (rule stored_holds [OF _ N(1,3,4,5)])
    fix i
    assume "i < length (content (identity p))"
    then have "structural_block i (rg_rows (content (identity p) ! i)) \<in> set bs" unfolding bs by (force simp: in_enumerate)
    then show "\<exists>bi \<in> set bs. \<forall>J r b. shows_block True J r bi b \<longrightarrow> shows_block False J r (full_block key i (rg_rows (content (identity p) ! i))) b"
      using shows_weaker shows_structural by blast
  qed
  show ?thesis by (rule store_ok [OF ok refl N(1-7) _ new]) (simp add: N(8))
qed (simp add: ok)


text \<open>Rebinding moves the entries and the blocks of a path together.\<close>

definition rebindable :: "(string \<Rightarrow> row_group list) \<Rightarrow> part \<Rightarrow> search_index \<Rightarrow> bool" where
  "rebindable content p I \<longleftrightarrow> (\<forall>r \<in> set (si_parts I) \<union> set (si_structural I). ix_path r = pt_path p \<longrightarrow>
     content (row_key (ix_lid r) (ix_sha r)) = content (identity p))"

lemma rebind_ok:
  assumes ok: "index_ok key content I" and p: "rebindable content p I"
  shows "index_ok key content (rebind_logical_parts [p] I)"
proof (cases "identity p = []")
  case False
  obtain N where N: "N = rebind_path (identity p) (pt_path p) I" by simp
  let ?e = "\<lambda>r. if ix_path r = pt_path p \<and> ix_lid r \<noteq> identity p then r\<lparr>ix_lid := identity p\<rparr> else r"
  let ?b = "\<lambda>b. if bk_path b = pt_path p \<and> bk_lid b \<noteq> identity p then b\<lparr>bk_lid := identity p\<rparr> else b"
  have fields: "si_parts N = map ?e (si_parts I)" "si_structural N = map ?e (si_structural I)" "si_blocks N = map ?b (si_blocks I)"
    "si_database N = si_database I" "si_table N = si_table I" "si_keyword N = si_keyword I" "si_token N = si_token I" "si_next N = si_next I"
    by (simp_all add: N rebind_path_def update_where_def)
  have ids: "map bk_id (map ?b xs) = map bk_id xs" for xs by simp
  have "map bk_id (si_blocks N) = map bk_id (si_blocks I)" unfolding fields(3) by (rule ids)
  moreover from arg_cong [OF this, of set] have "bk_id ` set (si_blocks N) = bk_id ` set (si_blocks I)" by (simp only: set_map)
  ultimately have rowids: "rowids_ok N" using index_okD(1) [OF ok] unfolding rowids_ok_def fields(4-8) by argo
  have holds: "holds_blocks key full (content (row_key (ix_lid (?e r)) (ix_sha (?e r)))) N (?e r)"
    if r: "r \<in> set (si_parts I) \<union> set (si_structural I)" "holds_blocks key full (content (row_key (ix_lid r) (ix_sha r))) I r" for full r
  proof -
    have same: "content (row_key (ix_lid (?e r)) (ix_sha (?e r))) = content (row_key (ix_lid r) (ix_sha r))"
      using p r(1) False by (auto simp: rebindable_def row_key_def)
    have "shows_block full N (?e r) bi (?b b)" if "shows_block full I r bi b" for bi b
      using that unfolding shows_block_def fields by auto
    then show ?thesis using r(2) unfolding same holds_blocks_def fields(3) by fastforce
  qed
  have version: "ix_version (?e r) = ix_version r" for r by simp
  have "index_ok key content N"
    unfolding index_ok_def fields(1,2) set_map image_Un [symmetric] ball_simps
  proof (intro conjI ballI impI rowids)
    fix r
    assume "r \<in> set (si_structural I) \<union> set (si_parts I)" "ix_version (?e r) \<in> set STRUCTURAL_SCHEMA_VERSIONS"
    then have "holds_blocks key False (content (row_key (ix_lid r) (ix_sha r))) I r" "r \<in> set (si_parts I) \<union> set (si_structural I)"
      unfolding version using index_okD(2,3) [OF ok] by blast+
    then show "holds_blocks key False (content (row_key (ix_lid (?e r)) (ix_sha (?e r)))) N (?e r)" by (intro holds)
  next
    fix r
    assume "r \<in> set (si_parts I)" "ix_version (?e r) = INDEX_SCHEMA_VERSION"
    then have "holds_blocks key True (content (row_key (ix_lid r) (ix_sha r))) I r" "r \<in> set (si_parts I) \<union> set (si_structural I)"
      unfolding version using index_okD(4) [OF ok] by blast+
    then show "holds_blocks key True (content (row_key (ix_lid (?e r)) (ix_sha (?e r)))) N (?e r)" by (intro holds)
  qed
  then show ?thesis using False by (simp add: rebind_logical_parts_def N)
qed (simp add: rebind_logical_parts_def ok)

lemma structural_replaced: "set (foldl (\<lambda>S r. filter (\<lambda>s. ix_path s \<noteq> ix_path r) S @ [r]) S rs) \<subseteq> set S \<union> set rs"
  by (induction rs arbitrary: S) fastforce+

lemma open_ok:
  assumes ok: "index_ok key content I" and legacy: "legacy \<Longrightarrow> si_structural I = []"
  shows "index_ok key content (open_index legacy I)"
proof (cases legacy)
  case True
  then show ?thesis using legacy by (simp add: open_index_def index_ok_def rowids_ok_def)
next
  case False
  have "set (si_structural (open_index legacy I)) \<subseteq> set (si_structural I) \<union> set (si_parts I)"
    using False structural_replaced by (simp add: open_index_def)
  then have entries: "r \<in> set (si_structural I) \<union> set (si_parts I)" if "r \<in> set (si_structural (open_index legacy I))" for r
    using that by blast
  have same: "si_parts (open_index legacy I) = si_parts I" "rowids_ok (open_index legacy I) = rowids_ok I"
    using False by (simp_all add: open_index_def rowids_ok_def)
  have holds: "holds_blocks key full body (open_index legacy I) r = holds_blocks key full body I r" for full body r
    unfolding holds_blocks_def shows_block_def using False by (simp add: open_index_def cong: conj_cong)
  show ?thesis unfolding index_ok_def same holds using index_okD [OF ok] entries by blast
qed

text \<open>
  Everything that happens to the index. A routine decides on a snapshot \<open>J\<close> read before its transaction. Three things are assumed
  that the code does not check: the body a routine reads is the content its part's identity stands for, a rebinding gives a path
  another identity of the same content, and an index of the old layout is opened only without structural entries. The retention
  sweep breaks the first (C40); \<open>legacy_open_forgets\<close> below shows what happens when the last fails.
\<close>

inductive index_step :: "(string \<Rightarrow> string) \<Rightarrow> (string \<Rightarrow> row_group list) \<Rightarrow> search_index \<Rightarrow> search_index \<Rightarrow> bool" for key content where
  full: "index_parquet key now columns p (content (identity p)) J I = Inr N \<Longrightarrow> index_step key content I N"
| structural: "index_structural_parquet now columns p (content (identity p)) J I = Inr N \<Longrightarrow> index_step key content I N"
| failure: "index_step key content I (record_failure now clock p error retry I)"
| remove: "index_step key content I (remove_part path I)"
| rebind: "rebindable content p I \<Longrightarrow> index_step key content I (rebind_logical_parts [p] I)"
| start: "(legacy \<Longrightarrow> si_structural I = []) \<Longrightarrow> index_step key content I (open_index legacy I)"

lemma index_step_ok: "index_step key content I N \<Longrightarrow> index_ok key content I \<Longrightarrow> index_ok key content N"
proof (induction rule: index_step.induct)
  case (full now columns p J I N)
  then show ?case using store_full_ok by (auto simp: index_parquet_def map_sum_def split: sum.splits if_splits)
next
  case (structural now columns p J I N)
  then show ?case using store_structural_ok by (auto simp: index_structural_parquet_def map_sum_def split: sum.splits if_splits)
next
  case (failure I now clock p error retry)
  have "index_ok key content (record_failure now clock p error retry I) = index_ok key content I"
    by (rule index_ok_cong) (simp_all add: record_failure_def Let_def)
  then show ?case using failure by simp
next
  case (remove I path)
  have "index_ok key content (remove_part path I) = index_ok key content (clear_path path I)"
    by (rule index_ok_cong) (simp_all add: remove_part_def)
  then show ?case using clear_path_ok [OF remove] by simp
qed (simp_all add: rebind_ok open_ok)

interpretation search_index: transition_system "index_step key content" "index_ok key content" for key content
  by unfold_locales (rule index_step_ok)

section \<open>The plan is sound\<close>

definition allows :: "nat set option \<Rightarrow> nat \<Rightarrow> bool" where
  "allows ids i \<longleftrightarrow> (case ids of None \<Rightarrow> True | Some A \<Rightarrow> i \<in> A)"

lemma allows_intersect [simp]: "allows (intersect a v) i \<longleftrightarrow> allows a i \<and> allows v i"
  by (auto simp: allows_def intersect_def split: option.splits)

lemma allows_None [simp]: "allows None i"
  by (simp add: allows_def)

lemma allows_foldl: "allows (foldl intersect a vs) i \<longleftrightarrow> allows a i \<and> (\<forall>v \<in> set vs. allows v i)"
  by (induction vs arbitrary: a) auto

lemma fts_allows:
  assumes "(i, joined ts) \<in> set table" "t \<in> set ts" "contains_text v (lower_text t)" "lower_text v = v"
  shows "allows (fts_ids table v) i"
  using assms(1) trigrams_match [OF assms(3,2,4)] by (force simp: fts_ids_def allows_def Let_def)

lemma folded_lower [simp]: "lower_text (folded s) = folded s"
  by (simp add: folded_def)

lemma name_allowed:
  assumes "(i, joined (json_values ds)) \<in> set table" "d \<in> set ds" "contains_text (folded v) (lower_text d)" "folded v \<noteq> []"
  shows "allows (fts_ids table (folded v)) i"
proof -
  have "strip d \<noteq> []" using folded_inside [OF assms(4,3)] .
  then have "lower_text d \<in> set (json_values ds)" by (rule json_values_in [OF assms(2)])
  from fts_allows [OF assms(1) this] show ?thesis using assms(3) by simp
qed

lemma name_listed:
  assumes "d \<in> set ds" "contains_text (folded v) (lower_text d)" "folded v \<noteq> []"
  shows "list_ex (contains_text (folded v)) (json_values (json_values ds))"
proof -
  have s: "strip d \<noteq> []" using folded_inside [OF assms(3,2)] .
  then have "lower_text d \<in> set (json_values ds)" by (rule json_values_in [OF assms(1)])
  moreover have "strip (lower_text d) \<noteq> []" using s by (simp add: strip_lower_Nil)
  ultimately have "lower_text (lower_text d) \<in> set (json_values (json_values ds))" by (rule json_values_in)
  then show ?thesis using assms(2) by (auto simp: list_ex_iff)
qed


text \<open>A block of a group lets every selected row of the group through.\<close>

lemma keyword_value_in: "x \<in> set rs \<Longrightarrow> c \<in> set (searched_texts x) \<Longrightarrow> c \<noteq> [] \<Longrightarrow> c \<in> set (keyword_values rs)"
  by (auto simp: keyword_values_def KEYWORD_COLUMNS_def searched_texts_def)

lemma block_allowed:
  assumes b: "shows_block full I r (full_block key i rs) b" and x: "x \<in> set rs"
    and fields: "field_matches w1 (q_database q) [qr_database x]" "field_matches w2 (q_table q) [qr_table x]"
  shows "allows (structural_ids (\<lambda>_. I) q) (bk_id b)"
proof -
  have "(bk_id b, joined (json_values (map qr_database rs))) \<in> set (si_database I)" "(bk_id b, joined (json_values (map qr_table rs))) \<in> set (si_table I)"
    using b by (simp_all add: shows_block_def full_block_def structural_block_def)
  note db = name_allowed [OF this(1), of "qr_database x"] and tb = name_allowed [OF this(2), of "qr_table x"]
  have "folded (q_database q) = [] \<or> allows (fts_ids (si_database I) (folded (q_database q))) (bk_id b)"
    using db field_contains [OF fields(1)] x by auto
  moreover have "folded (q_table q) = [] \<or> allows (fts_ids (si_table I) (folded (q_table q))) (bk_id b)"
    using tb field_contains [OF fields(2)] x by auto
  ultimately show ?thesis by (auto simp: structural_ids_def Let_def)
qed

lemma trigrams_nonempty: "3 \<le> length t \<Longrightarrow> query_trigrams t \<noteq> []"
  by (simp add: query_trigrams_def Let_def)

lemma strip_length: "length (strip t) \<le> length t"
  unfolding strip_def by (metis length_dropWhile_le length_rev order_trans)

lemma term_allowed:
  assumes b: "shows_block True I r (full_block key i rs) b" and x: "x \<in> set rs" and t: "term_matches x t" "t \<in> set (query_terms q)"
  shows "allows (term_ids key (\<lambda>_. I) k t) (bk_id b)"
proof -
  have low: "lower_text t = t" "t \<noteq> []" using query_terms_lower [OF t(2)] by simp_all
  obtain c where c: "c \<in> set (searched_texts x)" "contains_text t (lower_text c)" using t(1) by (auto simp: term_matches_def list_ex_iff)
  then have "c \<noteq> []" using low(2) by (auto simp: contains_iff lower_text_def)
  then have "c \<in> set (keyword_values rs)" using keyword_value_in [OF x c(1)] by blast
  moreover have "(bk_id b, joined (keyword_values rs)) \<in> set (si_keyword I)" using b by (simp add: shows_block_def full_block_def)
  ultimately have grams: "allows (fts_ids (si_keyword I) t) (bk_id b)" using fts_allows c(2) low(1) by blast
  show ?thesis
  proof (cases "token_ids key (si_token I) t")
    case (Some A)
    then have "6 \<le> length (strip t)" by (auto simp: token_ids_def token_sized_def Let_def split: if_splits)
    then have "query_trigrams t \<noteq> []" using trigrams_nonempty strip_length [of t] by simp
    then obtain B where B: "fts_ids (si_keyword I) t = Some B" by (auto simp: fts_ids_def Let_def)
    then show ?thesis using grams Some by (simp add: term_ids_def allows_def)
  qed (simp add: term_ids_def grams)
qed

lemma terms_allowed:
  assumes b: "shows_block True I r (full_block key i rs) b" and x: "x \<in> set rs" and k: "keyword_matches q x"
    and s: "allows (structural_ids (\<lambda>_. I) q) (bk_id b)"
  shows "allows (full_ids key (\<lambda>_. I) q) (bk_id b)"
proof -
  obtain sets where sets: "sets = map (\<lambda>(k, t). term_ids key (\<lambda>_. I) k t) (enumerate 0 (query_terms q))" by simp
  have each: "allows (term_ids key (\<lambda>_. I) k t) (bk_id b)" if "t \<in> set (query_terms q)" "term_matches x t" for k t
    using term_allowed [OF b x that(2,1)] .
  have ids: "full_ids key (\<lambda>_. I) q = (if sets \<noteq> [] \<and> wants_any q
      then (if list_all (\<lambda>s. s \<noteq> None) sets then intersect (structural_ids (\<lambda>_. I) q) (Some (\<Union> (the ` set sets))) else structural_ids (\<lambda>_. I) q)
      else foldl intersect (structural_ids (\<lambda>_. I) q) sets)"
    by (simp add: full_ids_def index_terms_eq sets Let_def)
  have empty: "sets = [] \<longleftrightarrow> query_terms q = []" by (simp add: sets flip: length_0_conv)
  show ?thesis
  proof (cases "sets \<noteq> [] \<and> wants_any q")
    case True
    then obtain t where t: "t \<in> set (query_terms q)" "term_matches x t" using k empty by (auto simp: keyword_matches_def list_ex_iff)
    obtain j where j: "j < length (query_terms q)" "query_terms q ! j = t" using t(1) by (auto simp: in_set_conv_nth)
    then have v: "term_ids key (\<lambda>_. I) j t \<in> set sets" unfolding sets by (force simp: in_enumerate)
    have "bk_id b \<in> \<Union> (the ` set sets)" if found: "list_all (\<lambda>s. s \<noteq> None) sets"
    proof -
      obtain A where A: "term_ids key (\<lambda>_. I) j t = Some A" using found v unfolding list_all_iff by blast
      then have "bk_id b \<in> A" using each [OF t, of j] by (simp add: allows_def)
      moreover have "A \<in> the ` set sets" using v A by force
      ultimately show ?thesis by blast
    qed
    then have "allows (if list_all (\<lambda>s. s \<noteq> None) sets then Some (\<Union> (the ` set sets)) else None) (bk_id b)" by (simp add: allows_def)
    then show ?thesis using True s unfolding ids by (cases "list_all (\<lambda>s. s \<noteq> None) sets") simp_all
  next
    case False
    then have "term_matches x t" if "t \<in> set (query_terms q)" for t
      using k empty that by (auto simp: keyword_matches_def list_all_iff)
    then have "\<forall>v \<in> set sets. allows v (bk_id b)" using each by (auto simp: sets in_enumerate)
    then have "allows (foldl intersect (structural_ids (\<lambda>_. I) q) sets) (bk_id b)" using s by (simp add: allows_foldl)
    moreover have "full_ids key (\<lambda>_. I) q = foldl intersect (structural_ids (\<lambda>_. I) q) sets" unfolding ids using False by argo
    ultimately show ?thesis by simp
  qed
qed

lemma operation_listed:
  assumes "qr_operation x \<in> set (sql_operations q)" "clean_operations q" "x \<in> set rs"
  shows "set (stripped_operations (q_operations q)) \<inter> set (bi_operations (full_block key i rs)) \<noteq> {}"
proof -
  obtain v where v: "v \<in> set (q_operations q)" "strip v \<noteq> []" "qr_operation x = upper_text v" using assms(1) by (auto simp: sql_operations_def)
  then have "strip v = v" using assms(2) by (simp add: clean_operations_def)
  then have "upper_text v \<in> set (stripped_operations (q_operations q))" "strip (qr_operation x) \<noteq> []"
    using v by (force simp: stripped_operations_def strip_upper)+
  then have "upper_text (qr_operation x) \<in> set (bi_operations (full_block key i rs))" "upper_text (qr_operation x) \<in> set (stripped_operations (q_operations q))"
    using assms(3) v(3) by (auto simp: full_block_def structural_block_def intro!: image_eqI [where x = "qr_operation x"])
  then show ?thesis by blast
qed

lemma block_matched:
  assumes b: "shows_block full I r (full_block key i rs) b" and x: "x \<in> set rs" and clean: "clean_operations q"
    and fields: "field_matches w1 (q_database q) [qr_database x]" "field_matches w2 (q_table q) [qr_table x]"
    and ops: "sql_operations q = [] \<or> qr_operation x \<in> set (sql_operations q)"
  shows "block_matches q b"
proof -
  have B: "bk_databases b = json_values (json_values (map qr_database rs))" "bk_tables b = json_values (json_values (map qr_table rs))"
    "set (bk_operations b) = set (bi_operations (full_block key i rs))"
    using b by (simp_all add: shows_block_def full_block_def structural_block_def)
  have "folded (q_database q) = [] \<or> list_ex (contains_text (folded (q_database q))) (bk_databases b)"
    using name_listed [of "qr_database x" "map qr_database rs"] field_contains [OF fields(1)] x by (auto simp: B(1))
  moreover have "folded (q_table q) = [] \<or> list_ex (contains_text (folded (q_table q))) (bk_tables b)"
    using name_listed [of "qr_table x" "map qr_table rs"] field_contains [OF fields(2)] x by (auto simp: B(2))
  moreover have "stripped_operations (q_operations q) = [] \<or> set (stripped_operations (q_operations q)) \<inter> set (bk_operations b) \<noteq> {}"
    using ops operation_listed [OF _ clean x] clean_sql [OF clean] unfolding B(3) by auto
  ultimately show ?thesis by (simp add: block_matches_def Let_def)
qed


lemma map_filter_in: "y \<in> set (List.map_filter f xs) \<longleftrightarrow> (\<exists>x \<in> set xs. f x = Some y)"
  by (induction xs) (auto simp: List.map_filter_simps split: option.splits)

lemma part_paths_set: "set (part_paths parts) = pt_path ` set parts"
  by (simp add: part_paths_def)

lemma known_partD: "known_part parts path = Some p \<Longrightarrow> p \<in> set parts \<and> pt_path p = path"
  by (auto simp: known_part_def dest: map_of_SomeD)

lemma known_part_own: "distinct (map pt_path parts) \<Longrightarrow> p \<in> set parts \<Longrightarrow> known_part parts (pt_path p) = Some p"
  by (simp add: known_part_def comp_def flip: rev_map)

lemma enumerate_snd: "map (\<lambda>(j, c). F c) (enumerate n cs) = map F cs"
  by (induction cs arbitrary: n) simp_all

lemma in_chunks: "(\<exists>chunk \<in> set (chunks 400 xs). x \<in> set chunk) \<longleftrightarrow> x \<in> set xs"
proof -
  have "set (concat (chunks 400 xs)) = set xs" by (simp add: concat_chunks)
  then show ?thesis by auto
qed

lemma coverage_set: "set (coverage_table (\<lambda>_. t) vs parts) = ix_path ` {r \<in> set t. entry_current vs parts r}"
proof -
  have paths: "ix_path r \<in> set (part_paths parts)" if "entry_current vs parts r" for r
    using that known_partD by (force simp: entry_current_def part_paths_set split: option.splits)
  have "coverage_table (\<lambda>_. t) vs parts = concat (map (\<lambda>chunk. map ix_path (filter (\<lambda>r. ix_path r \<in> set chunk \<and> entry_current vs parts r) t)) (chunks 400 (part_paths parts)))"
    by (simp only: coverage_table_def enumerate_snd)
  then have "set (coverage_table (\<lambda>_. t) vs parts)
      = ix_path ` {r \<in> set t. (\<exists>chunk \<in> set (chunks 400 (part_paths parts)). ix_path r \<in> set chunk) \<and> entry_current vs parts r}" by auto
  then show ?thesis using paths unfolding in_chunks by blast
qed

lemma block_rows_set: "set (block_rows (\<lambda>_. I) covered start stop) = {b \<in> set (si_blocks I). bk_path b \<in> set covered \<and> start \<le> bk_max b \<and> bk_min b \<le> stop}"
proof -
  have "set (block_rows (\<lambda>_. I) covered start stop) = set (concat (map (\<lambda>chunk. filter (\<lambda>b. bk_path b \<in> set chunk \<and> start \<le> bk_max b \<and> bk_min b \<le> stop) (si_blocks I))
      (chunks 400 (sort (remdups covered)))))"
    by (simp only: block_rows_def enumerate_snd set_sort_desc_key)
  also have "\<dots> = {b \<in> set (si_blocks I). (\<exists>chunk \<in> set (chunks 400 (sort (remdups covered))). bk_path b \<in> set chunk) \<and> start \<le> bk_max b \<and> bk_min b \<le> stop}" by auto
  finally show ?thesis unfolding in_chunks by simp
qed

definition contents_current :: "(string \<Rightarrow> row_group list) \<Rightarrow> (string \<Rightarrow> row_group list) \<Rightarrow> part list \<Rightarrow> bool" where
  "contents_current content body parts \<longleftrightarrow> distinct (map pt_path parts)
     \<and> (\<forall>p \<in> set parts. content (identity p) = body (pt_sha p) \<and> content (pt_sha p) = body (pt_sha p))"

lemma current_content:
  assumes "contents_current content body parts" "p \<in> set parts" "identity_matches p lid sha"
  shows "content (row_key lid sha) = body (pt_sha p)"
  using assms by (auto simp: contents_current_def identity_matches_def row_key_def split: if_splits)

lemma covered_row:
  assumes ok: "index_ok key content I" and cur: "contents_current content body parts" and p: "p \<in> set parts"
    and cov: "pt_path p \<in> set (full_coverage (\<lambda>_. I) parts @ structural_coverage (\<lambda>_. I) parts)"
  shows "\<exists>r. ix_path r = pt_path p \<and> identity_matches p (ix_lid r) (ix_sha r)
    \<and> holds_blocks key (pt_path p \<in> set (full_coverage (\<lambda>_. I) parts)) (body (pt_sha p)) I r"
proof -
  have own: "known_part parts (pt_path p) = Some p" using cur p known_part_own by (auto simp: contents_current_def)
  show ?thesis
  proof (cases "pt_path p \<in> set (full_coverage (\<lambda>_. I) parts)")
    case True
    then obtain r where r: "r \<in> set (si_parts I)" "ix_path r = pt_path p" "entry_current [INDEX_SCHEMA_VERSION] parts r"
      by (auto simp: full_coverage_def coverage_set)
    then have m: "identity_matches p (ix_lid r) (ix_sha r)" "ix_version r = INDEX_SCHEMA_VERSION" using own by (auto simp: entry_current_def)
    have "holds_blocks key True (body (pt_sha p)) I r" using index_okD(4) [OF ok r(1) m(2)] current_content [OF cur p m(1)] by simp
    then show ?thesis using r(2) m(1) True by auto
  next
    case False
    then obtain r where r: "r \<in> set (si_structural I)" "ix_path r = pt_path p" "entry_current STRUCTURAL_SCHEMA_VERSIONS parts r"
      using cov by (auto simp: structural_coverage_def coverage_set)
    then have m: "identity_matches p (ix_lid r) (ix_sha r)" "ix_version r \<in> set STRUCTURAL_SCHEMA_VERSIONS" using own by (auto simp: entry_current_def)
    have "holds_blocks key False (body (pt_sha p)) I r" using index_okD(2) [OF ok r(1) m(2)] current_content [OF cur p m(1)] by simp
    then show ?thesis using r(2) m(1) False by auto
  qed
qed

lemma row_listed:
  assumes ok: "index_ok key content I" and cur: "contents_current content body parts" and p: "p \<in> set parts"
    and q: "windowed now retention q start stop" "clean_operations q"
    and cov: "pt_path p \<in> set (full_coverage (\<lambda>_. I) parts @ structural_coverage (\<lambda>_. I) parts)"
    and x: "x \<in> set (part_answer body verdict now retention q p)"
  shows "\<exists>e \<in> set (ip_entries (candidate_blocks key (\<lambda>_. I) parts q start stop)). ie_part e = p \<and> ie_group e < length (body (pt_sha p))
    \<and> x \<in> set (rg_rows (body (pt_sha p) ! ie_group e)) \<and> qr_epoch x \<le> ie_max e"
proof -
  have own: "known_part parts (pt_path p) = Some p" using cur p known_part_own by (auto simp: contents_current_def)
  have xm: "row_matches now retention q x" "x \<in> set (part_rows body (pt_sha p))" using x by (auto simp: part_answer_def answer_rows_def)
  then have M: "start \<le> qr_epoch x" "qr_epoch x \<le> stop" "keyword_matches q x"
    "field_matches (q_exact q \<noteq> None) (q_database q) [qr_database x]" "field_matches (q_exact q \<noteq> None) (q_table q) [qr_table x]"
    "sql_operations q = [] \<or> qr_operation x \<in> set (sql_operations q)"
    by (simp_all add: windowed_matches [OF q(1)])
  obtain i where i: "i < length (body (pt_sha p))" "x \<in> set (rg_rows (body (pt_sha p) ! i))"
    using xm(2) by (auto simp: part_rows_def) (metis in_set_conv_nth)
  obtain full where full: "full = (pt_path p \<in> set (full_coverage (\<lambda>_. I) parts))" by simp
  obtain r where r: "ix_path r = pt_path p" "identity_matches p (ix_lid r) (ix_sha r)" "holds_blocks key full (body (pt_sha p)) I r"
    using covered_row [OF ok cur p cov] full by blast
  have "rg_rows (body (pt_sha p) ! i) \<noteq> []" using i(2) by auto
  then obtain b where b: "b \<in> set (si_blocks I)" "shows_block full I r (full_block key i (rg_rows (body (pt_sha p) ! i))) b"
    using r(3) i(1) unfolding holds_blocks_def by blast
  have B: "bk_path b = pt_path p" "bk_lid b = ix_lid r" "bk_sha b = ix_sha r" "bk_group b = i"
    "bk_min b = Min (set (map qr_epoch (rg_rows (body (pt_sha p) ! i))))" "bk_max b = Max (set (map qr_epoch (rg_rows (body (pt_sha p) ! i))))"
    using b(2) r(1) by (simp_all add: shows_block_def full_block_def structural_block_def)
  have time: "bk_min b \<le> qr_epoch x" "qr_epoch x \<le> bk_max b" unfolding B using i(2) by simp_all
  then have listed: "b \<in> set (block_rows (\<lambda>_. I) (full_coverage (\<lambda>_. I) parts @ structural_coverage (\<lambda>_. I) parts) start stop)"
    using b(1) cov M(1,2) unfolding block_rows_set by (auto simp: B(1))
  have s: "allows (structural_ids (\<lambda>_. I) q) (bk_id b)" by (rule block_allowed [OF b(2) i(2) M(4,5)])
  have ids: "allows (if bk_path b \<in> set (full_coverage (\<lambda>_. I) parts) then full_ids key (\<lambda>_. I) q else structural_ids (\<lambda>_. I) q) (bk_id b)"
    using terms_allowed [OF _ i(2) M(3) s] b(2) s by (auto simp: full B(1))
  have "block_matches q b" by (rule block_matched [OF b(2) i(2) q(2) M(4-6)])
  then have entry: "block_entry key (\<lambda>_. I) parts q b = Some \<lparr>ie_part = p, ie_group = i, ie_max = bk_max b\<rparr>"
    using ids own r(2) by (cases "pt_path p \<in> set (full_coverage (\<lambda>_. I) parts)") (auto simp: block_entry_def B(1-4) allows_def split: option.splits)
  have "full_coverage (\<lambda>_. I) parts @ structural_coverage (\<lambda>_. I) parts \<noteq> []" using cov by auto
  then have "\<lparr>ie_part = p, ie_group = i, ie_max = bk_max b\<rparr> \<in> set (ip_entries (candidate_blocks key (\<lambda>_. I) parts q start stop))"
    using listed entry by (simp add: candidate_blocks_def Let_def map_filter_in) blast
  then show ?thesis using i time(2) by (intro bexI) simp_all
qed


lemma index_plan_sound:
  assumes ok: "index_ok key content I" and current: "contents_current content body parts"
    and q: "windowed now retention q start stop" "clean_operations q"
  shows "plan_sound body (part_answer body verdict now retention q) parts (candidate_blocks key (\<lambda>_. I) parts q start stop)"
proof -
  obtain covered where covered: "covered = full_coverage (\<lambda>_. I) parts @ structural_coverage (\<lambda>_. I) parts" by simp
  let ?plan = "candidate_blocks key (\<lambda>_. I) parts q start stop"
  have unknown: "set (ip_unknown ?plan) = {path \<in> pt_path ` set parts. path \<notin> set covered}"
    by (auto simp: candidate_blocks_def covered Let_def part_paths_set)
  have entry: "ie_part e \<in> set parts \<and> ie_path e \<in> set covered" if e: "e \<in> set (ip_entries ?plan)" for e
  proof -
    obtain b where b: "b \<in> set (block_rows (\<lambda>_. I) covered start stop)" "block_entry key (\<lambda>_. I) parts q b = Some e"
      using e by (auto simp: candidate_blocks_def covered Let_def map_filter_in split: if_splits)
    then have "known_part parts (bk_path b) = Some (ie_part e)" by (auto simp: block_entry_def split: option.splits if_splits)
    then show ?thesis using known_partD b(1) by (force simp: block_rows_set)
  qed
  have rows: "\<exists>e \<in> set (ip_entries ?plan). ie_part e = p \<and> ie_group e < length (body (pt_sha p)) \<and> x \<in> set (rg_rows (body (pt_sha p) ! ie_group e)) \<and> qr_epoch x \<le> ie_max e"
    if "p \<in> set parts" "pt_path p \<in> set covered" "x \<in> set (part_answer body verdict now retention q p)" for p x
    using row_listed [OF ok current that(1) q _ that(3)] that(2) by (simp add: covered)
  show ?thesis
    unfolding plan_sound_def
  proof (intro conjI ballI)
    show "set (ip_unknown ?plan) \<subseteq> pt_path ` set parts" using unknown by blast
    show "ie_part e \<in> set parts" "ie_path e \<notin> set (ip_unknown ?plan)" if "e \<in> set (ip_entries ?plan)" for e
      using entry [OF that] unknown by blast+
    show "pt_path p \<in> set (ip_unknown ?plan) \<or> (\<forall>r \<in> set (part_answer body verdict now retention q p). \<exists>e \<in> set (ip_entries ?plan).
        ie_part e = p \<and> ie_group e < length (body (pt_sha p)) \<and> r \<in> set (rg_rows (body (pt_sha p) ! ie_group e)) \<and> qr_epoch r \<le> ie_max e)"
      if "p \<in> set parts" for p
      using rows [OF that] that unknown by blast
  qed
qed


text \<open>
  An index of the old full text layout is emptied when it is opened, except for its structural entries: the parts they name then
  count as known while no block of theirs is left.
\<close>

lemma legacy_open_forgets:
  assumes "path \<in> set (structural_coverage (\<lambda>_. I) parts)"
  shows "path \<notin> set (ip_unknown (candidate_blocks key (\<lambda>_. open_index True I) parts q start stop))
    \<and> ip_entries (candidate_blocks key (\<lambda>_. open_index True I) parts q start stop) = []"
proof
  have "structural_coverage (\<lambda>_. open_index True I) parts = structural_coverage (\<lambda>_. I) parts"
    by (simp add: structural_coverage_def open_index_def Let_def)
  then show "path \<notin> set (ip_unknown (candidate_blocks key (\<lambda>_. open_index True I) parts q start stop))"
    using assms by (simp add: candidate_blocks_def Let_def)
  have "set (block_rows (\<lambda>_. open_index True I) covered start stop) = {}" for covered
    unfolding block_rows_set by (simp add: open_index_def Let_def)
  then show "ip_entries (candidate_blocks key (\<lambda>_. open_index True I) parts q start stop) = []"
    by (simp add: candidate_blocks_def Let_def List.map_filter_def)
qed

text \<open>
  Property C4. The plan of the search index is sound: every row a query selects from a part that is not reported unknown lies in a
  listed row group of that part, after any writes, failures, removals, rebindings and restarts, under these conditions. The
  identity of every listed part stands for its current body, and every body is indexed or rebound under an identity that stands
  for it; a retention rewrite keeps the identity and breaks this (C40). The read sees one state of the index (C39). An index of
  the old full text layout is opened only while it has no structural entries (\<open>legacy_open_forgets\<close> shows what is lost
  otherwise). The query has a time window within the retention, and asks for operations without surrounding blanks.
\<close>

theorem search_plan_sound:
  assumes "(index_step key content)\<^sup>*\<^sup>* I0 I" "index_ok key content I0" "contents_current content body parts"
    and "windowed now retention q start stop" "clean_operations q"
  shows "plan_sound body (part_answer body verdict now retention q) parts (candidate_blocks key (\<lambda>_. I) parts q start stop)"
  by (rule index_plan_sound [OF search_index.reachable_inv [OF assms(1,2)] assms(3-5)])

text \<open>With it, the inputs of the tiered query (\<open>tiered_inputs\<close>) need no promise about the plan.\<close>

lemma candidate_internal: "candidate_blocks key reads parts (internal_query cap q start stop) a b = candidate_blocks key reads parts q a b"
proof -
  have terms: "index_terms (internal_query cap q start stop) = index_terms q" "wants_any (internal_query cap q start stop) = wants_any q"
    by (simp_all add: internal_query_def index_terms_def wants_any_def)
  have names: "structural_ids reads (internal_query cap q start stop) = structural_ids reads q"
    "block_matches (internal_query cap q start stop) = block_matches q"
    by (simp_all add: internal_query_def structural_ids_def block_matches_def fun_eq_iff)
  have full: "full_ids key reads (internal_query cap q start stop) = full_ids key reads q" unfolding full_ids_def terms names ..
  have "block_entry key reads parts (internal_query cap q start stop) c = block_entry key reads parts q c" for c
    unfolding block_entry_def names full ..
  then have "block_entry key reads parts (internal_query cap q start stop) = block_entry key reads parts q" by blast
  then show ?thesis by (simp add: candidate_blocks_def)
qed

lemma searched_inputs:
  assumes ok: "index_ok key content I" and cur: "contents_current content body parts"
    and rest: "bodies_ok body owner parts" "\<And>p. p \<in> set parts \<Longrightarrow> field_matches True (q_instance q) [owner (pt_file p)]" "fetch_ok body fetch" "catalogs_true body catalogs"
      "windowed now retention (internal_query cap q start stop) start stop" "clean_operations (internal_query cap q start stop)"
  shows "tiered_inputs body owner verdict catalogs fetch now retention (internal_query cap q start stop) start stop parts
    (candidate_blocks key (\<lambda>_. I) parts q start stop)"
  using index_plan_sound [OF ok cur rest(5,6)] rest unfolding tiered_inputs_def candidate_internal by simp

text \<open>
  Property C3. A page of a tiered query over the indexed parts is exact: whatever row groups and parts the search index, the
  catalogs and the remembered probes let it skip, in whatever order the readers finish, and wherever the early stop ends the
  scan, the page holds the rows \<open>offset\<close> to \<open>offset + limit\<close> of all the rows the query selects from the readable parts, newest
  first; \<open>has_more\<close> tells whether there are further ones, and a list kept for a certificate is the whole answer. The plan is
  the one the index gives after any writes, and the probes are those the tables hold after any steps. Conditions, not all of
  which the code ensures: those of C4 on the index and the query, so that no listed part was rewritten by the retention
  sweep (C40) and the plan reads one state of the index (C39); the page ends within the first 100000 rows (the target of the
  scan is cut off there); a re-encoded body answers like the one it replaces and no part begins at time 0 (C9, C34); a stored
  catalog describes the body whose hash it names; a part read has the body its hash names, its rows lie within its recorded
  times, its event ids are unique, and the listed parts belong to the asked instance.
\<close>

theorem searched_page_exact:
  assumes "(part_step lid (answer_meaning hash parse body verdict))\<^sup>*\<^sup>* Y Z" "legacy_tables (sy_tables Y)" "sy_pages Y = {}"
    and index: "(index_step key content)\<^sup>*\<^sup>* I0 I" "index_ok key content I0" "contents_current content body parts"
    and parts: "bodies_ok body owner parts" "\<And>p. p \<in> set parts \<Longrightarrow> field_matches True (q_instance q) [owner (pt_file p)]"
    and reads: "fetch_ok body fetch" "catalogs_true body catalogs"
    and asked: "windowed now retention (internal_query cap q start stop) start stop" "clean_operations (internal_query cap q start stop)"
    and bounds: "page_offset q + page_limit cap q \<le> 100000" "0 < workers"
    and page: "tiered_scan fetch broken verdict now retention schedule workers cap q start stop
      (plan_work (part_fingerprint hash q start stop) catalogs parse is_file q parts (candidate_blocks key (\<lambda>_. I) parts q start stop) (sy_tables Z)) = Inr page"
    and xs: "xs = newest_first (unique_rows (concat (map (part_answer body verdict now retention (internal_query cap q start stop))
      (filter (body_available is_file) parts))))"
  shows "qp_rows page = page_of (nat (page_offset q)) (nat (page_limit cap q)) xs
    \<and> qp_more page = (nat (page_offset q) + nat (page_limit cap q) < length xs)
    \<and> (\<forall>ys. qp_complete page = Some ys \<longrightarrow> ys = xs \<and> (\<forall>p \<in> set parts. body_available is_file p))"
proof -
  have "index_ok key content I" by (rule search_index.reachable_inv [OF index(1,2)])
  from searched_inputs [OF this index(3) parts reads asked] show ?thesis
    by (rule tiered_page_exact [OF assms(1-3) _ bounds page xs])
qed

text \<open>
  Property C10. What a tiered query over the indexed parts remembers is true: a part remembered as empty has no selected row, a
  remembered list is the set of its selected rows, and so for every later query without padded operations that finds the entry
  under its key. The conditions are those of C3, except the bound of the page, and that the hash of the keys has no collision
  and a list of rows is read back as it was written; where one of them fails (C34, C39, C40) a query that was led past a
  selected row can remember that the part has none.
\<close>

theorem searched_probes_true:
  assumes "(part_step lid (answer_meaning hash parse body verdict))\<^sup>*\<^sup>* Y Z" "legacy_tables (sy_tables Y)" "sy_pages Y = {}"
    and index: "(index_step key content)\<^sup>*\<^sup>* I0 I" "index_ok key content I0" "contents_current content body parts"
    and parts: "bodies_ok body owner parts" "\<And>p. p \<in> set parts \<Longrightarrow> field_matches True (q_instance q) [owner (pt_file p)]"
    and reads: "fetch_ok body fetch" "catalogs_true body catalogs"
    and asked: "windowed now retention (internal_query cap q start stop) start stop" "clean_operations (internal_query cap q start stop)"
    and keys: "0 < workers" "inj hash" "\<And>rs. parse (render rs) = Some rs"
    and page: "tiered_scan fetch broken verdict now retention schedule workers cap q start stop
      (plan_work (part_fingerprint hash q start stop) catalogs parse is_file q parts (candidate_blocks key (\<lambda>_. I) parts q start stop) (sy_tables Z)) = Inr page"
  shows "(\<forall>w \<in> set (qp_negative page). answer_meaning hash parse body verdict (pt_sha (we_part w)) (we_fp w) None)
    \<and> (\<forall>(w, rs) \<in> set (qp_positive page). answer_meaning hash parse body verdict (pt_sha (we_part w)) (we_fp w) (Some (render rs)))"
proof -
  have "index_ok key content I" by (rule search_index.reachable_inv [OF index(1,2)])
  from searched_inputs [OF this index(3) parts reads asked] show ?thesis
    by (rule remembered_probes_true [OF assms(1-3) _ keys page])
qed

section \<open>Torn reads\<close>

text \<open>The coverage and the matches are read before a full indexing of the part commits, its blocks after it.\<close>

definition torn_reads :: "search_index \<Rightarrow> search_index \<Rightarrow> read_at \<Rightarrow> search_index" where
  "torn_reads I N at = (case at of BlockBatch j \<Rightarrow> N | _ \<Rightarrow> I)"

lemma inserted_blocks: "b \<in> set (si_blocks (insert_blocks p bs I)) \<Longrightarrow> b \<in> set (si_blocks I) \<or> si_next I \<le> bk_id b"
proof (induction bs rule: rev_induct)
  case (snoc x bs)
  have mono: "si_next I \<le> si_next (insert_blocks p ys I)" for ys
    by (induction ys rule: rev_induct) (auto simp: insert_blocks_def insert_block_def Let_def)
  show ?case using snoc mono [of bs] by (auto simp: insert_blocks_def insert_block_def Let_def)
qed (simp add: insert_blocks_def)

lemma torn_coverage: "full_coverage (torn_reads I N) parts = full_coverage (\<lambda>_. I) parts"
  "structural_coverage (torn_reads I N) parts = structural_coverage (\<lambda>_. I) parts" "structural_ids (torn_reads I N) q = structural_ids (\<lambda>_. I) q"
proof -
  have "torn_reads I N DatabaseMatch = I" "torn_reads I N TableMatch = I" "torn_reads I N (FullBatch j) = I" "torn_reads I N (StructuralBatch j) = I" for j
    by (simp_all add: torn_reads_def)
  then show "full_coverage (torn_reads I N) parts = full_coverage (\<lambda>_. I) parts" "structural_ids (torn_reads I N) q = structural_ids (\<lambda>_. I) q"
    "structural_coverage (torn_reads I N) parts = structural_coverage (\<lambda>_. I) parts"
    by (simp_all only: full_coverage_def structural_coverage_def structural_ids_def)
qed

text \<open>
  Property C39. A read of the index can tear: its statements see different states. When a part that has only its structural blocks
  is fully indexed between the matches of a query and the read of the blocks, the new blocks have row ids no match returned, and
  the plan neither lists the part nor reports it unknown: its rows are silently missing from the page.
\<close>

theorem torn_read_skips_part:
  assumes "(index_step key content)\<^sup>*\<^sup>* I0 I" "index_ok key content I0" "distinct (map pt_path parts)" "p \<in> set parts"
    and "pt_path p \<in> set (structural_coverage (\<lambda>_. I) parts)" "pt_path p \<notin> set (full_coverage (\<lambda>_. I) parts)" "3 \<le> length (folded (q_database q))"
    and "index_parquet key now columns p (content (identity p)) J I = Inr N" "\<not> is_current p J"
    and plan: "plan = candidate_blocks key (torn_reads I N) parts q start stop"
  shows "pt_path p \<notin> set (ip_unknown plan) \<and> (\<forall>e \<in> set (ip_entries plan). ie_part e \<noteq> p)"
proof
  have rowids: "rowids_ok I" using index_okD(1) [OF search_index.reachable_inv [OF assms(1,2)]] .
  show "pt_path p \<notin> set (ip_unknown plan)" using assms(5) by (simp add: plan candidate_blocks_def torn_coverage)
  obtain bs where "N = store_full now p bs I" using assms(8,9) by (auto simp: index_parquet_def map_sum_def split: sum.splits)
  then have N: "si_blocks N = si_blocks (insert_blocks p bs (clear_path (pt_path p) I))" by (simp add: store_full_def insert_blocks_def Let_def)
  have fresh: "si_next I \<le> bk_id b" if "b \<in> set (si_blocks N)" "bk_path b = pt_path p" for b
    using inserted_blocks that unfolding N by (fastforce simp: clear_path_fields)
  obtain A where A: "fts_ids (si_database I) (folded (q_database q)) = Some A" "A \<subseteq> fst ` set (si_database I)"
    using trigrams_nonempty [OF assms(7)] by (auto simp: fts_ids_def Let_def)
  show "\<forall>e \<in> set (ip_entries plan). ie_part e \<noteq> p"
  proof (intro ballI notI)
    fix e
    assume e: "e \<in> set (ip_entries plan)" "ie_part e = p"
    obtain b where b: "b \<in> set (block_rows (torn_reads I N) (full_coverage (\<lambda>_. I) parts @ structural_coverage (\<lambda>_. I) parts) start stop)"
      "block_entry key (torn_reads I N) parts q b = Some e"
      using e(1) by (auto simp: plan candidate_blocks_def torn_coverage Let_def map_filter_in split: if_splits)
    have "block_rows (torn_reads I N) = block_rows (\<lambda>_. N)" by (simp add: block_rows_def torn_reads_def fun_eq_iff)
    then have "b \<in> set (si_blocks N)" using b(1) by (simp add: block_rows_set)
    moreover have path: "bk_path b = pt_path p"
      using b(2) e(2) known_partD by (fastforce simp: block_entry_def split: option.splits if_splits)
    ultimately have "si_next I \<le> bk_id b" by (rule fresh)
    moreover have "allows (structural_ids (\<lambda>_. I) q) (bk_id b)"
      using b(2) assms(6) by (auto simp: block_entry_def torn_coverage path allows_def split: option.splits if_splits)
    then have "allows (fts_ids (si_database I) (folded (q_database q))) (bk_id b)" using assms(7)
      by (cases "folded (q_database q) = []") (simp_all add: structural_ids_def Let_def)
    then have "bk_id b \<in> A" unfolding A(1) by (simp add: allows_def)
    then have "bk_id b < si_next I" using A(2) rowids by (auto simp: rowids_ok_def)
    ultimately show False by simp
  qed
qed


section \<open>Rewriting a part\<close>

lemma insert_blocks_lids: "b \<in> set (si_blocks (insert_blocks p bs I)) \<Longrightarrow> b \<in> set (si_blocks I) \<or> bk_lid b = identity p \<and> bk_path b = pt_path p"
  by (induction bs rule: rev_induct) (auto simp: insert_blocks_def insert_block_def Let_def)

lemma entry_groups:
  assumes "pt_path p' = pt_path p" "\<And>b. b \<in> set bs \<Longrightarrow> bk_path b = pt_path p \<Longrightarrow> identity_matches p' (bk_lid b) (bk_sha b) = identity_matches p (bk_lid b) (bk_sha b)"
    and "set (full_coverage reads [p']) = set (full_coverage reads [p])"
  shows "map ie_group (List.map_filter (block_entry key reads [p'] q) bs) = map ie_group (List.map_filter (block_entry key reads [p] q) bs)"
  using assms(2)
proof (induction bs)
  case (Cons b bs)
  have known: "known_part [x] path = (if path = pt_path x then Some x else None)" for x path by (simp add: known_part_def)
  have "map_option ie_group (block_entry key reads [p'] q b) = map_option ie_group (block_entry key reads [p] q b)"
    using Cons.prems [of b] assms(1,3) by (simp add: block_entry_def known)
  moreover have "map ie_group (List.map_filter (block_entry key reads [p'] q) bs) = map ie_group (List.map_filter (block_entry key reads [p] q) bs)"
    by (rule Cons.IH) (rule Cons.prems, simp)
  ultimately show ?case by (cases "block_entry key reads [p] q b") (auto simp: List.map_filter_simps)
qed simp

text \<open>
  Property C40. Rewriting a part does not renew its index: the retention sweep replaces the body and \<open>update_part\<close> stores the new
  hash, but the logical identity stays, so \<open>index_parquet\<close> finds the entry current and writes nothing; every query still gets the
  row groups of the old body for the new one.
\<close>

theorem rewritten_part_keeps_index:
  assumes "full_blocks key columns p body = Inr bs" "I = store_full t p bs I0" "pt_lid p \<noteq> []"
    and "part_at S (pt_path p) = Some p" "part_at (PartStore.update_part now (pt_path p) v S) (pt_path p) = Some p'"
  shows "pt_sha p' = pv_sha v \<and> index_parquet key u columns p' body' I I = Inr I
    \<and> map ie_group (ip_entries (candidate_blocks key (\<lambda>_. I) [p'] q start stop)) = map ie_group (ip_entries (candidate_blocks key (\<lambda>_. I) [p] q start stop))
    \<and> pt_path p \<notin> set (ip_unknown (candidate_blocks key (\<lambda>_. I) [p'] q start stop))"
proof -
  obtain rv where p': "p' = rewritten_part now v rv p"
    using assms(4,5) by (auto simp: PartStore.update_part_def Let_def update_row_at rewritten_part_def)
  then have same: "pt_path p' = pt_path p" "pt_lid p' = pt_lid p" "pt_sha p' = pv_sha v" by (simp_all add: rewritten_part_def Let_def)
  have ident: "identity p' = identity p" "identity p \<noteq> []" using same(2) assms(3) by (simp_all add: identity_def)
  have I: "si_parts I = filter (\<lambda>r. ix_path r \<noteq> pt_path p) (si_parts I0) @ [part_entry t p bs]"
    "si_structural I = filter (\<lambda>r. ix_path r \<noteq> pt_path p) (si_structural I0) @ [part_entry t p bs]"
    "si_blocks I = si_blocks (insert_blocks p bs (clear_path (pt_path p) I0))"
    using insert_blocks_fields(1,2) [of p bs "clear_path (pt_path p) I0"]
    by (simp_all add: assms(2) store_full_def insert_blocks_def Let_def clear_path_fields)
  have "bs \<noteq> []" using assms(1) by (auto simp: full_blocks_def Let_def split: if_splits)
  moreover have "find_row ix_path (pt_path p) (si_parts I) = Some (part_entry t p bs)"
  proof -
    have "find_row ix_path (pt_path p) (filter (\<lambda>r. ix_path r \<noteq> pt_path p) (si_parts I0)) = None" by (auto simp: find_row_None)
    then show ?thesis by (simp add: I(1) find_row_append)
  qed
  ultimately have current: "is_current p' I" using ident same(1) by (simp add: is_current_def identity_matches_def part_entry_def)
  have match: "identity_matches p' (bk_lid b) (bk_sha b) = identity_matches p (bk_lid b) (bk_sha b)" if "b \<in> set (si_blocks I)" "bk_path b = pt_path p" for b
    using insert_blocks_lids that ident unfolding I(3) by (fastforce simp: clear_path_fields identity_matches_def)
  have cover: "ix_path ` {r \<in> set rs. entry_current vs [p'] r} = ix_path ` {r \<in> set rs. entry_current vs [p] r}"
    if "\<And>r. r \<in> set rs \<Longrightarrow> ix_path r = pt_path p \<Longrightarrow> r = part_entry t p bs" for rs vs
  proof -
    have "entry_current vs [p'] r = entry_current vs [p] r" if "r \<in> set rs" for r
      using that \<open>\<And>r. r \<in> set rs \<Longrightarrow> ix_path r = pt_path p \<Longrightarrow> r = part_entry t p bs\<close> [of r] same(1) ident
      by (auto simp: entry_current_def known_part_def identity_matches_def)
    then show ?thesis by blast
  qed
  have full: "set (full_coverage (\<lambda>_. I) [p']) = set (full_coverage (\<lambda>_. I) [p])"
    unfolding full_coverage_def coverage_set by (rule cover) (auto simp: I(1))
  moreover have "set (structural_coverage (\<lambda>_. I) [p']) = set (structural_coverage (\<lambda>_. I) [p])"
    unfolding structural_coverage_def coverage_set by (rule cover) (auto simp: I(2))
  ultimately have covered: "set (full_coverage (\<lambda>_. I) [p'] @ structural_coverage (\<lambda>_. I) [p']) = set (full_coverage (\<lambda>_. I) [p] @ structural_coverage (\<lambda>_. I) [p])"
    by simp
  then have sorted: "sort (remdups (full_coverage (\<lambda>_. I) [p'] @ structural_coverage (\<lambda>_. I) [p'])) = sort (remdups (full_coverage (\<lambda>_. I) [p] @ structural_coverage (\<lambda>_. I) [p]))"
    by (metis sorted_list_of_set_sort_remdups)
  have rows: "block_rows (\<lambda>_. I) (full_coverage (\<lambda>_. I) [p'] @ structural_coverage (\<lambda>_. I) [p']) start stop
      = block_rows (\<lambda>_. I) (full_coverage (\<lambda>_. I) [p] @ structural_coverage (\<lambda>_. I) [p]) start stop"
    unfolding block_rows_def sorted ..
  have "map ie_group (List.map_filter (block_entry key (\<lambda>_. I) [p'] q) xs) = map ie_group (List.map_filter (block_entry key (\<lambda>_. I) [p] q) xs)"
    if "set xs \<subseteq> set (si_blocks I)" for xs
    by (rule entry_groups [OF same(1) _ full]) (use that match in blast)
  then have "map ie_group (ip_entries (candidate_blocks key (\<lambda>_. I) [p'] q start stop)) = map ie_group (ip_entries (candidate_blocks key (\<lambda>_. I) [p] q start stop))"
    using covered rows by (auto simp: candidate_blocks_def Let_def block_rows_set)
  moreover have "pt_path p \<in> set (full_coverage (\<lambda>_. I) [p])"
    unfolding full_coverage_def coverage_set I(1) using ident
    by (auto simp: entry_current_def known_part_def identity_matches_def intro!: image_eqI [where x = "part_entry t p bs"])
  then have "pt_path p \<notin> set (ip_unknown (candidate_blocks key (\<lambda>_. I) [p'] q start stop))"
    using full by (simp add: candidate_blocks_def Let_def)
  ultimately show ?thesis using same(3) current by (simp add: index_parquet_def)
qed


section \<open>Concrete indexes\<close>

definition plain_key :: "string \<Rightarrow> string" where "plain_key x = x"

definition shop_row :: "string \<Rightarrow> int \<Rightarrow> qrow" where
  "shop_row i t = (sample_row i t)\<lparr>qr_source_file := [], qr_operation := ''I'', qr_database := ''Abc'', qr_sql := ''upd''\<rparr>"

definition shop_group :: "qrow list \<Rightarrow> row_group" where
  "shop_group rs = \<lparr>rg_stats = \<lparr>gs_time = None, gs_database = None, gs_table = None, gs_operation = None\<rparr>, rg_rows = rs\<rparr>"

definition shop_body :: "string \<Rightarrow> row_group list" where
  "shop_body sha = (if sha = ''t'' then [shop_group [shop_row ''b'' 7, shop_row ''c'' 9]]
     else [shop_group [shop_row ''a'' 5], shop_group [shop_row ''b'' 7, shop_row ''c'' 9]])"

definition shop_query :: event_query where
  "shop_query = (op_query ''I'')\<lparr>q_database := '' ABC'', q_keyword := ''UPD'', q_start := Some 6\<rparr>"

lemma shop_structural: "structural_block 0 [shop_row ''a'' 5] = \<lparr>bi_group = 0, bi_min = 5, bi_max = 5, bi_rows = 1, bi_databases = [''abc''],
   bi_tables = [''t''], bi_operations = [''I''], bi_keyword = [], bi_tokens = []\<rparr>"
 "structural_block 1 [shop_row ''b'' 7, shop_row ''c'' 9] = \<lparr>bi_group = 1, bi_min = 7, bi_max = 9, bi_rows = 2, bi_databases = [''abc''],
   bi_tables = [''t''], bi_operations = [''I''], bi_keyword = [], bi_tokens = []\<rparr>" by code_simp+

lemma shop_values: "keyword_values [shop_row ''a'' 5] = [''upd'']" "keyword_values [shop_row ''b'' 7, shop_row ''c'' 9] = [''upd'', ''upd'']"
  by (simp_all add: keyword_values_def KEYWORD_COLUMNS_def shop_row_def sample_row_def)

lemma shop_tokens: "keyword_tokens [''upd''] = []" "keyword_tokens [''upd'', ''upd''] = []" by code_simp+

definition block_of :: "nat \<Rightarrow> nat \<Rightarrow> int \<Rightarrow> int \<Rightarrow> int \<Rightarrow> block" where
  "block_of i g lo hi n = \<lparr>bk_id = i, bk_path = ''p'', bk_sha = ''s'', bk_lid = ''l'', bk_group = g, bk_min = lo, bk_max = hi, bk_rows = n,
     bk_databases = [''abc''], bk_tables = [''t''], bk_operations = [''I'']\<rparr>"

lemma shop_json: "json_values [''abc''] = [''abc'']" "json_values [''t''] = [''t'']" by code_simp+

lemma shop_full_blocks: "full_blocks plain_key True old_part (shop_body ''l'') = Inr [full_block plain_key 0 [shop_row ''a'' 5], full_block plain_key 1 [shop_row ''b'' 7, shop_row ''c'' 9]]"
  by (simp add: full_blocks_def shop_body_def shop_group_def full_block_def shop_structural old_part_def shop_structural(2) [simplified])

lemma shop_structural_blocks: "structural_blocks True old_part (shop_body ''l'') = Inr [structural_block 0 [shop_row ''a'' 5], structural_block 1 [shop_row ''b'' 7, shop_row ''c'' 9]]"
  by (simp add: structural_blocks_def shop_body_def shop_group_def shop_structural old_part_def shop_structural(2) [simplified])


definition empty_index :: search_index where
  "empty_index = \<lparr>si_parts = [], si_structural = [], si_blocks = [], si_next = 1, si_failures = [], si_keyword = [], si_token = [], si_database = [], si_table = []\<rparr>"

definition shop_entry :: "string \<Rightarrow> indexed_part" where
  "shop_entry now = \<lparr>ix_path = ''p'', ix_sha = ''s'', ix_lid = ''l'', ix_groups = 2, ix_rows = 3, ix_version = 3, ix_at = now\<rparr>"

definition structural_index :: search_index where
  "structural_index = \<lparr>si_parts = [], si_structural = [shop_entry ''1''], si_blocks = [block_of 1 0 5 5 1, block_of 2 1 7 9 2], si_next = 3,
     si_failures = [], si_keyword = [(1, []), (2, [])], si_token = [(1, []), (2, [])], si_database = [(1, ''abc''), (2, ''abc'')], si_table = [(1, ''t''), (2, ''t'')]\<rparr>"

definition indexed_index :: search_index where
  "indexed_index = \<lparr>si_parts = [shop_entry ''2''], si_structural = [shop_entry ''2''], si_blocks = [block_of 3 0 5 5 1, block_of 4 1 7 9 2], si_next = 5,
     si_failures = [], si_keyword = [(3, ''upd''), (4, joined [''upd'', ''upd''])], si_token = [(3, []), (4, [])],
     si_database = [(3, ''abc''), (4, ''abc'')], si_table = [(3, ''t''), (4, ''t'')]\<rparr>"

lemma old_identity: "identity old_part = ''l''" "pt_path old_part = ''p''" "pt_sha old_part = ''s''" by (simp_all add: identity_def old_part_def)

lemma shop_stored: "store_structural ''1'' old_part [structural_block 0 [shop_row ''a'' 5], structural_block 1 [shop_row ''b'' 7, shop_row ''c'' 9]] empty_index = structural_index"
  by (simp add: store_structural_def empty_index_def clear_path_def delete_fts_rows_def insert_block_def clear_failure_def part_entry_def old_identity
    shop_structural shop_structural(2) [simplified] shop_json structural_index_def block_of_def shop_entry_def INDEX_SCHEMA_VERSION_def Let_def)

lemma shop_stored_full: "store_full ''2'' old_part [full_block plain_key 0 [shop_row ''a'' 5], full_block plain_key 1 [shop_row ''b'' 7, shop_row ''c'' 9]] structural_index = indexed_index"
  by (simp add: store_full_def structural_index_def clear_path_def delete_fts_rows_def insert_block_def clear_failure_def part_entry_def old_identity full_block_def shop_values shop_tokens
    shop_structural shop_structural(2) [simplified] shop_json indexed_index_def block_of_def shop_entry_def INDEX_SCHEMA_VERSION_def Let_def)

lemma shop_steps:
  "index_structural_parquet ''1'' True old_part (shop_body (identity old_part)) empty_index empty_index = Inr structural_index"
  "index_parquet plain_key ''2'' True old_part (shop_body (identity old_part)) structural_index structural_index = Inr indexed_index"
proof -
  show "index_structural_parquet ''1'' True old_part (shop_body (identity old_part)) empty_index empty_index = Inr structural_index"
    using shop_stored shop_structural_blocks by (simp add: index_structural_parquet_def is_structural_current_def old_identity empty_index_def)
  show "index_parquet plain_key ''2'' True old_part (shop_body (identity old_part)) structural_index structural_index = Inr indexed_index"
    using shop_stored_full shop_full_blocks by (simp add: index_parquet_def is_current_def old_identity structural_index_def)
qed

lemma shop_asked: "folded (q_database shop_query) = ''abc''" "folded (q_table shop_query) = []" "index_terms shop_query = [''upd'']"
  "stripped_operations (q_operations shop_query) = [''I'']" "\<not> wants_any shop_query" "clean_operations shop_query" "windowed 10 1 shop_query 6 9"
  by code_simp+

lemma shop_plan: "map ie_group (ip_entries (candidate_blocks plain_key (\<lambda>_. indexed_index) [old_part] shop_query 6 9)) = [1]"
  "ip_unknown (candidate_blocks plain_key (\<lambda>_. indexed_index) [old_part] shop_query 6 9) = []" by code_simp+

lemma shop_answer: "part_answer shop_body (\<lambda>_ _. Hit) 10 1 shop_query old_part = [shop_row ''b'' 7, shop_row ''c'' 9]" by code_simp

lemma empty_index_ok: "index_ok key content empty_index"
  by (simp add: index_ok_def empty_index_def rowids_ok_def)

lemma shop_reachable: "(index_step plain_key shop_body)\<^sup>*\<^sup>* empty_index structural_index" "(index_step plain_key shop_body)\<^sup>*\<^sup>* empty_index indexed_index"
proof -
  have a: "index_step plain_key shop_body empty_index structural_index" by (rule index_step.structural) (rule shop_steps(1))
  have b: "index_step plain_key shop_body structural_index indexed_index" by (rule index_step.full) (rule shop_steps(2))
  show "(index_step plain_key shop_body)\<^sup>*\<^sup>* empty_index structural_index" using a by blast
  show "(index_step plain_key shop_body)\<^sup>*\<^sup>* empty_index indexed_index" using a b by (blast intro: rtranclp.rtrancl_into_rtrancl)
qed

lemma shop_contents: "contents_current shop_body shop_body [old_part]"
  by (simp add: contents_current_def old_identity shop_body_def)

lemma search_plan_sound_witness:
  "\<exists>e \<in> set (ip_entries (candidate_blocks plain_key (\<lambda>_. indexed_index) [old_part] shop_query 6 9)).
     shop_row ''b'' 7 \<in> set (rg_rows (shop_body ''s'' ! ie_group e))"
proof -
  have "plan_sound shop_body (part_answer shop_body (\<lambda>_ _. Hit) 10 1 shop_query) [old_part] (candidate_blocks plain_key (\<lambda>_. indexed_index) [old_part] shop_query 6 9)"
    by (rule search_plan_sound [OF shop_reachable(2) empty_index_ok shop_contents shop_asked(7,6)])
  then show ?thesis using shop_plan(2) shop_answer old_identity(3) unfolding plan_sound_def by force
qed

lemma torn_conditions: "''p'' \<in> set (structural_coverage (\<lambda>_. structural_index) [old_part])" "''p'' \<notin> set (full_coverage (\<lambda>_. structural_index) [old_part])"
  "\<not> is_current old_part structural_index"
  by code_simp+

lemma torn_read_skips_part_witness:
  "part_answer shop_body (\<lambda>_ _. Hit) 10 1 shop_query old_part \<noteq> [] \<and>
   old_part \<notin> ie_part ` set (ip_entries (candidate_blocks plain_key (torn_reads structural_index indexed_index) [old_part] shop_query 6 9))"
  using torn_read_skips_part [OF shop_reachable(1) empty_index_ok _ _ _ _ _ shop_steps(2) torn_conditions(3) refl, of "[old_part]" shop_query 6 9]
    torn_conditions(1,2) shop_answer by (auto simp: old_identity shop_asked(1))

definition kept_part :: part where
  "kept_part = the (part_at (PartStore.update_part 0 ''p'' \<lparr>pv_rows = 2, pv_min = 7, pv_max = 9, pv_size = 60, pv_sha = ''t''\<rparr> sample_tables) ''p'')"

lemma kept_part_at: "part_at sample_tables ''p'' = Some old_part"
  "part_at (PartStore.update_part 0 ''p'' \<lparr>pv_rows = 2, pv_min = 7, pv_max = 9, pv_size = 60, pv_sha = ''t''\<rparr> sample_tables) ''p'' = Some kept_part"
  "pt_lid old_part \<noteq> []" "pt_sha kept_part = ''t''"
  by code_simp+

lemma kept_answer: "part_answer shop_body (\<lambda>_ _. Hit) 10 1 shop_query kept_part = [shop_row ''b'' 7, shop_row ''c'' 9]"
proof -
  have "part_rows shop_body ''t'' = [shop_row ''b'' 7, shop_row ''c'' 9]" by code_simp
  moreover have "answer_rows (\<lambda>_ _. Hit) 10 1 shop_query [shop_row ''b'' 7, shop_row ''c'' 9] = [shop_row ''b'' 7, shop_row ''c'' 9]" by code_simp
  ultimately show ?thesis by (simp add: part_answer_def kept_part_at(4))
qed

text \<open>The rewritten part has one row group; the plan names the second, whose read is refused.\<close>

lemma rewritten_part_keeps_index_witness:
  "part_answer shop_body (\<lambda>_ _. Hit) 10 1 shop_query kept_part = [shop_row ''b'' 7, shop_row ''c'' 9]
   \<and> map ie_group (ip_entries (candidate_blocks plain_key (\<lambda>_. indexed_index) [kept_part] shop_query 6 9)) = [1]
   \<and> read_part (\<lambda>p. Inr (shop_body (pt_sha p))) (\<lambda>_. False) shop_query kept_part (Some [1]) = Inl RowGroupInvalid"
proof -
  have "read_part (\<lambda>p. Inr (shop_body (pt_sha p))) (\<lambda>_. False) shop_query kept_part (Some [1]) = Inl RowGroupInvalid"
    by (simp add: read_part_def kept_part_at(4) shop_body_def)
  moreover have "map ie_group (ip_entries (candidate_blocks plain_key (\<lambda>_. indexed_index) [kept_part] shop_query 6 9)) = [1]"
    using rewritten_part_keeps_index [OF shop_full_blocks shop_stored_full [symmetric] kept_part_at(3), of sample_tables 0 _ kept_part _ _ shop_query 6 9]
      kept_part_at(1,2) old_identity(2) shop_plan(1) by auto
  ultimately show ?thesis using kept_answer by simp
qed


section \<open>A query over an indexed part\<close>

definition shop_catalogs :: "string \<Rightarrow> (string \<times> part_catalog) option" where
  "shop_catalogs path = Some (''s'', catalog_from_relation (part_rows shop_body ''s''))"

definition page_query :: event_query where "page_query = shop_query\<lparr>q_limit := 1\<rparr>"

lemma shop_bodies: "bodies_ok shop_body (\<lambda>_. ''n'') [old_part]"
  by (simp add: bodies_ok_def ids_agree_def part_rows_def part_rows_ok_def shop_body_def shop_group_def shop_row_def sample_row_def group_true_def
    bounds_values_def old_part_def) code_simp

lemma shop_reads: "fetch_ok shop_body (\<lambda>p. Inr (shop_body (pt_sha p)))" "catalogs_true shop_body shop_catalogs"
  using catalog_from_relation_true by (auto simp: fetch_ok_def catalogs_true_def shop_catalogs_def)

lemma page_asked: "p \<in> set [old_part] \<Longrightarrow> field_matches True (q_instance page_query) [(\<lambda>_. ''n'') (pt_file p)]"
  "windowed 10 1 (internal_query 100 page_query 6 9) 6 9" "clean_operations (internal_query 100 page_query 6 9)"
  "page_offset page_query = 0" "page_limit 100 page_query = 1"
  "part_answer shop_body (\<lambda>_ _. Hit) 10 1 (internal_query 100 page_query 6 9) old_part = [shop_row ''b'' 7, shop_row ''c'' 9]"
  by code_simp+

text \<open>The index lists the second row group only; the catalog is not asked, since the index knows the part.\<close>

lemma shop_scan:
  "tiered_scan (\<lambda>p. Inr (shop_body (pt_sha p))) (\<lambda>_. False) (\<lambda>_ _. Hit) 10 1 (\<lambda>k. k) 4 100 page_query 6 9
      (plan_work (\<lambda>p. CHR ''h'' # g p) shop_catalogs parse (\<lambda>_. False) page_query [old_part]
        (candidate_blocks plain_key (\<lambda>_. indexed_index) [old_part] page_query 6 9) (snd (rebuild_storage_file_stats sample_tables)))
     = Inr \<lparr>qp_rows = [shop_row ''c'' 9], qp_more = True, qp_unavailable = 0, qp_complete = Some [shop_row ''c'' 9, shop_row ''b'' 7],
         qp_negative = [], qp_positive = [(\<lparr>we_part = old_part, we_groups = Some [1], we_max = 9, we_fp = CHR ''h'' # g old_part\<rparr>,
           [shop_row ''c'' 9, shop_row ''b'' 7])]\<rparr>"
  by code_simp


definition rebuilt_system :: part_system where
  "rebuilt_system = with_tables sample_system (snd (rebuild_storage_file_stats (sy_tables sample_system)))"

lemma rebuilt_steps: "(part_step lid answer)\<^sup>*\<^sup>* sample_system rebuilt_system"
  "sy_tables rebuilt_system = snd (rebuild_storage_file_stats sample_tables)"
proof -
  have "part_step lid answer sample_system rebuilt_system" unfolding rebuilt_system_def by (rule part_step.rebuild)
  then show "(part_step lid answer)\<^sup>*\<^sup>* sample_system rebuilt_system" by blast
  show "sy_tables rebuilt_system = snd (rebuild_storage_file_stats sample_tables)"
    by (simp add: rebuilt_system_def sample_system_def)
qed

lemma searched_page_exact_witness:
  "qp_rows (projr (tiered_scan (\<lambda>p. Inr (shop_body (pt_sha p))) (\<lambda>_. False) (\<lambda>_ _. Hit) 10 1 (\<lambda>k. k) 4 100 page_query 6 9
      (plan_work (part_fingerprint sample_hash page_query 6 9) shop_catalogs sample_parse (\<lambda>_. False) page_query [old_part]
        (candidate_blocks plain_key (\<lambda>_. indexed_index) [old_part] page_query 6 9) (sy_tables rebuilt_system))))
    = page_of 0 1 (newest_first (unique_rows [shop_row ''b'' 7, shop_row ''c'' 9]))"
proof -
  obtain page where page: "tiered_scan (\<lambda>p. Inr (shop_body (pt_sha p))) (\<lambda>_. False) (\<lambda>_ _. Hit) 10 1 (\<lambda>k. k) 4 100 page_query 6 9
      (plan_work (part_fingerprint sample_hash page_query 6 9) shop_catalogs sample_parse (\<lambda>_. False) page_query [old_part]
        (candidate_blocks plain_key (\<lambda>_. indexed_index) [old_part] page_query 6 9) (sy_tables rebuilt_system)) = Inr page"
    unfolding sample_fingerprint by (simp add: rebuilt_steps(2) shop_scan)
  have parts: "filter (body_available (\<lambda>_. False)) [old_part] = [old_part]" by (simp add: body_available_def old_part_def)
  from searched_page_exact [OF rebuilt_steps(1) sample_legacy shop_reachable(2) empty_index_ok shop_contents shop_bodies page_asked(1) shop_reads
      page_asked(2,3) _ _ page refl]
  have "qp_rows page = page_of 0 1 (newest_first (unique_rows [shop_row ''b'' 7, shop_row ''c'' 9]))"
    unfolding parts by (simp add: page_asked(4-6))
  then show ?thesis using page by simp
qed

lemma searched_probes_true_witness:
  "answer_meaning sample_hash sample_parse shop_body (\<lambda>_ _. Hit) ''s'' (part_fingerprint sample_hash page_query 6 9 old_part)
    (Some (sample_render [shop_row ''c'' 9, shop_row ''b'' 7]))"
proof -
  obtain w where w: "w = \<lparr>we_part = old_part, we_groups = Some [1], we_max = 9, we_fp = part_fingerprint sample_hash page_query 6 9 old_part\<rparr>" by simp
  obtain page where page: "tiered_scan (\<lambda>p. Inr (shop_body (pt_sha p))) (\<lambda>_. False) (\<lambda>_ _. Hit) 10 1 (\<lambda>k. k) 4 100 page_query 6 9
      (plan_work (part_fingerprint sample_hash page_query 6 9) shop_catalogs sample_parse (\<lambda>_. False) page_query [old_part]
        (candidate_blocks plain_key (\<lambda>_. indexed_index) [old_part] page_query 6 9) (sy_tables rebuilt_system)) = Inr page"
    "(w, [shop_row ''c'' 9, shop_row ''b'' 7]) \<in> set (qp_positive page)"
    unfolding w sample_fingerprint by (simp add: rebuilt_steps(2) shop_scan fun_cong [OF sample_fingerprint])
  from searched_probes_true [OF rebuilt_steps(1) sample_legacy shop_reachable(2) empty_index_ok shop_contents shop_bodies page_asked(1) shop_reads
      page_asked(2,3) _ sample_codes page(1)] page(2)
  have "answer_meaning sample_hash sample_parse shop_body (\<lambda>_ _. Hit) (pt_sha (we_part w)) (we_fp w) (Some (sample_render [shop_row ''c'' 9, shop_row ''b'' 7]))"
    by fastforce
  then show ?thesis by (simp add: w old_identity)
qed

end
