(* ===== verification/QueryTasks.thy ===== *)
theory QueryTasks
  imports Prelude "HOL-Library.AList"
begin

text \<open>
  Query tasks: \<open>app/query_tasks.py\<close> and the table \<open>query_tasks\<close> of \<open>app/metadata.py\<close>. Several submitters and
  cancellers act on a manager whose pool of threads runs the tasks; each statement on the table, each section under the lock
  and each file operation is one step. The query itself, the result encoding (\<open>bytes_of\<close>) and clocks are parameters; identifiers
  (\<open>uuid4\<close>) do not repeat (\<open>tm_used\<close>). A statement on the table that fails is not modelled.
\<close>

section \<open>The table\<close>

datatype task_status = Queued | Running | Cancelling | Succeeded | Failed | Cancelled

record task_row =
  qt_id :: string
  qt_status :: task_status
  qt_query :: string
  qt_path :: string
  qt_bytes :: int
  qt_created :: string
  qt_started :: string
  qt_finished :: string
  qt_file :: string
  qt_total :: int
  qt_completed :: int
  qt_candidate :: int
  qt_indexed :: int
  qt_unknown :: int
  qt_estimated :: int
  qt_scanned :: int
  qt_cancel :: bool
  qt_error :: string

definition terminal :: "task_status \<Rightarrow> bool" where
  "terminal s \<longleftrightarrow> s \<in> {Succeeded, Failed, Cancelled}"

abbreviation task_at :: "task_row list \<Rightarrow> string \<Rightarrow> task_row option" where
  "task_at T t \<equiv> find_row qt_id t T"

definition create_query_task :: "string \<Rightarrow> string \<Rightarrow> string \<Rightarrow> task_row list \<Rightarrow> task_row list" where
  "create_query_task now t query T = T @ [\<lparr>qt_id = t, qt_status = Queued, qt_query = query, qt_path = [], qt_bytes = 0, qt_created = now,
     qt_started = [], qt_finished = [], qt_file = [], qt_total = 0, qt_completed = 0, qt_candidate = 0, qt_indexed = 0, qt_unknown = 0,
     qt_estimated = 0, qt_scanned = 0, qt_cancel = False, qt_error = []\<rparr>]"

definition startable :: "string \<Rightarrow> task_row \<Rightarrow> bool" where
  "startable t r \<longleftrightarrow> qt_id r = t \<and> qt_status r = Queued \<and> \<not> qt_cancel r"

definition start_query_task :: "string \<Rightarrow> string \<Rightarrow> task_row list \<Rightarrow> bool \<times> task_row list" where
  "start_query_task now t T = (0 < count_where (startable t) T,
     update_where (startable t) (\<lambda>r. r\<lparr>qt_status := Running, qt_started := now\<rparr>) T)"

text \<open>\<open>update_query_task\<close> with the columns its callers set.\<close>

definition update_query_task :: "string \<Rightarrow> (task_row \<Rightarrow> task_row) \<Rightarrow> task_row list \<Rightarrow> task_row list" where
  "update_query_task t change T = update_where (\<lambda>r. qt_id r = t) change T"

definition finish_query_task :: "string \<Rightarrow> string \<Rightarrow> task_status \<Rightarrow> string \<Rightarrow> string \<Rightarrow> int \<Rightarrow> task_row list \<Rightarrow> task_row list" where
  "finish_query_task now t status code path bytes T = update_where (\<lambda>r. qt_id r = t)
     (\<lambda>r. r\<lparr>qt_status := status, qt_finished := now, qt_file := [], qt_error := code, qt_path := path, qt_bytes := max bytes 0\<rparr>) T"

definition cancelled_row :: "string \<Rightarrow> string \<Rightarrow> task_row \<Rightarrow> task_row" where
  "cancelled_row now code r = r\<lparr>qt_status := Cancelled, qt_cancel := True, qt_finished := now, qt_file := [], qt_error := code\<rparr>"

definition request_query_task_cancel :: "string \<Rightarrow> string \<Rightarrow> task_row list \<Rightarrow> (task_row \<times> bool) option \<times> task_row list" where
  "request_query_task_cancel now t T = (case task_at T t of None \<Rightarrow> (None, T)
     | Some row \<Rightarrow> (let status = qt_status row;
           T = (if status = Queued then update_where (\<lambda>r. qt_id r = t \<and> qt_status r = Queued) (cancelled_row now ''QUERY_CANCELLED'') T
                else if status \<in> {Running, Cancelling} then update_where (\<lambda>r. qt_id r = t \<and> qt_status r \<in> {Running, Cancelling})
                  (\<lambda>r. r\<lparr>qt_status := Cancelling, qt_cancel := True\<rparr>) T
                else T)
         in (map_option (\<lambda>r. (r, \<not> terminal status)) (task_at T t), T)))"

definition reconcile_interrupted_query_tasks :: "string \<Rightarrow> task_row list \<Rightarrow> int \<times> task_row list" where
  "reconcile_interrupted_query_tasks now T = (count_where (\<lambda>r. \<not> terminal (qt_status r)) T,
     update_where (\<lambda>r. \<not> terminal (qt_status r)) (cancelled_row now ''SERVICE_RESTARTED'') T)"

definition newest_tasks :: "task_row list \<Rightarrow> task_row list" where
  "newest_tasks T = rev (sort_key qt_created T)"

definition query_tasks :: "int \<Rightarrow> task_row list \<Rightarrow> task_row list" where
  "query_tasks limit T = take (nat (min (max limit 1) 100)) (newest_tasks T)"

definition prune_query_tasks :: "int \<Rightarrow> task_row list \<Rightarrow> string list \<times> task_row list" where
  "prune_query_tasks keep T = (let rows = drop (nat (min (max keep 10) 1000)) (newest_tasks (filter (\<lambda>r. terminal (qt_status r)) T))
     in (map qt_path rows, filter (\<lambda>r. qt_id r \<notin> qt_id ` set rows) T))"

section \<open>Controls\<close>

record control =
  ct_cancelled :: bool
  ct_deadline :: "int option"
  ct_completed :: int
  ct_scanned :: int
  ct_last_flush :: int

datatype stop = QueryCancelled | QueryDeadlineExceeded

definition check_cancelled :: "int \<Rightarrow> control \<Rightarrow> stop option" where
  "check_cancelled now c = (if ct_cancelled c then Some QueryCancelled
     else (case ct_deadline c of None \<Rightarrow> None | Some d \<Rightarrow> if d \<le> now then Some QueryDeadlineExceeded else None))"

text \<open>\<open>QueryBatchControl\<close>: the control of one batch stops with its parent (\<open>None\<close>: no parent), or after its own 180 seconds.\<close>

datatype batch_stop = ParentStop stop | BatchTimeout

definition BATCH_US :: int where "BATCH_US = 180 * 1000000"

definition batch_check :: "int \<Rightarrow> int \<Rightarrow> control option \<Rightarrow> batch_stop option" where
  "batch_check now created parent = (case Option.bind parent (check_cancelled now) of Some s \<Rightarrow> Some (ParentStop s)
     | None \<Rightarrow> if created + BATCH_US \<le> now then Some BatchTimeout else None)"

definition set_plan :: "int \<Rightarrow> int \<Rightarrow> int \<Rightarrow> int \<Rightarrow> int \<Rightarrow> task_row \<Rightarrow> task_row" where
  "set_plan parts candidate indexed unknown estimated r = r\<lparr>qt_total := max parts 0, qt_candidate := max candidate 0, qt_indexed := max indexed 0,
     qt_unknown := max unknown 0, qt_estimated := max estimated 0\<rparr>"

definition begin_batch :: "string \<Rightarrow> task_row \<Rightarrow> task_row" where
  "begin_batch label r = r\<lparr>qt_file := label\<rparr>"

definition FLUSH_US :: int where "FLUSH_US = 250000"

definition advance_control :: "int \<Rightarrow> int \<Rightarrow> bool \<Rightarrow> control \<Rightarrow> bool \<times> control" where
  "advance_control now bytes force c =
     (let c = c\<lparr>ct_completed := ct_completed c + 1, ct_scanned := ct_scanned c + max bytes 0\<rparr>
      in if \<not> force \<and> ct_last_flush c \<noteq> 0 \<and> now - ct_last_flush c < FLUSH_US then (False, c) else (True, c\<lparr>ct_last_flush := now\<rparr>))"

definition flushed :: "control \<Rightarrow> task_row \<Rightarrow> task_row" where
  "flushed c r = r\<lparr>qt_completed := ct_completed c, qt_scanned := ct_scanned c\<rparr>"

definition advanced :: "control \<Rightarrow> string \<Rightarrow> task_row \<Rightarrow> task_row" where
  "advanced c file r = (flushed c r)\<lparr>qt_file := file\<rparr>"

definition bounded_workers :: "int \<Rightarrow> nat" where
  "bounded_workers value = nat (min (max value 1) 4)"

section \<open>The manager\<close>

datatype future = Pending | Started | Withdrawn

datatype stage = Starting | Admitted | Executing | Checking string | Flushing string | Writing string | Publishing string int
  | Committing string int | Stopped task_status string | Ending task_status string | Pruning | Unlinking "string list" | Popping

datatype cancel_phase = SetFlag | WithdrawFuture

record manager =
  tm_rows :: "task_row list"
  tm_files :: "string \<Rightarrow> string option"
  tm_controls :: "(string \<times> control) list"
  tm_futures :: "(string \<times> future) list"
  tm_queue :: "string list"
  tm_stage :: "(string \<times> stage) list"
  tm_cancels :: "(string \<times> cancel_phase) set"
  tm_closing :: bool
  tm_todo :: "string list option"
  tm_used :: "string set"

definition result_name :: "string \<Rightarrow> string" where
  "result_name t = t @ ''.json.gz''"

definition remove_results :: "string list \<Rightarrow> (string \<Rightarrow> string option) \<Rightarrow> string \<Rightarrow> string option" where
  "remove_results names files = foldl (\<lambda>fs n. if n = [] then fs else fs(n := None)) files names"

text \<open>\<open>get\<close> with \<open>_read_result\<close>: a result is read only through a path that was published.\<close>

definition get_task :: "manager \<Rightarrow> string \<Rightarrow> (task_row \<times> string option) option" where
  "get_task M t = map_option (\<lambda>r. (r, if qt_path r = [] then None else tm_files M (qt_path r))) (task_at (tm_rows M) t)"

definition list_tasks :: "int \<Rightarrow> manager \<Rightarrow> task_row list" where
  "list_tasks limit M = query_tasks limit (tm_rows M)"

datatype refusal = ManagerStopping | QueryBusy

definition submit_task :: "nat \<Rightarrow> string \<Rightarrow> string \<Rightarrow> string \<Rightarrow> bool \<Rightarrow> int option \<Rightarrow> manager \<Rightarrow> refusal + manager" where
  "submit_task workers now t query indexed_only deadline M =
     (if tm_closing M then Inl ManagerStopping
      else if indexed_only \<and> workers \<le> length (tm_controls M) then Inl QueryBusy
      else Inr (M\<lparr>tm_rows := create_query_task now t query (tm_rows M),
        tm_controls := tm_controls M @ [(t, \<lparr>ct_cancelled = False, ct_deadline = (if indexed_only then deadline else None), ct_completed = 0,
          ct_scanned = 0, ct_last_flush = 0\<rparr>)],
        tm_futures := (t, Pending) # tm_futures M, tm_queue := tm_queue M @ [t], tm_used := insert t (tm_used M)\<rparr>))"


section \<open>The worker of a task\<close>

definition move_to :: "string \<Rightarrow> stage \<Rightarrow> manager \<Rightarrow> manager" where
  "move_to t g M = M\<lparr>tm_stage := AList.update t g (tm_stage M)\<rparr>"

definition halted :: "stop \<Rightarrow> stage" where
  "halted s = (case s of QueryCancelled \<Rightarrow> Stopped Cancelled ''QUERY_CANCELLED'' | QueryDeadlineExceeded \<Rightarrow> Stopped Failed ''QUERY_DEADLINE_EXCEEDED'')"

definition control_of :: "manager \<Rightarrow> string \<Rightarrow> control" where
  "control_of M t = the (map_of (tm_controls M) t)"

definition checked :: "int \<Rightarrow> string \<Rightarrow> stage \<Rightarrow> manager \<Rightarrow> manager" where
  "checked now t g M = move_to t (case check_cancelled now (control_of M t) of None \<Rightarrow> g | Some s \<Rightarrow> halted s) M"

definition flush_row :: "string \<Rightarrow> manager \<Rightarrow> manager" where
  "flush_row t M = M\<lparr>tm_rows := update_query_task t (flushed (control_of M t)) (tm_rows M)\<rparr>"

datatype query_outcome = Returned string | Raised string | SawCancel

text \<open>
  One step of \<open>_run\<close>. \<open>now\<close> is the monotonic clock and \<open>utc\<close> the time text; \<open>out\<close> is what the query does, \<open>written\<close> whether
  the result file can be written.
\<close>

fun work :: "(string \<Rightarrow> int) \<Rightarrow> int \<Rightarrow> string \<Rightarrow> query_outcome \<Rightarrow> bool \<Rightarrow> string \<Rightarrow> stage \<Rightarrow> manager \<Rightarrow> manager" where
  "work bytes_of now utc out written t Starting M = (let (ok, T) = start_query_task utc t (tm_rows M)
     in move_to t (if ok then Admitted else Pruning) (M\<lparr>tm_rows := T\<rparr>))"
| "work bytes_of now utc out written t Admitted M = checked now t Executing M"
| "work bytes_of now utc out written t Executing M = (case out of Returned p \<Rightarrow> move_to t (Checking p) M
     | Raised code \<Rightarrow> move_to t (Stopped Failed code) M
     | SawCancel \<Rightarrow> (case check_cancelled now (control_of M t) of None \<Rightarrow> M | Some s \<Rightarrow> move_to t (halted s) M))"
| "work bytes_of now utc out written t (Checking p) M = checked now t (Flushing p) M"
| "work bytes_of now utc out written t (Flushing p) M = move_to t (Writing p) (flush_row t M)"
| "work bytes_of now utc out written t (Writing p) M = (if written
     then move_to t (Publishing (result_name t) (bytes_of p)) (M\<lparr>tm_files := (tm_files M)(result_name t \<mapsto> p)\<rparr>)
     else move_to t (Stopped Failed ''QUERY_FAILED'') M)"
| "work bytes_of now utc out written t (Publishing n b) M = (case check_cancelled now (control_of M t) of None \<Rightarrow> move_to t (Committing n b) M
     | Some s \<Rightarrow> move_to t (halted s) (M\<lparr>tm_files := (tm_files M)(n := None)\<rparr>))"
| "work bytes_of now utc out written t (Committing n b) M = move_to t Pruning (M\<lparr>tm_rows := finish_query_task utc t Succeeded [] n b (tm_rows M)\<rparr>)"
| "work bytes_of now utc out written t (Stopped s code) M = move_to t (Ending s code) (flush_row t M)"
| "work bytes_of now utc out written t (Ending s code) M = move_to t Pruning (M\<lparr>tm_rows := finish_query_task utc t s code [] 0 (tm_rows M)\<rparr>)"
| "work bytes_of now utc out written t Pruning M = (let (names, T) = prune_query_tasks 100 (tm_rows M) in move_to t (Unlinking names) (M\<lparr>tm_rows := T\<rparr>))"
| "work bytes_of now utc out written t (Unlinking names) M = move_to t Popping (M\<lparr>tm_files := remove_results names (tm_files M)\<rparr>)"
| "work bytes_of now utc out written t Popping M = M\<lparr>tm_controls := AList.delete t (tm_controls M), tm_futures := AList.delete t (tm_futures M),
     tm_stage := AList.delete t (tm_stage M)\<rparr>"

section \<open>Everything that can happen\<close>

definition take_task :: "string \<Rightarrow> string list \<Rightarrow> manager \<Rightarrow> manager" where
  "take_task t ts M = M\<lparr>tm_queue := ts, tm_futures := AList.update t Started (tm_futures M), tm_stage := (t, Starting) # tm_stage M\<rparr>"

definition report_advance :: "int \<Rightarrow> string \<Rightarrow> int \<Rightarrow> bool \<Rightarrow> string \<Rightarrow> manager \<Rightarrow> manager" where
  "report_advance now file bytes force t M = (let (write, c) = advance_control now bytes force (control_of M t);
       M = M\<lparr>tm_controls := map (\<lambda>(u, d). (u, if u = t then c else d)) (tm_controls M)\<rparr>
     in if write then M\<lparr>tm_rows := update_query_task t (advanced c file) (tm_rows M)\<rparr> else M)"

definition set_flag :: "string \<Rightarrow> manager \<Rightarrow> manager" where
  "set_flag t M = M\<lparr>tm_controls := map (\<lambda>(u, c). (u, if u = t then c\<lparr>ct_cancelled := True\<rparr> else c)) (tm_controls M),
     tm_cancels := insert (t, WithdrawFuture) (tm_cancels M - {(t, SetFlag)})\<rparr>"

definition withdraw :: "string \<Rightarrow> manager \<Rightarrow> manager" where
  "withdraw t M = (let rest = tm_cancels M - {(t, WithdrawFuture)}
     in if map_of (tm_futures M) t = Some Pending
        then M\<lparr>tm_futures := AList.update t Withdrawn (tm_futures M), tm_queue := remove1 t (tm_queue M), tm_cancels := rest\<rparr>
        else M\<lparr>tm_cancels := rest\<rparr>)"

definition cancel_row :: "string \<Rightarrow> string \<Rightarrow> manager \<Rightarrow> manager option" where
  "cancel_row utc t M = (let (found, T) = request_query_task_cancel utc t (tm_rows M)
     in if found = None then None else Some (M\<lparr>tm_rows := T, tm_cancels := insert (t, SetFlag) (tm_cancels M)\<rparr>))"

definition begin_shutdown :: "manager \<Rightarrow> manager" where
  "begin_shutdown M = (if tm_closing M then M else M\<lparr>tm_closing := True, tm_todo := Some (map fst (tm_controls M))\<rparr>)"

definition withdraw_queue :: "manager \<Rightarrow> manager" where
  "withdraw_queue M = M\<lparr>tm_futures := map (\<lambda>(u, f). (u, if u \<in> set (tm_queue M) then Withdrawn else f)) (tm_futures M), tm_queue := []\<rparr>"

definition start_manager :: "string \<Rightarrow> string set \<Rightarrow> task_row list \<Rightarrow> (string \<Rightarrow> string option) \<Rightarrow> manager" where
  "start_manager utc used T files = (let (names, T) = prune_query_tasks 100 (snd (reconcile_interrupted_query_tasks utc T))
     in \<lparr>tm_rows = T, tm_files = remove_results names files, tm_controls = [], tm_futures = [], tm_queue = [], tm_stage = [], tm_cancels = {},
          tm_closing = False, tm_todo = None, tm_used = used\<rparr>)"

inductive task_step :: "(string \<Rightarrow> int) \<Rightarrow> nat \<Rightarrow> manager \<Rightarrow> manager \<Rightarrow> bool" for bytes_of workers where
  submit: "t \<notin> tm_used M \<Longrightarrow> submit_task workers utc t query indexed_only deadline M = Inr N \<Longrightarrow> task_step bytes_of workers M N"
| run: "tm_queue M = t # ts \<Longrightarrow> length (tm_stage M) < workers \<Longrightarrow> task_step bytes_of workers M (take_task t ts M)"
| work: "map_of (tm_stage M) t = Some g \<Longrightarrow> task_step bytes_of workers M (work bytes_of now utc out written t g M)"
| plan: "map_of (tm_stage M) t = Some Executing \<Longrightarrow> check_cancelled now (control_of M t) = None
    \<Longrightarrow> task_step bytes_of workers M (M\<lparr>tm_rows := update_query_task t (set_plan a b c d e) (tm_rows M)\<rparr>)"
| batch: "map_of (tm_stage M) t = Some Executing \<Longrightarrow> check_cancelled now (control_of M t) = None
    \<Longrightarrow> task_step bytes_of workers M (M\<lparr>tm_rows := update_query_task t (begin_batch label) (tm_rows M)\<rparr>)"
| advance: "map_of (tm_stage M) t = Some Executing \<Longrightarrow> task_step bytes_of workers M (report_advance now file bytes force t M)"
| cancel: "cancel_row utc t M = Some N \<Longrightarrow> task_step bytes_of workers M N"
| flag: "(t, SetFlag) \<in> tm_cancels M \<Longrightarrow> task_step bytes_of workers M (set_flag t M)"
| withdraw: "(t, WithdrawFuture) \<in> tm_cancels M \<Longrightarrow> task_step bytes_of workers M (withdraw t M)"
| shutdown: "task_step bytes_of workers M (begin_shutdown M)"
| shutdown_next: "tm_todo M = Some (t # ts) \<Longrightarrow> cancel_row utc t M = Some N \<Longrightarrow> task_step bytes_of workers M (N\<lparr>tm_todo := Some ts\<rparr>)"
| shutdown_lost: "tm_todo M = Some (t # ts) \<Longrightarrow> cancel_row utc t M = None \<Longrightarrow> task_step bytes_of workers M (M\<lparr>tm_todo := None\<rparr>)"
| shutdown_end: "tm_todo M = Some [] \<Longrightarrow> task_step bytes_of workers M (withdraw_queue M)"

text \<open>The service over several processes: the process may stop anywhere and a new one starts on the table and the files.\<close>

inductive service_step :: "(string \<Rightarrow> int) \<Rightarrow> nat \<Rightarrow> manager \<Rightarrow> manager \<Rightarrow> bool" for bytes_of workers where
  act: "task_step bytes_of workers M N \<Longrightarrow> service_step bytes_of workers M N"
| restart: "service_step bytes_of workers M (start_manager utc (tm_used M) (tm_rows M) (tm_files M))"


section \<open>The invariant\<close>

text \<open>A task is held from its admission until its row is terminal.\<close>

fun holding :: "stage \<Rightarrow> bool" where
  "holding Starting = False"
| "holding Pruning = False"
| "holding (Unlinking ns) = False"
| "holding Popping = False"
| "holding _ = True"

abbreviation active :: "task_status \<Rightarrow> bool" where "active s \<equiv> s = Running \<or> s = Cancelling"

definition status_in :: "(task_status \<Rightarrow> bool) \<Rightarrow> task_row option \<Rightarrow> bool" where
  "status_in P r \<longleftrightarrow> (case r of None \<Rightarrow> True | Some x \<Rightarrow> P (qt_status x))"

definition own_ok :: "task_row option \<Rightarrow> stage \<Rightarrow> (string \<Rightarrow> string option) \<Rightarrow> string \<Rightarrow> bool" where
  "own_ok r g files t \<longleftrightarrow> (if g = Starting then status_in (\<lambda>s. s \<in> {Queued, Cancelled}) r
       else if holding g then r \<noteq> None \<and> status_in active r else status_in terminal r)
     \<and> (case g of Publishing n b \<Rightarrow> n = result_name t \<and> files (result_name t) \<noteq> None
        | Committing n b \<Rightarrow> n = result_name t \<and> files (result_name t) \<noteq> None
        | Stopped s c \<Rightarrow> s \<in> {Failed, Cancelled} | Ending s c \<Rightarrow> s \<in> {Failed, Cancelled} | _ \<Rightarrow> True)"

definition row_ok :: "manager \<Rightarrow> task_row \<Rightarrow> bool" where
  "row_ok M r \<longleftrightarrow> (if qt_status r = Succeeded then qt_path r = result_name (qt_id r) \<and> tm_files M (result_name (qt_id r)) \<noteq> None else qt_path r = [])
     \<and> (qt_status r = Queued \<longrightarrow> \<not> qt_cancel r \<and> (qt_id r \<in> set (tm_queue M) \<or> map_of (tm_stage M) (qt_id r) = Some Starting))
     \<and> (active (qt_status r) \<longrightarrow> (\<exists>g. map_of (tm_stage M) (qt_id r) = Some g \<and> holding g))"

definition stage_ok :: "manager \<Rightarrow> string \<Rightarrow> bool" where
  "stage_ok M t \<longleftrightarrow> (case map_of (tm_stage M) t of None \<Rightarrow> True
     | Some g \<Rightarrow> t \<notin> set (tm_queue M) \<and> map_of (tm_controls M) t \<noteq> None \<and> map_of (tm_futures M) t = Some Started
         \<and> own_ok (task_at (tm_rows M) t) g (tm_files M) t)"

definition queued_ok :: "manager \<Rightarrow> string \<Rightarrow> bool" where
  "queued_ok M t \<longleftrightarrow> (t \<in> set (tm_queue M) \<longrightarrow> map_of (tm_futures M) t = Some Pending \<and> map_of (tm_controls M) t \<noteq> None
     \<and> status_in (\<lambda>s. s \<in> {Queued, Cancelled}) (task_at (tm_rows M) t))"

definition gone :: "manager \<Rightarrow> string \<Rightarrow> bool" where
  "gone M n \<longleftrightarrow> n = [] \<or> (\<exists>u \<in> tm_used M. n = result_name u \<and> task_at (tm_rows M) u = None)"

definition keys_ok :: "manager \<Rightarrow> bool" where
  "keys_ok M \<longleftrightarrow> distinct (map qt_id (tm_rows M)) \<and> distinct (tm_queue M) \<and> distinct (map fst (tm_stage M))
     \<and> qt_id ` set (tm_rows M) \<union> set (tm_queue M) \<union> fst ` set (tm_stage M) \<union> fst ` set (tm_controls M) \<union> fst ` set (tm_futures M)
         \<union> fst ` tm_cancels M \<subseteq> tm_used M"

definition tasks_ok :: "nat \<Rightarrow> manager \<Rightarrow> bool" where
  "tasks_ok workers M \<longleftrightarrow> keys_ok M \<and> (\<forall>r \<in> set (tm_rows M). row_ok M r) \<and> (\<forall>t. stage_ok M t \<and> queued_ok M t)
     \<and> (\<forall>t ns. map_of (tm_stage M) t = Some (Unlinking ns) \<longrightarrow> (\<forall>n \<in> set ns. gone M n))
     \<and> (\<forall>(t, p) \<in> tm_cancels M. status_in (\<lambda>s. s \<noteq> Queued) (task_at (tm_rows M) t))
     \<and> (\<forall>ts. tm_todo M = Some ts \<longrightarrow> tm_closing M \<and> (\<forall>r \<in> set (tm_rows M). qt_status r = Queued \<longrightarrow> qt_id r \<in> set ts))
     \<and> length (tm_stage M) \<le> workers"

lemma result_name_inj [simp]: "result_name t = result_name u \<longleftrightarrow> t = u" "result_name t \<noteq> []"
  by (simp_all add: result_name_def)

lemma remove_results_at: "remove_results ns files n = (if n \<noteq> [] \<and> n \<in> set ns then None else files n)"
  by (induction ns arbitrary: files) (auto simp: remove_results_def)

text \<open>A step of one worker: its row and its file change, it moves to another stage.\<close>

lemma worker_ok:
  assumes ok: "tasks_ok workers M" and g: "map_of (tm_stage M) t = Some g"
    and T: "map qt_id T = map qt_id (tm_rows M)" "\<And>u. u \<noteq> t \<Longrightarrow> task_at T u = task_at (tm_rows M) u"
    and F: "\<And>u. u \<noteq> t \<Longrightarrow> F (result_name u) = tm_files M (result_name u)"
    and own: "own_ok (task_at T t) g' F t" "\<forall>ns. g' \<noteq> Unlinking ns" "g \<noteq> Starting \<longrightarrow> g' \<noteq> Starting"
    and row: "\<And>r. task_at T t = Some r \<Longrightarrow> qt_status r \<noteq> Queued \<and> (if qt_status r = Succeeded then qt_path r = result_name t \<and> F (result_name t) \<noteq> None else qt_path r = [])
      \<and> (active (qt_status r) \<longrightarrow> holding g')"
  shows "tasks_ok workers (move_to t g' (M\<lparr>tm_rows := T, tm_files := F\<rparr>))"
proof -
  obtain N where N: "N = move_to t g' (M\<lparr>tm_rows := T, tm_files := F\<rparr>)" by simp
  have st: "map_of (tm_stage N) u = (if u = t then Some g' else map_of (tm_stage M) u)" for u by (simp add: N move_to_def update_conv')
  have rest: "tm_rows N = T" "tm_files N = F" "tm_queue N = tm_queue M" "tm_controls N = tm_controls M" "tm_futures N = tm_futures M"
    "tm_cancels N = tm_cancels M" "tm_todo N = tm_todo M" "tm_closing N = tm_closing M" "tm_used N = tm_used M" by (simp_all add: N move_to_def)
  have K: "keys_ok M" "length (tm_stage M) \<le> workers" and Q: "\<And>u. stage_ok M u" "\<And>u. queued_ok M u"
    and R: "\<And>r. r \<in> set (tm_rows M) \<Longrightarrow> row_ok M r" using ok by (auto simp: tasks_ok_def)
  have tin: "t \<in> fst ` set (tm_stage M)" using g by (metis domI dom_map_of_conv_image_fst)
  have keys: "map fst (tm_stage N) = map fst (tm_stage M)" using tin by (simp add: N move_to_def update_keys)
  have dist: "distinct (map qt_id T)" using K(1) T(1) by (simp add: keys_ok_def)
  have idT: "qt_id ` set T = qt_id ` set (tm_rows M)" using T(1) by (metis set_map)
  have "keys_ok N" using K(1) T(1) idT keys by (simp add: keys_ok_def rest) (metis set_map)
  moreover have "row_ok N r" if r: "r \<in> set T" for r
  proof (cases "qt_id r = t")
    case True
    then have at: "task_at T t = Some r" using r dist by (simp add: find_row_iff)
    from row [OF at] show ?thesis using True by (auto simp: row_ok_def rest st)
  next
    case False
    have "task_at (tm_rows M) (qt_id r) = Some r" using T(2) [OF False] r dist by (simp add: find_row_iff)
    then have "row_ok M r" using R by (auto dest: find_row_SomeD)
    then show ?thesis using False F [OF False] by (auto simp: row_ok_def rest st split: if_splits)
  qed
  moreover have "stage_ok N u \<and> queued_ok N u" for u
  proof (cases "u = t")
    case True
    then show ?thesis using Q [of t] own(1) g by (auto simp: stage_ok_def queued_ok_def rest st)
  next
    case False
    have "own_ok (task_at (tm_rows M) u) h F u = own_ok (task_at (tm_rows M) u) h (tm_files M) u" for h
      using F [OF False] by (simp add: own_ok_def cong: stage.case_cong)
    then show ?thesis using Q [of u] T(2) [OF False] False by (auto simp: stage_ok_def queued_ok_def rest st split: option.splits)
  qed
  moreover have none: "task_at T u = None \<longleftrightarrow> task_at (tm_rows M) u = None" for u using idT by (simp add: find_row_None)
  have "gone N n" if "map_of (tm_stage N) u = Some (Unlinking ns)" "n \<in> set ns" for u ns n
  proof -
    have "map_of (tm_stage M) u = Some (Unlinking ns)" using that(1) own(2) by (auto simp: st split: if_splits)
    then have "gone M n" using ok that(2) by (auto simp: tasks_ok_def)
    then show ?thesis by (simp add: gone_def rest none)
  qed
  moreover have "status_in (\<lambda>s. s \<noteq> Queued) (task_at T u)" if "(u, p) \<in> tm_cancels M" for u p
  proof (cases "u = t")
    case True
    then show ?thesis using row by (auto simp: status_in_def split: option.split)
  next
    case False
    then show ?thesis using ok that T(2) [OF False] by (auto simp: tasks_ok_def)
  qed
  moreover have "tm_closing M \<and> (\<forall>r \<in> set T. qt_status r = Queued \<longrightarrow> qt_id r \<in> set ts)" if "tm_todo M = Some ts" for ts
  proof (intro conjI ballI impI)
    show "tm_closing M" using ok that by (auto simp: tasks_ok_def)
    fix r
    assume r: "r \<in> set T" "qt_status r = Queued"
    have at: "task_at T (qt_id r) = Some r" using r(1) dist by (simp add: find_row_iff)
    then have "qt_id r \<noteq> t" using row r(2) by auto
    then have "r \<in> set (tm_rows M)" using T(2) at by (auto dest: find_row_SomeD)
    then show "qt_id r \<in> set ts" using ok that r(2) by (auto simp: tasks_ok_def)
  qed
  moreover have "length (tm_stage N) \<le> workers" using K(2) keys by (metis length_map)
  ultimately show ?thesis unfolding N [symmetric] tasks_ok_def rest by blast
qed


lemma task_at_update:
  assumes "\<And>r. qt_id (f r) = qt_id r"
  shows "task_at (update_where (\<lambda>r. qt_id r = t) f T) u = map_option (\<lambda>r. if u = t then f r else r) (task_at T u)"
  using assms by (induction T) auto

lemma ids_update: "(\<And>r. qt_id (f r) = qt_id r) \<Longrightarrow> map qt_id (update_where P f T) = map qt_id T"
  by (induction T) auto

lemma flushed_simps [simp]: "qt_id (flushed c r) = qt_id r" "qt_status (flushed c r) = qt_status r" "qt_path (flushed c r) = qt_path r"
  by (simp_all add: flushed_def)

lemma start_at:
  assumes "distinct (map qt_id T)"
  shows "task_at (snd (start_query_task now t T)) u = (case task_at T u of None \<Rightarrow> None
      | Some r \<Rightarrow> Some (if startable t r then r\<lparr>qt_status := Running, qt_started := now\<rparr> else r))"
    and "fst (start_query_task now t T) = (case task_at T t of None \<Rightarrow> False | Some r \<Rightarrow> startable t r)"
    and "map qt_id (snd (start_query_task now t T)) = map qt_id T"
proof -
  show "task_at (snd (start_query_task now t T)) u = (case task_at T u of None \<Rightarrow> None
      | Some r \<Rightarrow> Some (if startable t r then r\<lparr>qt_status := Running, qt_started := now\<rparr> else r))"
    by (simp add: start_query_task_def find_row_update_where) (simp split: option.split)
  show "map qt_id (snd (start_query_task now t T)) = map qt_id T" by (simp add: start_query_task_def ids_update)
  show "fst (start_query_task now t T) = (case task_at T t of None \<Rightarrow> False | Some r \<Rightarrow> startable t r)"
  proof (cases "task_at T t")
    case None
    then have "t \<notin> qt_id ` set T" by (simp add: find_row_None)
    then show ?thesis using None by (auto simp: start_query_task_def count_where_pos_iff startable_def)
  next
    case (Some r)
    then have "(\<exists>x \<in> set T. startable t x) \<longleftrightarrow> startable t r"
      using find_row_in [OF assms] by (metis find_row_SomeD option.inject startable_def)
    then show ?thesis using Some by (simp add: start_query_task_def count_where_pos_iff)
  qed
qed

text \<open>The rows a stage of a worker meets.\<close>

lemma tasks_okD:
  assumes "tasks_ok workers M"
  shows "distinct (map qt_id (tm_rows M))" "task_at (tm_rows M) t = Some r \<Longrightarrow> row_ok M r"
    "map_of (tm_stage M) t = Some g \<Longrightarrow> own_ok (task_at (tm_rows M) t) g (tm_files M) t"
    "map_of (tm_stage M) t = Some g \<Longrightarrow> map_of (tm_controls M) t \<noteq> None \<and> map_of (tm_futures M) t = Some Started \<and> t \<notin> set (tm_queue M)"
    "t \<in> set (tm_queue M) \<Longrightarrow> map_of (tm_futures M) t = Some Pending \<and> map_of (tm_controls M) t \<noteq> None
      \<and> status_in (\<lambda>s. s \<in> {Queued, Cancelled}) (task_at (tm_rows M) t)"
proof -
  show "distinct (map qt_id (tm_rows M))" "task_at (tm_rows M) t = Some r \<Longrightarrow> row_ok M r"
    using assms by (auto simp: tasks_ok_def keys_ok_def dest: find_row_SomeD)
  have s: "stage_ok M t" "queued_ok M t" using assms by (auto simp: tasks_ok_def)
  show "map_of (tm_stage M) t = Some g \<Longrightarrow> own_ok (task_at (tm_rows M) t) g (tm_files M) t"
    "map_of (tm_stage M) t = Some g \<Longrightarrow> map_of (tm_controls M) t \<noteq> None \<and> map_of (tm_futures M) t = Some Started \<and> t \<notin> set (tm_queue M)"
    using s(1) by (simp_all add: stage_ok_def)
  show "t \<in> set (tm_queue M) \<Longrightarrow> map_of (tm_futures M) t = Some Pending \<and> map_of (tm_controls M) t \<noteq> None
      \<and> status_in (\<lambda>s. s \<in> {Queued, Cancelled}) (task_at (tm_rows M) t)"
    using s(2) by (simp add: queued_ok_def)
qed

text \<open>Steps between admission and the final statement keep the row active.\<close>

lemma held_row:
  assumes "tasks_ok workers M" "map_of (tm_stage M) t = Some g" "holding g"
  obtains r where "task_at (tm_rows M) t = Some r" "active (qt_status r)" "qt_path r = []"
proof -
  have "g \<noteq> Starting" using assms(3) by auto
  then obtain r where r: "task_at (tm_rows M) t = Some r" "active (qt_status r)"
    using tasks_okD(3) [OF assms(1,2)] assms(3) by (auto simp: own_ok_def status_in_def)
  moreover have "qt_path r = []" using tasks_okD(2) [OF assms(1) r(1)] r(2) by (auto simp: row_ok_def)
  ultimately show thesis using that by blast
qed

lemma held_ok:
  assumes "tasks_ok workers M" "map_of (tm_stage M) t = Some g" "holding g" and f: "\<And>r. qt_id (f r) = qt_id r \<and> qt_status (f r) = qt_status r \<and> qt_path (f r) = qt_path r"
    and F: "\<And>u. u \<noteq> t \<Longrightarrow> F (result_name u) = tm_files M (result_name u)"
    and g': "holding g'" "case g' of Publishing n b \<Rightarrow> n = result_name t \<and> F (result_name t) \<noteq> None | Committing n b \<Rightarrow> n = result_name t \<and> F (result_name t) \<noteq> None
      | Stopped s c \<Rightarrow> s \<in> {Failed, Cancelled} | Ending s c \<Rightarrow> s \<in> {Failed, Cancelled} | _ \<Rightarrow> True"
  shows "tasks_ok workers (move_to t g' (M\<lparr>tm_rows := update_where (\<lambda>r. qt_id r = t) f (tm_rows M), tm_files := F\<rparr>))"
proof -
  obtain r where r: "task_at (tm_rows M) t = Some r" "active (qt_status r)" "qt_path r = []" by (rule held_row [OF assms(1-3)])
  have at: "task_at (update_where (\<lambda>r. qt_id r = t) f (tm_rows M)) u = map_option (\<lambda>r. if u = t then f r else r) (task_at (tm_rows M) u)" for u
    using f by (intro task_at_update) blast
  have ns: "g' \<noteq> Starting" "\<forall>ns. g' \<noteq> Unlinking ns" using g'(1) by auto
  show ?thesis
  proof (rule worker_ok [OF assms(1,2)])
    show "own_ok (task_at (update_where (\<lambda>r. qt_id r = t) f (tm_rows M)) t) g' F t"
      using r(2) f g' ns(1) by (simp add: at r(1) own_ok_def status_in_def)
    show "qt_status x \<noteq> Queued \<and> (if qt_status x = Succeeded then qt_path x = result_name t \<and> F (result_name t) \<noteq> None else qt_path x = [])
        \<and> (active (qt_status x) \<longrightarrow> holding g')"
      if "task_at (update_where (\<lambda>r. qt_id r = t) f (tm_rows M)) t = Some x" for x
      using that r f g'(1) by (auto simp: at)
  qed (use f F ns in \<open>simp_all add: at ids_update option.map_ident\<close>)
qed


lemma idle_update: "M\<lparr>tm_rows := update_where (\<lambda>r. qt_id r = t) (\<lambda>r. r) (tm_rows M), tm_files := tm_files M\<rparr> = M"
  by (simp add: update_where_def)

lemma held_move:
  assumes "tasks_ok workers M" "map_of (tm_stage M) t = Some g" "holding g" "holding g'"
    and "case g' of Publishing n b \<Rightarrow> n = result_name t \<and> tm_files M (result_name t) \<noteq> None | Committing n b \<Rightarrow> n = result_name t \<and> tm_files M (result_name t) \<noteq> None
      | Stopped s c \<Rightarrow> s \<in> {Failed, Cancelled} | Ending s c \<Rightarrow> s \<in> {Failed, Cancelled} | _ \<Rightarrow> True"
  shows "tasks_ok workers (move_to t g' M)"
  using held_ok [OF assms(1-3), of "\<lambda>r. r" "tm_files M" g'] assms(4,5) unfolding idle_update by simp

lemma halted_holding [simp]: "holding (halted s)" "halted s \<noteq> Publishing n b" "halted s \<noteq> Committing n b"
  by (cases s; simp add: halted_def)+

lemma halted_ok: "case halted s of Publishing n b \<Rightarrow> P n b | Committing n b \<Rightarrow> Q n b
      | Stopped s c \<Rightarrow> s \<in> {Failed, Cancelled} | Ending s c \<Rightarrow> s \<in> {Failed, Cancelled} | _ \<Rightarrow> True"
  by (cases s) (simp_all add: halted_def)

lemma checked_ok:
  assumes "tasks_ok workers M" "map_of (tm_stage M) t = Some g" "holding g" "holding g'"
    and "case g' of Publishing n b \<Rightarrow> n = result_name t \<and> tm_files M (result_name t) \<noteq> None | Committing n b \<Rightarrow> n = result_name t \<and> tm_files M (result_name t) \<noteq> None
      | Stopped s c \<Rightarrow> s \<in> {Failed, Cancelled} | Ending s c \<Rightarrow> s \<in> {Failed, Cancelled} | _ \<Rightarrow> True"
  shows "tasks_ok workers (checked now t g' M)"
  unfolding checked_def using held_move [OF assms] held_move [OF assms(1-3) _ halted_ok] by (auto split: option.split)

lemma finish_ok:
  assumes "tasks_ok workers M" "map_of (tm_stage M) t = Some g" "holding g"
    and s: "if s = Succeeded then n = result_name t \<and> tm_files M n \<noteq> None else n = [] \<and> s \<in> {Failed, Cancelled}"
  shows "tasks_ok workers (move_to t Pruning (M\<lparr>tm_rows := finish_query_task utc t s code n b (tm_rows M)\<rparr>))"
proof -
  let ?f = "\<lambda>r. r\<lparr>qt_status := s, qt_finished := utc, qt_file := [], qt_error := code, qt_path := n, qt_bytes := max b 0\<rparr>"
  obtain r where r: "task_at (tm_rows M) t = Some r" by (rule held_row [OF assms(1-3)])
  have at: "task_at (update_where (\<lambda>r. qt_id r = t) ?f (tm_rows M)) u = map_option (\<lambda>r. if u = t then ?f r else r) (task_at (tm_rows M) u)" for u
    by (intro task_at_update) simp
  have final: "terminal s" using s by (auto simp: terminal_def split: if_splits)
  have "tasks_ok workers (move_to t Pruning (M\<lparr>tm_rows := update_where (\<lambda>r. qt_id r = t) ?f (tm_rows M), tm_files := tm_files M\<rparr>))"
  proof (rule worker_ok [OF assms(1,2)])
    show "own_ok (task_at (update_where (\<lambda>r. qt_id r = t) ?f (tm_rows M)) t) Pruning (tm_files M) t"
      using final by (simp add: at r own_ok_def status_in_def)
    show "qt_status x \<noteq> Queued \<and> (if qt_status x = Succeeded then qt_path x = result_name t \<and> tm_files M (result_name t) \<noteq> None else qt_path x = [])
        \<and> (active (qt_status x) \<longrightarrow> holding Pruning)"
      if "task_at (update_where (\<lambda>r. qt_id r = t) ?f (tm_rows M)) t = Some x" for x
      using that r s final by (auto simp: at terminal_def split: if_splits)
  qed (simp_all add: at ids_update option.map_ident)
  then show ?thesis by (simp add: finish_query_task_def)
qed

lemma starting_ok:
  assumes "tasks_ok workers M" "map_of (tm_stage M) t = Some Starting"
  shows "tasks_ok workers (let (ok, T) = start_query_task utc t (tm_rows M) in move_to t (if ok then Admitted else Pruning) (M\<lparr>tm_rows := T\<rparr>))"
proof -
  obtain b T where S: "start_query_task utc t (tm_rows M) = (b, T)" by fastforce
  note D = tasks_okD [OF assms(1)]
  have at: "task_at T u = (case task_at (tm_rows M) u of None \<Rightarrow> None | Some r \<Rightarrow> Some (if startable t r then r\<lparr>qt_status := Running, qt_started := utc\<rparr> else r))" for u
    using start_at(1) [OF D(1), where now = utc and t = t and u = u] by (simp add: S)
  have other: "task_at T u = task_at (tm_rows M) u" if "u \<noteq> t" for u
    using that by (auto simp: at startable_def dest: find_row_SomeD split: option.split)
  have ids: "map qt_id T = map qt_id (tm_rows M)" using start_at(3) [OF D(1), where now = utc and t = t] by (simp add: S)
  have b: "b = (case task_at (tm_rows M) t of None \<Rightarrow> False | Some r \<Rightarrow> startable t r)" using start_at(2) [OF D(1), where now = utc and t = t] by (simp add: S)
  have own: "status_in (\<lambda>s. s \<in> {Queued, Cancelled}) (task_at (tm_rows M) t)" using D(3) [OF assms(2)] by (simp add: own_ok_def)
  have row: "row_ok M r \<and> qt_id r = t" if "task_at (tm_rows M) t = Some r" for r using D(2) [OF that] find_row_SomeD [OF that] by simp
  have go: "startable t r \<longleftrightarrow> qt_status r = Queued" if "task_at (tm_rows M) t = Some r" for r
    using row [OF that] by (auto simp: startable_def row_ok_def)
  have "tasks_ok workers (move_to t (if b then Admitted else Pruning) (M\<lparr>tm_rows := T, tm_files := tm_files M\<rparr>))"
  proof (rule worker_ok [OF assms(1,2) ids other])
    show "own_ok (task_at T t) (if b then Admitted else Pruning) (tm_files M) t"
      using own go by (auto simp: own_ok_def at b status_in_def terminal_def split: option.splits)
    show "qt_status x \<noteq> Queued \<and> (if qt_status x = Succeeded then qt_path x = result_name t \<and> tm_files M (result_name t) \<noteq> None else qt_path x = [])
        \<and> (active (qt_status x) \<longrightarrow> holding (if b then Admitted else Pruning))" if x: "task_at T t = Some x" for x
    proof -
      obtain r where r: "task_at (tm_rows M) t = Some r" "x = (if startable t r then r\<lparr>qt_status := Running, qt_started := utc\<rparr> else r)"
        using x by (auto simp: at split: option.splits)
      have "qt_status r = Queued \<or> qt_status r = Cancelled" using own r(1) by (auto simp: status_in_def)
      then show ?thesis using row [OF r(1)] go [OF r(1)] r(2) by (auto simp: b r(1) row_ok_def)
    qed
  qed simp_all
  then show ?thesis by (simp add: S)
qed


lemma drop_rows_ok:
  assumes ok: "tasks_ok workers M" and P: "\<And>r. r \<in> set (tm_rows M) \<Longrightarrow> \<not> P r \<Longrightarrow> terminal (qt_status r)"
  shows "tasks_ok workers (M\<lparr>tm_rows := filter P (tm_rows M)\<rparr>)"
proof -
  obtain T where T: "T = filter P (tm_rows M)" by simp
  have dist: "distinct (map qt_id (tm_rows M))" by (rule tasks_okD(1) [OF ok])
  have distT: "distinct (map qt_id T)" using dist by (simp add: T distinct_map_filter)
  have at: "task_at T u = task_at (tm_rows M) u \<or> task_at T u = None \<and> status_in terminal (task_at (tm_rows M) u)" for u
  proof (cases "task_at (tm_rows M) u")
    case None
    then have "task_at T u = None" by (auto simp: T find_row_None)
    then show ?thesis using None by simp
  next
    case (Some r)
    have r: "r \<in> set (tm_rows M)" "qt_id r = u" using find_row_SomeD [OF Some] by simp_all
    show ?thesis
    proof (cases "P r")
      case True
      then show ?thesis using r distT Some by (simp add: T find_row_iff)
    next
      case False
      have "task_at T u = None"
      proof (rule ccontr)
        assume "task_at T u \<noteq> None"
        then obtain s where "s \<in> set T" "qt_id s = u" by (auto dest: find_row_SomeD)
        then show False using distinct_key_unique [OF dist, of s r] r False by (auto simp: T)
      qed
      then show ?thesis using P [OF r(1) False] Some by (simp add: status_in_def)
    qed
  qed
  have weaken: "status_in Q (task_at T u)" if "status_in Q (task_at (tm_rows M) u)" for Q u
    using at [of u] that by (auto simp: status_in_def)
  have own: "own_ok (task_at T u) g F u" if "own_ok (task_at (tm_rows M) u) g F u" for u g F
  proof (cases "holding g")
    case True
    then have "g \<noteq> Starting" by auto
    then have "task_at T u = task_at (tm_rows M) u" using at [of u] that True by (auto simp: own_ok_def status_in_def terminal_def)
    then show ?thesis using that by simp
  next
    case False
    then show ?thesis using that weaken by (auto simp: own_ok_def split: if_splits)
  qed
  have gone: "gone (M\<lparr>tm_rows := T\<rparr>) n" if "gone M n" for n using that at by (force simp: gone_def)
  have "stage_ok (M\<lparr>tm_rows := T\<rparr>) u \<and> queued_ok (M\<lparr>tm_rows := T\<rparr>) u" for u
    using ok own weaken by (auto simp: tasks_ok_def stage_ok_def queued_ok_def split: option.splits)
  moreover have "keys_ok (M\<lparr>tm_rows := T\<rparr>)" using ok distT by (auto simp: tasks_ok_def keys_ok_def T)
  moreover have "row_ok (M\<lparr>tm_rows := T\<rparr>) r" if "r \<in> set T" for r
  proof -
    have "row_ok M r" using ok that by (auto simp: tasks_ok_def T)
    then show ?thesis by (simp add: row_ok_def)
  qed
  moreover have "gone (M\<lparr>tm_rows := T\<rparr>) n" if "map_of (tm_stage M) u = Some (Unlinking ns)" "n \<in> set ns" for u ns n
    using ok that gone by (auto simp: tasks_ok_def)
  moreover have "status_in (\<lambda>s. s \<noteq> Queued) (task_at T u)" if "(u, p) \<in> tm_cancels M" for u p
    using ok that weaken by (auto simp: tasks_ok_def)
  moreover have "tm_closing M \<and> (\<forall>r \<in> set T. qt_status r = Queued \<longrightarrow> qt_id r \<in> set ts)" if "tm_todo M = Some ts" for ts
    using ok that by (auto simp: tasks_ok_def T)
  moreover have "length (tm_stage M) \<le> workers" using ok by (simp add: tasks_ok_def)
  ultimately show ?thesis unfolding T [symmetric] tasks_ok_def by auto
qed

lemma tail_move_ok:
  assumes ok: "tasks_ok workers M" and g: "map_of (tm_stage M) t = Some g" "\<not> holding g" "g \<noteq> Starting"
    and F: "\<And>u. task_at (tm_rows M) u \<noteq> None \<Longrightarrow> F (result_name u) = tm_files M (result_name u)"
    and g': "g' = Popping \<or> (\<exists>ns. g' = Unlinking ns \<and> (\<forall>n \<in> set ns. gone M n))"
  shows "tasks_ok workers (move_to t g' (M\<lparr>tm_files := F\<rparr>))"
proof -
  obtain N where N: "N = move_to t g' (M\<lparr>tm_files := F\<rparr>)" by simp
  have st: "map_of (tm_stage N) u = (if u = t then Some g' else map_of (tm_stage M) u)" for u by (simp add: N move_to_def update_conv')
  have rest: "tm_rows N = tm_rows M" "tm_files N = F" "tm_queue N = tm_queue M" "tm_controls N = tm_controls M" "tm_futures N = tm_futures M"
    "tm_cancels N = tm_cancels M" "tm_todo N = tm_todo M" "tm_closing N = tm_closing M" "tm_used N = tm_used M" by (simp_all add: N move_to_def)
  note D = tasks_okD [OF ok]
  have tin: "t \<in> fst ` set (tm_stage M)" using g(1) by (metis domI dom_map_of_conv_image_fst)
  have keys: "map fst (tm_stage N) = map fst (tm_stage M)" using tin by (simp add: N move_to_def update_keys)
  have own: "own_ok (task_at (tm_rows M) u) h F u" if "own_ok (task_at (tm_rows M) u) h (tm_files M) u" for h u
  proof (cases "task_at (tm_rows M) u")
    case None
    then show ?thesis using that by (cases h) (auto simp: own_ok_def split: if_splits)
  next
    case (Some r)
    then show ?thesis using that F [of u] by (cases h) (simp_all add: own_ok_def)
  qed
  have tg: "holding g' = False" "g' \<noteq> Starting" using g' by auto
  have term_t: "status_in terminal (task_at (tm_rows M) t)" using D(3) [OF g(1)] g(2,3) by (simp add: own_ok_def)
  have "keys_ok N" using ok keys by (simp add: tasks_ok_def keys_ok_def rest) (metis set_map)
  moreover have "row_ok N r" if r: "r \<in> set (tm_rows M)" for r
  proof -
    have at: "task_at (tm_rows M) (qt_id r) = Some r" using r D(1) by simp
    have "qt_id r = t \<Longrightarrow> terminal (qt_status r)" using term_t at by (auto simp: status_in_def)
    then show ?thesis using D(2) [OF at] F [of "qt_id r"] at g by (auto simp: row_ok_def rest st terminal_def)
  qed
  moreover have "stage_ok N u \<and> queued_ok N u" for u
  proof (cases "u = t")
    case True
    have "own_ok (task_at (tm_rows M) t) g' F t" using term_t g' by (auto simp: own_ok_def)
    then show ?thesis using True D(4) [OF g(1)] by (simp add: stage_ok_def queued_ok_def rest st)
  next
    case False
    then show ?thesis using ok own by (auto simp: tasks_ok_def stage_ok_def queued_ok_def rest st split: option.splits)
  qed
  moreover have "gone N n" if "map_of (tm_stage N) u = Some (Unlinking ns)" "n \<in> set ns" for u ns n
  proof -
    have "gone M n" using that ok g' by (auto simp: tasks_ok_def st split: if_splits)
    then show ?thesis by (simp add: gone_def rest)
  qed
  moreover have "length (tm_stage N) \<le> workers" using ok keys by (metis length_map tasks_ok_def)
  ultimately show ?thesis using ok unfolding N [symmetric] tasks_ok_def rest by blast
qed

lemma prune_at:
  assumes "prune_query_tasks k T = (names, T')"
  obtains P where "T' = filter P T" "\<And>r. r \<in> set T \<Longrightarrow> distinct (map qt_id T) \<Longrightarrow> \<not> P r \<Longrightarrow> terminal (qt_status r)"
    "\<And>n. n \<in> set names \<Longrightarrow> \<exists>r \<in> set T. terminal (qt_status r) \<and> n = qt_path r \<and> \<not> P r"
proof -
  obtain rows where rows: "rows = drop (nat (min (max k 10) 1000)) (newest_tasks (filter (\<lambda>r. terminal (qt_status r)) T))" by simp
  have sub: "r \<in> set rows \<Longrightarrow> r \<in> set T \<and> terminal (qt_status r)" for r
    using set_drop_subset [of "nat (min (max k 10) 1000)" "newest_tasks (filter (\<lambda>r. terminal (qt_status r)) T)"] by (auto simp: rows newest_tasks_def)
  have eq: "names = map qt_path rows" "T' = filter (\<lambda>r. qt_id r \<notin> qt_id ` set rows) T"
    using assms by (auto simp: prune_query_tasks_def rows Let_def)
  show thesis
  proof (rule that [OF eq(2)])
    show "terminal (qt_status r)" if r: "r \<in> set T" "distinct (map qt_id T)" "\<not> qt_id r \<notin> qt_id ` set rows" for r
    proof -
      from r(3) obtain s where s: "s \<in> set rows" "qt_id r = qt_id s" by auto
      then have "r = s" using distinct_key_unique [OF r(2,1), of s] sub by blast
      then show ?thesis using s sub by blast
    qed
    show "\<exists>r \<in> set T. terminal (qt_status r) \<and> n = qt_path r \<and> \<not> qt_id r \<notin> qt_id ` set rows" if "n \<in> set names" for n
      using that sub by (auto simp: eq(1))
  qed
qed


lemma popping_ok:
  assumes ok: "tasks_ok workers M" and g: "map_of (tm_stage M) t = Some Popping"
  shows "tasks_ok workers (M\<lparr>tm_controls := AList.delete t (tm_controls M), tm_futures := AList.delete t (tm_futures M), tm_stage := AList.delete t (tm_stage M)\<rparr>)"
proof -
  obtain N where N: "N = M\<lparr>tm_controls := AList.delete t (tm_controls M), tm_futures := AList.delete t (tm_futures M), tm_stage := AList.delete t (tm_stage M)\<rparr>" by simp
  have m: "map_of (tm_stage N) u = (if u = t then None else map_of (tm_stage M) u)" "map_of (tm_controls N) u = (if u = t then None else map_of (tm_controls M) u)"
    "map_of (tm_futures N) u = (if u = t then None else map_of (tm_futures M) u)" for u by (simp_all add: N delete_conv')
  have rest: "tm_rows N = tm_rows M" "tm_files N = tm_files M" "tm_queue N = tm_queue M" "tm_cancels N = tm_cancels M" "tm_todo N = tm_todo M"
    "tm_closing N = tm_closing M" "tm_used N = tm_used M" by (simp_all add: N)
  note D = tasks_okD [OF ok]
  have t: "t \<notin> set (tm_queue M)" "status_in terminal (task_at (tm_rows M) t)" using D(3,4) [OF g] by (simp_all add: own_ok_def)
  have K: "keys_ok M" using ok by (simp add: tasks_ok_def)
  have subs: "fst ` set (tm_stage N) \<subseteq> fst ` set (tm_stage M)" "fst ` set (tm_controls N) \<subseteq> fst ` set (tm_controls M)"
    "fst ` set (tm_futures N) \<subseteq> fst ` set (tm_futures M)" by (simp_all add: N dom_delete_subset)
  have "distinct (map fst (tm_stage N))" using K by (simp add: N keys_ok_def distinct_delete)
  then have "keys_ok N" using K subset_trans [OF subs(1)] subset_trans [OF subs(2)] subset_trans [OF subs(3)]
    unfolding keys_ok_def rest Un_subset_iff by (simp only: simp_thms)
  moreover have "row_ok N r" if r: "r \<in> set (tm_rows M)" for r
  proof -
    have at: "task_at (tm_rows M) (qt_id r) = Some r" using r D(1) by simp
    have "qt_id r = t \<Longrightarrow> terminal (qt_status r)" using t(2) at by (auto simp: status_in_def)
    then show ?thesis using D(2) [OF at] by (auto simp: row_ok_def rest m terminal_def)
  qed
  moreover have "stage_ok N u \<and> queued_ok N u" for u
  proof -
    have "stage_ok M u" "queued_ok M u" using ok by (simp_all add: tasks_ok_def)
    then show ?thesis using t(1) by (cases "u = t"; cases "map_of (tm_stage M) u") (simp_all add: stage_ok_def queued_ok_def rest m)
  qed
  moreover have "gone N n" if "map_of (tm_stage N) u = Some (Unlinking ns)" "n \<in> set ns" for u ns n
  proof -
    have "gone M n" using that ok by (auto simp: tasks_ok_def m split: if_splits)
    then show ?thesis by (simp add: gone_def rest)
  qed
  moreover have "length (tm_stage N) \<le> workers" using ok length_delete_le [of t "tm_stage M"] by (simp add: tasks_ok_def N)
  ultimately show ?thesis using ok unfolding N [symmetric] tasks_ok_def rest by blast
qed

lemma work_ok:
  assumes ok: "tasks_ok workers M" and g: "map_of (tm_stage M) t = Some g"
  shows "tasks_ok workers (work bytes_of now utc out written t g M)"
proof -
  note D = tasks_okD [OF ok]
  have files: "M\<lparr>tm_rows := T, tm_files := tm_files M\<rparr> = M\<lparr>tm_rows := T\<rparr>" "M\<lparr>tm_rows := tm_rows M, tm_files := F\<rparr> = M\<lparr>tm_files := F\<rparr>" for T F by simp_all
  have flush: "tasks_ok workers (move_to t g' (flush_row t M))" if "holding g" "holding g'" "case g' of Publishing n b \<Rightarrow> n = result_name t \<and> tm_files M (result_name t) \<noteq> None
      | Committing n b \<Rightarrow> n = result_name t \<and> tm_files M (result_name t) \<noteq> None
      | Stopped s c \<Rightarrow> s \<in> {Failed, Cancelled} | Ending s c \<Rightarrow> s \<in> {Failed, Cancelled} | _ \<Rightarrow> True" for g'
    using held_ok [OF ok g that(1), of "flushed (control_of M t)" "tm_files M" g'] that(2,3)
    unfolding files by (simp add: flush_row_def update_query_task_def)
  have store: "tasks_ok workers (move_to t g' (M\<lparr>tm_files := (tm_files M)(result_name t := p)\<rparr>))" if "holding g" "holding g'"
    "case g' of Publishing n b \<Rightarrow> n = result_name t \<and> p \<noteq> None | Committing n b \<Rightarrow> n = result_name t \<and> p \<noteq> None
      | Stopped s c \<Rightarrow> s \<in> {Failed, Cancelled} | Ending s c \<Rightarrow> s \<in> {Failed, Cancelled} | _ \<Rightarrow> True" for g' p
    using held_ok [OF ok g that(1), of "\<lambda>r. r" "(tm_files M)(result_name t := p)" g', unfolded fun_upd_same] that(2,3)
    by (simp only: update_where_def if_cancel list.map_ident files fun_upd_other result_name_inj simp_thms)
  show ?thesis
  proof (cases g)
    case Starting
    then show ?thesis using starting_ok [OF ok] g by simp
  next
    case Admitted
    then show ?thesis using checked_ok [OF ok g] by simp
  next
    case Executing
    then show ?thesis using held_move [OF ok g] held_move [OF ok g _ _ halted_ok] ok by (auto split: query_outcome.split option.split)
  next
    case (Checking p)
    then show ?thesis using checked_ok [OF ok g] by simp
  next
    case (Flushing p)
    then show ?thesis using flush by simp
  next
    case (Writing p)
    then show ?thesis using store held_move [OF ok g] by simp
  next
    case (Publishing n b)
    then have n: "n = result_name t" "tm_files M (result_name t) \<noteq> None" using D(3) [OF g] by (simp_all add: own_ok_def)
    show ?thesis using Publishing n held_move [OF ok g] store [OF _ _ halted_ok] by (auto split: option.split)
  next
    case (Committing n b)
    then have "n = result_name t" "tm_files M (result_name t) \<noteq> None" using D(3) [OF g] by (simp_all add: own_ok_def)
    then show ?thesis using Committing finish_ok [OF ok g] by simp
  next
    case (Stopped s c)
    then have "s \<in> {Failed, Cancelled}" using D(3) [OF g] by (simp add: own_ok_def)
    then show ?thesis using Stopped flush by simp
  next
    case (Ending s c)
    then have "s \<in> {Failed, Cancelled}" using D(3) [OF g] by (simp add: own_ok_def)
    then show ?thesis using Ending finish_ok [OF ok g, of s "[]"] by auto
  next
    case Pruning
    obtain names T where T: "prune_query_tasks 100 (tm_rows M) = (names, T)" by fastforce
    from prune_at [OF T] obtain P where P: "T = filter P (tm_rows M)"
      "\<And>r. r \<in> set (tm_rows M) \<Longrightarrow> distinct (map qt_id (tm_rows M)) \<Longrightarrow> \<not> P r \<Longrightarrow> terminal (qt_status r)"
      "\<And>n. n \<in> set names \<Longrightarrow> \<exists>r \<in> set (tm_rows M). terminal (qt_status r) \<and> n = qt_path r \<and> \<not> P r" by blast
    have ok2: "tasks_ok workers (M\<lparr>tm_rows := T\<rparr>)" unfolding P(1) by (rule drop_rows_ok [OF ok P(2) [OF _ D(1)]])
    have "gone (M\<lparr>tm_rows := T\<rparr>) n" if n: "n \<in> set names" for n
    proof (rule ccontr)
      assume no: "\<not> gone (M\<lparr>tm_rows := T\<rparr>) n"
      obtain r where r: "r \<in> set (tm_rows M)" "n = qt_path r" "\<not> P r" using P(3) [OF n] by blast
      have at: "task_at (tm_rows M) (qt_id r) = Some r" using r(1) D(1) by simp
      have "n = result_name (qt_id r)" using D(2) [OF at] no r(2) by (auto simp: row_ok_def gone_def split: if_splits)
      moreover have "qt_id r \<in> tm_used M" using ok r(1) by (auto simp: tasks_ok_def keys_ok_def)
      moreover have "task_at T (qt_id r) = None"
      proof (rule ccontr)
        assume "task_at T (qt_id r) \<noteq> None"
        then obtain s where "s \<in> set T" "qt_id s = qt_id r" by (auto dest: find_row_SomeD)
        then show False using distinct_key_unique [OF D(1), of s r] r by (auto simp: P(1))
      qed
      ultimately show False using no by (auto simp: gone_def)
    qed
    then have "tasks_ok workers (move_to t (Unlinking names) ((M\<lparr>tm_rows := T\<rparr>)\<lparr>tm_files := tm_files M\<rparr>))"
      using g Pruning by (intro tail_move_ok [OF ok2]) auto
    then show ?thesis using Pruning T by simp
  next
    case (Unlinking ns)
    have gone: "gone M n" if "n \<in> set ns" for n using ok g Unlinking that by (auto simp: tasks_ok_def)
    have "tasks_ok workers (move_to t Popping (M\<lparr>tm_files := remove_results ns (tm_files M)\<rparr>))"
    proof (rule tail_move_ok [OF ok g])
      show "remove_results ns (tm_files M) (result_name u) = tm_files M (result_name u)" if "task_at (tm_rows M) u \<noteq> None" for u
        using gone [of "result_name u"] that by (auto simp: remove_results_at gone_def)
    qed (simp_all add: Unlinking)
    then show ?thesis using Unlinking by simp
  next
    case Popping
    then show ?thesis using popping_ok [OF ok] g by simp
  qed
qed


text \<open>The steps of submitters, cancellers and the pool.\<close>

lemma tasks_okI:
  assumes "keys_ok M" "\<And>r. r \<in> set (tm_rows M) \<Longrightarrow> row_ok M r" "\<And>t. stage_ok M t" "\<And>t. queued_ok M t"
    and "\<And>t ns n. map_of (tm_stage M) t = Some (Unlinking ns) \<Longrightarrow> n \<in> set ns \<Longrightarrow> gone M n"
    and "\<And>t p. (t, p) \<in> tm_cancels M \<Longrightarrow> status_in (\<lambda>s. s \<noteq> Queued) (task_at (tm_rows M) t)"
    and "\<And>ts. tm_todo M = Some ts \<Longrightarrow> tm_closing M" "\<And>ts r. tm_todo M = Some ts \<Longrightarrow> r \<in> set (tm_rows M) \<Longrightarrow> qt_status r = Queued \<Longrightarrow> qt_id r \<in> set ts"
    and "length (tm_stage M) \<le> workers"
  shows "tasks_ok workers M"
  using assms unfolding tasks_ok_def by blast

lemma tasks_okE:
  assumes "tasks_ok workers M"
  shows "keys_ok M" "r \<in> set (tm_rows M) \<Longrightarrow> row_ok M r" "stage_ok M t" "queued_ok M t"
    "map_of (tm_stage M) t = Some (Unlinking ns) \<Longrightarrow> n \<in> set ns \<Longrightarrow> gone M n"
    "(t, p) \<in> tm_cancels M \<Longrightarrow> status_in (\<lambda>s. s \<noteq> Queued) (task_at (tm_rows M) t)"
    "tm_todo M = Some ts \<Longrightarrow> tm_closing M" "tm_todo M = Some ts \<Longrightarrow> r \<in> set (tm_rows M) \<Longrightarrow> qt_status r = Queued \<Longrightarrow> qt_id r \<in> set ts"
    "length (tm_stage M) \<le> workers"
  using assms unfolding tasks_ok_def by blast+

lemma row_ok_frame: "tm_files N = tm_files M \<Longrightarrow> tm_queue N = tm_queue M \<Longrightarrow> tm_stage N = tm_stage M \<Longrightarrow> row_ok N r = row_ok M r"
  by (simp add: row_ok_def)

definition status_step :: "task_row \<Rightarrow> task_row \<Rightarrow> bool" where
  "status_step r s \<longleftrightarrow> qt_id s = qt_id r \<and> qt_path s = qt_path r
     \<and> (qt_status s = qt_status r \<and> qt_cancel s = qt_cancel r \<or> qt_status r = Queued \<and> qt_status s = Cancelled \<or> active (qt_status r) \<and> qt_status s = Cancelling)"

lemma task_at_map: "(\<And>r. r \<in> set T \<Longrightarrow> qt_id (f r) = qt_id r) \<Longrightarrow> task_at (map f T) u = map_option f (task_at T u)"
  by (induction T) auto

lemma status_step_ok:
  assumes ok: "tasks_ok workers M" and f: "\<And>r. r \<in> set (tm_rows M) \<Longrightarrow> status_step r (f r)"
  shows "tasks_ok workers (M\<lparr>tm_rows := map f (tm_rows M)\<rparr>)"
proof (rule tasks_okI)
  note E = tasks_okE [OF ok]
  obtain T where T: "T = map f (tm_rows M)" by simp
  have ids: "map qt_id T = map qt_id (tm_rows M)" using f by (auto simp: T status_step_def)
  have at: "task_at T u = map_option f (task_at (tm_rows M) u)" for u
    unfolding T by (rule task_at_map) (use f in \<open>simp add: status_step_def\<close>)
  have at_step: "task_at (tm_rows M) u = Some r \<Longrightarrow> status_step r (f r)" for u r using f by (auto dest: find_row_SomeD)
  show "keys_ok (M\<lparr>tm_rows := map f (tm_rows M)\<rparr>)" using E(1) ids unfolding keys_ok_def T [symmetric] by simp (metis set_map)
  show "row_ok (M\<lparr>tm_rows := map f (tm_rows M)\<rparr>) r" if r: "r \<in> set (tm_rows (M\<lparr>tm_rows := map f (tm_rows M)\<rparr>))" for r
  proof -
    obtain s where s: "s \<in> set (tm_rows M)" "r = f s" using r by auto
    show ?thesis using E(2) [OF s(1)] f [OF s(1)] unfolding s(2) row_ok_def status_step_def by auto
  qed
  show "stage_ok (M\<lparr>tm_rows := map f (tm_rows M)\<rparr>) u" for u
  proof (cases "map_of (tm_stage M) u")
    case (Some g)
    then have "own_ok (task_at (tm_rows M) u) g (tm_files M) u" using E(3) [of u] by (simp add: stage_ok_def)
    then have "own_ok (task_at T u) g (tm_files M) u" using at_step [of u]
      by (cases "task_at (tm_rows M) u") (auto simp: own_ok_def at status_in_def status_step_def terminal_def split: if_splits)
    then show ?thesis using E(3) [of u] Some by (simp add: stage_ok_def T)
  qed (simp add: stage_ok_def)
  show "queued_ok (M\<lparr>tm_rows := map f (tm_rows M)\<rparr>) u" for u
    using E(4) [of u] at_step [of u] at [of u] unfolding T by (auto simp: queued_ok_def status_in_def status_step_def split: option.splits)
  show "gone (M\<lparr>tm_rows := map f (tm_rows M)\<rparr>) n" if "map_of (tm_stage (M\<lparr>tm_rows := map f (tm_rows M)\<rparr>)) t = Some (Unlinking ns)" "n \<in> set ns" for t ns n
    using E(5) [of t ns n] that at unfolding T by (simp add: gone_def)
  show "status_in (\<lambda>s. s \<noteq> Queued) (task_at (tm_rows (M\<lparr>tm_rows := map f (tm_rows M)\<rparr>)) t)" if "(t, p) \<in> tm_cancels (M\<lparr>tm_rows := map f (tm_rows M)\<rparr>)" for t p
    using E(6) [of t p] that at_step [of t] at [of t] unfolding T by (auto simp: status_in_def status_step_def split: option.splits)
  show "tm_closing (M\<lparr>tm_rows := map f (tm_rows M)\<rparr>)" if "tm_todo (M\<lparr>tm_rows := map f (tm_rows M)\<rparr>) = Some ts" for ts using E(7) that by simp
  show "qt_id r \<in> set ts" if q: "tm_todo (M\<lparr>tm_rows := map f (tm_rows M)\<rparr>) = Some ts" "r \<in> set (tm_rows (M\<lparr>tm_rows := map f (tm_rows M)\<rparr>))" "qt_status r = Queued" for ts r
  proof -
    obtain s where s: "s \<in> set (tm_rows M)" "r = f s" using q(2) by auto
    then have "qt_status s = Queued" "qt_id r = qt_id s" using f [OF s(1)] q(3) by (auto simp: status_step_def)
    then show ?thesis using E(8) [of ts s] q(1) s(1) by simp
  qed
  show "length (tm_stage (M\<lparr>tm_rows := map f (tm_rows M)\<rparr>)) \<le> workers" using E(9) by simp
qed

definition cancel_change :: "string \<Rightarrow> string \<Rightarrow> task_row \<Rightarrow> task_row" where
  "cancel_change utc t r = (if qt_id r \<noteq> t then r else if qt_status r = Queued then cancelled_row utc ''QUERY_CANCELLED'' r
      else if active (qt_status r) then r\<lparr>qt_status := Cancelling, qt_cancel := True\<rparr> else r)"

lemma cancel_change_step: "status_step r (cancel_change utc t r)"
  by (simp add: cancel_change_def status_step_def cancelled_row_def)

lemma cancel_change_other: "qt_id r \<noteq> t \<Longrightarrow> cancel_change utc t r = r"
  by (simp add: cancel_change_def)

lemma cancel_change_queued: "qt_id r = t \<Longrightarrow> qt_status (cancel_change utc t r) \<noteq> Queued"
  by (simp add: cancel_change_def cancelled_row_def)

lemma cancel_change_terminal: "terminal (qt_status r) \<Longrightarrow> cancel_change utc t r = r"
  by (cases "qt_status r") (simp_all add: cancel_change_def terminal_def)

lemma request_cancel_map:
  assumes "distinct (map qt_id T)" "request_query_task_cancel utc t T = (Some x, T')"
  shows "T' = map (cancel_change utc t) T"
proof -
  obtain row where row: "task_at T t = Some row" using assms(2) by (auto simp: request_query_task_cancel_def split: option.splits)
  have one: "r = row" if "r \<in> set T" "qt_id r = t" for r using that assms(1) row by (metis find_row_in option.inject)
  have T': "T' = (if qt_status row = Queued then update_where (\<lambda>r. qt_id r = t \<and> qt_status r = Queued) (cancelled_row utc ''QUERY_CANCELLED'') T
      else if qt_status row \<in> {Running, Cancelling} then update_where (\<lambda>r. qt_id r = t \<and> qt_status r \<in> {Running, Cancelling})
        (\<lambda>r. r\<lparr>qt_status := Cancelling, qt_cancel := True\<rparr>) T else T)"
    using assms(2) by (simp add: request_query_task_cancel_def row Let_def)
  consider "qt_status row = Queued" | "active (qt_status row)" | "qt_status row \<noteq> Queued" "\<not> active (qt_status row)" by blast
  then show ?thesis
  proof cases
    case 1
    then have "(if qt_id r = t \<and> qt_status r = Queued then cancelled_row utc ''QUERY_CANCELLED'' r else r) = cancel_change utc t r" if "r \<in> set T" for r
      using one [OF that] by (cases "qt_id r = t") (simp_all add: cancel_change_def)
    then show ?thesis using 1 by (simp add: T' update_where_def)
  next
    case 2
    then have "(if qt_id r = t \<and> qt_status r \<in> {Running, Cancelling} then r\<lparr>qt_status := Cancelling, qt_cancel := True\<rparr> else r) = cancel_change utc t r"
      if "r \<in> set T" for r using one [OF that] by (cases "qt_id r = t"; cases "qt_status r") (simp_all add: cancel_change_def)
    then show ?thesis using 2 by (cases "qt_status row") (simp_all add: T' update_where_def)
  next
    case 3
    then have "cancel_change utc t r = r" if "r \<in> set T" for r using one [OF that] by (cases "qt_id r = t") (simp_all add: cancel_change_def)
    then show ?thesis using 3 by (simp add: T' map_idI)
  qed
qed


lemma cancel_row_ok:
  assumes ok: "tasks_ok workers M" and N: "cancel_row utc t M = Some N"
  shows "tasks_ok workers N \<and> tm_rows N = map (cancel_change utc t) (tm_rows M) \<and> tm_todo N = tm_todo M"
proof -
  obtain x T where T: "request_query_task_cancel utc t (tm_rows M) = (Some x, T)" "N = M\<lparr>tm_rows := T, tm_cancels := insert (t, SetFlag) (tm_cancels M)\<rparr>"
    using N by (auto simp: cancel_row_def split: prod.splits if_splits)
  have map: "T = map (cancel_change utc t) (tm_rows M)" by (rule request_cancel_map [OF tasks_okD(1) [OF ok] T(1)])
  obtain row where row: "task_at (tm_rows M) t = Some row" using T(1) by (auto simp: request_query_task_cancel_def split: option.splits)
  have at: "task_at T t = Some (cancel_change utc t row)"
    using task_at_map [of "tm_rows M" "cancel_change utc t" t] cancel_change_step row by (simp add: map status_step_def)
  have not_queued: "status_in (\<lambda>s. s \<noteq> Queued) (task_at T t)"
    using cancel_change_queued find_row_SomeD [OF row] by (simp add: at status_in_def)
  have used: "t \<in> tm_used M" using tasks_okE(1) [OF ok] find_row_SomeD [OF row] by (auto simp: keys_ok_def)
  have "tasks_ok workers (M\<lparr>tm_rows := T\<rparr>)" unfolding map by (rule status_step_ok [OF ok]) (rule cancel_change_step)
  note E = tasks_okE [OF this]
  have "tasks_ok workers N"
  proof (rule tasks_okI)
    show "keys_ok N" using E(1) used by (simp add: keys_ok_def T(2))
    show "row_ok N r" if "r \<in> set (tm_rows N)" for r
      using E(2) [of r] that row_ok_frame [of N "M\<lparr>tm_rows := T\<rparr>" r] by (simp add: T(2))
    show "stage_ok N u" for u using E(3) [of u] by (cases "map_of (tm_stage M) u") (simp_all add: stage_ok_def T(2))
    show "queued_ok N u" for u using E(4) [of u] by (simp add: queued_ok_def T(2))
    show "gone N n" if "map_of (tm_stage N) u = Some (Unlinking ns)" "n \<in> set ns" for u ns n using E(5) [of u ns n] that by (simp add: gone_def T(2))
    show "status_in (\<lambda>s. s \<noteq> Queued) (task_at (tm_rows N) u)" if "(u, p) \<in> tm_cancels N" for u p
      using E(6) [of u p] not_queued that by (auto simp: T(2))
    show "tm_closing N" if "tm_todo N = Some ts" for ts using E(7) that by (simp add: T(2))
    show "qt_id r \<in> set ts" if "tm_todo N = Some ts" "r \<in> set (tm_rows N)" "qt_status r = Queued" for ts r using E(8) [of ts r] that by (simp add: T(2))
    show "length (tm_stage N) \<le> workers" using E(9) by (simp add: T(2))
  qed
  then show ?thesis by (simp add: T(2) map)
qed

lemma controls_ok:
  assumes ok: "tasks_ok workers M" and C: "fst ` set C \<subseteq> fst ` set (tm_controls M)" "\<And>u. map_of (tm_controls M) u \<noteq> None \<Longrightarrow> map_of C u \<noteq> None"
    and P: "\<And>u p. (u, p) \<in> P \<Longrightarrow> \<exists>p. (u, p) \<in> tm_cancels M"
  shows "tasks_ok workers (M\<lparr>tm_controls := C, tm_cancels := P\<rparr>)"
proof -
  note E = tasks_okE [OF ok]
  have p: "fst ` P \<subseteq> fst ` tm_cancels M" using P by force
  show ?thesis
  proof (rule tasks_okI)
    show "keys_ok (M\<lparr>tm_controls := C, tm_cancels := P\<rparr>)" using E(1) subset_trans [OF C(1)] subset_trans [OF p]
      unfolding keys_ok_def Un_subset_iff by simp
    show "row_ok (M\<lparr>tm_controls := C, tm_cancels := P\<rparr>) r" if "r \<in> set (tm_rows (M\<lparr>tm_controls := C, tm_cancels := P\<rparr>))" for r
      using E(2) [of r] that by (simp add: row_ok_def)
    show "stage_ok (M\<lparr>tm_controls := C, tm_cancels := P\<rparr>) u" for u using E(3) [of u] C(2) [of u] by (cases "map_of (tm_stage M) u") (simp_all add: stage_ok_def)
    show "queued_ok (M\<lparr>tm_controls := C, tm_cancels := P\<rparr>) u" for u using E(4) [of u] C(2) [of u] by (simp add: queued_ok_def)
    show "gone (M\<lparr>tm_controls := C, tm_cancels := P\<rparr>) n" if "map_of (tm_stage (M\<lparr>tm_controls := C, tm_cancels := P\<rparr>)) u = Some (Unlinking ns)" "n \<in> set ns" for u ns n
      using E(5) [of u ns n] that by (simp add: gone_def)
    show "status_in (\<lambda>s. s \<noteq> Queued) (task_at (tm_rows (M\<lparr>tm_controls := C, tm_cancels := P\<rparr>)) u)" if "(u, p) \<in> tm_cancels (M\<lparr>tm_controls := C, tm_cancels := P\<rparr>)" for u p
      using E(6) P [of u p] that by fastforce
    show "tm_closing (M\<lparr>tm_controls := C, tm_cancels := P\<rparr>)" if "tm_todo (M\<lparr>tm_controls := C, tm_cancels := P\<rparr>) = Some ts" for ts using E(7) that by simp
    show "qt_id r \<in> set ts" if "tm_todo (M\<lparr>tm_controls := C, tm_cancels := P\<rparr>) = Some ts" "r \<in> set (tm_rows (M\<lparr>tm_controls := C, tm_cancels := P\<rparr>))" "qt_status r = Queued" for ts r
      using E(8) [of ts r] that by simp
    show "length (tm_stage (M\<lparr>tm_controls := C, tm_cancels := P\<rparr>)) \<le> workers" using E(9) by simp
  qed
qed

lemma mapped_controls:
  "fst ` set (map (\<lambda>(u, c). (u, f u c)) cs) = fst ` set cs" "map_of (map (\<lambda>(u, c). (u, f u c)) cs) u = map_option (f u) (map_of cs u)"
  by (force, induction cs) auto

lemma set_flag_ok:
  assumes "tasks_ok workers M" "(t, SetFlag) \<in> tm_cancels M"
  shows "tasks_ok workers (set_flag t M)"
proof -
  have "tasks_ok workers (M\<lparr>tm_controls := map (\<lambda>(u, c). (u, if u = t then c\<lparr>ct_cancelled := True\<rparr> else c)) (tm_controls M),
      tm_cancels := insert (t, WithdrawFuture) (tm_cancels M - {(t, SetFlag)})\<rparr>)"
    by (rule controls_ok [OF assms(1)], unfold mapped_controls) (use assms(2) in auto)
  then show ?thesis by (simp add: set_flag_def)
qed

lemma executing_update_ok:
  assumes "tasks_ok workers M" "map_of (tm_stage M) t = Some Executing" "\<And>r. qt_id (f r) = qt_id r \<and> qt_status (f r) = qt_status r \<and> qt_path (f r) = qt_path r"
  shows "tasks_ok workers (M\<lparr>tm_rows := update_query_task t f (tm_rows M)\<rparr>)"
proof -
  have "tasks_ok workers (move_to t Executing (M\<lparr>tm_rows := update_where (\<lambda>r. qt_id r = t) f (tm_rows M), tm_files := tm_files M\<rparr>))"
    by (rule held_ok [OF assms(1,2)]) (use assms(3) in simp_all)
  then show ?thesis using assms(2) by (simp add: move_to_def update_triv update_query_task_def)
qed

lemma report_advance_ok:
  assumes ok: "tasks_ok workers M" and t: "map_of (tm_stage M) t = Some Executing"
  shows "tasks_ok workers (report_advance now file bytes force t M)"
proof -
  obtain b c where A: "advance_control now bytes force (control_of M t) = (b, c)" by fastforce
  obtain N where N: "N = M\<lparr>tm_controls := map (\<lambda>(u, d). (u, if u = t then c else d)) (tm_controls M), tm_cancels := tm_cancels M\<rparr>" by simp
  have "tasks_ok workers N" unfolding N by (rule controls_ok [OF ok], unfold mapped_controls) auto
  moreover from executing_update_ok [OF this, of t "advanced c file"] t
  have "tasks_ok workers (N\<lparr>tm_rows := update_query_task t (advanced c file) (tm_rows N)\<rparr>)" by (simp add: N advanced_def flushed_def)
  ultimately show ?thesis by (simp add: report_advance_def A N Let_def)
qed


lemma map_of_queue: "map_of (map (\<lambda>(u, f). (u, if u \<in> A then x else f)) fs) u = (if u \<in> A then map_option (\<lambda>_. x) (map_of fs u) else map_of fs u)"
  by (induction fs) auto

lemma submit_task_ok:
  assumes ok: "tasks_ok workers M" and t: "t \<notin> tm_used M" and N: "submit_task k utc t query indexed deadline M = Inr N"
  shows "tasks_ok workers N"
proof -
  note E = tasks_okE [OF ok]
  obtain row c where T: "N = M\<lparr>tm_rows := tm_rows M @ [row], tm_controls := tm_controls M @ [(t, c)], tm_futures := (t, Pending) # tm_futures M,
      tm_queue := tm_queue M @ [t], tm_used := insert t (tm_used M)\<rparr>" "qt_id row = t" "qt_status row = Queued" "\<not> qt_cancel row" "qt_path row = []"
    and accepting: "\<not> tm_closing M"
    using N by (auto simp: submit_task_def create_query_task_def split: if_splits)
  have new: "t \<notin> qt_id ` set (tm_rows M)" "t \<notin> set (tm_queue M)" "t \<notin> fst ` set (tm_stage M)" "t \<notin> fst ` tm_cancels M" using E(1) t by (auto simp: keys_ok_def)
  have none: "map_of (tm_stage M) t = None" using new(3) by (simp add: map_of_eq_None_iff)
  have at: "task_at (tm_rows M @ [row]) u = (if u = t then Some row else task_at (tm_rows M) u)" for u
  proof -
    have "task_at (tm_rows M) t = None" using new(1) by (simp add: find_row_None)
    then show ?thesis using T(2) by (cases "u = t"; cases "task_at (tm_rows M) u") (simp_all add: find_row_append)
  qed
  show ?thesis
  proof (rule tasks_okI)
    show "keys_ok N" using E(1) new T(2) by (auto simp: keys_ok_def T(1))
    show "row_ok N r" if r: "r \<in> set (tm_rows N)" for r
    proof (cases "r = row")
      case False
      then have "row_ok M r" using E(2) r by (simp add: T(1))
      then show ?thesis by (auto simp: row_ok_def T(1))
    qed (simp add: row_ok_def T)
    show "stage_ok N u" for u using E(3) [of u] none by (cases "u = t"; cases "map_of (tm_stage M) u") (auto simp: stage_ok_def T(1) at)
    show "queued_ok N u" for u using E(4) [of u] T(3) by (cases "u = t") (auto simp: queued_ok_def T(1) at status_in_def)
    show "gone N n" if u: "map_of (tm_stage N) u = Some (Unlinking ns)" "n \<in> set ns" for u ns n
    proof -
      have "gone M n" using E(5) [of u ns n] u by (simp add: T(1))
      then show ?thesis using t by (auto simp: gone_def T(1) at)
    qed
    show "status_in (\<lambda>s. s \<noteq> Queued) (task_at (tm_rows N) u)" if "(u, p) \<in> tm_cancels N" for u p
      using E(6) [of u p] that new(4) by (force simp: T(1) at)
    show "tm_closing N" if "tm_todo N = Some ts" for ts using E(7) that by (simp add: T(1))
    show "qt_id r \<in> set ts" if "tm_todo N = Some ts" "r \<in> set (tm_rows N)" "qt_status r = Queued" for ts r using E(7) that accepting by (simp add: T(1))
    show "length (tm_stage N) \<le> workers" using E(9) by (simp add: T(1))
  qed
qed

lemma take_ok:
  assumes ok: "tasks_ok workers M" and q: "tm_queue M = t # ts" "length (tm_stage M) < workers"
  shows "tasks_ok workers (take_task t ts M)"
proof -
  note E = tasks_okE [OF ok]
  obtain N where N: "N = take_task t ts M" by simp
  have rest: "tm_rows N = tm_rows M" "tm_files N = tm_files M" "tm_queue N = ts" "tm_controls N = tm_controls M" "tm_stage N = (t, Starting) # tm_stage M"
    "tm_cancels N = tm_cancels M" "tm_todo N = tm_todo M" "tm_closing N = tm_closing M" "tm_used N = tm_used M"
    "map_of (tm_futures N) u = (if u = t then Some Started else map_of (tm_futures M) u)" for u by (simp_all add: N take_task_def update_conv')
  have here: "map_of (tm_futures M) t = Some Pending" "map_of (tm_controls M) t \<noteq> None" "status_in (\<lambda>s. s \<in> {Queued, Cancelled}) (task_at (tm_rows M) t)"
    using tasks_okD(5) [OF ok, of t] q(1) by auto
  have none: "map_of (tm_stage M) t = None" using E(3) [of t] q(1) by (auto simp: stage_ok_def split: option.splits)
  have dist: "t \<notin> set ts" "distinct ts" using E(1) q(1) by (simp_all add: keys_ok_def)
  show ?thesis unfolding N [symmetric]
  proof (rule tasks_okI)
    have "fst ` set (tm_futures N) = insert t (fst ` set (tm_futures M))" by (simp add: N take_task_def dom_update)
    then show "keys_ok N" using E(1) dist none q(1) by (auto simp: keys_ok_def rest map_of_eq_None_iff)
    show "row_ok N r" if r: "r \<in> set (tm_rows N)" for r
      using E(2) [of r] r none q(1) by (auto simp: row_ok_def rest)
    show "stage_ok N u" for u
    proof (cases "u = t")
      case True
      then show ?thesis using here dist by (simp add: stage_ok_def rest own_ok_def)
    next
      case False
      then show ?thesis using E(3) [of u] q(1) by (cases "map_of (tm_stage M) u") (simp_all add: stage_ok_def rest)
    qed
    show "queued_ok N u" for u using E(4) [of u] dist q(1) by (auto simp: queued_ok_def rest)
    show "gone N n" if "map_of (tm_stage N) u = Some (Unlinking ns)" "n \<in> set ns" for u ns n
      using E(5) [of u ns n] that by (auto simp: rest gone_def split: if_splits)
    show "status_in (\<lambda>s. s \<noteq> Queued) (task_at (tm_rows N) u)" if "(u, p) \<in> tm_cancels N" for u p using E(6) that by (simp add: rest)
    show "tm_closing N" if "tm_todo N = Some xs" for xs using E(7) that by (simp add: rest)
    show "qt_id r \<in> set xs" if "tm_todo N = Some xs" "r \<in> set (tm_rows N)" "qt_status r = Queued" for xs r using E(8) that by (simp add: rest)
    show "length (tm_stage N) \<le> workers" using q(2) by (simp add: rest)
  qed
qed

text \<open>Tasks leave the queue without running: those of a set of identifiers whose rows are no longer queued.\<close>

lemma leave_queue_ok:
  assumes ok: "tasks_ok workers M" and A: "A \<subseteq> set (tm_queue M)" "\<And>u. u \<in> A \<Longrightarrow> status_in (\<lambda>s. s \<noteq> Queued) (task_at (tm_rows M) u)"
    and Q: "set Q = set (tm_queue M) - A" "distinct Q" and F: "fst ` set F = fst ` set (tm_futures M)"
      "\<And>u. map_of F u = (if u \<in> A then Some Withdrawn else map_of (tm_futures M) u)" and P: "P \<subseteq> tm_cancels M"
  shows "tasks_ok workers (M\<lparr>tm_futures := F, tm_queue := Q, tm_cancels := P\<rparr>)"
proof -
  note E = tasks_okE [OF ok]
  obtain N where N: "N = M\<lparr>tm_futures := F, tm_queue := Q, tm_cancels := P\<rparr>" by simp
  show ?thesis unfolding N [symmetric]
  proof (rule tasks_okI)
    have "fst ` tm_cancels M \<subseteq> tm_used M" using E(1) by (simp add: keys_ok_def)
    with image_mono [OF P] have "fst ` P \<subseteq> tm_used M" by (rule subset_trans)
    moreover have "set Q \<subseteq> tm_used M" using Q E(1) by (auto simp: keys_ok_def)
    ultimately show "keys_ok N" using E(1) Q(2) F(1) unfolding keys_ok_def Un_subset_iff by (simp add: N)
    show "row_ok N r" if r: "r \<in> set (tm_rows N)" for r
    proof -
      have "task_at (tm_rows M) (qt_id r) = Some r" using r E(1) by (simp add: keys_ok_def N)
      then have "qt_status r = Queued \<Longrightarrow> qt_id r \<notin> A" using A(2) [of "qt_id r"] by (auto simp: status_in_def)
      then show ?thesis using E(2) [of r] r Q(1) by (auto simp: row_ok_def N)
    qed
    show "stage_ok N u" for u
    proof (cases "map_of (tm_stage M) u")
      case (Some g)
      then have "u \<notin> A" using E(3) [of u] A(1) by (auto simp: stage_ok_def)
      then show ?thesis using E(3) [of u] Some Q(1) by (simp add: stage_ok_def N F(2))
    qed (simp add: stage_ok_def N)
    show "queued_ok N u" for u using E(4) [of u] Q(1) by (auto simp: queued_ok_def N F(2))
    show "gone N n" if "map_of (tm_stage N) u = Some (Unlinking ns)" "n \<in> set ns" for u ns n
      using E(5) [of u ns n] that by (simp add: N gone_def)
    show "status_in (\<lambda>s. s \<noteq> Queued) (task_at (tm_rows N) u)" if "(u, p) \<in> tm_cancels N" for u p using E(6) [of u p] that P by (auto simp: N)
    show "tm_closing N" if "tm_todo N = Some xs" for xs using E(7) that by (simp add: N)
    show "qt_id r \<in> set xs" if "tm_todo N = Some xs" "r \<in> set (tm_rows N)" "qt_status r = Queued" for xs r using E(8) that by (simp add: N)
    show "length (tm_stage N) \<le> workers" using E(9) by (simp add: N)
  qed
qed


lemma withdraw_ok:
  assumes ok: "tasks_ok workers M" and c: "(t, WithdrawFuture) \<in> tm_cancels M"
  shows "tasks_ok workers (withdraw t M)"
proof (cases "map_of (tm_futures M) t = Some Pending \<and> t \<in> set (tm_queue M)")
  case True
  have "tasks_ok workers (M\<lparr>tm_futures := AList.update t Withdrawn (tm_futures M), tm_queue := remove1 t (tm_queue M),
      tm_cancels := tm_cancels M - {(t, WithdrawFuture)}\<rparr>)"
  proof (rule leave_queue_ok [OF ok, of "{t}"])
    show "status_in (\<lambda>s. s \<noteq> Queued) (task_at (tm_rows M) u)" if "u \<in> {t}" for u using that tasks_okE(6) [OF ok c] by simp
    show "set (remove1 t (tm_queue M)) = set (tm_queue M) - {t}" "distinct (remove1 t (tm_queue M))"
      using tasks_okE(1) [OF ok] by (simp_all add: keys_ok_def)
    have "t \<in> fst ` set (tm_futures M)" using True by (metis domI dom_map_of_conv_image_fst)
    then show "fst ` set (AList.update t Withdrawn (tm_futures M)) = fst ` set (tm_futures M)" by (auto simp: dom_update)
  qed (use True in \<open>auto simp: update_conv'\<close>)
  then show ?thesis using True by (simp add: withdraw_def)
next
  case False
  have dead: "tasks_ok workers (M\<lparr>tm_futures := F, tm_queue := tm_queue M, tm_cancels := tm_cancels M - {(t, WithdrawFuture)}\<rparr>)"
    if "fst ` set F = fst ` set (tm_futures M)" "\<And>u. u \<in> dom (map_of (tm_stage M)) \<union> set (tm_queue M) \<Longrightarrow> map_of F u = map_of (tm_futures M) u" for F
  proof -
    note E = tasks_okE [OF ok]
    obtain N where N: "N = M\<lparr>tm_futures := F, tm_queue := tm_queue M, tm_cancels := tm_cancels M - {(t, WithdrawFuture)}\<rparr>" by simp
    show ?thesis unfolding N [symmetric]
    proof (rule tasks_okI)
      have "fst ` tm_cancels M \<subseteq> tm_used M" using E(1) by (simp add: keys_ok_def)
      then have "fst ` (tm_cancels M - {(t, WithdrawFuture)}) \<subseteq> tm_used M" by blast
      then show "keys_ok N" using E(1) that(1) unfolding keys_ok_def Un_subset_iff by (simp add: N)
      show "row_ok N r" if "r \<in> set (tm_rows N)" for r using E(2) [of r] that row_ok_frame [of N M r] by (simp add: N)
      show "stage_ok N u" for u using E(3) [of u] that(2) [of u] by (cases "map_of (tm_stage M) u") (auto simp: stage_ok_def N)
      show "queued_ok N u" for u using E(4) [of u] that(2) [of u] by (auto simp: queued_ok_def N)
      show "gone N n" if "map_of (tm_stage N) u = Some (Unlinking ns)" "n \<in> set ns" for u ns n using E(5) [of u ns n] that by (simp add: N gone_def)
      show "status_in (\<lambda>s. s \<noteq> Queued) (task_at (tm_rows N) u)" if "(u, p) \<in> tm_cancels N" for u p using E(6) [of u p] that by (simp add: N)
      show "tm_closing N" if "tm_todo N = Some xs" for xs using E(7) that by (simp add: N)
      show "qt_id r \<in> set xs" if "tm_todo N = Some xs" "r \<in> set (tm_rows N)" "qt_status r = Queued" for xs r using E(8) that by (simp add: N)
      show "length (tm_stage N) \<le> workers" using E(9) by (simp add: N)
    qed
  qed
  show ?thesis
  proof (cases "map_of (tm_futures M) t = Some Pending")
    case True
    then have q: "t \<notin> set (tm_queue M)" using False by blast
    have "t \<in> fst ` set (tm_futures M)" using True by (metis domI dom_map_of_conv_image_fst)
    then have keys: "fst ` set (AList.update t Withdrawn (tm_futures M)) = fst ` set (tm_futures M)" by (auto simp: dom_update)
    have "map_of (tm_stage M) t = None" using tasks_okE(3) [OF ok, of t] True by (auto simp: stage_ok_def split: option.splits)
    then have "map_of (AList.update t Withdrawn (tm_futures M)) u = map_of (tm_futures M) u" if "u \<in> dom (map_of (tm_stage M)) \<union> set (tm_queue M)" for u
      using that q by (auto simp: update_conv')
    from dead [OF keys this] show ?thesis using True q by (simp add: withdraw_def remove1_idem)
  next
    case no: False
    then show ?thesis using dead [of "tm_futures M"] by (simp add: withdraw_def)
  qed
qed

lemma begin_shutdown_ok:
  assumes ok: "tasks_ok workers M"
  shows "tasks_ok workers (begin_shutdown M)"
proof (cases "tm_closing M")
  case True
  then show ?thesis using ok by (simp add: begin_shutdown_def)
next
  case False
  note E = tasks_okE [OF ok]
  obtain N where N: "N = M\<lparr>tm_closing := True, tm_todo := Some (map fst (tm_controls M))\<rparr>" by simp
  have "tasks_ok workers N"
  proof (rule tasks_okI)
    show "qt_id r \<in> set xs" if r: "tm_todo N = Some xs" "r \<in> set (tm_rows N)" "qt_status r = Queued" for xs r
    proof -
      have "qt_id r \<in> set (tm_queue M) \<or> map_of (tm_stage M) (qt_id r) = Some Starting" using E(2) [of r] r by (simp add: row_ok_def N)
      then have "map_of (tm_controls M) (qt_id r) \<noteq> None" using E(4) [of "qt_id r"] tasks_okD(4) [OF ok] by (auto simp: queued_ok_def)
      then obtain c where "(qt_id r, c) \<in> set (tm_controls M)" by (auto dest: map_of_SomeD)
      then show ?thesis using r(1) by (force simp: N)
    qed
    show "row_ok N r" if "r \<in> set (tm_rows N)" for r using E(2) [of r] that row_ok_frame [of N M r] by (simp add: N)
    show "stage_ok N u" for u using E(3) [of u] by (cases "map_of (tm_stage M) u") (simp_all add: stage_ok_def N)
  qed (use E in \<open>simp_all add: N keys_ok_def queued_ok_def gone_def\<close>)
  then show ?thesis using False by (simp add: begin_shutdown_def N)
qed

lemma todo_ok:
  assumes ok: "tasks_ok workers M" and todo: "\<And>ts. todo = Some ts \<Longrightarrow> tm_closing M \<and> (\<forall>r \<in> set (tm_rows M). qt_status r = Queued \<longrightarrow> qt_id r \<in> set ts)"
  shows "tasks_ok workers (M\<lparr>tm_todo := todo\<rparr>)"
proof (rule tasks_okI)
  note E = tasks_okE [OF ok]
  show "row_ok (M\<lparr>tm_todo := todo\<rparr>) r" if "r \<in> set (tm_rows (M\<lparr>tm_todo := todo\<rparr>))" for r
    using E(2) [of r] that row_ok_frame [of "M\<lparr>tm_todo := todo\<rparr>" M r] by simp
  show "stage_ok (M\<lparr>tm_todo := todo\<rparr>) u" for u using E(3) [of u] by (cases "map_of (tm_stage M) u") (simp_all add: stage_ok_def)
qed (use tasks_okE [OF ok] todo in \<open>simp_all add: keys_ok_def queued_ok_def gone_def\<close>)


lemma withdraw_queue_ok:
  assumes ok: "tasks_ok workers M" and todo: "tm_todo M = Some []"
  shows "tasks_ok workers (withdraw_queue M)"
proof -
  note E = tasks_okE [OF ok]
  let ?F = "map (\<lambda>(u, f). (u, if u \<in> set (tm_queue M) then Withdrawn else f)) (tm_futures M)"
  have "tasks_ok workers (M\<lparr>tm_futures := ?F, tm_queue := [], tm_cancels := tm_cancels M\<rparr>)"
  proof (rule leave_queue_ok [OF ok, of "set (tm_queue M)"])
    show "status_in (\<lambda>s. s \<noteq> Queued) (task_at (tm_rows M) u)" if "u \<in> set (tm_queue M)" for u
    proof (cases "task_at (tm_rows M) u")
      case (Some r)
      then show ?thesis using E(8) [OF todo, of r] find_row_SomeD [OF Some] by (auto simp: status_in_def)
    qed (simp add: status_in_def)
    show "fst ` set ?F = fst ` set (tm_futures M)" by force
    show "map_of ?F u = (if u \<in> set (tm_queue M) then Some Withdrawn else map_of (tm_futures M) u)" for u
      using E(4) [of u] by (auto simp: map_of_queue queued_ok_def)
  qed auto
  then show ?thesis by (simp add: withdraw_queue_def)
qed

text \<open>A new process: no task is active, nothing is queued, unlinked files belong to rows that are gone.\<close>

definition table_ok :: "task_row list \<Rightarrow> (string \<Rightarrow> string option) \<Rightarrow> bool" where
  "table_ok T files \<longleftrightarrow> distinct (map qt_id T) \<and> (\<forall>r \<in> set T. if qt_status r = Succeeded then qt_path r = result_name (qt_id r) \<and> files (result_name (qt_id r)) \<noteq> None
     else qt_path r = [])"

lemma start_manager_ok:
  assumes T: "table_ok T files" "qt_id ` set T \<subseteq> used"
  shows "tasks_ok workers (start_manager utc used T files)"
proof -
  obtain R where R: "R = update_where (\<lambda>r. \<not> terminal (qt_status r)) (cancelled_row utc ''SERVICE_RESTARTED'') T" by simp
  obtain names U where U: "prune_query_tasks 100 R = (names, U)" by fastforce
  obtain P where P: "U = filter P R" "\<And>n. n \<in> set names \<Longrightarrow> \<exists>r \<in> set R. terminal (qt_status r) \<and> n = qt_path r \<and> \<not> P r"
    using prune_at [OF U] by metis
  have ids: "map qt_id R = map qt_id T" unfolding R by (rule ids_update) (simp add: cancelled_row_def)
  have dist: "distinct (map qt_id R)" using T(1) ids by (simp add: table_ok_def)
  have rows: "terminal (qt_status r) \<and> (if qt_status r = Succeeded then qt_path r = result_name (qt_id r) \<and> files (result_name (qt_id r)) \<noteq> None else qt_path r = [])"
    if "r \<in> set R" for r
  proof -
    obtain s where s: "s \<in> set T" "r = (if terminal (qt_status s) then s else cancelled_row utc ''SERVICE_RESTARTED'' s)"
      using \<open>r \<in> set R\<close> by (auto simp: R in_set_update_where)
    show ?thesis using T(1) s by (auto simp: table_ok_def cancelled_row_def terminal_def)
  qed
  have kept: "remove_results names files (result_name (qt_id r)) = files (result_name (qt_id r))" if r: "r \<in> set U" "qt_status r = Succeeded" for r
  proof (rule ccontr)
    assume "remove_results names files (result_name (qt_id r)) \<noteq> files (result_name (qt_id r))"
    then have "result_name (qt_id r) \<in> set names" by (auto simp: remove_results_at split: if_splits)
    then obtain s where s: "s \<in> set R" "result_name (qt_id r) = qt_path s" "\<not> P s" using P(2) by blast
    then have "qt_id s = qt_id r" using rows [OF s(1)] by (metis result_name_inj)
    then show False using distinct_key_unique [OF dist s(1), of r] r(1) s(3) by (auto simp: P(1))
  qed
  have M: "start_manager utc used T files = \<lparr>tm_rows = U, tm_files = remove_results names files, tm_controls = [], tm_futures = [], tm_queue = [],
      tm_stage = [], tm_cancels = {}, tm_closing = False, tm_todo = None, tm_used = used\<rparr>"
    by (simp add: start_manager_def reconcile_interrupted_query_tasks_def R [symmetric] U)
  show ?thesis unfolding M
  proof (rule tasks_okI)
    have "qt_id ` set R = qt_id ` set T" using ids by (metis set_map)
    then have "qt_id ` set U \<subseteq> used" using T(2) by (auto simp: P(1))
    then show "keys_ok \<lparr>tm_rows = U, tm_files = remove_results names files, tm_controls = [], tm_futures = [], tm_queue = [],
      tm_stage = [], tm_cancels = {}, tm_closing = False, tm_todo = None, tm_used = used\<rparr>"
      using dist by (simp add: keys_ok_def P(1) distinct_map_filter)
    show "row_ok \<lparr>tm_rows = U, tm_files = remove_results names files, tm_controls = [], tm_futures = [], tm_queue = [],
      tm_stage = [], tm_cancels = {}, tm_closing = False, tm_todo = None, tm_used = used\<rparr> r"
      if "r \<in> set (tm_rows \<lparr>tm_rows = U, tm_files = remove_results names files, tm_controls = [], tm_futures = [], tm_queue = [],
      tm_stage = [], tm_cancels = {}, tm_closing = False, tm_todo = None, tm_used = used\<rparr>)" for r
    proof -
      have r: "r \<in> set U" "r \<in> set R" using that by (simp_all add: P(1))
      then show ?thesis using rows [OF r(2)] kept [OF r(1)] by (auto simp: row_ok_def terminal_def)
    qed
  qed (simp_all add: stage_ok_def queued_ok_def)
qed

lemma task_step_ok: "task_step bytes_of workers M N \<Longrightarrow> tasks_ok workers M \<Longrightarrow> tasks_ok workers N"
proof (induction rule: task_step.cases)
  case (shutdown_next M t ts utc N0)
  then have N: "tasks_ok workers N0" "tm_rows N0 = map (cancel_change utc t) (tm_rows M)" "tm_todo N0 = Some (t # ts)"
    using cancel_row_ok [of workers M utc t N0] by simp_all
  have "tm_closing N0 \<and> (\<forall>r \<in> set (tm_rows N0). qt_status r = Queued \<longrightarrow> qt_id r \<in> set ts)"
  proof (intro conjI ballI impI)
    show "tm_closing N0" using tasks_okE(7) [OF N(1,3)] .
    fix r
    assume r: "r \<in> set (tm_rows N0)" "qt_status r = Queued"
    then have "qt_id r \<in> set (t # ts)" using tasks_okE(8) [OF N(1,3)] by blast
    moreover obtain s where "r = cancel_change utc t s" using r(1) N(2) by auto
    then have "qt_id r \<noteq> t" using cancel_change_queued [of s t utc] cancel_change_step [of s utc t] r(2) by (auto simp: status_step_def)
    ultimately show "qt_id r \<in> set ts" by simp
  qed
  then have "tasks_ok workers (N0\<lparr>tm_todo := Some ts\<rparr>)" by (intro todo_ok [OF N(1)]) simp
  then show ?case using shutdown_next by simp
next
  case (plan M t now a b c d e)
  then show ?case using executing_update_ok [of workers M t "set_plan a b c d e"] by (simp add: set_plan_def)
next
  case (batch M t now label)
  then show ?case using executing_update_ok [of workers M t "begin_batch label"] by (simp add: begin_batch_def)
qed (auto intro: submit_task_ok take_ok work_ok report_advance_ok set_flag_ok withdraw_ok begin_shutdown_ok withdraw_queue_ok todo_ok dest: cancel_row_ok)

lemma service_step_ok: "service_step bytes_of workers M N \<Longrightarrow> tasks_ok workers M \<Longrightarrow> tasks_ok workers N"
proof (induction rule: service_step.cases)
  case (act M N)
  then show ?case using task_step_ok by simp
next
  case (restart M utc)
  have ok: "tasks_ok workers M" using restart by simp
  have "if qt_status r = Succeeded then qt_path r = result_name (qt_id r) \<and> tm_files M (result_name (qt_id r)) \<noteq> None else qt_path r = []"
    if "r \<in> set (tm_rows M)" for r using tasks_okE(2) [OF ok that] unfolding row_ok_def by blast
  moreover have "distinct (map qt_id (tm_rows M))" "qt_id ` set (tm_rows M) \<subseteq> tm_used M" using tasks_okE(1) [OF ok] unfolding keys_ok_def by blast+
  ultimately have "tasks_ok workers (start_manager utc (tm_used M) (tm_rows M) (tm_files M))" by (intro start_manager_ok) (simp_all only: table_ok_def, blast)
  then show ?case using restart by simp
qed

interpretation tasks: transition_system "service_step bytes_of workers" "tasks_ok workers" for bytes_of workers
  by unfold_locales (rule service_step_ok)


section \<open>Properties\<close>

text \<open>
  Property C11. In every reachable state of the service, across submissions, cancellations, shutdowns and restarts: a queued
  task waits in the pool or is about to start, a running or cancelling task is held by a worker, a result is shown for exactly the
  succeeded tasks, and at most \<open>workers\<close> tasks are worked on.
\<close>

theorem tasks_accounted_for:
  assumes "(service_step bytes_of workers)\<^sup>*\<^sup>* (start_manager utc used T files) N" "table_ok T files" "qt_id ` set T \<subseteq> used"
    and "r \<in> set (tm_rows N)"
  shows "(qt_status r = Queued \<longrightarrow> qt_id r \<in> set (tm_queue N) \<or> map_of (tm_stage N) (qt_id r) = Some Starting)
    \<and> (active (qt_status r) \<longrightarrow> (\<exists>g. map_of (tm_stage N) (qt_id r) = Some g \<and> holding g))
    \<and> (qt_status r = Succeeded \<longleftrightarrow> (\<exists>p. get_task N (qt_id r) = Some (r, Some p)))
    \<and> length (tm_stage N) \<le> workers"
proof -
  have ok: "tasks_ok workers N" using tasks.reachable_inv [OF assms(1) start_manager_ok [OF assms(2,3)]] .
  have "row_ok N r" by (rule tasks_okE(2) [OF ok assms(4)])
  moreover have "task_at (tm_rows N) (qt_id r) = Some r" using assms(4) tasks_okD(1) [OF ok] by (simp add: find_row_iff)
  ultimately show ?thesis using tasks_okE(9) [OF ok] unfolding row_ok_def by (auto simp: get_task_def split: if_splits)
qed

text \<open>A row after a step: kept, deleted when terminal, or changed when not terminal, to \<open>Succeeded\<close> only by the final statement.\<close>

definition row_after :: "manager \<Rightarrow> string \<Rightarrow> task_row \<Rightarrow> task_row option \<Rightarrow> bool" where
  "row_after M t r x \<longleftrightarrow> (case x of None \<Rightarrow> terminal (qt_status r)
     | Some s \<Rightarrow> s = r \<or> \<not> terminal (qt_status r) \<and> (qt_status s = Succeeded \<longrightarrow> (\<exists>n b. map_of (tm_stage M) t = Some (Committing n b))))"

lemma row_after_same [simp]: "row_after M t r (Some r)"
  by (simp add: row_after_def)

lemma held_active:
  assumes "tasks_ok workers M" "map_of (tm_stage M) t = Some g" "holding g" "task_at (tm_rows M) t = Some r"
  shows "active (qt_status r)" "\<not> terminal (qt_status r)"
  using tasks_okD(3) [OF assms(1,2)] assms(3,4) by (auto simp: own_ok_def status_in_def terminal_def split: if_splits)

lemma row_after_update:
  assumes ok: "tasks_ok workers M" "map_of (tm_stage M) u = Some g" "holding g" and r: "task_at (tm_rows M) t = Some r"
    and f: "\<And>r. qt_id (f r) = qt_id r" "\<And>r. qt_status (f r) = Succeeded \<Longrightarrow> qt_status r = Succeeded \<or> (\<exists>n b. g = Committing n b)"
  shows "row_after M t r (task_at (update_where (\<lambda>r. qt_id r = u) f (tm_rows M)) t)"
proof (cases "t = u")
  case True
  then have "active (qt_status r)" "\<not> terminal (qt_status r)" using held_active [OF ok] r by simp_all
  then show ?thesis using f(2) [of r] ok(2) True task_at_update [where f = f and t = u and T = "tm_rows M" and u = t] f(1) r by (auto simp: row_after_def terminal_def)
next
  case False
  then show ?thesis using task_at_update [where f = f and t = u and T = "tm_rows M" and u = t] f(1) r by simp
qed

lemma row_after_work:
  assumes ok: "tasks_ok workers M" "map_of (tm_stage M) u = Some g" and r: "task_at (tm_rows M) t = Some r"
  shows "row_after M t r (task_at (tm_rows (work bytes_of now utc out written u g M)) t)"
proof -
  note U = row_after_update [OF ok _ r]
  have rows [simp]: "tm_rows (move_to v h X) = tm_rows X" "tm_rows (checked now v h X) = tm_rows X" for v h X
    by (simp_all add: move_to_def checked_def split: option.split)
  have flush: "row_after M t r (task_at (tm_rows (flush_row u M)) t)" if "holding g"
    using U [OF that, of "flushed (control_of M u)"] by (simp add: flush_row_def update_query_task_def)
  show ?thesis
  proof (cases g)
    case Starting
    note D = tasks_okD [OF ok(1)]
    have own: "status_in (\<lambda>s. s \<in> {Queued, Cancelled}) (task_at (tm_rows M) u)" using D(3) [OF ok(2)] Starting by (simp add: own_ok_def)
    have "task_at (snd (start_query_task utc u (tm_rows M))) t = Some (if startable u r then r\<lparr>qt_status := Running, qt_started := utc\<rparr> else r)"
      using start_at(1) [OF D(1), where now = utc and t = u and u = t] r by simp
    then have "row_after M t r (task_at (snd (start_query_task utc u (tm_rows M))) t)" by (simp add: row_after_def startable_def terminal_def)
    then show ?thesis by (simp add: Starting split_beta)
  next
    case Pruning
    obtain names T where T: "prune_query_tasks 100 (tm_rows M) = (names, T)" by fastforce
    from prune_at [OF T] obtain P where P: "T = filter P (tm_rows M)"
      "\<And>r. r \<in> set (tm_rows M) \<Longrightarrow> distinct (map qt_id (tm_rows M)) \<Longrightarrow> \<not> P r \<Longrightarrow> terminal (qt_status r)" by blast
    have dist: "distinct (map qt_id (tm_rows M))" by (rule tasks_okD(1) [OF ok(1)])
    have r': "r \<in> set (tm_rows M)" "qt_id r = t" using find_row_SomeD [OF r] by simp_all
    have "row_after M t r (task_at T t)"
    proof (cases "task_at T t")
      case None
      then have "r \<notin> set T" using r'(2) by (auto simp: find_row_None)
      then show ?thesis using P(2) [OF r'(1) dist] r'(1) None by (auto simp: row_after_def P(1))
    next
      case (Some s)
      then have "s \<in> set (tm_rows M)" "qt_id s = t" using find_row_SomeD [OF Some] by (simp_all add: P(1))
      then have "s = r" using distinct_key_unique [OF dist, of s r] r' by simp
      then show ?thesis using Some by simp
    qed
    then show ?thesis by (simp add: Pruning T)
  next
    case (Committing n b)
    then show ?thesis using U [of "\<lambda>r. r\<lparr>qt_status := Succeeded, qt_finished := utc, qt_file := [], qt_error := [], qt_path := n, qt_bytes := max b 0\<rparr>"]
      by (simp add: finish_query_task_def)
  next
    case (Ending s c)
    then have "s \<in> {Failed, Cancelled}" using tasks_okD(3) [OF ok] by (simp add: own_ok_def)
    then show ?thesis using U [of "\<lambda>r. r\<lparr>qt_status := s, qt_finished := utc, qt_file := [], qt_error := c, qt_path := [], qt_bytes := max 0 0\<rparr>"] Ending
      by (auto simp: finish_query_task_def)
  qed (use flush r in \<open>auto split: query_outcome.split option.split\<close>)
qed

lemma row_after_step:
  assumes ok: "tasks_ok workers M" and step: "task_step bytes_of workers M N" and r: "task_at (tm_rows M) t = Some r"
  shows "row_after M t r (task_at (tm_rows N) t)"
  using step
proof (cases rule: task_step.cases)
  case (submit u utc query indexed_only deadline)
  then have "\<exists>row. tm_rows N = tm_rows M @ [row]" by (auto simp: submit_task_def create_query_task_def split: if_splits)
  then show ?thesis using r by (auto simp: find_row_append)
next
  case (work u g now utc out written)
  then show ?thesis using row_after_work [OF ok _ r] by simp
next
  case (plan u now a b c d e)
  then show ?thesis using row_after_update [OF ok plan(2) _ r, of "set_plan a b c d e"] by (simp add: set_plan_def update_query_task_def)
next
  case (batch u now label)
  then show ?thesis using row_after_update [OF ok batch(2) _ r, of "begin_batch label"] by (simp add: begin_batch_def update_query_task_def)
next
  case (advance u now fl bytes force)
  obtain b c where A: "advance_control now bytes force (control_of M u) = (b, c)" by fastforce
  show ?thesis using row_after_update [OF ok advance(2) _ r, of "advanced c fl"] r
    by (simp add: advance(1) report_advance_def A Let_def advanced_def flushed_def update_query_task_def)
next
  case (cancel utc u)
  then have "tm_rows N = map (cancel_change utc u) (tm_rows M)" using cancel_row_ok [OF ok] by simp
  then have "task_at (tm_rows N) t = Some (cancel_change utc u r)"
    using task_at_map [of "tm_rows M" "cancel_change utc u" t] cancel_change_step r by (simp add: status_step_def)
  then show ?thesis using cancel_change_terminal [of r utc u] cancel_change_step [of r utc u] by (auto simp: row_after_def status_step_def terminal_def)
next
  case (shutdown_next u ts utc L)
  then have "tm_rows N = map (cancel_change utc u) (tm_rows M)" using cancel_row_ok [OF ok] by simp
  then have "task_at (tm_rows N) t = Some (cancel_change utc u r)"
    using task_at_map [of "tm_rows M" "cancel_change utc u" t] cancel_change_step r by (simp add: status_step_def)
  then show ?thesis using cancel_change_terminal [of r utc u] cancel_change_step [of r utc u] by (auto simp: row_after_def status_step_def terminal_def)
qed (use r in \<open>simp_all add: take_task_def set_flag_def withdraw_def begin_shutdown_def withdraw_queue_def Let_def\<close>)


lemma start_rows:
  assumes "distinct (map qt_id T)"
  shows "task_at (tm_rows (start_manager utc used T files)) t = None \<or> (\<exists>r. task_at T t = Some r \<and>
     task_at (tm_rows (start_manager utc used T files)) t = Some (if terminal (qt_status r) then r else cancelled_row utc ''SERVICE_RESTARTED'' r))"
    and "tm_used (start_manager utc used T files) = used"
proof -
  let ?R = "update_where (\<lambda>r. \<not> terminal (qt_status r)) (cancelled_row utc ''SERVICE_RESTARTED'') T"
  obtain names U where U: "prune_query_tasks 100 ?R = (names, U)" by fastforce
  obtain P where P: "U = filter P ?R" using prune_at [OF U] by metis
  have ids: "map qt_id ?R = map qt_id T" by (rule ids_update) (simp add: cancelled_row_def)
  have rows: "tm_rows (start_manager utc used T files) = U" by (simp add: start_manager_def reconcile_interrupted_query_tasks_def U)
  have at: "task_at ?R t = map_option (\<lambda>r. if terminal (qt_status r) then r else cancelled_row utc ''SERVICE_RESTARTED'' r) (task_at T t)"
  proof -
    have "task_at ?R t = map_option (\<lambda>r. if \<not> terminal (qt_status r) then cancelled_row utc ''SERVICE_RESTARTED'' r else r) (task_at T t)"
      by (rule find_row_update_where) (simp add: cancelled_row_def)
    also have "(\<lambda>r. if \<not> terminal (qt_status r) then cancelled_row utc ''SERVICE_RESTARTED'' r else r)
        = (\<lambda>r. if terminal (qt_status r) then r else cancelled_row utc ''SERVICE_RESTARTED'' r)" by auto
    finally show ?thesis .
  qed
  show "task_at (tm_rows (start_manager utc used T files)) t = None \<or> (\<exists>r. task_at T t = Some r \<and>
     task_at (tm_rows (start_manager utc used T files)) t = Some (if terminal (qt_status r) then r else cancelled_row utc ''SERVICE_RESTARTED'' r))"
  proof (cases "task_at U t")
    case None
    then show ?thesis by (simp add: rows)
  next
    case (Some s)
    then have "s \<in> set ?R" "qt_id s = t" using find_row_SomeD [OF Some] by (simp_all add: P)
    moreover have "distinct (map qt_id ?R)" using assms ids by simp
    ultimately have "task_at ?R t = Some s" by (simp add: find_row_iff)
    then show ?thesis using Some by (auto simp: at rows)
  qed
  show "tm_used (start_manager utc used T files) = used" by (simp add: start_manager_def Let_def split: prod.split)
qed

lemma used_kept: "task_step bytes_of workers M N \<Longrightarrow> tm_used M \<subseteq> tm_used N"
proof (induction rule: task_step.cases)
  case (work M t g now utc out written)
  have "tm_used (work bytes_of now utc out written t g M) = tm_used M"
    by (cases g) (simp_all add: move_to_def checked_def flush_row_def split_beta split: query_outcome.split option.split)
  then show ?case using work by simp
qed (auto simp: submit_task_def take_task_def report_advance_def cancel_row_def set_flag_def withdraw_def begin_shutdown_def withdraw_queue_def Let_def
    split: if_splits prod.splits)

lemma gone_stays:
  assumes ok: "tasks_ok workers M" and step: "task_step bytes_of workers M N" and t: "t \<in> tm_used M" "task_at (tm_rows M) t = None"
  shows "task_at (tm_rows N) t = None"
proof -
  have "qt_id ` set (tm_rows N) \<subseteq> qt_id ` set (tm_rows M) \<union> (tm_used N - tm_used M)"
    using step
  proof (cases rule: task_step.cases)
    case (submit u utc query indexed_only deadline)
    then show ?thesis by (auto simp: submit_task_def create_query_task_def split: if_splits)
  next
    case (work u g now utc out written)
    have ids: "qt_id ` set (update_where P f T) = qt_id ` set T" if "\<And>r. qt_id (f r) = qt_id r" for P f T
      using ids_update [of f P T] that by (metis set_map)
    have start: "qt_id ` set (snd (start_query_task utc u T)) = qt_id ` set T" for T by (simp add: start_query_task_def ids)
    have prune: "qt_id ` set (snd (prune_query_tasks 100 T)) \<subseteq> qt_id ` set T" for T by (auto simp: prune_query_tasks_def Let_def)
    show ?thesis using prune [of "tm_rows M"] unfolding work(1)
      by (cases g) (auto simp: move_to_def checked_def flush_row_def update_query_task_def finish_query_task_def ids start split_beta split: query_outcome.split option.split)
  next
    case (cancel utc u)
    then have "tm_rows N = map (cancel_change utc u) (tm_rows M)" using cancel_row_ok [OF ok] by simp
    then show ?thesis using cancel_change_step by (auto simp: status_step_def)
  next
    case (shutdown_next u ts utc L)
    then have "tm_rows N = map (cancel_change utc u) (tm_rows M)" using cancel_row_ok [OF ok] by simp
    then show ?thesis using cancel_change_step by (auto simp: status_step_def)
  next
    case (plan u now a b c d e)
    then show ?thesis by (auto simp: update_query_task_def in_set_update_where set_plan_def)
  next
    case (batch u now label)
    then show ?thesis by (auto simp: update_query_task_def in_set_update_where begin_batch_def)
  next
    case (advance u now fl bytes force)
    then show ?thesis by (auto simp: report_advance_def Let_def update_query_task_def in_set_update_where advanced_def flushed_def split: prod.splits if_splits)
  qed (auto simp: take_task_def set_flag_def withdraw_def begin_shutdown_def withdraw_queue_def Let_def)
  then show ?thesis using t by (auto simp: find_row_None)
qed

definition settled :: "string \<Rightarrow> task_row \<Rightarrow> manager \<Rightarrow> bool" where
  "settled t r N \<longleftrightarrow> t \<in> tm_used N \<and> (task_at (tm_rows N) t = Some r \<or> task_at (tm_rows N) t = None)"

text \<open>
  Property C37. A finished task is final: whatever cancellations, shutdowns and restarts follow, its row keeps its status, its
  result and its error until it is pruned, and never comes back.
\<close>

theorem finished_task_final:
  assumes "(service_step bytes_of workers)\<^sup>*\<^sup>* (start_manager utc used T files) M" "table_ok T files" "qt_id ` set T \<subseteq> used"
    and "task_at (tm_rows M) t = Some r" "terminal (qt_status r)" and "(service_step bytes_of workers)\<^sup>*\<^sup>* M N"
  shows "task_at (tm_rows N) t = Some r \<or> task_at (tm_rows N) t = None"
proof -
  have ok: "tasks_ok workers M" using tasks.reachable_inv [OF assms(1) start_manager_ok [OF assms(2,3)]] .
  have "settled t r M" using tasks_okE(1) [OF ok] find_row_SomeD [OF assms(4)] assms(4) by (auto simp: keys_ok_def settled_def)
  moreover have "settled t r N" if "tasks_ok workers M" "service_step bytes_of workers M N" "settled t r M" for M N
    using that(2)
  proof (cases rule: service_step.cases)
    case act
    then have "t \<in> tm_used N" using used_kept [OF act] that(3) by (auto simp: settled_def)
    moreover have "row_after M t r (task_at (tm_rows N) t)" if "task_at (tm_rows M) t = Some r"
      using row_after_step [OF \<open>tasks_ok workers M\<close> act that] .
    ultimately show ?thesis using that(3) assms(5) gone_stays [OF that(1) act, of t] by (auto simp: row_after_def settled_def split: option.splits)
  next
    case (restart utc)
    have dist: "distinct (map qt_id (tm_rows M))" by (rule tasks_okD(1) [OF that(1)])
    from start_rows(1) [OF dist, where utc = utc and used = "tm_used M" and files = "tm_files M" and t = t] show ?thesis
      using that(3) assms(5) start_rows(2) [OF dist] by (auto simp: restart settled_def)
  qed
  ultimately have "settled t r N" using tasks.reachable_frame [of workers bytes_of "settled t r", OF _ assms(6) ok] by blast
  then show ?thesis by (simp add: settled_def)
qed

text \<open>A control that was flagged stays flagged as long as it exists; only a worker whose control is not flagged commits a result.\<close>

definition flagged :: "string \<Rightarrow> manager \<Rightarrow> bool" where
  "flagged t M \<longleftrightarrow> t \<in> tm_used M \<and> (\<forall>c. map_of (tm_controls M) t = Some c \<longrightarrow> ct_cancelled c)
     \<and> (\<forall>n b. map_of (tm_stage M) t \<noteq> Some (Committing n b)) \<and> (\<forall>r. task_at (tm_rows M) t = Some r \<longrightarrow> qt_status r \<noteq> Succeeded)"

lemma advance_keeps_flag: "advance_control now bytes force c = (b, d) \<Longrightarrow> ct_cancelled d = ct_cancelled c"
  by (auto simp: advance_control_def Let_def split: if_splits)

lemma flagged_checks:
  assumes "tasks_ok workers M" "flagged t M" "map_of (tm_stage M) t = Some g"
  shows "check_cancelled now (control_of M t) = Some QueryCancelled"
proof -
  obtain c where "map_of (tm_controls M) t = Some c" using tasks_okD(4) [OF assms(1,3)] by blast
  then show ?thesis using assms(2) by (simp add: flagged_def control_of_def check_cancelled_def)
qed

lemma flagged_step:
  assumes ok: "tasks_ok workers M" and f: "flagged t M" and step: "task_step bytes_of workers M N"
  shows "flagged t N"
proof -
  have used: "t \<in> tm_used N" using used_kept [OF step] f by (auto simp: flagged_def)
  have row: "qt_status s \<noteq> Succeeded" if "task_at (tm_rows N) t = Some s" for s
  proof (cases "task_at (tm_rows M) t")
    case None
    then show ?thesis using gone_stays [OF ok step _ None] f that by (simp add: flagged_def)
  next
    case (Some r)
    then show ?thesis using row_after_step [OF ok step Some] f that by (auto simp: row_after_def flagged_def)
  qed
  have "(\<forall>c. map_of (tm_controls N) t = Some c \<longrightarrow> ct_cancelled c) \<and> (\<forall>n b. map_of (tm_stage N) t \<noteq> Some (Committing n b))"
    using step
  proof (cases rule: task_step.cases)
    case (submit u utc query indexed_only deadline)
    then have "u \<noteq> t" using f by (auto simp: flagged_def)
    then show ?thesis using submit f by (auto simp: submit_task_def flagged_def map_add_def split: if_splits option.splits)
  next
    case (run u ts)
    then show ?thesis using f by (auto simp: take_task_def flagged_def)
  next
    case (work u g now utc out written)
    have stage: "map_of (tm_stage (move_to v h X)) t = (if v = t then Some h else map_of (tm_stage X) t)"
      "tm_controls (move_to v h X) = tm_controls X" for v h X by (simp_all add: move_to_def update_conv')
    have "\<forall>n b. halted s \<noteq> Committing n b" for s by simp
    then show ?thesis using f flagged_checks [OF ok f, of g now] work
      by (cases g) (auto simp: flagged_def stage checked_def flush_row_def split_beta delete_conv' update_conv' split: query_outcome.split option.split if_splits)
  next
    case (advance u now fl bytes force)
    obtain b c where A: "advance_control now bytes force (control_of M u) = (b, c)" by fastforce
    have "tm_controls N = map (\<lambda>(v, d). (v, if v = u then c else d)) (tm_controls M)" "tm_stage N = tm_stage M"
      by (simp_all add: advance report_advance_def A Let_def)
    then show ?thesis using f advance_keeps_flag [OF A] by (auto simp: flagged_def mapped_controls control_of_def)
  next
    case (cancel utc u)
    then show ?thesis using f by (auto simp: cancel_row_def flagged_def split: prod.splits if_splits)
  next
    case (flag u)
    then show ?thesis using f by (auto simp: set_flag_def mapped_controls flagged_def)
  next
    case (shutdown_next u ts utc L)
    then show ?thesis using f by (auto simp: cancel_row_def flagged_def split: prod.splits if_splits)
  qed (use f in \<open>auto simp: withdraw_def begin_shutdown_def withdraw_queue_def flagged_def Let_def\<close>)
  then show ?thesis using used row by (auto simp: flagged_def)
qed

text \<open>
  Property C12. A cancellation that reaches a task before its final check is not overtaken: once the task's flag is set and
  its worker has not passed the check before the final statement, the task never becomes \<open>Succeeded\<close>.
\<close>

theorem cancelled_task_not_published:
  assumes "(service_step bytes_of workers)\<^sup>*\<^sup>* (start_manager utc used T files) M" "table_ok T files" "qt_id ` set T \<subseteq> used"
    and "map_of (tm_controls M) t = Some c" "ct_cancelled c" "task_at (tm_rows M) t = Some r" "qt_status r \<noteq> Succeeded"
    and "\<And>n b. map_of (tm_stage M) t \<noteq> Some (Committing n b)"
    and "(service_step bytes_of workers)\<^sup>*\<^sup>* M N" "task_at (tm_rows N) t = Some s"
  shows "qt_status s \<noteq> Succeeded"
proof -
  have ok: "tasks_ok workers M" using tasks.reachable_inv [OF assms(1) start_manager_ok [OF assms(2,3)]] .
  have "t \<in> tm_used M" using tasks_okE(1) [OF ok] find_row_SomeD [OF assms(6)] by (auto simp: keys_ok_def)
  then have "flagged t M" using assms(4-8) by (simp add: flagged_def)
  moreover have "flagged t N" if "tasks_ok workers M" "service_step bytes_of workers M N" "flagged t M" for M N
    using that(2)
  proof (cases rule: service_step.cases)
    case act
    then show ?thesis using flagged_step [OF that(1,3)] by blast
  next
    case (restart utc)
    have dist: "distinct (map qt_id (tm_rows M))" by (rule tasks_okD(1) [OF that(1)])
    have empty: "tm_controls N = []" "tm_stage N = []" by (simp_all add: restart start_manager_def Let_def split: prod.split)
    from start_rows(1) [OF dist, where utc = utc and used = "tm_used M" and files = "tm_files M" and t = t]
    show ?thesis using that(3) start_rows(2) [OF dist, of utc "tm_used M" "tm_files M"] empty
      by (auto simp: flagged_def restart cancelled_row_def terminal_def split: if_splits)
  qed
  ultimately have "flagged t N" using tasks.reachable_frame [of workers bytes_of "flagged t", OF _ assms(9) ok] by blast
  then show ?thesis using assms(10) by (simp add: flagged_def)
qed


text \<open>A task withdrawn before it ran: no worker ever removes its control.\<close>

definition leaked :: "manager \<Rightarrow> string \<Rightarrow> bool" where
  "leaked M t \<longleftrightarrow> map_of (tm_futures M) t = Some Withdrawn \<and> t \<in> fst ` set (tm_controls M) \<and> t \<in> tm_used M"

lemma leaked_step:
  assumes ok: "tasks_ok workers M" and t: "leaked M t" and step: "task_step bytes_of workers M N"
  shows "leaked N t"
proof -
  have used: "t \<in> tm_used N" using used_kept [OF step] t by (auto simp: leaked_def)
  have "map_of (tm_futures N) t = Some Withdrawn \<and> t \<in> fst ` set (tm_controls N)"
    using step
  proof (cases rule: task_step.cases)
    case (submit u utc query indexed_only deadline)
    then have "u \<noteq> t" using t by (auto simp: leaked_def)
    then show ?thesis using submit t by (auto simp: submit_task_def leaked_def split: if_splits)
  next
    case (run u ts)
    then have "u \<noteq> t" using tasks_okD(5) [OF ok, of u] t by (auto simp: leaked_def)
    then show ?thesis using run t by (simp add: take_task_def leaked_def update_conv')
  next
    case (work u g now utc out written)
    then have "u \<noteq> t" using tasks_okD(4) [OF ok, of u g] t by (auto simp: leaked_def)
    moreover have "fst ` set (AList.delete u (tm_controls M)) = fst ` set (tm_controls M) - {u}" using delete_keys [of u "tm_controls M"]
      by (metis set_map set_removeAll)
    ultimately show ?thesis using t work
      by (cases g) (simp_all add: leaked_def move_to_def checked_def flush_row_def split_beta delete_conv' split: query_outcome.split option.split)
  next
    case (advance u now fl bytes force)
    obtain b c where A: "advance_control now bytes force (control_of M u) = (b, c)" by fastforce
    have "tm_controls N = map (\<lambda>(v, d). (v, if v = u then c else d)) (tm_controls M)" "tm_futures N = tm_futures M"
      by (simp_all add: advance report_advance_def A Let_def)
    then show ?thesis using t unfolding leaked_def by (simp only: mapped_controls)
  next
    case (cancel utc u)
    then show ?thesis using t by (auto simp: cancel_row_def leaked_def split: prod.splits if_splits)
  next
    case (flag u)
    then have "tm_controls N = map (\<lambda>(v, c). (v, if v = u then c\<lparr>ct_cancelled := True\<rparr> else c)) (tm_controls M)" "tm_futures N = tm_futures M"
      by (simp_all add: set_flag_def)
    then show ?thesis using t unfolding leaked_def by (simp only: mapped_controls)
  next
    case (withdraw u)
    then show ?thesis using t by (auto simp: withdraw_def leaked_def update_conv' Let_def)
  next
    case (shutdown_next u ts utc L)
    then show ?thesis using t by (auto simp: cancel_row_def leaked_def split: prod.splits if_splits)
  next
    case shutdown_end
    then show ?thesis using t by (simp add: withdraw_queue_def leaked_def map_of_queue)
  qed (use t in \<open>simp_all add: begin_shutdown_def leaked_def\<close>)
  then show ?thesis using used by (simp add: leaked_def)
qed

text \<open>
  Property C38. Slots leak: once as many queued tasks as there are workers were cancelled before a thread took them, every indexed
  query is refused until the process is restarted, whatever happens and even if no task is queued or running.
\<close>

theorem leaked_slots_refuse:
  assumes "(service_step bytes_of workers)\<^sup>*\<^sup>* (start_manager utc used T files) M" "table_ok T files" "qt_id ` set T \<subseteq> used"
    and "distinct ts" "workers \<le> length ts" "\<And>t. t \<in> set ts \<Longrightarrow> leaked M t" "(task_step bytes_of workers)\<^sup>*\<^sup>* M N"
  shows "\<exists>x. submit_task workers now u query True deadline N = Inl x"
proof -
  have ok: "tasks_ok workers M" using tasks.reachable_inv [OF assms(1) start_manager_ok [OF assms(2,3)]] .
  have "tasks_ok workers N \<and> (\<forall>t \<in> set ts. leaked N t)"
    using assms(7)
  proof (induction rule: rtranclp_induct)
    case base
    then show ?case using ok assms(6) by blast
  next
    case (step K L)
    then show ?case using task_step_ok leaked_step by blast
  qed
  then have "set ts \<subseteq> fst ` set (tm_controls N)" by (auto simp: leaked_def)
  then have "card (set ts) \<le> card (set (map fst (tm_controls N)))" by (intro card_mono) simp_all
  also have "\<dots> \<le> length (tm_controls N)" using card_length [of "map fst (tm_controls N)"] by simp
  finally have "workers \<le> length (tm_controls N)" using assms(4,5) distinct_card [of ts] by simp
  then show ?thesis by (simp add: submit_task_def)
qed


section \<open>Concrete runs\<close>

abbreviation "sample_bytes \<equiv> (\<lambda>_. 0) :: string \<Rightarrow> int"

definition sample_start :: manager where "sample_start = start_manager ''0'' {} [] (\<lambda>_. None)"

definition sample_queued :: manager where "sample_queued = projr (submit_task 1 ''1'' ''a'' ''q'' False None sample_start)"

definition sample_executing :: manager where
  "sample_executing = work sample_bytes 5 ''3'' SawCancel True ''a'' Admitted (work sample_bytes 5 ''2'' SawCancel True ''a'' Starting (take_task ''a'' [] sample_queued))"

definition sample_flagged :: manager where "sample_flagged = set_flag ''a'' (the (cancel_row ''4'' ''a'' sample_executing))"

definition sample_finished :: manager where
  "sample_finished = work sample_bytes 8 ''8'' SawCancel True ''a'' (Ending Cancelled ''QUERY_CANCELLED'')
     (work sample_bytes 7 ''7'' SawCancel True ''a'' (Stopped Cancelled ''QUERY_CANCELLED'') (work sample_bytes 6 ''6'' SawCancel True ''a'' Executing sample_flagged))"

definition sample_leaked :: manager where
  "sample_leaked = withdraw ''a'' (set_flag ''a'' (the (cancel_row ''2'' ''a'' sample_queued)))"

lemma sample_queued_eq: "submit_task 1 ''1'' ''a'' ''q'' False None sample_start = Inr sample_queued"
  "tm_queue sample_queued = [''a'']" "tm_stage sample_queued = []" "''a'' \<notin> tm_used sample_start"
  by (simp_all add: sample_queued_def submit_task_def sample_start_def start_manager_def prune_query_tasks_def reconcile_interrupted_query_tasks_def newest_tasks_def
      Let_def)


lemmas run_defs = work.simps take_task_def move_to_def checked_def control_of_def check_cancelled_def halted_def start_query_task_def startable_def
  set_flag_def cancel_row_def request_query_task_cancel_def cancelled_row_def withdraw_def flush_row_def update_query_task_def flushed_def
  finish_query_task_def terminal_def

lemma sample_queued_is:
  "sample_queued = \<lparr>tm_rows = create_query_task ''1'' ''a'' ''q'' [], tm_files = (\<lambda>_. None), tm_controls = [(''a'', \<lparr>ct_cancelled = False, ct_deadline = None,
     ct_completed = 0, ct_scanned = 0, ct_last_flush = 0\<rparr>)], tm_futures = [(''a'', Pending)], tm_queue = [''a''], tm_stage = [], tm_cancels = {},
     tm_closing = False, tm_todo = None, tm_used = {''a''}\<rparr>"
  by (simp add: sample_queued_def submit_task_def sample_start_def start_manager_def prune_query_tasks_def reconcile_interrupted_query_tasks_def newest_tasks_def
      remove_results_def Let_def)

lemma sample_executing_is: "map_of (tm_stage sample_executing) ''a'' = Some Executing"
  "map qt_status (tm_rows sample_executing) = [Running]" "map qt_id (tm_rows sample_executing) = [''a'']"
  by (simp_all add: sample_executing_def sample_queued_is create_query_task_def run_defs)

lemma sample_flagged_is: "cancel_row ''4'' ''a'' sample_executing \<noteq> None"
  "map_of (tm_stage sample_flagged) ''a'' = Some Executing" "map_of (tm_controls sample_flagged) ''a'' = Some \<lparr>ct_cancelled = True, ct_deadline = None,
     ct_completed = 0, ct_scanned = 0, ct_last_flush = 0\<rparr>"
  "map qt_status (tm_rows sample_flagged) = [Cancelling]" "map qt_id (tm_rows sample_flagged) = [''a'']"
  by (simp_all add: sample_flagged_def sample_executing_def sample_queued_is create_query_task_def run_defs)

lemma sample_finished_is: "map_of (tm_stage sample_finished) ''a'' = Some Pruning" "map qt_status (tm_rows sample_finished) = [Cancelled]"
  "map qt_id (tm_rows sample_finished) = [''a'']"
  by (simp_all add: sample_finished_def sample_flagged_def sample_executing_def sample_queued_is create_query_task_def run_defs)

lemma sample_leaked_is: "cancel_row ''2'' ''a'' sample_queued \<noteq> None" "leaked sample_leaked ''a''" "tm_queue sample_leaked = [] \<and> tm_stage sample_leaked = []"
  "map qt_status (tm_rows sample_leaked) = [Cancelled]"
  by (simp_all add: sample_leaked_def sample_queued_is create_query_task_def leaked_def run_defs)


lemma sample_steps:
  "(task_step sample_bytes 1)\<^sup>*\<^sup>* sample_start sample_queued"
  "(task_step sample_bytes 1)\<^sup>*\<^sup>* sample_queued sample_executing"
  "(task_step sample_bytes 1)\<^sup>*\<^sup>* sample_executing sample_flagged"
  "(task_step sample_bytes 1)\<^sup>*\<^sup>* sample_flagged sample_finished"
  "(task_step sample_bytes 1)\<^sup>*\<^sup>* sample_queued sample_leaked"
proof -
  show "(task_step sample_bytes 1)\<^sup>*\<^sup>* sample_start sample_queued"
    using task_step.submit [OF sample_queued_eq(4,1)] by blast
  obtain A where A: "A = take_task ''a'' [] sample_queued" by simp
  obtain B where B: "B = work sample_bytes 5 ''2'' SawCancel True ''a'' Starting A" by simp
  have "task_step sample_bytes 1 sample_queued A" unfolding A by (rule task_step.run) (simp_all add: sample_queued_is)
  moreover have "task_step sample_bytes 1 A B" unfolding B by (rule task_step.work) (simp add: A sample_queued_is run_defs)
  moreover have "task_step sample_bytes 1 B sample_executing" unfolding sample_executing_def A [symmetric] B [symmetric]
    by (rule task_step.work) (simp add: A B sample_queued_is create_query_task_def run_defs)
  ultimately show "(task_step sample_bytes 1)\<^sup>*\<^sup>* sample_queued sample_executing" by (blast intro: rtranclp.rtrancl_into_rtrancl)
  obtain C where C: "cancel_row ''4'' ''a'' sample_executing = Some C" using sample_flagged_is(1) by auto
  have "(''a'', SetFlag) \<in> tm_cancels C" using C by (auto simp: cancel_row_def split: prod.splits if_splits)
  then have "task_step sample_bytes 1 C sample_flagged" unfolding sample_flagged_def C option.sel by (rule task_step.flag)
  with task_step.cancel [OF C] show "(task_step sample_bytes 1)\<^sup>*\<^sup>* sample_executing sample_flagged" by (blast intro: rtranclp.rtrancl_into_rtrancl)
  obtain D where D: "D = work sample_bytes 6 ''6'' SawCancel True ''a'' Executing sample_flagged" by simp
  obtain E where E: "E = work sample_bytes 7 ''7'' SawCancel True ''a'' (Stopped Cancelled ''QUERY_CANCELLED'') D" by simp
  have d: "map_of (tm_stage D) ''a'' = Some (Stopped Cancelled ''QUERY_CANCELLED'')"
    using sample_flagged_is(3) by (simp add: D run_defs update_conv')
  have "task_step sample_bytes 1 sample_flagged D" unfolding D by (rule task_step.work) (rule sample_flagged_is(2))
  moreover have "task_step sample_bytes 1 D E" unfolding E by (rule task_step.work) (rule d)
  moreover have "task_step sample_bytes 1 E sample_finished" unfolding sample_finished_def D [symmetric] E [symmetric]
    by (rule task_step.work) (simp add: E move_to_def update_conv')
  ultimately show "(task_step sample_bytes 1)\<^sup>*\<^sup>* sample_flagged sample_finished" by (blast intro: rtranclp.rtrancl_into_rtrancl)
  obtain F where F: "cancel_row ''2'' ''a'' sample_queued = Some F" using sample_leaked_is(1) by auto
  have f: "(''a'', SetFlag) \<in> tm_cancels F" using F by (auto simp: cancel_row_def split: prod.splits if_splits)
  have "task_step sample_bytes 1 F (set_flag ''a'' F)" using f by (rule task_step.flag)
  moreover have "task_step sample_bytes 1 (set_flag ''a'' F) sample_leaked" unfolding sample_leaked_def F option.sel
    by (rule task_step.withdraw) (simp add: set_flag_def)
  ultimately show "(task_step sample_bytes 1)\<^sup>*\<^sup>* sample_queued sample_leaked" using task_step.cancel [OF F] by (blast intro: rtranclp.rtrancl_into_rtrancl)
qed

lemma service_steps: "(task_step bytes_of workers)\<^sup>*\<^sup>* M N \<Longrightarrow> (service_step bytes_of workers)\<^sup>*\<^sup>* M N"
  by (rule rtranclp_mono [THEN predicate2D]) (auto intro: service_step.act)

lemma sample_service:
  "(service_step sample_bytes 1)\<^sup>*\<^sup>* (start_manager ''0'' {} [] (\<lambda>_. None)) sample_flagged"
  "(service_step sample_bytes 1)\<^sup>*\<^sup>* sample_flagged sample_finished"
  "(service_step sample_bytes 1)\<^sup>*\<^sup>* (start_manager ''0'' {} [] (\<lambda>_. None)) sample_finished"
  "(service_step sample_bytes 1)\<^sup>*\<^sup>* (start_manager ''0'' {} [] (\<lambda>_. None)) sample_leaked"
proof -
  note s = sample_steps [unfolded sample_start_def, THEN service_steps]
  show a: "(service_step sample_bytes 1)\<^sup>*\<^sup>* (start_manager ''0'' {} [] (\<lambda>_. None)) sample_flagged"
    by (rule rtranclp_trans [OF s(1) rtranclp_trans [OF s(2) s(3)]])
  show b: "(service_step sample_bytes 1)\<^sup>*\<^sup>* sample_flagged sample_finished" by (rule s(4))
  show "(service_step sample_bytes 1)\<^sup>*\<^sup>* (start_manager ''0'' {} [] (\<lambda>_. None)) sample_finished" by (rule rtranclp_trans [OF a b])
  show "(service_step sample_bytes 1)\<^sup>*\<^sup>* (start_manager ''0'' {} [] (\<lambda>_. None)) sample_leaked" by (rule rtranclp_trans [OF s(1) s(5)])
qed

lemma one_row: "map f T = [x] \<Longrightarrow> map qt_id T = [t] \<Longrightarrow> \<exists>r. T = [r] \<and> qt_id r = t \<and> f r = x"
  by (cases T) auto

lemma table_ok_empty: "table_ok [] files" by (simp add: table_ok_def)

lemma tasks_accounted_for_witness:
  "\<exists>g. map_of (tm_stage sample_flagged) ''a'' = Some g \<and> holding g"
proof -
  obtain r where r: "tm_rows sample_flagged = [r]" "qt_id r = ''a''" "qt_status r = Cancelling"
    using one_row [OF sample_flagged_is(4,5)] by blast
  show ?thesis using tasks_accounted_for [OF sample_service(1) table_ok_empty, of r] r by simp
qed

lemma finished_task_final_witness:
  "\<exists>r. task_at (tm_rows sample_finished) ''a'' = Some r \<and> terminal (qt_status r)
     \<and> (task_at (tm_rows (start_manager ''9'' (tm_used sample_finished) (tm_rows sample_finished) (tm_files sample_finished))) ''a'' \<in> {Some r, None})"
proof -
  obtain r where r: "tm_rows sample_finished = [r]" "qt_id r = ''a''" "qt_status r = Cancelled"
    using one_row [OF sample_finished_is(2,3)] by blast
  have at: "task_at (tm_rows sample_finished) ''a'' = Some r" "terminal (qt_status r)" using r by (simp_all add: terminal_def)
  have "(service_step sample_bytes 1)\<^sup>*\<^sup>* sample_finished (start_manager ''9'' (tm_used sample_finished) (tm_rows sample_finished) (tm_files sample_finished))"
    using service_step.restart by blast
  from finished_task_final [OF sample_service(3) table_ok_empty _ at this] show ?thesis using at by auto
qed

lemma cancelled_task_not_published_witness:
  "\<exists>r. task_at (tm_rows sample_finished) ''a'' = Some r \<and> qt_status r \<noteq> Succeeded"
proof -
  obtain r where r: "tm_rows sample_flagged = [r]" "qt_id r = ''a''" "qt_status r = Cancelling"
    using one_row [OF sample_flagged_is(4,5)] by blast
  obtain s where s: "tm_rows sample_finished = [s]" "qt_id s = ''a''"
    using one_row [OF sample_finished_is(2,3)] by blast
  show ?thesis
    using cancelled_task_not_published [OF sample_service(1) table_ok_empty _ sample_flagged_is(3) _ _ _ _ sample_service(2), of r s] r s sample_flagged_is(2)
    by simp
qed

lemma leaked_slots_refuse_witness:
  "tm_queue sample_leaked = [] \<and> tm_stage sample_leaked = [] \<and> (\<exists>x. submit_task 1 ''5'' ''b'' ''q'' True None sample_leaked = Inl x)"
  using leaked_slots_refuse [OF sample_service(4) table_ok_empty _ _ _ _ rtranclp.rtrancl_refl, of "[''a'']"] sample_leaked_is(2,3) by simp

end
