(* ===== verification/Spec2Isabelle.thy ===== *)
theory Spec2Isabelle
  imports Checksum Manifest ManifestReconcile SourceQueue ChangeQueue
    RowQuery InstanceCoverage Discovery RowsSafety RowsIngest RowsSchedule PartSafety
    SlowLogWindow TieredSafety SearchSafety QueryTasks
begin

text \<open>
  RDS Binlog Insight: a verification development.

  The program collects the binlogs and slow logs of RDS instances, stores their events and answers queries on them. A listing
  of the RDS API registers source files; files are downloaded, checked and parsed into Parquet parts kept locally and in OSS;
  parts are handed to ClickHouse through a manifest; original binlogs are loaded row by row into a second ClickHouse store;
  queries read the Parquet parts, the row store or the live tail of the slow log, and say which part of their window the
  collected data cover. Python code under \<open>src/app\<close> does all of this in several threads and processes that share SQLite
  databases; this development models its durable state and the code that keeps it consistent.

  \<^bold>\<open>Conventions.\<close> A table is the list of its rows, an SQL statement a function on it, a transaction that raises leaves it
  unchanged (\<open>None\<close> or an error value). Python integers are \<open>int\<close> (\<open>Checksum\<close> and \<open>RowsIngest\<close>: words), dicts keep their
  order as association lists. Clocks, services (RDS, DAS, OSS, ClickHouse), hashes and the parser are parameters; what is
  relied on about them is a hypothesis of the theorem. Concurrency is a relation between states, one step per transaction,
  lock section or file operation, with crashes and restarts as further steps; its invariants go through the locale
  \<open>transition_system\<close> of \<open>Prelude\<close>, its job queues through the locale \<open>claim_queue\<close>.

  \<^bold>\<open>Source files and the manifest.\<close>
  \<^item> \<open>Prelude\<close>: SQL-like updates of a list of rows, stable orders, the two locales. \<open>Texts\<close>: \<open>strip\<close>, \<open>upper\<close>, \<open>split\<close>.
  \<^item> \<open>Checksum\<close> (\<open>checksum.py\<close>): the table-driven CRC64; equal to the bit-serial division, independent of chunks.
  \<^item> \<open>FileCatalog\<close> (\<open>metadata.py\<close>, table \<open>binlog_files\<close>): registration, refresh and the states of a file. Lemmas: what every
    operation keeps of the rows, what a listed page returns, which links and errors a state may carry.
  \<^item> \<open>SourceQueue\<close> (\<open>metadata.py\<close>): files and parts with the triggers that queue a change; every statement keeps the queue
    complete. \<open>Manifest\<close>, \<open>ManifestReconcile\<close> (\<open>clickhouse_manifest.py\<close>): the rows of \<open>clickhouse_parts\<close>, their claims,
    loads, deletions and coverage; the streaming and the row-wise reconcile compute the same table.
  \<^item> \<open>ChangeQueue\<close> (\<open>clickhouse_change_queue.py\<close>, \<open>reconcile_once\<close> of \<open>clickhouse_ingest.py\<close>): the hand-over between the two,
    as the routine and as steps interleaved with mutations, full and incremental reconciles, worker jobs and crashes. An open
    gate means that the manifest agrees with the source for every part that does not end before the history start the gate
    reports. A full reconcile takes its parts and its window from one read; the steps assume of it what \<open>sweep_fits\<close> says (the
    start of the history does not move back, no acknowledged part begins after its window).

  \<^bold>\<open>Time, hosts and coverage.\<close>
  \<^item> \<open>IsoTime\<close>: the texts \<open>YYYY-MM-DDTHH:MM:SSZ\<close>, their round trip and their order. \<open>Spans\<close>: merging and subtracting spans,
    specified by the points they cover.
  \<^item> \<open>HostPlan\<close>, \<open>Discovery\<close> (\<open>sync_discovery.py\<close>): which host's files make the timeline of an instance, with the memoised
    merges of the class; a retained pass in slices, numbering holes, the queue of files to process. A pass that reports success
    listed every moment of its window.
  \<^item> \<open>RowCoverage\<close>, \<open>InstanceCoverage\<close>, \<open>RowQuery\<close> (\<open>binlog_rows.py\<close>): covered intervals and gap reasons of a window, the cache
    of ingested files, the query by day slices that halves a slice refused for memory. \<open>WindowAlign\<close> (\<open>window_align.py\<close>): where
    a window lands that is not covered.

  \<^bold>\<open>The row store.\<close>
  \<^item> \<open>RowsIngest\<close> (\<open>binlog_rows_worker.py\<close>): ranged reads with retries, the feeder, the record counter and the checks of a load.
  \<^item> \<open>RowsCommit\<close>, \<open>RowsSafety\<close>: the commit of one file and of a batch as programs of durable actions; a recorded file has each of
    its rows exactly once under any interleaving of lanes, failed statements and crashes that has none of four faults
    (\<open>no_faults\<close>). One of them the code makes itself: a failed batch leaves its recorded files out of the cached list of
    ingested files (\<open>w_loose\<close> holds them), and a lane that takes one before the list is read stores its rows twice.
  \<^item> \<open>RowsSchedule\<close>: retries, candidates and waits for capacity.

  \<^bold>\<open>Parquet parts and queries on them.\<close>
  \<^item> \<open>PartTables\<close>, \<open>PartStore\<close>, \<open>PartSafety\<close> (\<open>metadata.py\<close>): parts, their catalog, its audit, statistics and remembered probes,
    with the triggers; every operation keeps the statistics exact, the catalog work complete and the probes true. The steps
    exclude parts that begin at time 0 and re-encodings of other contents than the current ones; the code does not.
  \<^item> \<open>TopPage\<close>, \<open>EventFilter\<close> (\<open>storage.py\<close>): the order and merge of rows, the filter, the tests that skip a part or a row group.
  \<^item> \<open>TieredQuery\<close>, \<open>TieredSafety\<close> (\<open>_query_events_tiered_impl\<close>): the plan, the scan by concurrent readers with its early stop,
    the page. For a sound plan it is the page of all selected rows, and what is remembered about a part is true of it.
  \<^item> \<open>SearchIndex\<close>, \<open>SearchSafety\<close> (\<open>search_index.py\<close>): the row groups and full text tables of the index and the plan it gives the
    tiered query, whose soundness is proved for one state of the index and refuted for torn reads, rewritten parts and an
    index of the old layout opened with structural entries. The theorems on pages and probes combine it with \<open>TieredSafety\<close>.
  \<^item> \<open>QueryTasks\<close> (\<open>query_tasks.py\<close>): the manager that runs queries, cancellation, shutdown and restart, and its table.

  \<^bold>\<open>Slow logs.\<close> \<open>SlowLogTail\<close> (\<open>slowlog_tail.py\<close>): the newest statements of each node and what the buffer vouches for.
  \<open>SlowLogWindow\<close> (\<open>slowlog_impact_service.py\<close>, \<open>clickhouse_slowlog.py\<close>): the window of an analysis, cut back, moved or
  completed by the tail. A statement of the window published within the guard is in a part ready in ClickHouse or among the rows,
  except at the very edge of the tail's coverage.

  \<^bold>\<open>Bounds and schedules.\<close> No definition runs on fuel that could cut a result off. Loops over a clock or a service take a list of
  what they read on each turn (\<open>RowsSchedule\<close>, \<open>RowsIngest\<close>); the theorem quantifies over every list. The order in which readers of
  a tiered scan finish is a function from turns to readers, and the scan is proved to end on each. The halving loop of
  \<open>RowQuery\<close> ends by a measure on the slices that remain. Times are whole seconds or microseconds, as the texts and columns they
  come from; calendars hold for the years 1 to 9999.

  \<^bold>\<open>Findings.\<close> The theorems on the stale cache of ingested files (\<open>RowsSafety\<close>), stale re-encodings (\<open>PartSafety\<close>), leaked
  slots (\<open>QueryTasks\<close>), torn reads and rewritten parts (\<open>SearchSafety\<close>), and the lemmas \<open>legacy_open_forgets\<close> and
  \<open>part_after_window_swept\<close> exhibit defects of the code. The other theorems exclude these defects by name, in a hypothesis or in
  a guard of the step relation; the text before each says which.

  \<^bold>\<open>Not modelled.\<close> HTTP, settings, sub-processes, supervisors and the browser client (input and output around the components
  above); \<open>pipeline.py\<close>, whose threads call the modelled operations of the catalog and the part store; the exact and
  rollup indexes, whose verdicts are parameters of the tiered query; the text of SQL sent to ClickHouse; floating point
  evidence of the resource analysis; the MongoDB engine, sessions and log collectors; the Go parser.
\<close>

end
